(* ===== verification/RR_Prelude.thy ===== *)
theory RR_Prelude imports Main "HOL-Library.Word" begin

text \<open>
  Shared vocabulary of the development.

  \<^item> \<open>outcome\<close>: the result of a Rust call. \<open>Ok\<close> and \<open>Err\<close> are the two constructors of
    \<open>Result\<close>; \<open>Panic\<close> is a call that does not return (an index out of bounds, an arithmetic
    overflow, an \<open>unwrap\<close> of \<open>None\<close>). Arithmetic overflow is modelled as in a build with
    overflow checks: a theorem that a call never is \<open>Panic\<close> therefore also says that no
    operation wraps around silently in a release build.
  \<^item> \<open>bind_o\<close> is the \<open>?\<close> operator, \<open>wave\<close> is a concurrent \<open>join_all\<close> of
    independent reads whose results are then propagated in order.
  \<^item> Unsigned machine integers are naturals with their width written out in the operations
    that can leave it (\<open>checked_add\<close>, \<open>sat_add\<close>, \<open>add_p\<close>, \<open>sub_p\<close>); hashes and
    bit-twiddling code use \<open>64 word\<close>.
  \<^item> Slices: \<open>cut_p\<close> is \<open>&b[s..e]\<close> (it panics out of range), \<open>get_range\<close> is
    \<open>b.get(s..e)\<close>.
  \<^item> \<open>bsearch\<close> is the bisection behind \<open>slice::binary_search\<close>.
\<close>

section \<open>Outcomes\<close>

datatype ('e, 'a) outcome = Ok 'a | Err 'e | Panic

named_theorems outcome_simps "unfolding rules for the outcome combinators"

fun bind_o :: "('e, 'a) outcome \<Rightarrow> ('a \<Rightarrow> ('e, 'b) outcome) \<Rightarrow> ('e, 'b) outcome" where
  "bind_o (Ok x) f = f x"
| "bind_o (Err e) f = Err e"
| "bind_o Panic f = Panic"

fun map_err :: "('e \<Rightarrow> 'f) \<Rightarrow> ('e, 'a) outcome \<Rightarrow> ('f, 'a) outcome" where
  "map_err g (Ok x) = Ok x"
| "map_err g (Err e) = Err (g e)"
| "map_err g Panic = Panic"

fun map_ok :: "('a \<Rightarrow> 'b) \<Rightarrow> ('e, 'a) outcome \<Rightarrow> ('e, 'b) outcome" where
  "map_ok g (Ok x) = Ok (g x)"
| "map_ok g (Err e) = Err e"
| "map_ok g Panic = Panic"

definition ok_or :: "'a option \<Rightarrow> 'e \<Rightarrow> ('e, 'a) outcome" where
  "ok_or x e = (case x of None \<Rightarrow> Err e | Some y \<Rightarrow> Ok y)"

definition or_panic :: "'a option \<Rightarrow> ('e, 'a) outcome" where
  "or_panic x = (case x of None \<Rightarrow> Panic | Some y \<Rightarrow> Ok y)"

lemma bind_o_cong [fundef_cong]:
  "m = m' \<Longrightarrow> (\<And>x. m' = Ok x \<Longrightarrow> f x = g x) \<Longrightarrow> bind_o m f = bind_o m' g"
  by (cases m') auto

lemma bind_o_Ok_iff [outcome_simps]: "bind_o m f = Ok y \<longleftrightarrow> (\<exists>x. m = Ok x \<and> f x = Ok y)"
  by (cases m) auto

lemma bind_o_Err_iff:
  "bind_o m f = Err e \<longleftrightarrow> m = Err e \<or> (\<exists>x. m = Ok x \<and> f x = Err e)"
  by (cases m) auto

lemma bind_o_Panic_iff [outcome_simps]:
  "bind_o m f = Panic \<longleftrightarrow> m = Panic \<or> (\<exists>x. m = Ok x \<and> f x = Panic)"
  by (cases m) auto

lemma map_err_Ok_iff [simp]: "map_err g m = Ok x \<longleftrightarrow> m = Ok x"
  by (cases m) auto

lemma map_err_Panic_iff [simp]: "map_err g m = Panic \<longleftrightarrow> m = Panic"
  by (cases m) auto

lemma map_ok_Ok_iff: "map_ok g m = Ok y \<longleftrightarrow> (\<exists>x. m = Ok x \<and> g x = y)"
  by (cases m) auto

lemma map_ok_Panic_iff [simp]: "map_ok g m = Panic \<longleftrightarrow> m = Panic"
  by (cases m) auto

lemma ok_or_Ok_iff [simp]: "ok_or x e = Ok y \<longleftrightarrow> x = Some y"
  by (auto simp: ok_or_def split: option.splits)

lemma ok_or_not_Panic [simp]: "ok_or x e \<noteq> Panic"
  by (auto simp: ok_or_def split: option.splits)

lemma ok_or_Some [simp]: "ok_or (Some x) e = Ok x"
  by (simp add: ok_or_def)

lemma ok_or_None [simp]: "ok_or None e = Err e"
  by (simp add: ok_or_def)

lemma or_panic_Ok_iff [simp]: "or_panic x = Ok y \<longleftrightarrow> x = Some y"
  by (auto simp: or_panic_def split: option.splits)

text \<open>Sequential propagation: a loop whose body may fail stops at the first failure.\<close>

fun mapM_o :: "('a \<Rightarrow> ('e, 'b) outcome) \<Rightarrow> 'a list \<Rightarrow> ('e, 'b list) outcome" where
  "mapM_o f [] = Ok []"
| "mapM_o f (x # xs) = bind_o (f x) (\<lambda>y. bind_o (mapM_o f xs) (\<lambda>ys. Ok (y # ys)))"

fun foldM_o :: "('s \<Rightarrow> 'a \<Rightarrow> ('e, 's) outcome) \<Rightarrow> 's \<Rightarrow> 'a list \<Rightarrow> ('e, 's) outcome" where
  "foldM_o f s [] = Ok s"
| "foldM_o f s (x # xs) = bind_o (f s x) (\<lambda>s'. foldM_o f s' xs)"

text \<open>
  \<open>join_all(reads).await\<close> followed by \<open>d?\<close> on every result in order: all calls are
  made (so a panic in any of them is a panic), then the first error in order is returned.
\<close>

definition wave :: "('a \<Rightarrow> ('e, 'b) outcome) \<Rightarrow> 'a list \<Rightarrow> ('e, 'b list) outcome" where
  "wave f xs = (if list_ex (\<lambda>x. f x = Panic) xs then Panic else mapM_o f xs)"

lemma mapM_o_Ok_iff: "mapM_o f xs = Ok ys \<longleftrightarrow> list_all2 (\<lambda>x y. f x = Ok y) xs ys"
  by (induction xs arbitrary: ys) (auto simp: outcome_simps list_all2_Cons1)

lemma mapM_o_map:
  assumes "\<And>x. x \<in> set xs \<Longrightarrow> f x = Ok (g x)"
  shows "mapM_o f xs = Ok (map g xs)"
  using assms by (induction xs) auto

lemma mapM_o_not_Panic: "(\<And>x. x \<in> set xs \<Longrightarrow> f x \<noteq> Panic) \<Longrightarrow> mapM_o f xs \<noteq> Panic"
  by (induction xs) (auto simp: outcome_simps)

lemma wave_Ok_iff: "wave f xs = Ok ys \<longleftrightarrow> list_all2 (\<lambda>x y. f x = Ok y) xs ys"
proof -
  have "list_ex (\<lambda>x. f x = Panic) xs \<Longrightarrow> \<not> list_all2 (\<lambda>x y. f x = Ok y) xs ys"
    by (induction xs arbitrary: ys) (auto simp: list_all2_Cons1)
  then show ?thesis
    by (auto simp: wave_def mapM_o_Ok_iff)
qed

lemma wave_map:
  assumes "\<And>x. x \<in> set xs \<Longrightarrow> f x = Ok (g x)"
  shows "wave f xs = Ok (map g xs)"
  using assms by (auto simp: wave_def list_ex_iff mapM_o_map)

lemma wave_not_Panic: "(\<And>x. x \<in> set xs \<Longrightarrow> f x \<noteq> Panic) \<Longrightarrow> wave f xs \<noteq> Panic"
  by (auto simp: wave_def list_ex_iff mapM_o_not_Panic)

lemma wave_Nil [simp]: "wave f [] = Ok []"
  by (simp add: wave_def)

lemma wave_Ok_length: "wave f xs = Ok ys \<Longrightarrow> length ys = length xs"
  by (auto simp: wave_Ok_iff dest: list_all2_lengthD)

lemma wave_Ok_nth: "wave f xs = Ok ys \<Longrightarrow> i < length xs \<Longrightarrow> f (xs ! i) = Ok (ys ! i)"
  by (auto simp: wave_Ok_iff dest: list_all2_nthD)

lemma foldM_o_not_Panic:
  assumes "\<And>s x. x \<in> set xs \<Longrightarrow> f s x \<noteq> Panic"
  shows "foldM_o f s xs \<noteq> Panic"
  using assms by (induction xs arbitrary: s) (auto simp: outcome_simps)

lemma foldM_o_keeps:
  assumes "foldM_o f s xs = Ok r" "P s" "\<And>s x s'. x \<in> set xs \<Longrightarrow> P s \<Longrightarrow> f s x = Ok s' \<Longrightarrow> P s'"
  shows "P r"
  using assms by (induction xs arbitrary: s) (auto simp: outcome_simps)

lemma foldM_o_append:
  "foldM_o f s (xs @ ys) = bind_o (foldM_o f s xs) (\<lambda>s'. foldM_o f s' ys)"
proof (induction xs arbitrary: s)
  case Nil
  then show ?case by simp
next
  case (Cons x xs)
  then show ?case by (cases "f s x") auto
qed

section \<open>Bounded arithmetic\<close>

text \<open>
  \<open>lim\<close> is one past the largest value of the type (\<open>2 ^ 64\<close> for \<open>u64\<close>). The width of
  \<open>usize\<close> is the target's (64 bits natively, 32 bits on wasm32), so the definitions that
  depend on it take its limit as an argument.
\<close>

abbreviation U16 :: nat where "U16 \<equiv> 2 ^ 16"
abbreviation U32 :: nat where "U32 \<equiv> 2 ^ 32"
abbreviation U64 :: nat where "U64 \<equiv> 2 ^ 64"
abbreviation U128 :: nat where "U128 \<equiv> 2 ^ 128"

definition checked_add :: "nat \<Rightarrow> nat \<Rightarrow> nat \<Rightarrow> nat option" where
  "checked_add lim a b = (if a + b < lim then Some (a + b) else None)"

definition checked_mul :: "nat \<Rightarrow> nat \<Rightarrow> nat \<Rightarrow> nat option" where
  "checked_mul lim a b = (if a * b < lim then Some (a * b) else None)"

definition sat_add :: "nat \<Rightarrow> nat \<Rightarrow> nat \<Rightarrow> nat" where
  "sat_add lim a b = min (lim - 1) (a + b)"

definition sat_mul :: "nat \<Rightarrow> nat \<Rightarrow> nat \<Rightarrow> nat" where
  "sat_mul lim a b = min (lim - 1) (a * b)"

definition try_from :: "nat \<Rightarrow> nat \<Rightarrow> nat option" where
  "try_from lim a = (if a < lim then Some a else None)"

definition add_p :: "nat \<Rightarrow> nat \<Rightarrow> nat \<Rightarrow> ('e, nat) outcome" where
  "add_p lim a b = (if a + b < lim then Ok (a + b) else Panic)"

definition mul_p :: "nat \<Rightarrow> nat \<Rightarrow> nat \<Rightarrow> ('e, nat) outcome" where
  "mul_p lim a b = (if a * b < lim then Ok (a * b) else Panic)"

definition sub_p :: "nat \<Rightarrow> nat \<Rightarrow> ('e, nat) outcome" where
  "sub_p a b = (if b \<le> a then Ok (a - b) else Panic)"

lemma checked_add_Some_iff [simp]: "checked_add lim a b = Some c \<longleftrightarrow> c = a + b \<and> a + b < lim"
  by (auto simp: checked_add_def)

lemma checked_add_None_iff [simp]: "checked_add lim a b = None \<longleftrightarrow> lim \<le> a + b"
  by (auto simp: checked_add_def)

lemma checked_mul_Some_iff [simp]: "checked_mul lim a b = Some c \<longleftrightarrow> c = a * b \<and> a * b < lim"
  by (auto simp: checked_mul_def)

lemma checked_mul_None_iff [simp]: "checked_mul lim a b = None \<longleftrightarrow> lim \<le> a * b"
  by (auto simp: checked_mul_def)

lemma try_from_Some_iff [simp]: "try_from lim a = Some b \<longleftrightarrow> b = a \<and> a < lim"
  by (auto simp: try_from_def)

lemma try_from_None_iff [simp]: "try_from lim a = None \<longleftrightarrow> lim \<le> a"
  by (auto simp: try_from_def)

lemma add_p_Ok_iff [simp]: "add_p lim a b = Ok c \<longleftrightarrow> c = a + b \<and> a + b < lim"
  by (auto simp: add_p_def)

lemma add_p_Panic_iff [simp]: "add_p lim a b = Panic \<longleftrightarrow> lim \<le> a + b"
  by (auto simp: add_p_def)

lemma mul_p_Ok_iff [simp]: "mul_p lim a b = Ok c \<longleftrightarrow> c = a * b \<and> a * b < lim"
  by (auto simp: mul_p_def)

lemma mul_p_Panic_iff [simp]: "mul_p lim a b = Panic \<longleftrightarrow> lim \<le> a * b"
  by (auto simp: mul_p_def)

lemma sub_p_Ok_iff [simp]: "sub_p a b = Ok c \<longleftrightarrow> c = a - b \<and> b \<le> a"
  by (auto simp: sub_p_def)

lemma sub_p_Panic_iff [simp]: "sub_p a b = Panic \<longleftrightarrow> a < b"
  by (auto simp: sub_p_def)

lemma arith_Ok [simp]:
  "a + b < lim \<Longrightarrow> add_p lim a b = Ok (a + b)"
  "a * b < lim \<Longrightarrow> mul_p lim a b = Ok (a * b)"
  "b \<le> a \<Longrightarrow> sub_p a b = Ok (a - b)"
  "a + b < lim \<Longrightarrow> checked_add lim a b = Some (a + b)"
  "a * b < lim \<Longrightarrow> checked_mul lim a b = Some (a * b)"
  "a < lim \<Longrightarrow> try_from lim a = Some a"
  by simp_all

lemma sat_add_ge_left: "a < lim \<Longrightarrow> a \<le> sat_add lim a b"
  by (auto simp: sat_add_def)

lemma sat_add_exact: "a + b < lim \<Longrightarrow> sat_add lim a b = a + b"
  by (auto simp: sat_add_def)

section \<open>Slices\<close>

type_synonym byte = "8 word"
type_synonym bytes = "byte list"

definition cut :: "'a list \<Rightarrow> nat \<Rightarrow> nat \<Rightarrow> 'a list" where
  "cut b s e = take (e - s) (drop s b)"

definition cut_p :: "'a list \<Rightarrow> nat \<Rightarrow> nat \<Rightarrow> ('e, 'a list) outcome" where
  "cut_p b s e = (if s \<le> e \<and> e \<le> length b then Ok (cut b s e) else Panic)"

definition get_range :: "'a list \<Rightarrow> nat \<Rightarrow> nat \<Rightarrow> 'a list option" where
  "get_range b s e = (if s \<le> e \<and> e \<le> length b then Some (cut b s e) else None)"

definition nth_p :: "'a list \<Rightarrow> nat \<Rightarrow> ('e, 'a) outcome" where
  "nth_p b i = (if i < length b then Ok (b ! i) else Panic)"

lemma length_cut [simp]: "e \<le> length b \<Longrightarrow> length (cut b s e) = e - s"
  by (simp add: cut_def)

lemma cut_p_Ok_iff [simp]:
  "cut_p b s e = Ok x \<longleftrightarrow> x = cut b s e \<and> s \<le> e \<and> e \<le> length b"
  by (auto simp: cut_p_def)

lemma cut_p_Panic_iff [simp]: "cut_p b s e = Panic \<longleftrightarrow> \<not> (s \<le> e \<and> e \<le> length b)"
  by (auto simp: cut_p_def)

lemma get_range_Some_iff [simp]:
  "get_range b s e = Some x \<longleftrightarrow> x = cut b s e \<and> s \<le> e \<and> e \<le> length b"
  by (auto simp: get_range_def)

lemma nth_p_Ok_iff [simp]: "nth_p b i = Ok x \<longleftrightarrow> x = b ! i \<and> i < length b"
  by (auto simp: nth_p_def)

lemma nth_p_Panic_iff [simp]: "nth_p b i = Panic \<longleftrightarrow> length b \<le> i"
  by (auto simp: nth_p_def)

lemma slice_Ok [simp]:
  "s \<le> e \<Longrightarrow> e \<le> length b \<Longrightarrow> cut_p b s e = Ok (cut b s e)"
  "s \<le> e \<Longrightarrow> e \<le> length b \<Longrightarrow> get_range b s e = Some (cut b s e)"
  "i < length b \<Longrightarrow> nth_p b i = Ok (b ! i)"
  by simp_all

lemma nth_cut: "i < e - s \<Longrightarrow> e \<le> length b \<Longrightarrow> cut b s e ! i = b ! (s + i)"
  by (simp add: cut_def)

lemma cut_cut:
  assumes "e \<le> e' - s'" "e' \<le> length b"
  shows "cut (cut b s' e') s e = cut b (s' + s) (s' + e)"
proof -
  have "e - s \<le> e' - s' - s" using assms by simp
  then show ?thesis
    by (simp add: cut_def drop_take min_def add.commute)
qed

lemma cut_complete: "length (cut b s e) = e - s \<Longrightarrow> s < e \<Longrightarrow> e \<le> length b"
  by (auto simp: cut_def)

lemma cut_join: "s \<le> m \<Longrightarrow> m \<le> e \<Longrightarrow> cut b s m @ cut b m e = cut b s e"
proof -
  assume le: "s \<le> m" "m \<le> e"
  then have "e - s = (m - s) + (e - m)" "drop m b = drop (m - s) (drop s b)" by simp_all
  then show ?thesis by (simp only: cut_def take_add)
qed

lemma cut_drop: "s \<le> e \<Longrightarrow> drop s b = cut b s e @ drop e b"
proof -
  assume "s \<le> e"
  then have "drop (e - s) (drop s b) = drop e b" by simp
  then show ?thesis by (metis append_take_drop_id cut_def)
qed

lemma cut_append_left: "e \<le> length a \<Longrightarrow> cut (a @ b) s e = cut a s e"
  by (cases "s \<le> length a") (auto simp: cut_def)

lemma cut_append_right:
  "length a \<le> s \<Longrightarrow> cut (a @ b) s e = cut b (s - length a) (e - length a)"
  by (auto simp: cut_def)

lemma cut_full [simp]: "cut b 0 (length b) = b"
  by (simp add: cut_def)

lemma cut_empty [simp]: "cut b s s = []"
  by (simp add: cut_def)

section \<open>Bisection\<close>

text \<open>
  \<open>slice::binary_search_by\<close>: \<open>Inl i\<close> is Rust's \<open>Ok(i)\<close> (a matching index),
  \<open>Inr i\<close> its \<open>Err(i)\<close> (the insertion point). With several matching elements the
  documentation leaves open which is returned; the theorems below use only what it promises.
\<close>

function bsearch_from :: "('a \<Rightarrow> 'k::linorder) \<Rightarrow> 'a list \<Rightarrow> 'k \<Rightarrow> nat \<Rightarrow> nat \<Rightarrow> nat + nat" where
  "bsearch_from key xs k lo hi =
     (if lo < hi then
        (let mid = lo + (hi - lo) div 2; m = key (xs ! mid) in
         if m < k then bsearch_from key xs k (mid + 1) hi
         else if k < m then bsearch_from key xs k lo mid
         else Inl mid)
      else Inr lo)"
  by pat_completeness auto
termination
  by (relation "measure (\<lambda>(key, xs, k, lo, hi). hi - lo)") auto

declare bsearch_from.simps [simp del]

definition bsearch_by :: "('a \<Rightarrow> 'k::linorder) \<Rightarrow> 'a list \<Rightarrow> 'k \<Rightarrow> nat + nat" where
  "bsearch_by key xs k = bsearch_from key xs k 0 (length xs)"

abbreviation bsearch :: "'k::linorder list \<Rightarrow> 'k \<Rightarrow> nat + nat" where
  "bsearch \<equiv> bsearch_by (\<lambda>x. x)"

lemma bsearch_from_Inl:
  "bsearch_from key xs k lo hi = Inl i \<Longrightarrow> lo \<le> i \<and> i < hi \<and> key (xs ! i) = k"
proof (induction key xs k lo hi rule: bsearch_from.induct)
  case (1 key xs k lo hi)
  let ?mid = "lo + (hi - lo) div 2"
  have lohi: "lo < hi"
    using "1.prems" by (simp add: bsearch_from.simps [of key xs k lo hi] split: if_splits)
  then have mid: "lo \<le> ?mid" "?mid < hi" by auto
  consider (lt) "key (xs ! ?mid) < k" | (gt) "k < key (xs ! ?mid)" | (eq) "key (xs ! ?mid) = k"
    by force
  then show ?case
  proof cases
    case lt
    then have "bsearch_from key xs k (?mid + 1) hi = Inl i"
      using lohi "1.prems" by (simp add: bsearch_from.simps [of key xs k lo hi] Let_def)
    from "1.IH"(1) [OF lohi refl refl lt this] mid show ?thesis by auto
  next
    case gt
    then have ng: "\<not> key (xs ! ?mid) < k" by simp
    have "bsearch_from key xs k lo ?mid = Inl i"
      using lohi gt ng "1.prems" by (simp add: bsearch_from.simps [of key xs k lo hi] Let_def)
    from "1.IH"(2) [OF lohi refl refl ng gt this] mid show ?thesis by auto
  next
    case eq
    then show ?thesis
      using lohi mid "1.prems" by (auto simp: bsearch_from.simps [of key xs k lo hi] Let_def)
  qed
qed

lemma bsearch_from_Inr:
  assumes "sorted (map key xs)" "hi \<le> length xs" "lo \<le> hi"
    and "\<forall>j < lo. key (xs ! j) < k" "\<forall>j. hi \<le> j \<and> j < length xs \<longrightarrow> k < key (xs ! j)"
    and "bsearch_from key xs k lo hi = Inr i"
  shows "i \<le> length xs \<and> (\<forall>j < i. key (xs ! j) < k) \<and> (\<forall>j. i \<le> j \<and> j < length xs \<longrightarrow> k < key (xs ! j))"
  using assms
proof (induction key xs k lo hi rule: bsearch_from.induct)
  case (1 key xs k lo hi)
  let ?mid = "lo + (hi - lo) div 2"
  show ?case
  proof (cases "lo < hi")
    case False
    with "1.prems"(3) have "hi = lo" by simp
    moreover from False "1.prems"(6) have "i = lo"
      by (simp add: bsearch_from.simps [of key xs k lo hi])
    ultimately show ?thesis using "1.prems"(2,4,5) by simp
  next
    case True
    then have mid: "?mid < hi" "lo \<le> ?mid" by auto
    with "1.prems"(2) have mid_len: "?mid < length xs" by linarith
    have mono: "key (xs ! j) \<le> key (xs ! l)" if "j \<le> l" "l < length xs" for j l
      using sorted_nth_mono [OF "1.prems"(1), of j l] that by simp
    consider (lt) "key (xs ! ?mid) < k" | (gt) "k < key (xs ! ?mid)" | (eq) "key (xs ! ?mid) = k"
      by force
    then show ?thesis
    proof cases
      case lt
      then have "bsearch_from key xs k (?mid + 1) hi = Inr i"
        using True "1.prems"(6) by (simp add: bsearch_from.simps [of key xs k lo hi] Let_def)
      moreover have "\<forall>j < ?mid + 1. key (xs ! j) < k"
      proof (intro allI impI)
        fix j assume "j < ?mid + 1"
        then have "key (xs ! j) \<le> key (xs ! ?mid)" using mid_len by (intro mono) auto
        with lt show "key (xs ! j) < k" by simp
      qed
      ultimately show ?thesis
        using "1.IH"(1) [OF True refl refl lt "1.prems"(1,2)] "1.prems"(5) mid by simp
    next
      case gt
      then have ng: "\<not> key (xs ! ?mid) < k" by simp
      then have "bsearch_from key xs k lo ?mid = Inr i"
        using True gt "1.prems"(6) by (simp add: bsearch_from.simps [of key xs k lo hi] Let_def)
      note rec = this
      have above: "\<forall>j. ?mid \<le> j \<and> j < length xs \<longrightarrow> k < key (xs ! j)"
      proof (intro allI impI)
        fix j assume "?mid \<le> j \<and> j < length xs"
        then have "key (xs ! ?mid) \<le> key (xs ! j)" by (intro mono) auto
        with gt show "k < key (xs ! j)" by simp
      qed
      show ?thesis
        by (rule "1.IH"(2) [OF True refl refl ng gt "1.prems"(1)
              less_imp_le [OF mid_len] mid(2) "1.prems"(4) above rec])
    next
      case eq
      then show ?thesis
        using True "1.prems"(6) by (simp add: bsearch_from.simps [of key xs k lo hi] Let_def)
    qed
  qed
qed

lemma bsearch_by_Inl: "bsearch_by key xs k = Inl i \<Longrightarrow> i < length xs \<and> key (xs ! i) = k"
  using bsearch_from_Inl [of key xs k 0 "length xs" i] by (simp add: bsearch_by_def)

lemma bsearch_by_Inr:
  assumes "sorted (map key xs)" "bsearch_by key xs k = Inr i"
  shows "i \<le> length xs \<and> (\<forall>j < i. key (xs ! j) < k) \<and> (\<forall>j. i \<le> j \<and> j < length xs \<longrightarrow> k < key (xs ! j))"
  using bsearch_from_Inr [OF assms(1), of "length xs" 0 k i] assms(2)
  by (fastforce simp: bsearch_by_def)

definition found :: "nat + nat \<Rightarrow> bool" where
  "found r = (case r of Inl _ \<Rightarrow> True | Inr _ \<Rightarrow> False)"

lemma found_Inl [simp]: "found (Inl i)" by (simp add: found_def)

lemma not_found_Inr [simp]: "\<not> found (Inr i)" by (simp add: found_def)

lemma found_bsearch_by:
  assumes "sorted (map key xs)"
  shows "found (bsearch_by key xs k) \<longleftrightarrow> k \<in> key ` set xs"
proof (cases "bsearch_by key xs k")
  case (Inl i)
  then show ?thesis using bsearch_by_Inl [OF Inl] by auto
next
  case (Inr i)
  have "key (xs ! j) \<noteq> k" if "j < length xs" for j
    using bsearch_by_Inr [OF assms Inr] that by (metis leI less_irrefl)
  then have "k \<notin> key ` set xs" by (force simp: in_set_conv_nth)
  then show ?thesis using Inr by simp
qed

lemma found_bsearch: "sorted xs \<Longrightarrow> found (bsearch xs k) \<longleftrightarrow> k \<in> set xs"
  using found_bsearch_by [of "\<lambda>x. x" xs k] by simp

section \<open>Lists\<close>

lemma sort_key_same_sorted: "sorted (map f (sort_key f xs))"
  by simp

lemma map_insort_key: "map g (insort_key (f \<circ> g) x ys) = insort_key f (g x) (map g ys)"
  by (induction ys) auto

lemma map_sort_key: "map g (sort_key (f \<circ> g) xs) = sort_key f (map g xs)"
  by (induction xs) (auto simp: map_insort_key [unfolded comp_def])

lemma take_append_min: "length xs \<le> n \<Longrightarrow> take n (xs @ ys) = xs @ take (n - length xs) ys"
  by simp

lemma insort_key_same: "\<forall>y \<in> insert x (set ys). f y = g y \<Longrightarrow> insort_key f x ys = insort_key g x ys"
  by (induction ys) auto

lemma sort_key_same: "\<forall>x \<in> set xs. f x = g x \<Longrightarrow> sort_key f xs = sort_key g xs"
proof (induction xs)
  case (Cons x xs)
  then show ?case using insort_key_same [of x "sort_key g xs" f g] by simp
qed simp

lemma sorted_list_of_set_filter:
  fixes A :: "'a::linorder set"
  assumes "finite A"
  shows "sorted_list_of_set {x \<in> A. P x} = filter P (sorted_list_of_set A)"
proof -
  have "sorted_list_of_set (set (filter P (sorted_list_of_set A))) = filter P (sorted_list_of_set A)"
    by (rule sorted_list_of_set.idem_if_sorted_distinct) (auto simp: sorted_filter [of "\<lambda>x. x", simplified] assms)
  moreover have "set (filter P (sorted_list_of_set A)) = {x \<in> A. P x}"
    using assms by auto
  ultimately show ?thesis by simp
qed

lemma sorted_list_of_set_union_below:
  fixes A :: "'a::linorder set"
  assumes "finite A" "finite B" "\<And>a b. a \<in> A \<Longrightarrow> b \<in> B \<Longrightarrow> a < b"
  shows "sorted_list_of_set (A \<union> B) = sorted_list_of_set A @ sorted_list_of_set B"
proof -
  let ?l = "sorted_list_of_set A @ sorted_list_of_set B"
  have "sorted_list_of_set (set ?l) = ?l"
  proof (rule sorted_list_of_set.idem_if_sorted_distinct)
    show "sorted ?l" using assms by (auto simp: sorted_append less_imp_le)
    show "distinct ?l" using assms by fastforce
  qed
  then show ?thesis using assms by simp
qed

end
