(* ===== verification/RR_Bytes.thy ===== *)
theory RR_Bytes imports RR_Prelude begin

text \<open>
  Bytes and errors shared by every format: \<open>FetchError\<close> (\<open>rust/src/fetch.rs\<close>),
  \<open>IndexError\<close> and the little-endian readers \<open>read_u16\<close>, \<open>read_u32\<close>, \<open>read_u64\<close>
  (\<open>rust/src/index.rs\<close>), with the little-endian encoder \<open>to_le_bytes\<close> of the standard
  library and the round trip between them. \<open>u16_at\<close>, \<open>u32_at\<close>, \<open>u64_at\<close> are the values
  the readers return where they do not panic.
\<close>

section \<open>Errors\<close>

datatype fetch_error =
    OutOfRange (oor_offset: nat) (oor_len: nat) (oor_available: nat)
  | NotFound
  | Transport string

definition is_not_found :: "fetch_error \<Rightarrow> bool" where
  "is_not_found e = (case e of NotFound \<Rightarrow> True | _ \<Rightarrow> False)"

datatype index_error =
    Fetch fetch_error
  | BadMagic bytes
  | BadVersion nat
  | Roaring string
  | Malformed string
  | BadQuery string
  | Unsupported string

type_synonym 'a fres = "(fetch_error, 'a) outcome"
type_synonym 'a ires = "(index_error, 'a) outcome"

text \<open>The result of a writer: what it wrote to its sink, or the message of the \<open>io::Error\<close>.\<close>

type_synonym 'a io = "(string, 'a) outcome"

definition u32_len :: "nat \<Rightarrow> string \<Rightarrow> nat io" where
  "u32_len n what = ok_or (try_from U32 n) (what @ '' size exceeds the 32-bit limit'')"

text \<open>A ranged read: \<open>RangeFetch::read(offset, len)\<close> of a fixed, immutable object.\<close>

type_synonym range_read = "nat \<Rightarrow> nat \<Rightarrow> bytes fres"

text \<open>The \<open>?\<close> of a fetch inside a function that returns \<open>IndexError\<close>.\<close>

definition rd :: "range_read \<Rightarrow> nat \<Rightarrow> nat \<Rightarrow> bytes ires" where
  "rd f off len = map_err Fetch (f off len)"

lemma rd_Ok_iff [simp]: "rd f off len = Ok b \<longleftrightarrow> f off len = Ok b"
  by (simp add: rd_def)

lemma rd_Panic_iff [simp]: "rd f off len = Panic \<longleftrightarrow> f off len = Panic"
  by (simp add: rd_def)

section \<open>Little-endian integers\<close>

fun to_le :: "nat \<Rightarrow> nat \<Rightarrow> bytes" where
  "to_le 0 v = []"
| "to_le (Suc n) v = word_of_nat v # to_le n (v div 256)"

fun from_le :: "bytes \<Rightarrow> nat" where
  "from_le [] = 0"
| "from_le (b # bs) = unat b + 256 * from_le bs"

definition u16_at :: "bytes \<Rightarrow> nat \<Rightarrow> nat" where
  "u16_at buf off = from_le (cut buf off (off + 2))"

definition u32_at :: "bytes \<Rightarrow> nat \<Rightarrow> nat" where
  "u32_at buf off = from_le (cut buf off (off + 4))"

definition u64_at :: "bytes \<Rightarrow> nat \<Rightarrow> nat" where
  "u64_at buf off = from_le (cut buf off (off + 8))"

definition read_u16 :: "bytes \<Rightarrow> nat \<Rightarrow> ('e, nat) outcome" where
  "read_u16 buf off = (if off + 2 \<le> length buf then Ok (u16_at buf off) else Panic)"

definition read_u32 :: "bytes \<Rightarrow> nat \<Rightarrow> ('e, nat) outcome" where
  "read_u32 buf off = (if off + 4 \<le> length buf then Ok (u32_at buf off) else Panic)"

definition read_u64 :: "bytes \<Rightarrow> nat \<Rightarrow> ('e, nat) outcome" where
  "read_u64 buf off = (if off + 8 \<le> length buf then Ok (u64_at buf off) else Panic)"

named_theorems le_simps "facts about little-endian encodings"

lemma read_u16_Ok_iff [simp]: "read_u16 b off = Ok v \<longleftrightarrow> v = u16_at b off \<and> off + 2 \<le> length b"
  by (auto simp: read_u16_def)

lemma read_u16_Panic_iff [simp]: "read_u16 b off = Panic \<longleftrightarrow> length b < off + 2"
  by (auto simp: read_u16_def)

lemma read_u32_Ok_iff [simp]: "read_u32 b off = Ok v \<longleftrightarrow> v = u32_at b off \<and> off + 4 \<le> length b"
  by (auto simp: read_u32_def)

lemma read_u32_Panic_iff [simp]: "read_u32 b off = Panic \<longleftrightarrow> length b < off + 4"
  by (auto simp: read_u32_def)

lemma read_u64_Ok_iff [simp]: "read_u64 b off = Ok v \<longleftrightarrow> v = u64_at b off \<and> off + 8 \<le> length b"
  by (auto simp: read_u64_def)

lemma read_u64_Panic_iff [simp]: "read_u64 b off = Panic \<longleftrightarrow> length b < off + 8"
  by (auto simp: read_u64_def)

lemma read_Ok [simp]:
  "off + 2 \<le> length b \<Longrightarrow> read_u16 b off = Ok (u16_at b off)"
  "off + 4 \<le> length b \<Longrightarrow> read_u32 b off = Ok (u32_at b off)"
  "off + 8 \<le> length b \<Longrightarrow> read_u64 b off = Ok (u64_at b off)"
  by simp_all

lemma length_to_le [simp]: "length (to_le n v) = n"
  by (induction n arbitrary: v) auto

lemma from_le_to_le: "from_le (to_le n v) = v mod 256 ^ n"
proof (induction n arbitrary: v)
  case 0
  then show ?case by simp
next
  case (Suc n)
  have "unat (word_of_nat v :: byte) = v mod 256"
    by (simp add: unat_of_nat)
  then show ?case
    by (simp add: Suc mod_mult2_eq)
qed

lemma from_le_less: "from_le bs < 256 ^ length bs"
proof (induction bs)
  case Nil
  then show ?case by simp
next
  case (Cons b bs)
  have "unat b < 256" using unsigned_less [of b] by simp
  with Cons show ?case by simp
qed

lemma to_le_from_le: "to_le (length bs) (from_le bs) = bs"
proof (induction bs)
  case Nil
  then show ?case by simp
next
  case (Cons b bs)
  have lt: "unat b < 256" using unsigned_less [of b] by simp
  then have "(unat b + 256 * from_le bs) div 256 = from_le bs" by simp
  moreover have "(word_of_nat (unat b + 256 * from_le bs) :: byte) = b"
  proof (rule word_unat_eq_iff [THEN iffD2])
    show "unat (word_of_nat (unat b + 256 * from_le bs) :: byte) = unat b"
      using lt by (simp add: unat_of_nat del: of_nat_add of_nat_mult)
  qed
  ultimately show ?case using Cons by simp
qed

lemma from_le_inj: "length as = length bs \<Longrightarrow> from_le as = from_le bs \<Longrightarrow> as = bs"
  by (metis to_le_from_le)

lemma from_le_bound: "length bs \<le> n \<Longrightarrow> from_le bs < 256 ^ n"
  using from_le_less [of bs] power_increasing [of "length bs" n "256 :: nat"] by linarith

lemma u16_at_less: "u16_at b off < U16"
  using from_le_bound [of "cut b off (off + 2)" 2] by (simp add: u16_at_def cut_def)

lemma u32_at_less: "u32_at b off < U32"
  using from_le_bound [of "cut b off (off + 4)" 4] by (simp add: u32_at_def cut_def)

lemma u64_at_less: "u64_at b off < U64"
  using from_le_bound [of "cut b off (off + 8)" 8] by (simp add: u64_at_def cut_def)

lemmas at_less_numeral [simp] = u16_at_less [simplified] u32_at_less [simplified] u64_at_less [simplified]

text \<open>Reading back an encoded field, wherever it stands in a buffer.\<close>

lemma cut_mid: "length a = s \<Longrightarrow> length x = n \<Longrightarrow> cut (a @ x @ c) s (s + n) = x"
  by (simp add: cut_def)

lemma u16_at_mid [le_simps]:
  assumes "length a = off" "v < U16"
  shows "u16_at (a @ to_le 2 v @ c) off = v"
proof -
  have "cut (a @ to_le 2 v @ c) off (off + 2) = to_le 2 v"
    using assms(1) by (intro cut_mid) simp_all
  then show ?thesis using assms(2) by (simp only: u16_at_def from_le_to_le) simp
qed

lemma u32_at_mid [le_simps]:
  assumes "length a = off" "v < U32"
  shows "u32_at (a @ to_le 4 v @ c) off = v"
proof -
  have "cut (a @ to_le 4 v @ c) off (off + 4) = to_le 4 v"
    using assms(1) by (intro cut_mid) simp_all
  then show ?thesis using assms(2) by (simp only: u32_at_def from_le_to_le) simp
qed

lemma u64_at_mid [le_simps]:
  assumes "length a = off" "v < U64"
  shows "u64_at (a @ to_le 8 v @ c) off = v"
proof -
  have "cut (a @ to_le 8 v @ c) off (off + 8) = to_le 8 v"
    using assms(1) by (intro cut_mid) simp_all
  then show ?thesis using assms(2) by (simp only: u64_at_def from_le_to_le) simp
qed

lemma u16_at_append_left: "off + 2 \<le> length a \<Longrightarrow> u16_at (a @ c) off = u16_at a off"
  by (simp only: u16_at_def cut_append_left)

lemma u16_at_append_right:
  assumes "length a \<le> off"
  shows "u16_at (a @ c) off = u16_at c (off - length a)"
proof -
  have "off + 2 - length a = off - length a + 2" using assms by arith
  then show ?thesis by (simp only: u16_at_def cut_append_right [OF assms])
qed

lemma u32_at_append_left: "off + 4 \<le> length a \<Longrightarrow> u32_at (a @ c) off = u32_at a off"
  by (simp only: u32_at_def cut_append_left)

lemma u32_at_append_right:
  assumes "length a \<le> off"
  shows "u32_at (a @ c) off = u32_at c (off - length a)"
proof -
  have "off + 4 - length a = off - length a + 4" using assms by arith
  then show ?thesis by (simp only: u32_at_def cut_append_right [OF assms])
qed

lemma u64_at_append_left: "off + 8 \<le> length a \<Longrightarrow> u64_at (a @ c) off = u64_at a off"
  by (simp only: u64_at_def cut_append_left)

lemma u64_at_append_right:
  assumes "length a \<le> off"
  shows "u64_at (a @ c) off = u64_at c (off - length a)"
proof -
  have "off + 8 - length a = off - length a + 8" using assms by arith
  then show ?thesis by (simp only: u64_at_def cut_append_right [OF assms])
qed

lemma u16_at_0 [le_simps]: "v < U16 \<Longrightarrow> u16_at (to_le 2 v @ c) 0 = v"
  using u16_at_mid [of "[]" 0 v c] by simp

lemma u32_at_0 [le_simps]: "v < U32 \<Longrightarrow> u32_at (to_le 4 v @ c) 0 = v"
  using u32_at_mid [of "[]" 0 v c] by simp

lemma u64_at_0 [le_simps]: "v < U64 \<Longrightarrow> u64_at (to_le 8 v @ c) 0 = v"
  using u64_at_mid [of "[]" 0 v c] by simp

lemmas le_append_simps = u16_at_append_left u16_at_append_right u32_at_append_left
  u32_at_append_right u64_at_append_left u64_at_append_right

text \<open>A field of a sub-cut is the field of the whole buffer at the shifted offset.\<close>

lemma u16_at_cut:
  assumes "off + 2 \<le> e - s" "e \<le> length b"
  shows "u16_at (cut b s e) off = u16_at b (s + off)"
  by (simp only: u16_at_def cut_cut [OF assms] add.assoc)

lemma u32_at_cut:
  assumes "off + 4 \<le> e - s" "e \<le> length b"
  shows "u32_at (cut b s e) off = u32_at b (s + off)"
  by (simp only: u32_at_def cut_cut [OF assms] add.assoc)

lemma u64_at_cut:
  assumes "off + 8 \<le> e - s" "e \<le> length b"
  shows "u64_at (cut b s e) off = u64_at b (s + off)"
  by (simp only: u64_at_def cut_cut [OF assms] add.assoc)

lemmas le_cut_simps = u16_at_cut u32_at_cut u64_at_cut

section \<open>Strings as bytes\<close>

definition ascii :: "string \<Rightarrow> bytes" where
  "ascii s = map (\<lambda>c. word_of_nat (of_char c)) s"

lemma length_ascii [simp]: "length (ascii s) = length s"
  by (simp add: ascii_def)

text \<open>Fixed-stride tables: record \<open>i\<close> of a concatenation of equally long rows.\<close>

lemma concat_rows_length:
  "(\<And>r. r \<in> set rs \<Longrightarrow> length (f r) = w) \<Longrightarrow> length (concat (map f rs)) = length rs * w"
  by (induction rs) auto

lemma cut_concat_row:
  assumes "\<And>r. r \<in> set rs \<Longrightarrow> length (f r) = w" "i < length rs"
  shows "cut (concat (map f rs)) (i * w) (i * w + w) = f (rs ! i)"
proof -
  have "rs = take i rs @ rs ! i # drop (Suc i) rs"
    using assms(2) by (simp add: id_take_nth_drop)
  then have "concat (map f rs) = concat (map f (take i rs)) @ f (rs ! i) @ concat (map f (drop (Suc i) rs))"
    by (metis concat.simps(2) concat_append list.simps(9) map_append)
  moreover have "length (concat (map f (take i rs))) = i * w"
    using concat_rows_length [of "take i rs" f w] assms by (auto dest: in_set_takeD)
  moreover have "length (f (rs ! i)) = w" using assms by simp
  ultimately show ?thesis by (simp add: cut_mid)
qed

lemma cut_concat_rows:
  assumes "\<And>r. r \<in> set rs \<Longrightarrow> length (f r) = w" "i \<le> j" "j \<le> length rs"
  shows "cut (concat (map f rs)) (i * w) (j * w) = concat (map f (cut rs i j))"
proof -
  have "rs = take i rs @ cut rs i j @ drop j rs"
    using assms by (simp add: cut_def) (metis append_take_drop_id drop_drop le_add_diff_inverse2 add.commute)
  then have "concat (map f rs) = concat (map f (take i rs)) @ concat (map f (cut rs i j)) @ concat (map f (drop j rs))"
    by (metis concat_append map_append)
  moreover have "length (concat (map f (take i rs))) = i * w"
    using concat_rows_length [of "take i rs" f w] assms by (auto dest: in_set_takeD)
  moreover have "length (concat (map f (cut rs i j))) = (j - i) * w"
    using concat_rows_length [of "cut rs i j" f w] assms by (auto simp: cut_def dest: in_set_takeD in_set_dropD)
  moreover have "j * w = i * w + (j - i) * w" using assms by (simp flip: add_mult_distrib)
  ultimately show ?thesis by (simp add: cut_mid)
qed

lemma cut_row_mid:
  assumes "length a = s" "\<And>r. r \<in> set rs \<Longrightarrow> length (f r) = w" "i < length rs"
  shows "cut (a @ concat (map f rs) @ c) (s + i * w) (s + i * w + w) = f (rs ! i)"
proof -
  have len: "length (concat (map f rs)) = length rs * w" by (rule concat_rows_length [OF assms(2)])
  have "(i + 1) * w \<le> length rs * w" using assms(3) by (intro mult_right_mono) auto
  then have le: "i * w + w \<le> length (concat (map f rs))" using len by simp
  have "s + i * w - length a = i * w" "s + i * w + w - length a = i * w + w" using assms(1) by simp_all
  then have "cut (a @ concat (map f rs) @ c) (s + i * w) (s + i * w + w) = cut (concat (map f rs) @ c) (i * w) (i * w + w)"
    using assms(1) by (metis cut_append_right le_add1)
  also have "\<dots> = cut (concat (map f rs)) (i * w) (i * w + w)" by (rule cut_append_left [OF le])
  also have "\<dots> = f (rs ! i)" by (rule cut_concat_row [OF assms(2,3)])
  finally show ?thesis .
qed

end
