(* ===== verification/RR_Fetch.thy ===== *)
theory RR_Fetch imports RR_Bytes begin

text \<open>
  The byte-access layer, \<open>rust/src/fetch.rs\<close>: the \<open>RangeFetch\<close> contract as three locales, the two
  native fetchers \<open>MemoryFetch\<close> and \<open>FileFetch\<close> as their interpretations, and the batched reader
  \<open>read_coalesced\<close> with its read counter \<open>coalesced_span_count\<close>.

  \<open>bounded_fetch\<close>: a successful read is exactly the requested bytes of the object, and no read of
  fewer than \<open>2 ^ 40\<close> bytes panics; this is what \<open>FileFetch\<close> keeps on a 64-bit target, where
  allocating a buffer of \<open>2 ^ 63\<close> bytes panics.  \<open>range_fetch\<close>: no read panics (\<open>MemoryFetch\<close>, which
  allocates only what it holds).  \<open>full_fetch\<close>: every in-range read below the address limit succeeds.
\<close>

section \<open>The RangeFetch contract\<close>

locale bounded_fetch =
  fixes fetch :: range_read
    and content :: bytes
  assumes fetch_exact: "fetch off len = Ok b \<Longrightarrow> length b = len \<and> b = cut content off (off + len)"
    and fetch_bounded: "len < 2 ^ 40 \<Longrightarrow> fetch off len \<noteq> Panic"
begin

lemma fetch_length: "fetch off len = Ok b \<Longrightarrow> length b = len"
  using fetch_exact by simp

lemma fetch_within: "fetch off len = Ok b \<Longrightarrow> 0 < len \<Longrightarrow> off + len \<le> length content"
  using fetch_exact [of off len b] cut_complete [of content off "off + len"]
  by (metis diff_add_inverse less_add_same_cancel1)

lemma rd_bounded: "len < 2 ^ 40 \<Longrightarrow> rd fetch off len \<noteq> Panic"
  using fetch_bounded by simp

lemma rd_exact: "rd fetch off len = Ok b \<Longrightarrow> length b = len \<and> b = cut content off (off + len)"
  using fetch_exact by simp

lemma rd_within: "rd fetch off len = Ok b \<Longrightarrow> 0 < len \<Longrightarrow> off + len \<le> length content"
  using fetch_within by simp

end

locale range_fetch = bounded_fetch +
  assumes fetch_no_panic: "fetch off len \<noteq> Panic"
begin

lemma rd_no_panic: "rd fetch off len \<noteq> Panic"
  using fetch_no_panic by simp

end

locale full_fetch = range_fetch +
  fixes lim :: nat
  assumes fetch_ok:
    "off + len \<le> length content \<Longrightarrow> off + len < lim \<Longrightarrow> fetch off len = Ok (cut content off (off + len))"
begin

lemma rd_ok:
  "off + len \<le> length content \<Longrightarrow> off + len < lim \<Longrightarrow> rd fetch off len = Ok (cut content off (off + len))"
  using fetch_ok by simp

end

section \<open>MemoryFetch\<close>

record memory_fetch =
  mf_bytes :: bytes
  mf_missing :: bool

definition mem_new :: "bytes \<Rightarrow> memory_fetch" where
  "mem_new bs = \<lparr>mf_bytes = bs, mf_missing = False\<rparr>"

definition mem_missing :: memory_fetch where
  "mem_missing = \<lparr>mf_bytes = [], mf_missing = True\<rparr>"

text \<open>\<open>um\<close> is \<open>usize::MAX + 1\<close> of the target: \<open>usize::try_from(offset)\<close> can fail on wasm32.\<close>

definition mem_read :: "nat \<Rightarrow> memory_fetch \<Rightarrow> range_read" where
  "mem_read um m off len =
     (if mf_missing m then Err NotFound
      else
        let range = Option.bind (try_from um off)
              (\<lambda>start. map_option (\<lambda>e. (start, e)) (checked_add um start len))
        in case range of
             Some (start, e) \<Rightarrow>
               if e \<le> length (mf_bytes m) then Ok (cut (mf_bytes m) start e)
               else Err (OutOfRange off len (length (mf_bytes m)))
           | None \<Rightarrow> Err (OutOfRange off len (length (mf_bytes m))))"

lemma mem_read_Ok:
  "mem_read um m off len = Ok b \<Longrightarrow>
     \<not> mf_missing m \<and> off + len \<le> length (mf_bytes m) \<and> b = cut (mf_bytes m) off (off + len)"
  by (auto simp: mem_read_def Let_def bind_eq_Some_conv split: if_splits option.splits)

lemma mem_read_no_panic: "mem_read um m off len \<noteq> Panic"
  by (auto simp: mem_read_def Let_def split: option.splits)

lemma mem_read_in_range:
  "\<not> mf_missing m \<Longrightarrow> off + len \<le> length (mf_bytes m) \<Longrightarrow> off + len < um \<Longrightarrow>
     mem_read um m off len = Ok (cut (mf_bytes m) off (off + len))"
  by (auto simp: mem_read_def Let_def checked_add_def try_from_def)

lemma mem_new_simps [simp]: "mf_bytes (mem_new bs) = bs" "mf_missing (mem_new bs) = False"
  by (simp_all add: mem_new_def)

interpretation mem: range_fetch "mem_read um m" "mf_bytes m" for um m
proof unfold_locales
  show "length b = len \<and> b = cut (mf_bytes m) off (off + len)" if "mem_read um m off len = Ok b" for off len b
    using mem_read_Ok [OF that] by simp
qed (rule mem_read_no_panic)+

interpretation memf: full_fetch "mem_read um (mem_new bs)" bs um for um bs
proof unfold_locales
  show "length b = len \<and> b = cut bs off (off + len)"
    if "mem_read um (mem_new bs) off len = Ok b" for off len b
    using mem_read_Ok [OF that] by simp
  show "mem_read um (mem_new bs) off len = Ok (cut bs off (off + len))"
    if "off + len \<le> length bs" "off + len < um" for off len
    using mem_read_in_range [of "mem_new bs" off len um] that by simp
qed (rule mem_read_no_panic)+

section \<open>FileFetch\<close>

text \<open>
  The operating system's positioned read \<open>FileExt::read_at\<close> is a parameter: \<open>read_at off n\<close>
  is an error or some (possibly fewer than \<open>n\<close>) bytes.  \<open>read\<close> first allocates its buffer,
  \<open>vec![0u8; len]\<close>, which panics (capacity overflow) when \<open>len\<close> exceeds \<open>isize::MAX\<close>, that is from
  \<open>um div 2\<close> on; \<open>file_fill\<close> is the loop that fills it, its \<open>buf\<close> the bytes filled so far.
\<close>

datatype io_error = IoNotFound | IoOther string

type_synonym pread = "nat \<Rightarrow> nat \<Rightarrow> io_error + bytes"

definition eof_message :: string where
  "eof_message = ''unexpected EOF''"

function file_fill :: "pread \<Rightarrow> nat \<Rightarrow> nat \<Rightarrow> bytes \<Rightarrow> bytes fres" where
  "file_fill ra off len buf =
     (if length buf < len then
        (if off < U64 \<and> U64 \<le> off + length buf then Panic
         else case ra (off + length buf) (len - length buf) of
           Inr [] \<Rightarrow> Err (Transport eof_message)
         | Inr (c # cs) \<Rightarrow> file_fill ra off len (buf @ c # cs)
         | Inl IoNotFound \<Rightarrow> Err NotFound
         | Inl (IoOther m) \<Rightarrow> Err (Transport m))
      else Ok buf)"
  by pat_completeness auto
termination
  by (relation "measure (\<lambda>(ra, off, len, buf). len - length buf)") auto

declare file_fill.simps [simp del]

definition file_read :: "nat \<Rightarrow> pread \<Rightarrow> range_read" where
  "file_read um ra off len = (if um div 2 \<le> len then Panic else file_fill ra off len [])"

text \<open>
  What \<open>read_at\<close> promises for a file with the given bytes: at most the bytes asked for, and
  they are the file's; fewer than \<open>2 ^ 63\<close> bytes in all (an \<open>off_t\<close>).
\<close>

definition positioned_file :: "pread \<Rightarrow> bytes \<Rightarrow> bool" where
  "positioned_file ra content \<longleftrightarrow> length content < 2 ^ 63 \<and>
     (\<forall>off n b. ra off n = Inr b \<longrightarrow> length b \<le> n \<and> b = cut content off (off + length b))"

lemma chunk_extends:
  assumes "positioned_file ra content" "ra (off + length buf) n = Inr b" "buf = cut content off (off + length buf)"
  shows "buf @ b = cut content off (off + length (buf @ b))"
proof -
  have "b = cut content (off + length buf) (off + length buf + length b)"
    using assms(1,2) unfolding positioned_file_def by blast
  then have "buf @ b = cut content off (off + length buf) @ cut content (off + length buf) (off + length buf + length b)"
    using assms(3) by metis
  also have "\<dots> = cut content off (off + length buf + length b)"
    by (rule cut_join) simp_all
  finally have "buf @ b = cut content off (off + length buf + length b)" .
  moreover have "off + length buf + length b = off + length (buf @ b)" by simp
  ultimately show ?thesis by metis
qed

lemma file_fill_exact:
  assumes pf: "positioned_file ra content"
    and "file_fill ra off len buf = Ok b" "length buf \<le> len" "buf = cut content off (off + length buf)"
  shows "length b = len \<and> b = cut content off (off + len)"
  using assms(2-)
proof (induction "len - length buf" arbitrary: buf rule: less_induct)
  case less
  show ?case
  proof (cases "length buf < len")
    case False
    with less.prems(2) have "length buf = len" by simp
    with less.prems(1,3) show ?thesis by (simp add: file_fill.simps [of ra])
  next
    case True
    with less.prems(1) obtain c cs where
      r: "ra (off + length buf) (len - length buf) = Inr (c # cs)"
      and rec: "file_fill ra off len (buf @ c # cs) = Ok b"
      by (auto simp: file_fill.simps [of ra off len buf] split: if_splits sum.splits list.splits io_error.splits)
    have chunk: "length (c # cs) \<le> len - length buf"
      using pf r unfolding positioned_file_def by blast
    have "buf @ c # cs = cut content off (off + length (buf @ c # cs))"
      by (rule chunk_extends [OF pf r less.prems(3)])
    moreover have "length (buf @ c # cs) \<le> len" "len - length (buf @ c # cs) < len - length buf"
      using chunk True by auto
    ultimately show ?thesis using less.hyps [of "buf @ c # cs"] rec by blast
  qed
qed

lemma file_fill_no_panic:
  assumes pf: "positioned_file ra content"
    and "buf = cut content off (off + length buf)"
  shows "file_fill ra off len buf \<noteq> Panic"
  using assms(2-)
proof (induction "len - length buf" arbitrary: buf rule: less_induct)
  case less
  have "\<not> (off < U64 \<and> U64 \<le> off + length buf)"
  proof
    assume a: "off < U64 \<and> U64 \<le> off + length buf"
    then have "0 < length buf" by auto
    with less.prems have "off + length buf \<le> length content"
      using cut_complete [of content off "off + length buf"]
      by (metis diff_add_inverse less_add_same_cancel1)
    with a pf show False by (simp add: positioned_file_def)
  qed
  note no_overflow = this
  show ?case
  proof (cases "length buf < len")
    case False
    then show ?thesis by (simp add: file_fill.simps [of ra])
  next
    case True
    have "file_fill ra off len (buf @ c # cs) \<noteq> Panic"
      if r: "ra (off + length buf) (len - length buf) = Inr (c # cs)" for c cs
    proof (rule less.hyps)
      show "len - length (buf @ c # cs) < len - length buf" using True by simp
      show "buf @ c # cs = cut content off (off + length (buf @ c # cs))"
        by (rule chunk_extends [OF pf r less.prems])
    qed
    then show ?thesis using no_overflow True
      by (auto simp: file_fill.simps [of ra off len buf] split: sum.splits list.splits io_error.splits)
  qed
qed

text \<open>A file-backed fetcher on a 64-bit target keeps the contract of the file's bytes.\<close>

lemma file_read_bounded:
  assumes "positioned_file ra content"
  shows "bounded_fetch (file_read U64 ra) content"
proof unfold_locales
  show "length b = len \<and> b = cut content off (off + len)" if "file_read U64 ra off len = Ok b" for off len b
  proof (rule file_fill_exact [OF assms])
    show "file_fill ra off len [] = Ok b" using that by (simp add: file_read_def split: if_splits)
  qed (simp_all add: cut_def)
  show "file_read U64 ra off len \<noteq> Panic" if "len < 2 ^ 40" for off len
    using file_fill_no_panic [OF assms, of "[]" off len] that by (simp add: file_read_def cut_def)
qed

text \<open>On any target it panics exactly when the buffer cannot be allocated.\<close>

lemma file_read_panic_iff:
  assumes "positioned_file ra content"
  shows "file_read um ra off len = Panic \<longleftrightarrow> um div 2 \<le> len"
  using file_fill_no_panic [OF assms, of "[]" off len] by (simp add: file_read_def cut_def)

text \<open>A \<open>read_at\<close> over a byte list that returns at most \<open>chunk\<close> bytes at a time.\<close>

definition pread_of :: "nat \<Rightarrow> bytes \<Rightarrow> pread" where
  "pread_of chunk content off n = Inr (take (min chunk n) (drop off content))"

lemma positioned_file_pread_of:
  assumes "length content < 2 ^ 63"
  shows "positioned_file (pread_of chunk content) content"
  using assms by (auto simp: positioned_file_def pread_of_def cut_def min_def)

section \<open>Coalesced batches\<close>

text \<open>\<open>COALESCE_GAP\<close>: ranges at most this far apart share one read.\<close>

definition coalesce_gap :: nat where
  "coalesce_gap = 16 * 1024"

definition count_step :: "nat \<Rightarrow> nat \<times> nat option \<Rightarrow> nat \<times> nat \<Rightarrow> nat \<times> nat option" where
  "count_step gap = (\<lambda>(spans, last_end) (off, e).
     case last_end of
       Some l \<Rightarrow> if off \<le> sat_add U64 l gap then (spans, Some (max e l)) else (spans + 1, Some e)
     | None \<Rightarrow> (spans + 1, Some e))"

definition coalesced_span_count :: "(nat \<times> nat) list \<Rightarrow> nat \<Rightarrow> nat" where
  "coalesced_span_count ranges gap =
     (let offsets = sort_key fst (map (\<lambda>(off, len). (off, sat_add U64 off len))
                      (filter (\<lambda>(_, len). len \<noteq> 0) ranges))
      in fst (foldl (count_step gap) (0, None) offsets))"

text \<open>
  One step of span merging: the range \<open>[s, e)\<close> joins the last span when it is near enough,
  else it opens a span of its own.
\<close>

definition span_step :: "(nat \<Rightarrow> nat \<Rightarrow> bool) \<Rightarrow> (nat \<times> nat) list \<Rightarrow> nat \<Rightarrow> nat \<Rightarrow> (nat \<times> nat) list" where
  "span_step near spans s e =
     (if spans \<noteq> [] \<and> near (snd (last spans)) s
      then if e > snd (last spans) then butlast spans @ [(fst (last spans), e)] else spans
      else spans @ [(s, e)])"

definition coalesce_step ::
  "(nat \<times> nat) list \<Rightarrow> nat \<Rightarrow> (nat \<times> nat) list \<times> nat list \<Rightarrow> nat \<Rightarrow>
   ((nat \<times> nat) list \<times> nat list) fres" where
  "coalesce_step ranges gap st i =
     (let (spans, span_of) = st; (off, len) = ranges ! i in
      if len = 0 then Ok st
      else bind_o (ok_or (checked_add U64 off len) (OutOfRange off len (U64 - 1))) (\<lambda>e.
        let spans' = span_step (\<lambda>l s. s \<le> sat_add U64 l gap) spans off e
        in Ok (spans', span_of[i := length spans' - 1])))"

definition slice_back ::
  "nat \<Rightarrow> (nat \<times> nat) list \<Rightarrow> nat list \<Rightarrow> bytes list \<Rightarrow> nat \<times> (nat \<times> nat) \<Rightarrow> bytes fres" where
  "slice_back um spans span_of datas = (\<lambda>(i, off, len).
     if len = 0 then Ok []
     else bind_o (nth_p span_of i) (\<lambda>k. bind_o (nth_p spans k) (\<lambda>(s, _).
       bind_o (sub_p off s) (\<lambda>d.
       bind_o (ok_or (try_from um d) (OutOfRange off len (U64 - 1))) (\<lambda>rel.
       bind_o (ok_or (checked_add um rel len) (OutOfRange off len (U64 - 1))) (\<lambda>e.
       bind_o (nth_p datas k) (\<lambda>d.
       ok_or (get_range d rel e) (OutOfRange off len (U64 - 1)))))))))"

text \<open>\<open>coalesce_plan\<close> is the span-building loop, \<open>order\<close> its offset-sorted index list.\<close>

definition read_order :: "(nat \<times> nat) list \<Rightarrow> nat list" where
  "read_order ranges = sort_key (\<lambda>i. fst (ranges ! i)) [0..<length ranges]"

definition coalesce_plan :: "(nat \<times> nat) list \<Rightarrow> nat \<Rightarrow> ((nat \<times> nat) list \<times> nat list) fres" where
  "coalesce_plan ranges gap =
     foldM_o (coalesce_step ranges gap) ([], replicate (length ranges) (U64 - 1)) (read_order ranges)"

definition read_coalesced :: "nat \<Rightarrow> range_read \<Rightarrow> (nat \<times> nat) list \<Rightarrow> nat \<Rightarrow> bytes list fres" where
  "read_coalesced um fetch ranges gap =
     bind_o (coalesce_plan ranges gap) (\<lambda>(spans, span_of).
     bind_o (mapM_o (\<lambda>(s, e). map_ok (\<lambda>n. (s, n)) (ok_or (try_from um (e - s)) (OutOfRange s 0 (U64 - 1)))) spans)
       (\<lambda>reads.
     bind_o (wave (\<lambda>(s, n). fetch s n) reads) (\<lambda>datas.
     mapM_o (slice_back um spans span_of datas) (enumerate 0 ranges))))"

subsection \<open>Span merging keeps every range inside its span\<close>

definition covers :: "(nat \<times> nat) list \<Rightarrow> nat \<Rightarrow> nat \<Rightarrow> nat \<Rightarrow> bool" where
  "covers spans k s e \<longleftrightarrow> k < length spans \<and> fst (spans ! k) \<le> s \<and> e \<le> snd (spans ! k)"

lemma span_step_length: "length spans \<le> length (span_step near spans s e)"
  by (auto simp: span_step_def)

lemma span_step_not_Nil [simp]: "span_step near spans s e \<noteq> []"
  by (auto simp: span_step_def)

lemma span_step_covers_old: "covers spans k a b \<Longrightarrow> covers (span_step near spans s e) k a b"
  by (cases spans rule: rev_cases) (auto simp: covers_def span_step_def nth_append split: if_splits)

lemma span_step_covers_new:
  assumes "spans \<noteq> [] \<Longrightarrow> fst (last spans) \<le> s"
  shows "covers (span_step near spans s e) (length (span_step near spans s e) - 1) s e"
  using assms by (cases spans rule: rev_cases) (auto simp: covers_def span_step_def nth_append)

lemma span_step_last_fst:
  assumes "spans \<noteq> [] \<Longrightarrow> fst (last spans) \<le> s"
  shows "fst (last (span_step near spans s e)) \<le> s"
  using assms by (auto simp: span_step_def)

lemma span_step_bound:
  assumes "\<And>a b. (a, b) \<in> set spans \<Longrightarrow> a < b \<and> b \<le> L" "s < e" "e \<le> L"
    and "(a, b) \<in> set (span_step near spans s e)"
  shows "a < b \<and> b \<le> L"
proof (cases spans rule: rev_cases)
  case Nil
  then show ?thesis using assms by (auto simp: span_step_def)
next
  case (snoc xs x)
  have "fst x < snd x \<and> snd x \<le> L" using assms(1) [of "fst x" "snd x"] snoc by auto
  moreover have "a < b \<and> b \<le> L" if "(a, b) \<in> set xs" using assms(1) that snoc by auto
  ultimately show ?thesis using assms(2,3,4) snoc
    by (cases x) (auto simp: span_step_def split: if_splits)
qed

lemma coalesce_step_Ok:
  assumes "coalesce_step ranges gap (spans, so) i = Ok (spans', so')"
    and "ranges ! i = (off, len)"
  obtains (empty) "len = 0" "spans' = spans" "so' = so"
    | (step) "len \<noteq> 0" "off + len < U64"
        "spans' = span_step (\<lambda>l s. s \<le> sat_add U64 l gap) spans off (off + len)"
        "so' = so[i := length spans' - 1]"
  using assms by (auto simp: coalesce_step_def Let_def outcome_simps split: if_splits)

text \<open>
  The loop invariant: processing an offset-sorted list of indices keeps old ranges covered and
  covers every new one.
\<close>

lemma coalesce_fold_covers:
  assumes "foldM_o (coalesce_step ranges gap) (spans, so) is = Ok (spans', so')"
    and "sorted (map (\<lambda>i. fst (ranges ! i)) is)" "distinct is" "set is \<subseteq> {..<length so}"
    and "\<And>i. spans \<noteq> [] \<Longrightarrow> i \<in> set is \<Longrightarrow> fst (last spans) \<le> fst (ranges ! i)"
  shows "length so' = length so \<and> (\<forall>j. j \<notin> set is \<longrightarrow> so' ! j = so ! j)
     \<and> (\<forall>k a b. covers spans k a b \<longrightarrow> covers spans' k a b)
     \<and> (\<forall>i \<in> set is. snd (ranges ! i) \<noteq> 0 \<longrightarrow>
          fst (ranges ! i) + snd (ranges ! i) < U64 \<and>
          covers spans' (so' ! i) (fst (ranges ! i)) (fst (ranges ! i) + snd (ranges ! i)))"
  using assms
proof (induction "is" arbitrary: spans so)
  case Nil
  then show ?case by simp
next
  case (Cons i rest)
  obtain off len where r: "ranges ! i = (off, len)" by fastforce
  obtain spans1 so1 where st: "coalesce_step ranges gap (spans, so) i = Ok (spans1, so1)"
    and rest: "foldM_o (coalesce_step ranges gap) (spans1, so1) rest = Ok (spans', so')"
    using Cons.prems(1) by (auto simp: outcome_simps)
  have sorted: "sorted (map (\<lambda>i. fst (ranges ! i)) rest)" and dist: "distinct rest"
    and "set": "set rest \<subseteq> {..<length so}" and i: "i \<notin> set rest" "i < length so"
    and le: "\<And>j. j \<in> set rest \<Longrightarrow> off \<le> fst (ranges ! j)"
    using Cons.prems(2,3,4) r by auto
  from st r show ?case
  proof (cases rule: coalesce_step_Ok)
    case empty
    then show ?thesis
      using Cons.IH [OF rest sorted dist] "set" Cons.prems(5) i r by auto
  next
    case step
    have last: "spans \<noteq> [] \<Longrightarrow> fst (last spans) \<le> off" using Cons.prems(5) [of i] r by simp
    have new: "covers spans1 (so1 ! i) off (off + len)"
      using span_step_covers_new [OF last] step(3,4) i(2) by simp
    have last1: "fst (last spans1) \<le> off" using span_step_last_fst [OF last] step(3) by simp
    have old: "covers spans k a b \<Longrightarrow> covers spans1 k a b" for k a b
      using span_step_covers_old step(3) by simp
    have len: "length so1 = length so" using step(4) by simp
    have IH: "length so' = length so1 \<and> (\<forall>j. j \<notin> set rest \<longrightarrow> so' ! j = so1 ! j)
     \<and> (\<forall>k a b. covers spans1 k a b \<longrightarrow> covers spans' k a b)
     \<and> (\<forall>i \<in> set rest. snd (ranges ! i) \<noteq> 0 \<longrightarrow>
          fst (ranges ! i) + snd (ranges ! i) < U64 \<and>
          covers spans' (so' ! i) (fst (ranges ! i)) (fst (ranges ! i) + snd (ranges ! i)))"
      using last1 le "set" len by (intro Cons.IH [OF rest sorted dist]) (auto intro: order_trans)
    show ?thesis
    proof (intro conjI)
      show "length so' = length so" using IH len by simp
      show "\<forall>j. j \<notin> set (i # rest) \<longrightarrow> so' ! j = so ! j" using IH step(4) by simp
      show "\<forall>k a b. covers spans k a b \<longrightarrow> covers spans' k a b" using IH old by blast
      have "so' ! i = so1 ! i" using IH i(1) by blast
      then show "\<forall>j \<in> set (i # rest). snd (ranges ! j) \<noteq> 0 \<longrightarrow>
          fst (ranges ! j) + snd (ranges ! j) < U64 \<and>
          covers spans' (so' ! j) (fst (ranges ! j)) (fst (ranges ! j) + snd (ranges ! j))"
        using IH new step(2) r by auto
    qed
  qed
qed

lemma coalesce_fold_bound:
  assumes "foldM_o (coalesce_step ranges gap) (spans, so) is = Ok (spans', so')"
    and "\<And>i. i \<in> set is \<Longrightarrow> snd (ranges ! i) \<noteq> 0 \<Longrightarrow> fst (ranges ! i) + snd (ranges ! i) \<le> L"
    and "\<And>a b. (a, b) \<in> set spans \<Longrightarrow> a < b \<and> b \<le> L"
  shows "\<forall>(a, b) \<in> set spans'. a < b \<and> b \<le> L"
  using assms
proof (induction "is" arbitrary: spans so)
  case Nil
  then show ?case by auto
next
  case (Cons i rest)
  obtain off len where r: "ranges ! i = (off, len)" by fastforce
  obtain spans1 so1 where st: "coalesce_step ranges gap (spans, so) i = Ok (spans1, so1)"
    and rest: "foldM_o (coalesce_step ranges gap) (spans1, so1) rest = Ok (spans', so')"
    using Cons.prems(1) by (auto simp: outcome_simps)
  have "a < b \<and> b \<le> L" if m: "(a, b) \<in> set spans1" for a b
    using st r
  proof (cases rule: coalesce_step_Ok)
    case empty
    then show ?thesis using Cons.prems(3) m by blast
  next
    case step
    have "off + len \<le> L" using Cons.prems(2) [of i] r step(1) by simp
    then show ?thesis
      using span_step_bound [where spans = spans and s = off and e = "off + len" and L = L
          and a = a and b = b and near = "\<lambda>l s. s \<le> sat_add U64 l gap"]
        Cons.prems(3) m step(1,3) by simp
  qed
  then show ?case using Cons.IH [OF rest] Cons.prems(2) by simp
qed

lemma coalesce_fold_total:
  assumes "\<And>i. i \<in> set is \<Longrightarrow> snd (ranges ! i) \<noteq> 0 \<Longrightarrow> fst (ranges ! i) + snd (ranges ! i) < U64"
  shows "\<exists>st'. foldM_o (coalesce_step ranges gap) st is = Ok st'"
  using assms
proof (induction "is" arbitrary: st)
  case Nil
  then show ?case by simp
next
  case (Cons i rest)
  have "\<exists>st1. coalesce_step ranges gap st i = Ok st1"
    using Cons.prems [of i]
    by (cases st; cases "ranges ! i") (auto simp: coalesce_step_def Let_def checked_add_def)
  then obtain st1 where "coalesce_step ranges gap st i = Ok st1" ..
  then show ?case using Cons.IH [of st1] Cons.prems by simp
qed

lemma coalesce_plan_no_panic: "coalesce_plan ranges gap \<noteq> Panic"
  unfolding coalesce_plan_def
  by (rule foldM_o_not_Panic) (auto simp: coalesce_step_def Let_def outcome_simps split: prod.splits)

lemma read_order_props:
  "sorted (map (\<lambda>i. fst (ranges ! i)) (read_order ranges))"
  "distinct (read_order ranges)" "set (read_order ranges) = {..<length ranges}"
  by (auto simp: read_order_def)

lemma coalesce_plan_covers:
  assumes "coalesce_plan ranges gap = Ok (spans, so)"
  shows "length so = length ranges"
    and "\<And>i. i < length ranges \<Longrightarrow> snd (ranges ! i) \<noteq> 0 \<Longrightarrow>
       fst (ranges ! i) + snd (ranges ! i) < U64 \<and>
       covers spans (so ! i) (fst (ranges ! i)) (fst (ranges ! i) + snd (ranges ! i))"
  using coalesce_fold_covers [OF assms [unfolded coalesce_plan_def] read_order_props(1,2)]
  by (auto simp: read_order_props(3))

lemma coalesce_plan_bound:
  assumes "coalesce_plan ranges gap = Ok (spans, so)"
    and "\<And>i. i < length ranges \<Longrightarrow> snd (ranges ! i) \<noteq> 0 \<Longrightarrow> fst (ranges ! i) + snd (ranges ! i) \<le> L"
    and "(a, b) \<in> set spans"
  shows "a < b \<and> b \<le> L"
proof -
  have "\<forall>(a, b) \<in> set spans. a < b \<and> b \<le> L"
    by (rule coalesce_fold_bound [OF assms(1) [unfolded coalesce_plan_def]])
      (use assms(2) read_order_props(3) in auto)
  then show ?thesis using assms(3) by blast
qed

subsection \<open>Batched reads are the individual reads\<close>

definition span_reads :: "nat \<Rightarrow> (nat \<times> nat) list \<Rightarrow> (nat \<times> nat) list fres" where
  "span_reads um spans =
     mapM_o (\<lambda>(s, e). map_ok (\<lambda>n. (s, n)) (ok_or (try_from um (e - s)) (OutOfRange s 0 (U64 - 1)))) spans"

lemma span_reads_Ok: "span_reads um spans = Ok rs \<Longrightarrow> rs = map (\<lambda>(s, e). (s, e - s)) spans"
  unfolding span_reads_def
proof (induction spans arbitrary: rs)
  case Nil
  then show ?case by simp
next
  case (Cons x xs)
  then show ?case by (cases x) (auto simp: outcome_simps map_ok_Ok_iff)
qed

lemma span_reads_no_panic: "span_reads um spans \<noteq> Panic"
  unfolding span_reads_def by (rule mapM_o_not_Panic) auto

lemma span_reads_total:
  "(\<And>s e. (s, e) \<in> set spans \<Longrightarrow> e - s < um) \<Longrightarrow>
     span_reads um spans = Ok (map (\<lambda>(s, e). (s, e - s)) spans)"
  unfolding span_reads_def by (rule mapM_o_map) (auto simp: try_from_def)

lemma read_coalesced_alt:
  "read_coalesced um fetch ranges gap =
     bind_o (coalesce_plan ranges gap) (\<lambda>(spans, span_of).
     bind_o (span_reads um spans) (\<lambda>reads.
     bind_o (wave (\<lambda>(s, n). fetch s n) reads) (\<lambda>datas.
     mapM_o (slice_back um spans span_of datas) (enumerate 0 ranges))))"
  by (simp add: read_coalesced_def span_reads_def)

context range_fetch
begin

lemma slice_back_exact:
  assumes plan: "coalesce_plan ranges gap = Ok (spans, so)"
    and datas: "wave (\<lambda>(s, n). fetch s n) (map (\<lambda>(s, e). (s, e - s)) spans) = Ok datas"
    and i: "i < length ranges" "ranges ! i = (off, len)" "len \<noteq> 0"
  shows "slice_back um spans so datas (i, off, len) =
           (if len + (off - fst (spans ! (so ! i))) < um then Ok (cut content off (off + len))
            else Err (OutOfRange off len (U64 - 1)))"
proof -
  let ?k = "so ! i"
  have so: "length so = length ranges" and "covers spans ?k off (off + len)"
    using coalesce_plan_covers(1) [OF plan] coalesce_plan_covers(2) [OF plan i(1)] i(2,3) by simp_all
  then have k: "?k < length spans" and s: "fst (spans ! ?k) \<le> off" and e: "off + len \<le> snd (spans ! ?k)"
    by (auto simp: covers_def)
  obtain a b where ab: "spans ! ?k = (a, b)" by fastforce
  have "fetch a (b - a) = Ok (datas ! ?k)"
    using wave_Ok_nth [OF datas, of ?k] k ab by simp
  then have d: "length (datas ! ?k) = b - a" "datas ! ?k = cut content a (a + (b - a))"
    using fetch_exact by auto
  have len: "length datas = length spans" using wave_Ok_length [OF datas] by simp
  have within: "a + (b - a) \<le> length content"
    using fetch_within [OF \<open>fetch a (b - a) = Ok (datas ! ?k)\<close>] s e i(3) ab by simp
  have "cut (datas ! ?k) (off - a) (off - a + len) = cut content (a + (off - a)) (a + (off - a + len))"
    using d(2) within s e ab by (metis (no_types, lifting) cut_cut diff_add_inverse fst_conv le_add_diff_inverse le_diff_conv2 le_trans nat_add_left_cancel_le snd_conv le_add1 add.assoc)
  then have piece: "cut (datas ! ?k) (off - a) (off - a + len) = cut content off (off + len)"
    using s ab by simp
  show ?thesis
    using so i k s e ab d(1) len piece
    by (auto simp: slice_back_def sub_p_def nth_p_def try_from_def checked_add_def get_range_def ok_or_def)
qed

lemma read_coalesced_cases:
  assumes "read_coalesced um fetch ranges gap = r"
  obtains (err) e where "r = Err e"
    | (planned) spans so datas where "coalesce_plan ranges gap = Ok (spans, so)"
        "wave (\<lambda>(s, n). fetch s n) (map (\<lambda>(s, e). (s, e - s)) spans) = Ok datas"
        "r = mapM_o (slice_back um spans so datas) (enumerate 0 ranges)"
proof (cases "coalesce_plan ranges gap")
  case Panic
  then show ?thesis using coalesce_plan_no_panic by blast
next
  case (Err e)
  then have "r = Err e" using assms by (simp add: read_coalesced_alt)
  then show ?thesis by (rule err)
next
  case (Ok st)
  obtain spans so where st: "st = (spans, so)" by fastforce
  show ?thesis
  proof (cases "span_reads um spans")
    case Panic
    then show ?thesis using span_reads_no_panic by blast
  next
    case (Err e)
    then have "r = Err e" using assms Ok st by (simp add: read_coalesced_alt)
    then show ?thesis by (rule err)
  next
    case reads: (Ok rs)
    then have rs: "rs = map (\<lambda>(s, e). (s, e - s)) spans" by (rule span_reads_Ok)
    have "wave (\<lambda>(s, n). fetch s n) rs \<noteq> Panic"
      by (rule wave_not_Panic) (auto simp: fetch_no_panic)
    then consider (ok) datas where "wave (\<lambda>(s, n). fetch s n) rs = Ok datas"
      | (bad) e where "wave (\<lambda>(s, n). fetch s n) rs = Err e"
      by (cases "wave (\<lambda>(s, n). fetch s n) rs") auto
    then show ?thesis
    proof cases
      case ok
      then have "r = mapM_o (slice_back um spans so datas) (enumerate 0 ranges)"
        using assms Ok st reads by (simp add: read_coalesced_alt)
      with ok Ok st rs show ?thesis by (intro planned) simp_all
    next
      case bad
      then have "r = Err e" using assms Ok st reads by (simp add: read_coalesced_alt)
      then show ?thesis by (rule err)
    qed
  qed
qed

lemma slice_back_zero: "slice_back um spans so datas (i, off, 0) = Ok []"
  by (simp add: slice_back_def)

lemma coalesced_exact:
  assumes "read_coalesced um fetch ranges gap = Ok out"
  shows "out = map (\<lambda>(off, len). cut content off (off + len)) ranges"
  using assms
proof (cases rule: read_coalesced_cases)
  case (planned spans so datas)
  have all: "list_all2 (\<lambda>x y. slice_back um spans so datas x = Ok y) (enumerate 0 ranges) out"
    by (rule mapM_o_Ok_iff [THEN iffD1, OF planned(3) [symmetric]])
  then have len: "length out = length ranges" by (auto dest: list_all2_lengthD)
  have "out ! i = (case ranges ! i of (off, len) \<Rightarrow> cut content off (off + len))" if "i < length ranges" for i
  proof -
    obtain off n where r: "ranges ! i = (off, n)" by fastforce
    have "slice_back um spans so datas (i, off, n) = Ok (out ! i)"
      using list_all2_nthD [OF all, of i] that r by (simp add: nth_enumerate_eq)
    note piece = this
    show ?thesis
    proof (cases "n = 0")
      case True
      then show ?thesis using piece r by (simp add: slice_back_zero)
    next
      case False
      from piece show ?thesis
        unfolding slice_back_exact [OF planned(1,2) that r False] using r by (simp split: if_splits)
    qed
  qed
  then show ?thesis using len by (auto intro!: nth_equalityI)
qed simp

lemma coalesced_no_panic: "read_coalesced um fetch ranges gap \<noteq> Panic"
proof
  assume "read_coalesced um fetch ranges gap = Panic"
  then show False
  proof (cases rule: read_coalesced_cases)
    case (planned spans so datas)
    have "mapM_o (slice_back um spans so datas) (enumerate 0 ranges) \<noteq> Panic"
    proof (rule mapM_o_not_Panic)
      fix x assume "x \<in> set (enumerate 0 ranges)"
      then obtain i off n where x: "x = (i, off, n)" "i < length ranges" "ranges ! i = (off, n)"
        by (auto simp: in_set_enumerate_eq) (metis prod.collapse)
      then show "slice_back um spans so datas x \<noteq> Panic"
        using slice_back_exact [OF planned(1,2) x(2,3), of um]
        by (cases "n = 0") (auto simp: slice_back_zero split: if_splits)
    qed
    then show False using planned(3) by simp
  qed simp
qed

end

context full_fetch
begin

lemma coalesced_ok:
  assumes "\<And>off len. (off, len) \<in> set ranges \<Longrightarrow> len \<noteq> 0 \<Longrightarrow> off + len \<le> length content"
    and "length content < lim" "lim \<le> um" "length content < U64"
  shows "read_coalesced um fetch ranges gap = Ok (map (\<lambda>(off, len). cut content off (off + len)) ranges)"
proof -
  have inb: "fst (ranges ! i) + snd (ranges ! i) \<le> length content"
    if "i < length ranges" "snd (ranges ! i) \<noteq> 0" for i
    using assms(1) [of "fst (ranges ! i)" "snd (ranges ! i)"] that by simp
  obtain spans so where plan: "coalesce_plan ranges gap = Ok (spans, so)"
  proof -
    have "\<exists>st. coalesce_plan ranges gap = Ok st"
      unfolding coalesce_plan_def
    proof (rule coalesce_fold_total)
      fix i assume "i \<in> set (read_order ranges)" "snd (ranges ! i) \<noteq> 0"
      then have "fst (ranges ! i) + snd (ranges ! i) \<le> length content"
        using inb read_order_props(3) by blast
      then show "fst (ranges ! i) + snd (ranges ! i) < U64" using assms(4) by simp
    qed
    then show ?thesis using that by auto
  qed
  have bound: "a < b \<and> b \<le> length content" if "(a, b) \<in> set spans" for a b
    by (rule coalesce_plan_bound [OF plan _ that]) (use inb in auto)
  have reads: "span_reads um spans = Ok (map (\<lambda>(s, e). (s, e - s)) spans)"
    by (rule span_reads_total) (use bound assms(2,3) in fastforce)
  let ?datas = "map (\<lambda>(s, n). cut content s (s + n)) (map (\<lambda>(s, e). (s, e - s)) spans)"
  have datas: "wave (\<lambda>(s, n). fetch s n) (map (\<lambda>(s, e). (s, e - s)) spans) = Ok ?datas"
  proof (rule wave_map)
    fix x assume "x \<in> set (map (\<lambda>(s, e). (s, e - s)) spans)"
    then obtain a b where x: "(a, b) \<in> set spans" "x = (a, b - a)" by auto
    then show "(case x of (s, n) \<Rightarrow> fetch s n) = Ok (case x of (s, n) \<Rightarrow> cut content s (s + n))"
      using bound [OF x(1)] assms(2) fetch_ok [of a "b - a"] by simp
  qed
  have "mapM_o (slice_back um spans so ?datas) (enumerate 0 ranges)
      = Ok (map (\<lambda>(i, off, len). cut content off (off + len)) (enumerate 0 ranges))"
  proof (rule mapM_o_map)
    fix x assume "x \<in> set (enumerate 0 ranges)"
    then obtain i off n where x: "x = (i, off, n)" "i < length ranges" "ranges ! i = (off, n)"
      by (auto simp: in_set_enumerate_eq) (metis prod.collapse)
    show "slice_back um spans so ?datas x = Ok (case x of (i, off, len) \<Rightarrow> cut content off (off + len))"
    proof (cases "n = 0")
      case True
      then show ?thesis using x by (simp add: slice_back_zero)
    next
      case False
      then have "off + n \<le> length content" using inb [OF x(2)] x(3) by simp
      then show ?thesis
        using slice_back_exact [OF plan datas x(2,3) False, of um] x assms(2,3) by simp
    qed
  qed
  moreover have "map (\<lambda>(i, off, len). cut content off (off + len)) (enumerate 0 ranges)
      = map (\<lambda>(off, len). cut content off (off + len)) ranges"
    by (rule nth_equalityI) (auto simp: nth_enumerate_eq split: prod.splits)
  ultimately show ?thesis using plan reads datas by (simp add: read_coalesced_alt)
qed

end

subsection \<open>The read counter counts the reads\<close>

definition last_end :: "(nat \<times> nat) list \<Rightarrow> nat option" where
  "last_end spans = (if spans = [] then None else Some (snd (last spans)))"

definition with_end :: "nat \<times> nat \<Rightarrow> nat \<times> nat" where
  "with_end = (\<lambda>(off, len). (off, sat_add U64 off len))"

lemma count_step_span:
  "off + len < U64 \<Longrightarrow>
   count_step gap (length spans, last_end spans) (with_end (off, len)) =
     (let spans' = span_step (\<lambda>l s. s \<le> sat_add U64 l gap) spans off (off + len)
      in (length spans', last_end spans'))"
  by (cases spans rule: rev_cases)
    (auto simp: count_step_def with_end_def last_end_def span_step_def sat_add_exact Let_def)

lemma coalesce_fold_count:
  assumes "foldM_o (coalesce_step ranges gap) (spans, so) is = Ok (spans', so')"
  shows "foldl (count_step gap) (length spans, last_end spans)
           (map with_end (filter (\<lambda>r. snd r \<noteq> 0) (map ((!) ranges) is))) = (length spans', last_end spans')"
  using assms
proof (induction "is" arbitrary: spans so)
  case Nil
  then show ?case by simp
next
  case (Cons i rest)
  obtain off len where r: "ranges ! i = (off, len)" by fastforce
  obtain spans1 so1 where st: "coalesce_step ranges gap (spans, so) i = Ok (spans1, so1)"
    and rest: "foldM_o (coalesce_step ranges gap) (spans1, so1) rest = Ok (spans', so')"
    using Cons.prems(1) by (auto simp: outcome_simps)
  from st r show ?case
  proof (cases rule: coalesce_step_Ok)
    case empty
    then show ?thesis using Cons.IH [OF rest] r by simp
  next
    case step
    then have "count_step gap (length spans, last_end spans) (with_end (off, len)) = (length spans1, last_end spans1)"
      by (simp only: count_step_span Let_def)
    then show ?thesis using Cons.IH [OF rest] r step(1) by simp
  qed
qed

lemma read_order_ranges: "map ((!) ranges) (read_order ranges) = sort_key fst ranges"
proof -
  have "map ((!) ranges) (sort_key (fst \<circ> (!) ranges) [0..<length ranges]) = sort_key fst (map ((!) ranges) [0..<length ranges])"
    by (rule map_sort_key)
  then show ?thesis by (simp add: read_order_def map_nth comp_def)
qed

lemma plan_span_count:
  assumes "coalesce_plan ranges gap = Ok (spans, so)"
  shows "coalesced_span_count ranges gap = length spans"
proof -
  have fst_end: "fst \<circ> with_end = fst" by (auto simp: with_end_def)
  have "map with_end (filter (\<lambda>r. snd r \<noteq> 0) (map ((!) ranges) (read_order ranges)))
      = map with_end (sort_key (fst \<circ> with_end) (filter (\<lambda>r. snd r \<noteq> 0) ranges))"
    by (simp add: read_order_ranges filter_sort fst_end)
  also have "\<dots> = sort_key fst (map with_end (filter (\<lambda>r. snd r \<noteq> 0) ranges))"
    by (rule map_sort_key)
  finally have "map with_end (filter (\<lambda>r. snd r \<noteq> 0) (map ((!) ranges) (read_order ranges)))
      = sort_key fst (map with_end (filter (\<lambda>r. snd r \<noteq> 0) ranges))" .
  then have "foldl (count_step gap) (0, None) (sort_key fst (map with_end (filter (\<lambda>r. snd r \<noteq> 0) ranges)))
      = (length spans, last_end spans)"
    using coalesce_fold_count [OF assms [unfolded coalesce_plan_def]] by (simp add: last_end_def)
  then show ?thesis
    by (simp add: coalesced_span_count_def with_end_def case_prod_beta' Let_def)
qed

section \<open>Properties\<close>

text \<open>
  C1: A coalesced batch of ranges inside an in-memory object returns, for every requested range in
  request order, exactly what reading that range on its own returns, whatever the gap and however the
  ranges overlap, repeat or are empty.
\<close>

theorem coalesced_is_individual_reads:
  assumes "length bs < um" "um \<le> U64"
    and "\<forall>(off, len) \<in> set ranges. off + len \<le> length bs"
  shows "read_coalesced um (mem_read um (mem_new bs)) ranges gap
       = mapM_o (\<lambda>(off, len). mem_read um (mem_new bs) off len) ranges"
proof -
  have inb: "off + len \<le> length bs" if "(off, len) \<in> set ranges" for off len
    using assms(3) that by auto
  have "read_coalesced um (mem_read um (mem_new bs)) ranges gap
      = Ok (map (\<lambda>(off, len). cut bs off (off + len)) ranges)"
    by (rule memf.coalesced_ok) (use assms inb in auto)
  moreover have "mapM_o (\<lambda>(off, len). mem_read um (mem_new bs) off len) ranges
      = Ok (map (\<lambda>(off, len). cut bs off (off + len)) ranges)"
  proof (rule mapM_o_map)
    fix x assume "x \<in> set ranges"
    then have "fst x + snd x \<le> length bs" by (simp add: inb)
    then show "(case x of (off, len) \<Rightarrow> mem_read um (mem_new bs) off len) = Ok (case x of (off, len) \<Rightarrow> cut bs off (off + len))"
      using assms(1) by (simp add: case_prod_beta mem_read_in_range)
  qed
  ultimately show ?thesis by simp
qed

lemma coalesced_is_individual_reads_witness:
  "read_coalesced U32 (mem_read U32 (mem_new [1, 2, 3, 4, 5])) [(3, 2), (0, 0), (0, 4)] 0
   = mapM_o (\<lambda>(off, len). mem_read U32 (mem_new [1, 2, 3, 4, 5]) off len) [(3, 2), (0, 0), (0, 4)]"
  by (rule coalesced_is_individual_reads) simp_all

end
