(* ===== verification/RR_Range_Cache.thy ===== *)
theory RR_Range_Cache imports RR_Fetch begin

text \<open>
  The byte-budgeted LRU cache of \<open>rust/src/range_cache.rs\<close> and the cached network read of
  \<open>rust/src/wasm.rs\<close> that consults it. The cache keeps two tables, a hash map from keys to
  payload and access clock and an ordered map from clocks to keys; its invariant \<open>cache_inv\<close>
  says they describe the same entries. \<open>lru\<close> abstracts a cache to its entries from least to
  most recently used, and every operation refines the list operation one expects.
\<close>

section \<open>State and operations\<close>

datatype cache_key = CacheKey (ck_source: string) (ck_offset: nat) (ck_len: nat)

record range_cache =
  rc_map :: "cache_key \<rightharpoonup> bytes \<times> nat"
  rc_recency :: "(nat \<times> cache_key) list"
  rc_bytes :: nat
  rc_max :: nat
  rc_clock :: nat
  rc_hits :: nat
  rc_misses :: nat

text \<open>\<open>BTreeMap\<close>: an association list kept sorted by key.\<close>

definition bt_remove :: "nat \<Rightarrow> (nat \<times> 'v) list \<Rightarrow> (nat \<times> 'v) list" where
  "bt_remove k m = filter (\<lambda>e. fst e \<noteq> k) m"

definition bt_insert :: "nat \<Rightarrow> 'v \<Rightarrow> (nat \<times> 'v) list \<Rightarrow> (nat \<times> 'v) list" where
  "bt_insert k v m = insort_key fst (k, v) (bt_remove k m)"

definition cache_new :: "nat \<Rightarrow> range_cache" where
  "cache_new max_bytes = \<lparr>rc_map = Map.empty, rc_recency = [], rc_bytes = 0, rc_max = max_bytes,
     rc_clock = 0, rc_hits = 0, rc_misses = 0\<rparr>"

lemma length_bt_remove_hd: "length (bt_remove k ((k, v) # m)) < length ((k, v) # m)"
  by (simp add: bt_remove_def less_Suc_eq_le)

function evict_to_budget :: "range_cache \<Rightarrow> range_cache fres" where
  "evict_to_budget c =
     (if rc_bytes c > rc_max c then
        (case rc_recency c of
           [] \<Rightarrow> Ok c
         | (clk, key) # rest \<Rightarrow>
             let recency = bt_remove clk (rc_recency c) in
             (case rc_map c key of
                Some (bytes, _) \<Rightarrow>
                  if length bytes \<le> rc_bytes c
                  then evict_to_budget (c\<lparr>rc_map := (rc_map c)(key := None), rc_recency := recency,
                         rc_bytes := rc_bytes c - length bytes\<rparr>)
                  else Panic
              | None \<Rightarrow> evict_to_budget (c\<lparr>rc_recency := recency\<rparr>)))
      else Ok c)"
  by pat_completeness auto
termination
  by (relation "measure (\<lambda>c. length (rc_recency c))")
    (auto simp: bt_remove_def less_Suc_eq_le)

declare evict_to_budget.simps [simp del]

definition set_max_bytes :: "nat \<Rightarrow> range_cache \<Rightarrow> range_cache fres" where
  "set_max_bytes max_bytes c = evict_to_budget (c\<lparr>rc_max := max_bytes\<rparr>)"

definition cache_get ::
  "range_cache \<Rightarrow> string \<Rightarrow> nat \<Rightarrow> nat \<Rightarrow> (bytes option \<times> range_cache) fres" where
  "cache_get c source offset len =
     (if rc_max c = 0 then Ok (None, c)
      else let key = CacheKey source offset len in
        case rc_map c key of
          Some (bytes, at) \<Rightarrow>
            bind_o (add_p U64 (rc_clock c) 1) (\<lambda>clock.
            bind_o (add_p U64 (rc_hits c) 1) (\<lambda>hits.
            Ok (Some bytes,
                c\<lparr>rc_map := (rc_map c)(key \<mapsto> (bytes, clock)),
                  rc_recency := bt_insert clock key (bt_remove at (rc_recency c)),
                  rc_clock := clock, rc_hits := hits\<rparr>)))
        | None \<Rightarrow>
            bind_o (add_p U64 (rc_misses c) 1) (\<lambda>misses. Ok (None, c\<lparr>rc_misses := misses\<rparr>)))"

definition cache_insert ::
  "nat \<Rightarrow> range_cache \<Rightarrow> string \<Rightarrow> nat \<Rightarrow> nat \<Rightarrow> bytes \<Rightarrow> range_cache fres" where
  "cache_insert um c source offset len bytes =
     (if rc_max c = 0 \<or> bytes = [] \<or> length bytes > rc_max c then Ok c
      else let key = CacheKey source offset len in
        bind_o
          (case rc_map c key of
             Some (old, at) \<Rightarrow>
               bind_o (sub_p (rc_bytes c) (length old)) (\<lambda>n.
               Ok (c\<lparr>rc_map := (rc_map c)(key := None),
                     rc_recency := bt_remove at (rc_recency c), rc_bytes := n\<rparr>))
           | None \<Rightarrow> Ok c) (\<lambda>c.
        bind_o (add_p U64 (rc_clock c) 1) (\<lambda>clock.
        bind_o (add_p um (rc_bytes c) (length bytes)) (\<lambda>n.
        evict_to_budget
          (c\<lparr>rc_clock := clock, rc_bytes := n, rc_recency := bt_insert clock key (rc_recency c),
             rc_map := (rc_map c)(key \<mapsto> (bytes, clock))\<rparr>)))))"

definition cache_stats :: "range_cache \<Rightarrow> nat \<times> nat \<times> nat \<times> nat" where
  "cache_stats c = (rc_bytes c, card (dom (rc_map c)), rc_hits c, rc_misses c)"

section \<open>Invariant\<close>

definition payload :: "range_cache \<Rightarrow> cache_key \<Rightarrow> bytes" where
  "payload c k = (case rc_map c k of Some (b, _) \<Rightarrow> b | None \<Rightarrow> [])"

definition lru :: "range_cache \<Rightarrow> (cache_key \<times> bytes) list" where
  "lru c = map (\<lambda>(_, k). (k, payload c k)) (rc_recency c)"

definition total :: "(cache_key \<times> bytes) list \<Rightarrow> nat" where
  "total l = sum_list (map (\<lambda>(_, b). length b) l)"

text \<open>The part every intermediate state keeps, then the budget that holds between operations.\<close>

definition tables_inv :: "range_cache \<Rightarrow> bool" where
  "tables_inv c \<longleftrightarrow>
     sorted_wrt (\<lambda>a b. fst a < fst b) (rc_recency c)
   \<and> (\<forall>clk k. (clk, k) \<in> set (rc_recency c) \<longleftrightarrow> (\<exists>b. rc_map c k = Some (b, clk)))
   \<and> (\<forall>(clk, k) \<in> set (rc_recency c). clk \<le> rc_clock c)
   \<and> rc_bytes c = total (lru c)"

definition cache_inv :: "range_cache \<Rightarrow> bool" where
  "cache_inv c \<longleftrightarrow> tables_inv c \<and> rc_bytes c \<le> rc_max c"

section \<open>The abstract LRU list\<close>

definition lru_lookup :: "cache_key \<Rightarrow> (cache_key \<times> bytes) list \<Rightarrow> bytes option" where
  "lru_lookup k l = map_of l k"

definition lru_drop :: "cache_key \<Rightarrow> (cache_key \<times> bytes) list \<Rightarrow> (cache_key \<times> bytes) list" where
  "lru_drop k l = filter (\<lambda>e. fst e \<noteq> k) l"

definition lru_put :: "cache_key \<Rightarrow> bytes \<Rightarrow> (cache_key \<times> bytes) list \<Rightarrow> (cache_key \<times> bytes) list" where
  "lru_put k b l = lru_drop k l @ [(k, b)]"

fun lru_evict :: "nat \<Rightarrow> (cache_key \<times> bytes) list \<Rightarrow> (cache_key \<times> bytes) list" where
  "lru_evict budget [] = []"
| "lru_evict budget (e # l) = (if total (e # l) > budget then lru_evict budget l else e # l)"

lemma total_simps [simp]: "total [] = 0" "total ((k, b) # l) = length b + total l"
  "total (l @ l') = total l + total l'"
  by (simp_all add: total_def)

lemma total_lru_evict: "total (lru_evict budget l) \<le> budget"
  by (induction l) auto

lemma lru_evict_suffix: "\<exists>n. lru_evict budget l = drop n l"
proof (induction l)
  case Nil
  then show ?case by simp
next
  case (Cons e l)
  then obtain n where "lru_evict budget l = drop n l" by blast
  then have "lru_evict budget (e # l) = drop (if total (e # l) > budget then Suc n else 0) (e # l)"
    by simp
  then show ?case by blast
qed

section \<open>Facts about the tables\<close>

lemma distinct_snd_if:
  fixes l :: "(nat \<times> 'v) list"
  assumes "sorted_wrt (\<lambda>a b. fst a < fst b) l"
    and "\<And>c d x. (c, x) \<in> set l \<Longrightarrow> (d, x) \<in> set l \<Longrightarrow> c = d"
  shows "distinct (map snd l)"
  using assms
proof (induction l)
  case Nil
  then show ?case by simp
next
  case (Cons e l)
  obtain c x where e: "e = (c, x)" by fastforce
  have "x \<notin> snd ` set l"
  proof
    assume "x \<in> snd ` set l"
    then obtain d where d: "(d, x) \<in> set l" by force
    then have "c < d" using Cons.prems(1) e by force
    moreover have "c = d" using Cons.prems(2) [of c x d] d e by simp
    ultimately show False by simp
  qed
  moreover have "distinct (map snd l)"
    using Cons.IH Cons.prems by (metis list.set_intros(2) sorted_wrt.simps(2))
  ultimately show ?case using e by simp
qed

lemma tables_inv_distinct:
  assumes "tables_inv c"
  shows "distinct (map snd (rc_recency c))"
proof (rule distinct_snd_if)
  show "sorted_wrt (\<lambda>a b. fst a < fst b) (rc_recency c)" using assms by (simp add: tables_inv_def)
  show "clk = clk'" if "(clk, k) \<in> set (rc_recency c)" "(clk', k) \<in> set (rc_recency c)" for clk clk' k
    using assms that unfolding tables_inv_def by (metis option.inject prod.inject)
qed

lemma lru_keys: "map fst (lru c) = map snd (rc_recency c)"
  by (auto simp: lru_def)

lemma tables_invD:
  assumes "tables_inv c"
  shows "sorted_wrt (\<lambda>a b. fst a < fst b) (rc_recency c)"
    and "(clk, k) \<in> set (rc_recency c) \<longleftrightarrow> (\<exists>b. rc_map c k = Some (b, clk))"
    and "(clk, k) \<in> set (rc_recency c) \<Longrightarrow> clk \<le> rc_clock c"
    and "rc_bytes c = total (lru c)"
  using assms unfolding tables_inv_def by blast+

lemma lru_distinct: "tables_inv c \<Longrightarrow> distinct (map fst (lru c))"
  by (simp add: lru_keys tables_inv_distinct)

lemma lru_member:
  assumes "tables_inv c" "rc_map c k = Some (b, clk)"
  shows "(k, b) \<in> set (lru c)"
proof -
  have "(clk, k) \<in> set (rc_recency c)" using assms tables_invD(2) by blast
  then show ?thesis using assms(2) by (force simp: lru_def payload_def)
qed

lemma lru_lookup_map: 
  assumes "tables_inv c"
  shows "lru_lookup k (lru c) = map_option fst (rc_map c k)"
proof (cases "rc_map c k")
  case None
  then have "k \<notin> fst ` set (lru c)"
    using tables_invD(2) [OF assms] by (auto simp: lru_def)
  then have "map_of (lru c) k = None" by (simp add: map_of_eq_None_iff)
  then show ?thesis using None by (simp add: lru_lookup_def)
next
  case (Some v)
  then have "(k, fst v) \<in> set (lru c)" using lru_member [OF assms, of k "fst v" "snd v"] by simp
  then show ?thesis using Some lru_distinct [OF assms] by (simp add: lru_lookup_def)
qed

lemma total_drop:
  "distinct (map fst l) \<Longrightarrow> (k, b) \<in> set l \<Longrightarrow> total l = length b + total (lru_drop k l)"
proof (induction l)
  case Nil
  then show ?case by simp
next
  case (Cons e l)
  obtain k' b' where e: "e = (k', b')" by fastforce
  show ?case
  proof (cases "k' = k")
    case True
    then have "(k, x) \<notin> set l" for x using Cons.prems(1) e by force
    then have "b' = b" "lru_drop k l = l"
      using Cons.prems(2) e by (auto simp: lru_drop_def intro!: filter_True)
    then show ?thesis using e True by (simp add: lru_drop_def)
  next
    case False
    then show ?thesis using Cons e by (auto simp: lru_drop_def)
  qed
qed

lemma sorted_fst_inj:
  "sorted_wrt (\<lambda>a b. fst a < fst b) l \<Longrightarrow> (c, x) \<in> set l \<Longrightarrow> (c, y) \<in> set l \<Longrightarrow> x = (y :: 'b)"
  for l :: "(nat \<times> 'b) list"
  by (induction l) auto

lemma bt_remove_by_key:
  assumes "tables_inv c" "rc_map c k = Some (b, clk)"
  shows "bt_remove clk (rc_recency c) = filter (\<lambda>e. snd e \<noteq> k) (rc_recency c)"
  unfolding bt_remove_def
proof (rule filter_cong [OF refl])
  fix e assume e: "e \<in> set (rc_recency c)"
  have k: "(clk, k) \<in> set (rc_recency c)" using assms tables_invD(2) by blast
  show "fst e \<noteq> clk \<longleftrightarrow> snd e \<noteq> k"
  proof
    assume "fst e \<noteq> clk"
    then show "snd e \<noteq> k" using e assms tables_invD(2) by (metis Pair_inject option.inject prod.collapse)
  next
    assume "snd e \<noteq> k"
    then show "fst e \<noteq> clk"
      using e k sorted_fst_inj [OF tables_invD(1) [OF assms(1)]] by (metis prod.collapse)
  qed
qed

text \<open>Removing an entry, and adding one with a fresh clock: the two moves of every operation.\<close>

definition forget :: "cache_key \<Rightarrow> bytes \<times> nat \<Rightarrow> range_cache \<Rightarrow> range_cache" where
  "forget k v c = c\<lparr>rc_map := (rc_map c)(k := None), rc_recency := bt_remove (snd v) (rc_recency c),
     rc_bytes := rc_bytes c - length (fst v)\<rparr>"

definition remember :: "cache_key \<Rightarrow> bytes \<Rightarrow> range_cache \<Rightarrow> range_cache" where
  "remember k b c = c\<lparr>rc_clock := rc_clock c + 1, rc_bytes := rc_bytes c + length b,
     rc_recency := bt_insert (rc_clock c + 1) k (rc_recency c),
     rc_map := (rc_map c)(k \<mapsto> (b, rc_clock c + 1))\<rparr>"

lemma forget_entry:
  assumes inv: "tables_inv c" and at: "rc_map c k = Some v"
  shows "lru (forget k v c) = lru_drop k (lru c)"
    and "tables_inv (forget k v c)"
    and "length (fst v) \<le> rc_bytes c"
proof -
  obtain b clk where v: "v = (b, clk)" by fastforce
  have rec: "bt_remove clk (rc_recency c) = filter (\<lambda>e. snd e \<noteq> k) (rc_recency c)"
    using bt_remove_by_key inv at v by blast
  show lru: "lru (forget k v c) = lru_drop k (lru c)"
    by (auto simp: lru_def lru_drop_def forget_def v rec filter_map comp_def case_prod_beta payload_def
        intro!: map_cong filter_cong)
  have tot: "total (lru c) = length b + total (lru_drop k (lru c))"
    using total_drop lru_distinct [OF inv] lru_member inv at v by blast
  then show "length (fst v) \<le> rc_bytes c" using tables_invD(4) [OF inv] v by simp
  show "tables_inv (forget k v c)"
    unfolding tables_inv_def
  proof (intro conjI)
    show "sorted_wrt (\<lambda>a b. fst a < fst b) (rc_recency (forget k v c))"
      using tables_invD(1) [OF inv] by (simp add: forget_def bt_remove_def sorted_wrt_filter)
    show "\<forall>clk k'. ((clk, k') \<in> set (rc_recency (forget k v c))) = (\<exists>b. rc_map (forget k v c) k' = Some (b, clk))"
      using tables_invD(2) [OF inv] by (auto simp: forget_def v rec)
    show "\<forall>(clk, k') \<in> set (rc_recency (forget k v c)). clk \<le> rc_clock (forget k v c)"
      using tables_invD(3) [OF inv] by (auto simp: forget_def v rec)
    show "rc_bytes (forget k v c) = total (lru (forget k v c))"
      using lru tot tables_invD(4) [OF inv] by (simp add: forget_def v)
  qed
qed

lemma insort_key_last: "(\<And>e. e \<in> set l \<Longrightarrow> f e < f x) \<Longrightarrow> insort_key f x l = l @ [x]"
  by (induction l) (auto simp: not_le [symmetric])

lemma remember_entry:
  assumes inv: "tables_inv c" and new: "rc_map c k = None"
  shows "lru (remember k b c) = lru c @ [(k, b)]" and "tables_inv (remember k b c)"
proof -
  have less: "fst e < rc_clock c + 1" if "e \<in> set (rc_recency c)" for e
    using tables_invD(3) [OF inv, of "fst e" "snd e"] that by simp
  have "bt_remove (rc_clock c + 1) (rc_recency c) = rc_recency c"
    unfolding bt_remove_def using less by (intro filter_True) fastforce
  then have rec: "bt_insert (Suc (rc_clock c)) k (rc_recency c) = rc_recency c @ [(Suc (rc_clock c), k)]"
    unfolding bt_insert_def using less by (simp add: insort_key_last)
  have fresh: "k' \<noteq> k" if "(clk, k') \<in> set (rc_recency c)" for clk k'
    using that new tables_invD(2) [OF inv, of clk k'] by auto
  show lru: "lru (remember k b c) = lru c @ [(k, b)]"
    using fresh by (auto simp: lru_def remember_def rec payload_def)
  show "tables_inv (remember k b c)"
    unfolding tables_inv_def
  proof (intro conjI)
    show "sorted_wrt (\<lambda>a b. fst a < fst b) (rc_recency (remember k b c))"
      using tables_invD(1) [OF inv] less by (simp add: remember_def rec sorted_wrt_append)
    show "\<forall>clk k'. ((clk, k') \<in> set (rc_recency (remember k b c))) = (\<exists>x. rc_map (remember k b c) k' = Some (x, clk))"
      using tables_invD(2) [OF inv] fresh new by (auto simp: remember_def rec)
    show "\<forall>(clk, k') \<in> set (rc_recency (remember k b c)). clk \<le> rc_clock (remember k b c)"
      using less by (force simp: remember_def rec)
    show "rc_bytes (remember k b c) = total (lru (remember k b c))"
      using lru tables_invD(4) [OF inv] by (simp add: remember_def)
  qed
qed

section \<open>Every operation refines its list operation\<close>

lemma evict_refines:
  "tables_inv c \<Longrightarrow> \<exists>c'. evict_to_budget c = Ok c' \<and> cache_inv c' \<and> lru c' = lru_evict (rc_max c) (lru c)
     \<and> rc_max c' = rc_max c \<and> rc_clock c' = rc_clock c \<and> rc_hits c' = rc_hits c \<and> rc_misses c' = rc_misses c"
proof (induction "length (rc_recency c)" arbitrary: c rule: less_induct)
  case less
  note bytes = tables_invD(4) [OF less.prems]
  show ?case
  proof (cases "rc_bytes c > rc_max c")
    case False
    then have "evict_to_budget c = Ok c" by (simp add: evict_to_budget.simps [of c])
    moreover have "lru_evict (rc_max c) (lru c) = lru c"
      using False bytes by (cases "lru c") auto
    ultimately show ?thesis using False less.prems by (simp add: cache_inv_def)
  next
    case True
    then have "lru c \<noteq> []" using bytes by (auto simp: total_def)
    then obtain clk k rest where rec: "rc_recency c = (clk, k) # rest"
      by (cases "rc_recency c") (auto simp: lru_def)
    then obtain b where at: "rc_map c k = Some (b, clk)"
      using tables_invD(2) [OF less.prems, of clk k] by auto
    let ?c = "forget k (b, clk) c"
    note entry = forget_entry [OF less.prems at]
    have step: "evict_to_budget c = evict_to_budget ?c"
      using True rec at entry(3) by (simp add: evict_to_budget.simps [of c] forget_def Let_def)
    have "length (rc_recency ?c) < length (rc_recency c)"
      by (simp add: forget_def rec bt_remove_def less_Suc_eq_le)
    then obtain c' where c': "evict_to_budget ?c = Ok c'" "cache_inv c'"
      "lru c' = lru_evict (rc_max ?c) (lru ?c)" "rc_max c' = rc_max ?c" "rc_clock c' = rc_clock ?c"
      "rc_hits c' = rc_hits ?c" "rc_misses c' = rc_misses ?c"
      using less.hyps entry(2) by blast
    have cons: "lru c = (k, b) # tl (lru c)" using rec at by (simp add: lru_def payload_def)
    then have "k \<notin> fst ` set (tl (lru c))"
      using lru_distinct [OF less.prems] by (metis distinct.simps(2) fst_conv list.set_map list.simps(9))
    then have "lru_drop k (tl (lru c)) = tl (lru c)"
      unfolding lru_drop_def by (intro filter_True) auto
    then have drop: "lru_drop k (lru c) = tl (lru c)"
      using cons by (metis (mono_tags, lifting) filter.simps(2) fst_conv lru_drop_def)
    have "lru_evict (rc_max c) (lru c) = lru_evict (rc_max c) (lru_drop k (lru c))"
      using True bytes cons drop lru_evict.simps(2) [of "rc_max c" "(k, b)" "tl (lru c)"] by simp
    then show ?thesis using c' step entry(1) by (simp add: forget_def)
  qed
qed

lemma cache_new_inv: "cache_inv (cache_new n)" "lru (cache_new n) = []"
  by (auto simp: cache_inv_def tables_inv_def cache_new_def lru_def total_def)

lemma set_max_refines:
  assumes "cache_inv c"
  shows "\<exists>c'. set_max_bytes n c = Ok c' \<and> cache_inv c' \<and> lru c' = lru_evict n (lru c) \<and> rc_max c' = n
     \<and> rc_clock c' = rc_clock c \<and> rc_hits c' = rc_hits c \<and> rc_misses c' = rc_misses c"
proof -
  have "tables_inv (c\<lparr>rc_max := n\<rparr>)" "lru (c\<lparr>rc_max := n\<rparr>) = lru c"
    using assms by (auto simp: cache_inv_def tables_inv_def lru_def payload_def)
  then show ?thesis
    using evict_refines [of "c\<lparr>rc_max := n\<rparr>"] by (auto simp: set_max_bytes_def)
qed

lemma lru_drop_absent: "rc_map c k = None \<Longrightarrow> tables_inv c \<Longrightarrow> lru_drop k (lru c) = lru c"
  unfolding lru_drop_def using lru_lookup_map [of c k]
  by (intro filter_True) (force simp: lru_lookup_def map_of_eq_None_iff)

lemma insert_refines:
  assumes inv: "cache_inv c" and clock: "rc_clock c + 1 < U64" and um: "rc_max c + length b < um"
  shows "\<exists>c'. cache_insert um c src off len b = Ok c' \<and> cache_inv c' \<and> rc_max c' = rc_max c
     \<and> rc_clock c' \<le> rc_clock c + 1 \<and> rc_hits c' = rc_hits c \<and> rc_misses c' = rc_misses c
     \<and> lru c' = (if rc_max c = 0 \<or> b = [] \<or> length b > rc_max c then lru c
                else lru_evict (rc_max c) (lru_put (CacheKey src off len) b (lru c)))"
proof (cases "rc_max c = 0 \<or> b = [] \<or> length b > rc_max c")
  case True
  then show ?thesis using inv by (auto simp: cache_insert_def)
next
  case False
  let ?k = "CacheKey src off len"
  define c1 where "c1 = (case rc_map c ?k of None \<Rightarrow> c | Some v \<Rightarrow> forget ?k v c)"
  have tinv: "tables_inv c" and bytes: "rc_bytes c \<le> rc_max c" using inv by (auto simp: cache_inv_def)
  have c1: "tables_inv c1" "lru c1 = lru_drop ?k (lru c)" "rc_map c1 ?k = None"
    "rc_bytes c1 \<le> rc_max c" "rc_max c1 = rc_max c" "rc_clock c1 = rc_clock c"
    "rc_hits c1 = rc_hits c" "rc_misses c1 = rc_misses c"
    using forget_entry [OF tinv, of ?k] tinv bytes lru_drop_absent [of c ?k]
    by (auto simp: c1_def forget_def split: option.splits)
  let ?c2 = "remember ?k b c1"
  have c2: "tables_inv ?c2" "lru ?c2 = lru_put ?k b (lru c)"
    using remember_entry [OF c1(1,3), of b] c1(2) by (simp_all add: lru_put_def)
  have "cache_insert um c src off len b = evict_to_budget ?c2"
    using False clock um c1(4,5,6) forget_entry(3) [OF tinv, of ?k]
    by (auto simp: cache_insert_def Let_def c1_def forget_def remember_def add_p_def sub_p_def split: option.splits)
  then show ?thesis
    using evict_refines [OF c2(1)] c2(2) False c1(5-8) by (auto simp: remember_def)
qed

lemma get_refines:
  assumes inv: "cache_inv c" and room: "rc_clock c + 1 < U64" "rc_hits c + 1 < U64" "rc_misses c + 1 < U64"
  shows "\<exists>r c'. cache_get c src off len = Ok (r, c') \<and> cache_inv c' \<and> rc_max c' = rc_max c
     \<and> rc_clock c' \<le> rc_clock c + 1 \<and> rc_hits c' \<le> rc_hits c + 1 \<and> rc_misses c' \<le> rc_misses c + 1
     \<and> r = (if rc_max c = 0 then None else lru_lookup (CacheKey src off len) (lru c))
     \<and> lru c' = (case r of None \<Rightarrow> lru c | Some b \<Rightarrow> lru_put (CacheKey src off len) b (lru c))"
proof -
  let ?k = "CacheKey src off len"
  have tinv: "tables_inv c" and bytes: "rc_bytes c \<le> rc_max c" using inv by (auto simp: cache_inv_def)
  show ?thesis
  proof (cases "rc_max c = 0 \<or> rc_map c ?k = None")
    case True
    then show ?thesis
      using inv room lru_lookup_map [OF tinv, of ?k]
      by (auto simp: cache_get_def Let_def cache_inv_def tables_inv_def lru_def payload_def add_p_def)
  next
    case False
    then obtain b clk where at: "rc_map c ?k = Some (b, clk)" by auto
    let ?c1 = "forget ?k (b, clk) c"
    let ?c2 = "remember ?k b ?c1"
    note entry = forget_entry [OF tinv at]
    have none: "rc_map ?c1 ?k = None" by (simp add: forget_def)
    let ?c3 = "?c2\<lparr>rc_hits := rc_hits c + 1\<rparr>"
    have c2: "tables_inv ?c3" "lru ?c3 = lru_put ?k b (lru c)"
      using remember_entry [OF entry(2) none, of b] entry(1)
      by (auto simp: lru_put_def tables_inv_def lru_def payload_def)
    have "rc_bytes ?c3 \<le> rc_max ?c3"
      using bytes entry(3) by (simp add: remember_def forget_def)
    moreover have "cache_get c src off len = Ok (Some b, ?c3)"
      using False at room entry(3)
      by (simp add: cache_get_def Let_def remember_def forget_def add_p_def)
    moreover have "lru_lookup ?k (lru c) = Some b" using lru_lookup_map [OF tinv, of ?k] at by simp
    ultimately show ?thesis
      using c2 False by (auto simp: cache_inv_def remember_def forget_def)
  qed
qed

section \<open>The memo interface and the cached network read\<close>

text \<open>
  The browser's fetch layer (\<open>WasmFetch::read\<close> and \<open>network_read\<close> in \<open>rust/src/wasm.rs\<close>)
  uses the cache through \<open>get\<close> and \<open>insert\<close> only. The HTTP exchange itself is a parameter: a
  response is a failed promise or a status with a body. The reads of one session may each see a
  different server behaviour. The in-flight table that lets concurrent identical reads share one
  request and the fetch window are left out: this is one read at a time.
\<close>

datatype http_response = HttpFailed string | HttpResponse nat bytes

type_synonym http = "string \<Rightarrow> nat \<Rightarrow> nat \<Rightarrow> http_response"

type_synonym 'c memo_get = "'c \<Rightarrow> string \<Rightarrow> nat \<Rightarrow> nat \<Rightarrow> (bytes option \<times> 'c) fres"
type_synonym 'c memo_put = "'c \<Rightarrow> string \<Rightarrow> nat \<Rightarrow> nat \<Rightarrow> bytes \<Rightarrow> 'c fres"

definition network_read ::
  "'c memo_put \<Rightarrow> http \<Rightarrow> 'c option \<Rightarrow> string \<Rightarrow> nat \<Rightarrow> nat \<Rightarrow> bytes fres \<times> 'c option" where
  "network_read put http cache url off len =
     (case checked_add U64 off len of
        None \<Rightarrow> (Err (Transport ''range overflows u64''), cache)
      | Some past \<Rightarrow>
          (case http url off (past - 1) of
             HttpFailed msg \<Rightarrow> (Err (Transport msg), cache)
           | HttpResponse status body \<Rightarrow>
              (if \<not> (200 \<le> status \<and> status < 300) then
                 (if status = 404 \<or> status = 416 then (Err NotFound, cache)
                  else (Err (Transport ''HTTP status''), cache))
               else if length body \<noteq> len then (Err (Transport ''unexpected length''), cache)
               else case cache of
                      None \<Rightarrow> (Ok body, None)
                    | Some c \<Rightarrow>
                        (case put c url off len body of
                           Ok c' \<Rightarrow> (Ok body, Some c')
                         | Err e \<Rightarrow> (Err e, cache)
                         | Panic \<Rightarrow> (Panic, cache)))))"

definition wasm_read ::
  "'c memo_get \<Rightarrow> 'c memo_put \<Rightarrow> http \<Rightarrow> 'c option \<Rightarrow> string \<Rightarrow> nat \<Rightarrow> nat \<Rightarrow> bytes fres \<times> 'c option" where
  "wasm_read get put http cache url off len =
     (if len = 0 then (Ok [], cache)
      else case cache of
             None \<Rightarrow> network_read put http None url off len
           | Some c \<Rightarrow>
               (case get c url off len of
                  Ok (Some bytes, c') \<Rightarrow> (Ok bytes, Some c')
                | Ok (None, c') \<Rightarrow> network_read put http (Some c') url off len
                | Err e \<Rightarrow> (Err e, cache)
                | Panic \<Rightarrow> (Panic, cache)))"

fun read_session ::
  "'c memo_get \<Rightarrow> 'c memo_put \<Rightarrow> 'c option \<Rightarrow> (http \<times> string \<times> nat \<times> nat) list \<Rightarrow> bytes fres list" where
  "read_session get put cache [] = []"
| "read_session get put cache ((http, url, off, len) # qs) =
     (let (r, cache') = wasm_read get put http cache url off len
      in r # read_session get put cache' qs)"

text \<open>What an origin that honours Range requests promises: a success body of the asked length is the range.\<close>

definition http_origin :: "(string \<Rightarrow> bytes) \<Rightarrow> http \<Rightarrow> bool" where
  "http_origin content http \<longleftrightarrow>
     (\<forall>url a b status body. http url a b = HttpResponse status body \<and> 200 \<le> status \<and> status < 300 \<and>
        length body = b + 1 - a \<longrightarrow> body = cut (content url) a (b + 1))"

definition object_range :: "(string \<Rightarrow> bytes) \<Rightarrow> string \<Rightarrow> nat \<Rightarrow> nat \<Rightarrow> bytes" where
  "object_range content url off len = cut (content url) off (off + len)"

locale range_memo =
  fixes get :: "'c memo_get" and put :: "'c memo_put"
    and coherent :: "(string \<Rightarrow> nat \<Rightarrow> nat \<Rightarrow> bytes) \<Rightarrow> 'c \<Rightarrow> bool"
  assumes get_coherent: "coherent origin c \<Longrightarrow> get c url off len = Ok (r, c') \<Longrightarrow>
       coherent origin c' \<and> (\<forall>b. r = Some b \<longrightarrow> b = origin url off len)"
    and put_coherent: "coherent origin c \<Longrightarrow> put c url off len (origin url off len) = Ok c' \<Longrightarrow> coherent origin c'"
begin

lemma network_read_exact:
  assumes "http_origin content http" "0 < len"
    and "\<And>c. cache = Some c \<Longrightarrow> coherent (object_range content) c"
    and "network_read put http cache url off len = (r, cache')"
  shows "(\<forall>b. r = Ok b \<longrightarrow> b = object_range content url off len)
     \<and> (\<forall>c. cache' = Some c \<longrightarrow> coherent (object_range content) c)"
proof -
  have body: "body = object_range content url off len"
    if "http url off (off + len - 1) = HttpResponse status body" "200 \<le> status" "status < 300" "length body = len"
    for status body
  proof -
    have "length body = off + len - 1 + 1 - off" using that(4) assms(2) by simp
    then have "body = cut (content url) off (off + len - 1 + 1)"
      using assms(1) that(1,2,3) unfolding http_origin_def by blast
    then show ?thesis using assms(2) by (simp add: object_range_def)
  qed
  show ?thesis
    using assms(3,4) body put_coherent
    by (auto simp: network_read_def split: option.splits http_response.splits if_splits outcome.splits)
qed

lemma wasm_read_exact:
  assumes "http_origin content http"
    and "\<And>c. cache = Some c \<Longrightarrow> coherent (object_range content) c"
    and "wasm_read get put http cache url off len = (r, cache')"
  shows "(\<forall>b. r = Ok b \<longrightarrow> b = object_range content url off len)
     \<and> (\<forall>c. cache' = Some c \<longrightarrow> coherent (object_range content) c)"
proof (cases "len = 0")
  case True
  then show ?thesis using assms by (auto simp: wasm_read_def object_range_def)
next
  case False
  show ?thesis
  proof (cases cache)
    case None
    then show ?thesis
      using network_read_exact [OF assms(1), of len None url off r cache'] assms(3) False
      by (simp add: wasm_read_def)
  next
    case (Some c)
    note coh = assms(2) [OF Some]
    show ?thesis
    proof (cases "get c url off len")
      case (Ok p)
      obtain hit c1 where p: "p = (hit, c1)" by fastforce
      have c1: "coherent (object_range content) c1" "\<And>b. hit = Some b \<Longrightarrow> b = object_range content url off len"
        using get_coherent [OF coh] Ok p by blast+
      then show ?thesis
        using network_read_exact [OF assms(1), of len "Some c1" url off r cache'] assms(3) False Some Ok p
        by (auto simp: wasm_read_def split: option.splits)
    qed (use assms(3) False Some coh in \<open>auto simp: wasm_read_def\<close>)
  qed
qed

lemma session_exact:
  assumes "\<And>http url off len. (http, url, off, len) \<in> set qs \<Longrightarrow> http_origin content http"
    and "\<And>c. cache = Some c \<Longrightarrow> coherent (object_range content) c"
  shows "list_all2 (\<lambda>(http, url, off, len) r. \<forall>b. r = Ok b \<longrightarrow> b = object_range content url off len)
           qs (read_session get put cache qs)"
  using assms
proof (induction qs arbitrary: cache)
  case Nil
  then show ?case by simp
next
  case (Cons q qs)
  obtain http url off len where q: "q = (http, url, off, len)" by (cases q) auto
  obtain r cache' where rc: "wasm_read get put http cache url off len = (r, cache')" by fastforce
  have "http_origin content http" using Cons.prems(1) q by auto
  note ex = wasm_read_exact [OF this Cons.prems(2) rc]
  have "list_all2 (\<lambda>(http, url, off, len) r. \<forall>b. r = Ok b \<longrightarrow> b = object_range content url off len)
           qs (read_session get put cache' qs)"
    using Cons.prems(1) ex by (intro Cons.IH) auto
  then show ?case using ex q rc by simp
qed

end

text \<open>The range cache provides the interface: it only ever returns what was put in.\<close>

definition cache_coherent :: "(string \<Rightarrow> nat \<Rightarrow> nat \<Rightarrow> bytes) \<Rightarrow> range_cache \<Rightarrow> bool" where
  "cache_coherent origin c \<longleftrightarrow>
     (\<forall>url off len b clk. rc_map c (CacheKey url off len) = Some (b, clk) \<longrightarrow> b = origin url off len)"

lemma cache_coherent_mono:
  "cache_coherent origin c \<Longrightarrow> rc_map c' \<subseteq>\<^sub>m rc_map c \<Longrightarrow> cache_coherent origin c'"
  unfolding cache_coherent_def map_le_def by (metis domI)

lemma evict_map_le: "evict_to_budget c = Ok c' \<Longrightarrow> rc_map c' \<subseteq>\<^sub>m rc_map c"
proof (induction "length (rc_recency c)" arbitrary: c rule: less_induct)
  case less
  show ?case
  proof (cases "rc_bytes c > rc_max c \<and> rc_recency c \<noteq> []")
    case False
    then have "c' = c" using less.prems by (auto simp: evict_to_budget.simps [of c] split: if_splits)
    then show ?thesis by simp
  next
    case True
    then obtain clk k rest where rec: "rc_recency c = (clk, k) # rest" by (cases "rc_recency c") auto
    have shorter: "length (bt_remove clk (rc_recency c)) < length (rc_recency c)"
      by (simp add: rec bt_remove_def less_Suc_eq_le)
    show ?thesis
    proof (cases "rc_map c k")
      case None
      then have "evict_to_budget (c\<lparr>rc_recency := bt_remove clk (rc_recency c)\<rparr>) = Ok c'"
        using less.prems True rec by (simp add: evict_to_budget.simps [of c] Let_def)
      then show ?thesis using less.hyps [of "c\<lparr>rc_recency := bt_remove clk (rc_recency c)\<rparr>"] shorter by simp
    next
      case (Some v)
      let ?c = "c\<lparr>rc_map := (rc_map c)(k := None), rc_recency := bt_remove clk (rc_recency c),
                  rc_bytes := rc_bytes c - length (fst v)\<rparr>"
      have "evict_to_budget ?c = Ok c'"
        using less.prems True rec Some
        by (cases v) (simp add: evict_to_budget.simps [of c] Let_def split: if_splits)
      then have "rc_map c' \<subseteq>\<^sub>m rc_map ?c" using less.hyps [of ?c] shorter by simp
      also have "rc_map ?c \<subseteq>\<^sub>m rc_map c" by (simp add: map_le_def)
      finally show ?thesis .
    qed
  qed
qed

lemma cache_get_coherent:
  "cache_coherent origin c \<Longrightarrow> cache_get c url off len = Ok (r, c') \<Longrightarrow>
     cache_coherent origin c' \<and> (\<forall>b. r = Some b \<longrightarrow> b = origin url off len)"
  by (auto simp: cache_get_def cache_coherent_def Let_def outcome_simps split: if_splits option.splits)

lemma cache_insert_coherent:
  assumes coh: "cache_coherent origin c"
    and ins: "cache_insert um c url off len (origin url off len) = Ok c'"
  shows "cache_coherent origin c'"
proof (cases "rc_max c = 0 \<or> origin url off len = [] \<or> length (origin url off len) > rc_max c")
  case True
  then show ?thesis using coh ins by (auto simp: cache_insert_def)
next
  case False
  let ?k = "CacheKey url off len" and ?b = "origin url off len"
  obtain c0 where c0: "evict_to_budget c0 = Ok c'"
    and map0: "rc_map c0 = (rc_map c)(?k \<mapsto> (?b, rc_clock c + 1))"
    using ins False
    by (cases "rc_map c ?k") (auto simp: cache_insert_def Let_def outcome_simps)
  then have "cache_coherent origin c0"
    using coh by (auto simp: cache_coherent_def)
  then show ?thesis using cache_coherent_mono evict_map_le [OF c0] by blast
qed

interpretation rcache: range_memo cache_get "cache_insert um" cache_coherent for um
  by unfold_locales (fact cache_get_coherent, fact cache_insert_coherent)

section \<open>Runs of operations\<close>

datatype cache_op =
    OpGet string nat nat
  | OpInsert string nat nat bytes
  | OpResize nat

fun cache_step :: "nat \<Rightarrow> range_cache \<Rightarrow> cache_op \<Rightarrow> range_cache fres" where
  "cache_step um c (OpGet src off len) = map_ok snd (cache_get c src off len)"
| "cache_step um c (OpInsert src off len b) = cache_insert um c src off len b"
| "cache_step um c (OpResize n) = set_max_bytes n c"

text \<open>The specification: what the same operation does to a budget and a recency list.\<close>

fun lru_step :: "nat \<times> (cache_key \<times> bytes) list \<Rightarrow> cache_op \<Rightarrow> nat \<times> (cache_key \<times> bytes) list" where
  "lru_step (budget, l) (OpGet src off len) =
     (budget, if budget = 0 then l
              else case lru_lookup (CacheKey src off len) l of
                     None \<Rightarrow> l | Some b \<Rightarrow> lru_put (CacheKey src off len) b l)"
| "lru_step (budget, l) (OpInsert src off len b) =
     (budget, if b = [] \<or> length b > budget then l else lru_evict budget (lru_put (CacheKey src off len) b l))"
| "lru_step (budget, l) (OpResize n) = (n, lru_evict n l)"

fun op_fits :: "nat \<Rightarrow> nat \<Rightarrow> cache_op \<Rightarrow> bool" where
  "op_fits limit um (OpInsert src off len b) = (limit + length b < um)"
| "op_fits limit um (OpResize n) = (n \<le> limit)"
| "op_fits limit um (OpGet src off len) = True"

lemma cache_step_refines:
  assumes inv: "cache_inv c" and fits: "op_fits limit um op" and lim: "rc_max c \<le> limit"
    and room: "rc_clock c + 1 < U64" "rc_hits c + 1 < U64" "rc_misses c + 1 < U64"
  shows "\<exists>c'. cache_step um c op = Ok c' \<and> cache_inv c' \<and> (rc_max c', lru c') = lru_step (rc_max c, lru c) op
     \<and> rc_max c' \<le> limit \<and> rc_clock c' \<le> rc_clock c + 1 \<and> rc_hits c' \<le> rc_hits c + 1 \<and> rc_misses c' \<le> rc_misses c + 1"
proof (cases op)
  case (OpGet src off len)
  obtain r c' where "cache_get c src off len = Ok (r, c')" "cache_inv c'" "rc_max c' = rc_max c"
    "rc_clock c' \<le> rc_clock c + 1" "rc_hits c' \<le> rc_hits c + 1" "rc_misses c' \<le> rc_misses c + 1"
    "r = (if rc_max c = 0 then None else lru_lookup (CacheKey src off len) (lru c))"
    "lru c' = (case r of None \<Rightarrow> lru c | Some b \<Rightarrow> lru_put (CacheKey src off len) b (lru c))"
    using get_refines [OF inv room] by blast
  then show ?thesis using OpGet lim by simp
next
  case (OpInsert src off len b)
  have "rc_max c + length b < um" using fits lim OpInsert by simp
  then obtain c' where c': "cache_insert um c src off len b = Ok c'" "cache_inv c'" "rc_max c' = rc_max c"
    "rc_clock c' \<le> rc_clock c + 1" "rc_hits c' = rc_hits c" "rc_misses c' = rc_misses c"
    "lru c' = (if rc_max c = 0 \<or> b = [] \<or> length b > rc_max c then lru c
      else lru_evict (rc_max c) (lru_put (CacheKey src off len) b (lru c)))"
    using insert_refines [OF inv room(1)] by blast
  moreover have "rc_max c = 0 \<or> b = [] \<or> length b > rc_max c \<longleftrightarrow> b = [] \<or> length b > rc_max c"
    by auto
  ultimately show ?thesis using OpInsert lim by simp
next
  case (OpResize n)
  obtain c' where "set_max_bytes n c = Ok c'" "cache_inv c'" "lru c' = lru_evict n (lru c)" "rc_max c' = n"
    "rc_clock c' = rc_clock c" "rc_hits c' = rc_hits c" "rc_misses c' = rc_misses c"
    using set_max_refines [OF inv] by blast
  then show ?thesis using OpResize fits by simp
qed

lemma cache_run_refines_from:
  assumes "cache_inv c" "\<forall>op \<in> set ops. op_fits limit um op" "rc_max c \<le> limit"
    and "rc_clock c + length ops < U64" "rc_hits c + length ops < U64" "rc_misses c + length ops < U64"
  shows "\<exists>c'. foldM_o (cache_step um) c ops = Ok c' \<and> cache_inv c'
     \<and> (rc_max c', lru c') = foldl lru_step (rc_max c, lru c) ops"
  using assms
proof (induction ops arbitrary: c)
  case Nil
  then show ?case by simp
next
  case (Cons op ops)
  obtain c1 where c1: "cache_step um c op = Ok c1" "cache_inv c1" "(rc_max c1, lru c1) = lru_step (rc_max c, lru c) op"
    "rc_max c1 \<le> limit" "rc_clock c1 \<le> rc_clock c + 1" "rc_hits c1 \<le> rc_hits c + 1" "rc_misses c1 \<le> rc_misses c + 1"
    using cache_step_refines [OF Cons.prems(1), of limit um op] Cons.prems by auto
  then have "\<exists>c'. foldM_o (cache_step um) c1 ops = Ok c' \<and> cache_inv c'
     \<and> (rc_max c', lru c') = foldl lru_step (rc_max c1, lru c1) ops"
    using Cons.prems by (intro Cons.IH) auto
  then show ?case using c1(1,3) by simp
qed

section \<open>Properties\<close>

text \<open>
  C2: From an empty cache, any sequence of gets, inserts and budget changes runs without a panic
  and leaves exactly the recency list that the textbook LRU cache would hold (gets and accepted
  inserts move an entry to the most-recent end, eviction drops from the least-recent end until
  the payload fits), with the two internal tables consistent and the payload within the budget.
\<close>

theorem cache_run_is_lru:
  assumes "\<forall>op \<in> set ops. op_fits limit um op" "n \<le> limit" "length ops < U64"
  shows "\<exists>c. foldM_o (cache_step um) (cache_new n) ops = Ok c
     \<and> (rc_max c, lru c) = foldl lru_step (n, []) ops \<and> cache_inv c \<and> rc_bytes c \<le> rc_max c"
proof -
  have "rc_max (cache_new n) = n" "rc_clock (cache_new n) = 0" "rc_hits (cache_new n) = 0" "rc_misses (cache_new n) = 0"
    by (simp_all add: cache_new_def)
  then show ?thesis
    using cache_run_refines_from [OF cache_new_inv(1) [of n] assms(1)] assms(2,3)
    by (auto simp: cache_new_inv(2) cache_inv_def)
qed

definition demo_ops :: "cache_op list" where
  "demo_ops = [OpInsert ''u'' 0 2 [1, 2], OpInsert ''u'' 2 2 [3, 4], OpInsert ''u'' 4 2 [5, 6],
     OpGet ''u'' 0 2, OpInsert ''u'' 6 2 [7, 8]]"

theorem cache_run_is_lru_witness:
  "\<exists>c. foldM_o (cache_step 100) (cache_new 6) demo_ops = Ok c \<and> rc_max c = 6 \<and> rc_bytes c \<le> 6 \<and> cache_inv c
     \<and> lru c = [(CacheKey ''u'' 4 2, [5, 6]), (CacheKey ''u'' 0 2, [1, 2]), (CacheKey ''u'' 6 2, [7, 8])]"
proof -
  have spec: "foldl lru_step (6, []) demo_ops =
      (6, [(CacheKey ''u'' 4 2, [5, 6]), (CacheKey ''u'' 0 2, [1, 2]), (CacheKey ''u'' 6 2, [7, 8])])"
    by (simp add: demo_ops_def lru_put_def lru_drop_def lru_lookup_def)
  have "\<forall>op \<in> set demo_ops. op_fits 10 100 op" "length demo_ops < U64" by (simp_all add: demo_ops_def)
  from cache_run_is_lru [OF this(1) _ this(2), of 6] spec show ?thesis by auto
qed

text \<open>
  In a session of reads through the cached browser fetcher, against an origin that honours
  range requests but may fail differently on every request, every read that succeeds returns
  exactly the requested bytes of the requested object, whether the cache or the network
  served it and whatever was evicted in between.
\<close>

lemma cached_reads_exact:
  assumes "\<forall>(http, url, off, len) \<in> set qs. http_origin content http"
    and "i < length qs" "qs ! i = (http, url, off, len)"
    and "read_session cache_get (cache_insert um) (Some (cache_new n)) qs ! i = Ok b"
  shows "b = cut (content url) off (off + len)"
proof -
  have "cache_coherent (object_range content) (cache_new n)"
    by (simp add: cache_coherent_def cache_new_def)
  then have "list_all2 (\<lambda>(http, url, off, len) r. \<forall>b. r = Ok b \<longrightarrow> b = object_range content url off len)
      qs (read_session cache_get (cache_insert um) (Some (cache_new n)) qs)"
    using assms(1) by (intro rcache.session_exact) auto
  then show ?thesis using assms(2-4) by (auto dest: list_all2_nthD simp: object_range_def)
qed

definition demo_origin :: "string \<Rightarrow> bytes" where
  "demo_origin url = [10, 11, 12, 13, 14]"

definition up :: http where
  "up url a b = HttpResponse 206 (cut (demo_origin url) a (b + 1))"

definition down :: http where
  "down url a b = HttpResponse 503 []"

theorem cached_reads_exact_witness:
  "read_session cache_get (cache_insert 100) (Some (cache_new 8)) [(up, ''u'', 1, 2), (down, ''u'', 1, 2)] ! 1
     = Ok [11, 12] \<and> [11, 12] = cut (demo_origin ''u'') 1 (1 + 2)"
proof -
  let ?qs = "[(up, ''u'', 1, 2), (down, ''u'', 1, 2)]"
  have run: "read_session cache_get (cache_insert 100) (Some (cache_new 8)) ?qs ! 1 = Ok [11, 12]"
    by (simp add: wasm_read_def network_read_def cache_get_def cache_insert_def cache_new_def Let_def up_def
        down_def checked_add_def add_p_def demo_origin_def cut_def evict_to_budget.simps)
  have "\<forall>(http, url, off, len) \<in> set ?qs. http_origin demo_origin http"
    by (auto simp: http_origin_def up_def down_def)
  from cached_reads_exact [OF this _ _ run] run show ?thesis by simp
qed

end
