(* ===== verification/RR_Fetch_Window.thy ===== *)
theory RR_Fetch_Window imports RR_Prelude begin

text \<open>
  The cooperative in-flight window of \<open>rust/src/fetch_window.rs\<close>: the gate \<open>FetchGate\<close>, its
  \<open>Acquire\<close> future and its \<open>FetchPermit\<close>. The operations are functions on the gate; a step
  relation lets tasks create, poll, abandon and complete acquisitions in any order. A parked
  acquisition is only polled again after its waker has been called, so a wake-up that went to a
  dead waker would leave it asleep for ever: the invariant \<open>no_lost_wakeup\<close> rules this out.
\<close>

section \<open>The gate\<close>

record 'w gate =
  g_limit :: nat
  g_active :: nat
  g_waiters :: "(nat \<times> 'w) list"
  g_next_id :: nat

definition gate_new :: "nat \<Rightarrow> 'w gate" where
  "gate_new limit = \<lparr>g_limit = limit, g_active = 0, g_waiters = [], g_next_id = 0\<rparr>"

text \<open>\<open>wake_all\<close> drains the queue; the drained entries are the wakers it calls.\<close>

definition wake_all :: "'w gate \<Rightarrow> 'w gate \<times> (nat \<times> 'w) list" where
  "wake_all g = (g\<lparr>g_waiters := []\<rparr>, g_waiters g)"

definition gate_set_limit :: "nat \<Rightarrow> 'w gate \<Rightarrow> 'w gate \<times> (nat \<times> 'w) list" where
  "gate_set_limit limit g = wake_all (g\<lparr>g_limit := limit\<rparr>)"

definition gate_stats :: "'w gate \<Rightarrow> nat \<times> nat \<times> nat" where
  "gate_stats g = (g_limit g, g_active g, length (g_waiters g))"

definition gate_acquire :: "'w gate \<Rightarrow> (unit, nat \<times> 'w gate) outcome" where
  "gate_acquire g =
     bind_o (add_p U64 (g_next_id g) 1) (\<lambda>next. Ok (g_next_id g, g\<lparr>g_next_id := next\<rparr>))"

definition gate_release :: "'w gate \<Rightarrow> 'w gate \<times> (nat \<times> 'w) list" where
  "gate_release g = wake_all (g\<lparr>g_active := g_active g - 1\<rparr>)"

fun replace_waker :: "nat \<Rightarrow> 'w \<Rightarrow> (nat \<times> 'w) list \<Rightarrow> (nat \<times> 'w) list" where
  "replace_waker i w [] = [(i, w)]"
| "replace_waker i w ((j, v) # q) = (if j = i then (j, w) # q else (j, v) # replace_waker i w q)"

text \<open>\<open>Acquire::poll\<close>: \<open>True\<close> is \<open>Poll::Ready\<close> with a permit.\<close>

definition gate_poll :: "nat \<Rightarrow> 'w \<Rightarrow> 'w gate \<Rightarrow> bool \<times> 'w gate" where
  "gate_poll i w g =
     (if g_limit g = 0 \<or> g_active g < g_limit g then
        (True, g\<lparr>g_waiters := filter (\<lambda>(j, _). j \<noteq> i) (g_waiters g), g_active := g_active g + 1\<rparr>)
      else (False, g\<lparr>g_waiters := replace_waker i w (g_waiters g)\<rparr>))"

definition drop_acquire :: "nat \<Rightarrow> 'w gate \<Rightarrow> 'w gate" where
  "drop_acquire i g = g\<lparr>g_waiters := filter (\<lambda>(j, _). j \<noteq> i) (g_waiters g)\<rparr>"

section \<open>Tasks around the gate\<close>

text \<open>
  \<open>wake ws\<close> calls the wakers of the drained entries: every acquisition whose latest poll
  registered one of them is woken.
  A live acquisition was not polled yet (\<open>Fresh\<close>), is parked with the waker of its last poll,
  or was woken since. The executor polls fresh and woken acquisitions of its own accord; a
  parked one may also be polled spuriously.
\<close>

datatype 'w status = Fresh | Parked 'w | Woken

record 'w world =
  w_gate :: "'w gate"
  w_live :: "nat \<rightharpoonup> 'w status"
  w_permits :: nat

definition wake :: "(nat \<times> 'w) list \<Rightarrow> (nat \<rightharpoonup> 'w status) \<Rightarrow> (nat \<rightharpoonup> 'w status)" where
  "wake ws live = (\<lambda>i. case live i of
     Some (Parked w) \<Rightarrow> if (i, w) \<in> set ws then Some Woken else Some (Parked w)
   | st \<Rightarrow> st)"

inductive window_step :: "'w world \<Rightarrow> 'w world \<Rightarrow> bool" where
  step_acquire: "gate_acquire (w_gate s) = Ok (i, g) \<Longrightarrow>
     window_step s (s\<lparr>w_gate := g, w_live := (w_live s)(i \<mapsto> Fresh)\<rparr>)"
| step_admit: "w_live s i = Some st \<Longrightarrow> gate_poll i w (w_gate s) = (True, g) \<Longrightarrow>
     window_step s (s\<lparr>w_gate := g, w_live := (w_live s)(i := None), w_permits := w_permits s + 1\<rparr>)"
| step_park: "w_live s i = Some st \<Longrightarrow> gate_poll i w (w_gate s) = (False, g) \<Longrightarrow>
     window_step s (s\<lparr>w_gate := g, w_live := (w_live s)(i \<mapsto> Parked w)\<rparr>)"
| step_abandon: "w_live s i = Some st \<Longrightarrow>
     window_step s (s\<lparr>w_gate := drop_acquire i (w_gate s), w_live := (w_live s)(i := None)\<rparr>)"
| step_release: "0 < w_permits s \<Longrightarrow> gate_release (w_gate s) = (g, ws) \<Longrightarrow>
     window_step s (s\<lparr>w_gate := g, w_live := wake ws (w_live s), w_permits := w_permits s - 1\<rparr>)"
| step_limit: "gate_set_limit n (w_gate s) = (g, ws) \<Longrightarrow>
     window_step s (s\<lparr>w_gate := g, w_live := wake ws (w_live s)\<rparr>)"

inductive_cases window_stepE: "window_step s t"

inductive window_reachable :: "nat \<Rightarrow> 'w world \<Rightarrow> bool" for n where
  reach_init: "window_reachable n \<lparr>w_gate = gate_new n, w_live = Map.empty, w_permits = 0\<rparr>"
| reach_step: "window_reachable n s \<Longrightarrow> window_step s t \<Longrightarrow> window_reachable n t"

section \<open>Invariant\<close>

definition full :: "'w gate \<Rightarrow> bool" where
  "full g \<longleftrightarrow> g_limit g \<noteq> 0 \<and> g_limit g \<le> g_active g"

text \<open>The queue holds exactly the parked live acquisitions, each once, with its latest waker.\<close>

definition queue_exact :: "'w world \<Rightarrow> bool" where
  "queue_exact s \<longleftrightarrow> distinct (map fst (g_waiters (w_gate s)))
     \<and> (\<forall>i w. (i, w) \<in> set (g_waiters (w_gate s)) \<longleftrightarrow> w_live s i = Some (Parked w))"

definition no_lost_wakeup :: "'w world \<Rightarrow> bool" where
  "no_lost_wakeup s \<longleftrightarrow> (\<forall>i w. w_live s i = Some (Parked w) \<longrightarrow> full (w_gate s))"

definition window_inv :: "'w world \<Rightarrow> bool" where
  "window_inv s \<longleftrightarrow> queue_exact s \<and> no_lost_wakeup s \<and> g_active (w_gate s) = w_permits s
     \<and> (\<forall>i. g_next_id (w_gate s) \<le> i \<longrightarrow> w_live s i = None)"

lemma replace_waker_fst: "fst ` set (replace_waker i w q) = insert i (fst ` set q)"
proof (induction q)
  case Nil
  then show ?case by simp
next
  case (Cons e q)
  then show ?case by (cases e) auto
qed

lemma distinct_replace_waker:
  "distinct (map fst q) \<Longrightarrow> distinct (map fst (replace_waker i w q))"
proof (induction q)
  case Nil
  then show ?case by simp
next
  case (Cons e q)
  obtain k u where "e = (k, u)" by fastforce
  then show ?case using Cons replace_waker_fst [of i w q] by auto
qed

lemma set_replace_waker:
  "distinct (map fst q) \<Longrightarrow>
   (j, v) \<in> set (replace_waker i w q) \<longleftrightarrow> (if j = i then v = w else (j, v) \<in> set q)"
proof (induction q)
  case Nil
  then show ?case by simp
next
  case (Cons e q)
  obtain k u where e: "e = (k, u)" by fastforce
  have "(i, x) \<notin> set q" if "k = i" for x
    using Cons.prems that by (auto simp: e image_iff)
  then show ?case using Cons by (auto simp: e)
qed

lemma distinct_drop_waiter:
  "distinct (map fst q) \<Longrightarrow> distinct (map fst (filter P q))"
  by (induction q) auto

lemma wake_queue:
  assumes "queue_exact s"
  shows "wake (g_waiters (w_gate s)) (w_live s) i \<noteq> Some (Parked w)"
  using assms by (auto simp: wake_def queue_exact_def split: option.splits status.splits)

lemma wake_None [simp]: "wake ws live i = None \<longleftrightarrow> live i = None"
  by (auto simp: wake_def split: option.splits status.splits)

lemma window_step_inv:
  assumes "window_step s t" "window_inv s"
  shows "window_inv t"
  using assms
proof (induction rule: window_step.induct)
  case (step_acquire s i g)
  then show ?case
    by (auto simp: window_inv_def queue_exact_def no_lost_wakeup_def full_def gate_acquire_def outcome_simps)
next
  case (step_admit s i st w g)
  then show ?case
    by (auto simp: window_inv_def queue_exact_def no_lost_wakeup_def full_def gate_poll_def
        distinct_drop_waiter split: if_splits)
next
  case (step_park s i st w g)
  then show ?case
    by (auto simp: window_inv_def queue_exact_def no_lost_wakeup_def full_def gate_poll_def
        set_replace_waker distinct_replace_waker split: if_splits)
next
  case (step_abandon s i st)
  then show ?case
    by (auto simp: window_inv_def queue_exact_def no_lost_wakeup_def full_def drop_acquire_def
        distinct_drop_waiter)
next
  case (step_release s g ws)
  then show ?case
    using wake_queue [of s]
    by (auto simp: window_inv_def queue_exact_def no_lost_wakeup_def gate_release_def wake_all_def)
next
  case (step_limit n s g ws)
  then show ?case
    using wake_queue [of s]
    by (auto simp: window_inv_def queue_exact_def no_lost_wakeup_def gate_set_limit_def wake_all_def)
qed

lemma reachable_window_inv: "window_reachable n s \<Longrightarrow> window_inv s"
proof (induction rule: window_reachable.induct)
  case reach_init
  then show ?case by (simp add: window_inv_def queue_exact_def no_lost_wakeup_def gate_new_def)
next
  case (reach_step s t)
  then show ?case by (blast intro: window_step_inv)
qed

section \<open>Properties\<close>

text \<open>
  C3: No wake-up is lost. In every state that tasks can reach by creating, polling, abandoning,
  completing and resizing in any order, a live acquisition that is asleep (parked and not woken
  since its last poll) is asleep because the window is full: as soon as a slot is free every
  live acquisition is scheduled to poll again.
\<close>

theorem window_no_lost_wakeup:
  assumes "window_reachable n s" "w_live s i = Some (Parked w)"
  shows "\<not> fst (gate_poll i v (w_gate s))"
  using reachable_window_inv [OF assms(1)] assms(2)
  by (fastforce simp: window_inv_def no_lost_wakeup_def full_def gate_poll_def)

definition window_demo :: "string world" where
  "window_demo = \<lparr>w_gate = \<lparr>g_limit = 1, g_active = 1, g_waiters = [(1, ''b'')], g_next_id = 2\<rparr>,
     w_live = [1 \<mapsto> Parked ''b''], w_permits = 1\<rparr>"

lemma window_demo_reachable: "window_reachable 1 window_demo"
proof -
  let ?s0 = "\<lparr>w_gate = gate_new 1, w_live = Map.empty, w_permits = 0\<rparr> :: string world"
  let ?s1 = "\<lparr>w_gate = \<lparr>g_limit = 1, g_active = 0, g_waiters = [], g_next_id = 1\<rparr>,
     w_live = [0 \<mapsto> Fresh], w_permits = 0\<rparr> :: string world"
  let ?s2 = "\<lparr>w_gate = \<lparr>g_limit = 1, g_active = 1, g_waiters = [], g_next_id = 1\<rparr>,
     w_live = Map.empty, w_permits = 1\<rparr> :: string world"
  let ?s3 = "\<lparr>w_gate = \<lparr>g_limit = 1, g_active = 1, g_waiters = [], g_next_id = 2\<rparr>,
     w_live = [1 \<mapsto> Fresh], w_permits = 1\<rparr> :: string world"
  have st0: "window_step ?s0 ?s1"
    using step_acquire [of ?s0 0 "\<lparr>g_limit = 1, g_active = 0, g_waiters = [], g_next_id = 1\<rparr>"]
    by (simp add: gate_acquire_def gate_new_def add_p_def)
  have st1: "window_step ?s1 ?s2"
    using step_admit [of ?s1 0 Fresh "''a''" "\<lparr>g_limit = 1, g_active = 1, g_waiters = [], g_next_id = 1\<rparr>"]
    by (simp add: gate_poll_def)
  have st2: "window_step ?s2 ?s3"
    using step_acquire [of ?s2 1 "\<lparr>g_limit = 1, g_active = 1, g_waiters = [], g_next_id = 2\<rparr>"]
    by (simp add: gate_acquire_def add_p_def)
  have st3: "window_step ?s3 window_demo"
    using step_park [of ?s3 1 Fresh "''b''" "\<lparr>g_limit = 1, g_active = 1, g_waiters = [(1, ''b'')], g_next_id = 2\<rparr>"]
    by (simp add: gate_poll_def window_demo_def)
  show ?thesis
    by (rule reach_step [OF reach_step [OF reach_step [OF reach_step [OF reach_init st0] st1] st2] st3])
qed

lemma window_no_lost_wakeup_witness: "\<not> fst (gate_poll 1 ''b'' (w_gate window_demo))"
  by (rule window_no_lost_wakeup [OF window_demo_reachable, of 1 "''b''"]) (simp add: window_demo_def)

lemma card_parked:
  assumes "queue_exact s"
  shows "card {i. \<exists>w. w_live s i = Some (Parked w)} = length (g_waiters (w_gate s))"
proof -
  have "{i. \<exists>w. w_live s i = Some (Parked w)} = fst ` set (g_waiters (w_gate s))"
    using assms by (force simp: queue_exact_def)
  moreover have "card (set (map fst (g_waiters (w_gate s)))) = length (map fst (g_waiters (w_gate s)))"
    using assms by (intro distinct_card) (simp add: queue_exact_def)
  ultimately show ?thesis by simp
qed

text \<open>
  The window never leaks: in every reachable state the statistics are exact. The active
  count is the number of permits held, and the queue holds exactly the live parked acquisitions,
  so abandoned ones do not accumulate.
\<close>

lemma window_stats_exact:
  assumes "window_reachable n s"
  shows "gate_stats (w_gate s) =
    (g_limit (w_gate s), w_permits s, card {i. \<exists>w. w_live s i = Some (Parked w)})"
  using reachable_window_inv [OF assms] by (simp add: gate_stats_def window_inv_def card_parked)

lemma window_stats_exact_witness:
  "gate_stats (w_gate window_demo) = (1, 1, card {i. \<exists>w. w_live window_demo i = Some (Parked w)})"
  using window_stats_exact [OF window_demo_reachable] by (simp add: window_demo_def)

text \<open>
  C4: Admission respects the limit, and nobody is stuck. A step from a reachable state that
  hands out a permit leaves at most \<open>limit\<close> permits out unless the window is unbounded; and
  a live acquisition either is admitted by its next poll, or a permit is out whose release
  leaves it scheduled to poll again.
\<close>

theorem window_admission:
  assumes "window_reachable n s"
  shows "(window_step s t \<and> w_permits s < w_permits t \<and> g_limit (w_gate t) \<noteq> 0
            \<longrightarrow> w_permits t \<le> g_limit (w_gate t))
       \<and> (w_live s i = Some st \<longrightarrow>
            fst (gate_poll i v (w_gate s))
            \<or> (0 < w_permits s \<and> wake (snd (gate_release (w_gate s))) (w_live s) i \<in> {Some Fresh, Some Woken}))"
proof -
  have inv: "window_inv s" by (rule reachable_window_inv [OF assms])
  have "w_permits t \<le> g_limit (w_gate t)"
    if "window_step s t" "w_permits s < w_permits t" "g_limit (w_gate t) \<noteq> 0"
    using that(1)
  proof (cases rule: window_step.cases)
    case (step_admit i st w g)
    then show ?thesis using that(3) inv by (simp add: gate_poll_def window_inv_def split: if_splits) force
  qed (use that(2) in simp_all)
  moreover have "fst (gate_poll i v (w_gate s))
            \<or> (0 < w_permits s \<and> wake (snd (gate_release (w_gate s))) (w_live s) i \<in> {Some Fresh, Some Woken})"
    if live: "w_live s i = Some st"
  proof -
    have "wake (g_waiters (w_gate s)) (w_live s) i \<noteq> Some (Parked u)" for u
      using inv by (intro wake_queue) (simp add: window_inv_def)
    moreover have "wake (g_waiters (w_gate s)) (w_live s) i \<noteq> None" using live by simp
    ultimately have "wake (g_waiters (w_gate s)) (w_live s) i \<in> {Some Fresh, Some Woken}"
      by (metis insertI1 insertI2 option.exhaust status.exhaust)
    then show ?thesis using inv by (auto simp: gate_release_def wake_all_def gate_poll_def window_inv_def)
  qed
  ultimately show ?thesis by blast
qed

lemma window_admission_witness:
  "wake (snd (gate_release (w_gate window_demo))) (w_live window_demo) 1 \<in> {Some Fresh, Some Woken}"
  using window_admission [OF window_demo_reachable, of window_demo 1 "Parked ''b''" "''b''"]
  by (simp add: window_demo_def gate_poll_def)

end
