(* ===== verification/RR_Lookup.thy ===== *)
theory RR_Lookup imports RR_Fetch "HOL-Library.Product_Lexorder" "HOL-Library.Multiset" begin

text \<open>
  The identifier exact-match index \<open>RRIL\<close>: \<open>rust/src/lookup.rs\<close> (the reader) and
  \<open>write_lookup_streaming\<close> of \<open>rust/src/build.rs\<close> (the writer). An identifier is its UTF-8
  bytes. The reader narrows a window by interpolation over ranged reads, then finishes in one
  block. The lemmas show that it finds exactly the documents written for the identifier's
  double hash, and that no table, however damaged, makes it panic or loop.
\<close>

definition lookup_magic :: bytes where "lookup_magic = ascii ''RRIL''"
definition lookup_block_records :: nat where "lookup_block_records = 512"
definition fnv_offset :: "64 word" where "fnv_offset = 14695981039346656037"
definition fnv_prime :: "64 word" where "fnv_prime = 1099511628211"
definition fnv_verify_basis :: "64 word" where "fnv_verify_basis = 0x9E3779B97F4A7C15"

section \<open>Hashing\<close>

definition normalize_id :: "bytes \<Rightarrow> bytes" where
  "normalize_id s = concat (map (\<lambda>c.
     if (0x30 \<le> c \<and> c \<le> 0x39) \<or> (0x41 \<le> c \<and> c \<le> 0x5A) then [c]
     else if 0x61 \<le> c \<and> c \<le> 0x7A then [c - 32] else []) s)"

definition fnv64a_basis :: "bytes \<Rightarrow> 64 word \<Rightarrow> 64 word" where
  "fnv64a_basis s basis = foldl (\<lambda>h b. xor h (ucast b) * fnv_prime) basis s"

definition id_hash :: "bytes \<Rightarrow> nat" where
  "id_hash n = unat (fnv64a_basis n fnv_offset)"

definition id_verify :: "bytes \<Rightarrow> nat" where
  "id_verify n = unat (ucast (fnv64a_basis n fnv_verify_basis) :: 32 word)"

lemma id_hash_less: "id_hash n < U64"
  using unsigned_less [of "fnv64a_basis n fnv_offset", where 'a = nat] by (simp add: id_hash_def)

lemma id_verify_less: "id_verify n < U32"
  using unsigned_less [of "ucast (fnv64a_basis n fnv_verify_basis) :: 32 word", where 'a = nat]
  by (simp add: id_verify_def)

section \<open>The reader\<close>

text \<open>A booted \<open>Lookup\<close> is its record count; the fetcher is an argument of each operation.\<close>

definition lookup_from_boot :: "bytes \<Rightarrow> nat ires" where
  "lookup_from_boot header =
     (if length header < 16 then Err (Malformed ''short RRIL header'')
      else if cut header 0 4 \<noteq> lookup_magic then Err (BadMagic (cut header 0 4))
      else bind_o (read_u16 header 4) (\<lambda>version.
        if version \<noteq> 1 then Err (BadVersion version)
        else read_u32 header 8))"

definition lookup_open :: "range_read \<Rightarrow> nat ires" where
  "lookup_open f = bind_o (rd f 0 16) lookup_from_boot"

definition lookup_record :: "range_read \<Rightarrow> nat \<Rightarrow> (nat \<times> nat \<times> nat) ires" where
  "lookup_record f i =
     bind_o (rd f (16 + i * 16) 16) (\<lambda>b.
     bind_o (read_u64 b 0) (\<lambda>hash. bind_o (read_u32 b 8) (\<lambda>verify. bind_o (read_u32 b 12) (\<lambda>doc.
     Ok (hash, verify, doc)))))"

definition read_records :: "range_read \<Rightarrow> nat \<Rightarrow> nat \<Rightarrow> bytes ires" where
  "read_records f start stop =
     bind_o (sub_p stop start) (\<lambda>n. rd f (16 + start * 16) (n * 16))"

text \<open>The interpolated probe, in \<open>u128\<close> arithmetic, clamped into the window.\<close>

definition lookup_probe :: "nat \<Rightarrow> nat \<Rightarrow> nat \<Rightarrow> nat \<Rightarrow> nat \<Rightarrow> nat ires" where
  "lookup_probe target lo hi lo_val hi_val =
     (if hi_val > lo_val then
        bind_o (sub_p target lo_val) (\<lambda>d.
        bind_o (mul_p U128 d (hi - lo - 1)) (\<lambda>p.
        bind_o (add_p U128 lo (p div (hi_val - lo_val))) (\<lambda>est.
        Ok (min (hi - 1) (max lo est)))))
      else Ok (lo + (hi - lo) div 2))"

lemma lookup_probe_range:
  "lookup_probe target lo hi lo_val hi_val = Ok mid \<Longrightarrow> lo < hi \<Longrightarrow> lo \<le> mid \<and> mid < hi"
proof -
  assume probe: "lookup_probe target lo hi lo_val hi_val = Ok mid" and lt: "lo < hi"
  then consider est where "mid = min (hi - 1) (max lo est)" | "mid = lo + (hi - lo) div 2"
    unfolding lookup_probe_def by (auto simp only: outcome_simps outcome.inject split: if_splits)
  then show ?thesis using lt by cases auto
qed

function lookup_narrow :: "range_read \<Rightarrow> nat \<Rightarrow> nat \<Rightarrow> nat \<Rightarrow> nat \<Rightarrow> nat \<Rightarrow> (nat \<times> nat) ires" where
  "lookup_narrow f hash lo hi lo_val hi_val =
     (if hi < lo then Panic
      else if hi - lo > lookup_block_records then
        bind_o (lookup_probe hash lo hi lo_val hi_val) (\<lambda>mid.
        bind_o (lookup_record f mid) (\<lambda>r.
          if fst r < hash then lookup_narrow f hash (mid + 1) hi (fst r + 1) hi_val
          else lookup_narrow f hash lo mid lo_val (fst r)))
      else Ok (lo, hi))"
  by pat_completeness auto
termination
  by (relation "measure (\<lambda>(f, hash, lo, hi, lo_val, hi_val). hi - lo)")
    (auto dest!: lookup_probe_range)

declare lookup_narrow.simps [simp del]

text \<open>The in-memory tail: skip smaller hashes, then collect the run of equal ones.\<close>

function lookup_skip :: "bytes \<Rightarrow> nat \<Rightarrow> nat \<Rightarrow> nat \<Rightarrow> nat \<Rightarrow> nat ires" where
  "lookup_skip block hash lo stop i =
     (if i < stop then
        bind_o (sub_p i lo) (\<lambda>k. bind_o (read_u64 block (k * 16)) (\<lambda>h.
        if h < hash then lookup_skip block hash lo stop (i + 1) else Ok i))
      else Ok i)"
  by pat_completeness auto
termination
  by (relation "measure (\<lambda>(block, hash, lo, stop, i). stop - i)") auto

declare lookup_skip.simps [simp del]

definition lookup_next ::
  "range_read \<Rightarrow> nat \<Rightarrow> bytes \<Rightarrow> nat \<Rightarrow> nat \<Rightarrow> nat \<Rightarrow> (nat \<times> nat \<times> nat) option ires" where
  "lookup_next f cnt block lo stop i =
     (if i < stop then
        bind_o (sub_p i lo) (\<lambda>k. let base = k * 16 in
        bind_o (read_u64 block base) (\<lambda>h. bind_o (read_u32 block (base + 8)) (\<lambda>v.
        bind_o (read_u32 block (base + 12)) (\<lambda>d. Ok (Some (h, v, d))))))
      else if i < cnt then map_ok Some (lookup_record f i)
      else Ok None)"

lemma lookup_next_less: "lookup_next f cnt block lo stop i = Ok (Some r) \<Longrightarrow> i < max stop cnt"
  by (auto simp: lookup_next_def split: if_splits)

function lookup_collect ::
  "range_read \<Rightarrow> nat \<Rightarrow> bytes \<Rightarrow> nat \<Rightarrow> nat \<Rightarrow> nat \<Rightarrow> nat \<Rightarrow> nat \<Rightarrow> nat list \<Rightarrow> nat list ires" where
  "lookup_collect f cnt block lo stop hash verify i out =
     bind_o (lookup_next f cnt block lo stop i) (\<lambda>nxt.
       case nxt of
         None \<Rightarrow> Ok out
       | Some r \<Rightarrow>
           if fst r \<noteq> hash then Ok out
           else bind_o (add_p U32 i 1) (\<lambda>i'.
             lookup_collect f cnt block lo stop hash verify i'
               (if fst (snd r) = verify then out @ [snd (snd r)] else out)))"
  by pat_completeness auto
termination
  by (relation "measure (\<lambda>(f, cnt, block, lo, stop, hash, verify, i, out). max stop cnt - i)")
    (auto dest!: lookup_next_less)

declare lookup_collect.simps [simp del]

definition lookup_docs :: "range_read \<Rightarrow> nat \<Rightarrow> bytes \<Rightarrow> nat list ires" where
  "lookup_docs f cnt identifier =
     (let n = normalize_id identifier in
      if n = [] \<or> cnt = 0 then Ok []
      else let hash = id_hash n; verify = id_verify n in
        bind_o (lookup_narrow f hash 0 cnt 0 U64) (\<lambda>(lo, hi).
        if lo \<ge> cnt then Ok []
        else let stop = min (sat_add U32 lo lookup_block_records) cnt in
          bind_o (read_records f lo stop) (\<lambda>block.
          bind_o (lookup_skip block hash lo stop lo) (\<lambda>i.
          lookup_collect f cnt block lo stop hash verify i []))))"

section \<open>The writer\<close>

definition lookup_recs :: "(bytes \<times> nat) list \<Rightarrow> (nat \<times> nat \<times> nat) list" where
  "lookup_recs entries =
     sort_key (\<lambda>(h, v, d). (h, d))
       (concat (map (\<lambda>(idn, doc). let n = normalize_id idn in
          if n = [] then [] else [(id_hash n, id_verify n, doc)]) entries))"

definition encode_rec :: "nat \<times> nat \<times> nat \<Rightarrow> bytes" where
  "encode_rec = (\<lambda>(h, v, d). to_le 8 h @ to_le 4 v @ to_le 4 d)"

definition write_lookup_streaming :: "(bytes \<times> nat) list \<Rightarrow> bytes" where
  "write_lookup_streaming entries =
     (let recs = lookup_recs entries in
      lookup_magic @ to_le 2 1 @ to_le 2 0 @ to_le 4 (length recs) @ to_le 4 0
      @ concat (map encode_rec recs))"

definition write_lookup :: "(bytes \<times> nat) list \<Rightarrow> bytes" where
  "write_lookup entries = write_lookup_streaming entries"

section \<open>No table makes the reader panic\<close>

lemma lookup_probe_Ok:
  assumes "lo < hi" "hi < U32" "lo_val \<le> hash" "hash < U64"
  obtains mid where "lookup_probe hash lo hi lo_val hi_val = Ok mid" "lo \<le> mid" "mid < hi"
proof -
  have "(hash - lo_val) * (hi - lo - 1) \<le> U64 * U32"
    using assms by (intro mult_mono) auto
  then have small: "(hash - lo_val) * (hi - lo - 1) < 2 ^ 97" by simp
  moreover have "lo + (hash - lo_val) * (hi - lo - 1) div n \<le> U32 + 2 ^ 97" for n
    using small assms(1,2) div_le_dividend [of "(hash - lo_val) * (hi - lo - 1)" n] by linarith
  then have "lo + (hash - lo_val) * (hi - lo - 1) div n < U128" for n
    by (rule le_less_trans) simp
  ultimately have "lookup_probe hash lo hi lo_val hi_val
      = Ok (if hi_val > lo_val then min (hi - 1) (max lo (lo + (hash - lo_val) * (hi - lo - 1) div (hi_val - lo_val)))
            else lo + (hi - lo) div 2)"
    using assms by (simp add: lookup_probe_def sub_p_def mul_p_def add_p_def)
  then show ?thesis using that lookup_probe_range assms(1) by blast
qed

lemma lookup_skip_safe:
  assumes "length block = (stop - lo) * 16" "lo \<le> i" "i \<le> stop"
  shows "\<exists>j. lookup_skip block hash lo stop i = Ok j \<and> i \<le> j \<and> j \<le> stop
    \<and> (\<forall>k. i \<le> k \<and> k < j \<longrightarrow> u64_at block ((k - lo) * 16) < hash)
    \<and> (j < stop \<longrightarrow> hash \<le> u64_at block ((j - lo) * 16))"
  using assms(2,3)
proof (induction "stop - i" arbitrary: i rule: less_induct)
  case less
  show ?case
  proof (cases "i < stop")
    case False
    then have "lookup_skip block hash lo stop i = Ok i" by (simp add: lookup_skip.simps [of block hash lo stop i])
    then show ?thesis using False less.prems by auto
  next
    case True
    have "(i - lo) * 16 + 16 \<le> (stop - lo) * 16" using True less.prems(1) by simp
    then have rd: "(i - lo) * 16 + 8 \<le> length block"
      using assms(1) by simp
    show ?thesis
    proof (cases "u64_at block ((i - lo) * 16) < hash")
      case lt: True
      then have eq: "lookup_skip block hash lo stop i = lookup_skip block hash lo stop (i + 1)"
        using True less.prems(1) rd by (simp add: lookup_skip.simps [of block hash lo stop i])
      have d: "stop - (i + 1) < stop - i" "lo \<le> i + 1" "i + 1 \<le> stop" using True less.prems by auto
      obtain j where "lookup_skip block hash lo stop (i + 1) = Ok j" "i + 1 \<le> j" "j \<le> stop"
        "\<forall>k. i + 1 \<le> k \<and> k < j \<longrightarrow> u64_at block ((k - lo) * 16) < hash"
        "j < stop \<longrightarrow> hash \<le> u64_at block ((j - lo) * 16)"
        using less.hyps [OF d] by blast
      moreover from this lt have "\<forall>k. i \<le> k \<and> k < j \<longrightarrow> u64_at block ((k - lo) * 16) < hash"
        by (metis Suc_eq_plus1 le_neq_implies_less less_eq_Suc_le)
      ultimately show ?thesis using eq by auto
    next
      case False
      then have "lookup_skip block hash lo stop i = Ok i"
        using True less.prems(1) rd by (simp add: lookup_skip.simps [of block hash lo stop i])
      then show ?thesis using False True by auto
    qed
  qed
qed

context range_fetch
begin

lemma lookup_open_no_panic: "lookup_open fetch \<noteq> Panic"
  using fetch_no_panic by (auto simp: lookup_open_def lookup_from_boot_def outcome_simps)

lemma lookup_record_no_panic: "lookup_record fetch i \<noteq> Panic"
proof
  assume "lookup_record fetch i = Panic"
  then obtain b where "rd fetch (16 + i * 16) 16 = Ok b" "length b < 16"
    using fetch_no_panic by (auto simp: lookup_record_def outcome_simps)
  then show False using rd_exact by fastforce
qed

lemma lookup_record_bound: "lookup_record fetch i = Ok r \<Longrightarrow> fst r < U64"
  by (auto simp: lookup_record_def outcome_simps)

lemma lookup_narrow_safe:
  assumes "lo \<le> hi" "hi < U32" "lo_val \<le> hash" "hash < U64"
  shows "lookup_narrow fetch hash lo hi lo_val hi_val \<noteq> Panic
    \<and> (\<forall>l h. lookup_narrow fetch hash lo hi lo_val hi_val = Ok (l, h) \<longrightarrow>
         lo \<le> l \<and> l \<le> h \<and> h \<le> hi \<and> h \<le> l + lookup_block_records)"
  using assms
proof (induction "hi - lo" arbitrary: lo hi lo_val hi_val rule: less_induct)
  case less
  show ?case
  proof (cases "hi - lo > lookup_block_records")
    case False
    then show ?thesis using less.prems(1) by (simp add: lookup_narrow.simps [of fetch hash lo hi])
  next
    case True
    then have "lo < hi" by simp
    then obtain mid where mid: "lookup_probe hash lo hi lo_val hi_val = Ok mid" "lo \<le> mid" "mid < hi"
      using less.prems(2-4) by (rule lookup_probe_Ok)
    show ?thesis
    proof (cases "lookup_record fetch mid")
      case Panic
      then show ?thesis using lookup_record_no_panic by simp
    next
      case (Err e)
      then show ?thesis using True less.prems(1) mid(1) by (simp add: lookup_narrow.simps [of fetch hash lo hi])
    next
      case (Ok r)
      have unfold: "lookup_narrow fetch hash lo hi lo_val hi_val =
          (if fst r < hash then lookup_narrow fetch hash (mid + 1) hi (fst r + 1) hi_val
           else lookup_narrow fetch hash lo mid lo_val (fst r))"
        using True less.prems(1) mid(1) Ok by (simp add: lookup_narrow.simps [of fetch hash lo hi])
      show ?thesis
      proof (cases "fst r < hash")
        case True
        have "hi - (mid + 1) < hi - lo" "mid + 1 \<le> hi" using mid by auto
        from less.hyps [OF this less.prems(2) _ less.prems(4), of "fst r + 1" hi_val] show ?thesis
          unfolding unfold using True mid(2) by auto
      next
        case False
        have "mid - lo < hi - lo" "mid < U32" using mid less.prems(2) by auto
        from less.hyps [OF this(1) mid(2) this(2) less.prems(3,4), of "fst r"] show ?thesis
          unfolding unfold using False mid(3) by auto
      qed
    qed
  qed
qed

lemma lookup_next_no_panic:
  assumes "length block = (stop - lo) * 16" "lo \<le> i"
  shows "lookup_next fetch cnt block lo stop i \<noteq> Panic"
proof (cases "i < stop")
  case True
  then have "(i - lo) * 16 + 16 \<le> (stop - lo) * 16" using assms(2) by simp
  then show ?thesis using assms True by (simp add: lookup_next_def Let_def outcome_simps)
next
  case False
  then show ?thesis using lookup_record_no_panic by (simp add: lookup_next_def)
qed

lemma lookup_collect_no_panic:
  assumes "length block = (stop - lo) * 16" "lo \<le> i" "stop \<le> cnt" "cnt < U32"
  shows "lookup_collect fetch cnt block lo stop hash verify i out \<noteq> Panic"
  using assms(2)
proof (induction "cnt - i" arbitrary: i out rule: less_induct)
  case less
  consider (err) e where "lookup_next fetch cnt block lo stop i = Err e"
    | (none) "lookup_next fetch cnt block lo stop i = Ok None"
    | (some) r where "lookup_next fetch cnt block lo stop i = Ok (Some r)"
    using lookup_next_no_panic [OF assms(1) less.prems, of cnt]
    by (cases "lookup_next fetch cnt block lo stop i") (metis not_Some_eq)+
  then show ?case
  proof cases
    case some
    then have i: "i < cnt" using lookup_next_less assms(3) by fastforce
    then show ?thesis
      using some assms(4) less.hyps [of "i + 1"] less.prems
      by (simp add: lookup_collect.simps [of fetch cnt block lo stop hash verify i])
  qed (simp_all add: lookup_collect.simps [of fetch cnt block lo stop hash verify i])
qed

lemma lookup_docs_no_panic:
  assumes "cnt < U32"
  shows "lookup_docs fetch cnt identifier \<noteq> Panic"
proof -
  let ?n = "normalize_id identifier"
  show ?thesis
  proof (cases "?n = [] \<or> cnt = 0")
    case True
    then show ?thesis by (simp add: lookup_docs_def)
  next
    case False
    have narrow: "lookup_narrow fetch (id_hash ?n) 0 cnt 0 U64 \<noteq> Panic"
      using lookup_narrow_safe [of 0 cnt 0 "id_hash ?n" U64] assms id_hash_less by simp
    have tail: "bind_o (read_records fetch lo stop) (\<lambda>block.
          bind_o (lookup_skip block hash lo stop lo) (\<lambda>i.
          lookup_collect fetch cnt block lo stop hash verify i [])) \<noteq> Panic"
      if "lo < stop" "stop \<le> cnt" for lo stop hash verify
    proof -
      have len: "length b = (stop - lo) * 16" if "read_records fetch lo stop = Ok b" for b
        using that rd_exact by (auto simp: read_records_def outcome_simps)
      have np: "read_records fetch lo stop \<noteq> Panic"
        using that fetch_no_panic by (simp add: read_records_def outcome_simps)
      show ?thesis
      proof (cases "read_records fetch lo stop")
        case (Ok b)
        have "lo \<le> stop" using \<open>lo < stop\<close> by simp
        then obtain j where "lookup_skip b hash lo stop lo = Ok j" "lo \<le> j"
          using lookup_skip_safe [OF len [OF Ok] order_refl, of hash] by blast
        then show ?thesis
          using Ok lookup_collect_no_panic [OF len [OF Ok], of j cnt] that assms by simp
      qed (use np in simp_all)
    qed
    have "lo < min (sat_add U32 lo lookup_block_records) cnt" if "lo < cnt" for lo
      using that assms by (auto simp: sat_add_def lookup_block_records_def)
    then show ?thesis
      using narrow False tail
      by (auto simp: lookup_docs_def Let_def bind_o_Panic_iff [of "lookup_narrow _ _ _ _ _ _"] not_le)
  qed
qed

end

section \<open>The written table\<close>

lemma encode_rec_length [simp]: "length (encode_rec r) = 16"
  by (cases r) (simp add: encode_rec_def)

lemma encode_rec_fields:
  assumes "h < U64" "v < U32" "d < U32"
  shows "u64_at (encode_rec (h, v, d) @ c) 0 = h" "u32_at (encode_rec (h, v, d) @ c) 8 = v"
    "u32_at (encode_rec (h, v, d) @ c) 12 = d"
  using assms u32_at_mid [of "to_le 8 h" 8 v "to_le 4 d @ c"]
    u32_at_mid [of "to_le 8 h @ to_le 4 v" 12 d c]
  by (simp_all add: encode_rec_def le_simps)

definition rec_ok :: "nat \<times> nat \<times> nat \<Rightarrow> bool" where
  "rec_ok = (\<lambda>(h, v, d). h < U64 \<and> v < U32 \<and> d < U32)"

lemma table_fields:
  assumes "\<forall>r \<in> set recs. rec_ok r" "i < length recs"
  shows "u64_at (concat (map encode_rec recs)) (i * 16) = fst (recs ! i)"
    and "u32_at (concat (map encode_rec recs)) (i * 16 + 8) = fst (snd (recs ! i))"
    and "u32_at (concat (map encode_rec recs)) (i * 16 + 12) = snd (snd (recs ! i))"
proof -
  let ?t = "concat (map encode_rec recs)"
  have len: "length ?t = length recs * 16" by (rule concat_rows_length) simp
  have cut: "cut ?t (i * 16) (i * 16 + 16) = encode_rec (recs ! i)"
    by (rule cut_concat_row) (use assms in simp_all)
  obtain h v d where r: "recs ! i = (h, v, d)" by (metis prod_cases3)
  have ok: "h < U64" "v < U32" "d < U32"
    using assms nth_mem [OF assms(2)] by (auto simp: rec_ok_def r)
  have e: "i * 16 + 16 \<le> length ?t" using len assms(2) by simp
  show "u64_at ?t (i * 16) = fst (recs ! i)" "u32_at ?t (i * 16 + 8) = fst (snd (recs ! i))"
    "u32_at ?t (i * 16 + 12) = snd (snd (recs ! i))"
    using u64_at_cut [of 0 "i * 16 + 16" "i * 16" ?t] u32_at_cut [of 8 "i * 16 + 16" "i * 16" ?t]
      u32_at_cut [of 12 "i * 16 + 16" "i * 16" ?t] encode_rec_fields [OF ok, of "[]"] e
    by (simp_all add: cut r)
qed

lemma lookup_recs_ok:
  assumes "\<forall>(idn, d) \<in> set entries. d < U32"
  shows "\<forall>r \<in> set (lookup_recs entries). rec_ok r"
proof -
  have "id_hash n < 2 ^ 64" "id_verify n < 2 ^ 32" for n by (rule id_hash_less, rule id_verify_less)
  then show ?thesis using assms by (auto simp: lookup_recs_def Let_def rec_ok_def split: if_splits)
qed

lemma lookup_recs_sorted: "sorted (map fst (lookup_recs entries))"
proof -
  have "sorted (map (\<lambda>(h, v, d). (h, d)) (lookup_recs entries))"
    unfolding lookup_recs_def by (rule sorted_sort_key)
  then have "sorted_wrt (\<lambda>a b. (fst a, snd (snd a)) \<le> (fst b, snd (snd b))) (lookup_recs entries)"
    by (simp add: sorted_map case_prod_beta)
  then have "sorted_wrt (\<lambda>a b. fst a \<le> fst b) (lookup_recs entries)"
    by (rule sorted_wrt_mono_rel [rotated]) (auto simp: less_eq_prod_def)
  then show ?thesis by (simp add: sorted_map)
qed

definition same_id :: "bytes \<Rightarrow> bytes \<Rightarrow> bool" where
  "same_id q idn \<longleftrightarrow> normalize_id idn \<noteq> [] \<and> id_hash (normalize_id idn) = id_hash (normalize_id q)
     \<and> id_verify (normalize_id idn) = id_verify (normalize_id q)"

definition run_docs :: "nat \<Rightarrow> (nat \<times> nat \<times> nat) list \<Rightarrow> nat list" where
  "run_docs verify rs = map (\<lambda>r. snd (snd r)) (filter (\<lambda>r. fst (snd r) = verify) rs)"

lemma run_docs_recs:
  "run_docs (id_verify (normalize_id q)) (filter (\<lambda>r. fst r = id_hash (normalize_id q)) (lookup_recs entries))
     = sort (map snd (filter (\<lambda>(idn, _). same_id q idn) entries))"
proof -
  let ?h = "id_hash (normalize_id q)" and ?v = "id_verify (normalize_id q)"
  let ?raw = "concat (map (\<lambda>(idn, doc). let n = normalize_id idn in
          if n = [] then [] else [(id_hash n, id_verify n, doc)]) entries)"
  let ?sel = "filter (\<lambda>r. fst r = ?h \<and> fst (snd r) = ?v) (lookup_recs entries)"
  have eq: "run_docs ?v (filter (\<lambda>r. fst r = ?h) (lookup_recs entries)) = map (\<lambda>r. snd (snd r)) ?sel"
    by (simp add: run_docs_def conj_commute)
  have "map (\<lambda>r. snd (snd r)) (filter (\<lambda>r. fst r = ?h \<and> fst (snd r) = ?v) ?raw)
      = map snd (filter (\<lambda>(idn, _). same_id q idn) entries)"
  proof (induction entries)
    case Nil
    then show ?case by simp
  next
    case (Cons e entries)
    then show ?case by (cases e) (simp add: Let_def same_id_def)
  qed
  moreover have "mset (filter (\<lambda>r. fst r = ?h \<and> fst (snd r) = ?v) (lookup_recs entries))
      = mset (filter (\<lambda>r. fst r = ?h \<and> fst (snd r) = ?v) ?raw)"
    by (simp only: mset_filter lookup_recs_def mset_sort)
  then have "mset (map (\<lambda>r. snd (snd r)) ?sel) = mset (map (\<lambda>r. snd (snd r)) (filter (\<lambda>r. fst r = ?h \<and> fst (snd r) = ?v) ?raw))"
    by (simp only: mset_map)
  ultimately have "mset (map (\<lambda>r. snd (snd r)) ?sel) = mset (map snd (filter (\<lambda>(idn, _). same_id q idn) entries))"
    by simp
  moreover have "sorted (map (\<lambda>r. snd (snd r)) ?sel)"
  proof -
    have "sorted_wrt (\<lambda>a b. (fst a, snd (snd a)) \<le> (fst b, snd (snd b))) (lookup_recs entries)"
      using sorted_sort_key [of "\<lambda>(h, v, d). (h, d)"] unfolding lookup_recs_def
      by (simp add: sorted_map case_prod_beta)
    then have "sorted_wrt (\<lambda>a b. (fst a, snd (snd a)) \<le> (fst b, snd (snd b))) ?sel"
      by (rule sorted_wrt_filter)
    then have "sorted_wrt (\<lambda>a b. snd (snd a) \<le> snd (snd b)) ?sel"
      by (rule sorted_wrt_mono_rel [rotated]) (auto simp: less_eq_prod_def)
    then show ?thesis by (simp add: sorted_map)
  qed
  ultimately show ?thesis unfolding eq by (rule properties_for_sort [symmetric])
qed

text \<open>The run of equal hashes of a sorted table.\<close>

lemma sorted_run:
  fixes recs :: "(nat \<times> nat \<times> nat) list"
  assumes "sorted (map fst recs)" "lb \<le> length recs"
    and "\<forall>k < lb. fst (recs ! k) < h" "\<forall>k. lb \<le> k \<and> k < length recs \<longrightarrow> h \<le> fst (recs ! k)"
  shows "takeWhile (\<lambda>r. fst r = h) (drop lb recs) = filter (\<lambda>r. fst r = h) recs"
proof -
  have run: "takeWhile (\<lambda>r. fst r = h) xs = filter (\<lambda>r. fst r = h) xs"
    if "sorted (map fst xs)" "\<forall>x \<in> set xs. h \<le> fst x" for xs :: "(nat \<times> nat \<times> nat) list"
    using that
  proof (induction xs)
    case Nil
    then show ?case by simp
  next
    case (Cons x xs)
    then have "\<forall>y \<in> set xs. fst y \<noteq> h" if "fst x \<noteq> h" using that by fastforce
    then show ?case using Cons by (auto simp: filter_False)
  qed
  have below: "filter (\<lambda>r. fst r = h) (take lb recs) = []"
  proof -
    have "fst (recs ! k) \<noteq> h" if "k < lb" for k using assms(3) that by auto
    then show ?thesis using assms(2) by (auto simp: filter_empty_conv in_set_conv_nth) (metis fst_conv)
  qed
  have above: "\<forall>x \<in> set (drop lb recs). h \<le> fst x"
  proof
    fix x assume "x \<in> set (drop lb recs)"
    then obtain k where "k < length recs - lb" "x = recs ! (lb + k)" by (auto simp: in_set_conv_nth)
    then show "h \<le> fst x" using assms(4) by simp
  qed
  have "sorted (map fst (drop lb recs))" using assms(1) by (simp add: sorted_wrt_drop flip: drop_map)
  then have "takeWhile (\<lambda>r. fst r = h) (drop lb recs) = filter (\<lambda>r. fst r = h) (drop lb recs)"
    using above by (rule run)
  also have "\<dots> = filter (\<lambda>r. fst r = h) (take lb recs @ drop lb recs)"
    by (simp only: filter_append below append_Nil)
  finally show ?thesis by simp
qed

text \<open>
  What the reader needs from the fetcher: every record of the table, one by one and in blocks.
\<close>

definition serves_table :: "range_read \<Rightarrow> (nat \<times> nat \<times> nat) list \<Rightarrow> bool" where
  "serves_table f recs \<longleftrightarrow> (\<forall>r \<in> set recs. rec_ok r) \<and> sorted (map fst recs) \<and> length recs < U32
     \<and> (\<forall>i < length recs. lookup_record f i = Ok (recs ! i))
     \<and> (\<forall>s e. s < e \<and> e \<le> length recs \<longrightarrow> read_records f s e = Ok (concat (map encode_rec (cut recs s e))))"

lemma narrow_finds:
  assumes t: "serves_table f recs" and "lo \<le> hi" "hi \<le> length recs" "lo_val \<le> hash" "hash < U64"
    and "\<forall>k < lo. fst (recs ! k) < hash" "\<forall>k. hi \<le> k \<and> k < length recs \<longrightarrow> hash \<le> fst (recs ! k)"
  shows "\<exists>l h. lookup_narrow f hash lo hi lo_val hi_val = Ok (l, h) \<and> l \<le> h \<and> h \<le> length recs
    \<and> h \<le> l + lookup_block_records
    \<and> (\<forall>k < l. fst (recs ! k) < hash) \<and> (\<forall>k. h \<le> k \<and> k < length recs \<longrightarrow> hash \<le> fst (recs ! k))"
  using assms(2-)
proof (induction "hi - lo" arbitrary: lo hi lo_val hi_val rule: less_induct)
  case less
  have sorted: "fst (recs ! a) \<le> fst (recs ! b)" if "a \<le> b" "b < length recs" for a b
    using t that sorted_nth_mono [of "map fst recs" a b] by (simp add: serves_table_def)
  have U: "hi < U32" using t less.prems(2) unfolding serves_table_def by (blast intro: le_less_trans)
  show ?case
  proof (cases "hi - lo > lookup_block_records")
    case False
    then have "lookup_narrow f hash lo hi lo_val hi_val = Ok (lo, hi)"
      using less.prems(1) by (simp add: lookup_narrow.simps [of f hash lo hi])
    moreover have "hi \<le> lo + lookup_block_records" using False by simp
    ultimately show ?thesis using less.prems by blast
  next
    case True
    then have "lo < hi" by simp
    then obtain mid where mid: "lookup_probe hash lo hi lo_val hi_val = Ok mid" "lo \<le> mid" "mid < hi"
      using U less.prems(3,4) by (rule lookup_probe_Ok)
    have r: "lookup_record f mid = Ok (recs ! mid)" using t mid less.prems(2) by (simp add: serves_table_def)
    have unfold: "lookup_narrow f hash lo hi lo_val hi_val =
        (if fst (recs ! mid) < hash then lookup_narrow f hash (mid + 1) hi (fst (recs ! mid) + 1) hi_val
         else lookup_narrow f hash lo mid lo_val (fst (recs ! mid)))"
      using True less.prems(1) mid(1) r by (simp add: lookup_narrow.simps [of f hash lo hi])
    show ?thesis
    proof (cases "fst (recs ! mid) < hash")
      case lt: True
      have "\<forall>k < mid + 1. fst (recs ! k) < hash"
      proof (intro allI impI)
        fix k assume "k < mid + 1"
        then have "fst (recs ! k) \<le> fst (recs ! mid)" using mid(3) less.prems(2) by (intro sorted) auto
        then show "fst (recs ! k) < hash" using lt by simp
      qed
      moreover have "hi - (mid + 1) < hi - lo" "mid + 1 \<le> hi" "fst (recs ! mid) + 1 \<le> hash" using mid lt by auto
      ultimately show ?thesis
        unfolding unfold using lt less.hyps [of hi "mid + 1" "fst (recs ! mid) + 1" hi_val] less.prems(2,4,6) by (simp add: Suc_le_eq)
    next
      case ge: False
      have "\<forall>k. mid \<le> k \<and> k < length recs \<longrightarrow> hash \<le> fst (recs ! k)"
        using sorted ge by (meson leI order_trans)
      moreover have "mid - lo < hi - lo" "mid \<le> length recs" using mid less.prems(2) by auto
      ultimately show ?thesis
        unfolding unfold using ge less.hyps [of mid lo lo_val "fst (recs ! mid)"] mid(2) less.prems(3,4,5) by simp
    qed
  qed
qed

lemma collect_run:
  assumes t: "serves_table f recs" and "lo < stop" "stop \<le> length recs" "lo \<le> i"
  shows "lookup_collect f (length recs) (concat (map encode_rec (cut recs lo stop))) lo stop hash verify i out
    = Ok (out @ run_docs verify (takeWhile (\<lambda>r. fst r = hash) (drop i recs)))"
  using assms(4)
proof (induction "length recs - i" arbitrary: i out rule: less_induct)
  case less
  let ?block = "concat (map encode_rec (cut recs lo stop))"
  have rows: "\<forall>r \<in> set (cut recs lo stop). rec_ok r"
    using t by (auto simp: serves_table_def cut_def dest: in_set_takeD in_set_dropD)
  have blen: "length ?block = (stop - lo) * 16"
    using concat_rows_length [of "cut recs lo stop" encode_rec 16] assms(3) by simp
  have nxt: "lookup_next f (length recs) ?block lo stop i
      = Ok (if i < length recs then Some (recs ! i) else None)"
  proof (cases "i < stop")
    case True
    then have k: "i - lo < length (cut recs lo stop)" "cut recs lo stop ! (i - lo) = recs ! i"
      using assms(3) less.prems by (simp_all add: nth_cut)
    have "(i - lo) * 16 + 16 \<le> length ?block" using k(1) blen assms(3) by simp
    then show ?thesis
      using table_fields [OF rows k(1)] k(2) True assms(3) less.prems
      by (simp add: lookup_next_def Let_def)
  next
    case False
    then show ?thesis using t by (simp add: lookup_next_def serves_table_def)
  qed
  show ?case
  proof (cases "i < length recs")
    case False
    then show ?thesis using nxt
      by (simp add: lookup_collect.simps [of f "length recs"] run_docs_def)
  next
    case True
    then have dr: "drop i recs = recs ! i # drop (i + 1) recs" by (simp add: Cons_nth_drop_Suc)
    show ?thesis
    proof (cases "fst (recs ! i) = hash")
      case False
      then show ?thesis using nxt True dr
        by (simp add: lookup_collect.simps [of f "length recs"] run_docs_def)
    next
      case eq: True
      have "i + 1 < U32" using t True by (simp add: serves_table_def)
      then have "lookup_collect f (length recs) ?block lo stop hash verify i out
          = lookup_collect f (length recs) ?block lo stop hash verify (i + 1)
              (if fst (snd (recs ! i)) = verify then out @ [snd (snd (recs ! i))] else out)"
        using nxt True eq by (simp add: lookup_collect.simps [of f "length recs" ?block lo stop hash verify i])
      also have "\<dots> = Ok ((if fst (snd (recs ! i)) = verify then out @ [snd (snd (recs ! i))] else out)
          @ run_docs verify (takeWhile (\<lambda>r. fst r = hash) (drop (i + 1) recs)))"
        by (rule less.hyps) (use True less.prems in auto)
      finally show ?thesis using dr eq by (simp add: run_docs_def)
    qed
  qed
qed

lemma lookup_docs_finds:
  assumes t: "serves_table f recs"
  shows "lookup_docs f (length recs) q = Ok (if normalize_id q = [] then []
     else run_docs (id_verify (normalize_id q)) (filter (\<lambda>r. fst r = id_hash (normalize_id q)) recs))"
proof (cases "normalize_id q = [] \<or> recs = []")
  case True
  then show ?thesis by (auto simp: lookup_docs_def run_docs_def)
next
  case False
  let ?h = "id_hash (normalize_id q)" and ?v = "id_verify (normalize_id q)"
  obtain lo hi where n: "lookup_narrow f ?h 0 (length recs) 0 U64 = Ok (lo, hi)" "lo \<le> hi" "hi \<le> length recs"
    "hi \<le> lo + lookup_block_records"
    and below: "\<forall>k < lo. fst (recs ! k) < ?h"
    and above: "\<forall>k. hi \<le> k \<and> k < length recs \<longrightarrow> ?h \<le> fst (recs ! k)"
    using narrow_finds [OF t, of 0 "length recs" 0 ?h U64] id_hash_less by auto
  have sorted: "sorted (map fst recs)" and U: "length recs < U32" using t by (simp_all add: serves_table_def)
  show ?thesis
  proof (cases "lo \<ge> length recs")
    case True
    have "fst r \<noteq> ?h" if "r \<in> set recs" for r
    proof -
      obtain k where "k < length recs" "r = recs ! k" using \<open>r \<in> set recs\<close> by (auto simp: in_set_conv_nth)
      then have "k < lo" using True by simp
      then show ?thesis using below \<open>r = recs ! k\<close> by auto
    qed
    note none = this
    from none have "filter (\<lambda>r. fst r = ?h) recs = []" by (simp add: filter_empty_conv)
    then show ?thesis using n False True by (simp add: lookup_docs_def Let_def run_docs_def)
  next
    case lt: False
    let ?stop = "min (sat_add U32 lo lookup_block_records) (length recs)"
    let ?block = "concat (map encode_rec (cut recs lo ?stop))"
    have stop: "lo < ?stop" "?stop \<le> length recs" "hi \<le> ?stop"
      using lt n(3,4) U by (auto simp: sat_add_def lookup_block_records_def)
    have block: "read_records f lo ?stop = Ok ?block" using t stop by (simp add: serves_table_def)
    have blen: "length ?block = (?stop - lo) * 16"
      using concat_rows_length [of "cut recs lo ?stop" encode_rec 16] by simp
    have rows: "\<forall>r \<in> set (cut recs lo ?stop). rec_ok r"
      using t by (auto simp: serves_table_def cut_def dest: in_set_takeD in_set_dropD)
    have field: "u64_at ?block ((k - lo) * 16) = fst (recs ! k)" if "lo \<le> k" "k < ?stop" for k
    proof -
      have "k - lo < ?stop - lo" by (rule diff_less_mono [OF that(2,1)])
      then show ?thesis using table_fields(1) [OF rows, of "k - lo"] that(1) stop(2) by (simp add: nth_cut)
    qed
    obtain j where j: "lookup_skip ?block ?h lo ?stop lo = Ok j" "lo \<le> j" "j \<le> ?stop"
      and jb: "\<forall>k. lo \<le> k \<and> k < j \<longrightarrow> u64_at ?block ((k - lo) * 16) < ?h"
      and ja: "j < ?stop \<longrightarrow> ?h \<le> u64_at ?block ((j - lo) * 16)"
      using lookup_skip_safe [OF blen order_refl less_imp_le [OF stop(1)], of ?h] by blast
    have low: "\<forall>k < j. fst (recs ! k) < ?h"
    proof (intro allI impI)
      fix k assume k: "k < j"
      show "fst (recs ! k) < ?h"
      proof (cases "k < lo")
        case False
        then have lo: "lo \<le> k" "k < ?stop" using k j(3) by (auto intro: less_le_trans)
        then show ?thesis using jb k field [OF lo] by metis
      qed (use below in blast)
    qed
    have high: "\<forall>k. j \<le> k \<and> k < length recs \<longrightarrow> ?h \<le> fst (recs ! k)"
    proof (intro allI impI)
      fix k assume k: "j \<le> k \<and> k < length recs"
      show "?h \<le> fst (recs ! k)"
      proof (cases "j < ?stop")
        case True
        then have "?h \<le> fst (recs ! j)" using ja field [of j] j(2) by simp
        also have "\<dots> \<le> fst (recs ! k)" using sorted_nth_mono [OF sorted, of j k] k by simp
        finally show ?thesis .
      next
        case False
        then show ?thesis using above k stop(3) by auto
      qed
    qed
    have "lookup_collect f (length recs) ?block lo ?stop ?h ?v j []
        = Ok ([] @ run_docs ?v (takeWhile (\<lambda>r. fst r = ?h) (drop j recs)))"
      by (rule collect_run [OF t stop(1,2) j(2)])
    moreover have "takeWhile (\<lambda>r. fst r = ?h) (drop j recs) = filter (\<lambda>r. fst r = ?h) recs"
      by (rule sorted_run [OF sorted _ low high]) (use j(3) stop(2) in simp)
    ultimately show ?thesis
      using n(1) lt block j(1) False by (simp add: lookup_docs_def Let_def)
  qed
qed

lemma write_lookup_header:
  "\<exists>tail. write_lookup_streaming entries = lookup_magic @ to_le 2 1 @ to_le 2 0
      @ to_le 4 (length (lookup_recs entries)) @ tail
    \<and> length (write_lookup_streaming entries) = 16 + length (lookup_recs entries) * 16"
  using concat_rows_length [of "lookup_recs entries" encode_rec 16]
  by (simp add: write_lookup_streaming_def Let_def lookup_magic_def)

lemma length_lookup_recs: "length (lookup_recs entries) \<le> length entries"
proof -
  have "length (concat (map (\<lambda>(idn, doc). let n = normalize_id idn in
          if n = [] then [] else [(id_hash n, id_verify n, doc)]) entries)) \<le> length entries"
    by (induction entries) (auto simp: Let_def)
  then show ?thesis by (simp add: lookup_recs_def)
qed

context full_fetch
begin

lemma written_table_served:
  assumes content: "content = write_lookup_streaming entries"
    and docs: "\<forall>(idn, d) \<in> set entries. d < U32"
    and small: "length (lookup_recs entries) < U32" "16 + length (lookup_recs entries) * 16 < lim"
  shows "lookup_open fetch = Ok (length (lookup_recs entries))"
    and "serves_table fetch (lookup_recs entries)"
proof -
  let ?recs = "lookup_recs entries"
  let ?table = "concat (map encode_rec ?recs)"
  let ?head = "lookup_magic @ to_le 2 1 @ to_le 2 0 @ to_le 4 (length ?recs) @ to_le 4 0"
  have tlen: "length ?table = length ?recs * 16" by (rule concat_rows_length) simp
  have hlen: "length ?head = 16" by (simp add: lookup_magic_def)
  have split: "content = ?head @ ?table" using content by (simp add: write_lookup_streaming_def Let_def)
  have clen: "length content = 16 + length ?recs * 16" using split hlen tlen by simp
  have "rd fetch 0 16 = Ok ?head"
    using rd_ok [of 0 16] clen small(2) cut_mid [of "[]" 0 ?head 16 ?table] hlen split by simp
  moreover have "lookup_from_boot ?head = Ok (length ?recs)"
    using small(1) u16_at_mid [of lookup_magic 4 1 "to_le 2 0 @ to_le 4 (length ?recs) @ to_le 4 0"]
      u32_at_mid [of "lookup_magic @ to_le 2 1 @ to_le 2 0" 8 "length ?recs" "to_le 4 0"]
    by (simp add: lookup_from_boot_def lookup_magic_def cut_def)
  ultimately show "lookup_open fetch = Ok (length ?recs)" by (simp add: lookup_open_def del: rd_Ok_iff)
  have ok: "\<forall>r \<in> set ?recs. rec_ok r" by (rule lookup_recs_ok [OF docs])
  have rows: "rd fetch (16 + s * 16) ((e - s) * 16) = Ok (concat (map encode_rec (cut ?recs s e)))"
    if "s \<le> e" "e \<le> length ?recs" for s e
  proof -
    have eq: "16 + s * 16 + (e - s) * 16 = 16 + e * 16" using that by (simp add: algebra_simps)
    have "16 + e * 16 \<le> length content" "16 + e * 16 < lim" using that clen small(2) by auto
    then have "rd fetch (16 + s * 16) ((e - s) * 16) = Ok (cut content (16 + s * 16) (16 + e * 16))"
      using rd_ok [of "16 + s * 16" "(e - s) * 16"] unfolding eq by blast
    also have "cut content (16 + s * 16) (16 + e * 16) = cut ?table (s * 16) (e * 16)"
      using cut_append_right [of ?head "16 + s * 16" ?table "16 + e * 16"] hlen split by simp
    also have "\<dots> = concat (map encode_rec (cut ?recs s e))"
      by (rule cut_concat_rows) (use that in simp_all)
    finally show ?thesis .
  qed
  have one: "lookup_record fetch i = Ok (?recs ! i)" if i: "i < length ?recs" for i
  proof -
    have "cut ?recs i (i + 1) = [?recs ! i]" using i by (simp add: cut_def take_Suc hd_drop_conv_nth)
    then have "rd fetch (16 + i * 16) 16 = Ok (encode_rec (?recs ! i))" using rows [of i "i + 1"] i by simp
    moreover obtain h v d where r: "?recs ! i = (h, v, d)" by (metis prod_cases3)
    moreover have "h < U64" "v < U32" "d < U32" using ok nth_mem [OF i] r by (auto simp: rec_ok_def)
    ultimately show ?thesis
      using encode_rec_fields [of h v d "[]"] by (simp add: lookup_record_def del: rd_Ok_iff)
  qed
  show "serves_table fetch ?recs"
    using ok lookup_recs_sorted small(1) one rows by (simp add: serves_table_def read_records_def)
qed

lemma written_lookup:
  assumes "content = write_lookup_streaming entries" "\<forall>(idn, d) \<in> set entries. d < U32"
    and "length (lookup_recs entries) < U32" "16 + length (lookup_recs entries) * 16 < lim"
  shows "lookup_docs fetch (length (lookup_recs entries)) q = Ok (if normalize_id q = [] then []
     else sort (map snd (filter (\<lambda>(idn, _). same_id q idn) entries)))"
  using lookup_docs_finds [OF written_table_served(2) [OF assms], of q] by (simp add: run_docs_recs)

end

section \<open>Properties\<close>

text \<open>
  C6: Round trip of the identifier index. Over a table written from any list of identifiers and
  documents, the reader boots with the record count, and looking an identifier up returns, in
  ascending order, exactly the documents of the entries with the same double hash; the entries
  whose normalised identifier equals the query's are among them.
\<close>

theorem lookup_roundtrip:
  assumes "\<forall>(idn, d) \<in> set entries. d < U32" "length entries < U32" "16 + length entries * 16 < um"
  shows "bind_o (lookup_open (mem_read um (mem_new (write_lookup entries))))
           (\<lambda>cnt. lookup_docs (mem_read um (mem_new (write_lookup entries))) cnt q)
       = Ok (if normalize_id q = [] then [] else sort (map snd (filter (\<lambda>(idn, _). same_id q idn) entries)))
     \<and> (\<forall>(idn, d) \<in> set entries. normalize_id idn = normalize_id q \<and> normalize_id q \<noteq> [] \<longrightarrow> same_id q idn)"
proof -
  have small: "length (lookup_recs entries) < U32" "16 + length (lookup_recs entries) * 16 < um"
    using length_lookup_recs [of entries] assms(2,3) by simp_all
  show ?thesis
    using memf.written_table_served(1) [OF refl assms(1) small] memf.written_lookup [OF refl assms(1) small]
    by (auto simp: write_lookup_def same_id_def)
qed

lemma lookup_roundtrip_witness:
  "bind_o (lookup_open (mem_read U32 (mem_new (write_lookup [([0x41], 9), ([0x62], 4), ([0x61], 2)]))))
     (\<lambda>cnt. lookup_docs (mem_read U32 (mem_new (write_lookup [([0x41], 9), ([0x62], 4), ([0x61], 2)]))) cnt [0x2D, 0x61])
   = Ok (sort (map snd (filter (\<lambda>(idn, _). same_id [0x2D, 0x61] idn) [([0x41], 9), ([0x62], 4), ([0x61], 2)])))"
  using lookup_roundtrip [of "[([0x41], 9), ([0x62], 4), ([0x61], 2)]" U32 "[0x2D, 0x61]"]
  by (simp add: normalize_id_def)

text \<open>
  No damaged table can make the identifier reader panic or loop: over any object at all, booting
  and looking up any identifier end in an answer or an error, whatever the header and the
  (possibly unsorted) records are.
\<close>

lemma lookup_hostile_safe:
  assumes "range_fetch f content"
  shows "lookup_open f \<noteq> Panic \<and> (\<forall>cnt. lookup_open f = Ok cnt \<longrightarrow> lookup_docs f cnt q \<noteq> Panic)"
proof -
  have "cnt < U32" if "lookup_open f = Ok cnt" for cnt
    using that by (auto simp: lookup_open_def lookup_from_boot_def outcome_simps split: if_splits)
  then show ?thesis
    using range_fetch.lookup_open_no_panic [OF assms] range_fetch.lookup_docs_no_panic [OF assms] by blast
qed

end
