(* ===== verification/RR_Roaring.thy ===== *)
theory RR_Roaring imports RR_Bytes begin

text \<open>
  Portable RoaringBitmap postings as \<open>rust/src/posting.rs\<close> takes them apart and puts them back
  together: the container directory (\<open>needed_header_len\<close>, \<open>parse_dir\<close>) and the re-framing of
  selected containers (\<open>assemble\<close>).

  The crate \<open>roaring\<close> itself is a parameter. A \<open>RoaringBitmap\<close> is the finite set of \<open>u32\<close>
  values it holds, iterated in ascending order (\<open>sorted_list_of_set\<close>); \<open>deser\<close> stands for
  \<open>RoaringBitmap::deserialize_from\<close> and \<open>ser\<close> for \<open>serialize_into\<close>. What is relied on is the
  documented portable format without run containers: \<open>well_formed\<close> container lists,
  \<open>piece_docs\<close> their documents, and the locale \<open>roaring\<close>: deserialising an assembled
  well-formed list gives its documents, and serialising gives such an assembled list.
  \<open>format_decode\<close> and \<open>format_encode\<close> are reference functions written from that format
  description, on which the locale is interpreted.
\<close>

definition no_run_cookie :: nat where "no_run_cookie = 12346"
definition header_prefix :: nat where "header_prefix = 4096"
definition span_gap :: nat where "span_gap = 16384"

text \<open>The documents of one bucket: those with the same high 16 bits.\<close>

abbreviation high_key :: "nat \<Rightarrow> nat" where "high_key d \<equiv> d div 65536"

section \<open>Containers\<close>

record container =
  c_key :: nat
  c_card :: nat
  c_start :: nat
  c_len :: nat

text \<open>A selected container with its body: \<open>(key, cardinality, body)\<close>.\<close>

datatype piece = Piece (pc_key: nat) (pc_card: nat) (pc_body: bytes)

definition assemble :: "piece list \<Rightarrow> bytes" where
  "assemble sel =
     (let n = length sel; data_start = 8 + n * 4 + n * 4 in
      to_le 4 no_run_cookie @ to_le 4 n
      @ concat (map (\<lambda>p. to_le 2 (pc_key p) @ to_le 2 (pc_card p - 1)) sel)
      @ snd (foldl (\<lambda>(pos, out) p. (pos + length (pc_body p), out @ to_le 4 pos)) (data_start, []) sel)
      @ concat (map pc_body sel))"

definition needed_header_len :: "nat \<Rightarrow> bytes \<Rightarrow> nat option" where
  "needed_header_len um bytes =
     (if length bytes < 8 \<or> u32_at bytes 0 \<noteq> no_run_cookie then None
      else Option.bind (checked_mul um (u32_at bytes 4) 8) (\<lambda>n. checked_add um n 8))"

fun parse_entries :: "bytes \<Rightarrow> nat \<Rightarrow> nat \<Rightarrow> nat \<Rightarrow> nat \<Rightarrow> nat list \<Rightarrow> (container list option) ires" where
  "parse_entries header sz desc offs tot [] = Ok (Some [])"
| "parse_entries header sz desc offs tot (i # is) =
     bind_o (read_u16 header (desc + i * 4)) (\<lambda>key.
     bind_o (read_u16 header (desc + i * 4 + 2)) (\<lambda>c.
     bind_o (read_u32 header (offs + i * 4)) (\<lambda>start.
     bind_o (if i + 1 < sz then read_u32 header (offs + (i + 1) * 4) else Ok tot) (\<lambda>stop.
       if stop < start \<or> stop > tot then Ok None
       else bind_o (parse_entries header sz desc offs tot is) (\<lambda>rest.
         Ok (map_option
           ((#) \<lparr>c_key = key, c_card = c + 1, c_start = start, c_len = stop - start\<rparr>) rest))))))"

definition parse_dir :: "nat \<Rightarrow> bytes \<Rightarrow> nat \<Rightarrow> (container list option) ires" where
  "parse_dir um header tot =
     (if length header < 8 \<or> u32_at header 0 \<noteq> no_run_cookie then Ok None
      else let sz = u32_at header 4; desc = 8 in
        if sz = 0 then Ok (Some [])
        else
          case Option.bind (checked_mul um sz 4) (\<lambda>n. checked_add um n desc) of
            None \<Rightarrow> Ok None
          | Some offs \<Rightarrow>
              (case Option.bind (checked_mul um sz 4) (\<lambda>n. checked_add um n offs) of
                 None \<Rightarrow> Ok None
               | Some data \<Rightarrow>
                   if length header < data \<or> data > tot then Ok None
                   else bind_o (read_u32 header offs) (\<lambda>first.
                     if first \<noteq> data then Ok None
                     else parse_entries header sz desc offs tot [0..<sz])))"

section \<open>The portable format\<close>

definition u16s :: "bytes \<Rightarrow> nat list" where
  "u16s body = map (\<lambda>i. u16_at body (2 * i)) [0..<length body div 2]"

definition container_docs :: "nat \<Rightarrow> bytes \<Rightarrow> nat set" where
  "container_docs c body =
     (if c \<le> 4096 then set (u16s body)
      else {x \<in> {..<65536}. bit (body ! (x div 8)) (x mod 8)})"

definition body_ok :: "nat \<Rightarrow> bytes \<Rightarrow> bool" where
  "body_ok c body \<longleftrightarrow>
     (if c \<le> 4096 then length body = 2 * c \<and> sorted_wrt (<) (u16s body)
      else length body = 8192 \<and> card (container_docs c body) = c)"

definition piece_ok :: "piece \<Rightarrow> bool" where
  "piece_ok p \<longleftrightarrow> pc_key p < U16 \<and> 1 \<le> pc_card p \<and> pc_card p \<le> 65536 \<and> body_ok (pc_card p) (pc_body p)"

definition piece_docs :: "piece \<Rightarrow> nat set" where
  "piece_docs p = (\<lambda>x. pc_key p * 65536 + x) ` container_docs (pc_card p) (pc_body p)"

definition docs :: "piece list \<Rightarrow> nat set" where
  "docs sel = (\<Union>p \<in> set sel. piece_docs p)"

definition well_formed :: "piece list \<Rightarrow> bool" where
  "well_formed sel \<longleftrightarrow> list_all piece_ok sel \<and> sorted_wrt (<) (map pc_key sel)"

text \<open>Facts about well-formed lists.\<close>

lemma container_docs_bound: "container_docs c body \<subseteq> {..<65536}"
proof -
  have "u16_at body i < 65536" for i using u16_at_less [of body i] by simp
  then show ?thesis by (auto simp: container_docs_def u16s_def)
qed

lemma piece_docs_key: "d \<in> piece_docs p \<Longrightarrow> high_key d = pc_key p"
  using container_docs_bound [of "pc_card p" "pc_body p"] by (auto simp: piece_docs_def)

lemma finite_piece_docs [simp]: "finite (piece_docs p)"
  using finite_subset [OF container_docs_bound] by (simp add: piece_docs_def)

lemma finite_docs [simp]: "finite (docs sel)"
  by (simp add: docs_def)

lemma docs_bound:
  assumes "well_formed sel" "d \<in> docs sel"
  shows "d < U32"
proof -
  obtain p where p: "p \<in> set sel" "d \<in> piece_docs p" using assms(2) by (auto simp: docs_def)
  then have "high_key d < 65536"
    using assms(1) piece_docs_key [of d p] by (auto simp: well_formed_def piece_ok_def list_all_iff)
  then show ?thesis by simp
qed

lemma docs_filter:
  "docs (filter (\<lambda>p. P (pc_key p)) sel) = {d \<in> docs sel. P (high_key d)}"
  by (auto simp: docs_def dest: piece_docs_key) (metis piece_docs_key)+

lemma well_formed_filter: "well_formed sel \<Longrightarrow> well_formed (filter P sel)"
  by (auto simp: well_formed_def list_all_iff sorted_wrt_map intro: sorted_wrt_filter)

lemma well_formed_length:
  assumes "well_formed sel"
  shows "length sel \<le> 65536"
proof -
  have "distinct (map pc_key sel)"
    using assms unfolding well_formed_def by (simp add: strict_sorted_iff)
  then have "length (map pc_key sel) = card (set (map pc_key sel))" by (metis distinct_card)
  also have "\<dots> \<le> card {..<65536 :: nat}"
    using assms by (intro card_mono) (auto simp: well_formed_def list_all_iff piece_ok_def)
  finally show ?thesis by simp
qed

lemma body_length_le: "piece_ok p \<Longrightarrow> length (pc_body p) \<le> 8192"
  by (auto simp: piece_ok_def body_ok_def split: if_splits)

lemma bodies_length_le:
  "list_all piece_ok sel \<Longrightarrow> length (concat (map pc_body sel)) \<le> length sel * 8192"
  by (induction sel) (auto dest: body_length_le)

lemma piece_docs_nonempty:
  assumes "piece_ok p"
  shows "piece_docs p \<noteq> {}"
proof (cases "pc_card p \<le> 4096")
  case True
  then have "u16s (pc_body p) \<noteq> []" using assms by (auto simp: piece_ok_def body_ok_def u16s_def)
  then show ?thesis using True by (simp add: piece_docs_def container_docs_def)
next
  case False
  then have "card (container_docs (pc_card p) (pc_body p)) \<noteq> 0"
    using assms by (simp add: piece_ok_def body_ok_def)
  then show ?thesis by (auto simp: piece_docs_def)
qed

lemma card_piece_docs:
  assumes "piece_ok p"
  shows "card (piece_docs p) = pc_card p"
proof -
  have "inj_on (\<lambda>x. pc_key p * 65536 + x) A" for A by (simp add: inj_on_def)
  then have "card (piece_docs p) = card (container_docs (pc_card p) (pc_body p))"
    unfolding piece_docs_def by (rule card_image)
  also have "\<dots> = pc_card p"
  proof (cases "pc_card p \<le> 4096")
    case True
    then have "distinct (u16s (pc_body p))" "length (u16s (pc_body p)) = pc_card p"
      using assms by (auto simp: piece_ok_def body_ok_def strict_sorted_iff u16s_def)
    then show ?thesis using True by (simp add: container_docs_def distinct_card)
  next
    case False
    then show ?thesis using assms by (simp add: piece_ok_def body_ok_def)
  qed
  finally show ?thesis .
qed

lemma card_docs:
  assumes "well_formed sel"
  shows "card (docs sel) = sum_list (map pc_card sel)"
  using assms
proof (induction sel)
  case Nil
  then show ?case by (simp add: docs_def)
next
  case (Cons p sel)
  have wf: "well_formed sel" and p: "piece_ok p" and above: "\<forall>q \<in> set sel. pc_key p < pc_key q"
    using Cons.prems by (auto simp: well_formed_def)
  have "piece_docs p \<inter> docs sel = {}"
    using above by (fastforce simp: docs_def dest: piece_docs_key)
  moreover have "docs (p # sel) = piece_docs p \<union> docs sel" by (simp add: docs_def)
  ultimately show ?case using Cons.IH [OF wf] card_piece_docs [OF p] by (simp add: card_Un_disjoint)
qed

section \<open>The layout of an assembled posting\<close>

fun body_offsets :: "nat \<Rightarrow> piece list \<Rightarrow> nat list" where
  "body_offsets pos [] = []"
| "body_offsets pos (p # ps) = pos # body_offsets (pos + length (pc_body p)) ps"

lemma length_body_offsets [simp]: "length (body_offsets pos sel) = length sel"
  by (induction sel arbitrary: pos) auto

lemma assemble_offsets:
  "snd (foldl (\<lambda>(pos, out) p. (pos + length (pc_body p), out @ to_le 4 pos)) (pos, out) sel)
     = out @ concat (map (to_le 4) (body_offsets pos sel))"
  by (induction sel arbitrary: pos out) simp_all

definition data_start :: "piece list \<Rightarrow> nat" where
  "data_start sel = 8 + 8 * length sel"

lemma assemble_alt:
  "assemble sel = to_le 4 no_run_cookie @ to_le 4 (length sel)
     @ concat (map (\<lambda>p. to_le 2 (pc_key p) @ to_le 2 (pc_card p - 1)) sel)
     @ concat (map (to_le 4) (body_offsets (data_start sel) sel))
     @ concat (map pc_body sel)"
  by (simp add: assemble_def Let_def assemble_offsets data_start_def add.commute)

lemma body_offsets_nth:
  "i < length sel \<Longrightarrow> body_offsets pos sel ! i = pos + length (concat (map pc_body (take i sel)))"
proof (induction sel arbitrary: pos i)
  case Nil
  then show ?case by simp
next
  case (Cons p ps)
  then show ?case by (cases i) (simp_all add: Cons.IH)
qed

lemma length_desc: "length (concat (map (\<lambda>p. to_le 2 (pc_key p) @ to_le 2 (pc_card p - 1)) sel)) = length sel * 4"
  by (rule concat_rows_length) simp

lemma length_offs: "length (concat (map (to_le 4) (body_offsets pos sel))) = length sel * 4"
  using concat_rows_length [of "body_offsets pos sel" "to_le 4" 4] by simp

lemma length_assemble: "length (assemble sel) = data_start sel + length (concat (map pc_body sel))"
  by (simp only: assemble_alt length_append length_desc length_offs) (simp add: data_start_def)

lemma assemble_bound:
  assumes "well_formed sel"
  shows "length (assemble sel) \<le> 8 + length sel * 8200" "length (assemble sel) < U32 div 4"
proof -
  show le: "length (assemble sel) \<le> 8 + length sel * 8200"
    using bodies_length_le [of sel] assms by (simp add: length_assemble data_start_def well_formed_def)
  then show "length (assemble sel) < U32 div 4" using well_formed_length [OF assms] by simp
qed

text \<open>The fields of the directory, at their offsets.\<close>

lemma assemble_fields:
  assumes "well_formed sel"
  shows "u32_at (assemble sel) 0 = no_run_cookie" "u32_at (assemble sel) 4 = length sel"
    and "i < length sel \<Longrightarrow> u16_at (assemble sel) (8 + i * 4) = pc_key (sel ! i)"
    and "i < length sel \<Longrightarrow> u16_at (assemble sel) (8 + i * 4 + 2) = pc_card (sel ! i) - 1"
    and "i < length sel \<Longrightarrow> u32_at (assemble sel) (8 + length sel * 4 + i * 4) = body_offsets (data_start sel) sel ! i"
proof -
  let ?head = "to_le 4 no_run_cookie @ to_le 4 (length sel)"
  let ?desc = "concat (map (\<lambda>p. to_le 2 (pc_key p) @ to_le 2 (pc_card p - 1)) sel)"
  let ?offs = "concat (map (to_le 4) (body_offsets (data_start sel) sel))"
  let ?rest = "concat (map pc_body sel)"
  have n: "length sel < U32" using well_formed_length [OF assms] by simp
  have split: "assemble sel = ?head @ ?desc @ ?offs @ ?rest" by (simp add: assemble_alt)
  show "u32_at (assemble sel) 0 = no_run_cookie"
    unfolding assemble_alt by (rule u32_at_0) (simp add: no_run_cookie_def)
  show "u32_at (assemble sel) 4 = length sel"
    unfolding assemble_alt by (rule u32_at_mid) (use n in simp_all)
  assume i: "i < length sel"
  have ok: "piece_ok (sel ! i)" using assms i by (simp add: well_formed_def list_all_length)
  have in_desc: "cut (assemble sel) (8 + i * 4) (8 + i * 4 + 4) = to_le 2 (pc_key (sel ! i)) @ to_le 2 (pc_card (sel ! i) - 1)"
    unfolding split by (rule cut_row_mid) (use i in simp_all)
  have len: "8 + i * 4 + 4 \<le> length (assemble sel)" using i by (simp add: length_assemble data_start_def)
  show "u16_at (assemble sel) (8 + i * 4) = pc_key (sel ! i)"
    using u16_at_cut [of 0 "8 + i * 4 + 4" "8 + i * 4" "assemble sel"] len ok
    by (simp add: in_desc [simplified] piece_ok_def u16_at_0 [simplified])
  have "pc_card (sel ! i) - 1 < U16" using ok by (auto simp: piece_ok_def)
  then show "u16_at (assemble sel) (8 + i * 4 + 2) = pc_card (sel ! i) - 1"
    using u16_at_cut [of 2 "8 + i * 4 + 4" "8 + i * 4" "assemble sel"] len ok
      u16_at_mid [of "to_le 2 (pc_key (sel ! i))" 2 "pc_card (sel ! i) - 1" "[]"]
    by (simp add: in_desc [simplified])
  let ?o = "8 + length sel * 4 + i * 4"
  have "assemble sel = (?head @ ?desc) @ ?offs @ ?rest" using split by simp
  then have in_offs: "cut (assemble sel) ?o (?o + 4) = to_le 4 (body_offsets (data_start sel) sel ! i)"
    by (simp only:) (rule cut_row_mid, use i length_desc in simp_all)
  have "concat (map pc_body sel) = concat (map pc_body (take i sel)) @ concat (map pc_body (drop i sel))"
    by (metis append_take_drop_id concat_append map_append)
  then have "body_offsets (data_start sel) sel ! i \<le> length (assemble sel)"
    using i by (simp add: body_offsets_nth length_assemble)
  then have "body_offsets (data_start sel) sel ! i < U32" using assemble_bound(2) [OF assms] by simp
  then show "u32_at (assemble sel) ?o = body_offsets (data_start sel) sel ! i"
    by (simp only: u32_at_def in_offs from_le_to_le) simp
qed

section \<open>Parsing a directory\<close>

text \<open>Where a directory's containers lie: inside \<open>tot\<close> bytes, one after the other.\<close>

definition dir_ok :: "nat \<Rightarrow> container list \<Rightarrow> bool" where
  "dir_ok tot dir \<longleftrightarrow>
     (\<forall>c \<in> set dir. c_key c < U16 \<and> 1 \<le> c_card c \<and> c_card c \<le> 65536 \<and> c_start c + c_len c \<le> tot)
     \<and> sorted_wrt (\<lambda>a b. c_start a + c_len a \<le> c_start b) dir"

lemma dir_ok_filter: "dir_ok tot dir \<Longrightarrow> dir_ok tot (filter P dir)"
  by (auto simp: dir_ok_def intro: sorted_wrt_filter)

definition entry_start :: "bytes \<Rightarrow> nat \<Rightarrow> nat \<Rightarrow> nat" where
  "entry_start header offs i = u32_at header (offs + i * 4)"

definition entry_stop :: "bytes \<Rightarrow> nat \<Rightarrow> nat \<Rightarrow> nat \<Rightarrow> nat \<Rightarrow> nat" where
  "entry_stop header sz offs tot i = (if i + 1 < sz then u32_at header (offs + (i + 1) * 4) else tot)"

definition entry :: "bytes \<Rightarrow> nat \<Rightarrow> nat \<Rightarrow> nat \<Rightarrow> nat \<Rightarrow> nat \<Rightarrow> container" where
  "entry header sz desc offs tot i =
     \<lparr>c_key = u16_at header (desc + i * 4), c_card = u16_at header (desc + i * 4 + 2) + 1,
      c_start = entry_start header offs i,
      c_len = entry_stop header sz offs tot i - entry_start header offs i\<rparr>"

lemma parse_entries_eval:
  assumes "desc + sz * 4 \<le> length header" "offs + sz * 4 \<le> length header" "\<forall>i \<in> set is. i < sz"
  shows "parse_entries header sz desc offs tot is =
    Ok (if \<forall>i \<in> set is. entry_start header offs i \<le> entry_stop header sz offs tot i
           \<and> entry_stop header sz offs tot i \<le> tot
        then Some (map (entry header sz desc offs tot) is) else None)"
  using assms(3)
proof (induction "is")
  case Nil
  then show ?case by simp
next
  case (Cons i rest)
  then have i: "i < sz" by simp
  have b: "desc + i * 4 + 4 \<le> length header" "offs + i * 4 + 4 \<le> length header"
    using assms(1,2) i by auto
  have stop: "(if i + 1 < sz then read_u32 header (offs + (i + 1) * 4) else Ok tot)
      = (Ok (entry_stop header sz offs tot i) :: nat ires)"
    using assms(2) by (auto simp: entry_stop_def)
  show ?case
    unfolding parse_entries.simps stop using b Cons.IH Cons.prems
    by (auto simp: entry_def entry_start_def)
qed

lemma parse_dir_cases:
  assumes "parse_dir um header tot = r"
  obtains (none) "r = Ok None"
    | (empty) "r = Ok (Some [])"
    | (some) sz where "sz = u32_at header 4" "8 + sz * 8 \<le> length header" "8 + sz * 8 \<le> tot" "8 + sz * 8 < um"
        "u32_at header (8 + sz * 4) = 8 + sz * 8"
        "r = Ok (Some (map (entry header sz 8 (8 + sz * 4) tot) [0..<sz]))"
        "\<forall>i < sz. entry_start header (8 + sz * 4) i \<le> entry_stop header sz (8 + sz * 4) tot i
           \<and> entry_stop header sz (8 + sz * 4) tot i \<le> tot"
proof -
  let ?sz = "u32_at header 4"
  consider (a) "length header < 8 \<or> u32_at header 0 \<noteq> no_run_cookie"
    | (b) "\<not> (length header < 8 \<or> u32_at header 0 \<noteq> no_run_cookie)" "?sz = 0"
    | (c) "\<not> (length header < 8 \<or> u32_at header 0 \<noteq> no_run_cookie)" "?sz \<noteq> 0"
        "\<not> (?sz * 4 + (?sz * 4 + 8) < um)"
    | (d) "\<not> (length header < 8 \<or> u32_at header 0 \<noteq> no_run_cookie)" "?sz \<noteq> 0"
        "?sz * 4 + (?sz * 4 + 8) < um"
    by blast
  then show ?thesis
  proof cases
    case a
    then show ?thesis using assms none by (simp add: parse_dir_def)
  next
    case b
    then show ?thesis using assms empty by (simp add: parse_dir_def)
  next
    case c
    then have "parse_dir um header tot = Ok None"
      by (auto simp: parse_dir_def Let_def bind_eq_Some_conv split: option.splits)
    then show ?thesis using assms none by simp
  next
    case d
    then have eq: "parse_dir um header tot =
       (if length header < ?sz * 4 + (?sz * 4 + 8) \<or> ?sz * 4 + (?sz * 4 + 8) > tot then Ok None
        else bind_o (read_u32 header (?sz * 4 + 8)) (\<lambda>first.
          if first \<noteq> ?sz * 4 + (?sz * 4 + 8) then Ok None
          else parse_entries header ?sz 8 (?sz * 4 + 8) tot [0..<?sz]))"
      by (simp add: parse_dir_def Let_def)
    show ?thesis
    proof (cases "length header < ?sz * 4 + (?sz * 4 + 8) \<or> ?sz * 4 + (?sz * 4 + 8) > tot
        \<or> u32_at header (?sz * 4 + 8) \<noteq> ?sz * 4 + (?sz * 4 + 8)")
      case True
      then have "parse_dir um header tot = Ok None" using eq d(2) by auto
      then show ?thesis using assms none by simp
    next
      case False
      then have p: "parse_dir um header tot = parse_entries header ?sz 8 (8 + ?sz * 4) tot [0..<?sz]"
        using eq d(2) by (simp add: add.commute)
      have e: "parse_entries header ?sz 8 (8 + ?sz * 4) tot [0..<?sz] =
          Ok (if \<forall>i \<in> set [0..<?sz]. entry_start header (8 + ?sz * 4) i \<le> entry_stop header ?sz (8 + ?sz * 4) tot i
                   \<and> entry_stop header ?sz (8 + ?sz * 4) tot i \<le> tot
              then Some (map (entry header ?sz 8 (8 + ?sz * 4) tot) [0..<?sz]) else None)"
        by (rule parse_entries_eval) (use False in auto)
      show ?thesis
      proof (cases "\<forall>i < ?sz. entry_start header (8 + ?sz * 4) i \<le> entry_stop header ?sz (8 + ?sz * 4) tot i
                   \<and> entry_stop header ?sz (8 + ?sz * 4) tot i \<le> tot")
        case True
        then have "r = Ok (Some (map (entry header ?sz 8 (8 + ?sz * 4) tot) [0..<?sz]))"
          using p e assms by simp
        moreover have "u32_at header (8 + ?sz * 4) = 8 + ?sz * 8" using False by (simp add: add.commute)
        ultimately show ?thesis using some False True d(3) by simp
      next
        case nope: False
        then have "r = Ok None" using p e assms by auto
        then show ?thesis by (rule none)
      qed
    qed
  qed
qed

lemma parse_dir_no_panic: "parse_dir um header tot \<noteq> Panic"
  by (rule parse_dir_cases [OF refl, of um header tot]) simp_all

lemma entry_stop_start:
  "i + 1 < sz \<Longrightarrow> entry_stop header sz offs tot i = entry_start header offs (i + 1)"
  by (simp add: entry_stop_def entry_start_def)

text \<open>Whatever bytes a directory was parsed from, its containers lie inside the posting, in order.\<close>

lemma parse_dir_ok:
  assumes "parse_dir um header tot = Ok (Some dir)"
  shows "dir_ok tot dir"
  using assms
proof (cases rule: parse_dir_cases)
  case (some sz)
  let ?o = "8 + sz * 4"
  let ?s = "entry_start header ?o" and ?e = "entry_stop header sz ?o tot"
  have dir: "dir = map (entry header sz 8 ?o tot) [0..<sz]" using some(6) by simp
  have ok: "?s i \<le> ?e i" "?e i \<le> tot" if "i < sz" for i using some(7) that by auto
  have chain: "?e i \<le> ?s j" if "i < j" "j < sz" for i j
    using that
  proof (induction j)
    case 0
    then show ?case by simp
  next
    case (Suc j)
    show ?case
    proof (cases "i = j")
      case True
      then show ?thesis using entry_stop_start [of i sz header ?o tot] Suc.prems by simp
    next
      case False
      then have "?e i \<le> ?s j" using Suc by simp
      also have "\<dots> \<le> ?e j" using ok Suc.prems by simp
      also have "\<dots> = ?s (Suc j)" using entry_stop_start [of j sz header ?o tot] Suc.prems by simp
      finally show ?thesis .
    qed
  qed
  have "\<forall>c \<in> set dir. c_key c < U16 \<and> 1 \<le> c_card c \<and> c_card c \<le> 65536 \<and> c_start c + c_len c \<le> tot"
  proof
    fix c assume "c \<in> set dir"
    then obtain i where i: "i < sz" "c = entry header sz 8 ?o tot i" using dir by auto
    have "u16_at header k + 1 \<le> 65536" for k
      unfolding Suc_eq_plus1 [symmetric] Suc_le_eq by simp
    then show "c_key c < U16 \<and> 1 \<le> c_card c \<and> c_card c \<le> 65536 \<and> c_start c + c_len c \<le> tot"
      using ok [OF i(1)] i(2) by (simp add: entry_def)
  qed
  moreover have "sorted_wrt (\<lambda>a b. c_start a + c_len a \<le> c_start b) dir"
    unfolding dir sorted_wrt_map
    by (rule sorted_wrt_mono_rel [OF _ sorted_wrt_upt]) (auto simp: entry_def chain ok)
  ultimately show ?thesis by (simp add: dir_ok_def)
qed (simp_all add: dir_ok_def)

text \<open>The containers of a posting that starts at \<open>off\<close> of some object, with their bodies.\<close>

definition piece_at :: "bytes \<Rightarrow> nat \<Rightarrow> container \<Rightarrow> piece" where
  "piece_at b off c = Piece (c_key c) (c_card c) (cut b (off + c_start c) (off + c_start c + c_len c))"

lemma cut_body:
  assumes "i < length sel"
  shows "cut (assemble sel) (body_offsets (data_start sel) sel ! i)
     (body_offsets (data_start sel) sel ! i + length (pc_body (sel ! i))) = pc_body (sel ! i)"
proof -
  let ?pre = "to_le 4 no_run_cookie @ to_le 4 (length sel)
     @ concat (map (\<lambda>p. to_le 2 (pc_key p) @ to_le 2 (pc_card p - 1)) sel)
     @ concat (map (to_le 4) (body_offsets (data_start sel) sel))"
  have "sel = take i sel @ sel ! i # drop (Suc i) sel" using assms by (simp add: id_take_nth_drop)
  then have "concat (map pc_body sel) = concat (map pc_body (take i sel)) @ pc_body (sel ! i)
      @ concat (map pc_body (drop (Suc i) sel))"
    by (metis concat.simps(2) concat_append list.simps(9) map_append)
  then have "assemble sel = (?pre @ concat (map pc_body (take i sel))) @ pc_body (sel ! i)
      @ concat (map pc_body (drop (Suc i) sel))"
    by (simp add: assemble_alt)
  moreover have "length (?pre @ concat (map pc_body (take i sel))) = body_offsets (data_start sel) sel ! i"
    using assms by (simp add: length_desc [simplified] length_offs body_offsets_nth data_start_def)
  ultimately show ?thesis by (simp only: cut_mid)
qed

lemma body_offsets_Suc:
  assumes "i < length sel"
  shows "(if i + 1 < length sel then body_offsets pos sel ! (i + 1) else pos + length (concat (map pc_body sel)))
    = body_offsets pos sel ! i + length (pc_body (sel ! i))"
proof -
  have t: "take (i + 1) sel = take i sel @ [sel ! i]" using assms by (simp add: take_Suc_conv_app_nth)
  then have len: "length (concat (map pc_body (take (i + 1) sel))) = length (concat (map pc_body (take i sel))) + length (pc_body (sel ! i))"
    by simp
  show ?thesis
  proof (cases "i + 1 < length sel")
    case False
    then have "take (i + 1) sel = sel" using assms by simp
    then show ?thesis using assms False len by (simp add: body_offsets_nth del: length_concat)
  qed (use assms len in \<open>simp add: body_offsets_nth del: length_concat\<close>)
qed

lemma parse_assembled:
  assumes wf: "well_formed sel" and h: "data_start sel \<le> h" "h \<le> length (assemble sel)"
    and um: "data_start sel < um"
  shows "\<exists>dir. parse_dir um (cut (assemble sel) 0 h) (length (assemble sel)) = Ok (Some dir)
    \<and> map (piece_at (assemble sel) 0) dir = sel"
proof -
  let ?b = "assemble sel" and ?n = "length sel"
  let ?header = "cut ?b 0 h"
  have ds: "data_start sel = 8 + ?n * 8" by (simp add: data_start_def)
  have f16: "u16_at ?header k = u16_at ?b k" if "k + 2 \<le> h" for k
    using u16_at_cut [of k h 0 ?b] h(2) that by simp
  have f32: "u32_at ?header k = u32_at ?b k" if "k + 4 \<le> h" for k
    using u32_at_cut [of k h 0 ?b] h(2) that by simp
  have len: "length ?header = h" using h(2) by simp
  have n: "u32_at ?header 4 = ?n" and ck: "u32_at ?header 0 = no_run_cookie"
    using f32 h(1) ds assemble_fields(1,2) [OF wf] by simp_all
  show ?thesis
  proof (cases "?n = 0")
    case True
    then show ?thesis using n ck len h(1) ds by (simp add: parse_dir_def)
  next
    case False
    let ?o = "8 + ?n * 4"
    have start: "entry_start ?header ?o i = body_offsets (data_start sel) sel ! i" if "i < ?n" for i
      using that assemble_fields(5) [OF wf that] f32 [of "?o + i * 4"] h(1) ds
      by (simp add: entry_start_def)
    have stop: "entry_stop ?header ?n ?o (length ?b) i = body_offsets (data_start sel) sel ! i + length (pc_body (sel ! i))"
      if "i < ?n" for i
      using body_offsets_Suc [OF that, of "data_start sel"] start [of "i + 1"]
      by (cases "i + 1 < ?n") (simp_all add: entry_stop_def entry_start_def length_assemble)
    have le: "body_offsets (data_start sel) sel ! i + length (pc_body (sel ! i)) \<le> length ?b" if "i < ?n" for i
    proof -
      have "concat (map pc_body sel) = concat (map pc_body (take (i + 1) sel)) @ concat (map pc_body (drop (i + 1) sel))"
        by (metis append_take_drop_id concat_append map_append)
      moreover have "take (i + 1) sel = take i sel @ [sel ! i]" using that by (simp add: take_Suc_conv_app_nth)
      ultimately show ?thesis using that by (simp add: body_offsets_nth length_assemble)
    qed
    have first: "u32_at ?header ?o = data_start sel"
      using start [of 0] False by (cases sel) (simp_all add: entry_start_def)
    have entries: "parse_entries ?header ?n 8 ?o (length ?b) [0..<?n]
        = Ok (Some (map (entry ?header ?n 8 ?o (length ?b)) [0..<?n]))"
    proof (subst parse_entries_eval)
      show "8 + ?n * 4 \<le> length ?header" "?o + ?n * 4 \<le> length ?header" using len h(1) ds by simp_all
    qed (auto simp: start stop le)
    have "1 \<le> ?n" using False by (cases sel) simp_all
    then have rd: "?o + 4 \<le> length ?header" using len h(1) ds by simp
    then have "(read_u32 ?header ?o :: nat ires) = Ok (data_start sel)" using first by simp
    then have "parse_dir um ?header (length ?b) = Ok (Some (map (entry ?header ?n 8 ?o (length ?b)) [0..<?n]))"
      using n ck len h False um ds entries rd
      by (simp add: parse_dir_def Let_def add.commute)
    moreover have "map (piece_at ?b 0) (map (entry ?header ?n 8 ?o (length ?b)) [0..<?n]) = sel"
    proof (rule nth_equalityI)
      fix i assume "i < length (map (piece_at ?b 0) (map (entry ?header ?n 8 ?o (length ?b)) [0..<?n]))"
      then have i: "i < ?n" by simp
      have card: "1 \<le> pc_card (sel ! i)" using wf i by (simp add: well_formed_def list_all_length piece_ok_def)
      have key: "u16_at ?header (8 + i * 4) = pc_key (sel ! i)"
        and cd: "u16_at ?header (8 + i * 4 + 2) = pc_card (sel ! i) - 1"
        using assemble_fields(3,4) [OF wf i] f16 [of "8 + i * 4"] f16 [of "8 + i * 4 + 2"] i h(1) ds by simp_all
      have "piece_at ?b 0 (entry ?header ?n 8 ?o (length ?b) i) = Piece (pc_key (sel ! i)) (pc_card (sel ! i)) (pc_body (sel ! i))"
        using key cd card start [OF i] stop [OF i] cut_body [OF i] by (simp add: piece_at_def entry_def)
      then show "map (piece_at ?b 0) (map (entry ?header ?n 8 ?o (length ?b)) [0..<?n]) ! i = sel ! i"
        using i by simp
    qed simp
    ultimately show ?thesis by blast
  qed
qed

lemma needed_header_assembled:
  assumes "well_formed sel" "8 \<le> h" "h \<le> length (assemble sel)" "data_start sel < um"
  shows "needed_header_len um (cut (assemble sel) 0 h) = Some (data_start sel)"
proof -
  have "u32_at (cut (assemble sel) 0 h) 0 = no_run_cookie" "u32_at (cut (assemble sel) 0 h) 4 = length sel"
    using assemble_fields(1,2) [OF assms(1)] u32_at_cut [of 0 h 0 "assemble sel"]
      u32_at_cut [of 4 h 0 "assemble sel"] assms(2,3) by simp_all
  then show ?thesis using assms by (simp add: needed_header_len_def data_start_def)
qed

section \<open>The crate's contract\<close>

text \<open>
  \<open>deser\<close> answers with a message or the bitmap. \<open>deserialize\<close> is the wrapper of
  \<open>rust/src/index.rs\<close> that turns the message into \<open>IndexError::Roaring\<close>.
\<close>

type_synonym deserializer = "bytes \<Rightarrow> string + nat set"

definition deserialize :: "deserializer \<Rightarrow> bytes \<Rightarrow> nat set ires" where
  "deserialize deser bytes = (case deser bytes of Inl m \<Rightarrow> Err (Roaring m) | Inr s \<Rightarrow> Ok s)"

lemma deserialize_no_panic [simp]: "deserialize deser b \<noteq> Panic"
  by (auto simp: deserialize_def split: sum.splits)

lemma deserialize_Ok [simp]: "deserialize deser b = Ok s \<longleftrightarrow> deser b = Inr s"
  by (auto simp: deserialize_def split: sum.splits)

locale roaring =
  fixes deser :: deserializer
    and ser :: "nat set \<Rightarrow> bytes"
  assumes deser_assemble: "well_formed sel \<Longrightarrow> deser (assemble sel) = Inr (docs sel)"
    and deser_bound: "deser b = Inr s \<Longrightarrow> s \<subseteq> {..<U32}"
    and ser_assemble: "s \<subseteq> {..<U32} \<Longrightarrow> \<exists>sel. well_formed sel \<and> docs sel = s \<and> ser s = assemble sel"
begin

lemma deserialize_assemble: "well_formed sel \<Longrightarrow> deserialize deser (assemble sel) = Ok (docs sel)"
  by (simp add: deser_assemble)

lemma deserialize_finite: "deserialize deser b = Ok s \<Longrightarrow> finite s \<and> (\<forall>d \<in> s. d < U32)"
proof -
  assume "deserialize deser b = Ok s"
  then have "s \<subseteq> {..<U32}" using deser_bound [of b s] by simp
  then show ?thesis by (meson finite_lessThan finite_subset lessThan_iff subsetD)
qed

lemma deserialize_ser: "s \<subseteq> {..<U32} \<Longrightarrow> deserialize deser (ser s) = Ok s"
  using ser_assemble [of s] deser_assemble by (auto simp del: deserialize_Ok simp: deserialize_assemble)

end

text \<open>Reference functions written from the format description.\<close>

definition format_decode :: deserializer where
  "format_decode b =
     (case parse_dir U64 b (length b) of
        Ok (Some dir) \<Rightarrow>
          let sel = map (piece_at b 0) dir
          in if well_formed sel then Inr (docs sel) else Inl ''corrupt containers''
      | _ \<Rightarrow> Inl ''corrupt header'')"

definition bitmap_body :: "nat set \<Rightarrow> bytes" where
  "bitmap_body xs = map (\<lambda>i. horner_sum of_bool 2 (map (\<lambda>j. 8 * i + j \<in> xs) [0..<8])) [0..<8192]"

definition encode_body :: "nat list \<Rightarrow> bytes" where
  "encode_body xs = (if length xs \<le> 4096 then concat (map (to_le 2) xs) else bitmap_body (set xs))"

definition encode_piece :: "nat set \<Rightarrow> nat \<Rightarrow> piece" where
  "encode_piece s k =
     (let xs = map (\<lambda>d. d mod 65536) (filter (\<lambda>d. high_key d = k) (sorted_list_of_set s))
      in Piece k (length xs) (encode_body xs))"

definition format_encode :: "nat set \<Rightarrow> bytes" where
  "format_encode s = assemble (map (encode_piece s) (sorted_list_of_set (high_key ` s)))"

lemma container_docs_encode:
  assumes "sorted_wrt (<) xs" "\<forall>x \<in> set xs. x < 65536"
  shows "container_docs (length xs) (encode_body xs) = set xs" "body_ok (length xs) (encode_body xs)"
proof -
  have arr: "u16s (encode_body xs) = xs" if "length xs \<le> 4096"
  proof (rule nth_equalityI)
    have len: "length (concat (map (to_le 2) xs)) = length xs * 2" by (rule concat_rows_length) simp
    show "length (u16s (encode_body xs)) = length xs" using that len by (simp add: encode_body_def u16s_def)
    fix i assume "i < length (u16s (encode_body xs))"
    then have i: "i < length xs" using that len by (simp add: encode_body_def u16s_def)
    have "cut (concat (map (to_le 2) xs)) (i * 2) (i * 2 + 2) = to_le 2 (xs ! i)"
      by (rule cut_concat_row) (use i in simp_all)
    then have "u16_at (concat (map (to_le 2) xs)) (2 * i) = xs ! i"
      using assms(2) nth_mem [OF i] by (simp add: u16_at_def mult.commute from_le_to_le del: to_le.simps)
    then show "u16s (encode_body xs) ! i = xs ! i"
      using that i len by (simp add: encode_body_def u16s_def)
  qed
  have bmp: "{x \<in> {..<65536}. bit (encode_body xs ! (x div 8)) (x mod 8)} = set xs" if "\<not> length xs \<le> 4096"
  proof -
    have "bit (encode_body xs ! (x div 8)) (x mod 8) \<longleftrightarrow> x \<in> set xs" if "x < 65536" for x
    proof -
      have "x div 8 < 8192" using that by simp
      then show ?thesis using \<open>\<not> length xs \<le> 4096\<close>
        by (simp add: encode_body_def bitmap_body_def bit_horner_sum_bit_word_iff)
    qed
    then show ?thesis using assms(2) by auto
  qed
  show docs: "container_docs (length xs) (encode_body xs) = set xs"
    using arr bmp by (simp add: container_docs_def)
  have "distinct xs" using assms(1) by (simp add: strict_sorted_iff)
  then show "body_ok (length xs) (encode_body xs)"
    using docs arr assms(1) concat_rows_length [of xs "to_le 2" 2]
    by (auto simp: body_ok_def distinct_card encode_body_def bitmap_body_def)
qed

lemma encode_piece_docs:
  assumes "s \<subseteq> {..<U32}" "k \<in> high_key ` s"
  shows "piece_ok (encode_piece s k)" "piece_docs (encode_piece s k) = {d \<in> s. high_key d = k}"
    "pc_key (encode_piece s k) = k"
proof -
  have fin: "finite s" using assms(1) finite_subset by auto
  let ?ds = "filter (\<lambda>d. high_key d = k) (sorted_list_of_set s)"
  let ?xs = "map (\<lambda>d. d mod 65536) ?ds"
  have "sorted_wrt (\<lambda>a b. a < b \<and> high_key a = k \<and> high_key b = k) ?ds"
    by (rule sorted_wrt_mono_rel [OF _ sorted_wrt_filter [OF strict_sorted_list_of_set [of s]]]) auto
  then have sorted: "sorted_wrt (<) ?xs"
    unfolding sorted_wrt_map by (rule sorted_wrt_mono_rel [rotated]) (metis div_mult_mod_eq nat_add_left_cancel_less)
  have bound: "\<forall>x \<in> set ?xs. x < 65536" by auto
  note enc = container_docs_encode [OF sorted bound]
  have set_ds: "set ?ds = {d \<in> s. high_key d = k}" using fin by auto
  then have ne: "?xs \<noteq> []" using assms(2) by force
  have k: "k < U16" using assms by auto
  have "distinct ?xs" using sorted by (simp add: strict_sorted_iff)
  then have "length ?xs = card (set ?xs)" by (metis distinct_card)
  also have "\<dots> \<le> card {..<65536 :: nat}" using bound by (intro card_mono) auto
  finally have "length ?xs \<le> 65536" by simp
  then show "piece_ok (encode_piece s k)"
    using enc(2) ne k by (simp add: encode_piece_def Let_def piece_ok_def Suc_le_eq)
  have "piece_docs (encode_piece s k) = (\<lambda>x. k * 65536 + x) ` set ?xs"
    using enc(1) by (simp add: encode_piece_def Let_def piece_docs_def)
  also have "\<dots> = (\<lambda>d. k * 65536 + d mod 65536) ` set ?ds" by (simp add: image_image)
  also have "\<dots> = set ?ds" unfolding set_ds by (auto simp: image_iff) (metis div_mult_mod_eq)+
  finally show "piece_docs (encode_piece s k) = {d \<in> s. high_key d = k}" using set_ds by simp
  show "pc_key (encode_piece s k) = k" by (simp add: encode_piece_def Let_def)
qed

interpretation format: roaring format_decode format_encode
proof
  show "format_decode (assemble sel) = Inr (docs sel)" if wf: "well_formed sel" for sel
  proof -
    have "data_start sel \<le> length (assemble sel)" by (simp add: length_assemble)
    moreover have "data_start sel < U64"
      using assemble_bound(2) [OF wf] calculation by simp
    ultimately obtain dir where "parse_dir U64 (assemble sel) (length (assemble sel)) = Ok (Some dir)"
      "map (piece_at (assemble sel) 0) dir = sel"
      using parse_assembled [OF wf, of "length (assemble sel)" U64] by auto
    then show ?thesis using wf by (simp add: format_decode_def)
  qed
  show "s \<subseteq> {..<U32}" if "format_decode b = Inr s" for b s
  proof -
    obtain sel where "well_formed sel" "s = docs sel"
      using \<open>format_decode b = Inr s\<close> unfolding format_decode_def Let_def
      by (force split: outcome.splits option.splits if_splits)
    then show ?thesis using docs_bound by blast
  qed
  show "\<exists>sel. well_formed sel \<and> docs sel = s \<and> format_encode s = assemble sel" if s: "s \<subseteq> {..<U32}" for s
  proof -
    have fin: "finite s" using s finite_subset by auto
    let ?ks = "sorted_list_of_set (high_key ` s)"
    let ?sel = "map (encode_piece s) ?ks"
    have ks: "k \<in> high_key ` s" if "k \<in> set ?ks" for k using that fin by simp
    have "map pc_key ?sel = ?ks" using encode_piece_docs(3) [OF s] ks by (simp add: map_idI)
    then have "well_formed ?sel"
      using encode_piece_docs(1) [OF s ks] by (simp add: well_formed_def list_all_iff)
    moreover have "docs ?sel = s"
      using encode_piece_docs(2) [OF s ks] fin by (auto simp: docs_def)
    ultimately show ?thesis by (auto simp: format_encode_def)
  qed
qed

section \<open>Bucket keys of a bitmap\<close>

text \<open>\<open>bm.iter()\<close> is ascending, so dropping adjacent repetitions leaves each key once.\<close>

definition distinct_high_keys :: "nat set \<Rightarrow> nat list" where
  "distinct_high_keys bm =
     fst (foldl (\<lambda>(keys, prev) d. let k = high_key d mod U16 in
            if prev \<noteq> Some k then (keys @ [k], Some k) else (keys, prev))
          ([], None) (sorted_list_of_set bm))"

lemma high_keys_fold:
  assumes "sorted ds" "\<forall>d \<in> set ds. d < U32" "sorted_wrt (<) keys"
    and "prev = (if keys = [] then None else Some (last keys))" "\<forall>d \<in> set ds. \<forall>k \<in> set keys. k \<le> high_key d"
  shows "\<exists>ks pr. foldl (\<lambda>(keys, prev) d. let k = high_key d mod U16 in
            if prev \<noteq> Some k then (keys @ [k], Some k) else (keys, prev)) (keys, prev) ds = (ks, pr)
    \<and> sorted_wrt (<) ks \<and> set ks = set keys \<union> high_key ` set ds"
  using assms
proof (induction ds arbitrary: keys prev)
  case Nil
  then show ?case by simp
next
  case (Cons d ds)
  have "high_key d < U16" using Cons.prems(2) by (simp add: less_mult_imp_div_less)
  then have k: "high_key d mod U16 = high_key d" by simp
  have later: "high_key d \<le> high_key e" if "e \<in> set ds" for e
    using Cons.prems(1) that by (simp add: div_le_mono)
  show ?case
  proof (cases "prev = Some (high_key d)")
    case True
    then have "high_key d \<in> set keys" using Cons.prems(4) by (metis last_in_set option.distinct(1) option.inject)
    then show ?thesis using Cons.IH [of keys prev] Cons.prems True k by (simp add: insert_absorb)
  next
    case False
    have "\<forall>x \<in> set keys. x < high_key d"
    proof
      fix x assume x: "x \<in> set keys"
      then have ne: "keys \<noteq> []" by auto
      then have split: "keys = butlast keys @ [last keys]" by simp
      have "last keys < high_key d" using Cons.prems(4,5) False ne by (metis last_in_set le_neq_implies_less list.set_intros(1))
      moreover have "x \<le> last keys"
        using x Cons.prems(3) split by (metis Un_iff empty_iff less_imp_le order_refl set_append set_ConsD list.set(1) sorted_wrt_append list.set_intros(1))
      ultimately show "x < high_key d" by simp
    qed
    then have "sorted_wrt (<) (keys @ [high_key d])" using Cons.prems(3) by (simp add: sorted_wrt_append)
    then show ?thesis
      using Cons.IH [of "keys @ [high_key d]" "Some (high_key d)"] Cons.prems False k later
      by (auto simp: Let_def)
  qed
qed

lemma distinct_high_keys_set:
  assumes "finite bm" "\<forall>d \<in> bm. d < U32"
  shows "set (distinct_high_keys bm) = high_key ` bm" "sorted_wrt (<) (distinct_high_keys bm)"
  using high_keys_fold [of "sorted_list_of_set bm" "[]" None] assms
  by (auto simp: distinct_high_keys_def)

end
