(* ===== verification/RR_Posting.thy ===== *)
theory RR_Posting imports RR_Fetch RR_Roaring begin

text \<open>
  Container-level ranged reads of postings, \<open>rust/src/posting.rs\<close>: \<open>fetch_containers\<close> and
  \<open>read_posting_subset\<close> fetch the containers of the requested buckets only,
  \<open>tail_intersect_and\<close> intersects postings smallest first, and \<open>TailScan\<close> pages the
  intersection (with facet filters and exclusions) bucket window by bucket window.

  The locale \<open>posting_store\<close> joins a fetcher that serves an object with the roaring contract.
  In it every read of a well-formed posting is exact: the documents of the requested buckets.
  In \<open>posting_reader\<close>, which only knows that successful reads are exact, no directory or
  posting makes these functions panic.
\<close>

section \<open>Fetching containers\<close>

definition container_span_step ::
  "nat \<Rightarrow> (nat \<times> nat) list \<times> nat list \<Rightarrow> container \<Rightarrow> ((nat \<times> nat) list \<times> nat list) ires" where
  "container_span_step um st c =
     (let (spans, span_of) = st in
      bind_o (add_p um (c_start c) (c_len c)) (\<lambda>ce.
      bind_o (if spans = [] then Ok False
              else bind_o (add_p um (snd (last spans)) span_gap) (\<lambda>l. Ok (c_start c \<le> l))) (\<lambda>near.
        let spans' = (if near then butlast spans @ [(fst (last spans), ce)] else spans @ [(c_start c, ce)])
        in Ok (spans', span_of @ [length spans' - 1]))))"

definition select_body ::
  "(nat \<times> nat) list \<Rightarrow> nat list \<Rightarrow> bytes list \<Rightarrow> nat \<times> container \<Rightarrow> piece ires" where
  "select_body spans span_of span_bytes = (\<lambda>(i, c).
     bind_o (nth_p span_of i) (\<lambda>k. bind_o (nth_p spans k) (\<lambda>(s, _).
     bind_o (sub_p (c_start c) s) (\<lambda>rel. bind_o (nth_p span_bytes k) (\<lambda>d.
     bind_o (cut_p d rel (rel + c_len c)) (\<lambda>body.
     Ok (Piece (c_key c) (c_card c) body)))))))"

definition fetch_containers ::
  "nat \<Rightarrow> deserializer \<Rightarrow> range_read \<Rightarrow> nat \<Rightarrow> container list \<Rightarrow> nat set ires" where
  "fetch_containers um deser f off needed =
     (if needed = [] then Ok {}
      else
        bind_o (foldM_o (container_span_step um) ([], []) needed) (\<lambda>(spans, span_of).
        bind_o (wave (\<lambda>(s, e). bind_o (add_p U64 off s) (\<lambda>o'. bind_o (sub_p e s) (rd f o'))) spans) (\<lambda>span_bytes.
        bind_o (mapM_o (select_body spans span_of span_bytes) (enumerate 0 needed)) (\<lambda>sel.
        deserialize deser (assemble sel)))))"

definition in_keys :: "nat list \<Rightarrow> container \<Rightarrow> bool" where
  "in_keys keys c = found (bsearch keys (c_key c))"

definition read_posting_subset ::
  "nat \<Rightarrow> deserializer \<Rightarrow> range_read \<Rightarrow> nat \<Rightarrow> nat \<Rightarrow> nat list \<Rightarrow> nat set ires" where
  "read_posting_subset um deser f off len keys =
     bind_o (rd f off (min len header_prefix)) (\<lambda>prefix.
       if length prefix \<ge> len then deserialize deser prefix
       else
         let full = bind_o (rd f off len) (deserialize deser) in
         (case needed_header_len um prefix of
            None \<Rightarrow> full
          | Some hl \<Rightarrow>
              bind_o (if hl \<le> length prefix then Ok prefix else rd f off hl) (\<lambda>header.
              bind_o (parse_dir um header len) (\<lambda>d.
                case d of
                  None \<Rightarrow> full
                | Some dir \<Rightarrow> fetch_containers um deser f off (filter (in_keys keys) dir)))))"

definition fetch_head_prefix ::
  "nat \<Rightarrow> deserializer \<Rightarrow> range_read \<Rightarrow> nat \<Rightarrow> nat \<Rightarrow> nat \<Rightarrow> nat set ires" where
  "fetch_head_prefix um deser f off len eager_buckets =
     map_ok (\<lambda>bm. {d \<in> bm. d < eager_buckets * 65536})
       (read_posting_subset um deser f off len [0..<eager_buckets])"

definition posting_cardinality ::
  "nat \<Rightarrow> deserializer \<Rightarrow> range_read \<Rightarrow> nat \<Rightarrow> nat \<Rightarrow> nat ires" where
  "posting_cardinality um deser f off len =
     bind_o (rd f off (min len header_prefix)) (\<lambda>prefix.
       if length prefix \<ge> len then map_ok card (deserialize deser prefix)
       else bind_o (read_u32 prefix 0) (\<lambda>cookie.
         if cookie \<noteq> no_run_cookie then
           bind_o (rd f off len) (\<lambda>b. map_ok card (deserialize deser b))
         else bind_o (read_u32 prefix 4) (\<lambda>sz.
           let bad = Err (Malformed ''posting descriptive header out of range'') in
           (case Option.bind (checked_mul um sz 4) (\<lambda>n. checked_add um n 8) of
              None \<Rightarrow> bad
            | Some d \<Rightarrow>
                if d > len then bad
                else bind_o (if d \<le> length prefix then Ok prefix else rd f off d) (\<lambda>desc.
                  map_ok sum_list
                    (mapM_o (\<lambda>i. map_ok (\<lambda>c. c + 1) (read_u16 desc (8 + i * 4 + 2))) [0..<sz]))))))"

section \<open>Whole intersections\<close>

fun tail_and_loop ::
  "nat \<Rightarrow> deserializer \<Rightarrow> range_read \<Rightarrow> (nat \<times> nat) list \<Rightarrow> nat set \<Rightarrow> nat list \<Rightarrow> nat set ires" where
  "tail_and_loop um deser f tails running [] = Ok running"
| "tail_and_loop um deser f tails running (i # is) =
     (if running = {} then Ok running
      else let (off, len) = tails ! i; keys = distinct_high_keys running in
        bind_o (read_posting_subset um deser f off len keys) (\<lambda>b.
        tail_and_loop um deser f tails (running \<inter> b) is))"

definition tail_intersect_and ::
  "nat \<Rightarrow> deserializer \<Rightarrow> range_read \<Rightarrow> (nat \<times> nat) list \<Rightarrow> nat set ires" where
  "tail_intersect_and um deser f tails =
     (case sort_key (\<lambda>i. snd (tails ! i)) [0..<length tails] of
        [] \<Rightarrow> Ok {}
      | i # is \<Rightarrow>
          let (off0, len0) = tails ! i in
          bind_o (bind_o (rd f off0 len0) (deserialize deser)) (\<lambda>running.
          tail_and_loop um deser f tails running is))"

section \<open>Exactness of a container fetch\<close>

lemma container_span_near:
  assumes "spans = [] \<or> snd (last spans) \<le> c_start c" "near \<longrightarrow> spans \<noteq> []"
  shows "(if near then butlast spans @ [(fst (last spans), c_start c + c_len c)] else spans @ [(c_start c, c_start c + c_len c)])
    = span_step (\<lambda>l s. near) spans (c_start c) (c_start c + c_len c)"
proof (cases "near \<and> c_len c = 0 \<and> snd (last spans) = c_start c")
  case True
  then have ne: "spans \<noteq> []" using assms(2) by simp
  then have "butlast spans @ [(fst (last spans), c_start c)] = spans"
    using True by (metis append_butlast_last_id prod.collapse)
  then show ?thesis using True ne by (simp add: span_step_def)
next
  case False
  then show ?thesis using assms by (auto simp: span_step_def)
qed

text \<open>The loop invariant of the span builder over containers in order.\<close>

definition spans_inv :: "nat \<Rightarrow> container list \<Rightarrow> (nat \<times> nat) list \<Rightarrow> nat list \<Rightarrow> bool" where
  "spans_inv tot cs spans so \<longleftrightarrow> length so = length cs
     \<and> (\<forall>i < length cs. covers spans (so ! i) (c_start (cs ! i)) (c_start (cs ! i) + c_len (cs ! i)))
     \<and> (\<forall>(s, e) \<in> set spans. s \<le> e \<and> e \<le> tot)
     \<and> (spans \<noteq> [] \<longrightarrow> cs \<noteq> [] \<and> snd (last spans) \<le> c_start (last cs) + c_len (last cs))"

lemma span_step_set:
  assumes "\<forall>(s, e) \<in> set spans. s \<le> e \<and> e \<le> tot" "s \<le> e" "e \<le> tot" "spans \<noteq> [] \<Longrightarrow> fst (last spans) \<le> s"
  shows "\<forall>(a, b) \<in> set (span_step near spans s e). a \<le> b \<and> b \<le> tot"
  using assms by (cases spans rule: rev_cases) (auto simp: span_step_def)

lemma container_span_step_inv:
  assumes inv: "spans_inv tot cs spans so" and c: "c_start c + c_len c \<le> tot"
    and after: "cs \<noteq> [] \<Longrightarrow> c_start (last cs) + c_len (last cs) \<le> c_start c"
    and um: "tot + span_gap < um"
  shows "\<exists>spans' so'. container_span_step um (spans, so) c = Ok (spans', so') \<and> spans_inv tot (cs @ [c]) spans' so'"
proof -
  define near where "near \<longleftrightarrow> spans \<noteq> [] \<and> c_start c \<le> snd (last spans) + span_gap"
  let ?spans = "span_step (\<lambda>l s. near) spans (c_start c) (c_start c + c_len c)"
  let ?so = "so @ [length ?spans - 1]"
  have last_le: "spans \<noteq> [] \<Longrightarrow> snd (last spans) \<le> tot \<and> fst (last spans) \<le> snd (last spans)"
    using inv last_in_set [of spans] by (cases "last spans") (auto simp: spans_inv_def)
  have before: "spans = [] \<or> snd (last spans) \<le> c_start c"
    using inv after by (auto simp: spans_inv_def)
  have fst_le: "spans \<noteq> [] \<Longrightarrow> fst (last spans) \<le> c_start c" using before last_le by auto
  have "(if spans = [] then Ok False
      else bind_o (add_p um (snd (last spans)) span_gap) (\<lambda>l. Ok (c_start c \<le> l))) = (Ok near :: bool ires)"
    using last_le um by (auto simp: near_def)
  then have step: "container_span_step um (spans, so) c = Ok (?spans, ?so)"
    using c um container_span_near [OF before, of near]
    by (simp add: container_span_step_def Let_def near_def)
  have "spans_inv tot (cs @ [c]) ?spans ?so"
    unfolding spans_inv_def
  proof (intro conjI allI impI)
    show "length ?so = length (cs @ [c])" using inv by (simp add: spans_inv_def)
    show "covers ?spans (?so ! i) (c_start ((cs @ [c]) ! i)) (c_start ((cs @ [c]) ! i) + c_len ((cs @ [c]) ! i))"
      if "i < length (cs @ [c])" for i
      using inv that span_step_covers_old span_step_covers_new [OF fst_le, where e = "c_start c + c_len c"]
      by (cases "i = length cs") (auto simp: spans_inv_def nth_append)
    show "\<forall>(s, e) \<in> set ?spans. s \<le> e \<and> e \<le> tot"
      by (rule span_step_set) (use inv c fst_le in \<open>auto simp: spans_inv_def\<close>)
    show "snd (last ?spans) \<le> c_start (last (cs @ [c])) + c_len (last (cs @ [c]))"
      using before by (cases spans rule: rev_cases) (auto simp: span_step_def)
  qed simp
  with step show ?thesis by blast
qed

lemma container_spans:
  assumes "dir_ok tot needed" "tot + span_gap < um"
  shows "\<exists>spans so. foldM_o (container_span_step um) ([], []) needed = Ok (spans, so) \<and> spans_inv tot needed spans so"
proof -
  have "\<exists>spans' so'. foldM_o (container_span_step um) (spans, so) rest = Ok (spans', so') \<and> spans_inv tot (cs @ rest) spans' so'"
    if "spans_inv tot cs spans so" "dir_ok tot (cs @ rest)" for cs rest spans so
    using that
  proof (induction rest arbitrary: cs spans so)
    case Nil
    then show ?case by simp
  next
    case (Cons c rest)
    have "c_start c + c_len c \<le> tot" using Cons.prems(2) by (simp add: dir_ok_def)
    moreover have "c_start (last cs) + c_len (last cs) \<le> c_start c" if "cs \<noteq> []"
      using Cons.prems(2) that by (simp add: dir_ok_def sorted_wrt_append)
    ultimately obtain spans1 so1 where "container_span_step um (spans, so) c = Ok (spans1, so1)"
      and inv1: "spans_inv tot (cs @ [c]) spans1 so1"
      using container_span_step_inv [OF Cons.prems(1) _ _ assms(2)] by blast
    then show ?case using Cons.IH [OF inv1] Cons.prems(2) by simp
  qed
  from this [of "[]" "[]" "[]" needed] show ?thesis using assms(1) by (simp add: spans_inv_def)
qed

context bounded_fetch
begin

lemma select_body_exact:
  assumes inv: "spans_inv tot cs spans so"
    and datas: "wave (\<lambda>(s, e). bind_o (add_p U64 off s) (\<lambda>o'. bind_o (sub_p e s) (rd fetch o'))) spans = Ok ds"
    and i: "i < length cs"
  shows "select_body spans so ds (i, cs ! i) = Ok (piece_at content off (cs ! i))"
proof -
  let ?c = "cs ! i" and ?k = "so ! i"
  have cov: "covers spans ?k (c_start ?c) (c_start ?c + c_len ?c)" and so: "i < length so"
    using inv i by (simp_all add: spans_inv_def)
  obtain a b where ab: "spans ! ?k = (a, b)" by fastforce
  have k: "?k < length spans" and le: "a \<le> c_start ?c" "c_start ?c + c_len ?c \<le> b"
    using cov ab by (simp_all add: covers_def)
  have len: "length ds = length spans" using wave_Ok_length [OF datas] by simp
  have "rd fetch (off + a) (b - a) = Ok (ds ! ?k)"
    using wave_Ok_nth [OF datas k] ab by (auto simp: outcome_simps)
  then have d: "length (ds ! ?k) = b - a" "ds ! ?k = cut content (off + a) (off + a + (b - a))"
    and within: "0 < b - a \<Longrightarrow> off + a + (b - a) \<le> length content"
    using rd_exact rd_within by blast+
  have ba: "off + a + (b - a) = off + b" using le by simp
  let ?rel = "c_start ?c - a"
  have body: "cut (ds ! ?k) ?rel (?rel + c_len ?c) = cut content (off + c_start ?c) (off + c_start ?c + c_len ?c)"
  proof (cases "b = a")
    case True
    then have "c_len ?c = 0" using le by linarith
    then show ?thesis by simp
  next
    case False
    then have "off + b \<le> length content" using within le ba by simp
    moreover have "?rel + c_len ?c \<le> off + b - (off + a)" using le by simp
    ultimately have "cut (cut content (off + a) (off + b)) ?rel (?rel + c_len ?c)
        = cut content (off + a + ?rel) (off + a + (?rel + c_len ?c))"
      by (intro cut_cut)
    moreover have "off + a + ?rel = off + c_start ?c" "off + a + (?rel + c_len ?c) = off + c_start ?c + c_len ?c"
      using le by simp_all
    ultimately show ?thesis using d(2) ba by (simp add: add.assoc)
  qed
  have "?rel + c_len ?c \<le> length (ds ! ?k)" using d(1) le by simp
  then show ?thesis
    using so k ab le len body by (simp add: select_body_def piece_at_def)
qed

lemma fetch_containers_cases:
  assumes "dir_ok tot needed" "tot + span_gap < um" "off + tot < U64" "tot < 2 ^ 40"
  shows "(\<exists>e. fetch_containers um deser fetch off needed = Err e)
    \<or> fetch_containers um deser fetch off needed
        = (if needed = [] then Ok {} else deserialize deser (assemble (map (piece_at content off) needed)))"
proof (cases "needed = []")
  case True
  then show ?thesis by (simp add: fetch_containers_def)
next
  case False
  obtain spans so where sp: "foldM_o (container_span_step um) ([], []) needed = Ok (spans, so)"
    and inv: "spans_inv tot needed spans so"
    using container_spans [OF assms(1,2)] by blast
  let ?read = "\<lambda>(s, e). bind_o (add_p U64 off s) (\<lambda>o'. bind_o (sub_p e s) (rd fetch o'))"
  have "wave ?read spans \<noteq> Panic"
  proof (rule wave_not_Panic)
    fix x assume x: "x \<in> set spans"
    obtain s e where se: "x = (s, e)" by fastforce
    have "s \<le> e" "e \<le> tot" using inv x se by (auto simp: spans_inv_def)
    then have "fetch (off + s) (e - s) \<noteq> Panic" using assms(4) by (intro fetch_bounded) simp
    then show "?read x \<noteq> Panic" using se assms(3) \<open>s \<le> e\<close> \<open>e \<le> tot\<close> by (simp add: outcome_simps)
  qed
  then consider (err) e where "wave ?read spans = Err e" | (ok) ds where "wave ?read spans = Ok ds"
    by (cases "wave ?read spans") auto
  then show ?thesis
  proof cases
    case err
    then show ?thesis using sp False by (simp add: fetch_containers_def)
  next
    case ok
    have "mapM_o (select_body spans so ds) (enumerate 0 needed)
        = Ok (map (\<lambda>(i, c). piece_at content off c) (enumerate 0 needed))"
    proof (rule mapM_o_map)
      fix x assume "x \<in> set (enumerate 0 needed)"
      then obtain i where "x = (i, needed ! i)" "i < length needed"
        by (auto simp: in_set_enumerate_eq) (metis prod.collapse)
      then show "select_body spans so ds x = Ok (case x of (i, c) \<Rightarrow> piece_at content off c)"
        using select_body_exact [OF inv ok] by simp
    qed
    moreover have "map (\<lambda>(i, c). piece_at content off c) (enumerate 0 needed) = map (piece_at content off) needed"
      by (rule nth_equalityI) (auto simp: nth_enumerate_eq)
    ultimately show ?thesis using sp ok False by (simp add: fetch_containers_def)
  qed
qed

end

context full_fetch
begin

lemma fetch_containers_ok:
  assumes "dir_ok tot needed" "tot + span_gap < um" "off + tot \<le> length content" "length content < lim" "length content < U64"
  shows "fetch_containers um deser fetch off needed
        = (if needed = [] then Ok {} else deserialize deser (assemble (map (piece_at content off) needed)))"
proof (cases "needed = []")
  case True
  then show ?thesis by (simp add: fetch_containers_def)
next
  case False
  obtain spans so where sp: "foldM_o (container_span_step um) ([], []) needed = Ok (spans, so)"
    and inv: "spans_inv tot needed spans so"
    using container_spans [OF assms(1,2)] by blast
  let ?read = "\<lambda>(s, e). bind_o (add_p U64 off s) (\<lambda>o'. bind_o (sub_p e s) (rd fetch o'))"
  have ok: "wave ?read spans = Ok (map (\<lambda>(s, e). cut content (off + s) (off + s + (e - s))) spans)"
  proof (rule wave_map)
    fix x assume x: "x \<in> set spans"
    obtain s e where se: "x = (s, e)" by fastforce
    have "s \<le> e" "e \<le> tot" using inv x se by (auto simp: spans_inv_def)
    then show "?read x = Ok (case x of (s, e) \<Rightarrow> cut content (off + s) (off + s + (e - s)))"
      using se assms(3-5) rd_ok [of "off + s" "e - s"] by (simp del: rd_Ok_iff)
  qed
  have "mapM_o (select_body spans so (map (\<lambda>(s, e). cut content (off + s) (off + s + (e - s))) spans)) (enumerate 0 needed)
      = Ok (map (\<lambda>(i, c). piece_at content off c) (enumerate 0 needed))"
  proof (rule mapM_o_map)
    fix x assume "x \<in> set (enumerate 0 needed)"
    then obtain i where "x = (i, needed ! i)" "i < length needed"
      by (auto simp: in_set_enumerate_eq) (metis prod.collapse)
    then show "select_body spans so (map (\<lambda>(s, e). cut content (off + s) (off + s + (e - s))) spans) x
        = Ok (case x of (i, c) \<Rightarrow> piece_at content off c)"
      using select_body_exact [OF inv ok] by simp
  qed
  moreover have "map (\<lambda>(i, c). piece_at content off c) (enumerate 0 needed) = map (piece_at content off) needed"
    by (rule nth_equalityI) (auto simp: nth_enumerate_eq)
  ultimately show ?thesis using sp ok False by (simp add: fetch_containers_def)
qed

end

section \<open>No posting makes a read panic\<close>

text \<open>
  A \<open>(offset, length)\<close> of an \<open>n\<close>-byte object that the callers may pass: its length leaves
  room for the span gap in a \<open>usize\<close>, a buffer of it can be allocated, and if it starts inside the
  object its end fits \<open>u64\<close>.
\<close>

definition range_fits :: "nat \<Rightarrow> nat \<Rightarrow> nat \<times> nat \<Rightarrow> bool" where
  "range_fits um n = (\<lambda>(off, len). len + span_gap < um \<and> len < 2 ^ 40 \<and> (off \<le> n \<longrightarrow> off + len < U64))"

lemma needed_header_len_bound:
  assumes "needed_header_len um b = Some n"
  shows "n < 2 ^ 40"
proof -
  have "n = u32_at b 4 * 8 + 8" using assms by (auto simp: needed_header_len_def bind_eq_Some_conv split: if_splits)
  also have "\<dots> < U32 * 8 + 8" by (intro add_strict_right_mono mult_strict_right_mono u32_at_less) simp
  also have "\<dots> < 2 ^ 40" by simp
  finally show ?thesis .
qed

context bounded_fetch
begin

lemma read_full_no_panic: "len < 2 ^ 40 \<Longrightarrow> bind_o (rd fetch off len) (deserialize deser) \<noteq> Panic"
  using fetch_bounded by (simp add: outcome_simps)

lemma fetch_containers_no_panic:
  assumes "dir_ok tot needed" "tot + span_gap < um" "off + tot < U64" "tot < 2 ^ 40"
  shows "fetch_containers um deser fetch off needed \<noteq> Panic"
  using fetch_containers_cases [OF assms, of deser] by (auto split: if_splits)

lemma read_posting_subset_no_panic:
  assumes "range_fits um (length content) (off, len)"
  shows "read_posting_subset um deser fetch off len keys \<noteq> Panic"
proof (cases "rd fetch off (min len header_prefix)")
  case (Ok prefix)
  show ?thesis
  proof (cases "length prefix \<ge> len")
    case True
    then show ?thesis using Ok by (simp add: read_posting_subset_def del: rd_Ok_iff)
  next
    case False
    then have "off + min len header_prefix \<le> length content"
      using fetch_within [of off "min len header_prefix" prefix] Ok by (auto simp: header_prefix_def)
    then have fit: "off + len < U64" "len + span_gap < um" "len < 2 ^ 40" using assms by (auto simp: range_fits_def)
    have containers: "fetch_containers um deser fetch off (filter (in_keys keys) dir) \<noteq> Panic"
      if "parse_dir um header len = Ok (Some dir)" for header dir
      by (rule fetch_containers_no_panic [OF dir_ok_filter [OF parse_dir_ok [OF that]] fit(2,1,3)])
    show ?thesis
      using containers read_full_no_panic [OF fit(3)] fetch_bounded [OF needed_header_len_bound] parse_dir_no_panic Ok False
      by (auto simp: read_posting_subset_def Let_def bind_o_Panic_iff split: option.splits)
  qed
next
  case Panic
  moreover have "rd fetch off (min len header_prefix) \<noteq> Panic" by (rule rd_bounded) (simp add: header_prefix_def min_def)
  ultimately show ?thesis by simp
qed (simp add: read_posting_subset_def)

lemma posting_cardinality_no_panic:
  assumes "len < 2 ^ 40"
  shows "posting_cardinality um deser fetch off len \<noteq> Panic"
proof -
  have np: "fetch off n \<noteq> Panic" if "n \<le> len" for n using that assms by (intro fetch_bounded) simp
  have "mapM_o (\<lambda>i. map_ok (\<lambda>c. c + 1) (read_u16 desc (8 + i * 4 + 2))) [0..<sz] \<noteq> (Panic :: nat list ires)"
    if "8 + sz * 4 \<le> length desc" for desc sz
    by (rule mapM_o_not_Panic) (use that in auto)
  note sum = this
  have plen: "length prefix = min len header_prefix" if "fetch off (min len header_prefix) = Ok prefix" for prefix
    using fetch_length [OF that] .
  have dlen: "length d = n" if "fetch off n = Ok d" for n d
    using fetch_length [OF that] .
  show ?thesis
    using np sum
    by (auto simp: posting_cardinality_def Let_def bind_o_Panic_iff header_prefix_def bind_eq_Some_conv
        dest!: plen dlen split: option.splits if_splits)
qed

lemma tail_and_loop_no_panic:
  assumes "\<forall>i \<in> set is. range_fits um (length content) (tails ! i)"
  shows "tail_and_loop um deser fetch tails running is \<noteq> Panic"
  using assms
proof (induction "is" arbitrary: running)
  case Nil
  then show ?case by simp
next
  case (Cons i rest)
  obtain off len where t: "tails ! i = (off, len)" by fastforce
  have "read_posting_subset um deser fetch off len (distinct_high_keys running) \<noteq> Panic"
    by (rule read_posting_subset_no_panic) (use Cons.prems t in simp)
  then show ?case using Cons t by (simp add: outcome_simps)
qed

lemma tail_intersect_no_panic:
  assumes "\<forall>t \<in> set tails. range_fits um (length content) t"
  shows "tail_intersect_and um deser fetch tails \<noteq> Panic"
proof (cases "sort_key (\<lambda>i. snd (tails ! i)) [0..<length tails]")
  case Nil
  then show ?thesis by (simp add: tail_intersect_and_def)
next
  case (Cons i rest)
  have "set (i # rest) = {0..<length tails}" by (metis Cons set_sort set_upt)
  then have "\<forall>j \<in> set rest. tails ! j \<in> set tails"
    by (metis atLeastLessThan_iff list.set_intros(2) nth_mem)
  then have "tail_and_loop um deser fetch tails running rest \<noteq> Panic" for running
    using assms by (intro tail_and_loop_no_panic) blast
  moreover have "snd (tails ! i) < 2 ^ 40"
  proof -
    have "i < length tails" using Cons by (metis list.set_intros(1) set_sort atLeastLessThan_iff set_upt)
    then show ?thesis using assms nth_mem [of i tails] by (auto simp: range_fits_def case_prod_beta)
  qed
  ultimately show ?thesis
    using Cons read_full_no_panic
    by (auto simp: tail_intersect_and_def Let_def bind_o_Panic_iff split: prod.splits)
qed

end

context range_fetch
begin

lemma read_full_total: "bind_o (rd fetch off len) (deserialize deser) \<noteq> Panic"
  using fetch_no_panic by (simp add: outcome_simps)

end

section \<open>Reads of well-formed postings\<close>

text \<open>
  The posting \<open>sel\<close> is stored at \<open>off\<close>, \<open>len\<close> bytes long, in an object that the
  fetcher can address to its end (with room for the span gap in a \<open>usize\<close>).
\<close>

definition stored :: "bytes \<Rightarrow> piece list \<Rightarrow> nat \<Rightarrow> nat \<Rightarrow> bool" where
  "stored content sel off len \<longleftrightarrow>
     well_formed sel \<and> off + len \<le> length content \<and> cut content off (off + len) = assemble sel"

definition addressable :: "nat \<Rightarrow> nat \<Rightarrow> bytes \<Rightarrow> bool" where
  "addressable um lim content \<longleftrightarrow>
     length content < lim \<and> length content + span_gap < um \<and> length content < U64"

locale posting_store = full_fetch fetch content lim + roaring deser ser
  for fetch content lim deser ser +
  fixes um :: nat
begin

definition holds :: "piece list \<Rightarrow> nat \<Rightarrow> nat \<Rightarrow> bool" where
  "holds sel off len \<longleftrightarrow> addressable um lim content \<and> stored content sel off len"

lemma holds_iff:
  "holds sel off len \<longleftrightarrow> addressable um lim content \<and> well_formed sel \<and> off + len \<le> length content
     \<and> cut content off (off + len) = assemble sel"
  by (simp add: holds_def stored_def)

lemma holds_length: "holds sel off len \<Longrightarrow> len = length (assemble sel)"
  by (metis add_diff_cancel_left' holds_iff length_cut)

lemma read_ok:
  "addressable um lim content \<Longrightarrow> off + n \<le> length content \<Longrightarrow> rd fetch off n = Ok (cut content off (off + n))"
  by (intro rd_ok) (simp_all add: addressable_def)

lemma holds_prefix:
  assumes "holds sel off len" "n \<le> len"
  shows "rd fetch off n = Ok (cut (assemble sel) 0 n)"
proof -
  have "cut (cut content off (off + len)) 0 n = cut content (off + 0) (off + n)"
    by (rule cut_cut) (use assms in \<open>auto simp: holds_iff\<close>)
  then show ?thesis using read_ok [of off n] assms by (simp add: holds_iff)
qed

lemma holds_whole:
  assumes "holds sel off len"
  shows "rd fetch off len = Ok (assemble sel)"
  using holds_prefix [OF assms order_refl] holds_length [OF assms] by simp

lemma holds_piece_at:
  assumes "holds sel off len" "dir_ok len dir"
  shows "map (piece_at content off) dir = map (piece_at (assemble sel) 0) dir"
proof (rule map_cong [OF refl])
  fix c assume "c \<in> set dir"
  then have "c_start c + c_len c \<le> len" using assms(2) by (simp add: dir_ok_def)
  then have "cut (cut content off (off + len)) (c_start c) (c_start c + c_len c)
      = cut content (off + c_start c) (off + (c_start c + c_len c))"
    using assms(1) by (intro cut_cut) (auto simp: holds_iff)
  then show "piece_at content off c = piece_at (assemble sel) 0 c"
    using assms(1) by (simp add: piece_at_def holds_iff add.assoc)
qed

lemma filter_in_keys:
  assumes "map (piece_at b off) dir = sel" "sorted keys"
  shows "map (piece_at b off) (filter (in_keys keys) dir) = filter (\<lambda>p. pc_key p \<in> set keys) sel"
proof -
  have "in_keys keys = (\<lambda>c. c_key c \<in> set keys)"
    using found_bsearch [OF assms(2)] by (simp add: fun_eq_iff in_keys_def)
  then show ?thesis using assms(1) by (auto simp: filter_map comp_def piece_at_def)
qed

lemma fetch_selected:
  assumes pieces: "map (piece_at content off) dir = sel" and wf: "well_formed sel"
    and ok: "dir_ok tot dir" "off + tot \<le> length content" and keys: "sorted keys"
    and addr: "addressable um lim content"
  shows "fetch_containers um deser fetch off (filter (in_keys keys) dir) = Ok {d \<in> docs sel. high_key d \<in> set keys}"
proof -
  let ?sel = "filter (\<lambda>p. pc_key p \<in> set keys) sel"
  have eq: "map (piece_at content off) (filter (in_keys keys) dir) = ?sel"
    by (rule filter_in_keys [OF pieces keys])
  have docs: "docs ?sel = {d \<in> docs sel. high_key d \<in> set keys}" by (rule docs_filter)
  have "tot + span_gap < um" "length content < lim" "length content < U64" using ok(2) addr by (auto simp: addressable_def)
  note f = fetch_containers_ok [OF dir_ok_filter [OF ok(1)] this(1) ok(2) this(2,3), of deser "in_keys keys"]
  show ?thesis
  proof (cases "filter (in_keys keys) dir = []")
    case True
    then have "?sel = []" using eq by simp
    then have "docs ?sel = {}" by (simp add: docs_def)
    then show ?thesis unfolding f docs [symmetric] using True by simp
  next
    case False
    then show ?thesis unfolding f docs [symmetric] using eq deserialize_assemble [OF well_formed_filter [OF wf]] by simp
  qed
qed

lemma read_subset:
  assumes h: "holds sel off len" and keys: "sorted keys"
  shows "read_posting_subset um deser fetch off len keys
    = Ok (if len \<le> header_prefix then docs sel else {d \<in> docs sel. high_key d \<in> set keys})"
proof -
  have wf: "well_formed sel" and bound: "off + len \<le> length content" and addr: "addressable um lim content"
    using h by (simp_all add: holds_iff)
  have len: "len = length (assemble sel)" by (rule holds_length [OF h])
  have ds: "data_start sel \<le> len" by (simp add: len length_assemble)
  have um: "data_start sel < um" "len + span_gap < um" using ds bound addr by (simp_all add: addressable_def)
  let ?pre = "cut (assemble sel) 0 (min len header_prefix)"
  have prefix: "rd fetch off (min len header_prefix) = Ok ?pre" by (rule holds_prefix [OF h]) simp
  have plen: "length ?pre = min len header_prefix" by (simp add: len)
  show ?thesis
  proof (cases "len \<le> header_prefix")
    case True
    then show ?thesis
      using prefix plen len deserialize_assemble [OF wf]
      by (simp add: read_posting_subset_def del: rd_Ok_iff deserialize_Ok)
  next
    case False
    then have p: "?pre = cut (assemble sel) 0 header_prefix" "length ?pre = header_prefix" using plen by simp_all
    have needed: "needed_header_len um ?pre = Some (data_start sel)"
      unfolding p(1) by (rule needed_header_assembled [OF wf _ _ um(1)]) (use False len in \<open>auto simp: header_prefix_def\<close>)
    define hl where "hl = (if data_start sel \<le> header_prefix then header_prefix else data_start sel)"
    have hl: "data_start sel \<le> hl" "hl \<le> length (assemble sel)" using False len ds by (auto simp: hl_def)
    obtain dir where dir: "parse_dir um (cut (assemble sel) 0 hl) len = Ok (Some dir)"
      "map (piece_at (assemble sel) 0) dir = sel"
      using parse_assembled [OF wf hl um(1)] len by auto
    have ok: "dir_ok len dir" by (rule parse_dir_ok [OF dir(1)])
    have pieces: "map (piece_at content off) dir = sel"
      using holds_piece_at [OF h ok] dir(2) by simp
    note sel = fetch_selected [OF pieces wf ok bound keys addr]
    show ?thesis
    proof (cases "data_start sel \<le> header_prefix")
      case True
      then have "hl = header_prefix" by (simp add: hl_def)
      then show ?thesis
        using prefix p False needed dir(1) sel True
        by (simp add: read_posting_subset_def Let_def del: rd_Ok_iff deserialize_Ok)
    next
      case big: False
      then have "hl = data_start sel" by (simp add: hl_def)
      then show ?thesis
        using prefix p(2) False needed dir(1) sel big holds_prefix [OF h ds]
        by (simp add: read_posting_subset_def Let_def del: rd_Ok_iff deserialize_Ok)
    qed
  qed
qed

lemma head_prefix:
  assumes "holds sel off len"
  shows "fetch_head_prefix um deser fetch off len n = Ok {d \<in> docs sel. d < n * 65536}"
proof -
  have "high_key d < n \<longleftrightarrow> d < n * 65536" for d
    by (simp add: less_mult_imp_div_less div_less_iff_less_mult)
  then show ?thesis
    by (auto simp: fetch_head_prefix_def read_subset [OF assms sorted_upt])
qed

lemma tail_loop:
  assumes "\<forall>i \<in> set is. holds (sels ! i) (fst (tails ! i)) (snd (tails ! i))"
    and "finite running" "\<forall>d \<in> running. d < U32"
  shows "tail_and_loop um deser fetch tails running is = Ok (running \<inter> (\<Inter>i \<in> set is. docs (sels ! i)))"
  using assms
proof (induction "is" arbitrary: running)
  case Nil
  then show ?case by simp
next
  case (Cons i rest)
  show ?case
  proof (cases "running = {}")
    case True
    then show ?thesis by simp
  next
    case False
    obtain off len where t: "tails ! i = (off, len)" by fastforce
    have h: "holds (sels ! i) off len" using Cons.prems(1) t by simp
    note hk = distinct_high_keys_set [OF Cons.prems(2,3)]
    have sorted: "sorted (distinct_high_keys running)" using hk(2) by (simp add: strict_sorted_imp_sorted)
    let ?b = "if len \<le> header_prefix then docs (sels ! i) else {d \<in> docs (sels ! i). high_key d \<in> set (distinct_high_keys running)}"
    have "running \<inter> ?b = running \<inter> docs (sels ! i)" using hk(1) by auto
    then have "tail_and_loop um deser fetch tails running (i # rest)
        = tail_and_loop um deser fetch tails (running \<inter> docs (sels ! i)) rest"
      using False t read_subset [OF h sorted] by simp
    also have "\<dots> = Ok (running \<inter> docs (sels ! i) \<inter> (\<Inter>i \<in> set rest. docs (sels ! i)))"
      by (rule Cons.IH) (use Cons.prems in auto)
    finally show ?thesis by (simp add: Int_assoc)
  qed
qed

lemma tail_and:
  assumes "length sels = length tails"
    and "\<forall>i < length tails. holds (sels ! i) (fst (tails ! i)) (snd (tails ! i))"
  shows "tail_intersect_and um deser fetch tails = Ok (if sels = [] then {} else \<Inter>(docs ` set sels))"
proof (cases "sort_key (\<lambda>i. snd (tails ! i)) [0..<length tails]")
  case Nil
  then have "set [0..<length tails] = {}" by (metis set_sort set_empty)
  then have "tails = []" by simp
  then show ?thesis using assms(1) by (simp add: tail_intersect_and_def)
next
  case (Cons i rest)
  have all: "insert i (set rest) = {..<length tails}" by (metis Cons atLeast_upt list.simps(15) set_sort)
  obtain off len where t: "tails ! i = (off, len)" by fastforce
  have "i < length tails" using all by blast
  then have h: "holds (sels ! i) off len" using assms(2) t by (metis fst_conv snd_conv)
  have wf: "well_formed (sels ! i)" using h by (simp add: holds_iff)
  have "tail_intersect_and um deser fetch tails = tail_and_loop um deser fetch tails (docs (sels ! i)) rest"
    using Cons t holds_whole [OF h] deserialize_assemble [OF wf]
    by (simp add: tail_intersect_and_def del: rd_Ok_iff deserialize_Ok)
  also have "\<dots> = Ok (docs (sels ! i) \<inter> (\<Inter>j \<in> set rest. docs (sels ! j)))"
  proof (rule tail_loop)
    show "\<forall>j \<in> set rest. holds (sels ! j) (fst (tails ! j)) (snd (tails ! j))"
      using assms(2) all by blast
    show "\<forall>d \<in> docs (sels ! i). d < U32" using docs_bound [OF wf] by blast
  qed simp
  also have "docs (sels ! i) \<inter> (\<Inter>j \<in> set rest. docs (sels ! j)) = (\<Inter>j \<in> insert i (set rest). docs (sels ! j))"
    by simp
  also have "\<dots> = \<Inter>(docs ` set sels)"
  proof -
    have "set sels = (\<lambda>j. sels ! j) ` {..<length tails}"
      unfolding set_conv_nth assms(1) by blast
    then show ?thesis by (simp only: all image_image)
  qed
  moreover have "sels \<noteq> []" using \<open>i < length tails\<close> assms(1) by auto
  ultimately show ?thesis by simp
qed

text \<open>The cardinality in the descriptive header is the number of documents.\<close>

lemma cardinality:
  assumes h: "holds sel off len"
  shows "posting_cardinality um deser fetch off len = Ok (card (docs sel))"
proof -
  have wf: "well_formed sel" and bound: "off + len \<le> length content" and addr: "addressable um lim content"
    using h by (simp_all add: holds_iff)
  have len: "len = length (assemble sel)" by (rule holds_length [OF h])
  have ds: "data_start sel \<le> len" by (simp add: len length_assemble)
  let ?pre = "cut (assemble sel) 0 (min len header_prefix)"
  have prefix: "rd fetch off (min len header_prefix) = Ok ?pre" by (rule holds_prefix [OF h]) simp
  have plen: "length ?pre = min len header_prefix" by (simp add: len)
  show ?thesis
  proof (cases "len \<le> header_prefix")
    case True
    then show ?thesis
      using prefix plen len deserialize_assemble [OF wf]
      by (simp add: posting_cardinality_def del: rd_Ok_iff deserialize_Ok)
  next
    case False
    then have p: "?pre = cut (assemble sel) 0 header_prefix" "length ?pre = header_prefix" using plen by simp_all
    have fields: "u32_at ?pre 0 = no_run_cookie" "u32_at ?pre 4 = length sel"
      unfolding p(1) using assemble_fields(1,2) [OF wf] False len
      by (simp_all add: u32_at_cut header_prefix_def)
    let ?d = "length sel * 4 + 8"
    have d: "?d \<le> len" "?d < um" using ds bound addr by (simp_all add: data_start_def addressable_def)
    define n where "n = (if ?d \<le> header_prefix then header_prefix else ?d)"
    have n: "?d \<le> n" "n \<le> length (assemble sel)" using False len d by (auto simp: n_def)
    have "mapM_o (\<lambda>i. map_ok (\<lambda>c. c + 1) (read_u16 (cut (assemble sel) 0 n) (8 + i * 4 + 2))) [0..<length sel]
        = (Ok (map (\<lambda>i. pc_card (sel ! i)) [0..<length sel]) :: nat list ires)"
    proof (rule mapM_o_map)
      fix i assume "i \<in> set [0..<length sel]"
      then have i: "i < length sel" by simp
      then have "8 + i * 4 + 4 \<le> n" using n(1) by simp
      moreover have "1 \<le> pc_card (sel ! i)" using wf i by (simp add: well_formed_def list_all_length piece_ok_def)
      ultimately show "map_ok (\<lambda>c. c + 1) (read_u16 (cut (assemble sel) 0 n) (8 + i * 4 + 2))
          = (Ok (pc_card (sel ! i)) :: nat ires)"
        using n(2) assemble_fields(4) [OF wf i] u16_at_cut [of "8 + i * 4 + 2" n 0 "assemble sel"] by simp
    qed
    moreover have "map (\<lambda>i. pc_card (sel ! i)) [0..<length sel] = map pc_card sel"
      by (rule nth_equalityI) simp_all
    ultimately have total: "map_ok sum_list (mapM_o (\<lambda>i. map_ok (\<lambda>c. c + 1)
          (read_u16 (cut (assemble sel) 0 n) (8 + i * 4 + 2))) [0..<length sel]) = (Ok (card (docs sel)) :: nat ires)"
      using card_docs [OF wf] by simp
    have checked: "Option.bind (checked_mul um (length sel) 4) (\<lambda>n. checked_add um n 8) = Some ?d"
      using d(2) by simp
    have reads: "(8 :: nat) \<le> length ?pre" using p(2) by (simp add: header_prefix_def)
    show ?thesis
    proof (cases "?d \<le> header_prefix")
      case True
      then have "n = header_prefix" by (simp add: n_def)
      then show ?thesis
        using prefix p False fields checked d reads total True
        by (simp add: posting_cardinality_def Let_def del: rd_Ok_iff)
    next
      case big: False
      then have "n = ?d" by (simp add: n_def)
      then show ?thesis
        using prefix p(2) False fields checked d reads total big holds_prefix [OF h d(1)]
        by (simp add: posting_cardinality_def Let_def del: rd_Ok_iff)
    qed
  qed
qed

end

interpretation mstore: posting_store "mem_read um (mem_new bs)" bs um format_decode format_encode um for um bs
  by unfold_locales

section \<open>Properties\<close>

text \<open>
  Intersecting postings over an in-memory object gives exactly the documents that every
  posting holds, although only the containers that still matter are fetched: for any
  deserialiser that honours the portable format and any list of stored postings.
\<close>

lemma tail_intersect_and_exact:
  assumes "roaring deser ser" "length bs + span_gap < um" "um \<le> U64"
    and "list_all2 (\<lambda>sel (off, len). stored bs sel off len) sels tails"
  shows "tail_intersect_and um deser (mem_read um (mem_new bs)) tails
       = Ok (if sels = [] then {} else \<Inter>(docs ` set sels))"
proof -
  have st: "posting_store (mem_read um (mem_new bs)) bs um deser ser"
    by (intro posting_store.intro memf.full_fetch_axioms assms(1))
  have addr: "addressable um um bs" using assms(2,3) by (simp add: addressable_def)
  have len: "length sels = length tails" using assms(4) by (rule list_all2_lengthD)
  have "posting_store.holds bs um um (sels ! i) (fst (tails ! i)) (snd (tails ! i))" if "i < length tails" for i
    using list_all2_nthD2 [OF assms(4) that] addr
    by (simp add: posting_store.holds_def [OF st] case_prod_beta)
  then show ?thesis using posting_store.tail_and [OF st len] by blast
qed

text \<open>Two small postings, one after the other, for the witnesses.\<close>

definition demo_a :: "piece list" where
  "demo_a = [Piece 0 2 [1, 0, 5, 0], Piece 3 2 [7, 0, 9, 0]]"

definition demo_b :: "piece list" where
  "demo_b = [Piece 3 1 [9, 0], Piece 4 1 [2, 0]]"

definition demo_store :: bytes where
  "demo_store = assemble demo_a @ assemble demo_b"

lemmas format_eval = u16s_def u16_at_def cut_def upt_rec container_docs_def

lemma demo_well_formed: "well_formed demo_a" "well_formed demo_b"
  by (simp_all add: demo_a_def demo_b_def well_formed_def piece_ok_def body_ok_def format_eval)

lemma demo_docs: "docs demo_a = {1, 5, 196615, 196617}" "docs demo_b = {196617, 262146}"
  by (simp_all add: demo_a_def demo_b_def docs_def piece_docs_def format_eval) auto

lemma demo_lengths: "length (assemble demo_a) = 32" "length (assemble demo_b) = 28" "length demo_store = 60"
  by (simp_all add: demo_store_def length_assemble data_start_def demo_a_def demo_b_def)

lemma demo_stored: "stored demo_store demo_a 0 32" "stored demo_store demo_b 32 28"
proof -
  have "cut (assemble demo_a @ assemble demo_b) 0 32 = assemble demo_a"
    using cut_append_left [of 32 "assemble demo_a" "assemble demo_b" 0] cut_full [of "assemble demo_a"]
    by (simp add: demo_lengths)
  moreover have "cut (assemble demo_a @ assemble demo_b) 32 60 = assemble demo_b"
    using cut_append_right [of "assemble demo_a" 32 "assemble demo_b" 60] cut_full [of "assemble demo_b"]
    by (simp add: demo_lengths)
  ultimately show "stored demo_store demo_a 0 32" "stored demo_store demo_b 32 28"
    using demo_well_formed demo_lengths by (simp_all add: stored_def demo_store_def)
qed

lemma tail_intersect_and_exact_witness:
  "tail_intersect_and U32 format_decode (mem_read U32 (mem_new demo_store)) [(0, 32), (32, 28)] = Ok {196617}"
proof -
  have "\<Inter>(docs ` set [demo_a, demo_b]) = {196617}" by (auto simp: demo_docs)
  then show ?thesis
    using tail_intersect_and_exact [of format_decode format_encode demo_store U32 "[demo_a, demo_b]" "[(0, 32), (32, 28)]"]
      format.roaring_axioms demo_stored
    by (simp add: demo_lengths span_gap_def)
qed

text \<open>
  A posting's cardinality and its eager prefix, read from the container header and the
  first buckets, are those of the whole posting.
\<close>

lemma posting_header_reads_exact:
  assumes "roaring deser ser" "length bs + span_gap < um" "um \<le> U64" "stored bs sel off len"
  shows "posting_cardinality um deser (mem_read um (mem_new bs)) off len = Ok (card (docs sel))
    \<and> fetch_head_prefix um deser (mem_read um (mem_new bs)) off len n = Ok {d \<in> docs sel. d < n * 65536}"
proof -
  have st: "posting_store (mem_read um (mem_new bs)) bs um deser ser"
    by (intro posting_store.intro memf.full_fetch_axioms assms(1))
  have "posting_store.holds bs um um sel off len"
    using assms(2-4) by (simp add: posting_store.holds_def [OF st] addressable_def)
  then show ?thesis using posting_store.cardinality [OF st] posting_store.head_prefix [OF st] by blast
qed

lemma posting_header_reads_exact_witness:
  "posting_cardinality U32 format_decode (mem_read U32 (mem_new demo_store)) 0 32 = Ok 4
   \<and> fetch_head_prefix U32 format_decode (mem_read U32 (mem_new demo_store)) 0 32 1 = Ok {1, 5}"
proof -
  have "{d \<in> docs demo_a. d < 1 * 65536} = {1, 5}" by (auto simp: demo_docs)
  then show ?thesis
    using posting_header_reads_exact [of format_decode format_encode demo_store U32 demo_a 0 32 1]
      format.roaring_axioms demo_stored
    by (simp add: demo_lengths span_gap_def demo_docs)
qed

text \<open>
  No bytes make the posting readers panic: over any object and with any deserialiser, selective
  reads, header cardinalities and whole intersections end in an answer or an error, whatever the
  container directories claim.
\<close>

lemma posting_hostile_safe:
  assumes "bounded_fetch f content" "\<forall>t \<in> set tails. range_fits um (length content) t" "(off, len) \<in> set tails"
  shows "read_posting_subset um deser f off len keys \<noteq> Panic
    \<and> posting_cardinality um deser f off len \<noteq> Panic
    \<and> tail_intersect_and um deser f tails \<noteq> Panic"
proof -
  have fit: "range_fits um (length content) (off, len)" using assms(2,3) by blast
  then have "len < 2 ^ 40" by (simp add: range_fits_def)
  then show ?thesis
    using bounded_fetch.read_posting_subset_no_panic [OF assms(1) fit] bounded_fetch.posting_cardinality_no_panic [OF assms(1)]
      bounded_fetch.tail_intersect_no_panic [OF assms(1,2)] by blast
qed

end
