(* ===== verification/RR_Tail_Scan.thy ===== *)
theory RR_Tail_Scan imports RR_Posting begin

text \<open>
  \<open>TailScan\<close> of \<open>rust/src/posting.rs\<close>: the directories of all postings are read once
  (\<open>open_tail_dirs\<close>, two concurrent waves), the buckets every posting can populate are computed
  from them (\<open>candidate_keys\<close>, \<open>union_keys\<close>), and \<open>next_window\<close> intersects one slice of buckets
  at a time, seeding with a sparse posting when that pays (\<open>intersect_key_window\<close>).

  Shown: over well-formed postings a window is exactly the filtered intersection restricted to
  its buckets, and draining the scan gives the whole filtered intersection in ascending order;
  over arbitrary bytes nothing panics.
\<close>

section \<open>Directories\<close>

record tail_dir =
  td_off :: nat
  td_dir :: "container list"

fun parse_dirs :: "nat \<Rightarrow> ((nat \<times> nat) \<times> bytes) list \<Rightarrow> (tail_dir list option) ires" where
  "parse_dirs um [] = Ok (Some [])"
| "parse_dirs um (((off, len), header) # rest) =
     bind_o (parse_dir um header len) (\<lambda>d.
       case d of
         None \<Rightarrow> Ok None
       | Some dir \<Rightarrow> map_ok (map_option ((#) \<lparr>td_off = off, td_dir = dir\<rparr>)) (parse_dirs um rest))"

definition open_tail_dirs :: "nat \<Rightarrow> range_read \<Rightarrow> (nat \<times> nat) list \<Rightarrow> (tail_dir list option) ires" where
  "open_tail_dirs um f tails =
     bind_o (wave (\<lambda>(off, len). rd f off (min len header_prefix)) tails) (\<lambda>headers.
     let needs = map (needed_header_len um) headers in
     if None \<in> set needs then Ok None
     else
       let refetch = filter (\<lambda>(i, hl). hl > length (headers ! i)) (enumerate 0 (map the needs)) in
       bind_o (wave (\<lambda>(i, hl). rd f (fst (tails ! i)) hl) refetch) (\<lambda>reads.
       let fresh = map_of (zip (map fst refetch) reads);
           headers' = map (\<lambda>i. case fresh i of Some r \<Rightarrow> r | None \<Rightarrow> headers ! i) [0..<length headers]
       in parse_dirs um (zip tails headers')))"

definition retain_keys :: "nat list \<Rightarrow> container list \<Rightarrow> nat list" where
  "retain_keys keys other = filter (\<lambda>k. found (bsearch_by c_key other k)) keys"

fun candidate_loop :: "tail_dir list \<Rightarrow> nat list \<Rightarrow> nat list \<Rightarrow> nat list" where
  "candidate_loop dirs keys [] = keys"
| "candidate_loop dirs keys (i # is) =
     (if keys = [] then keys else candidate_loop dirs (retain_keys keys (td_dir (dirs ! i))) is)"

definition candidate_keys :: "tail_dir list \<Rightarrow> nat list" where
  "candidate_keys dirs =
     (case sort_key (\<lambda>i. length (td_dir (dirs ! i))) [0..<length dirs] of
        [] \<Rightarrow> []
      | i # is \<Rightarrow> candidate_loop dirs (map c_key (td_dir (dirs ! i))) is)"

definition union_keys :: "tail_dir list \<Rightarrow> nat list" where
  "union_keys field = remdups_adj (sort (concat (map (\<lambda>d. map c_key (td_dir d)) field)))"

definition read_dir_subset :: "nat \<Rightarrow> deserializer \<Rightarrow> range_read \<Rightarrow> tail_dir \<Rightarrow> nat list \<Rightarrow> nat set ires" where
  "read_dir_subset um deser f d keys = fetch_containers um deser f (td_off d) (filter (in_keys keys) (td_dir d))"

definition window_cost :: "tail_dir \<Rightarrow> nat list \<Rightarrow> nat" where
  "window_cost d window = sum_list (map c_len (filter (in_keys window) (td_dir d)))"

section \<open>One window\<close>

text \<open>\<open>join_all\<close> whose results are looked at one by one.\<close>

definition join_all :: "('a \<Rightarrow> ('e, 'b) outcome) \<Rightarrow> 'a list \<Rightarrow> ('e, ('e, 'b) outcome list) outcome" where
  "join_all f xs = (if list_ex (\<lambda>x. f x = Panic) xs then Panic else Ok (map f xs))"

fun collect_nonempty :: "nat set ires list \<Rightarrow> (nat set list option) ires" where
  "collect_nonempty [] = Ok (Some [])"
| "collect_nonempty (r # rs) =
     bind_o r (\<lambda>b. if b = {} then Ok None else map_ok (map_option ((#) b)) (collect_nonempty rs))"

fun inter_loop :: "nat set \<Rightarrow> nat set list \<Rightarrow> nat set" where
  "inter_loop acc [] = acc"
| "inter_loop acc (b # bs) = (let acc' = acc \<inter> b in if acc' = {} then acc' else inter_loop acc' bs)"

definition min_index :: "nat list \<Rightarrow> nat" where
  "min_index costs = foldl (\<lambda>b i. if costs ! i < costs ! b then i else b) 0 [0..<length costs]"

definition seed_cost_ratio :: nat where "seed_cost_ratio = 4"

text \<open>The seed decision: \<open>Inl ()\<close> is the early return of an empty result.\<close>

definition window_seed ::
  "nat \<Rightarrow> deserializer \<Rightarrow> range_read \<Rightarrow> tail_dir list \<Rightarrow> nat list \<Rightarrow> (unit + (nat \<times> nat set) option) ires" where
  "window_seed um deser f dirs window =
     (if length dirs > 1 then
        let costs = map (\<lambda>d. window_cost d window) dirs;
            seed = min_index costs;
            densest = foldl max 0 costs
        in if sat_mul U64 (costs ! seed) seed_cost_ratio \<le> densest then
             bind_o (read_dir_subset um deser f (dirs ! seed) window) (\<lambda>acc.
               if acc = {} then Ok (Inl ()) else Ok (Inr (Some (seed, acc))))
           else Ok (Inr None)
      else Ok (Inr None))"

definition intersect_key_window ::
  "nat \<Rightarrow> deserializer \<Rightarrow> range_read \<Rightarrow> tail_dir list \<Rightarrow> nat list \<Rightarrow> nat set ires" where
  "intersect_key_window um deser f dirs window =
     (if dirs = [] \<or> window = [] then Ok {}
      else bind_o (window_seed um deser f dirs window) (\<lambda>r.
        case r of
          Inl _ \<Rightarrow> Ok {}
        | Inr seeded \<Rightarrow>
            let keys = (case seeded of Some (_, acc) \<Rightarrow> distinct_high_keys acc | None \<Rightarrow> window);
                rest = filter (\<lambda>(i, _). map_option fst seeded \<noteq> Some i) (enumerate 0 dirs)
            in bind_o (join_all (\<lambda>(_, d). read_dir_subset um deser f d keys) rest) (\<lambda>results.
               bind_o (collect_nonempty results) (\<lambda>bms.
                 case bms of
                   None \<Rightarrow> Ok {}
                 | Some bms \<Rightarrow>
                     (case sort_key card (bms @ (case seeded of Some (_, acc) \<Rightarrow> [acc] | None \<Rightarrow> [])) of
                        [] \<Rightarrow> Panic
                      | acc # bs \<Rightarrow> Ok (inter_loop acc bs))))))"

section \<open>The scan\<close>

record tail_scan =
  ts_trigrams :: "tail_dir list"
  ts_facets :: "tail_dir list list"
  ts_excludes :: "tail_dir list"
  ts_keys :: "nat list"
  ts_pos :: nat

definition facet_fetcher_missing :: string where
  "facet_fetcher_missing = ''facet fetcher required for a filtered tail scan''"

fun open_fields :: "nat \<Rightarrow> range_read option \<Rightarrow> (nat \<times> nat) list list \<Rightarrow> (tail_dir list list option) ires" where
  "open_fields um facet_fetch [] = Ok (Some [])"
| "open_fields um facet_fetch (field # flds) =
     bind_o (ok_or facet_fetch (BadQuery facet_fetcher_missing)) (\<lambda>ff.
     bind_o (open_tail_dirs um ff field) (\<lambda>d.
       case d of
         None \<Rightarrow> Ok None
       | Some dirs \<Rightarrow> map_ok (map_option ((#) dirs)) (open_fields um facet_fetch flds)))"

fun prune_keys :: "nat list \<Rightarrow> tail_dir list list \<Rightarrow> nat list" where
  "prune_keys keys [] = keys"
| "prune_keys keys (field # flds) =
     (if keys = [] then keys
      else prune_keys (filter (\<lambda>k. found (bsearch (union_keys field) k)) keys) flds)"

definition tail_scan_open ::
  "nat \<Rightarrow> range_read \<Rightarrow> (nat \<times> nat) list \<Rightarrow> range_read option \<Rightarrow> (nat \<times> nat) list list
   \<Rightarrow> (nat \<times> nat) list \<Rightarrow> nat \<Rightarrow> (tail_scan option) ires" where
  "tail_scan_open um f tails facet_fetch facet_fields exclude_ranges min_key =
     bind_o (open_tail_dirs um f tails) (\<lambda>t.
     case t of None \<Rightarrow> Ok None | Some trigrams \<Rightarrow>
     bind_o (open_fields um facet_fetch facet_fields) (\<lambda>fs.
     case fs of None \<Rightarrow> Ok None | Some facets \<Rightarrow>
     bind_o (if exclude_ranges = [] then Ok (Some [])
             else bind_o (ok_or facet_fetch (BadQuery facet_fetcher_missing)) (\<lambda>ff.
                  open_tail_dirs um ff exclude_ranges)) (\<lambda>x.
     case x of None \<Rightarrow> Ok None | Some excludes \<Rightarrow>
       let keys = filter (\<lambda>k. k \<ge> min_key) (candidate_keys trigrams)
       in Ok (Some \<lparr>ts_trigrams = trigrams, ts_facets = facets, ts_excludes = excludes,
            ts_keys = prune_keys keys facets, ts_pos = 0\<rparr>))))"

definition exhausted :: "tail_scan \<Rightarrow> bool" where
  "exhausted s \<longleftrightarrow> ts_pos s \<ge> length (ts_keys s)"

fun filter_fields ::
  "nat \<Rightarrow> deserializer \<Rightarrow> range_read \<Rightarrow> nat list \<Rightarrow> tail_dir list list \<Rightarrow> nat set \<Rightarrow> nat set ires" where
  "filter_fields um deser ff window [] bm = Ok bm"
| "filter_fields um deser ff window (field # flds) bm =
     (if bm = {} then Ok bm
      else bind_o (wave (\<lambda>cat. read_dir_subset um deser ff cat window) field) (\<lambda>cs.
        filter_fields um deser ff window flds (bm \<inter> \<Union>(set cs))))"

definition next_window ::
  "nat \<Rightarrow> deserializer \<Rightarrow> range_read \<Rightarrow> range_read option \<Rightarrow> nat \<Rightarrow> tail_scan \<Rightarrow> (nat set \<times> tail_scan) ires" where
  "next_window um deser f facet_fetch batch s =
     (if exhausted s then Ok ({}, s)
      else
        bind_o (add_p um (ts_pos s) batch) (\<lambda>e.
        let stop = min e (length (ts_keys s)) in
        bind_o (cut_p (ts_keys s) (ts_pos s) stop) (\<lambda>window.
        bind_o (intersect_key_window um deser f (ts_trigrams s) window) (\<lambda>bm.
        bind_o (if ts_facets s \<noteq> [] then
                  bind_o (ok_or facet_fetch (BadQuery facet_fetcher_missing)) (\<lambda>ff.
                    filter_fields um deser ff window (ts_facets s) bm)
                else Ok bm) (\<lambda>bm.
        bind_o (if ts_excludes s \<noteq> [] \<and> bm \<noteq> {} then
                  bind_o (ok_or facet_fetch (BadQuery facet_fetcher_missing)) (\<lambda>ff.
                  bind_o (wave (\<lambda>cat. read_dir_subset um deser ff cat window) (ts_excludes s)) (\<lambda>cs.
                  Ok (bm - \<Union>(set cs))))
                else Ok bm) (\<lambda>bm.
        Ok (bm, s\<lparr>ts_pos := stop\<rparr>)))))))"

text \<open>Draining: the callers ask for windows until the scan is exhausted.\<close>

fun scan_drain ::
  "nat \<Rightarrow> nat \<Rightarrow> deserializer \<Rightarrow> range_read \<Rightarrow> range_read option \<Rightarrow> nat \<Rightarrow> tail_scan \<Rightarrow> nat list \<Rightarrow> nat list ires" where
  "scan_drain 0 um deser f ff batch s out = Ok out"
| "scan_drain (Suc n) um deser f ff batch s out =
     (if exhausted s then Ok out
      else bind_o (next_window um deser f ff batch s) (\<lambda>(bm, s').
        scan_drain n um deser f ff batch s' (out @ sorted_list_of_set bm)))"

section \<open>Helper facts\<close>

lemma inter_loop_eq: "inter_loop acc bs = acc \<inter> \<Inter>(set bs)"
  by (induction bs arbitrary: acc) (auto simp: Let_def)

lemma high_key_less: "high_key a < high_key b \<Longrightarrow> a < b"
  using div_le_mono [of b a 65536] by (simp add: not_le [symmetric])

lemma zip_map_same: "zip (map f xs) (map g xs) = map (\<lambda>x. (f x, g x)) xs"
  by (induction xs) auto

lemma sort_key_Cons: "xs \<noteq> [] \<Longrightarrow> \<exists>a as. sort_key k xs = a # as"
  by (metis list.exhaust set_empty set_sort)

lemma inter_loop_sorted:
  "sort_key k xs = acc # bs \<Longrightarrow> inter_loop acc bs = \<Inter>(set xs)"
  by (metis Inf_insert inter_loop_eq list.simps(15) set_sort)

lemma collect_nonempty_eq:
  "collect_nonempty (map Ok bs) = Ok (if {} \<in> set bs then None else Some bs)"
  by (induction bs) auto

lemma min_index_less: "costs \<noteq> [] \<Longrightarrow> min_index costs < length costs"
proof -
  assume ne: "costs \<noteq> []"
  have "foldl (\<lambda>b i. if costs ! i < costs ! b then i else b) b is < length costs"
    if "b < length costs" "\<forall>i \<in> set is. i < length costs" for b "is"
    using that by (induction "is" arbitrary: b) auto
  then show ?thesis using ne by (simp add: min_index_def)
qed

text \<open>Strictly ascending bucket keys of directories.\<close>

definition dir_keys :: "tail_dir \<Rightarrow> nat set" where
  "dir_keys d = c_key ` set (td_dir d)"

lemma retain_keys_eq:
  "sorted (map c_key other) \<Longrightarrow> retain_keys keys other = filter (\<lambda>k. k \<in> c_key ` set other) keys"
  by (simp add: retain_keys_def found_bsearch_by)

lemma candidate_loop_eq:
  assumes "\<forall>i \<in> set is. sorted (map c_key (td_dir (dirs ! i)))"
  shows "candidate_loop dirs keys is = filter (\<lambda>k. \<forall>i \<in> set is. k \<in> dir_keys (dirs ! i)) keys"
  using assms by (induction "is" arbitrary: keys) (auto simp: retain_keys_eq dir_keys_def)

lemma candidate_keys_eq:
  assumes "\<forall>d \<in> set dirs. sorted_wrt (<) (map c_key (td_dir d))"
  shows "sorted_wrt (<) (candidate_keys dirs)"
    and "set (candidate_keys dirs) = (if dirs = [] then {} else \<Inter>(dir_keys ` set dirs))"
proof -
  let ?order = "sort_key (\<lambda>i. length (td_dir (dirs ! i))) [0..<length dirs]"
  have all: "set ?order = {..<length dirs}" by auto
  have "sorted_wrt (<) (candidate_keys dirs)
     \<and> set (candidate_keys dirs) = (if dirs = [] then {} else \<Inter>(dir_keys ` set dirs))"
  proof (cases ?order)
    case Nil
    then have "dirs = []" using all by auto
    then show ?thesis by (simp add: candidate_keys_def)
  next
    case (Cons i rest)
    have idx: "insert i (set rest) = {..<length dirs}" using all Cons by simp
    have mem: "dirs ! j \<in> set dirs" if "j \<in> insert i (set rest)" for j using idx that by (metis lessThan_iff nth_mem)
    have sorted: "\<forall>j \<in> set rest. sorted (map c_key (td_dir (dirs ! j)))"
      using assms mem by (auto intro: strict_sorted_imp_sorted)
    have eq: "candidate_keys dirs = filter (\<lambda>k. \<forall>j \<in> set rest. k \<in> dir_keys (dirs ! j)) (map c_key (td_dir (dirs ! i)))"
      using Cons by (simp add: candidate_keys_def candidate_loop_eq [OF sorted])
    have "sorted_wrt (<) (map c_key (td_dir (dirs ! i)))" using assms mem by blast
    then have strict: "sorted_wrt (<) (candidate_keys dirs)" unfolding eq by (rule sorted_wrt_filter)
    have "set dirs = (!) dirs ` {..<length dirs}" unfolding set_conv_nth by blast
    then have sd: "set dirs = (!) dirs ` insert i (set rest)" unfolding idx .
    have "\<Inter>(dir_keys ` set dirs) = dir_keys (dirs ! i) \<inter> (\<Inter>j \<in> set rest. dir_keys (dirs ! j))"
      unfolding sd by simp
    moreover have "set (candidate_keys dirs) = dir_keys (dirs ! i) \<inter> (\<Inter>j \<in> set rest. dir_keys (dirs ! j))"
      unfolding eq by (auto simp: dir_keys_def)
    moreover have "dirs \<noteq> []" using idx by (cases dirs) simp_all
    ultimately show ?thesis using strict by simp
  qed
  then show "sorted_wrt (<) (candidate_keys dirs)"
    and "set (candidate_keys dirs) = (if dirs = [] then {} else \<Inter>(dir_keys ` set dirs))" by simp_all
qed

lemma union_keys_eq: "sorted (union_keys field)" "set (union_keys field) = \<Union>(dir_keys ` set field)"
  by (auto simp: union_keys_def dir_keys_def sorted_remdups_adj)

lemma prune_keys_eq:
  "prune_keys keys flds = filter (\<lambda>k. \<forall>field \<in> set flds. k \<in> \<Union>(dir_keys ` set field)) keys"
  by (induction flds arbitrary: keys) (auto simp: found_bsearch union_keys_eq intro!: filter_cong)

section \<open>Windows of well-formed postings\<close>

context posting_store
begin

definition dir_holds :: "piece list \<Rightarrow> tail_dir \<Rightarrow> bool" where
  "dir_holds sel d \<longleftrightarrow> addressable um lim content \<and> well_formed sel \<and> map (piece_at content (td_off d)) (td_dir d) = sel
     \<and> (\<exists>tot. dir_ok tot (td_dir d) \<and> td_off d + tot \<le> length content)"

lemma read_dir:
  "dir_holds sel d \<Longrightarrow> sorted keys \<Longrightarrow>
   read_dir_subset um deser fetch d keys = Ok {x \<in> docs sel. high_key x \<in> set keys}"
  unfolding read_dir_subset_def dir_holds_def using fetch_selected by blast

lemma dir_holds_keys:
  assumes "dir_holds sel d"
  shows "sorted_wrt (<) (map c_key (td_dir d))" "dir_keys d = high_key ` docs sel"
proof -
  have eq: "map c_key (td_dir d) = map pc_key sel"
    using assms by (auto simp: dir_holds_def piece_at_def)
  then show "sorted_wrt (<) (map c_key (td_dir d))" using assms by (simp add: dir_holds_def well_formed_def)
  have "pc_key ` set sel = high_key ` docs sel"
  proof (intro set_eqI iffI)
    fix k assume "k \<in> pc_key ` set sel"
    then obtain p where p: "p \<in> set sel" "k = pc_key p" by auto
    then have "piece_docs p \<noteq> {}"
      using assms by (intro piece_docs_nonempty) (auto simp: dir_holds_def well_formed_def list_all_iff)
    then obtain d where "d \<in> piece_docs p" by auto
    then have "d \<in> docs sel" "k = high_key d" using p piece_docs_key by (auto simp: docs_def)
    then show "k \<in> high_key ` docs sel" by blast
  next
    fix k assume "k \<in> high_key ` docs sel"
    then show "k \<in> pc_key ` set sel" by (auto simp: docs_def dest: piece_docs_key)
  qed
  moreover have "c_key ` set (td_dir d) = pc_key ` set sel" using eq by (metis set_map)
  ultimately show "dir_keys d = high_key ` docs sel" by (simp add: dir_keys_def)
qed

lemma dir_docs_bound: "dir_holds sel d \<Longrightarrow> finite (docs sel) \<and> (\<forall>x \<in> docs sel. x < U32)"
  using docs_bound by (auto simp: dir_holds_def)

abbreviation in_window :: "nat list \<Rightarrow> nat set" where
  "in_window window \<equiv> {x. high_key x \<in> set window}"

lemma window_seed_eq:
  assumes "list_all2 dir_holds sels dirs" "sorted window"
  shows "window_seed um deser fetch dirs window = Ok (Inr None)
    \<or> (\<exists>i < length dirs. let acc = docs (sels ! i) \<inter> in_window window in
         window_seed um deser fetch dirs window = Ok (if acc = {} then Inl () else Inr (Some (i, acc))))"
proof (cases "length dirs > 1 \<and> sat_mul U64 (map (\<lambda>d. window_cost d window) dirs ! min_index (map (\<lambda>d. window_cost d window) dirs)) seed_cost_ratio
    \<le> foldl max 0 (map (\<lambda>d. window_cost d window) dirs)")
  case False
  then show ?thesis by (auto simp: window_seed_def Let_def)
next
  case True
  let ?i = "min_index (map (\<lambda>d. window_cost d window) dirs)"
  have "map (\<lambda>d. window_cost d window) dirs \<noteq> []" using True by auto
  from min_index_less [OF this] have i: "?i < length dirs" by simp
  then have "dir_holds (sels ! ?i) (dirs ! ?i)" using assms(1) by (auto dest: list_all2_nthD2)
  then have "read_dir_subset um deser fetch (dirs ! ?i) window = Ok (docs (sels ! ?i) \<inter> in_window window)"
    using read_dir [OF _ assms(2)] by (simp add: Int_def)
  then have "window_seed um deser fetch dirs window
      = Ok (if docs (sels ! ?i) \<inter> in_window window = {} then Inl () else Inr (Some (?i, docs (sels ! ?i) \<inter> in_window window)))"
    using True by (simp add: window_seed_def Let_def)
  then show ?thesis using i by (auto simp: Let_def)
qed

lemma join_dirs:
  assumes "list_all2 dir_holds sels dirs" "sorted keys"
  shows "join_all (\<lambda>(_, d). read_dir_subset um deser fetch d keys) (filter (\<lambda>(i, _). P i) (enumerate 0 dirs))
    = Ok (map Ok (map (\<lambda>i. docs (sels ! i) \<inter> in_window keys) (filter P [0..<length dirs])))"
proof -
  have read: "read_dir_subset um deser fetch (dirs ! i) keys = Ok (docs (sels ! i) \<inter> in_window keys)"
    if "i < length dirs" for i
    using read_dir [OF list_all2_nthD2 [OF assms(1) that] assms(2)] by (simp add: Int_def)
  have en: "enumerate 0 dirs = map (\<lambda>i. (i, dirs ! i)) [0..<length dirs]"
    by (rule nth_equalityI) (auto simp: nth_enumerate_eq)
  have "\<not> list_ex (\<lambda>(_, d). read_dir_subset um deser fetch d keys = Panic) (filter (\<lambda>(i, _). P i) (enumerate 0 dirs))"
    using read by (auto simp: list_ex_iff en)
  moreover have "map (\<lambda>(_, d). read_dir_subset um deser fetch d keys) (filter (\<lambda>(i, _). P i) (enumerate 0 dirs))
     = map Ok (map (\<lambda>i. docs (sels ! i) \<inter> in_window keys) (filter P [0..<length dirs]))"
    using read by (auto simp: en filter_map comp_def)
  ultimately show ?thesis by (simp add: join_all_def case_prod_beta' split_def)
qed

lemma intersect_window:
  assumes all: "list_all2 dir_holds sels dirs" and sorted: "sorted window" and ne: "dirs \<noteq> []"
  shows "intersect_key_window um deser fetch dirs window = Ok (\<Inter>(docs ` set sels) \<inter> in_window window)"
proof (cases "window = []")
  case True
  then show ?thesis by (simp add: intersect_key_window_def)
next
  case False
  have len: "length sels = length dirs" using all by (rule list_all2_lengthD)
  have sels: "docs ` set sels = (\<lambda>i. docs (sels ! i)) ` {..<length dirs}"
    unfolding set_conv_nth len by blast
  consider (none) "window_seed um deser fetch dirs window = Ok (Inr None)"
    | (dead) i where "i < length dirs" "docs (sels ! i) \<inter> in_window window = {}"
        "window_seed um deser fetch dirs window = Ok (Inl ())"
    | (seed) i where "i < length dirs" "docs (sels ! i) \<inter> in_window window \<noteq> {}"
        "window_seed um deser fetch dirs window = Ok (Inr (Some (i, docs (sels ! i) \<inter> in_window window)))"
    using window_seed_eq [OF all sorted] by (auto simp: Let_def split: if_splits)
  then show ?thesis
  proof cases
    case none
    let ?bms = "map (\<lambda>i. docs (sels ! i) \<inter> in_window window) [0..<length dirs]"
    have join: "join_all (\<lambda>(_, d). read_dir_subset um deser fetch d window) (enumerate 0 dirs) = Ok (map Ok ?bms)"
      using join_dirs [OF all sorted, of "\<lambda>_. True"] by simp
    have inter: "\<Inter>(set ?bms) = \<Inter>(docs ` set sels) \<inter> in_window window"
      unfolding sels using ne by auto
    have "?bms \<noteq> []" using ne by simp
    from sort_key_Cons [OF this, of card] obtain acc bs where sort: "sort_key card ?bms = acc # bs"
      by blast
    show ?thesis
    proof (cases "{} \<in> set ?bms")
      case True
      then have "\<Inter>(set ?bms) = {}" by blast
      then show ?thesis using none False ne join True
        by (simp add: intersect_key_window_def collect_nonempty_eq del: set_map map_map flip: inter)
    next
      case nonempty: False
      then show ?thesis using none False ne join sort inter_loop_sorted [OF sort] inter
        by (simp add: intersect_key_window_def collect_nonempty_eq del: set_map map_map)
    qed
  next
    case dead
    then have "\<Inter>(docs ` set sels) \<inter> in_window window = {}" unfolding sels by auto
    then show ?thesis using dead False ne by (simp add: intersect_key_window_def)
  next
    case (seed s)
    let ?acc = "docs (sels ! s) \<inter> in_window window"
    let ?keys = "distinct_high_keys ?acc"
    have "dir_holds (sels ! s) (dirs ! s)" using all seed(1) by (auto dest: list_all2_nthD2)
    then have fin: "finite ?acc" "\<forall>d \<in> ?acc. d < U32" using dir_docs_bound by auto
    have keys: "sorted ?keys" "set ?keys = high_key ` ?acc"
      using distinct_high_keys_set [OF fin] strict_sorted_imp_sorted by blast+
    let ?bms = "map (\<lambda>i. docs (sels ! i) \<inter> in_window ?keys) (filter (\<lambda>i. s \<noteq> i) [0..<length dirs])"
    have join: "join_all (\<lambda>(_, d). read_dir_subset um deser fetch d ?keys) (filter (\<lambda>(i, _). s \<noteq> i) (enumerate 0 dirs))
        = Ok (map Ok ?bms)"
      by (rule join_dirs [OF all keys(1)])
    have inter: "\<Inter>(set (?bms @ [?acc])) = \<Inter>(docs ` set sels) \<inter> in_window window"
    proof -
      have "?acc \<subseteq> in_window ?keys" unfolding keys(2) by blast
      then have "?acc \<inter> (\<Inter>i \<in> I. docs (sels ! i) \<inter> in_window ?keys) = ?acc \<inter> (\<Inter>i \<in> I. docs (sels ! i))" for I
        by blast
      moreover have "\<Inter>(set (?bms @ [?acc])) = ?acc \<inter> (\<Inter>i \<in> {..<length dirs} - {s}. docs (sels ! i) \<inter> in_window ?keys)"
        by auto
      moreover have "\<dots> = docs (sels ! s) \<inter> (\<Inter>i \<in> {..<length dirs} - {s}. docs (sels ! i)) \<inter> in_window window"
        using calculation(1) by blast
      moreover have "docs (sels ! s) \<inter> (\<Inter>i \<in> {..<length dirs} - {s}. docs (sels ! i)) = (\<Inter>i \<in> {..<length dirs}. docs (sels ! i))"
        using seed(1) by auto
      ultimately show ?thesis unfolding sels by simp
    qed
    have "?bms @ [?acc] \<noteq> []" by simp
    from sort_key_Cons [OF this, of card] obtain acc bs where sort: "sort_key card (?bms @ [?acc]) = acc # bs"
      by blast
    show ?thesis
    proof (cases "{} \<in> set ?bms")
      case True
      then have "\<Inter>(set (?bms @ [?acc])) = {}" by auto
      then show ?thesis using seed(3) False ne join True
        by (simp add: intersect_key_window_def collect_nonempty_eq del: set_map map_map set_append flip: inter)
    next
      case nonempty: False
      then show ?thesis using seed(3) False ne join sort inter_loop_sorted [OF sort] inter
        by (simp add: intersect_key_window_def collect_nonempty_eq del: set_map map_map set_append)
    qed
  qed
qed

text \<open>Opening the directories: after both waves every header spans its whole directory.\<close>

lemma parse_dirs_ok:
  assumes "list_all2 (\<lambda>(t, h) sel. \<exists>dir. parse_dir um h (snd t) = Ok (Some dir)
     \<and> dir_holds sel \<lparr>td_off = fst t, td_dir = dir\<rparr>) ths sels"
  shows "\<exists>dirs. parse_dirs um ths = Ok (Some dirs) \<and> list_all2 dir_holds sels dirs"
  using assms
proof (induction ths arbitrary: sels)
  case Nil
  then show ?case by simp
next
  case (Cons th ths)
  obtain off len h where th: "th = ((off, len), h)" by (metis prod.exhaust)
  obtain sel sels' dir where sels: "sels = sel # sels'"
    and d: "parse_dir um h len = Ok (Some dir)" "dir_holds sel \<lparr>td_off = off, td_dir = dir\<rparr>"
    and rest: "list_all2 (\<lambda>(t, h) sel. \<exists>dir. parse_dir um h (snd t) = Ok (Some dir)
     \<and> dir_holds sel \<lparr>td_off = fst t, td_dir = dir\<rparr>) ths sels'"
    using Cons.prems th by (auto simp: list_all2_Cons1)
  from Cons.IH [OF rest] obtain dirs where "parse_dirs um ths = Ok (Some dirs)" "list_all2 dir_holds sels' dirs"
    by blast
  then show ?case using th sels d by simp
qed

lemma parsed_dir_holds:
  assumes h: "holds sel off len" and n: "data_start sel \<le> n" "n \<le> len"
  shows "\<exists>dir. parse_dir um (cut (assemble sel) 0 n) len = Ok (Some dir) \<and> dir_holds sel \<lparr>td_off = off, td_dir = dir\<rparr>"
proof -
  have wf: "well_formed sel" and bound: "off + len \<le> length content" and addr: "addressable um lim content"
    using h by (simp_all add: holds_iff)
  have len: "len = length (assemble sel)" by (rule holds_length [OF h])
  have "data_start sel < um" using n bound addr by (simp add: addressable_def)
  then obtain dir where dir: "parse_dir um (cut (assemble sel) 0 n) len = Ok (Some dir)"
    "map (piece_at (assemble sel) 0) dir = sel"
    using parse_assembled [OF wf n(1)] n(2) len by auto
  have ok: "dir_ok len dir" by (rule parse_dir_ok [OF dir(1)])
  have "dir_holds sel \<lparr>td_off = off, td_dir = dir\<rparr>"
    using wf dir(2) holds_piece_at [OF h ok] ok bound addr by (auto simp: dir_holds_def)
  with dir(1) show ?thesis by blast
qed

definition tails_hold :: "piece list list \<Rightarrow> (nat \<times> nat) list \<Rightarrow> bool" where
  "tails_hold sels tails \<longleftrightarrow> list_all2 (\<lambda>sel t. holds sel (fst t) (snd t)) sels tails"

lemma open_dirs:
  assumes "tails_hold sels tails"
  shows "\<exists>dirs. open_tail_dirs um fetch tails = Ok (Some dirs) \<and> list_all2 dir_holds sels dirs"
proof -
  let ?n = "length tails"
  let ?b = "\<lambda>i. assemble (sels ! i)" and ?ds = "\<lambda>i. data_start (sels ! i)"
  let ?len = "\<lambda>i. snd (tails ! i)"
  let ?p = "\<lambda>i. min (?len i) header_prefix"
  have len: "length sels = ?n" using assms by (auto simp: tails_hold_def dest: list_all2_lengthD)
  have h: "holds (sels ! i) (fst (tails ! i)) (?len i)" if "i < ?n" for i
    using assms that by (auto simp: tails_hold_def dest: list_all2_nthD2)
  have blen: "?len i = length (?b i)" if "i < ?n" for i using holds_length [OF h [OF that]] .
  have ds: "?ds i \<le> ?len i" "8 \<le> ?ds i" "?ds i < um" if "i < ?n" for i
    using blen [OF that] h [OF that] by (auto simp: length_assemble data_start_def holds_iff addressable_def)
  let ?headers = "map (\<lambda>i. cut (?b i) 0 (?p i)) [0..<?n]"
  have tails: "tails = map ((!) tails) [0..<?n]" by (simp add: map_nth)
  have "wave (\<lambda>(off, len). rd fetch off (min len header_prefix)) (map ((!) tails) [0..<?n]) = Ok ?headers"
  proof -
    have "wave (\<lambda>(off, len). rd fetch off (min len header_prefix)) (map ((!) tails) [0..<?n])
        = Ok (map (\<lambda>t. cut content (fst t) (fst t + min (snd t) header_prefix)) (map ((!) tails) [0..<?n]))"
    proof (rule wave_map)
      fix t assume "t \<in> set (map ((!) tails) [0..<?n])"
      then obtain i where i: "i < ?n" "t = tails ! i" by auto
      then have "fst t + snd t \<le> length content" "addressable um lim content" using h by (simp_all add: holds_iff)
      then show "(case t of (off, len) \<Rightarrow> rd fetch off (min len header_prefix))
          = Ok (cut content (fst t) (fst t + min (snd t) header_prefix))"
        using read_ok [of "fst t" "min (snd t) header_prefix"] by (simp add: case_prod_beta del: rd_Ok_iff)
    qed
    moreover have "cut content (fst (tails ! i)) (fst (tails ! i) + ?p i) = cut (?b i) 0 (?p i)" if "i < ?n" for i
    proof -
      have "fst (tails ! i) + ?p i \<le> length content" "addressable um lim content" using h [OF that] by (auto simp: holds_iff)
      then show ?thesis
        using holds_prefix [OF h [OF that], of "?p i"] read_ok [of "fst (tails ! i)" "?p i"] by simp
    qed
    ultimately show ?thesis by simp
  qed
  then have w1: "wave (\<lambda>(off, len). rd fetch off (min len header_prefix)) tails = Ok ?headers"
    using tails by simp
  have hlen: "length (?headers ! i) = ?p i" if "i < ?n" for i using that blen [OF that] by simp
  have needs: "map (needed_header_len um) ?headers = map (\<lambda>i. Some (?ds i)) [0..<?n]"
  proof (rule nth_equalityI)
    fix i assume "i < length (map (needed_header_len um) ?headers)"
    then have i: "i < ?n" by simp
    have "well_formed (sels ! i)" using h [OF i] by (simp add: holds_iff)
    then have "needed_header_len um (cut (?b i) 0 (?p i)) = Some (?ds i)"
      by (rule needed_header_assembled) (use ds [OF i] blen [OF i] in \<open>auto simp: header_prefix_def\<close>)
    then show "map (needed_header_len um) ?headers ! i = map (\<lambda>i. Some (?ds i)) [0..<?n] ! i" using i by simp
  qed simp
  let ?refetch = "filter (\<lambda>(i, hl). hl > length (?headers ! i)) (enumerate 0 (map ?ds [0..<?n]))"
  let ?g = "\<lambda>(i, hl). cut (?b i) 0 hl"
  have mem: "(i, hl) \<in> set ?refetch \<longleftrightarrow> i < ?n \<and> hl = ?ds i \<and> ?ds i > ?p i" for i hl
    using hlen by (auto simp: in_set_enumerate_eq)
  have w2: "wave (\<lambda>(i, hl). rd fetch (fst (tails ! i)) hl) ?refetch = Ok (map ?g ?refetch)"
  proof (rule wave_map)
    fix x assume "x \<in> set ?refetch"
    moreover obtain i hl where "x = (i, hl)" by (cases x)
    ultimately have x: "x = (i, ?ds i)" "i < ?n" using mem by blast+
    then show "(case x of (i, hl) \<Rightarrow> rd fetch (fst (tails ! i)) hl) = Ok (?g x)"
      using holds_prefix [OF h [OF x(2)] ds(1) [OF x(2)]] by simp
  qed
  have dist: "distinct (map fst ?refetch)"
    by (rule distinct_map_filter) simp
  have fresh: "map_of (zip (map fst ?refetch) (map ?g ?refetch)) i
      = (if ?ds i > ?p i then Some (cut (?b i) 0 (?ds i)) else None)" if i: "i < ?n" for i
  proof -
    have z: "zip (map fst ?refetch) (map ?g ?refetch) = map (\<lambda>x. (fst x, ?g x)) ?refetch"
      by (rule zip_map_same)
    have d: "distinct (map fst (map (\<lambda>x. (fst x, ?g x)) ?refetch))" using dist by (simp add: comp_def)
    show ?thesis
    proof (cases "?ds i > ?p i")
      case True
      then have "(i, ?ds i) \<in> set ?refetch" using mem i by blast
      then have "(i, cut (?b i) 0 (?ds i)) \<in> set (map (\<lambda>x. (fst x, ?g x)) ?refetch)" by force
      then show ?thesis unfolding z using True map_of_is_SomeI [OF d] by simp
    next
      case False
      then have "i \<notin> fst ` set (map (\<lambda>x. (fst x, ?g x)) ?refetch)" using mem by force
      then show ?thesis unfolding z using False by (simp add: map_of_eq_None_iff del: set_map set_filter)
    qed
  qed
  let ?h = "\<lambda>i. if ?ds i > ?p i then ?ds i else ?p i"
  have headers': "map (\<lambda>i. case map_of (zip (map fst ?refetch) (map ?g ?refetch)) i of Some r \<Rightarrow> r | None \<Rightarrow> ?headers ! i)
      [0..<length ?headers] = map (\<lambda>i. cut (?b i) 0 (?h i)) [0..<?n]"
    by (rule nth_equalityI) (simp_all add: fresh)
  have "\<exists>dirs. parse_dirs um (zip tails (map (\<lambda>i. cut (?b i) 0 (?h i)) [0..<?n])) = Ok (Some dirs)
      \<and> list_all2 dir_holds sels dirs"
  proof (rule parse_dirs_ok, rule list_all2_all_nthI)
    show "length (zip tails (map (\<lambda>i. cut (?b i) 0 (?h i)) [0..<?n])) = length sels" using len by simp
    fix i assume "i < length (zip tails (map (\<lambda>i. cut (?b i) 0 (?h i)) [0..<?n]))"
    then have i: "i < ?n" by simp
    have hb: "?ds i \<le> ?h i" "?h i \<le> ?len i" using ds [OF i] by auto
    show "(\<lambda>(t, h) sel. \<exists>dir. parse_dir um h (snd t) = Ok (Some dir) \<and> dir_holds sel \<lparr>td_off = fst t, td_dir = dir\<rparr>)
        (zip tails (map (\<lambda>i. cut (?b i) 0 (?h i)) [0..<?n]) ! i) (sels ! i)"
      using parsed_dir_holds [OF h [OF i] hb] i by (cases "?ds i > ?p i") simp_all
  qed
  moreover have "None \<notin> set (map (\<lambda>i. Some (?ds i)) [0..<?n])" by auto
  moreover have thes: "map the (map (\<lambda>i. Some (?ds i)) [0..<?n]) = map ?ds [0..<?n]" by simp
  ultimately show ?thesis
    unfolding open_tail_dirs_def w1 bind_o.simps Let_def needs thes w2 headers' by simp
qed

end

section \<open>Scans of well-formed postings\<close>

text \<open>The filtered strict AND: in every posting, in some category per field, in no excluded one.\<close>

definition scan_result :: "piece list list \<Rightarrow> piece list list list \<Rightarrow> piece list list \<Rightarrow> nat set" where
  "scan_result ts fs xs =
     {x \<in> \<Inter>(docs ` set ts). (\<forall>f \<in> set fs. x \<in> \<Union>(docs ` set f)) \<and> x \<notin> \<Union>(docs ` set xs)}"

locale scan_store =
  ix: posting_store fetch content lim deser ser um + fx: posting_store ffetch fcontent flim deser ser um
  for fetch content lim deser ser um ffetch fcontent flim
begin

definition scan_holds ::
  "piece list list \<Rightarrow> piece list list list \<Rightarrow> piece list list \<Rightarrow> tail_scan \<Rightarrow> bool" where
  "scan_holds ts fs xs s \<longleftrightarrow> ts \<noteq> [] \<and> list_all2 ix.dir_holds ts (ts_trigrams s)
     \<and> list_all2 (list_all2 fx.dir_holds) fs (ts_facets s) \<and> list_all2 fx.dir_holds xs (ts_excludes s)
     \<and> sorted_wrt (<) (ts_keys s) \<and> length (ts_keys s) \<le> 65536 \<and> ts_pos s \<le> length (ts_keys s)"

lemma wave_dirs:
  assumes "list_all2 fx.dir_holds sels dirs" "sorted window"
  shows "wave (\<lambda>cat. read_dir_subset um deser ffetch cat window) dirs
    = Ok (map (\<lambda>sel. docs sel \<inter> fx.in_window window) sels)"
proof -
  have "list_all2 (\<lambda>d r. read_dir_subset um deser ffetch d window = Ok r) dirs
      (map (\<lambda>sel. docs sel \<inter> fx.in_window window) sels)"
    using assms(1) fx.read_dir [OF _ assms(2)]
    by (induction rule: list_all2_induct) (auto simp: Int_def)
  then show ?thesis by (simp add: wave_Ok_iff)
qed

lemma filter_fields_eq:
  assumes "list_all2 (list_all2 fx.dir_holds) fs flds" "sorted window" "bm \<subseteq> fx.in_window window"
  shows "filter_fields um deser ffetch window flds bm = Ok {x \<in> bm. \<forall>f \<in> set fs. x \<in> \<Union>(docs ` set f)}"
  using assms(1,3)
proof (induction arbitrary: bm rule: list_all2_induct)
  case Nil
  then show ?case by simp
next
  case (Cons f fs field flds)
  show ?case
  proof (cases "bm = {}")
    case False
    have eq: "bm \<inter> \<Union>(set (map (\<lambda>sel. docs sel \<inter> fx.in_window window) f)) = {x \<in> bm. x \<in> \<Union>(docs ` set f)}"
      using Cons.prems by auto
    have "filter_fields um deser ffetch window (field # flds) bm
        = filter_fields um deser ffetch window flds {x \<in> bm. x \<in> \<Union>(docs ` set f)}"
      using False by (simp only: filter_fields.simps wave_dirs [OF Cons.hyps(1) assms(2)] bind_o.simps eq if_False)
    also have "\<dots> = Ok {x \<in> {x \<in> bm. x \<in> \<Union>(docs ` set f)}. \<forall>f \<in> set fs. x \<in> \<Union>(docs ` set f)}"
      by (rule Cons.IH) (use Cons.prems in blast)
    also have "{x \<in> {x \<in> bm. x \<in> \<Union>(docs ` set f)}. \<forall>f \<in> set fs. x \<in> \<Union>(docs ` set f)}
        = {x \<in> bm. \<forall>f \<in> set (f # fs). x \<in> \<Union>(docs ` set f)}" by auto
    finally show ?thesis .
  qed simp
qed

lemma window_step:
  assumes h: "scan_holds ts fs xs s" and more: "\<not> exhausted s" and batch: "0 < batch" "65536 + batch < um"
    and ff: "fs = [] \<and> xs = [] \<or> ffo = Some ffetch"
  defines "stop \<equiv> min (ts_pos s + batch) (length (ts_keys s))"
  shows "next_window um deser fetch ffo batch s
      = Ok (scan_result ts fs xs \<inter> ix.in_window (cut (ts_keys s) (ts_pos s) stop), s\<lparr>ts_pos := stop\<rparr>)"
    and "scan_holds ts fs xs (s\<lparr>ts_pos := stop\<rparr>)" "ts_pos s < stop" "stop \<le> length (ts_keys s)"
proof -
  have pos: "ts_pos s < length (ts_keys s)" using more by (simp add: exhausted_def)
  show stop: "ts_pos s < stop" "stop \<le> length (ts_keys s)" using pos batch(1) by (auto simp: stop_def)
  show "scan_holds ts fs xs (s\<lparr>ts_pos := stop\<rparr>)" using h stop by (simp add: scan_holds_def)
  let ?w = "cut (ts_keys s) (ts_pos s) stop"
  have T: "list_all2 ix.dir_holds ts (ts_trigrams s)" "ts \<noteq> []"
    and F: "list_all2 (list_all2 fx.dir_holds) fs (ts_facets s)" and X: "list_all2 fx.dir_holds xs (ts_excludes s)"
    and small: "length (ts_keys s) \<le> 65536"
    using h by (simp_all add: scan_holds_def)
  have sorted: "sorted ?w"
    using h by (auto simp: scan_holds_def cut_def intro!: strict_sorted_imp_sorted sorted_wrt_take sorted_wrt_drop)
  have "ts_trigrams s \<noteq> []" using T by auto
  note core = ix.intersect_window [OF T(1) sorted this]
  let ?b0 = "\<Inter>(docs ` set ts) \<inter> ix.in_window ?w"
  let ?b1 = "{x \<in> ?b0. \<forall>f \<in> set fs. x \<in> \<Union>(docs ` set f)}"
  have facets: "(if ts_facets s \<noteq> [] then
                  bind_o (ok_or ffo (BadQuery facet_fetcher_missing)) (\<lambda>ff.
                    filter_fields um deser ff ?w (ts_facets s) ?b0)
                else Ok ?b0) = Ok ?b1"
  proof (cases "ts_facets s = []")
    case True
    then have "fs = []" using F by simp
    then have "?b1 = ?b0" by auto
    then show ?thesis using True by simp
  next
    case False
    then have "ffo = Some ffetch" using F ff by auto
    then show ?thesis using False filter_fields_eq [OF F sorted, of ?b0] by simp
  qed
  have excludes: "(if ts_excludes s \<noteq> [] \<and> ?b1 \<noteq> {} then
                  bind_o (ok_or ffo (BadQuery facet_fetcher_missing)) (\<lambda>ff.
                  bind_o (wave (\<lambda>cat. read_dir_subset um deser ff cat ?w) (ts_excludes s)) (\<lambda>cs.
                  Ok (?b1 - \<Union>(set cs))))
                else Ok ?b1) = Ok (?b1 - \<Union>(docs ` set xs))"
  proof (cases "ts_excludes s \<noteq> [] \<and> ?b1 \<noteq> {}")
    case True
    then have "ffo = Some ffetch" using X ff by auto
    moreover have "?b1 - \<Union>(set (map (\<lambda>sel. docs sel \<inter> fx.in_window ?w) xs)) = ?b1 - \<Union>(docs ` set xs)"
      by auto
    ultimately show ?thesis using True
      by (simp only: ok_or_Some bind_o.simps wave_dirs [OF X sorted] if_True simp_thms)
  next
    case False
    then consider "ts_excludes s = []" | "?b1 = {}" by blast
    then show ?thesis
    proof cases
      case 1
      then have "xs = []" using X by simp
      then show ?thesis using 1 by simp
    next
      case 2
      show ?thesis unfolding 2 by simp
    qed
  qed
  have "?b1 - \<Union>(docs ` set xs) = scan_result ts fs xs \<inter> ix.in_window ?w" by (auto simp: scan_result_def)
  moreover have "add_p um (ts_pos s) batch = (Ok (ts_pos s + batch) :: nat ires)" using small pos batch(2) by simp
  moreover have "cut_p (ts_keys s) (ts_pos s) stop = (Ok ?w :: nat list ires)" using stop by simp
  ultimately show "next_window um deser fetch ffo batch s
      = Ok (scan_result ts fs xs \<inter> ix.in_window ?w, s\<lparr>ts_pos := stop\<rparr>)"
    unfolding next_window_def Let_def using more
    by (simp only: if_False bind_o.simps stop_def [symmetric] core facets excludes)
qed

lemma scan_result_finite: "scan_holds ts fs xs s \<Longrightarrow> finite (scan_result ts fs xs)"
proof -
  assume "scan_holds ts fs xs s"
  then obtain t where "t \<in> set ts" by (metis list.set_intros(1) list.exhaust scan_holds_def)
  then have "scan_result ts fs xs \<subseteq> docs t" by (auto simp: scan_result_def)
  then show ?thesis by (rule finite_subset) simp
qed

lemma drain_eq:
  assumes "scan_holds ts fs xs s" "0 < batch" "65536 + batch < um" "fs = [] \<and> xs = [] \<or> ffo = Some ffetch"
    and "length (ts_keys s) - ts_pos s \<le> n"
  shows "scan_drain n um deser fetch ffo batch s out
    = Ok (out @ sorted_list_of_set (scan_result ts fs xs \<inter> ix.in_window (drop (ts_pos s) (ts_keys s))))"
  using assms(1,5)
proof (induction n arbitrary: s out)
  case 0
  then show ?case by simp
next
  case (Suc n)
  show ?case
  proof (cases "exhausted s")
    case True
    then show ?thesis by (simp add: exhausted_def)
  next
    case False
    let ?stop = "min (ts_pos s + batch) (length (ts_keys s))"
    let ?R = "scan_result ts fs xs"
    let ?w = "cut (ts_keys s) (ts_pos s) ?stop" and ?rest = "drop ?stop (ts_keys s)"
    note st = window_step [OF Suc.prems(1) False assms(2,3,4)]
    have split: "drop (ts_pos s) (ts_keys s) = ?w @ ?rest"
      using st(3) by (intro cut_drop) (rule less_imp_le)
    have "sorted_wrt (<) (?w @ ?rest)"
      unfolding split [symmetric] using Suc.prems(1) by (simp add: scan_holds_def sorted_wrt_drop)
    then have below: "k < l" if "k \<in> set ?w" "l \<in> set ?rest" for k l
      using that unfolding sorted_wrt_append by blast
    have fin: "finite ?R" using Suc.prems(1) by (rule scan_result_finite)
    have "scan_drain (Suc n) um deser fetch ffo batch s out
        = scan_drain n um deser fetch ffo batch (s\<lparr>ts_pos := ?stop\<rparr>) (out @ sorted_list_of_set (?R \<inter> ix.in_window ?w))"
      using False st(1) by simp
    also have "\<dots> = Ok (out @ (sorted_list_of_set (?R \<inter> ix.in_window ?w) @ sorted_list_of_set (?R \<inter> ix.in_window ?rest)))"
    proof -
      have "length (ts_keys s) - ?stop \<le> n" using st(3) Suc.prems(2) by linarith
      then show ?thesis using Suc.IH [OF st(2)] by simp
    qed
    also have "sorted_list_of_set (?R \<inter> ix.in_window ?w) @ sorted_list_of_set (?R \<inter> ix.in_window ?rest)
        = sorted_list_of_set ((?R \<inter> ix.in_window ?w) \<union> (?R \<inter> ix.in_window ?rest))"
    proof (rule sorted_list_of_set_union_below [symmetric])
      fix a b assume "a \<in> ?R \<inter> ix.in_window ?w" "b \<in> ?R \<inter> ix.in_window ?rest"
      then have "high_key a < high_key b" using below by blast
      then show "a < b" by (rule high_key_less)
    qed (use fin in auto)
    also have "(?R \<inter> ix.in_window ?w) \<union> (?R \<inter> ix.in_window ?rest) = ?R \<inter> ix.in_window (?w @ ?rest)" by auto
    finally show ?thesis using split by simp
  qed
qed

lemma candidates:
  assumes "list_all2 ix.dir_holds ts dirs" "ts \<noteq> []"
  shows "sorted_wrt (<) (candidate_keys dirs)" "length (candidate_keys dirs) \<le> 65536"
    and "x \<in> \<Inter>(docs ` set ts) \<Longrightarrow> high_key x \<in> set (candidate_keys dirs)"
proof -
  have len: "length ts = length dirs" using assms(1) by (rule list_all2_lengthD)
  have pair: "\<exists>t \<in> set ts. ix.dir_holds t d" if "d \<in> set dirs" for d
    using assms(1) that by (metis in_set_conv_nth len list_all2_nthD2 nth_mem)
  have sorted: "\<forall>d \<in> set dirs. sorted_wrt (<) (map c_key (td_dir d))"
    using pair ix.dir_holds_keys(1) by blast
  have ne: "dirs \<noteq> []" using assms(2) len by auto
  note ck = candidate_keys_eq [OF sorted]
  show strict: "sorted_wrt (<) (candidate_keys dirs)" by (rule ck(1))
  have keys: "set (candidate_keys dirs) = \<Inter>(dir_keys ` set dirs)" using ck(2) ne by simp
  obtain d where d: "d \<in> set dirs" using ne by (meson list.set_sel(1))
  then obtain t where t: "t \<in> set ts" "ix.dir_holds t d" using pair by blast
  have "set (candidate_keys dirs) \<subseteq> dir_keys d" using keys d by blast
  also have "\<dots> \<subseteq> {..<65536}"
    using ix.dir_holds_keys(2) [OF t(2)] ix.dir_docs_bound [OF t(2)] by (auto simp: less_mult_imp_div_less)
  finally have "card (set (candidate_keys dirs)) \<le> card {..<65536 :: nat}" by (intro card_mono) auto
  moreover have "distinct (candidate_keys dirs)" using strict by (simp add: strict_sorted_iff)
  ultimately show "length (candidate_keys dirs) \<le> 65536" by (simp add: distinct_card)
  show "high_key x \<in> set (candidate_keys dirs)" if x: "x \<in> \<Inter>(docs ` set ts)"
    unfolding keys
  proof (intro InterI, elim imageE)
    fix K d assume "d \<in> set dirs" "K = dir_keys d"
    then obtain t where "t \<in> set ts" "ix.dir_holds t d" using pair by blast
    then show "high_key x \<in> K" using x ix.dir_holds_keys(2) \<open>K = dir_keys d\<close> by auto
  qed
qed

lemma field_union_keys:
  assumes "list_all2 fx.dir_holds f dirs" "x \<in> \<Union>(docs ` set f)"
  shows "high_key x \<in> \<Union>(dir_keys ` set dirs)"
proof -
  obtain sel where sel: "sel \<in> set f" "x \<in> docs sel" using assms(2) by auto
  then obtain d where "d \<in> set dirs" "fx.dir_holds sel d"
    using assms(1) by (metis in_set_conv_nth list_all2_conv_all_nth)
  then show ?thesis using fx.dir_holds_keys(2) sel(2) by blast
qed

lemma open_flds:
  assumes "list_all2 fx.tails_hold fs ffs" "ffs \<noteq> [] \<Longrightarrow> ffo = Some ffetch"
  shows "\<exists>facets. open_fields um ffo ffs = Ok (Some facets) \<and> list_all2 (list_all2 fx.dir_holds) fs facets"
  using assms
proof (induction rule: list_all2_induct)
  case Nil
  then show ?case by simp
next
  case (Cons f fs t ffs)
  have ff: "ffo = Some ffetch" using Cons.prems by simp
  obtain dirs where "open_tail_dirs um ffetch t = Ok (Some dirs)" "list_all2 fx.dir_holds f dirs"
    using fx.open_dirs [OF Cons.hyps(1)] by blast
  moreover obtain facets where "open_fields um ffo ffs = Ok (Some facets)" "list_all2 (list_all2 fx.dir_holds) fs facets"
    using Cons.IH ff by blast
  ultimately show ?case using ff by simp
qed

lemma scan_open:
  assumes t: "ix.tails_hold ts tails" "ts \<noteq> []" and f: "list_all2 fx.tails_hold fs ffs" and x: "fx.tails_hold xs excl"
    and ff: "ffs = [] \<and> excl = [] \<or> ffo = Some ffetch"
  shows "\<exists>s. tail_scan_open um fetch tails ffo ffs excl min_key = Ok (Some s) \<and> scan_holds ts fs xs s \<and> ts_pos s = 0
     \<and> scan_result ts fs xs \<inter> ix.in_window (ts_keys s) = {x \<in> scan_result ts fs xs. min_key \<le> high_key x}"
proof -
  obtain tri where tri: "open_tail_dirs um fetch tails = Ok (Some tri)" "list_all2 ix.dir_holds ts tri"
    using ix.open_dirs [OF t(1)] by blast
  obtain facets where facets: "open_fields um ffo ffs = Ok (Some facets)" "list_all2 (list_all2 fx.dir_holds) fs facets"
    using open_flds [OF f] ff by blast
  obtain ex where ex: "(if excl = [] then Ok (Some [])
             else bind_o (ok_or ffo (BadQuery facet_fetcher_missing)) (\<lambda>ff. open_tail_dirs um ff excl)) = Ok (Some ex)"
    "list_all2 fx.dir_holds xs ex"
  proof (cases "excl = []")
    case True
    then have "xs = []" using x by (simp add: fx.tails_hold_def)
    then show ?thesis using True that by simp
  next
    case False
    then have "ffo = Some ffetch" using ff by blast
    moreover obtain ex where "open_tail_dirs um ffetch excl = Ok (Some ex)" "list_all2 fx.dir_holds xs ex"
      using fx.open_dirs [OF x] by blast
    ultimately show ?thesis using False that by simp
  qed
  let ?keys = "filter (\<lambda>k. k \<ge> min_key) (candidate_keys tri)"
  let ?s = "\<lparr>ts_trigrams = tri, ts_facets = facets, ts_excludes = ex, ts_keys = prune_keys ?keys facets, ts_pos = 0\<rparr>"
  have opened: "tail_scan_open um fetch tails ffo ffs excl min_key = Ok (Some ?s)"
    using tri(1) facets(1) ex(1) by (simp add: tail_scan_open_def Let_def)
  note cand = candidates [OF tri(2) t(2)]
  have "length (prune_keys ?keys facets) \<le> length (candidate_keys tri)"
    unfolding prune_keys_eq by (rule order_trans [OF length_filter_le length_filter_le])
  then have "length (prune_keys ?keys facets) \<le> 65536" using cand(2) by (rule order_trans)
  moreover have "sorted_wrt (<) (prune_keys ?keys facets)"
    unfolding prune_keys_eq by (intro sorted_wrt_filter cand(1))
  ultimately have holds: "scan_holds ts fs xs ?s"
    using tri(2) facets(2) ex(2) t(2) by (simp add: scan_holds_def)
  have res: "scan_result ts fs xs \<inter> ix.in_window (ts_keys ?s) = {x \<in> scan_result ts fs xs. min_key \<le> high_key x}"
  proof (intro set_eqI iffI)
    fix y assume y: "y \<in> {x \<in> scan_result ts fs xs. min_key \<le> high_key x}"
    then have "high_key y \<in> set (candidate_keys tri)" using cand(3) by (simp add: scan_result_def)
    moreover have "high_key y \<in> \<Union>(dir_keys ` set dirs)" if "dirs \<in> set facets" for dirs
    proof -
      obtain f where "f \<in> set fs" "list_all2 fx.dir_holds f dirs"
        using facets(2) \<open>dirs \<in> set facets\<close> by (metis in_set_conv_nth list_all2_conv_all_nth)
      then show ?thesis using field_union_keys y by (simp add: scan_result_def)
    qed
    ultimately show "y \<in> scan_result ts fs xs \<inter> ix.in_window (ts_keys ?s)"
      using y by (simp add: prune_keys_eq)
  qed (auto simp: prune_keys_eq)
  show ?thesis by (intro exI conjI, rule opened, rule holds, simp, rule res)
qed

lemma open_and_drain:
  assumes "ix.tails_hold ts tails" "ts \<noteq> []" "list_all2 fx.tails_hold fs ffs" "fx.tails_hold xs excl"
    and ff: "ffs = [] \<and> excl = [] \<or> ffo = Some ffetch" and batch: "0 < batch" "65536 + batch < um"
  shows "\<exists>s. tail_scan_open um fetch tails ffo ffs excl min_key = Ok (Some s)
     \<and> scan_drain 65536 um deser fetch ffo batch s [] = Ok (sorted_list_of_set {x \<in> scan_result ts fs xs. min_key \<le> high_key x})"
proof -
  obtain s where s: "tail_scan_open um fetch tails ffo ffs excl min_key = Ok (Some s)" "scan_holds ts fs xs s" "ts_pos s = 0"
    "scan_result ts fs xs \<inter> ix.in_window (ts_keys s) = {x \<in> scan_result ts fs xs. min_key \<le> high_key x}"
    using scan_open [OF assms(1-5)] by blast
  have "fs = [] \<and> xs = [] \<or> ffo = Some ffetch"
    using ff assms(3,4) by (auto simp: fx.tails_hold_def)
  moreover have "length (ts_keys s) \<le> 65536" using s(2) by (simp add: scan_holds_def)
  then have "length (ts_keys s) - ts_pos s \<le> 65536" by simp
  ultimately have "scan_drain 65536 um deser fetch ffo batch s [] =
      Ok ([] @ sorted_list_of_set (scan_result ts fs xs \<inter> ix.in_window (drop (ts_pos s) (ts_keys s))))"
    by (intro drain_eq [OF s(2) batch])
  then show ?thesis using s by auto
qed

end

interpretation mscan: scan_store "mem_read um (mem_new bs)" bs um format_decode format_encode um
    "mem_read um (mem_new fbs)" fbs um for um bs fbs
  by unfold_locales

section \<open>No directory makes a scan panic\<close>

definition dir_safe :: "nat \<Rightarrow> tail_dir \<Rightarrow> bool" where
  "dir_safe um d \<longleftrightarrow> (\<exists>tot. dir_ok tot (td_dir d) \<and> tot + span_gap < um \<and> tot < 2 ^ 40 \<and> td_off d + tot < U64)"

definition scan_safe :: "nat \<Rightarrow> tail_scan \<Rightarrow> bool" where
  "scan_safe um s \<longleftrightarrow> (\<forall>d \<in> set (ts_trigrams s) \<union> \<Union>(set ` set (ts_facets s)) \<union> set (ts_excludes s). dir_safe um d)"

lemma collect_nonempty_length:
  "collect_nonempty rs = Ok (Some bms) \<Longrightarrow> length bms = length rs"
proof (induction rs arbitrary: bms)
  case Nil
  then show ?case by simp
next
  case (Cons r rs)
  then show ?case by (cases r) (auto simp: map_ok_Ok_iff split: if_splits)
qed

lemma collect_nonempty_no_panic: "Panic \<notin> set rs \<Longrightarrow> collect_nonempty rs \<noteq> Panic"
proof (induction rs)
  case Nil
  then show ?case by simp
next
  case (Cons r rs)
  then show ?case by (cases r) auto
qed

lemma parse_dirs_safe:
  assumes "\<forall>(t, h) \<in> set ths. snd t + span_gap < um \<and> snd t < 2 ^ 40 \<and> (h \<noteq> [] \<longrightarrow> fst t + snd t < U64)"
  shows "parse_dirs um ths \<noteq> Panic"
    and "parse_dirs um ths = Ok (Some dirs) \<Longrightarrow> \<forall>d \<in> set dirs. dir_safe um d"
  using assms
proof (induction ths arbitrary: dirs)
  case Nil
  {
    case 1
    then show ?case by simp
  next
    case 2
    then show ?case by simp
  }
next
  case (Cons th ths)
  obtain off len h where th: "th = ((off, len), h)" by (metis prod.exhaust)
  {
    case 1
    then show ?case using Cons.IH(1) th parse_dir_no_panic by (auto simp: outcome_simps split: option.splits)
  next
    case 2
    obtain dir rest where d: "parse_dir um h len = Ok (Some dir)" "parse_dirs um ths = Ok (Some rest)"
      "dirs = \<lparr>td_off = off, td_dir = dir\<rparr> # rest"
      using th 2(1) by (auto simp: outcome_simps map_ok_Ok_iff split: option.splits)
    have "h \<noteq> []" using d(1) by (auto simp: parse_dir_def)
    then have "dir_safe um \<lparr>td_off = off, td_dir = dir\<rparr>"
      using parse_dir_ok [OF d(1)] 2 th by (auto simp: dir_safe_def)
    then show ?case using Cons.IH(2) [OF d(2)] 2 th d(3) by simp
  }
qed

context bounded_fetch
begin

lemma read_in_object: "rd fetch off n = Ok b \<Longrightarrow> b \<noteq> [] \<Longrightarrow> off \<le> length content"
  using fetch_length [of off n b] fetch_within [of off n b] by (cases n) auto

lemma open_tail_dirs_safe:
  assumes fit: "\<forall>t \<in> set tails. range_fits um (length content) t"
  shows "open_tail_dirs um fetch tails \<noteq> Panic"
    and "open_tail_dirs um fetch tails = Ok (Some dirs) \<Longrightarrow> \<forall>d \<in> set dirs. dir_safe um d"
proof -
  have "wave (\<lambda>(off, len). rd fetch off (min len header_prefix)) tails \<noteq> Panic"
    by (rule wave_not_Panic) (auto simp: header_prefix_def intro!: rd_bounded simp del: rd_Panic_iff)
  moreover have "wave (\<lambda>(i, hl). rd fetch (fst (tails ! i)) hl) (filter P (enumerate 0 (map the (map (needed_header_len um) headers)))) \<noteq> Panic"
    if all: "None \<notin> set (map (needed_header_len um) headers)" for P headers
  proof (rule wave_not_Panic)
    fix x assume "x \<in> set (filter P (enumerate 0 (map the (map (needed_header_len um) headers))))"
    then obtain i where i: "i < length headers" "x = (i, the (needed_header_len um (headers ! i)))"
      by (auto simp: in_set_enumerate_eq)
    obtain n where "needed_header_len um (headers ! i) = Some n" using all i(1) by (metis in_set_conv_nth length_map not_Some_eq nth_map)
    then show "(case x of (i, hl) \<Rightarrow> rd fetch (fst (tails ! i)) hl) \<noteq> Panic"
      using i(2) needed_header_len_bound by (simp add: fetch_bounded)
  qed
  ultimately have w: "wave (\<lambda>(off, len). rd fetch off (min len header_prefix)) tails \<noteq> Panic"
    "\<And>P headers. None \<notin> set (map (needed_header_len um) headers) \<Longrightarrow>
      wave (\<lambda>(i, hl). rd fetch (fst (tails ! i)) hl) (filter P (enumerate 0 (map the (map (needed_header_len um) headers)))) \<noteq> Panic"
    by blast+
  have z: "\<forall>(t, h) \<in> set (zip tails (map (\<lambda>i. case map_of (zip (map fst rf) reads) i of Some r \<Rightarrow> r | None \<Rightarrow> headers ! i)
        [0..<length headers])). snd t + span_gap < um \<and> snd t < 2 ^ 40 \<and> (h \<noteq> [] \<longrightarrow> fst t + snd t < U64)"
    if hs: "wave (\<lambda>(off, len). rd fetch off (min len header_prefix)) tails = Ok headers"
      and rs: "wave (\<lambda>(i, hl). rd fetch (fst (tails ! i)) hl) rf = Ok reads" for headers rf reads
  proof -
    have fits: "snd (tails ! i) + span_gap < um \<and> snd (tails ! i) < 2 ^ 40 \<and> (h \<noteq> [] \<longrightarrow> fst (tails ! i) + snd (tails ! i) < U64)"
      if i: "i < length tails" and h: "h = (case map_of (zip (map fst rf) reads) i of Some r \<Rightarrow> r | None \<Rightarrow> headers ! i)" for i h
    proof -
      have "\<exists>n. rd fetch (fst (tails ! i)) n = Ok h"
      proof (cases "map_of (zip (map fst rf) reads) i")
        case None
        then show ?thesis using wave_Ok_nth [OF hs i] h by (auto simp: case_prod_beta)
      next
        case (Some r)
        then obtain j where j: "j < length rf" "j < length reads" "fst (rf ! j) = i" "reads ! j = r"
          using map_of_SomeD [OF Some] by (auto simp: in_set_zip)
        show ?thesis using wave_Ok_nth [OF rs j(1)] j Some h by (auto simp: case_prod_beta)
      qed
      then show ?thesis using fit nth_mem [OF i] read_in_object by (auto simp: range_fits_def case_prod_beta)
    qed
    show ?thesis
    proof (intro ballI, clarify)
      fix off len h
      let ?hs = "map (\<lambda>i. case map_of (zip (map fst rf) reads) i of Some r \<Rightarrow> r | None \<Rightarrow> headers ! i) [0..<length headers]"
      assume "((off, len), h) \<in> set (zip tails ?hs)"
      then obtain i where i: "i < length tails" "(off, len) = tails ! i" "h = ?hs ! i" "i < length headers"
        unfolding in_set_zip by auto
      from i(4) have "?hs ! i = (case map_of (zip (map fst rf) reads) i of Some r \<Rightarrow> r | None \<Rightarrow> headers ! i)"
        by (simp only: nth_map_upt diff_zero add_0)
      then show "snd (off, len) + span_gap < um \<and> snd (off, len) < 2 ^ 40 \<and> (h \<noteq> [] \<longrightarrow> fst (off, len) + snd (off, len) < U64)"
        using fits [of i h] i by simp
    qed
  qed
  show "open_tail_dirs um fetch tails \<noteq> Panic"
    using w parse_dirs_safe(1) [OF z] by (auto simp: open_tail_dirs_def Let_def bind_o_Panic_iff)
  show "\<forall>d \<in> set dirs. dir_safe um d" if "open_tail_dirs um fetch tails = Ok (Some dirs)"
    using that parse_dirs_safe(2) [OF z] by (auto simp: open_tail_dirs_def Let_def bind_o_Ok_iff split: if_splits)
qed

lemma read_dir_subset_no_panic: "dir_safe um d \<Longrightarrow> read_dir_subset um deser fetch d keys \<noteq> Panic"
  unfolding read_dir_subset_def dir_safe_def
  using fetch_containers_no_panic dir_ok_filter by fastforce

lemma intersect_window_no_panic:
  assumes "\<forall>d \<in> set dirs. dir_safe um d"
  shows "intersect_key_window um deser fetch dirs window \<noteq> Panic"
proof (cases "dirs = [] \<or> window = []")
  case True
  then show ?thesis by (auto simp: intersect_key_window_def)
next
  case False
  have read: "read_dir_subset um deser fetch d keys \<noteq> Panic" if "d \<in> set dirs" for d keys
    using read_dir_subset_no_panic assms that by blast
  have seed: "window_seed um deser fetch dirs window \<noteq> Panic"
  proof -
    have "map (\<lambda>d. window_cost d window) dirs \<noteq> []" using False by simp
    from min_index_less [OF this] show ?thesis
      using read by (auto simp: window_seed_def Let_def outcome_simps split: if_splits)
  qed
  have tail: "bind_o (join_all (\<lambda>(_, d). read_dir_subset um deser fetch d keys) rest) (\<lambda>results.
               bind_o (collect_nonempty results) (\<lambda>bms.
                 case bms of
                   None \<Rightarrow> Ok {}
                 | Some bms \<Rightarrow>
                     (case sort_key card (bms @ more) of [] \<Rightarrow> Panic | acc # bs \<Rightarrow> Ok (inter_loop acc bs)))) \<noteq> Panic"
    if sub: "\<forall>(i, d) \<in> set rest. d \<in> set dirs" and ne: "rest \<noteq> [] \<or> more \<noteq> []" for keys rest more
  proof -
    let ?rs = "map (\<lambda>(_, d). read_dir_subset um deser fetch d keys) rest"
    have np: "Panic \<notin> set ?rs"
    proof
      assume "Panic \<in> set ?rs"
      then obtain i d where "(i, d) \<in> set rest" "read_dir_subset um deser fetch d keys = Panic" by auto
      then show False using read sub by blast
    qed
    then have join: "join_all (\<lambda>(_, d). read_dir_subset um deser fetch d keys) rest = Ok ?rs"
      by (auto simp: join_all_def list_ex_iff image_iff)
    show ?thesis
    proof (cases "collect_nonempty ?rs")
      case Panic
      then show ?thesis using collect_nonempty_no_panic [OF np] by simp
    next
      case (Err e)
      then show ?thesis using join by simp
    next
      case (Ok r)
      show ?thesis
      proof (cases r)
        case None
        then show ?thesis using join Ok by simp
      next
        case (Some bms)
        then have "bms @ more \<noteq> []" using collect_nonempty_length Ok ne by fastforce
        then obtain a as where "sort_key card (bms @ more) = a # as" using sort_key_Cons by blast
        then show ?thesis using join Ok Some by simp
      qed
    qed
  qed
  have mem: "\<forall>(i, d) \<in> set (filter P (enumerate 0 dirs)). d \<in> set dirs" for P
    by (auto simp: in_set_enumerate_eq)
  have "enumerate 0 dirs \<noteq> []" using False by (metis length_0_conv length_enumerate)
  then show ?thesis
    using False seed tail [OF mem]
    by (auto simp: intersect_key_window_def Let_def bind_o_Panic_iff [of "window_seed _ _ _ _ _"]
        filter_True split: sum.splits option.splits)
qed

lemma wave_dirs_no_panic:
  "\<forall>d \<in> set dirs. dir_safe um d \<Longrightarrow> wave (\<lambda>cat. read_dir_subset um deser fetch cat window) dirs \<noteq> Panic"
  using read_dir_subset_no_panic by (intro wave_not_Panic) blast

lemma filter_fields_no_panic:
  assumes "\<forall>dirs \<in> set flds. \<forall>d \<in> set dirs. dir_safe um d"
  shows "filter_fields um deser fetch window flds bm \<noteq> Panic"
  using assms by (induction flds arbitrary: bm) (auto simp: outcome_simps wave_dirs_no_panic)

end

locale scan_reader = ix: bounded_fetch fetch content + fx: bounded_fetch ffetch fcontent
  for fetch content ffetch fcontent
begin

lemma next_window_no_panic:
  assumes "scan_safe um s" "length (ts_keys s) + batch \<le> um" "ffo = None \<or> ffo = Some ffetch"
  shows "next_window um deser fetch ffo batch s \<noteq> Panic"
proof (cases "exhausted s")
  case True
  then show ?thesis by (simp add: next_window_def)
next
  case False
  have T: "\<forall>d \<in> set (ts_trigrams s). dir_safe um d" and F: "\<forall>dirs \<in> set (ts_facets s). \<forall>d \<in> set dirs. dir_safe um d"
    and X: "\<forall>d \<in> set (ts_excludes s). dir_safe um d"
    using assms(1) by (auto simp: scan_safe_def)
  have pos: "ts_pos s < length (ts_keys s)" using False by (simp add: exhausted_def)
  then have add: "add_p um (ts_pos s) batch = (Ok (ts_pos s + batch) :: nat ires)" using assms(2) by simp
  have cut: "cut_p (ts_keys s) (ts_pos s) (min (ts_pos s + batch) (length (ts_keys s)))
      = (Ok (cut (ts_keys s) (ts_pos s) (min (ts_pos s + batch) (length (ts_keys s)))) :: nat list ires)"
    using pos by simp
  show ?thesis
    using assms(3) False add cut ix.intersect_window_no_panic [OF T] fx.filter_fields_no_panic [OF F] fx.wave_dirs_no_panic [OF X]
    by (auto simp: next_window_def Let_def bind_o_Panic_iff)
qed

lemma open_fields_safe:
  assumes "\<forall>field \<in> set ffs. \<forall>t \<in> set field. range_fits um (length fcontent) t" "ffo = None \<or> ffo = Some ffetch"
  shows "open_fields um ffo ffs \<noteq> Panic"
    and "open_fields um ffo ffs = Ok (Some facets) \<Longrightarrow> \<forall>dirs \<in> set facets. \<forall>d \<in> set dirs. dir_safe um d"
  using assms
proof (induction ffs arbitrary: facets)
  case Nil
  {
    case 1
    then show ?case by simp
  next
    case 2
    then show ?case by simp
  }
next
  case (Cons f ffs)
  {
    case 1
    then show ?case using Cons.IH(1) fx.open_tail_dirs_safe(1) [of f um]
      by (auto simp: outcome_simps split: option.splits)
  next
    case 2
    then obtain dirs rest where d: "ffo = Some ffetch" "open_tail_dirs um ffetch f = Ok (Some dirs)"
      "open_fields um ffo ffs = Ok (Some rest)" "facets = dirs # rest"
      by (auto simp: outcome_simps map_ok_Ok_iff split: option.splits)
    then show ?case using Cons.IH(2) [OF d(3)] fx.open_tail_dirs_safe(2) [OF _ d(2)] 2 by simp
  }
qed

lemma scan_open_safe:
  assumes "\<forall>t \<in> set tails. range_fits um (length content) t" "\<forall>field \<in> set ffs. \<forall>t \<in> set field. range_fits um (length fcontent) t"
    and "\<forall>t \<in> set excl. range_fits um (length fcontent) t" and ff: "ffo = None \<or> ffo = Some ffetch"
  shows "tail_scan_open um fetch tails ffo ffs excl min_key \<noteq> Panic"
    and "tail_scan_open um fetch tails ffo ffs excl min_key = Ok (Some s) \<Longrightarrow> scan_safe um s"
proof -
  show "tail_scan_open um fetch tails ffo ffs excl min_key \<noteq> Panic"
    using ix.open_tail_dirs_safe(1) [OF assms(1)] fx.open_tail_dirs_safe(1) [OF assms(3)] open_fields_safe(1) [OF assms(2) ff] ff
    by (auto simp: tail_scan_open_def Let_def bind_o_Panic_iff split: option.splits if_splits)
  assume "tail_scan_open um fetch tails ffo ffs excl min_key = Ok (Some s)"
  then obtain tri facets ex where o: "open_tail_dirs um fetch tails = Ok (Some tri)" "open_fields um ffo ffs = Ok (Some facets)"
    "(if excl = [] then Ok (Some [])
             else bind_o (ok_or ffo (BadQuery facet_fetcher_missing)) (\<lambda>ff. open_tail_dirs um ff excl)) = Ok (Some ex)"
    "ts_trigrams s = tri" "ts_facets s = facets" "ts_excludes s = ex"
    by (auto simp: tail_scan_open_def Let_def bind_o_Ok_iff split: option.splits)
  have "\<forall>d \<in> set ex. dir_safe um d"
    using o(3) ff fx.open_tail_dirs_safe(2) [OF assms(3), of ex] by (auto split: if_splits)
  then show "scan_safe um s"
    using o ix.open_tail_dirs_safe(2) [OF assms(1) o(1)] open_fields_safe(2) [OF assms(2) ff o(2)]
    by (auto simp: scan_safe_def)
qed

end

interpretation rscan: scan_reader "mem_read um m" "mf_bytes m" "mem_read fum fm" "mf_bytes fm" for um m fum fm
  by unfold_locales

section \<open>Properties\<close>

text \<open>
  C7: Paging a filtered strict AND is exact: opening a scan over stored postings, category
  postings and exclusions and draining it window by window returns, in ascending order, exactly
  the documents that every posting holds, that some selected category of every field holds, and
  that no excluded category holds, from bucket \<open>min_key\<close> on; for every window size.
\<close>

theorem tail_scan_exact:
  assumes "roaring deser ser" "length bs + span_gap < um" "length fbs + span_gap < um" "um \<le> U64"
    and "ts \<noteq> []" "list_all2 (\<lambda>sel (off, len). stored bs sel off len) ts tails"
    and "list_all2 (list_all2 (\<lambda>sel (off, len). stored fbs sel off len)) fs flds"
    and "list_all2 (\<lambda>sel (off, len). stored fbs sel off len) xs excl"
    and "0 < batch" "65536 + batch < um"
  shows "\<exists>s. tail_scan_open um (mem_read um (mem_new bs)) tails (Some (mem_read um (mem_new fbs))) flds excl min_key = Ok (Some s)
    \<and> scan_drain 65536 um deser (mem_read um (mem_new bs)) (Some (mem_read um (mem_new fbs))) batch s []
      = Ok (sorted_list_of_set {x \<in> scan_result ts fs xs. min_key \<le> high_key x})"
proof -
  have st: "posting_store (mem_read um (mem_new b)) b um deser ser" for b
    by (intro posting_store.intro memf.full_fetch_axioms assms(1))
  have sc: "scan_store (mem_read um (mem_new bs)) bs um deser ser (mem_read um (mem_new fbs)) fbs um"
    by (intro scan_store.intro st)
  have addr: "addressable um um bs" "addressable um um fbs" using assms(2-4) by (simp_all add: addressable_def)
  have hold: "posting_store.tails_hold b um um sels l"
    if "addressable um um b" "list_all2 (\<lambda>sel (off, len). stored b sel off len) sels l" for b sels l
    using that(2) unfolding posting_store.tails_hold_def [OF st]
    by (rule list_all2_mono) (auto simp: posting_store.holds_def [OF st] that(1))
  have "list_all2 (posting_store.tails_hold fbs um um) fs flds"
    by (rule list_all2_mono [OF assms(7)]) (rule hold [OF addr(2)])
  then show ?thesis
    using scan_store.open_and_drain [OF sc hold [OF addr(1) assms(6)] assms(5) _ hold [OF addr(2) assms(8)] _ assms(9,10)]
    by blast
qed

lemma tail_scan_exact_witness:
  "\<exists>s. tail_scan_open U32 (mem_read U32 (mem_new demo_store)) [(0, 32)] (Some (mem_read U32 (mem_new demo_store)))
         [[(32, 28), (0, 32)]] [(32, 28)] 0 = Ok (Some s)
    \<and> scan_drain 65536 U32 format_decode (mem_read U32 (mem_new demo_store)) (Some (mem_read U32 (mem_new demo_store))) 1 s []
      = Ok [1, 5, 196615]"
proof -
  have demo_set: "{x \<in> scan_result [demo_a] [[demo_b, demo_a]] [demo_b]. 0 \<le> high_key x} = {1, 5, 196615}"
    by (auto simp: scan_result_def demo_docs)
  have eq: "sorted_list_of_set {x \<in> scan_result [demo_a] [[demo_b, demo_a]] [demo_b]. 0 \<le> high_key x} = [1, 5, 196615]"
    unfolding demo_set by simp
  have "\<exists>s. tail_scan_open U32 (mem_read U32 (mem_new demo_store)) [(0, 32)] (Some (mem_read U32 (mem_new demo_store)))
         [[(32, 28), (0, 32)]] [(32, 28)] 0 = Ok (Some s)
    \<and> scan_drain 65536 U32 format_decode (mem_read U32 (mem_new demo_store)) (Some (mem_read U32 (mem_new demo_store))) 1 s []
      = Ok (sorted_list_of_set {x \<in> scan_result [demo_a] [[demo_b, demo_a]] [demo_b]. 0 \<le> high_key x})"
    by (rule tail_scan_exact [OF format.roaring_axioms])
      (use demo_stored in \<open>simp_all add: demo_lengths span_gap_def\<close>)
  then show ?thesis unfolding eq .
qed

text \<open>
  No directory makes a scan panic: over any two objects and with any deserialiser, opening a
  scan ends in an answer or an error, and so does every later window of an opened scan,
  whatever key windows the directories produced.
\<close>

lemma tail_scan_hostile_safe:
  assumes "bounded_fetch f content" "bounded_fetch ff fcontent"
    and "\<forall>t \<in> set tails. range_fits um (length content) t"
    and "\<forall>t \<in> \<Union>(set ` set flds) \<union> set excl. range_fits um (length fcontent) t"
  shows "tail_scan_open um f tails (Some ff) flds excl min_key \<noteq> Panic
    \<and> (\<forall>s pos. tail_scan_open um f tails (Some ff) flds excl min_key = Ok (Some s)
         \<and> length (ts_keys s) + batch \<le> um \<longrightarrow>
         next_window um deser f (Some ff) batch (s\<lparr>ts_pos := pos\<rparr>) \<noteq> Panic)"
proof -
  have sr: "scan_reader f content ff fcontent" using assms(1,2) by (rule scan_reader.intro)
  have T: "\<forall>t \<in> set tails. range_fits um (length content) t" and F: "\<forall>f \<in> set flds. \<forall>t \<in> set f. range_fits um (length fcontent) t"
    and X: "\<forall>t \<in> set excl. range_fits um (length fcontent) t"
    using assms(3,4) by auto
  have some: "Some ff = None \<or> Some ff = Some ff" by simp
  have "next_window um deser f (Some ff) batch (s\<lparr>ts_pos := pos\<rparr>) \<noteq> Panic"
    if "tail_scan_open um f tails (Some ff) flds excl min_key = Ok (Some s)"
      "length (ts_keys s) + batch \<le> um" for s pos
  proof (rule scan_reader.next_window_no_panic [OF sr])
    show "scan_safe um (s\<lparr>ts_pos := pos\<rparr>)"
      using scan_reader.scan_open_safe(2) [OF sr T F X some that(1)] by (simp add: scan_safe_def)
  qed (use that(2) in simp_all)
  then show ?thesis using scan_reader.scan_open_safe(1) [OF sr T F X some] by blast
qed

end
