(* ===== verification/RR_Ngram.thy ===== *)
theory RR_Ngram imports RR_Prelude "HOL-Library.Sublist" begin

text \<open>
  N-gram key derivation, \<open>rust/src/ngram.rs\<close>: splitting a query into words, keeping letters
  and digits, lower-casing, and packing or hashing every window of \<open>gram_size\<close> characters.
  A character is its scalar value. The Unicode tables the code consults are parameters:
  \<open>gc\<close> stands for \<open>get_general_category\<close> of the crate \<open>unicode_general_category\<close> and
  \<open>lower\<close> for the mapping of \<open>char::to_lowercase\<close>.

  The lemmas show that the keys of a query are exactly the keys of the windows of its words,
  each once, that a text that contains the query's words has all its keys, and on which
  windows the key is injective.
\<close>

type_synonym uchar = "32 word"
type_synonym ustring = "uchar list"

datatype general_category =
    UppercaseLetter | LowercaseLetter | TitlecaseLetter | ModifierLetter | OtherLetter
  | DecimalNumber | OtherCategory

definition fnv_offset64 :: "64 word" where "fnv_offset64 = 14695981039346656037"
definition fnv_prime64 :: "64 word" where "fnv_prime64 = 1099511628211"

section \<open>Words\<close>

text \<open>The \<open>White_Space\<close> property, on which \<open>str::split_whitespace\<close> splits.\<close>

definition is_whitespace :: "uchar \<Rightarrow> bool" where
  "is_whitespace c \<longleftrightarrow>
     (0x9 \<le> c \<and> c \<le> 0xD) \<or> c = 0x20 \<or> c = 0x85 \<or> c = 0xA0 \<or> c = 0x1680
     \<or> (0x2000 \<le> c \<and> c \<le> 0x200A) \<or> c = 0x2028 \<or> c = 0x2029 \<or> c = 0x202F \<or> c = 0x205F \<or> c = 0x3000"

function split_whitespace :: "ustring \<Rightarrow> ustring list" where
  "split_whitespace s =
     (case dropWhile is_whitespace s of
        [] \<Rightarrow> []
      | c # cs \<Rightarrow> (c # takeWhile (\<lambda>d. \<not> is_whitespace d) cs)
                  # split_whitespace (dropWhile (\<lambda>d. \<not> is_whitespace d) cs))"
  by pat_completeness auto
termination
proof (relation "measure length")
  fix s c cs assume "dropWhile is_whitespace s = c # cs"
  then have "length (c # cs) \<le> length s" by (metis length_dropWhile_le)
  moreover have "length (dropWhile (\<lambda>d. \<not> is_whitespace d) cs) \<le> length cs"
    by (rule length_dropWhile_le)
  ultimately show "(dropWhile (\<lambda>d. \<not> is_whitespace d) cs, s) \<in> measure length" by simp
qed simp

declare split_whitespace.simps [simp del]

section \<open>Normalisation\<close>

definition is_letter_or_digit :: "(uchar \<Rightarrow> general_category) \<Rightarrow> uchar \<Rightarrow> bool" where
  "is_letter_or_digit gc c =
     (case gc c of UppercaseLetter \<Rightarrow> True | LowercaseLetter \<Rightarrow> True | TitlecaseLetter \<Rightarrow> True
      | ModifierLetter \<Rightarrow> True | OtherLetter \<Rightarrow> True | DecimalNumber \<Rightarrow> True | _ \<Rightarrow> False)"

definition to_lower_rune :: "(uchar \<Rightarrow> ustring) \<Rightarrow> uchar \<Rightarrow> uchar" where
  "to_lower_rune lower c = (case lower c of [] \<Rightarrow> c | d # _ \<Rightarrow> d)"

definition normalize ::
  "(uchar \<Rightarrow> general_category) \<Rightarrow> (uchar \<Rightarrow> ustring) \<Rightarrow> ustring \<Rightarrow> bool \<Rightarrow> ustring" where
  "normalize gc lower s case_fold =
     map (\<lambda>c. if case_fold then to_lower_rune lower c else c) (filter (is_letter_or_digit gc) s)"

section \<open>Keys\<close>

definition fnv_step :: "64 word \<Rightarrow> 64 word \<Rightarrow> 64 word" where
  "fnv_step h b = xor h b * fnv_prime64"

definition hash_runes :: "ustring \<Rightarrow> 64 word" where
  "hash_runes runes =
     foldl (\<lambda>h r. fnv_step (fnv_step (fnv_step (fnv_step h (ucast (and r 0xFF)))
               (ucast (and (drop_bit 8 r) 0xFF))) (ucast (and (drop_bit 16 r) 0xFF)))
               (ucast (and (drop_bit 24 r) 0xFF)))
       fnv_offset64 runes"

fun pack_ascii :: "ustring \<Rightarrow> 64 word \<Rightarrow> ustring \<Rightarrow> 64 word" where
  "pack_ascii all key [] = key"
| "pack_ascii all key (r # rs) =
     (if 127 < r then hash_runes all else pack_ascii all (or (push_bit 8 key) (ucast r)) rs)"

definition rune_ngram_key :: "ustring \<Rightarrow> 64 word" where
  "rune_ngram_key runes =
     (let n = length runes in
      if n \<le> 2 then foldl (\<lambda>key r. or (push_bit 32 key) (ucast r)) 0 runes
      else if n \<le> 8 then pack_ascii runes 0 runes
      else hash_runes runes)"

definition windows :: "nat \<Rightarrow> 'a list \<Rightarrow> 'a list list" where
  "windows n xs = map (\<lambda>i. cut xs i (i + n)) [0..<length xs + 1 - n]"

definition ngram_keys_with ::
  "(uchar \<Rightarrow> general_category) \<Rightarrow> (uchar \<Rightarrow> ustring) \<Rightarrow> ustring \<Rightarrow> nat \<Rightarrow> bool \<Rightarrow> 64 word list" where
  "ngram_keys_with gc lower query gram_size case_fold =
     (if gram_size = 0 then []
      else foldl (\<lambda>keys field.
             let runes = normalize gc lower field case_fold in
             if length runes < gram_size then keys
             else foldl (\<lambda>ks w. let k = rune_ngram_key w in if k \<in> set ks then ks else ks @ [k])
                    keys (windows gram_size runes))
           [] (split_whitespace query))"

definition ngram_keys ::
  "(uchar \<Rightarrow> general_category) \<Rightarrow> (uchar \<Rightarrow> ustring) \<Rightarrow> ustring \<Rightarrow> nat \<Rightarrow> 64 word list" where
  "ngram_keys gc lower query gram_size = ngram_keys_with gc lower query gram_size True"

section \<open>Which keys a text has\<close>

lemma in_set_windows:
  "0 < n \<Longrightarrow> w \<in> set (windows n xs) \<longleftrightarrow> length w = n \<and> sublist w xs"
proof
  assume n: "0 < n" and "w \<in> set (windows n xs)"
  then obtain i where "i < length xs + 1 - n" "w = cut xs i (i + n)"
    by (auto simp: windows_def simp del: One_nat_def)
  then have i: "i + n \<le> length xs" "w = take n (drop i xs)"
    using n by (simp_all add: cut_def)
  have "xs = take i xs @ take n (drop i xs) @ drop (i + n) xs"
    by (metis add.commute append_take_drop_id drop_drop)
  then show "length w = n \<and> sublist w xs" using i by (auto simp: sublist_def)
next
  assume n: "0 < n" and w: "length w = n \<and> sublist w xs"
  then obtain a b where xs: "xs = a @ w @ b" by (auto simp: sublist_def)
  then have "cut xs (length a) (length a + n) = w" "length a < length xs + 1 - n"
    using w by (simp_all add: cut_def)
  then show "w \<in> set (windows n xs)" unfolding windows_def by force
qed

lemma keys_fold_windows:
  "set (foldl (\<lambda>ks w. let k = rune_ngram_key w in if k \<in> set ks then ks else ks @ [k]) ks ws)
     = set ks \<union> rune_ngram_key ` set ws"
proof (induction ws arbitrary: ks)
  case Nil
  then show ?case by simp
next
  case (Cons w ws)
  show ?case unfolding foldl_Cons Cons.IH by (auto simp: Let_def)
qed

lemma distinct_fold_windows:
  "distinct ks \<Longrightarrow>
   distinct (foldl (\<lambda>ks w. let k = rune_ngram_key w in if k \<in> set ks then ks else ks @ [k]) ks ws)"
  by (induction ws arbitrary: ks) (auto simp: Let_def)

definition key_step :: "(uchar \<Rightarrow> general_category) \<Rightarrow> (uchar \<Rightarrow> ustring) \<Rightarrow> nat \<Rightarrow> bool
    \<Rightarrow> 64 word list \<Rightarrow> ustring \<Rightarrow> 64 word list" where
  "key_step gc lower n cf keys field =
     (let runes = normalize gc lower field cf in
      if length runes < n then keys
      else foldl (\<lambda>ks w. let k = rune_ngram_key w in if k \<in> set ks then ks else ks @ [k])
             keys (windows n runes))"

lemma ngram_keys_with_alt:
  "ngram_keys_with gc lower q n cf =
     (if n = 0 then [] else foldl (key_step gc lower n cf) [] (split_whitespace q))"
  by (simp add: ngram_keys_with_def key_step_def [abs_def])

lemma set_key_step:
  assumes "0 < n"
  shows "set (key_step gc lower n cf ks field) = set ks \<union>
     rune_ngram_key ` {w. length w = n \<and> sublist w (normalize gc lower field cf)}"
proof (cases "length (normalize gc lower field cf) < n")
  case True
  then have none: "{w. length w = n \<and> sublist w (normalize gc lower field cf)} = {}"
    using sublist_length_le by fastforce
  then show ?thesis using True by (simp only: key_step_def Let_def none if_True image_empty Un_empty_right)
next
  case False
  have "set (windows n (normalize gc lower field cf)) = {w. length w = n \<and> sublist w (normalize gc lower field cf)}"
    using in_set_windows [OF assms] by blast
  then show ?thesis using False by (simp add: key_step_def keys_fold_windows)
qed

lemma set_ngram_keys_with:
  assumes "0 < n"
  shows "set (ngram_keys_with gc lower q n cf) =
     {rune_ngram_key w | w field. field \<in> set (split_whitespace q) \<and> length w = n
        \<and> sublist w (normalize gc lower field cf)}"
proof -
  have "set (foldl (key_step gc lower n cf) ks fs) = set ks \<union>
     {rune_ngram_key w | w field. field \<in> set fs \<and> length w = n
        \<and> sublist w (normalize gc lower field cf)}" for ks fs
  proof (induction fs arbitrary: ks)
    case Nil
    then show ?case by simp
  next
    case (Cons f fs)
    show ?case unfolding foldl_Cons Cons.IH set_key_step [OF assms] by auto
  qed
  then show ?thesis using assms by (simp add: ngram_keys_with_alt)
qed

lemma distinct_key_step: "distinct ks \<Longrightarrow> distinct (key_step gc lower n cf ks f)"
  by (simp add: key_step_def Let_def distinct_fold_windows [unfolded Let_def])

lemma distinct_ngram_keys_with: "distinct (ngram_keys_with gc lower q n cf)"
proof -
  have "distinct ks \<Longrightarrow> distinct (foldl (key_step gc lower n cf) ks fs)" for ks fs
    by (induction fs arbitrary: ks) (simp_all add: distinct_key_step)
  then show ?thesis by (simp add: ngram_keys_with_alt)
qed

text \<open>Words never hold white space and are never empty.\<close>

lemma split_whitespace_words:
  "f \<in> set (split_whitespace s) \<Longrightarrow> f \<noteq> [] \<and> (\<forall>c \<in> set f. \<not> is_whitespace c)"
proof (induction s rule: split_whitespace.induct)
  case (1 s)
  show ?case
  proof (cases "dropWhile is_whitespace s")
    case Nil
    then have "split_whitespace s = []" by (simp only: split_whitespace.simps [of s] list.case)
    then show ?thesis using "1.prems" by simp
  next
    case (Cons c cs)
    then have "\<not> is_whitespace c" by (metis dropWhile_eq_Cons_conv)
    moreover have "split_whitespace s = (c # takeWhile (\<lambda>d. \<not> is_whitespace d) cs)
        # split_whitespace (dropWhile (\<lambda>d. \<not> is_whitespace d) cs)"
      by (simp only: split_whitespace.simps [of s] Cons list.case)
    ultimately consider (word) "f = c # takeWhile (\<lambda>d. \<not> is_whitespace d) cs" "\<not> is_whitespace c"
      | (rest) "f \<in> set (split_whitespace (dropWhile (\<lambda>d. \<not> is_whitespace d) cs))"
      using "1.prems" by auto
    then show ?thesis
    proof cases
      case word
      then show ?thesis by (auto dest: set_takeWhileD)
    qed (rule "1.IH" [OF Cons])
  qed
qed

section \<open>Injective packing\<close>

lemma push_or_unat:
  fixes key x :: "64 word"
  assumes "unat x < 2 ^ k" "unat key < 2 ^ (64 - k)" "k \<le> 64"
  shows "unat (or (push_bit k key) x) = unat key * 2 ^ k + unat x"
proof -
  have "and (push_bit k key) x = 0"
  proof (rule bit_word_eqI)
    fix n assume "n < LENGTH(64)"
    have "\<not> bit x n" if "k \<le> n"
    proof -
      have "unat x < 2 ^ n" using assms(1) that by (meson less_le_trans one_le_numeral power_increasing)
      then have "\<not> bit (unat x) n" by (simp add: bit_iff_odd)
      then show ?thesis using \<open>n < LENGTH(64)\<close> by (simp add: bit_unsigned_iff)
    qed
    then show "bit (and (push_bit k key) x) n = bit 0 n"
      by (auto simp: bit_simps)
  qed
  then have sum: "or (push_bit k key) x = push_bit k key + x"
    by (simp add: disjunctive_add_eq_or)
  have bound: "unat key * 2 ^ k + unat x < 2 ^ 64"
  proof -
    have "(unat key + 1) * 2 ^ k \<le> 2 ^ (64 - k) * 2 ^ k"
      using assms(2) by (intro mult_right_mono) auto
    also have "\<dots> = 2 ^ 64" using assms(3) by (simp flip: power_add)
    finally show ?thesis using assms(1) by (simp add: algebra_simps)
  qed
  have "unat (push_bit k key) = take_bit 64 (push_bit k (unat key))"
    by (simp add: unsigned_push_bit_eq)
  then have "unat (push_bit k key) = unat key * 2 ^ k"
    using bound by (simp add: push_bit_eq_mult take_bit_nat_eq_self)
  with sum bound show ?thesis
    by (simp add: unat_word_ariths take_bit_nat_eq_self)
qed

text \<open>Both packings are positional notation: base \<open>2 ^ 32\<close> and base \<open>2 ^ 8\<close>.\<close>

definition positional :: "nat \<Rightarrow> ustring \<Rightarrow> nat" where
  "positional b rs = foldl (\<lambda>k r. k * b + unat r) 0 rs"

lemma positional_snoc [simp]: "positional b (rs @ [r]) = positional b rs * b + unat r"
  by (simp add: positional_def)

lemma positional_less: "(\<And>r. r \<in> set rs \<Longrightarrow> unat r < b) \<Longrightarrow> positional b rs < b ^ length rs"
proof (induction rs rule: rev_induct)
  case Nil
  then show ?case by (simp add: positional_def)
next
  case (snoc r rs)
  then have "positional b rs + 1 \<le> b ^ length rs" "unat r < b" by (simp_all add: Suc_leI)
  then have "(positional b rs + 1) * b \<le> b ^ length rs * b" by (intro mult_right_mono) auto
  then have "positional b rs * b + unat r < b ^ length rs * b"
    using \<open>unat r < b\<close> by (simp add: algebra_simps)
  then show ?case by (simp add: mult.commute)
qed

lemma positional_inj:
  assumes "\<And>r. r \<in> set as \<union> set bs \<Longrightarrow> unat r < b" "length as = length bs"
    and "positional b as = positional b bs"
  shows "as = bs"
  using assms
proof (induction as arbitrary: bs rule: rev_induct)
  case Nil
  then show ?case by simp
next
  case (snoc r as)
  then obtain r' bs' where bs: "bs = bs' @ [r']" by (metis length_append_singleton length_0_conv nat.distinct(1) rev_exhaust)
  have r: "unat r < b" "unat r' < b" using snoc.prems(1) bs by auto
  have eq: "positional b as * b + unat r = positional b bs' * b + unat r'" using snoc.prems(3) bs by simp
  have "unat r = unat r'" using arg_cong [OF eq, of "\<lambda>x. x mod b"] r by simp
  moreover from this have "positional b as * b = positional b bs' * b" using eq by simp
  then have "positional b as = positional b bs'" using r by simp
  ultimately show ?case using snoc.IH [of bs'] snoc.prems(1,2) bs by (simp add: word_unat_eq_iff)
qed

lemma positional_take_Suc:
  "positional b rs < 2 ^ m \<Longrightarrow> positional b (rs @ [r]) = positional b rs * b + unat r"
  by simp

lemma unat_up: "unat (ucast r :: 64 word) = unat (r :: 32 word)"
proof -
  have "unat r < 2 ^ 32" using unsigned_less [of r, where 'a = nat] by simp
  then have "unat r < 2 ^ 64" by simp
  then show ?thesis by (simp add: unsigned_ucast_eq take_bit_nat_eq_self)
qed

lemma unat_pack2:
  assumes "length rs \<le> 2"
  shows "unat (foldl (\<lambda>key r. or (push_bit 32 key) (ucast r)) (0 :: 64 word) rs) = positional U32 rs"
  using assms
proof (induction rs rule: rev_induct)
  case Nil
  then show ?case by (simp add: positional_def)
next
  case (snoc r rs)
  let ?k = "foldl (\<lambda>key r. or (push_bit 32 key) (ucast r)) (0 :: 64 word) rs"
  have k: "unat ?k = positional U32 rs" using snoc by simp
  have lt: "unat x < U32" for x :: uchar using unsigned_less [of x] by simp
  have "positional U32 rs < U32 ^ length rs" by (rule positional_less) (rule lt)
  also have "\<dots> \<le> U32 ^ 1" using snoc.prems by (intro power_increasing) auto
  finally have "unat ?k < 2 ^ (64 - 32)" using k by simp
  moreover have "unat (ucast r :: 64 word) = unat r" by (simp add: unat_up)
  ultimately have "unat (or (push_bit 32 ?k) (ucast r)) = unat ?k * 2 ^ 32 + unat r"
    using push_or_unat [of "ucast r" 32 ?k] lt [of r] by simp
  then show ?case using k by simp
qed

lemma unat_pack8:
  assumes "length rs + length done \<le> 8" "\<forall>r \<in> set (done @ rs). r \<le> 127"
    and "unat key = positional 256 done"
  shows "unat (pack_ascii whole key rs) = positional 256 (done @ rs)"
  using assms
proof (induction rs arbitrary: key "done")
  case Nil
  then show ?case by simp
next
  case (Cons r rs)
  have lt: "unat x < 256" if "x \<in> set (done @ r # rs)" for x
  proof -
    have "x \<le> 127" using Cons.prems(2) that by blast
    then show ?thesis by (simp add: word_le_nat_alt)
  qed
  have "positional 256 done < 256 ^ length done" by (rule positional_less) (use lt in auto)
  also have "\<dots> \<le> 256 ^ 7" using Cons.prems(1) by (intro power_increasing) auto
  finally have "unat key < 2 ^ (64 - 8)" using Cons.prems(3) by simp
  moreover have "unat (ucast r :: 64 word) = unat r" by (simp add: unat_up)
  ultimately have "unat (or (push_bit 8 key) (ucast r)) = unat key * 2 ^ 8 + unat r"
    using push_or_unat [of "ucast r" 8 key] lt [of r] by simp
  then have "unat (or (push_bit 8 key) (ucast r)) = positional 256 (done @ [r])"
    using Cons.prems(3) by simp
  then have "unat (pack_ascii whole (or (push_bit 8 key) (ucast r)) rs) = positional 256 ((done @ [r]) @ rs)"
    by (intro Cons.IH) (use Cons.prems in auto)
  moreover have "\<not> 127 < r" using Cons.prems(2) by (simp add: not_less)
  ultimately show ?case by simp
qed

definition packed :: "nat \<Rightarrow> ustring \<Rightarrow> bool" where
  "packed n w \<longleftrightarrow> length w = n \<and> (n \<le> 2 \<or> n \<le> 8 \<and> (\<forall>r \<in> set w. r \<le> 127))"

lemma packed_key:
  "packed n w \<Longrightarrow> unat (rune_ngram_key w) = positional (if n \<le> 2 then U32 else 256) w"
  using unat_pack2 [of w] unat_pack8 [of w "[]" 0 w]
  by (auto simp: packed_def rune_ngram_key_def Let_def positional_def)

section \<open>Properties\<close>

text \<open>
  C5: The keys of a query are exactly the keys of the windows of its normalised words, each
  once: words are keyed one by one (no window spans two words), and a word shorter than the
  gram size contributes nothing.
\<close>

theorem ngram_keys_exact:
  "distinct (ngram_keys_with gc lower q n cf)
   \<and> set (ngram_keys_with gc lower q n cf) =
     (if n = 0 then {}
      else {rune_ngram_key w | w field. field \<in> set (split_whitespace q) \<and> length w = n
              \<and> sublist w (normalize gc lower field cf)})"
  using distinct_ngram_keys_with set_ngram_keys_with by (simp add: ngram_keys_with_alt)

text \<open>
  No false negatives from tokenising. When every word of the query, normalised, occurs
  inside some normalised word of a text, the text has every key of the query; so a document
  whose text contains the query words is in the posting of every query key.
\<close>

lemma ngram_keys_cover:
  assumes "\<forall>f \<in> set (split_whitespace q). \<exists>g \<in> set (split_whitespace doc).
      sublist (normalize gc lower f cf) (normalize gc lower g cf)"
  shows "set (ngram_keys_with gc lower q n cf) \<subseteq> set (ngram_keys_with gc lower doc n cf)"
proof (cases "n = 0")
  case True
  then show ?thesis by (simp add: ngram_keys_with_alt)
next
  case False
  show ?thesis
  proof
    fix k assume "k \<in> set (ngram_keys_with gc lower q n cf)"
    then obtain w f where k: "k = rune_ngram_key w" "length w = n" "f \<in> set (split_whitespace q)"
      "sublist w (normalize gc lower f cf)"
      using False by (auto simp: set_ngram_keys_with)
    then obtain g where "g \<in> set (split_whitespace doc)" "sublist w (normalize gc lower g cf)"
      using assms sublist_order.order.trans by blast
    then show "k \<in> set (ngram_keys_with gc lower doc n cf)"
      using False k by (auto simp: set_ngram_keys_with)
  qed
qed

definition ascii_gc :: "uchar \<Rightarrow> general_category" where
  "ascii_gc c = (if 0x61 \<le> c \<and> c \<le> 0x7A then LowercaseLetter
     else if 0x41 \<le> c \<and> c \<le> 0x5A then UppercaseLetter
     else if 0x30 \<le> c \<and> c \<le> 0x39 then DecimalNumber else OtherCategory)"

definition ascii_lower :: "uchar \<Rightarrow> ustring" where
  "ascii_lower c = [if 0x41 \<le> c \<and> c \<le> 0x5A then c + 32 else c]"

lemma ngram_keys_cover_witness:
  "set (ngram_keys_with ascii_gc ascii_lower [0x42, 0x2D, 0x63] 2 True)
   \<subseteq> set (ngram_keys_with ascii_gc ascii_lower [0x78, 0x20, 0x61, 0x62, 0x43] 2 True)"
proof (rule ngram_keys_cover)
  have q: "split_whitespace [0x42, 0x2D, 0x63] = [[0x42, 0x2D, 0x63]]"
    and d: "split_whitespace [0x78, 0x20, 0x61, 0x62, 0x43] = [[0x78], [0x61, 0x62, 0x43]]"
    by (simp_all add: split_whitespace.simps is_whitespace_def)
  have "sublist (normalize ascii_gc ascii_lower [0x42, 0x2D, 0x63] True)
     (normalize ascii_gc ascii_lower [0x61, 0x62, 0x43] True)"
    by (simp add: normalize_def is_letter_or_digit_def ascii_gc_def ascii_lower_def to_lower_rune_def
        sublist_Cons_right)
  then show "\<forall>f \<in> set (split_whitespace [0x42, 0x2D, 0x63]).
      \<exists>g \<in> set (split_whitespace [0x78, 0x20, 0x61, 0x62, 0x43]).
        sublist (normalize ascii_gc ascii_lower f True) (normalize ascii_gc ascii_lower g True)"
    by (simp add: q d)
qed

text \<open>
  Packed keys do not collide: two windows of one size that are packed (size at most 2, or
  at most 8 and all ASCII) have the same key only if they are the same window.
\<close>

lemma packed_keys_injective:
  assumes "packed n v" "packed n w" "rune_ngram_key v = rune_ngram_key w"
  shows "v = w"
proof -
  let ?b = "if n \<le> 2 then U32 else 256"
  have "positional ?b v = positional ?b w"
    using packed_key [OF assms(1)] packed_key [OF assms(2)] assms(3) by simp
  moreover have "unat r < ?b" if "r \<in> set v \<union> set w" for r
    using assms(1,2) that unsigned_less [of r] by (auto simp: packed_def word_le_nat_alt)
  ultimately show ?thesis
    using positional_inj [of v w ?b] assms(1,2) by (simp add: packed_def)
qed

lemma packed_keys_injective_witness:
  "rune_ngram_key [0x61, 0x62, 0x63] \<noteq> rune_ngram_key [0x61, 0x62, 0x64]"
proof
  assume "rune_ngram_key [0x61, 0x62, 0x63] = rune_ngram_key [0x61, 0x62, 0x64]"
  then have "[0x61, 0x62, 0x63] = ([0x61, 0x62, 0x64] :: ustring)"
    by (rule packed_keys_injective [of 3, rotated 2]) (simp_all add: packed_def)
  then show False by simp
qed

end
