(* ===== verification/RR_Index.thy ===== *)
theory RR_Index imports RR_Tail_Scan RR_Ngram begin

text \<open>
  The text index (\<open>rust/src/index.rs\<close>): the boot (\<open>Index::open\<close>, \<open>Index::from_boot\<close>,
  \<open>rrs_boot_len\<close>), the two-level dictionary (\<open>dict_block_for\<close>, \<open>parse_block\<close>,
  \<open>read_dict_blocks\<close>, \<open>lookup\<close>, \<open>lookup_many\<close>), the pricing calls (\<open>query_cost\<close>,
  \<open>term_count\<close>, \<open>count_estimate\<close>) and the searches (\<open>search\<close>, \<open>search_candidates\<close>).

  The record \<open>index\<close> has the fields of \<open>struct Index\<close> but the fetcher, which is an argument
  of every operation. The lemmas show that the sparse index and the block bisection together
  resolve a key exactly as the sorted dictionary does, that reading each distinct block once
  changes nothing, and that a search is the ascending strict AND of the postings, cut to the
  limit, whichever of the three waves answers it.
\<close>

section \<open>Constants and state\<close>

definition rrs_magic :: bytes where "rrs_magic = ascii ''RRSI''"
definition header_v3 :: nat where "header_v3 = 16"
definition header_v4 :: nat where "header_v4 = 18"
definition dict_entry :: nat where "dict_entry = 20"
definition version_v3 :: nat where "version_v3 = 3"
definition version_v4 :: nat where "version_v4 = 4"
definition eager_buckets :: nat where "eager_buckets = 1"
definition eager_doc_bound :: nat where "eager_doc_bound = eager_buckets * 65536"
definition tail_key_batch :: nat where "tail_key_batch = 8"

record dict_rec =
  dr_key :: nat
  dr_off :: nat
  dr_size :: nat

record dict_block =
  db_off :: nat
  db_entries :: nat

record index =
  ix_gram :: nat
  ix_ngrams :: nat
  ix_stride :: nat
  ix_dict_start :: nat
  ix_sparse :: "nat list"
  ix_fold :: bool

section \<open>Boot\<close>

definition sparse_count :: "nat \<Rightarrow> nat \<Rightarrow> nat" where
  "sparse_count ngrams stride =
     (if ngrams = 0 \<or> stride = 0 then 0 else (ngrams + stride - 1) div stride)"

definition sparse_layout :: "nat \<Rightarrow> nat \<Rightarrow> nat \<Rightarrow> (nat \<times> nat) ires" where
  "sparse_layout um ngrams stride =
     (if stride = 0 \<and> ngrams \<noteq> 0 then Err (Malformed ''RRS stride is zero'')
      else let n = sparse_count ngrams stride in
        bind_o (ok_or (checked_mul um n 8) (Malformed ''RRS sparse index length overflows'')) (\<lambda>bytes.
        Ok (n, bytes)))"

definition index_open :: "nat \<Rightarrow> range_read \<Rightarrow> index ires" where
  "index_open um f =
     bind_o (rd f 0 header_v3) (\<lambda>header.
     if length header < header_v3 then Err (Malformed ''short RRS header'')
     else if cut header 0 4 \<noteq> rrs_magic then Err (BadMagic (cut header 0 4))
     else
       bind_o (read_u16 header 4) (\<lambda>version.
       bind_o (if version = version_v3 then Ok (header_v3, True)
               else if version = version_v4 then
                 bind_o (rd f header_v3 2) (\<lambda>flags_bytes. bind_o (read_u16 flags_bytes 0) (\<lambda>flags.
                 Ok (header_v4, even flags)))
               else Err (BadVersion version)) (\<lambda>(header_size, case_fold).
       bind_o (read_u16 header 6) (\<lambda>gram_size.
       bind_o (read_u32 header 8) (\<lambda>ngrams.
       bind_o (read_u32 header 12) (\<lambda>stride.
       bind_o (sparse_layout um ngrams stride) (\<lambda>(n, sparse_len).
       bind_o (rd f header_size sparse_len) (\<lambda>sparse_bytes.
       bind_o (mapM_o (\<lambda>i. read_u64 sparse_bytes (i * 8)) [0..<n]) (\<lambda>sparse_keys.
       Ok \<lparr>ix_gram = gram_size, ix_ngrams = ngrams, ix_stride = stride,
            ix_dict_start = header_size + n * 8, ix_sparse = sparse_keys, ix_fold = case_fold\<rparr>)))))))))"

definition index_from_boot :: "nat \<Rightarrow> bytes \<Rightarrow> index ires" where
  "index_from_boot um boot =
     (if length boot < header_v3 then Err (Malformed ''short RRS boot region'')
      else if cut boot 0 4 \<noteq> rrs_magic then Err (BadMagic (cut boot 0 4))
      else
        bind_o (read_u16 boot 4) (\<lambda>version.
        bind_o (if version = version_v3 then Ok (header_v3, True)
                else if version = version_v4 then
                  (if length boot < header_v4 then Err (Malformed ''short RRS v4 boot region'')
                   else bind_o (read_u16 boot header_v3) (\<lambda>flags. Ok (header_v4, even flags)))
                else Err (BadVersion version)) (\<lambda>(header_size, case_fold).
        bind_o (read_u16 boot 6) (\<lambda>gram_size.
        bind_o (read_u32 boot 8) (\<lambda>ngrams.
        bind_o (read_u32 boot 12) (\<lambda>stride.
        bind_o (sparse_layout um ngrams stride) (\<lambda>(n, sparse_len).
        bind_o (ok_or (checked_add um header_size sparse_len) (Malformed ''RRS boot region length overflows'')) (\<lambda>dict_start.
        if length boot < dict_start then Err (Malformed ''RRS boot region missing sparse index'')
        else
          bind_o (mapM_o (\<lambda>i. read_u64 boot (header_size + i * 8)) [0..<n]) (\<lambda>sparse_keys.
          Ok \<lparr>ix_gram = gram_size, ix_ngrams = ngrams, ix_stride = stride,
               ix_dict_start = dict_start, ix_sparse = sparse_keys, ix_fold = case_fold\<rparr>)))))))))"

definition rrs_boot_len :: "nat \<Rightarrow> bytes \<Rightarrow> nat ires" where
  "rrs_boot_len um header =
     (if length header < header_v3 then Err (Malformed ''short RRS header'')
      else if cut header 0 4 \<noteq> rrs_magic then Err (BadMagic (cut header 0 4))
      else
        bind_o (read_u16 header 4) (\<lambda>version.
        bind_o (if version = version_v3 then Ok header_v3
                else if version = version_v4 then Ok header_v4
                else Err (BadVersion version)) (\<lambda>header_size.
        bind_o (read_u32 header 8) (\<lambda>ngrams.
        bind_o (read_u32 header 12) (\<lambda>stride.
        bind_o (sparse_layout um ngrams stride) (\<lambda>(_, sparse_len).
        ok_or (checked_add um header_size sparse_len) (Malformed ''RRS boot region length overflows'')))))))"

section \<open>Dictionary\<close>

definition block_at :: "index \<Rightarrow> nat \<Rightarrow> (dict_block option) ires" where
  "block_at ix b =
     bind_o (mul_p U64 b (ix_stride ix)) (\<lambda>block_start.
     bind_o (sub_p (ix_ngrams ix) block_start) (\<lambda>remaining.
     bind_o (mul_p U64 block_start dict_entry) (\<lambda>rel.
     bind_o (add_p U64 (ix_dict_start ix) rel) (\<lambda>byte_off.
     Ok (Some \<lparr>db_off = byte_off, db_entries = min (ix_stride ix) remaining\<rparr>)))))"

definition dict_block_for :: "index \<Rightarrow> nat \<Rightarrow> (dict_block option) ires" where
  "dict_block_for ix key =
     (if ix_ngrams ix = 0 then Ok None
      else case bsearch (ix_sparse ix) key of
        Inl i \<Rightarrow> block_at ix i
      | Inr 0 \<Rightarrow> Ok None
      | Inr (Suc i) \<Rightarrow> block_at ix i)"

function parse_block_from :: "nat \<Rightarrow> bytes \<Rightarrow> nat \<Rightarrow> nat \<Rightarrow> nat \<Rightarrow> (dict_rec option) ires" where
  "parse_block_from um block key lo hi =
     (if lo < hi then
        let mid = lo + (hi - lo) div 2 in
        bind_o (mul_p um mid dict_entry) (\<lambda>base.
        bind_o (read_u64 block base) (\<lambda>mid_key.
        if mid_key < key then parse_block_from um block key (mid + 1) hi
        else if key < mid_key then parse_block_from um block key lo mid
        else bind_o (read_u64 block (base + 8)) (\<lambda>off. bind_o (read_u32 block (base + 16)) (\<lambda>sz.
             Ok (Some \<lparr>dr_key = key, dr_off = off, dr_size = sz\<rparr>)))))
      else Ok None)"
  by pat_completeness auto
termination
  by (relation "measure (\<lambda>(um, block, key, lo, hi). hi - lo)") (auto intro!: diff_less_mono2)

declare parse_block_from.simps [simp del]

definition parse_block :: "nat \<Rightarrow> bytes \<Rightarrow> nat \<Rightarrow> nat \<Rightarrow> (dict_rec option) ires" where
  "parse_block um block entries key = parse_block_from um block key 0 entries"

definition read_block :: "nat \<Rightarrow> range_read \<Rightarrow> dict_block \<Rightarrow> bytes ires" where
  "read_block um f blk = bind_o (mul_p um (db_entries blk) dict_entry) (rd f (db_off blk))"

text \<open>\<open>iter().position\<close>\<close>

fun position :: "('a \<Rightarrow> bool) \<Rightarrow> 'a list \<Rightarrow> nat option" where
  "position P [] = None"
| "position P (x # xs) = (if P x then Some 0 else map_option Suc (position P xs))"

definition dedupe_step :: "dict_block list \<times> nat list \<Rightarrow> dict_block \<Rightarrow> dict_block list \<times> nat list" where
  "dedupe_step st blk =
     (let (uniq, which) = st in
      case position (\<lambda>u. db_off u = db_off blk) uniq of
        Some i \<Rightarrow> (uniq, which @ [i])
      | None \<Rightarrow> (uniq @ [blk], which @ [length uniq]))"

definition read_dict_blocks :: "nat \<Rightarrow> range_read \<Rightarrow> dict_block list \<Rightarrow> (bytes list \<times> nat list) ires" where
  "read_dict_blocks um f blocks =
     (let (uniq, which) = foldl dedupe_step ([], []) blocks in
      bind_o (wave (read_block um f) uniq) (\<lambda>fetched. Ok (fetched, which)))"

definition index_lookup :: "nat \<Rightarrow> range_read \<Rightarrow> index \<Rightarrow> nat \<Rightarrow> (dict_rec option) ires" where
  "index_lookup um f ix key =
     bind_o (dict_block_for ix key) (\<lambda>r.
       case r of
         None \<Rightarrow> Ok None
       | Some block \<Rightarrow> bind_o (read_block um f block) (\<lambda>bytes. parse_block um bytes (db_entries block) key))"

text \<open>The block of key \<open>j\<close> of a deduplicated batch, bisected for the key.\<close>

definition parse_shared :: "nat \<Rightarrow> bytes list \<Rightarrow> nat list \<Rightarrow> nat \<Rightarrow> dict_block \<Rightarrow> nat \<Rightarrow> (dict_rec option) ires" where
  "parse_shared um datas which j block key =
     bind_o (nth_p which j) (\<lambda>w. bind_o (nth_p datas w) (\<lambda>d. parse_block um d (db_entries block) key))"

definition lookup_many :: "nat \<Rightarrow> range_read \<Rightarrow> index \<Rightarrow> nat list \<Rightarrow> (dict_rec option list) ires" where
  "lookup_many um f ix keys =
     bind_o (mapM_o (\<lambda>(i, k). map_ok (map_option (Pair i)) (dict_block_for ix k)) (enumerate 0 keys)) (\<lambda>found.
     let present = map the (filter (\<lambda>x. x \<noteq> None) found) in
     bind_o (read_dict_blocks um f (map snd present)) (\<lambda>(datas, which).
     foldM_o (\<lambda>out (j, (i, block)). bind_o (nth_p keys i) (\<lambda>k.
         map_ok (\<lambda>r. out[i := r]) (parse_shared um datas which j block k)))
       (replicate (length keys) None) (enumerate 0 present)))"

section \<open>Pricing\<close>

definition query_keys ::
  "(uchar \<Rightarrow> general_category) \<Rightarrow> (uchar \<Rightarrow> ustring) \<Rightarrow> index \<Rightarrow> ustring \<Rightarrow> nat list" where
  "query_keys gc lower ix query = map unat (ngram_keys_with gc lower query (ix_gram ix) (ix_fold ix))"

fun cost_loop :: "nat \<Rightarrow> dict_rec option list \<Rightarrow> nat ires" where
  "cost_loop acc [] = Ok acc"
| "cost_loop acc (None # rs) = Ok 0"
| "cost_loop acc (Some r # rs) = bind_o (add_p U64 acc (dr_size r)) (\<lambda>t. cost_loop t rs)"

definition query_cost :: "nat \<Rightarrow> range_read \<Rightarrow> index \<Rightarrow> nat list \<Rightarrow> nat ires" where
  "query_cost um f ix keys = (if keys = [] then Ok 0 else bind_o (lookup_many um f ix keys) (cost_loop 0))"

definition term_count :: "nat \<Rightarrow> deserializer \<Rightarrow> range_read \<Rightarrow> index \<Rightarrow> nat \<Rightarrow> (nat option) ires" where
  "term_count um deser f ix key =
     bind_o (index_lookup um f ix key) (\<lambda>r.
       case r of
         None \<Rightarrow> Ok None
       | Some rec \<Rightarrow> map_ok Some (posting_cardinality um deser f (dr_off rec) (dr_size rec)))"

definition count_estimate :: "nat \<Rightarrow> deserializer \<Rightarrow> range_read \<Rightarrow> index \<Rightarrow> nat list \<Rightarrow> (nat \<times> bool) ires" where
  "count_estimate um deser f ix keys =
     (if keys = [] then Ok (0, True)
      else bind_o (lookup_many um f ix keys) (\<lambda>recs.
        if None \<in> set recs then Ok (0, True)
        else bind_o (wave (\<lambda>r. posting_cardinality um deser f (dr_off (the r)) (dr_size (the r))) recs) (\<lambda>counts.
          Ok (foldl min (U64 - 1) counts, length keys = 1))))"

definition index_posting :: "nat \<Rightarrow> deserializer \<Rightarrow> range_read \<Rightarrow> index \<Rightarrow> nat \<Rightarrow> (nat set option) ires" where
  "index_posting um deser f ix key =
     bind_o (index_lookup um f ix key) (\<lambda>r.
       case r of
         None \<Rightarrow> Ok None
       | Some rec \<Rightarrow> bind_o (rd f (dr_off rec) (dr_size rec)) (\<lambda>bytes. map_ok Some (deserialize deser bytes)))"

section \<open>Searches\<close>

definition fetch_head_prefixes :: "nat \<Rightarrow> deserializer \<Rightarrow> range_read \<Rightarrow> dict_rec list \<Rightarrow> (nat set list) ires" where
  "fetch_head_prefixes um deser f recs =
     wave (\<lambda>rec. fetch_head_prefix um deser f (dr_off rec) (dr_size rec) eager_buckets) recs"

definition intersect :: "nat set list \<Rightarrow> nat set option" where
  "intersect bitmaps =
     (if bitmaps = [] then None
      else case sort_key card bitmaps of [] \<Rightarrow> None | acc # rest \<Rightarrow> Some (inter_loop acc rest))"

definition unwrap_or_default :: "nat set option \<Rightarrow> nat set" where
  "unwrap_or_default x = (case x of None \<Rightarrow> {} | Some s \<Rightarrow> s)"

fun parse_all :: "nat \<Rightarrow> bytes list \<Rightarrow> nat list \<Rightarrow> (nat \<times> dict_block \<times> nat) list \<Rightarrow> (dict_rec list option) ires" where
  "parse_all um datas which [] = Ok (Some [])"
| "parse_all um datas which ((i, block, key) # rest) =
     bind_o (parse_shared um datas which i block key) (\<lambda>r.
       case r of
         None \<Rightarrow> Ok None
       | Some rec \<Rightarrow> map_ok (map_option ((#) rec)) (parse_all um datas which rest))"

text \<open>Wave 1 of both searches: all keys resolved, or \<open>None\<close> when one is absent.\<close>

definition resolve_all :: "nat \<Rightarrow> range_read \<Rightarrow> index \<Rightarrow> nat list \<Rightarrow> (dict_rec list option) ires" where
  "resolve_all um f ix keys =
     bind_o (mapM_o (dict_block_for ix) keys) (\<lambda>bs.
     if None \<in> set bs then Ok None
     else let blocks = map the bs in
       bind_o (read_dict_blocks um f blocks) (\<lambda>(datas, which).
       parse_all um datas which (enumerate 0 (zip blocks keys))))"

lemma next_window_shrinks:
  assumes "next_window um deser f ff batch s = Ok (bm, s')" "\<not> exhausted s" "0 < batch"
  shows "ts_keys s' = ts_keys s" "ts_pos s < ts_pos s'"
  using assms by (auto simp: next_window_def exhausted_def Let_def bind_o_Ok_iff)

text \<open>\<open>while out.len() < limit && !scan.exhausted()\<close>: every window moves the scan forward.\<close>

function search_fill ::
  "nat \<Rightarrow> deserializer \<Rightarrow> range_read \<Rightarrow> nat \<Rightarrow> tail_scan \<Rightarrow> nat list \<Rightarrow> nat list ires" where
  "search_fill um deser f limit scan out =
     (if length out < limit \<and> \<not> exhausted scan then
        bind_o (next_window um deser f None tail_key_batch scan) (\<lambda>w.
        search_fill um deser f limit (snd w) (out @ take (limit - length out) (sorted_list_of_set (fst w))))
      else Ok out)"
  by pat_completeness auto
termination
proof (relation "measure (\<lambda>(um, deser, f, limit, scan, out). length (ts_keys scan) - ts_pos scan)")
  fix um :: nat and deser f limit scan and out :: "nat list" and w
  assume a: "length out < limit \<and> \<not> exhausted scan" "next_window um deser f None tail_key_batch scan = Ok w"
  then have "ts_keys (snd w) = ts_keys scan" "ts_pos scan < ts_pos (snd w)"
    using next_window_shrinks [of um deser f None tail_key_batch scan "fst w" "snd w"]
    by (simp_all add: tail_key_batch_def)
  then show "((um, deser, f, limit, snd w, out @ take (limit - length out) (sorted_list_of_set (fst w))),
      um, deser, f, limit, scan, out) \<in> measure (\<lambda>(um, deser, f, limit, scan, out). length (ts_keys scan) - ts_pos scan)"
    using a(1) by (auto simp: exhausted_def)
qed simp

declare search_fill.simps [simp del]

definition index_search ::
  "nat \<Rightarrow> deserializer \<Rightarrow> range_read \<Rightarrow> index \<Rightarrow> nat list \<Rightarrow> nat \<Rightarrow> nat list ires" where
  "index_search um deser f ix keys limit =
     (if keys = [] \<or> limit = 0 then Ok []
      else bind_o (resolve_all um f ix keys) (\<lambda>r.
        case r of
          None \<Rightarrow> Ok []
        | Some recs \<Rightarrow>
            bind_o (fetch_head_prefixes um deser f recs) (\<lambda>heads.
            let head_and = unwrap_or_default (intersect heads);
                out = take limit (sorted_list_of_set head_and) in
            if length out \<ge> limit then Ok out
            else let ranges = map (\<lambda>rec. (dr_off rec, dr_size rec)) recs in
              bind_o (tail_scan_open um f ranges None [] [] eager_buckets) (\<lambda>t.
                case t of
                  Some scan \<Rightarrow> search_fill um deser f limit scan out
                | None \<Rightarrow>
                    bind_o (tail_intersect_and um deser f ranges) (\<lambda>full_and.
                    Ok (out @ take (limit - length out)
                      (filter (\<lambda>d. \<not> d < eager_doc_bound) (sorted_list_of_set full_and))))))))"

definition search_candidates ::
  "nat \<Rightarrow> deserializer \<Rightarrow> range_read \<Rightarrow> index \<Rightarrow> nat list \<Rightarrow> nat \<Rightarrow> nat list ires" where
  "search_candidates um deser f ix keys k =
     (if keys = [] \<or> k = 0 then Ok []
      else bind_o (resolve_all um f ix keys) (\<lambda>r.
        case r of
          None \<Rightarrow> Ok []
        | Some recs \<Rightarrow>
            let rarest = take (min k (length recs)) (sort_key dr_size recs) in
            bind_o (join_all (\<lambda>rec. rd f (dr_off rec) (dr_size rec)) rarest) (\<lambda>reads.
            bind_o (mapM_o (\<lambda>bytes. bind_o bytes (deserialize deser)) reads) (\<lambda>postings.
            Ok (sorted_list_of_set (unwrap_or_default (intersect postings)))))))"

text \<open>The public entry points take the query text.\<close>

definition search_query ::
  "nat \<Rightarrow> deserializer \<Rightarrow> (uchar \<Rightarrow> general_category) \<Rightarrow> (uchar \<Rightarrow> ustring) \<Rightarrow> range_read \<Rightarrow> index
   \<Rightarrow> ustring \<Rightarrow> nat \<Rightarrow> nat list ires" where
  "search_query um deser gc lower f ix query limit =
     index_search um deser f ix (query_keys gc lower ix query) limit"

section \<open>The written dictionary\<close>

definition encode_row :: "dict_rec \<Rightarrow> bytes" where
  "encode_row r = to_le 8 (dr_key r) @ to_le 8 (dr_off r) @ to_le 4 (dr_size r)"

definition row_ok :: "dict_rec \<Rightarrow> bool" where
  "row_ok r \<longleftrightarrow> dr_key r < U64 \<and> dr_off r < U64 \<and> dr_size r < U32"

definition dict_ok :: "dict_rec list \<Rightarrow> bool" where
  "dict_ok dict \<longleftrightarrow> sorted_wrt (<) (map dr_key dict) \<and> (\<forall>r \<in> set dict. row_ok r) \<and> length dict < U32"

abbreviation find_key :: "nat \<Rightarrow> dict_rec list \<Rightarrow> dict_rec option" where
  "find_key k dict \<equiv> List.find (\<lambda>r. dr_key r = k) dict"

lemma length_encode_row [simp]: "length (encode_row r) = 20"
  by (simp add: encode_row_def)

lemma encode_row_fields:
  assumes "row_ok r"
  shows "u64_at (encode_row r) 0 = dr_key r" "u64_at (encode_row r) 8 = dr_off r" "u32_at (encode_row r) 16 = dr_size r"
  using assms u64_at_mid [of "to_le 8 (dr_key r)" 8 "dr_off r" "to_le 4 (dr_size r)"]
    u32_at_mid [of "to_le 8 (dr_key r) @ to_le 8 (dr_off r)" 16 "dr_size r" "[]"]
  by (simp_all add: encode_row_def row_ok_def le_simps)

lemma row_fields:
  assumes "\<forall>r \<in> set rows. row_ok r" "i < length rows"
  shows "u64_at (concat (map encode_row rows)) (i * 20) = dr_key (rows ! i)"
    and "u64_at (concat (map encode_row rows)) (i * 20 + 8) = dr_off (rows ! i)"
    and "u32_at (concat (map encode_row rows)) (i * 20 + 16) = dr_size (rows ! i)"
    and "i * 20 + 20 \<le> length (concat (map encode_row rows))"
proof -
  let ?t = "concat (map encode_row rows)"
  have len: "length ?t = length rows * 20" by (rule concat_rows_length) simp
  have cut: "cut ?t (i * 20) (i * 20 + 20) = encode_row (rows ! i)"
    by (rule cut_concat_row) (use assms in simp_all)
  have ok: "row_ok (rows ! i)" using assms by simp
  show e: "i * 20 + 20 \<le> length ?t" using len assms(2) by simp
  show "u64_at ?t (i * 20) = dr_key (rows ! i)" "u64_at ?t (i * 20 + 8) = dr_off (rows ! i)"
    "u32_at ?t (i * 20 + 16) = dr_size (rows ! i)"
    using u64_at_cut [of 0 "i * 20 + 20" "i * 20" ?t] u64_at_cut [of 8 "i * 20 + 20" "i * 20" ?t]
      u32_at_cut [of 16 "i * 20 + 20" "i * 20" ?t] encode_row_fields [OF ok] e
    by (simp_all add: cut)
qed

text \<open>The block reader's bisection is the bisection of the rows.\<close>

lemma parse_block_bisects:
  assumes "\<forall>r \<in> set rows. row_ok r" "length rows * 20 \<le> um" "hi \<le> length rows"
  shows "parse_block_from um (concat (map encode_row rows)) key lo hi
    = Ok (case bsearch_from dr_key rows key lo hi of Inl i \<Rightarrow> Some (rows ! i) | Inr _ \<Rightarrow> None)"
  using assms(3)
proof (induction "hi - lo" arbitrary: lo hi rule: less_induct)
  case less
  let ?mid = "lo + (hi - lo) div 2"
  show ?case
  proof (cases "lo < hi")
    case False
    then show ?thesis by (simp add: parse_block_from.simps [of _ _ _ lo] bsearch_from.simps [of _ _ _ lo])
  next
    case True
    then have mid: "lo \<le> ?mid" "?mid < hi" by auto
    then have i: "?mid < length rows" using less.prems by simp
    note f = row_fields [OF assms(1) i]
    have um: "?mid * dict_entry < um" "dict_entry = 20" using i assms(2) by (simp_all add: dict_entry_def)
    have below: "hi - (?mid + 1) < hi - lo" "?mid - lo < hi - lo" "?mid \<le> length rows" using mid i by auto
    consider (lt) "dr_key (rows ! ?mid) < key" | (gt) "key < dr_key (rows ! ?mid)" | (eq) "dr_key (rows ! ?mid) = key"
      by force
    then show ?thesis
    proof cases
      case lt
      then show ?thesis using True um f less.hyps [OF below(1) less.prems]
        by (simp add: parse_block_from.simps [of _ _ _ lo hi] bsearch_from.simps [of _ _ _ lo hi] Let_def)
    next
      case gt
      then show ?thesis using True um f less.hyps [OF below(2,3)]
        by (simp add: parse_block_from.simps [of _ _ _ lo hi] bsearch_from.simps [of _ _ _ lo hi] Let_def)
    next
      case eq
      then show ?thesis using True um f
        by (simp add: parse_block_from.simps [of _ _ _ lo hi] bsearch_from.simps [of _ _ _ lo hi] Let_def)
    qed
  qed
qed

lemma find_key_nth:
  assumes "sorted_wrt (<) (map dr_key rows)" "i < length rows"
  shows "find_key (dr_key (rows ! i)) rows = Some (rows ! i)"
proof -
  have d: "distinct (map dr_key rows)" using assms(1) by (simp add: strict_sorted_iff)
  have "\<forall>j < i. dr_key (rows ! j) \<noteq> dr_key (rows ! i)"
    using d assms(2) by (metis (no_types, lifting) distinct_conv_nth length_map less_trans nat_neq_iff nth_map)
  then show ?thesis using assms(2) by (auto simp: find_Some_iff)
qed

lemma parse_block_eq:
  assumes "\<forall>r \<in> set rows. row_ok r" "length rows * 20 \<le> um" "sorted_wrt (<) (map dr_key rows)"
  shows "parse_block um (concat (map encode_row rows)) (length rows) key = Ok (find_key key rows)"
proof -
  have sorted: "sorted (map dr_key rows)" using assms(3) by (rule strict_sorted_imp_sorted)
  have "(case bsearch_by dr_key rows key of Inl i \<Rightarrow> Some (rows ! i) | Inr _ \<Rightarrow> None) = find_key key rows"
  proof (cases "bsearch_by dr_key rows key")
    case (Inl i)
    then show ?thesis using bsearch_by_Inl [OF Inl] find_key_nth [OF assms(3)] by auto
  next
    case (Inr i)
    then have "key \<notin> dr_key ` set rows" using found_bsearch_by [OF sorted, of key] by simp
    then show ?thesis using Inr by (auto simp: find_None_iff2)
  qed
  then show ?thesis
    using parse_block_bisects [OF assms(1,2) order_refl] by (simp add: parse_block_def bsearch_by_def)
qed

section \<open>Blocks\<close>

text \<open>Block \<open>b\<close> of a dictionary: its location, and its rows.\<close>

definition blk :: "index \<Rightarrow> nat \<Rightarrow> dict_block" where
  "blk ix b = \<lparr>db_off = ix_dict_start ix + b * ix_stride ix * 20,
               db_entries = min (ix_stride ix) (ix_ngrams ix - b * ix_stride ix)\<rparr>"

definition block_rows :: "index \<Rightarrow> dict_rec list \<Rightarrow> nat \<Rightarrow> dict_rec list" where
  "block_rows ix dict b = cut dict (b * ix_stride ix) (b * ix_stride ix + db_entries (blk ix b))"

definition index_for :: "bytes \<Rightarrow> dict_rec list \<Rightarrow> index \<Rightarrow> bool" where
  "index_for content dict ix \<longleftrightarrow> dict_ok dict \<and> ix_ngrams ix = length dict \<and> ix_stride ix < U32
     \<and> (dict \<noteq> [] \<longrightarrow> 0 < ix_stride ix)
     \<and> ix_sparse ix = map (\<lambda>b. dr_key (dict ! (b * ix_stride ix))) [0..<sparse_count (length dict) (ix_stride ix)]
     \<and> ix_dict_start ix + length dict * 20 \<le> length content
     \<and> cut content (ix_dict_start ix) (ix_dict_start ix + length dict * 20) = concat (map encode_row dict)"

lemma sparse_count_iff: "b < sparse_count n stride \<longleftrightarrow> 0 < stride \<and> b * stride < n"
proof (cases "n = 0 \<or> stride = 0")
  case True
  then show ?thesis by (auto simp: sparse_count_def)
next
  case False
  then have "b < (n + stride - 1) div stride \<longleftrightarrow> (b + 1) * stride \<le> n + stride - 1"
    by (metis Suc_eq_plus1 Suc_le_eq gr0I less_eq_div_iff_mult_less_eq)
  then show ?thesis using False by (auto simp: sparse_count_def)
qed

lemma strict_sorted_nth: "sorted_wrt (<) (map f xs) \<Longrightarrow> i < j \<Longrightarrow> j < length xs \<Longrightarrow> (f (xs ! i) :: nat) < f (xs ! j)"
  using sorted_wrt_nth_less [of "(<)" "map f xs" i j] by simp

lemma sorted_cut: "sorted_wrt R (map f xs) \<Longrightarrow> sorted_wrt R (map f (cut xs s e))"
  by (simp add: cut_def sorted_wrt_take sorted_wrt_drop flip: take_map drop_map)

lemma find_key_cut:
  assumes "sorted_wrt (<) (map dr_key dict)" "s \<le> e" "e \<le> length dict"
    and below: "\<And>i. i < s \<Longrightarrow> dr_key (dict ! i) \<noteq> k" and above: "\<And>i. e \<le> i \<Longrightarrow> i < length dict \<Longrightarrow> dr_key (dict ! i) \<noteq> k"
  shows "find_key k dict = find_key k (cut dict s e)"
proof (cases "find_key k (cut dict s e)")
  case None
  have "dr_key (dict ! i) \<noteq> k" if "i < length dict" for i
  proof (cases "s \<le> i \<and> i < e")
    case True
    then have "cut dict s e ! (i - s) = dict ! i" "i - s < length (cut dict s e)"
      using assms(3) by (simp_all add: nth_cut diff_less_mono)
    then have "dict ! i \<in> set (cut dict s e)" by (metis nth_mem)
    then show ?thesis using None by (auto simp: find_None_iff)
  next
    case False
    then show ?thesis using below [of i] above [of i] that by linarith
  qed
  then show ?thesis using None by (metis (mono_tags, lifting) find_None_iff in_set_conv_nth)
next
  case (Some r)
  then obtain j where j: "j < e - s" "r = dict ! (s + j)" "dr_key r = k"
    using assms(3) by (auto simp: find_Some_iff nth_cut)
  then show ?thesis using find_key_nth [OF assms(1), of "s + j"] assms(3) Some by simp
qed

lemma block_at_eq:
  assumes "index_for content dict ix" "ix_dict_start ix + length dict * 20 < U64" "b < sparse_count (length dict) (ix_stride ix)"
  shows "block_at ix b = Ok (Some (blk ix b))"
proof -
  have b: "b * ix_stride ix < length dict" using assms(3) by (simp add: sparse_count_iff)
  then have "b * ix_stride ix * 20 < length dict * 20" by simp
  then have lt: "ix_dict_start ix + b * ix_stride ix * 20 < U64" using assms(2) by linarith
  have "b * ix_stride ix < U64" "b * ix_stride ix * 20 < U64" using lt by linarith+
  then show ?thesis using assms(1) b lt by (simp add: block_at_def blk_def index_for_def dict_entry_def)
qed

lemma dict_block_for_cases:
  assumes ix: "index_for content dict ix" and small: "ix_dict_start ix + length dict * 20 < U64"
  shows "dict_block_for ix k = Ok None \<and> find_key k dict = None \<or>
    (\<exists>b < sparse_count (length dict) (ix_stride ix). dict_block_for ix k = Ok (Some (blk ix b))
       \<and> find_key k dict = find_key k (block_rows ix dict b))"
proof (cases "dict = []")
  case True
  then show ?thesis using ix by (simp add: dict_block_for_def index_for_def)
next
  case False
  let ?s = "ix_stride ix" and ?n = "length dict"
  let ?c = "sparse_count ?n ?s"
  have n: "ix_ngrams ix = ?n" "0 < ?s" "ix_ngrams ix \<noteq> 0" and sorted: "sorted_wrt (<) (map dr_key dict)"
    and sp: "ix_sparse ix = map (\<lambda>b. dr_key (dict ! (b * ?s))) [0..<?c]"
    using ix False by (simp_all add: index_for_def dict_ok_def)
  have in_range: "b * ?s < ?n" if "b < ?c" for b using that by (simp add: sparse_count_iff)
  have split: "find_key k dict = find_key k (block_rows ix dict b)"
    if b: "b < ?c" and lo: "dr_key (dict ! (b * ?s)) \<le> k" and hi: "Suc b < ?c \<Longrightarrow> k < dr_key (dict ! (Suc b * ?s))" for b
  proof -
    let ?e = "b * ?s + db_entries (blk ix b)"
    have e: "b * ?s \<le> ?e" "?e \<le> ?n" using in_range [OF b] n by (auto simp: blk_def)
    show ?thesis
      unfolding block_rows_def
    proof (rule find_key_cut [OF sorted e])
      fix i assume "i < b * ?s"
      then show "dr_key (dict ! i) \<noteq> k" using strict_sorted_nth [OF sorted, of i "b * ?s"] in_range [OF b] lo by simp
    next
      fix i assume i: "?e \<le> i" "i < ?n"
      have "?e = min (Suc b * ?s) ?n" using in_range [OF b] n by (auto simp: blk_def)
      then have ge: "Suc b * ?s \<le> i" using i by simp
      then have "Suc b < ?c" using i n by (simp add: sparse_count_iff)
      moreover have "dr_key (dict ! (Suc b * ?s)) \<le> dr_key (dict ! i)"
        using strict_sorted_nth [OF sorted, of "Suc b * ?s" i] ge i by (cases "Suc b * ?s = i") auto
      ultimately show "dr_key (dict ! i) \<noteq> k" using hi by simp
    qed
  qed
  have sparse_sorted: "sorted (map (\<lambda>x. x) (ix_sparse ix))"
    unfolding sp using strict_sorted_nth [OF sorted] in_range n(2)
    by (auto simp: sorted_wrt_iff_nth_less intro!: less_imp_le)
  show ?thesis
  proof (cases "bsearch (ix_sparse ix) k")
    case (Inl i)
    have "i < ?c" using bsearch_by_Inl [OF Inl] by (simp add: sp)
    then have i: "i < ?c" "dr_key (dict ! (i * ?s)) = k" using bsearch_by_Inl [OF Inl] by (auto simp: sp)
    have "k < dr_key (dict ! (Suc i * ?s))" if "Suc i < ?c"
      using strict_sorted_nth [OF sorted _ in_range [OF that], of "i * ?s"] i n(2) by simp
    then have "find_key k dict = find_key k (block_rows ix dict i)" using i by (intro split) simp_all
    moreover have "dict_block_for ix k = Ok (Some (blk ix i))"
      using Inl block_at_eq [OF ix small i(1)] n by (simp add: dict_block_for_def)
    ultimately show ?thesis using i(1) by blast
  next
    case (Inr i)
    note lim = bsearch_by_Inr [OF sparse_sorted Inr]
    have above: "k < ix_sparse ix ! j" if "i \<le> j" "j < length (ix_sparse ix)" for j using lim that by blast
    show ?thesis
    proof (cases i)
      case 0
      have none: "dr_key (dict ! j) \<noteq> k" if "j < ?n" for j
      proof -
        have c: "0 < ?c" using n(2) False by (simp add: sparse_count_iff)
        moreover have "\<forall>j < ?c. k < dr_key (dict ! (j * ?s))" using lim 0 by (simp add: sp)
        ultimately have "k < dr_key (dict ! (0 * ?s))" by blast
        then have "k < dr_key (dict ! 0)" by simp
        then show ?thesis using strict_sorted_nth [OF sorted _ that, of 0] by (cases "j = 0") auto
      qed
      then have "find_key k dict = None" by (auto simp: find_None_iff in_set_conv_nth)
      then show ?thesis using Inr 0 n by (simp add: dict_block_for_def)
    next
      case (Suc b)
      have b: "b < ?c" using lim Suc by (simp add: sp)
      have "ix_sparse ix ! b < k" using lim Suc by simp
      then have lo: "dr_key (dict ! (b * ?s)) \<le> k" using b by (simp add: sp)
      have "k < dr_key (dict ! (Suc b * ?s))" if "Suc b < ?c"
      proof -
        have "length (ix_sparse ix) = ?c" by (simp add: sp)
        then have "k < ix_sparse ix ! Suc b" using above [of "Suc b"] Suc that by simp
        then show ?thesis using that by (simp add: sp del: mult_Suc)
      qed
      then have "find_key k dict = find_key k (block_rows ix dict b)" using b lo by (intro split)
      moreover have "dict_block_for ix k = Ok (Some (blk ix b))"
        using Inr Suc block_at_eq [OF ix small b] n by (simp add: dict_block_for_def)
      ultimately show ?thesis using b by blast
    qed
  qed
qed

section \<open>Shared block reads\<close>

lemma position_Some: "position P xs = Some i \<Longrightarrow> i < length xs \<and> P (xs ! i)"
  by (induction xs arbitrary: i) (auto split: if_splits)

lemma position_None: "position P xs = None \<Longrightarrow> x \<in> set xs \<Longrightarrow> \<not> P x"
  by (induction xs) (auto split: if_splits)

lemma dedupe:
  assumes "0 < ix_stride ix"
  shows "\<exists>us which. foldl dedupe_step ([], []) (map (blk ix) bs) = (map (blk ix) us, which)
    \<and> set us \<subseteq> set bs \<and> length which = length bs
    \<and> (\<forall>j < length bs. which ! j < length us \<and> us ! (which ! j) = bs ! j)"
proof (induction bs rule: rev_induct)
  case Nil
  then show ?case by simp
next
  case (snoc b bs)
  then obtain us which where st: "foldl dedupe_step ([], []) (map (blk ix) bs) = (map (blk ix) us, which)"
    "set us \<subseteq> set bs" "length which = length bs" "\<forall>j < length bs. which ! j < length us \<and> us ! (which ! j) = bs ! j"
    by blast
  have inj: "db_off (blk ix a) = db_off (blk ix b) \<longleftrightarrow> a = b" for a using assms by (simp add: blk_def)
  show ?case
  proof (cases "position (\<lambda>u. db_off u = db_off (blk ix b)) (map (blk ix) us)")
    case None
    let ?us = "us @ [b]" and ?w = "which @ [length us]"
    have "foldl dedupe_step ([], []) (map (blk ix) (bs @ [b])) = (map (blk ix) ?us, ?w)"
      using st(1) None by (simp add: dedupe_step_def)
    moreover have "\<forall>j < length (bs @ [b]). ?w ! j < length ?us \<and> ?us ! (?w ! j) = (bs @ [b]) ! j"
      using st(3,4) by (auto simp: nth_append less_Suc_eq)
    ultimately show ?thesis using st(2,3) by (intro exI [of _ ?us] exI [of _ ?w]) auto
  next
    case (Some i)
    have i: "i < length us" using position_Some [OF Some] by simp
    then have "db_off (blk ix (us ! i)) = db_off (blk ix b)" using position_Some [OF Some] by simp
    then have b: "us ! i = b" by (simp only: inj)
    let ?w = "which @ [i]"
    have "foldl dedupe_step ([], []) (map (blk ix) (bs @ [b])) = (map (blk ix) us, ?w)"
      using st(1) Some by (simp add: dedupe_step_def)
    moreover have "\<forall>j < length (bs @ [b]). ?w ! j < length us \<and> us ! (?w ! j) = (bs @ [b]) ! j"
      using st(3,4) i b by (auto simp: nth_append less_Suc_eq)
    ultimately show ?thesis using st(2,3) by (intro exI [of _ us] exI [of _ ?w]) auto
  qed
qed

lemma parse_all_eq:
  assumes "\<And>x. x \<in> set xs \<Longrightarrow> parse_shared um datas which (fst x) (fst (snd x)) (snd (snd x)) = Ok (r (snd (snd x)))"
  shows "parse_all um datas which xs = Ok (if \<exists>x \<in> set xs. r (snd (snd x)) = None then None
      else Some (map (\<lambda>x. the (r (snd (snd x)))) xs))"
  using assms
proof (induction xs)
  case Nil
  then show ?case by simp
next
  case (Cons x xs)
  obtain i b k where x: "x = (i, b, k)" by (metis prod_cases3)
  have h: "parse_shared um datas which i b k = Ok (r k)" using Cons.prems [of x] x by simp
  have t: "parse_all um datas which xs = Ok (if \<exists>x \<in> set xs. r (snd (snd x)) = None then None
      else Some (map (\<lambda>x. the (r (snd (snd x)))) xs))"
    using Cons.prems by (intro Cons.IH) simp
  show ?case
  proof (cases "r k")
    case None
    then show ?thesis using x h by simp
  next
    case (Some y)
    then show ?thesis using x h t by simp
  qed
qed

lemma foldM_o_updates:
  assumes "\<And>out x. x \<in> set xs \<Longrightarrow> step out x = Ok (out[idx x := val x])"
  shows "foldM_o step out xs = Ok (foldl (\<lambda>out x. out[idx x := val x]) out xs)"
  using assms by (induction xs arbitrary: out) auto

lemma length_foldl_update [simp]: "length (foldl (\<lambda>out x. out[idx x := val x]) out xs) = length out"
  by (induction xs arbitrary: out) auto

lemma foldl_update_nth:
  assumes "\<And>x. x \<in> set xs \<Longrightarrow> val x = g (idx x)" "i < length out"
  shows "foldl (\<lambda>out x. out[idx x := val x]) out xs ! i = (if i \<in> idx ` set xs then g i else out ! i)"
  using assms by (induction xs arbitrary: out) (auto simp: nth_list_update)

text \<open>The posting of a key: the documents of its row.\<close>

definition posting_of :: "dict_rec list \<Rightarrow> piece list list \<Rightarrow> nat \<Rightarrow> piece list option" where
  "posting_of dict sels = map_of (zip (map dr_key dict) sels)"

definition all_present :: "dict_rec list \<Rightarrow> piece list list \<Rightarrow> nat list \<Rightarrow> bool" where
  "all_present dict sels keys \<longleftrightarrow> (\<forall>k \<in> set keys. posting_of dict sels k \<noteq> None)"

context posting_store
begin

definition serves :: "dict_rec list \<Rightarrow> piece list list \<Rightarrow> index \<Rightarrow> bool" where
  "serves dict sels ix \<longleftrightarrow> addressable um lim content \<and> index_for content dict ix
     \<and> list_all2 (\<lambda>r sel. holds sel (dr_off r) (dr_size r)) dict sels"

lemma serves_index:
  assumes "serves dict sels ix"
  shows "index_for content dict ix" "ix_dict_start ix + length dict * 20 \<le> length content"
    "ix_dict_start ix + length dict * 20 < U64" "length content < lim" "length content + span_gap < um"
  using assms by (auto simp: serves_def index_for_def addressable_def)

lemma read_blk:
  assumes sv: "serves dict sels ix" and b: "b < sparse_count (length dict) (ix_stride ix)"
  shows "read_block um fetch (blk ix b) = Ok (concat (map encode_row (block_rows ix dict b)))"
    and "parse_block um (concat (map encode_row (block_rows ix dict b))) (db_entries (blk ix b)) k
      = Ok (find_key k (block_rows ix dict b))"
proof -
  let ?n = "db_entries (blk ix b)" and ?s = "b * ix_stride ix" and ?d = "ix_dict_start ix"
  note sx = serves_index [OF sv]
  have in_range: "?s < length dict" using b by (simp add: sparse_count_iff)
  have n: "?s + ?n \<le> length dict" using in_range sx(1) by (auto simp: blk_def index_for_def)
  then have n20: "(?s + ?n) * 20 \<le> length dict * 20" by (intro mult_right_mono) simp_all
  then have bound: "?d + (?s + ?n) * 20 \<le> length content" using sx(2) by linarith
  have "rd fetch (db_off (blk ix b)) (?n * 20) = Ok (cut content (?d + ?s * 20) (?d + ?s * 20 + ?n * 20))"
    using bound sx(4) rd_ok [of "?d + ?s * 20" "?n * 20"] by (simp add: blk_def)
  also have "cut content (?d + ?s * 20) (?d + ?s * 20 + ?n * 20)
      = cut (cut content ?d (?d + length dict * 20)) (?s * 20) ((?s + ?n) * 20)"
    using sx(2) n20 cut_cut [of "(?s + ?n) * 20" "?d + length dict * 20" ?d content "?s * 20"]
    by (simp add: add.assoc add_mult_distrib)
  also have "\<dots> = cut (concat (map encode_row dict)) (?s * 20) ((?s + ?n) * 20)"
    using sx(1) by (simp add: index_for_def)
  also have "\<dots> = concat (map encode_row (block_rows ix dict b))"
    unfolding block_rows_def using n by (intro cut_concat_rows) auto
  finally have r: "rd fetch (db_off (blk ix b)) (?n * 20) = Ok (concat (map encode_row (block_rows ix dict b)))" .
  have um: "?n * 20 < um" using bound sx(5) by simp
  then show "read_block um fetch (blk ix b) = Ok (concat (map encode_row (block_rows ix dict b)))"
    using r by (simp add: read_block_def dict_entry_def del: rd_Ok_iff)
  have len: "length (block_rows ix dict b) = ?n" using n by (simp add: block_rows_def)
  have "\<forall>r \<in> set (block_rows ix dict b). row_ok r"
    using sx(1) by (auto simp: index_for_def dict_ok_def block_rows_def cut_def dest: in_set_takeD in_set_dropD)
  moreover have "sorted_wrt (<) (map dr_key dict)" using sx(1) by (simp add: index_for_def dict_ok_def)
  then have "sorted_wrt (<) (map dr_key (block_rows ix dict b))" unfolding block_rows_def by (rule sorted_cut)
  ultimately show "parse_block um (concat (map encode_row (block_rows ix dict b))) ?n k = Ok (find_key k (block_rows ix dict b))"
    using parse_block_eq [of "block_rows ix dict b" um k] um len by simp
qed

lemma lookup_eq:
  assumes sv: "serves dict sels ix"
  shows "index_lookup um fetch ix k = Ok (find_key k dict)"
  using dict_block_for_cases [OF serves_index(1,3) [OF sv], of k]
proof (elim disjE conjE exE)
  fix b assume "b < sparse_count (length dict) (ix_stride ix)" "dict_block_for ix k = Ok (Some (blk ix b))"
    "find_key k dict = find_key k (block_rows ix dict b)"
  then show ?thesis using read_blk [OF sv] by (simp add: index_lookup_def)
qed (simp add: index_lookup_def)

lemma shared_reads:
  assumes sv: "serves dict sels ix" and bs: "\<forall>b \<in> set bs. b < sparse_count (length dict) (ix_stride ix)"
  shows "\<exists>datas which. read_dict_blocks um fetch (map (blk ix) bs) = Ok (datas, which)
    \<and> (\<forall>j < length bs. \<forall>k. parse_shared um datas which j (blk ix (bs ! j)) k = Ok (find_key k (block_rows ix dict (bs ! j))))"
proof (cases "bs = []")
  case True
  then show ?thesis by (simp add: read_dict_blocks_def)
next
  case False
  then obtain b where "b < sparse_count (length dict) (ix_stride ix)" using bs by (meson last_in_set)
  then have "0 < ix_stride ix" by (simp add: sparse_count_iff)
  from dedupe [OF this, of bs] obtain us which where
    st: "foldl dedupe_step ([], []) (map (blk ix) bs) = (map (blk ix) us, which)"
      "set us \<subseteq> set bs" "length which = length bs" "\<forall>j < length bs. which ! j < length us \<and> us ! (which ! j) = bs ! j"
    by blast
  let ?datas = "map (\<lambda>b. concat (map encode_row (block_rows ix dict b))) us"
  have "list_all2 (\<lambda>x y. read_block um fetch x = Ok y) (map (blk ix) us) ?datas"
    using read_blk(1) [OF sv] bs st(2) by (auto simp: list.rel_map intro!: list.rel_refl_strong)
  then have "read_dict_blocks um fetch (map (blk ix) bs) = Ok (?datas, which)"
    using st(1) by (simp add: read_dict_blocks_def wave_Ok_iff [THEN iffD2])
  moreover have "parse_shared um ?datas which j (blk ix (bs ! j)) k = Ok (find_key k (block_rows ix dict (bs ! j)))"
    if "j < length bs" for j k
    using that st(3,4) bs read_blk(2) [OF sv, of "bs ! j" k] by (simp add: parse_shared_def)
  ultimately show ?thesis by blast
qed

lemma block_numbers:
  assumes sv: "serves dict sels ix"
  obtains num where "\<And>k. dict_block_for ix k = Ok (map_option (blk ix) (num k))"
    "\<And>k b. num k = Some b \<Longrightarrow> b < sparse_count (length dict) (ix_stride ix) \<and> find_key k dict = find_key k (block_rows ix dict b)"
    "\<And>k. num k = None \<Longrightarrow> find_key k dict = None"
proof -
  have "\<exists>nb. dict_block_for ix k = Ok (map_option (blk ix) nb)
     \<and> (\<forall>b. nb = Some b \<longrightarrow> b < sparse_count (length dict) (ix_stride ix) \<and> find_key k dict = find_key k (block_rows ix dict b))
     \<and> (nb = None \<longrightarrow> find_key k dict = None)" for k
    using dict_block_for_cases [OF serves_index(1,3) [OF sv], of k]
  proof (elim disjE conjE exE)
    assume "dict_block_for ix k = Ok None" "find_key k dict = None"
    then show ?thesis by (intro exI [of _ None]) simp
  next
    fix b assume "b < sparse_count (length dict) (ix_stride ix)" "dict_block_for ix k = Ok (Some (blk ix b))"
      "find_key k dict = find_key k (block_rows ix dict b)"
    then show ?thesis by (intro exI [of _ "Some b"]) simp
  qed
  then show thesis using that by metis
qed

lemma resolve_eq:
  assumes sv: "serves dict sels ix"
  shows "resolve_all um fetch ix keys
    = Ok (if \<exists>k \<in> set keys. find_key k dict = None then None else Some (map (\<lambda>k. the (find_key k dict)) keys))"
proof -
  obtain num where num: "\<And>k. dict_block_for ix k = Ok (map_option (blk ix) (num k))"
    "\<And>k b. num k = Some b \<Longrightarrow> b < sparse_count (length dict) (ix_stride ix) \<and> find_key k dict = find_key k (block_rows ix dict b)"
    "\<And>k. num k = None \<Longrightarrow> find_key k dict = None"
    using block_numbers [OF sv] by blast
  have bs: "mapM_o (dict_block_for ix) keys = Ok (map (\<lambda>k. map_option (blk ix) (num k)) keys)"
    by (rule mapM_o_map) (rule num(1))
  show ?thesis
  proof (cases "None \<in> num ` set keys")
    case True
    then obtain k where k: "k \<in> set keys" "num k = None" by auto
    then have "None \<in> set (map (\<lambda>k. map_option (blk ix) (num k)) keys)" by force
    moreover have "\<exists>k \<in> set keys. find_key k dict = None" using k num(3) by blast
    ultimately show ?thesis by (simp only: resolve_all_def bs bind_o.simps if_True)
  next
    case False
    define ns where "ns = map (\<lambda>k. the (num k)) keys"
    have some: "num k \<noteq> None" if "k \<in> set keys" for k using False that by (metis imageI)
    have found: "the (num k) < sparse_count (length dict) (ix_stride ix)
        \<and> find_key k dict = find_key k (block_rows ix dict (the (num k)))" if "k \<in> set keys" for k
      by (rule num(2)) (use some [OF that] in simp)
    have ns: "\<forall>b \<in> set ns. b < sparse_count (length dict) (ix_stride ix)"
      using found by (auto simp: ns_def)
    obtain datas which where rd: "read_dict_blocks um fetch (map (blk ix) ns) = Ok (datas, which)"
      "\<forall>j < length ns. \<forall>k. parse_shared um datas which j (blk ix (ns ! j)) k = Ok (find_key k (block_rows ix dict (ns ! j)))"
      using shared_reads [OF sv ns] by blast
    have no: "None \<notin> set (map (\<lambda>k. map_option (blk ix) (num k)) keys)" by (auto dest: some)
    have blocks: "map the (map (\<lambda>k. map_option (blk ix) (num k)) keys) = map (blk ix) ns"
      using some by (auto simp: ns_def option.map_sel)
    let ?xs = "enumerate 0 (zip (map (blk ix) ns) keys)"
    have "parse_shared um datas which (fst x) (fst (snd x)) (snd (snd x)) = Ok (find_key (snd (snd x)) dict)"
      if "x \<in> set ?xs" for x
    proof -
      obtain i b k where x: "x = (i, b, k)" by (metis prod_cases3)
      have i: "i < length ns" "b = blk ix (ns ! i)" "k = keys ! i" "i < length keys"
        using that x by (auto simp: in_set_enumerate_eq ns_def)
      then have "find_key k dict = find_key k (block_rows ix dict (ns ! i))"
        using found [of k] by (simp add: ns_def)
      then show ?thesis using rd(2) i x by simp
    qed
    note pa = parse_all_eq [of ?xs um datas which "\<lambda>k. find_key k dict", OF this]
    have keys: "map (\<lambda>x. g (snd (snd x))) ?xs = map g keys" for g :: "nat \<Rightarrow> 'x"
      by (intro nth_equalityI) (simp_all add: ns_def nth_enumerate_eq)
    have "(\<exists>x \<in> set ?xs. find_key (snd (snd x)) dict = None) \<longleftrightarrow> (\<exists>k \<in> set keys. find_key k dict = None)"
    proof -
      have "set keys = (\<lambda>x. snd (snd x)) ` set ?xs" using keys [of "\<lambda>k. k"] by (metis list.map_ident list.set_map)
      then show ?thesis by auto
    qed
    then show ?thesis
      using pa no keys [of "\<lambda>k. the (find_key k dict)"]
      by (simp only: resolve_all_def bs bind_o.simps if_False Let_def blocks rd(1) case_prod_conv)
  qed
qed

lemma lookup_many_eq:
  assumes sv: "serves dict sels ix"
  shows "lookup_many um fetch ix keys = Ok (map (\<lambda>k. find_key k dict) keys)"
proof -
  obtain num where num: "\<And>k. dict_block_for ix k = Ok (map_option (blk ix) (num k))"
    "\<And>k b. num k = Some b \<Longrightarrow> b < sparse_count (length dict) (ix_stride ix) \<and> find_key k dict = find_key k (block_rows ix dict b)"
    "\<And>k. num k = None \<Longrightarrow> find_key k dict = None"
    using block_numbers [OF sv] by blast
  define ps where "ps = filter (\<lambda>x. num (snd x) \<noteq> None) (enumerate 0 keys)"
  define bs where "bs = map (\<lambda>x. the (num (snd x))) ps"
  have ps: "fst x < length keys" "snd x = keys ! fst x" "num (snd x) \<noteq> None" if "x \<in> set ps" for x
    using that by (auto simp: ps_def in_set_enumerate_eq)
  have found: "mapM_o (\<lambda>(i, k). map_ok (map_option (Pair i)) (dict_block_for ix k)) (enumerate 0 keys)
      = Ok (map (\<lambda>x. map_option (\<lambda>b. (fst x, blk ix b)) (num (snd x))) (enumerate 0 keys))"
    by (rule mapM_o_map) (auto simp: num(1) option.map_comp comp_def)
  have present: "map the (filter (\<lambda>x. x \<noteq> None) (map (\<lambda>x. map_option (\<lambda>b. (fst x, blk ix b)) (num (snd x))) (enumerate 0 keys)))
      = map (\<lambda>x. (fst x, blk ix (the (num (snd x))))) ps"
    by (auto simp: ps_def filter_map comp_def option.map_sel)
  have bs_ok: "\<forall>b \<in> set bs. b < sparse_count (length dict) (ix_stride ix)"
    using num(2) ps(3) by (auto simp: bs_def)
  obtain datas which where rd: "read_dict_blocks um fetch (map (blk ix) bs) = Ok (datas, which)"
    "\<forall>j < length bs. \<forall>k. parse_shared um datas which j (blk ix (bs ! j)) k = Ok (find_key k (block_rows ix dict (bs ! j)))"
    using shared_reads [OF sv bs_ok] by blast
  have snds: "map snd (map (\<lambda>x. (fst x, blk ix (the (num (snd x))))) ps) = map (blk ix) bs" by (simp add: bs_def)
  let ?xs = "enumerate 0 (map (\<lambda>x. (fst x, blk ix (the (num (snd x))))) ps)"
  let ?idx = "\<lambda>x. fst (snd x)" and ?val = "\<lambda>x. find_key (keys ! fst (snd x)) dict"
  have step: "(\<lambda>out (j, (i, block)). bind_o (nth_p keys i) (\<lambda>k.
         map_ok (\<lambda>r. out[i := r]) (parse_shared um datas which j block k))) out x = Ok (out[?idx x := ?val x])"
    if "x \<in> set ?xs" for out x
  proof -
    obtain j where j: "j < length ps" "x = (j, fst (ps ! j), blk ix (the (num (snd (ps ! j)))))"
      using \<open>x \<in> set ?xs\<close> by (auto simp: in_set_enumerate_eq)
    have p: "fst (ps ! j) < length keys" "snd (ps ! j) = keys ! fst (ps ! j)" "num (snd (ps ! j)) \<noteq> None"
      using ps nth_mem [OF j(1)] by blast+
    have "find_key (snd (ps ! j)) dict = find_key (snd (ps ! j)) (block_rows ix dict (bs ! j))"
      using num(2) p(3) j(1) by (auto simp: bs_def)
    moreover have "parse_shared um datas which j (blk ix (bs ! j)) (snd (ps ! j))
        = Ok (find_key (snd (ps ! j)) (block_rows ix dict (bs ! j)))"
      using rd(2) j(1) by (simp add: bs_def)
    ultimately show ?thesis using j p by (simp add: bs_def)
  qed
  have "lookup_many um fetch ix keys = Ok (foldl (\<lambda>out x. out[?idx x := ?val x]) (replicate (length keys) None) ?xs)"
    unfolding lookup_many_def found present Let_def snds rd(1) bind_o.simps case_prod_conv
    by (rule foldM_o_updates) (rule step)
  also have "foldl (\<lambda>out x. out[?idx x := ?val x]) (replicate (length keys) None) ?xs = map (\<lambda>k. find_key k dict) keys"
  proof (rule nth_equalityI)
    fix i assume "i < length (foldl (\<lambda>out x. out[?idx x := ?val x]) (replicate (length keys) None) ?xs)"
    then have i: "i < length keys" by simp
    have "num (keys ! i) = None" if "i \<notin> ?idx ` set ?xs"
    proof (rule ccontr)
      assume "num (keys ! i) \<noteq> None"
      then have "(i, keys ! i) \<in> set ps" using i by (auto simp: ps_def in_set_enumerate_eq)
      then have "i \<in> fst ` set ps" by force
      moreover have "map ?idx ?xs = map fst ps" by (intro nth_equalityI) (simp_all add: nth_enumerate_eq)
      then have "?idx ` set ?xs = fst ` set ps" by (metis list.set_map)
      ultimately show False using that by blast
    qed
    then show "foldl (\<lambda>out x. out[?idx x := ?val x]) (replicate (length keys) None) ?xs ! i = map (\<lambda>k. find_key k dict) keys ! i"
      using i num(3) by (subst foldl_update_nth [of _ ?val "\<lambda>i. find_key (keys ! i) dict" ?idx]) auto
  qed simp
  finally show ?thesis .
qed

lemma posting_of_find:
  assumes "list_all2 (\<lambda>r sel. holds sel (dr_off r) (dr_size r)) dict sels"
  shows "find_key k dict = None \<longleftrightarrow> posting_of dict sels k = None"
    and "find_key k dict = Some r \<Longrightarrow> \<exists>sel. posting_of dict sels k = Some sel \<and> holds sel (dr_off r) (dr_size r)"
  using assms unfolding posting_of_def by (induction rule: list_all2_induct) (auto split: if_splits)

lemma index_posting_eq:
  assumes sv: "serves dict sels ix"
  shows "index_posting um deser fetch ix k = Ok (map_option docs (posting_of dict sels k))"
    and "term_count um deser fetch ix k = Ok (map_option (card \<circ> docs) (posting_of dict sels k))"
proof -
  have l2: "list_all2 (\<lambda>r sel. holds sel (dr_off r) (dr_size r)) dict sels" using sv by (simp add: serves_def)
  have "index_posting um deser fetch ix k = Ok (map_option docs (posting_of dict sels k))
     \<and> term_count um deser fetch ix k = Ok (map_option (card \<circ> docs) (posting_of dict sels k))"
  proof (cases "find_key k dict")
    case None
    then have "posting_of dict sels k = None" using posting_of_find(1) [OF l2] by blast
    then show ?thesis using lookup_eq [OF sv] None by (simp add: index_posting_def term_count_def)
  next
    case (Some r)
    then obtain sel where sel: "posting_of dict sels k = Some sel" "holds sel (dr_off r) (dr_size r)"
      using posting_of_find(2) [OF l2] by blast
    have "well_formed sel" using sel(2) by (simp add: holds_iff)
    then show ?thesis
      using Some sel lookup_eq [OF sv] holds_whole [OF sel(2)] deserialize_assemble cardinality [OF sel(2)]
      by (simp add: index_posting_def term_count_def del: rd_Ok_iff deserialize_Ok)
  qed
  then show "index_posting um deser fetch ix k = Ok (map_option docs (posting_of dict sels k))"
    "term_count um deser fetch ix k = Ok (map_option (card \<circ> docs) (posting_of dict sels k))" by simp_all
qed

lemma cost_loop_eq:
  assumes "\<forall>r \<in> set dict. row_ok r" "acc + length keys * U32 \<le> U64"
  shows "cost_loop acc (map (\<lambda>k. find_key k dict) keys)
    = Ok (if \<exists>k \<in> set keys. find_key k dict = None then 0
          else acc + sum_list (map (\<lambda>k. dr_size (the (find_key k dict))) keys))"
  using assms(2)
proof (induction keys arbitrary: acc)
  case Nil
  then show ?case by simp
next
  case (Cons k keys)
  show ?case
  proof (cases "find_key k dict")
    case None
    then show ?thesis by simp
  next
    case (Some r)
    then have "r \<in> set dict" by (auto simp: find_Some_iff)
    then have sz: "dr_size r < U32" using assms(1) by (simp add: row_ok_def)
    have "acc + dr_size r < U64" using Cons.prems sz by simp
    moreover have "(acc + dr_size r) + length keys * U32 \<le> U64" using Cons.prems sz by simp
    note Cons.IH [OF this]
    ultimately show ?thesis using Some by auto
  qed
qed

lemma present_rows:
  assumes sv: "serves dict sels ix" and "all_present dict sels keys" "k \<in> set keys"
  shows "find_key k dict \<noteq> None" "holds (the (posting_of dict sels k)) (dr_off (the (find_key k dict))) (dr_size (the (find_key k dict)))"
proof -
  have l2: "list_all2 (\<lambda>r sel. holds sel (dr_off r) (dr_size r)) dict sels" using sv by (simp add: serves_def)
  show "find_key k dict \<noteq> None" using assms(2,3) posting_of_find(1) [OF l2] by (auto simp: all_present_def)
  then show "holds (the (posting_of dict sels k)) (dr_off (the (find_key k dict))) (dr_size (the (find_key k dict)))"
    using posting_of_find(2) [OF l2] by fastforce
qed

lemma absent_row:
  assumes "serves dict sels ix" "\<not> all_present dict sels keys"
  shows "\<exists>k \<in> set keys. find_key k dict = None"
proof -
  have l2: "list_all2 (\<lambda>r sel. holds sel (dr_off r) (dr_size r)) dict sels" using assms(1) by (simp add: serves_def)
  show ?thesis using assms(2) posting_of_find(1) [OF l2] by (auto simp: all_present_def)
qed

lemma query_cost_eq:
  assumes sv: "serves dict sels ix" and "length keys \<le> U32"
  shows "query_cost um fetch ix keys
    = Ok (if all_present dict sels keys then sum_list (map (\<lambda>k. length (assemble (the (posting_of dict sels k)))) keys) else 0)"
proof (cases "keys = []")
  case True
  then show ?thesis by (simp add: query_cost_def all_present_def)
next
  case False
  have rows: "\<forall>r \<in> set dict. row_ok r" using sv by (simp add: serves_def index_for_def dict_ok_def)
  have "0 + length keys * U32 \<le> U64" using assms(2) by simp
  note cl = cost_loop_eq [OF rows this]
  show ?thesis
  proof (cases "all_present dict sels keys")
    case True
    have "map (\<lambda>k. dr_size (the (find_key k dict))) keys = map (\<lambda>k. length (assemble (the (posting_of dict sels k)))) keys"
      using holds_length [OF present_rows(2) [OF sv True]] by simp
    moreover have "\<not> (\<exists>k \<in> set keys. find_key k dict = None)" using present_rows(1) [OF sv True] by blast
    ultimately show ?thesis
      using False True cl lookup_many_eq [OF sv] by (simp only: query_cost_def if_False if_True bind_o.simps add_0)
  next
    case absent: False
    then show ?thesis using False cl lookup_many_eq [OF sv] absent_row [OF sv absent] by (simp add: query_cost_def)
  qed
qed

lemma foldl_min_le: "foldl min a xs \<le> a \<and> (\<forall>x \<in> set xs. foldl min a xs \<le> (x :: nat))"
proof (induction xs arbitrary: a)
  case (Cons y xs)
  show ?case using Cons.IH [of "min a y"] by auto
qed simp

lemma foldl_min_in: "foldl min a xs = a \<or> foldl min a xs \<in> set (xs :: nat list)"
proof (induction xs arbitrary: a)
  case (Cons y xs)
  then show ?case using Cons.IH [of "min a y"] by (auto simp: min_def split: if_splits)
qed simp

end

text \<open>The strict AND of a list of keys over a table of postings.\<close>

definition matches :: "(nat \<Rightarrow> nat set option) \<Rightarrow> nat list \<Rightarrow> nat set" where
  "matches post keys = {d. keys \<noteq> [] \<and> (\<forall>k \<in> set keys. case post k of None \<Rightarrow> False | Some s \<Rightarrow> d \<in> s)}"

lemma matches_iff:
  "d \<in> matches post keys \<longleftrightarrow> keys \<noteq> [] \<and> (\<forall>k \<in> set keys. post k \<noteq> None \<and> d \<in> the (post k))"
  by (auto simp: matches_def split: option.splits)

lemma matches_Nil [simp]: "matches post [] = {}"
  by (simp add: matches_def)

abbreviation docs_of :: "dict_rec list \<Rightarrow> piece list list \<Rightarrow> nat \<Rightarrow> nat set option" where
  "docs_of dict sels k \<equiv> map_option docs (posting_of dict sels k)"

lemma intersect_eq: "bs \<noteq> [] \<Longrightarrow> unwrap_or_default (intersect bs) = \<Inter>(set bs)"
  using sort_key_Cons [of bs card] inter_loop_sorted [of card bs]
  by (auto simp: intersect_def unwrap_or_default_def)

context posting_store
begin

lemma matches_present:
  assumes "all_present dict sels keys" "keys \<noteq> []"
  shows "matches (docs_of dict sels) keys = (\<Inter>k \<in> set keys. docs (the (posting_of dict sels k)))"
proof (intro set_eqI)
  fix d
  have "docs_of dict sels k \<noteq> None \<and> the (docs_of dict sels k) = docs (the (posting_of dict sels k))" if "k \<in> set keys" for k
    using assms(1) that by (auto simp: all_present_def)
  then show "d \<in> matches (docs_of dict sels) keys \<longleftrightarrow> d \<in> (\<Inter>k \<in> set keys. docs (the (posting_of dict sels k)))"
    using assms(2) by (simp add: matches_iff)
qed

lemma matches_absent:
  assumes "\<not> all_present dict sels keys"
  shows "matches (docs_of dict sels) keys = {}"
proof -
  obtain k where "k \<in> set keys" "docs_of dict sels k = None" using assms by (auto simp: all_present_def)
  then have "d \<notin> matches (docs_of dict sels) keys" for d using matches_iff by metis
  then show ?thesis by blast
qed

lemma matches_finite: "finite (matches (docs_of dict sels) keys)"
proof (cases "all_present dict sels keys \<and> keys \<noteq> []")
  case True
  then obtain k where "k \<in> set keys" by (meson last_in_set)
  then have "matches (docs_of dict sels) keys \<subseteq> docs (the (posting_of dict sels k))"
    using True by (auto simp: matches_present)
  then show ?thesis by (rule finite_subset) simp
next
  case False
  then show ?thesis using matches_absent [of dict sels keys] by (cases "keys = []") simp_all
qed

lemma count_estimate_bound:
  assumes sv: "serves dict sels ix"
  shows "\<exists>n exact. count_estimate um deser fetch ix keys = Ok (n, exact)
    \<and> card (matches (docs_of dict sels) keys) \<le> n
    \<and> (exact \<longrightarrow> n = card (matches (docs_of dict sels) keys))"
proof (cases "keys = [] \<or> \<not> all_present dict sels keys")
  case True
  then have none: "matches (docs_of dict sels) keys = {}" using matches_absent [of dict sels keys] by auto
  show ?thesis
  proof (cases "keys = []")
    case False
    then have "\<exists>k \<in> set keys. find_key k dict = None" using True absent_row [OF sv] by blast
    then have "None \<in> set (map (\<lambda>k. find_key k dict) keys)" by force
    then have "count_estimate um deser fetch ix keys = Ok (0, True)"
      using False lookup_many_eq [OF sv] by (simp add: count_estimate_def)
    then show ?thesis using none by auto
  qed (use none in \<open>auto simp: count_estimate_def\<close>)
next
  case False
  then have ap: "all_present dict sels keys" and ne: "keys \<noteq> []" by simp_all
  let ?sel = "\<lambda>k. the (posting_of dict sels k)" and ?row = "\<lambda>k. find_key k dict"
  let ?M = "matches (docs_of dict sels) keys" and ?counts = "map (\<lambda>k. card (docs (?sel k))) keys"
  have no: "None \<notin> set (map ?row keys)"
    unfolding set_map image_iff using present_rows(1) [OF sv ap] by metis
  have "list_all2 (\<lambda>x y. posting_cardinality um deser fetch (dr_off (the x)) (dr_size (the x)) = Ok y) (map ?row keys) ?counts"
    using cardinality [OF present_rows(2) [OF sv ap]] by (auto simp: list.rel_map intro!: list.rel_refl_strong)
  then have w: "wave (\<lambda>r. posting_cardinality um deser fetch (dr_off (the r)) (dr_size (the r))) (map ?row keys) = Ok ?counts"
    by (simp only: wave_Ok_iff)
  have eq: "count_estimate um deser fetch ix keys = Ok (foldl min (U64 - 1) ?counts, length keys = 1)"
    unfolding count_estimate_def lookup_many_eq [OF sv] bind_o.simps w using ne no by simp
  have M: "?M = (\<Inter>k \<in> set keys. docs (?sel k))" by (rule matches_present [OF ap ne])
  have le: "card ?M \<le> card (docs (?sel k))" if "k \<in> set keys" for k
    by (rule card_mono) (use that M in auto)
  have small: "card (docs (?sel k)) < U64 - 1" if "k \<in> set keys" for k
  proof -
    have "well_formed (?sel k)" using present_rows(2) [OF sv ap that] by (simp add: holds_iff)
    then have "docs (?sel k) \<subseteq> {..<U32}" using docs_bound by blast
    then have "card (docs (?sel k)) \<le> U32" using card_mono [of "{..<U32}" "docs (?sel k)"] by simp
    then show ?thesis by simp
  qed
  have "card ?M \<le> foldl min (U64 - 1) ?counts"
  proof -
    have "card ?M \<le> U64 - 1" using le [of "hd keys"] small [of "hd keys"] ne by simp
    then show ?thesis using foldl_min_in [of "U64 - 1" ?counts] le by auto
  qed
  moreover have "foldl min (U64 - 1) ?counts = card ?M" if "length keys = 1"
  proof -
    obtain k where k: "keys = [k]" using \<open>length keys = 1\<close> by (auto simp: length_Suc_conv)
    then have "?M = docs (?sel k)" using M by (simp only: set_simps INF_insert INF_empty inf_top_right)
    then show ?thesis using k small [of k] by (simp add: min_def)
  qed
  ultimately show ?thesis unfolding eq by auto
qed

end

section \<open>Searches are exact\<close>

context scan_store
begin

lemma search_fill_eq:
  assumes "scan_holds ts [] [] s" "65536 + tail_key_batch < um" "length out \<le> limit"
  shows "search_fill um deser fetch limit s out
    = Ok (take limit (out @ sorted_list_of_set (scan_result ts [] [] \<inter> ix.in_window (drop (ts_pos s) (ts_keys s)))))"
  using assms(1,3)
proof (induction "length (ts_keys s) - ts_pos s" arbitrary: s out rule: less_induct)
  case less
  let ?R = "scan_result ts [] []"
  show ?case
  proof (cases "length out < limit \<and> \<not> exhausted s")
    case False
    then consider "length out = limit" | "exhausted s" using less.prems(2) by linarith
    then show ?thesis
    proof cases
      case 1
      then show ?thesis by (simp add: search_fill.simps [of um deser fetch limit s out])
    next
      case 2
      then show ?thesis using less.prems(2)
        by (simp add: search_fill.simps [of um deser fetch limit s out] exhausted_def)
    qed
  next
    case True
    then have more: "\<not> exhausted s" "length out < limit" by simp_all
    let ?stop = "min (ts_pos s + tail_key_batch) (length (ts_keys s))"
    let ?w = "cut (ts_keys s) (ts_pos s) ?stop" and ?rest = "drop ?stop (ts_keys s)"
    have batch: "0 < tail_key_batch" by (simp add: tail_key_batch_def)
    note st = window_step [where ffo = None, OF less.prems(1) more(1) batch assms(2) disjI1 [OF conjI [OF refl refl]]]
    let ?W = "sorted_list_of_set (?R \<inter> ix.in_window ?w)" and ?L = "sorted_list_of_set (?R \<inter> ix.in_window ?rest)"
    have split: "drop (ts_pos s) (ts_keys s) = ?w @ ?rest" using st(3) by (intro cut_drop) (rule less_imp_le)
    have "sorted_wrt (<) (?w @ ?rest)"
      unfolding split [symmetric] using less.prems(1) by (simp add: scan_holds_def sorted_wrt_drop)
    then have below: "k < l" if "k \<in> set ?w" "l \<in> set ?rest" for k l using that unfolding sorted_wrt_append by blast
    have fin: "finite ?R" using less.prems(1) by (rule scan_result_finite)
    have all: "sorted_list_of_set (?R \<inter> ix.in_window (drop (ts_pos s) (ts_keys s))) = ?W @ ?L"
    proof -
      have eq: "?R \<inter> ix.in_window (?w @ ?rest) = (?R \<inter> ix.in_window ?w) \<union> (?R \<inter> ix.in_window ?rest)" by auto
      have "sorted_list_of_set ((?R \<inter> ix.in_window ?w) \<union> (?R \<inter> ix.in_window ?rest)) = ?W @ ?L"
      proof (rule sorted_list_of_set_union_below)
        fix a b assume "a \<in> ?R \<inter> ix.in_window ?w" "b \<in> ?R \<inter> ix.in_window ?rest"
        then have "high_key a < high_key b" using below by blast
        then show "a < b" by (rule high_key_less)
      qed (use fin in auto)
      then show ?thesis unfolding split eq .
    qed
    let ?out = "out @ take (limit - length out) ?W"
    have "search_fill um deser fetch limit s out = search_fill um deser fetch limit (s\<lparr>ts_pos := ?stop\<rparr>) ?out"
      using more st(1) by (simp add: search_fill.simps [of um deser fetch limit s out])
    also have "\<dots> = Ok (take limit (?out @ ?L))"
    proof -
      have m: "length (ts_keys (s\<lparr>ts_pos := ?stop\<rparr>)) - ts_pos (s\<lparr>ts_pos := ?stop\<rparr>) < length (ts_keys s) - ts_pos s"
        using st(3,4) by (simp add: diff_less_mono2)
      have o: "length ?out \<le> limit" using more(2) by simp
      have p: "ts_pos (s\<lparr>ts_pos := ?stop\<rparr>) = ?stop" "ts_keys (s\<lparr>ts_pos := ?stop\<rparr>) = ts_keys s" by simp_all
      show ?thesis using less.hyps [OF m st(2) o] unfolding p .
    qed
    also have "take limit (?out @ ?L) = take limit (out @ ?W @ ?L)"
      using more(2) by (simp add: min_def)
    finally show ?thesis unfolding all .
  qed
qed

end

context posting_store
begin

lemma wave_rows:
  assumes sv: "serves dict sels ix" and ap: "all_present dict sels keys"
    and read: "\<And>sel off len. holds sel off len \<Longrightarrow> g off len = Ok (h sel)"
  shows "wave (\<lambda>rec. g (dr_off rec) (dr_size rec)) (map (\<lambda>k. the (find_key k dict)) keys)
    = Ok (map (\<lambda>k. h (the (posting_of dict sels k))) keys)"
proof -
  have "list_all2 (\<lambda>rec y. g (dr_off rec) (dr_size rec) = Ok y) (map (\<lambda>k. the (find_key k dict)) keys)
      (map (\<lambda>k. h (the (posting_of dict sels k))) keys)"
    using read [OF present_rows(2) [OF sv ap]] by (auto simp: list.rel_map intro!: list.rel_refl_strong)
  then show ?thesis by (simp only: wave_Ok_iff)
qed

lemma tails_of_rows:
  assumes sv: "serves dict sels ix" and ap: "all_present dict sels keys"
  shows "tails_hold (map (\<lambda>k. the (posting_of dict sels k)) keys)
    (map (\<lambda>rec. (dr_off rec, dr_size rec)) (map (\<lambda>k. the (find_key k dict)) keys))"
  using present_rows(2) [OF sv ap] by (auto simp: tails_hold_def list.rel_map intro!: list.rel_refl_strong)

text \<open>The eager prefix and the rest of a result.\<close>

lemma split_at_eager:
  assumes "finite (M :: nat set)"
  shows "sorted_list_of_set M = sorted_list_of_set {d \<in> M. d < 65536} @ sorted_list_of_set {d \<in> M. 1 \<le> high_key d}"
proof -
  have "M = {d \<in> M. d < 65536} \<union> {d \<in> M. 1 \<le> high_key d}" by (auto simp: Suc_le_eq div_greater_zero_iff)
  then have "sorted_list_of_set M = sorted_list_of_set ({d \<in> M. d < 65536} \<union> {d \<in> M. 1 \<le> high_key d})" by simp
  also have "\<dots> = sorted_list_of_set {d \<in> M. d < 65536} @ sorted_list_of_set {d \<in> M. 1 \<le> high_key d}"
    using assms by (intro sorted_list_of_set_union_below) (auto simp: Suc_le_eq div_greater_zero_iff)
  finally show ?thesis .
qed

lemma scan_self: "scan_store fetch content lim deser ser fetch content lim"
  by (intro scan_store.intro posting_store_axioms)

lemma search_eq:
  assumes sv: "serves dict sels ix" and um: "65536 + tail_key_batch < um"
  shows "index_search um deser fetch ix keys limit
    = Ok (take limit (sorted_list_of_set (matches (docs_of dict sels) keys)))"
proof (cases "keys = [] \<or> limit = 0")
  case True
  then show ?thesis by (auto simp: index_search_def)
next
  case False
  let ?M = "matches (docs_of dict sels) keys"
  show ?thesis
  proof (cases "all_present dict sels keys")
    case no: False
    then have "resolve_all um fetch ix keys = Ok None" using absent_row [OF sv no] resolve_eq [OF sv] by simp
    then show ?thesis using False matches_absent [OF no] by (simp add: index_search_def)
  next
    case ap: True
    let ?ts = "map (\<lambda>k. the (posting_of dict sels k)) keys" and ?recs = "map (\<lambda>k. the (find_key k dict)) keys"
    let ?H = "{d \<in> ?M. d < 65536}" and ?T = "{d \<in> ?M. 1 \<le> high_key d}"
    have recs: "resolve_all um fetch ix keys = Ok (Some ?recs)"
      using resolve_eq [OF sv, of keys] present_rows(1) [OF sv ap] by auto
    have heads: "fetch_head_prefixes um deser fetch ?recs = Ok (map (\<lambda>k. {d \<in> docs (the (posting_of dict sels k)). d < 65536}) keys)"
      unfolding fetch_head_prefixes_def
      by (rule wave_rows [OF sv ap]) (simp add: head_prefix eager_buckets_def)
    have M: "?M = (\<Inter>k \<in> set keys. docs (the (posting_of dict sels k)))"
      using False by (intro matches_present [OF ap]) simp
    have head_and: "unwrap_or_default (intersect (map (\<lambda>k. {d \<in> docs (the (posting_of dict sels k)). d < 65536}) keys)) = ?H"
      using False by (subst intersect_eq) (auto simp: M dest: bspec [OF _ hd_in_set])
    have split: "sorted_list_of_set ?M = sorted_list_of_set ?H @ sorted_list_of_set ?T"
      by (rule split_at_eager [OF matches_finite])
    let ?out = "take limit (sorted_list_of_set ?H)"
    show ?thesis
    proof (cases "length ?out \<ge> limit")
      case True
      then show ?thesis
        unfolding split using False recs heads head_and by (simp add: index_search_def Let_def)
    next
      case short: False
      have out: "?out = sorted_list_of_set ?H" using short by simp
      let ?ranges = "map (\<lambda>rec. (dr_off rec, dr_size rec)) ?recs"
      have ts: "?ts \<noteq> []" using False by simp
      have "list_all2 tails_hold [] []" "tails_hold [] []" by (simp_all add: tails_hold_def)
      then obtain s where s: "tail_scan_open um fetch ?ranges None [] [] eager_buckets = Ok (Some s)"
        "scan_store.scan_holds content lim um content lim ?ts [] [] s" "ts_pos s = 0"
        "scan_result ?ts [] [] \<inter> in_window (ts_keys s) = {x \<in> scan_result ?ts [] []. eager_buckets \<le> high_key x}"
        using scan_store.scan_open [OF scan_self tails_of_rows [OF sv ap] ts, of "[]" "[]" "[]" "[]" None eager_buckets]
        by blast
      have T: "scan_result ?ts [] [] \<inter> in_window (drop (ts_pos s) (ts_keys s)) = ?T"
        using s(3,4) by (auto simp: scan_result_def M eager_buckets_def)
      have "search_fill um deser fetch limit s ?out = Ok (take limit (?out @ sorted_list_of_set ?T))"
        using scan_store.search_fill_eq [OF scan_self s(2) um, of ?out limit] unfolding T by simp
      then show ?thesis
        unfolding split using False recs heads head_and short s(1) out
        by (simp add: index_search_def Let_def)
    qed
  qed
qed

lemma candidates_eq:
  assumes sv: "serves dict sels ix" and "keys \<noteq> []" "0 < k"
  shows "\<exists>chosen. search_candidates um deser fetch ix keys k
      = Ok (if all_present dict sels keys then sorted_list_of_set (matches (docs_of dict sels) chosen) else [])
    \<and> chosen \<noteq> [] \<and> set chosen \<subseteq> set keys \<and> length chosen = min k (length keys)
    \<and> (length keys \<le> k \<longrightarrow> set chosen = set keys)"
proof -
  let ?row = "\<lambda>k. the (find_key k dict)"
  define chosen where "chosen = take (min k (length keys)) (sort_key (dr_size \<circ> ?row) keys)"
  have rarest: "take (min k (length (map ?row keys))) (sort_key dr_size (map ?row keys)) = map ?row chosen"
    unfolding chosen_def by (simp add: map_sort_key [symmetric] take_map comp_def)
  have sub: "set chosen \<subseteq> set keys" unfolding chosen_def by (metis set_sort set_take_subset)
  have len: "length chosen = min k (length keys)" by (simp add: chosen_def)
  then have ne: "chosen \<noteq> []" using assms(2,3) by (auto simp: min_def split: if_splits)
  have full: "set chosen = set keys" if "length keys \<le> k" using that by (simp add: chosen_def)
  have "search_candidates um deser fetch ix keys k
      = Ok (if all_present dict sels keys then sorted_list_of_set (matches (docs_of dict sels) chosen) else [])"
  proof (cases "all_present dict sels keys")
    case no: False
    then have "resolve_all um fetch ix keys = Ok None" using absent_row [OF sv no] resolve_eq [OF sv] by simp
    then show ?thesis using no assms(2,3) by (simp add: search_candidates_def)
  next
    case ap: True
    then have apc: "all_present dict sels chosen" using sub by (auto simp: all_present_def)
    have recs: "resolve_all um fetch ix keys = Ok (Some (map ?row keys))"
      using resolve_eq [OF sv, of keys] present_rows(1) [OF sv ap] by auto
    let ?bodies = "map (\<lambda>k. assemble (the (posting_of dict sels k))) chosen"
    have h: "holds (the (posting_of dict sels k)) (dr_off (?row k)) (dr_size (?row k))" if "k \<in> set chosen" for k
      using present_rows(2) [OF sv apc that] .
    have "map (\<lambda>rec. rd fetch (dr_off rec) (dr_size rec)) (map ?row chosen) = map Ok ?bodies"
      using holds_whole [OF h] by simp
    then have reads: "join_all (\<lambda>rec. rd fetch (dr_off rec) (dr_size rec)) (map ?row chosen) = Ok (map Ok ?bodies)"
      using rd_no_panic by (auto simp: join_all_def list_ex_iff simp del: rd_Panic_iff)
    have "mapM_o (\<lambda>bytes. bind_o bytes (deserialize deser)) (map Ok ?bodies)
        = Ok (map (\<lambda>k. docs (the (posting_of dict sels k))) chosen)"
      using h deserialize_assemble by (auto simp: mapM_o_Ok_iff list.rel_map holds_iff intro!: list.rel_refl_strong)
    moreover have "unwrap_or_default (intersect (map (\<lambda>k. docs (the (posting_of dict sels k))) chosen))
        = matches (docs_of dict sels) chosen"
      using ne by (simp add: intersect_eq matches_present [OF apc ne])
    ultimately show ?thesis
      using assms(2,3) ap recs rarest reads
      by (simp only: search_candidates_def bind_o.simps option.case Let_def if_True if_False simp_thms neq0_conv not_less0)
         simp
  qed
  then show ?thesis using ne sub len full by blast
qed

end

end
