(* ===== verification/RR_Build.thy ===== *)
theory RR_Build imports RR_Index "HOL-Library.Multiset" begin

text \<open>
  The index writer (\<open>rust/src/build.rs\<close>): \<open>write_index\<close>, \<open>write_index_with\<close>,
  \<open>write_sparse_index\<close>, \<open>serialize_posting\<close>. What is written to the sink is
  the byte list of the \<open>Ok\<close> result; an \<open>io::Error\<close> is its message.

  The lemmas show that what the writer lays out is what the reader boots: the header fields, the
  sparse index, the dictionary rows and the postings, so that a search over a written index is
  the strict AND of the postings it was given.
\<close>

section \<open>The writer\<close>

definition default_stride :: nat where "default_stride = 512"

text \<open>The head/tail split the facet and term indexes keep.\<close>

definition split_posting :: "(nat set \<Rightarrow> bytes) \<Rightarrow> nat set \<Rightarrow> nat \<Rightarrow> bytes \<times> bytes" where
  "split_posting ser bm head_boundary = (ser ({0..<head_boundary} \<inter> bm), ser (bm - {0..<head_boundary}))"

definition serialize_posting :: "(nat set \<Rightarrow> bytes) \<Rightarrow> nat set \<Rightarrow> bytes" where
  "serialize_posting ser bm = ser bm"

definition write_sparse_index :: "('a \<Rightarrow> nat) \<Rightarrow> 'a list \<Rightarrow> nat \<Rightarrow> nat \<Rightarrow> bytes io" where
  "write_sparse_index key entries n stride =
     map_ok concat (mapM_o (\<lambda>i. map_ok (\<lambda>e. to_le 8 (key e)) (nth_p entries (i * stride))) [0..<n])"

fun write_dict :: "nat \<Rightarrow> (nat \<times> bytes) list \<Rightarrow> bytes io" where
  "write_dict off [] = Ok []"
| "write_dict off ((key, posting) # es) =
     bind_o (u32_len (length posting) ''RRS posting'') (\<lambda>sz.
     bind_o (add_p U64 off (length posting)) (\<lambda>off'.
     map_ok ((@) (to_le 8 key @ to_le 8 off @ to_le 4 sz)) (write_dict off' es)))"

definition write_index_with :: "nat \<Rightarrow> nat \<Rightarrow> (nat \<times> bytes) list \<Rightarrow> bool \<Rightarrow> bytes io" where
  "write_index_with gram_size stride0 entries0 case_normalization =
     (let entries = sort_key fst entries0 in
      if list_ex (\<lambda>(a, b). fst a = fst b) (zip entries (tl entries))
      then Err ''write_index requires distinct n-gram keys''
      else
        let stride = (if stride0 = 0 then default_stride else stride0);
            ngrams = length entries mod U32;
            n = (if ngrams = 0 then 0 else (ngrams + stride - 1) div stride);
            header_size = (if case_normalization then header_v3 else header_v4);
            dict_start = header_size + n * 8;
            postings_start = dict_start + length entries * 20;
            header = ascii ''RRSI'' @ to_le 2 (if case_normalization then version_v3 else version_v4)
              @ to_le 2 gram_size @ to_le 4 ngrams @ to_le 4 stride
              @ (if case_normalization then [] else to_le 2 1)
        in bind_o (write_sparse_index fst entries n stride) (\<lambda>sparse.
           bind_o (write_dict postings_start entries) (\<lambda>dict.
           Ok (header @ sparse @ dict @ concat (map snd entries)))))"

definition write_index :: "nat \<Rightarrow> nat \<Rightarrow> (nat \<times> bytes) list \<Rightarrow> bytes io" where
  "write_index gram_size stride entries = write_index_with gram_size stride entries True"

section \<open>The layout\<close>

fun dict_rows :: "nat \<Rightarrow> (nat \<times> bytes) list \<Rightarrow> dict_rec list" where
  "dict_rows off [] = []"
| "dict_rows off ((key, posting) # es) =
     \<lparr>dr_key = key, dr_off = off, dr_size = length posting\<rparr> # dict_rows (off + length posting) es"

lemma length_dict_rows [simp]: "length (dict_rows off es) = length es"
  by (induction off es rule: dict_rows.induct) auto

lemma keys_dict_rows [simp]: "map dr_key (dict_rows off es) = map fst es"
  by (induction off es rule: dict_rows.induct) auto

lemma write_dict_eq:
  assumes "\<forall>e \<in> set es. length (snd e) < U32" "off + length (concat (map snd es)) < U64"
  shows "write_dict off es = Ok (concat (map encode_row (dict_rows off es)))"
  using assms by (induction off es rule: dict_rows.induct) (auto simp: u32_len_def encode_row_def)

lemma dict_rows_ok:
  assumes "\<forall>e \<in> set es. fst e < U64 \<and> length (snd e) < U32" "off + length (concat (map snd es)) < U64"
  shows "\<forall>r \<in> set (dict_rows off es). row_ok r"
  using assms by (induction off es rule: dict_rows.induct) (auto simp: row_ok_def)

lemma rows_stored:
  "list_all2 (\<lambda>r e. dr_off r + dr_size r \<le> length (pre @ concat (map snd es))
       \<and> cut (pre @ concat (map snd es)) (dr_off r) (dr_off r + dr_size r) = snd e)
     (dict_rows (length pre) es) es"
proof (induction es arbitrary: pre)
  case Nil
  then show ?case by simp
next
  case (Cons e es)
  obtain k p where e: "e = (k, p)" by fastforce
  have "cut (pre @ p @ concat (map snd es)) (length pre) (length pre + length p) = p" by (intro cut_mid) simp_all
  then show ?case using Cons.IH [of "pre @ p"] e by simp
qed

lemma distinct_adjacent:
  assumes "sorted (map f xs)"
  shows "list_ex (\<lambda>(a, b). f a = f b) (zip xs (tl xs)) \<longleftrightarrow> \<not> distinct (map f xs)"
  using assms
proof (induction xs)
  case Nil
  then show ?case by simp
next
  case (Cons x xs)
  show ?case
  proof (cases xs)
    case Nil
    then show ?thesis by simp
  next
    case (Cons y ys)
    have "f x = f y \<longleftrightarrow> f x \<in> set (map f xs)"
      using Cons.prems Cons by (auto intro: order_antisym)
    then show ?thesis using Cons.IH Cons.prems Cons by simp
  qed
qed

lemma sparse_eq:
  assumes "\<forall>i < n. i * stride < length entries"
  shows "write_sparse_index key entries n stride = Ok (concat (map (to_le 8) (map (\<lambda>i. key (entries ! (i * stride))) [0..<n])))"
proof -
  have "mapM_o (\<lambda>i. map_ok (\<lambda>e. to_le 8 (key e)) (nth_p entries (i * stride))) [0..<n]
      = (Ok (map (\<lambda>i. to_le 8 (key (entries ! (i * stride)))) [0..<n]) :: bytes list io)"
    by (rule mapM_o_map) (use assms in auto)
  then show ?thesis by (simp add: write_sparse_index_def comp_def)
qed

section \<open>What boots\<close>

text \<open>
  \<open>boots um bs ix\<close>: the object \<open>bs\<close> starts with a boot region whose index is \<open>ix\<close>.
\<close>

definition boot_header :: "bytes \<Rightarrow> nat" where
  "boot_header bs = (if u16_at bs 4 = version_v3 then header_v3 else header_v4)"

definition boot_sparse :: "bytes \<Rightarrow> nat" where
  "boot_sparse bs = sparse_count (u32_at bs 8) (u32_at bs 12)"

definition boot_index :: "bytes \<Rightarrow> index" where
  "boot_index bs = \<lparr>ix_gram = u16_at bs 6, ix_ngrams = u32_at bs 8, ix_stride = u32_at bs 12,
     ix_dict_start = boot_header bs + boot_sparse bs * 8,
     ix_sparse = map (\<lambda>i. u64_at bs (boot_header bs + i * 8)) [0..<boot_sparse bs],
     ix_fold = (u16_at bs 4 = version_v3 \<or> even (u16_at bs header_v3))\<rparr>"

definition boots :: "nat \<Rightarrow> bytes \<Rightarrow> index \<Rightarrow> bool" where
  "boots um bs ix \<longleftrightarrow> header_v3 \<le> length bs \<and> cut bs 0 4 = rrs_magic
     \<and> (u16_at bs 4 = version_v3 \<or> u16_at bs 4 = version_v4)
     \<and> (u32_at bs 12 \<noteq> 0 \<or> u32_at bs 8 = 0) \<and> boot_sparse bs * 8 < um
     \<and> boot_header bs + boot_sparse bs * 8 \<le> length bs \<and> ix = boot_index bs"

lemma mem_read_iff:
  "length bs < um \<Longrightarrow> mem_read um (mem_new bs) off len = Ok b \<longleftrightarrow> off + len \<le> length bs \<and> b = cut bs off (off + len)"
  using mem_read_Ok [of um "mem_new bs" off len b] mem_read_in_range [of "mem_new bs" off len um] by auto

lemma read_table:
  assumes "off + n * 8 \<le> length bs"
  shows "mapM_o (\<lambda>i. read_u64 bs (off + i * 8)) [0..<n] = (Ok (map (\<lambda>i. u64_at bs (off + i * 8)) [0..<n]) :: nat list ires)"
proof (rule mapM_o_map)
  fix i assume "i \<in> set [0..<n]"
  then have "i * 8 + 8 \<le> n * 8" by simp
  then show "read_u64 bs (off + i * 8) = (Ok (u64_at bs (off + i * 8)) :: nat ires)" using assms by simp
qed

lemma sparse_layout_Ok_iff:
  "sparse_layout um ngrams stride = Ok (n, len) \<longleftrightarrow>
     (stride \<noteq> 0 \<or> ngrams = 0) \<and> n = sparse_count ngrams stride \<and> len = n * 8 \<and> len < um"
  by (auto simp: sparse_layout_def Let_def bind_o_Ok_iff)

lemma header_cut:
  assumes "16 \<le> length bs"
  shows "cut (cut bs 0 16) 0 4 = cut bs 0 4" "u16_at (cut bs 0 16) 4 = u16_at bs 4" "u16_at (cut bs 0 16) 6 = u16_at bs 6"
    "u32_at (cut bs 0 16) 8 = u32_at bs 8" "u32_at (cut bs 0 16) 12 = u32_at bs 12"
  using assms cut_cut [of 4 16 0 bs 0] by (simp_all add: le_cut_simps)

lemma header_sizes: "header_v3 = 16" "header_v4 = 18" "version_v3 = 3" "version_v4 = 4"
  by (simp_all add: header_v3_def header_v4_def version_v3_def version_v4_def)

lemma from_boot_iff:
  assumes "length bs < um"
  shows "index_from_boot um bs = Ok ix \<longleftrightarrow> boots um bs ix"
proof (cases "16 \<le> length bs \<and> cut bs 0 4 = rrs_magic \<and> (u32_at bs 12 \<noteq> 0 \<or> u32_at bs 8 = 0) \<and> boot_sparse bs * 8 < um")
  case False
  have "index_from_boot um bs \<noteq> Ok ix"
  proof
    assume "index_from_boot um bs = Ok ix"
    then have "16 \<le> length bs" "cut bs 0 4 = rrs_magic" "(u32_at bs 12 \<noteq> 0 \<or> u32_at bs 8 = 0) \<and> boot_sparse bs * 8 < um"
      unfolding index_from_boot_def header_sizes boot_sparse_def
      by (auto simp add: bind_o_Ok_iff sparse_layout_Ok_iff case_prod_beta split: if_split_asm)
    then show False using False by simp
  qed
  then show ?thesis using False by (auto simp: boots_def header_sizes)
next
  case True
  then have layout: "sparse_layout um (u32_at bs 8) (u32_at bs 12) = Ok (boot_sparse bs, boot_sparse bs * 8)"
    by (simp add: sparse_layout_Ok_iff boot_sparse_def)
  consider (v3) "u16_at bs 4 = 3" | (v4) "u16_at bs 4 = 4" "18 \<le> length bs" | (bad) "u16_at bs 4 \<noteq> 3" "u16_at bs 4 = 4 \<Longrightarrow> length bs < 18"
    by linarith
  then show ?thesis
  proof cases
    case v3
    then show ?thesis
      using True layout assms read_table [of 16 "boot_sparse bs" bs]
      by (auto simp: index_from_boot_def boots_def boot_index_def boot_header_def header_sizes bind_o_Ok_iff)
  next
    case v4
    then show ?thesis
      using True layout assms read_table [of 18 "boot_sparse bs" bs]
      by (auto simp: index_from_boot_def boots_def boot_index_def boot_header_def header_sizes bind_o_Ok_iff)
  next
    case bad
    then show ?thesis using True
      by (auto simp: index_from_boot_def boots_def boot_header_def header_sizes bind_o_Ok_iff)
  qed
qed

lemma open_iff:
  assumes "length bs < um"
  shows "index_open um (mem_read um (mem_new bs)) = Ok ix \<longleftrightarrow> boots um bs ix"
proof (cases "16 \<le> length bs \<and> cut bs 0 4 = rrs_magic \<and> (u32_at bs 12 \<noteq> 0 \<or> u32_at bs 8 = 0) \<and> boot_sparse bs * 8 < um")
  case False
  have "index_open um (mem_read um (mem_new bs)) \<noteq> Ok ix"
  proof
    assume ok: "index_open um (mem_read um (mem_new bs)) = Ok ix"
    then have len: "16 \<le> length bs"
      unfolding index_open_def header_sizes by (simp add: bind_o_Ok_iff mem_read_iff [OF assms])
    have "cut bs 0 4 = rrs_magic" "(u32_at bs 12 \<noteq> 0 \<or> u32_at bs 8 = 0) \<and> boot_sparse bs * 8 < um"
      using ok unfolding index_open_def header_sizes boot_sparse_def
      by (auto simp add: bind_o_Ok_iff sparse_layout_Ok_iff mem_read_iff [OF assms] header_cut [OF len] case_prod_beta split: if_split_asm)
    then show False using False len by simp
  qed
  then show ?thesis using False by (auto simp: boots_def header_sizes)
next
  case True
  let ?f = "mem_read um (mem_new bs)" and ?h = "boot_header bs" and ?n = "boot_sparse bs"
  have h: "rd ?f 0 16 = Ok (cut bs 0 16)" "length (cut bs 0 16) = 16" using True assms by (simp_all add: mem_read_iff)
  have layout: "sparse_layout um (u32_at bs 8) (u32_at bs 12) = Ok (?n, ?n * 8)"
    using True by (simp add: sparse_layout_Ok_iff boot_sparse_def)
  have sparse: "bind_o (rd ?f off (?n * 8)) (\<lambda>sb. bind_o (mapM_o (\<lambda>i. read_u64 sb (i * 8)) [0..<?n]) g) = Ok y
      \<longleftrightarrow> off + ?n * 8 \<le> length bs \<and> g (map (\<lambda>i. u64_at bs (off + i * 8)) [0..<?n]) = Ok y" for off g and y :: "'y"
  proof (cases "off + ?n * 8 \<le> length bs")
    case le: True
    let ?sb = "cut bs off (off + ?n * 8)"
    have "mapM_o (\<lambda>i. read_u64 ?sb (i * 8)) [0..<?n] = (Ok (map (\<lambda>i. u64_at ?sb (i * 8)) [0..<?n]) :: nat list ires)"
      using read_table [of 0 ?n ?sb] le by simp
    moreover have "map (\<lambda>i. u64_at ?sb (i * 8)) [0..<?n] = map (\<lambda>i. u64_at bs (off + i * 8)) [0..<?n]"
      using le by (intro map_cong) (auto intro!: u64_at_cut)
    moreover have "rd ?f off (?n * 8) = Ok ?sb" using le assms by (simp add: mem_read_iff)
    ultimately show ?thesis using le by (simp del: rd_Ok_iff)
  next
    case no: False
    then show ?thesis using assms by (auto simp: bind_o_Ok_iff mem_read_iff)
  qed
  consider (v3) "u16_at bs 4 = 3" | (v4) "u16_at bs 4 = 4" "18 \<le> length bs" | (bad) "u16_at bs 4 \<noteq> 3" "u16_at bs 4 = 4 \<Longrightarrow> length bs < 18"
    by linarith
  then show ?thesis
  proof cases
    case v3
    then show ?thesis
      using True h layout header_cut [of bs]
      by (auto simp: sparse index_open_def boots_def boot_index_def boot_header_def header_sizes simp del: rd_Ok_iff)
  next
    case v4
    have fl: "rd ?f 16 2 = Ok (cut bs 16 18)" using v4(2) assms by (simp add: mem_read_iff)
    have "u16_at (cut bs 16 18) 0 = u16_at bs 16" using v4(2) u16_at_cut [of 0 18 16 bs] by simp
    then show ?thesis
      using True h layout header_cut [of bs] fl v4
      by (auto simp: sparse index_open_def boots_def boot_index_def boot_header_def header_sizes simp del: rd_Ok_iff)
  next
    case bad
    have "rd ?f 16 2 \<noteq> Ok x" if "u16_at bs 4 = 4" for x using bad(2) [OF that] assms by (simp add: mem_read_iff)
    then show ?thesis
      using True h header_cut [of bs] bad
      by (auto simp: index_open_def boots_def boot_header_def header_sizes bind_o_Ok_iff simp del: rd_Ok_iff)
  qed
qed

text \<open>A boot region cut from the front of the object boots the same index.\<close>

lemma take_fields:
  assumes "16 \<le> n" "n \<le> length bs"
  shows "cut (take n bs) 0 4 = cut bs 0 4" "u16_at (take n bs) 4 = u16_at bs 4" "u16_at (take n bs) 6 = u16_at bs 6"
    "u32_at (take n bs) 8 = u32_at bs 8" "u32_at (take n bs) 12 = u32_at bs 12"
    "k + 8 \<le> n \<Longrightarrow> u64_at (take n bs) k = u64_at bs k" "18 \<le> n \<Longrightarrow> u16_at (take n bs) 16 = u16_at bs 16"
proof -
  have t: "take n bs = cut bs 0 n" by (simp add: cut_def)
  show "cut (take n bs) 0 4 = cut bs 0 4" using assms by (simp add: cut_def)
  show "u16_at (take n bs) 4 = u16_at bs 4" "u16_at (take n bs) 6 = u16_at bs 6"
    "u32_at (take n bs) 8 = u32_at bs 8" "u32_at (take n bs) 12 = u32_at bs 12"
    "k + 8 \<le> n \<Longrightarrow> u64_at (take n bs) k = u64_at bs k" "18 \<le> n \<Longrightarrow> u16_at (take n bs) 16 = u16_at bs 16"
    unfolding t using assms by (simp_all add: le_cut_simps)
qed

lemma boots_prefix:
  assumes b: "boots um bs ix" and um: "length bs < um"
  shows "rrs_boot_len um bs = Ok (ix_dict_start ix)" "boots um (take (ix_dict_start ix) bs) ix"
    "rrs_boot_len um (take (ix_dict_start ix) bs) = Ok (ix_dict_start ix)"
proof -
  let ?ds = "ix_dict_start ix"
  have facts: "16 \<le> length bs" "cut bs 0 4 = rrs_magic" "u16_at bs 4 = 3 \<or> u16_at bs 4 = 4"
    "u32_at bs 12 \<noteq> 0 \<or> u32_at bs 8 = 0" "boot_sparse bs * 8 < um" "?ds \<le> length bs" "ix = boot_index bs"
    "?ds = boot_header bs + boot_sparse bs * 8"
    using b by (auto simp: boots_def header_sizes boot_index_def)
  have len: "rrs_boot_len um c = Ok (boot_header c + boot_sparse c * 8)" if "boots um c ix" "boot_header c + boot_sparse c * 8 < um" for c
    using that by (auto simp: boots_def header_sizes rrs_boot_len_def sparse_layout_Ok_iff bind_o_Ok_iff boot_sparse_def boot_header_def)
  have small: "?ds < um" using facts(6) um by simp
  then show "rrs_boot_len um bs = Ok ?ds" using len [OF b] facts(8) by simp
  have ds: "16 \<le> ?ds" "u16_at bs 4 = 4 \<Longrightarrow> 18 \<le> ?ds" using facts(8) by (auto simp: boot_header_def header_sizes)
  note t = take_fields [OF ds(1) facts(6)]
  have same: "boot_header (take ?ds bs) = boot_header bs" "boot_sparse (take ?ds bs) = boot_sparse bs"
    by (simp_all add: boot_header_def boot_sparse_def t)
  have "boot_index (take ?ds bs) = boot_index bs"
  proof -
    have "u64_at (take ?ds bs) (boot_header bs + i * 8) = u64_at bs (boot_header bs + i * 8)" if "i < boot_sparse bs" for i
    proof (rule t(6))
      have "(i + 1) * 8 \<le> boot_sparse bs * 8" using that by (intro mult_right_mono) simp_all
      then show "boot_header bs + i * 8 + 8 \<le> ?ds" using facts(8) by simp
    qed
    moreover have "u16_at bs 4 = 3 \<or> u16_at (take ?ds bs) 16 = u16_at bs 16" using facts(3) ds(2) t(7) by blast
    ultimately show ?thesis by (auto simp: boot_index_def same t header_sizes)
  qed
  then show "boots um (take ?ds bs) ix" using facts same t ds by (auto simp: boots_def header_sizes)
  then show "rrs_boot_len um (take ?ds bs) = Ok ?ds" using len facts(8) small same by simp
qed

section \<open>The written index boots\<close>

lemma header_fields:
  fixes rest :: bytes
  assumes "v < U16" "g < U16" "n < U32" "st < U32"
  defines "bs \<equiv> ascii ''RRSI'' @ to_le 2 v @ to_le 2 g @ to_le 4 n @ to_le 4 st @ rest"
  shows "cut bs 0 4 = rrs_magic" "u16_at bs 4 = v" "u16_at bs 6 = g" "u32_at bs 8 = n" "u32_at bs 12 = st"
  using assms cut_mid [of "[]" 0 "ascii ''RRSI''" 4 "to_le 2 v @ to_le 2 g @ to_le 4 n @ to_le 4 st @ rest"]
    u16_at_mid [of "ascii ''RRSI''" 4 v "to_le 2 g @ to_le 4 n @ to_le 4 st @ rest"]
    u16_at_mid [of "ascii ''RRSI'' @ to_le 2 v" 6 g "to_le 4 n @ to_le 4 st @ rest"]
    u32_at_mid [of "ascii ''RRSI'' @ to_le 2 v @ to_le 2 g" 8 n "to_le 4 st @ rest"]
    u32_at_mid [of "ascii ''RRSI'' @ to_le 2 v @ to_le 2 g @ to_le 4 n" 12 st rest]
  by (simp_all add: rrs_magic_def)

lemma u64_table:
  assumes "length pre = off" "\<forall>k \<in> set ks. k < U64" "i < length ks"
  shows "u64_at (pre @ concat (map (to_le 8) ks) @ post) (off + i * 8) = ks ! i"
proof -
  have "cut (pre @ concat (map (to_le 8) ks) @ post) (off + i * 8) (off + i * 8 + 8) = to_le 8 (ks ! i)"
    by (rule cut_row_mid [OF assms(1) _ assms(3)]) simp
  then show ?thesis using assms(2,3) by (simp add: u64_at_def from_le_to_le)
qed

lemma sparse_count_le: "sparse_count n stride \<le> n"
proof (cases "sparse_count n stride")
  case (Suc m)
  then have "m < sparse_count n stride" by simp
  then have "m * stride < n" "0 < stride" by (auto simp: sparse_count_iff)
  moreover from this have "m \<le> m * stride" by simp
  ultimately have "m < n" by linarith
  then show ?thesis using Suc by simp
qed simp

lemma fold_flag:
  "x = (if cn then version_v3 else version_v4) \<Longrightarrow> cn \<or> y = (1 :: nat) \<Longrightarrow> (x = version_v3 \<or> even y) = cn"
  by (auto simp: header_sizes)

lemma written:
  fixes cn :: bool and um :: nat
  assumes entries: "distinct (map fst entries0)" "\<forall>e \<in> set entries0. fst e < U64 \<and> length (snd e) < U32" "length entries0 < U32"
    and params: "gram < U16" "stride0 < U32"
    and space: "18 + length entries0 * 28 + length (concat (map snd entries0)) < U64"
  defines "es \<equiv> sort_key fst entries0"
  shows "\<exists>pre ix. length pre \<le> 18 + length entries0 * 28
     \<and> write_index_with gram stride0 entries0 cn = Ok (pre @ concat (map snd es))
     \<and> index_for (pre @ concat (map snd es)) (dict_rows (length pre) es) ix
     \<and> ix_gram ix = gram \<and> ix_fold ix = cn
     \<and> (length (pre @ concat (map snd es)) < um \<longrightarrow> boots um (pre @ concat (map snd es)) ix)"
proof -
  define stride where "stride = (if stride0 = 0 then default_stride else stride0)"
  define hs :: nat where "hs = (if cn then 16 else 18)"
  define n where "n = sparse_count (length es) stride"
  define ds where "ds = hs + n * 8"
  define dict where "dict = dict_rows (ds + length es * 20) es"
  define ix where "ix = \<lparr>ix_gram = gram, ix_ngrams = length es, ix_stride = stride, ix_dict_start = ds,
      ix_sparse = map (\<lambda>b. dr_key (dict ! (b * stride))) [0..<n], ix_fold = cn\<rparr>"
  have set_es: "set es = set entries0" "length es = length entries0" by (simp_all add: es_def)
  have rows: "\<forall>e \<in> set es. fst e < U64 \<and> length (snd e) < U32" using entries(2) set_es by simp
  have sorted: "sorted (map fst es)" by (simp add: es_def)
  have distinct: "distinct (map fst es)"
    using entries(1) unfolding es_def by (metis distinct_map distinct_sort set_sort)
  then have strict: "sorted_wrt (<) (map fst es)" using sorted by (simp add: strict_sorted_iff)
  have total: "length (concat (map snd es)) = length (concat (map snd entries0))"
  proof -
    have "mset (map (length \<circ> snd) es) = mset (map (length \<circ> snd) entries0)" by (simp add: es_def)
    then have "sum_list (map (length \<circ> snd) es) = sum_list (map (length \<circ> snd) entries0)" by (metis sum_mset_sum_list)
    then show ?thesis by (simp add: length_concat comp_def)
  qed
  have stride: "0 < stride" "stride < U32" using params(2) by (auto simp: stride_def default_stride_def)
  have n: "n \<le> length es" by (simp add: n_def sparse_count_le)
  have ngrams: "length es mod U32 = length es" using entries(3) set_es by simp
  have count_eq: "(if length es = 0 then 0 else (length es + stride - 1) div stride) = n"
    using stride by (simp add: n_def sparse_count_def)
  have off: "ds + length es * 20 + length (concat (map snd es)) < U64"
    using space n total set_es(2) by (simp add: ds_def hs_def)
  let ?fl = "if cn then [] else to_le 2 1" and ?ver = "if cn then version_v3 else version_v4"
  let ?ks = "map (\<lambda>i. fst (es ! (i * stride))) [0..<n]"
  let ?sp = "concat (map (to_le 8) ?ks)" and ?D = "concat (map encode_row dict)"
  let ?H = "ascii ''RRSI'' @ to_le 2 ?ver @ to_le 2 gram @ to_le 4 (length es) @ to_le 4 stride @ ?fl"
  let ?pre = "?H @ ?sp @ ?D" and ?P = "concat (map snd es)"
  let ?bs = "?pre @ ?P"
  have lens: "length ?H = hs" "length ?sp = n * 8" "length ?D = length es * 20"
    using concat_rows_length [of ?ks "to_le 8" 8] concat_rows_length [of dict encode_row 20]
    by (simp_all add: hs_def dict_def)
  have in_range: "i * stride < length es" if "i < n" for i using that by (simp add: n_def sparse_count_iff)
  have "write_sparse_index fst es n stride = Ok ?sp" using in_range by (intro sparse_eq) blast
  moreover have "write_dict (ds + length es * 20) es = Ok ?D"
    unfolding dict_def using rows off by (intro write_dict_eq) auto
  moreover have "\<not> list_ex (\<lambda>(a, b). fst a = fst b) (zip es (tl es))"
    using distinct_adjacent [OF sorted] distinct by simp
  ultimately have w: "write_index_with gram stride0 entries0 cn = Ok ?bs"
    unfolding write_index_with_def es_def [symmetric] stride_def [symmetric] Let_def ngrams count_eq
    by (cases cn) (simp_all add: ds_def hs_def header_sizes)
  have keys_nth: "dr_key (dict ! j) = fst (es ! j)" if "j < length es" for j
    using that by (metis dict_def keys_dict_rows length_dict_rows nth_map)
  then have sp: "map (\<lambda>b. dr_key (dict ! (b * stride))) [0..<n] = ?ks" using in_range by simp
  have cutD: "cut ?bs ds (ds + length es * 20) = ?D"
  proof -
    have "length (?H @ ?sp) = ds" by (simp only: length_append [of ?H ?sp] lens ds_def)
    then have "cut ((?H @ ?sp) @ ?D @ ?P) ds (ds + length es * 20) = ?D" using lens(3) by (rule cut_mid)
    then show ?thesis by simp
  qed
  have for_: "index_for ?bs dict ix"
    unfolding index_for_def
  proof (intro conjI)
    show "dict_ok dict"
      using strict dict_rows_ok [OF rows off] entries(3) set_es by (simp add: dict_ok_def dict_def)
    show "ix_dict_start ix + length dict * 20 \<le> length ?bs"
      using lens by (simp add: ix_def dict_def ds_def)
    show "cut ?bs (ix_dict_start ix) (ix_dict_start ix + length dict * 20) = ?D"
      using cutD by (simp add: ix_def dict_def)
  qed (use stride in \<open>simp_all add: ix_def dict_def n_def\<close>)
  have boots: "boots um ?bs ix" if small: "length ?bs < um"
  proof -
    have b: "?bs = ascii ''RRSI'' @ to_le 2 ?ver @ to_le 2 gram @ to_le 4 (length es) @ to_le 4 stride @ (?fl @ ?sp @ ?D @ ?P)"
      by simp
    have "length es < U32" using entries(3) set_es by simp
    note hf = header_fields [of ?ver gram "length es" stride "?fl @ ?sp @ ?D @ ?P", OF _ params(1) this stride(2)]
    have f: "cut ?bs 0 4 = rrs_magic" "u16_at ?bs 4 = ?ver" "u16_at ?bs 6 = gram" "u32_at ?bs 8 = length es" "u32_at ?bs 12 = stride"
      unfolding b by (intro hf; simp add: header_sizes)+
    have "boot_header ?bs = hs" unfolding boot_header_def f(2) by (simp add: hs_def header_sizes)
    moreover have "boot_sparse ?bs = n" unfolding boot_sparse_def f(4,5) by (simp add: n_def)
    ultimately have h: "boot_header ?bs = hs" "boot_sparse ?bs = n" by blast+
    have keys: "map (\<lambda>i. u64_at ?bs (hs + i * 8)) [0..<n] = ?ks"
    proof (rule map_cong [OF refl])
      fix i assume "i \<in> set [0..<n]"
      then have i: "i < length ?ks" by simp
      have "\<forall>k \<in> set ?ks. k < U64" using rows in_range by auto
      from u64_table [OF lens(1) this i, of "?D @ ?P"]
      show "u64_at ?bs (hs + i * 8) = fst (es ! (i * stride))" using i by simp
    qed
    have flag: "cn \<or> u16_at ?bs 16 = 1"
      using u16_at_mid [of "ascii ''RRSI'' @ to_le 2 ?ver @ to_le 2 gram @ to_le 4 (length es) @ to_le 4 stride" 16 1 "?sp @ ?D @ ?P"]
      by (cases cn) simp_all
    have fold: "(u16_at ?bs 4 = version_v3 \<or> even (u16_at ?bs header_v3)) = cn"
      unfolding header_sizes(1) by (rule fold_flag [OF f(2) flag])
    have "boot_index ?bs = ix"
      unfolding boot_index_def h keys f(3-5) fold ix_def ds_def sp by simp
    moreover have "hs + n * 8 \<le> length ?bs" using lens by simp
    moreover have "16 \<le> length ?bs" using lens by (simp add: hs_def)
    moreover have "n * 8 < um" using small lens by simp
    moreover have "?ver = version_v3 \<or> ?ver = version_v4" by simp
    ultimately show ?thesis
      using stride unfolding boots_def h f header_sizes(1) by blast
  qed
  have plen: "length ?pre = ds + length es * 20" by (simp only: length_append [of ?H] length_append [of ?sp] lens ds_def)
  then have "length ?pre \<le> 18 + length entries0 * 28" using n set_es(2) by (simp add: ds_def hs_def)
  moreover have "index_for ?bs (dict_rows (length ?pre) es) ix"     by (subst plen, subst dict_def [symmetric]) (rule for_)
  moreover have "ix_gram ix = gram" "ix_fold ix = cn" by (simp_all add: ix_def)
  ultimately show ?thesis using w boots by blast
qed

section \<open>Searching a written index\<close>

text \<open>
  A table of postings that fits the format: distinct 64-bit keys, 32-bit documents, posting
  bodies below 4 GiB, and a file that the target's \<open>usize\<close> can address.
\<close>

definition indexable :: "(nat set \<Rightarrow> bytes) \<Rightarrow> nat \<Rightarrow> nat \<Rightarrow> nat \<Rightarrow> (nat \<times> nat set) list \<Rightarrow> bool" where
  "indexable ser um gram stride postings \<longleftrightarrow>
     distinct (map fst postings)
     \<and> (\<forall>(k, s) \<in> set postings. k < U64 \<and> s \<subseteq> {..<U32} \<and> length (ser s) < U32)
     \<and> length postings < U32 \<and> gram < U16 \<and> stride < U32
     \<and> 18 + length postings * 28 + sum_list (map (\<lambda>p. length (ser (snd p))) postings) + span_gap < um
     \<and> um \<le> U64 \<and> 65536 + tail_key_batch < um"

definition posting_entries :: "(nat set \<Rightarrow> bytes) \<Rightarrow> (nat \<times> nat set) list \<Rightarrow> (nat \<times> bytes) list" where
  "posting_entries ser postings = map (\<lambda>(k, s). (k, serialize_posting ser s)) postings"

lemma written_serves:
  assumes ro: "roaring deser ser" and ok: "indexable ser um gram stride postings"
  obtains bytes ix dict sels where
    "write_index_with gram stride (posting_entries ser postings) cn = Ok bytes"
    "index_open um (mem_read um (mem_new bytes)) = Ok ix" "ix_gram ix = gram" "ix_fold ix = cn" "length bytes < um"
    "posting_store (mem_read um (mem_new bytes)) bytes um deser ser"
    "posting_store.serves bytes um um dict sels ix" "\<And>k. docs_of dict sels k = map_of postings k"
    "\<And>k s. map_of postings k = Some s \<Longrightarrow> length (assemble (the (posting_of dict sels k))) = length (ser s)"
proof -
  let ?E = "posting_entries ser postings"
  define ps where "ps = sort_key fst postings"
  have E: "map fst ?E = map fst postings" "length ?E = length postings"
    "length (concat (map snd ?E)) = sum_list (map (\<lambda>p. length (ser (snd p))) postings)"
    by (simp_all add: posting_entries_def serialize_posting_def case_prod_beta comp_def length_concat)
  have es: "sort_key fst ?E = map (\<lambda>p. (fst p, ser (snd p))) ps"
    unfolding ps_def posting_entries_def
    using map_sort_key [of "\<lambda>p. (fst p, ser (snd p))" fst postings]
    by (simp add: comp_def serialize_posting_def case_prod_unfold)
  have rows: "\<forall>p \<in> set ps. fst p < U64 \<and> snd p \<subseteq> {..<U32} \<and> length (ser (snd p)) < U32"
    using ok unfolding indexable_def ps_def by fastforce
  have "\<exists>sel. s \<subseteq> {..<U32} \<longrightarrow> well_formed sel \<and> docs sel = s \<and> ser s = assemble sel" for s
    using roaring.ser_assemble [OF ro, of s] by blast
  then obtain sel_of where sel_of: "s \<subseteq> {..<U32} \<Longrightarrow> well_formed (sel_of s) \<and> docs (sel_of s) = s \<and> ser s = assemble (sel_of s)" for s
    by metis
  define sels where "sels = map (\<lambda>p. sel_of (snd p)) ps"
  have map_of_ps: "map_of ps = map_of postings"
  proof -
    have "distinct (map fst ps)" using ok by (simp add: ps_def indexable_def distinct_map)
    then show ?thesis using ok by (subst map_of_inject_set) (auto simp: indexable_def ps_def)
  qed
  have a: "distinct (map fst ?E)" "\<forall>e \<in> set ?E. fst e < U64 \<and> length (snd e) < U32" "length ?E < U32" "gram < U16" "stride < U32"
    "18 + length ?E * 28 + length (concat (map snd ?E)) < U64"
    unfolding E using ok by (auto simp: indexable_def posting_entries_def serialize_posting_def)
  obtain pre ix where "length pre \<le> 18 + length ?E * 28"
    and w: "write_index_with gram stride ?E cn = Ok (pre @ concat (map snd (sort_key fst ?E)))"
    "index_for (pre @ concat (map snd (sort_key fst ?E))) (dict_rows (length pre) (sort_key fst ?E)) ix"
    "ix_gram ix = gram" "ix_fold ix = cn"
    "length (pre @ concat (map snd (sort_key fst ?E))) < um \<longrightarrow> boots um (pre @ concat (map snd (sort_key fst ?E))) ix"
    using written [OF a, of cn um] by (elim exE conjE)
  then have plen: "length pre \<le> 18 + length postings * 28" using E(2) by simp
  define dict where "dict = dict_rows (length pre) (sort_key fst ?E)"
  let ?bs = "pre @ concat (map snd (sort_key fst ?E))"
  have "length (concat (map snd (sort_key fst ?E))) = length (concat (map snd ?E))"
  proof -
    have "sum_mset (mset (map (length \<circ> snd) (sort_key fst ?E))) = sum_mset (mset (map (length \<circ> snd) ?E))" by simp
    then show ?thesis by (simp only: sum_mset_sum_list length_concat map_map)
  qed
  then have size: "length ?bs + span_gap < um" using ok plen E(3) by (simp add: indexable_def)
  have st: "posting_store (mem_read um (mem_new ?bs)) ?bs um deser ser"
    by (intro posting_store.intro memf.full_fetch_axioms ro)
  have addr: "addressable um um ?bs" using size ok by (simp add: addressable_def indexable_def)
  have keys: "map dr_key dict = map fst ps" using es by (simp add: dict_def comp_def)
  have "list_all2 (\<lambda>r sel. posting_store.holds ?bs um um sel (dr_off r) (dr_size r)) dict sels"
  proof -
    have "list_all2 (\<lambda>r e. dr_off r + dr_size r \<le> length ?bs \<and> cut ?bs (dr_off r) (dr_off r + dr_size r) = snd e)
        dict (map (\<lambda>p. (fst p, ser (snd p))) ps)"
      using rows_stored [of pre "sort_key fst ?E"] es by (simp add: dict_def)
    then have "list_all2 (\<lambda>r p. p \<in> set ps \<and> dr_off r + dr_size r \<le> length ?bs \<and> cut ?bs (dr_off r) (dr_off r + dr_size r) = ser (snd p)) dict ps"
      by (auto simp: list_all2_conv_all_nth)
    then show ?thesis
      unfolding sels_def list_all2_map2
      by (rule list_all2_mono) (use sel_of rows addr in \<open>auto simp: posting_store.holds_def [OF st] stored_def\<close>)
  qed
  then have sv: "posting_store.serves ?bs um um dict sels ix"
    using w(2) addr by (simp add: posting_store.serves_def [OF st] dict_def)
  have "index_open um (mem_read um (mem_new ?bs)) = Ok ix"
    using w(5) size by (subst open_iff) simp_all
  have post: "posting_of dict sels = (\<lambda>k. map_option sel_of (map_of postings k))"
  proof -
    have "map_of (map (\<lambda>x. (fst x, sel_of (snd x))) ps) = map_option sel_of \<circ> map_of ps"
      using map_of_map [of sel_of ps] by (simp add: case_prod_unfold)
    then show ?thesis
      unfolding posting_of_def keys sels_def map_of_ps [symmetric] by (simp add: zip_map_same comp_def)
  qed
  have in_ps: "s \<subseteq> {..<U32}" if "map_of postings k = Some s" for k s
    using ok map_of_SomeD [OF that] by (auto simp: indexable_def)
  show thesis
  proof (rule that [OF w(1) \<open>index_open um _ = Ok ix\<close> w(3,4) _ st sv])
    show "docs_of dict sels k = map_of postings k" for k
      using in_ps [of k] sel_of unfolding post by (cases "map_of postings k") auto
    show "length (assemble (the (posting_of dict sels k))) = length (ser s)" if "map_of postings k = Some s" for k s
      using in_ps [OF that] sel_of that unfolding post by simp
  qed (use size in simp)
qed

section \<open>Properties\<close>

text \<open>
  C8: Searching a written index is exact: for every table of postings, the writer produces a file
  that boots, and over it a search for any list of keys returns the documents that all their
  postings hold, in ascending order, cut to the limit, whichever of the three read waves answers.
\<close>

theorem written_search_exact:
  assumes "roaring deser ser" "indexable ser um gram stride postings"
  shows "\<exists>bytes ix. write_index_with gram stride (posting_entries ser postings) cn = Ok bytes
     \<and> index_open um (mem_read um (mem_new bytes)) = Ok ix \<and> ix_gram ix = gram \<and> ix_fold ix = cn
     \<and> (\<forall>keys limit. index_search um deser (mem_read um (mem_new bytes)) ix keys limit
          = Ok (take limit (sorted_list_of_set (matches (map_of postings) keys))))"
proof -
  obtain bytes ix dict sels where w: "write_index_with gram stride (posting_entries ser postings) cn = Ok bytes"
    "index_open um (mem_read um (mem_new bytes)) = Ok ix" "ix_gram ix = gram" "ix_fold ix = cn"
    "posting_store (mem_read um (mem_new bytes)) bytes um deser ser" "posting_store.serves bytes um um dict sels ix"
    "\<And>k. docs_of dict sels k = map_of postings k"
    using written_serves [OF assms] by metis
  have "65536 + tail_key_batch < um" using assms(2) by (simp add: indexable_def)
  note search = posting_store.search_eq [OF w(5,6) this, unfolded w(7)]
  show ?thesis using w(1-4) search by blast
qed

definition demo_postings :: "(nat \<times> nat set) list" where
  "demo_postings = [(9, {70000}), (5, {1, 70000})]"

lemma demo_encoded_lengths: "length (format_encode {70000}) = 18" "length (format_encode {1, 70000}) = 28"
  by (simp_all add: format_encode_def length_assemble data_start_def encode_piece_def encode_body_def Let_def)

lemma demo_indexable: "indexable format_encode U32 3 0 demo_postings"
  by (auto simp: indexable_def demo_postings_def demo_encoded_lengths demo_encoded_lengths [unfolded One_nat_def] span_gap_def tail_key_batch_def)

lemma written_search_exact_witness:
  "\<exists>bytes ix. write_index_with 3 0 (posting_entries format_encode demo_postings) True = Ok bytes
     \<and> index_open U32 (mem_read U32 (mem_new bytes)) = Ok ix
     \<and> index_search U32 format_decode (mem_read U32 (mem_new bytes)) ix [5, 9] 10 = Ok [70000]"
proof -
  have "matches (map_of demo_postings) [5, 9] = {70000}" by (auto simp: matches_def demo_postings_def)
  then have "take 10 (sorted_list_of_set (matches (map_of demo_postings) [5, 9])) = [70000]" by simp
  then show ?thesis
    using written_search_exact [OF format.roaring_axioms demo_indexable, of True] by metis
qed

text \<open>
  The dictionary calls agree with the postings that were written: a single posting and its
  cardinality are those of the table, the price of a query is the sum of the serialised sizes
  (zero when a key is absent), the count estimate bounds the number of matches and is exact when
  it says so, and the candidates of the k rarest keys contain every match.
\<close>

lemma written_queries_exact:
  assumes "roaring deser ser" "indexable ser um gram stride postings" "length keys \<le> U32" "keys \<noteq> []" "0 < k"
  shows "\<exists>bytes ix n exact candidates.
     write_index_with gram stride (posting_entries ser postings) cn = Ok bytes
     \<and> index_open um (mem_read um (mem_new bytes)) = Ok ix
     \<and> index_posting um deser (mem_read um (mem_new bytes)) ix key = Ok (map_of postings key)
     \<and> term_count um deser (mem_read um (mem_new bytes)) ix key = Ok (map_option card (map_of postings key))
     \<and> query_cost um (mem_read um (mem_new bytes)) ix keys
         = Ok (if \<forall>k \<in> set keys. map_of postings k \<noteq> None
               then sum_list (map (\<lambda>k. length (ser (the (map_of postings k)))) keys) else 0)
     \<and> count_estimate um deser (mem_read um (mem_new bytes)) ix keys = Ok (n, exact)
     \<and> card (matches (map_of postings) keys) \<le> n
     \<and> (exact \<longrightarrow> n = card (matches (map_of postings) keys))
     \<and> search_candidates um deser (mem_read um (mem_new bytes)) ix keys k = Ok candidates
     \<and> matches (map_of postings) keys \<subseteq> set candidates
     \<and> (length keys \<le> k \<longrightarrow> candidates = sorted_list_of_set (matches (map_of postings) keys))"
proof -
  obtain bytes ix dict sels where w: "write_index_with gram stride (posting_entries ser postings) cn = Ok bytes"
    "index_open um (mem_read um (mem_new bytes)) = Ok ix" "posting_store (mem_read um (mem_new bytes)) bytes um deser ser"
    "posting_store.serves bytes um um dict sels ix" "\<And>k. docs_of dict sels k = map_of postings k"
    "\<And>k s. map_of postings k = Some s \<Longrightarrow> length (assemble (the (posting_of dict sels k))) = length (ser s)"
    using written_serves [OF assms(1,2), of cn] by metis
  let ?f = "mem_read um (mem_new bytes)" and ?M = "matches (map_of postings)"
  have present: "all_present dict sels keys \<longleftrightarrow> (\<forall>k \<in> set keys. map_of postings k \<noteq> None)"
    using w(5) by (auto simp: all_present_def simp flip: w(5))
  have cost: "query_cost um ?f ix keys = Ok (if \<forall>k \<in> set keys. map_of postings k \<noteq> None
               then sum_list (map (\<lambda>k. length (ser (the (map_of postings k)))) keys) else 0)"
  proof (cases "all_present dict sels keys")
    case True
    then have eq: "map (\<lambda>k. length (assemble (the (posting_of dict sels k)))) keys = map (\<lambda>k. length (ser (the (map_of postings k)))) keys"
      using w(6) present by (intro map_cong) auto
    show ?thesis
      unfolding posting_store.query_cost_eq [OF w(3,4) assms(3)] present [symmetric] if_P [OF True] eq ..
  next
    case False
    then have no: "\<not> (\<forall>k \<in> set keys. map_of postings k \<noteq> None)" using present by simp
    show ?thesis using posting_store.query_cost_eq [OF w(3,4) assms(3)] False unfolding if_not_P [OF no] by simp
  qed
  obtain n exact where count: "count_estimate um deser ?f ix keys = Ok (n, exact)"
    "card (?M keys) \<le> n" "exact \<longrightarrow> n = card (?M keys)"
    using posting_store.count_estimate_bound [OF w(3,4), of keys, unfolded w(5)] by blast
  obtain chosen where chosen: "search_candidates um deser ?f ix keys k
      = Ok (if all_present dict sels keys then sorted_list_of_set (?M chosen) else [])"
    "chosen \<noteq> []" "set chosen \<subseteq> set keys" "length keys \<le> k \<longrightarrow> set chosen = set keys"
    using posting_store.candidates_eq [OF w(3,4) assms(4,5), unfolded w(5)] by blast
  have super: "?M keys \<subseteq> ?M chosen" using chosen(2,3) assms(4) unfolding matches_def by blast
  have same: "?M chosen = ?M keys" if "length keys \<le> k"
    using chosen(2,4) assms(4) that by (auto simp: matches_iff)
  have fin: "finite (?M c)" for c using posting_store.matches_finite [OF w(3), of dict sels c, unfolded w(5)] .
  have absent: "?M keys = {}" if "\<not> all_present dict sels keys"
    using posting_store.matches_absent [OF w(3) that] unfolding w(5) .
  have post: "index_posting um deser ?f ix key = Ok (map_of postings key)"
    "term_count um deser ?f ix key = Ok (map_option card (map_of postings key))"
    using posting_store.index_posting_eq [OF w(3,4), of key] by (simp_all add: option.map_comp [symmetric] w(5))
  define cands where "cands = (if all_present dict sels keys then sorted_list_of_set (?M chosen) else [])"
  have cands: "search_candidates um deser ?f ix keys k = Ok cands" by (simp only: chosen(1) cands_def)
  have "?M keys \<subseteq> set cands" "length keys \<le> k \<longrightarrow> cands = sorted_list_of_set (?M keys)"
    using super same fin absent by (auto simp: cands_def)
  then show ?thesis
    by (intro exI [of _ bytes] exI [of _ ix] exI [of _ n] exI [of _ exact] exI [of _ cands] conjI w(1,2) cost count cands post)
qed

lemma written_queries_exact_witness:
  "\<exists>bytes ix n exact candidates.
     write_index_with 3 0 (posting_entries format_encode demo_postings) False = Ok bytes
     \<and> index_open U32 (mem_read U32 (mem_new bytes)) = Ok ix
     \<and> index_posting U32 format_decode (mem_read U32 (mem_new bytes)) ix 5 = Ok (Some {1, 70000})
     \<and> term_count U32 format_decode (mem_read U32 (mem_new bytes)) ix 5 = Ok (Some 2)
     \<and> query_cost U32 (mem_read U32 (mem_new bytes)) ix [5, 9] = Ok 46
     \<and> count_estimate U32 format_decode (mem_read U32 (mem_new bytes)) ix [5, 9] = Ok (n, exact) \<and> 1 \<le> n
     \<and> search_candidates U32 format_decode (mem_read U32 (mem_new bytes)) ix [5, 9] 1 = Ok candidates
     \<and> 70000 \<in> set candidates"
proof -
  have m: "matches (map_of demo_postings) [5, 9] = {70000}" by (auto simp: matches_def demo_postings_def)
  have p: "map_of demo_postings 5 = Some {1, 70000}" "map_of demo_postings 9 = Some {70000}"
    by (simp_all add: demo_postings_def)
  have "length [5, 9 :: nat] \<le> U32" "[5, 9 :: nat] \<noteq> []" "0 < (1 :: nat)" by simp_all
  from written_queries_exact [OF format.roaring_axioms demo_indexable this, of False 5]
  show ?thesis by (elim exE) (simp only: m p demo_encoded_lengths, intro exI, auto simp: p demo_encoded_lengths demo_encoded_lengths [unfolded One_nat_def])
qed

text \<open>
  C9: The resident boot is the fetched boot: an index opens from an object exactly when it boots
  from the object's bytes, to the same index; \<open>rrs_boot_len\<close> is the length of the boot region,
  and that region alone boots the same index.
\<close>

theorem open_equals_from_boot:
  assumes "length bs < um"
  shows "(index_open um (mem_read um (mem_new bs)) = Ok ix \<longleftrightarrow> index_from_boot um bs = Ok ix)
    \<and> (index_from_boot um bs = Ok ix \<longrightarrow>
         rrs_boot_len um bs = Ok (ix_dict_start ix)
         \<and> rrs_boot_len um (take (ix_dict_start ix) bs) = Ok (ix_dict_start ix)
         \<and> index_from_boot um (take (ix_dict_start ix) bs) = Ok ix)"
proof -
  have "length (take (ix_dict_start ix) bs) < um" using assms by simp
  then show ?thesis
    using open_iff [OF assms] from_boot_iff [OF assms] boots_prefix [OF _ assms] from_boot_iff by blast
qed

definition demo_boot :: bytes where
  "demo_boot = ascii ''RRSI'' @ to_le 2 3 @ to_le 2 3 @ to_le 4 0 @ to_le 4 512"

lemma open_equals_from_boot_witness:
  "index_open U32 (mem_read U32 (mem_new demo_boot)) = index_from_boot U32 demo_boot
   \<and> (\<exists>ix. index_from_boot U32 demo_boot = Ok ix \<and> rrs_boot_len U32 demo_boot = Ok 16)"
proof -
  have "boots U32 demo_boot (boot_index demo_boot) \<and> ix_dict_start (boot_index demo_boot) = 16"
    using header_fields [of 3 3 0 512 "[]"]
    by (simp add: boots_def boot_index_def boot_header_def boot_sparse_def sparse_count_def header_sizes demo_boot_def)
  then have b: "boots U32 demo_boot (boot_index demo_boot)" "ix_dict_start (boot_index demo_boot) = 16" by blast+
  have "length demo_boot < U32" by (simp add: demo_boot_def)
  then have "index_from_boot U32 demo_boot = Ok (boot_index demo_boot)" using b(1) from_boot_iff by blast
  then show ?thesis
    using open_equals_from_boot [of demo_boot U32 "boot_index demo_boot"] b(2) by (simp add: demo_boot_def)
qed

end
