(* ===== verification/RR_Index_Safe.thy ===== *)
theory RR_Index_Safe imports RR_Build begin

text \<open>
  The text index over arbitrary bytes (\<open>rust/src/index.rs\<close>). \<open>index_wf\<close> is the invariant
  that both boots establish: the sparse index has exactly the entries the header promises. On a
  64-bit target it makes every operation end in an answer or an error, whatever the dictionary
  and the postings say. On wasm32 (\<open>um = 2 ^ 32\<close>) the length of a dictionary block,
  \<open>entries * 20\<close>, can overflow \<open>usize\<close>: \<open>sparse_layout\<close> checks the sparse length, but
  nothing bounds the stride.
\<close>

section \<open>The boot invariant\<close>

definition index_wf :: "index \<Rightarrow> bool" where
  "index_wf ix \<longleftrightarrow> ix_gram ix < U16 \<and> ix_ngrams ix < U32 \<and> ix_stride ix < U32
     \<and> (ix_ngrams ix \<noteq> 0 \<longrightarrow> ix_stride ix \<noteq> 0)
     \<and> length (ix_sparse ix) = sparse_count (ix_ngrams ix) (ix_stride ix)
     \<and> ix_dict_start ix \<le> 18 + length (ix_sparse ix) * 8
     \<and> (\<forall>k \<in> set (ix_sparse ix). k < U64)"

lemma mapM_o_u64:
  assumes "mapM_o (\<lambda>i. read_u64 bs (g i)) xs = (Ok ys :: nat list ires)"
  shows "length ys = length xs \<and> (\<forall>k \<in> set ys. k < 18446744073709551616)"
proof -
  have "list_all2 (\<lambda>i y. y = u64_at bs (g i) \<and> g i + 8 \<le> length bs) xs ys"
    using assms(1) by (simp add: mapM_o_Ok_iff)
  then show ?thesis by (auto simp: list_all2_conv_all_nth in_set_conv_nth)
qed

lemma from_boot_wf: "index_from_boot um bs = Ok ix \<Longrightarrow> index_wf ix"
  by (auto simp: index_from_boot_def index_wf_def header_sizes bind_o_Ok_iff sparse_layout_Ok_iff
      dest!: mapM_o_u64 split: if_split_asm)

lemma open_wf: "index_open um f = Ok ix \<Longrightarrow> index_wf ix"
  by (auto simp: index_open_def index_wf_def header_sizes bind_o_Ok_iff sparse_layout_Ok_iff
      dest!: mapM_o_u64 split: if_split_asm)

lemma sparse_layout_no_panic [simp]: "sparse_layout um n s \<noteq> Panic"
  by (simp add: sparse_layout_def Let_def bind_o_Panic_iff)

lemma from_boot_no_panic: "index_from_boot um bs \<noteq> Panic"
proof -
  have "mapM_o (\<lambda>i. read_u64 bs (h + i * 8)) [0..<n] \<noteq> (Panic :: nat list ires)" if "\<not> length bs < h + n * 8" for h n
    using read_table [of h n bs] that by simp
  then show ?thesis
    by (auto simp: index_from_boot_def header_sizes bind_o_Panic_iff sparse_layout_Ok_iff)
qed

lemma boot_len_no_panic: "rrs_boot_len um bs \<noteq> Panic"
  by (auto simp: rrs_boot_len_def header_sizes bind_o_Panic_iff)

lemma sparse_le: "sparse_count n s \<le> n"
  by (rule sparse_count_le)

lemma block_at_safe:
  assumes wf: "index_wf ix" and b: "b < sparse_count (ix_ngrams ix) (ix_stride ix)"
  shows "block_at ix b = Ok (Some (blk ix b))"
proof -
  have in_range: "b * ix_stride ix < ix_ngrams ix" using b by (simp add: sparse_count_iff)
  have "length (ix_sparse ix) < U32" using wf sparse_le [of "ix_ngrams ix" "ix_stride ix"] by (simp add: index_wf_def)
  then show ?thesis
    using wf in_range by (simp add: block_at_def blk_def dict_entry_def index_wf_def)
qed

lemma block_for_safe:
  assumes wf: "index_wf ix"
  obtains num where "\<And>k. dict_block_for ix k = Ok (map_option (blk ix) (num k))"
    "\<And>k b. num k = Some b \<Longrightarrow> b < sparse_count (ix_ngrams ix) (ix_stride ix)"
proof -
  have "\<exists>nb. dict_block_for ix k = Ok (map_option (blk ix) nb) \<and> (\<forall>b. nb = Some b \<longrightarrow> b < length (ix_sparse ix))" for k
  proof (cases "ix_ngrams ix = 0")
    case True
    then show ?thesis by (intro exI [of _ None]) (simp add: dict_block_for_def)
  next
    case n: False
    have at: "block_at ix b = Ok (Some (blk ix b))" if "b < length (ix_sparse ix)" for b
      using block_at_safe [OF wf] that wf by (simp add: index_wf_def)
    have bound: "i \<le> length xs" if "bsearch xs (k :: nat) = Inr i" for xs i
    proof -
      have "bsearch_from key xs k lo hi = Inr i \<Longrightarrow> lo \<le> hi \<Longrightarrow> i \<le> hi" for key :: "nat \<Rightarrow> nat" and lo hi
      proof (induction key xs k lo hi rule: bsearch_from.induct)
        case (1 key xs k lo hi)
        show ?case
          using "1.prems" "1.IH"(1) [OF _ refl refl] "1.IH"(2) [OF _ refl refl]
          by (subst (asm) (1) bsearch_from.simps) (fastforce simp: Let_def split: if_splits)
      qed
      then show ?thesis using that by (auto simp: bsearch_by_def)
    qed
    show ?thesis
    proof (cases "bsearch (ix_sparse ix) k")
      case (Inl i)
      then have "i < length (ix_sparse ix)" using bsearch_by_Inl [OF Inl] by simp
      then show ?thesis using Inl n at by (intro exI [of _ "Some i"]) (simp add: dict_block_for_def)
    next
      case (Inr i)
      show ?thesis
      proof (cases i)
        case 0
        then show ?thesis using Inr n by (intro exI [of _ None]) (simp add: dict_block_for_def)
      next
        case (Suc b)
        then have "b < length (ix_sparse ix)" using bound [OF Inr] by simp
        then show ?thesis using Inr n at Suc by (intro exI [of _ "Some b"]) (simp add: dict_block_for_def)
      qed
    qed
  qed
  moreover have "length (ix_sparse ix) = sparse_count (ix_ngrams ix) (ix_stride ix)" using wf by (simp add: index_wf_def)
  ultimately show thesis using that by metis
qed

lemma parse_block_from_no_panic:
  assumes "hi * 20 \<le> length block" "hi * 20 \<le> um"
  shows "parse_block_from um block key lo hi \<noteq> Panic"
  using assms
proof (induction "hi - lo" arbitrary: lo hi rule: less_induct)
  case less
  let ?mid = "lo + (hi - lo) div 2"
  show ?case
  proof (cases "lo < hi")
    case False
    then show ?thesis by (simp add: parse_block_from.simps [of _ _ _ lo])
  next
    case True
    then have mid: "?mid < hi" "lo \<le> ?mid" by auto
    then have m: "?mid * 20 + 20 \<le> hi * 20" by simp
    have below: "hi - (?mid + 1) < hi - lo" "?mid - lo < hi - lo" "?mid * 20 \<le> length block" "?mid * 20 \<le> um"
      using mid m less.prems by linarith+
    have "?mid * dict_entry < um" "?mid * dict_entry + 20 \<le> length block"
      using m less.prems by (simp_all add: dict_entry_def)
    then show ?thesis
      using True less.hyps [OF below(1) less.prems] less.hyps [OF below(2-4)]
      by (simp add: parse_block_from.simps [of _ _ _ lo hi] Let_def)
  qed
qed

lemma parse_block_from_fields:
  assumes "parse_block_from um block key lo hi = Ok (Some r)"
  shows "dr_off r < U64 \<and> dr_size r < U32"
  using assms
proof (induction um block key lo hi rule: parse_block_from.induct)
  case (1 um block key lo hi)
  have lt: "lo < hi" using "1.prems" by (simp add: parse_block_from.simps [of _ _ _ lo] split: if_splits)
  let ?mid = "lo + (hi - lo) div 2"
  obtain base mk where b: "mul_p um ?mid dict_entry = (Ok base :: nat ires)" "read_u64 block base = (Ok mk :: nat ires)"
    and rest: "(if mk < key then parse_block_from um block key (?mid + 1) hi
        else if key < mk then parse_block_from um block key lo ?mid
        else bind_o (read_u64 block (base + 8)) (\<lambda>off. bind_o (read_u32 block (base + 16)) (\<lambda>sz.
             Ok (Some \<lparr>dr_key = key, dr_off = off, dr_size = sz\<rparr>)))) = Ok (Some r)"
    using "1.prems" lt by (auto simp: parse_block_from.simps [of _ _ _ lo hi] Let_def bind_o_Ok_iff simp del: mul_p_Ok_iff read_u64_Ok_iff)
  show ?case
  proof (cases "mk = key")
    case True
    then show ?thesis using rest by (auto simp: bind_o_Ok_iff)
  next
    case False
    then show ?thesis using rest "1.IH"(1) [OF lt refl b] "1.IH"(2) [OF lt refl b] by (auto split: if_splits)
  qed
qed

section \<open>Dictionary reads\<close>

definition rec_fits :: "dict_rec \<Rightarrow> bool" where
  "rec_fits r \<longleftrightarrow> dr_off r < U64 \<and> dr_size r < U32"

context bounded_fetch
begin

lemma open_no_panic: "index_open um fetch \<noteq> Panic"
proof -
  have h: "length b = n" if "fetch off n = Ok b" for off n b using fetch_length [OF that] .
  have t: "mapM_o (\<lambda>i. read_u64 sb (i * 8)) [0..<n] \<noteq> (Panic :: nat list ires)" if "length sb = n * 8" for sb n
    using read_table [of 0 n sb] that by simp
  have sparse: "fetch off (sparse_count (u32_at b 8) (u32_at b 12) * 8) \<noteq> Panic" for off b
  proof (rule fetch_bounded)
    have "sparse_count (u32_at b 8) (u32_at b 12) * 8 \<le> U32 * 8"
      using sparse_count_le [of "u32_at b 8" "u32_at b 12"] u32_at_less [of b 8] by (intro mult_right_mono) linarith+
    then show "sparse_count (u32_at b 8) (u32_at b 12) * 8 < 2 ^ 40" by (rule le_less_trans) simp
  qed
  have short: "fetch off n \<noteq> Panic" if "n < 64" for off n using that by (intro fetch_bounded) simp
  show ?thesis
    using short sparse t
    by (auto simp: index_open_def header_sizes bind_o_Panic_iff sparse_layout_Ok_iff split: if_splits dest!: h)
qed

lemma read_block_safe:
  assumes "db_entries d < U32"
  shows "read_block U64 fetch d \<noteq> Panic" "read_block U64 fetch d = Ok b \<Longrightarrow> length b = db_entries d * 20"
  using assms fetch_bounded [of "db_entries d * 20"] fetch_length [of "db_off d"]
  by (auto simp: read_block_def dict_entry_def bind_o_Panic_iff bind_o_Ok_iff)

lemma blk_entries: "index_wf ix \<Longrightarrow> db_entries (blk ix b) < U32"
  by (auto simp: blk_def index_wf_def)

lemma parse_safe:
  assumes "n < U32" "length b = n * 20"
  shows "parse_block U64 b n key \<noteq> Panic" "parse_block U64 b n key = Ok (Some r) \<Longrightarrow> rec_fits r"
  using assms parse_block_from_no_panic [of n b U64 key 0] parse_block_from_fields [of U64 b key 0 n r]
  by (auto simp: parse_block_def rec_fits_def)

lemma lookup_safe:
  assumes wf: "index_wf ix"
  shows "index_lookup U64 fetch ix key \<noteq> Panic" "index_lookup U64 fetch ix key = Ok (Some r) \<Longrightarrow> rec_fits r"
proof -
  obtain num where num: "\<And>k. dict_block_for ix k = Ok (map_option (blk ix) (num k))"
    using block_for_safe [OF wf] by metis
  note e = blk_entries [OF wf]
  show "index_lookup U64 fetch ix key \<noteq> Panic"
    using read_block_safe [OF e] parse_safe(1) [OF e]
    by (auto simp: index_lookup_def num bind_o_Panic_iff split: option.splits)
  show "rec_fits r" if ok: "index_lookup U64 fetch ix key = Ok (Some r)"
  proof -
    obtain b bytes where "num key = Some b" "read_block U64 fetch (blk ix b) = Ok bytes"
      "parse_block U64 bytes (db_entries (blk ix b)) key = Ok (Some r)"
      using ok by (auto simp: index_lookup_def num bind_o_Ok_iff split: option.splits)
    then show ?thesis using parse_safe(2) [OF e read_block_safe(2) [OF e]] by blast
  qed
qed

text \<open>A deduplicated batch of blocks of one index.\<close>

lemma read_blocks_safe:
  assumes wf: "index_wf ix" and bs: "\<forall>b \<in> set bs. b < sparse_count (ix_ngrams ix) (ix_stride ix)"
  shows "read_dict_blocks U64 fetch (map (blk ix) bs) \<noteq> Panic"
    and "read_dict_blocks U64 fetch (map (blk ix) bs) = Ok (datas, which) \<Longrightarrow> j < length bs \<Longrightarrow>
      parse_shared U64 datas which j (blk ix (bs ! j)) k \<noteq> Panic
      \<and> (\<forall>r. parse_shared U64 datas which j (blk ix (bs ! j)) k = Ok (Some r) \<longrightarrow> rec_fits r)"
proof -
  note e = blk_entries [OF wf]
  have "wave (read_block U64 fetch) (map (blk ix) us) \<noteq> Panic" for us
    using read_block_safe(1) [OF e] by (intro wave_not_Panic) auto
  note w = this
  obtain us which' where d: "foldl dedupe_step ([], []) (map (blk ix) bs) = (map (blk ix) us, which')"
    "length which' = length bs" "\<forall>j < length bs. which' ! j < length us \<and> us ! (which' ! j) = bs ! j"
  proof (cases "bs = []")
    case True
    then show thesis using that [of "[]" "[]"] by simp
  next
    case False
    then have "0 < ix_stride ix" using bs by (metis last_in_set sparse_count_iff)
    then show thesis using dedupe [of ix bs] that by blast
  qed
  show "read_dict_blocks U64 fetch (map (blk ix) bs) \<noteq> Panic"
    using w [of us] d(1) by (simp add: read_dict_blocks_def bind_o_Panic_iff)
  assume r: "read_dict_blocks U64 fetch (map (blk ix) bs) = Ok (datas, which)" and j: "j < length bs"
  then have wv: "wave (read_block U64 fetch) (map (blk ix) us) = Ok datas" "which = which'"
    using d(1) by (auto simp: read_dict_blocks_def bind_o_Ok_iff)
  let ?w = "which' ! j"
  have i: "?w < length us" "us ! ?w = bs ! j" using d(3) j by blast+
  have "read_block U64 fetch (blk ix (bs ! j)) = Ok (datas ! ?w)"
    using wave_Ok_nth [OF wv(1), of ?w] i by simp
  then have len: "length (datas ! ?w) = db_entries (blk ix (bs ! j)) * 20" by (rule read_block_safe(2) [OF e])
  have "parse_shared U64 datas which j (blk ix (bs ! j)) k = parse_block U64 (datas ! ?w) (db_entries (blk ix (bs ! j))) k"
    using wave_Ok_length [OF wv(1)] i j d(2) by (simp add: parse_shared_def wv(2))
  then show "parse_shared U64 datas which j (blk ix (bs ! j)) k \<noteq> Panic
      \<and> (\<forall>r. parse_shared U64 datas which j (blk ix (bs ! j)) k = Ok (Some r) \<longrightarrow> rec_fits r)"
    using parse_safe [OF e len] by simp
qed

lemma parse_all_safe:
  assumes "\<And>x. x \<in> set xs \<Longrightarrow> parse_shared um datas which (fst x) (fst (snd x)) (snd (snd x)) \<noteq> Panic
      \<and> (\<forall>r. parse_shared um datas which (fst x) (fst (snd x)) (snd (snd x)) = Ok (Some r) \<longrightarrow> rec_fits r)"
  shows "parse_all um datas which xs \<noteq> Panic \<and> (\<forall>recs. parse_all um datas which xs = Ok (Some recs) \<longrightarrow> (\<forall>r \<in> set recs. rec_fits r))"
  using assms
proof (induction xs)
  case Nil
  then show ?case by simp
next
  case (Cons x xs)
  obtain i b k where x: "x = (i, b, k)" by (metis prod_cases3)
  have h: "parse_shared um datas which i b k \<noteq> Panic" "\<forall>r. parse_shared um datas which i b k = Ok (Some r) \<longrightarrow> rec_fits r"
    using Cons.prems [of x] x by simp_all
  have t: "parse_all um datas which xs \<noteq> Panic \<and> (\<forall>recs. parse_all um datas which xs = Ok (Some recs) \<longrightarrow> (\<forall>r \<in> set recs. rec_fits r))"
  proof (rule Cons.IH)
    fix y assume "y \<in> set xs"
    then have "y \<in> set (x # xs)" by simp
    then show "parse_shared um datas which (fst y) (fst (snd y)) (snd (snd y)) \<noteq> Panic
      \<and> (\<forall>r. parse_shared um datas which (fst y) (fst (snd y)) (snd (snd y)) = Ok (Some r) \<longrightarrow> rec_fits r)"
      by (rule Cons.prems)
  qed
  then show ?case using x h by (auto simp: bind_o_Panic_iff bind_o_Ok_iff map_ok_Ok_iff split: option.splits)
qed

lemma resolve_safe:
  assumes wf: "index_wf ix"
  shows "resolve_all U64 fetch ix keys \<noteq> Panic"
    and "resolve_all U64 fetch ix keys = Ok (Some recs) \<Longrightarrow> \<forall>r \<in> set recs. rec_fits r"
proof -
  obtain num where num: "\<And>k. dict_block_for ix k = Ok (map_option (blk ix) (num k))"
    "\<And>k b. num k = Some b \<Longrightarrow> b < sparse_count (ix_ngrams ix) (ix_stride ix)"
    using block_for_safe [OF wf] by metis
  have bs: "mapM_o (dict_block_for ix) keys = Ok (map (\<lambda>k. map_option (blk ix) (num k)) keys)"
    by (rule mapM_o_map) (rule num(1))
  have "resolve_all U64 fetch ix keys \<noteq> Panic \<and> (\<forall>recs. resolve_all U64 fetch ix keys = Ok (Some recs) \<longrightarrow> (\<forall>r \<in> set recs. rec_fits r))"
  proof (cases "None \<in> set (map (\<lambda>k. map_option (blk ix) (num k)) keys)")
    case True
    then show ?thesis by (simp only: resolve_all_def bs bind_o.simps if_True) simp
  next
    case False
    define ns where "ns = map (\<lambda>k. the (num k)) keys"
    have some: "num k \<noteq> None" if "k \<in> set keys" for k using False that by force
    have ns: "\<forall>b \<in> set ns. b < sparse_count (ix_ngrams ix) (ix_stride ix)"
      using num(2) some by (auto simp: ns_def)
    have blocks: "map the (map (\<lambda>k. map_option (blk ix) (num k)) keys) = map (blk ix) ns"
      using some by (auto simp: ns_def option.map_sel)
    have "parse_all U64 datas which (enumerate 0 (zip (map (blk ix) ns) keys)) \<noteq> Panic
        \<and> (\<forall>recs. parse_all U64 datas which (enumerate 0 (zip (map (blk ix) ns) keys)) = Ok (Some recs) \<longrightarrow> (\<forall>r \<in> set recs. rec_fits r))"
      if r: "read_dict_blocks U64 fetch (map (blk ix) ns) = Ok (datas, which)" for datas which
    proof (rule parse_all_safe)
      fix x assume "x \<in> set (enumerate 0 (zip (map (blk ix) ns) keys))"
      then have i: "fst x < length ns" and "snd x = zip (map (blk ix) ns) keys ! fst x"
        by (auto simp: in_set_enumerate_eq ns_def)
      moreover from this have "fst (snd x) = blk ix (ns ! fst x)" by (simp add: ns_def)
      ultimately show "parse_shared U64 datas which (fst x) (fst (snd x)) (snd (snd x)) \<noteq> Panic
          \<and> (\<forall>r. parse_shared U64 datas which (fst x) (fst (snd x)) (snd (snd x)) = Ok (Some r) \<longrightarrow> rec_fits r)"
        using read_blocks_safe(2) [OF wf ns r, of "fst x" "snd (snd x)"] by simp
    qed
    then show ?thesis
      using read_blocks_safe(1) [OF wf ns]
      unfolding resolve_all_def bs bind_o.simps Let_def blocks if_not_P [OF False]
      by (auto simp: bind_o_Panic_iff bind_o_Ok_iff)
  qed
  then show "resolve_all U64 fetch ix keys \<noteq> Panic"
    "resolve_all U64 fetch ix keys = Ok (Some recs) \<Longrightarrow> \<forall>r \<in> set recs. rec_fits r" by blast+
qed

lemma lookup_many_safe:
  assumes wf: "index_wf ix"
  shows "lookup_many U64 fetch ix keys \<noteq> Panic"
    and "lookup_many U64 fetch ix keys = Ok recs \<Longrightarrow> Some r \<in> set recs \<Longrightarrow> rec_fits r"
proof -
  obtain num where num: "\<And>k. dict_block_for ix k = Ok (map_option (blk ix) (num k))"
    "\<And>k b. num k = Some b \<Longrightarrow> b < sparse_count (ix_ngrams ix) (ix_stride ix)"
    using block_for_safe [OF wf] by metis
  define ps where "ps = filter (\<lambda>x. num (snd x) \<noteq> None) (enumerate 0 keys)"
  define bs where "bs = map (\<lambda>x. the (num (snd x))) ps"
  have ps: "fst x < length keys" "num (snd x) \<noteq> None" if "x \<in> set ps" for x
    using that by (auto simp: ps_def in_set_enumerate_eq)
  have found: "mapM_o (\<lambda>(i, k). map_ok (map_option (Pair i)) (dict_block_for ix k)) (enumerate 0 keys)
      = Ok (map (\<lambda>x. map_option (\<lambda>b. (fst x, blk ix b)) (num (snd x))) (enumerate 0 keys))"
    by (rule mapM_o_map) (auto simp: num(1) option.map_comp comp_def)
  have present: "map the (filter (\<lambda>x. x \<noteq> None) (map (\<lambda>x. map_option (\<lambda>b. (fst x, blk ix b)) (num (snd x))) (enumerate 0 keys)))
      = map (\<lambda>x. (fst x, blk ix (the (num (snd x))))) ps"
    by (auto simp: ps_def filter_map comp_def option.map_sel)
  have snds: "map snd (map (\<lambda>x. (fst x, blk ix (the (num (snd x))))) ps) = map (blk ix) bs" by (simp add: bs_def)
  have bs_ok: "\<forall>b \<in> set bs. b < sparse_count (ix_ngrams ix) (ix_stride ix)"
    using num(2) ps(2) by (auto simp: bs_def)
  let ?step = "\<lambda>datas which out (j, (i, block)). bind_o (nth_p keys i) (\<lambda>k.
         map_ok (\<lambda>r. out[i := r]) (parse_shared U64 datas which j block k))"
  let ?rows = "enumerate 0 (map (\<lambda>x. (fst x, blk ix (the (num (snd x))))) ps)"
  have rows: "\<exists>j. j < length bs \<and> fst (ps ! j) < length keys \<and> x = (j, fst (ps ! j), blk ix (bs ! j))" if "x \<in> set ?rows" for x
  proof -
    from that obtain j where j: "j < length ps" "x = (j, fst (ps ! j), blk ix (bs ! j))"
      by (auto simp: in_set_enumerate_eq bs_def)
    then show ?thesis using ps(1) nth_mem [OF j(1)] by (auto simp: bs_def)
  qed
  have "foldM_o (?step datas which) out ?rows \<noteq> Panic"
    if r: "read_dict_blocks U64 fetch (map (blk ix) bs) = Ok (datas, which)" for datas which and out :: "dict_rec option list"
    using read_blocks_safe(2) [OF wf bs_ok r] by (intro foldM_o_not_Panic) (auto simp: bind_o_Panic_iff dest!: rows)
  then show "lookup_many U64 fetch ix keys \<noteq> Panic"
    using read_blocks_safe(1) [OF wf bs_ok]
    unfolding lookup_many_def found present Let_def snds bind_o.simps
    by (auto simp: bind_o_Panic_iff)
  assume many: "lookup_many U64 fetch ix keys = Ok recs" and r: "Some r \<in> set recs"
  obtain datas which where d: "read_dict_blocks U64 fetch (map (blk ix) bs) = Ok (datas, which)"
    "foldM_o (?step datas which) (replicate (length keys) None) ?rows = Ok recs"
    using many unfolding lookup_many_def found present Let_def snds bind_o.simps by (auto simp: bind_o_Ok_iff)
  have "\<forall>r. Some r \<in> set recs \<longrightarrow> rec_fits r"
  proof (rule foldM_o_keeps [OF d(2)])
    fix out :: "dict_rec option list" and x out'
    assume x: "x \<in> set ?rows" and out: "\<forall>r. Some r \<in> set out \<longrightarrow> rec_fits r" and step: "?step datas which out x = Ok out'"
    obtain j where j: "j < length bs" "x = (j, fst (ps ! j), blk ix (bs ! j))" using rows [OF x] by blast
    obtain k v where v: "parse_shared U64 datas which j (blk ix (bs ! j)) k = Ok v" "out' = out[fst (ps ! j) := v]"
      using step j(2) by (auto simp: bind_o_Ok_iff map_ok_Ok_iff)
    then have "Some r \<in> set out' \<Longrightarrow> Some r \<in> set out \<or> v = Some r" for r
      using set_update_subset_insert [of out "fst (ps ! j)" v] by auto
    then show "\<forall>r. Some r \<in> set out' \<longrightarrow> rec_fits r"
      using out read_blocks_safe(2) [OF wf bs_ok d(1) j(1), of k] v(1) by blast
  qed simp
  then show "rec_fits r" using r by blast
qed

end

section \<open>Scans of any directories\<close>

lemma parse_entries_length: "parse_entries h sz desc offs tot is = Ok (Some dir) \<Longrightarrow> length dir = length is"
proof (induction "is" arbitrary: dir)
  case Nil
  then show ?case by simp
next
  case (Cons i "is")
  then show ?case by (auto simp: bind_o_Ok_iff split: if_split_asm)
qed

lemma parse_dir_length: "parse_dir um h tot = Ok (Some dir) \<Longrightarrow> length dir < U32"
  by (auto simp: parse_dir_def Let_def bind_o_Ok_iff split: if_split_asm option.splits dest!: parse_entries_length)

lemma parse_dirs_length: "parse_dirs um ths = Ok (Some dirs) \<Longrightarrow> \<forall>d \<in> set dirs. length (td_dir d) < U32"
proof (induction ths arbitrary: dirs)
  case Nil
  then show ?case by simp
next
  case (Cons th ths)
  obtain off len h where th: "th = ((off, len), h)" by (metis prod.exhaust)
  obtain dir rest where d: "parse_dir um h len = Ok (Some dir)" "parse_dirs um ths = Ok (Some rest)"
    "dirs = \<lparr>td_off = off, td_dir = dir\<rparr> # rest"
    using th Cons.prems by (auto simp: outcome_simps map_ok_Ok_iff split: option.splits)
  then show ?case using Cons.IH [OF d(2)] parse_dir_length [OF d(1)] by simp
qed

lemma open_tail_dirs_length: "open_tail_dirs um f tails = Ok (Some dirs) \<Longrightarrow> \<forall>d \<in> set dirs. length (td_dir d) < U32"
  by (auto simp: open_tail_dirs_def Let_def bind_o_Ok_iff split: if_splits dest!: parse_dirs_length)

lemma candidate_loop_length: "length (candidate_loop dirs keys is) \<le> length keys"
  by (induction dirs keys "is" rule: candidate_loop.induct)
    (auto simp: retain_keys_def intro: order_trans length_filter_le)

lemma prune_keys_length: "length (prune_keys keys flds) \<le> length keys"
  by (induction keys flds rule: prune_keys.induct) (auto intro: order_trans length_filter_le)

lemma candidate_keys_length:
  assumes "\<forall>d \<in> set dirs. length (td_dir d) < U32"
  shows "length (candidate_keys dirs) < U32"
proof (cases "sort_key (\<lambda>i. length (td_dir (dirs ! i))) [0..<length dirs]")
  case Nil
  then show ?thesis by (simp add: candidate_keys_def)
next
  case (Cons i rest)
  then have "i \<in> set [0..<length dirs]" by (metis list.set_intros(1) set_sort)
  then have "length (td_dir (dirs ! i)) < U32" using assms by simp
  then show ?thesis
    using Cons candidate_loop_length [of dirs "map c_key (td_dir (dirs ! i))" rest] by (simp add: candidate_keys_def)
qed

lemma scan_open_length:
  assumes "tail_scan_open um f tails ffo flds excl mk = Ok (Some s)"
  shows "length (ts_keys s) < U32"
proof -
  obtain tri facets where o: "open_tail_dirs um f tails = Ok (Some tri)"
    "ts_keys s = prune_keys (filter (\<lambda>k. k \<ge> mk) (candidate_keys tri)) facets"
    using assms by (auto simp: tail_scan_open_def Let_def bind_o_Ok_iff split: option.splits)
  have "length (ts_keys s) \<le> length (candidate_keys tri)"
    unfolding o(2) using prune_keys_length length_filter_le order_trans by blast
  then show ?thesis using candidate_keys_length [OF open_tail_dirs_length [OF o(1)]] by simp
qed

lemma rec_range:
  "rec_fits r \<Longrightarrow> n < 2 ^ 63 \<Longrightarrow> range_fits U64 n (dr_off r, dr_size r)"
  by (auto simp: rec_fits_def range_fits_def span_gap_def)

section \<open>Searches of any index\<close>

context scan_reader
begin

lemma search_fill_no_panic:
  assumes "scan_safe um s" "length (ts_keys s) + tail_key_batch \<le> um"
  shows "search_fill um deser fetch limit s out \<noteq> Panic"
  using assms
proof (induction "length (ts_keys s) - ts_pos s" arbitrary: s out rule: less_induct)
  case less
  show ?case
  proof (cases "length out < limit \<and> \<not> exhausted s")
    case False
    then show ?thesis by (auto simp: search_fill.simps [of um deser fetch limit s out])
  next
    case True
    have np: "next_window um deser fetch None tail_key_batch s \<noteq> Panic"
      by (rule next_window_no_panic [OF less.prems]) simp
    show ?thesis
    proof (cases "next_window um deser fetch None tail_key_batch s")
      case (Ok w)
      obtain bm s' where w: "w = (bm, s')" by fastforce
      have n: "next_window um deser fetch None tail_key_batch s = Ok (bm, s')" using Ok w by simp
      have k: "ts_keys s' = ts_keys s" "ts_pos s < ts_pos s'"
        using next_window_shrinks [OF n] True by (simp_all add: tail_key_batch_def)
      have safe: "scan_safe um s'"
        using n True less.prems(1) by (auto simp: next_window_def Let_def bind_o_Ok_iff scan_safe_def)
      have "length (ts_keys s') - ts_pos s' < length (ts_keys s) - ts_pos s"
        using k True by (auto simp: exhausted_def)
      from less.hyps [OF this safe] k less.prems(2) show ?thesis
        using True n by (simp add: search_fill.simps [of um deser fetch limit s out])
    qed (use True np in \<open>simp_all add: search_fill.simps [of um deser fetch limit s out]\<close>)
  qed
qed

end

context bounded_fetch
begin

lemma reader_self: "scan_reader fetch content fetch content"
  by (intro scan_reader.intro bounded_fetch_axioms)

lemma head_prefixes_no_panic:
  assumes "\<forall>r \<in> set recs. rec_fits r" "length content < 2 ^ 63"
  shows "fetch_head_prefixes U64 deser fetch recs \<noteq> Panic"
  using assms read_posting_subset_no_panic [OF rec_range]
  by (auto simp: fetch_head_prefixes_def fetch_head_prefix_def intro!: wave_not_Panic)

lemma search_no_panic:
  assumes wf: "index_wf ix" and small: "length content < 2 ^ 63" and um: "um = U64"
  shows "index_search um deser fetch ix keys limit \<noteq> Panic"
    and "search_candidates um deser fetch ix keys k \<noteq> Panic"
proof -
  have fit: "\<forall>t \<in> set (map (\<lambda>rec. (dr_off rec, dr_size rec)) recs). range_fits um (length content) t"
    if "\<forall>r \<in> set recs. rec_fits r" for recs
    using that rec_range [OF _ small, folded um] by auto
  have scan: "tail_scan_open um fetch ranges None [] [] mk \<noteq> Panic"
    "tail_scan_open um fetch ranges None [] [] mk = Ok (Some s) \<Longrightarrow> search_fill um deser fetch limit s out \<noteq> Panic"
    if "\<forall>t \<in> set ranges. range_fits um (length content) t" for ranges mk s out
  proof -
    have e: "\<forall>f \<in> set []. \<forall>t \<in> set f. range_fits um (length content) t" "\<forall>t \<in> set []. range_fits um (length content) t"
      "(None :: range_read option) = None \<or> None = Some fetch" by simp_all
    note o = scan_reader.scan_open_safe [OF reader_self that e]
    show "tail_scan_open um fetch ranges None [] [] mk \<noteq> Panic" by (rule o(1))
    assume s: "tail_scan_open um fetch ranges None [] [] mk = Ok (Some s)"
    have "length (ts_keys s) + tail_key_batch \<le> um" using scan_open_length [OF s] by (simp add: um tail_key_batch_def)
    then show "search_fill um deser fetch limit s out \<noteq> Panic"
      by (rule scan_reader.search_fill_no_panic [OF reader_self o(2) [OF s]])
  qed
  note full = tail_intersect_no_panic [where um = um and deser = deser]
  show "index_search um deser fetch ix keys limit \<noteq> Panic"
    using resolve_safe [OF wf, folded um] head_prefixes_no_panic [OF _ small, folded um] scan [OF fit] full [OF fit]
    by (auto simp: index_search_def Let_def bind_o_Panic_iff split: option.splits; blast)
  have size: "rd fetch (dr_off rec) (dr_size rec) \<noteq> Panic" if "rec_fits rec" for rec
    using that by (intro rd_bounded) (simp add: rec_fits_def)
  have each: "\<forall>rec \<in> set (take n (sort_key dr_size recs)). rd fetch (dr_off rec) (dr_size rec) \<noteq> Panic"
    "mapM_o (\<lambda>bytes. bind_o bytes (deserialize deser)) (map (\<lambda>rec. rd fetch (dr_off rec) (dr_size rec)) (take n (sort_key dr_size recs))) \<noteq> Panic"
    if "resolve_all um fetch ix keys = Ok (Some recs)" for n recs
  proof -
    have "\<forall>rec \<in> set recs. rec_fits rec" by (rule resolve_safe(2) [OF wf that [unfolded um]])
    moreover have "set (take n (sort_key dr_size recs)) \<subseteq> set recs" by (metis set_sort set_take_subset)
    ultimately show all: "\<forall>rec \<in> set (take n (sort_key dr_size recs)). rd fetch (dr_off rec) (dr_size rec) \<noteq> Panic"
      using size by blast
    show "mapM_o (\<lambda>bytes. bind_o bytes (deserialize deser)) (map (\<lambda>rec. rd fetch (dr_off rec) (dr_size rec)) (take n (sort_key dr_size recs))) \<noteq> Panic"
      by (rule mapM_o_not_Panic) (use all in \<open>auto simp: bind_o_Panic_iff simp del: rd_Panic_iff\<close>)
  qed
  then show "search_candidates um deser fetch ix keys k \<noteq> Panic"
    using resolve_safe(1) [OF wf, folded um]
    by (auto simp: search_candidates_def Let_def join_all_def bind_o_Panic_iff list_ex_iff image_iff
        simp del: rd_Panic_iff split: option.splits if_splits)
qed

lemma pricing_no_panic:
  assumes wf: "index_wf ix"
  shows "index_posting U64 deser fetch ix key \<noteq> Panic" "term_count U64 deser fetch ix key \<noteq> Panic"
    "count_estimate U64 deser fetch ix keys \<noteq> Panic"
proof -
  have size: "dr_size rec < 2 ^ 40" if "rec_fits rec" for rec using that by (simp add: rec_fits_def)
  have "wave (\<lambda>r. posting_cardinality U64 deser fetch (dr_off (the r)) (dr_size (the r))) recs \<noteq> Panic"
    if many: "lookup_many U64 fetch ix keys = Ok recs" and found: "None \<notin> set recs" for recs
  proof (intro wave_not_Panic posting_cardinality_no_panic size)
    fix x assume "x \<in> set recs"
    moreover from this obtain rec where "x = Some rec" using found by (metis not_Some_eq)
    ultimately show "rec_fits (the x)" using lookup_many_safe(2) [OF wf many] by simp
  qed
  then show "count_estimate U64 deser fetch ix keys \<noteq> Panic"
    using lookup_many_safe(1) [OF wf] by (auto simp: count_estimate_def bind_o_Panic_iff)
  show "index_posting U64 deser fetch ix key \<noteq> Panic" "term_count U64 deser fetch ix key \<noteq> Panic"
    using lookup_safe [OF wf] rd_bounded [OF size] posting_cardinality_no_panic [OF size]
    by (auto simp: index_posting_def term_count_def bind_o_Panic_iff simp del: rd_Panic_iff split: option.splits)
qed

end

section \<open>Properties\<close>

text \<open>
  C10: Both boots establish the index invariant for every input: the header fields fit their
  widths, a non-empty dictionary has a non-zero stride, and the sparse index has exactly the
  number of 64-bit keys that the header promises.  Booting from resident bytes and measuring a boot
  region never panic, and neither does opening, on any width of \<open>usize\<close>, over a fetcher that answers
  with an object's bytes and does not panic on a read of fewer than \<open>2 ^ 40\<close> bytes (\<open>MemoryFetch\<close>,
  and \<open>FileFetch\<close> on a 64-bit target).
\<close>

theorem boot_invariant:
  assumes "bounded_fetch f content"
  shows "(\<forall>ix. index_open um f = Ok ix \<longrightarrow> index_wf ix)
    \<and> (\<forall>ix. index_from_boot um boot = Ok ix \<longrightarrow> index_wf ix)
    \<and> index_open um f \<noteq> Panic \<and> index_from_boot um boot \<noteq> Panic \<and> rrs_boot_len um boot \<noteq> Panic"
  using open_wf from_boot_wf from_boot_no_panic boot_len_no_panic bounded_fetch.open_no_panic [OF assms] by blast

lemma boot_invariant_witness:
  "index_open U64 (file_read U64 (pread_of 7 (demo_boot @ [1, 2, 3]))) \<noteq> Panic
   \<and> index_open U32 (mem_read U32 (mem_new demo_boot)) \<noteq> Panic \<and> rrs_boot_len U32 demo_boot \<noteq> Panic"
proof -
  have "length (demo_boot @ [1, 2, 3]) < 2 ^ 63" by (simp add: demo_boot_def)
  then have "bounded_fetch (file_read U64 (pread_of 7 (demo_boot @ [1, 2, 3]))) (demo_boot @ [1, 2, 3])"
    by (intro file_read_bounded positioned_file_pread_of) simp_all
  then show ?thesis using boot_invariant boot_invariant [OF memf.bounded_fetch_axioms] by blast
qed

text \<open>
  C11: No index file makes a query panic on a 64-bit target: whatever dictionary blocks, posting
  ranges and container directories the file holds, and whatever the deserialiser makes of them,
  every dictionary call and both searches end in an answer or an error.
\<close>

theorem index_hostile_safe:
  assumes "positioned_file ra content" "index_open U64 (file_read U64 ra) = Ok ix \<or> index_from_boot U64 boot = Ok ix"
  shows "index_lookup U64 (file_read U64 ra) ix key \<noteq> Panic
    \<and> lookup_many U64 (file_read U64 ra) ix keys \<noteq> Panic
    \<and> index_posting U64 deser (file_read U64 ra) ix key \<noteq> Panic
    \<and> term_count U64 deser (file_read U64 ra) ix key \<noteq> Panic
    \<and> count_estimate U64 deser (file_read U64 ra) ix keys \<noteq> Panic
    \<and> index_search U64 deser (file_read U64 ra) ix keys limit \<noteq> Panic
    \<and> search_candidates U64 deser (file_read U64 ra) ix keys k \<noteq> Panic"
proof -
  have bf: "bounded_fetch (file_read U64 ra) content" by (rule file_read_bounded [OF assms(1)])
  have small: "length content < 2 ^ 63" using assms(1) by (simp add: positioned_file_def)
  have wf: "index_wf ix" using assms(2) open_wf from_boot_wf by blast
  show ?thesis
    using bounded_fetch.lookup_safe(1) [OF bf wf] bounded_fetch.lookup_many_safe(1) [OF bf wf]
      bounded_fetch.pricing_no_panic [OF bf wf] bounded_fetch.search_no_panic [OF bf wf small refl] by blast
qed

text \<open>A boot region of one block with a stride of 2^32 / 20 + 1 entries, over an empty object.\<close>

definition wide_boot :: bytes where
  "wide_boot = ascii ''RRSI'' @ to_le 2 3 @ to_le 2 3 @ to_le 4 214748365 @ to_le 4 214748365 @ to_le 8 0"

lemma wide_boot_fields:
  "length wide_boot = 24" "cut wide_boot 0 4 = rrs_magic" "u16_at wide_boot 4 = 3" "u16_at wide_boot 6 = 3"
  "u32_at wide_boot 8 = 214748365" "u32_at wide_boot 12 = 214748365" "u64_at wide_boot 16 = 0"
  using header_fields [of 3 3 214748365 214748365 "to_le 8 0"]
    u64_at_mid [of "ascii ''RRSI'' @ to_le 2 3 @ to_le 2 3 @ to_le 4 214748365 @ to_le 4 214748365" 16 0 "[]"]
  by (simp_all add: wide_boot_def)

definition wide_index :: index where
  "wide_index = \<lparr>ix_gram = 3, ix_ngrams = 214748365, ix_stride = 214748365, ix_dict_start = 24, ix_sparse = [0], ix_fold = True\<rparr>"

lemma wide_boots:
  assumes "24 < um"
  shows "index_from_boot um wide_boot = Ok wide_index"
proof -
  have "boot_sparse wide_boot = 1" by (simp add: boot_sparse_def wide_boot_fields sparse_count_def)
  moreover have "boot_header wide_boot = 16" by (simp add: boot_header_def wide_boot_fields header_sizes)
  ultimately have "boots um wide_boot wide_index"
    using assms by (simp add: boots_def boot_index_def wide_boot_fields header_sizes wide_index_def)
  then show ?thesis using assms by (subst from_boot_iff) (simp_all add: wide_boot_fields)
qed

lemma index_hostile_safe_witness:
  "index_search U64 format_decode (file_read U64 (pread_of 7 [1, 2, 3])) wide_index [5, 9] 10 \<noteq> Panic"
proof -
  have "positioned_file (pread_of 7 [1, 2, 3]) [1, 2, 3]" by (intro positioned_file_pread_of) simp_all
  then show ?thesis
    using index_hostile_safe [of "pread_of 7 [1, 2, 3]" "[1, 2, 3]" wide_index wide_boot 0 "[5, 9]" format_decode 10 1] wide_boots [of U64]
    by simp
qed

text \<open>
  On a 32-bit target the dictionary block length overflows. A boot region whose stride is
  214748365 boots (its sparse index is one entry, which \<open>sparse_layout\<close> accepts), and looking up
  any key in it overflows \<open>entries * 20\<close> for every object behind it; on a 64-bit target the same
  lookup is safe.
\<close>

lemma block_length_overflows_wasm32:
  "index_from_boot U32 wide_boot = Ok wide_index
   \<and> index_lookup U32 (mem_read U32 m) wide_index key = Panic
   \<and> index_lookup U64 (mem_read U64 m) wide_index key \<noteq> Panic"
proof -
  have "dict_block_for wide_index key = Ok (Some \<lparr>db_off = 24, db_entries = 214748365\<rparr>)"
    by (cases "key = 0")
      (simp_all add: dict_block_for_def wide_index_def bsearch_by_def bsearch_from.simps block_at_def dict_entry_def)
  then have "index_lookup U32 (mem_read U32 m) wide_index key = Panic"
    by (simp add: index_lookup_def read_block_def dict_entry_def mul_p_def)
  moreover have "index_wf wide_index" using from_boot_wf wide_boots [of U32] by simp
  then have "index_lookup U64 (mem_read U64 m) wide_index key \<noteq> Panic"
    by (rule bounded_fetch.lookup_safe(1) [OF mem.bounded_fetch_axioms])
  ultimately show ?thesis using wide_boots [of U32] by simp
qed

text \<open>
  On a 32-bit target a header may ask for a sparse index that \<open>FileFetch\<close> cannot allocate: opening
  such a file panics, where over \<open>MemoryFetch\<close> it is an error.
\<close>

lemma sparse_buffer_overflows:
  assumes "positioned_file ra content" "file_read U32 ra 0 16 = Ok h" "cut h 0 4 = rrs_magic" "u16_at h 4 = 3" "u32_at h 12 \<noteq> 0"
    and "2 ^ 31 \<le> sparse_count (u32_at h 8) (u32_at h 12) * 8" "sparse_count (u32_at h 8) (u32_at h 12) * 8 < U32"
  shows "index_open U32 (file_read U32 ra) = Panic"
proof -
  let ?n = "sparse_count (u32_at h 8) (u32_at h 12)"
  have "file_fill ra 0 16 [] = Ok h" using assms(2) by (simp add: file_read_def)
  then have "length h = 16" using file_fill_exact [OF assms(1), of 0 16 "[]" h] by fastforce
  moreover have "sparse_layout U32 (u32_at h 8) (u32_at h 12) = Ok (?n, ?n * 8)" using assms(5,7) by (simp add: sparse_layout_Ok_iff)
  moreover have "rd (file_read U32 ra) 16 (?n * 8) = Panic" using assms(6) by (simp add: file_read_panic_iff [OF assms(1)])
  moreover have "rd (file_read U32 ra) 0 16 = Ok h" using assms(2) by simp
  ultimately show ?thesis
    using assms(3,4) by (simp add: index_open_def header_sizes version_v3_def del: rd_Panic_iff rd_Ok_iff)
qed

end
