(* ===== verification/RR_Filter.thy ===== *)
theory RR_Filter imports RR_Index begin

text \<open>
  The set algebra of a filtered search in \<open>rust/src/index.rs\<close>: \<open>threshold\<close>, the documents that occur
  in at least \<open>min_match\<close> postings, and \<open>ResolvedFilter\<close>, the facet filter whose categories are
  ORed within a field, whose fields are ANDed and whose excluded categories are subtracted.  The
  fetcher a \<open>ResolvedFilter\<close> carries is the parameter \<open>ff\<close>.

  Shown: the cascading counters of \<open>threshold\<close> count postings; over stored categories the head and
  tail sides of a filter, its full bitmap and its candidate-aware bitmap all decide the one predicate
  \<open>passes\<close>; over arbitrary bytes no filter operation panics.
\<close>

section \<open>threshold\<close>

text \<open>One posting of the cascading counters: the levels \<open>(1..=t).rev()\<close>.\<close>

fun cascade_down :: "nat set \<Rightarrow> nat set list \<Rightarrow> nat \<Rightarrow> nat set list" where
  "cascade_down b c 0 = c"
| "cascade_down b c (Suc k) =
     cascade_down b
       (if Suc k = 1 then c[1 := c ! 1 \<union> b]
        else c[Suc k := c ! Suc k \<union> (c ! k \<inter> b)]) k"

definition none_if_empty :: "nat set \<Rightarrow> nat set option" where
  "none_if_empty s = (if s = {} then None else Some s)"

definition threshold :: "nat set list \<Rightarrow> nat \<Rightarrow> nat set option" where
  "threshold bitmaps min_match =
     (let n = length bitmaps in
      if n = 0 \<or> min_match = 0 \<or> min_match > n then None
      else if min_match = 1 then none_if_empty (foldl (\<union>) {} bitmaps)
      else if min_match = n then
        (case sort_key card bitmaps of
           [] \<Rightarrow> None
         | acc # rest \<Rightarrow> none_if_empty (inter_loop acc rest))
      else
        let c = foldl (\<lambda>c b. cascade_down b c min_match) (replicate (min_match + 1) {}) bitmaps
        in none_if_empty (c ! min_match))"

section \<open>ResolvedFilter\<close>

record cat_range =
  cr_head_off :: nat
  cr_head_size :: nat
  cr_tail_off :: nat
  cr_tail_size :: nat

record filter_spec =
  rf_fields :: "cat_range list list"
  rf_excludes :: "cat_range list"

definition filter_is_empty :: "filter_spec \<Rightarrow> bool" where
  "filter_is_empty flt \<longleftrightarrow> rf_fields flt = [] \<and> rf_excludes flt = []"

definition has_empty_arm :: "filter_spec \<Rightarrow> bool" where
  "has_empty_arm flt \<longleftrightarrow> list_ex (\<lambda>cats. cats = []) (rf_fields flt)"

definition head_range :: "cat_range \<Rightarrow> nat \<times> nat" where
  "head_range c = (cr_head_off c, cr_head_size c)"

definition tail_range :: "cat_range \<Rightarrow> nat \<times> nat" where
  "tail_range c = (cr_tail_off c, cr_tail_size c)"

text \<open>\<open>per_field[fi] |= bm\<close>, and the smallest-first AND of the fields.\<close>

definition or_into :: "nat set list \<Rightarrow> nat \<Rightarrow> nat set \<Rightarrow> nat set list ires" where
  "or_into per fi bm = bind_o (nth_p per fi) (\<lambda>old. Ok (per[fi := old \<union> bm]))"

definition combine ::
  "nat \<Rightarrow> deserializer \<Rightarrow> range_read \<Rightarrow> (cat_range \<Rightarrow> nat \<times> nat) \<Rightarrow> filter_spec \<Rightarrow> nat set ires" where
  "combine um deser ff range_of flt =
     (if has_empty_arm flt then Ok {}
      else
        let flat = concat (map (\<lambda>(fi, cats). map (\<lambda>c. (fi, range_of c)) cats) (enumerate 0 (rf_fields flt)))
        in bind_o (map_err Fetch (read_coalesced um ff (map snd flat) coalesce_gap)) (\<lambda>datas.
           bind_o (foldM_o (\<lambda>per ((fi, _), bytes). bind_o (deserialize deser bytes) (or_into per fi))
                     (replicate (length (rf_fields flt)) {}) (zip flat datas)) (\<lambda>per_field.
           Ok (case sort_key card per_field of [] \<Rightarrow> {} | acc # rest \<Rightarrow> inter_loop acc rest))))"

definition head_bitmap :: "nat \<Rightarrow> deserializer \<Rightarrow> range_read \<Rightarrow> filter_spec \<Rightarrow> nat set ires" where
  "head_bitmap um deser ff flt = combine um deser ff head_range flt"

definition tail_bitmap :: "nat \<Rightarrow> deserializer \<Rightarrow> range_read \<Rightarrow> filter_spec \<Rightarrow> nat set ires" where
  "tail_bitmap um deser ff flt = combine um deser ff tail_range flt"

definition exclude_union ::
  "nat \<Rightarrow> deserializer \<Rightarrow> range_read \<Rightarrow> (cat_range \<Rightarrow> nat \<times> nat) \<Rightarrow> filter_spec \<Rightarrow> nat set ires" where
  "exclude_union um deser ff range_of flt =
     (if rf_excludes flt = [] then Ok {}
      else bind_o (map_err Fetch (read_coalesced um ff (map range_of (rf_excludes flt)) coalesce_gap)) (\<lambda>datas.
        foldM_o (\<lambda>x bytes. map_ok ((\<union>) x) (deserialize deser bytes)) {} datas))"

definition apply_head ::
  "nat \<Rightarrow> deserializer \<Rightarrow> range_read \<Rightarrow> filter_spec \<Rightarrow> nat set \<Rightarrow> nat set ires" where
  "apply_head um deser ff flt result =
     bind_o (if rf_fields flt \<noteq> [] then map_ok ((\<inter>) result) (head_bitmap um deser ff flt) else Ok result) (\<lambda>result.
     if rf_excludes flt \<noteq> [] then map_ok ((-) result) (exclude_union um deser ff head_range flt) else Ok result)"

definition apply_tail ::
  "nat \<Rightarrow> deserializer \<Rightarrow> range_read \<Rightarrow> filter_spec \<Rightarrow> nat set \<Rightarrow> nat set ires" where
  "apply_tail um deser ff flt result =
     bind_o (if rf_fields flt \<noteq> [] then map_ok ((\<inter>) result) (tail_bitmap um deser ff flt) else Ok result) (\<lambda>result.
     if rf_excludes flt \<noteq> [] then map_ok ((-) result) (exclude_union um deser ff tail_range flt) else Ok result)"

text \<open>\<open>join(a, b)\<close>: both sides run before either result is looked at.\<close>

definition join2 :: "'a ires \<Rightarrow> 'b ires \<Rightarrow> ('a ires \<times> 'b ires) ires" where
  "join2 a b = (if a = Panic \<or> b = Panic then Panic else Ok (a, b))"

definition full_bitmap :: "nat \<Rightarrow> deserializer \<Rightarrow> range_read \<Rightarrow> filter_spec \<Rightarrow> nat set ires" where
  "full_bitmap um deser ff flt =
     bind_o (join2 (head_bitmap um deser ff flt) (tail_bitmap um deser ff flt)) (\<lambda>(head, tail).
     bind_o head (\<lambda>h. bind_o tail (\<lambda>t.
     if rf_excludes flt \<noteq> [] then
       bind_o (join2 (exclude_union um deser ff head_range flt) (exclude_union um deser ff tail_range flt)) (\<lambda>(xh, xt).
       bind_o xh (\<lambda>xh. bind_o xt (\<lambda>xt. Ok (h \<union> t - xh - xt))))
     else Ok (h \<union> t))))"

definition membership_part ::
  "nat \<Rightarrow> deserializer \<Rightarrow> range_read \<Rightarrow> bool \<Rightarrow> nat list \<Rightarrow> cat_range \<Rightarrow> nat set ires" where
  "membership_part um deser ff head_needed tail_keys c =
     bind_o (if head_needed \<and> cr_head_size c > 0
             then bind_o (rd ff (cr_head_off c) (cr_head_size c)) (deserialize deser) else Ok {}) (\<lambda>h.
     bind_o (if tail_keys \<noteq> [] \<and> cr_tail_size c > 0
             then read_posting_subset um deser ff (cr_tail_off c) (cr_tail_size c) tail_keys else Ok {}) (\<lambda>t.
     Ok (h \<union> t)))"

definition membership_bitmap ::
  "nat \<Rightarrow> deserializer \<Rightarrow> range_read \<Rightarrow> filter_spec \<Rightarrow> nat set \<Rightarrow> nat set ires" where
  "membership_bitmap um deser ff flt ids =
     (if ids = {} \<or> has_empty_arm flt then Ok {}
      else
        let keys = distinct_high_keys ids;
            head_needed = (keys \<noteq> [] \<and> hd keys = 0);
            tail_keys = filter (\<lambda>k. k \<noteq> 0) keys;
            flat = concat (map (\<lambda>(fi, cats). map (Pair fi) cats) (enumerate 0 (rf_fields flt)))
        in bind_o (join_all (\<lambda>(fi, c). map_ok (Pair fi) (membership_part um deser ff head_needed tail_keys c)) flat) (\<lambda>results.
           bind_o (foldM_o (\<lambda>per r. bind_o r (\<lambda>(fi, bm). or_into per fi bm))
                     (replicate (length (rf_fields flt)) {}) results) (\<lambda>per_field.
           let acc = inter_loop ids (sort_key card per_field) in
           if rf_excludes flt \<noteq> [] \<and> acc \<noteq> {} then
             bind_o (join_all (membership_part um deser ff head_needed tail_keys) (rf_excludes flt)) (\<lambda>xs.
             bind_o (foldM_o (\<lambda>x r. map_ok ((\<union>) x) r) {} xs) (\<lambda>x.
             Ok (acc - x)))
           else Ok acc)))"

section \<open>Counting postings\<close>

text \<open>The number of postings of a list that hold a document.\<close>

definition hits :: "nat set list \<Rightarrow> nat \<Rightarrow> nat" where
  "hits bs d = length (filter (\<lambda>b. d \<in> b) bs)"

lemma length_cascade_down [simp]: "length (cascade_down b c t) = length c"
  by (induction b c t rule: cascade_down.induct) simp_all

lemma cascade_down_nth:
  "t < length c \<Longrightarrow> j \<le> t \<Longrightarrow> 0 < j \<Longrightarrow>
   cascade_down b c t ! j = c ! j \<union> (if j = 1 then b else c ! (j - 1) \<inter> b)"
proof (induction t arbitrary: c j)
  case (Suc k)
  have above: "cascade_down b c' k ! i = c' ! i" if "k < i" for c' i
    using that by (induction b c' k rule: cascade_down.induct) auto
  show ?case
  proof (cases "j = Suc k")
    case True
    then show ?thesis using Suc.prems(1) above by simp
  next
    case False
    then have "j \<le> k" using Suc.prems(2) by simp
    then show ?thesis using Suc.IH [of _ j] Suc.prems by (cases j) (simp_all add: nth_list_update)
  qed
qed simp

lemma cascade_counts:
  assumes "k \<le> t" "0 < k"
  shows "foldl (\<lambda>c b. cascade_down b c t) (replicate (t + 1) {}) bs ! k = {d. k \<le> hits bs d}"
  using assms
proof (induction bs arbitrary: k rule: rev_induct)
  case Nil
  then show ?case by (simp add: hits_def nth_Cons split: nat.splits)
next
  case (snoc b bs)
  have len: "length (foldl (\<lambda>c b. cascade_down b c t) (replicate (t + 1) {}) bs) = t + 1"
    by (induction bs rule: rev_induct) simp_all
  have step: "foldl (\<lambda>c b. cascade_down b c t) (replicate (t + 1) {}) (bs @ [b]) ! k
      = {d. k \<le> hits bs d} \<union> (if k = 1 then b else {d. k - 1 \<le> hits bs d} \<inter> b)"
    using snoc.prems snoc.IH [of k] snoc.IH [of "k - 1"] len by (simp add: cascade_down_nth)
  then show ?case using snoc.prems(2) by (auto simp: hits_def)
qed

lemma hits_pos: "1 \<le> hits bs d \<longleftrightarrow> d \<in> \<Union>(set bs)"
  by (auto simp: hits_def Suc_le_eq filter_empty_conv)

lemma hits_all: "length bs \<le> hits bs d \<longleftrightarrow> d \<in> \<Inter>(set bs)"
  using length_filter_le [of "\<lambda>b. d \<in> b" bs] filter_id_conv [of "\<lambda>b. d \<in> b" bs]
    length_filter_less [of _ bs "\<lambda>b. d \<in> b"]
  by (fastforce simp: hits_def not_le [symmetric])

lemma hits_le: "hits bs d \<le> length bs"
  by (simp add: hits_def)

lemma threshold_eq:
  "threshold bs m = (if bs = [] \<or> m = 0 then None else none_if_empty {d. m \<le> hits bs d})"
proof (cases "bs = [] \<or> m = 0 \<or> m > length bs")
  case True
  have "\<not> m \<le> hits bs d" if "m > length bs" for d using hits_le [of bs d] that by simp
  then show ?thesis using True by (auto simp: threshold_def none_if_empty_def)
next
  case False
  then have m: "bs \<noteq> []" "0 < m" "m \<le> length bs" by auto
  consider (one) "m = 1" | (all) "m \<noteq> 1" "m = length bs" | (mid) "m \<noteq> 1" "m \<noteq> length bs" by blast
  then show ?thesis
  proof cases
    case one
    have "foldl (\<union>) {} bs = \<Union>(set bs)" by (metis Sup_set_fold foldl_conv_fold sup_commute ext)
    then have "threshold bs m = none_if_empty (\<Union>(set bs))" using m one by (simp add: threshold_def)
    moreover have "\<Union>(set bs) = {d. m \<le> hits bs d}" using hits_pos [of bs] one by blast
    ultimately show ?thesis using m by simp
  next
    case all
    from sort_key_Cons [OF m(1), of card] obtain acc rest where sort: "sort_key card bs = acc # rest" by blast
    then have "threshold bs m = none_if_empty (\<Inter>(set bs))"
      using m all inter_loop_sorted [OF sort] by (simp add: threshold_def)
    moreover have "\<Inter>(set bs) = {d. m \<le> hits bs d}" using hits_all [of bs] all by blast
    ultimately show ?thesis using m by simp
  next
    case mid
    then show ?thesis using m cascade_counts [of m m bs] by (simp add: threshold_def Let_def)
  qed
qed

lemma unwrap_threshold:
  "bs \<noteq> [] \<Longrightarrow> 0 < m \<Longrightarrow> unwrap_or_default (threshold bs m) = {d. m \<le> hits bs d}"
  by (simp add: threshold_eq none_if_empty_def unwrap_or_default_def)

section \<open>ORing into fields\<close>

lemma or_into_fold:
  assumes "\<forall>(fi, bm) \<in> set items. fi < length per"
  shows "foldM_o (\<lambda>per (fi, bm). or_into per fi bm) per items
    = Ok (map (\<lambda>i. per ! i \<union> \<Union>{bm. (i, bm) \<in> set items}) [0..<length per])"
  using assms
proof (induction items arbitrary: per)
  case Nil
  show ?case by (simp add: map_nth)
next
  case (Cons it items)
  obtain fi bm where it: "it = (fi, bm)" by fastforce
  have fi: "fi < length per" using Cons.prems it by simp
  have "foldM_o (\<lambda>per (fi, bm). or_into per fi bm) per (it # items)
      = Ok (map (\<lambda>i. per[fi := per ! fi \<union> bm] ! i \<union> \<Union>{bm. (i, bm) \<in> set items}) [0..<length per])"
    using Cons.IH [of "per[fi := per ! fi \<union> bm]"] Cons.prems fi it by (simp add: or_into_def)
  also have "map (\<lambda>i. per[fi := per ! fi \<union> bm] ! i \<union> \<Union>{bm. (i, bm) \<in> set items}) [0..<length per]
      = map (\<lambda>i. per ! i \<union> \<Union>{bm. (i, bm) \<in> set (it # items)}) [0..<length per]"
    using it fi by (intro map_cong refl) (cases "fi < length per"; auto simp: nth_list_update split: if_split_asm)
  finally show ?case .
qed

definition cells :: "('c \<Rightarrow> 'a) \<Rightarrow> 'c list list \<Rightarrow> (nat \<times> 'a) list" where
  "cells g flds = concat (map (\<lambda>(fi, cats). map (\<lambda>c. (fi, g c)) cats) (enumerate 0 flds))"

lemma cells_map: "map (\<lambda>(fi, x). (fi, h x)) (cells g flds) = cells (\<lambda>c. h (g c)) flds"
  by (simp add: cells_def map_concat case_prod_unfold comp_def)

lemma cells_snd: "map snd (cells g flds) = map g (concat flds)"
proof -
  have "map snd (concat (map (\<lambda>(fi, cats). map (\<lambda>c. (fi, g c)) cats) (enumerate k flds))) = map g (concat flds)" for k
    by (induction flds arbitrary: k) (simp_all add: comp_def)
  then show ?thesis by (simp add: cells_def)
qed

lemma cells_set: "(i, x) \<in> set (cells g flds) \<longleftrightarrow> i < length flds \<and> (\<exists>c \<in> set (flds ! i). x = g c)"
  by (force simp: cells_def in_set_enumerate_eq)

lemma or_cells:
  "foldM_o (\<lambda>per (fi, bm). or_into per fi bm) (replicate (length flds) {}) (cells g flds)
   = Ok (map (\<lambda>cats. \<Union>(g ` set cats)) flds)"
proof -
  have "foldM_o (\<lambda>per (fi, bm). or_into per fi bm) (replicate (length flds) {}) (cells g flds)
    = Ok (map (\<lambda>i. replicate (length flds) {} ! i \<union> \<Union>{bm. (i, bm) \<in> set (cells g flds)}) [0..<length flds])"
  proof -
    have "\<forall>(fi, bm) \<in> set (cells g flds). fi < length (replicate (length flds) ({} :: nat set))" by (auto simp: cells_set)
    from or_into_fold [OF this] show ?thesis by simp
  qed
  also have "map (\<lambda>i. replicate (length flds) {} ! i \<union> \<Union>{bm. (i, bm) \<in> set (cells g flds)}) [0..<length flds]
    = map (\<lambda>cats. \<Union>(g ` set cats)) flds"
    by (rule nth_equalityI) (auto simp: cells_set)
  finally show ?thesis .
qed

lemma foldM_o_cong_map:
  "(\<And>s x. x \<in> set xs \<Longrightarrow> f s x = g s (h x)) \<Longrightarrow> foldM_o f s xs = foldM_o g s (map h xs)"
  by (induction xs arbitrary: s) (auto intro!: arg_cong [where f = "bind_o _"])

lemma union_fold:
  "(\<And>x. x \<in> set xs \<Longrightarrow> f x = Ok (g x)) \<Longrightarrow> foldM_o (\<lambda>u x. map_ok ((\<union>) u) (f x)) u xs = Ok (u \<union> \<Union>(g ` set xs))"
  by (induction xs arbitrary: u) auto

text \<open>The smallest-first AND.\<close>

lemma fields_and:
  "(case sort_key card per of [] \<Rightarrow> {} | acc # rest \<Rightarrow> inter_loop acc rest) = (if per = [] then {} else \<Inter>(set per))"
  using sort_key_Cons [of per card] by (auto simp: inter_loop_sorted)

section \<open>Filters over stored categories\<close>

text \<open>
  The documents of a category, given the postings \<open>cont c = (head, tail)\<close> stored for it, and the
  predicate the filter stands for.
\<close>

type_synonym contents = "cat_range \<Rightarrow> piece list \<times> piece list"

definition cat_docs :: "contents \<Rightarrow> cat_range \<Rightarrow> nat set" where
  "cat_docs cont c = docs (fst (cont c)) \<union> docs (snd (cont c))"

definition filter_cats :: "filter_spec \<Rightarrow> cat_range set" where
  "filter_cats flt = \<Union>(set ` set (rf_fields flt)) \<union> set (rf_excludes flt)"

definition fields_pass :: "contents \<Rightarrow> filter_spec \<Rightarrow> nat \<Rightarrow> bool" where
  "fields_pass cont flt d \<longleftrightarrow> (\<forall>cats \<in> set (rf_fields flt). \<exists>c \<in> set cats. d \<in> cat_docs cont c)"

definition excluded :: "contents \<Rightarrow> filter_spec \<Rightarrow> nat \<Rightarrow> bool" where
  "excluded cont flt d \<longleftrightarrow> (\<exists>c \<in> set (rf_excludes flt). d \<in> cat_docs cont c)"

definition passes :: "contents \<Rightarrow> filter_spec \<Rightarrow> nat \<Rightarrow> bool" where
  "passes cont flt d \<longleftrightarrow> fields_pass cont flt d \<and> \<not> excluded cont flt d"

text \<open>A category as the facet writer lays it out: its head posting below document 65536, its tail above.\<close>

definition cat_split :: "contents \<Rightarrow> cat_range \<Rightarrow> bool" where
  "cat_split cont c \<longleftrightarrow> (\<forall>d \<in> docs (fst (cont c)). d < 65536) \<and> (\<forall>d \<in> docs (snd (cont c)). 65536 \<le> d)"

lemma cat_side:
  assumes "cat_split cont c"
  shows "d < 65536 \<Longrightarrow> d \<in> cat_docs cont c \<longleftrightarrow> d \<in> docs (fst (cont c))"
    and "65536 \<le> d \<Longrightarrow> d \<in> cat_docs cont c \<longleftrightarrow> d \<in> docs (snd (cont c))"
  using assms by (auto simp: cat_split_def cat_docs_def not_less [symmetric])

lemma no_empty_arm_iff: "has_empty_arm flt \<longleftrightarrow> [] \<in> set (rf_fields flt)"
  by (auto simp: has_empty_arm_def list_ex_iff)

lemma empty_arm_passes: "has_empty_arm flt \<Longrightarrow> \<not> fields_pass cont flt d"
  by (force simp: no_empty_arm_iff fields_pass_def)

context posting_store
begin

definition cat_holds :: "contents \<Rightarrow> cat_range \<Rightarrow> bool" where
  "cat_holds cont c \<longleftrightarrow> holds (fst (cont c)) (cr_head_off c) (cr_head_size c)
     \<and> holds (snd (cont c)) (cr_tail_off c) (cr_tail_size c) \<and> cat_split cont c"

definition filter_holds :: "contents \<Rightarrow> filter_spec \<Rightarrow> bool" where
  "filter_holds cont flt \<longleftrightarrow> addressable um lim content \<and> lim \<le> um \<and> (\<forall>c \<in> filter_cats flt. cat_holds cont c)"

lemma read_postings:
  assumes "addressable um lim content" "lim \<le> um" "\<forall>c \<in> set cs. holds (S c) (fst (rng c)) (snd (rng c))"
  shows "read_coalesced um fetch (map rng cs) gap = Ok (map (\<lambda>c. assemble (S c)) cs)"
proof -
  have "read_coalesced um fetch (map rng cs) gap
      = Ok (map (\<lambda>(off, len). cut content off (off + len)) (map rng cs))"
  proof (rule coalesced_ok)
    fix off len assume "(off, len) \<in> set (map rng cs)"
    then obtain c where "c \<in> set cs" "off = fst (rng c)" "len = snd (rng c)" by (metis (no_types) fst_conv imageE set_map snd_conv)
    then show "off + len \<le> length content" using assms(3) by (simp add: holds_iff)
  qed (use assms(1,2) in \<open>auto simp: addressable_def\<close>)
  also have "map (\<lambda>(off, len). cut content off (off + len)) (map rng cs) = map (\<lambda>c. assemble (S c)) cs"
    using assms(3) by (auto simp: holds_iff case_prod_unfold)
  finally show ?thesis .
qed

lemma combine_eq:
  assumes "addressable um lim content" "lim \<le> um"
    and h: "\<forall>cats \<in> set (rf_fields flt). \<forall>c \<in> set cats. holds (S c) (fst (rng c)) (snd (rng c))"
  shows "combine um deser fetch rng flt
    = Ok (if rf_fields flt = [] then {} else {d. \<forall>cats \<in> set (rf_fields flt). \<exists>c \<in> set cats. d \<in> docs (S c)})"
proof (cases "has_empty_arm flt")
  case True
  then show ?thesis by (force simp: combine_def no_empty_arm_iff)
next
  case False
  let ?fl = "rf_fields flt"
  let ?cs = "concat ?fl"
  have flat: "concat (map (\<lambda>(fi, cats). map (\<lambda>c. (fi, rng c)) cats) (enumerate 0 ?fl)) = cells rng ?fl"
    by (simp add: cells_def)
  have read: "read_coalesced um fetch (map snd (cells rng ?fl)) coalesce_gap = Ok (map (\<lambda>c. assemble (S c)) ?cs)"
    unfolding cells_snd using h by (intro read_postings assms(1,2)) auto
  have zip: "zip (cells rng ?fl) (map (\<lambda>c. assemble (S c)) ?cs)
      = map (\<lambda>(fi, c). ((fi, rng c), assemble (S c))) (cells (\<lambda>c. c) ?fl)"
  proof -
    have "cells rng ?fl = map (\<lambda>(fi, c). (fi, rng c)) (cells (\<lambda>c. c) ?fl)" by (simp add: cells_map)
    moreover have "map (\<lambda>c. assemble (S c)) ?cs = map (\<lambda>(fi, c). assemble (S c)) (cells (\<lambda>c. c) ?fl)"
      using cells_snd [of "\<lambda>c. c" ?fl, symmetric] by (simp add: case_prod_unfold)
    ultimately show ?thesis by (simp add: zip_map_same case_prod_unfold)
  qed
  have "foldM_o (\<lambda>per ((fi, _), bytes). bind_o (deserialize deser bytes) (or_into per fi))
      (replicate (length ?fl) {}) (zip (cells rng ?fl) (map (\<lambda>c. assemble (S c)) ?cs))
    = foldM_o (\<lambda>per (fi, bm). or_into per fi bm) (replicate (length ?fl) {}) (cells (\<lambda>c. docs (S c)) ?fl)"
  proof -
    have "deserialize deser (assemble (S c)) = Ok (docs (S c))" if "(fi, c) \<in> set (cells (\<lambda>c. c) ?fl)" for fi c
      using that h by (intro deserialize_assemble) (force simp: cells_set holds_iff)
    then have "foldM_o (\<lambda>per ((fi, _), bytes). bind_o (deserialize deser bytes) (or_into per fi))
        per (map (\<lambda>(fi, c). ((fi, rng c), assemble (S c))) items)
      = foldM_o (\<lambda>per (fi, bm). or_into per fi bm) per (map (\<lambda>(fi, c). (fi, docs (S c))) items)"
      if "set items \<subseteq> set (cells (\<lambda>c. c) ?fl)" for per items
      using that by (induction items arbitrary: per) (auto simp del: deserialize_Ok intro!: arg_cong [where f = "bind_o _"])
    then show ?thesis unfolding zip by (simp add: cells_map)
  qed
  also have "\<dots> = Ok (map (\<lambda>cats. \<Union>((\<lambda>c. docs (S c)) ` set cats)) ?fl)" by (rule or_cells)
  finally show ?thesis
    using False read unfolding combine_def flat Let_def fields_and
    by (auto simp: Inter_eq)
qed

lemma exclude_eq:
  assumes "addressable um lim content" "lim \<le> um"
    and h: "\<forall>c \<in> set (rf_excludes flt). holds (S c) (fst (rng c)) (snd (rng c))"
  shows "exclude_union um deser fetch rng flt = Ok {d. \<exists>c \<in> set (rf_excludes flt). d \<in> docs (S c)}"
proof -
  have "foldM_o (\<lambda>x bytes. map_ok ((\<union>) x) (deserialize deser bytes)) {} (map (\<lambda>c. assemble (S c)) (rf_excludes flt))
      = foldM_o (\<lambda>x c. map_ok ((\<union>) x) (deserialize deser (assemble (S c)))) {} (rf_excludes flt)"
    by (rule foldM_o_cong_map [symmetric]) simp
  also have "\<dots> = Ok ({} \<union> \<Union>((\<lambda>c. docs (S c)) ` set (rf_excludes flt)))"
    using h by (intro union_fold deserialize_assemble) (auto simp: holds_iff)
  finally show ?thesis
    using read_postings [OF assms] by (auto simp: exclude_union_def)
qed

text \<open>Both sides of the filter.\<close>

lemma sides:
  assumes "filter_holds cont flt"
  shows "head_bitmap um deser fetch flt
      = Ok (if rf_fields flt = [] then {} else {d. d < 65536 \<and> fields_pass cont flt d})" (is ?h)
    and "tail_bitmap um deser fetch flt
      = Ok (if rf_fields flt = [] then {} else {d. 65536 \<le> d \<and> fields_pass cont flt d})" (is ?t)
    and "exclude_union um deser fetch head_range flt = Ok {d. d < 65536 \<and> excluded cont flt d}" (is ?xh)
    and "exclude_union um deser fetch tail_range flt = Ok {d. 65536 \<le> d \<and> excluded cont flt d}" (is ?xt)
proof -
  have ad: "addressable um lim content" "lim \<le> um" using assms by (simp_all add: filter_holds_def)
  have cat: "cat_holds cont c" if "(\<exists>cats \<in> set (rf_fields flt). c \<in> set cats) \<or> c \<in> set (rf_excludes flt)" for c
    using assms that by (auto simp: filter_holds_def filter_cats_def)
  then have split: "cat_split cont c" if "(\<exists>cats \<in> set (rf_fields flt). c \<in> set cats) \<or> c \<in> set (rf_excludes flt)" for c
    using that by (simp add: cat_holds_def)
  have hd: "d \<in> docs (fst (cont c)) \<longleftrightarrow> d < 65536 \<and> d \<in> cat_docs cont c"
    and tl: "d \<in> docs (snd (cont c)) \<longleftrightarrow> 65536 \<le> d \<and> d \<in> cat_docs cont c"
    if "(\<exists>cats \<in> set (rf_fields flt). c \<in> set cats) \<or> c \<in> set (rf_excludes flt)" for d c
    using cat_side [OF split [OF that], of d] split [OF that] by (auto simp: cat_split_def)
  have fh: "(\<exists>c \<in> set cats. d \<in> docs (fst (cont c))) \<longleftrightarrow> d < 65536 \<and> (\<exists>c \<in> set cats. d \<in> cat_docs cont c)"
    and ft: "(\<exists>c \<in> set cats. d \<in> docs (snd (cont c))) \<longleftrightarrow> 65536 \<le> d \<and> (\<exists>c \<in> set cats. d \<in> cat_docs cont c)"
    if "cats \<in> set (rf_fields flt)" for d cats
    using hd tl that by blast+
  have ne: "\<exists>cats. cats \<in> set (rf_fields flt)" if "rf_fields flt \<noteq> []" using that hd_in_set by blast
  show ?h
    unfolding head_bitmap_def
  proof (subst combine_eq [OF ad, where S = "\<lambda>c. fst (cont c)"])
    show "\<forall>cats \<in> set (rf_fields flt). \<forall>c \<in> set cats. holds (fst (cont c)) (fst (head_range c)) (snd (head_range c))"
      using cat unfolding cat_holds_def head_range_def fst_conv snd_conv by blast
    show "Ok (if rf_fields flt = [] then {} else {d. \<forall>cats \<in> set (rf_fields flt). \<exists>c \<in> set cats. d \<in> docs (fst (cont c))})
      = Ok (if rf_fields flt = [] then {} else {d. d < 65536 \<and> fields_pass cont flt d})"
      using ne by (auto simp: fields_pass_def fh)
  qed
  show ?t
    unfolding tail_bitmap_def
  proof (subst combine_eq [OF ad, where S = "\<lambda>c. snd (cont c)"])
    show "\<forall>cats \<in> set (rf_fields flt). \<forall>c \<in> set cats. holds (snd (cont c)) (fst (tail_range c)) (snd (tail_range c))"
      using cat unfolding cat_holds_def tail_range_def fst_conv snd_conv by blast
    show "Ok (if rf_fields flt = [] then {} else {d. \<forall>cats \<in> set (rf_fields flt). \<exists>c \<in> set cats. d \<in> docs (snd (cont c))})
      = Ok (if rf_fields flt = [] then {} else {d. 65536 \<le> d \<and> fields_pass cont flt d})"
      using ne by (auto simp: fields_pass_def ft)
  qed
  show ?xh
    using cat by (subst exclude_eq [OF ad, where S = "\<lambda>c. fst (cont c)"])
       (auto simp: cat_holds_def head_range_def excluded_def hd)
  show ?xt
    using cat by (subst exclude_eq [OF ad, where S = "\<lambda>c. snd (cont c)"])
       (auto simp: cat_holds_def tail_range_def excluded_def tl)
qed

lemma apply_head_eq:
  assumes "filter_holds cont flt" "\<forall>d \<in> R. d < 65536"
  shows "apply_head um deser fetch flt R = Ok {d \<in> R. passes cont flt d}"
  using assms(2) by (auto simp: apply_head_def sides [OF assms(1)] passes_def fields_pass_def excluded_def)

lemma apply_tail_eq:
  assumes "filter_holds cont flt" "\<forall>d \<in> R. 65536 \<le> d"
  shows "apply_tail um deser fetch flt R = Ok {d \<in> R. passes cont flt d}"
  using assms(2) by (auto simp: apply_tail_def sides [OF assms(1)] passes_def fields_pass_def excluded_def)

lemma full_bitmap_eq:
  assumes "filter_holds cont flt"
  shows "full_bitmap um deser fetch flt = Ok (if rf_fields flt = [] then {} else {d. passes cont flt d})"
  by (auto simp: full_bitmap_def sides [OF assms] join2_def passes_def excluded_def)

text \<open>The candidate-aware reads answer the same questions about the candidates.\<close>

lemma membership_part_eq:
  assumes c: "cat_holds cont c" and ids: "finite ids" "\<forall>d \<in> ids. d < U32"
  defines "keys \<equiv> distinct_high_keys ids"
  shows "\<exists>P. membership_part um deser fetch (keys \<noteq> [] \<and> hd keys = 0) (filter (\<lambda>k. k \<noteq> 0) keys) c = Ok P
    \<and> (\<forall>d \<in> ids. d \<in> P \<longleftrightarrow> d \<in> cat_docs cont c)"
proof -
  have keys: "set keys = high_key ` ids" "sorted_wrt (<) keys" unfolding keys_def by (rule distinct_high_keys_set [OF ids])+
  let ?tk = "filter (\<lambda>k. k \<noteq> 0) keys" and ?need = "keys \<noteq> [] \<and> hd keys = 0"
  have h: "holds (fst (cont c)) (cr_head_off c) (cr_head_size c)" and t: "holds (snd (cont c)) (cr_tail_off c) (cr_tail_size c)"
    and split: "cat_split cont c" using c by (simp_all add: cat_holds_def)
  have pos: "0 < n" if "holds sel off n" for sel off n
    using holds_length [OF that] by (simp add: length_assemble data_start_def)
  have zero: "?need" if "d \<in> ids" "d < 65536" for d
  proof -
    have "0 \<in> set keys" using that keys(1) by (metis div_less image_eqI)
    then show ?thesis using keys(2) by (cases keys) auto
  qed
  have head: "(if ?need \<and> cr_head_size c > 0 then bind_o (rd fetch (cr_head_off c) (cr_head_size c)) (deserialize deser) else Ok {})
      = Ok (if ?need then docs (fst (cont c)) else {})"
    using holds_whole [OF h] h pos [OF h] by (simp add: holds_iff deserialize_assemble del: rd_Ok_iff deserialize_Ok)
  have "sorted ?tk" using keys(2) by (intro strict_sorted_imp_sorted sorted_wrt_filter)
  note sub = read_subset [OF t this]
  define T where "T = (if ?tk = [] then {} else if cr_tail_size c \<le> header_prefix then docs (snd (cont c))
      else {d \<in> docs (snd (cont c)). high_key d \<in> set ?tk})"
  have tail: "(if ?tk \<noteq> [] \<and> cr_tail_size c > 0 then read_posting_subset um deser fetch (cr_tail_off c) (cr_tail_size c) ?tk else Ok {}) = Ok T"
    using sub pos [OF t] by (simp add: T_def)
  have hk: "high_key d \<in> set ?tk" if "d \<in> ids" "65536 \<le> d" for d
    using that keys(1) by (simp add: div_greater_zero_iff)
  have "d \<in> (if ?need then docs (fst (cont c)) else {}) \<union> T \<longleftrightarrow> d \<in> cat_docs cont c" if d: "d \<in> ids" for d
  proof (cases "d < 65536")
    case True
    then have "d \<notin> T" using split by (auto simp: T_def cat_split_def split: if_split_asm)
    then show ?thesis using zero [OF d True] cat_side(1) [OF split True] by simp
  next
    case False
    then have "?tk \<noteq> []" using hk [OF d] by (metis not_less empty_iff list.set(1))
    then have "d \<in> T \<longleftrightarrow> d \<in> docs (snd (cont c))" using hk [OF d] False by (auto simp: T_def)
    moreover have "d \<notin> docs (fst (cont c))" using split False by (auto simp: cat_split_def)
    ultimately show ?thesis using cat_side(2) [OF split, of d] False by auto
  qed
  moreover have "membership_part um deser fetch ?need ?tk c = Ok ((if ?need then docs (fst (cont c)) else {}) \<union> T)"
    unfolding membership_part_def head tail by simp
  ultimately show ?thesis by blast
qed

lemma membership_eq:
  assumes f: "filter_holds cont flt" and ids: "finite ids" "\<forall>d \<in> ids. d < U32"
  shows "membership_bitmap um deser fetch flt ids = Ok {d \<in> ids. passes cont flt d}"
proof (cases "ids = {} \<or> has_empty_arm flt")
  case True
  then show ?thesis using empty_arm_passes [of flt cont] by (auto simp: membership_bitmap_def passes_def)
next
  case False
  let ?keys = "distinct_high_keys ids"
  let ?part = "membership_part um deser fetch (?keys \<noteq> [] \<and> hd ?keys = 0) (filter (\<lambda>k. k \<noteq> 0) ?keys)"
  let ?fl = "rf_fields flt" and ?ex = "rf_excludes flt"
  have "\<forall>c \<in> filter_cats flt. \<exists>P. ?part c = Ok P \<and> (\<forall>d \<in> ids. d \<in> P \<longleftrightarrow> d \<in> cat_docs cont c)"
    using f membership_part_eq [OF _ ids] by (simp add: filter_holds_def)
  then obtain P where P: "\<And>c. c \<in> filter_cats flt \<Longrightarrow> ?part c = Ok (P c)"
    "\<And>c d. c \<in> filter_cats flt \<Longrightarrow> d \<in> ids \<Longrightarrow> d \<in> P c \<longleftrightarrow> d \<in> cat_docs cont c"
    by (metis bchoice)
  have flat: "concat (map (\<lambda>(fi, cats). map (Pair fi) cats) (enumerate 0 ?fl)) = cells (\<lambda>c. c) ?fl"
    by (simp add: cells_def case_prod_unfold)
  have cat: "c \<in> filter_cats flt" if "(fi, c) \<in> set (cells (\<lambda>c. c) ?fl)" for fi c
    using that by (force simp: cells_set filter_cats_def)
  have parts: "map (\<lambda>(fi, c). map_ok (Pair fi) (?part c)) (cells (\<lambda>c. c) ?fl) = map Ok (cells P ?fl)"
  proof -
    have "map (\<lambda>(fi, c). map_ok (Pair fi) (?part c)) (cells (\<lambda>c. c) ?fl) = map Ok (map (\<lambda>(fi, c). (fi, P c)) (cells (\<lambda>c. c) ?fl))"
      using P(1) [OF cat] by (auto simp: map_ok_Ok_iff)
    then show ?thesis unfolding cells_map .
  qed
  have join: "join_all (\<lambda>(fi, c). map_ok (Pair fi) (?part c)) (cells (\<lambda>c. c) ?fl) = Ok (map Ok (cells P ?fl))"
    unfolding join_all_def parts using P(1) [OF cat] by (auto simp: list_ex_iff)
  have "foldM_o (\<lambda>per r. bind_o r (\<lambda>(fi, bm). or_into per fi bm)) (replicate (length ?fl) {}) (map Ok (cells P ?fl))
      = foldM_o (\<lambda>per (fi, bm). or_into per fi bm) (replicate (length ?fl) {}) (cells P ?fl)"
    by (rule foldM_o_cong_map [symmetric]) simp
  also have "\<dots> = Ok (map (\<lambda>cats. \<Union>(P ` set cats)) ?fl)" by (rule or_cells)
  finally have per: "foldM_o (\<lambda>per r. bind_o r (\<lambda>(fi, bm). or_into per fi bm)) (replicate (length ?fl) {}) (map Ok (cells P ?fl))
      = Ok (map (\<lambda>cats. \<Union>(P ` set cats)) ?fl)" .
  have acc: "inter_loop ids (sort_key card (map (\<lambda>cats. \<Union>(P ` set cats)) ?fl)) = {d \<in> ids. fields_pass cont flt d}"
  proof -
    have "c \<in> filter_cats flt" if "cats \<in> set ?fl" "c \<in> set cats" for cats c using that by (auto simp: filter_cats_def)
    then have "d \<in> \<Union>(P ` set cats) \<longleftrightarrow> (\<exists>c \<in> set cats. d \<in> cat_docs cont c)" if "cats \<in> set ?fl" "d \<in> ids" for cats d
      using P(2) that by blast
    then show ?thesis unfolding inter_loop_eq fields_pass_def by auto
  qed
  have xs: "join_all ?part ?ex = Ok (map (\<lambda>c. Ok (P c)) ?ex)"
    using P(1) by (auto simp: join_all_def list_ex_iff filter_cats_def)
  have "foldM_o (\<lambda>x r. map_ok ((\<union>) x) r) {} (map (\<lambda>c. Ok (P c)) ?ex) = foldM_o (\<lambda>x c. map_ok ((\<union>) x) (Ok (P c))) {} ?ex"
    by (rule foldM_o_cong_map [symmetric]) simp
  also have "\<dots> = Ok ({} \<union> \<Union>(P ` set ?ex))" by (rule union_fold) simp
  finally have x: "foldM_o (\<lambda>x r. map_ok ((\<union>) x) r) {} (map (\<lambda>c. Ok (P c)) ?ex) = Ok (\<Union>(P ` set ?ex))" by simp
  have "d \<in> \<Union>(P ` set ?ex) \<longleftrightarrow> excluded cont flt d" if "d \<in> ids" for d
    using P(2) that by (auto simp: excluded_def filter_cats_def)
  then have "{d \<in> ids. fields_pass cont flt d} - \<Union>(P ` set ?ex) = {d \<in> ids. passes cont flt d}"
    by (auto simp: passes_def)
  moreover have "{d \<in> ids. fields_pass cont flt d} = {d \<in> ids. passes cont flt d}"
    if "?ex = [] \<or> {d \<in> ids. fields_pass cont flt d} = {}"
    using that by (auto simp: passes_def excluded_def)
  moreover have "membership_bitmap um deser fetch flt ids
      = (if ?ex \<noteq> [] \<and> {d \<in> ids. fields_pass cont flt d} \<noteq> {}
         then Ok ({d \<in> ids. fields_pass cont flt d} - \<Union>(P ` set ?ex)) else Ok {d \<in> ids. fields_pass cont flt d})"
    unfolding membership_bitmap_def Let_def flat using False
    by (simp only: if_False join bind_o.simps per acc xs x)
  ultimately show ?thesis by (cases "?ex \<noteq> [] \<and> {d \<in> ids. fields_pass cont flt d} \<noteq> {}") (simp_all only: if_True if_False simp_thms de_Morgan_conj not_not)
qed

end

interpretation mfilter: posting_store "mem_read um (mem_new bs)" bs um format_decode format_encode um for um bs
  by unfold_locales

section \<open>No bytes make a filter panic\<close>

lemma or_into_Ok: "fi < length per \<Longrightarrow> or_into per fi bm = Ok (per[fi := per ! fi \<union> bm])"
  by (simp add: or_into_def)

lemma cells_index: "\<forall>x \<in> set (cells g flds). fst x < length flds"
  by (auto simp: cells_set)

lemma or_fold_no_panic:
  assumes "\<And>x. x \<in> set items \<Longrightarrow> r x \<noteq> Panic \<and> (\<forall>fi bm. r x = Ok (fi, bm) \<longrightarrow> fi < length per)"
  shows "foldM_o (\<lambda>per x. bind_o (r x) (\<lambda>(fi, bm). or_into per fi bm)) per items \<noteq> Panic"
  using assms
proof (induction items arbitrary: per)
  case (Cons x items)
  show ?case
  proof (cases "r x")
    case (Ok y)
    obtain fi bm where y: "y = (fi, bm)" by fastforce
    then have fi: "fi < length per" using Cons.prems [of x] Ok by simp
    have "foldM_o (\<lambda>per x. bind_o (r x) (\<lambda>(fi, bm). or_into per fi bm)) (per[fi := per ! fi \<union> bm]) items \<noteq> Panic"
      by (rule Cons.IH) (use Cons.prems in fastforce)
    then show ?thesis using Ok y fi by (simp add: or_into_Ok)
  qed (use Cons.prems [of x] in auto)
qed simp

definition tails_fit :: "nat \<Rightarrow> nat \<Rightarrow> filter_spec \<Rightarrow> bool" where
  "tails_fit um n flt \<longleftrightarrow> (\<forall>c \<in> filter_cats flt. range_fits um n (tail_range c))"

context range_fetch
begin

lemma combine_no_panic: "combine um deser fetch rng flt \<noteq> Panic"
proof -
  let ?fl = "rf_fields flt"
  have flat: "concat (map (\<lambda>(fi, cats). map (\<lambda>c. (fi, rng c)) cats) (enumerate 0 ?fl)) = cells rng ?fl"
    by (simp add: cells_def)
  have "foldM_o (\<lambda>per ((fi, _), bytes). bind_o (deserialize deser bytes) (or_into per fi))
      (replicate (length ?fl) {}) (zip (cells rng ?fl) datas) \<noteq> Panic" for datas
  proof -
    have "foldM_o (\<lambda>per x. bind_o (map_ok (Pair (fst (fst x))) (deserialize deser (snd x))) (\<lambda>(fi, bm). or_into per fi bm))
        (replicate (length ?fl) {}) (zip (cells rng ?fl) datas) \<noteq> Panic"
      using cells_index [of rng ?fl] by (intro or_fold_no_panic) (fastforce dest: set_zip_leftD simp: map_ok_Ok_iff)
    moreover have "bind_o (map_ok (Pair (fst (fst x))) (deserialize deser (snd x))) (\<lambda>(fi, bm). or_into per fi bm)
        = (case x of ((fi, _), bytes) \<Rightarrow> bind_o (deserialize deser bytes) (or_into per fi))" for per and x :: "(nat \<times> nat \<times> nat) \<times> bytes"
    proof -
      obtain fi rg bytes where x: "x = ((fi, rg), bytes)" by (metis prod.exhaust)
      show ?thesis unfolding x by (cases "deserialize deser bytes") (simp_all del: deserialize_Ok)
    qed
    ultimately show ?thesis by (simp add: case_prod_unfold)
  qed
  then show ?thesis
    using coalesced_no_panic by (auto simp: combine_def flat Let_def bind_o_Panic_iff)
qed

lemma exclude_no_panic: "exclude_union um deser fetch rng flt \<noteq> Panic"
  using coalesced_no_panic by (auto simp: exclude_union_def bind_o_Panic_iff intro!: foldM_o_not_Panic)

lemma apply_no_panic:
  "apply_head um deser fetch flt R \<noteq> Panic" "apply_tail um deser fetch flt R \<noteq> Panic"
  "full_bitmap um deser fetch flt \<noteq> Panic"
  using combine_no_panic exclude_no_panic
  by (auto simp: apply_head_def apply_tail_def full_bitmap_def head_bitmap_def tail_bitmap_def join2_def bind_o_Panic_iff)

lemma membership_no_panic:
  assumes "tails_fit um (length content) flt"
  shows "membership_bitmap um deser fetch flt ids \<noteq> Panic"
proof -
  let ?fl = "rf_fields flt"
  have part: "membership_part um deser fetch need tk c \<noteq> Panic" if "c \<in> filter_cats flt" for need tk c
    using assms that read_posting_subset_no_panic [of um "cr_tail_off c" "cr_tail_size c"] read_full_total
    by (auto simp: tails_fit_def tail_range_def membership_part_def bind_o_Panic_iff)
  have flat: "concat (map (\<lambda>(fi, cats). map (Pair fi) cats) (enumerate 0 ?fl)) = cells (\<lambda>c. c) ?fl"
    by (simp add: cells_def case_prod_unfold)
  have cat: "c \<in> filter_cats flt" if "(fi, c) \<in> set (cells (\<lambda>c. c) ?fl)" for fi c
    using that by (force simp: cells_set filter_cats_def)
  have "join_all (\<lambda>(fi, c). map_ok (Pair fi) (membership_part um deser fetch need tk c)) (cells (\<lambda>c. c) ?fl) \<noteq> Panic" for need tk
    using part cat by (auto simp: join_all_def list_ex_iff)
  moreover have "foldM_o (\<lambda>per r. bind_o r (\<lambda>(fi, bm). or_into per fi bm)) (replicate (length ?fl) {})
      (map (\<lambda>(fi, c). map_ok (Pair fi) (membership_part um deser fetch need tk c)) (cells (\<lambda>c. c) ?fl)) \<noteq> Panic" for need tk
    using part cat by (intro or_fold_no_panic) (auto simp: map_ok_Ok_iff cells_set)
  moreover have "join_all (membership_part um deser fetch need tk) (rf_excludes flt) \<noteq> Panic" for need tk
    using part by (auto simp: join_all_def list_ex_iff filter_cats_def)
  moreover have "foldM_o (\<lambda>x r. map_ok ((\<union>) x) r) {} (map (membership_part um deser fetch need tk) (rf_excludes flt)) \<noteq> Panic" for need tk
    using part by (intro foldM_o_not_Panic) (auto simp: filter_cats_def)
  ultimately show ?thesis
    unfolding membership_bitmap_def flat Let_def
    by (auto simp: bind_o_Panic_iff join_all_def split: if_split_asm)
qed

end

section \<open>Properties\<close>

text \<open>
  C12: \<open>threshold\<close> is counting: whichever of its paths runs (union for one posting, smallest-first
  intersection for all, cascading counters in between) it returns the documents that at least
  \<open>min_match\<close> of the postings hold, and \<open>None\<close> when there are none, no posting or no threshold.
\<close>

theorem threshold_counts:
  "threshold bitmaps min_match
   = (if bitmaps = [] \<or> min_match = 0 then None else none_if_empty {d. min_match \<le> length (filter (\<lambda>b. d \<in> b) bitmaps)})"
  using threshold_eq [of bitmaps min_match] by (simp add: hits_def)

definition filter_stored :: "bytes \<Rightarrow> contents \<Rightarrow> filter_spec \<Rightarrow> bool" where
  "filter_stored bs cont flt \<longleftrightarrow> (\<forall>c \<in> filter_cats flt.
     stored bs (fst (cont c)) (cr_head_off c) (cr_head_size c)
     \<and> stored bs (snd (cont c)) (cr_tail_off c) (cr_tail_size c) \<and> cat_split cont c)"

lemma filter_stored_holds:
  assumes st: "posting_store fetch bs um deser ser" and "length bs + span_gap < um" "um \<le> U64" "filter_stored bs cont flt"
  shows "posting_store.filter_holds bs um um cont flt"
proof -
  have "addressable um um bs" using assms(2,3) by (simp add: addressable_def)
  then show ?thesis using assms(4)
    by (simp add: posting_store.filter_holds_def [OF st] posting_store.cat_holds_def [OF st] posting_store.holds_def [OF st] filter_stored_def)
qed

text \<open>
  C13: One predicate decides every use of a facet filter: a document passes when each selected
  field has a category that holds it and no excluded category does.  The head side applied to
  eager results, the tail side applied to later results, the bucket-wise membership test of a
  candidate set and (when something is included) the full bitmap all keep exactly those documents;
  an exclude-only filter has an empty full bitmap.
\<close>

theorem filter_exact:
  assumes "roaring deser ser" "length bs + span_gap < um" "um \<le> U64" "filter_stored bs cont flt"
    and "\<forall>d \<in> H. d < 65536" "\<forall>d \<in> T. 65536 \<le> d" "finite ids" "\<forall>d \<in> ids. d < U32"
  shows "apply_head um deser (mem_read um (mem_new bs)) flt H = Ok {d \<in> H. passes cont flt d}
    \<and> apply_tail um deser (mem_read um (mem_new bs)) flt T = Ok {d \<in> T. passes cont flt d}
    \<and> membership_bitmap um deser (mem_read um (mem_new bs)) flt ids = Ok {d \<in> ids. passes cont flt d}
    \<and> full_bitmap um deser (mem_read um (mem_new bs)) flt
        = Ok (if rf_fields flt = [] then {} else {d. passes cont flt d})"
proof -
  have st: "posting_store (mem_read um (mem_new bs)) bs um deser ser"
    by (intro posting_store.intro memf.full_fetch_axioms assms(1))
  note h = filter_stored_holds [OF st assms(2-4)]
  show ?thesis
    using posting_store.apply_head_eq [OF st h assms(5)] posting_store.apply_tail_eq [OF st h assms(6)]
      posting_store.membership_eq [OF st h assms(7,8)] posting_store.full_bitmap_eq [OF st h] by blast
qed

text \<open>A category of the witnesses: documents 1 and 5 in its head, 196617 and 262146 in its tail.\<close>

definition demo_head :: "piece list" where
  "demo_head = [Piece 0 2 [1, 0, 5, 0]]"

definition demo_facets :: bytes where
  "demo_facets = assemble demo_head @ assemble demo_b"

definition demo_cat :: cat_range where
  "demo_cat = \<lparr>cr_head_off = 0, cr_head_size = 20, cr_tail_off = 20, cr_tail_size = 28\<rparr>"

definition demo_contents :: contents where
  "demo_contents c = (demo_head, demo_b)"

lemma demo_head_facts: "well_formed demo_head" "docs demo_head = {1, 5}" "length (assemble demo_head) = 20"
  by (simp_all add: demo_head_def well_formed_def piece_ok_def body_ok_def docs_def piece_docs_def length_assemble data_start_def format_eval)

lemma demo_filter_stored:
  assumes "filter_cats flt \<subseteq> {demo_cat}"
  shows "filter_stored demo_facets demo_contents flt"
proof -
  have "cut (assemble demo_head @ assemble demo_b) 0 20 = assemble demo_head"
    using cut_append_left [of 20 "assemble demo_head" "assemble demo_b" 0] cut_full [of "assemble demo_head"]
    by (simp add: demo_head_facts)
  moreover have "cut (assemble demo_head @ assemble demo_b) 20 48 = assemble demo_b"
    using cut_append_right [of "assemble demo_head" 20 "assemble demo_b" 48] cut_full [of "assemble demo_b"]
    by (simp add: demo_lengths demo_head_facts)
  ultimately have "stored demo_facets demo_head 0 20" "stored demo_facets demo_b 20 28"
    using demo_well_formed demo_head_facts demo_lengths by (simp_all add: stored_def demo_facets_def)
  moreover have "cat_split demo_contents demo_cat" by (simp add: cat_split_def demo_contents_def demo_docs demo_head_facts)
  ultimately show ?thesis using assms by (auto simp: filter_stored_def demo_contents_def demo_cat_def)
qed

lemma filter_exact_witness:
  "membership_bitmap U32 format_decode (mem_read U32 (mem_new demo_facets))
     \<lparr>rf_fields = [[demo_cat]], rf_excludes = []\<rparr> {5, 6, 262146} = Ok {5, 262146}"
proof -
  let ?flt = "\<lparr>rf_fields = [[demo_cat]], rf_excludes = []\<rparr>"
  have st: "filter_stored demo_facets demo_contents ?flt" by (rule demo_filter_stored) (simp add: filter_cats_def)
  have sp: "length demo_facets + span_gap < U32"
    by (simp add: demo_facets_def demo_lengths demo_head_facts span_gap_def)
  have "{d \<in> {5, 6, 262146}. passes demo_contents ?flt d} = {5, 262146}"
    by (auto simp: passes_def fields_pass_def excluded_def cat_docs_def demo_contents_def demo_docs demo_head_facts)
  then show ?thesis
    using filter_exact [OF format.roaring_axioms sp _ st, of "{}" "{}" "{5, 6, 262146}"] by simp
qed

text \<open>
  No facet file makes a filter panic: over any fetcher that does not panic itself and with any
  deserialiser, applying a filter to head or tail results, building its full bitmap and testing the
  membership of candidates end in an answer or an error.
\<close>

lemma filter_hostile_safe:
  assumes "range_fetch f content" "tails_fit um (length content) flt"
  shows "apply_head um deser f flt R \<noteq> Panic \<and> apply_tail um deser f flt R \<noteq> Panic
    \<and> full_bitmap um deser f flt \<noteq> Panic \<and> membership_bitmap um deser f flt ids \<noteq> Panic"
  using range_fetch.apply_no_panic [OF assms(1)] range_fetch.membership_no_panic [OF assms] by blast

end
