(* ===== verification/RR_Cursor.thy ===== *)
theory RR_Cursor imports RR_Filter RR_Build begin

text \<open>
  \<open>Cursor\<close> of \<open>rust/src/index.rs\<close>: the pagination cursor that \<open>search_cursor_filtered\<close> builds.  It
  holds the head results and fetches the tail when a page reaches past it: window by window for a
  strict AND (at most \<open>TAIL_WINDOWS_PER_CALL\<close> per call), in one load for a fuzzy threshold.  Every
  method takes \<open>&mut self\<close>, so it is a step of a state that survives an error.

  Shown: over a well-formed index every page is a slice of one ascending list, the filtered
  threshold result, of which the cursor always holds a prefix; \<open>load_tail\<close> terminates with all of
  it; what a failed window does to a cursor.
\<close>

section \<open>Steps of a mutable object\<close>

type_synonym ('s, 'a) step = "'s \<Rightarrow> 'a ires \<times> 's"

definition step_return :: "'a \<Rightarrow> ('s, 'a) step" where
  "step_return x = (\<lambda>s. (Ok x, s))"

definition step_lift :: "'a ires \<Rightarrow> ('s, 'a) step" where
  "step_lift r = (\<lambda>s. (r, s))"

definition step_bind :: "('s, 'a) step \<Rightarrow> ('a \<Rightarrow> ('s, 'b) step) \<Rightarrow> ('s, 'b) step" where
  "step_bind m k = (\<lambda>s. case m s of
     (Ok x, s') \<Rightarrow> k x s'
   | (Err e, s') \<Rightarrow> (Err e, s')
   | (Panic, s') \<Rightarrow> (Panic, s'))"

definition step_modify :: "('s \<Rightarrow> 's) \<Rightarrow> ('s, unit) step" where
  "step_modify f = (\<lambda>s. (Ok (), f s))"

definition step_gets :: "('s \<Rightarrow> ('s, 'a) step) \<Rightarrow> ('s, 'a) step" where
  "step_gets f = (\<lambda>s. f s s)"

lemmas step_defs = step_return_def step_lift_def step_bind_def step_modify_def step_gets_def

lemma step_run [simp]:
  "step_bind (step_lift (Ok x)) k s = k x s"
  "step_bind (step_return x) k s = k x s"
  "step_bind (step_modify f) h s = h () (f s)"
  "step_modify f s = (Ok (), f s)"
  "step_return x s = (Ok x, s)"
  by (simp_all add: step_defs)

lemma step_assoc [simp]: "step_bind (step_bind m k) h = step_bind m (\<lambda>x. step_bind (k x) h)"
  by (rule ext) (auto simp: step_bind_def split: outcome.splits prod.splits)

section \<open>The cursor\<close>

definition tail_windows_per_call :: nat where
  "tail_windows_per_call = 12"

record cursor =
  cu_recs :: "dict_rec list"
  cu_min_match :: nat
  cu_filter :: "filter_spec option"
  cu_head :: "nat set"
  cu_results :: "nat list"
  cu_pos :: nat
  cu_tail_done :: bool
  cu_scan :: "tail_scan option"
  cu_tried :: bool

definition cursor_empty :: cursor where
  "cursor_empty = \<lparr>cu_recs = [], cu_min_match = 1, cu_filter = None, cu_head = {}, cu_results = [],
     cu_pos = 0, cu_tail_done = True, cu_scan = None, cu_tried = True\<rparr>"

definition resolve_present :: "nat \<Rightarrow> range_read \<Rightarrow> index \<Rightarrow> nat list \<Rightarrow> dict_rec list ires" where
  "resolve_present um f ix keys =
     bind_o (mapM_o (dict_block_for ix) keys) (\<lambda>bs.
     let present = map (\<lambda>(k, b). (k, the b)) (filter (\<lambda>(k, b). b \<noteq> None) (zip keys bs)) in
     bind_o (read_dict_blocks um f (map snd present)) (\<lambda>(datas, which).
     foldM_o (\<lambda>recs (j, (key, block)).
         map_ok (\<lambda>r. case r of Some rec \<Rightarrow> recs @ [rec] | None \<Rightarrow> recs) (parse_shared um datas which j block key))
       [] (enumerate 0 present)))"

definition search_cursor_filtered ::
  "nat \<Rightarrow> deserializer \<Rightarrow> range_read \<Rightarrow> range_read \<Rightarrow> index \<Rightarrow> nat list \<Rightarrow> nat \<Rightarrow> filter_spec option \<Rightarrow> cursor ires" where
  "search_cursor_filtered um deser f ff ix keys max_missing flt =
     (if (case flt of None \<Rightarrow> False | Some fl \<Rightarrow> has_empty_arm fl) then Ok cursor_empty
      else
        let min_match = max 1 (length keys - max_missing) in
        bind_o (resolve_present um f ix keys) (\<lambda>recs.
        if length recs < min_match then Ok cursor_empty
        else
          bind_o (fetch_head_prefixes um deser f recs) (\<lambda>heads.
          let head_result = unwrap_or_default (threshold heads min_match);
              flt = (case flt of None \<Rightarrow> None | Some fl \<Rightarrow> if filter_is_empty fl then None else Some fl) in
          bind_o (case flt of None \<Rightarrow> Ok head_result | Some fl \<Rightarrow> apply_head um deser ff fl head_result) (\<lambda>head_result.
          Ok \<lparr>cu_recs = recs, cu_min_match = min_match, cu_filter = flt, cu_head = head_result,
              cu_results = sorted_list_of_set head_result, cu_pos = 0, cu_tail_done = False,
              cu_scan = None, cu_tried = False\<rparr>))))"

definition search_cursor ::
  "nat \<Rightarrow> deserializer \<Rightarrow> range_read \<Rightarrow> range_read \<Rightarrow> index \<Rightarrow> nat list \<Rightarrow> nat \<Rightarrow> cursor ires" where
  "search_cursor um deser f ff ix keys max_missing =
     search_cursor_filtered um deser f ff ix keys max_missing None"

text \<open>The public entry point takes the query text.\<close>

definition search_cursor_query ::
  "nat \<Rightarrow> deserializer \<Rightarrow> (uchar \<Rightarrow> general_category) \<Rightarrow> (uchar \<Rightarrow> ustring) \<Rightarrow> range_read \<Rightarrow> range_read \<Rightarrow> index
   \<Rightarrow> ustring \<Rightarrow> nat \<Rightarrow> filter_spec option \<Rightarrow> cursor ires" where
  "search_cursor_query um deser gc lower f ff ix query max_missing flt =
     search_cursor_filtered um deser f ff ix (query_keys gc lower ix query) max_missing flt"

section \<open>Materialising results\<close>

definition extend_results :: "nat set \<Rightarrow> cursor \<Rightarrow> cursor" where
  "extend_results bm cu = cu\<lparr>cu_results := cu_results cu @ sorted_list_of_set bm\<rparr>"

text \<open>The fetcher a filter carries, as \<open>ensure\<close> hands it to the scan.\<close>

definition facet_fetch :: "range_read \<Rightarrow> cursor \<Rightarrow> range_read option" where
  "facet_fetch ff cu = (case cu_filter cu of None \<Rightarrow> None | Some _ \<Rightarrow> Some ff)"

definition cursor_ranges :: "cursor \<Rightarrow> (nat \<times> nat) list" where
  "cursor_ranges cu = map (\<lambda>rec. (dr_off rec, dr_size rec)) (cu_recs cu)"

definition open_scan :: "nat \<Rightarrow> range_read \<Rightarrow> range_read \<Rightarrow> (cursor, unit) step" where
  "open_scan um f ff = step_gets (\<lambda>cu.
     let facet_fields = (case cu_filter cu of None \<Rightarrow> [] | Some fl \<Rightarrow> map (map tail_range) (rf_fields fl));
         exclude_ranges = (case cu_filter cu of None \<Rightarrow> [] | Some fl \<Rightarrow> map tail_range (rf_excludes fl)) in
     step_bind (step_lift (tail_scan_open um f (cursor_ranges cu) (facet_fetch ff cu) facet_fields exclude_ranges eager_buckets))
       (\<lambda>scan. step_modify (\<lambda>cu. cu\<lparr>cu_scan := scan, cu_tried := True\<rparr>)))"

text \<open>
  \<open>while results.len() < need && !scan.exhausted() && windows > 0\<close>, with the first-paint break
  once something new came up and two windows are spent.  The scan is out of the cursor
  (\<open>tail_scan.take()\<close>) while the loop runs.
\<close>

fun scan_windows ::
  "nat \<Rightarrow> deserializer \<Rightarrow> range_read \<Rightarrow> range_read \<Rightarrow> nat \<Rightarrow> nat \<Rightarrow> nat \<Rightarrow> tail_scan \<Rightarrow> (cursor, tail_scan) step" where
  "scan_windows um deser f ff need start_len 0 scan = step_return scan"
| "scan_windows um deser f ff need start_len (Suc left) scan = step_gets (\<lambda>cu.
     if length (cu_results cu) < need \<and> \<not> exhausted scan then
       step_bind (step_lift (next_window um deser f (facet_fetch ff cu) tail_key_batch scan)) (\<lambda>(win, scan').
       step_bind (step_modify (extend_results win)) (\<lambda>_.
       step_gets (\<lambda>cu.
         if length (cu_results cu) > start_len \<and> left \<le> tail_windows_per_call - 2 then step_return scan'
         else scan_windows um deser f ff need start_len left scan')))
     else step_return scan)"

definition whole_tail :: "nat \<Rightarrow> deserializer \<Rightarrow> range_read \<Rightarrow> range_read \<Rightarrow> (cursor, unit) step" where
  "whole_tail um deser f ff = step_gets (\<lambda>cu.
     step_bind (step_lift
       (if cu_min_match cu = length (cu_recs cu) then tail_intersect_and um deser f (cursor_ranges cu)
        else bind_o (join_all (\<lambda>(off, len). rd f off len) (cursor_ranges cu)) (\<lambda>results.
             bind_o (mapM_o (\<lambda>bytes. bind_o bytes (deserialize deser)) results) (\<lambda>tails.
             Ok (unwrap_or_default (threshold tails (cu_min_match cu))))))) (\<lambda>all.
     let tail_and = {d \<in> all. \<not> d < eager_doc_bound} in
     step_bind
       (if tail_and \<noteq> {} then
          step_bind (step_lift (case cu_filter cu of None \<Rightarrow> Ok tail_and | Some fl \<Rightarrow> apply_tail um deser ff fl tail_and)) (\<lambda>tail_and.
          step_modify (extend_results tail_and))
        else step_return ())
       (\<lambda>_. step_modify (\<lambda>cu. cu\<lparr>cu_tail_done := True\<rparr>))))"

definition drive_scan ::
  "nat \<Rightarrow> deserializer \<Rightarrow> range_read \<Rightarrow> range_read \<Rightarrow> nat \<Rightarrow> tail_scan \<Rightarrow> (cursor, unit) step" where
  "drive_scan um deser f ff need scan = step_gets (\<lambda>cu.
     step_bind (step_modify (\<lambda>cu. cu\<lparr>cu_scan := None\<rparr>)) (\<lambda>_.
     step_bind (scan_windows um deser f ff need (length (cu_results cu)) tail_windows_per_call scan) (\<lambda>scan.
     step_modify (\<lambda>cu. cu\<lparr>cu_tail_done := (cu_tail_done cu \<or> exhausted scan), cu_scan := Some scan\<rparr>))))"

definition ensure :: "nat \<Rightarrow> deserializer \<Rightarrow> range_read \<Rightarrow> range_read \<Rightarrow> nat \<Rightarrow> (cursor, unit) step" where
  "ensure um deser f ff need = step_gets (\<lambda>cu.
     if cu_tail_done cu \<or> cu_recs cu = [] \<or> need \<le> length (cu_results cu) then step_return ()
     else if cu_min_match cu = length (cu_recs cu) then
       step_bind (if cu_tried cu then step_return () else open_scan um f ff) (\<lambda>_.
       step_gets (\<lambda>cu. case cu_scan cu of
         None \<Rightarrow> whole_tail um deser f ff
       | Some scan \<Rightarrow> drive_scan um deser f ff need scan))
     else whole_tail um deser f ff)"

section \<open>Pages\<close>

definition cursor_next :: "nat \<Rightarrow> deserializer \<Rightarrow> range_read \<Rightarrow> range_read \<Rightarrow> nat \<Rightarrow> (cursor, nat list) step" where
  "cursor_next um deser f ff n = step_gets (\<lambda>cu.
     let want = sat_add um (cu_pos cu) n in
     step_bind (ensure um deser f ff want) (\<lambda>_. step_gets (\<lambda>cu.
     let e = min want (length (cu_results cu)) in
     step_bind (step_lift (cut_p (cu_results cu) (cu_pos cu) e)) (\<lambda>out.
     step_bind (step_modify (\<lambda>cu. cu\<lparr>cu_pos := e\<rparr>)) (\<lambda>_. step_return out)))))"

definition cursor_page ::
  "nat \<Rightarrow> deserializer \<Rightarrow> range_read \<Rightarrow> range_read \<Rightarrow> nat \<Rightarrow> nat \<Rightarrow> (cursor, nat list) step" where
  "cursor_page um deser f ff offset limit =
     (let want = sat_add um offset limit in
      step_bind (ensure um deser f ff want) (\<lambda>_. step_gets (\<lambda>cu.
      let start = min offset (length (cu_results cu)); e = min want (length (cu_results cu)) in
      step_lift (cut_p (cu_results cu) start e))))"

definition loaded :: "cursor \<Rightarrow> nat" where
  "loaded cu = length (cu_results cu)"

definition head_count :: "cursor \<Rightarrow> nat" where
  "head_count cu = card (cu_head cu)"

definition pending_tail :: "cursor \<Rightarrow> bool" where
  "pending_tail cu \<longleftrightarrow> \<not> cu_tail_done cu \<and> cu_recs cu \<noteq> []"

text \<open>\<open>while self.pending_tail() { self.ensure(usize::MAX).await? }\<close>; not returning is \<open>None\<close>.\<close>

partial_function (option) load_tail ::
  "nat \<Rightarrow> deserializer \<Rightarrow> range_read \<Rightarrow> range_read \<Rightarrow> cursor \<Rightarrow> (unit ires \<times> cursor) option" where
  "load_tail um deser f ff cu =
     (if pending_tail cu then
        (let r = ensure um deser f ff (um - 1) cu in
         if fst r = Ok () then load_tail um deser f ff (snd r) else Some r)
      else Some (Ok (), cu))"

section \<open>The specification\<close>

text \<open>The documents at least \<open>m\<close> of the keys occur in, and the result a cursor pages through.\<close>

definition found_docs :: "(nat \<Rightarrow> nat set option) \<Rightarrow> nat list \<Rightarrow> nat \<Rightarrow> nat set" where
  "found_docs post keys m =
     {d. m \<le> length (filter (\<lambda>k. case post k of None \<Rightarrow> False | Some s \<Rightarrow> d \<in> s) keys)}"

definition opt_passes :: "contents \<Rightarrow> filter_spec option \<Rightarrow> nat \<Rightarrow> bool" where
  "opt_passes cont flt d \<longleftrightarrow> (case flt of None \<Rightarrow> True | Some fl \<Rightarrow> passes cont fl d)"

definition cursor_result :: "(nat \<Rightarrow> nat set option) \<Rightarrow> contents \<Rightarrow> nat list \<Rightarrow> nat \<Rightarrow> filter_spec option \<Rightarrow> nat set" where
  "cursor_result post cont keys max_missing flt =
     {d \<in> found_docs post keys (max 1 (length keys - max_missing)). opt_passes cont flt d}"

definition present_keys :: "dict_rec list \<Rightarrow> nat list \<Rightarrow> nat list" where
  "present_keys dict keys = filter (\<lambda>k. find_key k dict \<noteq> None) keys"

lemma foldM_o_filter_map:
  assumes "\<And>x. x \<in> set xs \<Longrightarrow> g x = Ok (v x)"
  shows "foldM_o (\<lambda>acc x. map_ok (\<lambda>r. case r of Some y \<Rightarrow> acc @ [y] | None \<Rightarrow> acc) (g x)) acc xs
    = Ok (acc @ map the (filter (\<lambda>r. r \<noteq> None) (map v xs)))"
  using assms by (induction xs arbitrary: acc) (auto split: option.splits)

context posting_store
begin

lemma resolve_present_eq:
  assumes sv: "serves dict sels ix"
  shows "resolve_present um fetch ix keys = Ok (map (\<lambda>k. the (find_key k dict)) (present_keys dict keys))"
proof -
  obtain num where num: "\<And>k. dict_block_for ix k = Ok (map_option (blk ix) (num k))"
    "\<And>k b. num k = Some b \<Longrightarrow> b < sparse_count (length dict) (ix_stride ix) \<and> find_key k dict = find_key k (block_rows ix dict b)"
    "\<And>k. num k = None \<Longrightarrow> find_key k dict = None"
    using block_numbers [OF sv] by blast
  define ks where "ks = filter (\<lambda>k. num k \<noteq> None) keys"
  define ns where "ns = map (\<lambda>k. the (num k)) ks"
  have ns: "\<forall>b \<in> set ns. b < sparse_count (length dict) (ix_stride ix)"
    using num(2) by (auto simp: ns_def ks_def)
  obtain datas which where rd: "read_dict_blocks um fetch (map (blk ix) ns) = Ok (datas, which)"
    "\<forall>j < length ns. \<forall>k. parse_shared um datas which j (blk ix (ns ! j)) k = Ok (find_key k (block_rows ix dict (ns ! j)))"
    using shared_reads [OF sv ns] by blast
  have bs: "mapM_o (dict_block_for ix) keys = Ok (map (\<lambda>k. map_option (blk ix) (num k)) keys)"
    by (rule mapM_o_map) (rule num(1))
  have present: "map (\<lambda>(k, b). (k, the b)) (filter (\<lambda>(k, b). b \<noteq> None) (zip keys (map (\<lambda>k. map_option (blk ix) (num k)) keys)))
      = map (\<lambda>k. (k, blk ix (the (num k)))) ks"
    unfolding ks_def by (induction keys) auto
  let ?xs = "enumerate 0 (map (\<lambda>k. (k, blk ix (the (num k)))) ks)"
  have step: "parse_shared um datas which (fst x) (snd (snd x)) (fst (snd x)) = Ok (find_key (fst (snd x)) dict)"
    if "x \<in> set ?xs" for x
  proof -
    obtain j where j: "j < length ks" "x = (j, ks ! j, blk ix (the (num (ks ! j))))"
      using \<open>x \<in> set ?xs\<close> by (auto simp: in_set_enumerate_eq)
    then have "num (ks ! j) \<noteq> None" using nth_mem [OF j(1)] by (simp add: ks_def)
    then show ?thesis using rd(2) j num(2) by (auto simp: ns_def)
  qed
  have "foldM_o (\<lambda>recs (j, (key, block)).
         map_ok (\<lambda>r. case r of Some rec \<Rightarrow> recs @ [rec] | None \<Rightarrow> recs) (parse_shared um datas which j block key)) [] ?xs
      = Ok ([] @ map the (filter (\<lambda>r. r \<noteq> None) (map (\<lambda>x. find_key (fst (snd x)) dict) ?xs)))"
    unfolding case_prod_unfold by (rule foldM_o_filter_map) (rule step)
  moreover have "map (\<lambda>x. find_key (fst (snd x)) dict) ?xs = map (\<lambda>k. find_key k dict) ks"
    by (intro nth_equalityI) (simp_all add: nth_enumerate_eq)
  moreover have "map the (filter (\<lambda>r. r \<noteq> None) (map (\<lambda>k. find_key k dict) ks)) = map (\<lambda>k. the (find_key k dict)) (present_keys dict keys)"
    using num(3) unfolding ks_def present_keys_def by (induction keys) auto
  moreover have "map snd (map (\<lambda>k. (k, blk ix (the (num k)))) ks) = map (blk ix) ns" by (simp add: ns_def)
  ultimately show ?thesis
    unfolding resolve_present_def bs bind_o.simps Let_def present
    by (simp only: rd(1) bind_o.simps case_prod_conv append_Nil)
qed

end

section \<open>The tail of the result\<close>

definition field_tails :: "contents \<Rightarrow> filter_spec option \<Rightarrow> piece list list list" where
  "field_tails cont flt = (case flt of None \<Rightarrow> [] | Some fl \<Rightarrow> map (map (\<lambda>c. snd (cont c))) (rf_fields fl))"

definition exclude_tails :: "contents \<Rightarrow> filter_spec option \<Rightarrow> piece list list" where
  "exclude_tails cont flt = (case flt of None \<Rightarrow> [] | Some fl \<Rightarrow> map (\<lambda>c. snd (cont c)) (rf_excludes fl))"

definition threshold_docs :: "piece list list \<Rightarrow> nat \<Rightarrow> contents \<Rightarrow> filter_spec option \<Rightarrow> nat set" where
  "threshold_docs ts m cont flt = {d. m \<le> hits (map docs ts) d \<and> opt_passes cont flt d}"

lemma high_key_pos: "1 \<le> high_key d \<longleftrightarrow> 65536 \<le> d"
  by (simp add: Suc_le_eq div_greater_zero_iff)

lemma tail_of_result:
  assumes split: "\<And>fl c. flt = Some fl \<Longrightarrow> c \<in> filter_cats fl \<Longrightarrow> cat_split cont c"
  shows "{d \<in> scan_result ts (field_tails cont flt) (exclude_tails cont flt). 1 \<le> high_key d}
    = {d \<in> threshold_docs ts (length ts) cont flt. 65536 \<le> d}"
proof -
  have all: "d \<in> \<Inter>(docs ` set ts) \<longleftrightarrow> length ts \<le> hits (map docs ts) d" for d
    using hits_all [of "map docs ts" d] by simp
  have "((\<forall>f \<in> set (field_tails cont flt). d \<in> \<Union>(docs ` set f)) \<and> d \<notin> \<Union>(docs ` set (exclude_tails cont flt)))
      \<longleftrightarrow> opt_passes cont flt d" if d: "65536 \<le> d" for d
  proof (cases flt)
    case None
    then show ?thesis by (simp add: field_tails_def exclude_tails_def opt_passes_def)
  next
    case (Some fl)
    have side: "d \<in> docs (snd (cont c)) \<longleftrightarrow> d \<in> cat_docs cont c" if "c \<in> filter_cats fl" for c
      using cat_side(2) [OF split [OF Some that] d] by simp
    have "(\<exists>c \<in> set cats. d \<in> docs (snd (cont c))) \<longleftrightarrow> (\<exists>c \<in> set cats. d \<in> cat_docs cont c)"
      if "cats \<in> set (rf_fields fl)" for cats
      using side that unfolding filter_cats_def by blast
    then have "(\<forall>f \<in> set (field_tails cont flt). d \<in> \<Union>(docs ` set f)) \<longleftrightarrow> fields_pass cont fl d"
      using Some by (simp add: field_tails_def fields_pass_def)
    moreover have "d \<in> \<Union>(docs ` set (exclude_tails cont flt)) \<longleftrightarrow> excluded cont fl d"
      using Some side by (auto simp: exclude_tails_def excluded_def filter_cats_def)
    ultimately show ?thesis using Some by (simp add: opt_passes_def passes_def)
  qed
  then show ?thesis
    unfolding scan_result_def threshold_docs_def high_key_pos all by blast
qed

lemma hits_finite:
  assumes "0 < m"
  shows "finite (threshold_docs ts m cont flt)"
proof -
  have "d \<in> \<Union>(docs ` set ts)" if "m \<le> hits (map docs ts) d" for d
    using hits_pos [of "map docs ts" d] that assms by simp
  then have "threshold_docs ts m cont flt \<subseteq> \<Union>(docs ` set ts)" by (auto simp: threshold_docs_def)
  then show ?thesis by (rule finite_subset) simp
qed

lemma hits_restrict: "hits (map (\<lambda>t. {d \<in> docs t. P d}) ts) d = (if P d then hits (map docs ts) d else 0)"
  by (induction ts) (auto simp: hits_def)

lemma split_result:
  assumes "finite (M :: nat set)"
  shows "sorted_list_of_set M = sorted_list_of_set {d \<in> M. d < 65536} @ sorted_list_of_set {d \<in> M. 65536 \<le> d}"
proof -
  have "sorted_list_of_set ({d \<in> M. d < 65536} \<union> {d \<in> M. 65536 \<le> d})
      = sorted_list_of_set {d \<in> M. d < 65536} @ sorted_list_of_set {d \<in> M. 65536 \<le> d}"
    using assms by (intro sorted_list_of_set_union_below) auto
  moreover have "{d \<in> M. d < 65536} \<union> {d \<in> M. 65536 \<le> d} = M" by auto
  ultimately show ?thesis by simp
qed

section \<open>The invariant of a cursor\<close>

text \<open>The work that \<open>load_tail\<close> still has to do.\<close>

definition cursor_work :: "cursor \<Rightarrow> nat" where
  "cursor_work cu = (if \<not> pending_tail cu then 0
     else case cu_scan cu of None \<Rightarrow> 65538 | Some s \<Rightarrow> Suc (length (ts_keys s) - ts_pos s))"

lemma ensure_cases:
  "cu_tail_done cu \<or> cu_recs cu = [] \<or> need \<le> length (cu_results cu) \<Longrightarrow> ensure um deser f ff need cu = (Ok (), cu)"
  "pending_tail cu \<Longrightarrow> length (cu_results cu) < need \<Longrightarrow> cu_min_match cu \<noteq> length (cu_recs cu)
   \<Longrightarrow> ensure um deser f ff need cu = whole_tail um deser f ff cu"
  "pending_tail cu \<Longrightarrow> length (cu_results cu) < need \<Longrightarrow> cu_min_match cu = length (cu_recs cu)
   \<Longrightarrow> cu_tried cu \<Longrightarrow> cu_scan cu = Some s \<Longrightarrow> ensure um deser f ff need cu = drive_scan um deser f ff need s cu"
  "pending_tail cu \<Longrightarrow> length (cu_results cu) < need \<Longrightarrow> cu_min_match cu = length (cu_recs cu)
   \<Longrightarrow> cu_tried cu \<Longrightarrow> cu_scan cu = None \<Longrightarrow> ensure um deser f ff need cu = whole_tail um deser f ff cu"
  "pending_tail cu \<Longrightarrow> length (cu_results cu) < need \<Longrightarrow> cu_min_match cu = length (cu_recs cu)
   \<Longrightarrow> \<not> cu_tried cu \<Longrightarrow> open_scan um f ff cu = (Ok (), cu') \<Longrightarrow> cu_scan cu' = Some s
   \<Longrightarrow> ensure um deser f ff need cu = drive_scan um deser f ff need s cu'"
  by (auto simp: ensure_def step_gets_def step_bind_def step_return_def pending_tail_def)

context scan_store
begin

text \<open>What the scan of a cursor will still deliver.\<close>

definition scan_rest :: "contents \<Rightarrow> piece list list \<Rightarrow> filter_spec option \<Rightarrow> tail_scan \<Rightarrow> nat list" where
  "scan_rest cont ts flt s = sorted_list_of_set
     (scan_result ts (field_tails cont flt) (exclude_tails cont flt) \<inter> ix.in_window (drop (ts_pos s) (ts_keys s)))"

definition cursor_inv :: "contents \<Rightarrow> piece list list \<Rightarrow> nat set \<Rightarrow> cursor \<Rightarrow> bool" where
  "cursor_inv cont ts M cu \<longleftrightarrow> finite M \<and> cu_head cu = {d \<in> M. d < 65536} \<and> cu_pos cu \<le> length (cu_results cu)
     \<and> (if \<not> pending_tail cu then cu_results cu = sorted_list_of_set M
        else ix.tails_hold ts (cursor_ranges cu)
          \<and> (case cu_filter cu of None \<Rightarrow> True | Some fl \<Rightarrow> fx.filter_holds cont fl)
          \<and> 0 < cu_min_match cu \<and> M = threshold_docs ts (cu_min_match cu) cont (cu_filter cu)
          \<and> (case cu_scan cu of
               None \<Rightarrow> \<not> cu_tried cu \<and> cu_results cu = sorted_list_of_set {d \<in> M. d < 65536}
             | Some s \<Rightarrow> cu_tried cu \<and> cu_min_match cu = length (cu_recs cu) \<and> \<not> exhausted s
                 \<and> scan_holds ts (field_tails cont (cu_filter cu)) (exclude_tails cont (cu_filter cu)) s
                 \<and> cu_results cu @ scan_rest cont ts (cu_filter cu) s = sorted_list_of_set M))"

lemma scan_windows_ok:
  assumes "scan_holds ts (field_tails cont (cu_filter cu)) (exclude_tails cont (cu_filter cu)) s"
    and "65536 + tail_key_batch < um"
  shows "\<exists>s' rs. scan_windows um deser fetch ffetch need start left s cu = (Ok s', cu\<lparr>cu_results := rs\<rparr>)
    \<and> scan_holds ts (field_tails cont (cu_filter cu)) (exclude_tails cont (cu_filter cu)) s'
    \<and> rs @ scan_rest cont ts (cu_filter cu) s' = cu_results cu @ scan_rest cont ts (cu_filter cu) s
    \<and> ts_keys s' = ts_keys s \<and> ts_pos s \<le> ts_pos s' \<and> length (cu_results cu) \<le> length rs
    \<and> (0 < left \<and> length (cu_results cu) < need \<and> \<not> exhausted s \<longrightarrow> ts_pos s < ts_pos s')"
  using assms(1)
proof (induction left arbitrary: s cu)
  case 0
  then show ?case by (intro exI [of _ s] exI [of _ "cu_results cu"]) (simp add: step_return_def)
next
  case (Suc left)
  let ?fs = "field_tails cont (cu_filter cu)" and ?xs = "exclude_tails cont (cu_filter cu)"
  let ?R = "scan_result ts ?fs ?xs"
  show ?case
  proof (cases "length (cu_results cu) < need \<and> \<not> exhausted s")
    case False
    then show ?thesis
      using Suc.prems by (intro exI [of _ s] exI [of _ "cu_results cu"]) (auto simp: step_defs)
  next
    case True
    have ff: "?fs = [] \<and> ?xs = [] \<or> facet_fetch ffetch cu = Some ffetch"
      by (cases "cu_filter cu") (simp_all add: field_tails_def exclude_tails_def facet_fetch_def)
    let ?stop = "min (ts_pos s + tail_key_batch) (length (ts_keys s))"
    let ?w = "cut (ts_keys s) (ts_pos s) ?stop" and ?rest = "drop ?stop (ts_keys s)"
    let ?s = "s\<lparr>ts_pos := ?stop\<rparr>" and ?W = "?R \<inter> ix.in_window (cut (ts_keys s) (ts_pos s) ?stop)"
    have batch: "0 < tail_key_batch" by (simp add: tail_key_batch_def)
    note st = window_step [OF Suc.prems conjunct2 [OF True] batch assms(2) ff]
    have split: "drop (ts_pos s) (ts_keys s) = ?w @ ?rest" using st(3) by (intro cut_drop) (rule less_imp_le)
    have "sorted_wrt (<) (?w @ ?rest)"
      unfolding split [symmetric] using Suc.prems by (simp add: scan_holds_def sorted_wrt_drop)
    then have below: "k < l" if "k \<in> set ?w" "l \<in> set ?rest" for k l using that unfolding sorted_wrt_append by blast
    have fin: "finite ?R" using Suc.prems by (rule scan_result_finite)
    have rest: "scan_rest cont ts (cu_filter cu) s = sorted_list_of_set ?W @ scan_rest cont ts (cu_filter cu) ?s"
    proof -
      have "?R \<inter> ix.in_window (drop (ts_pos s) (ts_keys s)) = ?W \<union> (?R \<inter> ix.in_window ?rest)" unfolding split by auto
      moreover have "sorted_list_of_set (?W \<union> (?R \<inter> ix.in_window ?rest)) = sorted_list_of_set ?W @ sorted_list_of_set (?R \<inter> ix.in_window ?rest)"
      proof (rule sorted_list_of_set_union_below)
        fix a b assume "a \<in> ?W" "b \<in> ?R \<inter> ix.in_window ?rest"
        then have "high_key a < high_key b" using below by blast
        then show "a < b" by (rule high_key_less)
      qed (use fin in auto)
      ultimately show ?thesis by (simp add: scan_rest_def)
    qed
    let ?cu = "extend_results ?W cu"
    have cu: "cu_filter ?cu = cu_filter cu" "cu_results ?cu = cu_results cu @ sorted_list_of_set ?W"
      "?cu\<lparr>cu_results := rs\<rparr> = cu\<lparr>cu_results := rs\<rparr>" "?cu = cu\<lparr>cu_results := cu_results ?cu\<rparr>" for rs
      by (simp_all add: extend_results_def)
    let ?break = "length (cu_results ?cu) > start \<and> left \<le> tail_windows_per_call - 2"
    have run: "scan_windows um deser fetch ffetch need start (Suc left) s cu
        = (if ?break then (Ok ?s, ?cu) else scan_windows um deser fetch ffetch need start left ?s ?cu)"
      using True st(1) by (simp add: step_defs)
    show ?thesis
    proof (cases ?break)
      case True
      have "scan_windows um deser fetch ffetch need start (Suc left) s cu = (Ok ?s, cu\<lparr>cu_results := cu_results ?cu\<rparr>)"
        unfolding run if_P [OF True] using cu(4) by simp
      then show ?thesis
        using st(2,3) rest cu(2) by (intro exI [of _ ?s] exI [of _ "cu_results ?cu"]) simp
    next
      case False
      obtain s' rs where ih: "scan_windows um deser fetch ffetch need start left ?s ?cu = (Ok s', ?cu\<lparr>cu_results := rs\<rparr>)"
        "scan_holds ts ?fs ?xs s'" "rs @ scan_rest cont ts (cu_filter cu) s' = cu_results ?cu @ scan_rest cont ts (cu_filter cu) ?s"
        "ts_keys s' = ts_keys ?s" "ts_pos ?s \<le> ts_pos s'" "length (cu_results ?cu) \<le> length rs"
        using Suc.IH [of ?cu ?s] st(2) unfolding cu(1) by blast
      have "scan_windows um deser fetch ffetch need start (Suc left) s cu = (Ok s', cu\<lparr>cu_results := rs\<rparr>)"
        unfolding run if_not_P [OF False] ih(1) cu(3) ..
      moreover have adv: "ts_pos s < ts_pos s'" using less_le_trans [OF st(3), of "ts_pos s'"] ih(5) by simp
      ultimately show ?thesis
        using ih(2-4,6) adv rest cu(2) by (intro exI [of _ s'] exI [of _ rs]) simp
    qed
  qed
qed

lemma filter_tails_hold:
  assumes "fx.filter_holds cont fl"
  shows "list_all2 fx.tails_hold (field_tails cont (Some fl)) (map (map tail_range) (rf_fields fl))"
    and "fx.tails_hold (exclude_tails cont (Some fl)) (map tail_range (rf_excludes fl))"
proof -
  have h: "fx.holds (snd (cont c)) (fst (tail_range c)) (snd (tail_range c))" if "c \<in> filter_cats fl" for c
    using assms that by (simp add: fx.filter_holds_def fx.cat_holds_def tail_range_def)
  show "list_all2 fx.tails_hold (field_tails cont (Some fl)) (map (map tail_range) (rf_fields fl))"
    using h unfolding filter_cats_def
    by (auto simp: field_tails_def fx.tails_hold_def list.rel_map intro!: list.rel_refl_strong) blast
  show "fx.tails_hold (exclude_tails cont (Some fl)) (map tail_range (rf_excludes fl))"
    using h by (auto simp: exclude_tails_def fx.tails_hold_def list.rel_map filter_cats_def intro!: list.rel_refl_strong)
qed

lemma inv_split:
  assumes "case flt of None \<Rightarrow> True | Some fl \<Rightarrow> fx.filter_holds cont fl"
  shows "flt = Some fl \<Longrightarrow> c \<in> filter_cats fl \<Longrightarrow> cat_split cont c"
  using assms by (simp add: fx.filter_holds_def fx.cat_holds_def)

text \<open>The scan a cursor opens covers the tail of its result.\<close>

lemma open_scan_ok:
  assumes inv: "cursor_inv cont ts M cu" and pend: "pending_tail cu" and strict: "cu_min_match cu = length (cu_recs cu)"
  shows "\<exists>s. open_scan um fetch ffetch cu = (Ok (), cu\<lparr>cu_scan := Some s, cu_tried := True\<rparr>)
    \<and> scan_holds ts (field_tails cont (cu_filter cu)) (exclude_tails cont (cu_filter cu)) s
    \<and> scan_rest cont ts (cu_filter cu) s = sorted_list_of_set {d \<in> M. 65536 \<le> d} \<and> length (ts_keys s) - ts_pos s \<le> 65536"
proof -
  let ?flt = "cu_filter cu"
  let ?fr = "case ?flt of None \<Rightarrow> [] | Some fl \<Rightarrow> map (map tail_range) (rf_fields fl)"
  let ?xr = "case ?flt of None \<Rightarrow> [] | Some fl \<Rightarrow> map tail_range (rf_excludes fl)"
  have t: "ix.tails_hold ts (cursor_ranges cu)" and fh: "case ?flt of None \<Rightarrow> True | Some fl \<Rightarrow> fx.filter_holds cont fl"
    and M: "M = threshold_docs ts (cu_min_match cu) cont ?flt"
    using inv pend by (simp_all add: cursor_inv_def)
  have len: "length ts = length (cu_recs cu)"
    using t by (auto simp: ix.tails_hold_def cursor_ranges_def dest: list_all2_lengthD)
  then have ne: "ts \<noteq> []" using pend by (auto simp: pending_tail_def)
  have f: "list_all2 fx.tails_hold (field_tails cont ?flt) ?fr" "fx.tails_hold (exclude_tails cont ?flt) ?xr"
    using fh filter_tails_hold by (auto simp: field_tails_def exclude_tails_def fx.tails_hold_def split: option.splits)
  have ff: "?fr = [] \<and> ?xr = [] \<or> facet_fetch ffetch cu = Some ffetch"
    by (cases ?flt) (simp_all add: facet_fetch_def)
  obtain s where s: "tail_scan_open um fetch (cursor_ranges cu) (facet_fetch ffetch cu) ?fr ?xr eager_buckets = Ok (Some s)"
    "scan_holds ts (field_tails cont ?flt) (exclude_tails cont ?flt) s" "ts_pos s = 0"
    "scan_result ts (field_tails cont ?flt) (exclude_tails cont ?flt) \<inter> ix.in_window (ts_keys s)
      = {x \<in> scan_result ts (field_tails cont ?flt) (exclude_tails cont ?flt). eager_buckets \<le> high_key x}"
    using scan_open [OF t ne f ff] by blast
  have "scan_rest cont ts ?flt s = sorted_list_of_set {d \<in> M. 65536 \<le> d}"
    using s(3,4) tail_of_result [of ?flt cont ts, OF inv_split [OF fh]] len strict M
    by (simp add: scan_rest_def eager_buckets_def)
  moreover have "length (ts_keys s) - ts_pos s \<le> 65536" using s(2) by (simp add: scan_holds_def le_trans [OF diff_le_self])
  moreover have "open_scan um fetch ffetch cu = (Ok (), cu\<lparr>cu_scan := Some s, cu_tried := True\<rparr>)"
    using s(1) by (simp add: open_scan_def step_defs)
  ultimately show ?thesis using s(2) by blast
qed

text \<open>One incremental call, from a cursor that holds its scan.\<close>

lemma ensure_scan:
  assumes fields: "finite M" "cu_head cu = {d \<in> M. d < 65536}" "cu_pos cu \<le> length (cu_results cu)"
      "ix.tails_hold ts (cursor_ranges cu)" "case cu_filter cu of None \<Rightarrow> True | Some fl \<Rightarrow> fx.filter_holds cont fl"
      "0 < cu_min_match cu" "M = threshold_docs ts (cu_min_match cu) cont (cu_filter cu)" "cu_tried cu"
      "cu_min_match cu = length (cu_recs cu)" "pending_tail cu"
    and s: "scan_holds ts (field_tails cont (cu_filter cu)) (exclude_tails cont (cu_filter cu)) s"
    and rest: "cu_results cu @ scan_rest cont ts (cu_filter cu) s = sorted_list_of_set M"
    and um: "65536 + tail_key_batch < um" and need: "length (cu_results cu) < need"
  shows "\<exists>cu'. drive_scan um deser fetch ffetch need s cu = (Ok (), cu')
    \<and> cursor_inv cont ts M cu' \<and> cu_pos cu' = cu_pos cu \<and> length (cu_results cu) \<le> length (cu_results cu')
    \<and> cursor_work cu' \<le> Suc (length (ts_keys s) - ts_pos s) \<and> (\<not> exhausted s \<longrightarrow> cursor_work cu' < Suc (length (ts_keys s) - ts_pos s))"
proof -
  let ?cu = "cu\<lparr>cu_scan := None\<rparr>"
  have keep: "cu_filter ?cu = cu_filter cu" "cu_results ?cu = cu_results cu" by simp_all
  obtain s' rs where w: "scan_windows um deser fetch ffetch need (length (cu_results cu)) tail_windows_per_call s ?cu = (Ok s', ?cu\<lparr>cu_results := rs\<rparr>)"
    "scan_holds ts (field_tails cont (cu_filter cu)) (exclude_tails cont (cu_filter cu)) s'"
    "rs @ scan_rest cont ts (cu_filter cu) s' = cu_results cu @ scan_rest cont ts (cu_filter cu) s"
    "ts_keys s' = ts_keys s" "ts_pos s \<le> ts_pos s'" "length (cu_results cu) \<le> length rs"
    "0 < tail_windows_per_call \<and> length (cu_results cu) < need \<and> \<not> exhausted s \<longrightarrow> ts_pos s < ts_pos s'"
    using scan_windows_ok [where cu = ?cu, unfolded keep, OF s um] by blast
  let ?cu' = "?cu\<lparr>cu_results := rs, cu_tail_done := (cu_tail_done cu \<or> exhausted s'), cu_scan := Some s'\<rparr>"
  have nd: "\<not> cu_tail_done cu" "cu_recs cu \<noteq> []" using fields(10) by (simp_all add: pending_tail_def)
  have run: "drive_scan um deser fetch ffetch need s cu = (Ok (), ?cu')"
    using w(1) by (simp add: drive_scan_def step_defs)
  have same: "cursor_ranges ?cu' = cursor_ranges cu" by (simp add: cursor_ranges_def)
  have "rs = sorted_list_of_set M" if "exhausted s'"
    using that w(3) rest by (simp add: scan_rest_def exhausted_def)
  then have inv: "cursor_inv cont ts M ?cu'"
    using fields w(2,3,6) rest nd unfolding cursor_inv_def same by (auto simp: pending_tail_def)
  have work: "cursor_work ?cu' \<le> Suc (length (ts_keys s) - ts_pos s')"
    using w(4) by (simp add: cursor_work_def)
  have "ts_pos s < length (ts_keys s)" if "\<not> exhausted s" using that by (simp add: exhausted_def)
  then have "cursor_work ?cu' \<le> Suc (length (ts_keys s) - ts_pos s)"
    "\<not> exhausted s \<longrightarrow> cursor_work ?cu' < Suc (length (ts_keys s) - ts_pos s)"
    using work w(5,7) need by (auto simp: tail_windows_per_call_def)
  then show ?thesis using run inv w(6) by (intro exI [of _ ?cu']) simp
qed

text \<open>A fuzzy cursor loads its whole tail in one call.\<close>

lemma whole_tail_ok:
  assumes inv: "cursor_inv cont ts M cu" and pend: "pending_tail cu" and fuzzy: "cu_min_match cu \<noteq> length (cu_recs cu)"
  shows "whole_tail um deser fetch ffetch cu = (Ok (), cu\<lparr>cu_results := sorted_list_of_set M, cu_tail_done := True\<rparr>)"
proof -
  let ?flt = "cu_filter cu" and ?m = "cu_min_match cu"
  have t: "ix.tails_hold ts (cursor_ranges cu)" and fh: "case ?flt of None \<Rightarrow> True | Some fl \<Rightarrow> fx.filter_holds cont fl"
    and M: "M = threshold_docs ts ?m cont ?flt" and m: "0 < ?m" and fin: "finite M"
    using inv pend by (simp_all add: cursor_inv_def hits_finite)
  have len: "length ts = length (cu_recs cu)"
    using t by (auto simp: ix.tails_hold_def cursor_ranges_def dest: list_all2_lengthD)
  then have ne: "ts \<noteq> []" using pend by (auto simp: pending_tail_def)
  have head: "cu_results cu = sorted_list_of_set {d \<in> M. d < 65536}"
    using inv pend fuzzy by (auto simp: cursor_inv_def split: option.splits)
  have nth: "ix.holds (ts ! i) (fst (cursor_ranges cu ! i)) (snd (cursor_ranges cu ! i))" if "i < length (cursor_ranges cu)" for i
    using t that by (auto simp: ix.tails_hold_def dest: list_all2_nthD2)
  have lr: "length (cursor_ranges cu) = length ts" using t by (auto simp: ix.tails_hold_def dest: list_all2_lengthD)
  have reads: "map (\<lambda>(off, len). rd fetch off len) (cursor_ranges cu) = map (\<lambda>t. Ok (assemble t)) ts"
    by (rule nth_equalityI) (use lr ix.holds_whole [OF nth] in \<open>simp_all add: case_prod_unfold del: rd_Ok_iff\<close>)
  then have join: "join_all (\<lambda>(off, len). rd fetch off len) (cursor_ranges cu) = Ok (map (\<lambda>t. Ok (assemble t)) ts)"
    using ix.rd_no_panic by (auto simp: join_all_def list_ex_iff simp del: rd_Panic_iff)
  have "well_formed (ts ! i)" if "i < length ts" for i using nth [of i] lr that by (simp add: ix.holds_iff)
  then have wf: "well_formed t" if "t \<in> set ts" for t using that by (auto simp: in_set_conv_nth)
  have dec: "mapM_o (\<lambda>bytes. bind_o bytes (deserialize deser)) (map (\<lambda>t. Ok (assemble t)) ts) = Ok (map docs ts)"
    using wf ix.deserialize_assemble by (auto simp: mapM_o_Ok_iff list.rel_map intro!: list.rel_refl_strong)
  let ?all = "{d. ?m \<le> hits (map docs ts) d}"
  have thr: "unwrap_or_default (threshold (map docs ts) ?m) = ?all"
    using ne m by (intro unwrap_threshold) simp_all
  let ?T = "{d \<in> ?all. \<not> d < eager_doc_bound}" and ?F = "{d \<in> M. 65536 \<le> d}"
  have tail: "(case ?flt of None \<Rightarrow> Ok ?T | Some fl \<Rightarrow> apply_tail um deser ffetch fl ?T) = Ok ?F"
  proof (cases ?flt)
    case None
    have "?T = ?F" unfolding M threshold_docs_def None by (auto simp: opt_passes_def eager_doc_bound_def eager_buckets_def)
    then show ?thesis using None by simp
  next
    case (Some fl)
    have "\<forall>d \<in> ?T. 65536 \<le> d" by (simp add: eager_doc_bound_def eager_buckets_def)
    from fx.apply_tail_eq [OF _ this, of cont fl] fh Some
    have "apply_tail um deser ffetch fl ?T = Ok {d \<in> ?T. passes cont fl d}" by simp
    moreover have "{d \<in> ?T. passes cont fl d} = ?F"
      unfolding M threshold_docs_def Some by (auto simp: opt_passes_def eager_doc_bound_def eager_buckets_def)
    ultimately show ?thesis using Some by simp
  qed
  have empty: "?F = {}" if "?T = {}"
    using that unfolding M threshold_docs_def by (auto simp: eager_doc_bound_def eager_buckets_def)
  have all: "cu_results cu @ sorted_list_of_set ?F = sorted_list_of_set M"
    unfolding head by (rule split_result [OF fin, symmetric])
  then have same: "cu_results cu = sorted_list_of_set M" if "?T = {}" using empty [OF that] by simp
  let ?done = "\<lambda>cu. cu\<lparr>cu_tail_done := True\<rparr>"
  have run: "whole_tail um deser fetch ffetch cu
      = step_bind (if ?T \<noteq> {} then step_bind (step_lift (case ?flt of None \<Rightarrow> Ok ?T | Some fl \<Rightarrow> apply_tail um deser ffetch fl ?T))
            (\<lambda>t. step_modify (extend_results t)) else step_return ()) (\<lambda>_. step_modify ?done) cu"
    by (simp only: whole_tail_def step_gets_def fuzzy if_False join bind_o.simps dec thr Let_def step_run(1))
  have "whole_tail um deser fetch ffetch cu
      = (if ?T \<noteq> {} then (Ok (), cu\<lparr>cu_results := cu_results cu @ sorted_list_of_set ?F, cu_tail_done := True\<rparr>)
         else (Ok (), cu\<lparr>cu_tail_done := True\<rparr>))"
  proof (cases "?T = {}")
    case True
    then show ?thesis unfolding run by simp
  next
    case False
    then show ?thesis unfolding run tail by (simp add: extend_results_def)
  qed
  then show ?thesis using all same by (cases "?T = {}") simp_all
qed

lemma ensure_ok:
  assumes inv: "cursor_inv cont ts M cu" and um: "65536 + tail_key_batch < um"
  shows "\<exists>cu'. ensure um deser fetch ffetch need cu = (Ok (), cu') \<and> cursor_inv cont ts M cu' \<and> cu_pos cu' = cu_pos cu
    \<and> length (cu_results cu) \<le> length (cu_results cu')
    \<and> (pending_tail cu \<and> length (cu_results cu) < need \<longrightarrow> cursor_work cu' < cursor_work cu)"
proof (cases "pending_tail cu \<and> length (cu_results cu) < need")
  case False
  then have "ensure um deser fetch ffetch need cu = (Ok (), cu)" by (intro ensure_cases(1)) (auto simp: pending_tail_def)
  then show ?thesis using inv False by auto
next
  case True
  then have pend: "pending_tail cu" and need: "length (cu_results cu) < need" by simp_all
  have f: "finite M" "cu_head cu = {d \<in> M. d < 65536}" "cu_pos cu \<le> length (cu_results cu)"
      "ix.tails_hold ts (cursor_ranges cu)" "case cu_filter cu of None \<Rightarrow> True | Some fl \<Rightarrow> fx.filter_holds cont fl"
      "0 < cu_min_match cu" "M = threshold_docs ts (cu_min_match cu) cont (cu_filter cu)"
    using inv pend by (simp_all add: cursor_inv_def hits_finite)
  show ?thesis
  proof (cases "cu_min_match cu = length (cu_recs cu)")
    case fuzzy: False
    have "cu_results cu = sorted_list_of_set {d \<in> M. d < 65536}"
      using inv pend fuzzy by (auto simp: cursor_inv_def split: option.splits)
    then have "length (cu_results cu) \<le> length (sorted_list_of_set M)"
      using f(1) by (simp add: card_mono)
    then show ?thesis
      using ensure_cases(2) [OF pend need fuzzy, of um deser fetch ffetch] whole_tail_ok [OF inv pend fuzzy] f pend
      by (auto simp: cursor_inv_def pending_tail_def cursor_work_def split: option.splits)
  next
    case strict: True
    show ?thesis
    proof (cases "cu_scan cu")
      case (Some s)
      then have s: "cu_tried cu" "\<not> exhausted s" "scan_holds ts (field_tails cont (cu_filter cu)) (exclude_tails cont (cu_filter cu)) s"
        "cu_results cu @ scan_rest cont ts (cu_filter cu) s = sorted_list_of_set M"
        using inv pend by (simp_all add: cursor_inv_def)
      have work: "cursor_work cu = Suc (length (ts_keys s) - ts_pos s)" using Some pend by (simp add: cursor_work_def)
      show ?thesis
        using ensure_scan [OF f(1-7) s(1) strict pend s(3,4) um need] s(2)
        unfolding ensure_cases(3) [OF pend need strict s(1) Some] work by blast
    next
      case None
      then have n: "\<not> cu_tried cu" "cu_results cu = sorted_list_of_set {d \<in> M. d < 65536}"
        using inv pend by (simp_all add: cursor_inv_def)
      obtain s where s: "open_scan um fetch ffetch cu = (Ok (), cu\<lparr>cu_scan := Some s, cu_tried := True\<rparr>)"
        "scan_holds ts (field_tails cont (cu_filter cu)) (exclude_tails cont (cu_filter cu)) s"
        "scan_rest cont ts (cu_filter cu) s = sorted_list_of_set {d \<in> M. 65536 \<le> d}" "length (ts_keys s) - ts_pos s \<le> 65536"
        using open_scan_ok [OF inv pend strict] by blast
      let ?cu = "cu\<lparr>cu_scan := Some s, cu_tried := True\<rparr>"
      have k: "cu_head ?cu = cu_head cu" "cu_pos ?cu = cu_pos cu" "cu_results ?cu = cu_results cu" "cursor_ranges ?cu = cursor_ranges cu"
        "cu_filter ?cu = cu_filter cu" "cu_min_match ?cu = cu_min_match cu" "cu_tried ?cu = True" "cu_recs ?cu = cu_recs cu" "pending_tail ?cu = pending_tail cu"
        by (simp_all add: cursor_ranges_def pending_tail_def)
      have rest: "cu_results cu @ scan_rest cont ts (cu_filter cu) s = sorted_list_of_set M"
        unfolding n(2) s(3) by (rule split_result [OF f(1), symmetric])
      have "cursor_work cu = 65538" using None pend by (simp add: cursor_work_def)
      then show ?thesis
        using ensure_scan [where cu = ?cu, unfolded k, OF f(1-7) TrueI strict pend s(2) rest um need] s(4)
        ensure_cases(5) [where cu' = ?cu and s = s, OF pend need strict n(1) s(1)] by fastforce
    qed
  qed
qed

lemma results_prefix:
  assumes "cursor_inv cont ts M cu"
  shows "\<exists>rest. cu_results cu @ rest = sorted_list_of_set M" "length (cu_results cu) \<le> card M"
proof -
  have fin: "finite M" using assms by (simp add: cursor_inv_def)
  show pre: "\<exists>rest. cu_results cu @ rest = sorted_list_of_set M"
  proof (cases "pending_tail cu")
    case False
    then show ?thesis using assms by (simp add: cursor_inv_def)
  next
    case True
    show ?thesis
    proof (cases "cu_scan cu")
      case None
      then have "cu_results cu = sorted_list_of_set {d \<in> M. d < 65536}" using assms True by (simp add: cursor_inv_def)
      then show ?thesis using split_result [OF fin] by metis
    next
      case (Some s)
      then have "cu_results cu @ scan_rest cont ts (cu_filter cu) s = sorted_list_of_set M"
        using assms True by (simp add: cursor_inv_def)
      then show ?thesis by blast
    qed
  qed
  have "length (sorted_list_of_set M) = card M" by simp
  then show "length (cu_results cu) \<le> card M" using pre by (metis le_add1 length_append)
qed

lemma results_cut:
  assumes "cursor_inv cont ts M cu" "e \<le> length (cu_results cu)"
  shows "cut (cu_results cu) b e = cut (sorted_list_of_set M) b e"
  using results_prefix(1) [OF assms(1)] assms(2) cut_append_left by metis

lemma results_done: "cursor_inv cont ts M cu \<Longrightarrow> \<not> pending_tail cu \<Longrightarrow> cu_results cu = sorted_list_of_set M"
  by (simp add: cursor_inv_def)

lemma page_ok:
  assumes inv: "cursor_inv cont ts M cu" and um: "65536 + tail_key_batch < um" and off: "offset < um"
  shows "\<exists>cu'. cursor_page um deser fetch ffetch offset limit cu
      = (Ok (cut (sorted_list_of_set M) (min offset (loaded cu')) (min (sat_add um offset limit) (loaded cu'))), cu')
    \<and> cursor_inv cont ts M cu'"
proof -
  let ?want = "sat_add um offset limit"
  obtain cu' where e: "ensure um deser fetch ffetch ?want cu = (Ok (), cu')" "cursor_inv cont ts M cu'"
    using ensure_ok [OF inv um] by blast
  let ?n = "length (cu_results cu')"
  have "min offset ?n \<le> min ?want ?n" using sat_add_ge_left [OF off, of limit] by simp
  then show ?thesis
    using e results_cut [OF e(2), of "min ?want ?n" "min offset ?n"]
    by (intro exI [of _ cu']) (simp add: cursor_page_def step_bind_def step_gets_def step_lift_def Let_def loaded_def)
qed

lemma cursor_inv_pos:
  assumes "cursor_inv cont ts M cu" "p \<le> length (cu_results cu)"
  shows "cursor_inv cont ts M (cu\<lparr>cu_pos := p\<rparr>)"
proof -
  have same: "pending_tail (cu\<lparr>cu_pos := p\<rparr>) = pending_tail cu" "cursor_ranges (cu\<lparr>cu_pos := p\<rparr>) = cursor_ranges cu"
    "cu_head (cu\<lparr>cu_pos := p\<rparr>) = cu_head cu" "cu_pos (cu\<lparr>cu_pos := p\<rparr>) = p" "cu_results (cu\<lparr>cu_pos := p\<rparr>) = cu_results cu"
    "cu_filter (cu\<lparr>cu_pos := p\<rparr>) = cu_filter cu" "cu_min_match (cu\<lparr>cu_pos := p\<rparr>) = cu_min_match cu"
    "cu_scan (cu\<lparr>cu_pos := p\<rparr>) = cu_scan cu" "cu_tried (cu\<lparr>cu_pos := p\<rparr>) = cu_tried cu" "cu_recs (cu\<lparr>cu_pos := p\<rparr>) = cu_recs cu"
    by (simp_all add: pending_tail_def cursor_ranges_def)
  show ?thesis using assms unfolding cursor_inv_def same by blast
qed

lemma next_ok:
  assumes inv: "cursor_inv cont ts M cu" and um: "65536 + tail_key_batch < um" and fits: "card M < um"
  shows "\<exists>cu'. cursor_next um deser fetch ffetch n cu = (Ok (cut (sorted_list_of_set M) (cu_pos cu) (cu_pos cu')), cu')
    \<and> cursor_inv cont ts M cu' \<and> cu_pos cu \<le> cu_pos cu' \<and> cu_pos cu' = min (sat_add um (cu_pos cu) n) (loaded cu')"
proof -
  let ?want = "sat_add um (cu_pos cu) n"
  obtain cu' where e: "ensure um deser fetch ffetch ?want cu = (Ok (), cu')" "cursor_inv cont ts M cu'"
    "cu_pos cu' = cu_pos cu" "length (cu_results cu) \<le> length (cu_results cu')"
    using ensure_ok [OF inv um] by blast
  have pos: "cu_pos cu \<le> length (cu_results cu)" using inv by (simp add: cursor_inv_def)
  then have "cu_pos cu < um" using results_prefix(2) [OF inv] fits by simp
  then have le: "cu_pos cu \<le> min ?want (length (cu_results cu'))"
    using sat_add_ge_left [of "cu_pos cu" um n] pos e(4) by simp
  let ?cu = "cu'\<lparr>cu_pos := min ?want (length (cu_results cu'))\<rparr>"
  have "cursor_inv cont ts M ?cu" using cursor_inv_pos [OF e(2)] by simp
  then show ?thesis
    using e le results_cut [OF e(2), of "min ?want (length (cu_results cu'))" "cu_pos cu"]
    by (intro exI [of _ ?cu]) (simp add: cursor_next_def step_bind_def step_gets_def step_lift_def step_modify_def step_return_def Let_def loaded_def)
qed

lemma load_tail_ok:
  assumes "cursor_inv cont ts M cu" and um: "65536 + tail_key_batch < um" and fits: "card M + 1 < um"
  shows "\<exists>cu'. load_tail um deser fetch ffetch cu = Some (Ok (), cu') \<and> cursor_inv cont ts M cu'
    \<and> \<not> pending_tail cu' \<and> cu_results cu' = sorted_list_of_set M \<and> cu_pos cu' = cu_pos cu"
  using assms(1)
proof (induction "cursor_work cu" arbitrary: cu rule: less_induct)
  case less
  show ?case
  proof (cases "pending_tail cu")
    case False
    then show ?thesis using less.prems by (simp add: load_tail.simps [of um deser fetch ffetch cu] results_done)
  next
    case True
    have "length (cu_results cu) < um - 1" using results_prefix(2) [OF less.prems] fits by simp
    then obtain cu' where e: "ensure um deser fetch ffetch (um - 1) cu = (Ok (), cu')" "cursor_inv cont ts M cu'"
      "cu_pos cu' = cu_pos cu" "cursor_work cu' < cursor_work cu"
      using ensure_ok [OF less.prems um] True by blast
    then have "load_tail um deser fetch ffetch cu = load_tail um deser fetch ffetch cu'"
      using True by (simp add: load_tail.simps [of um deser fetch ffetch cu] Let_def)
    then show ?thesis using less.hyps [OF e(4,2)] e(3) by simp
  qed
qed

text \<open>A fresh cursor starts in the invariant.\<close>

lemma empty_cursor_inv: "cursor_inv cont ts {} cursor_empty"
  by (simp add: cursor_inv_def cursor_empty_def pending_tail_def)

lemma fresh_inv:
  assumes "ix.tails_hold ts (map (\<lambda>rec. (dr_off rec, dr_size rec)) recs)" "0 < m"
    and "case flt of None \<Rightarrow> True | Some fl \<Rightarrow> fx.filter_holds cont fl" "M = threshold_docs ts m cont flt" "finite M"
  shows "cursor_inv cont ts M \<lparr>cu_recs = recs, cu_min_match = m, cu_filter = flt, cu_head = {d \<in> M. d < 65536},
      cu_results = sorted_list_of_set {d \<in> M. d < 65536}, cu_pos = 0, cu_tail_done = False, cu_scan = None, cu_tried = False\<rparr>"
proof (cases "recs = []")
  case True
  then have "ts = []" using assms(1) by (simp add: ix.tails_hold_def)
  then have "M = {}" using assms(2,4) by (simp add: threshold_docs_def hits_def)
  then show ?thesis using True by (simp add: cursor_inv_def pending_tail_def)
next
  case False
  then show ?thesis using assms by (simp add: cursor_inv_def pending_tail_def cursor_ranges_def)
qed

lemma search_cursor_ok:
  fixes keys :: "nat list" and max_missing :: nat
  assumes sv: "ix.serves dict sels i" and flt: "case flt of None \<Rightarrow> True | Some fl \<Rightarrow> fx.filter_holds cont fl"
  defines "M \<equiv> cursor_result (docs_of dict sels) cont keys max_missing flt"
  shows "\<exists>cu ts. search_cursor_filtered um deser fetch ffetch i keys max_missing flt = Ok cu
    \<and> cursor_inv cont ts M cu \<and> cu_pos cu = 0"
proof -
  let ?m = "max 1 (length keys - max_missing)"
  let ?row = "\<lambda>k. the (find_key k dict)" and ?sel = "\<lambda>k. the (posting_of dict sels k)"
  let ?ks = "present_keys dict keys"
  let ?ts = "map ?sel ?ks"
  have l2: "list_all2 (\<lambda>r sel. ix.holds sel (dr_off r) (dr_size r)) dict sels" using sv by (simp add: ix.serves_def)
  note pf = ix.posting_of_find [OF l2]
  have ap: "all_present dict sels ?ks" using pf(1) by (auto simp: all_present_def present_keys_def)
  have hits: "hits (map docs ?ts) d = length (filter (\<lambda>k. case docs_of dict sels k of None \<Rightarrow> False | Some s \<Rightarrow> d \<in> s) keys)" for d
    using pf(1) unfolding present_keys_def by (induction keys) (auto simp: hits_def)
  have M: "M = threshold_docs ?ts ?m cont flt"
    unfolding M_def cursor_result_def found_docs_def threshold_docs_def hits by blast
  show ?thesis
  proof (cases "case flt of None \<Rightarrow> False | Some fl \<Rightarrow> has_empty_arm fl")
    case True
    then obtain fl where "flt = Some fl" "has_empty_arm fl" by (auto split: option.splits)
    then have "M = {}" using empty_arm_passes unfolding M_def cursor_result_def by (auto simp: opt_passes_def passes_def)
    moreover have "search_cursor_filtered um deser fetch ffetch i keys max_missing flt = Ok cursor_empty"
      using True by (simp add: search_cursor_filtered_def)
    ultimately show ?thesis using empty_cursor_inv by (auto simp: cursor_empty_def)
  next
    case arm: False
    show ?thesis
    proof (cases "length ?ks < ?m")
      case True
      have "\<not> ?m \<le> hits (map docs ?ts) d" for d
        using le_less_trans [OF hits_le [of "map docs ?ts" d]] True by (simp only: length_map not_le)
      then have "M = {}" unfolding M threshold_docs_def by blast
      moreover have "search_cursor_filtered um deser fetch ffetch i keys max_missing flt = Ok cursor_empty"
        using arm True ix.resolve_present_eq [OF sv] by (simp add: search_cursor_filtered_def Let_def)
      ultimately show ?thesis using empty_cursor_inv by (auto simp: cursor_empty_def)
    next
      case enough: False
      then have ne: "?ks \<noteq> []" by auto
      have heads: "fetch_head_prefixes um deser fetch (map ?row ?ks) = Ok (map (\<lambda>t. {d \<in> docs t. d < 65536}) ?ts)"
        unfolding fetch_head_prefixes_def map_map comp_def
        by (rule ix.wave_rows [OF sv ap]) (simp add: ix.head_prefix eager_buckets_def)
      let ?H = "unwrap_or_default (threshold (map (\<lambda>t. {d \<in> docs t. d < 65536}) ?ts) ?m)"
      have H: "?H = {d. d < 65536 \<and> ?m \<le> hits (map docs ?ts) d}"
      proof -
        have "?H = {d. ?m \<le> hits (map (\<lambda>t. {d \<in> docs t. d < 65536}) ?ts) d}"
          using ne by (intro unwrap_threshold) auto
        then show ?thesis unfolding hits_restrict by auto
      qed
      let ?flt = "case flt of None \<Rightarrow> None | Some fl \<Rightarrow> if filter_is_empty fl then None else Some fl"
      have same: "opt_passes cont ?flt = opt_passes cont flt"
        by (auto simp: opt_passes_def passes_def filter_is_empty_def fields_pass_def excluded_def split: option.splits)
      have "(case ?flt of None \<Rightarrow> Ok ?H | Some fl \<Rightarrow> apply_head um deser ffetch fl ?H) = Ok {d \<in> ?H. opt_passes cont ?flt d}"
      proof (cases ?flt)
        case None
        then show ?thesis by (simp add: opt_passes_def)
      next
        case (Some fl)
        then have "fx.filter_holds cont fl" using flt by (auto split: option.splits if_splits)
        moreover have "\<forall>d \<in> ?H. d < 65536" unfolding H by simp
        ultimately have "apply_head um deser ffetch fl ?H = Ok {d \<in> ?H. passes cont fl d}"
          by (rule fx.apply_head_eq)
        then show ?thesis unfolding Some by (simp add: opt_passes_def)
      qed
      moreover have "{d \<in> ?H. opt_passes cont ?flt d} = {d \<in> M. d < 65536}"
        unfolding H M threshold_docs_def same by auto
      ultimately have head: "(case ?flt of None \<Rightarrow> Ok ?H | Some fl \<Rightarrow> apply_head um deser ffetch fl ?H) = Ok {d \<in> M. d < 65536}" by simp
      let ?cu = "\<lparr>cu_recs = map ?row ?ks, cu_min_match = ?m, cu_filter = ?flt, cu_head = {d \<in> M. d < 65536},
              cu_results = sorted_list_of_set {d \<in> M. d < 65536}, cu_pos = 0, cu_tail_done = False,
              cu_scan = None, cu_tried = False\<rparr>"
      have run: "search_cursor_filtered um deser fetch ffetch i keys max_missing flt = Ok ?cu"
        using arm enough
        by (simp only: search_cursor_filtered_def if_False Let_def ix.resolve_present_eq [OF sv] bind_o.simps length_map heads head)
      have "ix.tails_hold ?ts (cursor_ranges ?cu)"
        using ix.tails_of_rows [OF sv ap] by (simp add: cursor_ranges_def comp_def)
      moreover have "case ?flt of None \<Rightarrow> True | Some fl \<Rightarrow> fx.filter_holds cont fl"
        using flt by (auto split: option.splits)
      moreover have "M = threshold_docs ?ts ?m cont ?flt" unfolding M threshold_docs_def same ..
      moreover have "finite M" unfolding M by (rule hits_finite) simp
      ultimately have "cursor_inv cont ?ts M ?cu" by (intro fresh_inv) (simp_all add: cursor_ranges_def)
      then show ?thesis using run by (intro exI [of _ ?cu] exI [of _ ?ts]) simp
    qed
  qed
qed

end

section \<open>The life of a cursor\<close>

text \<open>The states a client can bring a cursor into, in any order of calls.\<close>

inductive cursor_reach ::
  "nat \<Rightarrow> deserializer \<Rightarrow> range_read \<Rightarrow> range_read \<Rightarrow> cursor \<Rightarrow> cursor \<Rightarrow> bool"
  for um deser f ff cu0 where
  fresh: "cursor_reach um deser f ff cu0 cu0"
| after_next: "cursor_reach um deser f ff cu0 cu \<Longrightarrow> cursor_next um deser f ff n cu = (r, cu') \<Longrightarrow> cursor_reach um deser f ff cu0 cu'"
| after_page: "cursor_reach um deser f ff cu0 cu \<Longrightarrow> offset < um \<Longrightarrow> cursor_page um deser f ff offset limit cu = (r, cu')
    \<Longrightarrow> cursor_reach um deser f ff cu0 cu'"
| after_load: "cursor_reach um deser f ff cu0 cu \<Longrightarrow> load_tail um deser f ff cu = Some (u, cu') \<Longrightarrow> cursor_reach um deser f ff cu0 cu'"

context scan_store
begin

lemma reach_inv:
  assumes "cursor_reach um deser fetch ffetch cu0 cu" "cursor_inv cont ts M cu0"
    and um: "65536 + tail_key_batch < um" and fits: "card M + 1 < um"
  shows "cursor_inv cont ts M cu"
  using assms(1,2)
proof (induction rule: cursor_reach.induct)
  case (after_next cu n r cu')
  have "cursor_inv cont ts M cu" using after_next.IH after_next.prems by simp
  moreover have "card M < um" using fits by simp
  ultimately show ?case using next_ok [OF _ um, of cont ts M cu n] after_next.hyps(2) by auto
next
  case (after_page cu offset limit r cu')
  have "cursor_inv cont ts M cu" using after_page.IH after_page.prems by simp
  then show ?case using page_ok [OF _ um after_page.hyps(2), of cont ts M cu limit] after_page.hyps(3) by auto
next
  case (after_load cu u cu')
  have "cursor_inv cont ts M cu" using after_load.IH after_load.prems by simp
  then show ?case using load_tail_ok [OF _ um fits, of cont ts cu] after_load.hyps(2) by auto
qed

end

section \<open>Errors\<close>

text \<open>A failed window: what was appended stays, the scan is gone.\<close>

lemma scan_windows_state:
  "scan_windows um deser f ff need start left s cu = (r, cu')
   \<Longrightarrow> \<exists>extra. cu' = cu\<lparr>cu_results := cu_results cu @ extra\<rparr>"
proof (induction left arbitrary: s cu)
  case 0
  then show ?case by (intro exI [of _ "[]"]) simp
next
  case (Suc left)
  show ?case
  proof (cases "length (cu_results cu) < need \<and> \<not> exhausted s")
    case False
    then show ?thesis using Suc.prems by (intro exI [of _ "[]"]) (auto simp: step_gets_def)
  next
    case True
    show ?thesis
    proof (cases "next_window um deser f (facet_fetch ff cu) tail_key_batch s")
      case (Ok w)
      obtain win s' where w: "w = (win, s')" by fastforce
      let ?cu = "extend_results win cu"
      have run: "(if length (cu_results ?cu) > start \<and> left \<le> tail_windows_per_call - 2 then (Ok s', ?cu)
          else scan_windows um deser f ff need start left s' ?cu) = (r, cu')"
        using Suc.prems True Ok w by (auto simp: step_gets_def split: if_split_asm)
      show ?thesis
      proof (cases "length (cu_results ?cu) > start \<and> left \<le> tail_windows_per_call - 2")
        case True
        then show ?thesis using run by (auto simp: extend_results_def)
      next
        case False
        then have "scan_windows um deser f ff need start left s' ?cu = (r, cu')" using run by (simp only: if_not_P [OF False] if_False)
        from Suc.IH [OF this] obtain extra where "cu' = ?cu\<lparr>cu_results := cu_results ?cu @ extra\<rparr>" by blast
        then show ?thesis by (intro exI [of _ "sorted_list_of_set win @ extra"]) (simp add: extend_results_def)
      qed
    qed (use Suc.prems True in \<open>auto simp: step_gets_def step_bind_def step_lift_def intro!: exI [of _ "[]"]\<close>)
  qed
qed

lemma whole_tail_error:
  "whole_tail um deser f ff cu = (r, cu') \<Longrightarrow> r \<noteq> Ok () \<Longrightarrow> cu' = cu"
  by (auto simp: whole_tail_def step_gets_def step_bind_def step_lift_def step_modify_def step_return_def Let_def
      split: outcome.splits prod.splits if_split_asm option.splits)

lemma drive_scan_error:
  assumes "drive_scan um deser f ff need s cu = (r, cu')" "r \<noteq> Ok ()"
  shows "\<exists>extra. cu' = cu\<lparr>cu_results := cu_results cu @ extra, cu_scan := None\<rparr>"
proof -
  let ?cu = "cu\<lparr>cu_scan := None\<rparr>"
  obtain q cu2 where w: "scan_windows um deser f ff need (length (cu_results cu)) tail_windows_per_call s ?cu = (q, cu2)"
    by fastforce
  then have "cu' = cu2" using assms by (cases q) (auto simp: drive_scan_def step_gets_def step_bind_def step_modify_def)
  with scan_windows_state [OF w] obtain extra where "cu' = ?cu\<lparr>cu_results := cu_results ?cu @ extra\<rparr>" by blast
  then show ?thesis by (intro exI [of _ extra]) simp
qed

lemma ensure_error:
  assumes "ensure um deser f ff need cu = (r, cu')" "r \<noteq> Ok ()"
  shows "cu' = cu \<or> (\<exists>extra. cu' = cu\<lparr>cu_results := cu_results cu @ extra, cu_scan := None, cu_tried := True\<rparr>)"
    and "cu_tried cu \<Longrightarrow> cu_scan cu \<noteq> None \<Longrightarrow> cu_min_match cu = length (cu_recs cu) \<Longrightarrow>
      \<exists>extra. cu' = cu\<lparr>cu_results := cu_results cu @ extra, cu_scan := None\<rparr>"
proof -
  have "\<not> (cu_tail_done cu \<or> cu_recs cu = [] \<or> need \<le> length (cu_results cu))"
    using assms ensure_cases(1) [of cu need um deser f ff] by force
  then have go: "pending_tail cu" "length (cu_results cu) < need" by (simp_all add: pending_tail_def)
  show "\<exists>extra. cu' = cu\<lparr>cu_results := cu_results cu @ extra, cu_scan := None\<rparr>"
    if "cu_tried cu" "cu_scan cu \<noteq> None" "cu_min_match cu = length (cu_recs cu)"
    using that assms ensure_cases(3) [OF go that(3,1), where um = um and deser = deser and f = f and ff = ff] drive_scan_error by fastforce
  show "cu' = cu \<or> (\<exists>extra. cu' = cu\<lparr>cu_results := cu_results cu @ extra, cu_scan := None, cu_tried := True\<rparr>)"
  proof (cases "cu_min_match cu = length (cu_recs cu)")
    case False
    then have "whole_tail um deser f ff cu = (r, cu')"
      using assms(1) ensure_cases(2) [OF go False, of um deser f ff] by simp
    then show ?thesis using whole_tail_error assms(2) by blast
  next
    case strict: True
    obtain q cu1 where o: "(if cu_tried cu then step_return () else open_scan um f ff) cu = (q, cu1)" by fastforce
    have opened: "q = Ok () \<and> cu1 = cu \<and> cu_tried cu \<or> (\<exists>sc. q = Ok () \<and> cu1 = cu\<lparr>cu_scan := sc, cu_tried := True\<rparr>) \<or> (q \<noteq> Ok () \<and> cu1 = cu)"
      using o by (auto simp: open_scan_def step_gets_def step_bind_def step_lift_def step_modify_def step_return_def
          split: if_split_asm outcome.splits prod.splits)
    have run: "(case q of Ok _ \<Rightarrow> (case cu_scan cu1 of None \<Rightarrow> whole_tail um deser f ff cu1 | Some sc \<Rightarrow> drive_scan um deser f ff need sc cu1)
        | Err e \<Rightarrow> (Err e, cu1) | Panic \<Rightarrow> (Panic, cu1)) = (r, cu')"
      using assms(1) go strict o by (auto simp: ensure_def step_gets_def step_bind_def pending_tail_def split: option.splits)
    show ?thesis
    proof (cases q)
      case (Ok u)
      have tried: "cu1 = cu \<and> cu_tried cu \<or> (\<exists>sc. cu1 = cu\<lparr>cu_scan := sc, cu_tried := True\<rparr>)" using opened Ok by auto
      show ?thesis
      proof (cases "cu_scan cu1")
        case None
        then have "cu' = cu1" using run Ok whole_tail_error assms(2) by fastforce
        moreover have "cu1 = cu1\<lparr>cu_results := cu_results cu1 @ [], cu_scan := None, cu_tried := True\<rparr>"
          using None tried by auto
        ultimately show ?thesis using tried by (elim disjE) (auto intro!: exI [of _ "[]"])
      next
        case (Some sc)
        then obtain extra where "cu' = cu1\<lparr>cu_results := cu_results cu1 @ extra, cu_scan := None\<rparr>"
          using run Ok drive_scan_error assms(2) by fastforce
        then show ?thesis using tried by (intro disjI2 exI [of _ extra]) auto
      qed
    qed (use run opened in auto)
  qed
qed

lemma page_error:
  assumes "cursor_page um deser f ff offset limit cu = (Err e, cu')"
  shows "ensure um deser f ff (sat_add um offset limit) cu = (Err e, cu')"
  using assms by (auto simp: cursor_page_def Let_def step_bind_def step_gets_def step_lift_def cut_p_def split: outcome.splits prod.splits if_split_asm)

section \<open>Properties\<close>

text \<open>A written index with a stored facet file: where a cursor's life begins.\<close>

definition opt_stored :: "bytes \<Rightarrow> contents \<Rightarrow> filter_spec option \<Rightarrow> bool" where
  "opt_stored fbs cont flt \<longleftrightarrow> (case flt of None \<Rightarrow> True | Some fl \<Rightarrow> filter_stored fbs cont fl)"

lemma cursor_born:
  assumes ro: "roaring deser ser" and ix: "indexable ser um gram stride postings"
    and fbs: "length fbs + span_gap < um" "opt_stored fbs cont flt"
  shows "\<exists>bytes ix cu ts. write_index_with gram stride (posting_entries ser postings) cn = Ok bytes
    \<and> index_open um (mem_read um (mem_new bytes)) = Ok ix
    \<and> search_cursor_filtered um deser (mem_read um (mem_new bytes)) (mem_read um (mem_new fbs)) ix keys max_missing flt = Ok cu
    \<and> scan_store (mem_read um (mem_new bytes)) bytes um deser ser (mem_read um (mem_new fbs)) fbs um
    \<and> scan_store.cursor_inv bytes um um fbs um cont ts (cursor_result (map_of postings) cont keys max_missing flt) cu
    \<and> cu_pos cu = 0"
proof -
  obtain bytes ix dict sels where w: "write_index_with gram stride (posting_entries ser postings) cn = Ok bytes"
    "index_open um (mem_read um (mem_new bytes)) = Ok ix"
    "posting_store (mem_read um (mem_new bytes)) bytes um deser ser" "posting_store.serves bytes um um dict sels ix"
    "\<And>k. docs_of dict sels k = map_of postings k"
    using written_serves [OF ro ix, of cn] by metis
  have fs: "posting_store (mem_read um (mem_new fbs)) fbs um deser ser"
    by (intro posting_store.intro memf.full_fetch_axioms ro)
  have sc: "scan_store (mem_read um (mem_new bytes)) bytes um deser ser (mem_read um (mem_new fbs)) fbs um"
    by (intro scan_store.intro w(3) fs)
  have um: "um \<le> U64" using ix by (simp add: indexable_def)
  have "case flt of None \<Rightarrow> True | Some fl \<Rightarrow> posting_store.filter_holds fbs um um cont fl"
    using filter_stored_holds [OF fs fbs(1) um] fbs(2) by (auto simp: opt_stored_def split: option.splits)
  from scan_store.search_cursor_ok [OF sc w(4) this, of keys max_missing] w sc show ?thesis by fastforce
qed

text \<open>
  What a cursor over the documents \<open>M\<close> owes its client: it holds a prefix of their ascending list,
  all of it once no tail is pending, and its pages are slices of that list.
\<close>

definition slices ::
  "nat \<Rightarrow> deserializer \<Rightarrow> range_read \<Rightarrow> range_read \<Rightarrow> nat set \<Rightarrow> cursor \<Rightarrow> bool" where
  "slices um deser f ff M cu \<longleftrightarrow>
     cu_results cu = take (loaded cu) (sorted_list_of_set M)
     \<and> cu_head cu = {d \<in> M. d < 65536}
     \<and> (\<not> pending_tail cu \<longrightarrow> cu_results cu = sorted_list_of_set M)
     \<and> (\<forall>n. \<exists>cu'. cursor_next um deser f ff n cu = (Ok (cut (sorted_list_of_set M) (cu_pos cu) (cu_pos cu')), cu')
          \<and> cu_pos cu \<le> cu_pos cu' \<and> cu_pos cu' = min (sat_add um (cu_pos cu) n) (loaded cu'))
     \<and> (\<forall>offset limit. offset < um \<longrightarrow> (\<exists>cu'. cursor_page um deser f ff offset limit cu
          = (Ok (cut (sorted_list_of_set M) (min offset (loaded cu')) (min (sat_add um offset limit) (loaded cu'))), cu')))"

lemma inv_slices:
  assumes sc: "scan_store f bs lim deser ser ff fbs flim" and inv: "scan_store.cursor_inv bs lim um fbs flim cont ts M cu"
    and um: "65536 + tail_key_batch < um" "card M < um"
  shows "slices um deser f ff M cu"
  unfolding slices_def
proof (intro conjI allI impI)
  show "cu_results cu = take (loaded cu) (sorted_list_of_set M)"
    using scan_store.results_prefix(1) [OF sc inv] by (metis append_eq_conv_conj loaded_def)
  show "cu_head cu = {d \<in> M. d < 65536}" using inv by (simp add: scan_store.cursor_inv_def [OF sc])
  show "cu_results cu = sorted_list_of_set M" if "\<not> pending_tail cu" by (rule scan_store.results_done [OF sc inv that])
  show "\<exists>cu'. cursor_next um deser f ff n cu = (Ok (cut (sorted_list_of_set M) (cu_pos cu) (cu_pos cu')), cu')
      \<and> cu_pos cu \<le> cu_pos cu' \<and> cu_pos cu' = min (sat_add um (cu_pos cu) n) (loaded cu')" for n
    using scan_store.next_ok [OF sc inv um] by blast
  show "\<exists>cu'. cursor_page um deser f ff offset limit cu
      = (Ok (cut (sorted_list_of_set M) (min offset (loaded cu')) (min (sat_add um offset limit) (loaded cu'))), cu')"
    if "offset < um" for offset limit
    using scan_store.page_ok [OF sc inv um(1) that] by blast
qed

text \<open>
  C14: Paging is slicing one list: over a written index and a stored facet filter, whatever calls a
  client made before, in any order, the cursor holds a prefix of the ascending list of the
  documents that at least \<open>|keys| - max_missing\<close> (and at least one) of the keys occur in and that
  pass the filter; \<open>next\<close> returns the slice between its old and its new position and \<open>page\<close> the
  requested slice of what is loaded, which is the whole list once no tail is pending.
\<close>

theorem cursor_pages_exact:
  assumes "roaring deser ser" "indexable ser um gram stride postings" "length fbs + span_gap < um" "opt_stored fbs cont flt"
    and "card (cursor_result (map_of postings) cont keys max_missing flt) + 1 < um"
  shows "\<exists>bytes ix cu0. write_index_with gram stride (posting_entries ser postings) cn = Ok bytes
    \<and> index_open um (mem_read um (mem_new bytes)) = Ok ix
    \<and> search_cursor_filtered um deser (mem_read um (mem_new bytes)) (mem_read um (mem_new fbs)) ix keys max_missing flt = Ok cu0
    \<and> cu_pos cu0 = 0
    \<and> (\<forall>cu. cursor_reach um deser (mem_read um (mem_new bytes)) (mem_read um (mem_new fbs)) cu0 cu \<longrightarrow>
        slices um deser (mem_read um (mem_new bytes)) (mem_read um (mem_new fbs))
          (cursor_result (map_of postings) cont keys max_missing flt) cu)"
proof -
  define M where "M = cursor_result (map_of postings) cont keys max_missing flt"
  obtain bytes ix cu0 ts where w: "write_index_with gram stride (posting_entries ser postings) cn = Ok bytes"
    "index_open um (mem_read um (mem_new bytes)) = Ok ix"
    "search_cursor_filtered um deser (mem_read um (mem_new bytes)) (mem_read um (mem_new fbs)) ix keys max_missing flt = Ok cu0"
    "scan_store (mem_read um (mem_new bytes)) bytes um deser ser (mem_read um (mem_new fbs)) fbs um"
    "scan_store.cursor_inv bytes um um fbs um cont ts M cu0" "cu_pos cu0 = 0"
    using cursor_born [OF assms(1-4), of cn keys max_missing] unfolding M_def by blast
  have um: "65536 + tail_key_batch < um" using assms(2) by (simp add: indexable_def)
  have fits: "card M + 1 < um" "card M < um" using assms(5) by (simp_all add: M_def)
  note reach = scan_store.reach_inv [OF w(4) _ w(5) um fits(1)]
  show ?thesis
    unfolding M_def [symmetric] using w(1-3,6) inv_slices [OF w(4) reach um fits(2)] by blast
qed

lemma demo_cursor_result:
  "cursor_result (map_of demo_postings) demo_contents [5, 9, 7] 2 None = {1, 70000}"
proof -
  have "1 \<le> length (filter (\<lambda>k. case map_of demo_postings k of None \<Rightarrow> False | Some s \<Rightarrow> d \<in> s) [5, 9, 7]) \<longleftrightarrow> d \<in> {1, 70000}" for d
    by (auto simp: demo_postings_def)
  then show ?thesis by (auto simp: cursor_result_def found_docs_def opt_passes_def)
qed

lemma demo_cursor_start:
  "length ([] :: bytes) + span_gap < U32" "opt_stored [] demo_contents None"
  "card (cursor_result (map_of demo_postings) demo_contents [5, 9, 7] 2 None) + 1 < U32"
  unfolding demo_cursor_result by (simp_all add: span_gap_def opt_stored_def)

lemma cursor_pages_exact_witness:
  "\<exists>bytes ix cu0. write_index_with 3 0 (posting_entries format_encode demo_postings) True = Ok bytes
    \<and> index_open U32 (mem_read U32 (mem_new bytes)) = Ok ix
    \<and> search_cursor_filtered U32 format_decode (mem_read U32 (mem_new bytes)) (mem_read U32 (mem_new [])) ix [5, 9, 7] 2 None = Ok cu0
    \<and> slices U32 format_decode (mem_read U32 (mem_new bytes)) (mem_read U32 (mem_new [])) {1, 70000} cu0"
  using cursor_pages_exact [OF format.roaring_axioms demo_indexable demo_cursor_start, of True, unfolded demo_cursor_result]
  by (elim exE conjE) (metis cursor_reach.fresh)

text \<open>
  C15: \<open>load_tail\<close> terminates with everything: from any state a client can bring a cursor into, the
  loop that calls \<open>ensure(usize::MAX)\<close> while a tail is pending returns, with no error, every matching
  document materialised in ascending order and the position unchanged.
\<close>

theorem load_tail_terminates:
  assumes "roaring deser ser" "indexable ser um gram stride postings" "length fbs + span_gap < um" "opt_stored fbs cont flt"
    and "card (cursor_result (map_of postings) cont keys max_missing flt) + 1 < um"
  shows "\<exists>bytes ix cu0. write_index_with gram stride (posting_entries ser postings) cn = Ok bytes
    \<and> index_open um (mem_read um (mem_new bytes)) = Ok ix
    \<and> search_cursor_filtered um deser (mem_read um (mem_new bytes)) (mem_read um (mem_new fbs)) ix keys max_missing flt = Ok cu0
    \<and> (\<forall>cu. cursor_reach um deser (mem_read um (mem_new bytes)) (mem_read um (mem_new fbs)) cu0 cu \<longrightarrow>
        (\<exists>cu'. load_tail um deser (mem_read um (mem_new bytes)) (mem_read um (mem_new fbs)) cu = Some (Ok (), cu')
          \<and> \<not> pending_tail cu' \<and> cu_pos cu' = cu_pos cu
          \<and> cu_results cu' = sorted_list_of_set (cursor_result (map_of postings) cont keys max_missing flt)))"
proof -
  define M where "M = cursor_result (map_of postings) cont keys max_missing flt"
  obtain bytes ix cu0 ts where w: "write_index_with gram stride (posting_entries ser postings) cn = Ok bytes"
    "index_open um (mem_read um (mem_new bytes)) = Ok ix"
    "search_cursor_filtered um deser (mem_read um (mem_new bytes)) (mem_read um (mem_new fbs)) ix keys max_missing flt = Ok cu0"
    "scan_store (mem_read um (mem_new bytes)) bytes um deser ser (mem_read um (mem_new fbs)) fbs um"
    "scan_store.cursor_inv bytes um um fbs um cont ts M cu0" "cu_pos cu0 = 0"
    using cursor_born [OF assms(1-4), of cn keys max_missing] unfolding M_def by blast
  have um: "65536 + tail_key_batch < um" using assms(2) by (simp add: indexable_def)
  have fits: "card M + 1 < um" using assms(5) by (simp add: M_def)
  note reach = scan_store.reach_inv [OF w(4) _ w(5) um fits]
  show ?thesis
    unfolding M_def [symmetric] using w(1-3) scan_store.load_tail_ok [OF w(4) reach um fits] by blast
qed

lemma load_tail_terminates_witness:
  "\<exists>bytes ix cu0 cu. write_index_with 3 0 (posting_entries format_encode demo_postings) True = Ok bytes
    \<and> index_open U32 (mem_read U32 (mem_new bytes)) = Ok ix
    \<and> search_cursor_filtered U32 format_decode (mem_read U32 (mem_new bytes)) (mem_read U32 (mem_new [])) ix [5, 9, 7] 2 None = Ok cu0
    \<and> load_tail U32 format_decode (mem_read U32 (mem_new bytes)) (mem_read U32 (mem_new [])) cu0 = Some (Ok (), cu)
    \<and> cu_results cu = [1, 70000]"
proof -
  have "sorted_list_of_set {1, 70000 :: nat} = [1, 70000]" by simp
  then show ?thesis
    using load_tail_terminates [OF format.roaring_axioms demo_indexable demo_cursor_start, of True, unfolded demo_cursor_result]
    by (elim exE conjE) (metis cursor_reach.fresh)
qed

text \<open>
  C16: What an error leaves behind: a page that fails either leaves the cursor as it was or keeps
  the results it had (and the windows read before the failing one) and drops its scan; retried over
  a fetcher that works, a cursor that lost its scan while it was paging the tail appends the whole
  tail again, so the tail documents it had already delivered come twice.
\<close>

theorem retry_repeats_tail:
  assumes "roaring deser ser" "length bs + span_gap < um" "um \<le> U64"
    and "list_all2 (\<lambda>sel (off, len). stored bs sel off len) sels (cursor_ranges cu)"
    and "cu_filter cu = None" "cu_min_match cu = length (cu_recs cu)" "pending_tail cu" "cu_tried cu" "cu_scan cu = Some s"
    and "cursor_page um deser g gg offset limit cu = (Err e, cu1)" "length (cu_results cu1) < need"
    and "d \<in> set (cu_results cu)" "65536 \<le> d" "\<forall>sel \<in> set sels. d \<in> docs sel"
  shows "\<exists>extra cu2. cu_results cu1 = cu_results cu @ extra \<and> cu_scan cu1 = None \<and> cu_tried cu1
    \<and> ensure um deser (mem_read um (mem_new bs)) ff need cu1 = (Ok (), cu2) \<and> \<not> pending_tail cu2
    \<and> cu_results cu2 = cu_results cu1 @ sorted_list_of_set {d \<in> \<Inter>(docs ` set sels). 65536 \<le> d}
    \<and> \<not> distinct (cu_results cu2)"
proof -
  have st: "posting_store (mem_read um (mem_new bs)) bs um deser ser"
    by (intro posting_store.intro memf.full_fetch_axioms assms(1))
  have addr: "addressable um um bs" using assms(2,3) by (simp add: addressable_def)
  have len: "length sels = length (cursor_ranges cu)" using assms(4) by (rule list_all2_lengthD)
  then have ne: "sels \<noteq> []" using assms(7) by (auto simp: pending_tail_def cursor_ranges_def)
  have "posting_store.holds bs um um (sels ! i) (fst (cursor_ranges cu ! i)) (snd (cursor_ranges cu ! i))" if "i < length (cursor_ranges cu)" for i
    using list_all2_nthD2 [OF assms(4) that] addr by (simp add: posting_store.holds_def [OF st] case_prod_beta)
  then have tail: "tail_intersect_and um deser (mem_read um (mem_new bs)) (cursor_ranges cu) = Ok (\<Inter>(docs ` set sels))"
    using posting_store.tail_and [OF st len] ne by simp
  obtain extra where cu1: "cu1 = cu\<lparr>cu_results := cu_results cu @ extra, cu_scan := None\<rparr>"
    using ensure_error(2) [OF page_error [OF assms(10)] _ assms(8) _ assms(6)] assms(9) by auto
  let ?T = "{d \<in> \<Inter>(docs ` set sels). 65536 \<le> d}"
  have T: "{d \<in> \<Inter>(docs ` set sels). \<not> d < eager_doc_bound} = ?T" by (auto simp: eager_doc_bound_def eager_buckets_def)
  have d: "d \<in> ?T" using assms(13,14) by auto
  then have Tne: "?T \<noteq> {}" by blast
  obtain sel where "sel \<in> set sels" using ne by (meson last_in_set)
  then have "?T \<subseteq> docs sel" by auto
  then have fin: "finite ?T" by (rule finite_subset) simp
  let ?cu2 = "cu1\<lparr>cu_results := cu_results cu1 @ sorted_list_of_set ?T, cu_tail_done := True\<rparr>"
  have ranges: "cursor_ranges cu1 = cursor_ranges cu" by (simp add: cu1 cursor_ranges_def)
  have m1: "cu_min_match cu1 = length (cu_recs cu1)" "cu_filter cu1 = None" using assms(5,6) by (simp_all add: cu1)
  have "whole_tail um deser (mem_read um (mem_new bs)) ff cu1
      = step_bind (if ?T \<noteq> {} then step_bind (step_lift (Ok ?T)) (\<lambda>t. step_modify (extend_results t)) else step_return ())
          (\<lambda>_. step_modify (\<lambda>cu. cu\<lparr>cu_tail_done := True\<rparr>)) cu1"
    by (simp only: whole_tail_def step_gets_def m1 simp_thms if_True ranges tail step_run(1) Let_def T option.case)
  also have "\<dots> = (Ok (), ?cu2)" using Tne by (simp only: if_True simp_thms) (simp add: extend_results_def)
  finally have "whole_tail um deser (mem_read um (mem_new bs)) ff cu1 = (Ok (), ?cu2)" .
  moreover have "ensure um deser (mem_read um (mem_new bs)) ff need cu1 = whole_tail um deser (mem_read um (mem_new bs)) ff cu1"
    using assms(6-8,11) by (intro ensure_cases(4)) (simp_all add: cu1 pending_tail_def)
  moreover have "\<not> distinct (cu_results ?cu2)"
    using assms(12) d fin by (auto simp: cu1)
  ultimately show ?thesis
    using cu1 assms(8) by (intro exI [of _ extra] exI [of _ ?cu2]) (simp add: pending_tail_def)
qed

text \<open>A cursor over two buckets, the first of which it has delivered, and a network that fails.\<close>

definition demo_scan :: tail_scan where
  "demo_scan = \<lparr>ts_trigrams = [\<lparr>td_off = 32, td_dir = [\<lparr>c_key = 3, c_card = 1, c_start = 24, c_len = 2\<rparr>, \<lparr>c_key = 4, c_card = 1, c_start = 26, c_len = 2\<rparr>]\<rparr>],
     ts_facets = [], ts_excludes = [], ts_keys = [3, 4], ts_pos = 1\<rparr>"

definition demo_cursor :: cursor where
  "demo_cursor = \<lparr>cu_recs = [\<lparr>dr_key = 9, dr_off = 32, dr_size = 28\<rparr>], cu_min_match = 1, cu_filter = None, cu_head = {},
     cu_results = [196617], cu_pos = 1, cu_tail_done = False, cu_scan = Some demo_scan, cu_tried = True\<rparr>"

definition broken_fetch :: range_read where
  "broken_fetch off len = Err (Transport ''connection reset'')"

lemma demo_window_fails:
  "next_window U32 format_decode broken_fetch None tail_key_batch demo_scan = Err (Fetch (Transport ''connection reset''))"
  using found_bsearch [of "[4 :: nat]"]
  by (simp add: next_window_def demo_scan_def exhausted_def tail_key_batch_def cut_def Let_def intersect_key_window_def
      window_seed_def join_all_def read_dir_subset_def fetch_containers_def in_keys_def rd_def broken_fetch_def
      container_span_step_def wave_def)

lemma demo_page_fails:
  "cursor_page U32 format_decode broken_fetch broken_fetch 0 5 demo_cursor
   = (Err (Fetch (Transport ''connection reset'')), demo_cursor\<lparr>cu_scan := None\<rparr>)"
proof -
  have "scan_windows U32 format_decode broken_fetch broken_fetch 5 1 tail_windows_per_call demo_scan (demo_cursor\<lparr>cu_scan := None\<rparr>)
      = (Err (Fetch (Transport ''connection reset'')), demo_cursor\<lparr>cu_scan := None\<rparr>)"
  proof -
    have n: "tail_windows_per_call = Suc 11" by (simp add: tail_windows_per_call_def)
    have "length (cu_results (demo_cursor\<lparr>cu_scan := None\<rparr>)) < 5 \<and> \<not> exhausted demo_scan"
      "facet_fetch broken_fetch (demo_cursor\<lparr>cu_scan := None\<rparr>) = None"
      by (simp_all add: demo_cursor_def demo_scan_def exhausted_def facet_fetch_def)
    then show ?thesis
      unfolding n scan_windows.simps(2) by (simp add: step_gets_def step_bind_def step_lift_def demo_window_fails [simplified])
  qed
  moreover have "sat_add U32 0 5 = 5" by (simp add: sat_add_def)
  moreover have "ensure U32 format_decode broken_fetch broken_fetch 5 demo_cursor = drive_scan U32 format_decode broken_fetch broken_fetch 5 demo_scan demo_cursor"
    by (rule ensure_cases(3)) (simp_all add: demo_cursor_def pending_tail_def)
  moreover have "length (cu_results demo_cursor) = 1" by (simp add: demo_cursor_def)
  ultimately show ?thesis
    by (simp add: cursor_page_def Let_def step_bind_def drive_scan_def step_gets_def step_modify_def)
qed

lemma retry_repeats_tail_witness:
  "\<exists>cu1 cu2. cursor_page U32 format_decode broken_fetch broken_fetch 0 5 demo_cursor = (Err (Fetch (Transport ''connection reset'')), cu1)
    \<and> ensure U32 format_decode (mem_read U32 (mem_new demo_store)) broken_fetch 5 cu1 = (Ok (), cu2)
    \<and> cu_results cu2 = [196617, 196617, 262146]"
proof -
  let ?cu1 = "demo_cursor\<lparr>cu_scan := None\<rparr>"
  have T: "{d \<in> \<Inter>(docs ` set [demo_b]). 65536 \<le> d} = {196617, 262146}" by (auto simp: demo_docs)
  have l: "length demo_store + span_gap < U32" by (simp add: demo_lengths span_gap_def)
  have "\<exists>extra cu2. cu_results ?cu1 = cu_results demo_cursor @ extra \<and> cu_scan ?cu1 = None \<and> cu_tried ?cu1
    \<and> ensure U32 format_decode (mem_read U32 (mem_new demo_store)) broken_fetch 5 ?cu1 = (Ok (), cu2) \<and> \<not> pending_tail cu2
    \<and> cu_results cu2 = cu_results ?cu1 @ sorted_list_of_set {d \<in> \<Inter>(docs ` set [demo_b]). 65536 \<le> d}
    \<and> \<not> distinct (cu_results cu2)"
    by (rule retry_repeats_tail [OF format.roaring_axioms l _ _ _ _ _ _ _ demo_page_fails, where d = 196617])
      (use demo_stored in \<open>simp_all add: cursor_ranges_def demo_cursor_def pending_tail_def demo_docs\<close>)
  then show ?thesis unfolding T using demo_page_fails by (auto simp: demo_cursor_def)
qed

end
