(* ===== verification/RR_Utf8.thy ===== *)
theory RR_Utf8 imports RR_Bytes begin

text \<open>
  The UTF-8 conversions of the standard library that the readers rely on: \<open>as_bytes\<close>,
  \<open>String::from_utf8\<close> and \<open>String::from_utf8_lossy\<close> (one U+FFFD per maximal invalid prefix, as
  \<open>core::str::lossy\<close> chunks its input).  A string is the list of its scalar values.

  Shown: both decoders invert the encoder, and the strict decoder agrees with the lossy one.
\<close>

type_synonym rstring = "nat list"

definition scalar :: "nat \<Rightarrow> bool" where
  "scalar c \<longleftrightarrow> c < 0xD800 \<or> (0xE000 \<le> c \<and> c < 0x110000)"

definition utf8_char :: "nat \<Rightarrow> bytes" where
  "utf8_char c = map of_nat
     (if c < 0x80 then [c]
      else if c < 0x800 then [0xC0 + c div 64, 0x80 + c mod 64]
      else if c < 0x10000 then [0xE0 + c div 4096, 0x80 + c div 64 mod 64, 0x80 + c mod 64]
      else [0xF0 + c div 262144, 0x80 + c div 4096 mod 64, 0x80 + c div 64 mod 64, 0x80 + c mod 64])"

definition utf8_bytes :: "rstring \<Rightarrow> bytes" where
  "utf8_bytes s = concat (map utf8_char s)"

section \<open>Decoding\<close>

definition utf8_cont :: "nat \<Rightarrow> bool" where
  "utf8_cont b \<longleftrightarrow> 0x80 \<le> b \<and> b \<le> 0xBF"

text \<open>The admissible second bytes of three- and four-byte sequences.\<close>

definition utf8_second :: "nat \<Rightarrow> nat \<Rightarrow> bool" where
  "utf8_second b c \<longleftrightarrow>
     (if b = 0xE0 then 0xA0 \<le> c \<and> c \<le> 0xBF
      else if b = 0xED then 0x80 \<le> c \<and> c \<le> 0x9F
      else if b = 0xF0 then 0x90 \<le> c \<and> c \<le> 0xBF
      else if b = 0xF4 then 0x80 \<le> c \<and> c \<le> 0x8F
      else utf8_cont c)"

text \<open>The first character of a non-empty input, or the length of its invalid prefix; a missing byte reads as 0.\<close>

definition utf8_take :: "bytes \<Rightarrow> nat option \<times> nat" where
  "utf8_take bs =
     (let b = unat (hd bs); at = (\<lambda>i. if i < length bs then unat (bs ! i) else 0) in
      if b < 0x80 then (Some b, 1)
      else if 0xC2 \<le> b \<and> b \<le> 0xDF then
        (if \<not> utf8_cont (at 1) then (None, 1)
         else (Some ((b - 0xC0) * 64 + (at 1 - 0x80)), 2))
      else if 0xE0 \<le> b \<and> b \<le> 0xEF then
        (if \<not> utf8_second b (at 1) then (None, 1)
         else if \<not> utf8_cont (at 2) then (None, 2)
         else (Some ((b - 0xE0) * 4096 + (at 1 - 0x80) * 64 + (at 2 - 0x80)), 3))
      else if 0xF0 \<le> b \<and> b \<le> 0xF4 then
        (if \<not> utf8_second b (at 1) then (None, 1)
         else if \<not> utf8_cont (at 2) then (None, 2)
         else if \<not> utf8_cont (at 3) then (None, 3)
         else (Some ((b - 0xF0) * 262144 + (at 1 - 0x80) * 4096 + (at 2 - 0x80) * 64 + (at 3 - 0x80)), 4))
      else (None, 1))"

lemma utf8_take_pos: "0 < snd (utf8_take bs)"
  by (simp add: utf8_take_def Let_def)

function utf8_lossy :: "bytes \<Rightarrow> rstring" where
  "utf8_lossy bs =
     (if bs = [] then []
      else (case fst (utf8_take bs) of Some c \<Rightarrow> c | None \<Rightarrow> 0xFFFD) # utf8_lossy (drop (snd (utf8_take bs)) bs))"
  by pat_completeness auto
termination
  by (relation "measure length") (use utf8_take_pos in \<open>auto simp: diff_less\<close>)

function utf8_strict :: "bytes \<Rightarrow> rstring option" where
  "utf8_strict bs =
     (if bs = [] then Some []
      else case fst (utf8_take bs) of
        None \<Rightarrow> None
      | Some c \<Rightarrow> map_option ((#) c) (utf8_strict (drop (snd (utf8_take bs)) bs)))"
  by pat_completeness auto
termination
  by (relation "measure length") (use utf8_take_pos in \<open>auto simp: diff_less\<close>)

declare utf8_lossy.simps [simp del] utf8_strict.simps [simp del]

lemma take_two:
  "unat w0 = 192 + x \<Longrightarrow> 2 \<le> x \<Longrightarrow> x < 32 \<Longrightarrow> unat w1 = 128 + y \<Longrightarrow> y < 64
   \<Longrightarrow> utf8_take (w0 # w1 # rest) = (Some (x * 64 + y), 2)"
  by (simp add: utf8_take_def Let_def utf8_cont_def)

lemma take_three:
  "unat w0 = 224 + x \<Longrightarrow> x < 16 \<Longrightarrow> unat w1 = 128 + y \<Longrightarrow> utf8_second (224 + x) (128 + y) \<Longrightarrow> unat w2 = 128 + z \<Longrightarrow> z < 64
   \<Longrightarrow> utf8_take (w0 # w1 # w2 # rest) = (Some (x * 4096 + y * 64 + z), 3)"
  by (simp add: utf8_take_def Let_def utf8_cont_def)

lemma take_four:
  "unat w0 = 240 + x \<Longrightarrow> x \<le> 4 \<Longrightarrow> unat w1 = 128 + y \<Longrightarrow> utf8_second (240 + x) (128 + y) \<Longrightarrow> unat w2 = 128 + z \<Longrightarrow> z < 64
   \<Longrightarrow> unat w3 = 128 + u \<Longrightarrow> u < 64 \<Longrightarrow> utf8_take (w0 # w1 # w2 # w3 # rest) = (Some (x * 262144 + y * 4096 + z * 64 + u), 4)"
  by (simp add: utf8_take_def Let_def utf8_cont_def)

lemma digit64:
  fixes x :: nat
  shows "x div 64 = 0 \<Longrightarrow> 32 \<le> x \<Longrightarrow> 32 \<le> x mod 64"
    and "x div 64 = 13 \<Longrightarrow> x < 864 \<or> 896 \<le> x \<Longrightarrow> x mod 64 < 32"
    and "x div 64 = 0 \<Longrightarrow> 16 \<le> x \<Longrightarrow> 16 \<le> x mod 64"
    and "x div 64 = 4 \<Longrightarrow> x < 272 \<Longrightarrow> x mod 64 < 16"
  using div_mult_mod_eq [of x 64] by (auto; linarith)+

lemma digits64:
  fixes c :: nat
  shows "c div 4096 * 4096 + c div 64 mod 64 * 64 + c mod 64 = c"
    and "c div 262144 * 262144 + c div 4096 mod 64 * 4096 + c div 64 mod 64 * 64 + c mod 64 = c"
proof -
  have e: "c div 64 * 64 + c mod 64 = c" "c div 4096 * 64 + c div 64 mod 64 = c div 64"
    "c div 262144 * 64 + c div 4096 mod 64 = c div 4096"
    using div_mult_mod_eq [of "c div 64" 64] div_mult_mod_eq [of "c div 4096" 64]
    by (simp_all add: div_mult2_eq [symmetric])
  show "c div 4096 * 4096 + c div 64 mod 64 * 64 + c mod 64 = c" using e by linarith
  then show "c div 262144 * 262144 + c div 4096 mod 64 * 4096 + c div 64 mod 64 * 64 + c mod 64 = c" using e by linarith
qed

lemma utf8_take_char:
  assumes "scalar c"
  shows "utf8_take (utf8_char c @ rest) = (Some c, length (utf8_char c))"
proof -
  have byte: "unat (of_nat n :: byte) = n" if "n < 256" for n using that by (simp add: unat_of_nat)
  consider (one) "c < 0x80" | (two) "0x80 \<le> c" "c < 0x800" | (three) "0x800 \<le> c" "c < 0x10000"
    | (four) "0x10000 \<le> c" "c < 0x110000" using assms unfolding scalar_def by linarith
  then show ?thesis
  proof cases
    case one
    then show ?thesis by (simp add: utf8_char_def utf8_take_def byte)
  next
    case two
    then have a: "c div 64 < 32" "2 \<le> c div 64" by auto
    have "utf8_char c @ rest = of_nat (192 + c div 64) # of_nat (128 + c mod 64) # rest" "length (utf8_char c) = 2"
      using two by (simp_all add: utf8_char_def)
    then show ?thesis
      using take_two [of "of_nat (192 + c div 64)" "c div 64" "of_nat (128 + c mod 64)" "c mod 64" rest] a byte
      by (simp del: of_nat_add)
  next
    case three
    then have a: "c div 4096 < 16" by auto
    have second: "utf8_second (224 + c div 4096) (128 + c div 64 mod 64)"
    proof -
      define x where "x = c div 64"
      have x: "c div 4096 = x div 64" "32 \<le> x" "x < 864 \<or> 896 \<le> x"
        using three assms by (auto simp: x_def scalar_def div_mult2_eq [symmetric])
      then have "c div 4096 = 0 \<Longrightarrow> 32 \<le> c div 64 mod 64" "c div 4096 = 13 \<Longrightarrow> c div 64 mod 64 < 32"
        using digit64(1,2) [of x] by (simp_all only: x_def)
      moreover have "c div 64 mod 64 < 64" by simp
      ultimately show ?thesis using a by (auto simp: utf8_second_def utf8_cont_def)
    qed
    have sum: "c div 4096 * 4096 + c div 64 mod 64 * 64 + c mod 64 = c"
      by (rule digits64)
    have "utf8_char c @ rest = of_nat (224 + c div 4096) # of_nat (128 + c div 64 mod 64) # of_nat (128 + c mod 64) # rest"
      "length (utf8_char c) = 3" using three by (simp_all add: utf8_char_def)
    then show ?thesis
      using take_three [of "of_nat (224 + c div 4096)" "c div 4096" "of_nat (128 + c div 64 mod 64)" "c div 64 mod 64"
          "of_nat (128 + c mod 64)" "c mod 64" rest] a second sum byte
      by (simp del: of_nat_add)
  next
    case four
    then have a: "c div 262144 \<le> 4" by auto
    have second: "utf8_second (240 + c div 262144) (128 + c div 4096 mod 64)"
    proof -
      define y where "y = c div 4096"
      have y: "c div 262144 = y div 64" "16 \<le> y" "y < 272"
        using four by (auto simp: y_def div_mult2_eq [symmetric])
      then have "c div 262144 = 0 \<Longrightarrow> 16 \<le> c div 4096 mod 64" "c div 262144 = 4 \<Longrightarrow> c div 4096 mod 64 < 16"
        using digit64(3,4) [of y] by (simp_all only: y_def)
      moreover have "c div 4096 mod 64 < 64" by simp
      ultimately show ?thesis using a by (auto simp: utf8_second_def utf8_cont_def)
    qed
    have sum: "c div 262144 * 262144 + c div 4096 mod 64 * 4096 + c div 64 mod 64 * 64 + c mod 64 = c"
      by (rule digits64)
    have "utf8_char c @ rest = of_nat (240 + c div 262144) # of_nat (128 + c div 4096 mod 64) # of_nat (128 + c div 64 mod 64)
        # of_nat (128 + c mod 64) # rest" "length (utf8_char c) = 4" using four by (simp_all add: utf8_char_def)
    then show ?thesis
      using take_four [of "of_nat (240 + c div 262144)" "c div 262144" "of_nat (128 + c div 4096 mod 64)" "c div 4096 mod 64"
          "of_nat (128 + c div 64 mod 64)" "c div 64 mod 64" "of_nat (128 + c mod 64)" "c mod 64" rest] a second sum byte
      by (simp del: of_nat_add)
  qed
qed

lemma utf8_char_ne [simp]: "utf8_char c \<noteq> []"
  by (simp add: utf8_char_def)

lemma utf8_lossy_bytes: "list_all scalar s \<Longrightarrow> utf8_lossy (utf8_bytes s) = s"
proof (induction s)
  case Nil
  then show ?case by (simp add: utf8_bytes_def utf8_lossy.simps)
next
  case (Cons c s)
  then show ?case
    using utf8_take_char [of c "utf8_bytes s"] utf8_lossy.simps [of "utf8_bytes (c # s)"]
    by (simp add: utf8_bytes_def)
qed

lemma utf8_strict_bytes: "list_all scalar s \<Longrightarrow> utf8_strict (utf8_bytes s) = Some s"
proof (induction s)
  case Nil
  then show ?case by (simp add: utf8_bytes_def utf8_strict.simps)
next
  case (Cons c s)
  then show ?case
    using utf8_take_char [of c "utf8_bytes s"] utf8_strict.simps [of "utf8_bytes (c # s)"]
    by (simp add: utf8_bytes_def)
qed

lemma utf8_strict_lossy: "utf8_strict bs = Some s \<Longrightarrow> utf8_lossy bs = s"
proof (induction "length bs" arbitrary: bs s rule: less_induct)
  case less
  show ?case
  proof (cases "bs = []")
    case True
    then show ?thesis using less.prems by (simp add: utf8_strict.simps utf8_lossy.simps)
  next
    case False
    then have "length (drop (snd (utf8_take bs)) bs) < length bs" using utf8_take_pos [of bs] by (simp add: diff_less)
    then show ?thesis
      using less False utf8_strict.simps [of bs] utf8_lossy.simps [of bs] by (auto split: option.splits)
  qed
qed

end
