(* ===== verification/RR_Sortcols.thy ===== *)
theory RR_Sortcols imports RR_Utf8 RR_Fetch "HOL-Library.Product_Lexorder" "HOL-Library.Multiset" begin

text \<open>
  The sort-column store \<open>RRSC\<close>: \<open>rust/src/sortcols.rs\<close> (the reader) and \<open>write_sortcols\<close>,
  \<open>write_perm\<close> of \<open>rust/src/build.rs\<close> (the writer).  Column values keep their machine width;
  \<open>as_f64\<close>, used only for comparing, is the exact value of a number in units of \<open>2 ^ -149\<close>
  (the smallest \<open>f32\<close> step), or \<open>None\<close> for a NaN.

  Shown: a written store reads back, value by value, by coalesced gathers and by slices; \<open>topk\<close>
  sorts by (value, document) when no value is a NaN, and hands \<open>sort_by\<close> an inconsistent order when
  one is; no bytes make the reader panic, except \<open>topk\<close> on a NaN.
\<close>

unbundle bit_operations_syntax

section \<open>Values\<close>

datatype value_type = U16T | U32T | I32T | F32T

datatype col_value = VU16 "16 word" | VU32 "32 word" | VI32 "32 word" | VF32 "32 word"

definition type_of_code :: "nat \<Rightarrow> value_type option" where
  "type_of_code code =
     (if code = 1 then Some U16T else if code = 2 then Some U32T
      else if code = 3 then Some I32T else if code = 4 then Some F32T else None)"

definition type_width :: "value_type \<Rightarrow> nat" where
  "type_width t = (if t = U16T then 2 else 4)"

definition decode_value :: "value_type \<Rightarrow> bytes \<Rightarrow> nat \<Rightarrow> col_value ires" where
  "decode_value t buf off =
     (case t of
        U16T \<Rightarrow> map_ok (\<lambda>v. VU16 (of_nat v)) (read_u16 buf off)
      | U32T \<Rightarrow> map_ok (\<lambda>v. VU32 (of_nat v)) (read_u32 buf off)
      | I32T \<Rightarrow> map_ok (\<lambda>v. VI32 (of_nat v)) (read_u32 buf off)
      | F32T \<Rightarrow> map_ok (\<lambda>v. VF32 (of_nat v)) (read_u32 buf off))"

text \<open>An IEEE-754 single: sign, 8 exponent bits, 23 fraction bits.\<close>

definition f32_key :: "32 word \<Rightarrow> int option" where
  "f32_key w =
     (let e = unat (drop_bit 23 w AND 255); m = unat (w AND 8388607);
          mag = (if e = 0 then int m else (8388608 + int m) * 2 ^ (e - 1))
      in if e = 255 \<and> m \<noteq> 0 then None else Some (if bit w 31 then - mag else mag))"

definition as_f64 :: "col_value \<Rightarrow> int option" where
  "as_f64 v =
     (case v of
        VU16 x \<Rightarrow> Some (uint x * 2 ^ 149)
      | VU32 x \<Rightarrow> Some (uint x * 2 ^ 149)
      | VI32 x \<Rightarrow> Some (sint x * 2 ^ 149)
      | VF32 x \<Rightarrow> f32_key x)"

section \<open>Sorting by a comparator\<close>

text \<open>
  \<open>slice::sort_by\<close>: the stable sort when the comparator is a total order on the slice; the standard
  library promises nothing otherwise and may panic, which is taken as its answer.
\<close>

datatype ordering = Less | Equal | Greater

definition compare :: "'a :: linorder \<Rightarrow> 'a \<Rightarrow> ordering" where
  "compare a b = (if a < b then Less else if a = b then Equal else Greater)"

definition then_cmp :: "ordering \<Rightarrow> ordering \<Rightarrow> ordering" where
  "then_cmp a b = (if a = Equal then b else a)"

definition total_cmp :: "('a \<Rightarrow> 'a \<Rightarrow> ordering) \<Rightarrow> 'a list \<Rightarrow> bool" where
  "total_cmp cmp xs \<longleftrightarrow>
     list_all (\<lambda>a. list_all (\<lambda>b.
       (cmp a b = Less \<longleftrightarrow> cmp b a = Greater)
       \<and> list_all (\<lambda>c. cmp a b \<noteq> Greater \<and> cmp b c \<noteq> Greater \<longrightarrow> cmp a c \<noteq> Greater) xs) xs) xs"

fun insert_by :: "('a \<Rightarrow> 'a \<Rightarrow> ordering) \<Rightarrow> 'a \<Rightarrow> 'a list \<Rightarrow> 'a list" where
  "insert_by cmp x [] = [x]"
| "insert_by cmp x (y # ys) = (if cmp x y \<noteq> Greater then x # y # ys else y # insert_by cmp x ys)"

definition sort_by :: "('a \<Rightarrow> 'a \<Rightarrow> ordering) \<Rightarrow> 'a list \<Rightarrow> ('e, 'a list) outcome" where
  "sort_by cmp xs = (if total_cmp cmp xs then Ok (foldr (insert_by cmp) xs []) else Panic)"

section \<open>The reader\<close>

record col_info =
  ci_name :: rstring
  ci_type :: value_type
  ci_data_off :: nat

record sort_cols =
  sc_rows :: nat
  sc_columns :: "col_info list"

definition sc_header :: nat where "sc_header = 16"
definition sc_entry :: nat where "sc_entry = 24"
definition sc_span_gap :: nat where "sc_span_gap = 4096"
definition sc_magic :: bytes where "sc_magic = ascii ''RRSC''"

definition sc_read_name :: "nat \<Rightarrow> bytes \<Rightarrow> nat \<Rightarrow> nat \<Rightarrow> nat \<Rightarrow> nat \<Rightarrow> rstring ires" where
  "sc_read_name um buf str_blob str_bytes off len =
     (case checked_add um off len of
        None \<Rightarrow> Err (Malformed ''RRSC name out of string blob'')
      | Some e \<Rightarrow>
          if e \<le> str_bytes then map_ok utf8_lossy (cut_p buf (str_blob + off) (str_blob + e))
          else Err (Malformed ''RRSC name out of string blob''))"

definition sc_read_column :: "nat \<Rightarrow> bytes \<Rightarrow> nat \<Rightarrow> nat \<Rightarrow> nat \<Rightarrow> nat \<Rightarrow> col_info ires" where
  "sc_read_column um buf str_blob str_bytes rows i =
     (let b = sc_header + i * sc_entry in
      bind_o (read_u32 buf b) (\<lambda>name_off.
      bind_o (read_u16 buf (b + 4)) (\<lambda>name_len.
      bind_o (nth_p buf (b + 6)) (\<lambda>code.
      bind_o (ok_or (type_of_code (unat code)) (Malformed ''RRSC unknown value type'')) (\<lambda>value_type.
      bind_o (read_u64 buf (b + 8)) (\<lambda>data_off.
      bind_o (read_u32 buf (b + 16)) (\<lambda>col_rows.
      if col_rows \<noteq> rows then Err (Malformed ''RRSC column row count mismatch'')
      else bind_o (sc_read_name um buf str_blob str_bytes name_off name_len) (\<lambda>name.
        Ok \<lparr>ci_name = name, ci_type = value_type, ci_data_off = data_off\<rparr>))))))))"

definition sc_open :: "nat \<Rightarrow> range_read \<Rightarrow> sort_cols ires" where
  "sc_open um f =
     bind_o (rd f 0 sc_header) (\<lambda>header.
     if length header < sc_header then Err (Malformed ''short RRSC header'')
     else if cut header 0 4 \<noteq> sc_magic then Err (BadMagic (cut header 0 4))
     else
       bind_o (read_u16 header 4) (\<lambda>version.
       if version \<noteq> 1 then Err (BadVersion version)
       else
         bind_o (read_u16 header 6) (\<lambda>col_count.
         bind_o (read_u32 header 8) (\<lambda>rows.
         bind_o (read_u32 header 12) (\<lambda>str_bytes.
         bind_o (ok_or (Option.bind (checked_mul um col_count sc_entry) (\<lambda>x. checked_add um x sc_header))
                   (Malformed ''RRSC column table size overflow'')) (\<lambda>str_blob.
         bind_o (ok_or (checked_add um str_blob str_bytes) (Malformed ''RRSC meta size overflow'')) (\<lambda>meta_len.
         bind_o (rd f 0 meta_len) (\<lambda>buf.
         if length buf < meta_len then Err (Malformed ''RRSC meta region truncated'')
         else bind_o (mapM_o (sc_read_column um buf str_blob str_bytes rows) [0..<col_count]) (\<lambda>columns.
           Ok \<lparr>sc_rows = rows, sc_columns = columns\<rparr>)))))))))"

definition sc_column :: "sort_cols \<Rightarrow> nat \<Rightarrow> col_info ires" where
  "sc_column sc col =
     (if col < length (sc_columns sc) then Ok (sc_columns sc ! col)
      else Err (BadQuery ''sortcols column index out of range''))"

fun column_index_from :: "nat \<Rightarrow> rstring \<Rightarrow> col_info list \<Rightarrow> nat option" where
  "column_index_from i name [] = None"
| "column_index_from i name (c # cs) = (if ci_name c = name then Some i else column_index_from (i + 1) name cs)"

definition column_index :: "sort_cols \<Rightarrow> rstring \<Rightarrow> nat option" where
  "column_index sc name = column_index_from 0 name (sc_columns sc)"

text \<open>One offset-sorted read joins the last span when it starts within the gap.\<close>

definition sc_span_step ::
  "nat list \<Rightarrow> nat \<Rightarrow> (nat \<times> nat) list \<times> nat list \<Rightarrow> nat \<Rightarrow> (nat \<times> nat) list \<times> nat list" where
  "sc_span_step ids w st i =
     (let (spans, span_of) = st; s = ids ! i * w; e = s + w;
          spans' = (if spans \<noteq> [] \<and> s \<le> snd (last spans) + sc_span_gap
                    then butlast spans @ [(fst (last spans), max e (snd (last spans)))]
                    else spans @ [(s, e)])
      in (spans', span_of[i := length spans' - 1]))"

definition sc_pick ::
  "nat \<Rightarrow> value_type \<Rightarrow> nat \<Rightarrow> nat list \<Rightarrow> (nat \<times> nat) list \<Rightarrow> nat list \<Rightarrow> bytes list \<Rightarrow> nat \<Rightarrow> col_value ires" where
  "sc_pick um t w ids spans span_of datas i =
     bind_o (nth_p span_of i) (\<lambda>span.
     bind_o (nth_p spans span) (\<lambda>(s, _).
     bind_o (sub_p (ids ! i * w) s) (\<lambda>rel0.
     let rel = rel0 mod um in
     bind_o (nth_p datas span) (\<lambda>d.
     bind_o (add_p um rel w) (\<lambda>stop.
     if stop > length d then Err (Malformed ''RRSC column read truncated'')
     else decode_value t d rel)))))"

definition sc_values :: "nat \<Rightarrow> range_read \<Rightarrow> sort_cols \<Rightarrow> nat \<Rightarrow> nat list \<Rightarrow> col_value list ires" where
  "sc_values um f sc col ids =
     bind_o (sc_column sc col) (\<lambda>info.
     if ids = [] then Ok []
     else
       let w = type_width (ci_type info); order = sort_key (\<lambda>i. ids ! i) [0..<length ids] in
       if ids ! last order \<ge> sc_rows sc then Err (BadQuery ''sortcols doc id out of range'')
       else
         let (spans, span_of) = foldl (sc_span_step ids w) ([], replicate (length ids) 0) order in
         bind_o (wave (\<lambda>(s, e). rd f (sat_add U64 (ci_data_off info) s) ((e - s) mod um)) spans) (\<lambda>datas.
         mapM_o (sc_pick um (ci_type info) w ids spans span_of datas) [0..<length ids]))"

definition sc_values_u32 :: "nat \<Rightarrow> range_read \<Rightarrow> sort_cols \<Rightarrow> nat \<Rightarrow> nat list \<Rightarrow> (32 word) list ires" where
  "sc_values_u32 um f sc col ids =
     bind_o (sc_column sc col) (\<lambda>info.
     if ci_type info \<noteq> U32T then Err (BadQuery ''sortcols column is not u32'')
     else bind_o (sc_values um f sc col ids) (mapM_o (\<lambda>v. case v of VU32 x \<Rightarrow> Ok x | _ \<Rightarrow> Panic)))"

definition sc_value :: "nat \<Rightarrow> range_read \<Rightarrow> sort_cols \<Rightarrow> nat \<Rightarrow> nat \<Rightarrow> (col_value option) ires" where
  "sc_value um f sc col doc =
     (if doc \<ge> sc_rows sc then Ok None
      else map_ok (\<lambda>vs. case vs of [] \<Rightarrow> None | v # _ \<Rightarrow> Some v) (sc_values um f sc col [doc]))"

definition slice_u32 :: "nat \<Rightarrow> range_read \<Rightarrow> sort_cols \<Rightarrow> nat \<Rightarrow> nat \<Rightarrow> nat \<Rightarrow> (32 word) list ires" where
  "slice_u32 um f sc col start len =
     bind_o (sc_column sc col) (\<lambda>info.
     if ci_type info \<noteq> U32T then Err (BadQuery ''sortcols column is not u32'')
     else
       let avail = sc_rows sc - start; n = min len avail mod um in
       if n = 0 then Ok []
       else
         bind_o (mul_p um n 4) (\<lambda>bytes.
         bind_o (rd f (sat_add U64 (ci_data_off info) (start * 4)) bytes) (\<lambda>buf.
         if length buf < bytes then Err (Malformed ''RRSC u32 slice truncated'')
         else mapM_o (\<lambda>i. map_ok of_nat (read_u32 buf (i * 4))) [0..<n])))"

definition value_cmp :: "int option \<Rightarrow> int option \<Rightarrow> ordering" where
  "value_cmp a b = (case (a, b) of (Some x, Some y) \<Rightarrow> compare x y | _ \<Rightarrow> Equal)"

definition topk_cmp :: "bool \<Rightarrow> nat \<times> int option \<Rightarrow> nat \<times> int option \<Rightarrow> ordering" where
  "topk_cmp descending a b =
     then_cmp (if descending then value_cmp (snd b) (snd a) else value_cmp (snd a) (snd b)) (compare (fst a) (fst b))"

definition topk :: "nat \<Rightarrow> range_read \<Rightarrow> sort_cols \<Rightarrow> nat \<Rightarrow> nat list \<Rightarrow> nat \<Rightarrow> bool \<Rightarrow> nat list ires" where
  "topk um f sc col candidates k descending =
     bind_o (sc_values um f sc col candidates) (\<lambda>vals.
     bind_o (sort_by (topk_cmp descending) (zip candidates (map as_f64 vals))) (\<lambda>paired.
     Ok (map fst (take k paired))))"

section \<open>The writer\<close>

datatype column_values =
    CU16 "(16 word) list"
  | CU32 "(32 word) list"
  | CI32 "(32 word) list"
  | CF32 "(32 word) list"

record sort_column =
  so_name :: rstring
  so_values :: column_values

definition cv_len :: "column_values \<Rightarrow> nat" where
  "cv_len c = (case c of CU16 v \<Rightarrow> length v | CU32 v \<Rightarrow> length v | CI32 v \<Rightarrow> length v | CF32 v \<Rightarrow> length v)"

definition cv_code :: "column_values \<Rightarrow> nat" where
  "cv_code c = (case c of CU16 _ \<Rightarrow> 1 | CU32 _ \<Rightarrow> 2 | CI32 _ \<Rightarrow> 3 | CF32 _ \<Rightarrow> 4)"

definition cv_width :: "column_values \<Rightarrow> nat" where
  "cv_width c = (case c of CU16 _ \<Rightarrow> 2 | _ \<Rightarrow> 4)"

definition cv_bytes :: "column_values \<Rightarrow> bytes" where
  "cv_bytes c =
     (case c of
        CU16 v \<Rightarrow> concat (map (\<lambda>x. to_le 2 (unat x)) v)
      | CU32 v \<Rightarrow> concat (map (\<lambda>x. to_le 4 (unat x)) v)
      | CI32 v \<Rightarrow> concat (map (\<lambda>x. to_le 4 (unat x)) v)
      | CF32 v \<Rightarrow> concat (map (\<lambda>x. to_le 4 (unat x)) v))"

definition blob_step :: "bytes \<times> (nat \<times> nat) list \<Rightarrow> sort_column \<Rightarrow> (bytes \<times> (nat \<times> nat) list) io" where
  "blob_step st c =
     (let (blob, name_spans) = st; name = utf8_bytes (so_name c) in
      bind_o (u32_len (length blob) ''sortcols string blob'') (\<lambda>off.
      bind_o (ok_or (try_from U16 (length name)) ''sortcols column name exceeds the 16-bit length limit'') (\<lambda>name_len.
      Ok (blob @ name, name_spans @ [(off, name_len)]))))"

fun write_column_table :: "nat \<Rightarrow> nat \<Rightarrow> (sort_column \<times> nat \<times> nat) list \<Rightarrow> bytes io" where
  "write_column_table rows off [] = Ok []"
| "write_column_table rows off ((c, name_off, name_len) # rest) =
     bind_o (mul_p U64 rows (cv_width (so_values c))) (\<lambda>size.
     bind_o (add_p U64 off size) (\<lambda>off'.
     map_ok ((@) (to_le 4 name_off @ to_le 2 name_len @ [of_nat (cv_code (so_values c))] @ [0] @ to_le 8 off
       @ to_le 4 (rows mod U32) @ to_le 4 0)) (write_column_table rows off' rest)))"

definition write_sortcols :: "sort_column list \<Rightarrow> bytes io" where
  "write_sortcols cols =
     (let rows = (case cols of [] \<Rightarrow> 0 | c # _ \<Rightarrow> cv_len (so_values c)) in
      if list_ex (\<lambda>c. cv_len (so_values c) \<noteq> rows) cols then Err ''sortcols columns must all have the same length''
      else if length cols > U16 - 1 then Err ''sortcols column count exceeds the 16-bit limit''
      else
        bind_o (foldM_o blob_step ([], []) cols) (\<lambda>(blob, name_spans).
        bind_o (u32_len (length blob) ''sortcols string blob'') (\<lambda>blob_len.
        let data_start = sc_header + length cols * sc_entry + length blob in
        bind_o (write_column_table rows data_start (zip cols name_spans)) (\<lambda>table.
        Ok (sc_magic @ to_le 2 1 @ to_le 2 (length cols mod U16) @ to_le 4 (rows mod U32) @ to_le 4 blob_len
            @ table @ blob @ concat (map (\<lambda>c. cv_bytes (so_values c)) cols))))))"

definition primary_name :: rstring where
  "primary_name = map of_char ''primary''"

definition write_perm :: "(32 word) list \<Rightarrow> bytes io" where
  "write_perm primary_of_secondary =
     write_sortcols [\<lparr>so_name = primary_name, so_values = CU32 primary_of_secondary\<rparr>]"

section \<open>Sorting\<close>

lemma compare_simps [simp]:
  "compare a b = Less \<longleftrightarrow> a < b" "compare a b = Greater \<longleftrightarrow> b < a" "compare a b = Equal \<longleftrightarrow> a = b"
  by (auto simp: compare_def)

lemma sort_by_key:
  assumes "\<And>a b. a \<in> set xs \<Longrightarrow> b \<in> set xs \<Longrightarrow> cmp a b = compare (key a) (key b)"
  shows "sort_by cmp xs = Ok (sort_key key xs)"
proof -
  have "total_cmp cmp xs" using assms by (auto simp: total_cmp_def list_all_iff)
  moreover have ins: "insert_by cmp x ys = insort_key key x ys" if "x \<in> set xs" "set ys \<subseteq> set xs" for x ys
    using that assms by (induction ys) (auto simp: not_less)
  have "foldr (insert_by cmp) ys [] = sort_key key ys" if "set ys \<subseteq> set xs" for ys
    using that by (induction ys) (auto simp: ins)
  ultimately show ?thesis by (simp add: sort_by_def)
qed

section \<open>Gathering values\<close>

text \<open>What the store holds for a document: the value at its place in the column's data.\<close>

definition cell :: "bytes \<Rightarrow> col_info \<Rightarrow> nat \<Rightarrow> col_value" where
  "cell content info d =
     (let off = ci_data_off info + d * type_width (ci_type info) in
      case ci_type info of
        U16T \<Rightarrow> VU16 (of_nat (u16_at content off))
      | U32T \<Rightarrow> VU32 (of_nat (u32_at content off))
      | I32T \<Rightarrow> VI32 (of_nat (u32_at content off))
      | F32T \<Rightarrow> VF32 (of_nat (u32_at content off)))"

definition in_span :: "nat list \<Rightarrow> nat \<Rightarrow> (nat \<times> nat) list \<Rightarrow> nat list \<Rightarrow> nat \<Rightarrow> bool" where
  "in_span ids w spans span_of i \<longleftrightarrow> span_of ! i < length spans
     \<and> fst (spans ! (span_of ! i)) \<le> ids ! i * w \<and> ids ! i * w + w \<le> snd (spans ! (span_of ! i))"

definition spans_below :: "nat \<Rightarrow> (nat \<times> nat) list \<Rightarrow> bool" where
  "spans_below B spans \<longleftrightarrow> (\<forall>(s, e) \<in> set spans. s \<le> e \<and> e \<le> B)"

lemma sc_span_step_props:
  assumes st: "length span_of = length ids" "spans_below B spans"
    and i: "i < length ids" "ids ! i * w + w \<le> B" and last: "spans \<noteq> [] \<Longrightarrow> fst (last spans) \<le> ids ! i * w"
    and step: "sc_span_step ids w (spans, span_of) i = (spans', span_of')"
  shows "length span_of' = length ids" "spans_below B spans'" "in_span ids w spans' span_of' i"
    "spans' \<noteq> []" "fst (last spans') \<le> ids ! i * w"
    "j < length ids \<Longrightarrow> in_span ids w spans span_of j \<Longrightarrow> in_span ids w spans' span_of' j"
proof -
  let ?s = "ids ! i * w"
  let ?near = "spans \<noteq> [] \<and> ?s \<le> snd (last spans) + sc_span_gap"
  have sp: "spans' = (if ?near then butlast spans @ [(fst (last spans), max (?s + w) (snd (last spans)))] else spans @ [(?s, ?s + w)])"
    and so: "span_of' = span_of[i := length spans' - 1]"
    using step by (auto simp: sc_span_step_def Let_def split: if_split_asm)
  show "length span_of' = length ids" using st so by simp
  show ne: "spans' \<noteq> []" using sp by auto
  have lastin: "last spans \<in> set spans" if "spans \<noteq> []" using that by simp
  then have lb: "fst (last spans) \<le> snd (last spans) \<and> snd (last spans) \<le> B" if "spans \<noteq> []"
    using st(2) that by (auto simp: spans_below_def case_prod_unfold)
  show "spans_below B spans'"
    using st(2) i(2) lb sp by (auto simp: spans_below_def dest: in_set_butlastD)
  have here: "fst (last spans') \<le> ?s \<and> ?s + w \<le> snd (last spans')" using sp last by auto
  then show "fst (last spans') \<le> ?s" by simp
  show new: "in_span ids w spans' span_of' i"
    using here ne so i(1) st(1) by (simp add: in_span_def last_conv_nth)
  show "in_span ids w spans' span_of' j" if j: "j < length ids" "in_span ids w spans span_of j"
  proof (cases "j = i")
    case True
    then show ?thesis using new by simp
  next
    case False
    let ?k = "span_of ! j"
    have k: "span_of' ! j = ?k" using so False by simp
    have old: "?k < length spans" using j(2) by (simp add: in_span_def)
    have "?k < length spans' \<and> fst (spans' ! ?k) \<le> fst (spans ! ?k) \<and> snd (spans ! ?k) \<le> snd (spans' ! ?k)"
    proof (cases ?near)
      case True
      then have eq: "spans' = butlast spans @ [(fst (last spans), max (?s + w) (snd (last spans)))]" using sp by simp
      then show ?thesis using old True by (cases "?k = length spans - 1") (auto simp: nth_append nth_butlast last_conv_nth)
    next
      case False
      then have "spans' = spans @ [(?s, ?s + w)]" using sp by (simp only: if_not_P [OF False] if_False)
      then show ?thesis using old by (simp add: nth_append)
    qed
    then show ?thesis using j(2) k by (auto simp: in_span_def)
  qed
qed

lemma sc_spans:
  assumes "sorted (map ((!) ids) order)" "set order \<subseteq> {..<length ids}" "\<forall>i \<in> set order. ids ! i * w + w \<le> B"
    and "length span_of = length ids" "spans_below B spans" "\<forall>i \<in> set order. spans \<noteq> [] \<longrightarrow> fst (last spans) \<le> ids ! i * w"
    and "foldl (sc_span_step ids w) (spans, span_of) order = (spans', span_of')"
  shows "length span_of' = length ids \<and> spans_below B spans' \<and> (\<forall>i \<in> set order. in_span ids w spans' span_of' i)
    \<and> (\<forall>j < length ids. in_span ids w spans span_of j \<longrightarrow> in_span ids w spans' span_of' j)"
  using assms
proof (induction order arbitrary: spans span_of)
  case Nil
  then show ?case by simp
next
  case (Cons i order)
  obtain sp so where step: "sc_span_step ids w (spans, span_of) i = (sp, so)" by fastforce
  have i: "i < length ids" "ids ! i * w + w \<le> B" "spans \<noteq> [] \<Longrightarrow> fst (last spans) \<le> ids ! i * w"
    using Cons.prems(2,3,6) by auto
  note p = sc_span_step_props [OF Cons.prems(4,5) i step]
  have later: "ids ! i * w \<le> ids ! j * w" if "j \<in> set order" for j
    using Cons.prems(1) that by (auto intro: mult_right_mono)
  have "length span_of' = length ids \<and> spans_below B spans' \<and> (\<forall>i \<in> set order. in_span ids w spans' span_of' i)
      \<and> (\<forall>j < length ids. in_span ids w sp so j \<longrightarrow> in_span ids w spans' span_of' j)"
  proof (rule Cons.IH)
    show "\<forall>j \<in> set order. sp \<noteq> [] \<longrightarrow> fst (last sp) \<le> ids ! j * w" using p(5) later by (auto intro: order_trans)
    show "foldl (sc_span_step ids w) (sp, so) order = (spans', span_of')" using Cons.prems(7) step by simp
  qed (use Cons.prems p in auto)
  then show ?case using p(3,6) i(1) by auto
qed

lemma gather_order:
  assumes "ids \<noteq> []"
  defines "order \<equiv> sort_key (\<lambda>i. ids ! i) [0..<length ids]"
  shows "sorted (map ((!) ids) order)" "set order = {..<length ids}" "ids ! last order = Max (set ids)"
proof -
  show s: "sorted (map ((!) ids) order)" unfolding order_def by simp
  show all: "set order = {..<length ids}" unfolding order_def by auto
  have "set order \<noteq> {}" unfolding all using assms(1) by (metis length_0_conv lessThan_0 lessThan_eq_iff)
  then have ne: "order \<noteq> []" by blast
  have "\<forall>i \<in> set order. ids ! i \<le> ids ! last order"
  proof
    fix i assume "i \<in> set order"
    then obtain k where k: "k < length order" "order ! k = i" by (metis in_set_conv_nth)
    then have "map ((!) ids) order ! k \<le> map ((!) ids) order ! (length order - 1)"
      by (intro sorted_nth_mono [OF s]) simp_all
    then show "ids ! i \<le> ids ! last order" using k ne by (simp add: last_conv_nth)
  qed
  then have "\<forall>d \<in> set ids. d \<le> ids ! last order" by (metis all in_set_conv_nth lessThan_iff)
  moreover have "last order \<in> {..<length ids}" unfolding all [symmetric] using ne by simp
  then have "ids ! last order \<in> set ids" by simp
  ultimately show "ids ! last order = Max (set ids)" by (metis List.finite_set Max_eqI)
qed

lemma decode_cut:
  assumes "ci_data_off info + d * type_width (ci_type info) = s + off" "off + type_width (ci_type info) \<le> e - s" "e \<le> length content"
  shows "decode_value (ci_type info) (cut content s e) off = Ok (cell content info d)"
  using assms by (cases "ci_type info") (simp_all add: decode_value_def cell_def type_width_def le_cut_simps)

context full_fetch
begin

lemma values_ok:
  assumes col: "col < length (sc_columns sc)" and rows: "\<forall>d \<in> set ids. d < sc_rows sc"
    and data: "ci_data_off (sc_columns sc ! col) + sc_rows sc * type_width (ci_type (sc_columns sc ! col)) \<le> length content"
    and space: "length content < lim" "lim \<le> um" "length content < U64"
  shows "sc_values um fetch sc col ids = Ok (map (cell content (sc_columns sc ! col)) ids)"
proof (cases "ids = []")
  case True
  then show ?thesis using col by (simp add: sc_values_def sc_column_def)
next
  case False
  let ?info = "sc_columns sc ! col"
  let ?w = "type_width (ci_type ?info)" and ?off = "ci_data_off ?info"
  let ?order = "sort_key (\<lambda>i. ids ! i) [0..<length ids]" and ?B = "sc_rows sc * type_width (ci_type ?info)"
  note ord = gather_order [OF False]
  have "Max (set ids) < sc_rows sc" using rows False by (simp add: Max_less_iff)
  then have inr: "\<not> ids ! last ?order \<ge> sc_rows sc" using ord(3) by simp
  obtain spans so where fold: "foldl (sc_span_step ids ?w) ([], replicate (length ids) 0) ?order = (spans, so)" by fastforce
  have bound: "ids ! i * ?w + ?w \<le> ?B" if "i < length ids" for i
  proof -
    have "(ids ! i + 1) * ?w \<le> ?B" using rows that by (intro mult_right_mono) (auto simp: Suc_le_eq)
    then show ?thesis by simp
  qed
  have sp: "length so = length ids" "spans_below ?B spans" "\<forall>i < length ids. in_span ids ?w spans so i"
    using sc_spans [OF ord(1) _ _ _ _ _ fold, of ?B] ord(2) bound by (auto simp: spans_below_def)
  let ?rd = "\<lambda>(s, e). rd fetch (sat_add U64 ?off s) ((e - s) mod um)"
  let ?d = "\<lambda>(s, e). cut content (?off + s) (?off + e)"
  have "?rd (s, e) = Ok (?d (s, e))" if "(s, e) \<in> set spans" for s e
  proof -
    have se: "s \<le> e" "?off + e \<le> length content" using sp(2) that data by (auto simp: spans_below_def)
    then have "sat_add U64 ?off s = ?off + s" using space(3) by (intro sat_add_exact) simp
    moreover have "(e - s) mod um = e - s" using se space(1,2) by simp
    moreover have "rd fetch (?off + s) (e - s) = Ok (cut content (?off + s) (?off + s + (e - s)))"
      using se space(1) by (intro rd_ok) simp_all
    ultimately show ?thesis using se(1) by (simp del: rd_Ok_iff)
  qed
  then have "wave ?rd spans = Ok (map ?d spans)" by (intro wave_map) auto
  moreover have "sc_pick um (ci_type ?info) ?w ids spans so (map ?d spans) i = Ok (cell content ?info (ids ! i))" if i: "i < length ids" for i
  proof -
    obtain s e where se: "spans ! (so ! i) = (s, e)" by fastforce
    have k: "so ! i < length spans" "s \<le> ids ! i * ?w" "ids ! i * ?w + ?w \<le> e"
      using sp(3) i se by (auto simp: in_span_def)
    have e: "s \<le> e" "?off + e \<le> length content" using sp(2) k(1) se data nth_mem [OF k(1)] by (auto simp: spans_below_def)
    let ?rel = "ids ! i * ?w - s"
    have small: "?rel + ?w < um" using k e space by linarith
    have "decode_value (ci_type ?info) (cut content (?off + s) (?off + e)) ?rel = Ok (cell content ?info (ids ! i))"
      using k e by (intro decode_cut) simp_all
    moreover have "length (cut content (?off + s) (?off + e)) = e - s" using e by simp
    moreover have "?rel + ?w \<le> e - s" using k by linarith
    ultimately show ?thesis using k(1,2) i sp(1) se small by (simp add: sc_pick_def Let_def)
  qed
  then have "mapM_o (sc_pick um (ci_type ?info) ?w ids spans so (map ?d spans)) [0..<length ids]
      = Ok (map (\<lambda>i. cell content ?info (ids ! i)) [0..<length ids])"
    by (intro mapM_o_map) auto
  moreover have "map (\<lambda>i. cell content ?info (ids ! i)) [0..<length ids] = map (cell content ?info) ids"
    by (intro nth_equalityI) simp_all
  ultimately show ?thesis
    using col False inr fold by (simp add: sc_values_def sc_column_def Let_def del: rd_Ok_iff)
qed

lemma slice_ok:
  assumes col: "col < length (sc_columns sc)" and t: "ci_type (sc_columns sc ! col) = U32T"
    and data: "ci_data_off (sc_columns sc ! col) + sc_rows sc * 4 \<le> length content"
    and space: "length content < lim" "lim \<le> um" "length content < U64"
  shows "slice_u32 um fetch sc col start len
    = Ok (map (\<lambda>d. of_nat (u32_at content (ci_data_off (sc_columns sc ! col) + d * 4))) [start..<min (start + len) (sc_rows sc)])"
proof -
  let ?off = "ci_data_off (sc_columns sc ! col)" and ?n = "min len (sc_rows sc - start)"
  have rows4: "sc_rows sc * 4 < um" using data space by linarith
  then have n: "?n mod um = ?n" by simp
  have list: "[start..<min (start + len) (sc_rows sc)] = map (\<lambda>i. start + i) [0..<?n]"
  proof (rule nth_equalityI)
    fix i assume "i < length [start..<min (start + len) (sc_rows sc)]"
    then have "i < ?n" "start + i < min (start + len) (sc_rows sc)" by auto
    then show "[start..<min (start + len) (sc_rows sc)] ! i = map (\<lambda>i. start + i) [0..<?n] ! i" by simp
  qed auto
  show ?thesis
  proof (cases "?n = 0")
    case True
    then show ?thesis unfolding list using col t by (simp add: slice_u32_def sc_column_def n Let_def)
  next
    case False
    have le: "?off + start * 4 + ?n * 4 \<le> length content" using data False by (auto simp: min_def)
    have sat: "sat_add U64 ?off (start * 4) = ?off + start * 4" using le space(3) by (intro sat_add_exact) simp
    have mul: "mul_p um ?n 4 = (Ok (?n * 4) :: nat ires)" using rows4 by (auto simp: min_def)
    let ?buf = "cut content (?off + start * 4) (?off + start * 4 + ?n * 4)"
    have rd: "rd fetch (?off + start * 4) (?n * 4) = Ok ?buf" using le space by (intro rd_ok) simp_all
    have len: "length ?buf = ?n * 4" using le by simp
    have "mapM_o (\<lambda>i. map_ok of_nat (read_u32 ?buf (i * 4))) [0..<?n]
        = (Ok (map (\<lambda>i. of_nat (u32_at content (?off + (start + i) * 4))) [0..<?n]) :: (32 word) list ires)"
    proof (rule mapM_o_map)
      fix i assume "i \<in> set [0..<?n]"
      then have "i * 4 + 4 \<le> ?n * 4" by auto
      moreover from this have "u32_at ?buf (i * 4) = u32_at content (?off + start * 4 + i * 4)"
        using le by (intro u32_at_cut) simp_all
      ultimately show "map_ok of_nat (read_u32 ?buf (i * 4)) = (Ok (of_nat (u32_at content (?off + (start + i) * 4))) :: (32 word) ires)"
        using len by (simp add: map_ok_Ok_iff algebra_simps)
    qed
    then show ?thesis
      unfolding list using col t False sat mul rd len
      by (simp add: slice_u32_def sc_column_def n Let_def comp_def del: rd_Ok_iff)
  qed
qed

end

section \<open>The written layout\<close>

definition cv_nth :: "column_values \<Rightarrow> nat \<Rightarrow> col_value" where
  "cv_nth c d =
     (case c of CU16 v \<Rightarrow> VU16 (v ! d) | CU32 v \<Rightarrow> VU32 (v ! d) | CI32 v \<Rightarrow> VI32 (v ! d) | CF32 v \<Rightarrow> VF32 (v ! d))"

definition cv_type :: "column_values \<Rightarrow> value_type" where
  "cv_type c = (case c of CU16 _ \<Rightarrow> U16T | CU32 _ \<Rightarrow> U32T | CI32 _ \<Rightarrow> I32T | CF32 _ \<Rightarrow> F32T)"

lemma cv_type_code: "type_of_code (cv_code c) = Some (cv_type c)" "type_width (cv_type c) = cv_width c" "cv_code c < 256"
  by (cases c; simp add: type_of_code_def cv_code_def cv_type_def type_width_def cv_width_def)+

lemma length_cv_bytes: "length (cv_bytes c) = cv_len c * cv_width c"
proof -
  have "length (concat (map (\<lambda>x. to_le 2 (unat x)) v)) = length v * 2" for v :: "(16 word) list"
    by (rule concat_rows_length) simp
  moreover have "length (concat (map (\<lambda>x. to_le 4 (unat x)) v)) = length v * 4" for v :: "(32 word) list"
    by (rule concat_rows_length) simp
  ultimately show ?thesis by (cases c) (simp_all only: cv_bytes_def cv_len_def cv_width_def column_values.case)
qed

lemma cell_written:
  assumes "length pre = ci_data_off info" "ci_type info = cv_type c" "d < cv_len c"
  shows "cell (pre @ cv_bytes c @ post) info d = cv_nth c d"
proof -
  have u16: "u16_at (pre @ concat (map (\<lambda>x. to_le 2 (unat x)) v) @ post) (ci_data_off info + d * 2) = unat (v ! d)"
    if "d < length v" for v :: "(16 word) list"
  proof -
    have "cut (pre @ concat (map (\<lambda>x. to_le 2 (unat x)) v) @ post) (ci_data_off info + d * 2) (ci_data_off info + d * 2 + 2) = to_le 2 (unat (v ! d))"
      by (rule cut_row_mid [OF assms(1) _ that]) simp
    moreover have "unat (v ! d) < 65536" using unsigned_less [of "v ! d", where 'a = nat] by simp
    ultimately show ?thesis by (simp add: u16_at_def from_le_to_le)
  qed
  have u32: "u32_at (pre @ concat (map (\<lambda>x. to_le 4 (unat x)) v) @ post) (ci_data_off info + d * 4) = unat (v ! d)"
    if "d < length v" for v :: "(32 word) list"
  proof -
    have "cut (pre @ concat (map (\<lambda>x. to_le 4 (unat x)) v) @ post) (ci_data_off info + d * 4) (ci_data_off info + d * 4 + 4) = to_le 4 (unat (v ! d))"
      by (rule cut_row_mid [OF assms(1) _ that]) simp
    moreover have "unat (v ! d) < 4294967296" using unsigned_less [of "v ! d", where 'a = nat] by simp
    ultimately show ?thesis by (simp add: u32_at_def from_le_to_le)
  qed
  show ?thesis
    using assms(2,3) u16 u32
    by (cases c) (simp_all add: cell_def cv_bytes_def cv_nth_def cv_type_def cv_len_def type_width_def)
qed

definition blob_of :: "sort_column list \<Rightarrow> bytes" where
  "blob_of cols = concat (map (\<lambda>c. utf8_bytes (so_name c)) cols)"

lemma blob_step_Ok_iff:
  "blob_step (blob, sp) c = Ok st \<longleftrightarrow> length blob < U32 \<and> length (utf8_bytes (so_name c)) < U16
     \<and> st = (blob @ utf8_bytes (so_name c), sp @ [(length blob, length (utf8_bytes (so_name c)))])"
  by (auto simp: blob_step_def u32_len_def Let_def bind_o_Ok_iff)

lemma blob_steps:
  assumes "foldM_o blob_step (blob, sp) cols = Ok (blob', sp')"
  shows "blob' = blob @ blob_of cols \<and> length sp' = length sp + length cols \<and> take (length sp) sp' = sp
    \<and> (\<forall>i < length cols. sp' ! (length sp + i) = (length (blob @ blob_of (take i cols)), length (utf8_bytes (so_name (cols ! i))))
        \<and> length (blob @ blob_of (take i cols)) < U32 \<and> length (utf8_bytes (so_name (cols ! i))) < U16)"
  using assms
proof (induction cols arbitrary: blob sp)
  case Nil
  then show ?case by (simp add: blob_of_def)
next
  case (Cons c cols)
  let ?n = "utf8_bytes (so_name c)"
  have b: "length blob < U32" "length ?n < U16"
    and rest: "foldM_o blob_step (blob @ ?n, sp @ [(length blob, length ?n)]) cols = Ok (blob', sp')"
    using Cons.prems by (auto simp: blob_step_Ok_iff bind_o_Ok_iff)
  note ih = Cons.IH [OF rest]
  have head: "sp' ! length sp = (length blob, length ?n)" "take (length sp) sp' = sp"
  proof -
    have t: "take (Suc (length sp)) sp' = sp @ [(length blob, length ?n)]" using ih by simp
    then show "sp' ! length sp = (length blob, length ?n)" by (metis lessI nth_append_length nth_take)
    show "take (length sp) sp' = sp" using t by (metis append_eq_conv_conj butlast_snoc butlast_take diff_Suc_1 ih length_append_singleton take_take min.absorb1 le_add1)
  qed
  show ?case
    unfolding All_less_Suc2 length_Cons
    using ih head b by (auto simp: blob_of_def)
qed

definition encode_entry :: "nat \<Rightarrow> (sort_column \<times> nat \<times> nat) \<times> nat \<Rightarrow> bytes" where
  "encode_entry rows = (\<lambda>((c, noff, nlen), off). to_le 4 noff @ to_le 2 nlen @ [of_nat (cv_code (so_values c))] @ [0] @ to_le 8 off
       @ to_le 4 (rows mod U32) @ to_le 4 0)"

fun col_offs :: "nat \<Rightarrow> nat \<Rightarrow> sort_column list \<Rightarrow> nat list" where
  "col_offs rows off [] = []"
| "col_offs rows off (c # cs) = off # col_offs rows (off + rows * cv_width (so_values c)) cs"

lemma length_col_offs [simp]: "length (col_offs rows off cs) = length cs"
  by (induction rows off cs rule: col_offs.induct) simp_all

lemma col_offs_nth:
  "i < length cs \<Longrightarrow> col_offs rows off cs ! i = off + (\<Sum>c\<leftarrow>take i cs. rows * cv_width (so_values c))"
  by (induction rows off cs arbitrary: i rule: col_offs.induct) (auto simp: nth_Cons split: nat.splits)

lemma column_table:
  "write_column_table rows off zs = Ok t \<Longrightarrow>
   t = concat (map (encode_entry rows) (zip zs (col_offs rows off (map fst zs)))) \<and> (\<forall>o' \<in> set (col_offs rows off (map fst zs)). o' < U64)"
  by (induction rows off zs arbitrary: t rule: write_column_table.induct)
     (auto simp: bind_o_Ok_iff map_ok_Ok_iff encode_entry_def)

lemma length_encode_entry: "length (encode_entry rows x) = 24"
  by (auto simp: encode_entry_def split: prod.splits)

lemma entry_fields:
  fixes c :: sort_column and rows :: nat
  assumes "noff < U32" "nlen < U16" "off < U64" "rows < U32"
  defines "r \<equiv> encode_entry rows ((c, noff, nlen), off)"
  shows "u32_at r 0 = noff" "u16_at r 4 = nlen" "r ! 6 = of_nat (cv_code (so_values c))" "u64_at r 8 = off" "u32_at r 16 = rows"
proof -
  let ?code = "[of_nat (cv_code (so_values c)), 0] :: bytes"
  have r: "r = to_le 4 noff @ to_le 2 nlen @ ?code @ to_le 8 off @ to_le 4 rows @ to_le 4 0"
    using assms(4) by (simp add: r_def encode_entry_def)
  show "u32_at r 0 = noff" unfolding r using assms(1) by (rule u32_at_0)
  show "u16_at r 4 = nlen" unfolding r using assms(2) by (intro u16_at_mid) simp_all
  show "r ! 6 = of_nat (cv_code (so_values c))" unfolding r by (simp add: nth_append)
  have r2: "r = (to_le 4 noff @ to_le 2 nlen @ ?code) @ to_le 8 off @ to_le 4 rows @ to_le 4 0" using r by simp
  show "u64_at r 8 = off" unfolding r2 using assms(3) by (intro u64_at_mid) simp_all
  have r3: "r = (to_le 4 noff @ to_le 2 nlen @ ?code @ to_le 8 off) @ to_le 4 rows @ to_le 4 0" using r by simp
  show "u32_at r 16 = rows" unfolding r3 using assms(4) by (intro u32_at_mid) simp_all
qed

definition rows_of :: "sort_column list \<Rightarrow> nat" where
  "rows_of cols = (case cols of [] \<Rightarrow> 0 | c # _ \<Rightarrow> cv_len (so_values c))"

text \<open>The parts of a written store.\<close>

lemma write_sortcols_parts:
  assumes w: "write_sortcols cols = Ok bs" and rows: "rows_of cols < U32"
  obtains sp offs where
    "bs = (sc_magic @ to_le 2 1 @ to_le 2 (length cols) @ to_le 4 (rows_of cols) @ to_le 4 (length (blob_of cols)))
       @ concat (map (encode_entry (rows_of cols)) (zip (zip cols sp) offs)) @ blob_of cols @ concat (map (\<lambda>c. cv_bytes (so_values c)) cols)"
    "length cols < U16" "length (blob_of cols) < U32" "\<forall>c \<in> set cols. cv_len (so_values c) = rows_of cols"
    "length sp = length cols" "length offs = length cols"
    "\<And>i. i < length cols \<Longrightarrow> sp ! i = (length (blob_of (take i cols)), length (utf8_bytes (so_name (cols ! i))))
       \<and> length (blob_of (take i cols)) < U32 \<and> length (utf8_bytes (so_name (cols ! i))) < U16"
    "\<And>i. i < length cols \<Longrightarrow> offs ! i = 16 + length cols * 24 + length (blob_of cols) + length (concat (map (\<lambda>c. cv_bytes (so_values c)) (take i cols)))
       \<and> offs ! i < U64"
proof -
  let ?rows = "rows_of cols"
  have same: "\<forall>c \<in> set cols. cv_len (so_values c) = ?rows" and n: "length cols < U16"
    using w by (auto simp: write_sortcols_def rows_of_def Let_def list_ex_iff split: if_split_asm)
  obtain blob sp t where b: "foldM_o blob_step ([], []) cols = Ok (blob, sp)" "length blob < U32"
    and t: "write_column_table ?rows (16 + length cols * 24 + length blob) (zip cols sp) = Ok t"
    and bs: "bs = sc_magic @ to_le 2 1 @ to_le 2 (length cols) @ to_le 4 ?rows @ to_le 4 (length blob)
       @ t @ blob @ concat (map (\<lambda>c. cv_bytes (so_values c)) cols)"
    using w same n rows
    by (auto simp: write_sortcols_def rows_of_def [symmetric] Let_def list_ex_iff bind_o_Ok_iff u32_len_def sc_header_def sc_entry_def
        split: if_split_asm)
  note bl = blob_steps [OF b(1)]
  then have blob: "blob = blob_of cols" and sp: "length sp = length cols" by simp_all
  let ?offs = "col_offs ?rows (16 + length cols * 24 + length blob) cols"
  have fst: "map fst (zip cols sp) = cols" using sp by simp
  note ct = column_table [OF t, unfolded fst]
  have sum: "(\<Sum>c\<leftarrow>take i cols. ?rows * cv_width (so_values c)) = length (concat (map (\<lambda>c. cv_bytes (so_values c)) (take i cols)))" for i
  proof -
    have "\<forall>c \<in> set (take i cols). cv_len (so_values c) = ?rows" using same by (meson in_set_takeD)
    then show ?thesis by (simp add: length_concat comp_def length_cv_bytes cong: map_cong)
  qed
  show thesis
  proof (rule that [OF _ n _ same sp, of ?offs])
    show "bs = (sc_magic @ to_le 2 1 @ to_le 2 (length cols) @ to_le 4 ?rows @ to_le 4 (length (blob_of cols)))
       @ concat (map (encode_entry ?rows) (zip (zip cols sp) ?offs)) @ blob_of cols @ concat (map (\<lambda>c. cv_bytes (so_values c)) cols)"
      using bs ct blob by simp
    show "?offs ! i = 16 + length cols * 24 + length (blob_of cols) + length (concat (map (\<lambda>c. cv_bytes (so_values c)) (take i cols)))
       \<and> ?offs ! i < U64" if "i < length cols" for i
    proof -
      have "?offs ! i < U64" using ct that nth_mem [of i ?offs] by (metis length_col_offs)
      then show ?thesis using that blob sum by (simp only: col_offs_nth simp_thms)
    qed
  qed (use b(2) blob bl in simp_all)
qed

lemma sc_header_fields:
  assumes "n < U16" "l < U32" "r < U32"
  defines "h \<equiv> sc_magic @ to_le 2 1 @ to_le 2 n @ to_le 4 r @ to_le 4 l"
  shows "cut h 0 4 = sc_magic" "u16_at h 4 = 1" "u16_at h 6 = n" "u32_at h 8 = r" "u32_at h 12 = l"
proof -
  have m: "length sc_magic = 4" by (simp add: sc_magic_def)
  show "cut h 0 4 = sc_magic" unfolding h_def using m cut_append_left [of 4 sc_magic] cut_full [of sc_magic] by simp
  show "u16_at h 4 = 1" unfolding h_def using m by (intro u16_at_mid) simp_all
  have h: "h = (sc_magic @ to_le 2 1) @ to_le 2 n @ to_le 4 r @ to_le 4 l" by (simp add: h_def)
  show "u16_at h 6 = n" unfolding h using m assms(1) by (intro u16_at_mid) simp_all
  have h: "h = (sc_magic @ to_le 2 1 @ to_le 2 n) @ to_le 4 r @ to_le 4 l" by (simp add: h_def)
  show "u32_at h 8 = r" unfolding h using m assms(3) by (intro u32_at_mid) simp_all
  have h: "h = (sc_magic @ to_le 2 1 @ to_le 2 n @ to_le 4 r) @ to_le 4 l @ []" by (simp add: h_def)
  show "u32_at h 12 = l" unfolding h using m assms(2) by (intro u32_at_mid) simp_all
qed

lemma written_store:
  assumes w: "write_sortcols cols = Ok bs" and rows: "rows_of cols < U32"
    and names: "\<forall>c \<in> set cols. list_all scalar (so_name c)" and um: "length bs < um" "um \<le> U64"
  shows "\<exists>sc. sc_open um (mem_read um (mem_new bs)) = Ok sc \<and> sc_rows sc = rows_of cols
    \<and> map ci_name (sc_columns sc) = map so_name cols \<and> map ci_type (sc_columns sc) = map (cv_type \<circ> so_values) cols
    \<and> (\<forall>i < length cols. ci_data_off (sc_columns sc ! i) + rows_of cols * type_width (ci_type (sc_columns sc ! i)) \<le> length bs
        \<and> (\<forall>d < rows_of cols. cell bs (sc_columns sc ! i) d = cv_nth (so_values (cols ! i)) d))"
proof -
  let ?rows = "rows_of cols" and ?n = "length cols" and ?f = "mem_read um (mem_new bs)"
  let ?D = "concat (map (\<lambda>c. cv_bytes (so_values c)) cols)"
  obtain sp offs where parts: "bs = (sc_magic @ to_le 2 1 @ to_le 2 ?n @ to_le 4 ?rows @ to_le 4 (length (blob_of cols)))
       @ concat (map (encode_entry ?rows) (zip (zip cols sp) offs)) @ blob_of cols @ ?D"
    "?n < U16" "length (blob_of cols) < U32" "\<forall>c \<in> set cols. cv_len (so_values c) = ?rows" "length sp = ?n" "length offs = ?n"
    "\<And>i. i < ?n \<Longrightarrow> sp ! i = (length (blob_of (take i cols)), length (utf8_bytes (so_name (cols ! i))))
       \<and> length (blob_of (take i cols)) < U32 \<and> length (utf8_bytes (so_name (cols ! i))) < U16"
    "\<And>i. i < ?n \<Longrightarrow> offs ! i = 16 + ?n * 24 + length (blob_of cols) + length (concat (map (\<lambda>c. cv_bytes (so_values c)) (take i cols)))
       \<and> offs ! i < U64"
    using write_sortcols_parts [OF w rows] by metis
  let ?H = "sc_magic @ to_le 2 1 @ to_le 2 ?n @ to_le 4 ?rows @ to_le 4 (length (blob_of cols))"
  let ?zs = "zip (zip cols sp) offs" and ?T = "concat (map (encode_entry ?rows) (zip (zip cols sp) offs))"
  have H: "length ?H = 16" by (simp add: sc_magic_def)
  have zs: "length ?zs = ?n" using parts(5,6) by simp
  have T: "length ?T = ?n * 24" using concat_rows_length [of ?zs "encode_entry ?rows" 24] length_encode_entry zs by simp
  let ?sb = "16 + ?n * 24" let ?meta = "?sb + length (blob_of cols)"
  have len: "length bs = ?meta + length ?D" unfolding parts(1) using H T by simp
  let ?buf = "cut bs 0 ?meta"
  have reads: "rd ?f 0 16 = Ok (cut bs 0 16)" "rd ?f 0 ?meta = Ok ?buf"
    using memf.rd_ok [of 0 16 bs um] memf.rd_ok [of 0 ?meta bs um] len um(1) by simp_all
  have h: "cut bs 0 16 = ?H" 
  proof -
    have "bs = ?H @ ?T @ blob_of cols @ ?D" using parts(1) by simp
    moreover have "16 \<le> length ?H" using H by linarith
    ultimately have "cut bs 0 16 = cut ?H 0 16" by (simp only: cut_append_left)
    also have "\<dots> = ?H" using cut_full [of ?H] by (simp only: H)
    finally show ?thesis .
  qed
  have header: "cut ?H 0 4 = sc_magic" "u16_at ?H 4 = 1" "u16_at ?H 6 = ?n" "u32_at ?H 8 = ?rows" "u32_at ?H 12 = length (blob_of cols)"
    using sc_header_fields [OF parts(2,3) rows] by blast+
  let ?info = "\<lambda>i. \<lparr>ci_name = so_name (cols ! i), ci_type = cv_type (so_values (cols ! i)), ci_data_off = offs ! i\<rparr>"
  have col: "sc_read_column um ?buf ?sb (length (blob_of cols)) ?rows i = Ok (?info i)" if i: "i < ?n" for i
  proof -
    let ?b = "16 + i * 24" and ?name = "utf8_bytes (so_name (cols ! i))" and ?off = "length (blob_of (take i cols))"
    let ?r = "encode_entry ?rows ((cols ! i, ?off, length (utf8_bytes (so_name (cols ! i)))), offs ! i)"
    have zi: "?zs ! i = ((cols ! i, ?off, length ?name), offs ! i)" using i parts(5,6,7) by simp
    have row: "cut bs ?b (?b + 24) = ?r"
      using cut_row_mid [OF H, of ?zs "encode_entry ?rows" 24 i "blob_of cols @ ?D"] i zs length_encode_entry parts(5,6)
      unfolding parts(1) [symmetric] zi by simp
    have bl: "?b + 24 \<le> ?sb" using i by simp
    have "u32_at ?buf ?b = u32_at ?r 0" "u16_at ?buf (?b + 4) = u16_at ?r 4" "u64_at ?buf (?b + 8) = u64_at ?r 8"
      "u32_at ?buf (?b + 16) = u32_at ?r 16"
      unfolding row [symmetric] using bl len by (simp_all add: le_cut_simps)
    moreover have "?buf ! (?b + 6) = ?r ! 6"
      unfolding row [symmetric] using bl len by (simp add: nth_cut)
    moreover note entry_fields [of ?off "length ?name" "offs ! i" ?rows "cols ! i"] parts(7) [OF i] parts(8) [OF i] rows
    ultimately have fields: "u32_at ?buf ?b = ?off" "u16_at ?buf (?b + 4) = length ?name" "?buf ! (?b + 6) = of_nat (cv_code (so_values (cols ! i)))"
      "u64_at ?buf (?b + 8) = offs ! i" "u32_at ?buf (?b + 16) = ?rows" by simp_all
    have split: "blob_of cols = blob_of (take i cols) @ ?name @ blob_of (drop (Suc i) cols)"
      unfolding blob_of_def using i by (metis concat.simps(2) concat_append id_take_nth_drop list.simps(9) map_append)
    then have fit: "?off + length ?name \<le> length (blob_of cols)" by (metis length_append le_add1 add.assoc)
    have "cut ?buf (?sb + ?off) (?sb + (?off + length ?name)) = cut bs (?sb + ?off) (?sb + (?off + length ?name))"
      using fit len cut_cut [of "?sb + (?off + length ?name)" ?meta 0 bs "?sb + ?off"] by (simp only: add_0 diff_zero)
    also have "\<dots> = ?name"
    proof -
      have "blob_of cols @ ?D = blob_of (take i cols) @ ?name @ blob_of (drop (Suc i) cols) @ ?D" by (simp add: split)
      moreover have "bs = (?H @ ?T) @ blob_of cols @ ?D" using parts(1) by simp
      ultimately have "bs = (?H @ ?T @ blob_of (take i cols)) @ ?name @ (blob_of (drop (Suc i) cols) @ ?D)" by (simp only: append_assoc)
      moreover have "length (?H @ ?T @ blob_of (take i cols)) = ?sb + ?off" using H T by simp
      ultimately show ?thesis using cut_mid [of "?H @ ?T @ blob_of (take i cols)" "?sb + ?off" ?name] by (simp only: add.assoc)
    qed
    finally have name: "sc_read_name um ?buf ?sb (length (blob_of cols)) ?off (length ?name) = Ok (so_name (cols ! i))"
      using fit len um(1) names i utf8_lossy_bytes by (simp add: sc_read_name_def)
    show ?thesis
      using fields bl len name cv_type_code [of "so_values (cols ! i)"]
      by (simp add: sc_read_column_def sc_header_def sc_entry_def Let_def unat_of_nat)
  qed
  then have cols: "mapM_o (sc_read_column um ?buf ?sb (length (blob_of cols)) ?rows) [0..<?n] = Ok (map ?info [0..<?n])"
    by (intro mapM_o_map) simp
  have fits: "?meta < um" "?n * 24 + 16 < um" "?n * 24 < um" using len um(1) by simp_all
  let ?sc = "\<lparr>sc_rows = ?rows, sc_columns = map ?info [0..<?n]\<rparr>"
  have "sc_open um ?f = Ok ?sc"
    using reads h header cols fits len H
    by (simp add: sc_open_def sc_header_def sc_entry_def add.commute del: rd_Ok_iff upt_Suc)
  moreover have "ci_data_off (?info i) + ?rows * type_width (ci_type (?info i)) \<le> length bs
      \<and> (\<forall>d < ?rows. cell bs (?info i) d = cv_nth (so_values (cols ! i)) d)" if i: "i < ?n" for i
  proof -
    let ?c = "cols ! i"
    let ?pre = "concat (map (\<lambda>c. cv_bytes (so_values c)) (take i cols))"
      and ?post = "concat (map (\<lambda>c. cv_bytes (so_values c)) (drop (Suc i) cols))"
    have "?D = ?pre @ cv_bytes (so_values ?c) @ ?post"
      using i by (metis concat.simps(2) concat_append id_take_nth_drop list.simps(9) map_append)
    then have bs: "bs = (?H @ ?T @ blob_of cols @ ?pre) @ cv_bytes (so_values ?c) @ ?post"
      using parts(1) by (simp only: append_assoc)
    have off: "length (?H @ ?T @ blob_of cols @ ?pre) = offs ! i" using H T parts(8) [OF i] by (simp only: length_append)
    have rl: "cv_len (so_values ?c) = ?rows" using parts(4) i by simp
    have "cell bs (?info i) d = cv_nth (so_values ?c) d" if "d < ?rows" for d
      using cell_written [of "?H @ ?T @ blob_of cols @ ?pre" "?info i" "so_values ?c" d ?post] bs off that rl by simp
    moreover have "offs ! i + length (cv_bytes (so_values ?c)) \<le> length bs"
      using arg_cong [OF bs, of length] off by (simp only: length_append)
    ultimately show ?thesis using rl by (simp add: length_cv_bytes cv_type_code)
  qed
  ultimately show ?thesis
    by (intro exI [of _ ?sc]) (auto simp: comp_def intro!: nth_equalityI)
qed

section \<open>Arbitrary bytes\<close>

context bounded_fetch
begin

lemma sc_column_no_panic:
  assumes "i < n" "length buf = 16 + n * 24 + l" "length buf < um"
  shows "sc_read_column um buf (16 + n * 24) l rows i \<noteq> Panic"
proof -
  have fit: "16 + i * 24 + 24 \<le> length buf" using assms by simp
  have "sc_read_name um buf (16 + n * 24) l a k \<noteq> Panic" for a k
    using assms(2,3) by (auto simp: sc_read_name_def checked_add_def map_ok_Panic_iff)
  then show ?thesis
    using fit by (simp add: sc_read_column_def sc_header_def sc_entry_def Let_def bind_o_Panic_iff)
qed

lemma sc_open_no_panic: "sc_open um fetch \<noteq> Panic"
proof -
  have len: "length b = len" if "rd fetch off len = Ok b" for off len b using that rd_exact by blast
  have cols: "mapM_o (sc_read_column um buf sb l rows) [0..<n] \<noteq> Panic"
    if "sb = n * 24 + 16" "sb + l < um" "rd fetch 0 (sb + l) = Ok buf" for buf sb l rows n
    using sc_column_no_panic [of _ n buf l um rows] that len [OF that(3)] by (intro mapM_o_not_Panic) (auto simp: add.commute)
  have "u16_at h 6 * 24 + 16 + u32_at h 12 \<le> U16 * 24 + 16 + U32" for h
    by (intro add_mono mult_right_mono less_imp_le u16_at_less u32_at_less) simp_all
  then have meta: "rd fetch 0 (u16_at h 6 * 24 + 16 + u32_at h 12) \<noteq> Panic" for h
    by (intro rd_bounded) (rule le_less_trans, assumption, simp)
  have header: "rd fetch 0 16 \<noteq> Panic" by (rule rd_bounded) simp
  show ?thesis
    using header meta len cols
    by (auto simp: sc_open_def sc_header_def sc_entry_def bind_o_Panic_iff checked_mul_def checked_add_def
        simp del: rd_Panic_iff rd_Ok_iff split: if_splits dest: len)
qed

lemma sc_open_rows: "sc_open um fetch = Ok sc \<Longrightarrow> sc_rows sc < U32"
  by (auto simp: sc_open_def bind_o_Ok_iff split: if_splits)

lemma sc_pick_no_panic:
  assumes "in_span ids w spans so i" "i < length so" "length datas = length spans" "ids ! i < U32" "w \<le> 4" "w = type_width t"
  shows "sc_pick U64 t w ids spans so datas i \<noteq> Panic"
proof -
  have bound: "ids ! i * w \<le> U32 * 4" using assms(4,5) by (intro mult_le_mono) simp_all
  have "decode_value t d off \<noteq> Panic" if "off + w \<le> length d" for d off
    using that assms(6) by (cases t) (simp_all add: decode_value_def type_width_def map_ok_Panic_iff)
  moreover obtain a e where "spans ! (so ! i) = (a, e)" by fastforce
  ultimately show ?thesis
    using assms bound
    by (auto simp: sc_pick_def in_span_def Let_def bind_o_Panic_iff bind_o_Ok_iff split: if_splits)
qed

lemma sc_values_no_panic:
  assumes "sc_rows sc < U32"
  shows "sc_values U64 fetch sc col ids \<noteq> Panic"
proof (cases "ids = [] \<or> \<not> col < length (sc_columns sc)")
  case True
  then show ?thesis by (auto simp: sc_values_def sc_column_def)
next
  case False
  let ?info = "sc_columns sc ! col"
  let ?w = "type_width (ci_type ?info)"
  let ?order = "sort_key (\<lambda>i. ids ! i) [0..<length ids]"
  obtain spans so where fold: "foldl (sc_span_step ids ?w) ([], replicate (length ids) 0) ?order = (spans, so)" by fastforce
  note ord = gather_order [of ids]
  let ?B = "Max (set ids) * ?w + ?w"
  have "ids ! i * ?w + ?w \<le> ?B" if "i < length ids" for i using that by simp
  then have sp: "length so = length ids" "\<forall>i < length ids. in_span ids ?w spans so i" "spans_below ?B spans"
    using sc_spans [OF ord(1) _ _ _ _ _ fold, of ?B] ord(2) False by (auto simp: spans_below_def)
  show ?thesis
  proof (cases "ids ! last ?order \<ge> sc_rows sc")
    case True
    then show ?thesis using False by (simp add: sc_values_def sc_column_def Let_def)
  next
    case inr: False
    then have "\<forall>d \<in> set ids. d < sc_rows sc" using ord(3) False by (simp add: not_le Max_less_iff)
    then have "ids ! i < U32" if "i < length ids" for i
      using assms nth_mem [OF that] by (meson less_trans)
    then have "mapM_o (sc_pick U64 (ci_type ?info) ?w ids spans so datas) [0..<length ids] \<noteq> Panic"
      if "length datas = length spans" for datas
      using that sp by (intro mapM_o_not_Panic sc_pick_no_panic) (auto simp: type_width_def)
    moreover have "wave (\<lambda>(s, e). rd fetch (sat_add U64 (ci_data_off ?info) s) ((e - s) mod U64)) spans \<noteq> Panic"
    proof (rule wave_not_Panic)
      fix x assume x: "x \<in> set spans"
      obtain a e where ae: "x = (a, e)" by fastforce
      have w: "?w \<le> 4" by (simp add: type_width_def)
      have "Max (set ids) < U32" using \<open>\<forall>d \<in> set ids. d < sc_rows sc\<close> assms False by (auto intro: less_trans)
      then have "?B \<le> U32 * 4 + 4" using w by (intro add_mono mult_le_mono) simp_all
      moreover have "e \<le> ?B" using sp(3) x ae by (auto simp: spans_below_def)
      moreover have "(e - a) mod U64 \<le> e" using mod_less_eq_dividend [of "e - a" U64] by linarith
      ultimately have "(e - a) mod U64 \<le> U32 * 4 + 4" by (meson le_trans)
      then have "(e - a) mod U64 < 2 ^ 40" by (rule le_less_trans) simp
      then show "(case x of (s, e) \<Rightarrow> rd fetch (sat_add U64 (ci_data_off ?info) s) ((e - s) mod U64)) \<noteq> Panic"
        using ae by (simp add: fetch_bounded)
    qed
    ultimately show ?thesis
      using False inr fold by (auto simp: sc_values_def sc_column_def Let_def bind_o_Panic_iff wave_Ok_length)
  qed
qed

lemma slice_u32_no_panic:
  assumes "sc_rows sc < U32"
  shows "slice_u32 U64 fetch sc col start len \<noteq> Panic"
proof -
  let ?n = "min len (sc_rows sc - start)"
  have n: "?n mod U64 = ?n" "?n * 4 < U64" "?n * 4 < 2 ^ 40" using assms by simp_all
  have "mapM_o (\<lambda>i. map_ok of_nat (read_u32 buf (i * 4))) [0..<?n] \<noteq> (Panic :: (32 word) list ires)"
    if "\<not> length buf < ?n * 4" for buf
    using that by (intro mapM_o_not_Panic) (auto simp: map_ok_Panic_iff)
  then show ?thesis
    using n rd_bounded [OF n(3)]
    by (auto simp: slice_u32_def sc_column_def Let_def bind_o_Panic_iff bind_o_Ok_iff simp del: rd_Panic_iff split: if_splits)
qed

lemma decoded_u32: "decode_value U32T d off = Ok v \<Longrightarrow> \<exists>x. v = VU32 x"
  by (auto simp: decode_value_def map_ok_Ok_iff)

lemma sc_values_u32_no_panic:
  assumes "sc_rows sc < U32"
  shows "sc_values_u32 U64 fetch sc col ids \<noteq> Panic"
proof -
  have u32: "\<exists>x. v = VU32 x"
    if read: "sc_values U64 fetch sc col ids = Ok vs" and t: "ci_type (sc_columns sc ! col) = U32T" "col < length (sc_columns sc)"
      and v: "v \<in> set vs" for vs v
  proof -
    have "ids \<noteq> []" using read t(2) v by (auto simp: sc_values_def sc_column_def)
    then obtain spans so datas where "mapM_o (sc_pick U64 U32T 4 ids spans so datas) [0..<length ids] = Ok vs"
      using read t by (auto simp: sc_values_def sc_column_def type_width_def Let_def bind_o_Ok_iff split: if_splits prod.splits)
    then obtain i where "sc_pick U64 U32T 4 ids spans so datas i = Ok v"
      using v by (auto simp: mapM_o_Ok_iff list_all2_conv_all_nth in_set_conv_nth)
    then show ?thesis using decoded_u32 by (auto simp: sc_pick_def bind_o_Ok_iff Let_def split: if_splits prod.splits)
  qed
  have "mapM_o (\<lambda>v. case v of VU32 x \<Rightarrow> Ok x | _ \<Rightarrow> Panic) vs \<noteq> (Panic :: (32 word) list ires)" if "\<forall>v \<in> set vs. \<exists>x. v = VU32 x" for vs
    using that by (intro mapM_o_not_Panic) auto
  then show ?thesis
    using sc_values_no_panic [OF assms] u32
    by (auto simp: sc_values_u32_def sc_column_def bind_o_Panic_iff)
qed

text \<open>The comparator of \<open>topk\<close> is an order as long as no value it meets is a NaN.\<close>

lemma topk_cmp_total:
  assumes "\<forall>(d, x) \<in> set ps. x \<noteq> None"
  shows "sort_by (topk_cmp descending) ps \<noteq> (Panic :: ('e, (nat \<times> int option) list) outcome)"
proof -
  let ?key = "\<lambda>(d, x). (if descending then - the x else the x, d)"
  have "sort_by (topk_cmp descending) ps = (Ok (sort_key ?key ps) :: ('e, (nat \<times> int option) list) outcome)"
  proof (rule sort_by_key)
    fix a b assume "a \<in> set ps" "b \<in> set ps"
    then obtain d x d' x' where "a = (d, Some x)" "b = (d', Some x')" using assms by fastforce
    then show "topk_cmp descending a b = compare (?key a) (?key b)"
      by (auto simp: topk_cmp_def value_cmp_def then_cmp_def compare_def)
  qed
  then show ?thesis by simp
qed

lemma topk_panic_nan:
  assumes "sc_rows sc < U32" "topk U64 fetch sc col ids k descending = Panic"
  shows "\<exists>vals. sc_values U64 fetch sc col ids = Ok vals \<and> (\<exists>v \<in> set vals. as_f64 v = None)"
proof -
  obtain vals where vals: "sc_values U64 fetch sc col ids = Ok vals"
    and sort: "sort_by (topk_cmp descending) (zip ids (map as_f64 vals)) = (Panic :: (nat \<times> int option) list ires)"
    using assms(2) sc_values_no_panic [OF assms(1)] by (auto simp: topk_def bind_o_Panic_iff)
  have "\<not> (\<forall>(d, x) \<in> set (zip ids (map as_f64 vals)). x \<noteq> None)"
    using sort topk_cmp_total [of "zip ids (map as_f64 vals)" descending, where 'e = index_error] by blast
  then obtain d where "(d, None) \<in> set (zip ids (map as_f64 vals))" by auto
  then have "\<exists>v \<in> set vals. as_f64 v = None" by (metis image_iff list.set_map set_zip_rightD)
  then show ?thesis using vals by blast
qed

end

section \<open>Reading a written column\<close>

definition holds_column :: "bytes \<Rightarrow> col_info \<Rightarrow> column_values \<Rightarrow> bool" where
  "holds_column bs info v \<longleftrightarrow> ci_type info = cv_type v \<and> ci_data_off info + cv_len v * cv_width v \<le> length bs
     \<and> (\<forall>d < cv_len v. cell bs info d = cv_nth v d)"

lemma written_columns:
  assumes "write_sortcols cols = Ok bs" "rows_of cols < U32" "\<forall>c \<in> set cols. list_all scalar (so_name c)"
    and "length bs < um" "um \<le> U64"
  obtains sc where "sc_open um (mem_read um (mem_new bs)) = Ok sc" "sc_rows sc = rows_of cols"
    "map ci_name (sc_columns sc) = map so_name cols" "map ci_type (sc_columns sc) = map (cv_type \<circ> so_values) cols"
    "length (sc_columns sc) = length cols"
    "\<And>i. i < length cols \<Longrightarrow> cv_len (so_values (cols ! i)) = rows_of cols \<and> holds_column bs (sc_columns sc ! i) (so_values (cols ! i))"
proof -
  obtain sc where sc: "sc_open um (mem_read um (mem_new bs)) = Ok sc" "sc_rows sc = rows_of cols"
    "map ci_name (sc_columns sc) = map so_name cols" "map ci_type (sc_columns sc) = map (cv_type \<circ> so_values) cols"
    "\<forall>i < length cols. ci_data_off (sc_columns sc ! i) + rows_of cols * type_width (ci_type (sc_columns sc ! i)) \<le> length bs
        \<and> (\<forall>d < rows_of cols. cell bs (sc_columns sc ! i) d = cv_nth (so_values (cols ! i)) d)"
    using written_store [OF assms] by blast
  have len: "length (sc_columns sc) = length cols" using sc(3) by (rule map_eq_imp_length_eq)
  have rows: "cv_len (so_values (cols ! i)) = rows_of cols" if "i < length cols" for i
    using write_sortcols_parts [OF assms(1,2)] nth_mem [OF that] by metis
  have "ci_type (sc_columns sc ! i) = cv_type (so_values (cols ! i))" if "i < length cols" for i
    using arg_cong [OF sc(4), of "\<lambda>xs. xs ! i"] that len by simp
  then have "holds_column bs (sc_columns sc ! i) (so_values (cols ! i))" if "i < length cols" for i
    using that sc(5) rows by (simp add: holds_column_def cv_type_code)
  then show thesis using that [OF sc(1-4) len] rows by blast
qed

lemma held_values:
  assumes "holds_column bs (sc_columns sc ! i) v" "i < length (sc_columns sc)" "sc_rows sc = cv_len v"
    and "length bs < um" "um \<le> U64" "\<forall>d \<in> set ids. d < cv_len v"
  shows "sc_values um (mem_read um (mem_new bs)) sc i ids = Ok (map (cv_nth v) ids)"
  using memf.values_ok [of i sc ids bs um um] assms by (simp add: holds_column_def cv_type_code)

lemma held_slice:
  assumes "holds_column bs (sc_columns sc ! i) (CU32 v)" "i < length (sc_columns sc)" "sc_rows sc = length v"
    and "length bs < um" "um \<le> U64"
  shows "slice_u32 um (mem_read um (mem_new bs)) sc i start n = Ok (take n (drop start v))"
proof -
  have t: "ci_type (sc_columns sc ! i) = U32T" using assms(1) by (simp add: holds_column_def cv_type_def)
  have "slice_u32 um (mem_read um (mem_new bs)) sc i start n
      = Ok (map (\<lambda>d. of_nat (u32_at bs (ci_data_off (sc_columns sc ! i) + d * 4))) [start..<min (start + n) (length v)])"
    using memf.slice_ok [of i sc bs um um start n] assms t by (simp add: holds_column_def cv_len_def cv_width_def)
  also have "map (\<lambda>d. of_nat (u32_at bs (ci_data_off (sc_columns sc ! i) + d * 4))) [start..<min (start + n) (length v)] = take n (drop start v)"
  proof (rule nth_equalityI)
    fix k assume k: "k < length (map (\<lambda>d. of_nat (u32_at bs (ci_data_off (sc_columns sc ! i) + d * 4))) [start..<min (start + n) (length v)])"
    then have kn: "start + k < length v" "k < n" by auto
    then have up: "[start..<min (start + n) (length v)] ! k = start + k" by (intro nth_upt) simp
    then have "cell bs (sc_columns sc ! i) (start + k) = cv_nth (CU32 v) (start + k)"
      using assms(1) kn(1) by (simp add: holds_column_def cv_len_def)
    then show "map (\<lambda>d. of_nat (u32_at bs (ci_data_off (sc_columns sc ! i) + d * 4))) [start..<min (start + n) (length v)] ! k
        = take n (drop start v) ! k"
      using k kn up t by (simp add: cell_def cv_nth_def type_width_def)
  qed auto
  finally show ?thesis .
qed

text \<open>The order \<open>topk\<close> asks for: by value, then by document.\<close>

definition topk_key :: "bool \<Rightarrow> column_values \<Rightarrow> nat \<Rightarrow> int \<times> nat" where
  "topk_key descending v d = (let x = the (as_f64 (cv_nth v d)) in (if descending then - x else x, d))"

lemma held_topk:
  assumes col: "holds_column bs (sc_columns sc ! i) v" "i < length (sc_columns sc)" "sc_rows sc = cv_len v"
    and "length bs < um" "um \<le> U64" "\<forall>d \<in> set ids. d < cv_len v \<and> as_f64 (cv_nth v d) \<noteq> None"
  shows "topk um (mem_read um (mem_new bs)) sc i ids k descending = Ok (take k (sort_key (topk_key descending v) ids))"
proof -
  let ?pairs = "map (\<lambda>d. (d, as_f64 (cv_nth v d))) ids"
  let ?key = "\<lambda>(d, x). (if descending then - the x else the x, d)"
  have vals: "sc_values um (mem_read um (mem_new bs)) sc i ids = Ok (map (cv_nth v) ids)"
    using assms by (intro held_values) auto
  have zip: "zip ids (map as_f64 (map (cv_nth v) ids)) = ?pairs" by (simp add: zip_map2 zip_same_conv_map)
  have "sort_by (topk_cmp descending) ?pairs = (Ok (sort_key ?key ?pairs) :: (nat \<times> int option) list ires)"
  proof (rule sort_by_key)
    fix a b assume "a \<in> set ?pairs" "b \<in> set ?pairs"
    then obtain d x d' x' where "a = (d, Some x)" "b = (d', Some x')" using assms(6) by fastforce
    then show "topk_cmp descending a b = compare (?key a) (?key b)"
      by (auto simp: topk_cmp_def value_cmp_def then_cmp_def compare_def)
  qed
  moreover have "sort_key ?key ?pairs = map (\<lambda>d. (d, as_f64 (cv_nth v d))) (sort_key (topk_key descending v) ids)"
    by (simp add: map_sort_key [symmetric] comp_def topk_key_def [abs_def] Let_def)
  ultimately show ?thesis using vals zip by (simp add: topk_def take_map comp_def)
qed

section \<open>Properties\<close>

text \<open>
  C17: Round trip of the sort-column store. A store written from equally long columns opens with the
  row count, names and types written, and reads back every value: a gather returns, in request
  order, the values of any documents in range (however scattered, so however the reads coalesce),
  and a slice of a \<open>u32\<close> column is the written values clamped to the column.
\<close>

theorem sortcols_roundtrip:
  assumes "write_sortcols cols = Ok bs" "rows_of cols < U32" "\<forall>c \<in> set cols. list_all scalar (so_name c)"
    and "length bs < um" "um \<le> U64"
  shows "\<exists>sc. sc_open um (mem_read um (mem_new bs)) = Ok sc \<and> sc_rows sc = rows_of cols
    \<and> map ci_name (sc_columns sc) = map so_name cols \<and> map ci_type (sc_columns sc) = map (cv_type \<circ> so_values) cols
    \<and> (\<forall>i < length cols.
        (\<forall>ids. (\<forall>d \<in> set ids. d < rows_of cols) \<longrightarrow>
           sc_values um (mem_read um (mem_new bs)) sc i ids = Ok (map (cv_nth (so_values (cols ! i))) ids))
        \<and> (\<forall>v start len. so_values (cols ! i) = CU32 v \<longrightarrow>
           slice_u32 um (mem_read um (mem_new bs)) sc i start len = Ok (take len (drop start v))))"
proof (rule written_columns [OF assms])
  fix sc
  assume sc: "sc_open um (mem_read um (mem_new bs)) = Ok sc" "sc_rows sc = rows_of cols"
    "map ci_name (sc_columns sc) = map so_name cols" "map ci_type (sc_columns sc) = map (cv_type \<circ> so_values) cols"
    "length (sc_columns sc) = length cols"
    "\<And>i. i < length cols \<Longrightarrow> cv_len (so_values (cols ! i)) = rows_of cols \<and> holds_column bs (sc_columns sc ! i) (so_values (cols ! i))"
  have "slice_u32 um (mem_read um (mem_new bs)) sc i start len = Ok (take len (drop start v))"
    if "i < length cols" "so_values (cols ! i) = CU32 v" for i v start len
    using sc(6) [OF that(1)] that sc(2,5) assms(4,5) by (intro held_slice) (auto simp: cv_len_def)
  moreover have "sc_values um (mem_read um (mem_new bs)) sc i ids = Ok (map (cv_nth (so_values (cols ! i))) ids)"
    if "i < length cols" "\<forall>d \<in> set ids. d < rows_of cols" for i ids
    using sc(6) [OF that(1)] that sc(2,5) assms(4,5) by (intro held_values) auto
  ultimately show ?thesis using sc(1-4) by blast
qed

definition sample_cols :: "sort_column list" where
  "sample_cols = [\<lparr>so_name = [97], so_values = CU16 [7, 9, 7]\<rparr>, \<lparr>so_name = [98, 233], so_values = CU32 [5, 6, 2]\<rparr>]"

lemma sample_cols_written:
  obtains bs where "write_sortcols sample_cols = Ok bs" "length bs < U32"
  by (simp add: sample_cols_def write_sortcols_def cv_len_def Let_def blob_step_def utf8_bytes_def utf8_char_def u32_len_def
      sc_header_def sc_entry_def cv_width_def sc_magic_def cv_bytes_def mul_p_def add_p_def try_from_def ok_or_def)

lemma sample_cols_simps [simp]:
  "rows_of sample_cols = 3" "\<forall>c \<in> set sample_cols. list_all scalar (so_name c)" "length sample_cols = 2"
  "so_values (sample_cols ! 0) = CU16 [7, 9, 7]" "so_values (sample_cols ! Suc 0) = CU32 [5, 6, 2]"
  by (simp_all add: sample_cols_def rows_of_def cv_len_def scalar_def)

lemma sortcols_roundtrip_witness:
  "\<exists>bs sc. write_sortcols sample_cols = Ok bs
    \<and> sc_values U32 (mem_read U32 (mem_new bs)) sc 0 [1, 0, 1] = Ok [VU16 9, VU16 7, VU16 9]
    \<and> slice_u32 U32 (mem_read U32 (mem_new bs)) sc 1 1 5 = Ok [6, 2]"
proof -
  obtain bs where w: "write_sortcols sample_cols = Ok bs" "length bs < U32" by (rule sample_cols_written)
  obtain sc where
    "\<forall>i < 2. (\<forall>ids. (\<forall>d \<in> set ids. d < 3) \<longrightarrow>
           sc_values U32 (mem_read U32 (mem_new bs)) sc i ids = Ok (map (cv_nth (so_values (sample_cols ! i))) ids))
        \<and> (\<forall>v start len. so_values (sample_cols ! i) = CU32 v \<longrightarrow>
           slice_u32 U32 (mem_read U32 (mem_new bs)) sc i start len = Ok (take len (drop start v)))"
    using sortcols_roundtrip [OF w(1) _ _ w(2)] by auto
  from this [rule_format, of 0] this [rule_format, of 1] show ?thesis
    using w(1) by (intro exI [of _ bs] exI [of _ sc]) (simp add: cv_nth_def)
qed

text \<open>
  C18: The re-ranking of a candidate set. When no candidate's value is a NaN, \<open>topk\<close> returns the
  first \<open>k\<close> candidates in the order of (value, document), values largest first when descending: ties
  keep ascending document order, whatever order the candidates came in.
\<close>

theorem topk_exact:
  assumes "write_sortcols cols = Ok bs" "rows_of cols < U32" "\<forall>c \<in> set cols. list_all scalar (so_name c)"
    and "length bs < um" "um \<le> U64" "i < length cols"
    and "\<forall>d \<in> set ids. d < rows_of cols \<and> as_f64 (cv_nth (so_values (cols ! i)) d) \<noteq> None"
  shows "bind_o (sc_open um (mem_read um (mem_new bs))) (\<lambda>sc. topk um (mem_read um (mem_new bs)) sc i ids k descending)
    = Ok (take k (sort_key (topk_key descending (so_values (cols ! i))) ids))"
proof (rule written_columns [OF assms(1-5)])
  fix sc
  assume sc: "sc_open um (mem_read um (mem_new bs)) = Ok sc" "sc_rows sc = rows_of cols" "length (sc_columns sc) = length cols"
    "\<And>i. i < length cols \<Longrightarrow> cv_len (so_values (cols ! i)) = rows_of cols \<and> holds_column bs (sc_columns sc ! i) (so_values (cols ! i))"
  have "topk um (mem_read um (mem_new bs)) sc i ids k descending = Ok (take k (sort_key (topk_key descending (so_values (cols ! i))) ids))"
    using sc(4) [OF assms(6)] sc(2,3) assms(4-7) by (intro held_topk) auto
  then show ?thesis using sc(1) by simp
qed

lemma topk_exact_witness:
  "\<exists>bs. write_sortcols sample_cols = Ok bs
    \<and> bind_o (sc_open U32 (mem_read U32 (mem_new bs))) (\<lambda>sc. topk U32 (mem_read U32 (mem_new bs)) sc 0 [2, 0, 1] 2 True) = Ok [1, 0]"
proof -
  obtain bs where w: "write_sortcols sample_cols = Ok bs" "length bs < U32" by (rule sample_cols_written)
  show ?thesis
    using topk_exact [OF w(1) _ _ w(2), of 0 "[2, 0, 1]" 2 True] w(1)
    by (intro exI [of _ bs]) (simp add: topk_key_def as_f64_def cv_nth_def Let_def)
qed

text \<open>
  A NaN breaks the order \<open>topk\<close> sorts by: with \<open>partial_cmp\<close> falling back to equality, three
  documents of a float column holding 2.0, a NaN and 1.0 compare as a cycle (the first is before the
  second, the second before the third, the third before the first), so the comparator handed to
  \<open>sort_by\<close> is not an order, which the standard library answers with an unspecified order or a panic.
\<close>

lemma topk_nan_cycle:
  "let v = CF32 [0x40000000, 0x7FC00000, 0x3F800000]; p = map (\<lambda>d. (d, as_f64 (cv_nth v d))) [0, 1, 2] in
     topk_cmp False (p ! 0) (p ! 1) = Less \<and> topk_cmp False (p ! 1) (p ! 2) = Less \<and> topk_cmp False (p ! 2) (p ! 0) = Less
     \<and> \<not> total_cmp (topk_cmp False) p"
  by (simp add: cv_nth_def as_f64_def f32_key_def Let_def topk_cmp_def value_cmp_def then_cmp_def compare_def total_cmp_def)

text \<open>
  C19: Hostile stores. Whatever bytes the store holds, opening it never panics, and on a 64-bit host
  neither does gathering, slicing or reading single values with whatever was opened: untrusted column
  counts, name spans, type codes and data offsets never overflow or index out of range.  Re-ranking
  with \<open>topk\<close> panics at most on candidates whose gathered values hold a NaN.  The fetcher is any that
  answers with the store's bytes and does not panic on a read of fewer than \<open>2 ^ 40\<close> bytes, such as
  \<open>FileFetch\<close> on a 64-bit host.
\<close>

theorem sortcols_hostile_safe:
  assumes "bounded_fetch f content"
  shows "sc_open um f \<noteq> Panic
    \<and> (\<forall>sc. sc_open U64 f = Ok sc \<longrightarrow>
         sc_values U64 f sc col ids \<noteq> Panic \<and> sc_values_u32 U64 f sc col ids \<noteq> Panic \<and> sc_value U64 f sc col d \<noteq> Panic
         \<and> slice_u32 U64 f sc col start n \<noteq> Panic
         \<and> (topk U64 f sc col ids k descending = Panic
              \<longrightarrow> (\<exists>vals. sc_values U64 f sc col ids = Ok vals \<and> (\<exists>v \<in> set vals. as_f64 v = None))))"
proof -
  have rows: "sc_rows sc < U32" if "sc_open U64 f = Ok sc" for sc
    by (rule bounded_fetch.sc_open_rows [OF assms that])
  show ?thesis
    using rows bounded_fetch.sc_open_no_panic [OF assms] bounded_fetch.sc_values_no_panic [OF assms] bounded_fetch.slice_u32_no_panic [OF assms]
      bounded_fetch.sc_values_u32_no_panic [OF assms] bounded_fetch.topk_panic_nan [OF assms]
    by (simp add: sc_value_def)
qed

lemma sortcols_hostile_safe_witness:
  "sc_open U64 (file_read U64 (pread_of 3 (sc_magic @ [1, 0, 255, 255, 9, 0, 0, 0, 255, 255, 255, 255]))) \<noteq> Panic"
proof -
  let ?bs = "sc_magic @ [1, 0, 255, 255, 9, 0, 0, 0, 255, 255, 255, 255]"
  have "bounded_fetch (file_read U64 (pread_of 3 ?bs)) ?bs"
    by (intro file_read_bounded positioned_file_pread_of) (simp add: sc_magic_def)
  then show ?thesis using sortcols_hostile_safe by blast
qed

end
