(* ===== verification/RR_Tokenizer.thy ===== *)
theory RR_Tokenizer imports RR_Utf8 RR_Ngram "HOL-Library.List_Lexorder" begin

text \<open>
  Languages and tokenizers of the term index, the first half of \<open>rust/src/terms.rs\<close>.  What lies
  outside the sources is the parameter \<open>text_env\<close>: the Unicode tables behind
  \<open>char::is_alphanumeric\<close> and \<open>char::to_lowercase\<close>, the Snowball stemmers of the crate
  \<open>rust_stemmers\<close>, and the embedded stop-word files (the lines of \<open>stopwords/<lang>.txt\<close>).

  Shown: languages survive their byte and their name; tokens are the case-folded maximal runs of
  alphanumeric characters; the tokenizer rebuilt from a header tokenizes as the builder's did.
\<close>

unbundle bit_operations_syntax

section \<open>Languages\<close>

datatype language =
    English | Spanish | Arabic | Danish | Dutch | Finnish | French | German | Greek
  | Hungarian | Italian | Norwegian | Portuguese | Romanian | Russian | Swedish | Tamil | Turkish

definition languages :: "(language \<times> nat \<times> string \<times> string) list" where
  "languages =
    [(English, 1, ''english'', ''en''),
     (Spanish, 2, ''spanish'', ''es''),
     (Arabic, 3, ''arabic'', ''ar''),
     (Danish, 4, ''danish'', ''da''),
     (Dutch, 5, ''dutch'', ''nl''),
     (Finnish, 6, ''finnish'', ''fi''),
     (French, 7, ''french'', ''fr''),
     (German, 8, ''german'', ''de''),
     (Greek, 9, ''greek'', ''el''),
     (Hungarian, 10, ''hungarian'', ''hu''),
     (Italian, 11, ''italian'', ''it''),
     (Norwegian, 12, ''norwegian'', ''no''),
     (Portuguese, 13, ''portuguese'', ''pt''),
     (Romanian, 14, ''romanian'', ''ro''),
     (Russian, 15, ''russian'', ''ru''),
     (Swedish, 16, ''swedish'', ''sv''),
     (Tamil, 17, ''tamil'', ''ta''),
     (Turkish, 18, ''turkish'', ''tr'')]"

definition language_row :: "language \<Rightarrow> nat \<times> string \<times> string" where
  "language_row l = the (map_of languages l)"

definition language_to_u8 :: "language \<Rightarrow> nat" where
  "language_to_u8 l = fst (language_row l)"

definition language_from_u8 :: "nat \<Rightarrow> language option" where
  "language_from_u8 b = map_option fst (find (\<lambda>(_, byte, _). byte = b) languages)"

definition to_ascii_lowercase :: "rstring \<Rightarrow> rstring" where
  "to_ascii_lowercase s = map (\<lambda>c. if 65 \<le> c \<and> c \<le> 90 then c + 32 else c) s"

definition trim :: "rstring \<Rightarrow> rstring" where
  "trim s = (let ws = (\<lambda>c. is_whitespace (of_nat c)) in rev (dropWhile ws (rev (dropWhile ws s))))"

definition str :: "string \<Rightarrow> rstring" where
  "str s = map of_char s"

definition language_from_code :: "rstring \<Rightarrow> language option" where
  "language_from_code code =
     (let s = to_ascii_lowercase (trim code) in
      map_option fst (find (\<lambda>(_, _, name, iso). s = str name \<or> s = str iso) languages))"

definition language_as_code :: "language \<Rightarrow> rstring" where
  "language_as_code l = str (fst (snd (language_row l)))"

section \<open>Tokens\<close>

record text_env =
  te_alnum :: "nat \<Rightarrow> bool"
  te_lower :: "nat \<Rightarrow> rstring"
  te_stem :: "language \<Rightarrow> rstring \<Rightarrow> rstring"
  te_stops :: "language \<Rightarrow> rstring list"

definition token_step :: "text_env \<Rightarrow> bool \<Rightarrow> rstring list \<times> rstring \<Rightarrow> nat \<Rightarrow> rstring list \<times> rstring" where
  "token_step env case_fold st c =
     (let (tokens, cur) = st in
      if te_alnum env c then (tokens, cur @ (if case_fold then te_lower env c else [c]))
      else if cur \<noteq> [] then (tokens @ [cur], [])
      else (tokens, cur))"

definition tokenize_with :: "text_env \<Rightarrow> rstring \<Rightarrow> bool \<Rightarrow> rstring list" where
  "tokenize_with env text case_fold =
     (let (tokens, cur) = foldl (token_step env case_fold) ([], []) text in
      if cur \<noteq> [] then tokens @ [cur] else tokens)"

definition tokenize_plain :: "text_env \<Rightarrow> rstring \<Rightarrow> rstring list" where
  "tokenize_plain env text = tokenize_with env text True"

definition flag_stemmed :: nat where "flag_stemmed = 1"
definition flag_stopwords :: nat where "flag_stopwords = 2"
definition flag_case_sensitive :: nat where "flag_case_sensitive = 4"

definition is_stop_word :: "text_env \<Rightarrow> rstring \<Rightarrow> language option \<Rightarrow> bool" where
  "is_stop_word env t lang =
     (case lang of
        Some l \<Rightarrow> (case bsearch_by utf8_bytes (te_stops env l) (utf8_bytes t) of Inl _ \<Rightarrow> True | Inr _ \<Rightarrow> False)
      | None \<Rightarrow> False)"

record tokenizer =
  tk_stemmer :: "language option"
  tk_stopwords :: bool
  tk_language :: "language option"
  tk_case_fold :: bool

definition tokenizer_with :: "language option \<Rightarrow> bool \<Rightarrow> bool \<Rightarrow> bool \<Rightarrow> tokenizer" where
  "tokenizer_with lang stem stopwords case_fold =
     \<lparr>tk_stemmer = (if stem then lang else None), tk_stopwords = stopwords, tk_language = lang, tk_case_fold = case_fold\<rparr>"

definition tokenizer_new :: "language option \<Rightarrow> bool \<Rightarrow> bool \<Rightarrow> tokenizer" where
  "tokenizer_new lang stopwords case_fold = tokenizer_with lang (lang \<noteq> None) stopwords case_fold"

definition tokenizer_plain :: tokenizer where
  "tokenizer_plain = tokenizer_new None False True"

definition tokenizer_spec :: "tokenizer \<Rightarrow> language option \<times> bool \<times> bool \<times> bool" where
  "tokenizer_spec tk = (tk_language tk, tk_stemmer tk \<noteq> None, tk_stopwords tk, tk_case_fold tk)"

definition tokenizer_from_header :: "nat \<Rightarrow> nat \<Rightarrow> tokenizer" where
  "tokenizer_from_header flags language =
     (let stem = (flags AND flag_stemmed \<noteq> 0); stopwords = (flags AND flag_stopwords \<noteq> 0);
          lang = (if stem \<or> stopwords then language_from_u8 language else None)
      in tokenizer_with lang stem stopwords (flags AND flag_case_sensitive = 0))"

definition tokenize :: "text_env \<Rightarrow> tokenizer \<Rightarrow> rstring \<Rightarrow> rstring list" where
  "tokenize env tk text =
     map (\<lambda>t. case tk_stemmer tk of Some l \<Rightarrow> te_stem env l t | None \<Rightarrow> t)
       (filter (\<lambda>t. \<not> (tk_stopwords tk \<and> is_stop_word env t (tk_language tk)))
         (tokenize_with env text (tk_case_fold tk)))"

section \<open>Languages survive their codes\<close>

lemma language_byte [simp]: "language_from_u8 (language_to_u8 l) = Some l"
  by (cases l) (simp_all add: language_from_u8_def language_to_u8_def language_row_def languages_def)

lemma language_byte_bound: "0 < language_to_u8 l \<and> language_to_u8 l \<le> 18"
  by (cases l) (simp_all add: language_to_u8_def language_row_def languages_def)

lemma language_code [simp]: "language_from_code (language_as_code l) = Some l"
  by (cases l)
     (simp_all add: language_from_code_def language_as_code_def language_row_def languages_def str_def trim_def
        to_ascii_lowercase_def is_whitespace_def Let_def)

section \<open>Tokens are runs\<close>

text \<open>The maximal runs of characters with a property.\<close>

function runs :: "('a \<Rightarrow> bool) \<Rightarrow> 'a list \<Rightarrow> 'a list list" where
  "runs p s = (case dropWhile (\<lambda>c. \<not> p c) s of
       [] \<Rightarrow> []
     | c # cs \<Rightarrow> (c # takeWhile p cs) # runs p (dropWhile p cs))"
  by pat_completeness auto
termination
proof (relation "measure (\<lambda>(p, s). length s)")
  fix p and s cs :: "'a list" and c
  assume "dropWhile (\<lambda>c. \<not> p c) s = c # cs"
  then have "length (c # cs) \<le> length s" by (metis length_dropWhile_le)
  then show "((p, dropWhile p cs), p, s) \<in> measure (\<lambda>(p, s). length s)"
    using length_dropWhile_le [of p cs] by simp
qed simp

declare runs.simps [simp del]

definition fold_text :: "text_env \<Rightarrow> bool \<Rightarrow> rstring \<Rightarrow> rstring" where
  "fold_text env case_fold s = (if case_fold then concat (map (te_lower env) s) else s)"

definition close_token :: "rstring list \<times> rstring \<Rightarrow> rstring list" where
  "close_token st = (if snd st \<noteq> [] then fst st @ [snd st] else fst st)"

lemma token_run:
  "list_all (te_alnum env) r \<Longrightarrow> foldl (token_step env fd) (ts, cur) r = (ts, cur @ fold_text env fd r)"
  by (induction r arbitrary: cur) (auto simp: token_step_def fold_text_def)

lemma token_gap:
  "list_all (\<lambda>c. \<not> te_alnum env c) g \<Longrightarrow> g \<noteq> [] \<Longrightarrow>
   foldl (token_step env fd) st g = (close_token st, [])"
proof (induction g arbitrary: st)
  case (Cons c g)
  have "token_step env fd st c = (close_token st, [])"
    using Cons.prems(1) by (cases st) (auto simp: token_step_def close_token_def)
  then show ?case using Cons by (cases "g = []") (auto simp: close_token_def)
qed simp

lemma close_foldl:
  assumes "\<And>c. te_lower env c \<noteq> []"
  shows "close_token (foldl (token_step env fd) (ts, []) s) = ts @ map (fold_text env fd) (runs (te_alnum env) s)"
proof (induction s arbitrary: ts rule: length_induct)
  case (1 s)
  let ?p = "te_alnum env" and ?g = "takeWhile (\<lambda>c. \<not> te_alnum env c) s" and ?r = "dropWhile (\<lambda>c. \<not> te_alnum env c) s"
  have gap: "foldl (token_step env fd) (ts, []) ?g = (ts, [])"
    using token_gap [of env ?g fd "(ts, [])"] by (cases "?g = []") (auto simp: list_all_iff close_token_def dest: set_takeWhileD)
  then have skip: "foldl (token_step env fd) (ts, []) s = foldl (token_step env fd) (ts, []) ?r"
    by (metis foldl_append takeWhile_dropWhile_id)
  show ?case
  proof (cases ?r)
    case Nil
    then show ?thesis using skip by (simp add: runs.simps [of "te_alnum env" s] close_token_def del: dropWhile_eq_Nil_conv)
  next
    case (Cons c cs)
    let ?w = "c # takeWhile ?p cs" and ?rest = "dropWhile ?p cs"
    have c: "?p c" using Cons by (metis dropWhile_eq_Cons_conv)
    have w: "list_all ?p ?w" using c by (auto simp: list_all_iff dest: set_takeWhileD)
    have ne: "fold_text env fd ?w \<noteq> []" using assms by (simp add: fold_text_def)
    have "length ?r \<le> length s" by (rule length_dropWhile_le)
    then have len: "length ?rest < length s" using length_dropWhile_le [of ?p cs] Cons by simp
    have run: "foldl (token_step env fd) (ts, []) ?r = foldl (token_step env fd) (ts, fold_text env fd ?w) ?rest"
    proof -
      have "?r = ?w @ ?rest" using Cons by simp
      then have "foldl (token_step env fd) (ts, []) ?r = foldl (token_step env fd) (foldl (token_step env fd) (ts, []) ?w) ?rest"
        by (simp only: foldl_append)
      then show ?thesis using token_run [OF w, of fd ts "[]"] by simp
    qed
    have "close_token (foldl (token_step env fd) (ts, fold_text env fd ?w) ?rest)
        = close_token (foldl (token_step env fd) (ts @ [fold_text env fd ?w], []) ?rest)"
    proof (cases ?rest)
      case Nil
      then show ?thesis using ne by (simp add: close_token_def del: dropWhile_eq_Nil_conv)
    next
      case (Cons d ds)
      then have "\<not> ?p d" by (metis dropWhile_eq_Cons_conv)
      then have "token_step env fd (ts, fold_text env fd ?w) d = token_step env fd (ts @ [fold_text env fd ?w], []) d"
        using ne by (simp add: token_step_def)
      then show ?thesis using Cons by simp
    qed
    also have "\<dots> = (ts @ [fold_text env fd ?w]) @ map (fold_text env fd) (runs ?p ?rest)"
      using 1 len by blast
    finally show ?thesis using skip run Cons by (simp add: runs.simps [of _ s])
  qed
qed

lemma tokenize_with_runs:
  assumes "\<And>c. te_lower env c \<noteq> []"
  shows "tokenize_with env s fd = map (fold_text env fd) (runs (te_alnum env) s)"
  using close_foldl [OF assms, of fd "[]" s] by (simp add: tokenize_with_def close_token_def case_prod_beta Let_def)

section \<open>The header carries the tokenizer\<close>

definition header_flags :: "bool \<Rightarrow> bool \<Rightarrow> bool \<Rightarrow> nat" where
  "header_flags stem stopwords case_fold =
     (if stem then flag_stemmed else 0) OR (if stopwords then flag_stopwords else 0)
     OR (if case_fold then 0 else flag_case_sensitive)"

definition header_language :: "bool \<Rightarrow> bool \<Rightarrow> language option \<Rightarrow> nat" where
  "header_language stem stopwords lang =
     (if stem \<or> stopwords then (case lang of None \<Rightarrow> 0 | Some l \<Rightarrow> language_to_u8 l) else 0)"

lemma header_flags_bits:
  "header_flags stem stopwords case_fold < 8"
  "header_flags stem stopwords case_fold AND flag_stemmed \<noteq> 0 \<longleftrightarrow> stem"
  "header_flags stem stopwords case_fold AND flag_stopwords \<noteq> 0 \<longleftrightarrow> stopwords"
  "header_flags stem stopwords case_fold AND flag_case_sensitive = 0 \<longleftrightarrow> case_fold"
  by (cases stem; cases stopwords; cases case_fold;
      simp add: header_flags_def flag_stemmed_def flag_stopwords_def flag_case_sensitive_def)+

lemma tokenizer_survives_header:
  assumes "stem \<or> stopwords \<Longrightarrow> lang \<noteq> None"
  shows "tokenize env (tokenizer_from_header (header_flags stem stopwords case_fold) (header_language stem stopwords lang)) text
    = tokenize env (tokenizer_with lang stem stopwords case_fold) text"
proof -
  have lang: "stem \<or> stopwords \<Longrightarrow> language_from_u8 (header_language stem stopwords lang) = lang"
    using assms by (auto simp: header_language_def)
  have "tokenizer_from_header (header_flags stem stopwords case_fold) (header_language stem stopwords lang)
      = tokenizer_with (if stem \<or> stopwords then lang else None) stem stopwords case_fold"
    unfolding tokenizer_from_header_def Let_def header_flags_bits using lang by (cases "stem \<or> stopwords") simp_all
  then show ?thesis by (cases stem; cases stopwords; simp add: tokenize_def tokenizer_with_def)
qed

end
