(* ===== verification/RR_Terms_Dict.thy ===== *)
theory RR_Terms_Dict imports RR_Bytes "HOL-Library.List_Lexorder" begin

text \<open>
  The front-coded dictionary blocks of the term index, \<open>rust/src/terms_dict.rs\<close>: the unsigned
  LEB128 varint, the packed locations, the block writer and the block iterator.  Terms are byte
  strings in byte-lexicographic order; \<open>usize\<close> casts are reductions modulo \<open>um\<close>.

  Shown: the varint and packed-location round trips; that the blocks the writer emits for ascending
  terms decode to exactly the entries pushed, that they lie back to back, are routed by their last
  terms, and that scanning the block a term is routed to finds it or shows it absent.
\<close>

unbundle bit_operations_syntax

type_synonym dict_entry = "bytes \<times> nat \<times> nat"

section \<open>Packed locations\<close>

definition size_bits :: nat where "size_bits = 24"
definition size_mask :: nat where "size_mask = 2 ^ size_bits - 1"
definition default_block_cap :: nat where "default_block_cap = 4096"

definition pack_loc :: "nat \<Rightarrow> nat \<Rightarrow> nat" where
  "pack_loc off sz = (off * 2 ^ size_bits mod U64) OR sz"

definition unpack_loc :: "nat \<Rightarrow> nat \<Rightarrow> nat \<times> nat" where
  "unpack_loc um packed = (drop_bit size_bits packed, (packed AND size_mask) mod um)"

section \<open>Varints\<close>

function write_uvarint :: "nat \<Rightarrow> bytes" where
  "write_uvarint v =
     (let byte = of_nat (v AND 0x7F); v' = drop_bit 7 v in
      if v' = 0 then [byte] else (byte OR 0x80) # write_uvarint v')"
  by pat_completeness auto
termination
proof (relation "measure id")
  fix v byte v' :: nat and b :: "8 word"
  assume "v' = drop_bit 7 v" "v' \<noteq> 0"
  then show "(v', v) \<in> measure id" by (auto simp: drop_bit_eq_div)
qed simp

declare write_uvarint.simps [simp del]

text \<open>\<open>None\<close> on truncation or when a byte would be shifted by 64 or more.\<close>

function read_uvarint_from :: "bytes \<Rightarrow> nat \<Rightarrow> nat \<Rightarrow> nat \<Rightarrow> (nat \<times> nat) option" where
  "read_uvarint_from buf pos result shift =
     (if pos < length buf then
        let byte = buf ! pos in
        if shift \<ge> 64 then None
        else
          let result = result OR (unat (byte AND 0x7F) * 2 ^ shift mod U64) in
          if byte AND 0x80 = 0 then Some (result, pos + 1)
          else read_uvarint_from buf (pos + 1) result (shift + 7)
      else None)"
  by pat_completeness auto
termination
  by (relation "measure (\<lambda>(buf, pos, result, shift). length buf - pos)") auto

declare read_uvarint_from.simps [simp del]

definition read_uvarint :: "bytes \<Rightarrow> nat \<Rightarrow> (nat \<times> nat) option" where
  "read_uvarint buf pos = read_uvarint_from buf pos 0 0"

fun uvarint_len :: "nat \<Rightarrow> nat" where
  "uvarint_len v = (if v \<ge> 0x80 then uvarint_len (v div 2 ^ 7) + 1 else 1)"

declare uvarint_len.simps [simp del]

fun common_prefix :: "bytes \<Rightarrow> bytes \<Rightarrow> nat" where
  "common_prefix (a # as) (b # bs) = (if a = b then 1 + common_prefix as bs else 0)"
| "common_prefix _ _ = 0"

section \<open>The block writer\<close>

record block =
  bk_bytes :: bytes
  bk_off :: nat
  bk_last :: bytes

record block_writer =
  bw_cap :: nat
  bw_cur :: bytes
  bw_last :: bytes
  bw_prev :: bytes
  bw_prev_off :: nat
  bw_count :: nat
  bw_blocks :: "block list"
  bw_dict_len :: nat

definition bw_new :: "nat \<Rightarrow> block_writer" where
  "bw_new cap = \<lparr>bw_cap = (if cap = 0 then default_block_cap else cap), bw_cur = [], bw_last = [], bw_prev = [],
     bw_prev_off = 0, bw_count = 0, bw_blocks = [], bw_dict_len = 0\<rparr>"

definition bw_flush :: "block_writer \<Rightarrow> block_writer" where
  "bw_flush w =
     (if bw_count w = 0 then w
      else w\<lparr>bw_cur := [], bw_dict_len := bw_dict_len w + length (bw_cur w),
             bw_blocks := bw_blocks w @ [\<lparr>bk_bytes = bw_cur w, bk_off = bw_dict_len w, bk_last = bw_last w\<rparr>],
             bw_last := [], bw_count := 0, bw_prev := [], bw_prev_off := 0\<rparr>)"

definition entry_len :: "bytes \<Rightarrow> nat \<Rightarrow> nat \<Rightarrow> nat \<Rightarrow> nat" where
  "entry_len term shared delta head_size =
     uvarint_len shared + uvarint_len (length term - shared) + (length term - shared)
     + uvarint_len delta + uvarint_len head_size"

definition bw_seal_full :: "block_writer \<Rightarrow> bytes \<Rightarrow> nat \<Rightarrow> nat \<Rightarrow> ('e, block_writer) outcome" where
  "bw_seal_full w term head_off head_size =
     (if bw_count w > 0 then
        let shared = common_prefix (bw_prev w) term in
        bind_o (sub_p head_off (bw_prev_off w)) (\<lambda>delta.
        if length (bw_cur w) + entry_len term shared delta head_size > bw_cap w then Ok (bw_flush w) else Ok w)
      else Ok w)"

definition bw_push :: "block_writer \<Rightarrow> bytes \<Rightarrow> nat \<Rightarrow> nat \<Rightarrow> ('e, block_writer) outcome" where
  "bw_push w term head_off head_size =
     bind_o (bw_seal_full w term head_off head_size) (\<lambda>w.
     let first = bw_count w = 0; shared = (if first then 0 else common_prefix (bw_prev w) term) in
     bind_o (if first then Ok head_off else sub_p head_off (bw_prev_off w)) (\<lambda>head_off_d.
     Ok (w\<lparr>bw_cur := bw_cur w @ write_uvarint shared @ write_uvarint (length term - shared) @ drop shared term
                      @ write_uvarint head_off_d @ write_uvarint head_size,
           bw_last := term, bw_prev := term, bw_prev_off := head_off, bw_count := bw_count w + 1\<rparr>)))"

definition bw_finish :: "block_writer \<Rightarrow> block list" where
  "bw_finish w = bw_blocks (bw_flush w)"

section \<open>The block iterator\<close>

record block_iter =
  bi_pos :: nat
  bi_prev :: bytes
  bi_head :: nat
  bi_first :: bool

definition block_next :: "nat \<Rightarrow> bytes \<Rightarrow> block_iter \<Rightarrow> (dict_entry \<times> block_iter) option" where
  "block_next um block it =
     (if bi_pos it \<ge> length block then None
      else Option.bind (read_uvarint block (bi_pos it)) (\<lambda>(shared, pos).
           Option.bind (read_uvarint block pos) (\<lambda>(suffix_len, pos).
           Option.bind (checked_add um pos (suffix_len mod um)) (\<lambda>stop.
           Option.bind (get_range block pos stop) (\<lambda>suffix.
           Option.bind (read_uvarint block stop) (\<lambda>(head_off_d, pos).
           Option.bind (read_uvarint block pos) (\<lambda>(head_size, pos).
             let shared = min (shared mod um) (length (bi_prev it));
                 term = take shared (bi_prev it) @ suffix;
                 head = (if bi_first it then head_off_d else sat_add U64 (bi_head it) head_off_d)
             in Some ((term, head, head_size mod um),
                      \<lparr>bi_pos = pos, bi_prev = term, bi_head = head, bi_first = False\<rparr>))))))))"

lemma read_uvarint_from_pos:
  "read_uvarint_from buf pos r shift = Some (v, pos') \<Longrightarrow> pos < pos' \<and> pos' \<le> length buf"
  by (induction buf pos r shift rule: read_uvarint_from.induct)
     (subst (asm) (2) read_uvarint_from.simps, fastforce simp: Let_def split: if_split_asm)

lemma read_uvarint_pos: "read_uvarint buf pos = Some (v, pos') \<Longrightarrow> pos < pos' \<and> pos' \<le> length buf"
  by (simp add: read_uvarint_def read_uvarint_from_pos)

lemma block_next_advances:
  assumes "block_next um block it = Some (e, it')"
  shows "bi_pos it < bi_pos it' \<and> bi_pos it' \<le> length block"
  using assms by (auto simp: block_next_def Let_def bind_eq_Some_conv split: if_split_asm dest!: read_uvarint_pos)

function block_entries :: "nat \<Rightarrow> bytes \<Rightarrow> block_iter \<Rightarrow> dict_entry list" where
  "block_entries um block it =
     (case block_next um block it of None \<Rightarrow> [] | Some (e, it') \<Rightarrow> e # block_entries um block it')"
  by pat_completeness auto
termination
  by (relation "measure (\<lambda>(um, block, it). length block - bi_pos it)")
     (auto dest!: sym [of "Some _"] block_next_advances)

declare block_entries.simps [simp del]

definition iter_block :: "nat \<Rightarrow> bytes \<Rightarrow> dict_entry list" where
  "iter_block um block = block_entries um block \<lparr>bi_pos = 0, bi_prev = [], bi_head = 0, bi_first = True\<rparr>"

fun scan_entries :: "bytes \<Rightarrow> dict_entry list \<Rightarrow> (nat \<times> nat) option" where
  "scan_entries term [] = None"
| "scan_entries term ((t, head_off, head_size) # es) =
     (if t = term then Some (head_off, head_size)
      else if t > term then None
      else scan_entries term es)"

definition scan_block :: "nat \<Rightarrow> bytes \<Rightarrow> bytes \<Rightarrow> (nat \<times> nat) option" where
  "scan_block um block term = scan_entries term (iter_block um block)"

section \<open>Round trips of the primitives\<close>

lemma or_disjoint: assumes "r < 2 ^ s" shows "r OR (k * 2 ^ s) = r + k * (2 ^ s :: nat)"
proof -
  have r: "take_bit s r = r" using assms by (simp add: take_bit_nat_eq_self)
  have "r + push_bit s k = r OR push_bit s k"
    by (rule disjunctive_add) (metis bit_push_bit_iff_nat bit_take_bit_iff r not_less)
  then show ?thesis by (simp add: push_bit_eq_mult)
qed

lemma unpack_pack_loc:
  assumes "off < 2 ^ 40" "sz < 2 ^ 24" "sz < um"
  shows "unpack_loc um (pack_loc off sz) = (off, sz)"
proof -
  have "off * 2 ^ 24 mod U64 = off * 2 ^ 24" using assms(1) by simp
  then have p: "pack_loc off sz = sz + off * 2 ^ 24"
    using or_disjoint [of sz 24 off] assms(2) by (simp add: pack_loc_def size_bits_def or.commute)
  have "(sz + off * 2 ^ 24) AND (2 ^ 24 - 1) = (sz + off * 2 ^ 24) mod 2 ^ 24"
    by (simp only: mask_eq_exp_minus_1 [symmetric] take_bit_eq_mask [symmetric] take_bit_eq_mod)
  then show ?thesis
    using assms(2,3) unfolding unpack_loc_def p size_mask_def size_bits_def by (simp add: drop_bit_eq_div)
qed

lemma low_byte:
  assumes "n < 128"
  shows "unat ((of_nat n :: 8 word) AND 0x7F) = n" "(of_nat n :: 8 word) AND 0x80 = 0"
    "unat ((of_nat n OR 0x80 :: 8 word) AND 0x7F) = n" "(of_nat n OR 0x80 :: 8 word) AND 0x80 \<noteq> 0"
proof -
  have "list_all (\<lambda>n. unat ((of_nat n :: 8 word) AND 0x7F) = n \<and> (of_nat n :: 8 word) AND 0x80 = 0
    \<and> unat ((of_nat n OR 0x80 :: 8 word) AND 0x7F) = n \<and> (of_nat n OR 0x80 :: 8 word) AND 0x80 \<noteq> 0) [0..<128]"
    by code_simp
  then show "unat ((of_nat n :: 8 word) AND 0x7F) = n" "(of_nat n :: 8 word) AND 0x80 = 0"
    "unat ((of_nat n OR 0x80 :: 8 word) AND 0x7F) = n" "(of_nat n OR 0x80 :: 8 word) AND 0x80 \<noteq> 0"
    using assms by (simp_all add: list_all_iff)
qed

lemma write_uvarint_ne: "write_uvarint v \<noteq> []"
  by (subst write_uvarint.simps) (simp add: Let_def)

lemma uvarint_len: "uvarint_len v = length (write_uvarint v)"
proof (induction v rule: uvarint_len.induct)
  case (1 v)
  have "v \<ge> 128 \<longleftrightarrow> drop_bit 7 v \<noteq> 0" by (simp add: drop_bit_eq_div div_eq_0_iff not_less)
  then show ?case
    using 1 by (subst uvarint_len.simps, subst write_uvarint.simps) (simp add: Let_def drop_bit_eq_div)
qed

lemma read_write_uvarint_from:
  "r < 2 ^ s \<Longrightarrow> v * 2 ^ s < U64 \<Longrightarrow> s < 64 \<Longrightarrow>
   read_uvarint_from (pre @ write_uvarint v @ post) (length pre) r s = Some (r + v * 2 ^ s, length pre + length (write_uvarint v))"
proof (induction v arbitrary: pre r s rule: write_uvarint.induct)
  case (1 v)
  let ?n = "v AND 0x7F" and ?v = "drop_bit 7 v"
  have n: "?n = v mod 128" "?v = v div 128"
    by (simp_all add: drop_bit_eq_div take_bit_eq_mod [of 7, simplified, symmetric] take_bit_eq_mask mask_eq_exp_minus_1)
  then have nl: "?n < 128" by simp
  note low = low_byte [OF nl]
  have le: "?n * 2 ^ s \<le> v * 2 ^ s" using n by (intro mult_right_mono) simp_all
  then have mod: "?n * 2 ^ s mod U64 = ?n * 2 ^ s" using 1 by (intro mod_less) linarith
  show ?case
  proof (cases "?v = 0")
    case True
    then have "v = ?n" using n by simp
    then show ?thesis
      using True low mod or_disjoint [OF 1(2), of ?n] 1(4)
      by (subst write_uvarint.simps, subst read_uvarint_from.simps) (simp add: Let_def nth_append write_uvarint.simps [of v])
  next
    case False
    let ?r = "r + ?n * 2 ^ s"
    have v: "v = ?n + ?v * 128" using n by simp
    have "?r < 2 ^ (s + 7)"
    proof -
      have "?n * 2 ^ s \<le> 127 * 2 ^ s" using nl by (intro mult_right_mono) simp_all
      then have "?r < 2 ^ s + 127 * 2 ^ s" using 1(2) by linarith
      then show ?thesis by (simp add: power_add)
    qed
    moreover have e: "?v * 2 ^ (s + 7) \<le> v * 2 ^ s" by (subst (2) v) (simp add: power_add algebra_simps)
    moreover have "s + 7 < 64"
    proof (rule ccontr)
      assume "\<not> s + 7 < 64"
      then have "(2::nat) ^ 64 \<le> 2 ^ (s + 7)" by (intro power_increasing) simp_all
      moreover have "2 ^ (s + 7) \<le> ?v * 2 ^ (s + 7)" using False by simp
      ultimately show False using e 1(3) by linarith
    qed
    ultimately have "read_uvarint_from ((pre @ [of_nat ?n OR 0x80]) @ write_uvarint ?v @ post) (length (pre @ [of_nat ?n OR 0x80])) ?r (s + 7)
        = Some (?r + ?v * 2 ^ (s + 7), length (pre @ [of_nat ?n OR 0x80]) + length (write_uvarint ?v))"
      using 1 False by (intro 1(1)) auto
    moreover have "?r + ?v * 2 ^ (s + 7) = r + v * 2 ^ s" by (subst (3) v) (simp add: power_add algebra_simps)
    moreover have w: "write_uvarint v = (of_nat ?n OR 0x80) # write_uvarint ?v"
      using False by (subst write_uvarint.simps) (simp add: Let_def)
    ultimately show ?thesis
      using low mod or_disjoint [OF 1(2), of ?n] 1(4)
      unfolding w by (subst read_uvarint_from.simps) (simp add: Let_def nth_append)
  qed
qed

lemma read_write_uvarint:
  "buf = pre @ write_uvarint v @ post \<Longrightarrow> pos = length pre \<Longrightarrow> v < U64 \<Longrightarrow>
   read_uvarint buf pos = Some (v, pos + length (write_uvarint v))"
  using read_write_uvarint_from [of 0 0 v pre post] by (simp add: read_uvarint_def)

section \<open>Encoding and decoding a block\<close>

lemma common_prefix: "common_prefix a b \<le> length a \<and> common_prefix a b \<le> length b \<and> take (common_prefix a b) a = take (common_prefix a b) b"
  by (induction a b rule: common_prefix.induct) auto

definition enc_entry :: "bool \<Rightarrow> bytes \<Rightarrow> nat \<Rightarrow> dict_entry \<Rightarrow> bytes" where
  "enc_entry first prev poff = (\<lambda>(t, off, sz).
     let shared = (if first then 0 else common_prefix prev t) in
     write_uvarint shared @ write_uvarint (length t - shared) @ drop shared t
       @ write_uvarint (if first then off else off - poff) @ write_uvarint sz)"

fun enc_from :: "bool \<Rightarrow> bytes \<Rightarrow> nat \<Rightarrow> dict_entry list \<Rightarrow> bytes" where
  "enc_from first prev poff [] = []"
| "enc_from first prev poff (e # es) = enc_entry first prev poff e @ enc_from False (fst e) (fst (snd e)) es"

definition enc_block :: "dict_entry list \<Rightarrow> bytes" where
  "enc_block es = enc_from True [] 0 es"

lemma enc_from_snoc:
  "enc_from first prev poff (es @ [e]) = enc_from first prev poff es @
     (if es = [] then enc_entry first prev poff e else enc_entry False (fst (last es)) (fst (snd (last es))) e)"
  by (induction first prev poff es rule: enc_from.induct) auto

lemma enc_block_snoc:
  "enc_block (es @ [e]) = enc_block es @
     (if es = [] then enc_entry True [] 0 e else enc_entry False (fst (last es)) (fst (snd (last es))) e)"
  by (simp add: enc_block_def enc_from_snoc)

lemma enc_entry_ne [simp]: "enc_entry first prev poff e \<noteq> []"
  by (auto simp: enc_entry_def Let_def write_uvarint_ne split: prod.splits)

text \<open>Entries that fit: offsets ascend, all fields are below 64 bits and the address space.\<close>

definition entry_fits :: "nat \<Rightarrow> dict_entry \<Rightarrow> bool" where
  "entry_fits um = (\<lambda>(t, off, sz). length t < um \<and> off < U64 \<and> sz < um)"

lemma block_next_decodes:
  assumes block: "block = pre @ enc_entry first prev poff e @ post" and fits: "entry_fits um e" "um \<le> U64" "length block < um"
    and off: "first \<or> poff \<le> fst (snd e)" and len: "length prev < um"
  shows "block_next um block \<lparr>bi_pos = length pre, bi_prev = prev, bi_head = poff, bi_first = first\<rparr>
    = Some (e, \<lparr>bi_pos = length pre + length (enc_entry first prev poff e), bi_prev = fst e, bi_head = fst (snd e), bi_first = False\<rparr>)"
proof -
  obtain t o' sz where e: "e = (t, o', sz)" by (metis prod_cases3)
  let ?sh = "if first then 0 else common_prefix prev t"
  let ?d = "if first then o' else o' - poff"
  let ?suf = "drop ?sh t"
  have sh: "?sh \<le> length prev" "?sh \<le> length t" "take ?sh prev = take ?sh t"
    using common_prefix [of prev t] by auto
  have b: "block = pre @ write_uvarint ?sh @ write_uvarint (length t - ?sh) @ ?suf @ write_uvarint ?d @ write_uvarint sz @ post"
    unfolding block e enc_entry_def by (simp add: Let_def)
  let ?p1 = "length pre + length (write_uvarint ?sh)"
  let ?p2 = "?p1 + length (write_uvarint (length t - ?sh))"
  let ?p3 = "?p2 + (length t - ?sh)"
  let ?p4 = "?p3 + length (write_uvarint ?d)"
  have fit: "length t < um" "o' < U64" "sz < um" using fits(1) by (simp_all add: entry_fits_def e)
  have fit64: "?sh < U64" "length t - ?sh < U64" "?d < U64" "sz < U64" using fit fits(2) sh(1,2) by auto
  have r1: "read_uvarint block (length pre) = Some (?sh, ?p1)"
    by (rule read_write_uvarint [OF b refl fit64(1)])
  have r2: "read_uvarint block ?p1 = Some (length t - ?sh, ?p2)"
    by (rule read_write_uvarint [of _ "pre @ write_uvarint ?sh" _ "?suf @ write_uvarint ?d @ write_uvarint sz @ post"])
       (simp_all only: b append_assoc length_append fit64)
  have r3: "get_range block ?p2 ?p3 = Some ?suf"
  proof -
    have "cut block ?p2 ?p3 = ?suf"
      using cut_mid [of "pre @ write_uvarint ?sh @ write_uvarint (length t - ?sh)" ?p2 ?suf "length t - ?sh" "write_uvarint ?d @ write_uvarint sz @ post"]
      by (simp only: b append_assoc length_append length_drop simp_thms add.assoc)
    moreover have "?p3 \<le> length block" by (simp only: b length_append length_drop)
    ultimately show ?thesis by (simp add: get_range_def)
  qed
  have r4: "read_uvarint block ?p3 = Some (?d, ?p4)"
    by (rule read_write_uvarint [of _ "pre @ write_uvarint ?sh @ write_uvarint (length t - ?sh) @ ?suf" _ "write_uvarint sz @ post"])
       (simp_all only: b append_assoc length_append length_drop fit64 add.assoc)
  have r5: "read_uvarint block ?p4 = Some (sz, ?p4 + length (write_uvarint sz))"
    by (rule read_write_uvarint [of _ "pre @ write_uvarint ?sh @ write_uvarint (length t - ?sh) @ ?suf @ write_uvarint ?d" _ post])
       (simp_all only: b append_assoc length_append length_drop fit64 add.assoc)
  have p: "length pre < length block" "?p3 < um" using fits(3) unfolding b using write_uvarint_ne by simp_all
  have small: "?sh mod um = ?sh" "(length t - ?sh) mod um = length t - ?sh" "sz mod um = sz" "min ?sh (length prev) = ?sh"
    using sh len fit by simp_all
  have tm: "take ?sh prev @ ?suf = t" using sh(3) by simp
  have head: "(if first then ?d else sat_add U64 poff ?d) = o'" using off fit e by (auto simp: sat_add_exact)
  have end_pos: "length pre + length (enc_entry first prev poff e) = ?p4 + length (write_uvarint sz)"
    unfolding e enc_entry_def by (simp add: Let_def)
  show ?thesis
    unfolding end_pos block_next_def
    using p by (simp only: block_iter.simps r1 Option.bind_def bind.bind_lunit prod.case) (simp add: r2 r3 r4 r5 small tm head e Let_def)
qed

fun offsets_ascend :: "nat \<Rightarrow> dict_entry list \<Rightarrow> bool" where
  "offsets_ascend poff [] = True"
| "offsets_ascend poff (e # es) = (poff \<le> fst (snd e) \<and> offsets_ascend (fst (snd e)) es)"

lemma block_entries_decodes:
  "block = pre @ enc_from first prev poff es \<Longrightarrow> list_all (entry_fits um) es \<Longrightarrow> um \<le> U64 \<Longrightarrow> length block < um \<Longrightarrow>
   offsets_ascend (if first then 0 else poff) es \<Longrightarrow> length prev < um \<Longrightarrow>
   block_entries um block \<lparr>bi_pos = length pre, bi_prev = prev, bi_head = poff, bi_first = first\<rparr> = es"
proof (induction first prev poff es arbitrary: pre rule: enc_from.induct)
  case (1 first prev poff)
  then show ?case by (simp add: block_entries.simps block_next_def)
next
  case (2 first prev poff e es)
  let ?rest = "enc_from False (fst e) (fst (snd e)) es"
  have b: "block = pre @ enc_entry first prev poff e @ ?rest" using 2(2) by simp
  have "block_next um block \<lparr>bi_pos = length pre, bi_prev = prev, bi_head = poff, bi_first = first\<rparr>
      = Some (e, \<lparr>bi_pos = length pre + length (enc_entry first prev poff e), bi_prev = fst e, bi_head = fst (snd e), bi_first = False\<rparr>)"
    using 2(3-7) by (intro block_next_decodes [OF b]) (auto split: if_split_asm)
  moreover have "block_entries um block \<lparr>bi_pos = length (pre @ enc_entry first prev poff e), bi_prev = fst e, bi_head = fst (snd e), bi_first = False\<rparr> = es"
    using 2(3-7) b by (intro 2(1)) (auto simp: entry_fits_def split: if_split_asm prod.splits)
  ultimately show ?case by (subst block_entries.simps) simp
qed

lemma iter_enc_block:
  assumes "list_all (entry_fits um) es" "um \<le> U64" "length (enc_block es) < um" "offsets_ascend 0 es"
  shows "iter_block um (enc_block es) = es"
  using block_entries_decodes [of "enc_block es" "[]" True "[]" 0 es um] assms by (simp add: iter_block_def enc_block_def)

lemma scan_entries_map_of:
  "sorted_wrt (<) (map fst es) \<Longrightarrow> scan_entries t es = map_of es t"
proof (induction es)
  case (Cons e es)
  obtain u o' sz where e: "e = (u, o', sz)" by (metis prod_cases3)
  have "map_of es t = None" if "u > t"
  proof -
    have "t \<notin> fst ` set es" using Cons.prems that e by auto
    then show ?thesis by (simp add: map_of_eq_None_iff)
  qed
  then show ?case using Cons e by auto
qed simp

section \<open>What the writer emits\<close>

fun blocks_of :: "nat \<Rightarrow> dict_entry list list \<Rightarrow> block list" where
  "blocks_of off [] = []"
| "blocks_of off (g # gs) = \<lparr>bk_bytes = enc_block g, bk_off = off, bk_last = fst (last g)\<rparr> # blocks_of (off + length (enc_block g)) gs"

definition dict_size :: "dict_entry list list \<Rightarrow> nat" where
  "dict_size gs = sum_list (map (\<lambda>g. length (enc_block g)) gs)"

lemma blocks_of_snoc:
  "blocks_of off (gs @ [g]) = blocks_of off gs @ [\<lparr>bk_bytes = enc_block g, bk_off = off + dict_size gs, bk_last = fst (last g)\<rparr>]"
  by (induction off gs rule: blocks_of.induct) (simp_all add: dict_size_def)

definition cap_ok :: "nat \<Rightarrow> dict_entry list \<Rightarrow> bool" where
  "cap_ok cap g \<longleftrightarrow> length (enc_block g) \<le> cap \<or> length g = 1"

definition bw_inv :: "block_writer \<Rightarrow> dict_entry list list \<Rightarrow> dict_entry list \<Rightarrow> bool" where
  "bw_inv w gs cur \<longleftrightarrow>
     bw_blocks w = blocks_of 0 gs \<and> bw_dict_len w = dict_size gs \<and> bw_cur w = enc_block cur \<and> bw_count w = length cur
     \<and> (cur \<noteq> [] \<longrightarrow> bw_last w = fst (last cur) \<and> bw_prev w = fst (last cur) \<and> bw_prev_off w = fst (snd (last cur)))
     \<and> [] \<notin> set gs \<and> list_all (cap_ok (bw_cap w)) gs \<and> (cur \<noteq> [] \<longrightarrow> cap_ok (bw_cap w) cur)"

lemma bw_new_inv: "bw_inv (bw_new cap) [] []"
  by (simp add: bw_inv_def bw_new_def enc_block_def dict_size_def)

lemma bw_flush_inv:
  assumes "bw_inv w gs cur"
  shows "bw_inv (bw_flush w) (if cur = [] then gs else gs @ [cur]) []" "bw_cap (bw_flush w) = bw_cap w"
proof -
  show "bw_cap (bw_flush w) = bw_cap w" by (simp add: bw_flush_def)
  show "bw_inv (bw_flush w) (if cur = [] then gs else gs @ [cur]) []"
  proof (cases "cur = []")
    case True
    then show ?thesis using assms by (simp add: bw_inv_def bw_flush_def)
  next
    case False
    then show ?thesis
      using assms blocks_of_snoc [of 0 gs cur] by (simp add: bw_inv_def bw_flush_def dict_size_def enc_block_def [of "[]"])
  qed
qed

lemma entry_len_exact:
  "entry_len t (common_prefix prev t) (off - poff) sz = length (enc_entry False prev poff (t, off, sz))"
  by (simp add: entry_len_def enc_entry_def uvarint_len Let_def)

lemma bw_seal_inv:
  assumes inv: "bw_inv w gs cur" and off: "cur \<noteq> [] \<Longrightarrow> fst (snd (last cur)) \<le> off"
  obtains w' gs' cur' where "bw_seal_full w t off sz = (Ok w' :: ('x, block_writer) outcome)" "bw_inv w' gs' cur'" "concat gs' @ cur' = concat gs @ cur"
    "bw_cap w' = bw_cap w" "cur' = [] \<or> cur' = cur"
    "cur' \<noteq> [] \<longrightarrow> length (enc_block (cur' @ [(t, off, sz)])) \<le> bw_cap w"
proof (cases "cur = []")
  case True
  then have "bw_seal_full w t off sz = (Ok w :: ('x, block_writer) outcome)" using inv by (simp add: bw_seal_full_def bw_inv_def)
  then show thesis using that [of w gs cur] inv True by simp
next
  case False
  let ?full = "length (bw_cur w) + entry_len t (common_prefix (bw_prev w) t) (off - bw_prev_off w) sz > bw_cap w"
  have s: "bw_seal_full w t off sz = (Ok (if ?full then bw_flush w else w) :: ('x, block_writer) outcome)"
    using inv False off by (simp add: bw_seal_full_def bw_inv_def Let_def)
  have len: "length (bw_cur w) + entry_len t (common_prefix (bw_prev w) t) (off - bw_prev_off w) sz = length (enc_block (cur @ [(t, off, sz)]))"
    using inv False by (simp add: bw_inv_def enc_block_snoc entry_len_exact)
  show thesis
  proof (cases ?full)
    case True
    then show thesis using that [of "bw_flush w" "gs @ [cur]" "[]"] s bw_flush_inv [OF inv] False by simp
  next
    case nf: False
    then show thesis using that [of w gs cur] s inv len by simp
  qed
qed

lemma bw_push_inv:
  assumes inv: "bw_inv w gs cur" and off: "cur \<noteq> [] \<Longrightarrow> fst (snd (last cur)) \<le> off"
  obtains w' gs' cur' where "bw_push w t off sz = (Ok w' :: ('x, block_writer) outcome)" "bw_inv w' gs' (cur' @ [(t, off, sz)])"
    "concat gs' @ cur' = concat gs @ cur" "bw_cap w' = bw_cap w"
proof -
  obtain w1 gs' cur' where s: "bw_seal_full w t off sz = (Ok w1 :: ('x, block_writer) outcome)" "bw_inv w1 gs' cur'" "concat gs' @ cur' = concat gs @ cur"
    "bw_cap w1 = bw_cap w" "cur' = [] \<or> cur' = cur" "cur' \<noteq> [] \<longrightarrow> length (enc_block (cur' @ [(t, off, sz)])) \<le> bw_cap w"
    using bw_seal_inv [OF assms] by metis
  let ?e = "enc_entry (cur' = []) (bw_prev w1) (bw_prev_off w1) (t, off, sz)"
  let ?w = "w1\<lparr>bw_cur := bw_cur w1 @ ?e, bw_last := t, bw_prev := t, bw_prev_off := off, bw_count := bw_count w1 + 1\<rparr>"
  have enc: "bw_cur w1 @ ?e = enc_block (cur' @ [(t, off, sz)])"
    using s(2) enc_block_snoc [of cur' "(t, off, sz)"]
    by (cases "cur' = []") (simp_all add: bw_inv_def enc_entry_def enc_block_def [of "[]"])
  have p: "bw_push w t off sz = (Ok ?w :: ('x, block_writer) outcome)"
    using s(1,2) s(5) off by (cases "cur' = []") (auto simp: bw_push_def bw_inv_def Let_def enc_entry_def)
  have "bw_inv ?w gs' (cur' @ [(t, off, sz)])"
    using s(2,4,6) enc by (auto simp: bw_inv_def cap_ok_def)
  then show thesis using that [OF p] s(3,4) by simp
qed

text \<open>Pushing a whole dictionary.\<close>

definition write_dict_blocks :: "nat \<Rightarrow> dict_entry list \<Rightarrow> ('e, block list) outcome" where
  "write_dict_blocks cap es = map_ok bw_finish (foldM_o (\<lambda>w (t, off, sz). bw_push w t off sz) (bw_new cap) es)"

lemma bw_pushes_inv:
  assumes "bw_inv w gs cur" "offsets_ascend (if cur = [] then 0 else fst (snd (last cur))) es"
  shows "\<exists>w' gs' cur'. foldM_o (\<lambda>w (t, off, sz). bw_push w t off sz) w es = (Ok w' :: ('x, block_writer) outcome) \<and> bw_inv w' gs' cur'
    \<and> concat gs' @ cur' = concat gs @ cur @ es \<and> bw_cap w' = bw_cap w"
  using assms
proof (induction es arbitrary: w gs cur)
  case Nil
  then show ?case by auto
next
  case (Cons e es)
  obtain t off sz where e: "e = (t, off, sz)" by (metis prod_cases3)
  have "cur \<noteq> [] \<Longrightarrow> fst (snd (last cur)) \<le> off" using Cons.prems(2) e by simp
  then obtain w1 gs1 cur1 where p: "bw_push w t off sz = (Ok w1 :: ('x, block_writer) outcome)" "bw_inv w1 gs1 (cur1 @ [(t, off, sz)])"
    "concat gs1 @ cur1 = concat gs @ cur" "bw_cap w1 = bw_cap w"
    using bw_push_inv [OF Cons.prems(1)] by metis
  have "offsets_ascend (if cur1 @ [(t, off, sz)] = [] then 0 else fst (snd (last (cur1 @ [(t, off, sz)])))) es"
    using Cons.prems(2) e by simp
  from Cons.IH [OF p(2) this] obtain w2 gs2 cur2 where i: "foldM_o (\<lambda>w (t, off, sz). bw_push w t off sz) w1 es = (Ok w2 :: ('x, block_writer) outcome)"
    "bw_inv w2 gs2 cur2" "concat gs2 @ cur2 = concat gs1 @ (cur1 @ [(t, off, sz)]) @ es" "bw_cap w2 = bw_cap w1" by blast
  moreover have "concat gs1 @ (cur1 @ [(t, off, sz)]) @ es = concat gs @ cur @ e # es"
    using arg_cong [OF p(3), of "\<lambda>xs. xs @ e # es"] e by simp
  ultimately show ?case using p(1,4) e by (intro exI [of _ w2] exI [of _ gs2] exI [of _ cur2]) simp
qed

lemma write_dict_blocks_groups:
  assumes "offsets_ascend 0 es"
  obtains gs where "write_dict_blocks cap es = (Ok (blocks_of 0 gs) :: ('x, block list) outcome)" "concat gs = es" "[] \<notin> set gs"
    "list_all (cap_ok (if cap = 0 then default_block_cap else cap)) gs"
proof -
  obtain w gs cur where w: "foldM_o (\<lambda>w (t, off, sz). bw_push w t off sz) (bw_new cap) es = (Ok w :: ('x, block_writer) outcome)"
    "bw_inv w gs cur" "concat gs @ cur = es" "bw_cap w = bw_cap (bw_new cap)"
    using bw_pushes_inv [OF bw_new_inv, of es cap] assms by auto
  note f = bw_flush_inv [OF w(2)]
  have "write_dict_blocks cap es = (Ok (blocks_of 0 (if cur = [] then gs else gs @ [cur])) :: ('x, block list) outcome)"
    using w(1) f(1) by (simp add: write_dict_blocks_def bw_finish_def bw_inv_def)
  moreover have "concat (if cur = [] then gs else gs @ [cur]) = es" using w(3) by auto
  moreover have "[] \<notin> set (if cur = [] then gs else gs @ [cur])"
    "list_all (cap_ok (if cap = 0 then default_block_cap else cap)) (if cur = [] then gs else gs @ [cur])"
    using f w(4) unfolding bw_inv_def by (simp_all add: bw_new_def)
  ultimately show thesis using that by blast
qed

section \<open>Routing\<close>

lemma ascending_group:
  fixes g :: "('k::linorder \<times> 'v) list"
  assumes "sorted_wrt (<) (map fst (concat (g # gs)))" "g \<noteq> []"
  shows "sorted_wrt (<) (map fst g)" "sorted_wrt (<) (map fst (concat gs))"
    "\<And>e. e \<in> set g \<Longrightarrow> fst e \<le> fst (last g)" "\<And>e. e \<in> set (concat gs) \<Longrightarrow> fst (last g) < fst e"
proof -
  have s: "sorted_wrt (<) (map fst g @ map fst (concat gs))" using assms(1) by simp
  then show "sorted_wrt (<) (map fst g)" "sorted_wrt (<) (map fst (concat gs))" by (auto simp: sorted_wrt_append)
  show "fst (last g) < fst e" if "e \<in> set (concat gs)" for e
    using s that last_in_set [OF assms(2)] by (auto simp: sorted_wrt_append)
  have "sorted_wrt (<) (map fst (butlast g @ [last g]))" using \<open>sorted_wrt (<) (map fst g)\<close> assms(2) by simp
  then have "\<forall>e \<in> set (butlast g). fst e < fst (last g)" by (auto simp: sorted_wrt_append)
  moreover have "set g = set (butlast g @ [last g])" using assms(2) by simp
  then have "set g = insert (last g) (set (butlast g))" by (simp only: set_append) simp
  ultimately show "fst e \<le> fst (last g)" if "e \<in> set g" for e using that by auto
qed

lemma routed:
  fixes gs :: "('k::linorder \<times> 'v) list list"
  assumes "sorted_wrt (<) (map fst (concat gs))" "[] \<notin> set gs"
  shows "(case find (\<lambda>g. t \<le> fst (last g)) gs of None \<Rightarrow> None | Some g \<Rightarrow> map_of g t) = map_of (concat gs) t"
  using assms
proof (induction gs)
  case (Cons g gs)
  have g: "g \<noteq> []" using Cons.prems(2) by auto
  note asc = ascending_group [OF Cons.prems(1) g]
  show ?case
  proof (cases "t \<le> fst (last g)")
    case True
    then have "t \<notin> fst ` set (concat gs)" using asc(4) leD by blast
    then have "map_of (concat gs) t = None" by (simp only: map_of_eq_None_iff) simp
    then show ?thesis using True by (cases "map_of g t") (simp_all add: map_add_def)
  next
    case False
    then have "t \<notin> fst ` set g" using asc(3) by (auto simp: image_iff)
    then have "map_of g t = None" by (simp only: map_of_eq_None_iff) simp
    then show ?thesis using False Cons.IH asc(2) Cons.prems(2) by (simp add: map_add_def)
  qed
qed simp

lemma map_bytes_blocks_of [simp]:
  "map bk_bytes (blocks_of off gs) = map enc_block gs" "map bk_last (blocks_of off gs) = map (\<lambda>g. fst (last g)) gs"
  "length (blocks_of off gs) = length gs"
  by (induction off gs rule: blocks_of.induct) simp_all

lemma find_blocks_of:
  "map_option bk_bytes (find (\<lambda>b. t \<le> bk_last b) (blocks_of off gs)) = map_option enc_block (find (\<lambda>g. t \<le> fst (last g)) gs)"
  by (induction off gs rule: blocks_of.induct) auto

lemma blocks_of_nth:
  "i < length gs \<Longrightarrow> blocks_of off gs ! i = \<lparr>bk_bytes = enc_block (gs ! i), bk_off = off + dict_size (take i gs), bk_last = fst (last (gs ! i))\<rparr>"
  by (induction off gs arbitrary: i rule: blocks_of.induct) (auto simp: nth_Cons dict_size_def split: nat.splits)

lemma offsets_ascend_weaken: "offsets_ascend lo es \<Longrightarrow> lo' \<le> lo \<Longrightarrow> offsets_ascend lo' es"
  by (cases es) auto

lemma offsets_ascend_append: "offsets_ascend lo (xs @ ys) \<Longrightarrow> offsets_ascend lo xs \<and> offsets_ascend 0 ys"
  by (induction lo xs rule: offsets_ascend.induct) (auto intro: offsets_ascend_weaken)

lemma offsets_ascend_concat: "offsets_ascend lo (concat gs) \<Longrightarrow> g \<in> set gs \<Longrightarrow> offsets_ascend 0 g"
  by (induction gs arbitrary: lo) (auto dest: offsets_ascend_append offsets_ascend_weaken)

lemma enc_block_group_length: "g \<in> set gs \<Longrightarrow> length (enc_block g) \<le> dict_size gs"
  unfolding dict_size_def by (rule member_le_sum_list) auto

text \<open>What a written dictionary promises its readers.\<close>

lemma written_dict:
  assumes "offsets_ascend 0 es" "sorted_wrt (<) (map fst es)" "list_all (entry_fits um) es" "um \<le> U64"
  obtains gs where "write_dict_blocks cap es = (Ok (blocks_of 0 gs) :: ('x, block list) outcome)" "concat gs = es" "[] \<notin> set gs"
    "list_all (cap_ok (if cap = 0 then default_block_cap else cap)) gs"
    "dict_size gs < um \<longrightarrow> (\<forall>g \<in> set gs. iter_block um (enc_block g) = g \<and> (\<forall>t. scan_block um (enc_block g) t = map_of g t))"
proof -
  obtain gs where w: "write_dict_blocks cap es = (Ok (blocks_of 0 gs) :: ('x, block list) outcome)" "concat gs = es" "[] \<notin> set gs"
    "list_all (cap_ok (if cap = 0 then default_block_cap else cap)) gs"
    using write_dict_blocks_groups [OF assms(1)] by metis
  have it: "iter_block um (enc_block g) = g" if "dict_size gs < um" "g \<in> set gs" for g
  proof (rule iter_enc_block)
    show "list_all (entry_fits um) g" using assms(3) w(2) that(2) by (auto simp: list_all_iff)
    show "length (enc_block g) < um" using enc_block_group_length [OF that(2)] that(1) by simp
    show "offsets_ascend 0 g" using offsets_ascend_concat [of 0 gs g] assms(1) w(2) that(2) by simp
  qed (rule assms(4))
  have "sorted_wrt (<) (map fst g)" if g: "g \<in> set gs" for g
  proof -
    obtain as bs where "gs = as @ g # bs" using split_list [OF g] by blast
    then have "map fst es = map fst (concat as) @ map fst g @ map fst (concat bs)" unfolding w(2) [symmetric] by simp
    then show ?thesis using assms(2) by (simp only: sorted_wrt_append)
  qed
  then have "scan_block um (enc_block g) t = map_of g t" if "dict_size gs < um" "g \<in> set gs" for g t
    using it [OF that] that(2) by (simp add: scan_block_def scan_entries_map_of)
  then show thesis using that [OF w] it by blast
qed

section \<open>Properties\<close>

text \<open>
  Round trip of the term dictionary. For terms pushed in ascending byte order with ascending
  posting offsets, the writer never fails; its blocks lie back to back, each stays within the cap
  unless it holds a single entry, and together they decode to exactly the entries pushed. Scanning
  the first block whose last term is not below a byte string finds its posting location, or shows
  that it is not a term.
\<close>

lemma dict_roundtrip:
  assumes "sorted_wrt (<) (map fst es)" "offsets_ascend 0 es" "list_all (entry_fits um) es" "um \<le> U64"
  shows "\<exists>blocks. write_dict_blocks cap es = (Ok blocks :: ('x, block list) outcome)
    \<and> (\<forall>i < length blocks. bk_off (blocks ! i) = sum_list (map (\<lambda>b. length (bk_bytes b)) (take i blocks)))
    \<and> (sum_list (map (\<lambda>b. length (bk_bytes b)) blocks) < um \<longrightarrow>
         concat (map (\<lambda>b. iter_block um (bk_bytes b)) blocks) = es
         \<and> (\<forall>b \<in> set blocks. length (bk_bytes b) \<le> (if cap = 0 then default_block_cap else cap) \<or> length (iter_block um (bk_bytes b)) = 1)
         \<and> (\<forall>t. (case find (\<lambda>b. t \<le> bk_last b) blocks of None \<Rightarrow> None | Some b \<Rightarrow> scan_block um (bk_bytes b) t) = map_of es t))"
proof -
  obtain gs where w: "write_dict_blocks cap es = (Ok (blocks_of 0 gs) :: ('x, block list) outcome)" "concat gs = es" "[] \<notin> set gs"
    "list_all (cap_ok (if cap = 0 then default_block_cap else cap)) gs"
    "dict_size gs < um \<longrightarrow> (\<forall>g \<in> set gs. iter_block um (enc_block g) = g \<and> (\<forall>t. scan_block um (enc_block g) t = map_of g t))"
    using written_dict [OF assms(2,1,3,4)] by metis
  let ?bs = "blocks_of 0 gs"
  have len: "sum_list (map (\<lambda>b. length (bk_bytes b)) ?bs) = dict_size gs"
    using arg_cong [OF map_bytes_blocks_of(1) [of 0 gs], of "\<lambda>xs. sum_list (map length xs)"] by (simp only: dict_size_def map_map comp_def)
  have offs: "bk_off (?bs ! i) = sum_list (map (\<lambda>b. length (bk_bytes b)) (take i ?bs))" if "i < length ?bs" for i
  proof -
    have "map (\<lambda>b. length (bk_bytes b)) (take i ?bs) = map (\<lambda>g. length (enc_block g)) (take i gs)"
      using arg_cong [OF map_bytes_blocks_of(1) [of 0 gs], of "\<lambda>xs. map length (take i xs)"] by (simp only: take_map map_map comp_def)
    then show ?thesis using that by (simp add: blocks_of_nth dict_size_def)
  qed
  have bytes: "b \<in> set ?bs \<Longrightarrow> \<exists>g \<in> set gs. bk_bytes b = enc_block g" for b
    using arg_cong [OF map_bytes_blocks_of(1) [of 0 gs], of set] by (metis imageE image_eqI image_set map_bytes_blocks_of(1))
  have all: "concat (map (\<lambda>b. iter_block um (bk_bytes b)) ?bs) = es" if "dict_size gs < um"
  proof -
    have "map (\<lambda>b. iter_block um (bk_bytes b)) ?bs = map (\<lambda>g. iter_block um (enc_block g)) gs"
      using arg_cong [OF map_bytes_blocks_of(1) [of 0 gs], of "map (iter_block um)"] by (simp only: map_map comp_def)
    also have "\<dots> = gs" using w(5) that by (simp add: map_idI)
    finally show ?thesis using w(2) by simp
  qed
  have route: "(case find (\<lambda>b. t \<le> bk_last b) ?bs of None \<Rightarrow> None | Some b \<Rightarrow> scan_block um (bk_bytes b) t) = map_of es t"
    if "dict_size gs < um" for t
  proof -
    have "(case find (\<lambda>b. t \<le> bk_last b) ?bs of None \<Rightarrow> None | Some b \<Rightarrow> scan_block um (bk_bytes b) t)
        = (case find (\<lambda>g. t \<le> fst (last g)) gs of None \<Rightarrow> None | Some g \<Rightarrow> scan_block um (enc_block g) t)"
      using find_blocks_of [of t 0 gs] by (auto split: option.splits)
    also have "\<dots> = (case find (\<lambda>g. t \<le> fst (last g)) gs of None \<Rightarrow> None | Some g \<Rightarrow> map_of g t)"
    proof (cases "find (\<lambda>g. t \<le> fst (last g)) gs")
      case (Some g)
      then have "g \<in> set gs" by (auto simp: find_Some_iff)
      then show ?thesis using w(5) that Some by simp
    qed simp
    also have "\<dots> = map_of es t" using routed [of gs t] assms(1) w(2,3) by simp
    finally show ?thesis .
  qed
  have cap: "length (bk_bytes b) \<le> (if cap = 0 then default_block_cap else cap) \<or> length (iter_block um (bk_bytes b)) = 1"
    if "dict_size gs < um" "b \<in> set ?bs" for b
    using bytes [OF that(2)] w(4) w(5) that(1) by (auto simp: list_all_iff cap_ok_def)
  show ?thesis using w(1) offs all route cap len by (intro exI [of _ ?bs]) simp
qed

lemma dict_roundtrip_witness:
  "\<exists>blocks. write_dict_blocks 8 [([1, 2, 3], 0, 10), ([1, 2, 4], 14, 12), ([9], 30, 300)] = (Ok blocks :: (nat, block list) outcome)
     \<and> (\<forall>i < length blocks. bk_off (blocks ! i) = sum_list (map (\<lambda>b. length (bk_bytes b)) (take i blocks)))"
  using dict_roundtrip [of "[([1, 2, 3], 0, 10), ([1, 2, 4], 14, 12), ([9], 30, 300)]" U32 8]
  by (auto simp: entry_fits_def)

end
