(* ===== verification/RR_Terms.thy ===== *)
theory RR_Terms imports RR_Build RR_Tokenizer RR_Terms_Dict begin

text \<open>
  The term index \<open>RRTI\<close>: its streaming writer, \<open>rust/src/terms_build.rs\<close>, and its reader, the second
  half of \<open>rust/src/terms.rs\<close>.  The crate \<open>fst\<close> is the parameter \<open>fst_api\<close> (building a map key by
  key, accepting the bytes of one, checking its checksum, streaming its entries, where a pull may
  panic); the locale \<open>fst_maps\<close> states what its documentation promises of maps it built.  A \<open>BTreeMap\<close> of postings is the
  list of its entries in key order.
\<close>

section \<open>The FST maps of the crate \<open>fst\<close>\<close>

text \<open>
  What the streams of an accepted map yield, from its start and from a lower bound on.  \<open>Map::new\<close>
  looks at the ends of its bytes only, so a pull may meet a node that makes the crate panic: that
  pull is \<open>None\<close>.
\<close>

record fst_map =
  fm_stream :: "(bytes \<times> nat) option list"
  fm_ge :: "bytes \<Rightarrow> (bytes \<times> nat) option list"

definition fst_of :: "(bytes \<times> nat) list \<Rightarrow> fst_map" where
  "fst_of kvs = \<lparr>fm_stream = map Some kvs, fm_ge = (\<lambda>lo. map Some (filter (\<lambda>(k, _). k \<ge> lo) kvs))\<rparr>"

definition fst_clean :: "fst_map \<Rightarrow> bool" where
  "fst_clean m \<longleftrightarrow> None \<notin> set (fm_stream m) \<and> (\<forall>lo. None \<notin> set (fm_ge m lo))"

record 'b fst_api =
  fa_memory :: 'b
  fa_insert :: "'b \<Rightarrow> bytes \<Rightarrow> nat \<Rightarrow> 'b option"
  fa_finish :: "'b \<Rightarrow> bytes option"
  fa_new :: "bytes \<Rightarrow> fst_map option"
  fa_verify :: "bytes \<Rightarrow> bool"

fun fst_inserts :: "'b fst_api \<Rightarrow> 'b \<Rightarrow> (bytes \<times> nat) list \<Rightarrow> 'b option" where
  "fst_inserts api b [] = Some b"
| "fst_inserts api b ((k, v) # kvs) = Option.bind (fa_insert api b k v) (\<lambda>b. fst_inserts api b kvs)"

text \<open>Ascending keys, 64-bit values, and a total size that any address space of the format holds.\<close>

definition fst_fits :: "(bytes \<times> nat) list \<Rightarrow> bool" where
  "fst_fits kvs \<longleftrightarrow> sorted_wrt (<) (map fst kvs) \<and> (\<forall>(k, v) \<in> set kvs. v < U64)
     \<and> sum_list (map (\<lambda>(k, v). length k + 64) kvs) < U64"

locale fst_maps =
  fixes api :: "'b fst_api"
  assumes built: "fst_fits kvs \<Longrightarrow> \<exists>b bs. fst_inserts api (fa_memory api) kvs = Some b \<and> fa_finish api b = Some bs
      \<and> fa_new api bs = Some (fst_of kvs) \<and> fa_verify api bs"
    and u64_values: "fa_new api bs = Some m \<Longrightarrow> Some (k, v) \<in> set (fm_stream m) \<union> set (fm_ge m lo) \<Longrightarrow> v < U64"

text \<open>
  The checksum guards some bytes: if they are accepted and their checksum verifies, no pull panics.
  It does so for bytes that were built and then corrupted, not for bytes forged together with their
  checksum.
\<close>

definition checksum_guards :: "'b fst_api \<Rightarrow> bytes \<Rightarrow> bool" where
  "checksum_guards api bs \<longleftrightarrow> (\<forall>m. fa_new api bs = Some m \<and> fa_verify api bs \<longrightarrow> fst_clean m)"

section \<open>The writer\<close>

definition rrti_magic :: bytes where "rrti_magic = ascii ''RRTI''"
definition rrti_version :: nat where "rrti_version = 2"
definition rrti_header :: nat where "rrti_header = 40"

record term_config =
  tc_head_boundary :: nat
  tc_language :: "language option"
  tc_stem :: bool
  tc_stopwords :: bool
  tc_case_sensitive :: bool
  tc_block_cap :: nat

record term_stream_writer =
  tw_region :: bytes
  tw_region_len :: nat
  tw_blocks :: block_writer
  tw_term_count :: nat
  tw_config :: term_config

definition tw_new :: "term_config \<Rightarrow> term_stream_writer" where
  "tw_new cfg = \<lparr>tw_region = [], tw_region_len = 0, tw_blocks = bw_new (tc_block_cap cfg), tw_term_count = 0, tw_config = cfg\<rparr>"

definition tw_push :: "term_stream_writer \<Rightarrow> rstring \<Rightarrow> bytes \<Rightarrow> bytes \<Rightarrow> term_stream_writer io" where
  "tw_push w term head tail =
     (let head_off = tw_region_len w in
      if length head \<ge> 2 ^ size_bits then Err ''head posting exceeds the 24-bit size limit''
      else if head_off \<ge> 2 ^ (64 - size_bits) then Err ''postings region exceeds the 40-bit offset limit''
      else
        bind_o (bw_push (tw_blocks w) (utf8_bytes term) head_off (length head)) (\<lambda>blocks.
        Ok (w\<lparr>tw_region := tw_region w @ to_le 4 (length tail mod U32) @ head @ tail,
              tw_region_len := tw_region_len w + 4 + length head + length tail,
              tw_blocks := blocks, tw_term_count := tw_term_count w + 1\<rparr>)))"

definition router_step :: "'b fst_api \<Rightarrow> 'b \<times> nat \<Rightarrow> block \<Rightarrow> ('b \<times> nat) io" where
  "router_step api st b =
     (let (router, dict_len) = st; block_len = length (bk_bytes b) in
      if block_len \<ge> 2 ^ size_bits then Err ''dict block exceeds the 24-bit block-length limit''
      else if bk_off b \<ge> 2 ^ (64 - size_bits) then Err ''dict region exceeds the 40-bit block-offset limit''
      else
        bind_o (ok_or (fa_insert api router (bk_last b) (pack_loc (bk_off b) block_len)) ''router fst insert'') (\<lambda>router.
        Ok (router, dict_len + block_len)))"

definition tw_finish_meta :: "'b fst_api \<Rightarrow> term_stream_writer \<Rightarrow> (bytes \<times> bytes \<times> bytes list) io" where
  "tw_finish_meta api w =
     (let cfg = tw_config w in
      if (tc_stem cfg \<or> tc_stopwords cfg) \<and> tc_language cfg = None
      then Err ''RRTI: stemming and stop-word removal require a language, but none is set''
      else
        let blocks = bw_finish (tw_blocks w) in
        bind_o (foldM_o (router_step api) (fa_memory api, 0) blocks) (\<lambda>(router, dict_len).
        bind_o (ok_or (fa_finish api router) ''router fst finish'') (\<lambda>router_bytes.
        let flags = header_flags (tc_stem cfg) (tc_stopwords cfg) (\<not> tc_case_sensitive cfg);
            block_cap_used = (if tc_block_cap cfg = 0 then default_block_cap else tc_block_cap cfg) in
        bind_o (ok_or (try_from U32 (tw_term_count w)) ''RRTI term count exceeds the 32-bit limit'') (\<lambda>term_count.
        let header = rrti_magic @ to_le 2 rrti_version @ to_le 2 flags @ to_le 4 term_count @ to_le 4 (tc_head_boundary cfg)
              @ to_le 8 (length router_bytes) @ to_le 8 dict_len @ to_le 4 (block_cap_used mod U32)
              @ [of_nat (header_language (tc_stem cfg) (tc_stopwords cfg) (tc_language cfg)), 0, 0, 0] in
        Ok (header, router_bytes, map bk_bytes blocks)))))"

definition tw_finish_into :: "'b fst_api \<Rightarrow> term_stream_writer \<Rightarrow> bytes \<Rightarrow> bytes io" where
  "tw_finish_into api w region =
     (if length region \<noteq> tw_region_len w then Panic
      else map_ok (\<lambda>(header, router, blocks). header @ router @ concat blocks @ region) (tw_finish_meta api w))"

type_synonym term_postings = "(rstring \<times> nat set) list"

definition write_term_index_from_postings ::
  "'b fst_api \<Rightarrow> (nat set \<Rightarrow> bytes) \<Rightarrow> term_config \<Rightarrow> term_postings \<Rightarrow> bytes io" where
  "write_term_index_from_postings api ser cfg postings =
     bind_o (foldM_o (\<lambda>w (t, bm). let (head, tail) = split_posting ser bm (tc_head_boundary cfg) in tw_push w t head tail)
               (tw_new cfg) postings) (\<lambda>w.
     map_ok (\<lambda>(header, router, blocks). header @ router @ concat blocks @ tw_region w) (tw_finish_meta api w))"

text \<open>\<open>postings.entry(term).or_default().insert(doc)\<close>\<close>

fun posting_insert :: "rstring \<Rightarrow> nat \<Rightarrow> term_postings \<Rightarrow> term_postings" where
  "posting_insert t d [] = [(t, {d})]"
| "posting_insert t d ((u, s) # m) =
     (if utf8_bytes t < utf8_bytes u then (t, {d}) # (u, s) # m
      else if utf8_bytes t = utf8_bytes u then (u, insert d s) # m
      else (u, s) # posting_insert t d m)"

record term_builder =
  tb_postings :: term_postings
  tb_tokenizer :: tokenizer
  tb_config :: term_config

definition tb_new :: "term_config \<Rightarrow> term_builder" where
  "tb_new cfg = \<lparr>tb_postings = [],
     tb_tokenizer = tokenizer_with (tc_language cfg) (tc_stem cfg) (tc_stopwords cfg) (\<not> tc_case_sensitive cfg),
     tb_config = cfg\<rparr>"

definition tb_add :: "text_env \<Rightarrow> term_builder \<Rightarrow> nat \<times> rstring \<Rightarrow> term_builder" where
  "tb_add env b = (\<lambda>(doc, body).
     b\<lparr>tb_postings := foldl (\<lambda>m t. posting_insert t doc m) (tb_postings b) (tokenize env (tb_tokenizer b) body)\<rparr>)"

definition tb_finish :: "'b fst_api \<Rightarrow> (nat set \<Rightarrow> bytes) \<Rightarrow> term_builder \<Rightarrow> bytes io" where
  "tb_finish api ser b = write_term_index_from_postings api ser (tb_config b) (tb_postings b)"

definition write_term_index_with ::
  "text_env \<Rightarrow> 'b fst_api \<Rightarrow> (nat set \<Rightarrow> bytes) \<Rightarrow> (nat \<times> rstring) list \<Rightarrow> term_config \<Rightarrow> bytes io" where
  "write_term_index_with env api ser corpus cfg = tb_finish api ser (foldl (tb_add env) (tb_new cfg) corpus)"

definition write_term_index ::
  "text_env \<Rightarrow> 'b fst_api \<Rightarrow> (nat set \<Rightarrow> bytes) \<Rightarrow> (nat \<times> rstring) list \<Rightarrow> nat \<Rightarrow> bytes io" where
  "write_term_index env api ser corpus head_boundary =
     write_term_index_with env api ser corpus
       \<lparr>tc_head_boundary = head_boundary, tc_language = None, tc_stem = False, tc_stopwords = False,
        tc_case_sensitive = False, tc_block_cap = 0\<rparr>"

section \<open>Boot\<close>

definition max_resident_router :: nat where "max_resident_router = 512 * 2 ^ 20"
definition max_prefix_terms :: nat where "max_prefix_terms = 2048"
definition prefix_block_wave :: nat where "prefix_block_wave = 8"

record term_index =
  ti_router :: fst_map
  ti_dict_start :: nat
  ti_postings_offset :: nat
  ti_head_boundary :: nat
  ti_term_count :: nat
  ti_tokenizer :: tokenizer

definition rrti_boot_len :: "nat \<Rightarrow> bytes \<Rightarrow> nat ires" where
  "rrti_boot_len um header =
     (if length header < rrti_header then Err (Malformed ''short RRTI header'')
      else if cut header 0 4 \<noteq> rrti_magic then Err (BadMagic (cut header 0 4))
      else
        bind_o (read_u16 header 4) (\<lambda>version.
        if version \<noteq> rrti_version then Err (BadVersion version)
        else
          bind_o (read_u64 header 16) (\<lambda>router_len.
          if router_len > max_resident_router then Err (Malformed ''RRTI router FST length implausible'')
          else ok_or (checked_add um rrti_header (router_len mod um)) (Malformed ''RRTI boot region length overflows''))))"

definition ti_from_parts :: "'b fst_api \<Rightarrow> bytes \<Rightarrow> bytes \<Rightarrow> term_index ires" where
  "ti_from_parts api header router_bytes =
     bind_o (read_u16 header 6) (\<lambda>flags.
     bind_o (read_u32 header 8) (\<lambda>term_count.
     bind_o (read_u32 header 12) (\<lambda>head_boundary.
     bind_o (read_u64 header 16) (\<lambda>router_len.
     bind_o (read_u64 header 24) (\<lambda>dict_len.
     bind_o (nth_p header 36) (\<lambda>lang.
     let tokenizer = tokenizer_from_header flags (unat lang) in
     bind_o (ok_or (fa_new api router_bytes) (Malformed ''RRTI invalid router FST'')) (\<lambda>router.
     if \<not> fa_verify api router_bytes then Err (Malformed ''RRTI router FST failed checksum'')
     else
       let dict_start = sat_add U64 rrti_header router_len in
       Ok \<lparr>ti_router = router, ti_dict_start = dict_start, ti_postings_offset = sat_add U64 dict_start dict_len,
           ti_head_boundary = head_boundary, ti_term_count = term_count, ti_tokenizer = tokenizer\<rparr>)))))))"

definition ti_open :: "nat \<Rightarrow> 'b fst_api \<Rightarrow> range_read \<Rightarrow> term_index ires" where
  "ti_open um api f =
     bind_o (rd f 0 rrti_header) (\<lambda>header.
     bind_o (rrti_boot_len um header) (\<lambda>boot_len.
     bind_o (sub_p boot_len rrti_header) (\<lambda>len.
     bind_o (rd f rrti_header len) (\<lambda>router_bytes.
     ti_from_parts api header router_bytes))))"

definition ti_from_boot :: "nat \<Rightarrow> 'b fst_api \<Rightarrow> bytes \<Rightarrow> term_index ires" where
  "ti_from_boot um api boot =
     bind_o (rrti_boot_len um boot) (\<lambda>boot_len.
     if length boot < boot_len then Err (Malformed ''RRTI boot region truncated'')
     else
       bind_o (cut_p boot 0 rrti_header) (\<lambda>header.
       bind_o (cut_p boot rrti_header boot_len) (\<lambda>router_bytes.
       ti_from_parts api header router_bytes)))"

definition ti_len :: "term_index \<Rightarrow> nat" where "ti_len ti = ti_term_count ti"
definition ti_is_empty :: "term_index \<Rightarrow> bool" where "ti_is_empty ti \<longleftrightarrow> ti_term_count ti = 0"
definition ti_resident_len :: "term_index \<Rightarrow> nat" where "ti_resident_len ti = ti_dict_start ti"

section \<open>Resolving terms\<close>

type_synonym loc = "nat \<times> nat"

text \<open>A router entry as the absolute byte range of its block.\<close>

definition block_loc :: "nat \<Rightarrow> term_index \<Rightarrow> nat \<Rightarrow> loc ires" where
  "block_loc um ti pk =
     (let (off, len) = unpack_loc um pk in bind_o (add_p U64 (ti_dict_start ti) off) (\<lambda>start. Ok (start, len)))"

definition router_loc :: "nat \<Rightarrow> term_index \<Rightarrow> (bytes \<times> nat) option \<Rightarrow> loc ires" where
  "router_loc um ti pull = (case pull of None \<Rightarrow> Panic | Some (_, pk) \<Rightarrow> block_loc um ti pk)"

definition block_range_for :: "nat \<Rightarrow> term_index \<Rightarrow> rstring \<Rightarrow> loc option ires" where
  "block_range_for um ti term =
     (case fm_ge (ti_router ti) (utf8_bytes term) of
        [] \<Rightarrow> Ok None
      | pull # _ \<Rightarrow> map_ok Some (router_loc um ti pull))"

fun present_terms :: "nat \<Rightarrow> term_index \<Rightarrow> bool \<Rightarrow> rstring list \<Rightarrow> ((rstring \<times> loc) list option) ires" where
  "present_terms um ti lenient [] = Ok (Some [])"
| "present_terms um ti lenient (t # ts) =
     bind_o (block_range_for um ti t) (\<lambda>r.
       case r of
         Some r \<Rightarrow> map_ok (map_option ((#) (t, r))) (present_terms um ti lenient ts)
       | None \<Rightarrow> if lenient then present_terms um ti lenient ts else Ok None)"

definition unique_locs :: "loc list \<Rightarrow> loc list" where
  "unique_locs rs = foldl (\<lambda>us r. if r \<in> set us then us else us @ [r]) [] rs"

fun scan_terms ::
  "nat \<Rightarrow> bool \<Rightarrow> loc list \<Rightarrow> bytes list \<Rightarrow> (rstring \<times> loc) list \<Rightarrow> (loc list option) ires" where
  "scan_terms um lenient unique blocks [] = Ok (Some [])"
| "scan_terms um lenient unique blocks ((t, r) # ps) =
     bind_o (or_panic (position (\<lambda>u. u = r) unique)) (\<lambda>idx.
     bind_o (nth_p blocks idx) (\<lambda>block.
       case scan_block um block (utf8_bytes t) of
         Some loc \<Rightarrow> map_ok (map_option ((#) loc)) (scan_terms um lenient unique blocks ps)
       | None \<Rightarrow> if lenient then scan_terms um lenient unique blocks ps else Ok None))"

definition resolve_locs :: "nat \<Rightarrow> range_read \<Rightarrow> term_index \<Rightarrow> rstring list \<Rightarrow> bool \<Rightarrow> (loc list option) ires" where
  "resolve_locs um f ti terms lenient =
     bind_o (present_terms um ti lenient terms) (\<lambda>present.
       case present of
         None \<Rightarrow> Ok None
       | Some present \<Rightarrow>
           let unique = unique_locs (map snd present) in
           bind_o (wave (\<lambda>(off, len). rd f off len) unique) (\<lambda>blocks.
           scan_terms um lenient unique blocks present))"

section \<open>Postings\<close>

record head_block =
  hb_head :: "nat set"
  hb_tail_off :: nat
  hb_tail_size :: nat

definition read_head_block :: "nat \<Rightarrow> deserializer \<Rightarrow> range_read \<Rightarrow> term_index \<Rightarrow> loc \<Rightarrow> head_block ires" where
  "read_head_block um deser f ti = (\<lambda>(head_off, head_size).
     bind_o (ok_or (checked_add U64 (ti_postings_offset ti) head_off) (Malformed ''RRTI head posting offset overflow'')) (\<lambda>base.
     bind_o (ok_or (checked_add um head_size 4) (Malformed ''RRTI head posting size overflow'')) (\<lambda>want.
     bind_o (rd f base want) (\<lambda>block.
     if length block < want then Err (Malformed ''RRTI short term posting block'')
     else
       bind_o (read_u32 block 0) (\<lambda>tail_size.
       bind_o (cut_p block 4 want) (\<lambda>body.
       bind_o (deserialize deser body) (\<lambda>head.
       bind_o (ok_or (checked_add U64 base want) (Malformed ''RRTI tail offset overflow'')) (\<lambda>tail_off.
       Ok \<lparr>hb_head = head, hb_tail_off = tail_off, hb_tail_size = tail_size\<rparr>))))))))"

definition read_tail :: "deserializer \<Rightarrow> range_read \<Rightarrow> head_block \<Rightarrow> nat set ires" where
  "read_tail deser f b =
     (if hb_tail_size b = 0 then Ok {}
      else bind_o (rd f (hb_tail_off b) (hb_tail_size b)) (deserialize deser))"

section \<open>Searching\<close>

definition query_terms :: "text_env \<Rightarrow> term_index \<Rightarrow> rstring \<Rightarrow> rstring list" where
  "query_terms env ti query = remdups_adj (sort_key utf8_bytes (tokenize env (ti_tokenizer ti) query))"

definition first_docs :: "nat \<Rightarrow> nat set \<Rightarrow> nat list" where
  "first_docs limit s = take limit (sorted_list_of_set s)"

definition and_sets :: "nat set list \<Rightarrow> nat set ires" where
  "and_sets sets = (case sort_key card sets of [] \<Rightarrow> Panic | acc # rest \<Rightarrow> Ok (inter_loop acc rest))"

definition and_locs :: "nat \<Rightarrow> deserializer \<Rightarrow> range_read \<Rightarrow> term_index \<Rightarrow> loc list \<Rightarrow> nat \<Rightarrow> nat list ires" where
  "and_locs um deser f ti locs limit =
     (if locs = [] then Ok []
      else
        bind_o (wave (read_head_block um deser f ti) locs) (\<lambda>blocks.
        let blocks = sort_key (\<lambda>b. card (hb_head b)) blocks in
        bind_o (and_sets (map hb_head blocks)) (\<lambda>acc.
        let has_tail = list_ex (\<lambda>b. hb_tail_size b > 0) blocks in
        if card acc mod um \<ge> limit \<or> \<not> has_tail then Ok (first_docs limit acc)
        else
          bind_o (wave (read_tail deser f) blocks) (\<lambda>tails.
          bind_o (and_sets (map (\<lambda>(b, t). hb_head b \<union> t) (zip blocks tails))) (\<lambda>acc.
          Ok (first_docs limit acc))))))"

definition ti_search :: "nat \<Rightarrow> text_env \<Rightarrow> deserializer \<Rightarrow> range_read \<Rightarrow> term_index \<Rightarrow> rstring \<Rightarrow> nat \<Rightarrow> nat list ires" where
  "ti_search um env deser f ti query limit =
     (if limit = 0 then Ok []
      else
        let terms = query_terms env ti query in
        if terms = [] then Ok []
        else
          bind_o (resolve_locs um f ti terms False) (\<lambda>locs.
            case locs of None \<Rightarrow> Ok [] | Some locs \<Rightarrow> and_locs um deser f ti locs limit))"

definition query_head_postings ::
  "nat \<Rightarrow> text_env \<Rightarrow> deserializer \<Rightarrow> range_read \<Rightarrow> term_index \<Rightarrow> rstring \<Rightarrow> ((nat \<times> head_block) list option) ires" where
  "query_head_postings um env deser f ti query =
     (let terms = query_terms env ti query in
      if terms = [] then Ok None
      else
        bind_o (resolve_locs um f ti terms False) (\<lambda>locs.
          case locs of
            None \<Rightarrow> Ok None
          | Some locs \<Rightarrow>
              bind_o (wave (read_head_block um deser f ti) locs) (\<lambda>heads.
              Ok (Some (zip (map fst locs) heads)))))"

definition query_head_postings_present ::
  "nat \<Rightarrow> text_env \<Rightarrow> deserializer \<Rightarrow> range_read \<Rightarrow> term_index \<Rightarrow> rstring \<Rightarrow> ((nat \<times> head_block) list) ires" where
  "query_head_postings_present um env deser f ti query =
     (let terms = query_terms env ti query in
      if terms = [] then Ok []
      else
        bind_o (resolve_locs um f ti terms True) (\<lambda>locs.
          let locs = (case locs of None \<Rightarrow> [] | Some locs \<Rightarrow> locs) in
          bind_o (wave (read_head_block um deser f ti) locs) (\<lambda>heads.
          Ok (zip (map fst locs) heads))))"

definition query_postings ::
  "nat \<Rightarrow> text_env \<Rightarrow> deserializer \<Rightarrow> range_read \<Rightarrow> term_index \<Rightarrow> rstring \<Rightarrow> ((nat \<times> nat set) list option) ires" where
  "query_postings um env deser f ti query =
     bind_o (query_head_postings um env deser f ti query) (\<lambda>heads.
       case heads of
         None \<Rightarrow> Ok None
       | Some heads \<Rightarrow>
           bind_o (wave (\<lambda>(_, b). read_tail deser f b) heads) (\<lambda>tails.
           Ok (Some (map (\<lambda>((off, b), t). (off, hb_head b \<union> t)) (zip heads tails)))))"

section \<open>Walking the dictionary\<close>

definition dict_block_locs :: "nat \<Rightarrow> term_index \<Rightarrow> loc list ires" where
  "dict_block_locs um ti = mapM_o (router_loc um ti) (fm_stream (ti_router ti))"

definition block_terms :: "nat \<Rightarrow> bytes \<Rightarrow> ((rstring \<times> nat) list) ires" where
  "block_terms um block =
     mapM_o (\<lambda>(term, head_off, _). bind_o (ok_or (utf8_strict term) (Malformed ''RRTI non-UTF-8 dictionary term'')) (\<lambda>t.
       Ok (t, head_off))) (iter_block um block)"

definition dict_terms :: "nat \<Rightarrow> range_read \<Rightarrow> term_index \<Rightarrow> ((rstring \<times> nat) list) ires" where
  "dict_terms um f ti =
     bind_o (dict_block_locs um ti) (\<lambda>locs.
     map_ok concat (mapM_o (\<lambda>(off, len). bind_o (rd f off len) (block_terms um)) locs))"

section \<open>Prefixes\<close>

definition fold_prefix :: "text_env \<Rightarrow> term_index \<Rightarrow> rstring \<Rightarrow> rstring" where
  "fold_prefix env ti p = (if tk_case_fold (ti_tokenizer ti) then concat (map (te_lower env) p) else p)"

text \<open>How the scan of one block ends: at its end, past the prefix, or with enough matches.\<close>

datatype scan_status = More | Passed | Full

fun scan_prefix_entries ::
  "bytes \<Rightarrow> nat \<Rightarrow> bool \<Rightarrow> dict_entry list \<Rightarrow> loc list \<times> rstring list \<Rightarrow> scan_status \<times> loc list \<times> rstring list" where
  "scan_prefix_entries pb max_n want_terms [] st = (More, st)"
| "scan_prefix_entries pb max_n want_terms ((t, loc) # es) st =
     (if t < pb then scan_prefix_entries pb max_n want_terms es st
      else if take (length pb) t \<noteq> pb then (Passed, st)
      else
        let locs = fst st @ [loc]; terms = (if want_terms then snd st @ [utf8_lossy t] else snd st) in
        if length locs \<ge> max_n then (Full, locs, terms)
        else scan_prefix_entries pb max_n want_terms es (locs, terms))"

text \<open>
  The waves: all reads of a wave are made before the first block is scanned, and a failed read
  surfaces only if the scan has not ended before its block.
\<close>

fun scan_wave_results ::
  "nat \<Rightarrow> bytes \<Rightarrow> nat \<Rightarrow> bool \<Rightarrow> bytes ires list \<Rightarrow> loc list \<times> rstring list \<Rightarrow> (scan_status \<times> loc list \<times> rstring list) ires" where
  "scan_wave_results um pb max_n want_terms [] st = Ok (More, st)"
| "scan_wave_results um pb max_n want_terms (r # rs) st =
     bind_o r (\<lambda>b.
       case scan_prefix_entries pb max_n want_terms (iter_block um b) st of
         (More, st') \<Rightarrow> scan_wave_results um pb max_n want_terms rs st'
       | res \<Rightarrow> Ok res)"

function scan_prefix_waves ::
  "nat \<Rightarrow> range_read \<Rightarrow> bytes \<Rightarrow> nat \<Rightarrow> bool \<Rightarrow> loc list \<Rightarrow> loc list \<times> rstring list \<Rightarrow> (loc list \<times> rstring list) ires" where
  "scan_prefix_waves um f pb max_n want_terms ranges st =
     (if ranges = [] then Ok st
      else
        bind_o (join_all (\<lambda>(off, len). rd f off len) (take prefix_block_wave ranges)) (\<lambda>fetched.
        bind_o (scan_wave_results um pb max_n want_terms fetched st) (\<lambda>(status, st').
        if status = More then scan_prefix_waves um f pb max_n want_terms (drop prefix_block_wave ranges) st'
        else Ok st')))"
  by pat_completeness auto
termination
  by (relation "measure (\<lambda>(um, f, pb, max_n, want_terms, ranges, st). length ranges)") (auto simp: prefix_block_wave_def)

declare scan_prefix_waves.simps [simp del]

definition scan_prefix ::
  "nat \<Rightarrow> range_read \<Rightarrow> term_index \<Rightarrow> rstring \<Rightarrow> nat \<Rightarrow> bool \<Rightarrow> (loc list \<times> rstring list) ires" where
  "scan_prefix um f ti p max_n want_terms =
     (if max_n = 0 then Ok ([], [])
      else
        let pb = utf8_bytes p in
        bind_o (mapM_o (router_loc um ti) (fm_ge (ti_router ti) pb)) (\<lambda>ranges.
        scan_prefix_waves um f pb max_n want_terms ranges ([], [])))"

definition prefix_locs :: "nat \<Rightarrow> range_read \<Rightarrow> term_index \<Rightarrow> rstring \<Rightarrow> (loc list \<times> bool) ires" where
  "prefix_locs um f ti p =
     bind_o (scan_prefix um f ti p (max_prefix_terms + 1) False) (\<lambda>(locs, _).
     Ok (take max_prefix_terms locs, length locs > max_prefix_terms))"

definition union_locs :: "nat \<Rightarrow> deserializer \<Rightarrow> range_read \<Rightarrow> term_index \<Rightarrow> loc list \<Rightarrow> nat \<Rightarrow> nat list ires" where
  "union_locs um deser f ti locs limit =
     (if locs = [] \<or> limit = 0 then Ok []
      else
        bind_o (wave (read_head_block um deser f ti) locs) (\<lambda>blocks.
        let acc = foldl (\<lambda>acc b. acc \<union> hb_head b) {} blocks; has_tail = list_ex (\<lambda>b. hb_tail_size b > 0) blocks in
        if card acc mod um \<ge> limit \<or> \<not> has_tail then Ok (first_docs limit acc)
        else
          bind_o (wave (read_tail deser f) blocks) (\<lambda>tails.
          Ok (first_docs limit (foldl (\<lambda>acc (b, t). acc \<union> hb_head b \<union> t) {} (zip blocks tails))))))"

definition search_prefix_capped ::
  "nat \<Rightarrow> text_env \<Rightarrow> deserializer \<Rightarrow> range_read \<Rightarrow> term_index \<Rightarrow> rstring \<Rightarrow> nat \<Rightarrow> (nat list \<times> bool) ires" where
  "search_prefix_capped um env deser f ti p limit =
     (if limit = 0 then Ok ([], False)
      else
        bind_o (prefix_locs um f ti (fold_prefix env ti p)) (\<lambda>(locs, truncated).
        bind_o (union_locs um deser f ti locs limit) (\<lambda>docs. Ok (docs, truncated))))"

definition search_prefix ::
  "nat \<Rightarrow> text_env \<Rightarrow> deserializer \<Rightarrow> range_read \<Rightarrow> term_index \<Rightarrow> rstring \<Rightarrow> nat \<Rightarrow> nat list ires" where
  "search_prefix um env deser f ti p limit = map_ok fst (search_prefix_capped um env deser f ti p limit)"

definition ti_complete :: "nat \<Rightarrow> text_env \<Rightarrow> range_read \<Rightarrow> term_index \<Rightarrow> rstring \<Rightarrow> nat \<Rightarrow> rstring list ires" where
  "ti_complete um env f ti p max_terms = map_ok snd (scan_prefix um f ti (fold_prefix env ti p) max_terms True)"

end
