(* ===== verification/RR_Terms_Exact.thy ===== *)
theory RR_Terms_Exact imports RR_Terms begin

text \<open>
  Exactness of the term index.  \<open>term_file\<close> says what a file must hold for a reader: a dictionary
  whose blocks are where the router says and decode to ascending terms, and a posting block behind
  every term.  Over such a file resolving a term finds its posting or its absence, and searches
  return exactly the documents the postings imply.  The written file is such a file, and its postings
  are those of the documents' tokens.
\<close>

section \<open>What a file holds\<close>

text \<open>A posting block: the size of the tail, the head and the tail.\<close>

definition posting_at :: "bytes \<Rightarrow> (nat set \<Rightarrow> bytes) \<Rightarrow> nat \<Rightarrow> nat \<Rightarrow> dict_entry \<Rightarrow> nat set \<Rightarrow> bool" where
  "posting_at content ser base hb e s \<longleftrightarrow>
     (let (t, off, sz) = e; (head, tail) = split_posting ser s hb; a = base + off in
      s \<subseteq> {..<U32} \<and> sz = length head \<and> a + 4 + length head + length tail \<le> length content
      \<and> cut content a (a + 4 + sz) = to_le 4 (length tail) @ head
      \<and> cut content (a + 4 + sz) (a + 4 + sz + length tail) = tail)"

definition router_of :: "dict_entry list list \<Rightarrow> (bytes \<times> nat) list" where
  "router_of gs = map (\<lambda>b. (bk_last b, pack_loc (bk_off b) (length (bk_bytes b)))) (blocks_of 0 gs)"

definition dict_at :: "nat \<Rightarrow> bytes \<Rightarrow> nat \<Rightarrow> dict_entry list list \<Rightarrow> bool" where
  "dict_at um content start gs \<longleftrightarrow>
     [] \<notin> set gs \<and> sorted_wrt (<) (map fst (concat gs)) \<and> start + dict_size gs \<le> length content \<and> start < 2 ^ 40
     \<and> cut content start (start + dict_size gs) = concat (map enc_block gs)
     \<and> (\<forall>g \<in> set gs. length (enc_block g) < 2 ^ 24 \<and> iter_block um (enc_block g) = g)
     \<and> (\<forall>i < length gs. dict_size (take i gs) < 2 ^ 40)"

definition term_file ::
  "nat \<Rightarrow> bytes \<Rightarrow> (nat set \<Rightarrow> bytes) \<Rightarrow> term_index \<Rightarrow> dict_entry list list \<Rightarrow> nat set list \<Rightarrow> bool" where
  "term_file um content ser ti gs sets \<longleftrightarrow>
     ti_router ti = fst_of (router_of gs) \<and> dict_at um content (ti_dict_start ti) gs
     \<and> list_all2 (posting_at content ser (ti_postings_offset ti) (ti_head_boundary ti)) (concat gs) sets
     \<and> length content < um \<and> um \<le> U64"

section \<open>The blocks\<close>

lemma dict_size_take_Suc: "i < length gs \<Longrightarrow> dict_size (take (Suc i) gs) = dict_size (take i gs) + length (enc_block (gs ! i))"
  by (simp add: dict_size_def take_Suc_conv_app_nth)

lemma dict_size_take_le: "i < length gs \<Longrightarrow> dict_size (take i gs) + length (enc_block (gs ! i)) \<le> dict_size gs"
proof -
  assume i: "i < length gs"
  have "gs = take (Suc i) gs @ drop (Suc i) gs" by simp
  then have "dict_size gs = dict_size (take (Suc i) gs) + dict_size (drop (Suc i) gs)"
    unfolding dict_size_def by (metis map_append sum_list_append)
  then show ?thesis using dict_size_take_Suc [OF i] by simp
qed

lemma length_enc_blocks: "length (concat (map enc_block gs)) = dict_size gs"
  by (simp add: length_concat dict_size_def comp_def)

lemma block_stored:
  assumes "dict_at um content start gs" "i < length gs"
  defines "a \<equiv> start + dict_size (take i gs)"
  shows "cut content a (a + length (enc_block (gs ! i))) = enc_block (gs ! i)" "a + length (enc_block (gs ! i)) \<le> length content"
proof -
  let ?n = "length (enc_block (gs ! i))"
  note le = dict_size_take_le [OF assms(2)]
  show "a + ?n \<le> length content" using le assms(1) by (simp add: dict_at_def a_def)
  have "cut content a (a + ?n) = cut (cut content start (start + dict_size gs)) (dict_size (take i gs)) (dict_size (take i gs) + ?n)"
    unfolding a_def by (subst cut_cut) (use le assms(1) in \<open>auto simp: dict_at_def add.assoc\<close>)
  also have "\<dots> = cut (concat (map enc_block gs)) (dict_size (take i gs)) (dict_size (take i gs) + ?n)"
    using assms(1) by (simp add: dict_at_def)
  also have "concat (map enc_block gs) = concat (map enc_block (take i gs)) @ enc_block (gs ! i) @ concat (map enc_block (drop (Suc i) gs))"
    using assms(2) by (metis concat.simps(2) concat_append id_take_nth_drop list.simps(9) map_append)
  finally show "cut content a (a + ?n) = enc_block (gs ! i)"
    using cut_mid [OF length_enc_blocks [of "take i gs"], of "enc_block (gs ! i)" ?n] by simp
qed

lemma group_sorted: "sorted_wrt (<) (map fst (concat gs)) \<Longrightarrow> g \<in> set gs \<Longrightarrow> sorted_wrt (<) (map fst g)"
  by (induction gs) (auto simp: sorted_wrt_append)

text \<open>The index of the block a term is routed to, and its location.\<close>

definition route :: "dict_entry list list \<Rightarrow> bytes \<Rightarrow> nat option" where
  "route gs t = find (\<lambda>i. t \<le> fst (last (gs ! i))) [0..<length gs]"

definition block_at_loc :: "nat \<Rightarrow> dict_entry list list \<Rightarrow> nat \<Rightarrow> loc" where
  "block_at_loc start gs i = (start + dict_size (take i gs), length (enc_block (gs ! i)))"

lemma mapM_o_map_list: "mapM_o f (map g xs) = mapM_o (f \<circ> g) xs"
  by (induction xs) auto

lemma find_map: "find P (map g xs) = map_option g (find (P \<circ> g) xs)"
  by (induction xs) auto

lemma router_of_alt:
  "router_of gs = map (\<lambda>i. (fst (last (gs ! i)), pack_loc (dict_size (take i gs)) (length (enc_block (gs ! i))))) [0..<length gs]"
  by (rule nth_equalityI) (simp_all add: router_of_def blocks_of_nth)

lemma router_ge:
  "fm_ge (fst_of (router_of gs)) lo
    = map (\<lambda>i. Some (fst (last (gs ! i)), pack_loc (dict_size (take i gs)) (length (enc_block (gs ! i)))))
        (filter (\<lambda>i. lo \<le> fst (last (gs ! i))) [0..<length gs])"
  by (simp add: fst_of_def router_of_alt filter_map comp_def)

lemma find_filter: "find P xs = (case filter P xs of [] \<Rightarrow> None | x # _ \<Rightarrow> Some x)"
  by (induction xs) auto

lemma route_range: "route gs t = Some i \<Longrightarrow> i < length gs \<and> t \<le> fst (last (gs ! i))"
  by (auto simp: route_def find_Some_iff)

lemma route_map_of:
  assumes "sorted_wrt (<) (map fst (concat gs))" "[] \<notin> set gs"
  shows "(case route gs t of None \<Rightarrow> None | Some i \<Rightarrow> map_of (gs ! i) t) = map_of (concat gs) t"
proof -
  have "find (\<lambda>g. t \<le> fst (last g)) gs = map_option ((!) gs) (route gs t)"
    using find_map [of "\<lambda>g. t \<le> fst (last g)" "(!) gs" "[0..<length gs]"] by (simp add: route_def comp_def map_nth)
  then show ?thesis using routed [OF assms, of t] by (cases "route gs t") auto
qed

lemma block_loc_ok:
  assumes "dict_at um content (ti_dict_start ti) gs" "i < length gs" "length content < um" "um \<le> U64"
  shows "block_loc um ti (pack_loc (dict_size (take i gs)) (length (enc_block (gs ! i)))) = Ok (block_at_loc (ti_dict_start ti) gs i)"
proof -
  have g: "gs ! i \<in> set gs" using assms(2) by simp
  have "length (enc_block (gs ! i)) < um" using block_stored(2) [OF assms(1,2)] assms(3) by simp
  then have "unpack_loc um (pack_loc (dict_size (take i gs)) (length (enc_block (gs ! i)))) = (dict_size (take i gs), length (enc_block (gs ! i)))"
    using assms(1,2) g by (intro unpack_pack_loc) (auto simp: dict_at_def)
  moreover have "ti_dict_start ti + dict_size (take i gs) < U64"
    using block_stored(2) [OF assms(1,2)] assms(3,4) by simp
  ultimately show ?thesis by (simp add: block_loc_def block_at_loc_def)
qed

lemma block_range_for_ok:
  assumes "term_file um content ser ti gs sets"
  shows "block_range_for um ti t = Ok (map_option (block_at_loc (ti_dict_start ti) gs) (route gs (utf8_bytes t)))"
proof -
  have f: "ti_router ti = fst_of (router_of gs)" "dict_at um content (ti_dict_start ti) gs" "length content < um" "um \<le> U64"
    using assms by (simp_all add: term_file_def)
  show ?thesis
  proof (cases "filter (\<lambda>i. utf8_bytes t \<le> fst (last (gs ! i))) [0..<length gs]")
    case Nil
    then show ?thesis by (simp add: block_range_for_def f(1) router_ge route_def find_filter)
  next
    case (Cons i rest)
    then have i: "route gs (utf8_bytes t) = Some i" by (simp add: route_def find_filter)
    show ?thesis
      using block_loc_ok [OF f(2) _ f(3,4), of i] route_range [OF i]
      by (simp add: block_range_for_def f(1) router_ge Cons i router_loc_def)
  qed
qed

lemma block_at_loc_inj:
  assumes "[] \<notin> set gs" "i < length gs" "j < length gs" "block_at_loc start gs i = block_at_loc start gs j"
  shows "gs ! i = gs ! j"
proof -
  have pos: "0 < length (enc_block g)" if "g \<in> set gs" for g
  proof -
    have "g \<noteq> []" using that assms(1) by blast
    then show ?thesis by (cases g) (simp_all add: enc_block_def)
  qed
  have less: "dict_size (take i gs) < dict_size (take j gs)" if "i < j" "j < length gs" for i j
  proof -
    have "dict_size (take i gs) < dict_size (take (Suc i) gs)" using dict_size_take_Suc [of i gs] pos [of "gs ! i"] that by simp
    also have "take j gs = take (Suc i) gs @ take (j - Suc i) (drop (Suc i) gs)"
      using that by (metis Suc_leI le_add_diff_inverse take_add)
    then have "dict_size (take (Suc i) gs) \<le> dict_size (take j gs)" by (simp add: dict_size_def)
    finally show ?thesis .
  qed
  have "i = j" using less [of i j] less [of j i] assms(2-4) by (cases i j rule: linorder_cases) (auto simp: block_at_loc_def)
  then show ?thesis by simp
qed

section \<open>Resolving terms\<close>

context full_fetch
begin

lemma read_block_ok:
  assumes "dict_at um content start gs" "i < length gs" "length content < lim"
  shows "(case block_at_loc start gs i of (off, len) \<Rightarrow> rd fetch off len) = Ok (enc_block (gs ! i))"
  using block_stored [OF assms(1,2)] assms(3) rd_ok [of "start + dict_size (take i gs)" "length (enc_block (gs ! i))"]
  by (simp add: block_at_loc_def del: rd_Ok_iff)

end

lemma unique_locs_set: "set (foldl (\<lambda>us r. if r \<in> set us then us else us @ [r]) us rs) = set us \<union> set rs"
  by (induction rs arbitrary: us) auto

lemma position_in_set: "r \<in> set us \<Longrightarrow> \<exists>k. position (\<lambda>u. u = r) us = Some k \<and> k < length us \<and> us ! k = r"
  by (induction us) (auto simp: nth_Cons split: nat.splits)

text \<open>What a dictionary answers: a term's posting location.\<close>

abbreviation term_loc :: "dict_entry list list \<Rightarrow> rstring \<Rightarrow> loc option" where
  "term_loc gs t \<equiv> map_of (concat gs) (utf8_bytes t)"

lemma present_terms_ok:
  assumes "term_file um content ser ti gs sets"
  shows "present_terms um ti lenient ts = Ok
    (if lenient \<or> (\<forall>t \<in> set ts. route gs (utf8_bytes t) \<noteq> None)
     then Some (map (\<lambda>t. (t, block_at_loc (ti_dict_start ti) gs (the (route gs (utf8_bytes t)))))
                 (filter (\<lambda>t. route gs (utf8_bytes t) \<noteq> None) ts))
     else None)"
  by (induction ts) (auto simp: block_range_for_ok [OF assms] split: option.splits)

lemma scan_terms_ok:
  assumes "\<And>t r. (t, r) \<in> set ps \<Longrightarrow> \<exists>k. position (\<lambda>u. u = r) unique = Some k \<and> k < length blocks
     \<and> scan_block um (blocks ! k) (utf8_bytes t) = look t"
  shows "scan_terms um lenient unique blocks ps = Ok
    (if lenient \<or> (\<forall>(t, r) \<in> set ps. look t \<noteq> None) then Some (List.map_filter (look \<circ> fst) ps) else None)"
  using assms
proof (induction ps)
  case (Cons p ps)
  obtain t r where p: "p = (t, r)" by (cases p)
  obtain k where k: "position (\<lambda>u. u = r) unique = Some k" "k < length blocks" "scan_block um (blocks ! k) (utf8_bytes t) = look t"
    using Cons.prems [of t r] p by auto
  have "scan_terms um lenient unique blocks ps = Ok
    (if lenient \<or> (\<forall>(t, r) \<in> set ps. look t \<noteq> None) then Some (List.map_filter (look \<circ> fst) ps) else None)"
    using Cons by simp
  then show ?case
    unfolding p using k by (cases "look t") (auto simp: map_filter_simps or_panic_def)
qed (simp add: map_filter_simps)

context full_fetch
begin

lemma resolve_locs_ok:
  assumes tf: "term_file um content ser ti gs sets" and lim: "length content < lim"
  shows "resolve_locs um fetch ti ts lenient = Ok
    (if lenient \<or> (\<forall>t \<in> set ts. term_loc gs t \<noteq> None) then Some (List.map_filter (term_loc gs) ts) else None)"
proof -
  have d: "dict_at um content (ti_dict_start ti) gs" using tf by (simp add: term_file_def)
  then have asc: "sorted_wrt (<) (map fst (concat gs))" "[] \<notin> set gs" by (simp_all add: dict_at_def)
  note route = route_map_of [OF asc]
  let ?r = "\<lambda>t. route gs (utf8_bytes t)"
  let ?present = "map (\<lambda>t. (t, block_at_loc (ti_dict_start ti) gs (the (?r t)))) (filter (\<lambda>t. ?r t \<noteq> None) ts)"
  have routed: "?r t \<noteq> None" if "term_loc gs t \<noteq> None" for t
    using route [of "utf8_bytes t"] that by (cases "?r t") auto
  show ?thesis
  proof (cases "lenient \<or> (\<forall>t \<in> set ts. ?r t \<noteq> None)")
    case False
    then have "\<not> (lenient \<or> (\<forall>t \<in> set ts. term_loc gs t \<noteq> None))" using routed by blast
    then show ?thesis unfolding resolve_locs_def present_terms_ok [OF tf] if_not_P [OF False] by simp
  next
    case True
    let ?unique = "unique_locs (map snd ?present)"
    have uset: "set ?unique = block_at_loc (ti_dict_start ti) gs ` the ` ?r ` {t \<in> set ts. ?r t \<noteq> None}"
      by (auto simp: unique_locs_def unique_locs_set image_image)
    define blk where "blk r = (let i = (SOME i. i < length gs \<and> block_at_loc (ti_dict_start ti) gs i = r) in enc_block (gs ! i))" for r
    have blk: "blk (block_at_loc (ti_dict_start ti) gs i) = enc_block (gs ! i)" if "i < length gs" for i
    proof -
      let ?i = "SOME k. k < length gs \<and> block_at_loc (ti_dict_start ti) gs k = block_at_loc (ti_dict_start ti) gs i"
      have "?i < length gs \<and> block_at_loc (ti_dict_start ti) gs ?i = block_at_loc (ti_dict_start ti) gs i"
        by (rule someI [of _ i]) (use that in simp)
      then have "gs ! ?i = gs ! i" using block_at_loc_inj [OF asc(2) _ that] by blast
      then show ?thesis by (simp add: blk_def)
    qed
    have wave: "wave (\<lambda>(off, len). rd fetch off len) ?unique = Ok (map blk ?unique)"
    proof (rule wave_map)
      fix r assume "r \<in> set ?unique"
      then obtain t i where "?r t = Some i" "r = block_at_loc (ti_dict_start ti) gs i" using uset by auto
      then have "i < length gs" "r = block_at_loc (ti_dict_start ti) gs i" using route_range by blast+
      then show "(\<lambda>(off, len). rd fetch off len) r = Ok (blk r)" using read_block_ok [OF d _ lim] blk by simp
    qed
    have scan: "scan_terms um lenient ?unique (map blk ?unique) ?present = Ok
      (if lenient \<or> (\<forall>(t, r) \<in> set ?present. term_loc gs t \<noteq> None) then Some (List.map_filter (term_loc gs \<circ> fst) ?present) else None)"
    proof (rule scan_terms_ok)
      fix t r assume "(t, r) \<in> set ?present"
      then obtain i where t: "t \<in> set ts" "?r t = Some i" "r = block_at_loc (ti_dict_start ti) gs i" by auto
      then have "r \<in> set ?unique" using uset by force
      from position_in_set [OF this] obtain k where k: "position (\<lambda>u. u = r) ?unique = Some k" "k < length ?unique" "?unique ! k = r"
        by blast
      have i: "i < length gs" using route_range [OF t(2)] by simp
      have "scan_block um (enc_block (gs ! i)) (utf8_bytes t) = map_of (gs ! i) (utf8_bytes t)"
      proof -
        have "sorted_wrt (<) (map fst (gs ! i))" using i by (intro group_sorted [OF asc(1)]) simp
        moreover have "iter_block um (enc_block (gs ! i)) = gs ! i" using d i by (simp add: dict_at_def)
        ultimately show ?thesis by (simp add: scan_block_def scan_entries_map_of)
      qed
      then have "scan_block um (enc_block (gs ! i)) (utf8_bytes t) = term_loc gs t" using route [of "utf8_bytes t"] t(2) by simp
      then show "\<exists>k. position (\<lambda>u. u = r) ?unique = Some k \<and> k < length (map blk ?unique)
         \<and> scan_block um (map blk ?unique ! k) (utf8_bytes t) = term_loc gs t"
        using k blk [OF i] t(3) by simp
    qed
    have mf: "List.map_filter (term_loc gs \<circ> fst) ?present = List.map_filter (term_loc gs) ts"
      using routed by (induction ts) (auto simp: map_filter_simps split: option.splits)
    have all: "(\<forall>(t, r) \<in> set ?present. term_loc gs t \<noteq> None) \<longleftrightarrow> (\<forall>t \<in> set ts. term_loc gs t \<noteq> None)" if "\<not> lenient"
      using True that by auto
    show ?thesis
      unfolding resolve_locs_def present_terms_ok [OF tf] if_P [OF True] bind_o.simps option.case Let_def wave scan mf
      using all by (cases lenient) auto
  qed
qed

end

section \<open>Reading postings\<close>

context roaring
begin

lemma ser_ok:
  assumes "s \<subseteq> {..<U32}"
  shows "deserialize deser (ser s) = Ok s" "0 < length (ser s)" "length (ser s) < U32"
proof -
  obtain sel where sel: "well_formed sel" "docs sel = s" "ser s = assemble sel" using ser_assemble [OF assms] by blast
  show "deserialize deser (ser s) = Ok s" using deserialize_assemble [OF sel(1)] sel(2,3) by simp
  show "0 < length (ser s)" using sel(3) by (simp add: length_assemble data_start_def)
  show "length (ser s) < U32" using assemble_bound(2) [OF sel(1)] sel(3) by simp
qed

end

lemma first_docs_head:
  assumes "finite A" "limit \<le> card (A \<inter> {0..<hb})"
  shows "first_docs limit (A \<inter> {0..<hb}) = first_docs limit A"
proof -
  let ?H = "A \<inter> {0..<hb}" and ?T = "A - {0..<hb}"
  have "sorted_list_of_set (?H \<union> ?T) = sorted_list_of_set ?H @ sorted_list_of_set ?T"
    using assms(1) by (intro sorted_list_of_set_union_below) auto
  moreover have "?H \<union> ?T = A" by blast
  ultimately show ?thesis using assms by (simp add: first_docs_def)
qed

lemma and_sets_eq: "sets \<noteq> [] \<Longrightarrow> and_sets sets = Ok (\<Inter>(set sets))"
proof -
  assume ne: "sets \<noteq> []"
  then obtain acc rest where s: "sort_key card sets = acc # rest"
    by (metis length_greater_0_conv length_sort neq_Nil_conv)
  have "set (sort_key card sets) = set sets" by simp
  then show ?thesis unfolding and_sets_def s by (auto simp: inter_loop_eq)
qed

text \<open>What a head block that was read tells about its posting.\<close>

definition head_of :: "deserializer \<Rightarrow> range_read \<Rightarrow> nat \<Rightarrow> nat set \<Rightarrow> head_block \<Rightarrow> bool" where
  "head_of deser f hb s b \<longleftrightarrow> s \<subseteq> {..<U32} \<and> hb_head b = s \<inter> {0..<hb} \<and> 0 < hb_tail_size b \<and> read_tail deser f b = Ok (s - {0..<hb})"

definition tail_of :: "deserializer \<Rightarrow> range_read \<Rightarrow> head_block \<Rightarrow> nat set" where
  "tail_of deser f b = (case read_tail deser f b of Ok t \<Rightarrow> t | _ \<Rightarrow> {})"

lemma head_of_full: "head_of deser f hb s b \<Longrightarrow> hb_head b \<union> tail_of deser f b = s"
  by (auto simp: head_of_def tail_of_def)

context posting_store
begin

lemma read_head_block_ok:
  assumes at: "posting_at content ser (ti_postings_offset ti) hb (k, loc) s"
    and space: "length content < lim" "length content < um" "um \<le> U64"
  shows "\<exists>b. read_head_block um deser fetch ti loc = Ok b \<and> head_of deser fetch hb s b"
proof -
  obtain off sz where loc: "loc = (off, sz)" by (cases loc)
  let ?h = "ser ({0..<hb} \<inter> s)" and ?t = "ser (s - {0..<hb})" and ?a = "ti_postings_offset ti + off"
  have p: "s \<subseteq> {..<U32}" "sz = length ?h" "?a + 4 + sz + length ?t \<le> length content"
    "cut content ?a (?a + 4 + sz) = to_le 4 (length ?t) @ ?h" "cut content (?a + 4 + sz) (?a + 4 + sz + length ?t) = ?t"
    using at by (auto simp: posting_at_def split_posting_def loc Let_def)
  have sub: "{0..<hb} \<inter> s \<subseteq> {..<U32}" "s - {0..<hb} \<subseteq> {..<U32}" using p(1) by auto
  note h = ser_ok [OF sub(1)] and t = ser_ok [OF sub(2)]
  let ?b = "\<lparr>hb_head = {0..<hb} \<inter> s, hb_tail_off = ?a + 4 + sz, hb_tail_size = length ?t\<rparr>"
  have rd1: "rd fetch ?a (length ?h + 4) = Ok (to_le 4 (length ?t) @ ?h)"
    using rd_ok [of ?a "length ?h + 4"] p(2-4) space(1) by (simp add: ac_simps)
  have rd2: "rd fetch (?a + 4 + sz) (length ?t) = Ok ?t"
    using rd_ok [of "?a + 4 + sz" "length ?t"] p(3,5) space(1) by simp
  have u: "u32_at (to_le 4 (length ?t) @ ?h) 0 = length ?t" using t(3) by (rule u32_at_0)
  have c: "cut (to_le 4 (length ?t) @ ?h) 4 (length ?h + 4) = ?h"
    using cut_mid [of "to_le 4 (length ?t)" 4 ?h "length ?h" "[]"] by (simp add: add.commute)
  have "read_head_block um deser fetch ti loc = Ok ?b"
    using p(2,3) space rd1 u c h(1)
    by (simp add: read_head_block_def loc ac_simps del: rd_Ok_iff deserialize_Ok)
  moreover have "head_of deser fetch hb s ?b"
    using p(1) t(1,2) rd2 by (auto simp: head_of_def read_tail_def simp del: rd_Ok_iff deserialize_Ok)
  ultimately show ?thesis by blast
qed

lemma read_head_blocks_ok:
  assumes at: "list_all2 (\<lambda>loc s. \<exists>k. posting_at content ser (ti_postings_offset ti) hb (k, loc) s) locs sets"
    and space: "length content < lim" "length content < um" "um \<le> U64"
  shows "\<exists>bs. wave (read_head_block um deser fetch ti) locs = Ok bs \<and> list_all2 (head_of deser fetch hb) sets bs"
  using at
proof (induction locs sets rule: list_all2_induct)
  case (Cons loc locs s sets)
  then obtain k where k: "posting_at content ser (ti_postings_offset ti) hb (k, loc) s" by blast
  obtain b where b: "read_head_block um deser fetch ti loc = Ok b" "head_of deser fetch hb s b"
    using read_head_block_ok [OF k space] by blast
  then show ?case using Cons by (auto simp: wave_Ok_iff)
qed (simp add: wave_Ok_iff)

lemma tails_ok:
  assumes "\<forall>b \<in> set bs. \<exists>s. head_of deser fetch hb s b"
  shows "wave (read_tail deser fetch) bs = Ok (map (tail_of deser fetch) bs)"
  using assms by (intro wave_map) (auto simp: head_of_def tail_of_def)

lemma full_sets:
  assumes "list_all2 (head_of deser fetch hb) sets bs"
  shows "(\<lambda>b. hb_head b \<union> tail_of deser fetch b) ` set bs = set sets" "hb_head ` set bs = (\<lambda>s. s \<inter> {0..<hb}) ` set sets"
    "\<forall>b \<in> set bs. \<exists>s. head_of deser fetch hb s b" "length bs = length sets" "\<forall>b \<in> set bs. 0 < hb_tail_size b"
  using assms
proof (induction sets bs rule: list_all2_induct)
  case (Cons s sets b bs)
  {
    case 1
    show ?case using Cons head_of_full [OF Cons(1)] by simp
  next
    case 2
    show ?case using Cons by (simp add: head_of_def)
  next
    case 3
    show ?case using Cons by auto
  next
    case 4
    show ?case using Cons by simp
  next
    case 5
    show ?case using Cons by (simp add: head_of_def)
  }
qed simp_all

lemma and_locs_ok:
  assumes at: "list_all2 (\<lambda>loc s. \<exists>k. posting_at content ser (ti_postings_offset ti) hb (k, loc) s) locs sets"
    and space: "length content < lim" "length content < um" "um \<le> U64" and ne: "locs \<noteq> []"
  shows "and_locs um deser fetch ti locs limit = Ok (first_docs limit (\<Inter>(set sets)))"
proof -
  obtain bs0 where w: "wave (read_head_block um deser fetch ti) locs = Ok bs0" "list_all2 (head_of deser fetch hb) sets bs0"
    using read_head_blocks_ok [OF at space] by blast
  note full = full_sets [OF w(2)]
  let ?bs = "sort_key (\<lambda>b. card (hb_head b)) bs0"
  let ?A = "\<Inter>(set sets)"
  have sne: "sets \<noteq> []" using at ne by auto
  then have bne: "?bs \<noteq> []" using full(4) by (metis length_0_conv length_sort)
  have fin: "finite ?A"
  proof -
    obtain s where s: "s \<in> set sets" using sne by (metis last_in_set)
    then obtain b where "head_of deser fetch hb s b" using w(2) by (metis in_set_conv_nth list_all2_conv_all_nth)
    then have "finite s" by (auto simp: head_of_def intro: finite_subset)
    then show ?thesis using s by (meson Inter_lower finite_subset)
  qed
  have heads: "and_sets (map hb_head ?bs) = Ok (?A \<inter> {0..<hb})"
  proof -
    have "\<Inter>(hb_head ` set ?bs) = ?A \<inter> {0..<hb}" using full(2) sne by auto
    then show ?thesis using bne by (simp add: and_sets_eq)
  qed
  have tails: "wave (read_tail deser fetch) ?bs = Ok (map (tail_of deser fetch) ?bs)" using full(3) by (intro tails_ok) simp
  have all: "and_sets (map (\<lambda>(b, t). hb_head b \<union> t) (zip ?bs (map (tail_of deser fetch) ?bs))) = Ok ?A"
  proof -
    have "map (\<lambda>(b, t). hb_head b \<union> t) (zip ?bs (map (tail_of deser fetch) ?bs)) = map (\<lambda>b. hb_head b \<union> tail_of deser fetch b) ?bs"
      by (simp add: zip_map2 zip_same_conv_map)
    then show ?thesis using bne full(1) by (simp add: and_sets_eq)
  qed
  have "limit \<le> card (?A \<inter> {0..<hb})" if "card (?A \<inter> {0..<hb}) mod um \<ge> limit"
    using that by (metis le_trans mod_less_eq_dividend)
  then have "first_docs limit (?A \<inter> {0..<hb}) = first_docs limit ?A" if "card (?A \<inter> {0..<hb}) mod um \<ge> limit"
    using that by (intro first_docs_head [OF fin]) blast
  moreover have "list_ex (\<lambda>b. hb_tail_size b > 0) ?bs" using full(5) last_in_set [OF bne] by (auto simp: list_ex_iff)
  ultimately show ?thesis
    using ne w(1) heads tails all by (simp add: and_locs_def Let_def)
qed

lemma union_locs_ok:
  assumes at: "list_all2 (\<lambda>loc s. \<exists>k. posting_at content ser (ti_postings_offset ti) hb (k, loc) s) locs sets"
    and space: "length content < lim" "length content < um" "um \<le> U64"
  shows "union_locs um deser fetch ti locs limit = Ok (first_docs limit (\<Union>(set sets)))"
proof (cases "locs = [] \<or> limit = 0")
  case True
  then show ?thesis using at by (auto simp: union_locs_def first_docs_def)
next
  case False
  obtain bs where w: "wave (read_head_block um deser fetch ti) locs = Ok bs" "list_all2 (head_of deser fetch hb) sets bs"
    using read_head_blocks_ok [OF at space] by blast
  note full = full_sets [OF w(2)]
  let ?A = "\<Union>(set sets)"
  have fin: "finite ?A"
  proof (rule finite_Union)
    fix s assume "s \<in> set sets"
    then obtain b where "head_of deser fetch hb s b" using w(2) by (metis in_set_conv_nth list_all2_conv_all_nth)
    then show "finite s" by (auto simp: head_of_def intro: finite_subset)
  qed simp
  have foldU: "foldl (\<lambda>acc b. acc \<union> g b) A xs = A \<union> \<Union>(g ` set xs)" for g :: "'z \<Rightarrow> nat set" and A xs
    by (induction xs arbitrary: A) auto
  have "foldl (\<lambda>acc b. acc \<union> hb_head b) {} bs = \<Union>(hb_head ` set bs)" using foldU [of hb_head "{}" bs] by simp
  also have "\<dots> = ?A \<inter> {0..<hb}" using full(2) by auto
  finally have heads: "foldl (\<lambda>acc b. acc \<union> hb_head b) {} bs = ?A \<inter> {0..<hb}" .
  have tails: "wave (read_tail deser fetch) bs = Ok (map (tail_of deser fetch) bs)" using full(3) by (rule tails_ok)
  have all: "foldl (\<lambda>acc (b, t). acc \<union> hb_head b \<union> t) {} (zip bs (map (tail_of deser fetch) bs)) = ?A"
  proof -
    have "foldl (\<lambda>acc (b, t). acc \<union> hb_head b \<union> t) A (zip xs (map (tail_of deser fetch) xs))
        = foldl (\<lambda>acc b. acc \<union> (hb_head b \<union> tail_of deser fetch b)) A xs" for A xs
      by (induction xs arbitrary: A) (auto simp: Un_assoc)
    then show ?thesis using foldU [of "\<lambda>b. hb_head b \<union> tail_of deser fetch b" "{}" bs] full(1) by simp
  qed
  have "limit \<le> card (?A \<inter> {0..<hb})" if "card (?A \<inter> {0..<hb}) mod um \<ge> limit"
    using that by (metis le_trans mod_less_eq_dividend)
  then have "first_docs limit (?A \<inter> {0..<hb}) = first_docs limit ?A" if "card (?A \<inter> {0..<hb}) mod um \<ge> limit"
    using that by (intro first_docs_head [OF fin]) blast
  moreover have "list_ex (\<lambda>b. hb_tail_size b > 0) bs"
  proof -
    have "bs \<noteq> []" using full(4) at False by auto
    then show ?thesis using full(5) by (cases bs) auto
  qed
  ultimately show ?thesis
    using False w(1) heads tails all by (simp add: union_locs_def Let_def)
qed

end

section \<open>Prefixes\<close>

definition has_prefix :: "bytes \<Rightarrow> dict_entry \<Rightarrow> bool" where
  "has_prefix pb e \<longleftrightarrow> take (length pb) (fst e) = pb"

lemma less_no_prefix: "t < pb \<Longrightarrow> take (length pb) t \<noteq> (pb :: 'a :: linorder list)"
proof (induction pb arbitrary: t)
  case (Cons b pb)
  then show ?case by (cases t) auto
qed simp

lemma past_prefix: "(pb :: 'a :: linorder list) \<le> t \<Longrightarrow> take (length pb) t \<noteq> pb \<Longrightarrow> t < u \<Longrightarrow> take (length pb) u \<noteq> pb"
proof (induction pb arbitrary: t u)
  case (Cons b pb)
  then obtain a t' where t: "t = a # t'" by (cases t) auto
  with Cons.prems(3) obtain c u' where u: "u = c # u'" by (cases u) auto
  show ?case
  proof
    assume "take (length (b # pb)) u = b # pb"
    then have c: "c = b" "take (length pb) u' = pb" using u by simp_all
    have "a = b" using Cons.prems(1,3) t u c(1) by auto
    then have "pb \<le> t'" "take (length pb) t' \<noteq> pb" "t' < u'" using Cons.prems t u c(1) by auto
    then show False using Cons.IH c(2) by blast
  qed
qed simp

text \<open>The matches of a dictionary, and the scan of one block of it.\<close>

definition prefix_rows :: "bytes \<Rightarrow> dict_entry list \<Rightarrow> dict_entry list" where
  "prefix_rows pb es = filter (has_prefix pb) es"

definition take_rows :: "bool \<Rightarrow> dict_entry list \<Rightarrow> loc list \<times> rstring list \<Rightarrow> loc list \<times> rstring list" where
  "take_rows want_terms rows st = (fst st @ map snd rows, snd st @ (if want_terms then map (utf8_lossy \<circ> fst) rows else []))"

lemma take_rows_simps [simp]:
  "take_rows w [] st = st" "take_rows w (rs @ rs') st = take_rows w rs' (take_rows w rs st)"
  "length (fst (take_rows w rs st)) = length (fst st) + length rs"
  by (auto simp: take_rows_def)

lemma scan_prefix_entries_ok:
  assumes "sorted_wrt (<) (map fst es)" "length (fst st) < max_n"
  shows "\<exists>status. scan_prefix_entries pb max_n w es st = (status, take_rows w (take (max_n - length (fst st)) (prefix_rows pb es)) st)
    \<and> (status = More \<longrightarrow> length (fst st) + length (prefix_rows pb es) < max_n)
    \<and> (status = Full \<longrightarrow> max_n \<le> length (fst st) + length (prefix_rows pb es))
    \<and> (status = Passed \<longrightarrow> length (fst st) + length (prefix_rows pb es) < max_n
         \<and> (\<exists>t \<in> fst ` set es. pb \<le> t \<and> take (length pb) t \<noteq> pb))"
  using assms
proof (induction es arbitrary: st)
  case Nil
  then show ?case by (simp add: prefix_rows_def)
next
  case (Cons e es)
  obtain t loc where e: "e = (t, loc)" by (cases e)
  have asc: "sorted_wrt (<) (map fst es)" "\<forall>u \<in> fst ` set es. t < u" using Cons.prems(1) e by auto
  consider (before) "t < pb" | (past) "pb \<le> t" "take (length pb) t \<noteq> pb" | (match) "take (length pb) t = pb"
    by (metis not_le)
  then show ?case
  proof cases
    case before
    then have "\<not> has_prefix pb e" using less_no_prefix by (auto simp: has_prefix_def e)
    then show ?thesis using Cons.IH [OF asc(1) Cons.prems(2)] before by (auto simp: e prefix_rows_def)
  next
    case past
    have "\<forall>u \<in> set (e # es). \<not> has_prefix pb u" using past asc(2) past_prefix [OF past] by (auto simp: has_prefix_def e)
    then have "prefix_rows pb (e # es) = []" by (auto simp: prefix_rows_def filter_empty_conv)
    then show ?thesis using past Cons.prems(2) by (auto simp: e not_less)
  next
    case match
    then have ge: "\<not> t < pb" using less_no_prefix by blast
    have hp: "prefix_rows pb (e # es) = e # prefix_rows pb es" using match by (simp add: prefix_rows_def has_prefix_def e)
    let ?st = "take_rows w [e] st"
    have len: "length (fst ?st) = length (fst st) + 1" by simp
    have step: "scan_prefix_entries pb max_n w (e # es) st
        = (if length (fst ?st) \<ge> max_n then (Full, ?st) else scan_prefix_entries pb max_n w es ?st)"
      using match ge by (simp add: e take_rows_def Let_def)
    have tk: "take_rows w (take (max_n - length (fst st)) (prefix_rows pb (e # es))) st
        = take_rows w (take (max_n - length (fst ?st)) (prefix_rows pb es)) ?st"
    proof -
      have "take (max_n - length (fst st)) (e # prefix_rows pb es) = [e] @ take (max_n - length (fst ?st)) (prefix_rows pb es)"
        using Cons.prems(2) len by (simp add: take_Cons')
      then show ?thesis unfolding hp by (simp only: take_rows_simps(2))
    qed
    show ?thesis
    proof (cases "length (fst ?st) \<ge> max_n")
      case True
      then show ?thesis unfolding step tk using hp len by simp
    next
      case False
      then show ?thesis using Cons.IH [OF asc(1), of ?st] step tk hp len by auto
    qed
  qed
qed

context full_fetch
begin

lemma scan_wave_results_ok:
  assumes "\<forall>g \<in> set gs. iter_block um (enc_block g) = g" "sorted_wrt (<) (map fst (concat gs))" "length (fst st) < max_n"
  shows "\<exists>status. scan_wave_results um pb max_n w (map (\<lambda>g. Ok (enc_block g)) gs) st
      = Ok (status, take_rows w (take (max_n - length (fst st)) (prefix_rows pb (concat gs))) st)
    \<and> (status = More \<longrightarrow> length (fst st) + length (prefix_rows pb (concat gs)) < max_n)
    \<and> (status = Full \<longrightarrow> max_n \<le> length (fst st) + length (prefix_rows pb (concat gs)))
    \<and> (status = Passed \<longrightarrow> length (fst st) + length (prefix_rows pb (concat gs)) < max_n
         \<and> (\<exists>t \<in> fst ` set (concat gs). pb \<le> t \<and> take (length pb) t \<noteq> pb))"
  using assms
proof (induction gs arbitrary: st)
  case Nil
  then show ?case by (simp add: prefix_rows_def)
next
  case (Cons g gs)
  have asc: "sorted_wrt (<) (map fst g)" "sorted_wrt (<) (map fst (concat gs))"
    "\<forall>e \<in> set g. \<forall>e' \<in> set (concat gs). fst e < fst e'"
    using Cons.prems(2) by (auto simp: sorted_wrt_append)
  let ?rs = "take (max_n - length (fst st)) (prefix_rows pb g)"
  obtain status where s: "scan_prefix_entries pb max_n w g st = (status, take_rows w ?rs st)"
    "status = More \<longrightarrow> length (fst st) + length (prefix_rows pb g) < max_n"
    "status = Full \<longrightarrow> max_n \<le> length (fst st) + length (prefix_rows pb g)"
    "status = Passed \<longrightarrow> length (fst st) + length (prefix_rows pb g) < max_n \<and> (\<exists>t \<in> fst ` set g. pb \<le> t \<and> take (length pb) t \<noteq> pb)"
    using scan_prefix_entries_ok [OF asc(1) Cons.prems(3)] by blast
  have app: "prefix_rows pb (concat (g # gs)) = prefix_rows pb g @ prefix_rows pb (concat gs)" by (simp add: prefix_rows_def)
  have it: "iter_block um (enc_block g) = g" using Cons.prems(1) by simp
  show ?case
  proof (cases status)
    case More
    then have rs: "?rs = prefix_rows pb g" "length (fst (take_rows w ?rs st)) < max_n" using s(2) by auto
    obtain status' where "scan_wave_results um pb max_n w (map (\<lambda>g. Ok (enc_block g)) gs) (take_rows w ?rs st)
        = Ok (status', take_rows w (take (max_n - length (fst (take_rows w ?rs st))) (prefix_rows pb (concat gs))) (take_rows w ?rs st))"
      "status' = More \<longrightarrow> length (fst (take_rows w ?rs st)) + length (prefix_rows pb (concat gs)) < max_n"
      "status' = Full \<longrightarrow> max_n \<le> length (fst (take_rows w ?rs st)) + length (prefix_rows pb (concat gs))"
      "status' = Passed \<longrightarrow> length (fst (take_rows w ?rs st)) + length (prefix_rows pb (concat gs)) < max_n
         \<and> (\<exists>t \<in> fst ` set (concat gs). pb \<le> t \<and> take (length pb) t \<noteq> pb)"
      using Cons.IH [OF _ asc(2) rs(2)] Cons.prems(1) by auto
    moreover have "take (max_n - length (fst st)) (prefix_rows pb (concat (g # gs)))
        = prefix_rows pb g @ take (max_n - length (fst (take_rows w ?rs st))) (prefix_rows pb (concat gs))"
      unfolding app using rs by simp
    ultimately show ?thesis
      using More s(1) it app rs(1) by (auto simp: add.assoc)
  next
    case Passed
    then obtain t where t: "t \<in> fst ` set g" "pb \<le> t" "take (length pb) t \<noteq> pb" using s(4) by blast
    then have "\<forall>e \<in> set (concat gs). \<not> has_prefix pb e" using asc(3) past_prefix [OF t(2,3)] by (auto simp: has_prefix_def)
    then have none: "prefix_rows pb (concat gs) = []" by (auto simp: prefix_rows_def filter_empty_conv)
    then show ?thesis using Passed s t(1) it app by (auto intro: rev_bexI)
  next
    case Full
    then show ?thesis using s(1,3) it app by simp
  qed
qed

lemma join_blocks:
  assumes d: "dict_at um content start gs" and lim: "length content < lim" and "\<forall>i \<in> set is. i < length gs"
  shows "join_all (\<lambda>(off, len). rd fetch off len) (map (block_at_loc start gs) is) = Ok (map (\<lambda>i. Ok (enc_block (gs ! i))) is)"
proof -
  have "(\<lambda>(off, len). rd fetch off len) (block_at_loc start gs i) = Ok (enc_block (gs ! i))" if "i \<in> set is" for i
    using read_block_ok [OF d _ lim] assms(3) that by blast
  then show ?thesis by (auto simp: join_all_def list_ex_iff)
qed

lemma scan_prefix_waves_ok:
  assumes d: "dict_at um content start gs" and lim: "length content < lim"
  shows "\<forall>i \<in> set is. i < length gs \<Longrightarrow> sorted_wrt (<) (map fst (concat (map ((!) gs) is))) \<Longrightarrow> length (fst st) < max_n \<Longrightarrow>
    scan_prefix_waves um fetch pb max_n w (map (block_at_loc start gs) is) st
      = Ok (take_rows w (take (max_n - length (fst st)) (prefix_rows pb (concat (map ((!) gs) is)))) st)"
proof (induction "length is" arbitrary: "is" st rule: less_induct)
  case less
  show ?case
  proof (cases "is = []")
    case True
    then show ?thesis by (simp add: scan_prefix_waves.simps prefix_rows_def)
  next
    case False
    let ?a = "take prefix_block_wave is" and ?b = "drop prefix_block_wave is"
    have split: "is = ?a @ ?b" by simp
    let ?ga = "map ((!) gs) ?a" and ?gb = "map ((!) gs) ?b"
    have all: "concat (map ((!) gs) is) = concat ?ga @ concat ?gb" by (subst split) (simp only: map_append concat_append)
    have asc: "sorted_wrt (<) (map fst (concat ?ga))" "sorted_wrt (<) (map fst (concat ?gb))"
      "\<forall>e \<in> set (concat ?ga). \<forall>e' \<in> set (concat ?gb). fst e < fst e'"
      using less.prems(2) unfolding all by (auto simp: sorted_wrt_append)
    have inr: "\<forall>i \<in> set ?a. i < length gs" "\<forall>i \<in> set ?b. i < length gs"
      using less.prems(1) by (auto dest: in_set_takeD in_set_dropD)
    have it: "\<forall>g \<in> set ?ga. iter_block um (enc_block g) = g" using d inr(1) by (auto simp: dict_at_def)
    let ?res = "map (\<lambda>g. Ok (enc_block g)) ?ga :: bytes ires list"
    have join: "join_all (\<lambda>(off, len). rd fetch off len) (take prefix_block_wave (map (block_at_loc start gs) is)) = Ok ?res"
      using join_blocks [OF d lim inr(1)] by (simp add: take_map comp_def)
    let ?rs = "take (max_n - length (fst st)) (prefix_rows pb (concat ?ga))"
    obtain status where s: "scan_wave_results um pb max_n w ?res st = Ok (status, take_rows w ?rs st)"
      "status = More \<longrightarrow> length (fst st) + length (prefix_rows pb (concat ?ga)) < max_n"
      "status = Full \<longrightarrow> max_n \<le> length (fst st) + length (prefix_rows pb (concat ?ga))"
      "status = Passed \<longrightarrow> length (fst st) + length (prefix_rows pb (concat ?ga)) < max_n
         \<and> (\<exists>t \<in> fst ` set (concat ?ga). pb \<le> t \<and> take (length pb) t \<noteq> pb)"
      using scan_wave_results_ok [OF it asc(1) less.prems(3), of pb w] by blast
    have app: "prefix_rows pb (concat (map ((!) gs) is)) = prefix_rows pb (concat ?ga) @ prefix_rows pb (concat ?gb)"
      unfolding all by (simp add: prefix_rows_def)
    have step: "scan_prefix_waves um fetch pb max_n w (map (block_at_loc start gs) is) st
        = (if status = More then scan_prefix_waves um fetch pb max_n w (map (block_at_loc start gs) ?b) (take_rows w ?rs st)
           else Ok (take_rows w ?rs st))"
      using False join s(1) by (subst scan_prefix_waves.simps) (simp add: drop_map)
    show ?thesis
    proof (cases status)
      case More
      then have rs: "?rs = prefix_rows pb (concat ?ga)" "length (fst (take_rows w ?rs st)) < max_n" using s(2) by auto
      have "length ?b < length is" using False by (simp add: prefix_block_wave_def)
      from less.hyps [OF this inr(2) asc(2) rs(2)] show ?thesis
        unfolding step app using More rs by simp
    next
      case Passed
      then obtain t where t: "t \<in> fst ` set (concat ?ga)" "pb \<le> t" "take (length pb) t \<noteq> pb" using s(4) by blast
      from imageE [OF t(1)] obtain e where "e \<in> set (concat ?ga)" "t = fst e" by blast
      then have "\<forall>e \<in> set (concat ?gb). t < fst e" using asc(3) by blast
      then have "\<forall>e \<in> set (concat ?gb). \<not> has_prefix pb e" using past_prefix [OF t(2,3)] unfolding has_prefix_def by blast
      then have "prefix_rows pb (concat ?gb) = []" by (auto simp: prefix_rows_def filter_empty_conv)
      then show ?thesis unfolding step app using Passed by simp
    next
      case Full
      then show ?thesis unfolding step app using s(3) by simp
    qed
  qed
qed

lemma scan_prefix_ok:
  assumes tf: "term_file um content ser ti gs sets" and lim: "length content < lim"
  shows "scan_prefix um fetch ti p max_n w = Ok (take_rows w (take max_n (prefix_rows (utf8_bytes p) (concat gs))) ([], []))"
proof (cases "max_n = 0")
  case True
  then show ?thesis by (simp add: scan_prefix_def)
next
  case False
  let ?pb = "utf8_bytes p"
  have f: "ti_router ti = fst_of (router_of gs)" "dict_at um content (ti_dict_start ti) gs" "length content < um" "um \<le> U64"
    using tf by (simp_all add: term_file_def)
  then have asc: "sorted_wrt (<) (map fst (concat gs))" "[] \<notin> set gs" by (simp_all add: dict_at_def)
  let ?is = "filter (\<lambda>i. ?pb \<le> fst (last (gs ! i))) [0..<length gs]"
  have "mapM_o (router_loc um ti) (fm_ge (ti_router ti) ?pb) = Ok (map (block_at_loc (ti_dict_start ti) gs) ?is)"
  proof -
    have "mapM_o (\<lambda>i. block_loc um ti (pack_loc (dict_size (take i gs)) (length (enc_block (gs ! i))))) ?is
        = Ok (map (block_at_loc (ti_dict_start ti) gs) ?is)"
      using block_loc_ok [OF f(2) _ f(3,4)] by (intro mapM_o_map) auto
    then show ?thesis unfolding f(1) router_ge by (simp add: mapM_o_map_list comp_def router_loc_def)
  qed
  moreover have "sorted_wrt (<) (map fst (concat (map ((!) gs) ?is)))"
  proof -
    have "map ((!) gs) ?is = filter (\<lambda>g. ?pb \<le> fst (last g)) gs"
      using filter_map [of "\<lambda>g. ?pb \<le> fst (last g)" "(!) gs" "[0..<length gs]"] by (simp add: map_nth comp_def)
    moreover have "sorted_wrt (<) (map fst (concat (filter P gs)))" for P
      using asc(1) by (induction gs) (auto simp: sorted_wrt_append)
    ultimately show ?thesis by simp
  qed
  moreover have "prefix_rows ?pb (concat (map ((!) gs) ?is)) = prefix_rows ?pb (concat gs)"
  proof -
    have sel: "map ((!) gs) ?is = filter (\<lambda>g. ?pb \<le> fst (last g)) gs"
      using filter_map [of "\<lambda>g. ?pb \<le> fst (last g)" "(!) gs" "[0..<length gs]"] by (simp add: map_nth comp_def)
    have "prefix_rows ?pb (concat (filter (\<lambda>g. ?pb \<le> fst (last g)) gs)) = prefix_rows ?pb (concat gs)"
      using asc
    proof (induction gs)
      case (Cons g gs)
      have g: "g \<noteq> []" using Cons.prems(2) by auto
      note a = ascending_group [OF Cons.prems(1) g]
      have "prefix_rows ?pb g = []" if "\<not> ?pb \<le> fst (last g)"
      proof -
        have "\<forall>e \<in> set g. fst e < ?pb" using a(3) that by (meson not_le le_less_trans)
        then show ?thesis using less_no_prefix by (auto simp: prefix_rows_def has_prefix_def filter_empty_conv)
      qed
      then show ?case using Cons.IH a(2) Cons.prems(2) by (auto simp: prefix_rows_def)
    qed (simp add: prefix_rows_def)
    then show ?thesis using sel by simp
  qed
  ultimately show ?thesis
    using scan_prefix_waves_ok [OF f(2) lim, of ?is "([], [])" max_n ?pb w] False by (simp add: scan_prefix_def)
qed

end

end
