(* ===== verification/RR_Terms_Written.thy ===== *)
theory RR_Terms_Written imports RR_Terms_Exact begin

text \<open>
  The term index as it is written: the stream writer lays the posting blocks out in term order, its
  dictionary blocks and router describe them, and the reader that opens the file sees exactly that.
  Then what the builder collects from documents: under every token the documents that have it.
\<close>

section \<open>The posting region\<close>

definition posting_bytes :: "(nat set \<Rightarrow> bytes) \<Rightarrow> nat \<Rightarrow> nat set \<Rightarrow> bytes" where
  "posting_bytes ser hb s = (let (head, tail) = split_posting ser s hb in to_le 4 (length tail mod U32) @ head @ tail)"

fun term_rows :: "(nat set \<Rightarrow> bytes) \<Rightarrow> nat \<Rightarrow> nat \<Rightarrow> term_postings \<Rightarrow> dict_entry list" where
  "term_rows ser hb off [] = []"
| "term_rows ser hb off ((t, s) # ps) =
     (utf8_bytes t, off, length (fst (split_posting ser s hb))) # term_rows ser hb (off + length (posting_bytes ser hb s)) ps"

lemma term_rows_simps [simp]:
  "map fst (term_rows ser hb off ps) = map (utf8_bytes \<circ> fst) ps" "length (term_rows ser hb off ps) = length ps"
  by (induction ser hb off ps rule: term_rows.induct) simp_all

lemma term_rows_ascend: "lo \<le> off \<Longrightarrow> offsets_ascend lo (term_rows ser hb off ps)"
  by (induction ser hb off ps arbitrary: lo rule: term_rows.induct) auto

lemma term_rows_offsets: "sorted_wrt (<) (map (\<lambda>e. fst (snd e)) (term_rows ser hb off ps)) \<and> (\<forall>e \<in> set (term_rows ser hb off ps). off \<le> fst (snd e))"
proof (induction ser hb off ps rule: term_rows.induct)
  case (2 ser hb off t s ps)
  have "4 \<le> length (posting_bytes ser hb s)" by (simp add: posting_bytes_def split: prod.splits)
  then show ?case using 2 by fastforce
qed simp

definition push_posting :: "(nat set \<Rightarrow> bytes) \<Rightarrow> nat \<Rightarrow> term_stream_writer \<Rightarrow> rstring \<times> nat set \<Rightarrow> term_stream_writer io" where
  "push_posting ser hb w = (\<lambda>(t, bm). let (head, tail) = split_posting ser bm hb in tw_push w t head tail)"

lemma push_posting_Ok:
  assumes "push_posting ser hb w (t, s) = Ok w'"
  shows "tw_region w' = tw_region w @ posting_bytes ser hb s" "tw_region_len w' = tw_region_len w + length (posting_bytes ser hb s)"
    "bw_push (tw_blocks w) (utf8_bytes t) (tw_region_len w) (length (fst (split_posting ser s hb))) = (Ok (tw_blocks w') :: (string, _) outcome)"
    "tw_term_count w' = tw_term_count w + 1" "tw_config w' = tw_config w"
    "length (fst (split_posting ser s hb)) < 2 ^ 24" "tw_region_len w < 2 ^ 40"
proof -
  obtain head tail where sp: "split_posting ser s hb = (head, tail)" by fastforce
  show "tw_region w' = tw_region w @ posting_bytes ser hb s" "tw_region_len w' = tw_region_len w + length (posting_bytes ser hb s)"
    "bw_push (tw_blocks w) (utf8_bytes t) (tw_region_len w) (length (fst (split_posting ser s hb))) = (Ok (tw_blocks w') :: (string, _) outcome)"
    "tw_term_count w' = tw_term_count w + 1" "tw_config w' = tw_config w"
    "length (fst (split_posting ser s hb)) < 2 ^ 24" "tw_region_len w < 2 ^ 40"
    using assms by (auto simp: push_posting_def tw_push_def posting_bytes_def sp Let_def bind_o_Ok_iff size_bits_def split: if_split_asm)
qed

lemma push_postings_Ok:
  assumes "foldM_o (push_posting ser hb) w ps = Ok w'"
  shows "tw_region w' = tw_region w @ concat (map (posting_bytes ser hb \<circ> snd) ps) \<and> tw_config w' = tw_config w
    \<and> tw_term_count w' = tw_term_count w + length ps
    \<and> foldM_o (\<lambda>w (t, off, sz). bw_push w t off sz) (tw_blocks w) (term_rows ser hb (tw_region_len w) ps)
        = (Ok (tw_blocks w') :: (string, block_writer) outcome)
    \<and> list_all (\<lambda>(t, off, sz). off < 2 ^ 40 \<and> sz < 2 ^ 24) (term_rows ser hb (tw_region_len w) ps)"
  using assms
proof (induction ps arbitrary: w)
  case Nil
  then show ?case by simp
next
  case (Cons p ps)
  obtain t s where p: "p = (t, s)" by (cases p)
  obtain w1 where w1: "push_posting ser hb w (t, s) = Ok w1" "foldM_o (push_posting ser hb) w1 ps = Ok w'"
    using Cons.prems p by (auto simp: bind_o_Ok_iff)
  note f = push_posting_Ok [OF w1(1)]
  show ?case unfolding p using Cons.IH [OF w1(2)] f by (simp add: add.commute)
qed

section \<open>The router\<close>

lemma router_step_Ok:
  "router_step api (b, n) bk = Ok st \<longleftrightarrow> length (bk_bytes bk) < 2 ^ 24 \<and> bk_off bk < 2 ^ 40
     \<and> (\<exists>b'. fa_insert api b (bk_last bk) (pack_loc (bk_off bk) (length (bk_bytes bk))) = Some b' \<and> st = (b', n + length (bk_bytes bk)))"
  by (auto simp: router_step_def Let_def bind_o_Ok_iff size_bits_def)

lemma router_steps_Ok:
  "foldM_o (router_step api) (b, n) blks = Ok (b', n') \<Longrightarrow>
     fst_inserts api b (map (\<lambda>bk. (bk_last bk, pack_loc (bk_off bk) (length (bk_bytes bk)))) blks) = Some b'
     \<and> n' = n + sum_list (map (\<lambda>bk. length (bk_bytes bk)) blks)
     \<and> (\<forall>bk \<in> set blks. length (bk_bytes bk) < 2 ^ 24 \<and> bk_off bk < 2 ^ 40)"
  by (induction blks arbitrary: b n) (auto simp: bind_o_Ok_iff router_step_Ok, fastforce)

lemma pack_loc_less: "off < 2 ^ 40 \<Longrightarrow> sz < 2 ^ 24 \<Longrightarrow> pack_loc off sz < U64"
  using or_disjoint [of sz 24 off] by (simp add: pack_loc_def size_bits_def or.commute)

lemma router_fits:
  assumes "sorted_wrt (<) (map fst (concat gs))" "[] \<notin> set gs" "\<forall>g \<in> set gs. length (enc_block g) < 2 ^ 24"
    and "\<forall>i < length gs. dict_size (take i gs) < 2 ^ 40" "sum_list (map (\<lambda>e. length (fst e) + 64) (concat gs)) < U64"
  shows "fst_fits (router_of gs)"
proof -
  have keys: "map fst (router_of gs) = map (\<lambda>g. fst (last g)) gs" by (simp add: router_of_def comp_def)
  have "sorted_wrt (<) (map (\<lambda>g. fst (last g)) gs)"
    using assms(1,2)
  proof (induction gs)
    case (Cons g gs)
    have g: "g \<noteq> []" using Cons.prems(2) by auto
    note a = ascending_group [OF Cons.prems(1) g]
    have "fst (last g) < fst (last h)" if "h \<in> set gs" for h
    proof -
      have "last h \<in> set h" using that Cons.prems(2) by (intro last_in_set) auto
      then have "last h \<in> set (concat gs)" using that by auto
      then show ?thesis by (rule a(4))
    qed
    then show ?case using Cons.IH a(2) Cons.prems(2) by auto
  qed simp
  moreover have "\<forall>(k, v) \<in> set (router_of gs). v < U64"
    using pack_loc_less assms(3,4) by (auto simp: router_of_alt)
  moreover have "sum_list (map (\<lambda>g. length (fst (last g)) + 64) gs) \<le> sum_list (map (\<lambda>e. length (fst e) + 64) (concat gs))"
    using assms(2)
  proof (induction gs)
    case (Cons g gs)
    have "last g \<in> set g" using Cons.prems by (intro last_in_set) auto
    then have "length (fst (last g)) + 64 \<le> sum_list (map (\<lambda>e. length (fst e) + 64) g)"
      by (intro member_le_sum_list) auto
    then show ?case using Cons by simp
  qed simp
  moreover have "map (\<lambda>(k, v). length k + 64) (router_of gs) = map (\<lambda>g. length (fst (last g)) + 64) gs"
    by (rule nth_equalityI) (simp_all add: router_of_alt)
  ultimately show ?thesis using assms(5) keys by (simp add: fst_fits_def)
qed

section \<open>Reading the file back\<close>

lemma rrti_header_fields:
  assumes "fl < U16" "tc < U32" "hb < U32" "rl < U64" "dl < U64" "bc < U32" "lg < 256"
  defines "h \<equiv> rrti_magic @ to_le 2 rrti_version @ to_le 2 fl @ to_le 4 tc @ to_le 4 hb @ to_le 8 rl @ to_le 8 dl @ to_le 4 bc @ [of_nat lg, 0, 0, 0]"
  shows "length h = 40" "cut h 0 4 = rrti_magic" "u16_at h 4 = rrti_version" "u16_at h 6 = fl" "u32_at h 8 = tc" "u32_at h 12 = hb"
    "u64_at h 16 = rl" "u64_at h 24 = dl" "unat (h ! 36) = lg"
proof -
  have m: "length rrti_magic = 4" by (simp add: rrti_magic_def)
  show "length h = 40" using m by (simp add: h_def)
  show "cut h 0 4 = rrti_magic" unfolding h_def using m cut_append_left [of 4 rrti_magic] cut_full [of rrti_magic] by simp
  show "u16_at h 4 = rrti_version" unfolding h_def using m by (intro u16_at_mid) (simp_all add: rrti_version_def)
  let ?a = "rrti_magic @ to_le 2 rrti_version"
  have h: "h = ?a @ to_le 2 fl @ to_le 4 tc @ to_le 4 hb @ to_le 8 rl @ to_le 8 dl @ to_le 4 bc @ [of_nat lg, 0, 0, 0]" by (simp add: h_def)
  show "u16_at h 6 = fl" unfolding h using m assms(1) by (intro u16_at_mid) simp_all
  have h: "h = (?a @ to_le 2 fl) @ to_le 4 tc @ to_le 4 hb @ to_le 8 rl @ to_le 8 dl @ to_le 4 bc @ [of_nat lg, 0, 0, 0]" by (simp add: h_def)
  show "u32_at h 8 = tc" unfolding h using m assms(2) by (intro u32_at_mid) simp_all
  have h: "h = (?a @ to_le 2 fl @ to_le 4 tc) @ to_le 4 hb @ to_le 8 rl @ to_le 8 dl @ to_le 4 bc @ [of_nat lg, 0, 0, 0]" by (simp add: h_def)
  show "u32_at h 12 = hb" unfolding h using m assms(3) by (intro u32_at_mid) simp_all
  have h: "h = (?a @ to_le 2 fl @ to_le 4 tc @ to_le 4 hb) @ to_le 8 rl @ to_le 8 dl @ to_le 4 bc @ [of_nat lg, 0, 0, 0]" by (simp add: h_def)
  show "u64_at h 16 = rl" unfolding h using m assms(4) by (intro u64_at_mid) simp_all
  have h: "h = (?a @ to_le 2 fl @ to_le 4 tc @ to_le 4 hb @ to_le 8 rl) @ to_le 8 dl @ to_le 4 bc @ [of_nat lg, 0, 0, 0]" by (simp add: h_def)
  show "u64_at h 24 = dl" unfolding h using m assms(5) by (intro u64_at_mid) simp_all
  have h: "h = (?a @ to_le 2 fl @ to_le 4 tc @ to_le 4 hb @ to_le 8 rl @ to_le 8 dl @ to_le 4 bc) @ [of_nat lg, 0, 0, 0]" by (simp add: h_def)
  show "unat (h ! 36) = lg" unfolding h using m assms(7) by (simp add: nth_append unat_of_nat)
qed

lemma posting_rows_at:
  assumes ro: "roaring deser ser"
  shows "content = pre @ concat (map (posting_bytes ser hb \<circ> snd) ps) @ post \<Longrightarrow> length pre = base + off \<Longrightarrow> \<forall>p \<in> set ps. snd p \<subseteq> {..<U32} \<Longrightarrow>
    list_all2 (posting_at content ser base hb) (term_rows ser hb off ps) (map snd ps)"
proof (induction ps arbitrary: pre off)
  case Nil
  then show ?case by simp
next
  case (Cons p ps)
  obtain t s where p: "p = (t, s)" by (cases p)
  let ?h = "ser ({0..<hb} \<inter> s)" and ?t = "ser (s - {0..<hb})"
  have s: "s \<subseteq> {..<U32}" using Cons.prems(3) p by simp
  have "s - {0..<hb} \<subseteq> {..<U32}" using s by auto
  then have tl: "length ?t < U32" by (rule roaring.ser_ok(3) [OF ro])
  have pb: "posting_bytes ser hb s = to_le 4 (length ?t) @ ?h @ ?t" using tl by (simp add: posting_bytes_def split_posting_def)
  let ?rest = "concat (map (posting_bytes ser hb \<circ> snd) ps) @ post"
  have c: "content = pre @ (to_le 4 (length ?t) @ ?h) @ (?t @ ?rest)" "content = (pre @ to_le 4 (length ?t) @ ?h) @ ?t @ ?rest"
    using Cons.prems(1) by (simp_all add: p pb comp_def)
  have "posting_at content ser base hb (utf8_bytes t, off, length ?h) s"
  proof -
    have "cut content (base + off) (base + off + 4 + length ?h) = to_le 4 (length ?t) @ ?h"
      using cut_mid [of pre "base + off" "to_le 4 (length ?t) @ ?h" "4 + length ?h" "?t @ ?rest"] Cons.prems(2) unfolding c(1) by (simp add: add.assoc)
    moreover have "cut content (base + off + 4 + length ?h) (base + off + 4 + length ?h + length ?t) = ?t"
      using cut_mid [of "pre @ to_le 4 (length ?t) @ ?h" "base + off + 4 + length ?h" ?t "length ?t" ?rest] Cons.prems(2) unfolding c(2) by (simp add: add.assoc)
    moreover have "base + off + 4 + length ?h + length ?t \<le> length content"
      unfolding c(2) using Cons.prems(2) by simp
    ultimately show ?thesis using s by (simp add: posting_at_def split_posting_def)
  qed
  moreover have "list_all2 (posting_at content ser base hb) (term_rows ser hb (off + length (posting_bytes ser hb s)) ps) (map snd ps)"
    using Cons.prems by (intro Cons.IH [of "pre @ posting_bytes ser hb s"]) (simp_all add: p)
  ultimately show ?case by (simp add: p split_posting_def)
qed

lemma term_rows_sz:
  "(k, off, sz) \<in> set (term_rows ser hb lo ps) \<Longrightarrow> sz \<le> length (concat (map (posting_bytes ser hb \<circ> snd) ps))"
proof (induction ps arbitrary: lo)
  case (Cons q ps)
  obtain t s where q: "q = (t, s)" by (cases q)
  have "length (fst (split_posting ser s hb)) \<le> length (posting_bytes ser hb s)"
    by (simp add: posting_bytes_def split: prod.splits)
  then show ?case using Cons.prems Cons.IH [of "lo + length (posting_bytes ser hb s)"] by (auto simp: q comp_def)
qed simp

text \<open>The parts of a written file.\<close>

lemma written_parts:
  assumes fa: "fst_maps api" and w: "write_term_index_from_postings api ser cfg ps = Ok bs"
    and asc: "sorted_wrt (<) (map (utf8_bytes \<circ> fst) ps)" and len: "length bs < um" "um \<le> U64"
    and vocab: "sum_list (map (\<lambda>p. length (utf8_bytes (fst p)) + 64) ps) < um"
  obtains gs rb where
    "bs = (rrti_magic @ to_le 2 rrti_version @ to_le 2 (header_flags (tc_stem cfg) (tc_stopwords cfg) (\<not> tc_case_sensitive cfg))
        @ to_le 4 (length ps) @ to_le 4 (tc_head_boundary cfg) @ to_le 8 (length rb) @ to_le 8 (dict_size gs)
        @ to_le 4 ((if tc_block_cap cfg = 0 then default_block_cap else tc_block_cap cfg) mod U32)
        @ [of_nat (header_language (tc_stem cfg) (tc_stopwords cfg) (tc_language cfg)), 0, 0, 0])
      @ rb @ concat (map enc_block gs) @ concat (map (posting_bytes ser (tc_head_boundary cfg) \<circ> snd) ps)"
    "concat gs = term_rows ser (tc_head_boundary cfg) 0 ps" "[] \<notin> set gs" "fa_new api rb = Some (fst_of (router_of gs))" "fa_verify api rb"
    "\<forall>g \<in> set gs. length (enc_block g) < 2 ^ 24 \<and> iter_block um (enc_block g) = g" "\<forall>i < length gs. dict_size (take i gs) < 2 ^ 40"
    "length ps < U32" "tc_stem cfg \<or> tc_stopwords cfg \<longrightarrow> tc_language cfg \<noteq> None"
proof -
  let ?hb = "tc_head_boundary cfg"
  let ?es = "term_rows ser ?hb 0 ps"
  obtain w1 where push: "foldM_o (push_posting ser ?hb) (tw_new cfg) ps = Ok w1"
    and fin: "map_ok (\<lambda>(header, router, blocks). header @ router @ concat blocks @ tw_region w1) (tw_finish_meta api w1) = Ok bs"
    using w by (auto simp: write_term_index_from_postings_def bind_o_Ok_iff push_posting_def [abs_def])
  have w1: "tw_region w1 = concat (map (posting_bytes ser ?hb \<circ> snd) ps)" "tw_config w1 = cfg" "tw_term_count w1 = length ps"
    "foldM_o (\<lambda>w (t, off, sz). bw_push w t off sz) (bw_new (tc_block_cap cfg)) ?es = (Ok (tw_blocks w1) :: (string, block_writer) outcome)"
    "list_all (\<lambda>(t, off, sz). off < 2 ^ 40 \<and> sz < 2 ^ 24) ?es"
    using push_postings_Ok [OF push] by (simp_all add: tw_new_def)
  obtain router dl rb header where m: "foldM_o (router_step api) (fa_memory api, 0) (bw_finish (tw_blocks w1)) = Ok (router, dl)"
    "fa_finish api router = Some rb" "length ps < U32"
    "bs = (rrti_magic @ to_le 2 rrti_version @ to_le 2 (header_flags (tc_stem cfg) (tc_stopwords cfg) (\<not> tc_case_sensitive cfg))
        @ to_le 4 (length ps) @ to_le 4 ?hb @ to_le 8 (length rb) @ to_le 8 dl
        @ to_le 4 ((if tc_block_cap cfg = 0 then default_block_cap else tc_block_cap cfg) mod U32)
        @ [of_nat (header_language (tc_stem cfg) (tc_stopwords cfg) (tc_language cfg)), 0, 0, 0])
      @ rb @ concat (map bk_bytes (bw_finish (tw_blocks w1))) @ tw_region w1"
    "tc_stem cfg \<or> tc_stopwords cfg \<longrightarrow> tc_language cfg \<noteq> None"
    using fin unfolding tw_finish_meta_def w1(2,3) Let_def
    by (auto simp: map_ok_Ok_iff bind_o_Ok_iff split: if_split_asm)
  have rl: "length (concat (map (posting_bytes ser ?hb \<circ> snd) ps)) < um" using m(4) w1(1) len(1) by simp
  have fits: "list_all (entry_fits um) ?es"
    unfolding list_all_iff
  proof
    fix e assume e: "e \<in> set ?es"
    obtain k off sz where ke: "e = (k, off, sz)" by (metis prod_cases3)
    have "k \<in> set (map (utf8_bytes \<circ> fst) ps)" using e ke by (metis fst_conv imageI list.set_map term_rows_simps(1))
    then obtain p where p: "p \<in> set ps" "k = utf8_bytes (fst p)" by auto
    have "length (utf8_bytes (fst p)) + 64 \<le> sum_list (map (\<lambda>p. length (utf8_bytes (fst p)) + 64) ps)"
      using p(1) by (intro member_le_sum_list) auto
    then have "length k < um" using p(2) vocab by simp
    moreover have "off < U64" using w1(5) e ke by (auto simp: list_all_iff)
    moreover have "sz < um" using term_rows_sz [of k off sz ser ?hb 0 ps] e ke rl by simp
    ultimately show "entry_fits um e" by (simp add: entry_fits_def ke)
  qed
  have asc_es: "sorted_wrt (<) (map fst ?es)" using asc by simp
  have ascend: "offsets_ascend 0 ?es" by (rule term_rows_ascend) simp
  obtain gs where gs: "write_dict_blocks (tc_block_cap cfg) ?es = (Ok (blocks_of 0 gs) :: (string, block list) outcome)" "concat gs = ?es" "[] \<notin> set gs"
    "dict_size gs < um \<longrightarrow> (\<forall>g \<in> set gs. iter_block um (enc_block g) = g \<and> (\<forall>t. scan_block um (enc_block g) t = map_of g t))"
    using written_dict [OF ascend asc_es fits len(2), where cap = "tc_block_cap cfg"] by metis
  have blocks: "bw_finish (tw_blocks w1) = blocks_of 0 gs" using gs(1) w1(4) by (simp add: write_dict_blocks_def)
  note r = router_steps_Ok [OF m(1) [unfolded blocks]]
  have ins: "fst_inserts api (fa_memory api) (router_of gs) = Some router" using r by (simp add: router_of_def)
  have dl: "dl = dict_size gs"
    using r arg_cong [OF map_bytes_blocks_of(1) [of 0 gs], of "\<lambda>xs. sum_list (map length xs)"] by (simp add: dict_size_def comp_def del: map_bytes_blocks_of)
  have bl: "\<forall>g \<in> set gs. length (enc_block g) < 2 ^ 24" "\<forall>i < length gs. dict_size (take i gs) < 2 ^ 40"
  proof -
    have all: "\<forall>i < length gs. length (bk_bytes (blocks_of 0 gs ! i)) < 2 ^ 24 \<and> bk_off (blocks_of 0 gs ! i) < 2 ^ 40"
      using r by (metis map_bytes_blocks_of(3) nth_mem)
    then show "\<forall>g \<in> set gs. length (enc_block g) < 2 ^ 24" by (metis (no_types) blocks_of_nth block.select_convs(1) in_set_conv_nth)
    show "\<forall>i < length gs. dict_size (take i gs) < 2 ^ 40" using all by (auto simp: blocks_of_nth)
  qed
  have vs: "sum_list (map (\<lambda>e. length (fst e) + 64) (concat gs)) < U64"
  proof -
    have "map (\<lambda>e. length (fst e) + 64) ?es = map (\<lambda>p. length (utf8_bytes (fst p)) + 64) ps"
      using arg_cong [OF term_rows_simps(1) [of ser ?hb 0 ps], of "map (\<lambda>k. length k + 64)"] by (simp only: map_map comp_def)
    then show ?thesis using vocab len(2) gs(2) by simp
  qed
  have "fst_fits (router_of gs)" using router_fits [OF _ gs(3) bl vs] asc_es gs(2) by simp
  then have fst: "fa_new api rb = Some (fst_of (router_of gs))" "fa_verify api rb"
    using fst_maps.built [OF fa, of "router_of gs"] ins m(2) by auto
  have cb: "concat (map bk_bytes (bw_finish (tw_blocks w1))) = concat (map enc_block gs)" by (simp add: blocks)
  have "dict_size gs < um" using m(4) len(1) length_enc_blocks [of gs] by (simp add: cb)
  then have it: "\<forall>g \<in> set gs. length (enc_block g) < 2 ^ 24 \<and> iter_block um (enc_block g) = g" using gs(4) bl(1) by blast
  show thesis
    using that [OF _ gs(2,3) fst it bl(2) m(3,5)] m(4) unfolding cb w1(1) dl by blast
qed

lemma written_terms:
  assumes fa: "fst_maps api" and ro: "roaring deser ser" and w: "write_term_index_from_postings api ser cfg ps = Ok bs"
    and asc: "sorted_wrt (<) (map (utf8_bytes \<circ> fst) ps)" and ids: "\<forall>p \<in> set ps. snd p \<subseteq> {..<U32}"
    and len: "length bs < um" "um \<le> U64" and hb: "tc_head_boundary cfg < U32"
    and router: "u64_at bs 16 \<le> max_resident_router"
    and vocab: "sum_list (map (\<lambda>p. length (utf8_bytes (fst p)) + 64) ps) < um"
  obtains ti gs where "ti_open um api (mem_read um (mem_new bs)) = Ok ti" "term_file um bs ser ti gs (map snd ps)"
    "map fst (concat gs) = map (utf8_bytes \<circ> fst) ps" "ti_term_count ti = length ps" "ti_head_boundary ti = tc_head_boundary cfg"
    "\<forall>env s. tokenize env (ti_tokenizer ti) s
       = tokenize env (tokenizer_with (tc_language cfg) (tc_stem cfg) (tc_stopwords cfg) (\<not> tc_case_sensitive cfg)) s"
    "tk_case_fold (ti_tokenizer ti) \<longleftrightarrow> \<not> tc_case_sensitive cfg" "length ps < U32"
    "sorted_wrt (<) (map (\<lambda>e. fst (snd e)) (concat gs))"
proof -
  let ?hb = "tc_head_boundary cfg" and ?f = "mem_read um (mem_new bs)"
  let ?fl = "header_flags (tc_stem cfg) (tc_stopwords cfg) (\<not> tc_case_sensitive cfg)"
  let ?lg = "header_language (tc_stem cfg) (tc_stopwords cfg) (tc_language cfg)"
  let ?bc = "(if tc_block_cap cfg = 0 then default_block_cap else tc_block_cap cfg) mod U32"
  obtain gs rb where parts:
    "bs = (rrti_magic @ to_le 2 rrti_version @ to_le 2 ?fl @ to_le 4 (length ps) @ to_le 4 ?hb @ to_le 8 (length rb) @ to_le 8 (dict_size gs)
        @ to_le 4 ?bc @ [of_nat ?lg, 0, 0, 0])
      @ rb @ concat (map enc_block gs) @ concat (map (posting_bytes ser ?hb \<circ> snd) ps)"
    "concat gs = term_rows ser ?hb 0 ps" "[] \<notin> set gs" "fa_new api rb = Some (fst_of (router_of gs))" "fa_verify api rb"
    "\<forall>g \<in> set gs. length (enc_block g) < 2 ^ 24 \<and> iter_block um (enc_block g) = g" "\<forall>i < length gs. dict_size (take i gs) < 2 ^ 40"
    "length ps < U32" "tc_stem cfg \<or> tc_stopwords cfg \<longrightarrow> tc_language cfg \<noteq> None"
    by (rule written_parts [OF fa w asc len vocab])
  let ?H = "rrti_magic @ to_le 2 rrti_version @ to_le 2 ?fl @ to_le 4 (length ps) @ to_le 4 ?hb @ to_le 8 (length rb) @ to_le 8 (dict_size gs)
        @ to_le 4 ?bc @ [of_nat ?lg, 0, 0, 0]"
  let ?D = "concat (map enc_block gs)" and ?R = "concat (map (posting_bytes ser ?hb \<circ> snd) ps)"
  have D: "length ?D = dict_size gs" by (rule length_enc_blocks)
  have mag: "length rrti_magic = 4" by (simp add: rrti_magic_def)
  have lenH: "length ?H = 40" using mag by simp
  have lbs: "length bs = 40 + length rb + dict_size gs + length ?R" using arg_cong [OF parts(1), of length] lenH D by (simp only: length_append)
  have "language_to_u8 l < 256" for l using language_byte_bound [of l] by simp
  then have lg: "?lg < 256" by (simp add: header_language_def split: option.splits)
  have fl: "?fl < U16" using header_flags_bits(1) [of "tc_stem cfg" "tc_stopwords cfg" "\<not> tc_case_sensitive cfg"] by simp
  have b64: "length rb < U64" "dict_size gs < U64" using lbs len by linarith+
  have bc: "?bc < U32" by (rule mod_less_divisor) simp
  note hf = rrti_header_fields [OF fl parts(8) hb b64 bc lg]
  have cutH: "cut bs 0 40 = ?H"
    using cut_mid [of "[]" 0 ?H 40 "rb @ ?D @ ?R"] lenH parts(1) by (simp only: append_Nil list.size add_0)
  have u16: "u64_at bs 16 = length rb"
  proof -
    have "u64_at bs 16 = u64_at (cut bs 0 40) 16" using lbs by (simp add: u64_at_cut)
    then show ?thesis using hf(7) cutH by simp
  qed
  then have rb: "length rb \<le> max_resident_router" using router by simp
  have rbum: "length rb < um" "40 + length rb < um" using lbs len by linarith+
  have boot: "rrti_boot_len um ?H = Ok (40 + length rb)"
    using hf rb rbum lenH by (simp add: rrti_boot_len_def rrti_header_def)
  have cutR: "cut bs 40 (40 + length rb) = rb"
    using cut_mid [OF lenH refl, of rb "?D @ ?R"] parts(1) by (simp only:)
  have rd1: "rd ?f 0 40 = Ok ?H" using memf.rd_ok [of 0 40 bs um] lbs len cutH by (simp del: rd_Ok_iff)
  have rd2: "rd ?f 40 (length rb) = Ok rb" using memf.rd_ok [of 40 "length rb" bs um] lbs len cutR by (simp del: rd_Ok_iff)
  define ti where "ti = \<lparr>ti_router = fst_of (router_of gs), ti_dict_start = 40 + length rb, ti_postings_offset = 40 + length rb + dict_size gs,
    ti_head_boundary = ?hb, ti_term_count = length ps, ti_tokenizer = tokenizer_from_header ?fl ?lg\<rparr>"
  have sat: "sat_add U64 40 (length rb) = 40 + length rb" "sat_add U64 (40 + length rb) (dict_size gs) = 40 + length rb + dict_size gs"
    using lbs len by (intro sat_add_exact; linarith)+
  have fp: "ti_from_parts api ?H rb = Ok ti"
    using hf lenH parts(4,5) sat by (simp add: ti_from_parts_def ti_def rrti_header_def Let_def)
  have "ti_open um api ?f = Ok ti"
    unfolding ti_open_def rrti_header_def rd1 bind_o.simps boot using rd2 fp by (simp del: rd_Ok_iff)
  moreover have "term_file um bs ser ti gs (map snd ps)"
  proof -
    have st: "40 + length rb < 2 ^ 40" using rb by (simp add: max_resident_router_def)
    have dict: "cut bs (40 + length rb) (40 + length rb + dict_size gs) = ?D"
      using cut_mid [of "?H @ rb" "40 + length rb" ?D "dict_size gs" ?R] lenH D parts(1) by (simp only: append_assoc length_append)
    have "sorted_wrt (<) (map fst (concat gs))" using asc parts(2) by simp
    then have d: "dict_at um bs (40 + length rb) gs" using parts(3,6,7) lbs dict st by (simp add: dict_at_def)
    have "list_all2 (posting_at bs ser (40 + length rb + dict_size gs) ?hb) (concat gs) (map snd ps)"
      unfolding parts(2)
    proof (rule posting_rows_at [OF ro])
      show "bs = (?H @ rb @ ?D) @ ?R @ []" using parts(1) by (simp only: append_assoc append_Nil2)
      show "length (?H @ rb @ ?D) = 40 + length rb + dict_size gs + 0" using lenH D by (simp only: length_append) 
    qed (rule ids)
    then show ?thesis using d len by (simp add: term_file_def ti_def)
  qed
  moreover have "map fst (concat gs) = map (utf8_bytes \<circ> fst) ps" unfolding parts(2) by simp
  moreover have "tokenize env (ti_tokenizer ti) s
       = tokenize env (tokenizer_with (tc_language cfg) (tc_stem cfg) (tc_stopwords cfg) (\<not> tc_case_sensitive cfg)) s" for env s
    unfolding ti_def by (simp del: rd_Ok_iff) (rule tokenizer_survives_header, use parts(9) in blast)
  moreover have "tk_case_fold (ti_tokenizer ti) \<longleftrightarrow> \<not> tc_case_sensitive cfg"
    using header_flags_bits(4) by (simp add: ti_def tokenizer_from_header_def tokenizer_with_def Let_def)
  ultimately show thesis using that [of ti gs] parts(2,8) term_rows_offsets by (simp add: ti_def)
qed

end
