(* ===== verification/RR_Terms_Search.thy ===== *)
theory RR_Terms_Search imports RR_Terms_Written begin

text \<open>
  The term index from documents to answers: the builder collects, for every token, the documents
  that hold it; the index written from them answers a query with the documents that hold all its
  tokens and a prefix with those of the terms that begin with it.  The locale \<open>fst_maps\<close> is
  interpreted on a map stored as one dictionary block.
\<close>

section \<open>Strings and their UTF-8 bytes\<close>

lemma utf8_bytes_inj: "list_all scalar s \<Longrightarrow> list_all scalar t \<Longrightarrow> utf8_bytes s = utf8_bytes t \<longleftrightarrow> s = t"
  using utf8_lossy_bytes by metis

lemma utf8_prefix:
  assumes "list_all scalar p" "list_all scalar t"
  shows "take (length (utf8_bytes p)) (utf8_bytes t) = utf8_bytes p \<longleftrightarrow> take (length p) t = p"
proof
  assume l: "take (length (utf8_bytes p)) (utf8_bytes t) = utf8_bytes p"
  then obtain r where "utf8_bytes t = utf8_bytes p @ r" by (metis append_take_drop_id)
  then show "take (length p) t = p"
    using assms
  proof (induction p arbitrary: t)
    case (Cons c p)
    have c: "utf8_bytes t = utf8_char c @ utf8_bytes p @ r" using Cons.prems(1) by (simp add: utf8_bytes_def)
    then obtain d t' where t: "t = d # t'" by (cases t) (auto simp: utf8_bytes_def)
    then have d: "utf8_bytes t = utf8_char d @ utf8_bytes t'" by (simp add: utf8_bytes_def)
    have sc: "scalar c" "scalar d" using Cons.prems(2,3) t by simp_all
    have "utf8_take (utf8_bytes t) = (Some c, length (utf8_char c))" "utf8_take (utf8_bytes t) = (Some d, length (utf8_char d))"
      using utf8_take_char [OF sc(1), of "utf8_bytes p @ r"] utf8_take_char [OF sc(2), of "utf8_bytes t'"] c d by simp_all
    then have "c = d" by simp
    then show ?case using Cons.IH [of t'] c d t Cons.prems(2,3) by simp
  qed simp
next
  assume "take (length p) t = p"
  then have "t = p @ drop (length p) t" by (metis append_take_drop_id)
  then have "utf8_bytes t = utf8_bytes p @ utf8_bytes (drop (length p) t)"
    unfolding utf8_bytes_def by (metis concat_append map_append)
  then show "take (length (utf8_bytes p)) (utf8_bytes t) = utf8_bytes p" by simp
qed

text \<open>Rust strings are sequences of scalar values; lower-casing and stemming return strings.\<close>

definition valid_text :: "text_env \<Rightarrow> bool" where
  "valid_text env \<longleftrightarrow> (\<forall>c. scalar c \<longrightarrow> list_all scalar (te_lower env c))
     \<and> (\<forall>l t. list_all scalar t \<longrightarrow> list_all scalar (te_stem env l t))"

lemma tokenize_scalar:
  assumes "valid_text env" "list_all scalar s" "t \<in> set (tokenize env tk s)"
  shows "list_all scalar t"
proof -
  have "list_all scalar cur \<Longrightarrow> (\<forall>t \<in> set ts. list_all scalar t)
    \<Longrightarrow> (\<forall>t \<in> set (fst (foldl (token_step env fd) (ts, cur) s)). list_all scalar t) \<and> list_all scalar (snd (foldl (token_step env fd) (ts, cur) s))"
    for ts cur fd
    using assms(2)
  proof (induction s arbitrary: ts cur)
    case (Cons c s)
    have low: "list_all scalar (te_lower env c)" using assms(1) Cons.prems(3) by (simp add: valid_text_def)
    obtain ts' cur' where st: "token_step env fd (ts, cur) c = (ts', cur')" by (cases "token_step env fd (ts, cur) c")
    have "list_all scalar cur'" "\<forall>t \<in> set ts'. list_all scalar t"
      using st [symmetric] low Cons.prems by (auto simp: token_step_def split: if_splits)
    then show ?case using Cons.IH [of cur' ts'] Cons.prems(3) st by simp
  qed simp
  note fold = this [of "[]" "[]"]
  have "list_all scalar u" if "u \<in> set (tokenize_with env s fd)" for fd u
    using fold [of fd] that by (cases "foldl (token_step env fd) ([], []) s") (auto simp: tokenize_with_def split: if_splits)
  moreover obtain u where "u \<in> set (tokenize_with env s (tk_case_fold tk))" "t = (case tk_stemmer tk of Some l \<Rightarrow> te_stem env l u | None \<Rightarrow> u)"
    using assms(3) by (auto simp: tokenize_def)
  ultimately show ?thesis using assms(1) by (cases "tk_stemmer tk") (auto simp: valid_text_def)
qed

section \<open>What the builder collects\<close>

definition scalar_keys :: "term_postings \<Rightarrow> bool" where
  "scalar_keys m \<longleftrightarrow> (\<forall>p \<in> set m. list_all scalar (fst p))"

abbreviation key_sorted :: "term_postings \<Rightarrow> bool" where
  "key_sorted m \<equiv> sorted_wrt (<) (map (utf8_bytes \<circ> fst) m)"

lemma posting_insert_keys: "fst ` set (posting_insert t d m) \<subseteq> insert t (fst ` set m)"
  by (induction t d m rule: posting_insert.induct) auto

lemma posting_insert_sorted: "key_sorted m \<Longrightarrow> key_sorted (posting_insert t d m)"
proof (induction t d m rule: posting_insert.induct)
  case (2 t d u s m)
  have below: "utf8_bytes t < utf8_bytes v" if "utf8_bytes t < utf8_bytes u" "v \<in> fst ` set m" for v
    using 2(2) that by (auto intro: order.strict_trans)
  show ?case
  proof (cases "utf8_bytes t < utf8_bytes u \<or> utf8_bytes t = utf8_bytes u")
    case True
    then show ?thesis using 2(2) below by auto
  next
    case False
    then have "utf8_bytes u < utf8_bytes t" by auto
    moreover have "\<forall>v \<in> fst ` set m. utf8_bytes u < utf8_bytes v" using 2(2) by simp
    ultimately have "\<forall>v \<in> fst ` set (posting_insert t d m). utf8_bytes u < utf8_bytes v"
      using posting_insert_keys [of t d m] by blast
    then show ?thesis using 2 False by simp
  qed
qed simp

lemma posting_insert_map:
  assumes "key_sorted m" "scalar_keys m" "list_all scalar t"
  shows "map_of (posting_insert t d m) = (map_of m)(t \<mapsto> insert d (case map_of m t of None \<Rightarrow> {} | Some s \<Rightarrow> s))"
  using assms
proof (induction t d m rule: posting_insert.induct)
  case (2 t d u s m)
  have sc: "list_all scalar u" "scalar_keys m" using 2(3) by (simp_all add: scalar_keys_def)
  note eq = utf8_bytes_inj [OF 2(4) sc(1)]
  show ?case
  proof (cases "utf8_bytes t < utf8_bytes u")
    case True
    have "t \<notin> fst ` set ((u, s) # m)" using 2(2) True by force
    then have "map_of m t = None" "t \<noteq> u" by (simp_all add: map_of_eq_None_iff)
    then show ?thesis using True by (simp add: fun_eq_iff)
  next
    case False
    then show ?thesis
    proof (cases "t = u")
      case neq: False
      then have "map_of (posting_insert t d m) = (map_of m)(t \<mapsto> insert d (case map_of m t of None \<Rightarrow> {} | Some s \<Rightarrow> s))"
        by (intro 2(1)) (use 2(2,4) sc(2) eq False neq in simp_all)
      then show ?thesis using False neq eq by (auto simp: fun_eq_iff)
    qed (simp add: fun_eq_iff)
  qed
qed simp

text \<open>The documents that hold a token.\<close>

definition holders :: "text_env \<Rightarrow> tokenizer \<Rightarrow> (nat \<times> rstring) list \<Rightarrow> rstring \<Rightarrow> nat set" where
  "holders env tk corpus t = {d. \<exists>body. (d, body) \<in> set corpus \<and> t \<in> set (tokenize env tk body)}"

definition vocabulary :: "text_env \<Rightarrow> tokenizer \<Rightarrow> (nat \<times> rstring) list \<Rightarrow> rstring set" where
  "vocabulary env tk corpus = (\<Union>(d, body) \<in> set corpus. set (tokenize env tk body))"

lemma holders_empty: "holders env tk corpus t = {} \<longleftrightarrow> t \<notin> vocabulary env tk corpus"
  by (auto simp: holders_def vocabulary_def)

definition collects :: "term_postings \<Rightarrow> (rstring \<Rightarrow> nat set) \<Rightarrow> bool" where
  "collects m H \<longleftrightarrow> key_sorted m \<and> scalar_keys m \<and> map_of m = (\<lambda>t. if H t = {} then None else Some (H t))"

lemma collects_insert:
  assumes "collects m H" "list_all scalar t"
  shows "collects (posting_insert t d m) (H(t := insert d (H t)))"
proof -
  have "scalar_keys (posting_insert t d m)"
    using assms posting_insert_keys [of t d m] by (fastforce simp: collects_def scalar_keys_def)
  then show ?thesis
    using assms posting_insert_sorted [of m t d] posting_insert_map [of m t d] by (auto simp: collects_def fun_eq_iff)
qed

lemma collects_tokens:
  assumes "collects m H" "\<forall>t \<in> set ts. list_all scalar t"
  shows "collects (foldl (\<lambda>m t. posting_insert t d m) m ts) (\<lambda>t. if t \<in> set ts then insert d (H t) else H t)"
  using assms
proof (induction ts arbitrary: m H)
  case (Cons t ts)
  have "collects (posting_insert t d m) (H(t := insert d (H t)))" using Cons.prems by (intro collects_insert) simp_all
  from Cons.IH [OF this] Cons.prems(2)
  have "collects (foldl (\<lambda>m t. posting_insert t d m) m (t # ts)) (\<lambda>u. if u \<in> set ts then insert d ((H(t := insert d (H t))) u) else (H(t := insert d (H t))) u)"
    by simp
  moreover have "(\<lambda>u. if u \<in> set ts then insert d ((H(t := insert d (H t))) u) else (H(t := insert d (H t))) u)
    = (\<lambda>u. if u \<in> set (t # ts) then insert d (H u) else H u)" by (auto simp: fun_eq_iff)
  ultimately show ?case by simp
qed simp

lemma tb_add_simps [simp]:
  "tb_postings (tb_add env b (d, body)) = foldl (\<lambda>m t. posting_insert t d m) (tb_postings b) (tokenize env (tb_tokenizer b) body)"
  "tb_tokenizer (tb_add env b x) = tb_tokenizer b" "tb_config (tb_add env b x) = tb_config b"
  by (simp_all add: tb_add_def case_prod_beta)

lemma builder_collects:
  fixes cfg :: term_config
  assumes "valid_text env" "\<forall>(d, body) \<in> set corpus. list_all scalar body"
  defines "b \<equiv> foldl (tb_add env) (tb_new cfg) corpus"
    and "tk \<equiv> tokenizer_with (tc_language cfg) (tc_stem cfg) (tc_stopwords cfg) (\<not> tc_case_sensitive cfg)"
  shows "collects (tb_postings b) (holders env tk corpus)" "tb_config b = cfg"
proof -
  have "tb_tokenizer b = tk \<and> tb_config b = cfg \<and> collects (tb_postings b) (holders env tk corpus)"
    using assms(2) unfolding b_def
  proof (induction corpus rule: rev_induct)
    case Nil
    show ?case by (simp add: tb_new_def tk_def collects_def scalar_keys_def holders_def)
  next
    case (snoc x corpus)
    obtain d body where x: "x = (d, body)" by (cases x)
    let ?b = "foldl (tb_add env) (tb_new cfg) corpus"
    have ih: "tb_tokenizer ?b = tk" "tb_config ?b = cfg" "collects (tb_postings ?b) (holders env tk corpus)" using snoc by simp_all
    have "collects (tb_postings (tb_add env ?b (d, body))) (\<lambda>t. if t \<in> set (tokenize env tk body) then insert d (holders env tk corpus t) else holders env tk corpus t)"
      using collects_tokens [OF ih(3), of "tokenize env tk body" d] tokenize_scalar [OF assms(1), of body _ tk] snoc.prems x ih(1)
      by auto
    moreover have "(\<lambda>t. if t \<in> set (tokenize env tk body) then insert d (holders env tk corpus t) else holders env tk corpus t)
      = holders env tk (corpus @ [x])" by (auto simp: holders_def x fun_eq_iff)
    ultimately show ?case using ih x by simp
  qed
  then show "collects (tb_postings b) (holders env tk corpus)" "tb_config b = cfg" by simp_all
qed

section \<open>Resolving tokens over the written file\<close>

text \<open>Rows of a dictionary against the postings they were written from.\<close>

lemma rows_lookup:
  assumes "list_all2 P es (map snd ps)" "map fst es = map (utf8_bytes \<circ> fst) ps" "scalar_keys ps" "list_all scalar t"
  shows "case map_of es (utf8_bytes t) of
      None \<Rightarrow> map_of ps t = None
    | Some loc \<Rightarrow> \<exists>s. map_of ps t = Some s \<and> P (utf8_bytes t, loc) s"
  using assms(1-3)
proof (induction es arbitrary: ps)
  case (Cons e es)
  then obtain u s ps' where ps: "ps = (u, s) # ps'" by (cases ps) auto
  have e: "e = (utf8_bytes u, snd e)" using Cons.prems(2) ps by (simp add: prod_eq_iff)
  have u: "list_all scalar u" "scalar_keys ps'" using Cons.prems(3) ps by (simp_all add: scalar_keys_def)
  have ih: "case map_of es (utf8_bytes t) of None \<Rightarrow> map_of ps' t = None | Some loc \<Rightarrow> \<exists>s. map_of ps' t = Some s \<and> P (utf8_bytes t, loc) s"
    using Cons ps u(2) by simp
  show ?case
  proof (cases "t = u")
    case True
    then have "map_of (e # es) (utf8_bytes t) = Some (snd e)" "map_of ps t = Some s" "P (utf8_bytes t, snd e) s"
      using e ps Cons.prems(1) by (metis map_of_Cons_code(2), simp, simp)
    then show ?thesis by simp
  next
    case False
    then have "map_of (e # es) (utf8_bytes t) = map_of es (utf8_bytes t)" "map_of ps t = map_of ps' t"
      using e ps utf8_bytes_inj [OF assms(4) u(1)] by (metis map_of_Cons_code(2), simp)
    then show ?thesis using ih by (simp only:)
  qed
qed simp

lemma query_terms_set [simp]: "set (query_terms env ti q) = set (tokenize env (ti_tokenizer ti) q)"
  by (simp add: query_terms_def)

lemma map_filter_all: "\<forall>x \<in> set xs. f x \<noteq> None \<Longrightarrow> List.map_filter f xs = map (the \<circ> f) xs"
  by (induction xs) (auto simp: map_filter_simps)

definition search_spec :: "(rstring \<Rightarrow> nat set) \<Rightarrow> rstring list \<Rightarrow> nat \<Rightarrow> nat list" where
  "search_spec H ts limit = (if ts = [] then [] else first_docs limit (\<Inter>(H ` set ts)))"

context posting_store
begin

lemma ti_search_ok:
  assumes tf: "term_file um content ser ti gs (map snd ps)" and keys: "map fst (concat gs) = map (utf8_bytes \<circ> fst) ps"
    and col: "collects ps H" and sc: "\<forall>t \<in> set (tokenize env (ti_tokenizer ti) q). list_all scalar t"
    and lim: "length content < lim"
  shows "ti_search um env deser fetch ti q limit = Ok (search_spec H (tokenize env (ti_tokenizer ti) q) limit)"
proof -
  let ?ts = "query_terms env ti q" and ?P = "posting_at content ser (ti_postings_offset ti) (ti_head_boundary ti)"
  have f: "list_all2 ?P (concat gs) (map snd ps)" "length content < um" "um \<le> U64" using tf by (simp_all add: term_file_def)
  have col': "scalar_keys ps" "\<And>t. map_of ps t = (if H t = {} then None else Some (H t))" using col by (simp_all add: collects_def)
  have look: "case term_loc gs t of None \<Rightarrow> H t = {} | Some loc \<Rightarrow> H t \<noteq> {} \<and> ?P (utf8_bytes t, loc) (H t)"
    if "t \<in> set ?ts" for t
    using rows_lookup [OF f(1) keys col'(1), of t] sc that col'(2) [of t] by (auto split: option.splits if_splits)
  note resolve = resolve_locs_ok [OF tf lim, of ?ts False]
  consider "limit = 0" | "?ts = []" | (absent) t where "t \<in> set ?ts" "term_loc gs t = None" "0 < limit"
    | (all) "?ts \<noteq> []" "\<forall>t \<in> set ?ts. term_loc gs t \<noteq> None" "0 < limit" by blast
  then show ?thesis
  proof cases
    case 2
    then have "tokenize env (ti_tokenizer ti) q = []" by (metis query_terms_set set_empty)
    then show ?thesis using 2 by (simp add: ti_search_def search_spec_def)
  next
    case absent
    have "H t = {}" using look [OF absent(1)] absent(2) by simp
    then have "\<Inter>(H ` set (tokenize env (ti_tokenizer ti) q)) = {}" using absent(1) by auto
    moreover have "?ts \<noteq> []" using absent(1) by (metis list.set(1) empty_iff)
    ultimately show ?thesis using absent resolve by (auto simp: ti_search_def search_spec_def first_docs_def)
  next
    case all
    let ?locs = "map (\<lambda>t. the (term_loc gs t)) ?ts"
    have locs: "List.map_filter (term_loc gs) ?ts = ?locs" using map_filter_all [OF all(2)] by (simp add: comp_def)
    have "list_all2 (\<lambda>loc s. \<exists>k. ?P (k, loc) s) ?locs (map H ?ts)"
      using look all(2) by (fastforce simp: list_all2_map1 list_all2_map2 list_all2_same)
    then have "and_locs um deser fetch ti ?locs limit = Ok (first_docs limit (\<Inter>(set (map H ?ts))))"
      using all(1) f(2,3) lim by (intro and_locs_ok) simp_all
    moreover have "tokenize env (ti_tokenizer ti) q \<noteq> []" using all(1) by (metis query_terms_set set_empty)
    ultimately show ?thesis using all resolve locs by (simp add: ti_search_def search_spec_def)
  qed (simp add: ti_search_def search_spec_def first_docs_def)
qed

end

section \<open>Terms with a prefix\<close>

definition prefixed :: "rstring \<Rightarrow> rstring \<Rightarrow> bool" where
  "prefixed p t \<longleftrightarrow> take (length p) t = p"

text \<open>The terms of a vocabulary that begin with a string, in the order of their bytes.\<close>

definition matching_terms :: "rstring set \<Rightarrow> rstring \<Rightarrow> rstring list \<Rightarrow> bool" where
  "matching_terms V p ts \<longleftrightarrow> sorted_wrt (<) (map utf8_bytes ts) \<and> set ts = {t \<in> V. prefixed p t}"

lemma prefix_rows_postings:
  assumes "list_all2 P es (map snd ps)" "map fst es = map (utf8_bytes \<circ> fst) ps" "scalar_keys ps" "list_all scalar p"
  shows "list_all2 P (prefix_rows (utf8_bytes p) es) (map snd (filter (prefixed p \<circ> fst) ps))
    \<and> map fst (prefix_rows (utf8_bytes p) es) = map (utf8_bytes \<circ> fst) (filter (prefixed p \<circ> fst) ps)"
  using assms(1-3)
proof (induction es arbitrary: ps)
  case (Cons e es)
  then obtain u s ps' where ps: "ps = (u, s) # ps'" by (cases ps) auto
  have u: "list_all scalar u" "scalar_keys ps'" using Cons.prems(3) ps by (simp_all add: scalar_keys_def)
  have "has_prefix (utf8_bytes p) e \<longleftrightarrow> prefixed p u"
    using Cons.prems(2) ps utf8_prefix [OF assms(4) u(1)] by (simp add: has_prefix_def prefixed_def)
  then show ?case using Cons ps u(2) by (simp add: prefix_rows_def)
qed (simp add: prefix_rows_def)

lemma key_sorted_distinct: "key_sorted ps \<Longrightarrow> distinct (map fst ps)"
  using strict_sorted_iff [of "map (utf8_bytes \<circ> fst) ps"] by (metis distinct_map map_map)

lemma collected:
  assumes "collects ps H"
  shows "(t, s) \<in> set ps \<longleftrightarrow> s = H t \<and> H t \<noteq> {}"
proof -
  have m: "key_sorted ps" "map_of ps t = (if H t = {} then None else Some (H t))" using assms by (simp_all add: collects_def)
  show ?thesis
    using m(2) map_of_eq_Some_iff [OF key_sorted_distinct [OF m(1)], of t s] by (simp split: if_splits) blast
qed

lemma collected_matches:
  assumes "collects ps H"
  shows "matching_terms {t. H t \<noteq> {}} p (map fst (filter (prefixed p \<circ> fst) ps))"
    "map snd (filter (prefixed p \<circ> fst) ps) = map H (map fst (filter (prefixed p \<circ> fst) ps))"
proof -
  have m: "key_sorted ps" using assms by (simp add: collects_def)
  note el = collected [OF assms]
  have "sorted_wrt (<) (map (utf8_bytes \<circ> fst) (filter (prefixed p \<circ> fst) ps))"
    using m unfolding sorted_wrt_map by (rule sorted_wrt_filter)
  then show "matching_terms {t. H t \<noteq> {}} p (map fst (filter (prefixed p \<circ> fst) ps))"
    using el by (auto simp: matching_terms_def image_iff) 
  show "map snd (filter (prefixed p \<circ> fst) ps) = map H (map fst (filter (prefixed p \<circ> fst) ps))"
    using el by auto
qed

lemma fold_prefix_scalar: "valid_text env \<Longrightarrow> list_all scalar p \<Longrightarrow> list_all scalar (fold_prefix env ti p)"
  unfolding fold_prefix_def valid_text_def by (induction p) (simp_all split: if_splits)

definition prefix_spec :: "(rstring \<Rightarrow> nat set) \<Rightarrow> rstring list \<Rightarrow> nat \<Rightarrow> nat list \<times> bool" where
  "prefix_spec H ts limit =
     (if limit = 0 then ([], False)
      else (first_docs limit (\<Union>(H ` set (take max_prefix_terms ts))), length ts > max_prefix_terms))"

context posting_store
begin

lemma ti_prefix_ok:
  assumes tf: "term_file um content ser ti gs (map snd ps)" and keys: "map fst (concat gs) = map (utf8_bytes \<circ> fst) ps"
    and col: "collects ps H" and sc: "list_all scalar (fold_prefix env ti p)" and lim: "length content < lim"
  defines "ts \<equiv> map fst (filter (prefixed (fold_prefix env ti p) \<circ> fst) ps)"
  shows "ti_complete um env fetch ti p n = Ok (take n ts)"
    "search_prefix_capped um env deser fetch ti p limit = Ok (prefix_spec H ts limit)"
proof -
  let ?P = "posting_at content ser (ti_postings_offset ti) (ti_head_boundary ti)" and ?q = "fold_prefix env ti p"
  let ?rows = "prefix_rows (utf8_bytes ?q) (concat gs)"
  have f: "list_all2 ?P (concat gs) (map snd ps)" "length content < um" "um \<le> U64" using tf by (simp_all add: term_file_def)
  have sk: "scalar_keys ps" using col by (simp add: collects_def)
  have rows: "list_all2 ?P ?rows (map H ts)" "map fst ?rows = map utf8_bytes ts"
    using prefix_rows_postings [OF f(1) keys sk sc] collected_matches(2) [OF col, of ?q] by (simp_all add: ts_def)
  have lts: "length ?rows = length ts" using arg_cong [OF rows(2), of length] by simp
  have "\<forall>t \<in> set ts. list_all scalar t" using sk by (auto simp: ts_def scalar_keys_def)
  then have "map utf8_lossy (map utf8_bytes ts) = ts" unfolding map_map by (intro map_idI) (simp add: utf8_lossy_bytes)
  then have decoded: "map (utf8_lossy \<circ> fst) ?rows = ts" using rows(2) by (metis map_map)
  note scan = scan_prefix_ok [OF tf lim, of ?q]
  show "ti_complete um env fetch ti p n = Ok (take n ts)"
    using decoded by (simp add: ti_complete_def scan take_rows_def flip: take_map)
  let ?locs = "map snd (take max_prefix_terms ?rows)"
  have pl: "prefix_locs um fetch ti ?q = Ok (?locs, length ts > max_prefix_terms)"
    by (simp add: prefix_locs_def scan take_rows_def lts take_map)
  have "list_all2 ?P (take max_prefix_terms ?rows) (take max_prefix_terms (map H ts))" by (rule list_all2_takeI [OF rows(1)])
  then have "list_all2 (\<lambda>loc s. \<exists>k. ?P (k, loc) s) ?locs (take max_prefix_terms (map H ts))"
    unfolding list_all2_map1 by (rule list_all2_mono) (metis prod.collapse)
  from union_locs_ok [OF this lim f(2,3)]
  have "union_locs um deser fetch ti ?locs limit = Ok (first_docs limit (\<Union>(H ` set (take max_prefix_terms ts))))"
    by (simp add: take_map)
  then show "search_prefix_capped um env deser fetch ti p limit = Ok (prefix_spec H ts limit)"
    by (simp add: search_prefix_capped_def prefix_spec_def pl)
qed

end

section \<open>A codec for FST maps\<close>

lemma uvarint_length: "v < 2 ^ (7 * Suc n) \<Longrightarrow> length (write_uvarint v) \<le> Suc n"
proof (induction n arbitrary: v)
  case 0
  then have "drop_bit 7 v = 0" by (simp add: drop_bit_eq_div)
  then show ?case by (subst write_uvarint.simps) (simp add: Let_def)
next
  case (Suc n)
  have "drop_bit 7 v < 2 ^ (7 * Suc n)"
    using Suc.prems by (simp add: drop_bit_eq_div div_less_iff_less_mult power_add)
  then show ?case using Suc.IH by (subst write_uvarint.simps) (simp add: Let_def)
qed

lemma uvarint_length_U64: "v < U64 \<Longrightarrow> length (write_uvarint v) \<le> 10"
  using uvarint_length [of v 9] by simp

text \<open>
  A codec that accepts every byte string: a map is stored as a dictionary block; the streams of
  bytes that hold a value of more than 64 bits panic at once, and the checksum fails on those.
\<close>

definition codec_entries :: "bytes \<Rightarrow> (bytes \<times> nat) list" where
  "codec_entries bs = map (\<lambda>(k, _, v). (k, v)) (iter_block U64 bs)"

definition codec_sound :: "bytes \<Rightarrow> bool" where
  "codec_sound bs \<longleftrightarrow> (\<forall>(k, v) \<in> set (codec_entries bs). v < U64)"

definition list_codec :: "(bytes \<times> nat) list fst_api" where
  "list_codec = \<lparr>fa_memory = [],
     fa_insert = (\<lambda>m k v. if m = [] \<or> fst (last m) < k then Some (m @ [(k, v)]) else None),
     fa_finish = (\<lambda>m. Some (enc_block (map (\<lambda>(k, v). (k, 0, v)) m))),
     fa_new = (\<lambda>bs. Some (if codec_sound bs then fst_of (codec_entries bs) else \<lparr>fm_stream = [None], fm_ge = (\<lambda>_. [None])\<rparr>)),
     fa_verify = codec_sound\<rparr>"

lemma list_codec_guards: "checksum_guards list_codec bs"
  by (auto simp: checksum_guards_def list_codec_def fst_clean_def fst_of_def)

lemma list_codec_inserts:
  "sorted_wrt (<) (map fst (m @ kvs)) \<Longrightarrow> fst_inserts list_codec m kvs = Some (m @ kvs)"
proof (induction kvs arbitrary: m)
  case (Cons p kvs)
  obtain k v where p: "p = (k, v)" by (cases p)
  have "m = [] \<or> fst (last m) < k" using Cons.prems p by (cases m rule: rev_cases) (auto simp: sorted_wrt_append)
  then show ?case using Cons.IH [of "m @ [p]"] Cons.prems p by (simp add: list_codec_def)
qed simp

lemma codec_length:
  assumes "\<forall>(k, v) \<in> set kvs. length k < U64 \<and> v < U64"
  shows "length (enc_block (map (\<lambda>(k, v). (k, 0, v)) kvs)) \<le> sum_list (map (\<lambda>(k, v). length k + 64) kvs)"
proof -
  have entry: "length (enc_entry first prev 0 (k, 0, v)) \<le> length k + 64" if "length k < U64" "v < U64" for first prev k v
  proof -
    let ?sh = "if first then 0 else common_prefix prev k"
    have sh: "?sh \<le> length k" using common_prefix [of prev k] by simp
    have "length (write_uvarint ?sh) \<le> 10" "length (write_uvarint (length k - ?sh)) \<le> 10"
      using that sh by (intro uvarint_length_U64; linarith)+
    then show ?thesis
      using sh uvarint_length_U64 [of 0] uvarint_length_U64 [OF that(2)] by (cases first) (simp_all add: enc_entry_def Let_def)
  qed
  have "length (enc_from first prev 0 (map (\<lambda>(k, v). (k, 0, v)) kvs)) \<le> sum_list (map (\<lambda>(k, v). length k + 64) kvs)" for first prev
    using assms entry by (induction kvs arbitrary: first prev) (auto intro: add_mono)
  from this [of True "[]"] show ?thesis by (simp add: enc_block_def)
qed

lemma list_codec_decodes:
  assumes "fst_fits kvs"
  shows "iter_block U64 (enc_block (map (\<lambda>(k, v). (k, 0, v)) kvs)) = map (\<lambda>(k, v). (k, 0, v)) kvs"
proof (rule iter_enc_block)
  let ?es = "map (\<lambda>(k, v). (k, 0, v)) kvs"
  have f: "\<forall>(k, v) \<in> set kvs. v < U64" "sum_list (map (\<lambda>(k, v). length k + 64) kvs) < U64"
    using assms by (simp_all add: fst_fits_def)
  have k: "length (fst p) + 64 < U64" if "p \<in> set kvs" for p
  proof -
    have "length (fst p) + 64 \<le> sum_list (map (\<lambda>(k, v). length k + 64) kvs)" using that by (intro member_le_sum_list) (force simp: image_iff case_prod_beta)+
    then show ?thesis using f(2) by simp
  qed
  then show "list_all (entry_fits U64) ?es" using f(1) by (fastforce simp: list_all_iff entry_fits_def)
  show "offsets_ascend 0 ?es" by (induction kvs) auto
  have "\<forall>(k, v) \<in> set kvs. length k < U64 \<and> v < U64" using k f(1) by fastforce
  from codec_length [OF this] show "length (enc_block ?es) < U64" using f(2) by simp
qed simp

interpretation listfst: fst_maps list_codec
proof
  fix kvs assume f: "fst_fits kvs"
  then have "fst_inserts list_codec (fa_memory list_codec) kvs = Some kvs"
    using list_codec_inserts [of "[]" kvs] by (simp add: fst_fits_def list_codec_def)
  moreover have "codec_entries (enc_block (map (\<lambda>(k, v). (k, 0, v)) kvs)) = kvs"
    using list_codec_decodes [OF f] by (simp add: codec_entries_def comp_def case_prod_beta)
  ultimately show "\<exists>b bs. fst_inserts list_codec (fa_memory list_codec) kvs = Some b \<and> fa_finish list_codec b = Some bs
      \<and> fa_new list_codec bs = Some (fst_of kvs) \<and> fa_verify list_codec bs"
    using f by (auto simp: list_codec_def fst_fits_def codec_sound_def)
next
  fix bs m k v lo assume "fa_new list_codec bs = Some m" "Some (k, v) \<in> set (fm_stream m) \<union> set (fm_ge m lo)"
  then show "v < U64" by (auto simp: list_codec_def fst_of_def codec_sound_def split: if_split_asm)
qed

section \<open>Indexes written from documents\<close>

definition cfg_tokenizer :: "term_config \<Rightarrow> tokenizer" where
  "cfg_tokenizer cfg = tokenizer_with (tc_language cfg) (tc_stem cfg) (tc_stopwords cfg) (\<not> tc_case_sensitive cfg)"

text \<open>
  Document numbers and the head boundary are \<open>u32\<close>, bodies are Rust strings, the vocabulary and the written file fit the
  address space, and the router fits what a reader keeps resident.
\<close>

definition term_input :: "nat \<Rightarrow> text_env \<Rightarrow> term_config \<Rightarrow> (nat \<times> rstring) list \<Rightarrow> bool" where
  "term_input um env cfg corpus \<longleftrightarrow>
     valid_text env \<and> um \<le> U64 \<and> tc_head_boundary cfg < U32
     \<and> (\<forall>(d, body) \<in> set corpus. d < U32 \<and> list_all scalar body)
     \<and> (\<Sum>t \<in> vocabulary env (cfg_tokenizer cfg) corpus. length (utf8_bytes t) + 64) < um"

definition bootable :: "nat \<Rightarrow> bytes \<Rightarrow> bool" where
  "bootable um bs \<longleftrightarrow> length bs < um \<and> u64_at bs 16 \<le> max_resident_router"

lemma written_index:
  assumes "fst_maps api" "roaring deser ser" "term_input um env cfg corpus"
    and w: "write_term_index_with env api ser corpus cfg = Ok bs" and boot: "bootable um bs"
  obtains ti gs ps where "ti_open um api (mem_read um (mem_new bs)) = Ok ti" "term_file um bs ser ti gs (map snd ps)"
    "map fst (concat gs) = map (utf8_bytes \<circ> fst) ps" "collects ps (holders env (cfg_tokenizer cfg) corpus)"
    "\<forall>s. tokenize env (ti_tokenizer ti) s = tokenize env (cfg_tokenizer cfg) s"
    "tk_case_fold (ti_tokenizer ti) \<longleftrightarrow> \<not> tc_case_sensitive cfg" "length ps < U32"
    "sorted_wrt (<) (map (\<lambda>e. fst (snd e)) (concat gs))"
proof -
  let ?b = "foldl (tb_add env) (tb_new cfg) corpus" and ?H = "holders env (cfg_tokenizer cfg) corpus"
  define ps where "ps = tb_postings ?b"
  have inp: "valid_text env" "um \<le> U64" "tc_head_boundary cfg < U32" "\<forall>(d, body) \<in> set corpus. list_all scalar body"
    "\<forall>(d, body) \<in> set corpus. d < U32" "(\<Sum>t \<in> vocabulary env (cfg_tokenizer cfg) corpus. length (utf8_bytes t) + 64) < um"
    using assms(3) by (auto simp: term_input_def)
  have col: "collects ps ?H" and cfg: "tb_config ?b = cfg"
    unfolding ps_def cfg_tokenizer_def by (rule builder_collects [OF inp(1,4)])+
  have asc: "key_sorted ps" using col by (simp add: collects_def)
  have w': "write_term_index_from_postings api ser cfg ps = Ok bs"
    using w cfg by (simp add: write_term_index_with_def tb_finish_def ps_def)
  have el: "snd p = ?H (fst p) \<and> ?H (fst p) \<noteq> {}" if "p \<in> set ps" for p using collected [OF col] that by (cases p) simp
  have ids: "\<forall>p \<in> set ps. snd p \<subseteq> {..<U32}" using el inp(5) by (fastforce simp: holders_def)
  have "t \<in> fst ` set ps \<longleftrightarrow> t \<in> vocabulary env (cfg_tokenizer cfg) corpus" for t
    by (simp add: image_iff Bex_def split_paired_Ex collected [OF col] holders_empty)
  then have "fst ` set ps = vocabulary env (cfg_tokenizer cfg) corpus" by blast
  moreover have "distinct (map fst ps)" by (rule key_sorted_distinct [OF asc])
  ultimately have vocab: "sum_list (map (\<lambda>p. length (utf8_bytes (fst p)) + 64) ps) < um"
    using inp(6) sum_list_distinct_conv_sum_set [of "map fst ps" "\<lambda>t. length (utf8_bytes t) + 64"] by (simp add: comp_def)
  have b: "length bs < um" "u64_at bs 16 \<le> max_resident_router" using boot by (simp_all add: bootable_def)
  obtain ti gs where t: "ti_open um api (mem_read um (mem_new bs)) = Ok ti" "term_file um bs ser ti gs (map snd ps)"
    "map fst (concat gs) = map (utf8_bytes \<circ> fst) ps" "ti_term_count ti = length ps" "ti_head_boundary ti = tc_head_boundary cfg"
    "\<forall>env s. tokenize env (ti_tokenizer ti) s
       = tokenize env (tokenizer_with (tc_language cfg) (tc_stem cfg) (tc_stopwords cfg) (\<not> tc_case_sensitive cfg)) s"
    "tk_case_fold (ti_tokenizer ti) \<longleftrightarrow> \<not> tc_case_sensitive cfg" "length ps < U32"
    "sorted_wrt (<) (map (\<lambda>e. fst (snd e)) (concat gs))"
    by (rule written_terms [OF assms(1,2) w' asc ids b(1) inp(2,3) b(2) vocab])
  show thesis by (rule that [OF t(1-3) col]) (use t(6-9) in \<open>simp_all add: cfg_tokenizer_def\<close>)
qed

section \<open>Properties\<close>

definition demo_env :: text_env where
  "demo_env = \<lparr>te_alnum = (\<lambda>c. 97 \<le> c \<and> c \<le> 122), te_lower = (\<lambda>c. [c]), te_stem = (\<lambda>l t. t), te_stops = (\<lambda>l. [])\<rparr>"
definition demo_corpus :: "(nat \<times> rstring) list" where
  "demo_corpus = [(3, [97, 32, 98]), (70000, [98])]"
definition demo_config :: term_config where
  "demo_config = \<lparr>tc_head_boundary = 5, tc_language = None, tc_stem = False, tc_stopwords = False, tc_case_sensitive = False, tc_block_cap = 0\<rparr>"

lemma demo_tokens:
  "tokenize demo_env (tokenizer_with None False False True) [97, 32, 98] = [[97], [98]]"
  "tokenize demo_env (tokenizer_with None False False True) [98] = [[98]]"
  by (simp_all add: demo_env_def tokenize_def tokenizer_with_def tokenize_with_def token_step_def)

lemma demo_built: "foldl (tb_add demo_env) (tb_new demo_config) demo_corpus
  = \<lparr>tb_postings = [([97], {3}), ([98], {70000, 3})], tb_tokenizer = tokenizer_with None False False True, tb_config = demo_config\<rparr>"
  by (simp add: demo_corpus_def tb_new_def tb_add_def demo_config_def demo_tokens utf8_bytes_def utf8_char_def)

lemma demo_encodings: "length (format_encode {}) = 8" "length (format_encode {3}) = 18" "length (format_encode {70000}) = 18"
  by (simp_all add: format_encode_def length_assemble data_start_def encode_piece_def encode_body_def Let_def)

lemma demo_varints: "write_uvarint 0 = [0]" "write_uvarint 1 = [1]" "write_uvarint (Suc 0) = [1]" "write_uvarint 18 = [18]" "write_uvarint 30 = [30]"
  by (subst write_uvarint.simps; simp add: Let_def drop_bit_eq_div)+

lemma demo_varint_lengths: "uvarint_len 0 = 1" "uvarint_len 1 = 1" "uvarint_len (Suc 0) = 1" "uvarint_len 18 = 1" "uvarint_len 30 = 1"
  by (subst uvarint_len.simps; simp)+


lemma demo_written:
  "\<exists>bs. write_term_index_with demo_env list_codec format_encode demo_corpus demo_config = Ok bs \<and> length bs < 1000 \<and> u64_at bs 16 < 1000"
proof -
  let ?rb = "enc_block [([98], 0, pack_loc 0 10)]"
  let ?P = "ascii ''RRTI'' @ to_le 2 rrti_version @ to_le 2 0 @ to_le 4 2 @ to_le 4 5"
  let ?R = "to_le 8 10 @ to_le 4 4096 @ [0, 0, 0, 0] @ ?rb @ [0, 1, 97, 0, 18, 0, 1, 98, 30, 18]
      @ to_le 4 8 @ format_encode {3} @ format_encode {} @ to_le 4 18 @ format_encode {3} @ format_encode {70000}"
  let ?bs = "?P @ to_le 8 (length ?rb) @ ?R"
  have tail: "{70000, 3} - {0..<5} = {70000 :: nat}" by auto
  have ten: "Suc (Suc (Suc (Suc (Suc (Suc (Suc (Suc (Suc (Suc 0))))))))) = 10" "Suc (Suc 0) = 2" by simp_all
  have w: "write_term_index_with demo_env list_codec format_encode demo_corpus demo_config = Ok ?bs"
    unfolding write_term_index_with_def demo_built tb_finish_def
    by (simp add: write_term_index_from_postings_def split_posting_def Let_def tw_push_def tw_new_def bw_new_def demo_config_def
      demo_encodings bw_push_def bw_seal_full_def bw_flush_def utf8_bytes_def utf8_char_def size_bits_def entry_len_def demo_varints demo_varint_lengths default_block_cap_def
      tw_finish_meta_def bw_finish_def router_step_def list_codec_def header_flags_def header_language_def rrti_magic_def map_ok_Ok_iff tail ten)
  have rb: "length ?rb \<le> 65"
    using codec_length [of "[([98], pack_loc 0 10)]"] by (simp add: pack_loc_def)
  have "u64_at ?bs 16 = length ?rb" by (rule u64_at_mid) (use rb in simp_all)
  then show ?thesis using w rb demo_encodings by (intro exI [of _ ?bs]) simp
qed

lemma demo_written_boots:
  obtains bs where "write_term_index_with demo_env list_codec format_encode demo_corpus demo_config = Ok bs" "bootable U64 bs"
  using demo_written by (force simp: bootable_def max_resident_router_def)

lemma demo_cfg_tokenizer: "cfg_tokenizer demo_config = tokenizer_with None False False True"
  by (simp add: cfg_tokenizer_def demo_config_def)

lemma demo_input: "term_input U64 demo_env demo_config demo_corpus"
proof -
  have v: "vocabulary demo_env (cfg_tokenizer demo_config) demo_corpus = {[97], [98]}"
    by (auto simp: vocabulary_def demo_corpus_def demo_cfg_tokenizer demo_tokens)
  show ?thesis
    unfolding term_input_def v
    by (simp add: valid_text_def demo_env_def scalar_def demo_corpus_def demo_config_def utf8_bytes_def utf8_char_def)
qed

text \<open>
  C20: Searching a term index written from documents is exact: the file the builder writes opens, and
  a query is answered by the first documents, in ascending order up to the limit, that hold every
  token of the query; a query without tokens by none.  Tokens are those of the tokenizer the index
  was built with, restored from the header.
\<close>

theorem terms_search_exact:
  assumes "fst_maps api" "roaring deser ser" "term_input um env cfg corpus"
    and "write_term_index_with env api ser corpus cfg = Ok bs" "bootable um bs"
  shows "\<exists>ti. ti_open um api (mem_read um (mem_new bs)) = Ok ti
     \<and> (\<forall>query limit. list_all scalar query \<longrightarrow>
          ti_search um env deser (mem_read um (mem_new bs)) ti query limit
            = Ok (search_spec (holders env (cfg_tokenizer cfg) corpus) (tokenize env (cfg_tokenizer cfg) query) limit))"
proof -
  obtain ti gs ps where t: "ti_open um api (mem_read um (mem_new bs)) = Ok ti" "term_file um bs ser ti gs (map snd ps)"
    "map fst (concat gs) = map (utf8_bytes \<circ> fst) ps" "collects ps (holders env (cfg_tokenizer cfg) corpus)"
    "\<forall>s. tokenize env (ti_tokenizer ti) s = tokenize env (cfg_tokenizer cfg) s"
    "tk_case_fold (ti_tokenizer ti) \<longleftrightarrow> \<not> tc_case_sensitive cfg" "length ps < U32"
    "sorted_wrt (<) (map (\<lambda>e. fst (snd e)) (concat gs))"
    by (rule written_index [OF assms])
  have st: "posting_store (mem_read um (mem_new bs)) bs um deser ser"
    by (intro posting_store.intro memf.full_fetch_axioms assms(2))
  have "valid_text env" "length bs < um" using assms(3,5) by (simp_all add: term_input_def bootable_def)
  then show ?thesis
    using t(1) posting_store.ti_search_ok [OF st t(2-4)] tokenize_scalar by (fastforce simp: t(5) [rule_format])
qed

lemma terms_search_exact_witness:
  "\<exists>bs ti. write_term_index_with demo_env list_codec format_encode demo_corpus demo_config = Ok bs
     \<and> ti_open U64 list_codec (mem_read U64 (mem_new bs)) = Ok ti
     \<and> ti_search U64 demo_env format_decode (mem_read U64 (mem_new bs)) ti [97, 32, 98] 10 = Ok [3]"
proof -
  obtain bs where bs: "write_term_index_with demo_env list_codec format_encode demo_corpus demo_config = Ok bs" "bootable U64 bs"
    by (rule demo_written_boots)
  have h: "holders demo_env (tokenizer_with None False False True) demo_corpus [97] = {3}"
    "holders demo_env (tokenizer_with None False False True) demo_corpus [98] = {3, 70000}"
    by (auto simp: holders_def demo_corpus_def demo_tokens)
  have "list_all scalar [97, 32, 98]" by (simp add: scalar_def)
  then show ?thesis
    using terms_search_exact [OF listfst.fst_maps_axioms format.roaring_axioms demo_input bs] bs(1)
    by (fastforce simp: demo_cfg_tokenizer demo_tokens search_spec_def first_docs_def h)
qed

text \<open>
  C21: Prefix search and completion over a written term index are exact: with the terms of the
  documents that begin with the folded prefix in the order of their UTF-8 bytes, completion returns
  the first of them, and a prefix search the first documents of any of the first 2048, saying
  whether there are more terms.
\<close>

theorem terms_prefix_exact:
  assumes "fst_maps api" "roaring deser ser" "term_input um env cfg corpus"
    and "write_term_index_with env api ser corpus cfg = Ok bs" "bootable um bs" "list_all scalar p"
  shows "\<exists>ti ts. ti_open um api (mem_read um (mem_new bs)) = Ok ti
     \<and> matching_terms (vocabulary env (cfg_tokenizer cfg) corpus) (fold_text env (\<not> tc_case_sensitive cfg) p) ts
     \<and> (\<forall>n. ti_complete um env (mem_read um (mem_new bs)) ti p n = Ok (take n ts))
     \<and> (\<forall>limit. search_prefix_capped um env deser (mem_read um (mem_new bs)) ti p limit
          = Ok (prefix_spec (holders env (cfg_tokenizer cfg) corpus) ts limit))"
proof -
  obtain ti gs ps where t: "ti_open um api (mem_read um (mem_new bs)) = Ok ti" "term_file um bs ser ti gs (map snd ps)"
    "map fst (concat gs) = map (utf8_bytes \<circ> fst) ps" "collects ps (holders env (cfg_tokenizer cfg) corpus)"
    "\<forall>s. tokenize env (ti_tokenizer ti) s = tokenize env (cfg_tokenizer cfg) s"
    "tk_case_fold (ti_tokenizer ti) \<longleftrightarrow> \<not> tc_case_sensitive cfg" "length ps < U32"
    "sorted_wrt (<) (map (\<lambda>e. fst (snd e)) (concat gs))"
    by (rule written_index [OF assms(1-5)])
  have st: "posting_store (mem_read um (mem_new bs)) bs um deser ser"
    by (intro posting_store.intro memf.full_fetch_axioms assms(2))
  have "valid_text env" and lim: "length bs < um" using assms(3,5) by (simp_all add: term_input_def bootable_def)
  then have sc: "list_all scalar (fold_prefix env ti p)" using assms(6) by (intro fold_prefix_scalar)
  have fp: "fold_prefix env ti p = fold_text env (\<not> tc_case_sensitive cfg) p" by (simp add: fold_prefix_def fold_text_def t(6))
  have "{t. holders env (cfg_tokenizer cfg) corpus t \<noteq> {}} = vocabulary env (cfg_tokenizer cfg) corpus" by (auto simp: holders_empty)
  then show ?thesis
    using t(1) posting_store.ti_prefix_ok [OF st t(2-4) sc lim] collected_matches(1) [OF t(4), of "fold_prefix env ti p"]
    unfolding fp by auto
qed

lemma terms_prefix_exact_witness:
  "\<exists>bs ti. write_term_index_with demo_env list_codec format_encode demo_corpus demo_config = Ok bs
     \<and> ti_open U64 list_codec (mem_read U64 (mem_new bs)) = Ok ti
     \<and> ti_complete U64 demo_env (mem_read U64 (mem_new bs)) ti [98] 10 = Ok [[98]]
     \<and> search_prefix_capped U64 demo_env format_decode (mem_read U64 (mem_new bs)) ti [98] 10 = Ok ([3, 70000], False)"
proof -
  obtain bs where bs: "write_term_index_with demo_env list_codec format_encode demo_corpus demo_config = Ok bs" "bootable U64 bs"
    by (rule demo_written_boots)
  have h: "holders demo_env (tokenizer_with None False False True) demo_corpus [98] = {3, 70000}"
    by (auto simp: holders_def demo_corpus_def demo_tokens)
  have v: "vocabulary demo_env (tokenizer_with None False False True) demo_corpus = {[97], [98]}"
    by (auto simp: vocabulary_def demo_corpus_def demo_tokens)
  have f: "fold_text demo_env (\<not> tc_case_sensitive demo_config) [98] = [98]" by (simp add: fold_text_def demo_env_def demo_config_def)
  have only: "ts = [[98]]" if "matching_terms {[97], [98]} [98] ts" for ts
  proof -
    have "{t \<in> {[97], [98]}. prefixed [98] t} = {[98 :: nat]}" by (auto simp: prefixed_def)
    then have s: "set ts = {[98]}" "distinct (map utf8_bytes ts)"
      using that unfolding matching_terms_def strict_sorted_iff by (simp_all only: simp_thms)
    then have "distinct ts" by (simp add: distinct_map)
    from distinct_card [OF this] have "length ts = Suc 0" unfolding s(1) by simp
    then obtain t where "ts = [t]" by (cases ts) simp_all
    then show ?thesis using s(1) by (simp only: list.set singleton_insert_inj_eq')
  qed
  have "list_all scalar [98]" by (simp add: scalar_def)
  note exact = terms_prefix_exact [OF listfst.fst_maps_axioms format.roaring_axioms demo_input bs this, unfolded demo_cfg_tokenizer f v]
  obtain ti ts where t: "ti_open U64 list_codec (mem_read U64 (mem_new bs)) = Ok ti" "matching_terms {[97], [98]} [98] ts"
    "\<forall>n. ti_complete U64 demo_env (mem_read U64 (mem_new bs)) ti [98] n = Ok (take n ts)"
    "\<forall>limit. search_prefix_capped U64 demo_env format_decode (mem_read U64 (mem_new bs)) ti [98] limit
        = Ok (prefix_spec (holders demo_env (tokenizer_with None False False True) demo_corpus) ts limit)"
    using exact by (elim exE conjE) (rule that; assumption)
  have ts: "ts = [[98]]" by (rule only [OF t(2)])
  show ?thesis
    using bs(1) t(1,3,4) by (intro exI [of _ bs] exI [of _ ti]) (simp add: ts prefix_spec_def h first_docs_def max_prefix_terms_def)
qed

end
