(* ===== verification/RR_Terms_Safe.thy ===== *)
theory RR_Terms_Safe imports RR_Terms_Search begin

text \<open>
  The term index over arbitrary bytes: what booting establishes (\<open>ti_wf\<close>: the dictionary starts
  within the resident limit, no pull on the router panics and its locations have 64 bits), and that no
  dictionary and no postings make a call of the reader panic, on any width of \<open>usize\<close>.  What the
  crate \<open>fst\<close> does with a corrupted router is not assumed away: a pull on a map that was only
  accepted may panic, and it is the checksum verified at boot that rules this out.
\<close>

section \<open>What booting establishes\<close>

definition ti_wf :: "term_index \<Rightarrow> bool" where
  "ti_wf ti \<longleftrightarrow> ti_dict_start ti \<le> rrti_header + max_resident_router \<and> fst_clean (ti_router ti)
     \<and> (\<forall>k pk lo. Some (k, pk) \<in> set (fm_stream (ti_router ti)) \<union> set (fm_ge (ti_router ti) lo) \<longrightarrow> pk < U64)"

text \<open>The bytes of the router in a file or a boot region.\<close>

definition router_bytes :: "nat \<Rightarrow> bytes \<Rightarrow> bytes" where
  "router_bytes um bs = cut bs rrti_header (rrti_header + u64_at bs 16 mod um)"

lemma boot_len_cases:
  "rrti_boot_len um header \<noteq> Panic"
  "rrti_boot_len um header = Ok n \<Longrightarrow> rrti_header \<le> length header \<and> u64_at header 16 \<le> max_resident_router \<and> rrti_header \<le> n"
  by (auto simp: rrti_boot_len_def rrti_header_def bind_o_Panic_iff bind_o_Ok_iff checked_add_def split: if_splits)

lemma from_parts_no_panic: "rrti_header \<le> length header \<Longrightarrow> ti_from_parts api header rb \<noteq> Panic"
  by (auto simp: ti_from_parts_def rrti_header_def bind_o_Panic_iff Let_def)

lemma from_parts_wf:
  assumes "fst_maps api" "ti_from_parts api header rb = Ok ti" "u64_at header 16 \<le> max_resident_router" "checksum_guards api rb"
  shows "ti_wf ti"
proof -
  have p: "ti_dict_start ti = sat_add U64 rrti_header (u64_at header 16)" "fa_new api rb = Some (ti_router ti)" "fa_verify api rb"
    using assms(2) by (auto simp: ti_from_parts_def bind_o_Ok_iff Let_def split: if_splits)
  then have "fst_clean (ti_router ti)" using assms(4) by (simp add: checksum_guards_def)
  moreover have "pk < U64" if "Some (k, pk) \<in> set (fm_stream (ti_router ti)) \<union> set (fm_ge (ti_router ti) lo)" for k pk lo
    by (rule fst_maps.u64_values [OF assms(1) p(2) that])
  ultimately show ?thesis using assms(3) p(1) by (auto simp: ti_wf_def sat_add_def)
qed

lemma boot_len_value: "rrti_boot_len um header = Ok n \<Longrightarrow> n = rrti_header + u64_at header 16 mod um"
  by (auto simp: rrti_boot_len_def rrti_header_def bind_o_Ok_iff checked_add_def split: if_splits)

lemma ti_from_boot_safe:
  "ti_from_boot um api boot \<noteq> Panic"
  "fst_maps api \<Longrightarrow> ti_from_boot um api boot = Ok ti \<Longrightarrow> checksum_guards api (router_bytes um boot) \<Longrightarrow> ti_wf ti"
proof -
  have n: "rrti_header \<le> n" "rrti_header \<le> length boot" if "rrti_boot_len um boot = Ok n" for n
    using boot_len_cases(2) [OF that] by simp_all
  show "ti_from_boot um api boot \<noteq> Panic"
    using boot_len_cases(1) [of um boot] n from_parts_no_panic [of "cut boot 0 rrti_header" api]
    by (auto simp: ti_from_boot_def bind_o_Panic_iff)
  assume fa: "fst_maps api" and ok: "ti_from_boot um api boot = Ok ti" and guard: "checksum_guards api (router_bytes um boot)"
  obtain n where bl: "rrti_boot_len um boot = Ok n" and fp: "ti_from_parts api (cut boot 0 rrti_header) (cut boot rrti_header n) = Ok ti"
    using ok by (auto simp: ti_from_boot_def bind_o_Ok_iff split: if_splits)
  have "u64_at (cut boot 0 rrti_header) 16 = u64_at boot 16" using n(2) [OF bl] by (simp add: u64_at_cut rrti_header_def)
  moreover have "cut boot rrti_header n = router_bytes um boot" by (simp only: router_bytes_def boot_len_value [OF bl])
  ultimately show "ti_wf ti" using from_parts_wf [OF fa fp] boot_len_cases(2) [OF bl] guard by simp
qed

lemma router_loc_no_panic:
  assumes "ti_wf ti" "pull \<in> set (fm_stream (ti_router ti)) \<union> set (fm_ge (ti_router ti) lo)"
  shows "router_loc um ti pull \<noteq> Panic"
proof (cases pull)
  case None
  then show ?thesis using assms by (auto simp: ti_wf_def fst_clean_def)
next
  case (Some e)
  then obtain k pk where e: "pull = Some (k, pk)" by (cases e) simp
  then have "pk < U64" using assms by (auto simp: ti_wf_def)
  then have "pk div 2 ^ 24 < 2 ^ 40" by (simp add: div_less_iff_less_mult)
  moreover have "ti_dict_start ti \<le> 40 + 512 * 2 ^ 20"
    using assms(1) by (simp add: ti_wf_def rrti_header_def max_resident_router_def)
  ultimately show ?thesis
    by (simp add: e router_loc_def block_loc_def unpack_loc_def drop_bit_eq_div size_bits_def bind_o_Panic_iff)
qed

lemma block_range_for_no_panic: "ti_wf ti \<Longrightarrow> block_range_for um ti t \<noteq> Panic"
  using router_loc_no_panic [of ti _ "utf8_bytes t" um] by (auto simp: block_range_for_def split: list.splits)

lemma present_terms_no_panic: "ti_wf ti \<Longrightarrow> present_terms um ti lenient ts \<noteq> Panic"
  by (induction ts) (auto simp: bind_o_Panic_iff block_range_for_no_panic split: option.splits)

lemma scan_terms_no_panic:
  "length blocks = length unique \<Longrightarrow> snd ` set ps \<subseteq> set unique \<Longrightarrow> scan_terms um lenient unique blocks ps \<noteq> Panic"
proof (induction ps)
  case (Cons p ps)
  obtain t r where p: "p = (t, r)" by (cases p)
  obtain k where "position (\<lambda>u. u = r) unique = Some k" "k < length blocks"
    using Cons.prems p position_in_set [of r unique] by auto
  then show ?case using Cons p by (auto simp: or_panic_def split: option.splits)
qed simp

context range_fetch
begin

lemma ti_open_safe:
  "ti_open um api fetch \<noteq> Panic"
  "fst_maps api \<Longrightarrow> ti_open um api fetch = Ok ti \<Longrightarrow> checksum_guards api (router_bytes um content) \<Longrightarrow> ti_wf ti"
proof -
  show "ti_open um api fetch \<noteq> Panic"
    using boot_len_cases [of um] from_parts_no_panic fetch_no_panic
    by (fastforce simp: ti_open_def bind_o_Panic_iff)
  assume fa: "fst_maps api" and ok: "ti_open um api fetch = Ok ti" and guard: "checksum_guards api (router_bytes um content)"
  obtain header n rb where h: "rd fetch 0 rrti_header = Ok header" "rrti_boot_len um header = Ok n" "rd fetch rrti_header (n - rrti_header) = Ok rb"
    and fp: "ti_from_parts api header rb = Ok ti"
    using ok unfolding ti_open_def bind_o_Ok_iff sub_p_Ok_iff by blast
  have "header = cut content 0 rrti_header" "length header = rrti_header" using rd_exact [OF h(1)] by auto
  moreover have "rrti_header \<le> length content" using rd_within [OF h(1)] by (simp add: rrti_header_def)
  ultimately have "u64_at header 16 = u64_at content 16" by (simp add: u64_at_cut rrti_header_def)
  then have "rb = router_bytes um content"
    using rd_exact [OF h(3)] boot_len_value [OF h(2)] by (simp add: router_bytes_def)
  then show "ti_wf ti" using from_parts_wf [OF fa fp] boot_len_cases(2) [OF h(2)] guard by simp
qed

lemma resolve_no_panic: "ti_wf ti \<Longrightarrow> resolve_locs um fetch ti ts lenient \<noteq> Panic"
proof -
  assume wf: "ti_wf ti"
  have "wave (\<lambda>(off, len). rd fetch off len) us \<noteq> Panic" for us
    by (rule wave_not_Panic) (auto simp: fetch_no_panic)
  moreover have "scan_terms um lenient (unique_locs (map snd ps)) blocks ps \<noteq> Panic"
    if "wave (\<lambda>(off, len). rd fetch off len) (unique_locs (map snd ps)) = Ok blocks" for ps blocks
    using that by (intro scan_terms_no_panic) (auto simp: unique_locs_def unique_locs_set dest!: wave_Ok_length)
  ultimately show ?thesis
    using present_terms_no_panic [OF wf] by (auto simp: resolve_locs_def bind_o_Panic_iff Let_def split: option.splits)
qed

lemma head_block_no_panic: "read_head_block um deser fetch ti loc \<noteq> Panic"
  by (cases loc) (auto simp: read_head_block_def bind_o_Panic_iff fetch_no_panic checked_add_def ok_or_def)

lemma tail_no_panic: "read_tail deser fetch b \<noteq> Panic"
  using read_full_total by (simp add: read_tail_def)

lemma and_locs_no_panic: "and_locs um deser fetch ti locs limit \<noteq> Panic"
proof -
  have h: "wave (read_head_block um deser fetch ti) locs \<noteq> Panic" by (rule wave_not_Panic) (rule head_block_no_panic)
  have t: "wave (read_tail deser fetch) bs \<noteq> Panic" for bs by (rule wave_not_Panic) (rule tail_no_panic)
  have ne: "length bs = length locs" if "wave (read_head_block um deser fetch ti) locs = Ok bs" for bs
    using that by (rule wave_Ok_length)
  have nt: "length ts = length bs" if "wave (read_tail deser fetch) bs = Ok ts" for bs ts
    using that by (rule wave_Ok_length)
  have a: "and_sets ss \<noteq> Panic" if "ss \<noteq> []" for ss using that by (simp add: and_sets_eq)
  show ?thesis
  proof (cases "locs = []")
    case False
    have m: "map hb_head (sort_key c bs) \<noteq> []" "\<And>ts. wave (read_tail deser fetch) (sort_key c bs) = Ok ts \<Longrightarrow> map g (zip (sort_key c bs) ts) \<noteq> []"
      if "wave (read_head_block um deser fetch ti) locs = Ok bs" for bs and c :: "head_block \<Rightarrow> nat" and g :: "head_block \<times> nat set \<Rightarrow> nat set"
    proof -
      have l: "0 < length (sort_key c bs)" using ne [OF that] False by simp
      then show "map hb_head (sort_key c bs) \<noteq> []" by (metis length_0_conv length_map less_numeral_extra(3))
      show "map g (zip (sort_key c bs) ts) \<noteq> []" if "wave (read_tail deser fetch) (sort_key c bs) = Ok ts" for ts
        using l nt [OF that] by (metis length_0_conv length_map length_zip less_numeral_extra(3) min.idem)
    qed
    show ?thesis
      unfolding and_locs_def if_not_P [OF False] Let_def
      using h t a m by (auto simp: bind_o_Panic_iff)
  qed (simp add: and_locs_def)
qed

lemma union_locs_no_panic: "union_locs um deser fetch ti locs limit \<noteq> Panic"
proof -
  have "wave (read_head_block um deser fetch ti) locs \<noteq> Panic" by (rule wave_not_Panic) (rule head_block_no_panic)
  moreover have "wave (read_tail deser fetch) bs \<noteq> Panic" for bs by (rule wave_not_Panic) (rule tail_no_panic)
  ultimately show ?thesis by (simp add: union_locs_def bind_o_Panic_iff Let_def)
qed

lemma queries_no_panic:
  assumes wf: "ti_wf ti"
  shows "ti_search um env deser fetch ti q limit \<noteq> Panic" "query_head_postings um env deser fetch ti q \<noteq> Panic"
    "query_head_postings_present um env deser fetch ti q \<noteq> Panic" "query_postings um env deser fetch ti q \<noteq> Panic"
proof -
  note r = resolve_no_panic [OF wf]
  have h: "wave (read_head_block um deser fetch ti) locs \<noteq> Panic" for locs by (rule wave_not_Panic) (rule head_block_no_panic)
  have t: "wave (\<lambda>(_, b). read_tail deser fetch b) hs \<noteq> Panic" for hs :: "(nat \<times> head_block) list"
    by (rule wave_not_Panic) (auto simp: tail_no_panic)
  show "ti_search um env deser fetch ti q limit \<noteq> Panic"
    using r and_locs_no_panic by (auto simp: ti_search_def bind_o_Panic_iff Let_def split: option.splits)
  show q: "query_head_postings um env deser fetch ti q \<noteq> Panic"
    using r h by (auto simp: query_head_postings_def bind_o_Panic_iff Let_def split: option.splits)
  show "query_head_postings_present um env deser fetch ti q \<noteq> Panic"
    using r h by (auto simp: query_head_postings_present_def bind_o_Panic_iff Let_def split: option.splits)
  show "query_postings um env deser fetch ti q \<noteq> Panic"
    using q t by (auto simp: query_postings_def bind_o_Panic_iff split: option.splits)
qed

lemma dict_terms_no_panic: "ti_wf ti \<Longrightarrow> dict_terms um fetch ti \<noteq> Panic"
proof -
  assume wf: "ti_wf ti"
  have "dict_block_locs um ti \<noteq> Panic" unfolding dict_block_locs_def
    by (rule mapM_o_not_Panic) (use router_loc_no_panic [OF wf] in blast)
  moreover have "block_terms um b \<noteq> Panic" for b unfolding block_terms_def
    by (rule mapM_o_not_Panic) (auto simp: bind_o_Panic_iff)
  then have "mapM_o (\<lambda>(off, len). bind_o (rd fetch off len) (block_terms um)) locs \<noteq> Panic" for locs
    by (intro mapM_o_not_Panic) (auto simp: bind_o_Panic_iff fetch_no_panic)
  ultimately show ?thesis by (simp add: dict_terms_def bind_o_Panic_iff)
qed

lemma scan_wave_no_panic: "Panic \<notin> set rs \<Longrightarrow> scan_wave_results um pb max_n w rs st \<noteq> Panic"
  by (induction rs arbitrary: st) (auto simp: bind_o_Panic_iff split: scan_status.splits prod.splits)

lemma join_reads_no_panic:
  "join_all (\<lambda>(off, len). rd fetch off len) xs = Ok (map (\<lambda>(off, len). rd fetch off len) xs)"
  "Panic \<notin> set (map (\<lambda>(off, len). rd fetch off len) xs)"
  using rd_no_panic by (auto simp: join_all_def list_ex_iff simp del: rd_Panic_iff dest: sym)

lemma scan_waves_no_panic: "f = fetch \<Longrightarrow> scan_prefix_waves um f pb max_n w ranges st \<noteq> Panic"
proof (induction um f pb max_n w ranges st rule: scan_prefix_waves.induct)
  case (1 um f pb max_n w ranges st)
  note j = join_reads_no_panic [of "take prefix_block_wave ranges"]
  show ?case
    using 1 j(1) scan_wave_no_panic [OF j(2)] by (subst scan_prefix_waves.simps) (auto simp: bind_o_Panic_iff)
qed

lemma prefix_no_panic:
  assumes wf: "ti_wf ti"
  shows "search_prefix_capped um env deser fetch ti p limit \<noteq> Panic" "ti_complete um env fetch ti p n \<noteq> Panic"
proof -
  have "mapM_o (router_loc um ti) (fm_ge (ti_router ti) lo) \<noteq> Panic" for lo
    by (rule mapM_o_not_Panic) (use router_loc_no_panic [OF wf] in blast)
  then have s: "scan_prefix um fetch ti q n w \<noteq> Panic" for q n w
    using scan_waves_no_panic by (auto simp: scan_prefix_def bind_o_Panic_iff Let_def)
  then show "ti_complete um env fetch ti p n \<noteq> Panic" by (simp add: ti_complete_def)
  show "search_prefix_capped um env deser fetch ti p limit \<noteq> Panic"
    using s union_locs_no_panic by (auto simp: search_prefix_capped_def prefix_locs_def bind_o_Panic_iff)
qed

end

section \<open>Properties\<close>

text \<open>
  C22: No term index makes the reader panic, on any width of \<open>usize\<close>, over a fetcher that answers with
  the file's bytes and does not panic itself.  Opening and booting end in an index or an error,
  whatever the bytes.  Whatever dictionary blocks, posting blocks and tails the file of an opened
  index holds, and whatever the deserialiser makes of them, every search, every access to postings,
  every dictionary walk and every prefix scan ends in an answer or an error, as long as the checksum
  guards the router's bytes: the crate may panic on a router that it merely accepts, but not on one
  whose checksum verifies.
\<close>

theorem terms_hostile_safe:
  assumes "fst_maps api" "range_fetch f content"
    and "ti_open um api f = Ok ti \<and> checksum_guards api (router_bytes um content)
      \<or> ti_from_boot um api boot = Ok ti \<and> checksum_guards api (router_bytes um boot)"
  shows "ti_open um api f \<noteq> Panic \<and> ti_from_boot um api boot' \<noteq> Panic
    \<and> ti_search um env deser f ti query limit \<noteq> Panic
    \<and> query_head_postings um env deser f ti query \<noteq> Panic
    \<and> query_head_postings_present um env deser f ti query \<noteq> Panic
    \<and> query_postings um env deser f ti query \<noteq> Panic
    \<and> dict_terms um f ti \<noteq> Panic
    \<and> search_prefix_capped um env deser f ti query limit \<noteq> Panic
    \<and> ti_complete um env f ti query limit \<noteq> Panic"
proof -
  have wf: "ti_wf ti" using assms(3) range_fetch.ti_open_safe(2) [OF assms(2,1)] ti_from_boot_safe(2) [OF assms(1)] by blast
  show ?thesis
    using range_fetch.ti_open_safe(1) [OF assms(2), of um api] ti_from_boot_safe(1) [of um api boot'] range_fetch.queries_no_panic [OF assms(2) wf]
      range_fetch.dict_terms_no_panic [OF assms(2) wf] range_fetch.prefix_no_panic [OF assms(2) wf] by simp
qed

definition demo_term_boot :: bytes where
  "demo_term_boot = rrti_magic @ to_le 2 rrti_version @ to_le 2 0 @ to_le 4 0 @ to_le 4 5 @ to_le 8 0 @ to_le 8 9 @ to_le 4 0 @ [of_nat 0, 0, 0, 0]"

lemma demo_term_boots: "ti_from_boot U32 list_codec demo_term_boot
  = Ok \<lparr>ti_router = fst_of [], ti_dict_start = 40, ti_postings_offset = 49, ti_head_boundary = 5, ti_term_count = 0, ti_tokenizer = tokenizer_from_header 0 0\<rparr>"
proof -
  have z: "(0 :: nat) < U16" "(0 :: nat) < U32" "(5 :: nat) < U32" "(0 :: nat) < U64" "(9 :: nat) < U64" "(0 :: nat) < 256" by simp_all
  note h = rrti_header_fields [OF z(1,2,3,4,5,2,6), folded demo_term_boot_def]
  have l: "length demo_term_boot = 40" by (simp add: demo_term_boot_def rrti_magic_def)
  have c: "cut demo_term_boot 0 40 = demo_term_boot" "cut demo_term_boot 40 40 = []" using l by (simp_all add: cut_def)
  have d: "iter_block um [] = []" for um by (simp add: iter_block_def block_entries.simps block_next_def)
  show ?thesis
    using h l c by (simp add: ti_from_boot_def rrti_boot_len_def ti_from_parts_def rrti_header_def checked_add_def list_codec_def codec_sound_def codec_entries_def d Let_def sat_add_def)
qed

lemma terms_hostile_safe_witness:
  "ti_search U32 demo_env format_decode (mem_read U32 (mem_new [1, 2, 3]))
     \<lparr>ti_router = fst_of [], ti_dict_start = 40, ti_postings_offset = 49, ti_head_boundary = 5, ti_term_count = 0, ti_tokenizer = tokenizer_from_header 0 0\<rparr>
     [97] 10 \<noteq> Panic"
  using terms_hostile_safe [OF listfst.fst_maps_axioms memf.range_fetch_axioms disjI2 [OF conjI [OF demo_term_boots list_codec_guards]]]
  by blast

text \<open>
  The length of a head posting is a number of a dictionary block that nothing bounds.  \<open>FileFetch\<close>
  allocates it before it reads: at \<open>2 ^ 63\<close> it panics, on a 64-bit target too, where \<open>MemoryFetch\<close>
  answers that the range is outside the object.
\<close>

lemma head_buffer_overflows:
  assumes "positioned_file ra content" "ti_postings_offset ti + head_off < U64" "2 ^ 63 \<le> head_size + 4" "head_size + 4 < U64"
  shows "read_head_block U64 deser (file_read U64 ra) ti (head_off, head_size) = Panic"
proof -
  have "rd (file_read U64 ra) (ti_postings_offset ti + head_off) (head_size + 4) = Panic"
    using assms(3) by (simp add: file_read_panic_iff [OF assms(1)])
  then show ?thesis using assms(2,4) by (simp add: read_head_block_def checked_add_def del: rd_Panic_iff)
qed

end
