(* ===== verification/RR_Facet.thy ===== *)
theory RR_Facet imports RR_Filter RR_Utf8 "HOL-Library.Product_Lexorder" "HOL-Library.List_Lexorder" begin

text \<open>
  The facet sidecar \<open>RRSF\<close>: the reader \<open>rust/src/facet.rs\<close> (boot, head loading, the resolution of
  selections into a filter, counting within a result, the digests of a split manifest) and the
  writer \<open>write_facets_with\<close> of \<open>rust/src/build.rs\<close>.  Unicode lower-casing and the unstable
  selection \<open>select_nth_unstable_by\<close> are parameters.  The thread-local trace of pricing waves is
  left out; the sums it is given are kept, because they can overflow.
\<close>

unbundle bit_operations_syntax

section \<open>Keys\<close>

definition fnv_offset :: "64 word" where "fnv_offset = 14695981039346656037"
definition fnv_prime :: "64 word" where "fnv_prime = 1099511628211"

definition fnv_step :: "64 word \<Rightarrow> 8 word \<Rightarrow> 64 word" where
  "fnv_step h b = (h XOR ucast b) * fnv_prime"

definition facet_mix :: "(rstring \<Rightarrow> rstring) \<Rightarrow> bool \<Rightarrow> 64 word \<Rightarrow> rstring \<Rightarrow> 64 word" where
  "facet_mix lower case_fold h s = foldl fnv_step h (utf8_bytes (if case_fold then lower s else s))"

definition facet_key :: "(rstring \<Rightarrow> rstring) \<Rightarrow> rstring \<Rightarrow> rstring \<Rightarrow> bool \<Rightarrow> 64 word" where
  "facet_key lower fld category case_fold =
     facet_mix lower case_fold (fnv_step (facet_mix lower case_fold fnv_offset fld) 0x1f) category"

section \<open>Data\<close>

definition rrsf_magic :: bytes where "rrsf_magic = ascii ''RRSF''"
definition rrsf_header :: nat where "rrsf_header = 24"
definition rrsf_flag_case_sensitive :: nat where "rrsf_flag_case_sensitive = 1"
definition field_entry :: nat where "field_entry = 16"
definition cat_entry :: nat where "cat_entry = 36"
definition eager_region_limit :: nat where "eager_region_limit = 24 * 1024 * 1024"
definition lazy_top_n :: nat where "lazy_top_n = 128"
definition pricing_gap :: nat where "pricing_gap = 2048"
definition intra_category_gap :: nat where "intra_category_gap = 16 * 1024"

record category =
  ca_name :: rstring
  ca_count :: nat
  ca_range :: cat_range
  ca_head :: "nat set"
  ca_tail_dir :: "container list option"

record facet_field =
  fd_name :: rstring
  fd_cats :: "category list"

record filter_sel =
  fs_field :: rstring
  fs_category :: rstring
  fs_negate :: bool

definition sel_include :: "rstring \<Rightarrow> rstring \<Rightarrow> filter_sel" where
  "sel_include f c = \<lparr>fs_field = f, fs_category = c, fs_negate = False\<rparr>"

definition sel_exclude :: "rstring \<Rightarrow> rstring \<Rightarrow> filter_sel" where
  "sel_exclude f c = \<lparr>fs_field = f, fs_category = c, fs_negate = True\<rparr>"

section \<open>Boot\<close>

definition rrsf_boot_len :: "nat \<Rightarrow> bytes \<Rightarrow> nat ires" where
  "rrsf_boot_len um header =
     (if length header < rrsf_header then Err (Malformed ''short RRSF header'')
      else if cut header 0 4 \<noteq> rrsf_magic then Err (BadMagic (cut header 0 4))
      else
        bind_o (read_u16 header 4) (\<lambda>version.
        if version \<noteq> 1 then Err (BadVersion version)
        else
          bind_o (read_u32 header 8) (\<lambda>fields_n.
          bind_o (read_u32 header 12) (\<lambda>cats_n.
          bind_o (read_u32 header 16) (\<lambda>str_bytes.
          ok_or
            (Option.bind (Option.bind (checked_mul um fields_n field_entry) (\<lambda>x. checked_add um x rrsf_header)) (\<lambda>ft.
             Option.bind (Option.bind (checked_mul um cats_n cat_entry) (\<lambda>c. checked_add um c ft)) (\<lambda>sb.
             checked_add um sb str_bytes)))
            (Malformed ''RRSF meta size overflow''))))))"

definition facet_name :: "nat \<Rightarrow> bytes \<Rightarrow> nat \<Rightarrow> nat \<Rightarrow> nat \<Rightarrow> nat \<Rightarrow> rstring ires" where
  "facet_name um buf str_blob str_bytes off len =
     (case checked_add um off len of
        Some e \<Rightarrow>
          if e \<le> str_bytes then
            bind_o (add_p um str_blob off) (\<lambda>s. bind_o (add_p um str_blob e) (\<lambda>t.
            map_ok utf8_lossy (cut_p buf s t)))
          else Err (Malformed ''RRSF name out of string blob'')
      | None \<Rightarrow> Err (Malformed ''RRSF name out of string blob''))"

definition make_range :: "nat \<Rightarrow> nat \<Rightarrow> nat \<Rightarrow> cat_range" where
  "make_range head_off head_size tail_size =
     \<lparr>cr_head_off = head_off, cr_head_size = head_size, cr_tail_off = sat_add U64 head_off head_size, cr_tail_size = tail_size\<rparr>"

definition read_category :: "nat \<Rightarrow> bytes \<Rightarrow> nat \<Rightarrow> nat \<Rightarrow> nat \<Rightarrow> nat \<Rightarrow> category ires" where
  "read_category um buf cat_tab str_blob str_bytes i =
     (let b = cat_tab + i * cat_entry in
      bind_o (read_u64 buf (b + 8)) (\<lambda>head_off.
      bind_o (read_u32 buf (b + 16)) (\<lambda>head_size.
      bind_o (read_u32 buf (b + 20)) (\<lambda>tail_size.
      bind_o (read_u32 buf (b + 24)) (\<lambda>n.
      bind_o (read_u32 buf (b + 28)) (\<lambda>name_off.
      bind_o (read_u16 buf (b + 32)) (\<lambda>name_len.
      bind_o (facet_name um buf str_blob str_bytes name_off name_len) (\<lambda>name.
      Ok \<lparr>ca_name = name, ca_count = n, ca_range = make_range head_off head_size tail_size, ca_head = {}, ca_tail_dir = None\<rparr>))))))))"

definition read_field_span :: "nat \<Rightarrow> bytes \<Rightarrow> nat \<Rightarrow> nat \<Rightarrow> nat \<Rightarrow> nat \<Rightarrow> nat \<Rightarrow> (rstring \<times> nat \<times> nat) ires" where
  "read_field_span um buf field_tab cats_n str_blob str_bytes i =
     (let b = field_tab + i * field_entry in
      bind_o (read_u32 buf b) (\<lambda>name_off.
      bind_o (read_u16 buf (b + 4)) (\<lambda>name_len.
      bind_o (read_u32 buf (b + 8)) (\<lambda>cat_start.
      bind_o (read_u32 buf (b + 12)) (\<lambda>cat_count.
      case checked_add um cat_start cat_count of
        Some cat_end \<Rightarrow>
          if cat_end \<le> cats_n then
            bind_o (facet_name um buf str_blob str_bytes name_off name_len) (\<lambda>name. Ok (name, cat_start, cat_end))
          else Err (Malformed ''facet field category range out of bounds'')
      | None \<Rightarrow> Err (Malformed ''facet field category range out of bounds''))))))"

definition from_meta :: "nat \<Rightarrow> bytes \<Rightarrow> facet_field list ires" where
  "from_meta um buf =
     (if length buf < rrsf_header then Err (Malformed ''RRSF meta region truncated'')
      else
        bind_o (cut_p buf 0 rrsf_header) (\<lambda>header.
        bind_o (rrsf_boot_len um header) (\<lambda>meta_len.
        if length buf < meta_len then Err (Malformed ''RRSF meta region truncated'')
        else
          bind_o (read_u32 buf 8) (\<lambda>fields_n.
          bind_o (read_u32 buf 12) (\<lambda>cats_n.
          bind_o (read_u32 buf 16) (\<lambda>str_bytes.
          let field_tab = rrsf_header in
          bind_o (bind_o (mul_p um fields_n field_entry) (add_p um field_tab)) (\<lambda>cat_tab.
          bind_o (bind_o (mul_p um cats_n cat_entry) (add_p um cat_tab)) (\<lambda>str_blob.
          bind_o (mapM_o (read_category um buf cat_tab str_blob str_bytes) [0..<cats_n]) (\<lambda>cats.
          bind_o (mapM_o (read_field_span um buf field_tab cats_n str_blob str_bytes) [0..<fields_n]) (\<lambda>spans.
          mapM_o (\<lambda>(name, s, e). map_ok (\<lambda>cs. \<lparr>fd_name = name, fd_cats = cs\<rparr>) (cut_p cats s e)) spans))))))))))"

definition open_meta :: "nat \<Rightarrow> range_read \<Rightarrow> facet_field list ires" where
  "open_meta um f =
     bind_o (rd f 0 rrsf_header) (\<lambda>header.
     bind_o (rrsf_boot_len um header) (\<lambda>meta_len.
     bind_o (rd f 0 meta_len) (from_meta um)))"

section \<open>Loading the heads\<close>

text \<open>
  \<open>load_heads\<close> updates the categories one by one and stops at the first error: its result is the
  outcome and the fields as it leaves them.
\<close>

type_synonym facet_step = "unit ires \<times> facet_field list"

definition first_range :: "facet_field list \<Rightarrow> cat_range option" where
  "first_range fds = map_option ca_range (case concat (map fd_cats fds) of [] \<Rightarrow> None | c # _ \<Rightarrow> Some c)"

definition last_range :: "facet_field list \<Rightarrow> cat_range option" where
  "last_range fds = map_option ca_range (case rev (concat (map fd_cats fds)) of [] \<Rightarrow> None | c # _ \<Rightarrow> Some c)"

definition region_len :: "facet_field list \<Rightarrow> nat ires" where
  "region_len fds =
     (case (first_range fds, last_range fds) of
        (Some a, Some b) \<Rightarrow>
          let e = sat_add U64 (cr_tail_off b) (cr_tail_size b) in
          if cr_head_off a \<le> e then Ok (e - cr_head_off a) else Err (Malformed ''facet postings region has end < start'')
      | _ \<Rightarrow> Ok 0)"

definition eager_head :: "nat \<Rightarrow> deserializer \<Rightarrow> bytes \<Rightarrow> nat \<Rightarrow> category \<Rightarrow> nat set ires" where
  "eager_head um deser blob blob_start c =
     (if cr_head_off (ca_range c) < blob_start then Err (Malformed ''RRSF head offset precedes region'')
      else
        let s = (cr_head_off (ca_range c) - blob_start) mod um in
        case checked_add um s (cr_head_size (ca_range c)) of
          Some e \<Rightarrow>
            if e \<le> length blob then bind_o (cut_p blob s e) (deserialize deser)
            else Err (Malformed ''RRSF head posting out of region'')
        | None \<Rightarrow> Err (Malformed ''RRSF head posting out of region''))"

fun eager_cats :: "(category \<Rightarrow> nat set ires) \<Rightarrow> category list \<Rightarrow> unit ires \<times> category list" where
  "eager_cats head [] = (Ok (), [])"
| "eager_cats head (c # cs) =
     (case head c of
        Ok h \<Rightarrow> (let (r, cs') = eager_cats head cs in (r, c\<lparr>ca_head := h\<rparr> # cs'))
      | Err e \<Rightarrow> (Err e, c # cs)
      | Panic \<Rightarrow> (Panic, c # cs))"

fun eager_fields :: "(category \<Rightarrow> nat set ires) \<Rightarrow> facet_field list \<Rightarrow> facet_step" where
  "eager_fields head [] = (Ok (), [])"
| "eager_fields head (f # fs) =
     (case eager_cats head (fd_cats f) of
        (Ok (), cs) \<Rightarrow> (let (r, fs') = eager_fields head fs in (r, f\<lparr>fd_cats := cs\<rparr> # fs'))
      | (r, cs) \<Rightarrow> (r, f\<lparr>fd_cats := cs\<rparr> # fs))"

definition top_counts :: "nat \<Rightarrow> facet_field \<Rightarrow> nat list" where
  "top_counts n f = take n (sort_key (\<lambda>i. - int (ca_count (fd_cats f ! i))) [0..<length (fd_cats f)])"

definition set_head :: "facet_field list \<Rightarrow> nat \<times> nat \<Rightarrow> nat set \<Rightarrow> facet_field list" where
  "set_head fds t h =
     (let f = fds ! fst t in fds[fst t := f\<lparr>fd_cats := (fd_cats f)[snd t := (fd_cats f ! snd t)\<lparr>ca_head := h\<rparr>]\<rparr>])"

fun lazy_heads :: "deserializer \<Rightarrow> facet_field list \<Rightarrow> ((nat \<times> nat) \<times> bytes) list \<Rightarrow> facet_step" where
  "lazy_heads deser fds [] = (Ok (), fds)"
| "lazy_heads deser fds ((t, bs) # rest) =
     (case deserialize deser bs of
        Ok h \<Rightarrow> lazy_heads deser (set_head fds t h) rest
      | Err e \<Rightarrow> (Err e, fds)
      | Panic \<Rightarrow> (Panic, fds))"

definition cat_at :: "facet_field list \<Rightarrow> nat \<times> nat \<Rightarrow> category" where
  "cat_at fds t = fd_cats (fds ! fst t) ! snd t"

definition load_heads_tuned :: "nat \<Rightarrow> deserializer \<Rightarrow> range_read \<Rightarrow> nat \<Rightarrow> nat \<Rightarrow> facet_field list \<Rightarrow> facet_step" where
  "load_heads_tuned um deser f eager_limit top_n fds =
     (case region_len fds of
        Ok n \<Rightarrow>
          if n = 0 then (Ok (), fds)
          else if n \<le> eager_limit then
            (let blob_start = cr_head_off (the (first_range fds)) in
             case rd f blob_start n of
               Ok blob \<Rightarrow> eager_fields (eager_head um deser blob blob_start) fds
             | Err e \<Rightarrow> (Err e, fds)
             | Panic \<Rightarrow> (Panic, fds))
          else
            (let reqs = concat (map (\<lambda>(fi, fd). map (Pair fi) (top_counts top_n fd)) (enumerate 0 fds)) in
             case map_err Fetch (read_coalesced um f (map (\<lambda>t. head_range (ca_range (cat_at fds t))) reqs) coalesce_gap) of
               Ok datas \<Rightarrow> lazy_heads deser fds (zip reqs datas)
             | Err e \<Rightarrow> (Err e, fds)
             | Panic \<Rightarrow> (Panic, fds))
      | Err e \<Rightarrow> (Err e, fds)
      | Panic \<Rightarrow> (Panic, fds))"

definition load_heads :: "nat \<Rightarrow> deserializer \<Rightarrow> range_read \<Rightarrow> facet_field list \<Rightarrow> facet_step" where
  "load_heads um deser f = load_heads_tuned um deser f eager_region_limit lazy_top_n"

definition facet_open_tuned :: "nat \<Rightarrow> deserializer \<Rightarrow> range_read \<Rightarrow> nat \<Rightarrow> nat \<Rightarrow> facet_field list ires" where
  "facet_open_tuned um deser f eager_limit top_n =
     bind_o (rd f 0 rrsf_header) (\<lambda>header.
     bind_o (rrsf_boot_len um header) (\<lambda>meta_len.
     bind_o (rd f 0 meta_len) (\<lambda>buf.
     bind_o (from_meta um buf) (\<lambda>fds.
     let (r, fds') = load_heads_tuned um deser f eager_limit top_n fds in
     bind_o r (\<lambda>_. Ok fds')))))"

definition facet_open :: "nat \<Rightarrow> deserializer \<Rightarrow> range_read \<Rightarrow> facet_field list ires" where
  "facet_open um deser f = facet_open_tuned um deser f eager_region_limit lazy_top_n"

section \<open>Selections\<close>

text \<open>\<open>by_field.entry(name).or_insert(d)\<close> followed by an update: a \<open>BTreeMap\<close> as its sorted entries.\<close>

fun btree_entry :: "rstring \<Rightarrow> 'v \<Rightarrow> ('v \<Rightarrow> 'v) \<Rightarrow> (rstring \<times> 'v) list \<Rightarrow> (rstring \<times> 'v) list" where
  "btree_entry k d g [] = [(k, g d)]"
| "btree_entry k d g ((u, v) # m) =
     (if utf8_bytes k < utf8_bytes u then (k, g d) # (u, v) # m
      else if k = u then (u, g v) # m
      else (u, v) # btree_entry k d g m)"

definition find_category :: "facet_field list \<Rightarrow> rstring \<Rightarrow> rstring \<Rightarrow> category option" where
  "find_category fds fname cname =
     Option.bind (find (\<lambda>f. fd_name f = fname) fds) (\<lambda>f. find (\<lambda>c. ca_name c = cname) (fd_cats f))"

definition add_found :: "cat_range option \<Rightarrow> cat_range list \<Rightarrow> cat_range list" where
  "add_found r rs = (case r of None \<Rightarrow> rs | Some r \<Rightarrow> rs @ [r])"

definition facet_resolve :: "facet_field list \<Rightarrow> (rstring \<times> rstring) list \<Rightarrow> filter_spec" where
  "facet_resolve fds pairs =
     \<lparr>rf_fields = map snd (foldl (\<lambda>m (fname, cname).
        btree_entry fname [] (add_found (map_option ca_range (find_category fds fname cname))) m) [] pairs),
      rf_excludes = []\<rparr>"

definition sel_step ::
  "facet_field list \<Rightarrow> (rstring \<times> cat_range list) list \<times> cat_range list \<Rightarrow> filter_sel \<Rightarrow> (rstring \<times> cat_range list) list \<times> cat_range list" where
  "sel_step fds st sel =
     (let (by_field, excludes) = st; r = map_option ca_range (find_category fds (fs_field sel) (fs_category sel)) in
      if fs_negate sel then (by_field, add_found r excludes)
      else (btree_entry (fs_field sel) [] (add_found r) by_field, excludes))"

definition resolve_sels :: "facet_field list \<Rightarrow> filter_sel list \<Rightarrow> filter_spec" where
  "resolve_sels fds sels =
     (let (by_field, excludes) = foldl (sel_step fds) ([], []) sels
      in \<lparr>rf_fields = map snd by_field, rf_excludes = excludes\<rparr>)"

text \<open>The sums are \<open>u64\<close> additions.\<close>

definition bound_step ::
  "facet_field list \<Rightarrow> (rstring \<times> nat) list \<Rightarrow> rstring \<times> rstring \<Rightarrow> ((rstring \<times> nat) list) ires" where
  "bound_step fds m = (\<lambda>(fname, cname).
     let n = (case find_category fds fname cname of None \<Rightarrow> 0 | Some c \<Rightarrow> ca_count c) in
     bind_o (add_p U64 (case map_of m fname of None \<Rightarrow> 0 | Some s \<Rightarrow> s) n) (\<lambda>s.
     Ok (btree_entry fname 0 (\<lambda>_. s) m)))"

definition filter_count_bound :: "facet_field list \<Rightarrow> (rstring \<times> rstring) list \<Rightarrow> nat option ires" where
  "filter_count_bound fds pairs =
     (if pairs = [] then Ok None
      else map_ok (\<lambda>m. case map snd m of [] \<Rightarrow> None | n # ns \<Rightarrow> Some (fold min ns n)) (foldM_o (bound_step fds) [] pairs))"

definition filter_cost :: "facet_field list \<Rightarrow> (rstring \<times> rstring) list \<Rightarrow> nat ires" where
  "filter_cost fds pairs =
     foldM_o (\<lambda>total (fname, cname).
       case find_category fds fname cname of
         None \<Rightarrow> Ok total
       | Some c \<Rightarrow> bind_o (add_p U64 (cr_head_size (ca_range c)) (cr_tail_size (ca_range c))) (add_p U64 total)) 0 pairs"

section \<open>Counting within a result\<close>

definition facet_counts :: "facet_field list \<Rightarrow> nat set \<Rightarrow> nat list list" where
  "facet_counts fds res = map (\<lambda>f. map (\<lambda>c. card (res \<inter> ca_head c)) (fd_cats f)) fds"

definition bucket_step :: "bool \<times> nat list \<Rightarrow> nat \<Rightarrow> bool \<times> nat list" where
  "bucket_step st d =
     (let (head_needed, tail_keys) = st; k = high_key d in
      if k = 0 then (True, tail_keys)
      else if tail_keys \<noteq> [] \<and> last tail_keys = k then (head_needed, tail_keys)
      else (head_needed, tail_keys @ [k]))"

definition result_buckets :: "nat set \<Rightarrow> bool \<times> nat list" where
  "result_buckets res = foldl bucket_step (False, []) (sorted_list_of_set res)"

definition bitmap_or :: "deserializer \<Rightarrow> bytes \<Rightarrow> string \<Rightarrow> nat set ires" where
  "bitmap_or deser b what = (case deser b of Inr s \<Rightarrow> Ok s | Inl _ \<Rightarrow> Err (Malformed what))"

definition use_resident :: "category \<Rightarrow> bool" where
  "use_resident c \<longleftrightarrow> ca_tail_dir c \<noteq> None \<and> cr_tail_size (ca_range c) > header_prefix"

definition wave_bytes :: "nat \<Rightarrow> (nat \<times> nat) list \<Rightarrow> nat ires" where
  "wave_bytes um ranges = foldM_o (\<lambda>total (_, len). add_p um total len) 0 ranges"

text \<open>One pricing wave: the traced byte total, then the coalesced read.\<close>

definition pricing_wave :: "nat \<Rightarrow> range_read \<Rightarrow> (nat \<times> nat) list \<Rightarrow> bytes list ires" where
  "pricing_wave um f ranges =
     bind_o (wave_bytes um ranges) (\<lambda>_. map_err Fetch (read_coalesced um f ranges pricing_gap))"

definition wave_a_ranges :: "bool \<Rightarrow> nat list \<Rightarrow> category \<Rightarrow> (nat \<times> nat) list" where
  "wave_a_ranges head_needed tail_keys c =
     [if head_needed \<and> ca_head c = {} \<and> cr_head_size (ca_range c) > 0 then head_range (ca_range c) else (0, 0),
      if tail_keys \<noteq> [] \<and> cr_tail_size (ca_range c) > 0 \<and> \<not> use_resident c
      then (cr_tail_off (ca_range c), min (cr_tail_size (ca_range c)) header_prefix) else (0, 0)]"

datatype tail_plan = Done | Refetch nat bool | Containers "container list"

text \<open>
  After wave A: what the head and a small tail add to the count, what is left to do for the tail, and
  the ranges of wave B.
\<close>

definition wave_a_step ::
  "nat \<Rightarrow> deserializer \<Rightarrow> nat set \<Rightarrow> nat list \<Rightarrow> bytes list \<Rightarrow> nat list \<times> tail_plan list \<times> (nat \<times> nat) list \<Rightarrow> nat \<times> category
   \<Rightarrow> (nat list \<times> tail_plan list \<times> (nat \<times> nat) list) ires" where
  "wave_a_step um deser res tail_keys wave_a st = (\<lambda>(i, c).
     let (ns, plans, wb) = st; tail_len = cr_tail_size (ca_range c); tail_off = cr_tail_off (ca_range c) in
     bind_o (nth_p wave_a (2 * i)) (\<lambda>head_bytes.
     bind_o (if head_bytes = [] then Ok (card (res \<inter> ca_head c))
             else map_ok (\<lambda>h. card (res \<inter> h)) (bitmap_or deser head_bytes ''RRSF head posting'')) (\<lambda>n.
     if use_resident c then
       Ok (ns @ [n],
           plans @ [if tail_keys \<noteq> [] \<and> tail_len > 0 then Containers (filter (in_keys tail_keys) (the (ca_tail_dir c))) else Done], wb)
     else
       bind_o (nth_p wave_a (2 * i + 1)) (\<lambda>prefix.
       if prefix = [] then Ok (ns @ [n], plans @ [Done], wb)
       else if length prefix \<ge> tail_len then
         bind_o (bitmap_or deser prefix ''RRSF tail posting'') (\<lambda>t. Ok (ns @ [n + card (res \<inter> t)], plans @ [Done], wb))
       else
         let whole = Ok (ns @ [n], plans @ [Refetch (length wb) True], wb @ [(tail_off, tail_len)]) in
         (case needed_header_len um prefix of
            Some hl \<Rightarrow>
              if hl \<le> length prefix then
                bind_o (parse_dir um prefix tail_len) (\<lambda>d.
                  case d of
                    Some dir \<Rightarrow> Ok (ns @ [n], plans @ [Containers (filter (in_keys tail_keys) dir)], wb)
                  | None \<Rightarrow> whole)
              else Ok (ns @ [n], plans @ [Refetch (length wb) False], wb @ [(tail_off, hl)])
          | None \<Rightarrow> whole)))))"

definition wave_b_step ::
  "nat \<Rightarrow> deserializer \<Rightarrow> range_read \<Rightarrow> nat set \<Rightarrow> nat list \<Rightarrow> bytes list \<Rightarrow> nat \<times> tail_plan \<times> category \<Rightarrow> (nat \<times> tail_plan) ires" where
  "wave_b_step um deser f res tail_keys wave_b = (\<lambda>(n, plan, c).
     case plan of
       Refetch wb whole \<Rightarrow>
         bind_o (nth_p wave_b wb) (\<lambda>bytes.
         if whole then bind_o (bitmap_or deser bytes ''RRSF tail posting'') (\<lambda>t. Ok (n + card (res \<inter> t), Done))
         else
           let tail_len = cr_tail_size (ca_range c) in
           bind_o (parse_dir um bytes tail_len) (\<lambda>d.
             case d of
               Some dir \<Rightarrow> Ok (n, Containers (filter (in_keys tail_keys) dir))
             | None \<Rightarrow>
                 bind_o (rd f (cr_tail_off (ca_range c)) tail_len) (\<lambda>raw.
                 bind_o (bitmap_or deser raw ''RRSF tail posting'') (\<lambda>t. Ok (n + card (res \<inter> t), Done)))))
     | _ \<Rightarrow> Ok (n, plan))"

text \<open>
  The spans of wave C.  Only the last span of the same category may grow, by up to
  \<open>INTRA_CATEGORY_GAP\<close>; a container is located by its span and its offset in it.
\<close>

definition place_container ::
  "nat \<Rightarrow> nat \<Rightarrow> (nat \<times> nat) list \<times> nat option \<times> (nat \<times> nat) list \<Rightarrow> container \<Rightarrow> ((nat \<times> nat) list \<times> nat option \<times> (nat \<times> nat) list) ires" where
  "place_container um off st c =
     (let (spans, my_last, locs) = st in
      bind_o (add_p U64 off (c_start c)) (\<lambda>a.
      let fresh = Ok (spans @ [(a, c_len c)], Some (length spans), locs @ [(length spans, 0)]) in
      case my_last of
        None \<Rightarrow> fresh
      | Some li \<Rightarrow>
          bind_o (nth_p spans li) (\<lambda>(s, l).
          bind_o (add_p U64 s l) (\<lambda>e.
          bind_o (add_p U64 e intra_category_gap) (\<lambda>limit.
          if a \<le> limit then
            bind_o (add_p U64 a (c_len c)) (\<lambda>new_end.
            bind_o (sub_p a s) (\<lambda>rel.
            Ok (spans[li := (s, if new_end > e then (new_end - s) mod um else l)], Some li, locs @ [(li, rel mod um)])))
          else fresh)))))"

definition place_step ::
  "nat \<Rightarrow> (nat \<times> nat) list \<times> (nat \<times> nat) list list \<Rightarrow> tail_plan \<times> category \<Rightarrow> ((nat \<times> nat) list \<times> (nat \<times> nat) list list) ires" where
  "place_step um st = (\<lambda>(plan, c).
     let (spans, locs) = st in
     case plan of
       Containers needed \<Rightarrow>
         bind_o (foldM_o (place_container um (cr_tail_off (ca_range c))) (spans, None, []) needed) (\<lambda>(spans', _, ls).
         Ok (spans', locs @ [ls]))
     | _ \<Rightarrow> Ok (spans, locs @ [[]]))"

definition wave_c_count ::
  "nat \<Rightarrow> deserializer \<Rightarrow> nat set \<Rightarrow> bytes list \<Rightarrow> nat \<times> tail_plan \<times> (nat \<times> nat) list \<Rightarrow> nat ires" where
  "wave_c_count um deser res bodies = (\<lambda>(n, plan, locs).
     case plan of
       Containers needed \<Rightarrow>
         if needed = [] then Ok n
         else
           bind_o (mapM_o (\<lambda>(c, si, rel).
             bind_o (nth_p bodies si) (\<lambda>d. bind_o (add_p um rel (c_len c)) (\<lambda>e.
             map_ok (Piece (c_key c) (c_card c)) (cut_p d rel e)))) (zip needed locs)) (\<lambda>sel.
           map_ok (\<lambda>bm. n + card (res \<inter> bm)) (deserialize deser (assemble sel)))
     | _ \<Rightarrow> Ok n)"

definition count_batched ::
  "nat \<Rightarrow> deserializer \<Rightarrow> range_read \<Rightarrow> facet_field list \<Rightarrow> (nat \<times> nat) list \<Rightarrow> nat set \<Rightarrow> bool \<Rightarrow> nat list \<Rightarrow> nat list ires" where
  "count_batched um deser f fds targets res head_needed tail_keys =
     (let cats = map (cat_at fds) targets in
      bind_o (pricing_wave um f (concat (map (wave_a_ranges head_needed tail_keys) cats))) (\<lambda>wave_a.
      bind_o (foldM_o (wave_a_step um deser res tail_keys wave_a) ([], [], []) (enumerate 0 cats)) (\<lambda>(ns, plans, wb).
      bind_o (pricing_wave um f wb) (\<lambda>wave_b.
      bind_o (mapM_o (wave_b_step um deser f res tail_keys wave_b) (zip ns (zip plans cats))) (\<lambda>st.
      let ns = map fst st; plans = map snd st in
      bind_o (foldM_o (place_step um) ([], []) (zip plans cats)) (\<lambda>(spans, locs).
      bind_o (pricing_wave um f spans) (\<lambda>bodies.
      mapM_o (wave_c_count um deser res bodies) (zip ns (zip plans locs)))))))))"

text \<open>
  The categories \<open>counts_full\<close> prices: \<open>select idx key k\<close> is \<open>idx\<close> reordered as
  \<open>select_nth_unstable_by(k - 1, ..)\<close> leaves it, with the \<open>k\<close> largest keys first.
\<close>

type_synonym nth_select = "nat list \<Rightarrow> (nat \<Rightarrow> nat) \<Rightarrow> nat \<Rightarrow> nat list"

definition field_targets :: "nth_select \<Rightarrow> nat \<Rightarrow> nat \<times> facet_field \<Rightarrow> (nat \<times> nat) list" where
  "field_targets select top_n = (\<lambda>(fi, f).
     let m = length (fd_cats f) in
     if top_n = 0 \<or> m \<le> top_n then map (Pair fi) [0..<m]
     else map (Pair fi) (take top_n (select [0..<m] (\<lambda>i. ca_count (fd_cats f ! i)) top_n)))"

definition counts_full ::
  "nat \<Rightarrow> deserializer \<Rightarrow> range_read \<Rightarrow> nth_select \<Rightarrow> facet_field list \<Rightarrow> nat set \<Rightarrow> nat \<Rightarrow> nat list list ires" where
  "counts_full um deser f select fds res top_n =
     (let (head_needed, tail_keys) = result_buckets res; targets = concat (map (field_targets select top_n) (enumerate 0 fds)) in
      bind_o (count_batched um deser f fds targets res head_needed tail_keys) (\<lambda>priced.
      Ok (foldl (\<lambda>ns ((fi, ci), n). ns[fi := (ns ! fi)[ci := n]]) (facet_counts fds res) (zip targets priced))))"

definition find_target :: "facet_field list \<Rightarrow> rstring \<times> rstring \<Rightarrow> (nat \<times> nat) option" where
  "find_target fds = (\<lambda>(fname, cname).
     Option.bind (position (\<lambda>f. fd_name f = fname) fds) (\<lambda>fi.
     map_option (Pair fi) (position (\<lambda>c. ca_name c = cname) (fd_cats (fds ! fi)))))"

definition slot_step ::
  "facet_field list \<Rightarrow> (nat \<times> nat) list \<times> nat option list \<Rightarrow> rstring \<times> rstring \<Rightarrow> (nat \<times> nat) list \<times> nat option list" where
  "slot_step fds st pair =
     (let (targets, slots) = st in
      case find_target fds pair of
        None \<Rightarrow> (targets, slots @ [None])
      | Some t \<Rightarrow> (targets @ [t], slots @ [Some (length targets)]))"

definition counts_for ::
  "nat \<Rightarrow> deserializer \<Rightarrow> range_read \<Rightarrow> facet_field list \<Rightarrow> nat set \<Rightarrow> (rstring \<times> rstring) list \<Rightarrow> nat list ires" where
  "counts_for um deser f fds res pairs =
     (let (head_needed, tail_keys) = result_buckets res; (targets, slots) = foldl (slot_step fds) ([], []) pairs in
      bind_o (count_batched um deser f fds targets res head_needed tail_keys) (\<lambda>priced.
      mapM_o (\<lambda>s. case s of None \<Rightarrow> Ok 0 | Some i \<Rightarrow> nth_p priced i) slots))"

section \<open>Digests\<close>

text \<open>
  The digests a split manifest carries: the \<open>k\<close> largest categories of each field (ties by name),
  without (v1) or with (v2) the container directories of their tails.
\<close>

definition digest_order :: "nat \<Rightarrow> facet_field \<Rightarrow> nat list" where
  "digest_order k f =
     take k (sort_key (\<lambda>i. let c = fd_cats f ! i in (- int (ca_count c), utf8_bytes (ca_name c))) [0..<length (fd_cats f)])"

definition digest_name :: "rstring \<Rightarrow> bytes ires" where
  "digest_name name =
     (let b = utf8_bytes name in
      map_ok (\<lambda>n. to_le 2 n @ b) (ok_or (try_from U16 (length b)) (Malformed ''facet digest name exceeds u16'')))"

definition digest_base :: "category \<Rightarrow> bytes ires" where
  "digest_base c =
     (let r = ca_range c in
      map_ok (\<lambda>n. n @ to_le 4 (ca_count c) @ to_le 8 (cr_head_off r) @ to_le 4 (cr_head_size r) @ to_le 4 (cr_tail_size r))
        (digest_name (ca_name c)))"

definition digest_dir :: "nat \<Rightarrow> bytes \<Rightarrow> category \<Rightarrow> bytes ires" where
  "digest_dir um rrsf c =
     (let r = ca_range c; tail_size = cr_tail_size r; off = cr_tail_off r mod um in
      bind_o (if tail_size > 0 then
                (case checked_add um off tail_size of
                   Some e \<Rightarrow>
                     if e \<le> length rrsf then bind_o (cut_p rrsf off e) (\<lambda>b. parse_dir um b tail_size)
                     else Err (Malformed ''RRSF tail out of range'')
                 | None \<Rightarrow> Err (Malformed ''RRSF tail out of range''))
              else Ok None) (\<lambda>dir.
      case dir of
        None \<Rightarrow> Ok (to_le 2 0)
      | Some dir \<Rightarrow>
          bind_o (ok_or (try_from U16 (length dir)) (Malformed ''tail container count exceeds u16'')) (\<lambda>n.
          map_ok (\<lambda>rows. to_le 2 n @ concat rows)
            (mapM_o (\<lambda>con. bind_o (sub_p (c_card con) 1) (\<lambda>card1.
               Ok (to_le 2 (c_key con) @ to_le 2 (card1 mod U16) @ to_le 4 (c_start con mod U32)))) dir))))"

definition digest_field :: "(category \<Rightarrow> bytes ires) \<Rightarrow> nat \<Rightarrow> facet_field \<Rightarrow> bytes ires" where
  "digest_field cat k f =
     (let idx = digest_order k f in
      bind_o (digest_name (fd_name f)) (\<lambda>name.
      map_ok (\<lambda>rows. name @ to_le 2 (length idx mod U16) @ concat rows) (mapM_o (\<lambda>i. cat (fd_cats f ! i)) idx)))"

definition digest_with :: "(category \<Rightarrow> bytes ires) \<Rightarrow> nat \<Rightarrow> bytes \<Rightarrow> nat \<Rightarrow> bytes ires" where
  "digest_with cat um rrsf k =
     bind_o (ok_or (get_range rrsf 0 rrsf_header) (Malformed ''short RRSF header'')) (\<lambda>header.
     bind_o (rrsf_boot_len um header) (\<lambda>meta_len.
     bind_o (ok_or (get_range rrsf 0 meta_len) (Malformed ''RRSF meta region truncated'')) (\<lambda>meta.
     bind_o (from_meta um meta) (\<lambda>fds.
     let k16 = (case try_from U16 k of None \<Rightarrow> U16 - 1 | Some k \<Rightarrow> k) in
     bind_o (ok_or (try_from U16 (length fds)) (Malformed ''facet digest field count exceeds u16'')) (\<lambda>n.
     map_ok (\<lambda>rows. to_le 2 k16 @ to_le 2 n @ concat rows) (mapM_o (digest_field cat k16) fds))))))"

definition facet_digest :: "nat \<Rightarrow> bytes \<Rightarrow> nat \<Rightarrow> bytes ires" where
  "facet_digest um = digest_with digest_base um"

definition facet_digest_v2 :: "nat \<Rightarrow> bytes \<Rightarrow> nat \<Rightarrow> bytes ires" where
  "facet_digest_v2 um rrsf k =
     digest_with (\<lambda>c. bind_o (digest_base c) (\<lambda>b. map_ok ((@) b) (digest_dir um rrsf c))) um rrsf k"

text \<open>The cursor \<open>Cur\<close>: a parser takes a position and returns a value and the position after it.\<close>

type_synonym 'a parser = "nat \<Rightarrow> ('a \<times> nat) ires"

definition cur_take :: "nat \<Rightarrow> bytes \<Rightarrow> nat \<Rightarrow> bytes parser" where
  "cur_take um buf n pos =
     bind_o (add_p um pos n) (\<lambda>e. map_ok (\<lambda>s. (s, e)) (ok_or (get_range buf pos e) (Malformed ''facet digest truncated'')))"

definition cur_take_v2 :: "nat \<Rightarrow> bytes \<Rightarrow> nat \<Rightarrow> bytes parser" where
  "cur_take_v2 um buf n pos =
     (case checked_add um pos n of
        Some e \<Rightarrow> if e \<le> length buf then Ok (cut buf pos e, e) else Err (Malformed ''facet digest truncated'')
      | None \<Rightarrow> Err (Malformed ''facet digest truncated''))"

definition cur_int :: "(nat \<Rightarrow> bytes parser) \<Rightarrow> nat \<Rightarrow> nat parser" where
  "cur_int get n pos = map_ok (\<lambda>(b, p). (from_le b, p)) (get n pos)"

definition cur_name :: "(nat \<Rightarrow> bytes parser) \<Rightarrow> rstring parser" where
  "cur_name get pos = bind_o (cur_int get 2 pos) (\<lambda>(len, p). map_ok (\<lambda>(b, p). (utf8_lossy b, p)) (get len p))"

fun cur_many :: "'a parser \<Rightarrow> nat \<Rightarrow> 'a list parser" where
  "cur_many p 0 pos = Ok ([], pos)"
| "cur_many p (Suc n) pos = bind_o (p pos) (\<lambda>(x, pos). map_ok (\<lambda>(xs, pos). (x # xs, pos)) (cur_many p n pos))"

definition parse_base :: "(nat \<Rightarrow> bytes parser) \<Rightarrow> category parser" where
  "parse_base get pos =
     bind_o (cur_name get pos) (\<lambda>(name, p).
     bind_o (cur_int get 4 p) (\<lambda>(n, p).
     bind_o (cur_int get 8 p) (\<lambda>(head_off, p).
     bind_o (cur_int get 4 p) (\<lambda>(head_size, p).
     bind_o (cur_int get 4 p) (\<lambda>(tail_size, p).
     Ok (\<lparr>ca_name = name, ca_count = n, ca_range = make_range head_off head_size tail_size, ca_head = {}, ca_tail_dir = None\<rparr>, p))))))"

definition parse_container :: "(nat \<Rightarrow> bytes parser) \<Rightarrow> (nat \<times> nat \<times> nat) parser" where
  "parse_container get pos =
     bind_o (cur_int get 2 pos) (\<lambda>(key, p).
     bind_o (cur_int get 2 p) (\<lambda>(card1, p).
     bind_o (cur_int get 4 p) (\<lambda>(start, p).
     Ok ((key, card1 + 1, start), p))))"

fun close_dir :: "nat \<Rightarrow> (nat \<times> nat \<times> nat) list \<Rightarrow> container list ires" where
  "close_dir tail_size [] = Ok []"
| "close_dir tail_size ((key, cnt, start) # raw) =
     (let e = (case raw of [] \<Rightarrow> tail_size | (_, _, s) # _ \<Rightarrow> s) in
      if e < start \<or> e > tail_size then Err (Malformed ''facet digest tail container range'')
      else map_ok ((#) \<lparr>c_key = key, c_card = cnt, c_start = start, c_len = e - start\<rparr>) (close_dir tail_size raw))"

definition parse_cat_v2 :: "(nat \<Rightarrow> bytes parser) \<Rightarrow> category parser" where
  "parse_cat_v2 get pos =
     bind_o (parse_base get pos) (\<lambda>(c, p).
     bind_o (cur_int get 2 p) (\<lambda>(n, p).
     if n = 0 then Ok (c, p)
     else
       bind_o (cur_many (parse_container get) n p) (\<lambda>(raw, p).
       map_ok (\<lambda>dir. (c\<lparr>ca_tail_dir := Some dir\<rparr>, p)) (close_dir (cr_tail_size (ca_range c)) raw))))"

definition parse_field_with :: "(nat \<Rightarrow> bytes parser) \<Rightarrow> category parser \<Rightarrow> facet_field parser" where
  "parse_field_with get cat pos =
     bind_o (cur_name get pos) (\<lambda>(name, p).
     bind_o (cur_int get 2 p) (\<lambda>(n, p).
     map_ok (\<lambda>(cs, p). (\<lparr>fd_name = name, fd_cats = cs\<rparr>, p)) (cur_many cat n p)))"

definition parse_digest_with :: "(nat \<Rightarrow> bytes parser) \<Rightarrow> category parser \<Rightarrow> (nat \<times> facet_field list) ires" where
  "parse_digest_with get cat =
     bind_o (cur_int get 2 0) (\<lambda>(k, p).
     bind_o (cur_int get 2 p) (\<lambda>(n, p).
     map_ok (\<lambda>(fds, _). (k, fds)) (cur_many (parse_field_with get cat) n p)))"

definition parse_facet_digest :: "nat \<Rightarrow> bytes \<Rightarrow> (nat \<times> facet_field list) ires" where
  "parse_facet_digest um payload = (let get = cur_take um payload in parse_digest_with get (parse_base get))"

definition parse_facet_digest_v2 :: "nat \<Rightarrow> bytes \<Rightarrow> (nat \<times> facet_field list) ires" where
  "parse_facet_digest_v2 um payload = (let get = cur_take_v2 um payload in parse_digest_with get (parse_cat_v2 get))"

section \<open>The writer\<close>

record facet_category =
  fc_name :: rstring
  fc_card :: nat
  fc_head :: bytes
  fc_tail :: bytes

record facet_group =
  fg_name :: rstring
  fg_cats :: "facet_category list"

record cat_out =
  co_key :: "64 word"
  co_card :: nat
  co_name_off :: nat
  co_name_len :: nat
  co_head :: bytes
  co_tail :: bytes

record field_out =
  fo_name_off :: nat
  fo_name_len :: nat
  fo_cat_start :: nat
  fo_cats :: "cat_out list"

definition push_name :: "bytes \<Rightarrow> rstring \<Rightarrow> (bytes \<times> nat \<times> nat) io" where
  "push_name blob s =
     bind_o (u32_len (length blob) ''facet string blob'') (\<lambda>off.
     bind_o (ok_or (try_from U16 (length (utf8_bytes s))) ''facet name exceeds the 16-bit length limit'') (\<lambda>len.
     Ok (blob @ utf8_bytes s, off, len)))"

definition out_cat ::
  "(rstring \<Rightarrow> rstring) \<Rightarrow> bool \<Rightarrow> rstring \<Rightarrow> bytes \<times> cat_out list \<Rightarrow> facet_category \<Rightarrow> (bytes \<times> cat_out list) io" where
  "out_cat lower cn fname st c =
     (let (blob, cs) = st in
      bind_o (push_name blob (fc_name c)) (\<lambda>(blob, off, len).
      Ok (blob, cs @ [\<lparr>co_key = facet_key lower fname (fc_name c) cn, co_card = fc_card c, co_name_off = off, co_name_len = len,
                        co_head = fc_head c, co_tail = fc_tail c\<rparr>])))"

definition out_field ::
  "(rstring \<Rightarrow> rstring) \<Rightarrow> bool \<Rightarrow> bytes \<times> nat \<times> field_out list \<Rightarrow> facet_group \<Rightarrow> (bytes \<times> nat \<times> field_out list) io" where
  "out_field lower cn st f =
     (let (blob, total_cats, fos) = st in
      bind_o (push_name blob (fg_name f)) (\<lambda>(blob, off, len).
      bind_o (foldM_o (out_cat lower cn (fg_name f)) (blob, []) (fg_cats f)) (\<lambda>(blob, cs).
      bind_o (add_p U32 total_cats (length cs mod U32)) (\<lambda>total.
      Ok (blob, total, fos @ [\<lparr>fo_name_off = off, fo_name_len = len, fo_cat_start = total_cats, fo_cats = sort_key co_key cs\<rparr>])))))"

fun write_cat_table :: "nat \<Rightarrow> cat_out list \<Rightarrow> bytes io" where
  "write_cat_table off [] = Ok []"
| "write_cat_table off (c # cs) =
     bind_o (u32_len (length (co_head c)) ''RRSF head posting'') (\<lambda>h.
     bind_o (u32_len (length (co_tail c)) ''RRSF tail posting'') (\<lambda>t.
     bind_o (add_p U64 off (length (co_head c) + length (co_tail c))) (\<lambda>off'.
     map_ok ((@) (to_le 8 (unat (co_key c)) @ to_le 8 off @ to_le 4 h @ to_le 4 t @ to_le 4 (co_card c)
       @ to_le 4 (co_name_off c) @ to_le 2 (co_name_len c) @ to_le 2 0)) (write_cat_table off' cs))))"

definition write_facets_with :: "(rstring \<Rightarrow> rstring) \<Rightarrow> facet_group list \<Rightarrow> bool \<Rightarrow> bytes io" where
  "write_facets_with lower groups cn =
     bind_o (foldM_o (out_field lower cn) ([], 0, []) groups) (\<lambda>(blob, total_cats, fos).
     let str_blob_off = 24 + length fos * 16 + total_cats * 36;
         postings_start = str_blob_off + length blob;
         cats = concat (map fo_cats fos);
         reserved = (if cn then 0 else rrsf_flag_case_sensitive) in
     map_ok (\<lambda>table.
       ascii ''RRSF'' @ to_le 2 1 @ to_le 2 reserved @ to_le 4 (length fos mod U32) @ to_le 4 total_cats @ to_le 4 (length blob mod U32)
       @ to_le 4 0
       @ concat (map (\<lambda>fo. to_le 4 (fo_name_off fo) @ to_le 2 (fo_name_len fo) @ to_le 2 0 @ to_le 4 (fo_cat_start fo)
           @ to_le 4 (length (fo_cats fo) mod U32)) fos)
       @ table @ blob @ concat (map (\<lambda>c. co_head c @ co_tail c) cats))
       (write_cat_table postings_start cats))"

definition write_facets :: "(rstring \<Rightarrow> rstring) \<Rightarrow> facet_group list \<Rightarrow> bytes io" where
  "write_facets lower groups = write_facets_with lower groups True"

end
