(* ===== verification/RR_Facet_Written.thy ===== *)
theory RR_Facet_Written imports RR_Facet begin

text \<open>
  The written facet sidecar reads back: every field and category has its name, its count and a range
  whose bytes are its head and tail postings, the categories of a field in the order of their keys.
\<close>

section \<open>What the writer lays out\<close>

definition named :: "bytes \<Rightarrow> nat \<Rightarrow> nat \<Rightarrow> rstring \<Rightarrow> bool" where
  "named blob off len s \<longleftrightarrow> off < U32 \<and> len < U16 \<and> off + len \<le> length blob \<and> cut blob off (off + len) = utf8_bytes s"

lemma named_append: "named blob off len s \<Longrightarrow> named (blob @ x) off len s"
  by (simp add: named_def cut_append_left)

lemma push_name_Ok:
  "push_name blob s = Ok (blob', off, len) \<Longrightarrow> \<exists>x. blob' = blob @ x \<and> named blob' off len s"
  using cut_mid [of blob "length blob" "utf8_bytes s" "length (utf8_bytes s)" "[]"]
  by (auto simp: push_name_def u32_len_def bind_o_Ok_iff named_def)

definition cat_ok :: "(rstring \<Rightarrow> rstring) \<Rightarrow> bool \<Rightarrow> rstring \<Rightarrow> bytes \<Rightarrow> facet_category \<Rightarrow> cat_out \<Rightarrow> bool" where
  "cat_ok lower cn fname blob c o' \<longleftrightarrow> co_key o' = facet_key lower fname (fc_name c) cn
     \<and> named blob (co_name_off o') (co_name_len o') (fc_name c)
     \<and> co_card o' = fc_card c \<and> co_head o' = fc_head c \<and> co_tail o' = fc_tail c"

lemma cat_ok_append: "cat_ok lower cn fname blob c o' \<Longrightarrow> cat_ok lower cn fname (blob @ x) c o'"
  by (simp add: cat_ok_def named_append)

lemma out_cat_Ok:
  assumes "out_cat lower cn fname (blob, os) c = Ok st"
  shows "\<exists>x o'. st = (blob @ x, os @ [o']) \<and> cat_ok lower cn fname (blob @ x) c o'"
proof -
  obtain b1 off len where p: "push_name blob (fc_name c) = Ok (b1, off, len)"
    and st: "st = (b1, os @ [\<lparr>co_key = facet_key lower fname (fc_name c) cn, co_card = fc_card c, co_name_off = off, co_name_len = len,
        co_head = fc_head c, co_tail = fc_tail c\<rparr>])"
    using assms by (auto simp: out_cat_def bind_o_Ok_iff)
  then show ?thesis using push_name_Ok [OF p] by (force simp: cat_ok_def)
qed

lemma out_cats_Ok:
  "foldM_o (out_cat lower cn fname) (blob, os) cs = Ok (blob', os') \<Longrightarrow>
   \<exists>x rest. blob' = blob @ x \<and> os' = os @ rest \<and> list_all2 (cat_ok lower cn fname blob') cs rest"
proof (induction cs arbitrary: blob os)
  case (Cons c cs)
  obtain st where st: "out_cat lower cn fname (blob, os) c = Ok st" "foldM_o (out_cat lower cn fname) st cs = Ok (blob', os')"
    using Cons.prems by (auto simp: bind_o_Ok_iff)
  obtain x o' where x: "st = (blob @ x, os @ [o'])" "cat_ok lower cn fname (blob @ x) c o'" using out_cat_Ok [OF st(1)] by blast
  obtain y rest where y: "blob' = (blob @ x) @ y" "os' = (os @ [o']) @ rest" "list_all2 (cat_ok lower cn fname blob') cs rest"
    using Cons.IH [OF st(2) [unfolded x(1)]] by blast
  have "cat_ok lower cn fname blob' c o'" unfolding y(1) by (rule cat_ok_append [OF x(2)])
  then show ?case using y by auto
qed auto

text \<open>A stable sort keeps a relation under which the keys agree.\<close>

lemma list_all2_sort_key:
  fixes k :: "'a \<Rightarrow> 'k :: linorder"
  assumes "list_all2 R xs ys" "\<And>x y. R x y \<Longrightarrow> k x = k' y"
  shows "list_all2 R (sort_key k xs) (sort_key k' ys)"
proof -
  let ?zs = "zip xs ys"
  have len: "length xs = length ys" and all: "\<forall>(x, y) \<in> set ?zs. R x y" using assms(1) by (auto simp: list_all2_iff)
  have "sort_key k (map fst ?zs) = map fst (sort_key (k \<circ> fst) ?zs)" "sort_key k' (map snd ?zs) = map snd (sort_key (k' \<circ> snd) ?zs)"
    by (simp_all add: map_sort_key)
  moreover have "sort_key (k' \<circ> snd) ?zs = sort_key (k \<circ> fst) ?zs"
    using all assms(2) by (intro sort_key_same) auto
  moreover have "map fst ?zs = xs" "map snd ?zs = ys" using len by simp_all
  moreover have "list_all2 R (map fst (sort_key (k \<circ> fst) ?zs)) (map snd (sort_key (k \<circ> fst) ?zs))"
    using all by (force simp: list_all2_map1 list_all2_map2 list_all2_same)
  ultimately show ?thesis by simp
qed

definition key_of :: "(rstring \<Rightarrow> rstring) \<Rightarrow> bool \<Rightarrow> rstring \<Rightarrow> facet_category \<Rightarrow> 64 word" where
  "key_of lower cn fname c = facet_key lower fname (fc_name c) cn"

definition field_ok :: "(rstring \<Rightarrow> rstring) \<Rightarrow> bool \<Rightarrow> bytes \<Rightarrow> facet_group \<Rightarrow> field_out \<Rightarrow> bool" where
  "field_ok lower cn blob g fo \<longleftrightarrow> named blob (fo_name_off fo) (fo_name_len fo) (fg_name g)
     \<and> list_all2 (cat_ok lower cn (fg_name g) blob) (sort_key (key_of lower cn (fg_name g)) (fg_cats g)) (fo_cats fo)"

lemma field_ok_append: "field_ok lower cn blob g fo \<Longrightarrow> field_ok lower cn (blob @ x) g fo"
  by (auto simp: field_ok_def named_append cat_ok_append elim!: list_all2_mono)

fun starts_from :: "nat \<Rightarrow> field_out list \<Rightarrow> bool" where
  "starts_from n [] = True"
| "starts_from n (fo # fos) = (fo_cat_start fo = n \<and> starts_from (n + length (fo_cats fo)) fos)"

lemma out_field_Ok:
  assumes "out_field lower cn (blob, n, fos) g = Ok st" "length (fg_cats g) < U32"
  shows "\<exists>x fo. st = (blob @ x, n + length (fo_cats fo), fos @ [fo]) \<and> field_ok lower cn (blob @ x) g fo
     \<and> fo_cat_start fo = n \<and> n + length (fo_cats fo) < U32"
proof -
  obtain b1 off len b2 cs where p: "push_name blob (fg_name g) = Ok (b1, off, len)"
    and cs: "foldM_o (out_cat lower cn (fg_name g)) (b1, []) (fg_cats g) = Ok (b2, cs)" "n + length cs mod U32 < U32"
    and st: "st = (b2, n + length cs mod U32, fos @ [\<lparr>fo_name_off = off, fo_name_len = len, fo_cat_start = n, fo_cats = sort_key co_key cs\<rparr>])"
    using assms(1) unfolding out_field_def prod.case by (auto simp: bind_o_Ok_iff simp del: foldM_o.simps)
  obtain x where x: "b1 = blob @ x" "named b1 off len (fg_name g)" using push_name_Ok [OF p] by blast
  obtain y where y: "b2 = b1 @ y" "list_all2 (cat_ok lower cn (fg_name g) b2) (fg_cats g) cs"
    using out_cats_Ok [OF cs(1)] by auto
  have lcs: "length cs mod U32 = length cs" using y(2) assms(2) by (simp add: list_all2_lengthD [symmetric])
  have "list_all2 (cat_ok lower cn (fg_name g) b2) (sort_key (key_of lower cn (fg_name g)) (fg_cats g)) (sort_key co_key cs)"
    by (rule list_all2_sort_key [OF y(2)]) (simp add: key_of_def cat_ok_def)
  then have "field_ok lower cn b2 g \<lparr>fo_name_off = off, fo_name_len = len, fo_cat_start = n, fo_cats = sort_key co_key cs\<rparr>"
    using x(2) y(1) by (simp add: field_ok_def named_append)
  then show ?thesis using st x(1) y(1) cs(2) unfolding lcs by auto
qed

lemma out_fields_Ok:
  assumes "foldM_o (out_field lower cn) (blob, n, fos) gs = Ok (blob', n', fos')" "\<forall>g \<in> set gs. length (fg_cats g) < U32" "n < U32"
  shows "\<exists>x rest. blob' = blob @ x \<and> fos' = fos @ rest \<and> list_all2 (field_ok lower cn blob') gs rest
     \<and> starts_from n rest \<and> n' = n + length (concat (map fo_cats rest)) \<and> n' < U32"
  using assms
proof (induction gs arbitrary: blob n fos)
  case (Cons g gs)
  obtain st where st: "out_field lower cn (blob, n, fos) g = Ok st" "foldM_o (out_field lower cn) st gs = Ok (blob', n', fos')"
    using Cons.prems by (auto simp: bind_o_Ok_iff)
  obtain x fo where x: "st = (blob @ x, n + length (fo_cats fo), fos @ [fo])" "field_ok lower cn (blob @ x) g fo"
    "fo_cat_start fo = n" "n + length (fo_cats fo) < U32"
    using out_field_Ok [OF st(1)] Cons.prems(2) by auto
  obtain y rest where y: "blob' = (blob @ x) @ y" "fos' = (fos @ [fo]) @ rest" "list_all2 (field_ok lower cn blob') gs rest"
    "starts_from (n + length (fo_cats fo)) rest" "n' = n + length (fo_cats fo) + length (concat (map fo_cats rest))" "n' < U32"
    using Cons.IH [OF st(2) [unfolded x(1)]] Cons.prems(2) x(4) by auto
  have "field_ok lower cn blob' g fo" unfolding y(1) by (rule field_ok_append [OF x(2)])
  then show ?case using x(3) y by (intro exI [of _ "x @ y"] exI [of _ "fo # rest"]) simp
qed simp

section \<open>The parts of a written sidecar\<close>

definition cat_row :: "cat_out \<times> nat \<Rightarrow> bytes" where
  "cat_row = (\<lambda>(c, off). to_le 8 (unat (co_key c)) @ to_le 8 off @ to_le 4 (length (co_head c)) @ to_le 4 (length (co_tail c))
     @ to_le 4 (co_card c) @ to_le 4 (co_name_off c) @ to_le 2 (co_name_len c) @ to_le 2 0)"

definition field_row :: "field_out \<Rightarrow> bytes" where
  "field_row fo = to_le 4 (fo_name_off fo) @ to_le 2 (fo_name_len fo) @ to_le 2 0 @ to_le 4 (fo_cat_start fo) @ to_le 4 (length (fo_cats fo))"

lemma length_rows [simp]: "length (cat_row x) = 36" "length (field_row fo) = 16"
  by (auto simp: cat_row_def field_row_def split: prod.splits)

lemma cat_row_fields:
  assumes "off < U64" "length (co_head c) < U32" "length (co_tail c) < U32" "co_card c < U32" "co_name_off c < U32" "co_name_len c < U16"
  defines "r \<equiv> cat_row (c, off)"
  shows "u64_at r 8 = off" "u32_at r 16 = length (co_head c)" "u32_at r 20 = length (co_tail c)" "u32_at r 24 = co_card c"
    "u32_at r 28 = co_name_off c" "u16_at r 32 = co_name_len c"
proof -
  let ?k = "to_le 8 (unat (co_key c))"
  have "r = ?k @ to_le 8 off @ to_le 4 (length (co_head c)) @ to_le 4 (length (co_tail c)) @ to_le 4 (co_card c)
      @ to_le 4 (co_name_off c) @ to_le 2 (co_name_len c) @ to_le 2 0" by (simp add: r_def cat_row_def)
  then show "u64_at r 8 = off" using assms(1) by (simp only:) (intro u64_at_mid; simp)
  have "r = (?k @ to_le 8 off) @ to_le 4 (length (co_head c)) @ to_le 4 (length (co_tail c)) @ to_le 4 (co_card c)
      @ to_le 4 (co_name_off c) @ to_le 2 (co_name_len c) @ to_le 2 0" by (simp add: r_def cat_row_def)
  then show "u32_at r 16 = length (co_head c)" using assms(2) by (simp only:) (intro u32_at_mid; simp)
  have "r = (?k @ to_le 8 off @ to_le 4 (length (co_head c))) @ to_le 4 (length (co_tail c)) @ to_le 4 (co_card c)
      @ to_le 4 (co_name_off c) @ to_le 2 (co_name_len c) @ to_le 2 0" by (simp add: r_def cat_row_def)
  then show "u32_at r 20 = length (co_tail c)" using assms(3) by (simp only:) (intro u32_at_mid; simp)
  have "r = (?k @ to_le 8 off @ to_le 4 (length (co_head c)) @ to_le 4 (length (co_tail c))) @ to_le 4 (co_card c)
      @ to_le 4 (co_name_off c) @ to_le 2 (co_name_len c) @ to_le 2 0" by (simp add: r_def cat_row_def)
  then show "u32_at r 24 = co_card c" using assms(4) by (simp only:) (intro u32_at_mid; simp)
  have "r = (?k @ to_le 8 off @ to_le 4 (length (co_head c)) @ to_le 4 (length (co_tail c)) @ to_le 4 (co_card c))
      @ to_le 4 (co_name_off c) @ to_le 2 (co_name_len c) @ to_le 2 0" by (simp add: r_def cat_row_def)
  then show "u32_at r 28 = co_name_off c" using assms(5) by (simp only:) (intro u32_at_mid; simp)
  have "r = (?k @ to_le 8 off @ to_le 4 (length (co_head c)) @ to_le 4 (length (co_tail c)) @ to_le 4 (co_card c)
      @ to_le 4 (co_name_off c)) @ to_le 2 (co_name_len c) @ to_le 2 0" by (simp add: r_def cat_row_def)
  then show "u16_at r 32 = co_name_len c" using assms(6) by (simp only:) (intro u16_at_mid; simp)
qed

lemma field_row_fields:
  assumes "fo_name_off fo < U32" "fo_name_len fo < U16" "fo_cat_start fo < U32" "length (fo_cats fo) < U32"
  defines "r \<equiv> field_row fo"
  shows "u32_at r 0 = fo_name_off fo" "u16_at r 4 = fo_name_len fo" "u32_at r 8 = fo_cat_start fo" "u32_at r 12 = length (fo_cats fo)"
proof -
  have r: "r = to_le 4 (fo_name_off fo) @ to_le 2 (fo_name_len fo) @ to_le 2 0 @ to_le 4 (fo_cat_start fo) @ to_le 4 (length (fo_cats fo)) @ []"
    by (simp add: r_def field_row_def)
  show "u32_at r 0 = fo_name_off fo" unfolding r using assms(1) by (rule u32_at_0)
  show "u16_at r 4 = fo_name_len fo" unfolding r using assms(2) by (intro u16_at_mid; simp)
  have r: "r = (to_le 4 (fo_name_off fo) @ to_le 2 (fo_name_len fo) @ to_le 2 0) @ to_le 4 (fo_cat_start fo) @ to_le 4 (length (fo_cats fo)) @ []"
    using r by simp
  show "u32_at r 8 = fo_cat_start fo" unfolding r using assms(3) by (intro u32_at_mid; simp)
  have r: "r = (to_le 4 (fo_name_off fo) @ to_le 2 (fo_name_len fo) @ to_le 2 0 @ to_le 4 (fo_cat_start fo)) @ to_le 4 (length (fo_cats fo)) @ []"
    using r by simp
  show "u32_at r 12 = length (fo_cats fo)" unfolding r using assms(4) by (intro u32_at_mid; simp)
qed

fun posting_offs :: "nat \<Rightarrow> cat_out list \<Rightarrow> nat list" where
  "posting_offs off [] = []"
| "posting_offs off (c # cs) = off # posting_offs (off + length (co_head c) + length (co_tail c)) cs"

lemma length_posting_offs [simp]: "length (posting_offs off cs) = length cs"
  by (induction off cs rule: posting_offs.induct) simp_all

lemma cat_table_Ok:
  "write_cat_table off cs = Ok t \<Longrightarrow>
   t = concat (map cat_row (zip cs (posting_offs off cs)))
   \<and> (\<forall>(c, off) \<in> set (zip cs (posting_offs off cs)). length (co_head c) < U32 \<and> length (co_tail c) < U32 \<and> off < U64)"
  by (induction off cs arbitrary: t rule: write_cat_table.induct)
     (fastforce simp: bind_o_Ok_iff map_ok_Ok_iff u32_len_def cat_row_def add.assoc)+

section \<open>What a reader gets\<close>

definition cat_info :: "nat \<Rightarrow> facet_category \<Rightarrow> category" where
  "cat_info off c = \<lparr>ca_name = fc_name c, ca_count = fc_card c, ca_range = make_range off (length (fc_head c)) (length (fc_tail c)),
     ca_head = {}, ca_tail_dir = None\<rparr>"

definition cat_bytes :: "facet_category list \<Rightarrow> bytes" where
  "cat_bytes cs = concat (map (\<lambda>c. fc_head c @ fc_tail c) cs)"

fun written_cats :: "nat \<Rightarrow> facet_category list \<Rightarrow> category list" where
  "written_cats off [] = []"
| "written_cats off (c # cs) = cat_info off c # written_cats (off + length (fc_head c) + length (fc_tail c)) cs"

definition sorted_cats :: "(rstring \<Rightarrow> rstring) \<Rightarrow> bool \<Rightarrow> facet_group \<Rightarrow> facet_category list" where
  "sorted_cats lower cn g = sort_key (key_of lower cn (fg_name g)) (fg_cats g)"

fun written_fields :: "(rstring \<Rightarrow> rstring) \<Rightarrow> bool \<Rightarrow> nat \<Rightarrow> facet_group list \<Rightarrow> facet_field list" where
  "written_fields lower cn off [] = []"
| "written_fields lower cn off (g # gs) =
     \<lparr>fd_name = fg_name g, fd_cats = written_cats off (sorted_cats lower cn g)\<rparr>
     # written_fields lower cn (off + length (cat_bytes (sorted_cats lower cn g))) gs"

lemma written_cats_append:
  "written_cats off (xs @ ys) = written_cats off xs @ written_cats (off + length (cat_bytes xs)) ys"
  by (induction off xs rule: written_cats.induct) (simp_all add: cat_bytes_def add.assoc)

lemma length_written_cats [simp]: "length (written_cats off cs) = length cs"
  by (induction off cs rule: written_cats.induct) simp_all

text \<open>Category \<open>i\<close> of the table and the fields cut out of the categories.\<close>

lemma written_cats_nth:
  "list_all2 (\<lambda>c o'. co_head o' = fc_head c \<and> co_tail o' = fc_tail c) cs os \<Longrightarrow> i < length cs \<Longrightarrow>
   written_cats off cs ! i = cat_info (posting_offs off os ! i) (cs ! i)"
proof (induction cs os arbitrary: off i rule: list_all2_induct)
  case (Cons c cs o' os)
  then show ?case by (cases i) simp_all
qed simp

lemma written_spans:
  assumes "list_all2 (field_ok lower cn blob) gs fos" "starts_from n fos" "length pre = n"
  shows "mapM_o (\<lambda>(name, s, e). map_ok (\<lambda>cs. \<lparr>fd_name = name, fd_cats = cs\<rparr>)
      (cut_p (pre @ written_cats off (concat (map (sorted_cats lower cn) gs))) s e))
    (map2 (\<lambda>g fo. (fg_name g, fo_cat_start fo, fo_cat_start fo + length (fo_cats fo))) gs fos)
    = (Ok (written_fields lower cn off gs) :: (index_error, _) outcome)"
  using assms
proof (induction gs fos arbitrary: n pre off rule: list_all2_induct)
  case (Cons g gs fo fos)
  let ?cs = "sorted_cats lower cn g"
  have len: "length ?cs = length (fo_cats fo)" using Cons.hyps(1) by (auto simp: field_ok_def sorted_cats_def dest: list_all2_lengthD)
  let ?rest = "written_cats (off + length (cat_bytes ?cs)) (concat (map (sorted_cats lower cn) gs))"
  have all: "pre @ written_cats off (concat (map (sorted_cats lower cn) (g # gs))) = pre @ written_cats off ?cs @ ?rest"
    by (simp add: written_cats_append)
  have "cut (pre @ written_cats off ?cs @ ?rest) n (n + length (fo_cats fo)) = written_cats off ?cs"
    using Cons.prems(2) len by (intro cut_mid) simp_all
  moreover have "n + length (fo_cats fo) \<le> length (pre @ written_cats off ?cs @ ?rest)" using Cons.prems(2) len by simp
  moreover have "mapM_o (\<lambda>(name, s, e). map_ok (\<lambda>cs. \<lparr>fd_name = name, fd_cats = cs\<rparr>)
      (cut_p ((pre @ written_cats off ?cs) @ ?rest) s e))
    (map2 (\<lambda>g fo. (fg_name g, fo_cat_start fo, fo_cat_start fo + length (fo_cats fo))) gs fos)
    = (Ok (written_fields lower cn (off + length (cat_bytes ?cs)) gs) :: (index_error, _) outcome)"
    using Cons.prems len by (intro Cons.IH) simp_all
  ultimately show ?case using Cons.prems(1) unfolding all by (simp add: cut_p_def)
qed simp

end
