(* ===== verification/RR_Facet_Open.thy ===== *)
theory RR_Facet_Open imports RR_Facet_Written begin

text \<open>
  A written facet sidecar opens: the reader finds the fields and categories the writer was given,
  and the range of every category covers its head and tail postings.
\<close>

section \<open>The bytes\<close>

definition name_blob :: "facet_group list \<Rightarrow> bytes" where
  "name_blob gs = concat (map (\<lambda>g. utf8_bytes (fg_name g) @ concat (map (utf8_bytes \<circ> fc_name) (fg_cats g))) gs)"

definition all_cats :: "(rstring \<Rightarrow> rstring) \<Rightarrow> bool \<Rightarrow> facet_group list \<Rightarrow> facet_category list" where
  "all_cats lower cn gs = concat (map (sorted_cats lower cn) gs)"

definition small_facets :: "facet_group list \<Rightarrow> bool" where
  "small_facets gs \<longleftrightarrow> length gs < U32 \<and> length (name_blob gs) < U32
     \<and> (\<forall>g \<in> set gs. list_all scalar (fg_name g) \<and> length (fg_cats g) < U32
          \<and> (\<forall>c \<in> set (fg_cats g). list_all scalar (fc_name c) \<and> fc_card c < U32))"

definition postings_at :: "facet_group list \<Rightarrow> nat" where
  "postings_at gs = 24 + length gs * 16 + length (concat (map fg_cats gs)) * 36 + length (name_blob gs)"

definition facet_header :: "bool \<Rightarrow> nat \<Rightarrow> nat \<Rightarrow> nat \<Rightarrow> bytes" where
  "facet_header cn n m l = ascii ''RRSF'' @ to_le 2 1 @ to_le 2 (if cn then 0 else rrsf_flag_case_sensitive) @ to_le 4 n @ to_le 4 m @ to_le 4 l @ to_le 4 0"

lemma out_cats_blob:
  "foldM_o (out_cat lower cn fname) (blob, os) cs = Ok (blob', os') \<Longrightarrow> blob' = blob @ concat (map (utf8_bytes \<circ> fc_name) cs)"
  by (induction cs arbitrary: blob os) (fastforce simp: bind_o_Ok_iff out_cat_def push_name_def)+

lemma out_fields_blob:
  "foldM_o (out_field lower cn) (blob, n, fos) gs = Ok (blob', n', fos') \<Longrightarrow> blob' = blob @ name_blob gs"
proof (induction gs arbitrary: blob n fos)
  case (Cons g gs)
  obtain st where st: "out_field lower cn (blob, n, fos) g = Ok st" "foldM_o (out_field lower cn) st gs = Ok (blob', n', fos')"
    using Cons.prems by (auto simp: bind_o_Ok_iff)
  obtain b1 off len b2 cs where p: "push_name blob (fg_name g) = Ok (b1, off, len)"
    and cs: "foldM_o (out_cat lower cn (fg_name g)) (b1, []) (fg_cats g) = Ok (b2, cs)" "\<exists>m fo. st = (b2, m, fo)"
    using st(1) unfolding out_field_def prod.case by (auto simp: bind_o_Ok_iff simp del: foldM_o.simps)
  have "b1 = blob @ utf8_bytes (fg_name g)" using p by (auto simp: push_name_def bind_o_Ok_iff)
  moreover note out_cats_blob [OF cs(1)]
  moreover obtain m fo where "st = (b2, m, fo)" using cs(2) by blast
  ultimately show ?case using Cons.IH [of b2 m fo] st(2) by (simp add: name_blob_def)
qed (simp add: name_blob_def)

lemma field_ok_cats:
  "list_all2 (field_ok lower cn blob) gs fos \<Longrightarrow>
   list_all2 (\<lambda>c o'. named blob (co_name_off o') (co_name_len o') (fc_name c) \<and> co_card o' = fc_card c \<and> co_head o' = fc_head c \<and> co_tail o' = fc_tail c)
     (all_cats lower cn gs) (concat (map fo_cats fos))"
proof (induction gs fos rule: list_all2_induct)
  case (Cons g gs fo fos)
  have "list_all2 (\<lambda>c o'. named blob (co_name_off o') (co_name_len o') (fc_name c) \<and> co_card o' = fc_card c \<and> co_head o' = fc_head c \<and> co_tail o' = fc_tail c)
      (sorted_cats lower cn g) (fo_cats fo)"
    using Cons.hyps(1) by (auto simp: field_ok_def cat_ok_def sorted_cats_def elim!: list_all2_mono)
  then show ?case using Cons.IH by (simp add: all_cats_def list_all2_appendI)
qed (simp add: all_cats_def)

lemma length_all_cats [simp]: "length (all_cats lower cn gs) = length (concat (map fg_cats gs))"
  by (induction gs) (simp_all add: all_cats_def sorted_cats_def)

lemma set_all_cats: "set (all_cats lower cn gs) = (\<Union>g \<in> set gs. set (fg_cats g))"
  by (induction gs) (simp_all add: all_cats_def sorted_cats_def)

lemma write_facets_parts:
  assumes w: "write_facets_with lower gs cn = Ok bs" and small: "small_facets gs"
  obtains fos where "list_all2 (field_ok lower cn (name_blob gs)) gs fos" "starts_from 0 fos"
    "length (concat (map fo_cats fos)) = length (concat (map fg_cats gs))" "length (concat (map fg_cats gs)) < U32"
    "bs = facet_header cn (length gs) (length (concat (map fg_cats gs))) (length (name_blob gs)) @ concat (map field_row fos)
       @ concat (map cat_row (zip (concat (map fo_cats fos)) (posting_offs (postings_at gs) (concat (map fo_cats fos)))))
       @ name_blob gs @ cat_bytes (all_cats lower cn gs)"
    "\<forall>(c, off) \<in> set (zip (concat (map fo_cats fos)) (posting_offs (postings_at gs) (concat (map fo_cats fos)))).
       length (co_head c) < U32 \<and> length (co_tail c) < U32 \<and> off < U64"
proof -
  obtain blob n fos where out: "foldM_o (out_field lower cn) ([], 0, []) gs = Ok (blob, n, fos)"
    using w by (auto simp: write_facets_with_def bind_o_Ok_iff simp del: foldM_o.simps)
  have "\<forall>g \<in> set gs. length (fg_cats g) < U32" "(0 :: nat) < U32" using small by (auto simp: small_facets_def)
  note fs = out_fields_Ok [OF out this]
  have blob: "blob = name_blob gs" using out_fields_blob [OF out] by simp
  have ok: "list_all2 (field_ok lower cn blob) gs fos" "starts_from 0 fos" "n = length (concat (map fo_cats fos))" "n < U32"
    using fs by auto
  let ?cats = "concat (map fo_cats fos)"
  note cats = field_ok_cats [OF ok(1)]
  have n: "n = length (concat (map fg_cats gs))" using list_all2_lengthD [OF cats] ok(3) by simp
  have ln: "length fos = length gs" using list_all2_lengthD [OF ok(1)] by simp
  have P: "24 + length fos * 16 + n * 36 + length blob = postings_at gs" using n ln blob by (simp add: postings_at_def)
  obtain table where table: "write_cat_table (postings_at gs) ?cats = Ok table"
    and bs: "bs = ascii ''RRSF'' @ to_le 2 1 @ to_le 2 (if cn then 0 else rrsf_flag_case_sensitive) @ to_le 4 (length fos mod U32) @ to_le 4 n
       @ to_le 4 (length blob mod U32) @ to_le 4 0
       @ concat (map (\<lambda>fo. to_le 4 (fo_name_off fo) @ to_le 2 (fo_name_len fo) @ to_le 2 0 @ to_le 4 (fo_cat_start fo)
           @ to_le 4 (length (fo_cats fo) mod U32)) fos)
       @ table @ blob @ concat (map (\<lambda>c. co_head c @ co_tail c) ?cats)"
    using w unfolding write_facets_with_def out bind_o.simps prod.case Let_def P by (auto simp: map_ok_Ok_iff)
  have "length (fo_cats fo) < U32" if "fo \<in> set fos" for fo
  proof -
    have "length (fo_cats fo) \<le> length ?cats" using that by (induction fos) auto
    then show ?thesis using ok(3,4) by linarith
  qed
  then have rows: "map (\<lambda>fo. to_le 4 (fo_name_off fo) @ to_le 2 (fo_name_len fo) @ to_le 2 0 @ to_le 4 (fo_cat_start fo)
           @ to_le 4 (length (fo_cats fo) mod U32)) fos = map field_row fos"
    by (auto simp: field_row_def)
  have bodies: "concat (map (\<lambda>c. co_head c @ co_tail c) ?cats) = cat_bytes (all_cats lower cn gs)"
    using cats unfolding cat_bytes_def by (induction rule: list_all2_induct) auto
  have "length fos mod U32 = length gs" "length blob mod U32 = length (name_blob gs)" using small ln blob by (simp_all add: small_facets_def)
  then have "bs = facet_header cn (length gs) n (length (name_blob gs)) @ concat (map field_row fos) @ table @ name_blob gs @ cat_bytes (all_cats lower cn gs)"
    using bs unfolding rows bodies by (simp add: facet_header_def blob)
  then show ?thesis using that [of fos] ok n cat_table_Ok [OF table] blob by simp
qed

section \<open>Reading the header\<close>

lemma length_facet_header [simp]: "length (facet_header cn n m l) = 24"
  by (simp add: facet_header_def)

lemma facet_header_fields:
  fixes cn :: bool
  assumes "n < U32" "m < U32" "l < U32"
  defines "h \<equiv> facet_header cn n m l"
  shows "cut h 0 4 = rrsf_magic" "u16_at h 4 = 1" "u32_at h 8 = n" "u32_at h 12 = m" "u32_at h 16 = l"
proof -
  let ?r = "to_le 2 (if cn then 0 else rrsf_flag_case_sensitive)" and ?a = "ascii ''RRSF''"
  have h: "h = ?a @ to_le 2 1 @ ?r @ to_le 4 n @ to_le 4 m @ to_le 4 l @ to_le 4 0" by (simp add: h_def facet_header_def)
  show "cut h 0 4 = rrsf_magic" unfolding h by (simp add: rrsf_magic_def cut_def)
  show "u16_at h 4 = 1" unfolding h by (intro u16_at_mid) simp_all
  have h: "h = (?a @ to_le 2 1 @ ?r) @ to_le 4 n @ to_le 4 m @ to_le 4 l @ to_le 4 0" by (simp add: h_def facet_header_def)
  show "u32_at h 8 = n" unfolding h using assms(1) by (intro u32_at_mid) simp_all
  have h: "h = (?a @ to_le 2 1 @ ?r @ to_le 4 n) @ to_le 4 m @ to_le 4 l @ to_le 4 0" by (simp add: h_def facet_header_def)
  show "u32_at h 12 = m" unfolding h using assms(2) by (intro u32_at_mid) simp_all
  have h: "h = (?a @ to_le 2 1 @ ?r @ to_le 4 n @ to_le 4 m) @ to_le 4 l @ to_le 4 0" by (simp add: h_def facet_header_def)
  show "u32_at h 16 = l" unfolding h using assms(3) by (intro u32_at_mid) simp_all
qed

lemma rrsf_boot_len_header:
  assumes "n < U32" "m < U32" "l < U32" "24 + n * 16 + m * 36 + l < um"
  shows "rrsf_boot_len um (facet_header cn n m l) = Ok (24 + n * 16 + m * 36 + l)"
proof -
  let ?h = "facet_header cn n m l"
  have "read_u16 ?h 4 = (Ok 1 :: (index_error, nat) outcome)" "read_u32 ?h 8 = (Ok n :: (index_error, nat) outcome)"
    "read_u32 ?h 12 = (Ok m :: (index_error, nat) outcome)" "read_u32 ?h 16 = (Ok l :: (index_error, nat) outcome)"
    using facet_header_fields [OF assms(1-3), of cn] by simp_all
  then show ?thesis
    using facet_header_fields(1) [OF assms(1-3), of cn] assms(4)
    by (simp add: rrsf_boot_len_def rrsf_header_def field_entry_def cat_entry_def checked_add_def checked_mul_def add.commute)
qed

section \<open>Reading the tables\<close>

lemma facet_name_at:
  assumes buf: "buf = pre @ blob @ post" and pre: "length pre = str_blob" and nm: "named blob off len s"
    and sc: "list_all scalar s" and um: "length buf < um"
  shows "facet_name um buf str_blob (length blob) off len = Ok s"
proof -
  have fit: "off + len \<le> length blob" and b: "cut blob off (off + len) = utf8_bytes s" using nm by (simp_all add: named_def)
  have "cut buf (str_blob + off) (str_blob + (off + len)) = cut blob off (off + len)"
    unfolding buf using pre fit by (simp add: cut_append_right cut_append_left)
  moreover have "str_blob + (off + len) \<le> length buf" using buf pre fit by simp
  ultimately show ?thesis using fit b um utf8_lossy_bytes [OF sc] by (simp add: facet_name_def checked_add_def)
qed

lemma read_category_row:
  assumes row: "cut buf (tab + i * 36) (tab + i * 36 + 36) = cat_row (c, off)"
    and fit: "tab + i * 36 + 36 \<le> length buf"
    and c: "length (co_head c) < U32" "length (co_tail c) < U32" "co_card c < U32" "off < U64" "co_name_off c < U32" "co_name_len c < U16"
    and nm: "facet_name um buf str_blob str_bytes (co_name_off c) (co_name_len c) = Ok s"
  shows "read_category um buf tab str_blob str_bytes i
    = Ok \<lparr>ca_name = s, ca_count = co_card c, ca_range = make_range off (length (co_head c)) (length (co_tail c)), ca_head = {}, ca_tail_dir = None\<rparr>"
proof -
  let ?b = "tab + i * 36"
  note fs = cat_row_fields [OF c(4,1-3,5,6)]
  have "u64_at buf (?b + 8) = off" "u32_at buf (?b + 16) = length (co_head c)" "u32_at buf (?b + 20) = length (co_tail c)"
    "u32_at buf (?b + 24) = co_card c" "u32_at buf (?b + 28) = co_name_off c" "u16_at buf (?b + 32) = co_name_len c"
    using fs fit unfolding row [symmetric] by (simp_all add: le_cut_simps)
  then show ?thesis using fit nm by (simp add: read_category_def cat_entry_def Let_def)
qed

lemma read_field_row:
  assumes row: "cut buf (tab + i * 16) (tab + i * 16 + 16) = field_row fo"
    and fit: "tab + i * 16 + 16 \<le> length buf"
    and fo: "fo_name_off fo < U32" "fo_name_len fo < U16" "fo_cat_start fo < U32" "length (fo_cats fo) < U32"
    and cats: "fo_cat_start fo + length (fo_cats fo) \<le> n" "n < um"
    and nm: "facet_name um buf str_blob str_bytes (fo_name_off fo) (fo_name_len fo) = Ok s"
  shows "read_field_span um buf tab n str_blob str_bytes i = Ok (s, fo_cat_start fo, fo_cat_start fo + length (fo_cats fo))"
proof -
  let ?b = "tab + i * 16"
  note fs = field_row_fields [OF fo]
  have "u32_at buf (?b + 0) = fo_name_off fo" "u16_at buf (?b + 4) = fo_name_len fo" "u32_at buf (?b + 8) = fo_cat_start fo"
    "u32_at buf (?b + 12) = length (fo_cats fo)"
    using fs fit unfolding row [symmetric] by (simp_all only: le_cut_simps add_diff_cancel_left')
  then show ?thesis using fit nm cats by (simp add: read_field_span_def field_entry_def Let_def checked_add_def)
qed

section \<open>Opening\<close>

lemma starts_from_bound: "starts_from n fos \<Longrightarrow> fo \<in> set fos \<Longrightarrow> fo_cat_start fo + length (fo_cats fo) \<le> n + length (concat (map fo_cats fos))"
  by (induction n fos rule: starts_from.induct) fastforce+

lemma from_meta_written:
  assumes w: "write_facets_with lower gs cn = Ok bs" and small: "small_facets gs" and um: "length bs < um"
  shows "postings_at gs \<le> length bs \<and> drop (postings_at gs) bs = cat_bytes (all_cats lower cn gs)
    \<and> rrsf_boot_len um (cut bs 0 24) = Ok (postings_at gs)
    \<and> from_meta um (cut bs 0 (postings_at gs)) = Ok (written_fields lower cn (postings_at gs) gs)"
proof -
  let ?N = "length gs" and ?M = "length (concat (map fg_cats gs))" and ?B = "name_blob gs" and ?P = "postings_at gs"
  obtain fos where ok: "list_all2 (field_ok lower cn ?B) gs fos" and st: "starts_from 0 fos"
    and M: "length (concat (map fo_cats fos)) = ?M" "?M < U32"
    and bs: "bs = facet_header cn ?N ?M (length ?B) @ concat (map field_row fos)
       @ concat (map cat_row (zip (concat (map fo_cats fos)) (posting_offs ?P (concat (map fo_cats fos)))))
       @ ?B @ cat_bytes (all_cats lower cn gs)"
    and tab: "\<forall>(c, off) \<in> set (zip (concat (map fo_cats fos)) (posting_offs ?P (concat (map fo_cats fos)))).
       length (co_head c) < U32 \<and> length (co_tail c) < U32 \<and> off < U64"
    using write_facets_parts [OF w small] by blast
  define H F cats zs T buf where "H = facet_header cn ?N ?M (length ?B)" and "F = concat (map field_row fos)"
    and "cats = concat (map fo_cats fos)" and "zs = zip cats (posting_offs ?P cats)" and "T = concat (map cat_row zs)"
    and "buf = H @ F @ T @ ?B"
  have bs': "bs = buf @ cat_bytes (all_cats lower cn gs)" using bs by (simp add: buf_def H_def F_def T_def zs_def cats_def)
  have N: "length fos = ?N" using list_all2_lengthD [OF ok] by simp
  have zs: "length zs = ?M" using M by (simp add: zs_def cats_def)
  have len: "length H = 24" "length F = ?N * 16" "length T = ?M * 36"
    using concat_rows_length [of fos field_row 16] concat_rows_length [of zs cat_row 36] N zs by (simp_all add: H_def F_def T_def)
  have lb: "length buf = ?P" using len by (simp add: buf_def postings_at_def)
  have cb: "cut bs 0 ?P = buf" unfolding bs' lb [symmetric] by (simp add: cut_def)
  have ch: "cut bs 0 24 = H" "cut buf 0 24 = H" using len by (simp_all add: bs' buf_def cut_def)
  have umP: "?P < um" using um lb by (simp add: bs')
  have sm: "?N < U32" "length ?B < U32" using small by (simp_all add: small_facets_def)
  have boot: "rrsf_boot_len um H = Ok ?P"
    using rrsf_boot_len_header [of ?N ?M "length ?B" um cn] sm M(2) umP by (simp add: H_def postings_at_def)
  have hf: "u32_at buf 8 = ?N" "u32_at buf 12 = ?M" "u32_at buf 16 = length ?B"
    using facet_header_fields(3-5) [of ?N ?M "length ?B" cn] sm M(2) len by (simp_all add: buf_def H_def le_append_simps)
  note cok = field_ok_cats [OF ok, folded cats_def]
  have cat: "read_category um buf (24 + ?N * 16) (24 + ?N * 16 + ?M * 36) (length ?B) i = Ok (written_cats ?P (all_cats lower cn gs) ! i)"
    if i: "i < ?M" for i
  proof -
    let ?c = "cats ! i" and ?g = "all_cats lower cn gs ! i" and ?off = "posting_offs ?P cats ! i"
    have zi: "zs ! i = (?c, ?off)" "(?c, ?off) \<in> set zs" using i zs M nth_mem [of i zs] by (simp_all add: zs_def cats_def)
    have rel: "named ?B (co_name_off ?c) (co_name_len ?c) (fc_name ?g)" "co_card ?c = fc_card ?g" "co_head ?c = fc_head ?g" "co_tail ?c = fc_tail ?g"
      using list_all2_nthD [OF cok, of i] i by simp_all
    have "?g \<in> set (all_cats lower cn gs)" using i by (intro nth_mem) simp
    then have g: "list_all scalar (fc_name ?g)" "fc_card ?g < U32" using small unfolding set_all_cats small_facets_def by auto
    have row: "cut buf (24 + ?N * 16 + i * 36) (24 + ?N * 16 + i * 36 + 36) = cat_row (?c, ?off)"
      using cut_row_mid [of "H @ F" "24 + ?N * 16" zs cat_row 36 i ?B] len zs i zi(1) by (simp add: buf_def T_def)
    have nm: "facet_name um buf (24 + ?N * 16 + ?M * 36) (length ?B) (co_name_off ?c) (co_name_len ?c) = Ok (fc_name ?g)"
      using facet_name_at [of buf "H @ F @ T" ?B "[]" "24 + ?N * 16 + ?M * 36"] rel(1) g(1) umP lb len by (simp add: buf_def)
    have fit: "24 + ?N * 16 + i * 36 + 36 \<le> length buf" using lb i by (simp add: postings_at_def)
    have "length (co_head ?c) < U32" "length (co_tail ?c) < U32" "?off < U64" using tab zi(2) unfolding zs_def cats_def by auto
    then have "read_category um buf (24 + ?N * 16) (24 + ?N * 16 + ?M * 36) (length ?B) i
      = Ok \<lparr>ca_name = fc_name ?g, ca_count = co_card ?c, ca_range = make_range ?off (length (co_head ?c)) (length (co_tail ?c)), ca_head = {}, ca_tail_dir = None\<rparr>"
      using rel g(2) by (intro read_category_row [OF row fit _ _ _ _ _ _ nm]) (simp_all add: named_def)
    moreover have "written_cats ?P (all_cats lower cn gs) ! i = cat_info ?off ?g"
    proof (rule written_cats_nth)
      show "list_all2 (\<lambda>c o'. co_head o' = fc_head c \<and> co_tail o' = fc_tail c) (all_cats lower cn gs) cats"
        by (rule list_all2_mono [OF cok]) simp
    qed (simp add: i)
    ultimately show ?thesis using rel by (simp add: cat_info_def)
  qed
  then have cats_Ok: "mapM_o (read_category um buf (24 + ?N * 16) (24 + ?N * 16 + ?M * 36) (length ?B)) [0..<?M]
      = Ok (written_cats ?P (all_cats lower cn gs))"
    unfolding mapM_o_Ok_iff by (intro list_all2_all_nthI) simp_all
  have fld: "read_field_span um buf 24 ?M (24 + ?N * 16 + ?M * 36) (length ?B) i
      = Ok (map2 (\<lambda>g fo. (fg_name g, fo_cat_start fo, fo_cat_start fo + length (fo_cats fo))) gs fos ! i)" if i: "i < ?N" for i
  proof -
    let ?fo = "fos ! i" and ?g = "gs ! i"
    have fo: "?fo \<in> set fos" "?g \<in> set gs" using i N by simp_all
    have nmd: "named ?B (fo_name_off ?fo) (fo_name_len ?fo) (fg_name ?g)" using list_all2_nthD [OF ok i] by (simp add: field_ok_def)
    have g: "list_all scalar (fg_name ?g)" using small fo(2) by (simp add: small_facets_def)
    have bd: "fo_cat_start ?fo + length (fo_cats ?fo) \<le> ?M" using starts_from_bound [OF st fo(1)] M(1) by simp
    have row: "cut buf (24 + i * 16) (24 + i * 16 + 16) = field_row ?fo"
      using cut_row_mid [of H 24 fos field_row 16 i "T @ ?B"] len N i by (simp add: buf_def F_def)
    have nm: "facet_name um buf (24 + ?N * 16 + ?M * 36) (length ?B) (fo_name_off ?fo) (fo_name_len ?fo) = Ok (fg_name ?g)"
      using facet_name_at [of buf "H @ F @ T" ?B "[]" "24 + ?N * 16 + ?M * 36"] nmd g umP lb len by (simp add: buf_def)
    have fit: "24 + i * 16 + 16 \<le> length buf" "?M < um" using lb i umP by (simp_all add: postings_at_def)
    show ?thesis
      using read_field_row [OF row fit(1) _ _ _ _ bd fit(2) nm] nmd bd M(2) i N by (simp add: named_def)
  qed
  then have flds_Ok: "mapM_o (read_field_span um buf 24 ?M (24 + ?N * 16 + ?M * 36) (length ?B)) [0..<?N]
      = Ok (map2 (\<lambda>g fo. (fg_name g, fo_cat_start fo, fo_cat_start fo + length (fo_cats fo))) gs fos)"
    unfolding mapM_o_Ok_iff using N by (intro list_all2_all_nthI) simp_all
  have spans: "mapM_o (\<lambda>(name, s, e). map_ok (\<lambda>cs. \<lparr>fd_name = name, fd_cats = cs\<rparr>) (cut_p (written_cats ?P (all_cats lower cn gs)) s e))
      (map2 (\<lambda>g fo. (fg_name g, fo_cat_start fo, fo_cat_start fo + length (fo_cats fo))) gs fos)
    = (Ok (written_fields lower cn ?P gs) :: (index_error, _) outcome)"
    using written_spans [OF ok st, of "[]" ?P] by (simp add: all_cats_def)
  have rd: "24 \<le> length buf" "cut_p buf 0 24 = (Ok H :: (index_error, bytes) outcome)" "read_u32 buf 8 = (Ok ?N :: (index_error, nat) outcome)"
    "read_u32 buf 12 = (Ok ?M :: (index_error, nat) outcome)" "read_u32 buf 16 = (Ok (length ?B) :: (index_error, nat) outcome)"
    using lb hf ch(2) by (simp_all add: postings_at_def)
  have ps: "bind_o (mul_p um ?N 16) (add_p um 24) = (Ok (24 + ?N * 16) :: (index_error, nat) outcome)"
    "bind_o (mul_p um ?M 36) (add_p um (24 + ?N * 16)) = (Ok (24 + ?N * 16 + ?M * 36) :: (index_error, nat) outcome)"
    using umP by (simp_all add: mul_p_def add_p_def postings_at_def)
  have "from_meta um buf = Ok (written_fields lower cn ?P gs)"
    unfolding from_meta_def rrsf_header_def field_entry_def cat_entry_def
    using rd ps boot lb by (simp only: Let_def bind_o.simps cats_Ok flds_Ok spans) simp
  then show ?thesis unfolding cb ch(1) using boot lb by (simp add: bs')
qed

lemma facet_meta_written:
  assumes "write_facets_with lower gs cn = Ok bs" "small_facets gs" "length bs < um" "length bs < U64"
  defines "f \<equiv> mem_read um (mem_new bs)"
  shows "rd f 0 rrsf_header = Ok (cut bs 0 24)" "rrsf_boot_len um (cut bs 0 24) = Ok (postings_at gs)"
    "rd f 0 (postings_at gs) = Ok (cut bs 0 (postings_at gs))"
    "from_meta um (cut bs 0 (postings_at gs)) = Ok (written_fields lower cn (postings_at gs) gs)"
proof -
  note fm = from_meta_written [OF assms(1-3)]
  have "24 \<le> postings_at gs" by (simp add: postings_at_def)
  then have "24 \<le> length bs" "postings_at gs \<le> length bs" using fm by simp_all
  then show "rd f 0 rrsf_header = Ok (cut bs 0 24)" "rd f 0 (postings_at gs) = Ok (cut bs 0 (postings_at gs))"
    using memf.rd_ok [of 0 24 bs um] memf.rd_ok [of 0 "postings_at gs" bs um] assms(3) by (simp_all add: f_def rrsf_header_def)
  show "rrsf_boot_len um (cut bs 0 24) = Ok (postings_at gs)"
    "from_meta um (cut bs 0 (postings_at gs)) = Ok (written_fields lower cn (postings_at gs) gs)"
    using fm by simp_all
qed

lemma open_meta_written:
  assumes "write_facets_with lower gs cn = Ok bs" "small_facets gs" "length bs < um" "length bs < U64"
  shows "open_meta um (mem_read um (mem_new bs)) = Ok (written_fields lower cn (postings_at gs) gs)"
  unfolding open_meta_def facet_meta_written [OF assms] by (simp add: facet_meta_written [OF assms] del: rd_Ok_iff)

section \<open>Where the postings are\<close>

text \<open>Category \<open>c\<close> of the reader stands for category \<open>fc\<close> of the writer.\<close>

definition placed :: "bytes \<Rightarrow> nat \<Rightarrow> facet_category \<Rightarrow> category \<Rightarrow> bool" where
  "placed bs lo fc c \<longleftrightarrow> ca_name c = fc_name fc \<and> ca_count c = fc_card fc \<and> ca_tail_dir c = None \<and>
     (let r = ca_range c in lo \<le> cr_head_off r \<and> cr_head_size r = length (fc_head fc) \<and> cr_tail_size r = length (fc_tail fc)
        \<and> cr_tail_off r = cr_head_off r + cr_head_size r \<and> cr_tail_off r + cr_tail_size r \<le> length bs
        \<and> cut bs (cr_head_off r) (cr_head_off r + cr_head_size r) = fc_head fc
        \<and> cut bs (cr_tail_off r) (cr_tail_off r + cr_tail_size r) = fc_tail fc)"

lemma placed_head [simp]: "placed bs lo fc (c\<lparr>ca_head := h\<rparr>) \<longleftrightarrow> placed bs lo fc c"
  by (simp add: placed_def)

lemma written_placed:
  assumes "bs = pre @ cat_bytes cs @ post" "length pre = off" "lo \<le> off" "length bs < U64"
  shows "list_all2 (\<lambda>fc c. placed bs lo fc c \<and> ca_head c = {}) cs (written_cats off cs)"
  using assms
proof (induction cs arbitrary: pre off)
  case (Cons c cs)
  have bs: "bs = pre @ fc_head c @ (fc_tail c @ cat_bytes cs @ post)" "bs = (pre @ fc_head c) @ fc_tail c @ (cat_bytes cs @ post)"
    using Cons.prems(1) by (simp_all add: cat_bytes_def)
  have sat: "sat_add U64 off (length (fc_head c)) = off + length (fc_head c)"
    using Cons.prems(2,4) bs(1) by (intro sat_add_exact) simp
  have "cut bs off (off + length (fc_head c)) = fc_head c"
    unfolding bs(1) using Cons.prems(2) by (rule cut_mid) simp
  moreover have "cut bs (off + length (fc_head c)) (off + length (fc_head c) + length (fc_tail c)) = fc_tail c"
    unfolding bs(2) using Cons.prems(2) by (intro cut_mid) simp_all
  moreover have "list_all2 (\<lambda>fc c. placed bs lo fc c \<and> ca_head c = {}) cs (written_cats (off + length (fc_head c) + length (fc_tail c)) cs)"
    by (rule Cons.IH [of "pre @ fc_head c @ fc_tail c"]) (use Cons.prems bs(2) in simp_all)
  moreover have "off + length (fc_head c) + length (fc_tail c) \<le> length bs" using bs(1) Cons.prems(2) by simp
  ultimately show ?case using sat Cons.prems(3) by (simp add: placed_def cat_info_def make_range_def Let_def)
qed simp

text \<open>The reader's fields against the writer's groups, category by category.\<close>

definition same_fields ::
  "(rstring \<Rightarrow> rstring) \<Rightarrow> bool \<Rightarrow> (facet_category \<Rightarrow> category \<Rightarrow> bool) \<Rightarrow> facet_group list \<Rightarrow> facet_field list \<Rightarrow> bool" where
  "same_fields lower cn R gs fds \<longleftrightarrow> list_all2 (\<lambda>g f. fd_name f = fg_name g \<and> list_all2 R (sorted_cats lower cn g) (fd_cats f)) gs fds"

lemma same_fields_mono:
  assumes "same_fields lower cn R gs fds" "\<And>fc c. R fc c \<Longrightarrow> Q fc c"
  shows "same_fields lower cn Q gs fds"
proof -
  have "list_all2 R (sorted_cats lower cn g) cs \<Longrightarrow> list_all2 Q (sorted_cats lower cn g) cs" for g cs
    by (erule list_all2_mono) (rule assms(2))
  then show ?thesis using assms(1) unfolding same_fields_def by (elim list_all2_mono) blast
qed

lemma same_fields_cats:
  "same_fields lower cn R gs fds \<Longrightarrow> list_all2 R (all_cats lower cn gs) (concat (map fd_cats fds))"
  unfolding same_fields_def all_cats_def by (induction rule: list_all2_induct) (simp_all add: list_all2_appendI)

lemma written_fields_cats: "concat (map fd_cats (written_fields lower cn off gs)) = written_cats off (all_cats lower cn gs)"
  by (induction gs arbitrary: off) (simp_all add: all_cats_def written_cats_append)

lemma written_same_fields:
  assumes "bs = pre @ cat_bytes (all_cats lower cn gs) @ post" "length pre = off" "lo \<le> off" "length bs < U64"
  shows "same_fields lower cn (\<lambda>fc c. placed bs lo fc c \<and> ca_head c = {}) gs (written_fields lower cn off gs)"
  using assms
proof (induction gs arbitrary: pre off)
  case (Cons g gs)
  let ?cs = "sorted_cats lower cn g"
  have all: "cat_bytes (all_cats lower cn (g # gs)) = cat_bytes ?cs @ cat_bytes (all_cats lower cn gs)"
    by (simp add: all_cats_def cat_bytes_def)
  have "list_all2 (\<lambda>fc c. placed bs lo fc c \<and> ca_head c = {}) ?cs (written_cats off ?cs)"
    by (rule written_placed [of bs pre ?cs "cat_bytes (all_cats lower cn gs) @ post"]) (use Cons.prems all in simp_all)
  moreover have "same_fields lower cn (\<lambda>fc c. placed bs lo fc c \<and> ca_head c = {}) gs (written_fields lower cn (off + length (cat_bytes ?cs)) gs)"
    by (rule Cons.IH [of "pre @ cat_bytes ?cs"]) (use Cons.prems all in simp_all)
  ultimately show ?case by (simp add: same_fields_def)
qed (simp add: same_fields_def)

lemma written_cats_last:
  "cs \<noteq> [] \<Longrightarrow> off + length (cat_bytes cs) < U64 \<Longrightarrow>
   (let r = ca_range (last (written_cats off cs)) in cr_tail_off r + cr_tail_size r) = off + length (cat_bytes cs)"
proof (induction off cs rule: written_cats.induct)
  case (2 off c cs)
  then show ?case
    by (cases "cs = []") (auto simp: cat_bytes_def cat_info_def make_range_def sat_add_exact Let_def neq_Nil_conv)
qed simp

lemma region_len_written:
  assumes "off + length (cat_bytes (all_cats lower cn gs)) < U64" "all_cats lower cn gs \<noteq> []"
  shows "region_len (written_fields lower cn off gs) = Ok (length (cat_bytes (all_cats lower cn gs)))"
    and "map_option cr_head_off (first_range (written_fields lower cn off gs)) = Some off"
proof -
  let ?ws = "written_cats off (all_cats lower cn gs)"
  have ne: "?ws \<noteq> []" using assms(2) by (metis length_0_conv length_written_cats)
  obtain c cs where cs: "all_cats lower cn gs = c # cs" using assms(2) by (cases "all_cats lower cn gs") auto
  have f: "first_range (written_fields lower cn off gs) = Some (ca_range (cat_info off c))"
    using cs by (simp add: first_range_def written_fields_cats)
  have "rev ?ws = last ?ws # rev (butlast ?ws)" using ne by (metis append_butlast_last_id rev.simps(2) rev_rev_ident rev_swap)
  then have l: "last_range (written_fields lower cn off gs) = Some (ca_range (last ?ws))"
    unfolding last_range_def written_fields_cats by (simp only: list.case option.map)
  show "map_option cr_head_off (first_range (written_fields lower cn off gs)) = Some off"
    using f by (simp add: cat_info_def make_range_def)
  have "cr_tail_off (ca_range (last ?ws)) + cr_tail_size (ca_range (last ?ws)) = off + length (cat_bytes (all_cats lower cn gs))"
    using written_cats_last [OF assms(2,1)] by (simp add: Let_def)
  then have "sat_add U64 (cr_tail_off (ca_range (last ?ws))) (cr_tail_size (ca_range (last ?ws))) = off + length (cat_bytes (all_cats lower cn gs))"
    using sat_add_exact assms(1) by metis
  then show "region_len (written_fields lower cn off gs) = Ok (length (cat_bytes (all_cats lower cn gs)))"
    using f l by (simp add: region_len_def Let_def cat_info_def make_range_def)
qed

end
