(* ===== verification/RR_Facet_Load.thy ===== *)
theory RR_Facet_Load imports RR_Facet_Open begin

text \<open>
  Loading the heads of a written sidecar: in one read when the postings are small, else the heads of
  the largest categories of each field.  Every head loaded is the one written.
\<close>

definition loaded :: "deserializer \<Rightarrow> bytes \<Rightarrow> nat \<Rightarrow> facet_category \<Rightarrow> category \<Rightarrow> bool" where
  "loaded deser bs lo fc c \<longleftrightarrow> placed bs lo fc c \<and> (ca_head c = {} \<or> deser (fc_head fc) = Inr (ca_head c))"

definition resident :: "deserializer \<Rightarrow> bytes \<Rightarrow> nat \<Rightarrow> facet_category \<Rightarrow> category \<Rightarrow> bool" where
  "resident deser bs lo fc c \<longleftrightarrow> placed bs lo fc c \<and> deser (fc_head fc) = Inr (ca_head c)"

definition heads_decode :: "deserializer \<Rightarrow> facet_group list \<Rightarrow> bool" where
  "heads_decode deser gs \<longleftrightarrow> (\<forall>g \<in> set gs. \<forall>c \<in> set (fg_cats g). fc_head c \<noteq> [] \<and> (\<exists>h. deser (fc_head c) = Inr h))"

section \<open>The eager path\<close>

lemma eager_cats_ok:
  assumes "list_all2 R fcs cs" "\<And>fc c. fc \<in> set fcs \<Longrightarrow> R fc c \<Longrightarrow> \<exists>h. head c = Ok h \<and> Q fc (c\<lparr>ca_head := h\<rparr>)"
  shows "\<exists>cs'. eager_cats head cs = (Ok (), cs') \<and> list_all2 Q fcs cs'"
  using assms
proof (induction fcs cs rule: list_all2_induct)
  case (Cons fc fcs c cs)
  obtain h where h: "head c = Ok h" "Q fc (c\<lparr>ca_head := h\<rparr>)" using Cons.prems Cons.hyps(1) by (meson list.set_intros(1))
  have "\<And>fc c. fc \<in> set fcs \<Longrightarrow> R fc c \<Longrightarrow> \<exists>h. head c = Ok h \<and> Q fc (c\<lparr>ca_head := h\<rparr>)" using Cons.prems by (meson list.set_intros(2))
  then obtain cs' where "eager_cats head cs = (Ok (), cs')" "list_all2 Q fcs cs'" using Cons.IH by blast
  then show ?case using h by auto
qed simp

lemma eager_fields_ok:
  assumes "same_fields lower cn R gs fds"
    "\<And>g fc c. g \<in> set gs \<Longrightarrow> fc \<in> set (fg_cats g) \<Longrightarrow> R fc c \<Longrightarrow> \<exists>h. head c = Ok h \<and> Q fc (c\<lparr>ca_head := h\<rparr>)"
  shows "\<exists>fds'. eager_fields head fds = (Ok (), fds') \<and> same_fields lower cn Q gs fds'"
  using assms unfolding same_fields_def
proof (induction gs fds rule: list_all2_induct)
  case (Cons g gs f fds)
  have "\<And>fc c. fc \<in> set (sorted_cats lower cn g) \<Longrightarrow> R fc c \<Longrightarrow> \<exists>h. head c = Ok h \<and> Q fc (c\<lparr>ca_head := h\<rparr>)"
    using Cons.prems [of g] by (simp add: sorted_cats_def)
  then obtain cs where cs: "eager_cats head (fd_cats f) = (Ok (), cs)" "list_all2 Q (sorted_cats lower cn g) cs"
    using eager_cats_ok [of R "sorted_cats lower cn g" "fd_cats f" head Q] Cons.hyps(1) by blast
  have "\<And>g fc c. g \<in> set gs \<Longrightarrow> fc \<in> set (fg_cats g) \<Longrightarrow> R fc c \<Longrightarrow> \<exists>h. head c = Ok h \<and> Q fc (c\<lparr>ca_head := h\<rparr>)"
    using Cons.prems by (meson list.set_intros(2))
  then obtain fds' where "eager_fields head fds = (Ok (), fds')"
      "list_all2 (\<lambda>g f. fd_name f = fg_name g \<and> list_all2 Q (sorted_cats lower cn g) (fd_cats f)) gs fds'" using Cons.IH by blast
  then show ?case using cs Cons.hyps(1) by (intro exI [of _ "f\<lparr>fd_cats := cs\<rparr> # fds'"]) (simp split: unit.splits)
qed simp

lemma eager_head_placed:
  assumes "placed bs P fc c" "length bs < um" "P \<le> length bs"
  shows "eager_head um deser (drop P bs) P c = deserialize deser (fc_head fc)"
proof -
  let ?o = "cr_head_off (ca_range c)" and ?n = "cr_head_size (ca_range c)"
  have p: "P \<le> ?o" "?o + ?n \<le> length bs" "cut bs ?o (?o + ?n) = fc_head fc" using assms(1) by (auto simp: placed_def Let_def)
  have m: "(?o - P) mod um = ?o - P" "?o - P + ?n < um" using p(2) assms(2) by simp_all
  have "cut (drop P bs) (?o - P) (?o - P + ?n) = cut bs ?o (?o + ?n)" using p(1) by (simp add: cut_def)
  moreover have "?o - P + ?n \<le> length (drop P bs)" using p assms(3) by simp
  ultimately show ?thesis using m p(1,3) by (simp add: eager_head_def checked_add_def Let_def)
qed

section \<open>The lazy path\<close>

lemma same_fields_nth:
  assumes "same_fields lower cn R gs fds" "fst t < length fds" "snd t < length (fd_cats (fds ! fst t))"
  shows "R (sorted_cats lower cn (gs ! fst t) ! snd t) (cat_at fds t)"
proof -
  have "list_all2 R (sorted_cats lower cn (gs ! fst t)) (fd_cats (fds ! fst t))"
    using list_all2_nthD2 [OF assms(1) [unfolded same_fields_def] assms(2)] by simp
  then show ?thesis using list_all2_nthD2 [OF _ assms(3)] by (simp add: cat_at_def)
qed

lemma set_head_same_fields:
  assumes "same_fields lower cn R gs fds" "fst t < length fds" "snd t < length (fd_cats (fds ! fst t))"
    and "R (sorted_cats lower cn (gs ! fst t) ! snd t) ((cat_at fds t)\<lparr>ca_head := h\<rparr>)"
  shows "same_fields lower cn R gs (set_head fds t h)"
proof -
  have all: "list_all2 R (sorted_cats lower cn (gs ! fst t)) (fd_cats (fds ! fst t))" "fd_name (fds ! fst t) = fg_name (gs ! fst t)"
    using list_all2_nthD2 [OF assms(1) [unfolded same_fields_def] assms(2)] by simp_all
  have "list_all2 R ((sorted_cats lower cn (gs ! fst t))[snd t := sorted_cats lower cn (gs ! fst t) ! snd t])
      ((fd_cats (fds ! fst t))[snd t := (fd_cats (fds ! fst t) ! snd t)\<lparr>ca_head := h\<rparr>])"
    using all(1) assms(4) by (intro list_all2_update_cong) (simp_all add: cat_at_def)
  then have "list_all2 (\<lambda>g f. fd_name f = fg_name g \<and> list_all2 R (sorted_cats lower cn g) (fd_cats f)) (gs[fst t := gs ! fst t])
      (set_head fds t h)"
    unfolding set_head_def Let_def using assms(1) all(2) by (intro list_all2_update_cong) (simp_all add: same_fields_def)
  then show ?thesis by (simp add: same_fields_def)
qed

lemma set_head_shape [simp]:
  "length (set_head fds t h) = length fds"
  "length (fd_cats (set_head fds t h ! i)) = length (fd_cats (fds ! i))"
  by (simp add: set_head_def Let_def) (cases "fst t < length fds"; cases "i = fst t"; simp add: set_head_def Let_def list_update_beyond)

lemma set_head_at:
  "fst t < length fds \<Longrightarrow> snd t < length (fd_cats (fds ! fst t)) \<Longrightarrow>
   cat_at (set_head fds t h) u = (if u = t then (cat_at fds t)\<lparr>ca_head := h\<rparr> else cat_at fds u)"
  by (cases u, cases t) (auto simp: cat_at_def set_head_def Let_def nth_list_update)

lemma lazy_heads_ok:
  assumes "same_fields lower cn (loaded deser bs lo) gs fds"
    and "\<forall>(t, b) \<in> set reqs. fst t < length fds \<and> snd t < length (fd_cats (fds ! fst t))
       \<and> b = fc_head (sorted_cats lower cn (gs ! fst t) ! snd t) \<and> (\<exists>h. deser b = Inr h)"
  shows "\<exists>fds'. lazy_heads deser fds reqs = (Ok (), fds') \<and> same_fields lower cn (loaded deser bs lo) gs fds'
     \<and> length fds' = length fds \<and> (\<forall>i. length (fd_cats (fds' ! i)) = length (fd_cats (fds ! i)))
     \<and> (\<forall>u. cat_at fds' u = cat_at fds u \<or> resident deser bs lo (sorted_cats lower cn (gs ! fst u) ! snd u) (cat_at fds' u))
     \<and> (\<forall>(t, b) \<in> set reqs. resident deser bs lo (sorted_cats lower cn (gs ! fst t) ! snd t) (cat_at fds' t))"
  using assms
proof (induction reqs arbitrary: fds)
  case (Cons tb reqs)
  obtain t b where tb: "tb = (t, b)" by (cases tb)
  let ?fc = "sorted_cats lower cn (gs ! fst t) ! snd t"
  obtain h where t: "fst t < length fds" "snd t < length (fd_cats (fds ! fst t))" "b = fc_head ?fc" "deser b = Inr h"
    using Cons.prems(2) tb by auto
  have R: "loaded deser bs lo ?fc (cat_at fds t)" by (rule same_fields_nth [OF Cons.prems(1) t(1,2)])
  have res: "resident deser bs lo ?fc ((cat_at fds t)\<lparr>ca_head := h\<rparr>)" using R t(3,4) by (simp add: resident_def loaded_def)
  let ?f = "set_head fds t h"
  have "same_fields lower cn (loaded deser bs lo) gs ?f"
    using res by (intro set_head_same_fields [OF Cons.prems(1) t(1,2)]) (simp add: resident_def loaded_def)
  moreover have "\<forall>(t, b) \<in> set reqs. fst t < length ?f \<and> snd t < length (fd_cats (?f ! fst t))
       \<and> b = fc_head (sorted_cats lower cn (gs ! fst t) ! snd t) \<and> (\<exists>h. deser b = Inr h)"
    using Cons.prems(2) by auto
  ultimately obtain fds' where f: "lazy_heads deser ?f reqs = (Ok (), fds')" "same_fields lower cn (loaded deser bs lo) gs fds'"
    "length fds' = length ?f" "\<forall>i. length (fd_cats (fds' ! i)) = length (fd_cats (?f ! i))"
    "\<forall>u. cat_at fds' u = cat_at ?f u \<or> resident deser bs lo (sorted_cats lower cn (gs ! fst u) ! snd u) (cat_at fds' u)"
    "\<forall>(t, b) \<in> set reqs. resident deser bs lo (sorted_cats lower cn (gs ! fst t) ! snd t) (cat_at fds' t)"
    using Cons.IH [of ?f] by blast
  have at: "cat_at ?f u = (if u = t then (cat_at fds t)\<lparr>ca_head := h\<rparr> else cat_at fds u)" for u by (rule set_head_at [OF t(1,2)])
  have "resident deser bs lo ?fc (cat_at fds' t)" using f(5) at [of t] res by metis
  moreover have "\<forall>u. cat_at fds' u = cat_at fds u \<or> resident deser bs lo (sorted_cats lower cn (gs ! fst u) ! snd u) (cat_at fds' u)"
    using f(5) at calculation by metis
  moreover have "lazy_heads deser fds (tb # reqs) = (Ok (), fds')" using t(4) f(1) by (simp add: tb deserialize_def)
  ultimately show ?case using f tb by auto
qed simp

section \<open>Opening a written sidecar\<close>

lemma top_counts_same:
  assumes "same_fields lower cn (placed bs lo) gs fds" "same_fields lower cn (placed bs lo) gs fds'" "i < length fds"
  shows "top_counts n (fds' ! i) = top_counts n (fds ! i)"
proof -
  have len: "length fds' = length fds"
    using list_all2_lengthD [OF assms(1) [unfolded same_fields_def]] list_all2_lengthD [OF assms(2) [unfolded same_fields_def]] by simp
  have f: "list_all2 (placed bs lo) (sorted_cats lower cn (gs ! i)) (fd_cats (fds ! i))"
    "list_all2 (placed bs lo) (sorted_cats lower cn (gs ! i)) (fd_cats (fds' ! i))"
    using list_all2_nthD2 [OF assms(1) [unfolded same_fields_def] assms(3)]
      list_all2_nthD2 [OF assms(2) [unfolded same_fields_def], of i] assms(3) len by simp_all
  have l: "length (fd_cats (fds' ! i)) = length (fd_cats (fds ! i))" using f by (metis list_all2_lengthD)
  have "ca_count (fd_cats (fds' ! i) ! j) = ca_count (fd_cats (fds ! i) ! j)" if "j < length (fd_cats (fds ! i))" for j
    using list_all2_nthD2 [OF f(1) that] list_all2_nthD2 [OF f(2), of j] that l by (simp add: placed_def)
  then have "sort_key (\<lambda>j. - int (ca_count (fd_cats (fds' ! i) ! j))) [0..<length (fd_cats (fds ! i))]
      = sort_key (\<lambda>j. - int (ca_count (fd_cats (fds ! i) ! j))) [0..<length (fd_cats (fds ! i))]"
    by (intro sort_key_same) simp
  then show ?thesis by (simp add: top_counts_def l)
qed

lemma top_counts_bound: "j \<in> set (top_counts n f) \<Longrightarrow> j < length (fd_cats f)"
  by (auto simp: top_counts_def dest: in_set_takeD)

lemma sorted_cat_mem:
  assumes "same_fields lower cn R gs fds" "fst t < length fds" "snd t < length (fd_cats (fds ! fst t))"
  shows "gs ! fst t \<in> set gs \<and> sorted_cats lower cn (gs ! fst t) ! snd t \<in> set (fg_cats (gs ! fst t))"
proof -
  have "list_all2 R (sorted_cats lower cn (gs ! fst t)) (fd_cats (fds ! fst t))" "length gs = length fds"
    using list_all2_nthD2 [OF assms(1) [unfolded same_fields_def] assms(2)] assms(1) by (auto simp: same_fields_def dest: list_all2_lengthD)
  then have "snd t < length (sorted_cats lower cn (gs ! fst t))" "fst t < length gs" using assms(2,3) by (auto dest: list_all2_lengthD)
  then show ?thesis using nth_mem [of "snd t" "sorted_cats lower cn (gs ! fst t)"] by (simp add: sorted_cats_def)
qed

lemma facet_open_written:
  assumes w: "write_facets_with lower gs cn = Ok bs" and small: "small_facets gs" and um: "length bs < um" "um \<le> U64"
    and dec: "heads_decode deser gs"
  shows "\<exists>fds. facet_open_tuned um deser (mem_read um (mem_new bs)) eager_limit top_n = Ok fds
     \<and> same_fields lower cn (loaded deser bs (postings_at gs)) gs fds
     \<and> (length (cat_bytes (all_cats lower cn gs)) \<le> eager_limit \<longrightarrow> same_fields lower cn (resident deser bs (postings_at gs)) gs fds)
     \<and> (\<forall>i < length fds. \<forall>j \<in> set (top_counts top_n (fds ! i)). resident deser bs (postings_at gs) (sorted_cats lower cn (gs ! i) ! j) (cat_at fds (i, j)))"
proof -
  let ?f = "mem_read um (mem_new bs)" and ?P = "postings_at gs" and ?cs = "all_cats lower cn gs"
  have b64: "length bs < U64" using um by linarith
  note meta = from_meta_written [OF w small um(1)]
  let ?fds = "written_fields lower cn ?P gs"
  have opens: "facet_open_tuned um deser ?f eager_limit top_n
      = (let (r, fds') = load_heads_tuned um deser ?f eager_limit top_n ?fds in bind_o r (\<lambda>_. Ok fds'))"
    unfolding facet_open_tuned_def facet_meta_written [OF w small um(1) b64] bind_o.simps by (simp only: facet_meta_written [OF w small um(1) b64] bind_o.simps)
  have P: "?P \<le> length bs" "bs = take ?P bs @ cat_bytes ?cs @ []" using meta append_take_drop_id [of ?P bs] by simp_all
  have lenbs: "length bs = ?P + length (cat_bytes ?cs)" using arg_cong [OF P(2), of length] P(1) by simp
  have sf: "same_fields lower cn (\<lambda>fc c. placed bs ?P fc c \<and> ca_head c = {}) gs ?fds"
    by (rule written_same_fields [OF P(2)]) (use P(1) b64 in simp_all)
  have ld: "same_fields lower cn (loaded deser bs ?P) gs ?fds" by (rule same_fields_mono [OF sf]) (simp add: loaded_def)
  have pl: "same_fields lower cn (placed bs ?P) gs ?fds" by (rule same_fields_mono [OF sf]) simp
  show ?thesis
  proof (cases "?cs = []")
    case True
    have cats: "concat (map fd_cats ?fds) = []" using True by (simp add: written_fields_cats)
    then have "region_len ?fds = Ok 0" unfolding region_len_def first_range_def cats by simp
    then have "facet_open_tuned um deser ?f eager_limit top_n = Ok ?fds" by (simp add: opens load_heads_tuned_def)
    moreover have nil: "\<forall>f \<in> set ?fds. fd_cats f = []" using cats by simp
    moreover have "same_fields lower cn (resident deser bs ?P) gs ?fds"
    proof -
      have "list_all2 (\<lambda>g f. f \<in> set ?fds \<and> fd_name f = fg_name g \<and> list_all2 (placed bs ?P) (sorted_cats lower cn g) (fd_cats f)) gs ?fds"
        using pl by (auto simp: same_fields_def list_all2_conv_all_nth)
      then show ?thesis unfolding same_fields_def by (rule list_all2_mono) (use nil in auto)
    qed
    ultimately show ?thesis using ld top_counts_bound nth_mem by (metis length_0_conv less_nat_zero_code)
  next
    case False
    obtain fc where fc: "fc \<in> set ?cs" using False by (cases ?cs) auto
    then obtain g where "g \<in> set gs" "fc \<in> set (fg_cats g)" by (auto simp: set_all_cats)
    then have "fc_head fc \<noteq> []" using dec by (simp add: heads_decode_def)
    then have "fc_head fc @ fc_tail fc \<noteq> []" by simp
    then have ne: "0 < length (cat_bytes ?cs)" using fc unfolding cat_bytes_def by (metis (mono_tags, lifting) concat_eq_Nil_conv image_eqI length_greater_0_conv list.set_map)
    have reg: "region_len ?fds = Ok (length (cat_bytes ?cs))" "map_option cr_head_off (first_range ?fds) = Some ?P"
      using region_len_written [of ?P lower cn gs] False b64 lenbs by simp_all
    have start: "cr_head_off (the (first_range ?fds)) = ?P" using reg(2) by auto
    show ?thesis
    proof (cases "length (cat_bytes ?cs) \<le> eager_limit")
      case True
      have blob: "rd ?f ?P (length (cat_bytes ?cs)) = Ok (drop ?P bs)"
        using memf.rd_ok [of ?P "length (cat_bytes ?cs)" bs um] lenbs um(1) by (simp add: cut_def)
      have head: "\<exists>h. eager_head um deser (drop ?P bs) ?P c = Ok h \<and> resident deser bs ?P fc (c\<lparr>ca_head := h\<rparr>)"
        if in_g: "g \<in> set gs" "fc \<in> set (fg_cats g)" and pc: "placed bs ?P fc c" for g fc c
      proof -
        obtain h where "deser (fc_head fc) = Inr h" using dec in_g by (auto simp: heads_decode_def)
        then show ?thesis using pc eager_head_placed [OF pc um(1) P(1), of deser] by (simp add: resident_def)
      qed
      have "\<exists>fds'. eager_fields (eager_head um deser (drop ?P bs) ?P) ?fds = (Ok (), fds') \<and> same_fields lower cn (resident deser bs ?P) gs fds'"
        by (rule eager_fields_ok [OF pl head])
      then obtain fds' where f: "eager_fields (eager_head um deser (drop ?P bs) ?P) ?fds = (Ok (), fds')"
          "same_fields lower cn (resident deser bs ?P) gs fds'" by blast
      have "facet_open_tuned um deser ?f eager_limit top_n = Ok fds'"
        unfolding opens load_heads_tuned_def reg(1) start using True ne f(1) blob by (simp del: rd_Ok_iff)
      moreover have "same_fields lower cn (loaded deser bs ?P) gs fds'" by (rule same_fields_mono [OF f(2)]) (simp add: resident_def loaded_def)
      moreover have "resident deser bs ?P (sorted_cats lower cn (gs ! i) ! j) (cat_at fds' (i, j))"
        if "i < length fds'" "j \<in> set (top_counts top_n (fds' ! i))" for i j
        using same_fields_nth [OF f(2), of "(i, j)"] that top_counts_bound by simp
      ultimately show ?thesis using f(2) by blast
    next
      case False
      define reqs where "reqs = concat (map (\<lambda>(fi, fd). map (Pair fi) (top_counts top_n fd)) (enumerate 0 ?fds))"
      have mem: "t \<in> set reqs \<longleftrightarrow> fst t < length ?fds \<and> snd t \<in> set (top_counts top_n (?fds ! fst t))" for t
        by (cases t) (force simp: reqs_def in_set_enumerate_eq)
      have at: "fst t < length ?fds" "snd t < length (fd_cats (?fds ! fst t))" if "t \<in> set reqs" for t
        using that top_counts_bound mem by blast+
      let ?fc = "\<lambda>t. sorted_cats lower cn (gs ! fst t) ! snd t"
      have plt: "placed bs ?P (?fc t) (cat_at ?fds t)" if "t \<in> set reqs" for t by (rule same_fields_nth [OF pl at [OF that]])
      have cuts: "map (\<lambda>(off, len). cut bs off (off + len)) (map (\<lambda>t. head_range (ca_range (cat_at ?fds t))) reqs) = map (fc_head \<circ> ?fc) reqs"
        unfolding map_map
      proof (rule map_cong [OF refl])
        fix t assume "t \<in> set reqs"
        then show "((\<lambda>(off, len). cut bs off (off + len)) \<circ> (\<lambda>t. head_range (ca_range (cat_at ?fds t)))) t = (fc_head \<circ> ?fc) t"
          using plt [of t] unfolding placed_def Let_def by (auto simp: head_range_def)
      qed
      have "read_coalesced um ?f (map (\<lambda>t. head_range (ca_range (cat_at ?fds t))) reqs) coalesce_gap
          = Ok (map (\<lambda>(off, len). cut bs off (off + len)) (map (\<lambda>t. head_range (ca_range (cat_at ?fds t))) reqs))"
      proof (rule memf.coalesced_ok)
        fix off len assume "(off, len) \<in> set (map (\<lambda>t. head_range (ca_range (cat_at ?fds t))) reqs)"
        then obtain t where "t \<in> set reqs" "(off, len) = head_range (ca_range (cat_at ?fds t))" unfolding set_map by blast
        then show "off + len \<le> length bs" using plt [of t] by (auto simp: head_range_def placed_def Let_def)
      qed (use um b64 in simp_all)
      note datas = this [unfolded cuts]
      have zip: "zip reqs (map (fc_head \<circ> ?fc) reqs) = map (\<lambda>t. (t, fc_head (?fc t))) reqs" by (simp add: zip_map2 zip_same_conv_map)
      have "\<forall>(t, b) \<in> set (zip reqs (map (fc_head \<circ> ?fc) reqs)). fst t < length ?fds \<and> snd t < length (fd_cats (?fds ! fst t))
         \<and> b = fc_head (?fc t) \<and> (\<exists>h. deser b = Inr h)"
      proof -
        have "\<exists>h. deser (fc_head (?fc t)) = Inr h" if "t \<in> set reqs" for t
          using sorted_cat_mem [OF pl at [OF that]] dec by (auto simp: heads_decode_def)
        then show ?thesis unfolding zip using at by auto
      qed
      then obtain fds' where f: "lazy_heads deser ?fds (zip reqs (map (fc_head \<circ> ?fc) reqs)) = (Ok (), fds')"
          "same_fields lower cn (loaded deser bs ?P) gs fds'" "length fds' = length ?fds"
          "\<forall>(t, b) \<in> set (zip reqs (map (fc_head \<circ> ?fc) reqs)). resident deser bs ?P (?fc t) (cat_at fds' t)"
        using lazy_heads_ok [OF ld] by blast
      have "facet_open_tuned um deser ?f eager_limit top_n = Ok fds'"
        unfolding opens load_heads_tuned_def reg(1)
        using False ne f(1) datas by (simp flip: reqs_def)
      moreover have "resident deser bs ?P (?fc (i, j)) (cat_at fds' (i, j))"
        if "i < length fds'" "j \<in> set (top_counts top_n (fds' ! i))" for i j
      proof -
        have "same_fields lower cn (placed bs ?P) gs fds'" by (rule same_fields_mono [OF f(2)]) (simp add: loaded_def)
        then have "(i, j) \<in> set reqs" unfolding mem using top_counts_same [OF pl, of fds' i top_n] that f(3) by simp
        then show ?thesis using f(4) unfolding zip by auto
      qed
      ultimately show ?thesis using f(2) False by auto
    qed
  qed
qed

end
