(* ===== verification/RR_Facet_Store.thy ===== *)
theory RR_Facet_Store imports RR_Facet_Load RR_Build begin

text \<open>
  The facet sidecar of a split, from the documents of its categories (\<open>facet_fields\<close> of
  \<open>rust/src/splitset_build.rs\<close>, then \<open>write_facets_with\<close>) to the reader: what an opened
  sidecar holds, and the filters its selections resolve to.
\<close>

text \<open>\<open>BTreeMap<String, BTreeMap<String, RoaringBitmap>>\<close> as its sorted entries.\<close>

type_synonym facet_map = "(rstring \<times> (rstring \<times> nat set) list) list"

definition facet_fields :: "(nat set \<Rightarrow> bytes) \<Rightarrow> facet_map \<Rightarrow> nat \<Rightarrow> facet_group list" where
  "facet_fields ser facets head_boundary =
     map (\<lambda>(name, cats). \<lparr>fg_name = name, fg_cats = map (\<lambda>(cname, bm).
       let (head, tail) = split_posting ser bm head_boundary in
       \<lparr>fc_name = cname, fc_card = card bm mod U32, fc_head = head, fc_tail = tail\<rparr>) cats\<rparr>) facets"

section \<open>What an opened sidecar holds\<close>

definition facet_map_ok :: "facet_map \<Rightarrow> bool" where
  "facet_map_ok facets \<longleftrightarrow> length facets < U32 \<and> distinct (map fst facets)
     \<and> (\<forall>(f, cats) \<in> set facets. list_all scalar f \<and> length cats < U32 \<and> distinct (map fst cats)
          \<and> (\<forall>(c, S) \<in> set cats. list_all scalar c \<and> S \<subseteq> {..<U32}))"

definition facet_names_len :: "facet_map \<Rightarrow> nat" where
  "facet_names_len facets = sum_list (map (\<lambda>(f, cats). length (utf8_bytes f) + sum_list (map (\<lambda>(c, _). length (utf8_bytes c)) cats)) facets)"

definition facet_order :: "(rstring \<Rightarrow> rstring) \<Rightarrow> bool \<Rightarrow> rstring \<Rightarrow> (rstring \<times> nat set) list \<Rightarrow> (rstring \<times> nat set) list" where
  "facet_order lower cn f cats = sort_key (\<lambda>(c, _). facet_key lower f c cn) cats"

text \<open>The reader's category \<open>c\<close> is the one the documents \<open>S\<close> were written for.\<close>

definition cat_stored :: "(nat set \<Rightarrow> bytes) \<Rightarrow> bytes \<Rightarrow> nat set \<Rightarrow> category \<Rightarrow> bool" where
  "cat_stored ser bs S c \<longleftrightarrow> S \<subseteq> {..<U32} \<and> ca_count c = card S mod U32 \<and> ca_tail_dir c = None \<and> ca_head c \<in> {{}, S \<inter> {..<65536}} \<and>
     (let r = ca_range c in cr_head_off r + cr_head_size r \<le> length bs \<and> cr_tail_off r + cr_tail_size r \<le> length bs
        \<and> cr_tail_off r = cr_head_off r + cr_head_size r
        \<and> cut bs (cr_head_off r) (cr_head_off r + cr_head_size r) = ser (S \<inter> {..<65536})
        \<and> cut bs (cr_tail_off r) (cr_tail_off r + cr_tail_size r) = ser (S - {..<65536}))"

definition open_facets :: "(rstring \<Rightarrow> rstring) \<Rightarrow> bool \<Rightarrow> (nat set \<Rightarrow> bytes) \<Rightarrow> bytes \<Rightarrow> facet_map \<Rightarrow> facet_field list \<Rightarrow> bool" where
  "open_facets lower cn ser bs facets fds \<longleftrightarrow> list_all2 (\<lambda>(f, cats) fd. fd_name fd = f
     \<and> list_all2 (\<lambda>(n, S) c. ca_name c = n \<and> cat_stored ser bs S c) (facet_order lower cn f cats) (fd_cats fd)) facets fds"

lemma sorted_cats_facet_fields:
  "sorted_cats lower cn \<lparr>fg_name = f, fg_cats = map (\<lambda>(cname, bm).
       let (head, tail) = split_posting ser bm hb in
       \<lparr>fc_name = cname, fc_card = card bm mod U32, fc_head = head, fc_tail = tail\<rparr>) cats\<rparr>
   = map (\<lambda>(cname, bm). let (head, tail) = split_posting ser bm hb in
       \<lparr>fc_name = cname, fc_card = card bm mod U32, fc_head = head, fc_tail = tail\<rparr>) (facet_order lower cn f cats)"
proof -
  have "key_of lower cn f \<circ> (\<lambda>(cname, bm). let (head, tail) = split_posting ser bm hb in
       \<lparr>fc_name = cname, fc_card = card bm mod U32, fc_head = head, fc_tail = tail\<rparr>) = (\<lambda>(c, _). facet_key lower f c cn)"
    by (auto simp: fun_eq_iff key_of_def split_posting_def)
  then show ?thesis by (simp add: sorted_cats_def facet_order_def flip: map_sort_key)
qed

context roaring
begin

lemma ser_decode: "s \<subseteq> {..<U32} \<Longrightarrow> deser (ser s) = Inr s \<and> ser s \<noteq> []"
proof -
  assume "s \<subseteq> {..<U32}"
  then obtain sel where sel: "well_formed sel" "docs sel = s" "ser s = assemble sel" using ser_assemble by blast
  have "length (assemble sel) \<noteq> 0" by (simp add: length_assemble data_start_def)
  then show ?thesis using sel deser_assemble by auto
qed

end

lemma facet_order_set [simp]: "set (facet_order lower cn f cats) = set cats" "length (facet_order lower cn f cats) = length cats"
  by (simp_all add: facet_order_def)

definition made :: "(nat set \<Rightarrow> bytes) \<Rightarrow> rstring \<times> nat set \<Rightarrow> facet_category" where
  "made ser = (\<lambda>(n, S). \<lparr>fc_name = n, fc_card = card S mod U32, fc_head = ser (S \<inter> {..<65536}), fc_tail = ser (S - {..<65536})\<rparr>)"

lemma facet_fields_made:
  "facet_fields ser facets 65536 = map (\<lambda>(f, cats). \<lparr>fg_name = f, fg_cats = map (made ser) cats\<rparr>) facets"
  by (auto simp: facet_fields_def made_def split_posting_def lessThan_atLeast0 Int_commute)

lemma made_sorted:
  "sorted_cats lower cn \<lparr>fg_name = f, fg_cats = map (made ser) cats\<rparr> = map (made ser) (facet_order lower cn f cats)"
proof -
  have "key_of lower cn f \<circ> made ser = (\<lambda>(c, _). facet_key lower f c cn)" by (auto simp: fun_eq_iff key_of_def made_def)
  then show ?thesis by (simp add: sorted_cats_def facet_order_def flip: map_sort_key)
qed

lemma length_name_blob: "length (name_blob (facet_fields ser facets hb)) = facet_names_len facets"
proof -
  have "length (concat (map (utf8_bytes \<circ> fc_name) (map (\<lambda>(cname, bm). let (head, tail) = split_posting ser bm hb in
      \<lparr>fc_name = cname, fc_card = card bm mod U32, fc_head = head, fc_tail = tail\<rparr>) cats)))
    = sum_list (map (\<lambda>(c, _). length (utf8_bytes c)) cats)" for cats :: "(rstring \<times> nat set) list"
    by (induction cats) (auto simp: split_posting_def)
  then show ?thesis unfolding name_blob_def facet_fields_def facet_names_len_def by (induction facets) auto
qed

lemma small_facet_fields:
  assumes "facet_map_ok facets" "facet_names_len facets < U32"
  shows "small_facets (facet_fields ser facets hb)"
  using assms length_name_blob [of ser facets hb]
  by (fastforce simp: small_facets_def facet_map_ok_def facet_fields_def split_posting_def)

context roaring
begin

lemma facet_fields_decode:
  assumes "facet_map_ok facets"
  shows "heads_decode deser (facet_fields ser facets 65536)"
proof -
  have "ser (S \<inter> {..<65536}) \<noteq> [] \<and> (\<exists>h. deser (ser (S \<inter> {..<65536})) = Inr h)" if "S \<subseteq> {..<U32}" for S
    using ser_decode [of "S \<inter> {..<65536}"] that by blast
  then show ?thesis using assms by (fastforce simp: heads_decode_def facet_fields_made made_def facet_map_ok_def)
qed

lemma made_stored:
  assumes "loaded deser bs lo (made ser (n, S)) c" "S \<subseteq> {..<U32}"
  shows "ca_name c = n \<and> cat_stored ser bs S c"
proof -
  have "deser (ser (S \<inter> {..<65536})) = Inr (S \<inter> {..<65536})" using ser_decode [of "S \<inter> {..<65536}"] assms(2) by blast
  then show ?thesis using assms by (auto simp: loaded_def placed_def made_def cat_stored_def Let_def)
qed

lemma made_resident:
  assumes "resident deser bs lo (made ser (n, S)) c" "S \<subseteq> {..<U32}"
  shows "ca_head c = S \<inter> {..<65536}"
  using assms ser_decode [of "S \<inter> {..<65536}"] by (auto simp: resident_def made_def)

lemma same_fields_open:
  assumes "facet_map_ok facets" "same_fields lower cn (loaded deser bs lo) (facet_fields ser facets 65536) fds"
  shows "open_facets lower cn ser bs facets fds"
  using assms
proof (induction facets arbitrary: fds)
  case (Cons x facets)
  obtain f cats where x: "x = (f, cats)" by (cases x)
  have ok: "facet_map_ok facets" "\<forall>(n, S) \<in> set cats. S \<subseteq> {..<U32}" using Cons.prems(1) by (auto simp: x facet_map_ok_def)
  obtain fd fds' where fds: "fds = fd # fds'" "fd_name fd = f"
      "list_all2 (loaded deser bs lo) (map (made ser) (facet_order lower cn f cats)) (fd_cats fd)"
      "same_fields lower cn (loaded deser bs lo) (facet_fields ser facets 65536) fds'"
    using Cons.prems(2) by (auto simp: x facet_fields_made same_fields_def made_sorted list_all2_Cons1)
  have "list_all2 (\<lambda>(n, S) c. ca_name c = n \<and> cat_stored ser bs S c) (facet_order lower cn f cats) (fd_cats fd)"
    unfolding list_all2_conv_all_nth
  proof (intro conjI allI impI)
    show l: "length (facet_order lower cn f cats) = length (fd_cats fd)" using fds(3) by (auto dest: list_all2_lengthD)
    fix i assume i: "i < length (facet_order lower cn f cats)"
    obtain n S where nS: "facet_order lower cn f cats ! i = (n, S)" by (cases "facet_order lower cn f cats ! i")
    have "(n, S) \<in> set cats" using nth_mem [OF i] nS by simp
    then have "S \<subseteq> {..<U32}" using ok(2) by auto
    moreover have "loaded deser bs lo (made ser (n, S)) (fd_cats fd ! i)" using list_all2_nthD [OF fds(3), of i] i nS by simp
    ultimately show "(case facet_order lower cn f cats ! i of (n, S) \<Rightarrow> \<lambda>c. ca_name c = n \<and> cat_stored ser bs S c) (fd_cats fd ! i)"
      using made_stored nS by simp
  qed
  then show ?case using Cons.IH [OF ok(1) fds(4)] fds(1,2) by (simp add: x open_facets_def)
qed (simp add: open_facets_def same_fields_def facet_fields_def)

end

section \<open>Categories by name\<close>

definition docs_of :: "facet_map \<Rightarrow> rstring \<Rightarrow> rstring \<Rightarrow> nat set" where
  "docs_of facets f c = (case map_of facets f of None \<Rightarrow> {} | Some cats \<Rightarrow> (case map_of cats c of None \<Rightarrow> {} | Some S \<Rightarrow> S))"

lemma open_facets_cat:
  assumes "facet_map_ok facets" "open_facets lower cn ser bs facets fds" "fd \<in> set fds" "c \<in> set (fd_cats fd)"
  shows "cat_stored ser bs (docs_of facets (fd_name fd) (ca_name c)) c"
proof -
  obtain i where i: "i < length fds" "fd = fds ! i" using assms(3) by (auto simp: in_set_conv_nth)
  obtain f cats where fc: "facets ! i = (f, cats)" by (cases "facets ! i")
  have len: "length facets = length fds" using assms(2) by (auto simp: open_facets_def dest: list_all2_lengthD)
  have fd: "fd_name fd = f" "list_all2 (\<lambda>(n, S) c. ca_name c = n \<and> cat_stored ser bs S c) (facet_order lower cn f cats) (fd_cats fd)"
    using list_all2_nthD2 [OF assms(2) [unfolded open_facets_def] i(1)] i(2) fc by simp_all
  have mem: "(f, cats) \<in> set facets" using nth_mem [of i facets] fc i(1) len by simp
  obtain j where j: "j < length (fd_cats fd)" "c = fd_cats fd ! j" using assms(4) by (auto simp: in_set_conv_nth)
  obtain n S where nS: "facet_order lower cn f cats ! j = (n, S)" by (cases "facet_order lower cn f cats ! j")
  have cs: "ca_name c = n" "cat_stored ser bs S c" using list_all2_nthD2 [OF fd(2) j(1)] j(2) nS by simp_all
  have "j < length (facet_order lower cn f cats)" using j(1) list_all2_lengthD [OF fd(2)] by simp
  then have "(n, S) \<in> set cats" using nth_mem [of j "facet_order lower cn f cats"] nS by simp
  then have "docs_of facets f n = S" using mem assms(1) by (force simp: docs_of_def facet_map_ok_def map_of_eq_Some_iff)
  then show ?thesis using cs fd(1) by simp
qed

lemma open_facets_names:
  assumes "open_facets lower cn ser bs facets fds"
  shows "map fd_name fds = map fst facets"
    and "\<forall>i < length fds. ca_name ` set (fd_cats (fds ! i)) = fst ` set (snd (facets ! i))"
proof -
  have len: "length facets = length fds" using assms by (auto simp: open_facets_def dest: list_all2_lengthD)
  have fd: "fd_name (fds ! i) = fst (facets ! i) \<and>
      list_all2 (\<lambda>(n, S) c. ca_name c = n \<and> cat_stored ser bs S c) (facet_order lower cn (fst (facets ! i)) (snd (facets ! i))) (fd_cats (fds ! i))"
    if "i < length fds" for i
    using list_all2_nthD2 [OF assms [unfolded open_facets_def] that] by (auto split: prod.splits)
  show "map fd_name fds = map fst facets" using len fd by (simp add: list_eq_iff_nth_eq)
  have names: "list_all2 (\<lambda>(n, S) c. ca_name c = n \<and> cat_stored ser bs S c) xs cs \<Longrightarrow> map ca_name cs = map fst xs" for xs cs
    by (induction xs cs rule: list_all2_induct) auto
  show "\<forall>i < length fds. ca_name ` set (fd_cats (fds ! i)) = fst ` set (snd (facets ! i))"
  proof (intro allI impI)
    fix i assume "i < length fds"
    then have "map ca_name (fd_cats (fds ! i)) = map fst (facet_order lower cn (fst (facets ! i)) (snd (facets ! i)))" using names fd by blast
    then have "set (map ca_name (fd_cats (fds ! i))) = set (map fst (facet_order lower cn (fst (facets ! i)) (snd (facets ! i))))" by simp
    then show "ca_name ` set (fd_cats (fds ! i)) = fst ` set (snd (facets ! i))" by simp
  qed
qed

lemma find_category_None:
  assumes ok: "facet_map_ok facets" and op: "open_facets lower cn ser bs facets fds" and none: "find_category fds f c = None"
  shows "docs_of facets f c = {}"
proof (rule ccontr)
  assume "docs_of facets f c \<noteq> {}"
  then obtain cats S where cs: "map_of facets f = Some cats" "map_of cats c = Some S" by (auto simp: docs_of_def split: option.splits)
  obtain fd where fd: "find (\<lambda>x. fd_name x = f) fds = Some fd"
  proof (cases "find (\<lambda>x. fd_name x = f) fds")
    case None
    then have "f \<notin> set (map fd_name fds)" by (auto simp: find_None_iff)
    then have "map_of facets f = None" unfolding open_facets_names(1) [OF op] by (simp add: map_of_eq_None_iff)
    then show ?thesis using cs(1) by simp
  qed blast
  then obtain i where i: "i < length fds" "fds ! i = fd" "fd_name fd = f" by (auto simp: find_Some_iff)
  have len: "length facets = length fds" using op by (auto simp: open_facets_def dest: list_all2_lengthD)
  have "fst (facets ! i) = f" using open_facets_names(1) [OF op] i len by (metis nth_map)
  then have "(f, snd (facets ! i)) \<in> set facets" using nth_mem [of i facets] i(1) len by (metis prod.collapse)
  then have "cats = snd (facets ! i)" using ok cs(1) by (force simp: facet_map_ok_def map_of_eq_Some_iff)
  then have "c \<in> ca_name ` set (fd_cats fd)" using cs(2) open_facets_names(2) [OF op] i by (force dest: map_of_SomeD)
  then have "find (\<lambda>x. ca_name x = c) (fd_cats fd) \<noteq> None" by (auto simp: find_None_iff)
  then show False using none fd by (simp add: find_category_def)
qed

lemma find_category_Some:
  assumes "facet_map_ok facets" "open_facets lower cn ser bs facets fds" "find_category fds f c = Some cat"
  shows "ca_name cat = c \<and> cat_stored ser bs (docs_of facets f c) cat"
proof -
  obtain fd where fd: "find (\<lambda>x. fd_name x = f) fds = Some fd" "find (\<lambda>x. ca_name x = c) (fd_cats fd) = Some cat"
    using assms(3) by (auto simp: find_category_def bind_eq_Some_conv)
  then have "fd \<in> set fds" "cat \<in> set (fd_cats fd)" "fd_name fd = f" "ca_name cat = c" by (auto simp: find_Some_iff)
  then show ?thesis using open_facets_cat [OF assms(1,2)] by blast
qed

section \<open>Opening\<close>

context roaring
begin

lemma facets_opened:
  assumes w: "write_facets_with lower (facet_fields ser facets 65536) cn = Ok bs"
    and ok: "facet_map_ok facets" "facet_names_len facets < U32" and um: "length bs < um" "um \<le> U64"
  shows "\<exists>fds. facet_open_tuned um deser (mem_read um (mem_new bs)) eager_limit top_n = Ok fds
    \<and> open_facets lower cn ser bs facets fds
    \<and> (\<forall>i < length fds. \<forall>j < length (fd_cats (fds ! i)). length bs \<le> eager_limit \<or> j \<in> set (top_counts top_n (fds ! i)) \<longrightarrow>
         ca_head (cat_at fds (i, j)) = docs_of facets (fd_name (fds ! i)) (ca_name (cat_at fds (i, j))) \<inter> {..<65536})"
proof -
  let ?gs = "facet_fields ser facets 65536"
  note small = small_facet_fields [OF ok]
  obtain fds where fds: "facet_open_tuned um deser (mem_read um (mem_new bs)) eager_limit top_n = Ok fds"
     "same_fields lower cn (loaded deser bs (postings_at ?gs)) ?gs fds"
     "length (cat_bytes (all_cats lower cn ?gs)) \<le> eager_limit \<longrightarrow> same_fields lower cn (resident deser bs (postings_at ?gs)) ?gs fds"
     "\<forall>i < length fds. \<forall>j \<in> set (top_counts top_n (fds ! i)). resident deser bs (postings_at ?gs) (sorted_cats lower cn (?gs ! i) ! j) (cat_at fds (i, j))"
    using facet_open_written [OF w small um facet_fields_decode [OF ok(1)]] by blast
  have op: "open_facets lower cn ser bs facets fds" by (rule same_fields_open [OF ok(1) fds(2)])
  have "length (cat_bytes (all_cats lower cn ?gs)) \<le> length bs"
    using from_meta_written [OF w small um(1)] by (metis diff_le_self length_drop)
  then have eager: "resident deser bs (postings_at ?gs) (sorted_cats lower cn (?gs ! i) ! j) (cat_at fds (i, j))"
    if "length bs \<le> eager_limit" "i < length fds" "j < length (fd_cats (fds ! i))" for i j
    using fds(3) that same_fields_nth [of lower cn _ ?gs fds "(i, j)"] by (metis fst_conv le_trans snd_conv)
  have len: "length facets = length fds" using op by (auto simp: open_facets_def dest: list_all2_lengthD)
  have "ca_head (cat_at fds (i, j)) = docs_of facets (fd_name (fds ! i)) (ca_name (cat_at fds (i, j))) \<inter> {..<65536}"
    if ij: "i < length fds" "j < length (fd_cats (fds ! i))"
      and res: "resident deser bs (postings_at ?gs) (sorted_cats lower cn (?gs ! i) ! j) (cat_at fds (i, j))" for i j
  proof -
    let ?c = "cat_at fds (i, j)"
    have "?c \<in> set (fd_cats (fds ! i))" using ij by (simp add: cat_at_def)
    then have st: "cat_stored ser bs (docs_of facets (fd_name (fds ! i)) (ca_name ?c)) ?c" using open_facets_cat [OF ok(1) op] ij(1) by simp
    let ?S = "docs_of facets (fd_name (fds ! i)) (ca_name ?c)" and ?r = "ca_range ?c"
    have "deser (ser (?S \<inter> {..<65536})) = Inr (?S \<inter> {..<65536})" using st ser_decode [of "?S \<inter> {..<65536}"] by (auto simp: cat_stored_def)
    moreover have "cut bs (cr_head_off ?r) (cr_head_off ?r + cr_head_size ?r) = ser (?S \<inter> {..<65536})" using st by (simp add: cat_stored_def Let_def)
    moreover have "deser (cut bs (cr_head_off ?r) (cr_head_off ?r + cr_head_size ?r)) = Inr (ca_head ?c)"
      using res unfolding resident_def placed_def Let_def by metis
    ultimately show ?thesis by simp
  qed
  then show ?thesis using fds(1,4) op eager by blast
qed

end

end
