(* ===== verification/RR_Facet_Filter.thy ===== *)
theory RR_Facet_Filter imports RR_Facet_Store begin

text \<open>
  From facet selections to documents: \<open>resolve_sels\<close> over an opened sidecar yields a filter
  that keeps exactly the documents the selections describe.
\<close>

section \<open>Grouping by field\<close>

definition tree_inv :: "(rstring \<times> 'v) list \<Rightarrow> bool" where
  "tree_inv m \<longleftrightarrow> sorted_wrt (\<lambda>a b. utf8_bytes (fst a) \<le> utf8_bytes (fst b)) m \<and> distinct (map fst m)"

lemma btree_entry_keys: "fst ` set (btree_entry k d g m) = insert k (fst ` set m)"
  by (induction k d g m rule: btree_entry.induct) auto

lemma btree_entry_map:
  assumes "tree_inv m"
  shows "tree_inv (btree_entry k d g m) \<and> map_of (btree_entry k d g m) = (map_of m)(k \<mapsto> g (case map_of m k of None \<Rightarrow> d | Some v \<Rightarrow> v))"
  using assms
proof (induction k d g m rule: btree_entry.induct)
  case (2 k d g u v m)
  have inv: "tree_inv m" "\<forall>x \<in> set m. utf8_bytes u \<le> utf8_bytes (fst x)" "u \<notin> fst ` set m" using 2(2) by (auto simp: tree_inv_def)
  consider (less) "utf8_bytes k < utf8_bytes u" | (eq) "\<not> utf8_bytes k < utf8_bytes u" "k = u" | (more) "\<not> utf8_bytes k < utf8_bytes u" "k \<noteq> u" by blast
  then show ?case
  proof cases
    case less
    then have "k \<noteq> u" "\<forall>x \<in> set m. utf8_bytes k < utf8_bytes (fst x)" using inv(2) by (auto intro: less_le_trans)
    then have "k \<notin> fst ` set m" by auto
    then show ?thesis using less 2(2) \<open>k \<noteq> u\<close> \<open>\<forall>x \<in> set m. utf8_bytes k < utf8_bytes (fst x)\<close>
      by (auto simp: tree_inv_def map_of_eq_None_iff [THEN iffD2] less_imp_le)
  next
    case eq
    then show ?thesis using 2(2) by (auto simp: tree_inv_def)
  next
    case more
    have ih: "tree_inv (btree_entry k d g m)" "map_of (btree_entry k d g m) = (map_of m)(k \<mapsto> g (case map_of m k of None \<Rightarrow> d | Some v \<Rightarrow> v))"
      using 2(1) [OF more inv(1)] by blast+
    have "\<forall>x \<in> set (btree_entry k d g m). utf8_bytes u \<le> utf8_bytes (fst x)"
    proof
      fix x assume "x \<in> set (btree_entry k d g m)"
      then have "fst x \<in> insert k (fst ` set m)" unfolding btree_entry_keys [of k d g m, symmetric] by (rule imageI)
      then show "utf8_bytes u \<le> utf8_bytes (fst x)" using inv(2) more(1) by auto
    qed
    moreover have "u \<notin> fst ` set (btree_entry k d g m)" using more(2) inv(3) by (simp add: btree_entry_keys)
    ultimately have "tree_inv (btree_entry k d g ((u, v) # m))" using ih(1) more by (auto simp: tree_inv_def)
    then show ?thesis using ih(2) more by (auto simp: fun_eq_iff)
  qed
qed (simp add: tree_inv_def)

definition found :: "facet_field list \<Rightarrow> filter_sel \<Rightarrow> cat_range list" where
  "found fds s = (case find_category fds (fs_field s) (fs_category s) of None \<Rightarrow> [] | Some c \<Rightarrow> [ca_range c])"

lemma add_found_found: "add_found (map_option ca_range (find_category fds (fs_field s) (fs_category s))) rs = rs @ found fds s"
  by (simp add: add_found_def found_def split: option.splits)

lemma sel_step_eq:
  "sel_step fds (m, ex) s = (if fs_negate s then (m, ex @ found fds s) else (btree_entry (fs_field s) [] (\<lambda>rs. rs @ found fds s) m, ex))"
proof -
  have "add_found (map_option ca_range (find_category fds (fs_field s) (fs_category s))) = (\<lambda>rs. rs @ found fds s)"
    by (rule ext) (rule add_found_found)
  then show ?thesis by (simp add: sel_step_def Let_def)
qed

definition included :: "filter_sel list \<Rightarrow> rstring \<Rightarrow> filter_sel list" where
  "included sels f = filter (\<lambda>s. \<not> fs_negate s \<and> fs_field s = f) sels"

lemma sel_steps:
  assumes "foldl (sel_step fds) ([], []) sels = (m, ex)"
  shows "tree_inv m \<and> map_of m = (\<lambda>f. if included sels f = [] then None else Some (concat (map (found fds) (included sels f))))
    \<and> ex = concat (map (found fds) (filter fs_negate sels))"
  using assms
proof (induction sels arbitrary: m ex rule: rev_induct)
  case (snoc s sels)
  obtain m0 ex0 where st: "foldl (sel_step fds) ([], []) sels = (m0, ex0)" by fastforce
  note ih = snoc.IH [OF st]
  show ?case
  proof (cases "fs_negate s")
    case True
    then have "m = m0" "ex = ex0 @ found fds s" using snoc.prems st by (simp_all add: sel_step_eq)
    moreover have inc: "included (sels @ [s]) = included sels" using True by (simp add: included_def fun_eq_iff)
    ultimately show ?thesis unfolding inc using ih True by simp
  next
    case False
    then have eq: "m = btree_entry (fs_field s) [] (\<lambda>rs. rs @ found fds s) m0" "ex = ex0"
      using snoc.prems st by (simp_all add: sel_step_eq)
    have inc: "included (sels @ [s]) f = included sels f @ (if f = fs_field s then [s] else [])" for f
      using False by (auto simp: included_def)
    have "tree_inv m0" using ih by blast
    note b = btree_entry_map [OF this, of "fs_field s" "[]" "\<lambda>rs. rs @ found fds s", folded eq(1)]
    then show ?thesis using ih False eq(2) by (auto simp: inc fun_eq_iff)
  qed
qed (simp add: tree_inv_def included_def fun_eq_iff)

section \<open>The documents a selection describes\<close>

definition chosen :: "facet_map \<Rightarrow> filter_sel list \<Rightarrow> nat \<Rightarrow> bool" where
  "chosen facets sels d \<longleftrightarrow>
     (\<forall>s \<in> set sels. \<not> fs_negate s \<longrightarrow>
        (\<exists>t \<in> set sels. \<not> fs_negate t \<and> fs_field t = fs_field s \<and> d \<in> docs_of facets (fs_field t) (fs_category t)))
     \<and> (\<forall>s \<in> set sels. fs_negate s \<longrightarrow> d \<notin> docs_of facets (fs_field s) (fs_category s))"

lemma resolve_sels_fields:
  shows "set (rf_fields (resolve_sels fds sels))
      = {concat (map (found fds) (included sels f)) | f. included sels f \<noteq> []}"
    and "rf_excludes (resolve_sels fds sels) = concat (map (found fds) (filter fs_negate sels))"
proof -
  obtain m ex where st: "foldl (sel_step fds) ([], []) sels = (m, ex)" by fastforce
  note s = sel_steps [OF st]
  have "distinct (map fst m)" using s by (simp add: tree_inv_def)
  then have "set (map snd m) = ran (map_of m)" by (simp add: ran_distinct)
  also have "\<dots> = {concat (map (found fds) (included sels f)) | f. included sels f \<noteq> []}" using s by (auto simp: ran_def)
  finally show "set (rf_fields (resolve_sels fds sels)) = {concat (map (found fds) (included sels f)) | f. included sels f \<noteq> []}"
    by (simp add: resolve_sels_def st)
  show "rf_excludes (resolve_sels fds sels) = concat (map (found fds) (filter fs_negate sels))"
    using s by (simp add: resolve_sels_def st)
qed

context roaring
begin

lemma stored_contents:
  assumes "cat_stored ser bs S c"
  shows "\<exists>p. stored bs (fst p) (cr_head_off (ca_range c)) (cr_head_size (ca_range c))
     \<and> stored bs (snd p) (cr_tail_off (ca_range c)) (cr_tail_size (ca_range c))
     \<and> docs (fst p) = S \<inter> {..<65536} \<and> docs (snd p) = S - {..<65536}"
proof -
  have S: "S \<inter> {..<65536} \<subseteq> {..<U32}" "S - {..<65536} \<subseteq> {..<U32}" using assms by (auto simp: cat_stored_def)
  obtain h where h: "well_formed h" "docs h = S \<inter> {..<65536}" "ser (S \<inter> {..<65536}) = assemble h" using ser_assemble [OF S(1)] by blast
  obtain t where t: "well_formed t" "docs t = S - {..<65536}" "ser (S - {..<65536}) = assemble t" using ser_assemble [OF S(2)] by blast
  note c = assms [unfolded cat_stored_def Let_def h(3) t(3)]
  show ?thesis unfolding stored_def using c h(1,2) t(1,2) by (intro exI [of _ "(h, t)"]) (unfold fst_conv snd_conv, blast)
qed

lemma stored_docs:
  assumes "stored bs p off len" "stored bs q off len"
  shows "docs p = docs q"
proof -
  have "deser (assemble p) = Inr (docs p)" "deser (assemble q) = Inr (docs q)"
    using deser_assemble [of p] deser_assemble [of q] assms unfolding stored_def by blast+
  moreover have "assemble p = assemble q" using assms by (simp add: stored_def)
  ultimately show ?thesis by simp
qed

lemma contents_exist:
  obtains cont where "\<forall>c S. cat_stored ser bs S c \<longrightarrow>
     stored bs (fst (cont (ca_range c))) (cr_head_off (ca_range c)) (cr_head_size (ca_range c))
     \<and> stored bs (snd (cont (ca_range c))) (cr_tail_off (ca_range c)) (cr_tail_size (ca_range c))
     \<and> cat_split cont (ca_range c) \<and> cat_docs cont (ca_range c) = S"
proof -
  let ?P = "\<lambda>r p. stored bs (fst p) (cr_head_off r) (cr_head_size r) \<and> stored bs (snd p) (cr_tail_off r) (cr_tail_size r)"
  define cont where "cont r = (SOME p. ?P r p)" for r :: cat_range
  have "?P (ca_range c) (cont (ca_range c)) \<and> cat_split cont (ca_range c) \<and> cat_docs cont (ca_range c) = S" if st: "cat_stored ser bs S c" for c S
  proof -
    obtain p where p: "?P (ca_range c) p" "docs (fst p) = S \<inter> {..<65536}" "docs (snd p) = S - {..<65536}" using stored_contents [OF st] by blast
    have q: "?P (ca_range c) (cont (ca_range c))" unfolding cont_def by (rule someI [of "?P (ca_range c)", OF p(1)])
    have "docs (fst (cont (ca_range c))) = S \<inter> {..<65536}" "docs (snd (cont (ca_range c))) = S - {..<65536}"
      using stored_docs q p by metis+
    then show ?thesis using q by (auto simp: cat_split_def cat_docs_def)
  qed
  then show ?thesis using that [of cont] by blast
qed

lemma found_stored:
  assumes "facet_map_ok facets" "open_facets lower cn ser bs facets fds" "r \<in> set (found fds s)"
  shows "\<exists>c. r = ca_range c \<and> cat_stored ser bs (docs_of facets (fs_field s) (fs_category s)) c"
  using assms(3) find_category_Some [OF assms(1,2)] by (auto simp: found_def split: option.splits)

lemma resolved_filter:
  assumes ok: "facet_map_ok facets" and op: "open_facets lower cn ser bs facets fds"
  shows "\<exists>cont. filter_stored bs cont (resolve_sels fds sels) \<and> (\<forall>d. passes cont (resolve_sels fds sels) d \<longleftrightarrow> chosen facets sels d)"
proof -
  obtain cont where cont: "\<forall>c S. cat_stored ser bs S c \<longrightarrow>
     stored bs (fst (cont (ca_range c))) (cr_head_off (ca_range c)) (cr_head_size (ca_range c))
     \<and> stored bs (snd (cont (ca_range c))) (cr_tail_off (ca_range c)) (cr_tail_size (ca_range c))
     \<and> cat_split cont (ca_range c) \<and> cat_docs cont (ca_range c) = S"
    using contents_exist [of bs] by blast
  let ?flt = "resolve_sels fds sels"
  have cats: "filter_cats ?flt \<subseteq> (\<Union>s \<in> set sels. set (found fds s))"
    by (auto simp: filter_cats_def resolve_sels_fields included_def)
  have "filter_stored bs cont ?flt" unfolding filter_stored_def using cats found_stored [OF ok op] cont by blast
  have mem: "(\<exists>r \<in> set (found fds s). d \<in> cat_docs cont r) \<longleftrightarrow> d \<in> docs_of facets (fs_field s) (fs_category s)" for s d
  proof (cases "find_category fds (fs_field s) (fs_category s)")
    case None
    then show ?thesis using find_category_None [OF ok op None] by (simp add: found_def)
  next
    case (Some c)
    then show ?thesis using find_category_Some [OF ok op Some] cont by (auto simp: found_def)
  qed
  have arm: "(\<exists>r \<in> set (concat (map (found fds) ss)). d \<in> cat_docs cont r) \<longleftrightarrow> (\<exists>s \<in> set ss. d \<in> docs_of facets (fs_field s) (fs_category s))"
    for ss d unfolding mem [symmetric] by auto
  have fp: "fields_pass cont ?flt d \<longleftrightarrow> (\<forall>f. included sels f \<noteq> [] \<longrightarrow> (\<exists>s \<in> set (included sels f). d \<in> docs_of facets (fs_field s) (fs_category s)))" for d
    unfolding fields_pass_def resolve_sels_fields arm [symmetric] by blast
  have ex: "excluded cont ?flt d \<longleftrightarrow> (\<exists>s \<in> set sels. fs_negate s \<and> d \<in> docs_of facets (fs_field s) (fs_category s))" for d
    unfolding excluded_def resolve_sels_fields arm by auto
  have ne: "included sels f \<noteq> [] \<longleftrightarrow> (\<exists>s \<in> set sels. \<not> fs_negate s \<and> fs_field s = f)" for f
    by (auto simp: included_def filter_empty_conv)
  have some: "(\<exists>s \<in> set (included sels f). P s) \<longleftrightarrow> (\<exists>s \<in> set sels. \<not> fs_negate s \<and> fs_field s = f \<and> P s)" for f P
    by (auto simp: included_def)
  have "passes cont ?flt d \<longleftrightarrow> chosen facets sels d" for d
    unfolding passes_def chosen_def fp ex ne some by blast
  then show ?thesis using \<open>filter_stored bs cont ?flt\<close> by blast
qed

end

end
