(* ===== verification/RR_Facet_Counts.thy ===== *)
theory RR_Facet_Counts imports RR_Facet_Filter begin

text \<open>
  Counting the categories of a sidecar within a result (\<open>count_batched\<close>, \<open>counts_for\<close>,
  \<open>counts_full\<close> of \<open>rust/src/facet.rs\<close>): the three waves of reads price every target
  exactly.
\<close>

section \<open>The buckets of a result\<close>

lemma bucket_fold:
  assumes "sorted xs"
  shows "foldl bucket_step (False, []) xs = (hn, tk) \<Longrightarrow>
    (hn \<longleftrightarrow> (\<exists>d \<in> set xs. high_key d = 0)) \<and> set tk = {high_key d | d. d \<in> set xs \<and> high_key d \<noteq> 0} \<and> sorted tk"
  using assms
proof (induction xs arbitrary: hn tk rule: rev_induct)
  case (snoc d xs)
  obtain hn0 tk0 where st: "foldl bucket_step (False, []) xs = (hn0, tk0)" by fastforce
  have "sorted xs" and ge: "\<forall>x \<in> set xs. x \<le> d" using snoc.prems(2) by (simp_all add: sorted_append)
  then have ih: "hn0 \<longleftrightarrow> (\<exists>d \<in> set xs. high_key d = 0)" "set tk0 = {high_key d | d. d \<in> set xs \<and> high_key d \<noteq> 0}" "sorted tk0"
    using snoc.IH [OF st] by blast+
  have le: "\<forall>k \<in> set tk0. k \<le> high_key d" using ge ih(2) by (auto intro: div_le_mono)
  have step: "(hn, tk) = bucket_step (hn0, tk0) d" using snoc.prems(1) st by simp
  consider (zero) "high_key d = 0" | (old) "high_key d \<noteq> 0" "tk0 \<noteq> []" "last tk0 = high_key d"
    | (new) "high_key d \<noteq> 0" "\<not> (tk0 \<noteq> [] \<and> last tk0 = high_key d)" by blast
  then show ?case
  proof cases
    case zero
    then show ?thesis using step ih by (auto simp: bucket_step_def Let_def)
  next
    case old
    then have "high_key d \<in> set tk0" by (metis last_in_set)
    then have "set tk0 = {high_key x | x. x \<in> set (xs @ [d]) \<and> high_key x \<noteq> 0}" using ih(2) old(1) by auto
    then show ?thesis using step ih old by (auto simp: bucket_step_def Let_def)
  next
    case new
    then have "(hn, tk) = (hn0, tk0 @ [high_key d])" using step by (auto simp: bucket_step_def Let_def)
    then show ?thesis using ih le new(1) by (auto simp: sorted_append)
  qed
qed simp

lemma result_buckets_keys:
  assumes "finite res" "result_buckets res = (hn, tk)"
  shows "(hn \<longleftrightarrow> (\<exists>d \<in> res. d < 65536)) \<and> set tk = {high_key d | d. d \<in> res \<and> 65536 \<le> d} \<and> sorted tk"
proof -
  have "high_key d = 0 \<longleftrightarrow> d < 65536" for d by (auto simp: div_eq_0_iff)
  then show ?thesis using bucket_fold [of "sorted_list_of_set res" hn tk] assms by (auto simp: result_buckets_def not_less)
qed

section \<open>Waves A and B\<close>

text \<open>The postings \<open>H\<close> and \<open>T\<close> a category is priced from.\<close>

definition tail_dir_of :: "bytes \<Rightarrow> category \<Rightarrow> piece list \<Rightarrow> container list \<Rightarrow> bool" where
  "tail_dir_of content c T dir \<longleftrightarrow>
     dir_ok (cr_tail_size (ca_range c)) dir \<and> map (piece_at content (cr_tail_off (ca_range c))) dir = T"

context posting_store
begin

definition priceable :: "category \<Rightarrow> piece list \<Rightarrow> piece list \<Rightarrow> bool" where
  "priceable c H T \<longleftrightarrow> (let r = ca_range c in
     holds H (cr_head_off r) (cr_head_size r) \<and> holds T (cr_tail_off r) (cr_tail_size r)
     \<and> (\<forall>d \<in> docs H. d < 65536) \<and> (\<forall>d \<in> docs T. 65536 \<le> d)
     \<and> (ca_head c = {} \<or> ca_head c = docs H) \<and> (\<forall>dir. ca_tail_dir c = Some dir \<longrightarrow> tail_dir_of content c T dir))"

text \<open>What is left to do for a target after a wave.\<close>

fun plan_ok :: "nat set \<Rightarrow> nat list \<Rightarrow> (nat \<times> nat) list \<Rightarrow> category \<Rightarrow> piece list \<Rightarrow> piece list \<Rightarrow> nat \<Rightarrow> tail_plan \<Rightarrow> bool" where
  "plan_ok res tk wb c H T n Done = (n = card (res \<inter> (docs H \<union> docs T)))"
| "plan_ok res tk wb c H T n (Refetch k whole) = (\<not> whole \<and> n = card (res \<inter> docs H) \<and> k < length wb
     \<and> wb ! k = (cr_tail_off (ca_range c), data_start T) \<and> data_start T \<le> cr_tail_size (ca_range c))"
| "plan_ok res tk wb c H T n (Containers needed) = (n = card (res \<inter> docs H)
     \<and> (\<exists>dir. tail_dir_of content c T dir \<and> needed = filter (in_keys tk) dir))"

lemma plan_ok_more: "plan_ok res tk wb c H T n p \<Longrightarrow> plan_ok res tk (wb @ x) c H T n p"
  by (cases p) (auto simp: nth_append)

lemma docs_split_card:
  assumes "finite res" "\<forall>d \<in> docs H. d < 65536" "\<forall>d \<in> docs T. 65536 \<le> d"
  shows "card (res \<inter> (docs H \<union> docs T)) = card (res \<inter> docs H) + card (res \<inter> docs T)"
proof -
  have "docs H \<inter> docs T = {}" using assms(2,3) by (meson disjoint_iff not_less)
  then have "(res \<inter> docs H) \<inter> (res \<inter> docs T) = {}" by blast
  then show ?thesis using assms(1) by (simp add: Int_Un_distrib card_Un_disjoint)
qed

lemma wave_a_step_ok:
  assumes p: "priceable c H T" and res: "finite res" "\<forall>d \<in> res. d < U32" "result_buckets res = (hn, tk)"
    and i: "2 * i + 1 < length wave_a"
      "wave_a ! (2 * i) = (let (off, len) = wave_a_ranges hn tk c ! 0 in cut content off (off + len))"
      "wave_a ! (2 * i + 1) = (let (off, len) = wave_a_ranges hn tk c ! 1 in cut content off (off + len))"
  shows "\<exists>n plan wb'. wave_a_step um deser res tk wave_a (ns, plans, wb) (i, c) = Ok (ns @ [n], plans @ [plan], wb @ wb')
     \<and> plan_ok res tk (wb @ wb') c H T n plan \<and> length wb' \<le> 1 \<and> (\<forall>(off, len) \<in> set wb'. off + len \<le> length content)"
proof -
  let ?r = "ca_range c"
  have H: "holds H (cr_head_off ?r) (cr_head_size ?r)" and T: "holds T (cr_tail_off ?r) (cr_tail_size ?r)"
    and dH: "\<forall>d \<in> docs H. d < 65536" and dT: "\<forall>d \<in> docs T. 65536 \<le> d" and hd: "ca_head c = {} \<or> ca_head c = docs H"
    and dir: "\<And>dir. ca_tail_dir c = Some dir \<Longrightarrow> tail_dir_of content c T dir"
    using p by (auto simp: priceable_def Let_def)
  have wf: "well_formed H" "well_formed T" and addr: "addressable um lim content" using H T by (simp_all add: holds_iff)
  note bk = result_buckets_keys [OF res(1,3)]
  have lH: "cr_head_size ?r = length (assemble H)" "0 < cr_head_size ?r" using holds_length [OF H] by (simp_all add: length_assemble data_start_def)
  have lT: "cr_tail_size ?r = length (assemble T)" "0 < cr_tail_size ?r" using holds_length [OF T] by (simp_all add: length_assemble data_start_def)
  have cH: "cut content (cr_head_off ?r) (cr_head_off ?r + cr_head_size ?r) = assemble H" using H by (simp add: holds_iff)
  have cT: "cut content (cr_tail_off ?r) (cr_tail_off ?r + cr_tail_size ?r) = assemble T"
    and bT: "cr_tail_off ?r + cr_tail_size ?r \<le> length content" using T by (simp_all add: holds_iff)
  have bm: "bitmap_or deser (assemble X) what = Ok (docs X)" if "well_formed X" for X what
    using deser_assemble [OF that] by (simp add: bitmap_or_def)
  define n where "n = card (res \<inter> docs H)"
  have head: "bind_o (nth_p wave_a (2 * i)) (\<lambda>head_bytes.
      bind_o (if head_bytes = [] then Ok (card (res \<inter> ca_head c))
        else map_ok (\<lambda>h. card (res \<inter> h)) (bitmap_or deser head_bytes ''RRSF head posting'')) k) = k n" for k :: "nat \<Rightarrow> (nat list \<times> tail_plan list \<times> (nat \<times> nat) list) ires"
  proof (cases "hn \<and> ca_head c = {}")
    case True
    then have "wave_a ! (2 * i) = assemble H" using i(2) lH(2) cH by (simp add: wave_a_ranges_def head_range_def)
    moreover have "assemble H \<noteq> []" using lH by auto
    ultimately show ?thesis using i(1) bm [OF wf(1)] by (simp add: n_def)
  next
    case False
    then have "wave_a ! (2 * i) = []" using i(2) by (auto simp: wave_a_ranges_def cut_def)
    moreover have "card (res \<inter> ca_head c) = n"
    proof (cases "ca_head c = {}")
      case True
      then have "\<forall>d \<in> res. \<not> d < 65536" using False bk by simp
      then have "res \<inter> docs H = {}" using dH by blast
      then show ?thesis using True by (simp add: n_def)
    qed (use hd n_def in simp)
    ultimately show ?thesis using i(1) by simp
  qed
  have whole: "card (res \<inter> (docs H \<union> docs T)) = n + card (res \<inter> docs T)" unfolding n_def by (rule docs_split_card [OF res(1) dH dT])
  have none: "tk = [] \<Longrightarrow> card (res \<inter> docs T) = 0"
  proof -
    assume "tk = []"
    then have "\<forall>d \<in> res. \<not> 65536 \<le> d" using bk by auto
    then have "res \<inter> docs T = {}" using dT by blast
    then show ?thesis by simp
  qed
  show ?thesis
  proof (cases "use_resident c")
    case True
    then obtain d where d: "ca_tail_dir c = Some d" by (auto simp: use_resident_def)
    show ?thesis
      unfolding wave_a_step_def prod.case Let_def head using True d dir [OF d] none lT(2) whole n_def by auto
  next
    case False
    show ?thesis
    proof (cases "tk = []")
      case True
      then have "wave_a ! (2 * i + 1) = []" using i(3) by (simp add: wave_a_ranges_def cut_def)
      then show ?thesis
        unfolding wave_a_step_def prod.case Let_def head using False True none whole i(1) by simp
    next
      case tk: False
      let ?m = "min (cr_tail_size ?r) header_prefix"
      have w: "wave_a ! (2 * i + 1) = cut (assemble T) 0 ?m"
      proof -
        have "wave_a ! (2 * i + 1) = cut content (cr_tail_off ?r) (cr_tail_off ?r + ?m)"
          using i(3) tk False lT(2) by (simp add: wave_a_ranges_def)
        also have "\<dots> = cut (cut content (cr_tail_off ?r) (cr_tail_off ?r + cr_tail_size ?r)) 0 ?m"
          using cut_cut [of ?m "cr_tail_off ?r + cr_tail_size ?r" "cr_tail_off ?r" content 0] bT by simp
        finally show ?thesis by (simp only: cT)
      qed
      have lw: "length (cut (assemble T) 0 ?m) = ?m" using lT(1) by simp
      have ne: "cut (assemble T) 0 ?m \<noteq> []" using lw lT(2) by (auto simp: header_prefix_def)
      show ?thesis
      proof (cases "cr_tail_size ?r \<le> header_prefix")
        case True
        then have "cut (assemble T) 0 ?m = assemble T" using lT(1) by simp
        then show ?thesis
          unfolding wave_a_step_def prod.case Let_def head
          using w ne lw False i(1) True bm [OF wf(2)] whole lT by simp
      next
        case big: False
        then have m: "?m = header_prefix" by simp
        have ds: "data_start T \<le> cr_tail_size ?r" by (simp add: lT(1) length_assemble)
        have um: "data_start T < um" using ds bT addr by (simp add: addressable_def)
        have needed: "needed_header_len um (cut (assemble T) 0 header_prefix) = Some (data_start T)"
          by (rule needed_header_assembled [OF wf(2) _ _ um]) (use big lT in \<open>simp_all add: header_prefix_def\<close>)
        show ?thesis
        proof (cases "data_start T \<le> header_prefix")
          case True
          obtain d where d: "parse_dir um (cut (assemble T) 0 header_prefix) (cr_tail_size ?r) = Ok (Some d)" "map (piece_at (assemble T) 0) d = T"
            using parse_assembled [OF wf(2) True _ um] big lT(1) by auto
          have ok: "dir_ok (cr_tail_size ?r) d" by (rule parse_dir_ok [OF d(1)])
          have "tail_dir_of content c T d" using ok holds_piece_at [OF T ok] d(2) by (simp add: tail_dir_of_def)
          then show ?thesis
            unfolding wave_a_step_def prod.case Let_def head
            using w ne lw False i(1) big m needed True d(1) n_def by auto
        next
          case far: False
          then show ?thesis
            unfolding wave_a_step_def prod.case Let_def head
            using w ne lw False i(1) big m needed n_def ds bT by auto
        qed
      qed
    qed
  qed
qed

lemma wave_b_step_ok:
  assumes p: "priceable c H T" and ok: "plan_ok res tk wb c H T n plan"
    and wave: "wave_b = map (\<lambda>(off, len). cut content off (off + len)) wb"
  shows "\<exists>n' plan'. wave_b_step um deser fetch res tk wave_b (n, plan, c) = Ok (n', plan') \<and> plan_ok res tk [] c H T n' plan'"
proof (cases plan)
  case (Refetch k whole)
  let ?r = "ca_range c"
  have T: "holds T (cr_tail_off ?r) (cr_tail_size ?r)" using p by (simp add: priceable_def Let_def)
  have wf: "well_formed T" and bT: "cr_tail_off ?r + cr_tail_size ?r \<le> length content" and addr: "addressable um lim content"
    and cT: "cut content (cr_tail_off ?r) (cr_tail_off ?r + cr_tail_size ?r) = assemble T"
    using T by (simp_all add: holds_iff)
  have lT: "cr_tail_size ?r = length (assemble T)" by (rule holds_length [OF T])
  have k: "\<not> whole" "n = card (res \<inter> docs H)" "k < length wb" "wb ! k = (cr_tail_off ?r, data_start T)" "data_start T \<le> cr_tail_size ?r"
    using ok Refetch by simp_all
  have um: "data_start T < um" using k(5) bT addr by (simp add: addressable_def)
  have "cut (cut content (cr_tail_off ?r) (cr_tail_off ?r + cr_tail_size ?r)) 0 (data_start T) = cut content (cr_tail_off ?r) (cr_tail_off ?r + data_start T)"
    using cut_cut [of "data_start T" "cr_tail_off ?r + cr_tail_size ?r" "cr_tail_off ?r" content 0] bT k(5) by simp
  then have wk: "wave_b ! k = cut (assemble T) 0 (data_start T)" using k(3,4) wave unfolding cT by simp
  obtain d where d: "parse_dir um (cut (assemble T) 0 (data_start T)) (cr_tail_size ?r) = Ok (Some d)" "map (piece_at (assemble T) 0) d = T"
    using parse_assembled [OF wf order_refl _ um] k(5) lT by auto
  have dok: "dir_ok (cr_tail_size ?r) d" by (rule parse_dir_ok [OF d(1)])
  have "tail_dir_of content c T d" using dok holds_piece_at [OF T dok] d(2) by (simp add: tail_dir_of_def)
  then show ?thesis using k wave wk d(1) Refetch by (auto simp: wave_b_step_def)
qed (use ok in \<open>auto simp: wave_b_step_def\<close>)

end

section \<open>Wave C\<close>

definition located :: "(nat \<times> nat) list \<Rightarrow> nat \<Rightarrow> container \<Rightarrow> nat \<times> nat \<Rightarrow> bool" where
  "located spans off c loc \<longleftrightarrow> fst loc < length spans \<and> fst (spans ! fst loc) + snd loc = off + c_start c
     \<and> snd loc + c_len c \<le> snd (spans ! fst loc)"

lemma located_append: "located spans off c loc \<Longrightarrow> located (spans @ x) off c loc"
  by (simp add: located_def nth_append)

lemma located_grow:
  "located (spans @ [(s, l)]) off c loc \<Longrightarrow> l \<le> l' \<Longrightarrow> located (spans @ [(s, l')]) off c loc"
  by (auto simp: located_def nth_append split: if_splits)

lemma place_containers:
  assumes "dir_ok tot cs" "off + tot + intra_category_gap < U64" "tot < um"
  shows "\<exists>own locs. foldM_o (place_container um off) (pre, None, []) cs
       = Ok (pre @ own, if own = [] then None else Some (length pre + length own - 1), locs)
     \<and> list_all2 (located (pre @ own) off) cs locs \<and> (\<forall>(s, l) \<in> set own. s + l \<le> off + tot) \<and> (own = [] \<longleftrightarrow> cs = [])
     \<and> (cs \<noteq> [] \<longrightarrow> fst (last own) + snd (last own) = off + c_start (last cs) + c_len (last cs) \<and> fst (last own) + snd (last own) \<le> off + tot)
     \<and> (cs \<noteq> [] \<longrightarrow> off + sum_list (map snd own) \<le> fst (last own) + snd (last own))"
  using assms(1)
proof (induction cs rule: rev_induct)
  case (snoc c cs)
  have dir: "dir_ok tot cs" and c: "c_start c + c_len c \<le> tot" and after: "cs \<noteq> [] \<Longrightarrow> c_start (last cs) + c_len (last cs) \<le> c_start c"
    using snoc.prems by (auto simp: dir_ok_def sorted_wrt_append)
  obtain own locs where ih: "foldM_o (place_container um off) (pre, None, []) cs
       = Ok (pre @ own, if own = [] then None else Some (length pre + length own - 1), locs)"
     "list_all2 (located (pre @ own) off) cs locs" "\<forall>(s, l) \<in> set own. s + l \<le> off + tot" "own = [] \<longleftrightarrow> cs = []"
     "cs \<noteq> [] \<longrightarrow> fst (last own) + snd (last own) = off + c_start (last cs) + c_len (last cs) \<and> fst (last own) + snd (last own) \<le> off + tot"
     "cs \<noteq> [] \<longrightarrow> off + sum_list (map snd own) \<le> fst (last own) + snd (last own)"
    using snoc.IH [OF dir] by blast
  let ?a = "off + c_start c"
  have a: "?a + c_len c \<le> off + tot" "?a + c_len c < U64" using c assms(2) by simp_all
  consider (fresh) "own = [] \<or> (own \<noteq> [] \<and> \<not> ?a \<le> fst (last own) + snd (last own) + intra_category_gap)"
    | (grow) "own \<noteq> []" "?a \<le> fst (last own) + snd (last own) + intra_category_gap" by blast
  then show ?case
  proof cases
    case fresh
    let ?own = "own @ [(?a, c_len c)]" and ?loc = "(length pre + length own, 0)"
    have step: "place_container um off (pre @ own, if own = [] then None else Some (length pre + length own - 1), locs) c
        = Ok (pre @ ?own, Some (length pre + length own), locs @ [?loc])"
    proof (cases "own = []")
      case True
      then show ?thesis using a by (simp add: place_container_def Let_def)
    next
      case False
      then have pos: "0 < length own" by simp
      then have i: "length pre + length own - 1 = length pre + (length own - 1)" by linarith
      have "(pre @ own) ! (length pre + length own - 1) = last own" unfolding i nth_append_length_plus using False by (simp add: last_conv_nth)
      moreover have "length pre + length own - 1 < length (pre @ own)" using pos by simp
      moreover have "fst (last own) + snd (last own) + intra_category_gap < U64" using False ih(4,5) assms(2) by auto
      ultimately show ?thesis using fresh False a by (cases "last own") (simp add: place_container_def Let_def)
    qed
    have new: "located (pre @ ?own) off c ?loc" by (simp add: located_def nth_append)
    have old: "list_all2 (located (pre @ ?own) off) cs locs"
      using ih(2) located_append [of "pre @ own"] by (fastforce elim: list_all2_mono)
    have sum: "off + sum_list (map snd ?own) \<le> ?a + c_len c"
    proof (cases "cs = []")
      case True
      then show ?thesis using ih(4) by simp
    next
      case False
      then show ?thesis using ih(4,6) fresh by auto
    qed
    have run: "foldM_o (place_container um off) (pre, None, []) (cs @ [c]) = Ok (pre @ ?own, Some (length pre + length own), locs @ [?loc])"
      unfolding foldM_o_append ih(1) bind_o.simps foldM_o.simps step ..
    have "list_all2 (located (pre @ ?own) off) (cs @ [c]) (locs @ [?loc])"
      by (rule list_all2_appendI [OF old]) (simp only: list_all2_Cons list_all2_Nil new simp_thms)
    moreover have "\<forall>(s, l) \<in> set ?own. s + l \<le> off + tot" using ih(3) a(1) by auto
    ultimately show ?thesis
      using a(1) sum by (intro exI [of _ ?own] exI [of _ "locs @ [?loc]"]) (simp add: run)
  next
    case grow
    obtain own' s l where own: "own = own' @ [(s, l)]" using grow(1) by (metis prod.collapse rev_exhaust)
    have cs: "cs \<noteq> []" using ih(4) grow(1) by simp
    have e: "s + l = off + c_start (last cs) + c_len (last cs)" "s + l \<le> ?a" using ih(5) cs after own by simp_all
    let ?l = "?a + c_len c - s"
    let ?own = "own' @ [(s, ?l)]" and ?loc = "(length pre + length own', ?a - s)"
    have idx: "length pre + length own - 1 = length pre + length own'" "(pre @ own) ! (length pre + length own') = (s, l)" by (simp_all add: own)
    have upd: "(pre @ own)[length pre + length own' := (s, ?l)] = pre @ ?own" by (simp add: own list_update_append)
    have same: "(if s + l < ?a + c_len c then (?a + c_len c - s) mod um else l) = ?l"
    proof (cases "s + l < ?a + c_len c")
      case True
      have "off \<le> s" using ih(6) cs own e by simp
      then have "?l < um" using a(1) assms(3) by simp
      then show ?thesis using True by simp
    next
      case False
      then show ?thesis using e(2) by simp
    qed
    have rel: "(?a - s) mod um = ?a - s"
    proof -
      have "off \<le> s" using ih(6) cs own e by simp
      then have "?a - s < um" using a(1) assms(3) by simp
      then show ?thesis by simp
    qed
    have lim: "s + l + intra_category_gap < U64" using ih(5) cs own assms(2) by simp
    have step: "place_container um off (pre @ own, if own = [] then None else Some (length pre + length own - 1), locs) c
        = Ok (pre @ ?own, Some (length pre + length own'), locs @ [?loc])"
      using grow a lim idx upd e(2) same rel own by (simp add: place_container_def Let_def)
    have lg: "l \<le> ?l" using e(2) by simp
    have new: "located (pre @ ?own) off c ?loc" using e(2) by (simp add: located_def nth_append)
    have old: "list_all2 (located (pre @ ?own) off) cs locs"
      using ih(2) located_grow [of "pre @ own'" s l off _ _ ?l] lg own by (fastforce elim: list_all2_mono)
    have run: "foldM_o (place_container um off) (pre, None, []) (cs @ [c]) = Ok (pre @ ?own, Some (length pre + length own'), locs @ [?loc])"
      unfolding foldM_o_append ih(1) bind_o.simps foldM_o.simps step ..
    have "list_all2 (located (pre @ ?own) off) (cs @ [c]) (locs @ [?loc])"
      by (rule list_all2_appendI [OF old]) (simp only: list_all2_Cons list_all2_Nil new simp_thms)
    moreover have "\<forall>(s, l) \<in> set ?own. s + l \<le> off + tot" using ih(3) a(1) e(2) own by auto
    moreover have "off + sum_list (map snd ?own) \<le> ?a + c_len c" using ih(6) cs own e(2) by simp
    moreover have "s + ?l = ?a + c_len c" using e(2) by simp
    ultimately show ?thesis
      using a(1) by (intro exI [of _ ?own] exI [of _ "locs @ [?loc]"]) (simp add: run)
  qed
qed simp

section \<open>All targets\<close>

lemma map_zip_fst: "length xs = length ys \<Longrightarrow> map (\<lambda>(x, _). f x) (zip xs ys) = map f xs"
  by (induction xs ys rule: list_induct2) auto

lemma wave_bytes_ok: "sum_list (map snd ranges) + n < um \<Longrightarrow> foldM_o (\<lambda>total (_, len). add_p um total len) n ranges = (Ok (n + sum_list (map snd ranges)) :: nat ires)"
  by (induction ranges arbitrary: n) auto

context posting_store
begin

lemma pricing_wave_ok:
  assumes "\<forall>(off, len) \<in> set ranges. len \<noteq> 0 \<longrightarrow> off + len \<le> length content" "sum_list (map snd ranges) < um"
    and "addressable um lim content" "lim \<le> um"
  shows "pricing_wave um fetch ranges = Ok (map (\<lambda>(off, len). cut content off (off + len)) ranges)"
proof -
  have "read_coalesced um fetch ranges pricing_gap = Ok (map (\<lambda>(off, len). cut content off (off + len)) ranges)"
    by (rule coalesced_ok) (use assms in \<open>auto simp: addressable_def\<close>)
  then show ?thesis using wave_bytes_ok [of ranges 0 um] assms(2) by (simp add: pricing_wave_def wave_bytes_def)
qed

lemma wave_a_fold:
  assumes "list_all2 (\<lambda>c (H, T). priceable c H T) cs HT" "finite res" "\<forall>d \<in> res. d < U32" "result_buckets res = (hn, tk)"
    and "\<forall>j < length cs. 2 * (i + j) + 1 < length wave_a
      \<and> wave_a ! (2 * (i + j)) = (let (off, len) = wave_a_ranges hn tk (cs ! j) ! 0 in cut content off (off + len))
      \<and> wave_a ! (2 * (i + j) + 1) = (let (off, len) = wave_a_ranges hn tk (cs ! j) ! 1 in cut content off (off + len))"
  shows "\<exists>ns' plans' wb'. foldM_o (wave_a_step um deser res tk wave_a) (ns, plans, wb) (enumerate i cs) = Ok (ns @ ns', plans @ plans', wb @ wb')
     \<and> list_all2 (\<lambda>(n, plan) (c, H, T). plan_ok res tk (wb @ wb') c H T n plan) (zip ns' plans') (zip cs HT)
     \<and> length ns' = length cs \<and> length plans' = length cs \<and> length wb' \<le> length cs \<and> (\<forall>(off, len) \<in> set wb'. off + len \<le> length content)"
  using assms(1,5)
proof (induction cs HT arbitrary: i ns plans wb rule: list_all2_induct)
  case (Cons c cs HT1 HT)
  obtain H T where HT: "HT1 = (H, T)" by (cases HT1)
  have p: "priceable c H T" using Cons.hyps(1) HT by simp
  have w: "2 * i + 1 < length wave_a" "wave_a ! (2 * i) = (let (off, len) = wave_a_ranges hn tk c ! 0 in cut content off (off + len))"
    "wave_a ! (2 * i + 1) = (let (off, len) = wave_a_ranges hn tk c ! 1 in cut content off (off + len))"
    using Cons.prems [rule_format, of 0] by simp_all
  obtain n plan wb1 where st: "wave_a_step um deser res tk wave_a (ns, plans, wb) (i, c) = Ok (ns @ [n], plans @ [plan], wb @ wb1)"
    "plan_ok res tk (wb @ wb1) c H T n plan" "length wb1 \<le> 1" "\<forall>(off, len) \<in> set wb1. off + len \<le> length content"
    using wave_a_step_ok [OF p assms(2-4) w] by blast
  have "\<forall>j < length cs. 2 * (Suc i + j) + 1 < length wave_a
      \<and> wave_a ! (2 * (Suc i + j)) = (let (off, len) = wave_a_ranges hn tk (cs ! j) ! 0 in cut content off (off + len))
      \<and> wave_a ! (2 * (Suc i + j) + 1) = (let (off, len) = wave_a_ranges hn tk (cs ! j) ! 1 in cut content off (off + len))"
  proof (intro allI impI)
    fix j assume "j < length cs"
    then show "2 * (Suc i + j) + 1 < length wave_a
      \<and> wave_a ! (2 * (Suc i + j)) = (let (off, len) = wave_a_ranges hn tk (cs ! j) ! 0 in cut content off (off + len))
      \<and> wave_a ! (2 * (Suc i + j) + 1) = (let (off, len) = wave_a_ranges hn tk (cs ! j) ! 1 in cut content off (off + len))"
      using Cons.prems [rule_format, of "Suc j"] by simp
  qed
  then obtain ns' plans' wb' where ih: "foldM_o (wave_a_step um deser res tk wave_a) (ns @ [n], plans @ [plan], wb @ wb1) (enumerate (Suc i) cs)
       = Ok ((ns @ [n]) @ ns', (plans @ [plan]) @ plans', (wb @ wb1) @ wb')"
     "list_all2 (\<lambda>(n, plan) (c, H, T). plan_ok res tk ((wb @ wb1) @ wb') c H T n plan) (zip ns' plans') (zip cs HT)"
     "length ns' = length cs" "length plans' = length cs" "length wb' \<le> length cs" "\<forall>(off, len) \<in> set wb'. off + len \<le> length content"
    using Cons.IH by blast
  have "plan_ok res tk ((wb @ wb1) @ wb') c H T n plan" by (rule plan_ok_more [OF st(2)])
  then show ?case
    using st ih by (intro exI [of _ "n # ns'"] exI [of _ "plan # plans'"] exI [of _ "wb1 @ wb'"]) (auto simp: HT)
qed simp

lemma wave_b_all:
  assumes "list_all2 (\<lambda>(n, plan) (c, H, T). priceable c H T \<and> plan_ok res tk wb c H T n plan) nps cHTs"
    and "wave_b = map (\<lambda>(off, len). cut content off (off + len)) wb"
  shows "\<exists>st. mapM_o (wave_b_step um deser fetch res tk wave_b) (map2 (\<lambda>(n, plan) (c, H, T). (n, plan, c)) nps cHTs) = Ok st
     \<and> list_all2 (\<lambda>(n, plan) (c, H, T). plan_ok res tk [] c H T n plan) st cHTs"
  using assms(1)
proof (induction nps cHTs rule: list_all2_induct)
  case (Cons np nps cHT cHTs)
  obtain n plan c H T where x: "np = (n, plan)" "cHT = (c, H, T)" by (cases np, cases cHT)
  obtain n' plan' where "wave_b_step um deser fetch res tk wave_b (n, plan, c) = Ok (n', plan')" "plan_ok res tk [] c H T n' plan'"
    using wave_b_step_ok [of c H T res tk wb n plan wave_b] Cons.hyps(1) assms(2) x by auto
  then show ?case using Cons.IH x by (auto simp: map_ok_Ok_iff)
qed simp

lemma place_all:
  assumes "list_all2 (\<lambda>(n, plan) (c, H, T). priceable c H T \<and> plan_ok res tk [] c H T n plan) st cHTs"
    and "addressable um lim content" "lim \<le> um" "um \<le> U64"
  shows "\<exists>own locs'. foldM_o (place_step um) (pre, locs) (map2 (\<lambda>(n, plan) (c, H, T). (plan, c)) st cHTs) = Ok (pre @ own, locs @ locs')
     \<and> length locs' = length st
     \<and> (\<forall>i < length st. \<forall>needed. snd (st ! i) = Containers needed \<longrightarrow>
          list_all2 (located (pre @ own) (cr_tail_off (ca_range (fst (cHTs ! i))))) needed (locs' ! i))
     \<and> (\<forall>(s, l) \<in> set own. s + l \<le> length content) \<and> sum_list (map snd own) \<le> length st * length content"
  using assms(1)
proof (induction st cHTs arbitrary: pre locs rule: list_all2_induct)
  case (Cons np st cHT cHTs)
  obtain n plan c H T where x: "np = (n, plan)" "cHT = (c, H, T)" by (cases np, cases cHT)
  let ?off = "cr_tail_off (ca_range c)" and ?tot = "cr_tail_size (ca_range c)"
  have pr: "priceable c H T" and pl: "plan_ok res tk [] c H T n plan" using Cons.hyps(1) x by simp_all
  have bT: "?off + ?tot \<le> length content" using pr by (simp add: priceable_def holds_iff Let_def)
  have "\<exists>own ls. place_step um (pre, locs) (plan, c) = Ok (pre @ own, locs @ [ls])
      \<and> (\<forall>needed. plan = Containers needed \<longrightarrow> list_all2 (located (pre @ own) ?off) needed ls)
      \<and> (\<forall>(s, l) \<in> set own. s + l \<le> length content) \<and> sum_list (map snd own) \<le> length content"
  proof (cases plan)
    case (Containers needed)
    then obtain dir where "tail_dir_of content c T dir" "needed = filter (in_keys tk) dir" using pl by auto
    then have dir: "dir_ok ?tot needed" using dir_ok_filter by (simp add: tail_dir_of_def)
    have lim: "?off + ?tot + intra_category_gap < U64" "?tot < um"
      using bT assms(2,3,4) by (simp_all add: addressable_def intra_category_gap_def span_gap_def)
    obtain own ls where own: "foldM_o (place_container um ?off) (pre, None, []) needed
         = Ok (pre @ own, if own = [] then None else Some (length pre + length own - 1), ls)"
       "list_all2 (located (pre @ own) ?off) needed ls" "\<forall>(s, l) \<in> set own. s + l \<le> ?off + ?tot" "own = [] \<longleftrightarrow> needed = []"
       "needed \<noteq> [] \<longrightarrow> fst (last own) + snd (last own) \<le> ?off + ?tot"
       "needed \<noteq> [] \<longrightarrow> ?off + sum_list (map snd own) \<le> fst (last own) + snd (last own)"
      using place_containers [OF dir lim, of pre] by blast
    have "sum_list (map snd own) \<le> length content" using own(4-6) bT by (cases "needed = []") auto
    moreover have "\<forall>(s, l) \<in> set own. s + l \<le> length content" using own(3) bT by fastforce
    ultimately show ?thesis using own(1,2) Containers
      by (intro exI [of _ own] exI [of _ ls]) (simp add: place_step_def del: foldM_o.simps)
  qed (simp_all add: place_step_def)
  then obtain own ls where one: "place_step um (pre, locs) (plan, c) = Ok (pre @ own, locs @ [ls])"
      "\<forall>needed. plan = Containers needed \<longrightarrow> list_all2 (located (pre @ own) ?off) needed ls"
      "\<forall>(s, l) \<in> set own. s + l \<le> length content" "sum_list (map snd own) \<le> length content" by blast
  obtain own' locs' where ih: "foldM_o (place_step um) (pre @ own, locs @ [ls]) (map2 (\<lambda>(n, plan) (c, H, T). (plan, c)) st cHTs)
       = Ok ((pre @ own) @ own', (locs @ [ls]) @ locs')" "length locs' = length st"
     "\<forall>i < length st. \<forall>needed. snd (st ! i) = Containers needed \<longrightarrow>
          list_all2 (located ((pre @ own) @ own') (cr_tail_off (ca_range (fst (cHTs ! i))))) needed (locs' ! i)"
     "\<forall>(s, l) \<in> set own'. s + l \<le> length content" "sum_list (map snd own') \<le> length st * length content"
    using Cons.IH [of "pre @ own" "locs @ [ls]"] by blast
  have "list_all2 (located ((pre @ own) @ own') ?off) needed ls" if "plan = Containers needed" for needed
    using one(2) that located_append by (fastforce elim: list_all2_mono)
  then have "\<forall>i < length (np # st). \<forall>needed. snd ((np # st) ! i) = Containers needed \<longrightarrow>
      list_all2 (located ((pre @ own) @ own') (cr_tail_off (ca_range (fst ((cHT # cHTs) ! i))))) needed ((ls # locs') ! i)"
    using ih(3) x by (auto simp: nth_Cons split: nat.splits)
  moreover have "foldM_o (place_step um) (pre, locs) (map2 (\<lambda>(n, plan) (c, H, T). (plan, c)) (np # st) (cHT # cHTs)) = Ok (pre @ (own @ own'), locs @ (ls # locs'))"
    using one(1) ih(1) x by simp
  moreover have "\<forall>(s, l) \<in> set (own @ own'). s + l \<le> length content" using one(3) ih(4) by auto
  moreover have "sum_list (map snd (own @ own')) \<le> length (np # st) * length content" using one(4) ih(5) by simp
  ultimately show ?case using ih(2) by (intro exI [of _ "own @ own'"] exI [of _ "ls # locs'"]) (simp only: append_assoc length_Cons simp_thms)
qed simp

lemma wave_c_count_ok:
  assumes p: "priceable c H T" and ok: "plan_ok res tk [] c H T n plan" and res: "finite res" "result_buckets res = (hn, tk)"
    and loc: "\<forall>needed. plan = Containers needed \<longrightarrow> list_all2 (located spans (cr_tail_off (ca_range c))) needed locs"
    and spans: "\<forall>(s, l) \<in> set spans. s + l \<le> length content" and addr: "addressable um lim content"
  shows "wave_c_count um deser res (map (\<lambda>(off, len). cut content off (off + len)) spans) (n, plan, locs) = Ok (card (res \<inter> (docs H \<union> docs T)))"
proof (cases plan)
  case Done
  then show ?thesis using ok by (simp add: wave_c_count_def)
next
  case (Refetch k w)
  then show ?thesis using ok by simp
next
  case (Containers needed)
  let ?off = "cr_tail_off (ca_range c)" and ?bodies = "map (\<lambda>(off, len). cut content off (off + len)) spans"
  have wf: "well_formed T" and dH: "\<forall>d \<in> docs H. d < 65536" and dT: "\<forall>d \<in> docs T. 65536 \<le> d"
    using p by (simp_all add: priceable_def holds_iff Let_def)
  note bk = result_buckets_keys [OF res]
  obtain dir where dir: "tail_dir_of content c T dir" "needed = filter (in_keys tk) dir" and n: "n = card (res \<inter> docs H)"
    using ok Containers by auto
  let ?F = "filter (\<lambda>p. pc_key p \<in> set tk) T"
  have F: "map (piece_at content ?off) needed = ?F"
    using filter_in_keys [of content ?off dir T tk] dir bk by (simp add: tail_dir_of_def)
  have "res \<inter> docs ?F = res \<inter> docs T"
  proof -
    have "docs ?F = {d \<in> docs T. high_key d \<in> set tk}" by (rule docs_filter)
    moreover have "high_key d \<in> set tk" if "d \<in> res" "d \<in> docs T" for d using bk dT that by auto
    ultimately show ?thesis by blast
  qed
  then have total: "card (res \<inter> (docs H \<union> docs T)) = n + card (res \<inter> docs ?F)"
    using docs_split_card [OF res(1) dH dT] n by simp
  show ?thesis
  proof (cases "needed = []")
    case True
    then have "?F = []" using F by simp
    then have "docs ?F = {}" by (simp only: docs_def) simp
    then show ?thesis using total Containers True by (simp add: wave_c_count_def)
  next
    case False
    have piece: "bind_o (nth_p ?bodies si) (\<lambda>d. bind_o (add_p um rel (c_len x)) (\<lambda>e. map_ok (Piece (c_key x) (c_card x)) (cut_p d rel e)))
        = (Ok (piece_at content ?off x) :: piece ires)" if "located spans ?off x (si, rel)" for x si rel
    proof -
      obtain s l where sl: "spans ! si = (s, l)" by fastforce
      have l: "si < length spans" "s + rel = ?off + c_start x" "rel + c_len x \<le> l" using that sl by (simp_all add: located_def)
      have b: "s + l \<le> length content" using spans l(1) sl by (metis (no_types, lifting) case_prodD nth_mem)
      have "cut (cut content s (s + l)) rel (rel + c_len x) = cut content (s + rel) (s + (rel + c_len x))"
        using l(3) b by (intro cut_cut) simp_all
      also have "\<dots> = cut content (?off + c_start x) (?off + c_start x + c_len x)" using l(2) by (simp only: add.assoc [symmetric])
      finally have "cut (cut content s (s + l)) rel (rel + c_len x) = cut content (?off + c_start x) (?off + c_start x + c_len x)" .
      moreover have "rel + c_len x < um" using l(3) b addr by (simp add: addressable_def)
      moreover have "rel + c_len x \<le> length (cut content s (s + l))" using l(3) b by simp
      ultimately show ?thesis using l(1) sl by (simp add: piece_at_def)
    qed
    have "mapM_o (\<lambda>(c, si, rel). bind_o (nth_p ?bodies si) (\<lambda>d. bind_o (add_p um rel (c_len c)) (\<lambda>e.
        map_ok (Piece (c_key c) (c_card c)) (cut_p d rel e)))) (zip needed locs) = (Ok (map (piece_at content ?off) needed) :: piece list ires)"
    proof -
      have l2: "list_all2 (located spans ?off) needed locs" using loc Containers by blast
      then have len: "length needed = length locs" by (rule list_all2_lengthD)
      have "mapM_o (\<lambda>(c, si, rel). bind_o (nth_p ?bodies si) (\<lambda>d. bind_o (add_p um rel (c_len c)) (\<lambda>e.
          map_ok (Piece (c_key c) (c_card c)) (cut_p d rel e)))) (zip needed locs)
        = (Ok (map (\<lambda>(c, _). piece_at content ?off c) (zip needed locs)) :: piece list ires)"
        by (rule mapM_o_map) (use l2 piece in \<open>auto simp: list_all2_iff\<close>)
      also have "map (\<lambda>(c, _). piece_at content ?off c) (zip needed locs) = map (piece_at content ?off) needed"
        by (rule map_zip_fst [OF len])
      finally show ?thesis .
    qed
    then have "wave_c_count um deser res ?bodies (n, plan, locs) = map_ok (\<lambda>bm. n + card (res \<inter> bm)) (deserialize deser (assemble ?F))"
      using Containers False F by (simp add: wave_c_count_def)
    then show ?thesis using total deserialize_assemble [OF well_formed_filter [OF wf]] by simp
  qed
qed

end

lemma concat_pairs:
  assumes "\<And>c. length (f c) = 2"
  shows "length (concat (map f cs)) = 2 * length cs"
    and "i < length cs \<Longrightarrow> concat (map f cs) ! (2 * i) = f (cs ! i) ! 0 \<and> concat (map f cs) ! (2 * i + 1) = f (cs ! i) ! 1"
proof -
  show "length (concat (map f cs)) = 2 * length cs" using assms by (induction cs) simp_all
  show "i < length cs \<Longrightarrow> concat (map f cs) ! (2 * i) = f (cs ! i) ! 0 \<and> concat (map f cs) ! (2 * i + 1) = f (cs ! i) ! 1"
  proof (induction cs arbitrary: i)
    case (Cons c cs)
    show ?case
    proof (cases i)
      case 0
      then show ?thesis using assms [of c] by (simp add: nth_append)
    next
      case (Suc j)
      then have "2 * i = length (f c) + 2 * j" "2 * i + 1 = length (f c) + (2 * j + 1)" "j < length cs" using assms [of c] Cons.prems by simp_all
      then show ?thesis using Cons.IH [of j] Suc by (simp only: list.map concat.simps nth_append_length_plus nth_Cons_Suc)
    qed
  qed simp
qed

lemma length_wave_a_ranges [simp]: "length (wave_a_ranges hn tk c) = 2"
  by (simp add: wave_a_ranges_def)

lemma sum_list_le_mult: "\<forall>x \<in> set xs. x \<le> (b :: nat) \<Longrightarrow> sum_list xs \<le> length xs * b"
  by (induction xs) auto

context posting_store
begin

lemma wave_a_ranges_ok:
  assumes "priceable c H T" "(off, len) \<in> set (wave_a_ranges hn tk c)"
  shows "len \<noteq> 0 \<longrightarrow> off + len \<le> length content" "len \<le> length content"
  using assms by (auto simp: wave_a_ranges_def priceable_def holds_iff head_range_def Let_def split: if_splits)

lemma count_batched_ok:
  assumes p: "\<forall>t \<in> set targets. priceable (cat_at fds t) (H t) (T t)" and res: "finite res" "\<forall>d \<in> res. d < U32" "result_buckets res = (hn, tk)"
    and addr: "addressable um lim content" and lim: "lim \<le> um" "um \<le> U64" and fit: "2 * length targets * length content < um"
  shows "count_batched um deser fetch fds targets res hn tk = Ok (map (\<lambda>t. card (res \<inter> (docs (H t) \<union> docs (T t)))) targets)"
proof -
  define cats where "cats = map (cat_at fds) targets"
  define HT where "HT = map (\<lambda>t. (H t, T t)) targets"
  let ?n = "length targets"
  have len: "length cats = ?n" "length HT = ?n" by (simp_all add: cats_def HT_def)
  have pr: "list_all2 (\<lambda>c (H, T). priceable c H T) cats HT"
    using p by (simp add: cats_def HT_def list_all2_map1 list_all2_map2 list_all2_same)
  let ?cut = "map (\<lambda>(off, len). cut content off (off + len))"
  let ?A = "concat (map (wave_a_ranges hn tk) cats)"
  have A: "\<forall>(off, len) \<in> set ?A. len \<noteq> 0 \<longrightarrow> off + len \<le> length content" "\<forall>x \<in> set (map snd ?A). x \<le> length content"
    using p wave_a_ranges_ok unfolding cats_def by fastforce+
  have lA: "length ?A = 2 * ?n" using concat_pairs(1) [of "wave_a_ranges hn tk" cats] len by simp
  have "sum_list (map snd ?A) \<le> length (map snd ?A) * length content" by (rule sum_list_le_mult [OF A(2)])
  then have sA: "sum_list (map snd ?A) < um" using lA fit by simp
  have wA: "pricing_wave um fetch ?A = Ok (?cut ?A)" by (rule pricing_wave_ok [OF A(1) sA addr lim(1)])
  have nthA: "\<forall>j < length cats. 2 * (0 + j) + 1 < length (?cut ?A)
      \<and> ?cut ?A ! (2 * (0 + j)) = (let (off, len) = wave_a_ranges hn tk (cats ! j) ! 0 in cut content off (off + len))
      \<and> ?cut ?A ! (2 * (0 + j) + 1) = (let (off, len) = wave_a_ranges hn tk (cats ! j) ! 1 in cut content off (off + len))"
  proof (intro allI impI)
    fix j assume j: "j < length cats"
    have "2 * j + 1 < length ?A" using j lA len by simp
    then show "2 * (0 + j) + 1 < length (?cut ?A)
      \<and> ?cut ?A ! (2 * (0 + j)) = (let (off, len) = wave_a_ranges hn tk (cats ! j) ! 0 in cut content off (off + len))
      \<and> ?cut ?A ! (2 * (0 + j) + 1) = (let (off, len) = wave_a_ranges hn tk (cats ! j) ! 1 in cut content off (off + len))"
      using concat_pairs(2) [of "wave_a_ranges hn tk" j cats] j by (simp only: nth_map length_map length_wave_a_ranges Suc_lessD add_0 Let_def)
  qed
  obtain ns plans wb where fa: "foldM_o (wave_a_step um deser res tk (?cut ?A)) ([], [], []) (enumerate 0 cats) = Ok (ns, plans, wb)"
     "list_all2 (\<lambda>(n, plan) (c, H, T). plan_ok res tk wb c H T n plan) (zip ns plans) (zip cats HT)"
     "length ns = ?n" "length plans = ?n" "length wb \<le> ?n" "\<forall>(off, len) \<in> set wb. off + len \<le> length content"
    using wave_a_fold [OF pr res nthA, of "[]" "[]" "[]"] len by auto
  have "\<forall>x \<in> set (map snd wb). x \<le> length content" using fa(6) by auto
  then have "sum_list (map snd wb) \<le> length wb * length content" using sum_list_le_mult [of "map snd wb"] by simp
  also have "\<dots> \<le> 2 * ?n * length content" using fa(5) by (intro mult_right_mono) simp_all
  finally have sB: "sum_list (map snd wb) < um" using fit by simp
  have wB: "pricing_wave um fetch wb = Ok (?cut wb)" by (rule pricing_wave_ok [OF _ sB addr lim(1)]) (use fa(6) in auto)
  have both: "list_all2 (\<lambda>(n, plan) (c, H, T). priceable c H T \<and> plan_ok res tk wb c H T n plan) (zip ns plans) (zip cats HT)"
    using fa(2) pr len fa(3,4) by (auto simp: list_all2_conv_all_nth split: prod.splits)
  have z1: "map2 (\<lambda>(n, plan) (c, H, T). (n, plan, c)) (zip ns plans) (zip cats HT) = zip ns (zip plans cats)"
    using fa(3,4) len by (intro nth_equalityI) (auto split: prod.splits)
  obtain st where st: "mapM_o (wave_b_step um deser fetch res tk (?cut wb)) (zip ns (zip plans cats)) = Ok st"
     "list_all2 (\<lambda>(n, plan) (c, H, T). plan_ok res tk [] c H T n plan) st (zip cats HT)"
    using wave_b_all [OF both refl] unfolding z1 by blast
  have lst: "length st = ?n" using list_all2_lengthD [OF st(2)] len by simp
  have both2: "list_all2 (\<lambda>(n, plan) (c, H, T). priceable c H T \<and> plan_ok res tk [] c H T n plan) st (zip cats HT)"
    using st(2) pr len lst by (auto simp: list_all2_conv_all_nth split: prod.splits)
  have z2: "map2 (\<lambda>(n, plan) (c, H, T). (plan, c)) st (zip cats HT) = zip (map snd st) cats"
    using lst len by (intro nth_equalityI) (auto split: prod.splits)
  obtain spans locs where pl: "foldM_o (place_step um) ([], []) (zip (map snd st) cats) = Ok (spans, locs)" "length locs = length st"
     "\<forall>i < length st. \<forall>needed. snd (st ! i) = Containers needed \<longrightarrow>
          list_all2 (located spans (cr_tail_off (ca_range (fst (zip cats HT ! i))))) needed (locs ! i)"
     "\<forall>(s, l) \<in> set spans. s + l \<le> length content" "sum_list (map snd spans) \<le> length st * length content"
    using place_all [OF both2 addr lim, of "[]" "[]"] unfolding z2 by auto
  have "length st * length content \<le> 2 * ?n * length content" using lst by simp
  then have sC: "sum_list (map snd spans) < um" using pl(5) fit by linarith
  have wC: "pricing_wave um fetch spans = Ok (?cut spans)" by (rule pricing_wave_ok [OF _ sC addr lim(1)]) (use pl(4) in auto)
  have "mapM_o (wave_c_count um deser res (?cut spans)) (zip (map fst st) (zip (map snd st) locs))
      = Ok (map (\<lambda>t. card (res \<inter> (docs (H t) \<union> docs (T t)))) targets)"
    unfolding mapM_o_Ok_iff
  proof (rule list_all2_all_nthI)
    show "length (zip (map fst st) (zip (map snd st) locs)) = length (map (\<lambda>t. card (res \<inter> (docs (H t) \<union> docs (T t)))) targets)"
      using lst pl(2) by simp
    fix i assume "i < length (zip (map fst st) (zip (map snd st) locs))"
    then have i: "i < ?n" using lst pl(2) by simp
    let ?t = "targets ! i"
    obtain n plan where np: "st ! i = (n, plan)" by fastforce
    have ok: "priceable (cat_at fds ?t) (H ?t) (T ?t)" "plan_ok res tk [] (cat_at fds ?t) (H ?t) (T ?t) n plan"
      using list_all2_nthD [OF both2, of i] np i lst by (simp_all add: cats_def HT_def)
    have "wave_c_count um deser res (?cut spans) (n, plan, locs ! i) = Ok (card (res \<inter> (docs (H ?t) \<union> docs (T ?t))))"
      by (rule wave_c_count_ok [OF ok res(1,3) _ pl(4) addr]) (use pl(3) i lst np in \<open>auto simp: cats_def HT_def\<close>)
    then show "wave_c_count um deser res (?cut spans) (zip (map fst st) (zip (map snd st) locs) ! i)
        = Ok (map (\<lambda>t. card (res \<inter> (docs (H t) \<union> docs (T t)))) targets ! i)"
      using i lst pl(2) np by simp
  qed
  then show ?thesis
    unfolding count_batched_def Let_def cats_def [symmetric] wA bind_o.simps fa(1) prod.case wB st(1) pl(1) wC by simp
qed

end

section \<open>Counts over an opened sidecar\<close>

text \<open>A category with the directory of its tail, if it has one.\<close>

definition cat_known :: "(nat set \<Rightarrow> bytes) \<Rightarrow> bytes \<Rightarrow> nat set \<Rightarrow> category \<Rightarrow> bool" where
  "cat_known ser bs S c \<longleftrightarrow> cat_stored ser bs S (c\<lparr>ca_tail_dir := None\<rparr>) \<and>
     (\<forall>dir T. ca_tail_dir c = Some dir \<longrightarrow> stored bs T (cr_tail_off (ca_range c)) (cr_tail_size (ca_range c)) \<longrightarrow> tail_dir_of bs c T dir)"

lemma cat_stored_known: "cat_stored ser bs S c \<Longrightarrow> cat_known ser bs S c"
  by (simp add: cat_known_def cat_stored_def)

lemma stored_priceable:
  assumes st: "posting_store fetch bs um deser ser" and addr: "addressable um um bs" and c: "cat_known ser bs S c"
  shows "\<exists>H T. posting_store.priceable bs um um c H T \<and> docs H \<union> docs T = S"
proof -
  obtain p where p: "stored bs (fst p) (cr_head_off (ca_range c)) (cr_head_size (ca_range c))"
      "stored bs (snd p) (cr_tail_off (ca_range c)) (cr_tail_size (ca_range c))"
      "docs (fst p) = S \<inter> {..<65536}" "docs (snd p) = S - {..<65536}"
    using roaring.stored_contents [OF posting_store.axioms(2) [OF st], of bs S "c\<lparr>ca_tail_dir := None\<rparr>"] c by (auto simp: cat_known_def)
  have "posting_store.priceable bs um um c (fst p) (snd p)"
    using p c addr by (auto simp: posting_store.priceable_def [OF st] posting_store.holds_def [OF st] cat_stored_def cat_known_def Let_def)
  moreover have "docs (fst p) \<union> docs (snd p) = S" using p(3,4) by auto
  ultimately show ?thesis by blast
qed

lemma count_targets:
  assumes st: "posting_store fetch bs um deser ser" and um: "length bs + span_gap < um" "um \<le> U64"
    and cats: "\<forall>t \<in> set targets. cat_known ser bs (S t) (cat_at fds t)"
    and res: "finite res" "\<forall>d \<in> res. d < U32" "result_buckets res = (hn, tk)" and fit: "2 * length targets * length bs < um"
  shows "count_batched um deser fetch fds targets res hn tk = Ok (map (\<lambda>t. card (res \<inter> S t)) targets)"
proof -
  have addr: "addressable um um bs" using um by (simp add: addressable_def)
  have "\<forall>t \<in> set targets. \<exists>HT. posting_store.priceable bs um um (cat_at fds t) (fst HT) (snd HT) \<and> docs (fst HT) \<union> docs (snd HT) = S t"
    using stored_priceable [OF st addr] cats by force
  then obtain HT where HT: "\<forall>t \<in> set targets. posting_store.priceable bs um um (cat_at fds t) (fst (HT t)) (snd (HT t)) \<and> docs (fst (HT t)) \<union> docs (snd (HT t)) = S t"
    using bchoice [of "set targets"] by meson
  have "count_batched um deser fetch fds targets res hn tk = Ok (map (\<lambda>t. card (res \<inter> (docs (fst (HT t)) \<union> docs (snd (HT t))))) targets)"
    by (rule posting_store.count_batched_ok [OF st _ res addr order_refl um(2) fit, of fds "\<lambda>t. fst (HT t)" "\<lambda>t. snd (HT t)"]) (use HT in blast)
  then show ?thesis using HT by (simp cong: map_cong)
qed

lemma position_find: "map_option ((!) xs) (position P xs) = find P xs"
  by (induction xs) (auto simp: option.map_comp comp_def)

lemma find_target_category:
  "map_option (cat_at fds) (find_target fds (f, c)) = find_category fds f c"
proof (cases "position (\<lambda>x. fd_name x = f) fds")
  case None
  then show ?thesis using position_find [of fds "\<lambda>x. fd_name x = f"] by (simp add: find_target_def find_category_def)
next
  case (Some fi)
  then have "find (\<lambda>x. fd_name x = f) fds = Some (fds ! fi)" using position_find [of fds "\<lambda>x. fd_name x = f"] by simp
  then have "find_category fds f c = find (\<lambda>x. ca_name x = c) (fd_cats (fds ! fi))" by (simp add: find_category_def)
  also have "\<dots> = map_option ((!) (fd_cats (fds ! fi))) (position (\<lambda>x. ca_name x = c) (fd_cats (fds ! fi)))" by (rule position_find [symmetric])
  finally show ?thesis using Some by (simp add: find_target_def option.map_comp comp_def cat_at_def)
qed

lemma slot_step_cases:
  "find_target fds p = None \<Longrightarrow> slot_step fds (ts, sl) p = (ts, sl @ [None])"
  "find_target fds p = Some t \<Longrightarrow> slot_step fds (ts, sl) p = (ts @ [t], sl @ [Some (length ts)])"
  by (simp_all add: slot_step_def)

lemma slot_steps:
  "foldl (slot_step fds) (ts, sl) pairs = (ts', sl') \<Longrightarrow>
   \<exists>tx sx. ts' = ts @ tx \<and> sl' = sl @ sx \<and> length tx \<le> length pairs
     \<and> list_all2 (\<lambda>pair s. case s of None \<Rightarrow> find_target fds pair = None | Some i \<Rightarrow> i < length ts' \<and> find_target fds pair = Some (ts' ! i)) pairs sx
     \<and> (\<forall>t \<in> set tx. \<exists>pair \<in> set pairs. find_target fds pair = Some t)"
proof (induction pairs arbitrary: ts sl)
  case (Cons p pairs)
  show ?case
  proof (cases "find_target fds p")
    case None
    then have "foldl (slot_step fds) (ts, sl @ [None]) pairs = (ts', sl')" using Cons.prems slot_step_cases(1) [OF None] by (simp only: foldl_Cons)
    from Cons.IH [OF this] obtain tx sx where ih: "ts' = ts @ tx" "sl' = (sl @ [None]) @ sx" "length tx \<le> length pairs"
      "list_all2 (\<lambda>pair s. case s of None \<Rightarrow> find_target fds pair = None | Some i \<Rightarrow> i < length ts' \<and> find_target fds pair = Some (ts' ! i)) pairs sx"
      "\<forall>t \<in> set tx. \<exists>pair \<in> set pairs. find_target fds pair = Some t" by blast
    then show ?thesis using None by (intro exI [of _ tx] exI [of _ "None # sx"]) auto
  next
    case (Some t)
    then have "foldl (slot_step fds) (ts @ [t], sl @ [Some (length ts)]) pairs = (ts', sl')" using Cons.prems slot_step_cases(2) [OF Some] by (simp only: foldl_Cons)
    from Cons.IH [OF this] obtain tx sx where ih: "ts' = (ts @ [t]) @ tx" "sl' = (sl @ [Some (length ts)]) @ sx" "length tx \<le> length pairs"
      "list_all2 (\<lambda>pair s. case s of None \<Rightarrow> find_target fds pair = None | Some i \<Rightarrow> i < length ts' \<and> find_target fds pair = Some (ts' ! i)) pairs sx"
      "\<forall>t \<in> set tx. \<exists>pair \<in> set pairs. find_target fds pair = Some t" by blast
    have "length ts < length ts'" "ts' ! length ts = t" using ih(1) by (simp_all add: nth_append)
    then show ?thesis using ih Some by (intro exI [of _ "t # tx"] exI [of _ "Some (length ts) # sx"]) auto
  qed
qed simp

lemma counts_for_known:
  assumes st: "posting_store fetch bs um deser ser" and um: "length bs + span_gap < um" "um \<le> U64"
    and cats: "\<forall>f c cat. find_category fds f c = Some cat \<longrightarrow> cat_known ser bs (D f c) cat"
    and res: "finite res" "\<forall>d \<in> res. d < U32" and fit: "2 * length pairs * length bs < um"
  shows "counts_for um deser fetch fds res pairs = Ok (map (\<lambda>(f, c). if find_category fds f c = None then 0 else card (res \<inter> D f c)) pairs)"
proof -
  obtain hn tk where bk: "result_buckets res = (hn, tk)" by fastforce
  obtain ts sl where sl: "foldl (slot_step fds) ([], []) pairs = (ts, sl)" by fastforce
  have slots: "length ts \<le> length pairs"
      "list_all2 (\<lambda>pair s. case s of None \<Rightarrow> find_target fds pair = None | Some i \<Rightarrow> i < length ts \<and> find_target fds pair = Some (ts ! i)) pairs sl"
      "\<forall>t \<in> set ts. \<exists>pair \<in> set pairs. find_target fds pair = Some t"
    using slot_steps [OF sl] by auto
  have found: "ca_name (cat_at fds t) = c \<and> cat_known ser bs (D f c) (cat_at fds t)" if "find_target fds (f, c) = Some t" for f c t
  proof -
    have fc: "find_category fds f c = Some (cat_at fds t)" using find_target_category [of fds f c] that by simp
    then have "ca_name (cat_at fds t) = c" by (auto simp: find_category_def bind_eq_Some_conv find_Some_iff)
    then show ?thesis using cats fc by blast
  qed
  define S where "S t = (SOME X. \<exists>f c. find_target fds (f, c) = Some t \<and> X = D f c)" for t
  have S: "S t = D f c" if t: "find_target fds (f, c) = Some t" for f c t
  proof -
    have "\<exists>X. \<exists>f c. find_target fds (f, c) = Some t \<and> X = D f c" using t by blast
    then obtain f' c' where fc: "find_target fds (f', c') = Some t" "S t = D f' c'"
      using someI_ex [of "\<lambda>X. \<exists>f c. find_target fds (f, c) = Some t \<and> X = D f c"] unfolding S_def by blast
    have "c' = c" using found [OF fc(1)] found [OF t] by simp
    moreover have "f' = f" using fc(1) t by (auto simp: find_target_def bind_eq_Some_conv dest!: position_Some)
    ultimately show ?thesis using fc(2) by simp
  qed
  have "\<forall>t \<in> set ts. cat_known ser bs (S t) (cat_at fds t)" using slots(3) found S by fastforce
  moreover have "2 * length ts * length bs < um" using slots(1) fit by (meson le_less_trans mult_le_mono order_refl)
  ultimately have priced: "count_batched um deser fetch fds ts res hn tk = Ok (map (\<lambda>t. card (res \<inter> S t)) ts)"
    by (intro count_targets [OF st um _ res bk])
  have "mapM_o (\<lambda>s. case s of None \<Rightarrow> Ok 0 | Some i \<Rightarrow> nth_p (map (\<lambda>t. card (res \<inter> S t)) ts) i) sl
      = (Ok (map (\<lambda>(f, c). if find_category fds f c = None then 0 else card (res \<inter> D f c)) pairs) :: nat list ires)"
    unfolding mapM_o_Ok_iff
  proof (rule list_all2_all_nthI)
    show "length sl = length (map (\<lambda>(f, c). if find_category fds f c = None then 0 else card (res \<inter> D f c)) pairs)" using slots(2) by (auto dest: list_all2_lengthD)
    fix i assume i: "i < length sl"
    obtain f c where fc: "pairs ! i = (f, c)" by fastforce
    have s: "case sl ! i of None \<Rightarrow> find_target fds (f, c) = None | Some j \<Rightarrow> j < length ts \<and> find_target fds (f, c) = Some (ts ! j)"
      by (rule list_all2_nthD2 [OF slots(2) i, unfolded fc])
    have len: "length pairs = length sl" using slots(2) by (auto dest: list_all2_lengthD)
    show "(case sl ! i of None \<Rightarrow> Ok 0 | Some j \<Rightarrow> nth_p (map (\<lambda>t. card (res \<inter> S t)) ts) j)
        = (Ok (map (\<lambda>(f, c). if find_category fds f c = None then 0 else card (res \<inter> D f c)) pairs ! i) :: nat ires)"
    proof (cases "sl ! i")
      case None
      then have "find_category fds f c = None" using s find_target_category [of fds f c] by simp
      then show ?thesis using None fc i len by simp
    next
      case (Some j)
      then show ?thesis using s S [of f c "ts ! j"] find_target_category [of fds f c] fc i len by auto
    qed
  qed
  then show ?thesis by (simp add: counts_for_def bk sl priced)
qed

lemma counts_for_exact:
  assumes st: "posting_store fetch bs um deser ser" and um: "length bs + span_gap < um" "um \<le> U64"
    and ok: "facet_map_ok facets" and op: "open_facets lower cn ser bs facets fds"
    and res: "finite res" "\<forall>d \<in> res. d < U32" and fit: "2 * length pairs * length bs < um"
  shows "counts_for um deser fetch fds res pairs = Ok (map (\<lambda>(f, c). card (res \<inter> docs_of facets f c)) pairs)"
proof -
  have "\<forall>f c cat. find_category fds f c = Some cat \<longrightarrow> cat_known ser bs (docs_of facets f c) cat"
    using find_category_Some [OF ok op] cat_stored_known by blast
  moreover have "(if find_category fds f c = None then 0 else card (res \<inter> docs_of facets f c)) = card (res \<inter> docs_of facets f c)" for f c
    using find_category_None [OF ok op, of f c] by simp
  ultimately show ?thesis using counts_for_known [OF st um _ res fit] by simp
qed

section \<open>The panel\<close>

text \<open>What the standard library promises of \<open>select_nth_unstable_by(k - 1, ..)\<close> on the counts, descending.\<close>

definition selects :: "nth_select \<Rightarrow> bool" where
  "selects select \<longleftrightarrow> (\<forall>idx key k. k \<le> length idx \<longrightarrow> mset (select idx key k) = mset idx
     \<and> (\<forall>a \<in> set (take k (select idx key k)). \<forall>b \<in> set (drop k (select idx key k)). key b \<le> key a))"

lemma field_targets_set:
  assumes "selects select"
  shows "set (field_targets select n (fi, f)) \<subseteq> Pair fi ` {..<length (fd_cats f)}" "distinct (field_targets select n (fi, f))"
    and "length (field_targets select n (fi, f)) \<le> length (fd_cats f)"
proof -
  let ?m = "length (fd_cats f)" and ?sel = "select [0..<length (fd_cats f)] (\<lambda>i. ca_count (fd_cats f ! i)) n"
  have "set (field_targets select n (fi, f)) \<subseteq> Pair fi ` {..<?m} \<and> distinct (field_targets select n (fi, f)) \<and> length (field_targets select n (fi, f)) \<le> ?m"
  proof (cases "n = 0 \<or> ?m \<le> n")
    case True
    then show ?thesis by (auto simp: field_targets_def Let_def distinct_map inj_on_def)
  next
    case False
    then have perm: "mset ?sel = mset [0..<?m]" using assms by (simp add: selects_def)
    have s: "set ?sel = {..<?m}" using mset_eq_setD [OF perm] by (simp add: lessThan_atLeast0)
    have d: "distinct ?sel" using mset_eq_imp_distinct_iff [OF perm] by simp
    have l: "length ?sel = ?m" using mset_eq_length [OF perm] by simp
    have "field_targets select n (fi, f) = map (Pair fi) (take n ?sel)" using False by (auto simp: field_targets_def Let_def)
    moreover have "set (take n ?sel) \<subseteq> {..<?m}" using s set_take_subset by metis
    ultimately show ?thesis using d l by (auto simp: distinct_map inj_on_def)
  qed
  then show "set (field_targets select n (fi, f)) \<subseteq> Pair fi ` {..<?m}" "distinct (field_targets select n (fi, f))"
    "length (field_targets select n (fi, f)) \<le> ?m" by blast+
qed

definition panel_targets :: "nth_select \<Rightarrow> nat \<Rightarrow> facet_field list \<Rightarrow> (nat \<times> nat) list" where
  "panel_targets select n fds = concat (map (field_targets select n) (enumerate 0 fds))"

lemma panel_targets_set:
  assumes "selects select" "t \<in> set (panel_targets select n fds)"
  shows "fst t < length fds" "snd t < length (fd_cats (fds ! fst t))"
proof -
  obtain fi where "fi < length fds" "t \<in> set (field_targets select n (fi, fds ! fi))"
    using assms(2) by (auto simp: panel_targets_def in_set_enumerate_eq)
  then show "fst t < length fds" "snd t < length (fd_cats (fds ! fst t))" using field_targets_set(1) [OF assms(1)] by fastforce+
qed

lemma length_panel_targets:
  assumes "selects select"
  shows "length (panel_targets select n fds) \<le> length (concat (map fd_cats fds))"
proof -
  have "length (concat (map (field_targets select n) (enumerate i fds))) \<le> length (concat (map fd_cats fds))" for i
    using field_targets_set(3) [OF assms] by (induction fds arbitrary: i) (auto intro: add_mono)
  then show ?thesis by (simp add: panel_targets_def)
qed

lemma panel_update:
  fixes g :: "nat \<times> nat \<Rightarrow> nat"
  assumes "\<forall>t \<in> set ts. fst t < length ns \<and> snd t < length (ns ! fst t)"
  defines "r \<equiv> foldl (\<lambda>ns ((fi, ci), n). ns[fi := (ns ! fi)[ci := n]]) ns (map (\<lambda>t. (t, g t)) ts)"
  shows "length r = length ns \<and> (\<forall>i < length ns. length (r ! i) = length (ns ! i)
    \<and> (\<forall>j < length (ns ! i). r ! i ! j = (if (i, j) \<in> set ts then g (i, j) else ns ! i ! j)))"
  using assms(1) unfolding r_def
proof (induction ts rule: rev_induct)
  case (snoc t ts)
  let ?r = "foldl (\<lambda>ns ((fi, ci), n). ns[fi := (ns ! fi)[ci := n]]) ns (map (\<lambda>t. (t, g t)) ts)"
  obtain fi ci where t: "t = (fi, ci)" by (cases t)
  have ih: "length ?r = length ns" "\<forall>i < length ns. length (?r ! i) = length (ns ! i)
      \<and> (\<forall>j < length (ns ! i). ?r ! i ! j = (if (i, j) \<in> set ts then g (i, j) else ns ! i ! j))"
    using snoc by auto
  show ?case using ih snoc.prems by (auto simp: t nth_list_update)
qed simp

lemma counts_full_exact:
  assumes st: "posting_store fetch bs um deser ser" and um: "length bs + span_gap < um" "um \<le> U64"
    and ok: "facet_map_ok facets" and op: "open_facets lower cn ser bs facets fds" and sel: "selects select"
    and res: "finite res" "\<forall>d \<in> res. d < U32" and fit: "2 * length (concat (map fd_cats fds)) * length bs < um"
  shows "\<exists>ns. counts_full um deser fetch select fds res top_n = Ok ns \<and> length ns = length fds
    \<and> (\<forall>i < length fds. length (ns ! i) = length (fd_cats (fds ! i)) \<and> (\<forall>j < length (fd_cats (fds ! i)).
         ns ! i ! j = card (res \<inter> (if (i, j) \<in> set (panel_targets select top_n fds)
           then docs_of facets (fd_name (fds ! i)) (ca_name (cat_at fds (i, j))) else ca_head (cat_at fds (i, j))))))"
proof -
  obtain hn tk where bk: "result_buckets res = (hn, tk)" by fastforce
  let ?ts = "panel_targets select top_n fds"
  let ?S = "\<lambda>t. docs_of facets (fd_name (fds ! fst t)) (ca_name (cat_at fds t))"
  note mem = panel_targets_set [OF sel]
  have "\<forall>t \<in> set ?ts. cat_known ser bs (?S t) (cat_at fds t)"
    using open_facets_cat [OF ok op] mem cat_stored_known by (auto simp: cat_at_def)
  moreover have "2 * length ?ts * length bs < um"
    using length_panel_targets [OF sel, of top_n fds] fit by (meson le_less_trans mult_le_mono order_refl)
  ultimately have priced: "count_batched um deser fetch fds ?ts res hn tk = Ok (map (\<lambda>t. card (res \<inter> ?S t)) ?ts)"
    by (intro count_targets [OF st um _ res bk])
  have z: "zip ?ts (map (\<lambda>t. card (res \<inter> ?S t)) ?ts) = map (\<lambda>t. (t, card (res \<inter> ?S t))) ?ts"
    by (simp add: zip_map2 zip_same_conv_map)
  have shape: "\<forall>t \<in> set ?ts. fst t < length (facet_counts fds res) \<and> snd t < length (facet_counts fds res ! fst t)"
    using mem by (simp add: facet_counts_def)
  note up = panel_update [OF shape, of "\<lambda>t. card (res \<inter> ?S t)"]
  show ?thesis
    unfolding counts_full_def bk prod.case Let_def panel_targets_def [symmetric] priced bind_o.simps z
    using up by (simp add: facet_counts_def cat_at_def)
qed

end
