(* ===== verification/RR_Facet_Exact.thy ===== *)
theory RR_Facet_Exact imports RR_Facet_Counts begin

text \<open>
  The facet sidecar of a split end to end: opening what the writer wrote, filtering by selections
  and counting within a result agree with the documents of the categories.
\<close>

text \<open>The witnesses: one field \<open>l\<close> with categories \<open>b\<close> (documents 3 and 70000) and \<open>a\<close> (none).\<close>

definition demo_facet_map :: facet_map where
  "demo_facet_map = [([108], [([98], {3, 70000})]), ([109], [])]"

lemma demo_facet_encodings: "length (format_encode {3}) = 18" "length (format_encode {70000}) = 18"
  by (simp_all add: format_encode_def length_assemble data_start_def encode_piece_def encode_body_def Let_def)

lemma demo_facet_map_ok: "facet_map_ok demo_facet_map" "facet_names_len demo_facet_map = 3"
  by (simp_all add: demo_facet_map_def facet_map_ok_def scalar_def facet_names_len_def utf8_bytes_def utf8_char_def)

lemma demo_facet_written:
  "\<exists>bs. write_facets_with (\<lambda>s. s) (facet_fields format_encode demo_facet_map 65536) True = Ok bs \<and> length bs = 131"
proof -
  have s: "{70000, 3} - {0..<65536} = {70000 :: nat}" "{3, 70000} - {0..<65536} = {70000 :: nat}" "{0..<65536} \<inter> {3, 70000} = {3 :: nat}" by auto
  show ?thesis
    by (simp add: write_facets_with_def facet_fields_def demo_facet_map_def split_posting_def s out_field_def out_cat_def push_name_def
      utf8_bytes_def utf8_char_def u32_len_def demo_facet_encodings map_ok_Ok_iff)
qed

text \<open>
  C23: A written facet sidecar opens with what was written: every field with its name and its
  categories in the order of their keys, every category with its name and its document count, the
  bytes at its range being its head posting (documents below 65536) and its tail posting; a head
  held in memory is empty or that of the category, and it is that of the category when the file is
  no larger than the eager limit or the category is among the largest of its field.
\<close>

theorem facets_roundtrip:
  assumes "roaring deser ser" "facet_map_ok facets" "facet_names_len facets < U32"
    and "write_facets_with lower (facet_fields ser facets 65536) cn = Ok bs" "length bs < um" "um \<le> U64"
  shows "\<exists>fds. facet_open_tuned um deser (mem_read um (mem_new bs)) eager_limit top_n = Ok fds
    \<and> map (\<lambda>f. (fd_name f, map (\<lambda>c. (ca_name c, ca_count c)) (fd_cats f))) fds
        = map (\<lambda>(f, cats). (f, map (\<lambda>(c, S). (c, card S mod U32)) (facet_order lower cn f cats))) facets
    \<and> (\<forall>fd \<in> set fds. \<forall>c \<in> set (fd_cats fd). let S = docs_of facets (fd_name fd) (ca_name c); r = ca_range c in
         cut bs (cr_head_off r) (cr_head_off r + cr_head_size r) = ser (S \<inter> {..<65536})
         \<and> cut bs (cr_tail_off r) (cr_tail_off r + cr_tail_size r) = ser (S - {..<65536})
         \<and> (ca_head c = {} \<or> ca_head c = S \<inter> {..<65536}))
    \<and> (\<forall>i < length fds. \<forall>j < length (fd_cats (fds ! i)). length bs \<le> eager_limit \<or> j \<in> set (top_counts top_n (fds ! i)) \<longrightarrow>
         ca_head (cat_at fds (i, j)) = docs_of facets (fd_name (fds ! i)) (ca_name (cat_at fds (i, j))) \<inter> {..<65536})"
proof -
  obtain fds where fds: "facet_open_tuned um deser (mem_read um (mem_new bs)) eager_limit top_n = Ok fds" "open_facets lower cn ser bs facets fds"
    "\<forall>i < length fds. \<forall>j < length (fd_cats (fds ! i)). length bs \<le> eager_limit \<or> j \<in> set (top_counts top_n (fds ! i)) \<longrightarrow>
         ca_head (cat_at fds (i, j)) = docs_of facets (fd_name (fds ! i)) (ca_name (cat_at fds (i, j))) \<inter> {..<65536}"
    using roaring.facets_opened [OF assms(1,4,2,3,5,6)] by blast
  have cs: "map (\<lambda>c. (ca_name c, ca_count c)) cs = map (\<lambda>(c, S). (c, card S mod U32)) xs"
    if "list_all2 (\<lambda>(n, S) c. ca_name c = n \<and> cat_stored ser bs S c) xs cs" for xs cs
    using that by (induction xs cs rule: list_all2_induct) (auto simp: cat_stored_def)
  have "map (\<lambda>f. (fd_name f, map (\<lambda>c. (ca_name c, ca_count c)) (fd_cats f))) fds
      = map (\<lambda>(f, cats). (f, map (\<lambda>(c, S). (c, card S mod U32)) (facet_order lower cn f cats))) facets"
    using fds(2) unfolding open_facets_def by (induction facets fds rule: list_all2_induct) (auto simp: cs split: prod.splits)
  moreover have "let S = docs_of facets (fd_name fd) (ca_name c); r = ca_range c in
      cut bs (cr_head_off r) (cr_head_off r + cr_head_size r) = ser (S \<inter> {..<65536})
      \<and> cut bs (cr_tail_off r) (cr_tail_off r + cr_tail_size r) = ser (S - {..<65536}) \<and> (ca_head c = {} \<or> ca_head c = S \<inter> {..<65536})"
    if "fd \<in> set fds" "c \<in> set (fd_cats fd)" for fd c
    using open_facets_cat [OF assms(2) fds(2) that] unfolding cat_stored_def Let_def by blast
  ultimately show ?thesis using fds(1,3) by blast
qed

lemma facets_roundtrip_witness:
  "\<exists>bs fds. write_facets_with (\<lambda>s. s) (facet_fields format_encode demo_facet_map 65536) True = Ok bs
     \<and> facet_open_tuned U64 format_decode (mem_read U64 (mem_new bs)) 10 1 = Ok fds
     \<and> map (\<lambda>f. (fd_name f, map (\<lambda>c. (ca_name c, ca_count c)) (fd_cats f))) fds = [([108], [([98], 2)]), ([109], [])]"
proof -
  obtain bs where bs: "write_facets_with (\<lambda>s. s) (facet_fields format_encode demo_facet_map 65536) True = Ok bs" "length bs = 131"
    using demo_facet_written by blast
  show ?thesis
    using facets_roundtrip [OF format.roaring_axioms demo_facet_map_ok(1) _ bs(1), of U64 10 1] bs demo_facet_map_ok(2)
    by (auto simp: demo_facet_map_def facet_order_def)
qed

text \<open>
  C24: Filtering by facet selections keeps exactly the documents the selections describe: those
  that, for every field with an included category, belong to one of that field's included
  categories, and to no excluded one.  That holds for head results, for tail results, for the
  membership of candidates and, when something is included, for the full bitmap; unknown fields and
  categories hold no document.
\<close>

theorem facet_filters_exact:
  assumes "roaring deser ser" "facet_map_ok facets" "facet_names_len facets < U32"
    and "write_facets_with lower (facet_fields ser facets 65536) cn = Ok bs" "length bs + span_gap < um" "um \<le> U64"
    and "\<forall>d \<in> H. d < 65536" "\<forall>d \<in> T. 65536 \<le> d" "finite ids" "\<forall>d \<in> ids. d < U32"
  defines "f \<equiv> mem_read um (mem_new bs)"
  shows "\<exists>fds. facet_open um deser f = Ok fds
    \<and> apply_head um deser f (resolve_sels fds sels) H = Ok {d \<in> H. chosen facets sels d}
    \<and> apply_tail um deser f (resolve_sels fds sels) T = Ok {d \<in> T. chosen facets sels d}
    \<and> membership_bitmap um deser f (resolve_sels fds sels) ids = Ok {d \<in> ids. chosen facets sels d}
    \<and> full_bitmap um deser f (resolve_sels fds sels) = Ok (if \<forall>s \<in> set sels. fs_negate s then {} else {d. chosen facets sels d})"
proof -
  have lu: "length bs < um" using assms(5) by simp
  obtain fds where fds: "facet_open um deser f = Ok fds" "open_facets lower cn ser bs facets fds"
    using roaring.facets_opened [OF assms(1,4,2,3) lu assms(6)] unfolding facet_open_def f_def by blast
  obtain cont where cont: "filter_stored bs cont (resolve_sels fds sels)" "\<forall>d. passes cont (resolve_sels fds sels) d \<longleftrightarrow> chosen facets sels d"
    using roaring.resolved_filter [OF assms(1,2) fds(2)] by blast
  have inc: "rf_fields (resolve_sels fds sels) = [] \<longleftrightarrow> (\<forall>s \<in> set sels. fs_negate s)"
  proof -
    have "rf_fields (resolve_sels fds sels) = [] \<longleftrightarrow> set (rf_fields (resolve_sels fds sels)) = {}" by simp
    also have "\<dots> \<longleftrightarrow> (\<forall>f. included sels f = [])" unfolding resolve_sels_fields by auto
    also have "\<dots> \<longleftrightarrow> (\<forall>s \<in> set sels. fs_negate s)" by (auto simp: included_def filter_empty_conv)
    finally show ?thesis .
  qed
  have pass: "passes cont (resolve_sels fds sels) = chosen facets sels" using cont(2) by (simp add: fun_eq_iff)
  show ?thesis
    using filter_exact [OF assms(1,5,6) cont(1) assms(7-10)] fds(1) pass inc unfolding f_def by (intro exI [of _ fds]) simp
qed

lemma facet_filters_exact_witness:
  "\<exists>bs fds. write_facets_with (\<lambda>s. s) (facet_fields format_encode demo_facet_map 65536) True = Ok bs
     \<and> facet_open U64 format_decode (mem_read U64 (mem_new bs)) = Ok fds
     \<and> membership_bitmap U64 format_decode (mem_read U64 (mem_new bs)) (resolve_sels fds [sel_include [108] [98]]) {3, 4, 70000} = Ok {3, 70000}
     \<and> membership_bitmap U64 format_decode (mem_read U64 (mem_new bs)) (resolve_sels fds [sel_include [109] [98]]) {3, 4, 70000} = Ok {}"
proof -
  obtain bs where bs: "write_facets_with (\<lambda>s. s) (facet_fields format_encode demo_facet_map 65536) True = Ok bs" "length bs = 131"
    using demo_facet_written by blast
  have ids: "finite {3, 4, 70000 :: nat}" "\<forall>d \<in> {3, 4, 70000 :: nat}. d < U32" by simp_all
  note ex = facet_filters_exact [OF format.roaring_axioms demo_facet_map_ok(1) _ bs(1) _ order_refl _ _ ids, of "{}" "{}"]
  have c: "{d \<in> {3, 4, 70000}. chosen demo_facet_map [sel_include [108] [98]] d} = {3, 70000}"
    "{d \<in> {3, 4, 70000}. chosen demo_facet_map [sel_include [109] [98]] d} = {}"
    by (auto simp: chosen_def sel_include_def docs_of_def demo_facet_map_def)
  show ?thesis
    using ex [of "[sel_include [108] [98]]"] ex [of "[sel_include [109] [98]]"] bs demo_facet_map_ok(2)
    unfolding c by (auto simp: span_gap_def)
qed

text \<open>
  C25: Facet counts are exact: \<open>counts_for\<close> returns for every named category the number of
  documents of the result it holds (0 for an unknown one), and \<open>counts_full\<close> prices every
  category it selects in the same way, all of them when asked for all or when a field has no more
  than asked for, and every other category within the head held in memory; the waves of batched
  reads that price them count a document in the head and in the tail once.
\<close>

theorem facet_counts_exact:
  assumes "roaring deser ser" "facet_map_ok facets" "facet_names_len facets < U32"
    and "write_facets_with lower (facet_fields ser facets 65536) cn = Ok bs" "length bs + span_gap < um" "um \<le> U64"
    and "finite res" "\<forall>d \<in> res. d < U32" "selects select"
    and "2 * length pairs * length bs < um" "2 * length (concat (map snd facets)) * length bs < um"
  defines "f \<equiv> mem_read um (mem_new bs)"
  shows "\<exists>fds ns. facet_open um deser f = Ok fds
    \<and> counts_for um deser f fds res pairs = Ok (map (\<lambda>(fld, c). card (res \<inter> docs_of facets fld c)) pairs)
    \<and> counts_full um deser f select fds res top_n = Ok ns \<and> length ns = length fds
    \<and> (\<forall>i < length fds. length (ns ! i) = length (fd_cats (fds ! i)) \<and> (\<forall>j < length (fd_cats (fds ! i)).
         ns ! i ! j = card (res \<inter> (if (i, j) \<in> set (field_targets select top_n (i, fds ! i))
           then docs_of facets (fd_name (fds ! i)) (ca_name (cat_at fds (i, j))) else ca_head (cat_at fds (i, j))))
         \<and> (top_n = 0 \<or> length (fd_cats (fds ! i)) \<le> top_n \<longrightarrow> (i, j) \<in> set (field_targets select top_n (i, fds ! i)))))"
proof -
  have lu: "length bs < um" using assms(5) by simp
  have st: "posting_store f bs um deser ser" unfolding f_def by (intro posting_store.intro memf.full_fetch_axioms assms(1))
  obtain fds where fds: "facet_open um deser f = Ok fds" "open_facets lower cn ser bs facets fds"
    using roaring.facets_opened [OF assms(1,4,2,3) lu assms(6)] unfolding facet_open_def f_def by blast
  have cats: "length (concat (map fd_cats fds)) = length (concat (map snd facets))"
    using fds(2) unfolding open_facets_def by (induction facets fds rule: list_all2_induct) (auto dest: list_all2_lengthD)
  have panel: "(i, j) \<in> set (panel_targets select top_n fds) \<longleftrightarrow> (i, j) \<in> set (field_targets select top_n (i, fds ! i))" if "i < length fds" for i j
    using that field_targets_set(1) [OF assms(9)] by (force simp: panel_targets_def in_set_enumerate_eq)
  have all: "(i, j) \<in> set (field_targets select top_n (i, fds ! i))"
    if "top_n = 0 \<or> length (fd_cats (fds ! i)) \<le> top_n" "j < length (fd_cats (fds ! i))" for i j
    using that by (auto simp: field_targets_def Let_def)
  obtain ns where "counts_full um deser f select fds res top_n = Ok ns" "length ns = length fds"
    "\<forall>i < length fds. length (ns ! i) = length (fd_cats (fds ! i)) \<and> (\<forall>j < length (fd_cats (fds ! i)).
         ns ! i ! j = card (res \<inter> (if (i, j) \<in> set (panel_targets select top_n fds)
           then docs_of facets (fd_name (fds ! i)) (ca_name (cat_at fds (i, j))) else ca_head (cat_at fds (i, j)))))"
    using counts_full_exact [OF st assms(5,6,2) fds(2) assms(9,7,8)] assms(11) unfolding cats by blast
  then show ?thesis
    using fds(1) counts_for_exact [OF st assms(5,6,2) fds(2) assms(7,8,10)] panel all
    by (intro exI [of _ fds] exI [of _ ns]) simp
qed

definition demo_select :: nth_select where
  "demo_select idx key k = sort_key (\<lambda>i. - int (key i)) idx"

lemma demo_selects: "selects demo_select"
proof -
  have "key b \<le> key a" if "a \<in> set (take k (demo_select idx key k))" "b \<in> set (drop k (demo_select idx key k))" for idx key k a b
  proof -
    let ?xs = "demo_select idx key k"
    have "sorted (map (\<lambda>i. - int (key i)) (take k ?xs @ drop k ?xs))" by (simp add: demo_select_def)
    then have "- int (key a) \<le> - int (key b)" using that by (auto simp: sorted_append simp del: append_take_drop_id)
    then show ?thesis by simp
  qed
  then show ?thesis by (simp add: selects_def demo_select_def)
qed

lemma facet_counts_exact_witness:
  "\<exists>bs fds. write_facets_with (\<lambda>s. s) (facet_fields format_encode demo_facet_map 65536) True = Ok bs
     \<and> facet_open U64 format_decode (mem_read U64 (mem_new bs)) = Ok fds
     \<and> counts_for U64 format_decode (mem_read U64 (mem_new bs)) fds {3, 5, 70000} [([108], [98]), ([108], [97])] = Ok [2, 0]"
proof -
  obtain bs where bs: "write_facets_with (\<lambda>s. s) (facet_fields format_encode demo_facet_map 65536) True = Ok bs" "length bs = 131"
    using demo_facet_written by blast
  have ids: "finite {3, 5, 70000 :: nat}" "\<forall>d \<in> {3, 5, 70000 :: nat}. d < U32" by simp_all
  have d: "docs_of demo_facet_map [108] [98] = {3, 70000}" "docs_of demo_facet_map [108] [97] = {}" "{3, 5, 70000} \<inter> {3, 70000} = {3, 70000 :: nat}"
    by (auto simp: docs_of_def demo_facet_map_def)
  have n: "length (concat (map snd demo_facet_map)) = 1" by (simp add: demo_facet_map_def)
  show ?thesis
    using facet_counts_exact [OF format.roaring_axioms demo_facet_map_ok(1) _ bs(1) _ order_refl ids demo_selects, of "[([108], [98]), ([108], [97])]" 0]
      bs demo_facet_map_ok(2) d n by (auto simp: span_gap_def)
qed

end
