(* ===== verification/RR_Facet_Digest.thy ===== *)
theory RR_Facet_Digest imports RR_Facet_Exact begin

text \<open>
  The digests of a sidecar in a split manifest read back: parsing what \<open>facet_digest\<close> and
  \<open>facet_digest_v2\<close> wrote yields the largest categories of every field, with the directories
  of their tails (v2), and counting over them is exact.
\<close>

section \<open>Parsers that read an encoding\<close>

definition reads :: "nat \<Rightarrow> (bytes \<Rightarrow> 'a parser) \<Rightarrow> 'a \<Rightarrow> bytes \<Rightarrow> bool" where
  "reads um P x b \<longleftrightarrow> (\<forall>pre post. length (pre @ b @ post) < um \<longrightarrow> P (pre @ b @ post) (length pre) = Ok (x, length pre + length b))"

lemma readsD: "reads um P x b \<Longrightarrow> length (pre @ b @ post) < um \<Longrightarrow> P (pre @ b @ post) (length pre) = Ok (x, length pre + length b)"
  by (simp add: reads_def)

lemma reads_return: "reads um (\<lambda>buf pos. Ok (x, pos)) x []"
  by (simp add: reads_def)

lemma reads_bind:
  assumes "reads um P x b" "reads um (Q x) y c"
  shows "reads um (\<lambda>buf pos. bind_o (P buf pos) (\<lambda>(x, p). Q x buf p)) y (b @ c)"
  unfolding reads_def
proof (intro allI impI)
  fix pre post :: bytes assume l: "length (pre @ (b @ c) @ post) < um"
  have p: "P (pre @ b @ (c @ post)) (length pre) = Ok (x, length pre + length b)" by (rule readsD [OF assms(1)]) (use l in simp)
  have q: "Q x ((pre @ b) @ c @ post) (length (pre @ b)) = Ok (y, length (pre @ b) + length c)" by (rule readsD [OF assms(2)]) (use l in simp)
  show "bind_o (P (pre @ (b @ c) @ post) (length pre)) (\<lambda>(x, p). Q x (pre @ (b @ c) @ post) p) = Ok (y, length pre + length (b @ c))"
    using p q by (simp only: append_assoc bind_o.simps prod.case length_append add.assoc)
qed

lemma reads_map: "reads um P x b \<Longrightarrow> reads um (\<lambda>buf pos. map_ok (\<lambda>(x, p). (g x, p)) (P buf pos)) (g x) b"
  by (simp add: reads_def)

lemma reads_many:
  "list_all2 (reads um P) xs bs \<Longrightarrow> length xs = n \<Longrightarrow> reads um (\<lambda>buf. cur_many (P buf) n) xs (concat bs)"
proof (induction xs bs arbitrary: n rule: list_all2_induct)
  case Nil
  then show ?case by (simp add: reads_def)
next
  case (Cons x xs b bs)
  obtain m where n: "n = Suc m" "length xs = m" using Cons.prems by auto
  have "reads um (\<lambda>buf pos. bind_o (P buf pos) (\<lambda>(y, pos). map_ok (\<lambda>(ys, pos). (y # ys, pos)) (cur_many (P buf) m pos))) (x # xs) (b @ concat bs)"
    by (rule reads_bind [OF Cons.hyps(1)]) (rule reads_map [OF Cons.IH [OF n(2)]])
  then show ?case by (simp add: n)
qed

text \<open>What the parsers need of a cursor: taking as many bytes as were put there.\<close>

locale cursor =
  fixes um :: nat and get :: "bytes \<Rightarrow> nat \<Rightarrow> bytes parser"
  assumes take: "reads um (\<lambda>buf. get buf (length b)) b b"
begin

lemma int: "v < 256 ^ n \<Longrightarrow> reads um (\<lambda>buf. cur_int (get buf) n) v (to_le n v)"
  using reads_map [OF take [of "to_le n v"], of from_le] by (simp add: cur_int_def [abs_def] from_le_to_le)

lemma name:
  assumes "digest_name s = Ok b" "list_all scalar s"
  shows "reads um (\<lambda>buf. cur_name (get buf)) s b"
proof -
  have b: "b = to_le 2 (length (utf8_bytes s)) @ utf8_bytes s" "length (utf8_bytes s) < U16"
    using assms(1) by (auto simp: digest_name_def map_ok_Ok_iff Let_def)
  have "reads um (\<lambda>buf pos. bind_o (cur_int (get buf) 2 pos) (\<lambda>(len, p). map_ok (\<lambda>(b, p). (utf8_lossy b, p)) (get buf len p))) s b"
    unfolding b(1) using reads_map [OF take, of utf8_lossy "utf8_bytes s"] b(2)
    by (intro reads_bind [OF int]) (simp_all add: utf8_lossy_bytes [OF assms(2)])
  then show ?thesis by (simp add: cur_name_def [abs_def])
qed

end

interpretation cur1: cursor um "cur_take um" for um
  by unfold_locales (simp add: reads_def cur_take_def cut_mid)

interpretation cur2: cursor um "cur_take_v2 um" for um
  by unfold_locales (simp add: reads_def cur_take_v2_def cut_mid checked_add_def)

section \<open>Categories\<close>

text \<open>A category as a boot reads it: what a digest needs to write it.\<close>

definition digestible :: "category \<Rightarrow> bool" where
  "digestible c \<longleftrightarrow> list_all scalar (ca_name c) \<and> ca_count c < U32 \<and> ca_tail_dir c = None \<and> ca_head c = {}
     \<and> (\<exists>off h t. off < U64 \<and> h < U32 \<and> t < U32 \<and> ca_range c = make_range off h t)"

context cursor
begin

lemma base:
  assumes "digest_base c = Ok b" "digestible c"
  shows "reads um (\<lambda>buf. parse_base (get buf)) c b"
proof -
  obtain off h t where r: "ca_range c = make_range off h t" "off < U64" "h < U32" "t < U32" using assms(2) by (auto simp: digestible_def)
  obtain nb where nb: "digest_name (ca_name c) = Ok nb" and b: "b = nb @ to_le 4 (ca_count c) @ to_le 8 off @ to_le 4 h @ to_le 4 t @ []"
    using assms(1) r(1) by (auto simp: digest_base_def map_ok_Ok_iff make_range_def Let_def)
  have c: "c = \<lparr>ca_name = ca_name c, ca_count = ca_count c, ca_range = make_range off h t, ca_head = {}, ca_tail_dir = None\<rparr>"
    using assms(2) r(1) by (simp add: digestible_def)
  have nm: "ca_count c < U32" "list_all scalar (ca_name c)" using assms(2) by (simp_all add: digestible_def)
  have "reads um (\<lambda>buf pos.
      bind_o (cur_name (get buf) pos) (\<lambda>(name, p).
      bind_o (cur_int (get buf) 4 p) (\<lambda>(n, p).
      bind_o (cur_int (get buf) 8 p) (\<lambda>(head_off, p).
      bind_o (cur_int (get buf) 4 p) (\<lambda>(head_size, p).
      bind_o (cur_int (get buf) 4 p) (\<lambda>(tail_size, p).
      Ok (\<lparr>ca_name = name, ca_count = n, ca_range = make_range head_off head_size tail_size, ca_head = {}, ca_tail_dir = None\<rparr>, p)))))))
    \<lparr>ca_name = ca_name c, ca_count = ca_count c, ca_range = make_range off h t, ca_head = {}, ca_tail_dir = None\<rparr> b"
    unfolding b
    by (intro reads_bind [OF name [OF nb nm(2)]] reads_bind [OF int] reads_return) (use nm(1) r in simp_all)
  then show ?thesis unfolding parse_base_def c [symmetric] by simp
qed

end

text \<open>A directory whose containers follow one another to the end of the posting.\<close>

fun chained :: "nat \<Rightarrow> container list \<Rightarrow> bool" where
  "chained tot [] = True"
| "chained tot [c] = (c_start c + c_len c = tot)"
| "chained tot (c # d # cs) = (c_start c + c_len c = c_start d \<and> chained tot (d # cs))"

lemma parse_dir_chained:
  assumes "parse_dir um header tot = Ok (Some dir)"
  shows "chained tot dir \<and> (\<forall>c \<in> set dir. c_start c < U32)"
  using assms
proof (cases rule: parse_dir_cases)
  case (some sz)
  let ?o = "8 + sz * 4"
  have dir: "dir = map (entry header sz 8 ?o tot) [0..<sz]" using some(6) by simp
  have "chained tot (map (entry header sz 8 ?o tot) [i..<sz])" for i
  proof (induction "sz - i" arbitrary: i)
    case (Suc k)
    then have i: "i < sz" by simp
    have stop: "c_start (entry header sz 8 ?o tot i) + c_len (entry header sz 8 ?o tot i) = entry_stop header sz ?o tot i"
      using some(7) i by (simp add: entry_def)
    have ih: "chained tot (map (entry header sz 8 ?o tot) [Suc i..<sz])" using Suc by simp
    show ?case
    proof (cases "Suc i < sz")
      case True
      then have "[i..<sz] = i # Suc i # [Suc (Suc i)..<sz]" by (simp add: upt_conv_Cons)
      moreover have "[Suc i..<sz] = Suc i # [Suc (Suc i)..<sz]" using True by (simp add: upt_conv_Cons)
      ultimately show ?thesis using ih stop entry_stop_start [of i sz header ?o tot] True by (simp add: entry_def)
    next
      case False
      then have "[i..<sz] = [i]" using i by (simp add: upt_conv_Cons)
      then show ?thesis using stop False by (simp add: entry_stop_def)
    qed
  qed simp
  then show ?thesis unfolding dir by (auto simp: entry_def entry_start_def)
qed simp_all

lemma close_dir_chained:
  "chained tot dir \<Longrightarrow> dir_ok tot dir \<Longrightarrow> close_dir tot (map (\<lambda>c. (c_key c, c_card c, c_start c)) dir) = Ok dir"
proof (induction tot dir rule: chained.induct)
  case (3 tot c d cs)
  then have "close_dir tot (map (\<lambda>c. (c_key c, c_card c, c_start c)) (d # cs)) = Ok (d # cs)" by (simp add: dir_ok_def)
  then show ?case using 3 by (auto simp: dir_ok_def)
qed (auto simp: dir_ok_def)

context cursor
begin

lemma container:
  assumes "c_key c < U16" "1 \<le> c_card c" "c_card c \<le> 65536" "c_start c < U32"
  shows "reads um (\<lambda>buf. parse_container (get buf)) (c_key c, c_card c, c_start c) (to_le 2 (c_key c) @ to_le 2 ((c_card c - 1) mod U16) @ to_le 4 (c_start c mod U32) @ [])"
proof -
  have "reads um (\<lambda>buf pos. bind_o (cur_int (get buf) 2 pos) (\<lambda>(key, p). bind_o (cur_int (get buf) 2 p) (\<lambda>(card1, p).
      bind_o (cur_int (get buf) 4 p) (\<lambda>(start, p). Ok ((key, card1 + 1, start), p)))))
    (c_key c, c_card c - 1 + 1, c_start c) (to_le 2 (c_key c) @ to_le 2 (c_card c - 1) @ to_le 4 (c_start c) @ [])"
    by (intro reads_bind [OF int] reads_return) (use assms in simp_all)
  then show ?thesis unfolding parse_container_def using assms by simp
qed

lemma category_v2:
  assumes b: "digest_base c = Ok b" "digestible c"
    and dir: "chained (cr_tail_size (ca_range c)) dir" "dir_ok (cr_tail_size (ca_range c)) dir" "\<forall>x \<in> set dir. c_start x < U32" "length dir < U16"
  shows "reads um (\<lambda>buf. parse_cat_v2 (get buf)) (c\<lparr>ca_tail_dir := if dir = [] then None else Some dir\<rparr>)
     (b @ to_le 2 (length dir) @ concat (map (\<lambda>x. to_le 2 (c_key x) @ to_le 2 ((c_card x - 1) mod U16) @ to_le 4 (c_start x mod U32)) dir))"
proof -
  let ?row = "\<lambda>x. to_le 2 (c_key x) @ to_le 2 ((c_card x - 1) mod U16) @ to_le 4 (c_start x mod U32)"
  let ?raw = "\<lambda>x. (c_key x, c_card x, c_start x)"
  have rest: "reads um (\<lambda>buf p. if length dir = 0 then Ok (c, p)
      else bind_o (cur_many (parse_container (get buf)) (length dir) p) (\<lambda>(raw, p).
        map_ok (\<lambda>dir. (c\<lparr>ca_tail_dir := Some dir\<rparr>, p)) (close_dir (cr_tail_size (ca_range c)) raw)))
      (c\<lparr>ca_tail_dir := if dir = [] then None else Some dir\<rparr>) (concat (map ?row dir))"
  proof (cases "dir = []")
    case True
    have "c\<lparr>ca_tail_dir := None\<rparr> = c" using b(2) by (simp add: digestible_def)
    then show ?thesis using True by (simp add: reads_def)
  next
    case False
    have row: "reads um (\<lambda>buf. parse_container (get buf)) (?raw x) (?row x)" if "x \<in> set dir" for x
    proof -
      have "c_key x < U16" "1 \<le> c_card x" "c_card x \<le> 65536" "c_start x < U32" using dir(2,3) that by (simp_all add: dir_ok_def)
      then show ?thesis by (rule container [of x, unfolded append_Nil2])
    qed
    have "list_all2 (reads um (\<lambda>buf. parse_container (get buf))) (map ?raw dir) (map ?row dir)"
      unfolding list_all2_map1 list_all2_map2 list_all2_same using row by blast
    then have many: "reads um (\<lambda>buf. cur_many (parse_container (get buf)) (length dir)) (map ?raw dir) (concat (map ?row dir))"
      by (rule reads_many) simp
    have "reads um (\<lambda>buf p. bind_o (cur_many (parse_container (get buf)) (length dir) p) (\<lambda>(raw, p).
        map_ok (\<lambda>dir. (c\<lparr>ca_tail_dir := Some dir\<rparr>, p)) (close_dir (cr_tail_size (ca_range c)) raw)))
        (c\<lparr>ca_tail_dir := Some dir\<rparr>) (concat (map ?row dir) @ [])"
      by (rule reads_bind [OF many]) (simp add: close_dir_chained [OF dir(1,2)] reads_def)
    then show ?thesis using False by simp
  qed
  have "reads um (\<lambda>buf pos. bind_o (parse_base (get buf) pos) (\<lambda>(c, p). bind_o (cur_int (get buf) 2 p) (\<lambda>(n, p).
      if n = 0 then Ok (c, p)
      else bind_o (cur_many (parse_container (get buf)) n p) (\<lambda>(raw, p).
        map_ok (\<lambda>dir. (c\<lparr>ca_tail_dir := Some dir\<rparr>, p)) (close_dir (cr_tail_size (ca_range c)) raw)))))
      (c\<lparr>ca_tail_dir := if dir = [] then None else Some dir\<rparr>) (b @ to_le 2 (length dir) @ concat (map ?row dir))"
    by (intro reads_bind [OF base [OF b]] reads_bind [OF int] rest) (use dir(4) in simp)
  then show ?thesis by (simp add: parse_cat_v2_def [abs_def])
qed

end

section \<open>Fields and digests\<close>

lemma list_all2_mem_mono:
  "list_all2 P xs ys \<Longrightarrow> (\<And>x y. x \<in> set xs \<Longrightarrow> P x y \<Longrightarrow> Q x y) \<Longrightarrow> list_all2 Q xs ys"
  by (induction xs ys rule: list_all2_induct) auto

definition digest_top :: "(category \<Rightarrow> category) \<Rightarrow> nat \<Rightarrow> facet_field \<Rightarrow> facet_field" where
  "digest_top g k f = \<lparr>fd_name = fd_name f, fd_cats = map (\<lambda>i. g (fd_cats f ! i)) (digest_order k f)\<rparr>"

lemma digest_order_length: "length (digest_order k f) \<le> k"
  by (simp add: digest_order_def)

lemma digest_order_bound: "i \<in> set (digest_order k f) \<Longrightarrow> i < length (fd_cats f)"
  by (auto simp: digest_order_def Let_def dest: in_set_takeD)

context cursor
begin

lemma field:
  assumes "digest_field cat k f = Ok b" "list_all scalar (fd_name f)" "k < U16"
    and cats: "\<And>c cb. c \<in> set (fd_cats f) \<Longrightarrow> cat c = Ok cb \<Longrightarrow> reads um (\<lambda>buf. pc (get buf)) (g c) cb"
  shows "reads um (\<lambda>buf. parse_field_with (get buf) (pc (get buf))) (digest_top g k f) b"
proof -
  let ?idx = "digest_order k f"
  obtain nb rows where nb: "digest_name (fd_name f) = Ok nb" and rows: "mapM_o (\<lambda>i. cat (fd_cats f ! i)) ?idx = Ok rows"
    and b: "b = nb @ to_le 2 (length ?idx mod U16) @ concat rows"
    using assms(1) by (auto simp: digest_field_def bind_o_Ok_iff map_ok_Ok_iff Let_def)
  have n: "length ?idx < U16" using digest_order_length [of k f] assms(3) by simp
  have "list_all2 (\<lambda>i cb. cat (fd_cats f ! i) = Ok cb) ?idx rows" using rows by (simp only: mapM_o_Ok_iff)
  then have "list_all2 (\<lambda>i cb. reads um (\<lambda>buf. pc (get buf)) (g (fd_cats f ! i)) cb) ?idx rows"
    by (rule list_all2_mem_mono) (rule cats, simp_all add: digest_order_bound)
  then have "list_all2 (reads um (\<lambda>buf. pc (get buf))) (map (\<lambda>i. g (fd_cats f ! i)) ?idx) rows" by (simp only: list_all2_map1)
  then have many: "reads um (\<lambda>buf. cur_many (pc (get buf)) (length ?idx)) (map (\<lambda>i. g (fd_cats f ! i)) ?idx) (concat rows)"
    by (rule reads_many) simp
  have "reads um (\<lambda>buf pos. bind_o (cur_name (get buf) pos) (\<lambda>(name, p). bind_o (cur_int (get buf) 2 p) (\<lambda>(n, p).
      map_ok (\<lambda>(cs, p). (\<lparr>fd_name = name, fd_cats = cs\<rparr>, p)) (cur_many (pc (get buf)) n p))))
      (digest_top g k f) (nb @ to_le 2 (length ?idx) @ concat rows)"
    unfolding digest_top_def
    by (intro reads_bind [OF name [OF nb assms(2)]] reads_bind [OF int] reads_map [OF many]) (use n in simp)
  then show ?thesis using n by (simp add: b parse_field_with_def [abs_def])
qed

lemma digest:
  assumes rows: "mapM_o (digest_field cat k) fds = Ok rows" and names: "\<forall>f \<in> set fds. list_all scalar (fd_name f)"
    and "k < U16" "length fds < U16" "length d < um" "d = to_le 2 k @ to_le 2 (length fds) @ concat rows"
    and cats: "\<And>f c cb. f \<in> set fds \<Longrightarrow> c \<in> set (fd_cats f) \<Longrightarrow> cat c = Ok cb \<Longrightarrow> reads um (\<lambda>buf. pc (get buf)) (g c) cb"
  shows "parse_digest_with (get d) (pc (get d)) = Ok (k, map (digest_top g k) fds)"
proof -
  have "reads um (\<lambda>buf. parse_field_with (get buf) (pc (get buf))) (digest_top g k f) b" if "f \<in> set fds" "digest_field cat k f = Ok b" for f b
    by (rule field [OF that(2) _ assms(3)]) (use names that(1) cats in auto)
  then have "list_all2 (\<lambda>f b. reads um (\<lambda>buf. parse_field_with (get buf) (pc (get buf))) (digest_top g k f) b) fds rows"
    by (rule list_all2_mem_mono [OF rows [unfolded mapM_o_Ok_iff]])
  then have "list_all2 (reads um (\<lambda>buf. parse_field_with (get buf) (pc (get buf)))) (map (digest_top g k) fds) rows"
    by (simp only: list_all2_map1)
  then have many: "reads um (\<lambda>buf. cur_many (parse_field_with (get buf) (pc (get buf))) (length fds)) (map (digest_top g k) fds) (concat rows)"
    by (rule reads_many) simp
  have "reads um (\<lambda>buf pos. bind_o (cur_int (get buf) 2 pos) (\<lambda>(k, p). bind_o (cur_int (get buf) 2 p) (\<lambda>(n, p).
      map_ok (\<lambda>(fs, p). ((k, fs), p)) (cur_many (parse_field_with (get buf) (pc (get buf))) n p))))
      (k, map (digest_top g k) fds) (to_le 2 k @ to_le 2 (length fds) @ concat rows)"
    by (intro reads_bind [OF int] reads_map [OF many]) (use assms(3,4) in simp_all)
  from readsD [OF this, of "[]" "[]"] have
    "bind_o (cur_int (get d) 2 0) (\<lambda>(k, p). bind_o (cur_int (get d) 2 p) (\<lambda>(n, p).
      map_ok (\<lambda>(fs, p). ((k, fs), p)) (cur_many (parse_field_with (get d) (pc (get d))) n p))) = Ok ((k, map (digest_top g k) fds), length d)"
    using assms(5,6) by simp
  then show ?thesis by (auto simp: parse_digest_with_def bind_o_Ok_iff map_ok_Ok_iff)
qed

end

section \<open>The digests of a written sidecar\<close>

lemma names_short:
  assumes "write_facets_with lower gs cn = Ok bs" "small_facets gs" "g \<in> set gs"
  shows "length (utf8_bytes (fg_name g)) < U16" "c \<in> set (fg_cats g) \<Longrightarrow> length (utf8_bytes (fc_name c)) < U16"
proof -
  have short: "length (utf8_bytes s) < U16" if "named blob off len s" for blob off len s
  proof -
    have eq: "cut blob off (off + len) = utf8_bytes s" "off + len \<le> length blob" "len < U16" using that by (simp_all add: named_def)
    show ?thesis unfolding eq(1) [symmetric] using eq(2,3) by simp
  qed
  obtain fos where ok: "list_all2 (field_ok lower cn (name_blob gs)) gs fos" using write_facets_parts [OF assms(1,2)] by blast
  obtain fo where fo: "field_ok lower cn (name_blob gs) g fo" using ok assms(3) by (metis in_set_conv_nth list_all2_nthD)
  show "length (utf8_bytes (fg_name g)) < U16" using fo short by (auto simp: field_ok_def)
  assume "c \<in> set (fg_cats g)"
  then have "c \<in> set (sort_key (key_of lower cn (fg_name g)) (fg_cats g))" by simp
  then obtain o' where "cat_ok lower cn (fg_name g) (name_blob gs) c o'"
    using fo unfolding field_ok_def by (metis in_set_conv_nth list_all2_nthD)
  then show "length (utf8_bytes (fc_name c)) < U16" using short by (auto simp: cat_ok_def)
qed

text \<open>The field list a boot of a written sidecar reads, ready for a digest.\<close>

lemma written_cat_origin:
  "c \<in> set (written_cats off cs) \<Longrightarrow> off + length (cat_bytes cs) \<le> B \<Longrightarrow> \<exists>fc \<in> set cs. \<exists>o'. c = cat_info o' fc \<and> o' \<le> B"
proof (induction off cs rule: written_cats.induct)
  case (2 off fc cs)
  show ?case
  proof (cases "c = cat_info off fc")
    case True
    then show ?thesis using 2(3) by auto
  next
    case False
    then have "c \<in> set (written_cats (off + length (fc_head fc) + length (fc_tail fc)) cs)" using 2(2) by simp
    moreover have "off + length (fc_head fc) + length (fc_tail fc) + length (cat_bytes cs) \<le> B" using 2(3) by (simp add: cat_bytes_def)
    ultimately show ?thesis using 2(1) by auto
  qed
qed simp

lemma written_field_origin:
  "f \<in> set (written_fields lower cn off gs) \<Longrightarrow> off + length (cat_bytes (all_cats lower cn gs)) \<le> B \<Longrightarrow>
   \<exists>g \<in> set gs. fd_name f = fg_name g \<and> (\<forall>c \<in> set (fd_cats f). \<exists>fc \<in> set (fg_cats g). \<exists>o'. c = cat_info o' fc \<and> o' \<le> B)"
proof (induction gs arbitrary: off)
  case (Cons g gs)
  have all: "length (cat_bytes (all_cats lower cn (g # gs))) = length (cat_bytes (sorted_cats lower cn g)) + length (cat_bytes (all_cats lower cn gs))"
    by (simp add: all_cats_def cat_bytes_def)
  show ?case
  proof (cases "f = \<lparr>fd_name = fg_name g, fd_cats = written_cats off (sorted_cats lower cn g)\<rparr>")
    case True
    have "\<exists>fc \<in> set (fg_cats g). \<exists>o'. c = cat_info o' fc \<and> o' \<le> B" if "c \<in> set (fd_cats f)" for c
      using written_cat_origin [of c off "sorted_cats lower cn g" B] that True Cons.prems(2) all by (auto simp: sorted_cats_def)
    then show ?thesis using True by auto
  next
    case False
    then show ?thesis using Cons.IH [of "off + length (cat_bytes (sorted_cats lower cn g))"] Cons.prems all by auto
  qed
qed simp

lemma postings_short:
  assumes w: "write_facets_with lower gs cn = Ok bs" and small: "small_facets gs" and c: "g \<in> set gs" "c \<in> set (fg_cats g)"
  shows "length (fc_head c) < U32" "length (fc_tail c) < U32"
proof -
  obtain fos where ok: "list_all2 (field_ok lower cn (name_blob gs)) gs fos"
    and tab: "\<forall>(c, off) \<in> set (zip (concat (map fo_cats fos)) (posting_offs (postings_at gs) (concat (map fo_cats fos)))).
       length (co_head c) < U32 \<and> length (co_tail c) < U32 \<and> off < U64"
    using write_facets_parts [OF w small] by blast
  let ?os = "concat (map fo_cats fos)"
  note rel = field_ok_cats [OF ok]
  have "c \<in> set (all_cats lower cn gs)" using c by (auto simp: set_all_cats)
  then obtain i where i: "i < length (all_cats lower cn gs)" "all_cats lower cn gs ! i = c" by (metis in_set_conv_nth)
  have len: "length (all_cats lower cn gs) = length ?os" using rel by (rule list_all2_lengthD)
  have co: "co_head (?os ! i) = fc_head c" "co_tail (?os ! i) = fc_tail c" using list_all2_nthD [OF rel i(1)] i(2) by simp_all
  have "(?os ! i, posting_offs (postings_at gs) ?os ! i) \<in> set (zip ?os (posting_offs (postings_at gs) ?os))"
    using nth_mem [of i "zip ?os (posting_offs (postings_at gs) ?os)"] i(1) len by simp
  then show "length (fc_head c) < U32" "length (fc_tail c) < U32" using tab co by fastforce+
qed

lemma written_digestible:
  assumes w: "write_facets_with lower gs cn = Ok bs" and small: "small_facets gs" and um: "length bs < um" "um \<le> U64"
    and f: "f \<in> set (written_fields lower cn (postings_at gs) gs)"
  shows "list_all scalar (fd_name f)" "\<exists>b. digest_name (fd_name f) = Ok b"
    and "c \<in> set (fd_cats f) \<Longrightarrow> digestible c \<and> (\<exists>b. digest_base c = Ok b)"
proof -
  note m = from_meta_written [OF w small um(1)]
  have B: "postings_at gs + length (cat_bytes (all_cats lower cn gs)) \<le> length bs"
  proof -
    have d: "drop (postings_at gs) bs = cat_bytes (all_cats lower cn gs)" "postings_at gs \<le> length bs" using m by blast+
    show ?thesis using d(2) by (simp flip: d(1))
  qed
  obtain g where g: "g \<in> set gs" "fd_name f = fg_name g" "\<forall>c \<in> set (fd_cats f). \<exists>fc \<in> set (fg_cats g). \<exists>o'. c = cat_info o' fc \<and> o' \<le> length bs"
    using written_field_origin [OF f B] by blast
  show "list_all scalar (fd_name f)" using small g(1,2) by (simp add: small_facets_def)
  show "\<exists>b. digest_name (fd_name f) = Ok b" using names_short(1) [OF w small g(1)] g(2) by (simp add: digest_name_def Let_def)
  assume "c \<in> set (fd_cats f)"
  then obtain fc o' where fc: "fc \<in> set (fg_cats g)" "c = cat_info o' fc" "o' \<le> length bs" using g(3) by blast
  have "list_all scalar (fc_name fc)" "fc_card fc < U32" using small g(1) fc(1) by (auto simp: small_facets_def)
  moreover have "o' < U64" using fc(3) um by linarith
  ultimately have "digestible c" using postings_short [OF w small g(1) fc(1)] fc(2) by (auto simp: digestible_def cat_info_def)
  moreover have "\<exists>b. digest_base c = Ok b"
    using names_short(2) [OF w small g(1) fc(1)] fc(2) by (simp add: digest_base_def digest_name_def cat_info_def Let_def)
  ultimately show "digestible c \<and> (\<exists>b. digest_base c = Ok b)" by blast
qed

lemma length_written_fields [simp]: "length (written_fields lower cn off gs) = length gs"
  by (induction gs arbitrary: off) simp_all

lemma digest_with_written:
  assumes w: "write_facets_with lower gs cn = Ok bs" and small: "small_facets gs" and um: "length bs < um" "um \<le> U64"
    and n: "length gs < U16"
    and cat: "\<forall>f \<in> set (written_fields lower cn (postings_at gs) gs). \<forall>c \<in> set (fd_cats f). \<exists>b. cat c = Ok b"
  defines "fds \<equiv> written_fields lower cn (postings_at gs) gs"
  shows "\<exists>rows. mapM_o (digest_field cat (min k (U16 - 1))) fds = Ok rows
    \<and> digest_with cat um bs k = Ok (to_le 2 (min k (U16 - 1)) @ to_le 2 (length fds) @ concat rows)"
proof -
  note m = from_meta_written [OF w small um(1)]
  let ?k = "min k (U16 - 1)"
  have len: "length fds = length gs" by (simp add: fds_def)
  have P: "24 \<le> postings_at gs" "postings_at gs \<le> length bs" using m by (simp_all add: postings_at_def)
  have "\<exists>b. digest_field cat ?k f = Ok b" if f: "f \<in> set fds" for f
  proof -
    obtain nb where nb: "digest_name (fd_name f) = Ok nb" using written_digestible(2) [OF w small um] f unfolding fds_def by blast
    have "\<exists>rows. mapM_o (\<lambda>i. cat (fd_cats f ! i)) (digest_order ?k f) = Ok rows"
    proof -
      have "\<forall>i \<in> set (digest_order ?k f). \<exists>b. cat (fd_cats f ! i) = Ok b" using cat f digest_order_bound unfolding fds_def by (metis nth_mem)
      then obtain h where "\<forall>i \<in> set (digest_order ?k f). cat (fd_cats f ! i) = Ok (h i)" by metis
      then show ?thesis using mapM_o_map [of "digest_order ?k f" "\<lambda>i. cat (fd_cats f ! i)" h] by blast
    qed
    then show ?thesis using nb by (auto simp: digest_field_def Let_def)
  qed
  then obtain h where "\<forall>f \<in> set fds. digest_field cat ?k f = Ok (h f)" by metis
  then have rows: "mapM_o (digest_field cat ?k) fds = Ok (map h fds)" using mapM_o_map [of fds "digest_field cat ?k" h] by blast
  have k16: "(case try_from U16 k of None \<Rightarrow> U16 - 1 | Some k \<Rightarrow> k) = ?k" by (auto simp: try_from_def)
  have "digest_with cat um bs k = Ok (to_le 2 ?k @ to_le 2 (length fds) @ concat (map h fds))"
    unfolding digest_with_def rrsf_header_def k16 Let_def
    using P m rows len n fds_def by (simp add: try_from_def)
  then show ?thesis using rows by blast
qed

context posting_store
begin

text \<open>The directory of a stored tail, as \<open>facet_digest_v2\<close> finds it.\<close>

definition dir_of :: "category \<Rightarrow> container list \<Rightarrow> bool" where
  "dir_of c dir \<longleftrightarrow> (let t = cr_tail_size (ca_range c); off = cr_tail_off (ca_range c) in
     parse_dir um (cut content off (off + t)) t = Ok (Some dir) \<and> chained t dir \<and> dir_ok t dir \<and> (\<forall>x \<in> set dir. c_start x < U32) \<and> length dir < U16
     \<and> (\<forall>T. stored content T off t \<longrightarrow> tail_dir_of content c T dir))"

lemma stored_dir:
  assumes T: "holds T (cr_tail_off (ca_range c)) (cr_tail_size (ca_range c))" and dT: "\<forall>d \<in> docs T. 65536 \<le> d"
  shows "\<exists>dir. dir_of c dir"
proof -
  let ?off = "cr_tail_off (ca_range c)" and ?t = "cr_tail_size (ca_range c)"
  have wf: "well_formed T" and b: "?off + ?t \<le> length content" and ct: "cut content ?off (?off + ?t) = assemble T" and addr: "addressable um lim content"
    using T by (simp_all add: holds_iff)
  have lt: "?t = length (assemble T)" by (rule holds_length [OF T])
  have ds: "data_start T \<le> ?t" "data_start T < um" using b addr lt by (simp_all add: length_assemble addressable_def)
  obtain dir where dir: "parse_dir um (assemble T) ?t = Ok (Some dir)" "map (piece_at (assemble T) 0) dir = T"
    using parse_assembled [OF wf ds(1) _ ds(2)] lt by (metis cut_full order_refl)
  note ok = parse_dir_ok [OF dir(1)]
  have len: "length dir < U16"
  proof -
    have l: "length dir = length T" using arg_cong [OF dir(2), of length] by simp
    have "pc_key p \<noteq> 0" if "p \<in> set T" for p
    proof
      assume "pc_key p = 0"
      have "piece_ok p" using wf that by (simp add: well_formed_def list_all_iff)
      then obtain d where d: "d \<in> piece_docs p" using piece_docs_nonempty by blast
      then have "d \<in> docs T" using that by (auto simp: docs_def)
      then show False using dT piece_docs_key [OF d] \<open>pc_key p = 0\<close> by (auto simp: div_eq_0_iff)
    qed
    then have "set (map pc_key T) \<subseteq> {1..<65536}" using wf by (fastforce simp: well_formed_def list_all_iff piece_ok_def)
    then have "card (set (map pc_key T)) \<le> card {1..<65536 :: nat}" by (intro card_mono) simp_all
    moreover have "distinct (map pc_key T)" using wf unfolding well_formed_def by (simp add: strict_sorted_iff)
    then have "length (map pc_key T) = card (set (map pc_key T))" by (metis distinct_card)
    ultimately show ?thesis using l by simp
  qed
  have "tail_dir_of content c U dir" if U: "stored content U ?off ?t" for U
  proof -
    have "assemble U = assemble T" "well_formed U" using U ct by (simp_all add: stored_def)
    moreover obtain dir' where "parse_dir um (assemble U) ?t = Ok (Some dir')" "map (piece_at (assemble U) 0) dir' = U"
    proof -
      have "data_start U \<le> ?t" using calculation lt by (metis length_assemble le_add1)
      moreover have "data_start U < um" using calculation b addr by (simp add: addressable_def)
      ultimately show ?thesis using parse_assembled [of U ?t um] \<open>assemble U = assemble T\<close> \<open>well_formed U\<close> lt that by (metis cut_full order_refl)
    qed
    ultimately have "map (piece_at (assemble T) 0) dir = U" using dir(1) by simp
    then show ?thesis using ok holds_piece_at [OF T ok] by (simp add: tail_dir_of_def)
  qed
  then show ?thesis
    using dir(1) parse_dir_chained [OF dir(1)] ok len ct by (intro exI [of _ dir]) (simp add: dir_of_def Let_def)
qed

lemma digest_dir_ok:
  assumes "dir_of c dir" "cr_tail_off (ca_range c) + cr_tail_size (ca_range c) \<le> length content" "0 < cr_tail_size (ca_range c)" "length content < um"
  shows "digest_dir um content c = Ok (to_le 2 (length dir) @ concat (map (\<lambda>x. to_le 2 (c_key x) @ to_le 2 ((c_card x - 1) mod U16) @ to_le 4 (c_start x mod U32)) dir))"
proof -
  let ?off = "cr_tail_off (ca_range c)" and ?t = "cr_tail_size (ca_range c)"
  have d: "parse_dir um (cut content ?off (?off + ?t)) ?t = Ok (Some dir)" "dir_ok ?t dir" "length dir < U16"
    using assms(1) by (simp_all add: dir_of_def Let_def)
  have "mapM_o (\<lambda>con. bind_o (sub_p (c_card con) 1) (\<lambda>card1.
      Ok (to_le 2 (c_key con) @ to_le 2 (card1 mod U16) @ to_le 4 (c_start con mod U32)))) dir
    = (Ok (map (\<lambda>x. to_le 2 (c_key x) @ to_le 2 ((c_card x - 1) mod U16) @ to_le 4 (c_start x mod U32)) dir) :: bytes list ires)"
    by (rule mapM_o_map) (use d(2) in \<open>simp add: dir_ok_def\<close>)
  moreover have "?off mod um = ?off" using assms(2,4) by simp
  ultimately show ?thesis
    using d(1,3) assms(2-4) by (simp add: digest_dir_def Let_def checked_add_def try_from_def)
qed

end

section \<open>Digests of the sidecar of a split\<close>

lemma meta_opened:
  assumes "roaring deser ser" and w: "write_facets_with lower (facet_fields ser facets 65536) cn = Ok bs"
    and ok: "facet_map_ok facets" "facet_names_len facets < U32" and um: "length bs < um" "um \<le> U64"
  defines "gs \<equiv> facet_fields ser facets 65536"
  shows "open_meta um (mem_read um (mem_new bs)) = Ok (written_fields lower cn (postings_at gs) gs)"
    and "open_facets lower cn ser bs facets (written_fields lower cn (postings_at gs) gs)"
proof -
  note small = small_facet_fields [OF ok, of ser 65536]
  have b64: "length bs < U64" using um by linarith
  show "open_meta um (mem_read um (mem_new bs)) = Ok (written_fields lower cn (postings_at gs) gs)"
    unfolding gs_def by (rule open_meta_written [OF w small um(1) b64])
  note m = from_meta_written [OF w small um(1), folded gs_def]
  have P: "postings_at gs \<le> length bs" "bs = take (postings_at gs) bs @ cat_bytes (all_cats lower cn gs) @ []"
    using m append_take_drop_id [of "postings_at gs" bs] by simp_all
  have "same_fields lower cn (\<lambda>fc c. placed bs 0 fc c \<and> ca_head c = {}) gs (written_fields lower cn (postings_at gs) gs)"
    by (rule written_same_fields [OF P(2)]) (use P(1) b64 in simp_all)
  then have "same_fields lower cn (loaded deser bs 0) gs (written_fields lower cn (postings_at gs) gs)"
    by (rule same_fields_mono) (simp add: loaded_def)
  then show "open_facets lower cn ser bs facets (written_fields lower cn (postings_at gs) gs)"
    unfolding gs_def by (rule roaring.same_fields_open [OF assms(1) ok(1)])
qed

lemma find_category_digest:
  assumes "find_category (map (digest_top g k) fds) f c = Some cat" and g: "\<And>c. (g c)\<lparr>ca_tail_dir := None\<rparr> = c\<lparr>ca_tail_dir := None\<rparr>"
  shows "\<exists>fd \<in> set fds. \<exists>c0 \<in> set (fd_cats fd). fd_name fd = f \<and> ca_name c0 = c \<and> cat = g c0"
proof -
  obtain fd' where fd': "find (\<lambda>x. fd_name x = f) (map (digest_top g k) fds) = Some fd'" "find (\<lambda>x. ca_name x = c) (fd_cats fd') = Some cat"
    using assms(1) by (auto simp: find_category_def bind_eq_Some_conv)
  then have "fd' \<in> set (map (digest_top g k) fds)" "fd_name fd' = f" by (auto simp: find_Some_iff)
  then obtain fd where fd: "fd \<in> set fds" "fd_name fd = f" "find (\<lambda>x. ca_name x = c) (fd_cats (digest_top g k fd)) = Some cat"
    using fd'(2) by (auto simp: digest_top_def)
  then have "cat \<in> set (fd_cats (digest_top g k fd))" "ca_name cat = c" by (auto simp: find_Some_iff)
  then obtain i where i: "i \<in> set (digest_order k fd)" "cat = g (fd_cats fd ! i)" by (auto simp: digest_top_def)
  have "ca_name (g x) = ca_name x" for x using arg_cong [OF g [of x], of ca_name] by simp
  then show ?thesis using fd(1,2) i digest_order_bound [OF i(1)] \<open>ca_name cat = c\<close> nth_mem by metis
qed

definition digest_dirs :: "nat \<Rightarrow> bytes \<Rightarrow> category \<Rightarrow> category" where
  "digest_dirs um bs c = c\<lparr>ca_tail_dir :=
     (case (parse_dir um (cut bs (cr_tail_off (ca_range c)) (cr_tail_off (ca_range c) + cr_tail_size (ca_range c))) (cr_tail_size (ca_range c)) :: container list option ires) of
        Ok (Some (x # xs)) \<Rightarrow> Some (x # xs) | _ \<Rightarrow> None)\<rparr>"

lemma digest_dirs_same: "(digest_dirs um bs c)\<lparr>ca_tail_dir := None\<rparr> = c\<lparr>ca_tail_dir := None\<rparr>"
  by (simp add: digest_dirs_def)

lemma v2_category:
  assumes r: "roaring deser ser" and st: "cat_stored ser bs S c" and c: "digestible c" "digest_base c = Ok b"
    and um: "length bs + span_gap < um" "um \<le> U64"
  shows "\<exists>cb. bind_o (digest_base c) (\<lambda>b. map_ok ((@) b) (digest_dir um bs c)) = Ok cb
     \<and> reads um (\<lambda>buf. parse_cat_v2 (cur_take_v2 um buf)) (digest_dirs um bs c) cb \<and> cat_known ser bs S (digest_dirs um bs c)"
proof -
  let ?off = "cr_tail_off (ca_range c)" and ?t = "cr_tail_size (ca_range c)"
  have ps: "posting_store (mem_read um (mem_new bs)) bs um deser ser" by (intro posting_store.intro memf.full_fetch_axioms r)
  have addr: "addressable um um bs" using um by (simp add: addressable_def)
  obtain p where pp: "stored bs (fst p) (cr_head_off (ca_range c)) (cr_head_size (ca_range c)) \<and> stored bs (snd p) ?off ?t
     \<and> docs (fst p) = S \<inter> {..<65536} \<and> docs (snd p) = S - {..<65536}"
    using roaring.stored_contents [OF r st] ..
  then have p: "stored bs (snd p) ?off ?t" "docs (snd p) = S - {..<65536}" by simp_all
  have h: "posting_store.holds bs um um (snd p) ?off ?t" using p(1) addr by (simp add: posting_store.holds_def [OF ps])
  have "\<forall>d \<in> docs (snd p). 65536 \<le> d" using p(2) by auto
  then obtain dir where dir: "posting_store.dir_of bs um c dir" using posting_store.stored_dir [OF ps h] by blast
  note d = dir [unfolded posting_store.dir_of_def [OF ps] Let_def]
  have t: "?off + ?t \<le> length bs" "0 < ?t" using p(1) posting_store.holds_length [OF ps h] by (simp_all add: stored_def length_assemble data_start_def)
  have cat: "digest_dirs um bs c = c\<lparr>ca_tail_dir := if dir = [] then None else Some dir\<rparr>"
    using d by (cases dir) (simp_all add: digest_dirs_def)
  have "bind_o (digest_base c) (\<lambda>b. map_ok ((@) b) (digest_dir um bs c))
      = Ok (b @ to_le 2 (length dir) @ concat (map (\<lambda>x. to_le 2 (c_key x) @ to_le 2 ((c_card x - 1) mod U16) @ to_le 4 (c_start x mod U32)) dir))"
    using c(2) posting_store.digest_dir_ok [OF ps dir t] um by simp
  moreover have "reads um (\<lambda>buf. parse_cat_v2 (cur_take_v2 um buf)) (c\<lparr>ca_tail_dir := if dir = [] then None else Some dir\<rparr>)
      (b @ to_le 2 (length dir) @ concat (map (\<lambda>x. to_le 2 (c_key x) @ to_le 2 ((c_card x - 1) mod U16) @ to_le 4 (c_start x mod U32)) dir))"
    by (rule cur2.category_v2 [OF c(2,1)]) (use d in blast)+
  moreover have "cat_known ser bs S (c\<lparr>ca_tail_dir := if dir = [] then None else Some dir\<rparr>)"
  proof -
    have "c\<lparr>ca_tail_dir := None\<rparr> = c" using st by (simp add: cat_stored_def)
    moreover have "tail_dir_of bs (c\<lparr>ca_tail_dir := x\<rparr>) T dir \<longleftrightarrow> tail_dir_of bs c T dir" for x T by (simp add: tail_dir_of_def)
    ultimately show ?thesis using st d by (auto simp: cat_known_def split: if_splits)
  qed
  ultimately show ?thesis unfolding cat by blast
qed

text \<open>
  The digests a split manifest carries read back and price exactly: writing either digest of a
  sidecar succeeds, parsing it returns the first \<open>k\<close> (at most 65535) categories of every field by
  descending count, ties by name, with the counts and ranges a boot of the sidecar finds, and for
  the second kind with the directories of their tails; counting a named category over the parsed
  second digest, without booting the sidecar, returns its documents within the result, and 0 for a
  category outside the digest.
\<close>

lemma facet_digests_exact:
  assumes "roaring deser ser" "facet_map_ok facets" "facet_names_len facets < U32" "length facets < U16"
    and "write_facets_with lower (facet_fields ser facets 65536) cn = Ok bs" "length bs + span_gap < um" "um \<le> U64"
    and "finite res" "\<forall>d \<in> res. d < U32" "2 * length pairs * length bs < um"
  shows "\<exists>fds d1 d2. let n = min k (U16 - 1); dfs = map (digest_top (digest_dirs um bs) n) fds in
      open_meta um (mem_read um (mem_new bs)) = Ok fds
      \<and> facet_digest um bs k = Ok d1 \<and> (length d1 < um \<longrightarrow> parse_facet_digest um d1 = Ok (n, map (digest_top (\<lambda>c. c) n) fds))
      \<and> facet_digest_v2 um bs k = Ok d2 \<and> (length d2 < um \<longrightarrow> parse_facet_digest_v2 um d2 = Ok (n, dfs))
      \<and> counts_for um deser (mem_read um (mem_new bs)) dfs res pairs
          = Ok (map (\<lambda>(f, c). if find_category dfs f c = None then 0 else card (res \<inter> docs_of facets f c)) pairs)"
proof -
  let ?gs = "facet_fields ser facets 65536"
  let ?fds = "written_fields lower cn (postings_at ?gs) ?gs" and ?n = "min k (U16 - 1)"
  have lu: "length bs < um" using assms(6) by simp
  note small = small_facet_fields [OF assms(2,3), of ser 65536]
  note mo = meta_opened [OF assms(1,5,2,3) lu assms(7)]
  note dg = written_digestible [OF assms(5) small lu assms(7)]
  have lg: "length ?gs < U16" "length ?fds < U16" using assms(4) by (simp_all add: facet_fields_def)
  have n: "?n < U16" by simp
  have names: "\<forall>f \<in> set ?fds. list_all scalar (fd_name f)" using dg(1) by blast
  let ?v2 = "\<lambda>c. bind_o (digest_base c) (\<lambda>b. map_ok ((@) b) (digest_dir um bs c))"
  have v2: "(\<exists>cb. ?v2 c = Ok cb) \<and> (\<forall>cb. ?v2 c = Ok cb \<longrightarrow> reads um (\<lambda>buf. parse_cat_v2 (cur_take_v2 um buf)) (digest_dirs um bs c) cb)
      \<and> cat_known ser bs (docs_of facets (fd_name f) (ca_name c)) (digest_dirs um bs c)" if "f \<in> set ?fds" "c \<in> set (fd_cats f)" for f c
  proof -
    have "digestible c" "\<exists>b. digest_base c = Ok b" using dg(3) [OF that] by blast+
    moreover have "cat_stored ser bs (docs_of facets (fd_name f) (ca_name c)) c" by (rule open_facets_cat [OF assms(2) mo(2) that])
    ultimately show ?thesis using v2_category [OF assms(1) _ _ _ assms(6,7)] by fastforce
  qed
  obtain rows1 where r1: "mapM_o (digest_field digest_base ?n) ?fds = Ok rows1"
      "facet_digest um bs k = Ok (to_le 2 ?n @ to_le 2 (length ?fds) @ concat rows1)"
    using digest_with_written [OF assms(5) small lu assms(7) lg(1), of digest_base k] dg(3) unfolding facet_digest_def by blast
  obtain rows2 where r2: "mapM_o (digest_field ?v2 ?n) ?fds = Ok rows2"
      "facet_digest_v2 um bs k = Ok (to_le 2 ?n @ to_le 2 (length ?fds) @ concat rows2)"
    using digest_with_written [OF assms(5) small lu assms(7) lg(1), of ?v2 k] v2 unfolding facet_digest_v2_def by blast
  have p1: "parse_facet_digest um d = Ok (?n, map (digest_top (\<lambda>c. c) ?n) ?fds)"
    if "length d < um" "d = to_le 2 ?n @ to_le 2 (length ?fds) @ concat rows1" for d
    unfolding parse_facet_digest_def Let_def
    by (rule cur1.digest [OF r1(1) names n lg(2) that]) (use dg(3) cur1.base in blast)
  have p2: "parse_facet_digest_v2 um d = Ok (?n, map (digest_top (digest_dirs um bs) ?n) ?fds)"
    if "length d < um" "d = to_le 2 ?n @ to_le 2 (length ?fds) @ concat rows2" for d
    unfolding parse_facet_digest_v2_def Let_def
    by (rule cur2.digest [OF r2(1) names n lg(2) that]) (use v2 in blast)
  have ps: "posting_store (mem_read um (mem_new bs)) bs um deser ser" by (intro posting_store.intro memf.full_fetch_axioms assms(1))
  have "\<forall>f c cat. find_category (map (digest_top (digest_dirs um bs) ?n) ?fds) f c = Some cat \<longrightarrow> cat_known ser bs (docs_of facets f c) cat"
  proof (intro allI impI)
    fix f c cat assume "find_category (map (digest_top (digest_dirs um bs) ?n) ?fds) f c = Some cat"
    from find_category_digest [OF this digest_dirs_same] obtain fd c0
      where "fd \<in> set ?fds" "c0 \<in> set (fd_cats fd)" "fd_name fd = f" "ca_name c0 = c" "cat = digest_dirs um bs c0" by blast
    then show "cat_known ser bs (docs_of facets f c) cat" using v2 [of fd c0] by blast
  qed
  note cf = counts_for_known [OF ps assms(6,7) this assms(8-10)]
  show ?thesis
    unfolding Let_def using mo(1) r1(2) r2(2) p1 p2 cf by blast
qed

lemma facet_digests_exact_witness:
  "\<exists>bs fds d1 d2 n. write_facets_with (\<lambda>s. s) (facet_fields format_encode demo_facet_map 65536) True = Ok bs
     \<and> open_meta U64 (mem_read U64 (mem_new bs)) = Ok fds \<and> facet_digest U64 bs 5 = Ok d1 \<and> facet_digest_v2 U64 bs 5 = Ok d2
     \<and> counts_for U64 format_decode (mem_read U64 (mem_new bs)) (map (digest_top (digest_dirs U64 bs) 5) fds) {3, 5} [([108], [98])] = Ok [n]"
proof -
  obtain bs where bs: "write_facets_with (\<lambda>s. s) (facet_fields format_encode demo_facet_map 65536) True = Ok bs" "length bs = 131"
    using demo_facet_written by blast
  have ids: "finite {3, 5 :: nat}" "\<forall>d \<in> {3, 5 :: nat}. d < U32" by simp_all
  have n: "length demo_facet_map < U16" by (simp add: demo_facet_map_def)
  show ?thesis
    using facet_digests_exact [OF format.roaring_axioms demo_facet_map_ok(1) _ n bs(1) _ order_refl ids, of "[([108], [98])]" 5]
      bs demo_facet_map_ok(2) by (auto simp: span_gap_def Let_def)
qed

end
