(* ===== verification/RR_Facet_Limits.thy ===== *)
theory RR_Facet_Limits imports RR_Facet_Digest begin

text \<open>
  Where the facet code departs from its format: a head boundary other than 65536, which the builders
  accept, and the directories of a second-kind digest, whose offsets nobody bounds.
\<close>

section \<open>A custom head boundary\<close>

lemma single_written:
  "written_fields lower cn P (facet_fields ser [(f, [(c, S)])] hb)
   = [\<lparr>fd_name = f, fd_cats = [cat_info P \<lparr>fc_name = c, fc_card = card S mod U32, fc_head = ser ({0..<hb} \<inter> S), fc_tail = ser (S - {0..<hb})\<rparr>]\<rparr>]"
  by (simp add: facet_fields_def split_posting_def sorted_cats_def)

text \<open>
  C26: The split builders pass their configurable head boundary to the facet sidecar, whose readers
  take 65536 for granted.  With a boundary above it, filtering tail results by a category keeps only
  its documents from the boundary on: the documents of the category between 65536 and the boundary
  are lost.
\<close>

theorem custom_boundary_drops_documents:
  assumes "roaring deser ser" "facet_map_ok [(f, [(c, S)])]" "facet_names_len [(f, [(c, S)])] < U32"
    and w: "write_facets_with lower (facet_fields ser [(f, [(c, S)])] hb) cn = Ok bs"
    and um: "length bs + span_gap < um" "um \<le> U64" and T: "\<forall>d \<in> T. 65536 \<le> d" and hb: "65536 \<le> hb"
  shows "\<exists>fds. open_meta um (mem_read um (mem_new bs)) = Ok fds
    \<and> apply_tail um deser (mem_read um (mem_new bs)) (resolve_sels fds [sel_include f c]) T = Ok {d \<in> T. d \<in> S \<and> hb \<le> d}"
proof -
  let ?gs = "facet_fields ser [(f, [(c, S)])] hb" and ?f = "mem_read um (mem_new bs)"
  let ?fc = "\<lparr>fc_name = c, fc_card = card S mod U32, fc_head = ser ({0..<hb} \<inter> S), fc_tail = ser (S - {0..<hb})\<rparr>"
  have lu: "length bs < um" "length bs < U64" using um by simp_all
  note small = small_facet_fields [OF assms(2,3), of ser hb]
  note m = from_meta_written [OF w small lu(1)]
  note om = open_meta_written [OF w small lu]
  let ?P = "postings_at ?gs"
  have P: "?P \<le> length bs" "bs = take ?P bs @ cat_bytes (all_cats lower cn ?gs) @ []"
    using m append_take_drop_id [of ?P bs] by simp_all
  have cats: "all_cats lower cn ?gs = [?fc]" by (simp add: all_cats_def facet_fields_def split_posting_def sorted_cats_def)
  have "list_all2 (\<lambda>fc c. placed bs 0 fc c \<and> ca_head c = {}) (all_cats lower cn ?gs) (written_cats ?P (all_cats lower cn ?gs))"
    by (rule written_placed [OF P(2)]) (use P(1) lu in simp_all)
  then have pl: "placed bs 0 ?fc (cat_info ?P ?fc)" unfolding cats by simp
  let ?r = "ca_range (cat_info ?P ?fc)"
  have res: "resolve_sels (written_fields lower cn ?P ?gs) [sel_include f c] = \<lparr>rf_fields = [[?r]], rf_excludes = []\<rparr>"
    by (simp add: single_written resolve_sels_def sel_step_def sel_include_def find_category_def add_found_def cat_info_def)
  have st: "posting_store ?f bs um deser ser" by (intro posting_store.intro memf.full_fetch_axioms assms(1))
  have addr: "addressable um um bs" using um by (simp add: addressable_def)
  have S: "S - {0..<hb} \<subseteq> {..<U32}" using assms(2) by (auto simp: facet_map_ok_def)
  obtain t where t: "well_formed t" "docs t = S - {0..<hb}" "ser (S - {0..<hb}) = assemble t"
    using roaring.ser_assemble [OF assms(1) S] by blast
  have tl: "cr_tail_off ?r + cr_tail_size ?r \<le> length bs" "cut bs (cr_tail_off ?r) (cr_tail_off ?r + cr_tail_size ?r) = ser (S - {0..<hb})"
    using pl unfolding placed_def Let_def facet_category.simps by blast+
  have "posting_store.holds bs um um t (cr_tail_off ?r) (cr_tail_size ?r)"
    unfolding posting_store.holds_def [OF st] stored_def using tl t(1) addr unfolding t(3) by blast
  then have h: "\<forall>cats \<in> set (rf_fields \<lparr>rf_fields = [[?r]], rf_excludes = []\<rparr>). \<forall>c \<in> set cats.
      posting_store.holds bs um um t (fst (tail_range c)) (snd (tail_range c))"
    by (simp add: tail_range_def)
  have "combine um deser ?f tail_range \<lparr>rf_fields = [[?r]], rf_excludes = []\<rparr> = Ok (S - {0..<hb})"
    using posting_store.combine_eq [OF st addr order_refl h] by (simp add: t(2)) auto
  then have "apply_tail um deser ?f (resolve_sels (written_fields lower cn ?P ?gs) [sel_include f c]) T = Ok {d \<in> T. d \<in> S \<and> hb \<le> d}"
    unfolding res by (auto simp: apply_tail_def tail_bitmap_def)
  then show ?thesis using om by blast
qed

lemma boundary_written:
  "\<exists>bs. write_facets_with (\<lambda>s. s) (facet_fields format_encode [([108], [([98], {70000})])] 131072) True = Ok bs \<and> length bs = 104"
proof -
  have s: "{70000} - {0..<131072} = ({} :: nat set)" "{0..<131072} \<inter> {70000} = {70000 :: nat}" by auto
  have l: "length (format_encode {}) = 8" by (simp add: format_encode_def length_assemble data_start_def)
  show ?thesis
    by (simp add: write_facets_with_def facet_fields_def split_posting_def s out_field_def out_cat_def push_name_def
      utf8_bytes_def utf8_char_def u32_len_def demo_facet_encodings l map_ok_Ok_iff)
qed

lemma custom_boundary_drops_documents_witness:
  "\<exists>bs fds. write_facets_with (\<lambda>s. s) (facet_fields format_encode [([108], [([98], {70000})])] 131072) True = Ok bs
     \<and> open_meta U64 (mem_read U64 (mem_new bs)) = Ok fds
     \<and> apply_tail U64 format_decode (mem_read U64 (mem_new bs)) (resolve_sels fds [sel_include [108] [98]]) {70000} = Ok {}"
proof -
  obtain bs where bs: "write_facets_with (\<lambda>s. s) (facet_fields format_encode [([108], [([98], {70000})])] 131072) True = Ok bs" "length bs = 104"
    using boundary_written by blast
  have ok: "facet_map_ok [([108], [([98], {70000})])]" "facet_names_len [([108], [([98], {70000})])] < U32"
    by (simp_all add: facet_map_ok_def scalar_def facet_names_len_def utf8_bytes_def utf8_char_def)
  have t: "\<forall>d \<in> {70000 :: nat}. 65536 \<le> d" by simp
  show ?thesis
    using custom_boundary_drops_documents [OF format.roaring_axioms ok bs(1) _ order_refl t] bs by (auto simp: span_gap_def)
qed

section \<open>A digest with a tail near the end of the address space\<close>

definition far_category :: category where
  "far_category = \<lparr>ca_name = [97], ca_count = 1, ca_range = make_range (U64 - 2) 1 5000, ca_head = {}, ca_tail_dir = None\<rparr>"

definition far_dir :: "container list" where
  "far_dir = [\<lparr>c_key = 1, c_card = 1, c_start = 10, c_len = 4990\<rparr>]"

definition far_digest :: bytes where
  "far_digest = to_le 2 1 @ to_le 2 1 @ (to_le 2 1 @ [97]) @ to_le 2 1
     @ (to_le 2 1 @ [97]) @ to_le 4 1 @ to_le 8 (U64 - 2) @ to_le 4 1 @ to_le 4 5000
     @ to_le 2 1 @ to_le 2 1 @ to_le 2 0 @ to_le 4 10"

text \<open>
  C27: \<open>parse_facet_digest_v2\<close> accepts a tail that starts at the last 64-bit offset, and counting a
  category of such a digest adds a container offset to it without a check: over any fetcher that
  answers empty reads it panics with overflow checks on.
\<close>

theorem digest_offset_overflows:
  assumes "length sidecar < U64"
  shows "\<exists>fds. parse_facet_digest_v2 U64 far_digest = Ok (1, fds)
    \<and> counts_for U64 deser (mem_read U64 (mem_new sidecar)) fds {70000} [([97], [97])] = Panic"
proof -
  let ?g = "\<lambda>c. c\<lparr>ca_tail_dir := Some far_dir\<rparr>" and ?fd = "\<lparr>fd_name = [97], fd_cats = [far_category]\<rparr>"
  have nb: "digest_name [97] = Ok (to_le 2 1 @ [97])" by (simp add: digest_name_def utf8_bytes_def utf8_char_def try_from_def)
  have row: "reads U64 (\<lambda>buf. parse_cat_v2 (cur_take_v2 U64 buf)) (far_category\<lparr>ca_tail_dir := Some far_dir\<rparr>)
      (((to_le 2 1 @ [97]) @ to_le 4 1 @ to_le 8 (U64 - 2) @ to_le 4 1 @ to_le 4 5000)
       @ to_le 2 (length far_dir) @ concat (map (\<lambda>x. to_le 2 (c_key x) @ to_le 2 ((c_card x - 1) mod U16) @ to_le 4 (c_start x mod U32)) far_dir))"
  proof -
    have "digest_base far_category = Ok ((to_le 2 1 @ [97]) @ to_le 4 1 @ to_le 8 (U64 - 2) @ to_le 4 1 @ to_le 4 5000)"
      using nb by (simp add: digest_base_def far_category_def make_range_def Let_def)
    moreover have "digestible far_category"
      unfolding digestible_def far_category_def
      by (intro conjI exI [of _ "U64 - 2"] exI [of _ "1 :: nat"] exI [of _ "5000 :: nat"]) (simp_all add: scalar_def)
    ultimately show ?thesis
      using cur2.category_v2 [of far_category "(to_le 2 1 @ [97]) @ to_le 4 1 @ to_le 8 (U64 - 2) @ to_le 4 1 @ to_le 4 5000" far_dir U64]
      by (simp add: far_dir_def far_category_def make_range_def dir_ok_def)
  qed
  let ?b = "((to_le 2 1 @ [97]) @ to_le 4 1 @ to_le 8 (U64 - 2) @ to_le 4 1 @ to_le 4 5000)
       @ to_le 2 (length far_dir) @ concat (map (\<lambda>x. to_le 2 (c_key x) @ to_le 2 ((c_card x - 1) mod U16) @ to_le 4 (c_start x mod U32)) far_dir)"
  have one: "digest_order 1 ?fd = [0]" by (simp add: digest_order_def)
  have rows: "mapM_o (digest_field (\<lambda>_. Ok ?b) 1) [?fd] = Ok [(to_le 2 1 @ [97]) @ to_le 2 1 @ ?b]"
    using nb one by (simp add: digest_field_def Let_def)
  have d: "far_digest = to_le 2 1 @ to_le 2 (length [?fd]) @ concat [(to_le 2 1 @ [97]) @ to_le 2 1 @ ?b]"
    by (simp add: far_digest_def far_dir_def)
  have "parse_facet_digest_v2 U64 far_digest = Ok (1, map (digest_top ?g 1) [?fd])"
    unfolding parse_facet_digest_v2_def Let_def
    by (rule cur2.digest [OF rows _ _ _ _ d]) (use row in \<open>simp_all add: scalar_def far_digest_def\<close>)
  moreover have "map (digest_top ?g 1) [?fd] = [\<lparr>fd_name = [97], fd_cats = [?g far_category]\<rparr>]"
    using one by (simp add: digest_top_def)
  moreover have "counts_for U64 deser (mem_read U64 (mem_new sidecar)) [\<lparr>fd_name = [97], fd_cats = [?g far_category]\<rparr>] {70000} [([97], [97])] = Panic"
  proof -
    let ?fds = "[\<lparr>fd_name = [97], fd_cats = [?g far_category]\<rparr>]"
    have bk: "result_buckets {70000} = (False, [1])" by (simp add: result_buckets_def bucket_step_def)
    have sl: "foldl (slot_step ?fds) ([], []) [([97], [97])] = ([(0, 0)], [Some 0])"
      by (simp add: slot_step_def find_target_def far_category_def)
    have c: "cat_at ?fds (0, 0) = ?g far_category" by (simp add: cat_at_def)
    have ur: "use_resident (?g far_category)" by (simp add: use_resident_def far_category_def make_range_def header_prefix_def)
    have ranges: "wave_a_ranges False [1] (?g far_category) = [(0, 0), (0, 0)]" using ur by (simp add: wave_a_ranges_def)
    have fil: "filter (in_keys [1]) far_dir = far_dir"
      using found_bsearch [of "[1 :: nat]"] by (simp add: in_keys_def far_dir_def)
    let ?f = "mem_read U64 (mem_new sidecar)"
    have a: "pricing_wave U64 ?f [(0, 0), (0, 0)] = Ok [[], []]" "pricing_wave U64 ?f [] = Ok []"
      using memf.coalesced_ok [of "[(0, 0), (0, 0)]" sidecar U64 U64 pricing_gap] memf.coalesced_ok [of "[]" sidecar U64 U64 pricing_gap] assms
      by (simp_all add: pricing_wave_def wave_bytes_def)
    have wa: "foldM_o (wave_a_step U64 deser {70000} [1] [[], []]) ([], [], []) (enumerate 0 [?g far_category]) = Ok ([0], [Containers far_dir], [])"
      using ur fil by (simp add: wave_a_step_def far_category_def make_range_def)
    have wb: "mapM_o (wave_b_step U64 deser ?f {70000} [1] []) (zip [0] (zip [Containers far_dir] [?g far_category])) = Ok [(0, Containers far_dir)]"
      by (simp add: wave_b_step_def)
    have pl: "foldM_o (place_step U64) ([], []) (zip [Containers far_dir] [?g far_category]) = Panic"
      by (simp add: place_step_def place_container_def far_dir_def far_category_def make_range_def sat_add_def add_p_def Let_def)
    have "count_batched U64 deser ?f ?fds [(0, 0)] {70000} False [1] = Panic"
      unfolding count_batched_def Let_def list.map c concat.simps ranges append_Nil2 a bind_o.simps wa prod.case wb list.map fst_conv snd_conv pl ..
    then show ?thesis unfolding counts_for_def bk prod.case Let_def sl bind_o.simps by simp
  qed
  ultimately show ?thesis by auto
qed

lemma digest_offset_overflows_witness:
  "\<exists>fds. parse_facet_digest_v2 U64 far_digest = Ok (1, fds)
    \<and> counts_for U64 format_decode (mem_read U64 (mem_new [82, 82, 83, 70])) fds {70000} [([97], [97])] = Panic"
  using digest_offset_overflows [of "[82, 82, 83, 70]" format_decode] by simp

end
