(* ===== verification/RR_Records.thy ===== *)
theory RR_Records imports RR_Fetch "HOL-Library.Sublist" begin

text \<open>
  The record store \<open>RRSR\<close>: \<open>rust/src/records.rs\<close> (the reader) and \<open>RecordWriter\<close>,
  \<open>write_records\<close>, \<open>write_records_zstd\<close> of \<open>rust/src/build.rs\<close> (the writers).

  The zstd libraries are parameters: \<open>zstd_stream\<close> is what a decoder yields for a frame and a
  dictionary (nothing when the frame header is bad; otherwise the bytes it produces, and whether
  the stream then ends cleanly), \<open>zcodec\<close> is the build's choice of decoder.

  The resident offset table sits behind a lock and \<open>get_many\<close> consults it twice, once per read
  wave, with an await between: \<open>rs_get_many_seen\<close> takes what each of these look-ups sees, so that
  a preload landing between the waves is one of its inputs.
\<close>

section \<open>The store\<close>

definition rs_magic :: bytes where "rs_magic = ascii ''RRSR''"
definition rs_header_size :: nat where "rs_header_size = 16"
definition tag_raw :: byte where "tag_raw = 0"
definition tag_zstd_dict :: byte where "tag_zstd_dict = 1"
definition max_decompressed :: nat where "max_decompressed = 64 * 2 ^ 20"

type_synonym zstd_stream = "bytes \<Rightarrow> bytes \<Rightarrow> (bytes \<times> bool) option"

datatype zcodec =
    NoZstd
  | Libzstd zstd_stream
  | Ruzstd "bytes \<Rightarrow> bool" "bytes \<Rightarrow> bool" zstd_stream

record resident_idx =
  ri_upto :: nat
  ri_bytes :: bytes

record record_store =
  rs_idx :: range_read
  rs_bin :: range_read
  rs_count :: nat
  rs_version :: nat
  rs_dict :: "bytes option"
  rs_gap :: nat
  rs_resident :: "resident_idx option"

definition rs_from_boot :: "bytes \<Rightarrow> range_read \<Rightarrow> range_read \<Rightarrow> record_store ires" where
  "rs_from_boot header idx bin =
     (if length header < rs_header_size then Err (Malformed ''short RRSR header'')
      else if cut header 0 4 \<noteq> rs_magic then Err (BadMagic (cut header 0 4))
      else bind_o (read_u16 header 4) (\<lambda>version.
        if version \<noteq> 1 \<and> version \<noteq> 2 then Err (BadVersion version)
        else bind_o (read_u32 header 8) (\<lambda>count.
          Ok \<lparr>rs_idx = idx, rs_bin = bin, rs_count = count, rs_version = version, rs_dict = None,
             rs_gap = coalesce_gap, rs_resident = None\<rparr>)))"

definition rs_open :: "range_read \<Rightarrow> range_read \<Rightarrow> record_store ires" where
  "rs_open idx bin = bind_o (rd idx 0 rs_header_size) (\<lambda>header. rs_from_boot header idx bin)"

definition rs_with_dict :: "bytes \<Rightarrow> record_store \<Rightarrow> record_store" where
  "rs_with_dict dict s = s\<lparr>rs_dict := Some dict\<rparr>"

definition rs_open_with_dict :: "range_read \<Rightarrow> range_read \<Rightarrow> bytes \<Rightarrow> record_store ires" where
  "rs_open_with_dict idx bin dict = map_ok (rs_with_dict dict) (rs_open idx bin)"

definition rs_len :: "record_store \<Rightarrow> nat" where "rs_len s = rs_count s"
definition rs_is_empty :: "record_store \<Rightarrow> bool" where "rs_is_empty s \<longleftrightarrow> rs_count s = 0"

definition rs_set_coalesce_gap :: "nat \<Rightarrow> record_store \<Rightarrow> record_store" where
  "rs_set_coalesce_gap gap s = s\<lparr>rs_gap := gap\<rparr>"

subsection \<open>The resident offset table\<close>

definition rs_preload_prefix :: "nat \<Rightarrow> nat \<Rightarrow> record_store \<Rightarrow> record_store ires" where
  "rs_preload_prefix um first s =
     (let upto = min first (rs_count s) in
      bind_o (ok_or (try_from um (rs_header_size + (upto + 1) * 8)) (Malformed ''RRSR offset table exceeds the address space'')) (\<lambda>len.
      bind_o (rd (rs_idx s) 0 len) (\<lambda>bs.
      Ok (s\<lparr>rs_resident := Some \<lparr>ri_upto = upto, ri_bytes = bs\<rparr>\<rparr>))))"

definition rs_preload :: "nat \<Rightarrow> record_store \<Rightarrow> record_store ires" where
  "rs_preload um s = rs_preload_prefix um (rs_count s) s"

definition rs_set_resident :: "bytes \<Rightarrow> record_store \<Rightarrow> record_store ires" where
  "rs_set_resident bs s =
     (if length bs < rs_header_size + 8 then Err (Malformed ''resident RRSR idx shorter than header + one offset'')
      else if cut bs 0 4 \<noteq> rs_magic then Err (BadMagic (cut bs 0 4))
      else bind_o (read_u16 bs 4) (\<lambda>version. bind_o (read_u32 bs 8) (\<lambda>count.
        if version \<noteq> rs_version s \<or> count \<noteq> rs_count s
        then Err (Malformed ''resident RRSR idx header disagrees with the open store'')
        else
          let m = (length bs - rs_header_size) div 8; upto = min (m - 1) (rs_count s) mod U32 in
          Ok (s\<lparr>rs_resident := Some \<lparr>ri_upto = upto, ri_bytes = bs\<rparr>\<rparr>))))"

definition resident_pair :: "nat \<Rightarrow> resident_idx option \<Rightarrow> nat \<Rightarrow> (nat \<times> nat) option ires" where
  "resident_pair um resident i =
     (case resident of
        None \<Rightarrow> Ok None
      | Some r \<Rightarrow>
          if ri_upto r \<le> i then Ok None
          else bind_o (mul_p um i 8) (\<lambda>o8. bind_o (add_p um rs_header_size o8) (\<lambda>base.
            bind_o (read_u64 (ri_bytes r) base) (\<lambda>a. bind_o (add_p um base 8) (\<lambda>base8.
            bind_o (read_u64 (ri_bytes r) base8) (\<lambda>b. Ok (Some (a, b))))))))"

subsection \<open>Decoding a stored frame\<close>

text \<open>\<open>decoder.take(n).read_to_end\<close>: an error past the first \<open>n\<close> bytes is never reached.\<close>

definition take_to_end :: "nat \<Rightarrow> bytes \<times> bool \<Rightarrow> bytes option" where
  "take_to_end n out =
     (if n \<le> length (fst out) then Some (take n (fst out)) else if snd out then Some (fst out) else None)"

definition inflate_stream :: "zstd_stream \<Rightarrow> bytes \<Rightarrow> bytes \<Rightarrow> bytes ires" where
  "inflate_stream dec frame dict =
     bind_o (ok_or (dec frame dict) (Malformed ''zstd frame header failed to decode'')) (\<lambda>stream.
     bind_o (ok_or (take_to_end (max_decompressed + 1) stream) (Malformed ''zstd frame failed to decode'')) (\<lambda>out.
     if max_decompressed < length out then Err (Malformed ''decompressed record exceeds size cap'') else Ok out))"

definition inflate_zstd :: "zcodec \<Rightarrow> bytes option \<Rightarrow> bytes \<Rightarrow> bytes ires" where
  "inflate_zstd codec dict frame =
     (case codec of
        NoZstd \<Rightarrow> Err (Malformed ''compressed record needs the `zstd` feature'')
      | Libzstd dec \<Rightarrow>
          bind_o (ok_or dict (Malformed ''compressed record but no dictionary set'')) (inflate_stream dec frame)
      | Ruzstd dict_ok add_ok dec \<Rightarrow>
          bind_o (ok_or dict (Malformed ''compressed record but no dictionary set'')) (\<lambda>d.
          if \<not> dict_ok d then Err (Malformed ''zstd dictionary failed to parse'')
          else if \<not> add_ok d then Err (Malformed ''zstd dictionary failed to load'')
          else inflate_stream dec frame d))"

definition rs_decode :: "zcodec \<Rightarrow> record_store \<Rightarrow> bytes \<Rightarrow> bytes ires" where
  "rs_decode codec s raw =
     (if rs_version s = 1 then Ok raw
      else case raw of
        [] \<Rightarrow> Ok []
      | tag # payload \<Rightarrow>
          if tag = tag_raw then Ok payload
          else if tag = tag_zstd_dict then inflate_zstd codec (rs_dict s) payload
          else Err (Malformed ''RRSR record has an unknown frame tag''))"

subsection \<open>Reading records\<close>

definition read_pair :: "bytes \<Rightarrow> (nat \<times> nat) ires" where
  "read_pair pair = bind_o (read_u64 pair 0) (\<lambda>a. bind_o (read_u64 pair 8) (\<lambda>b. Ok (a, b)))"

text \<open>The shared tail of both readers: a stored pair becomes the blob range of its record.\<close>

definition record_range :: "nat \<Rightarrow> nat \<times> nat \<Rightarrow> (nat \<times> nat) ires" where
  "record_range um pair =
     (case pair of (start, stop) \<Rightarrow>
      if stop < start then Err (Malformed ''RRSR record offset pair has end < start'')
      else bind_o (ok_or (try_from um (stop - start)) (Malformed ''RRSR record length exceeds the address space'')) (\<lambda>len.
        Ok (start, len)))"

definition rs_get :: "nat \<Rightarrow> zcodec \<Rightarrow> record_store \<Rightarrow> nat \<Rightarrow> bytes option ires" where
  "rs_get um codec s i =
     (if rs_count s \<le> i then Ok None
      else bind_o (resident_pair um (rs_resident s) i) (\<lambda>r.
        bind_o (case r of
                  Some pair \<Rightarrow> Ok pair
                | None \<Rightarrow> bind_o (rd (rs_idx s) (rs_header_size + i * 8) 16) read_pair) (\<lambda>pair.
        bind_o (record_range um pair) (\<lambda>(start, len).
        bind_o (rd (rs_bin s) start len) (\<lambda>raw.
        map_ok Some (rs_decode codec s raw))))))"

text \<open>\<open>seen1 k\<close> and \<open>seen2 k\<close>: the resident table the \<open>k\<close>-th id's look-up sees in wave 1 and wave 2.\<close>

definition pair_range :: "nat \<Rightarrow> record_store \<Rightarrow> (nat \<Rightarrow> resident_idx option) \<Rightarrow> nat \<times> nat \<Rightarrow> (nat \<times> nat) ires" where
  "pair_range um s seen1 = (\<lambda>(k, i).
     if i < rs_count s then
       bind_o (resident_pair um (seen1 k) i) (\<lambda>r.
         case r of None \<Rightarrow> Ok (rs_header_size + i * 8, 16) | Some _ \<Rightarrow> Ok (0, 0))
     else Ok (0, 0))"

definition rec_range ::
  "nat \<Rightarrow> record_store \<Rightarrow> (nat \<Rightarrow> resident_idx option) \<Rightarrow> bytes list \<Rightarrow> nat \<times> nat \<Rightarrow> (nat \<times> nat) ires" where
  "rec_range um s seen2 pairs = (\<lambda>(k, i).
     if rs_count s \<le> i then Ok (0, 0)
     else bind_o (resident_pair um (seen2 k) i) (\<lambda>r.
       bind_o (case r of Some pair \<Rightarrow> Ok pair | None \<Rightarrow> bind_o (nth_p pairs k) read_pair) (record_range um)))"

definition blob_record :: "zcodec \<Rightarrow> record_store \<Rightarrow> nat \<times> bytes \<Rightarrow> bytes option ires" where
  "blob_record codec s = (\<lambda>(i, blob).
     if rs_count s \<le> i then Ok None else map_ok Some (rs_decode codec s blob))"

definition rs_get_many_seen ::
  "nat \<Rightarrow> zcodec \<Rightarrow> (nat \<Rightarrow> resident_idx option) \<Rightarrow> (nat \<Rightarrow> resident_idx option) \<Rightarrow> record_store \<Rightarrow> nat list
     \<Rightarrow> bytes option list ires" where
  "rs_get_many_seen um codec seen1 seen2 s ids =
     bind_o (mapM_o (pair_range um s seen1) (enumerate 0 ids)) (\<lambda>pair_ranges.
     bind_o (map_err Fetch (read_coalesced um (rs_idx s) pair_ranges (rs_gap s))) (\<lambda>pairs.
     bind_o (mapM_o (rec_range um s seen2 pairs) (enumerate 0 ids)) (\<lambda>rec_ranges.
     bind_o (map_err Fetch (read_coalesced um (rs_bin s) rec_ranges (rs_gap s))) (\<lambda>blobs.
     mapM_o (blob_record codec s) (zip ids blobs)))))"

definition rs_get_many :: "nat \<Rightarrow> zcodec \<Rightarrow> record_store \<Rightarrow> nat list \<Rightarrow> bytes option list ires" where
  "rs_get_many um codec s = rs_get_many_seen um codec (\<lambda>_. rs_resident s) (\<lambda>_. rs_resident s) s"

text \<open>
  What can happen to an open store: \<open>ok bs\<close> says which out-of-band bytes the application may hand
  to \<open>set_resident_idx\<close>.
\<close>

inductive rs_step :: "nat \<Rightarrow> (bytes \<Rightarrow> bool) \<Rightarrow> record_store \<Rightarrow> record_store \<Rightarrow> bool" for um ok where
  preload: "rs_preload_prefix um first s = Ok s' \<Longrightarrow> rs_step um ok s s'"
| resident: "rs_set_resident bs s = Ok s' \<Longrightarrow> ok bs \<Longrightarrow> length bs < um \<Longrightarrow> rs_step um ok s s'"
| gap: "rs_step um ok s (rs_set_coalesce_gap g s)"

abbreviation rs_reaches :: "nat \<Rightarrow> (bytes \<Rightarrow> bool) \<Rightarrow> record_store \<Rightarrow> record_store \<Rightarrow> bool" where
  "rs_reaches um ok \<equiv> (rs_step um ok)\<^sup>*\<^sup>*"

inductive_cases rs_stepE: "rs_step um ok s s'"

section \<open>The writer\<close>

type_synonym compressor = "bytes \<Rightarrow> bytes io"

record record_writer =
  rw_bin :: bytes
  rw_idx :: bytes
  rw_off :: nat
  rw_written :: nat
  rw_zstd :: "compressor option"

definition rs_header_bytes :: "nat \<Rightarrow> nat \<Rightarrow> bytes" where
  "rs_header_bytes version count =
     rs_magic @ to_le 2 version @ to_le 2 0 @ to_le 4 count @ to_le 4 0 @ to_le 8 0"

definition rw_new :: "nat \<Rightarrow> record_writer" where
  "rw_new count =
     \<lparr>rw_bin = [], rw_idx = rs_header_bytes 1 count, rw_off = 0, rw_written = 0, rw_zstd = None\<rparr>"

definition rw_new_zstd :: "(int \<Rightarrow> bytes \<Rightarrow> compressor io) \<Rightarrow> nat \<Rightarrow> bytes \<Rightarrow> int \<Rightarrow> record_writer io" where
  "rw_new_zstd with_dictionary count dict level =
     bind_o (with_dictionary level dict) (\<lambda>compressor.
     Ok \<lparr>rw_bin = [], rw_idx = rs_header_bytes 2 count, rw_off = 0, rw_written = 0, rw_zstd = Some compressor\<rparr>)"

definition frame_zstd :: "compressor \<Rightarrow> bytes \<Rightarrow> bytes io" where
  "frame_zstd compress rec =
     (if rec = [] then Ok []
      else bind_o (compress rec) (\<lambda>compressed.
        if length compressed < length rec then Ok (tag_zstd_dict # compressed) else Ok (tag_raw # rec)))"

definition rw_write :: "record_writer \<Rightarrow> bytes \<Rightarrow> record_writer io" where
  "rw_write w rec =
     bind_o (case rw_zstd w of Some compress \<Rightarrow> frame_zstd compress rec | None \<Rightarrow> Ok rec) (\<lambda>stored.
     bind_o (add_p U64 (rw_off w) (length stored)) (\<lambda>off.
     bind_o (add_p U32 (rw_written w) 1) (\<lambda>written.
     Ok (w\<lparr>rw_bin := rw_bin w @ stored, rw_off := off, rw_idx := rw_idx w @ to_le 8 off, rw_written := written\<rparr>))))"

text \<open>Both writers return what they wrote, \<open>(bin, idx)\<close>.\<close>

definition write_records :: "bytes list \<Rightarrow> (bytes \<times> bytes) io" where
  "write_records records =
     bind_o (foldM_o rw_write (rw_new (length records mod U32)) records) (\<lambda>w. Ok (rw_bin w, rw_idx w))"

definition write_records_zstd ::
  "(int \<Rightarrow> bytes \<Rightarrow> compressor io) \<Rightarrow> bytes list \<Rightarrow> bytes \<Rightarrow> int \<Rightarrow> (bytes \<times> bytes) io" where
  "write_records_zstd with_dictionary records dict level =
     bind_o (rw_new_zstd with_dictionary (length records mod U32) dict level) (\<lambda>w0.
     bind_o (foldM_o rw_write w0 records) (\<lambda>w. Ok (rw_bin w, rw_idx w)))"

section \<open>Reading through a fetcher\<close>

context range_fetch
begin

text \<open>A batch that succeeds asked only for bytes of the object.\<close>

lemma coalesced_within:
  assumes "read_coalesced um fetch ranges gap = Ok out" "k < length ranges" "ranges ! k = (off, len)" "len \<noteq> 0"
  shows "off + len \<le> length content"
  using assms(1)
proof (cases rule: read_coalesced_cases)
  case (planned spans so datas)
  let ?k = "so ! k"
  have "covers spans ?k off (off + len)"
    using coalesce_plan_covers(2) [OF planned(1) assms(2)] assms(3,4) by simp
  then have k: "?k < length spans" and s: "fst (spans ! ?k) \<le> off" and e: "off + len \<le> snd (spans ! ?k)"
    by (auto simp: covers_def)
  obtain a b where ab: "spans ! ?k = (a, b)" by fastforce
  have "fetch a (b - a) = Ok (datas ! ?k)"
    using wave_Ok_nth [OF planned(2), of ?k] k ab by simp
  from fetch_within [OF this] show ?thesis using s e ab assms(4) by simp
qed simp

lemma coalesced_nth:
  assumes "read_coalesced um fetch ranges gap = Ok out" "k < length ranges" "ranges ! k = (off, len)"
  shows "out ! k = cut content off (off + len)" "length (out ! k) = len" "length out = length ranges"
proof -
  have out: "out = map (\<lambda>(off, len). cut content off (off + len)) ranges"
    by (rule coalesced_exact [OF assms(1)])
  then show k: "out ! k = cut content off (off + len)" "length out = length ranges" using assms(2,3) by simp_all
  show "length (out ! k) = len"
    using coalesced_within [OF assms] k by (cases "len = 0") simp_all
qed

end

section \<open>The resident table\<close>

text \<open>A well-formed table holds both offsets of every id it covers, and fits the address space.\<close>

definition resident_wf :: "nat \<Rightarrow> resident_idx option \<Rightarrow> bool" where
  "resident_wf um r = (case r of None \<Rightarrow> True | Some t \<Rightarrow>
     rs_header_size + (ri_upto t + 1) * 8 \<le> length (ri_bytes t) \<and> length (ri_bytes t) < um)"

definition covered :: "resident_idx option \<Rightarrow> nat \<Rightarrow> bool" where
  "covered r i = (case r of None \<Rightarrow> False | Some t \<Rightarrow> i < ri_upto t)"

definition pair_at :: "bytes \<Rightarrow> nat \<Rightarrow> nat \<times> nat" where
  "pair_at I i = (u64_at I (16 + i * 8), u64_at I (24 + i * 8))"

text \<open>A table that is a prefix of the index file itself.\<close>

definition mirrors :: "bytes \<Rightarrow> resident_idx option \<Rightarrow> bool" where
  "mirrors I r = (case r of None \<Rightarrow> True | Some t \<Rightarrow> prefix (ri_bytes t) I)"

lemma not_covered_None [simp]: "\<not> covered None i"
  by (simp add: covered_def)

lemma resident_pair_wf:
  assumes "resident_wf um r"
  shows "resident_pair um r i = Ok (if covered r i then Some (pair_at (ri_bytes (the r)) i) else None)"
proof (cases "covered r i")
  case False
  then show ?thesis by (auto simp: resident_pair_def covered_def split: option.splits)
next
  case True
  then obtain t where r: "r = Some t" "i < ri_upto t" by (auto simp: covered_def split: option.splits)
  then have "i * 8 + 32 \<le> length (ri_bytes t)" "length (ri_bytes t) < um"
    using assms by (auto simp: resident_wf_def rs_header_size_def)
  then show ?thesis using r by (simp add: resident_pair_def covered_def pair_at_def rs_header_size_def)
qed

lemma resident_pair_mirrors:
  assumes "resident_wf um r" "mirrors I r"
  shows "resident_pair um r i = Ok (if covered r i then Some (pair_at I i) else None)"
proof (cases "covered r i")
  case True
  then obtain t where r: "r = Some t" "i < ri_upto t" by (auto simp: covered_def split: option.splits)
  then have "i * 8 + 32 \<le> length (ri_bytes t)"
    using assms(1) by (auto simp: resident_wf_def rs_header_size_def)
  moreover obtain x where "I = ri_bytes t @ x" using assms(2) r(1) by (auto simp: mirrors_def prefix_def)
  ultimately have "pair_at (ri_bytes t) i = pair_at I i" by (simp add: pair_at_def u64_at_append_left)
  then show ?thesis using r True resident_pair_wf [OF assms(1)] by simp
qed (simp add: resident_pair_wf [OF assms(1)])

lemma read_pair_exact:
  assumes "length b = 16" "b = cut I (16 + i * 8) (16 + i * 8 + 16)" "16 + i * 8 + 16 \<le> length I"
  shows "read_pair b = Ok (pair_at I i)"
proof -
  have "read_pair b = Ok (u64_at b 0, u64_at b 8)" using assms(1) by (simp add: read_pair_def)
  moreover have "u64_at b 0 = u64_at I (16 + i * 8)" "u64_at b 8 = u64_at I (24 + i * 8)"
    using assms(2,3) by (simp_all add: le_cut_simps add.commute add.left_commute)
  ultimately show ?thesis by (simp add: pair_at_def)
qed


lemma record_range_Ok: "record_range um p = Ok (start, len) \<Longrightarrow> p = (start, start + len) \<and> len < um"
  by (cases p) (auto simp: record_range_def outcome_simps split: if_splits)

section \<open>Decoding never panics\<close>



text \<open>Every record handed out by inflating obeys the cap.\<close>

lemma inflate_bounded: "inflate_zstd codec dict frame = Ok out \<Longrightarrow> length out \<le> max_decompressed"
  by (auto simp: inflate_zstd_def inflate_stream_def outcome_simps split: zcodec.splits if_splits)

section \<open>One record\<close>

text \<open>The store without its resident table, as it was opened.\<close>

definition rs_cold :: "record_store \<Rightarrow> record_store" where
  "rs_cold s = s\<lparr>rs_resident := None\<rparr>"

lemma rs_cold_simps [simp]:
  "rs_idx (rs_cold s) = rs_idx s" "rs_bin (rs_cold s) = rs_bin s" "rs_count (rs_cold s) = rs_count s"
  "rs_resident (rs_cold s) = None"
  by (simp_all add: rs_cold_def)

lemma rs_decode_cold [simp]: "rs_decode codec (rs_cold s) raw = rs_decode codec s raw"
  by (simp add: rs_decode_def rs_cold_def split: list.split)

lemma rs_get_alt:
  "rs_get um codec s i =
     (if rs_count s \<le> i then Ok None
      else bind_o (resident_pair um (rs_resident s) i) (\<lambda>r.
        bind_o (case r of Some pair \<Rightarrow> Ok pair | None \<Rightarrow> bind_o (rd (rs_idx s) (16 + i * 8) 16) read_pair) (\<lambda>pair.
        bind_o (record_range um pair) (\<lambda>(start, len). bind_o (rd (rs_bin s) start len) (\<lambda>raw.
        map_ok Some (rs_decode codec s raw))))))"
  unfolding rs_get_def rs_header_size_def by (rule refl)


lemma rs_get_cold_Ok:
  assumes "range_fetch (rs_idx s) I" "range_fetch (rs_bin s) B"
    and "rs_get um codec (rs_cold s) i = Ok v" "i < rs_count s"
  obtains start len rec where "pair_at I i = (start, start + len)" "len < um" "16 + i * 8 + 16 \<le> length I"
    "rs_bin s start len = Ok (cut B start (start + len))" "0 < len \<Longrightarrow> start + len \<le> length B"
    "rs_decode codec s (cut B start (start + len)) = Ok rec" "v = Some rec"
proof -
  obtain b pair start len raw rec where
    b: "rs_idx s (16 + i * 8) 16 = Ok b" and pair: "read_pair b = Ok pair"
    and r: "record_range um pair = Ok (start, len)" and raw: "rs_bin s start len = Ok raw"
    and dec: "rs_decode codec s raw = Ok rec" "v = Some rec"
    using assms(3,4) by (auto simp: rs_get_alt resident_pair_def bind_o_Ok_iff map_ok_Ok_iff split: if_split_asm)
  have in_idx: "16 + i * 8 + 16 \<le> length I"
    using bounded_fetch.fetch_within [OF range_fetch.axioms(1) [OF assms(1)] b] by simp
  have "pair = pair_at I i"
    using read_pair_exact [of b I i] bounded_fetch.fetch_exact [OF range_fetch.axioms(1) [OF assms(1)] b] in_idx pair by simp
  moreover have "raw = cut B start (start + len)"
    using bounded_fetch.fetch_exact [OF range_fetch.axioms(1) [OF assms(2)] raw] by simp
  moreover have "0 < len \<Longrightarrow> start + len \<le> length B"
    by (rule bounded_fetch.fetch_within [OF range_fetch.axioms(1) [OF assms(2)] raw])
  ultimately show thesis
    using that [of start len rec] record_range_Ok [OF r] in_idx raw dec by simp
qed

lemma record_range_pair: "len < um \<Longrightarrow> record_range um (start, start + len) = Ok (start, len)"
  by (simp add: record_range_def)

text \<open>A table that mirrors the index changes no record that reads without it.\<close>

lemma rs_get_warm:
  assumes "range_fetch (rs_idx s) I" "range_fetch (rs_bin s) B"
    and "resident_wf um (rs_resident s)" "mirrors I (rs_resident s)"
    and "rs_get um codec (rs_cold s) i = Ok v"
  shows "rs_get um codec s i = Ok v"
proof (cases "covered (rs_resident s) i \<and> i < rs_count s")
  case True
  then obtain start len rec where "pair_at I i = (start, start + len)" "len < um"
    "rs_bin s start len = Ok (cut B start (start + len))"
    "rs_decode codec s (cut B start (start + len)) = Ok rec" "v = Some rec"
    using rs_get_cold_Ok [OF assms(1,2,5)] by metis
  then show ?thesis
    using True by (simp add: rs_get_alt resident_pair_mirrors [OF assms(3,4)] record_range_pair rd_def)
next
  case False
  moreover have "resident_pair um None i = Ok None" by (simp add: resident_pair_def)
  ultimately show ?thesis
    using assms(5) by (auto simp: rs_get_alt resident_pair_mirrors [OF assms(3,4)])
qed

section \<open>A page of records\<close>

text \<open>What \<open>get_many\<close> plans in each wave, once the tables it sees are well-formed.\<close>

lemma pair_range_wf:
  "resident_wf um (seen1 k) \<Longrightarrow>
     pair_range um s seen1 (k, i)
       = Ok (if i < rs_count s \<and> \<not> covered (seen1 k) i then (16 + i * 8, 16) else (0, 0))"
  by (simp add: pair_range_def resident_pair_wf rs_header_size_def)

lemma pair_ranges_wf:
  assumes "\<And>k. resident_wf um (seen1 k)"
  shows "mapM_o (pair_range um s seen1) (enumerate 0 ids)
    = Ok (map (\<lambda>(k, i). if i < rs_count s \<and> \<not> covered (seen1 k) i then (16 + i * 8, 16) else (0, 0)) (enumerate 0 ids))"
  by (rule mapM_o_map) (clarsimp simp: pair_range_wf assms)

lemma mapM_o_nth:
  assumes "length ys = length xs" "\<And>k. k < length xs \<Longrightarrow> f (xs ! k) = Ok (ys ! k)"
  shows "mapM_o f xs = Ok ys"
  using assms by (simp add: mapM_o_Ok_iff list_all2_conv_all_nth)


lemma rs_get_many_gets:
  assumes ff: "full_fetch (rs_idx s) I lim" "full_fetch (rs_bin s) B lim"
    and lim: "length I < lim" "length B < lim" "lim \<le> um" "lim \<le> U64"
    and wf: "\<And>k. resident_wf um (seen1 k)" "\<And>k. resident_wf um (seen2 k)" "\<And>k. mirrors I (seen2 k)"
    and grow: "\<And>k. k < length ids \<Longrightarrow> covered (seen1 k) (ids ! k) \<Longrightarrow> covered (seen2 k) (ids ! k)"
    and gets: "\<And>i. i \<in> set ids \<Longrightarrow> rs_get um codec (rs_cold s) i = Ok (out i)"
  shows "rs_get_many_seen um codec seen1 seen2 s ids = Ok (map out ids)"
proof -
  have rf: "range_fetch (rs_idx s) I" "range_fetch (rs_bin s) B"
    using ff by (simp_all add: full_fetch_def)
  define prs :: "(nat \<times> nat) list" where "prs = map (\<lambda>(k, i). if i < rs_count s \<and> \<not> covered (seen1 k) i then (16 + i * 8, 16) else (0, 0)) (enumerate 0 ids)"
  define pairs where "pairs = map (\<lambda>(off, len). cut I off (off + len)) prs"
  define rrs where "rrs = map (\<lambda>i. if rs_count s \<le> i then (0, 0) else (fst (pair_at I i), snd (pair_at I i) - fst (pair_at I i))) ids"
  define blobs where "blobs = map (\<lambda>(off, len). cut B off (off + len)) rrs"
  have prs: "read_coalesced um (rs_idx s) prs (rs_gap s) = Ok pairs"
    unfolding pairs_def
  proof (rule full_fetch.coalesced_ok [OF ff(1) _ lim(1,3)])
    fix off len assume "(off, len) \<in> set prs" "len \<noteq> 0"
    then obtain i where "i \<in> set ids" "i < rs_count s" "off = 16 + i * 8" "len = 16"
      using nth_mem by (fastforce simp: prs_def in_set_enumerate_eq split: if_split_asm)
    then show "off + len \<le> length I" using rs_get_cold_Ok [OF rf gets] by metis
  qed (use lim in simp)
  have rec1: "rec_range um s seen2 pairs (k, ids ! k) = Ok (rrs ! k)" if k: "k < length ids" for k
  proof (cases "rs_count s \<le> ids ! k")
    case False
    let ?i = "ids ! k"
    obtain start len where p: "pair_at I ?i = (start, start + len)" "len < um" "16 + ?i * 8 + 16 \<le> length I"
      using rs_get_cold_Ok [OF rf gets [of ?i]] k False by (metis not_le nth_mem)
    have "bind_o (nth_p pairs k) read_pair = Ok (pair_at I ?i)" if "\<not> covered (seen2 k) ?i"
    proof -
      have "prs ! k = (16 + ?i * 8, 16)" "length prs = length ids"
        using that grow [OF k] k False by (auto simp: prs_def nth_enumerate_eq)
      then have "pairs ! k = cut I (16 + ?i * 8) (16 + ?i * 8 + 16)" "length pairs = length ids"
        using k by (simp_all add: pairs_def)
      then show ?thesis using k p(3) by (simp add: read_pair_exact)
    qed
    then show ?thesis
      using False k p(1,2) by (simp add: rec_range_def resident_pair_mirrors [OF wf(2,3)] rrs_def record_range_pair)
  qed (use k in \<open>simp add: rec_range_def rrs_def\<close>)
  have recs: "mapM_o (rec_range um s seen2 pairs) (enumerate 0 ids) = Ok rrs"
    by (rule mapM_o_nth) (simp_all add: rrs_def rec1 [unfolded rrs_def] nth_enumerate_eq)
  have blob: "read_coalesced um (rs_bin s) rrs (rs_gap s) = Ok blobs"
    unfolding blobs_def
  proof (rule full_fetch.coalesced_ok [OF ff(2) _ lim(2,3)])
    fix off len assume r: "(off, len) \<in> set rrs" "len \<noteq> 0"
    then obtain i where i: "i \<in> set ids" "i < rs_count s" "off = fst (pair_at I i)" "len = snd (pair_at I i) - off"
      by (auto simp: rrs_def split: if_split_asm)
    obtain start l where "pair_at I i = (start, start + l)" "0 < l \<Longrightarrow> start + l \<le> length B"
      using rs_get_cold_Ok [OF rf gets [OF i(1)] i(2)] by metis
    then show "off + len \<le> length B" using i r(2) by simp
  qed (use lim in simp)
  have "mapM_o (blob_record codec s) (zip ids blobs) = Ok (map out ids)"
  proof (rule mapM_o_nth)
    fix k assume "k < length (zip ids blobs)"
    then have k: "k < length ids" by simp
    let ?i = "ids ! k"
    have bk: "zip ids blobs ! k = (?i, cut B (fst (rrs ! k)) (fst (rrs ! k) + snd (rrs ! k)))"
      using k by (simp add: blobs_def rrs_def split: prod.split)
    show "blob_record codec s (zip ids blobs ! k) = Ok (map out ids ! k)"
    proof (cases "rs_count s \<le> ?i")
      case True
      then have "out ?i = None" using gets [of ?i] k by (simp add: rs_get_def)
      then show ?thesis using True k bk by (simp add: blob_record_def)
    next
      case False
      then obtain start l rec where "pair_at I ?i = (start, start + l)"
        "rs_decode codec s (cut B start (start + l)) = Ok rec" "out ?i = Some rec"
        using rs_get_cold_Ok [OF rf gets [of ?i]] k by (metis not_le nth_mem)
      then show ?thesis using False k bk by (simp add: blob_record_def rrs_def)
    qed
  qed (simp add: blobs_def rrs_def)
  then show ?thesis
    using prs recs blob by (simp add: rs_get_many_seen_def pair_ranges_wf [of um seen1 s ids, OF wf(1), folded prs_def])
qed

section \<open>What can happen to an open store\<close>

lemma rs_set_resident_Ok:
  assumes "rs_set_resident bs s = Ok s'"
  shows "24 \<le> length bs"
    "s' = s\<lparr>rs_resident := Some \<lparr>ri_upto = min ((length bs - 16) div 8 - 1) (rs_count s) mod U32, ri_bytes = bs\<rparr>\<rparr>"
  using assms unfolding rs_set_resident_def rs_header_size_def Let_def
  by (auto simp: bind_o_Ok_iff split: if_split_asm)

lemma rs_set_resident_wf:
  assumes "rs_set_resident bs s = Ok s'" "length bs < um"
  shows "resident_wf um (rs_resident s')"
proof -
  define m upto where "m = (length bs - 16) div 8" and "upto = min (m - 1) (rs_count s) mod U32"
  note ok = rs_set_resident_Ok [OF assms(1), folded m_def, folded upto_def]
  have "upto \<le> m - 1"
    unfolding upto_def by (metis min.cobounded1 mod_less_eq_dividend order_trans)
  moreover have "1 \<le> m" "m * 8 \<le> length bs - 16"
    using ok(1) by (simp_all add: m_def div_greater_zero_iff Suc_le_eq)
  ultimately have "upto + 1 \<le> m" "m * 8 + 16 \<le> length bs" using ok(1) by simp_all
  then have "16 + (upto + 1) * 8 \<le> length bs" using mult_le_mono1 [of "upto + 1" m 8] by simp
  then show ?thesis using ok(2) assms(2) by (simp add: resident_wf_def rs_header_size_def)
qed

lemma rs_preload_prefix_wf:
  assumes "range_fetch (rs_idx s) I" "rs_preload_prefix um first s = Ok s'"
  shows "resident_wf um (rs_resident s') \<and> mirrors I (rs_resident s')"
proof -
  obtain bs where bs: "rs_idx s 0 (16 + (min first (rs_count s) + 1) * 8) = Ok bs"
    "16 + (min first (rs_count s) + 1) * 8 < um"
    "rs_resident s' = Some \<lparr>ri_upto = min first (rs_count s), ri_bytes = bs\<rparr>"
    using assms(2) by (auto simp: rs_preload_prefix_def rs_header_size_def bind_o_Ok_iff Let_def)
  note ex = bounded_fetch.fetch_exact [OF range_fetch.axioms(1) [OF assms(1)] bs(1)]
  then have "prefix bs I" by (metis add_0 cut_def diff_zero drop0 take_is_prefix)
  then show ?thesis using bs conjunct1 [OF ex] by (simp add: resident_wf_def mirrors_def rs_header_size_def)
qed

text \<open>The invariant of an open store: its fixed parts, and a table that is safe to index.\<close>

lemma rs_step_fixed:
  assumes "rs_step um ok s s'"
  shows "rs_cold (rs_set_coalesce_gap 0 s') = rs_cold (rs_set_coalesce_gap 0 s)"
  using assms
  by (elim rs_stepE)
    (auto simp: rs_preload_prefix_def rs_set_coalesce_gap_def rs_cold_def Let_def bind_o_Ok_iff dest!: rs_set_resident_Ok(2))

lemma rs_reaches_fixed:
  assumes "rs_reaches um ok s s'"
  shows "rs_idx s' = rs_idx s" "rs_bin s' = rs_bin s" "rs_count s' = rs_count s"
    "rs_version s' = rs_version s" "rs_dict s' = rs_dict s"
proof -
  have "rs_cold (rs_set_coalesce_gap 0 s') = rs_cold (rs_set_coalesce_gap 0 s)"
    using assms by (induction rule: rtranclp_induct) (auto dest: rs_step_fixed)
  then show "rs_idx s' = rs_idx s" "rs_bin s' = rs_bin s" "rs_count s' = rs_count s"
    "rs_version s' = rs_version s" "rs_dict s' = rs_dict s"
    by (auto simp: rs_cold_def rs_set_coalesce_gap_def dest: arg_cong [of _ _ rs_idx] arg_cong [of _ _ rs_bin]
        arg_cong [of _ _ rs_count] arg_cong [of _ _ rs_version] arg_cong [of _ _ rs_dict])
qed

lemma rs_reaches_wf:
  assumes "rs_reaches um ok s s'" "range_fetch (rs_idx s) I" "resident_wf um (rs_resident s)"
  shows "resident_wf um (rs_resident s')"
  using assms(1)
proof (induction rule: rtranclp_induct)
  case base
  then show ?case by (rule assms(3))
next
  case (step y z)
  have "range_fetch (rs_idx y) I" using rs_reaches_fixed(1) [OF step.hyps(1)] assms(2) by simp
  with step.hyps(2) step.IH show ?case
    by (elim rs_stepE) (auto dest: rs_preload_prefix_wf rs_set_resident_wf simp: rs_set_coalesce_gap_def)
qed

lemma rs_reaches_mirrors:
  assumes "rs_reaches um (\<lambda>b. prefix b I) s s'" "range_fetch (rs_idx s) I" "mirrors I (rs_resident s)"
  shows "mirrors I (rs_resident s')"
  using assms(1)
proof (induction rule: rtranclp_induct)
  case base
  then show ?case by (rule assms(3))
next
  case (step y z)
  have "range_fetch (rs_idx y) I" using rs_reaches_fixed(1) [OF step.hyps(1)] assms(2) by simp
  with step.hyps(2) step.IH show ?case
    by (elim rs_stepE)
      (auto dest: rs_preload_prefix_wf simp: rs_set_coalesce_gap_def mirrors_def dest!: rs_set_resident_Ok(2))
qed


lemma resident_None [simp]: "resident_wf um None" "mirrors I None"
  by (simp_all add: resident_wf_def mirrors_def)

text \<open>The decoder sees only the version and the dictionary, the cold reader only the fixed parts.\<close>

lemma rs_decode_cong:
  "rs_version s' = rs_version s \<Longrightarrow> rs_dict s' = rs_dict s \<Longrightarrow> rs_decode codec s' = rs_decode codec s"
  by (rule ext) (simp add: rs_decode_def split: list.split)

lemma rs_get_cold_reaches:
  assumes "rs_reaches um ok s s'"
  shows "rs_get um codec (rs_cold s') i = rs_get um codec (rs_cold s) i"
proof -
  note fixed = rs_reaches_fixed [OF assms]
  have "rs_decode codec (rs_cold s') = rs_decode codec (rs_cold s)"
    using fixed by (intro rs_decode_cong) (simp_all add: rs_cold_def)
  then show ?thesis unfolding rs_get_def using fixed by (simp cong: option.case_cong)
qed

lemma rs_cold_fresh: "rs_resident s = None \<Longrightarrow> rs_cold s = s"
  by (simp add: rs_cold_def)

section \<open>What the writer stores\<close>

definition end_of :: "bytes list \<Rightarrow> nat \<Rightarrow> nat" where
  "end_of stored k = length (concat (take k stored))"

definition idx_of :: "nat \<Rightarrow> nat \<Rightarrow> bytes list \<Rightarrow> bytes" where
  "idx_of version count stored =
     (rs_magic @ to_le 2 version @ to_le 2 0 @ to_le 4 count @ to_le 4 0)
       @ concat (map (\<lambda>k. to_le 8 (end_of stored k)) [0..<Suc (length stored)])"

definition written :: "nat \<Rightarrow> nat \<Rightarrow> compressor option \<Rightarrow> bytes list \<Rightarrow> record_writer \<Rightarrow> bool" where
  "written version count z stored w \<longleftrightarrow>
     rw_bin w = concat stored \<and> rw_idx w = idx_of version count stored \<and> rw_off w = length (concat stored)
     \<and> rw_written w = length stored \<and> rw_zstd w = z"

text \<open>What a writer stores for a record: the record itself, or its frame.\<close>

definition stored_form :: "compressor option \<Rightarrow> bytes \<Rightarrow> bytes io" where
  "stored_form z rec = (case z of None \<Rightarrow> Ok rec | Some compress \<Rightarrow> frame_zstd compress rec)"

lemma idx_of_snoc:
  "idx_of version count (stored @ [x])
     = idx_of version count stored @ to_le 8 (length (concat stored) + length x)"
proof -
  have "map (\<lambda>k. to_le 8 (end_of (stored @ [x]) k)) [0..<Suc (length stored)]
      = map (\<lambda>k. to_le 8 (end_of stored k)) [0..<Suc (length stored)]"
    by (rule map_cong) (auto simp: end_of_def)
  moreover have "[0..<Suc (length (stored @ [x]))] = [0..<Suc (length stored)] @ [Suc (length stored)]" by simp
  moreover have "end_of (stored @ [x]) (Suc (length stored)) = length (concat stored) + length x"
    by (simp add: end_of_def)
  ultimately show ?thesis
    unfolding idx_of_def by (simp only: map_append concat_append append_assoc list.map concat.simps append_Nil2)
qed

lemma written_new: "written 1 count None [] (rw_new count)"
  by (simp add: written_def rw_new_def idx_of_def rs_header_bytes_def end_of_def)

lemma rw_write_written:
  assumes "written version count z stored w" "stored_form z rec = Ok x"
    and "length (concat stored) + length x < U64" "length stored + 1 < U32"
  shows "\<exists>w'. rw_write w rec = Ok w' \<and> written version count z (stored @ [x]) w'"
  using assms by (auto simp: rw_write_def written_def stored_form_def idx_of_snoc cong: option.case_cong)

lemma rw_writes:
  assumes "list_all2 (\<lambda>r x. stored_form z r = Ok x) records xs" "written version count z stored w"
    and "length (concat (stored @ xs)) < U64" "length stored + length xs < U32"
  shows "\<exists>w'. foldM_o rw_write w records = Ok w' \<and> written version count z (stored @ xs) w'"
  using assms
proof (induction records xs arbitrary: stored w rule: list_all2_induct)
  case Nil
  then show ?case by simp
next
  case (Cons r rs x xs)
  then obtain w1 where w1: "rw_write w r = Ok w1" "written version count z (stored @ [x]) w1"
    using rw_write_written [OF Cons.prems(1) Cons.hyps(1)] by auto
  then show ?case using Cons.IH [OF w1(2)] Cons.prems by auto
qed

lemma write_records_written:
  assumes "length records < U32" "length (concat records) < U64"
  shows "write_records records = Ok (concat records, idx_of 1 (length records) records)"
proof -
  have "list_all2 (\<lambda>r x. stored_form None r = Ok x) records records"
    by (simp add: list_all2_conv_all_nth stored_form_def)
  from rw_writes [OF this written_new] assms
  obtain w where "foldM_o rw_write (rw_new (length records)) records = Ok w"
    "written 1 (length records) None records w" by fastforce
  then show ?thesis using assms(1) by (simp add: write_records_def written_def)
qed

section \<open>What the reader finds\<close>

definition record_at :: "bytes list \<Rightarrow> nat \<Rightarrow> bytes option" where
  "record_at records i = (if i < length records then Some (records ! i) else None)"

lemma length_idx_of [simp]: "length (idx_of version count stored) = 24 + length stored * 8"
proof -
  have "length (concat (map (\<lambda>k. to_le 8 (end_of stored k)) [0..<Suc (length stored)])) = length [0..<Suc (length stored)] * 8"
    by (rule concat_rows_length) simp
  then show ?thesis unfolding idx_of_def rs_magic_def by (simp del: upt_Suc)
qed

lemma end_of_le: "end_of stored k \<le> length (concat stored)"
  by (metis append_take_drop_id concat_append end_of_def length_append le_add1)

lemma end_of_Suc: "k < length stored \<Longrightarrow> end_of stored (Suc k) = end_of stored k + length (stored ! k)"
  by (simp add: end_of_def take_Suc_conv_app_nth)

lemma cut_stored:
  assumes "k < length stored"
  shows "cut (concat stored) (end_of stored k) (end_of stored k + length (stored ! k)) = stored ! k"
proof -
  have "stored = take k stored @ stored ! k # drop (Suc k) stored" using assms by (rule id_take_nth_drop)
  then have "concat stored = concat (take k stored) @ stored ! k @ concat (drop (Suc k) stored)"
    by (metis concat.simps(2) concat_append)
  then show ?thesis using cut_mid [of "concat (take k stored)" "end_of stored k"] by (simp add: end_of_def)
qed

lemma idx_of_offset:
  assumes "length (concat stored) < U64" "k \<le> length stored"
  shows "u64_at (idx_of version count stored) (16 + k * 8) = end_of stored k"
proof -
  let ?h = "rs_magic @ to_le 2 version @ to_le 2 0 @ to_le 4 count @ to_le 4 0"
  have "length ?h = 16" by (simp add: rs_magic_def)
  from cut_row_mid [OF this, of "[0..<Suc (length stored)]" "\<lambda>k. to_le 8 (end_of stored k)" 8 k "[]"]
  have "cut (idx_of version count stored) (16 + k * 8) (16 + k * 8 + 8) = to_le 8 (end_of stored k)"
    unfolding idx_of_def using assms(2) by (simp del: upt_Suc)
  moreover have "end_of stored k < 256 ^ 8" using end_of_le [of stored k] assms(1) by simp
  ultimately show ?thesis by (simp only: u64_at_def from_le_to_le mod_less)
qed

lemma idx_of_pair:
  assumes "length (concat stored) < U64" "k < length stored"
  shows "pair_at (idx_of version count stored) k = (end_of stored k, end_of stored k + length (stored ! k))"
proof -
  have "24 + k * 8 = 16 + Suc k * 8" by simp
  then show ?thesis
    using idx_of_offset [OF assms(1), of k version count] idx_of_offset [OF assms(1), of "Suc k" version count] assms(2)
    by (simp only: pair_at_def end_of_Suc [OF assms(2)] less_imp_le Suc_leI)
qed

lemma idx_of_open:
  assumes "version = 1 \<or> version = 2" "length stored < U32" "24 + length stored * 8 < um"
  defines "I \<equiv> idx_of version (length stored) stored"
  shows "rs_open (mem_read um (mem_new I)) bin
    = Ok \<lparr>rs_idx = mem_read um (mem_new I), rs_bin = bin, rs_count = length stored, rs_version = version,
         rs_dict = None, rs_gap = coalesce_gap, rs_resident = None\<rparr>"
proof -
  let ?h = "rs_magic @ to_le 2 version @ to_le 2 0 @ to_le 4 (length stored) @ to_le 4 0"
  have h: "length ?h = 16" by (simp add: rs_magic_def)
  have "rd (mem_read um (mem_new I)) 0 16 = Ok (cut I 0 (0 + 16))"
    by (rule memf.rd_ok) (use assms(3) in \<open>simp_all add: I_def\<close>)
  moreover have "cut I 0 (0 + 16) = ?h" unfolding I_def idx_of_def using h by (simp only: cut_append_left) (simp add: cut_def)
  moreover have "version < 65536" using assms(1) by auto
  moreover have "u16_at ?h 4 = version" using \<open>version < 65536\<close>
    by (intro u16_at_mid) (simp_all add: rs_magic_def)
  moreover have "u32_at ?h 8 = length stored"
    using u32_at_mid [of "rs_magic @ to_le 2 version @ to_le 2 0" 8 "length stored" "to_le 4 0"] assms(2)
    by (simp add: rs_magic_def)
  moreover have "cut ?h 0 4 = rs_magic" by (simp add: cut_def rs_magic_def)
  ultimately show ?thesis
    using h assms(1) unfolding rs_open_def rs_header_size_def rs_from_boot_def by (simp del: rd_Ok_iff)
qed

lemma stored_get:
  assumes "length (concat stored) < um" "um \<le> U64" "24 + length stored * 8 < um"
    and s: "rs_idx s = mem_read um (mem_new (idx_of version count stored))" "rs_bin s = mem_read um (mem_new (concat stored))"
      "rs_count s = length stored" "rs_resident s = None"
    and dec: "i < length stored \<Longrightarrow> rs_decode codec s (stored ! i) = d"
  shows "rs_get um codec s i = (if i < length stored then map_ok Some d else Ok None)"
proof (cases "i < length stored")
  case True
  let ?I = "idx_of version count stored"
  have total: "length (concat stored) < U64" using assms(1,2) by simp
  have "end_of stored (Suc i) \<le> length (concat stored)" by (rule end_of_le)
  then have e: "end_of stored i + length (stored ! i) \<le> length (concat stored)" using True by (simp add: end_of_Suc)
  have pair: "rd (rs_idx s) (16 + i * 8) 16 = Ok (cut ?I (16 + i * 8) (16 + i * 8 + 16))"
    unfolding s(1) by (rule memf.rd_ok) (use True assms(3) in simp_all)
  have rp: "read_pair (cut ?I (16 + i * 8) (16 + i * 8 + 16)) = Ok (end_of stored i, end_of stored i + length (stored ! i))"
    using True by (subst read_pair_exact [of _ ?I i]) (simp_all add: idx_of_pair [OF total])
  have blob: "rd (rs_bin s) (end_of stored i) (length (stored ! i)) = Ok (stored ! i)"
    unfolding s(2) using memf.rd_ok [of "end_of stored i" "length (stored ! i)" "concat stored" um] e assms(1)
    by (simp add: cut_stored [OF True])
  have "resident_pair um None i = Ok None" by (simp add: resident_pair_def)
  then show ?thesis
    using True s(3,4) pair rp blob dec e assms(1) by (simp add: rs_get_alt record_range_pair del: rd_Ok_iff)
qed (use s in \<open>simp add: rs_get_def\<close>)

text \<open>The store that \<open>open\<close> (and \<open>with_dict\<close>) makes of the written files.\<close>

definition opened :: "nat \<Rightarrow> nat \<Rightarrow> bytes option \<Rightarrow> bytes list \<Rightarrow> record_store" where
  "opened um version dict stored =
     \<lparr>rs_idx = mem_read um (mem_new (idx_of version (length stored) stored)),
      rs_bin = mem_read um (mem_new (concat stored)), rs_count = length stored, rs_version = version,
      rs_dict = dict, rs_gap = coalesce_gap, rs_resident = None\<rparr>"

lemma records_served:
  fixes um version dict stored
  defines "s \<equiv> opened um version dict stored"
  assumes um: "length (concat stored) < um" "um \<le> U64" "24 + length stored * 8 < um"
    and dec: "\<And>k. k < length stored \<Longrightarrow> rs_decode codec s (stored ! k) = Ok (records ! k)" "length records = length stored"
    and reach: "rs_reaches um (\<lambda>b. prefix b (idx_of version (length stored) stored)) s s'"
  shows "rs_get um codec s' i = Ok (record_at records i)" (is ?get)
    and "rs_get_many um codec s' ids = Ok (map (record_at records) ids)" (is ?many)
proof -
  let ?I = "idx_of version (length stored) stored"
  have s: "rs_idx s = mem_read um (mem_new ?I)" "rs_bin s = mem_read um (mem_new (concat stored))"
    "rs_count s = length stored" "rs_resident s = None"
    by (simp_all add: s_def opened_def)
  note fx = rs_reaches_fixed [OF reach]
  have idx: "full_fetch (rs_idx s') ?I um" and bin: "full_fetch (rs_bin s') (concat stored) um"
    unfolding fx s by (rule memf.full_fetch_axioms)+
  have r0: "range_fetch (rs_idx s) ?I" unfolding s by (rule memf.range_fetch_axioms)
  have rf: "range_fetch (rs_idx s') ?I" "range_fetch (rs_bin s') (concat stored)"
    using idx bin by (simp_all add: full_fetch_def)
  have wf: "resident_wf um (rs_resident s')" "mirrors ?I (rs_resident s')"
    using rs_reaches_wf [OF reach r0] rs_reaches_mirrors [OF reach r0] s by simp_all
  have cold: "rs_get um codec (rs_cold s') i = Ok (record_at records i)" for i
    unfolding rs_get_cold_reaches [OF reach] rs_cold_fresh [OF s(4)]
    using stored_get [OF um s, of i codec "Ok (records ! i)"] dec by (simp add: record_at_def)
  show ?get by (rule rs_get_warm [OF rf wf cold])
  show ?many
    unfolding rs_get_many_def
    by (rule rs_get_many_gets [OF idx bin _ um(1) order_refl um(2) wf(1) wf(1) wf(2)]) (use um cold in simp_all)
qed

lemma opened_from_files:
  assumes "version = 1 \<or> version = 2" "length stored < U32" "24 + length stored * 8 < um"
  shows "rs_open (mem_read um (mem_new (idx_of version (length stored) stored))) (mem_read um (mem_new (concat stored)))
    = Ok (opened um version None stored)"
  by (simp only: idx_of_open [OF assms] opened_def)

section \<open>Properties: plain stores\<close>

text \<open>
  C28: Whatever records are written by \<open>write_records\<close>, the store opens and serves exactly them, by
  \<open>get\<close> and by \<open>get_many\<close>, and answers nothing for any other id; and it still does after any
  sequence of full or partial preloads, gap changes and out-of-band tables that are prefixes of the
  index file.
\<close>

theorem records_roundtrip:
  assumes "length records < U32" "length (concat records) + 24 + length records * 8 < um" "um \<le> U64"
  shows "\<exists>bin idx s. write_records records = Ok (bin, idx)
    \<and> rs_open (mem_read um (mem_new idx)) (mem_read um (mem_new bin)) = Ok s
    \<and> rs_len s = length records
    \<and> (\<forall>s'. rs_reaches um (\<lambda>b. prefix b idx) s s' \<longrightarrow>
         (\<forall>i. rs_get um codec s' i = Ok (record_at records i))
         \<and> (\<forall>ids. rs_get_many um codec s' ids = Ok (map (record_at records) ids)))"
proof (intro exI conjI allI impI)
  let ?s = "opened um 1 None records"
  have lens: "length (concat records) < um" "24 + length records * 8 < um" "length (concat records) < U64"
    using assms by simp_all
  show "write_records records = Ok (concat records, idx_of 1 (length records) records)"
    by (rule write_records_written [OF assms(1) lens(3)])
  show "rs_open (mem_read um (mem_new (idx_of 1 (length records) records))) (mem_read um (mem_new (concat records))) = Ok ?s"
    by (rule opened_from_files) (use assms lens in simp_all)
  show "rs_len ?s = length records" by (simp add: rs_len_def opened_def)
  fix s' assume "rs_reaches um (\<lambda>b. prefix b (idx_of 1 (length records) records)) ?s s'"
  note served = records_served [OF lens(1) assms(3) lens(2) _ refl this, of codec]
  show "rs_get um codec s' i = Ok (record_at records i)" for i
    by (rule served) (simp add: rs_decode_def opened_def)
  show "rs_get_many um codec s' ids = Ok (map (record_at records) ids)" for ids
    by (rule served) (simp add: rs_decode_def opened_def)
qed

lemma records_roundtrip_witness:
  "\<exists>bin idx s. write_records [[1, 2], [], [1]] = Ok (bin, idx)
    \<and> rs_open (mem_read U32 (mem_new idx)) (mem_read U32 (mem_new bin)) = Ok s
    \<and> rs_len s = 3 \<and> rs_get_many U32 NoZstd s [2, 0, 3, 1] = Ok [Some [1], Some [1, 2], None, Some []]"
  using records_roundtrip [of "[[1, 2], [], [1]]" U32 NoZstd] by (fastforce simp: record_at_def)



section \<open>Properties: preloads that overlap a page\<close>

text \<open>
  C29: Preloads may land at any moment of a \<open>get_many\<close>, between any two of its look-ups: as long as
  no id that was resident when the offset reads were planned has ceased to be when its pair is
  used, the page is exactly the records that \<open>get\<close> reads one by one from the store without any
  preload, over arbitrary index and blob bytes.
\<close>

theorem overlapping_preloads_invisible:
  assumes "rs_idx s = mem_read um (mem_new I)" "rs_bin s = mem_read um (mem_new B)" "rs_resident s = None"
    and "length I < um" "length B < um" "um \<le> U64"
    and "rs_reaches um (\<lambda>b. prefix b I) s s1"
    and "\<forall>k. \<exists>t. rs_reaches um (\<lambda>b. prefix b I) s1 t \<and> seen1 k = rs_resident t"
    and "\<forall>k. \<exists>t. rs_reaches um (\<lambda>b. prefix b I) s1 t \<and> seen2 k = rs_resident t"
    and "\<forall>k < length ids. covered (seen1 k) (ids ! k) \<longrightarrow> covered (seen2 k) (ids ! k)"
    and "\<forall>i \<in> set ids. rs_get um codec s i = Ok (out i)"
  shows "rs_get_many_seen um codec seen1 seen2 s1 ids = Ok (map out ids)"
proof -
  note fx = rs_reaches_fixed [OF assms(7), unfolded assms(1,2)]
  have ff: "full_fetch (rs_idx s1) I um" "full_fetch (rs_bin s1) B um"
    unfolding fx by (rule memf.full_fetch_axioms)+
  have rf: "range_fetch (rs_idx s) I" unfolding assms(1) by (rule memf.range_fetch_axioms)
  have good: "resident_wf um (rs_resident t) \<and> mirrors I (rs_resident t)"
    if "rs_reaches um (\<lambda>b. prefix b I) s1 t" for t
  proof -
    have "rs_reaches um (\<lambda>b. prefix b I) s t" using assms(7) that by (rule rtranclp_trans)
    then show ?thesis using rs_reaches_wf [OF _ rf] rs_reaches_mirrors [OF _ rf] assms(3) by simp
  qed
  then have wf: "resident_wf um (seen1 k)" "resident_wf um (seen2 k)" "mirrors I (seen2 k)" for k
    using assms(8,9) by metis+
  show ?thesis
  proof (rule rs_get_many_gets [OF ff assms(4,5) order_refl assms(6) wf])
    show "covered (seen2 k) (ids ! k)" if "k < length ids" "covered (seen1 k) (ids ! k)" for k
      using assms(10) that by simp
    show "rs_get um codec (rs_cold s1) i = Ok (out i)" if "i \<in> set ids" for i
      using assms(11) that by (simp add: rs_get_cold_reaches [OF assms(7)] rs_cold_fresh [OF assms(3)])
  qed
qed

text \<open>A preload of a store over its written files.\<close>

lemma opened_preload:
  assumes "rs_idx s = mem_read um (mem_new (idx_of version (length stored) stored))" "rs_count s = length stored"
    and "24 + length stored * 8 < um" "first \<le> length stored"
  shows "rs_preload_prefix um first s = Ok (s\<lparr>rs_resident :=
    Some \<lparr>ri_upto = first, ri_bytes = cut (idx_of version (length stored) stored) 0 (16 + (first + 1) * 8)\<rparr>\<rparr>)"
proof -
  have "rd (rs_idx s) 0 (16 + (first + 1) * 8) = Ok (cut (idx_of version (length stored) stored) 0 (0 + (16 + (first + 1) * 8)))"
    unfolding assms(1) by (rule memf.rd_ok) (use assms(3,4) in simp_all)
  then show ?thesis using assms by (simp add: rs_preload_prefix_def rs_header_size_def Let_def del: rd_Ok_iff)
qed

lemma overlapping_preloads_invisible_witness:
  "\<exists>s s1 s2. rs_preload_prefix U32 1 s = Ok s1 \<and> rs_preload_prefix U32 2 s1 = Ok s2
    \<and> rs_get_many_seen U32 NoZstd (\<lambda>_. rs_resident s1) (\<lambda>_. rs_resident s2) s1 [1, 0] = Ok [Some [9], Some [5, 6]]"
proof -
  define rs :: "bytes list" where "rs = [[5, 6], [9]]"
  define s where "s = opened U32 1 None rs"
  let ?P = "\<lambda>b. prefix b (idx_of 1 (length rs) rs)"
  have rs: "length rs = 2" "length (concat rs) = 3" by (simp_all add: rs_def)
  have s: "rs_idx s = mem_read U32 (mem_new (idx_of 1 (length rs) rs))" "rs_bin s = mem_read U32 (mem_new (concat rs))"
    "rs_resident s = None" "rs_count s = length rs"
    by (simp_all add: s_def opened_def)
  define s1 where "s1 = s\<lparr>rs_resident := Some \<lparr>ri_upto = 1, ri_bytes = cut (idx_of 1 (length rs) rs) 0 (16 + (1 + 1) * 8)\<rparr>\<rparr>"
  define s2 where "s2 = s1\<lparr>rs_resident := Some \<lparr>ri_upto = 2, ri_bytes = cut (idx_of 1 (length rs) rs) 0 (16 + (2 + 1) * 8)\<rparr>\<rparr>"
  have p1: "rs_preload_prefix U32 1 s = Ok s1" unfolding s1_def by (rule opened_preload [OF s(1,4)]) (simp_all add: rs)
  have s1: "rs_idx s1 = mem_read U32 (mem_new (idx_of 1 (length rs) rs))" "rs_count s1 = length rs"
    using s by (simp_all add: s1_def)
  have p2: "rs_preload_prefix U32 2 s1 = Ok s2" unfolding s2_def by (rule opened_preload [OF s1]) (simp_all add: rs)
  have c: "covered (rs_resident s1) i \<longleftrightarrow> i < 1" "covered (rs_resident s2) i \<longleftrightarrow> i < 2" for i
    by (simp_all add: s1_def s2_def covered_def)
  have get: "rs_get U32 NoZstd s i = Ok (record_at rs i)" for i
    unfolding s_def by (rule records_served) (auto simp: rs_decode_def opened_def rs)
  have "rs_get_many_seen U32 NoZstd (\<lambda>_. rs_resident s1) (\<lambda>_. rs_resident s2) s1 [1, 0] = Ok (map (record_at rs) [1, 0])"
  proof (rule overlapping_preloads_invisible [OF s(1,2,3)])
    show "rs_reaches U32 ?P s s1" by (rule r_into_rtranclp [of "rs_step U32 ?P", OF rs_step.preload [OF p1]])
    show "\<forall>k. \<exists>t. rs_reaches U32 ?P s1 t \<and> rs_resident s1 = rs_resident t" by blast
    show "\<forall>k. \<exists>t. rs_reaches U32 ?P s1 t \<and> rs_resident s2 = rs_resident t"
      using r_into_rtranclp [of "rs_step U32 ?P", OF rs_step.preload [OF p2]] by blast
  qed (use c get rs in simp_all)
  then show ?thesis using p1 p2 by (auto simp: record_at_def rs_def)
qed

text \<open>
  C30: A preload of a shorter prefix replaces the longer table, and a \<open>get_many\<close> that planned its
  offset reads under the longer one then has neither a resident pair nor a fetched one for an id in
  between: it panics, although the same page reads correctly before and after the preload.
\<close>

theorem shrinking_preload_panics:
  assumes "length records < U32" "length (concat records) + 24 + length records * 8 < um" "um \<le> U64"
    and "b \<le> i" "i < a" "a \<le> j" "j < length records"
  shows "\<exists>bin idx s sa sb. write_records records = Ok (bin, idx)
    \<and> rs_open (mem_read um (mem_new idx)) (mem_read um (mem_new bin)) = Ok s
    \<and> rs_preload_prefix um a s = Ok sa \<and> rs_preload_prefix um b sa = Ok sb
    \<and> rs_get_many um codec sa [i, j] = Ok [Some (records ! i), Some (records ! j)]
    \<and> rs_get_many um codec sb [i, j] = Ok [Some (records ! i), Some (records ! j)]
    \<and> rs_get_many_seen um codec (\<lambda>_. rs_resident sa) (\<lambda>_. rs_resident sb) sa [i, j] = Panic"
proof -
  let ?I = "idx_of 1 (length records) records" and ?s = "opened um 1 None records"
  define sa where "sa = ?s\<lparr>rs_resident := Some \<lparr>ri_upto = a, ri_bytes = cut ?I 0 (16 + (a + 1) * 8)\<rparr>\<rparr>"
  define sb where "sb = sa\<lparr>rs_resident := Some \<lparr>ri_upto = b, ri_bytes = cut ?I 0 (16 + (b + 1) * 8)\<rparr>\<rparr>"
  have lens: "length (concat records) < um" "24 + length records * 8 < um" "length (concat records) < U64"
    using assms by simp_all
  have pa: "rs_preload_prefix um a ?s = Ok sa" unfolding sa_def
    by (rule opened_preload) (use assms lens in \<open>simp_all add: opened_def\<close>)
  have pb: "rs_preload_prefix um b sa = Ok sb" unfolding sb_def
    by (rule opened_preload) (use assms lens in \<open>simp_all add: sa_def opened_def\<close>)
  let ?P = "\<lambda>b. prefix b ?I"
  have ra: "rs_reaches um ?P ?s sa" by (rule r_into_rtranclp [of "rs_step um ?P", OF rs_step.preload [OF pa]])
  have rb: "rs_reaches um ?P ?s sb" by (rule rtranclp.rtrancl_into_rtrancl [OF ra rs_step.preload [OF pb]])
  have page: "rs_get_many um codec t [i, j] = Ok [Some (records ! i), Some (records ! j)]" if "rs_reaches um ?P ?s t" for t
    using records_served(2) [OF lens(1) assms(3) lens(2) _ refl that, of codec "[i, j]"] assms
    by (simp add: rs_decode_def opened_def record_at_def)
  have idx: "rs_idx sa = mem_read um (mem_new ?I)" and cnt: "rs_count sa = length records"
    by (simp_all add: sa_def opened_def)
  have ca: "covered (rs_resident sa) x \<longleftrightarrow> x < a" and cb: "covered (rs_resident sb) x \<longleftrightarrow> x < b" for x
    by (simp_all add: sa_def sb_def covered_def)
  have rf: "range_fetch (rs_idx ?s) ?I" unfolding opened_def by (simp add: memf.range_fetch_axioms)
  have wf: "resident_wf um (rs_resident sa)" "resident_wf um (rs_resident sb)"
    using rs_reaches_wf [OF ra rf] rs_reaches_wf [OF rb rf] by (simp_all add: opened_def)
  have plan: "mapM_o (pair_range um sa (\<lambda>_. rs_resident sa)) (enumerate 0 [i, j]) = Ok [(0, 0), (16 + j * 8, 16)]"
    using assms(4-7) by (simp add: pair_range_wf [OF wf(1)] ca cnt)
  have "read_coalesced um (rs_idx sa) [(0, 0), (16 + j * 8, 16)] (rs_gap sa)
      = Ok (map (\<lambda>(off, len). cut ?I off (off + len)) [(0, 0), (16 + j * 8, 16)])"
    unfolding idx by (rule memf.coalesced_ok) (use assms lens in auto)
  moreover have "mapM_o (rec_range um sa (\<lambda>_. rs_resident sb) (cut ?I 0 0 # ps)) (enumerate 0 [i, j]) = Panic" for ps
    using assms(4-7) by (simp add: rec_range_def resident_pair_wf [OF wf(2)] cb cnt read_pair_def read_u64_def)
  ultimately have "rs_get_many_seen um codec (\<lambda>_. rs_resident sa) (\<lambda>_. rs_resident sb) sa [i, j] = Panic"
    by (simp add: rs_get_many_seen_def plan del: enumerate_simps)
  then show ?thesis
    using write_records_written [OF assms(1) lens(3)] opened_from_files [of 1 records um] assms(1) lens(2) pa pb page [OF ra] page [OF rb]
    by (intro exI [of _ "concat records"] exI [of _ ?I] exI [of _ ?s] exI [of _ sa] exI [of _ sb]) simp
qed

lemma shrinking_preload_panics_witness:
  "\<exists>s sa sb. rs_preload_prefix U32 2 s = Ok sa \<and> rs_preload_prefix U32 0 sa = Ok sb
    \<and> rs_get_many_seen U32 NoZstd (\<lambda>_. rs_resident sa) (\<lambda>_. rs_resident sb) sa [1, 2] = Panic"
  using shrinking_preload_panics [of "[[1], [2], [3]]" U32 0 1 2 2 NoZstd] by auto

end
