(* ===== verification/RR_Records_Zstd.thy ===== *)
theory RR_Records_Zstd imports RR_Records begin

text \<open>
  Compressed record stores: what \<open>write_records_zstd\<close> (\<open>rust/src/build.rs\<close>) writes is what
  \<open>RecordStore\<close> (\<open>rust/src/records.rs\<close>) with the same dictionary reads, given that the zstd
  decoder inverts the zstd compressor; except for a record above the reader's size cap.
\<close>

section \<open>The documented behaviour of zstd\<close>

text \<open>
  What the code relies on: a frame that the compressor made with a dictionary decodes, with that
  dictionary, to exactly the bytes it was made from.
\<close>

definition stream_inverts :: "zstd_stream \<Rightarrow> bytes \<Rightarrow> compressor \<Rightarrow> bool" where
  "stream_inverts dec dict compress \<longleftrightarrow> (\<forall>rec c. compress rec = Ok c \<longrightarrow> dec c dict = Some (rec, True))"

definition codec_inverts :: "zcodec \<Rightarrow> bytes \<Rightarrow> compressor \<Rightarrow> bool" where
  "codec_inverts codec dict compress =
     (case codec of
        NoZstd \<Rightarrow> False
      | Libzstd dec \<Rightarrow> stream_inverts dec dict compress
      | Ruzstd dict_ok add_ok dec \<Rightarrow> dict_ok dict \<and> add_ok dict \<and> stream_inverts dec dict compress)"

lemma take_to_end_whole:
  "take_to_end (Suc n) (out, True) = Some (if n < length out then take (Suc n) out else out)"
  by (auto simp: take_to_end_def)

lemma inflate_inverts:
  assumes "codec_inverts codec dict compress" "compress rec = Ok c"
  shows "inflate_zstd codec (Some dict) c =
    (if length rec \<le> max_decompressed then Ok rec else Err (Malformed ''decompressed record exceeds size cap''))"
proof -
  have "inflate_stream dec c dict =
      (if length rec \<le> max_decompressed then Ok rec else Err (Malformed ''decompressed record exceeds size cap''))"
    if "stream_inverts dec dict compress" for dec
    using that assms(2) by (simp add: stream_inverts_def inflate_stream_def take_to_end_whole)
  then show ?thesis
    using assms(1) by (auto simp: codec_inverts_def inflate_zstd_def split: zcodec.splits)
qed

section \<open>Frames\<close>

text \<open>A frame never costs more than one byte over its record.\<close>

lemma frame_zstd_length: "frame_zstd compress rec = Ok x \<Longrightarrow> length x \<le> length rec + 1"
  by (auto simp: frame_zstd_def bind_o_Ok_iff split: if_split_asm)

lemma tags_differ [simp]: "tag_zstd_dict \<noteq> tag_raw" "tag_raw \<noteq> tag_zstd_dict"
  by (simp_all add: tag_zstd_dict_def tag_raw_def)

lemma decode_frame:
  assumes "frame_zstd compress rec = Ok x" "codec_inverts codec dict compress"
    and "rs_version s = 2" "rs_dict s = Some dict"
  shows "rs_decode codec s x =
    (if length rec \<le> max_decompressed \<or> hd x \<noteq> tag_zstd_dict then Ok rec
     else Err (Malformed ''decompressed record exceeds size cap''))"
proof -
  consider "rec = []" "x = []" | "x = tag_raw # rec"
    | c where "compress rec = Ok c" "x = tag_zstd_dict # c"
    using assms(1) by (auto simp: frame_zstd_def bind_o_Ok_iff split: if_split_asm)
  then show ?thesis
    using assms(3,4) inflate_inverts [OF assms(2)] tags_differ
    by cases (auto simp: rs_decode_def)
qed

lemma frames_exist:
  assumes "\<forall>r \<in> set records. r \<noteq> [] \<longrightarrow> (\<exists>c. compress r = Ok c)"
  shows "\<exists>xs. list_all2 (\<lambda>r x. stored_form (Some compress) r = Ok x) records xs
    \<and> length (concat xs) \<le> length (concat records) + length records"
  using assms
proof (induction records)
  case Nil
  then show ?case by simp
next
  case (Cons r rs)
  then obtain xs where xs: "list_all2 (\<lambda>r x. stored_form (Some compress) r = Ok x) rs xs"
    "length (concat xs) \<le> length (concat rs) + length rs" by auto
  have "\<exists>x. frame_zstd compress r = Ok x"
  proof (cases "r = []")
    case False
    then obtain c where "compress r = Ok c" using Cons.prems by auto
    then show ?thesis using False by (simp add: frame_zstd_def)
  qed (simp add: frame_zstd_def)
  then obtain x where x: "frame_zstd compress r = Ok x" by blast
  show ?case
    using xs x frame_zstd_length [OF x] by (intro exI [of _ "x # xs"]) (simp add: stored_form_def)
qed

lemma write_records_zstd_written:
  assumes "with_dictionary level dict = Ok compress"
    and frames: "list_all2 (\<lambda>r x. stored_form (Some compress) r = Ok x) records xs"
    and "length records < U32" "length (concat xs) < U64"
  shows "write_records_zstd with_dictionary records dict level = Ok (concat xs, idx_of 2 (length xs) xs)"
proof -
  have len: "length xs = length records" using frames by (simp add: list_all2_lengthD)
  define w0 where "w0 = \<lparr>rw_bin = [], rw_idx = rs_header_bytes 2 (length records), rw_off = 0, rw_written = 0, rw_zstd = Some compress\<rparr>"
  have "written 2 (length records) (Some compress) [] w0"
    by (simp add: w0_def written_def idx_of_def rs_header_bytes_def end_of_def)
  from rw_writes [OF frames this] assms(3,4) len
  obtain w where "foldM_o rw_write w0 records = Ok w" "written 2 (length records) (Some compress) xs w" by auto
  then show ?thesis
    using assms(1,3) len by (simp add: write_records_zstd_def rw_new_zstd_def written_def w0_def)
qed

section \<open>Properties\<close>

text \<open>
  C32: Whatever records are written compressed against a dictionary, each stored raw or as a frame,
  the store opened with that dictionary serves exactly them, by \<open>get\<close> and by \<open>get_many\<close> and after
  any preloads, provided the zstd decoder inverts the compressor and no record exceeds the
  reader's 64 MiB cap.
\<close>

theorem records_zstd_roundtrip:
  assumes "with_dictionary level dict = Ok compress" "codec_inverts codec dict compress"
    and "\<forall>r \<in> set records. (r \<noteq> [] \<longrightarrow> (\<exists>c. compress r = Ok c)) \<and> length r \<le> max_decompressed"
    and "length records < U32" "length (concat records) + 24 + length records * 9 < um" "um \<le> U64"
  shows "\<exists>bin idx s. write_records_zstd with_dictionary records dict level = Ok (bin, idx)
    \<and> rs_open_with_dict (mem_read um (mem_new idx)) (mem_read um (mem_new bin)) dict = Ok s
    \<and> rs_len s = length records
    \<and> (\<forall>s'. rs_reaches um (\<lambda>b. prefix b idx) s s' \<longrightarrow>
         (\<forall>i. rs_get um codec s' i = Ok (record_at records i))
         \<and> (\<forall>ids. rs_get_many um codec s' ids = Ok (map (record_at records) ids)))"
proof -
  obtain xs where frames: "list_all2 (\<lambda>r x. stored_form (Some compress) r = Ok x) records xs"
    and total: "length (concat xs) \<le> length (concat records) + length records"
    using frames_exist [of records compress] assms(3) by auto
  have len: "length records = length xs" using frames by (simp add: list_all2_lengthD)
  let ?s = "opened um 2 (Some dict) xs"
  have lens: "length (concat xs) < um" "24 + length xs * 8 < um" "length (concat xs) < U64"
    using assms(5,6) total len by simp_all
  have "write_records_zstd with_dictionary records dict level = Ok (concat xs, idx_of 2 (length xs) xs)"
    by (rule write_records_zstd_written [where with_dictionary = with_dictionary and level = level]) (fact assms(1) frames assms(4) lens(3))+
  moreover have "rs_open_with_dict (mem_read um (mem_new (idx_of 2 (length xs) xs))) (mem_read um (mem_new (concat xs))) dict = Ok ?s"
    using opened_from_files [of 2 xs um] assms(4) len lens(2)
    by (simp add: rs_open_with_dict_def rs_with_dict_def opened_def)
  moreover have "rs_len ?s = length records" using len by (simp add: rs_len_def opened_def)
  moreover have dec: "rs_decode codec ?s (xs ! k) = Ok (records ! k)" if "k < length xs" for k
  proof -
    have "frame_zstd compress (records ! k) = Ok (xs ! k)"
      using list_all2_nthD [OF frames] that len by (simp add: stored_form_def)
    from decode_frame [OF this assms(2), of ?s] show ?thesis
      using assms(3) that len by (simp add: opened_def)
  qed
  moreover have "rs_get um codec s' i = Ok (record_at records i)"
    "rs_get_many um codec s' ids = Ok (map (record_at records) ids)"
    if "rs_reaches um (\<lambda>b. prefix b (idx_of 2 (length xs) xs)) ?s s'" for s' i ids
    by (rule records_served [OF lens(1) assms(6) lens(2) dec len that]; assumption)+
  ultimately show ?thesis
    by (intro exI [of _ "concat xs"] exI [of _ "idx_of 2 (length xs) xs"] exI [of _ ?s]) (intro conjI allI impI; assumption?)
qed

text \<open>A small codec: runs of a thousand zeroes compress to one byte, all else grows by one.\<close>

definition toy_compress :: compressor where
  "toy_compress rec = Ok (if rec = replicate 1000 0 then [9] else rec @ [0])"

definition toy_stream :: zstd_stream where
  "toy_stream c dict = Some (if c = [9] then (replicate 1000 0, True) else (butlast c, True))"

lemma toy_inverts: "codec_inverts (Libzstd toy_stream) dict toy_compress"
  by (auto simp: codec_inverts_def stream_inverts_def toy_compress_def toy_stream_def)

lemma records_zstd_roundtrip_witness:
  "\<exists>bin idx s. write_records_zstd (\<lambda>_ _. Ok toy_compress) [[7], [], replicate 1000 0] [1, 2] 3 = Ok (bin, idx)
    \<and> rs_open_with_dict (mem_read U32 (mem_new idx)) (mem_read U32 (mem_new bin)) [1, 2] = Ok s
    \<and> rs_get_many U32 (Libzstd toy_stream) s [2, 0, 1] = Ok [Some (replicate 1000 0), Some [7], Some []]"
proof -
  define z :: bytes where "z = replicate 1000 0"
  let ?rs = "[[7], [], z]"
  have "length z = 1000" by (simp only: z_def length_replicate)
  then have "\<forall>r \<in> set ?rs. (r \<noteq> [] \<longrightarrow> (\<exists>c. toy_compress r = Ok c)) \<and> length r \<le> max_decompressed"
    "length (concat ?rs) + 24 + length ?rs * 9 < U32"
    by (simp_all add: toy_compress_def max_decompressed_def)
  from records_zstd_roundtrip [of "\<lambda>_ _. Ok toy_compress" 3 "[1, 2]" toy_compress "Libzstd toy_stream" ?rs U32, OF refl toy_inverts this(1) _ this(2)]
  obtain bin idx s where s: "write_records_zstd (\<lambda>_ _. Ok toy_compress) ?rs [1, 2] 3 = Ok (bin, idx)"
    "rs_open_with_dict (mem_read U32 (mem_new idx)) (mem_read U32 (mem_new bin)) [1, 2] = Ok s"
    "\<forall>s'. rs_reaches U32 (\<lambda>b. prefix b idx) s s' \<longrightarrow>
       (\<forall>ids. rs_get_many U32 (Libzstd toy_stream) s' ids = Ok (map (record_at ?rs) ids))"
    by auto
  have "rs_get_many U32 (Libzstd toy_stream) s [2, 0, 1] = Ok (map (record_at ?rs) [2, 0, 1])"
    using s(3) by blast
  then have "rs_get_many U32 (Libzstd toy_stream) s [2, 0, 1] = Ok [Some z, Some [7], Some []]"
    by (simp add: record_at_def)
  then show ?thesis using s(1,2) unfolding z_def by blast
qed

text \<open>
  The writer accepts a record that the reader refuses: when a record above 64 MiB shrinks under
  compression, \<open>write_records_zstd\<close> stores its frame without complaint, and \<open>get\<close> of that record
  fails with the size-cap error although the frame is intact.
\<close>

lemma oversized_record_unreadable:
  assumes "with_dictionary level dict = Ok compress" "codec_inverts codec dict compress"
    and "\<forall>r \<in> set records. r \<noteq> [] \<longrightarrow> (\<exists>c. compress r = Ok c)"
    and "length records < U32" "length (concat records) + 24 + length records * 9 < um" "um \<le> U64"
    and "i < length records" "max_decompressed < length (records ! i)"
    and "compress (records ! i) = Ok c" "length c < length (records ! i)"
  shows "\<exists>bin idx s. write_records_zstd with_dictionary records dict level = Ok (bin, idx)
    \<and> rs_open_with_dict (mem_read um (mem_new idx)) (mem_read um (mem_new bin)) dict = Ok s
    \<and> rs_get um codec s i = Err (Malformed ''decompressed record exceeds size cap'')"
proof -
  obtain xs where frames: "list_all2 (\<lambda>r x. stored_form (Some compress) r = Ok x) records xs"
    and total: "length (concat xs) \<le> length (concat records) + length records"
    using frames_exist [of records compress] assms(3) by auto
  have len: "length records = length xs" using frames by (simp add: list_all2_lengthD)
  let ?s = "opened um 2 (Some dict) xs"
  have lens: "length (concat xs) < um" "24 + length xs * 8 < um" "length (concat xs) < U64"
    using assms(5,6) total len by simp_all
  have fr: "frame_zstd compress (records ! i) = Ok (xs ! i)"
    using list_all2_nthD [OF frames assms(7)] by (simp add: stored_form_def)
  have "records ! i \<noteq> []" using assms(8) by auto
  then have "xs ! i = tag_zstd_dict # c" using fr assms(9,10) by (simp add: frame_zstd_def)
  then have "hd (xs ! i) = tag_zstd_dict" by simp
  then have "rs_decode codec ?s (xs ! i) = Err (Malformed ''decompressed record exceeds size cap'')"
    using decode_frame [OF fr assms(2), of ?s] assms(8) by (simp add: opened_def)
  then have "rs_get um codec ?s i = map_ok Some (Err (Malformed ''decompressed record exceeds size cap''))"
    using stored_get [of xs um ?s 2 "length xs" i codec "Err (Malformed ''decompressed record exceeds size cap'')"]
      lens assms(6,7) len by (simp add: opened_def)
  moreover have "rs_open_with_dict (mem_read um (mem_new (idx_of 2 (length xs) xs))) (mem_read um (mem_new (concat xs))) dict = Ok ?s"
    using opened_from_files [of 2 xs um] assms(4) len lens(2)
    by (simp add: rs_open_with_dict_def rs_with_dict_def opened_def)
  ultimately show ?thesis
    using write_records_zstd_written [of with_dictionary level dict compress records xs] assms(1,4) frames lens(3)
    by (intro exI [of _ "concat xs"] exI [of _ "idx_of 2 (length xs) xs"] exI [of _ ?s]) simp
qed

text \<open>A codec that packs any run of zeroes into its length.\<close>

definition run_compress :: compressor where
  "run_compress rec = Ok (if rec = replicate (length rec) 0 then to_le 8 (length rec) @ [1] else rec @ [0])"

definition run_stream :: zstd_stream where
  "run_stream c dict = (if c = [] then None
     else if last c = 1 then Some (replicate (from_le (butlast c)) 0, True) else Some (butlast c, True))"

definition run_or_fail :: compressor where
  "run_or_fail rec = (if length rec < U64 then run_compress rec else Err ''too long'')"

lemma run_inverts: "codec_inverts (Libzstd run_stream) dict run_or_fail"
  by (auto simp: codec_inverts_def stream_inverts_def run_or_fail_def run_compress_def run_stream_def from_le_to_le butlast_append
      split: if_split_asm)

lemma oversized_record_unreadable_witness:
  "\<exists>bin idx s. write_records_zstd (\<lambda>_ _. Ok run_or_fail) [[5], replicate (max_decompressed + 1) 0] [] 3 = Ok (bin, idx)
    \<and> rs_open_with_dict (mem_read U32 (mem_new idx)) (mem_read U32 (mem_new bin)) [] = Ok s
    \<and> rs_get U32 (Libzstd run_stream) s 1 = Err (Malformed ''decompressed record exceeds size cap'')"
proof -
  define big :: bytes where "big = replicate (max_decompressed + 1) 0"
  have big: "length big = 67108865" by (simp add: big_def max_decompressed_def)
  have "big = replicate (length big) 0" unfolding big_def by (simp only: length_replicate)
  then have cbig: "run_or_fail big = Ok (to_le 8 67108865 @ [1])"
    unfolding run_or_fail_def run_compress_def using big by simp
  have c5: "\<exists>c. run_or_fail [5] = Ok c" by (simp add: run_or_fail_def run_compress_def)
  show ?thesis
    unfolding big_def [symmetric]
    by (rule oversized_record_unreadable [OF refl run_inverts _ _ _ _ _ _ , where c = "to_le 8 67108865 @ [1]"])
      (use big cbig c5 in \<open>simp_all add: max_decompressed_def\<close>)
qed

end
