(* ===== verification/RR_Catalog.thy ===== *)
theory RR_Catalog imports RR_Facet_Exact RR_Cursor RR_Records begin

text \<open>
  The facade over the readers, \<open>rust/src/catalog.rs\<close>: a text index with an optional facet sidecar
  and an optional record store behind one \<open>search\<close>.  An opened reader is what its component opens,
  together with the fetcher its later reads go to.

  Shown: over written files a search returns the page of the documents the query and the filter
  describe, their records, and the counts of every category within the head of the result.
\<close>

section \<open>The catalog\<close>

record catalog =
  ct_fetch :: range_read
  ct_index :: index
  ct_facets :: "(range_read \<times> facet_field list) option"
  ct_records :: "record_store option"

record search_page =
  sp_ids :: "nat list"
  sp_records :: "bytes option list option"
  sp_facet_counts :: "nat list list option"

definition catalog_open :: "nat \<Rightarrow> range_read \<Rightarrow> catalog ires" where
  "catalog_open um f =
     map_ok (\<lambda>ix. \<lparr>ct_fetch = f, ct_index = ix, ct_facets = None, ct_records = None\<rparr>) (index_open um f)"

definition catalog_load_facets :: "nat \<Rightarrow> deserializer \<Rightarrow> range_read \<Rightarrow> catalog \<Rightarrow> catalog ires" where
  "catalog_load_facets um deser ff c =
     map_ok (\<lambda>fds. c\<lparr>ct_facets := Some (ff, fds)\<rparr>) (facet_open um deser ff)"

definition catalog_load_records :: "range_read \<Rightarrow> range_read \<Rightarrow> catalog \<Rightarrow> catalog ires" where
  "catalog_load_records idx bin c = map_ok (\<lambda>s. c\<lparr>ct_records := Some s\<rparr>) (rs_open idx bin)"

definition catalog_load_records_dict :: "range_read \<Rightarrow> range_read \<Rightarrow> bytes \<Rightarrow> catalog \<Rightarrow> catalog ires" where
  "catalog_load_records_dict idx bin dict c =
     map_ok (\<lambda>s. c\<lparr>ct_records := Some s\<rparr>) (rs_open_with_dict idx bin dict)"

definition catalog_fields :: "catalog \<Rightarrow> facet_field list" where
  "catalog_fields c = (case ct_facets c of Some (_, fds) \<Rightarrow> fds | None \<Rightarrow> [])"

text \<open>The fetcher a resolved filter carries; without a sidecar nothing is resolved and nothing is read.\<close>

definition filter_fetch :: "range_read \<Rightarrow> (range_read \<times> facet_field list) option \<Rightarrow> range_read" where
  "filter_fetch f facets = (case facets of Some (ff, _) \<Rightarrow> ff | None \<Rightarrow> f)"

definition catalog_search ::
  "nat \<Rightarrow> deserializer \<Rightarrow> zcodec \<Rightarrow> (uchar \<Rightarrow> general_category) \<Rightarrow> (uchar \<Rightarrow> ustring) \<Rightarrow> catalog
     \<Rightarrow> ustring \<Rightarrow> nat \<Rightarrow> nat \<Rightarrow> nat \<Rightarrow> filter_sel list \<Rightarrow> search_page ires" where
  "catalog_search um deser codec gc lower c query offset limit max_missing sels =
     (let resolved = (case ct_facets c of
            Some (_, fds) \<Rightarrow> if sels \<noteq> [] then Some (resolve_sels fds sels) else None | None \<Rightarrow> None);
          ff = filter_fetch (ct_fetch c) (ct_facets c) in
      bind_o (search_cursor_query um deser gc lower (ct_fetch c) ff (ct_index c) query max_missing resolved) (\<lambda>cursor.
      let (r, cursor) = cursor_page um deser (ct_fetch c) ff offset limit cursor in
      bind_o r (\<lambda>ids.
      bind_o (case ct_records c of Some store \<Rightarrow> map_ok Some (rs_get_many um codec store ids) | None \<Rightarrow> Ok None) (\<lambda>records.
      Ok \<lparr>sp_ids = ids, sp_records = records,
         sp_facet_counts = map_option (\<lambda>(_, fds). facet_counts fds (cu_head cursor)) (ct_facets c)\<rparr>))))"

section \<open>A page keeps what the cursor had\<close>

text \<open>Steps that never take back a result.\<close>

definition grows :: "(cursor, 'a) step \<Rightarrow> bool" where
  "grows m \<longleftrightarrow> (\<forall>cu. prefix (cu_results cu) (cu_results (snd (m cu))))"

named_theorems grow_intros "steps that never take back a result"

lemma grows_lift [grow_intros]: "grows (step_lift r)" "grows (step_return x)"
  by (simp_all add: grows_def step_lift_def step_return_def)

lemma grows_modify: "(\<And>cu. prefix (cu_results cu) (cu_results (f cu))) \<Longrightarrow> grows (step_modify f)"
  by (simp add: grows_def step_modify_def)

lemma grows_modifies [grow_intros]:
  "grows (step_modify (extend_results win))"
  "grows (step_modify (\<lambda>cu. cu\<lparr>cu_tail_done := b cu\<rparr>))"
  "grows (step_modify (\<lambda>cu. cu\<lparr>cu_scan := sc cu\<rparr>))"
  "grows (step_modify (\<lambda>cu. cu\<lparr>cu_scan := sc cu, cu_tried := t cu\<rparr>))"
  "grows (step_modify (\<lambda>cu. cu\<lparr>cu_tail_done := b cu, cu_scan := sc cu\<rparr>))"
  by (rule grows_modify; simp add: extend_results_def)+

lemma grows_bind [grow_intros]:
  assumes "grows m" "\<And>x. grows (k x)"
  shows "grows (step_bind m k)"
  unfolding grows_def
proof
  fix cu
  obtain r cu' where m: "m cu = (r, cu')" by fastforce
  have 1: "prefix (cu_results cu) (cu_results cu')" using assms(1) m unfolding grows_def by (metis snd_conv)
  have "prefix (cu_results cu') (cu_results (snd (k x cu')))" for x using assms(2) unfolding grows_def by blast
  with 1 show "prefix (cu_results cu) (cu_results (snd (step_bind m k cu)))"
    by (cases r) (auto simp: step_bind_def m intro: prefix_order.trans)
qed

lemma grows_gets [grow_intros]: "(\<And>s. grows (f s)) \<Longrightarrow> grows (step_gets f)"
  by (simp add: grows_def step_gets_def)

lemma grows_if [grow_intros]: "grows m \<Longrightarrow> grows n \<Longrightarrow> grows (if b then m else n)"
  by simp

lemma grows_scan_windows [grow_intros]: "grows (scan_windows um deser f ff need start left scan)"
proof (induction left arbitrary: scan)
  case 0
  show ?case unfolding scan_windows.simps by (intro grow_intros)
next
  case (Suc left)
  show ?case unfolding scan_windows.simps case_prod_unfold by (intro grow_intros Suc.IH)
qed

lemma grows_ensure: "grows (ensure um deser f ff need)"
proof -
  have w: "grows (whole_tail um deser f ff)"
    unfolding whole_tail_def Let_def by (intro grow_intros)
  have d: "grows (drive_scan um deser f ff need scan)" for scan
    unfolding drive_scan_def by (intro grow_intros)
  have o: "grows (open_scan um f ff)"
    unfolding open_scan_def Let_def by (intro grow_intros)
  have "grows (case s of None \<Rightarrow> whole_tail um deser f ff | Some scan \<Rightarrow> drive_scan um deser f ff need scan)" for s
    using w d by (cases s) simp_all
  then show ?thesis unfolding ensure_def by (intro grow_intros w o)
qed

lemma page_grows:
  assumes "cursor_page um deser f ff offset limit cu = (r, cu')"
  shows "length (cu_results cu) \<le> length (cu_results cu')"
proof -
  have "grows (cursor_page um deser f ff offset limit)"
    unfolding cursor_page_def Let_def by (intro grow_intros grows_ensure)
  then show ?thesis using assms unfolding grows_def by (metis prefix_length_le snd_conv)
qed

lemma fresh_cursor_unscanned:
  "search_cursor_filtered um deser f ff ix keys max_missing flt = Ok cu \<Longrightarrow> cu_scan cu = None"
  by (auto simp: search_cursor_filtered_def cursor_empty_def Let_def bind_o_Ok_iff split: if_split_asm)

section \<open>A cursor over written files\<close>

text \<open>The documents a query and its selections describe.\<close>

definition described ::
  "(nat \<times> nat set) list \<Rightarrow> facet_map \<Rightarrow> nat list \<Rightarrow> nat \<Rightarrow> filter_sel list \<Rightarrow> nat set" where
  "described postings facets keys max_missing sels =
     {d \<in> found_docs (map_of postings) keys (max 1 (length keys - max_missing)). chosen facets sels d}"

text \<open>
  Over the index \<open>f\<close> and the sidecar \<open>ff\<close> a search opens a cursor of the documents \<open>M\<close>: its first
  page is a slice of their ascending list of which at least the head is loaded, it keeps the head
  bitmap, and its pages stay slices after any calls.
\<close>

definition serves_search ::
  "nat \<Rightarrow> deserializer \<Rightarrow> range_read \<Rightarrow> range_read \<Rightarrow> index \<Rightarrow> nat list \<Rightarrow> nat \<Rightarrow> filter_spec option \<Rightarrow> nat set \<Rightarrow> bool" where
  "serves_search um deser f ff ix keys max_missing flt M \<longleftrightarrow>
     (\<exists>cu. search_cursor_filtered um deser f ff ix keys max_missing flt = Ok cu \<and> cu_pos cu = 0
        \<and> card {d \<in> M. d < 65536} \<le> loaded cu
        \<and> (\<forall>offset limit. offset < um \<longrightarrow> (\<exists>l cu'. card {d \<in> M. d < 65536} \<le> l \<and> l \<le> card M
             \<and> cursor_page um deser f ff offset limit cu
                 = (Ok (cut (sorted_list_of_set M) (min offset l) (min (sat_add um offset limit) l)), cu')
             \<and> cu_head cu' = {d \<in> M. d < 65536}))
        \<and> (card M + 1 < um \<longrightarrow> (\<forall>cu'. cursor_reach um deser f ff cu cu' \<longrightarrow> slices um deser f ff M cu')))"

lemma head_loaded:
  assumes sc: "scan_store f bs lim deser ser ff fbs flim" and inv: "scan_store.cursor_inv bs lim um fbs flim cont ts M cu"
    and fresh: "search_cursor_filtered um deser f ff ix keys max_missing flt = Ok cu"
  shows "card {d \<in> M. d < 65536} \<le> loaded cu"
proof (cases "pending_tail cu")
  case True
  then have "cu_results cu = sorted_list_of_set {d \<in> M. d < 65536}"
    using inv fresh_cursor_unscanned [OF fresh] by (simp add: scan_store.cursor_inv_def [OF sc])
  then show ?thesis by (simp add: loaded_def)
next
  case False
  then have "cu_results cu = sorted_list_of_set M" "finite M" using inv by (simp_all add: scan_store.cursor_inv_def [OF sc])
  then show ?thesis by (simp add: card_mono loaded_def)
qed

lemma page_served:
  assumes sc: "scan_store f bs lim deser ser ff fbs flim" and inv: "scan_store.cursor_inv bs lim um fbs flim cont ts M cu"
    and fresh: "search_cursor_filtered um deser f ff ix keys max_missing flt = Ok cu"
    and um: "65536 + tail_key_batch < um" and off: "offset < um"
  shows "\<exists>l cu'. card {d \<in> M. d < 65536} \<le> l \<and> l \<le> card M
    \<and> cursor_page um deser f ff offset limit cu
        = (Ok (cut (sorted_list_of_set M) (min offset l) (min (sat_add um offset limit) l)), cu')
    \<and> cu_head cu' = {d \<in> M. d < 65536}"
proof -
  obtain cu' where page: "cursor_page um deser f ff offset limit cu
      = (Ok (cut (sorted_list_of_set M) (min offset (loaded cu')) (min (sat_add um offset limit) (loaded cu'))), cu')"
    and inv': "scan_store.cursor_inv bs lim um fbs flim cont ts M cu'"
    using scan_store.page_ok [OF sc inv um off] by blast
  have "loaded cu \<le> loaded cu'" using page_grows [OF page] by (simp add: loaded_def)
  then have "card {d \<in> M. d < 65536} \<le> loaded cu'" using head_loaded [OF sc inv fresh] by simp
  moreover have "loaded cu' \<le> card M" using scan_store.results_prefix(2) [OF sc inv'] by (simp add: loaded_def)
  moreover have "cu_head cu' = {d \<in> M. d < 65536}" using inv' by (simp add: scan_store.cursor_inv_def [OF sc])
  ultimately show ?thesis using page by blast
qed

lemma written_search_served:
  assumes ro: "roaring deser ser" and ix: "indexable ser um gram stride postings"
  obtains bytes ix where "write_index_with gram stride (posting_entries ser postings) cn = Ok bytes"
    "index_open um (mem_read um (mem_new bytes)) = Ok ix" "ix_gram ix = gram" "ix_fold ix = cn"
    "\<And>fbs cont keys max_missing flt. length fbs + span_gap < um \<Longrightarrow> opt_stored fbs cont flt \<Longrightarrow>
       serves_search um deser (mem_read um (mem_new bytes)) (mem_read um (mem_new fbs)) ix keys max_missing flt
         (cursor_result (map_of postings) cont keys max_missing flt)"
proof -
  obtain bytes ix dict sels where w: "write_index_with gram stride (posting_entries ser postings) cn = Ok bytes"
    "index_open um (mem_read um (mem_new bytes)) = Ok ix" "ix_gram ix = gram" "ix_fold ix = cn"
    "posting_store (mem_read um (mem_new bytes)) bytes um deser ser" "posting_store.serves bytes um um dict sels ix"
    "\<And>k. RR_Index.docs_of dict sels k = map_of postings k"
    using written_serves [OF ro ix, of cn] by metis
  have um: "um \<le> U64" "65536 + tail_key_batch < um" using assms(2) by (simp_all add: indexable_def)
  show thesis
  proof (rule that [OF w(1-4)])
    fix fbs cont keys max_missing flt
    assume fbs: "length fbs + span_gap < um" "opt_stored fbs cont flt"
    have fs: "posting_store (mem_read um (mem_new fbs)) fbs um deser ser"
      by (intro posting_store.intro memf.full_fetch_axioms ro)
    have sc: "scan_store (mem_read um (mem_new bytes)) bytes um deser ser (mem_read um (mem_new fbs)) fbs um"
      by (intro scan_store.intro w(5) fs)
    have "case flt of None \<Rightarrow> True | Some fl \<Rightarrow> posting_store.filter_holds fbs um um cont fl"
      using filter_stored_holds [OF fs fbs(1) um(1)] fbs(2) by (auto simp: opt_stored_def split: option.splits)
    from scan_store.search_cursor_ok [OF sc w(6) this, of keys max_missing]
    obtain cu ts where cu: "search_cursor_filtered um deser (mem_read um (mem_new bytes)) (mem_read um (mem_new fbs)) ix keys max_missing flt = Ok cu"
      "scan_store.cursor_inv bytes um um fbs um cont ts (cursor_result (map_of postings) cont keys max_missing flt) cu" "cu_pos cu = 0"
      unfolding w(7) by blast
    have "slices um deser (mem_read um (mem_new bytes)) (mem_read um (mem_new fbs)) (cursor_result (map_of postings) cont keys max_missing flt) cu'"
      if "card (cursor_result (map_of postings) cont keys max_missing flt) + 1 < um"
        "cursor_reach um deser (mem_read um (mem_new bytes)) (mem_read um (mem_new fbs)) cu cu'" for cu'
      using inv_slices [OF sc scan_store.reach_inv [OF sc that(2) cu(2) um(2) that(1)] um(2)] that(1) by simp
    then show "serves_search um deser (mem_read um (mem_new bytes)) (mem_read um (mem_new fbs)) ix keys max_missing flt
         (cursor_result (map_of postings) cont keys max_missing flt)"
      using page_served [OF sc cu(2,1) um(2)] head_loaded [OF sc cu(2,1)] cu(1,3) unfolding serves_search_def by blast
  qed
qed

lemma chosen_nothing [simp]: "chosen facets [] d"
  by (simp add: chosen_def)

text \<open>With the selections resolved against the opened sidecar the result is what they describe.\<close>

lemma selected_search_served:
  assumes ro: "roaring deser ser" and ix: "indexable ser um gram stride postings"
    and ok: "facet_map_ok facets" and op: "open_facets flower fcn ser fbs facets fds" and fbs: "length fbs + span_gap < um"
  obtains bytes ix where "write_index_with gram stride (posting_entries ser postings) cn = Ok bytes"
    "index_open um (mem_read um (mem_new bytes)) = Ok ix" "ix_gram ix = gram" "ix_fold ix = cn"
    "\<And>keys max_missing sels. serves_search um deser (mem_read um (mem_new bytes)) (mem_read um (mem_new fbs)) ix keys max_missing
       (if sels = [] then None else Some (resolve_sels fds sels)) (described postings facets keys max_missing sels)"
proof -
  obtain bytes ix where w: "write_index_with gram stride (posting_entries ser postings) cn = Ok bytes"
    "index_open um (mem_read um (mem_new bytes)) = Ok ix" "ix_gram ix = gram" "ix_fold ix = cn"
    "\<And>cont keys max_missing flt. opt_stored fbs cont flt \<Longrightarrow>
       serves_search um deser (mem_read um (mem_new bytes)) (mem_read um (mem_new fbs)) ix keys max_missing flt
         (cursor_result (map_of postings) cont keys max_missing flt)"
    using written_search_served [OF ro ix, of cn] fbs by metis
  show thesis
  proof (rule that [OF w(1-4)])
    fix keys max_missing sels
    let ?flt = "if sels = [] then None else Some (resolve_sels fds sels)"
    obtain cont where cont: "filter_stored fbs cont (resolve_sels fds sels)"
      "\<forall>d. passes cont (resolve_sels fds sels) d \<longleftrightarrow> chosen facets sels d"
      using roaring.resolved_filter [OF ro ok op] by blast
    have "opt_stored fbs cont ?flt" using cont(1) by (simp add: opt_stored_def)
    moreover have "cursor_result (map_of postings) cont keys max_missing ?flt = described postings facets keys max_missing sels"
      using cont(2) by (auto simp: cursor_result_def described_def opt_passes_def)
    ultimately show "serves_search um deser (mem_read um (mem_new bytes)) (mem_read um (mem_new fbs)) ix keys max_missing ?flt
        (described postings facets keys max_missing sels)"
      using w(5) by metis
  qed
qed

text \<open>With every head resident, counting within a head result is exact.\<close>

lemma resident_counts:
  assumes ok: "facet_map_ok facets" and op: "open_facets flower fcn ser bs facets fds"
    and heads: "\<forall>i < length fds. \<forall>j < length (fd_cats (fds ! i)).
       ca_head (cat_at fds (i, j)) = RR_Facet_Store.docs_of facets (fd_name (fds ! i)) (ca_name (cat_at fds (i, j))) \<inter> {..<65536}"
    and H: "H \<subseteq> {..<65536}"
  shows "facet_counts fds H = map (\<lambda>(f, cats). map (\<lambda>(_, S). card (H \<inter> S)) (facet_order flower fcn f cats)) facets"
proof (rule nth_equalityI)
  have len: "length fds = length facets" using op by (simp add: open_facets_def list_all2_lengthD)
  then show "length (facet_counts fds H) = length (map (\<lambda>(f, cats). map (\<lambda>(_, S). card (H \<inter> S)) (facet_order flower fcn f cats)) facets)"
    by (simp add: facet_counts_def)
  fix i assume "i < length (facet_counts fds H)"
  then have i: "i < length fds" "i < length facets" using len by (simp_all add: facet_counts_def)
  obtain f cats where fc: "facets ! i = (f, cats)" by fastforce
  let ?cs = "fd_cats (fds ! i)" and ?o = "facet_order flower fcn f cats"
  have rel: "fd_name (fds ! i) = f" "list_all2 (\<lambda>(n, S) c. ca_name c = n \<and> cat_stored ser bs S c) ?o ?cs"
    using list_all2_nthD [OF op [unfolded open_facets_def] i(2)] by (simp_all add: fc)
  have "map (\<lambda>c. card (H \<inter> ca_head c)) ?cs = map (\<lambda>(_, S). card (H \<inter> S)) ?o"
  proof (rule nth_equalityI)
    show l: "length (map (\<lambda>c. card (H \<inter> ca_head c)) ?cs) = length (map (\<lambda>(_, S). card (H \<inter> S)) ?o)"
      using list_all2_lengthD [OF rel(2)] by simp
    fix j assume "j < length (map (\<lambda>c. card (H \<inter> ca_head c)) ?cs)"
    then have j: "j < length ?cs" "j < length ?o" using l by simp_all
    obtain n S where nS: "?o ! j = (n, S)" by fastforce
    have "(n, S) \<in> set cats" using nth_mem [OF j(2)] nS by simp
    moreover have "(f, cats) \<in> set facets" using nth_mem [OF i(2)] fc by simp
    ultimately have S: "RR_Facet_Store.docs_of facets f n = S"
      using ok by (force simp: RR_Facet_Store.docs_of_def facet_map_ok_def map_of_eq_Some_iff)
    have "ca_name (?cs ! j) = n" using list_all2_nthD [OF rel(2) j(2)] nS by simp
    then have "ca_head (?cs ! j) = S \<inter> {..<65536}" using heads i(1) j(1) rel(1) S by (simp add: cat_at_def)
    moreover have "H \<inter> (S \<inter> {..<65536}) = H \<inter> S" using H by blast
    ultimately show "map (\<lambda>c. card (H \<inter> ca_head c)) ?cs ! j = map (\<lambda>(_, S). card (H \<inter> S)) ?o ! j" using j nS by simp
  qed
  then show "facet_counts fds H ! i = map (\<lambda>(f, cats). map (\<lambda>(_, S). card (H \<inter> S)) (facet_order flower fcn f cats)) facets ! i"
    using i fc by (simp add: facet_counts_def)
qed

section \<open>Properties\<close>

text \<open>
  C33: A search of a catalog over written files returns the page of the documents that enough of
  the query's n-grams occur in and that the facet selections choose, in rank order, cut from what
  the cursor has loaded, which is at least the whole head; with each document its record, and for
  every category the number of head results it holds.  The sidecar is within the 24 MiB that are
  loaded eagerly, so that its heads are resident when the search counts.
\<close>

theorem catalog_search_exact:
  fixes gc lower query cn max_missing sels
  assumes "roaring deser ser" "indexable ser um gram stride postings" "facet_map_ok facets" "facet_names_len facets < U32"
    and "write_facets_with flower (facet_fields ser facets 65536) fcn = Ok fbs" "length fbs + span_gap < um" "length fbs \<le> eager_region_limit"
    and "length records < U32" "length (concat records) + 24 + length records * 8 < um" "offset < um"
  defines "keys \<equiv> map unat (ngram_keys_with gc lower query gram cn)"
  defines "M \<equiv> described postings facets keys max_missing sels"
  shows "\<exists>ibs bin idx c0 c1 c. write_index_with gram stride (posting_entries ser postings) cn = Ok ibs
    \<and> write_records records = Ok (bin, idx)
    \<and> catalog_open um (mem_read um (mem_new ibs)) = Ok c0
    \<and> catalog_load_facets um deser (mem_read um (mem_new fbs)) c0 = Ok c1
    \<and> catalog_load_records (mem_read um (mem_new idx)) (mem_read um (mem_new bin)) c1 = Ok c
    \<and> (\<exists>l. card {d \<in> M. d < 65536} \<le> l \<and> l \<le> card M
        \<and> (let ids = cut (sorted_list_of_set M) (min offset l) (min (sat_add um offset limit) l) in
           catalog_search um deser codec gc lower c query offset limit max_missing sels
             = Ok \<lparr>sp_ids = ids, sp_records = Some (map (record_at records) ids),
                  sp_facet_counts = Some (map (\<lambda>(f, cats). map (\<lambda>(_, S). card ({d \<in> M. d < 65536} \<inter> S))
                    (facet_order flower fcn f cats)) facets)\<rparr>))"
proof -
  let ?ff = "mem_read um (mem_new fbs)" and ?H = "{d \<in> M. d < 65536}"
  have um: "um \<le> U64" using assms(2) by (simp add: indexable_def)
  have fu: "length fbs < um" using assms(6) by simp
  obtain fds where fds: "facet_open um deser ?ff = Ok fds" "open_facets flower fcn ser fbs facets fds"
    "\<forall>i < length fds. \<forall>j < length (fd_cats (fds ! i)).
       ca_head (cat_at fds (i, j)) = RR_Facet_Store.docs_of facets (fd_name (fds ! i)) (ca_name (cat_at fds (i, j))) \<inter> {..<65536}"
    using roaring.facets_opened [OF assms(1,5,3,4) fu um, of eager_region_limit lazy_top_n] assms(7) unfolding facet_open_def by blast
  obtain ibs ix where w: "write_index_with gram stride (posting_entries ser postings) cn = Ok ibs"
    "index_open um (mem_read um (mem_new ibs)) = Ok ix" "ix_gram ix = gram" "ix_fold ix = cn"
    "serves_search um deser (mem_read um (mem_new ibs)) ?ff ix keys max_missing
       (if sels = [] then None else Some (resolve_sels fds sels)) M"
    unfolding M_def using selected_search_served [OF assms(1,2,3) fds(2) assms(6), of cn] by metis
  obtain bin idx st where rec: "write_records records = Ok (bin, idx)"
    "rs_open (mem_read um (mem_new idx)) (mem_read um (mem_new bin)) = Ok st"
    "\<And>ids. rs_get_many um codec st ids = Ok (map (record_at records) ids)"
    using records_roundtrip [OF assms(8,9) um, of codec] by blast
  define c where "c = \<lparr>ct_fetch = mem_read um (mem_new ibs), ct_index = ix, ct_facets = Some (?ff, fds), ct_records = Some st\<rparr>"
  obtain cu l cu' where cu: "search_cursor_filtered um deser (mem_read um (mem_new ibs)) ?ff ix keys max_missing
       (if sels = [] then None else Some (resolve_sels fds sels)) = Ok cu"
    "card ?H \<le> l" "l \<le> card M"
    "cursor_page um deser (mem_read um (mem_new ibs)) ?ff offset limit cu
       = (Ok (cut (sorted_list_of_set M) (min offset l) (min (sat_add um offset limit) l)), cu')" "cu_head cu' = ?H"
    using w(5) assms(10) unfolding serves_search_def by blast
  have counts: "facet_counts fds ?H = map (\<lambda>(f, cats). map (\<lambda>(_, S). card (?H \<inter> S)) (facet_order flower fcn f cats)) facets"
    by (rule resident_counts [OF assms(3) fds(2,3)]) auto
  have "query_keys gc lower ix query = keys" by (simp add: query_keys_def keys_def w(3,4))
  moreover have "(if sels \<noteq> [] then Some (resolve_sels fds sels) else None) = (if sels = [] then None else Some (resolve_sels fds sels))"
    by simp
  ultimately have "catalog_search um deser codec gc lower c query offset limit max_missing sels
      = Ok \<lparr>sp_ids = cut (sorted_list_of_set M) (min offset l) (min (sat_add um offset limit) l),
           sp_records = Some (map (record_at records) (cut (sorted_list_of_set M) (min offset l) (min (sat_add um offset limit) l))),
           sp_facet_counts = Some (facet_counts fds ?H)\<rparr>"
    using cu by (simp only: catalog_search_def c_def catalog.simps option.case case_prod_conv filter_fetch_def Let_def search_cursor_query_def
        bind_o.simps rec(3) map_ok.simps option.map)
  then have search: "catalog_search um deser codec gc lower c query offset limit max_missing sels
      = Ok \<lparr>sp_ids = cut (sorted_list_of_set M) (min offset l) (min (sat_add um offset limit) l),
           sp_records = Some (map (record_at records) (cut (sorted_list_of_set M) (min offset l) (min (sat_add um offset limit) l))),
           sp_facet_counts = Some (map (\<lambda>(f, cats). map (\<lambda>(_, S). card (?H \<inter> S)) (facet_order flower fcn f cats)) facets)\<rparr>"
    unfolding counts .
  let ?c0 = "\<lparr>ct_fetch = mem_read um (mem_new ibs), ct_index = ix, ct_facets = None, ct_records = None\<rparr>"
  let ?c1 = "?c0\<lparr>ct_facets := Some (?ff, fds)\<rparr>"
  show ?thesis
    unfolding Let_def
  proof (intro exI conjI)
    show "catalog_open um (mem_read um (mem_new ibs)) = Ok ?c0" using w(2) by (simp only: catalog_open_def map_ok.simps)
    show "catalog_load_facets um deser ?ff ?c0 = Ok ?c1" using fds(1) by (simp only: catalog_load_facets_def map_ok.simps)
    show "catalog_load_records (mem_read um (mem_new idx)) (mem_read um (mem_new bin)) ?c1 = Ok c"
      unfolding catalog_load_records_def rec(2) by (simp add: c_def)
  qed (rule w(1) rec(1) cu(2,3) search)+
qed

lemma catalog_search_exact_witness:
  "\<exists>ibs fbs bin idx c0 c1 c. write_index_with 2 0 (posting_entries format_encode [(unat (rune_ngram_key [0x61, 0x62]), {1, 70000})]) True = Ok ibs
    \<and> write_facets_with (\<lambda>s. s) (facet_fields format_encode demo_facet_map 65536) True = Ok fbs
    \<and> write_records [[5], [6, 7]] = Ok (bin, idx)
    \<and> catalog_open U32 (mem_read U32 (mem_new ibs)) = Ok c0
    \<and> catalog_load_facets U32 format_decode (mem_read U32 (mem_new fbs)) c0 = Ok c1
    \<and> catalog_load_records (mem_read U32 (mem_new idx)) (mem_read U32 (mem_new bin)) c1 = Ok c
    \<and> catalog_search U32 format_decode NoZstd ascii_gc ascii_lower c [0x61, 0x62] 0 1 0 []
        = Ok \<lparr>sp_ids = [1], sp_records = Some [Some [6, 7]], sp_facet_counts = Some [[0], []]\<rparr>"
proof -
  let ?k = "unat (rune_ngram_key [0x61, 0x62])" and ?query = "[0x61, 0x62] :: ustring"
  obtain fbs where fbs: "write_facets_with (\<lambda>s. s) (facet_fields format_encode demo_facet_map 65536) True = Ok fbs" "length fbs = 131"
    using demo_facet_written by blast
  have keys: "map unat (ngram_keys_with ascii_gc ascii_lower ?query 2 True) = [?k]"
  proof -
    have "split_whitespace ?query = [?query]" by (simp add: split_whitespace.simps is_whitespace_def)
    moreover have "normalize ascii_gc ascii_lower ?query True = ?query"
      by (simp add: normalize_def is_letter_or_digit_def ascii_gc_def ascii_lower_def to_lower_rune_def)
    ultimately show ?thesis by (simp add: ngram_keys_with_def windows_def cut_def Let_def)
  qed
  have M: "described [(?k, {1, 70000})] demo_facet_map [?k] 0 [] = {1, 70000}"
    by (auto simp: described_def found_docs_def)
  have H: "{d \<in> {1, 70000 :: nat}. d < 65536} = {1}" by auto
  have "unat (rune_ngram_key [0x61, 0x62]) < U64"
    using unsigned_less [of "rune_ngram_key [0x61, 0x62]", where 'a = nat] by simp
  then have ix: "indexable format_encode U32 2 0 [(?k, {1, 70000})]"
    using demo_encoded_lengths by (simp add: indexable_def span_gap_def tail_key_batch_def)
  have um: "length fbs + span_gap < U32" "length fbs \<le> eager_region_limit" "facet_names_len demo_facet_map < U32"
    "length (concat [[5], [6, 7 :: byte]]) + 24 + length [[5], [6, 7 :: byte]] * 8 < U32" "length [[5], [6, 7 :: byte]] < U32" "(0 :: nat) < U32"
    using fbs(2) demo_facet_map_ok(2) by (simp_all add: span_gap_def eager_region_limit_def)
  note ex = catalog_search_exact [where codec = NoZstd and gc = ascii_gc and lower = ascii_lower and query = ?query and cn = True
      and max_missing = 0 and sels = "[]" and limit = 1,
    OF format.roaring_axioms ix demo_facet_map_ok(1) um(3) fbs(1) um(1,2,5,4,6), unfolded keys M H]
  have counts: "map (\<lambda>(f, cats). map (\<lambda>(_, S). card ({1} \<inter> S)) (facet_order (\<lambda>s. s) True f cats)) demo_facet_map = [[0], []]"
    by (simp add: demo_facet_map_def facet_order_def)
  have l1: "cut (sorted_list_of_set {1, 70000}) (min 0 l) (min (sat_add U32 0 1) l) = [1 :: nat]" if "card {1 :: nat} \<le> l" for l
    using that by (simp add: sat_add_def cut_def min_def)
  have r1: "map (record_at [[5], [6, 7]]) [1] = [Some [6, 7 :: byte]]" by (simp add: record_at_def)
  obtain ibs bin idx c0 c1 c l where "write_index_with 2 0 (posting_entries format_encode [(?k, {1, 70000})]) True = Ok ibs"
    "write_records [[5], [6, 7]] = Ok (bin, idx)" "catalog_open U32 (mem_read U32 (mem_new ibs)) = Ok c0"
    "catalog_load_facets U32 format_decode (mem_read U32 (mem_new fbs)) c0 = Ok c1"
    "catalog_load_records (mem_read U32 (mem_new idx)) (mem_read U32 (mem_new bin)) c1 = Ok c" "card {1 :: nat} \<le> l"
    "let ids = cut (sorted_list_of_set {1, 70000}) (min 0 l) (min (sat_add U32 0 1) l) in
       catalog_search U32 format_decode NoZstd ascii_gc ascii_lower c ?query 0 1 0 []
         = Ok \<lparr>sp_ids = ids, sp_records = Some (map (record_at [[5], [6, 7]]) ids), sp_facet_counts = Some [[0], []]\<rparr>"
    using ex unfolding counts by blast
  then show ?thesis using fbs(1) unfolding l1 [OF \<open>card {1 :: nat} \<le> l\<close>] Let_def r1 by blast
qed

end
