(* ===== verification/RR_Secondary.thy ===== *)
theory RR_Secondary imports RR_Catalog RR_Sortcols begin

text \<open>
  The secondary order, \<open>rust/src/secondary.rs\<close>: a second text index over documents numbered in
  another rank order, a one-column permutation store that maps them back, and optionally a facet
  sidecar in the second numbering.  A \<open>SecondaryCursor\<close> is the inner cursor; its methods are steps
  of that state.

  Shown: pages over written files are the primary documents of the slices of the secondary result;
  a gather that fails after \<open>next\<close> has moved on loses a page.
\<close>

section \<open>The index\<close>

record secondary_index =
  sx_fetch :: range_read
  sx_index :: index
  sx_perm_fetch :: range_read
  sx_perm :: sort_cols
  sx_perm_col :: nat
  sx_facets :: "(range_read \<times> facet_field list) option"

definition secondary_open :: "nat \<Rightarrow> range_read \<Rightarrow> range_read \<Rightarrow> secondary_index ires" where
  "secondary_open um rrs perm =
     bind_o (index_open um rrs) (\<lambda>ix.
     bind_o (sc_open um perm) (\<lambda>sc.
     bind_o (ok_or (column_index sc primary_name) (Malformed ''secondary perm store missing the primary column'')) (\<lambda>col.
     Ok \<lparr>sx_fetch = rrs, sx_index = ix, sx_perm_fetch = perm, sx_perm = sc, sx_perm_col = col, sx_facets = None\<rparr>)))"

definition secondary_load_facets :: "nat \<Rightarrow> deserializer \<Rightarrow> range_read \<Rightarrow> secondary_index \<Rightarrow> secondary_index ires" where
  "secondary_load_facets um deser ff s =
     map_ok (\<lambda>fds. s\<lparr>sx_facets := Some (ff, fds)\<rparr>) (facet_open um deser ff)"

definition secondary_fields :: "secondary_index \<Rightarrow> facet_field list" where
  "secondary_fields s = (case sx_facets s of Some (_, fds) \<Rightarrow> fds | None \<Rightarrow> [])"

definition secondary_counts :: "secondary_index \<Rightarrow> nat set \<Rightarrow> nat list list option" where
  "secondary_counts s head = map_option (\<lambda>(_, fds). facet_counts fds head) (sx_facets s)"

definition secondary_filter :: "secondary_index \<Rightarrow> (rstring \<times> rstring) list \<Rightarrow> filter_spec option" where
  "secondary_filter s pairs =
     (case sx_facets s of Some (_, fds) \<Rightarrow> if pairs \<noteq> [] then Some (facet_resolve fds pairs) else None | None \<Rightarrow> None)"

definition secondary_search_filtered ::
  "nat \<Rightarrow> deserializer \<Rightarrow> (uchar \<Rightarrow> general_category) \<Rightarrow> (uchar \<Rightarrow> ustring) \<Rightarrow> secondary_index
     \<Rightarrow> ustring \<Rightarrow> nat \<Rightarrow> (rstring \<times> rstring) list \<Rightarrow> cursor ires" where
  "secondary_search_filtered um deser gc lower s query max_missing pairs =
     search_cursor_query um deser gc lower (sx_fetch s) (filter_fetch (sx_fetch s) (sx_facets s)) (sx_index s)
       query max_missing (secondary_filter s pairs)"

definition secondary_search ::
  "nat \<Rightarrow> deserializer \<Rightarrow> (uchar \<Rightarrow> general_category) \<Rightarrow> (uchar \<Rightarrow> ustring) \<Rightarrow> secondary_index
     \<Rightarrow> ustring \<Rightarrow> nat \<Rightarrow> cursor ires" where
  "secondary_search um deser gc lower s query max_missing =
     secondary_search_filtered um deser gc lower s query max_missing []"

section \<open>The cursor\<close>

text \<open>The gather of the primary documents: \<open>g\<close> is the permutation store's fetcher at that moment.\<close>

definition to_primary :: "nat \<Rightarrow> range_read \<Rightarrow> secondary_index \<Rightarrow> nat list \<Rightarrow> (cursor, (32 word) list) step" where
  "to_primary um g s secondary = step_lift (sc_values_u32 um g (sx_perm s) (sx_perm_col s) secondary)"

definition secondary_next ::
  "nat \<Rightarrow> deserializer \<Rightarrow> range_read \<Rightarrow> secondary_index \<Rightarrow> nat \<Rightarrow> (cursor, (32 word) list) step" where
  "secondary_next um deser g s n =
     step_bind (cursor_next um deser (sx_fetch s) (filter_fetch (sx_fetch s) (sx_facets s)) n) (to_primary um g s)"

definition secondary_page ::
  "nat \<Rightarrow> deserializer \<Rightarrow> range_read \<Rightarrow> secondary_index \<Rightarrow> nat \<Rightarrow> nat \<Rightarrow> (cursor, (32 word) list) step" where
  "secondary_page um deser g s offset limit =
     step_bind (cursor_page um deser (sx_fetch s) (filter_fetch (sx_fetch s) (sx_facets s)) offset limit) (to_primary um g s)"

definition secondary_load_tail ::
  "nat \<Rightarrow> deserializer \<Rightarrow> secondary_index \<Rightarrow> cursor \<Rightarrow> (unit ires \<times> cursor) option" where
  "secondary_load_tail um deser s = load_tail um deser (sx_fetch s) (filter_fetch (sx_fetch s) (sx_facets s))"

text \<open>The accessors pass through.\<close>

definition secondary_head_bitmap :: "cursor \<Rightarrow> nat set" where "secondary_head_bitmap = cu_head"
definition secondary_loaded :: "cursor \<Rightarrow> nat" where "secondary_loaded = loaded"
definition secondary_head_count :: "cursor \<Rightarrow> nat" where "secondary_head_count = head_count"
definition secondary_pending_tail :: "cursor \<Rightarrow> bool" where "secondary_pending_tail = pending_tail"

section \<open>Pairs are including selections\<close>

lemma facet_resolve_sels: "facet_resolve fds pairs = resolve_sels fds (map (\<lambda>(f, c). sel_include f c) pairs)"
proof -
  have "foldl (sel_step fds) (m, x) (map (\<lambda>(f, c). sel_include f c) pairs)
      = (foldl (\<lambda>m (fname, cname).
          btree_entry fname [] (add_found (map_option ca_range (find_category fds fname cname))) m) m pairs, x)" for m x
    by (induction pairs arbitrary: m) (auto simp: sel_step_def sel_include_def)
  then show ?thesis by (simp add: facet_resolve_def resolve_sels_def)
qed

section \<open>The permutation\<close>

lemma write_perm_opens:
  assumes w: "write_perm perm = Ok pbs" and len: "length perm < U32" and um: "length pbs < um" "um \<le> U64"
  obtains sc where "sc_open um (mem_read um (mem_new pbs)) = Ok sc" "column_index sc primary_name = Some 0"
    "sc_rows sc = length perm" "0 < length (sc_columns sc)" "ci_type (sc_columns sc ! 0) = U32T"
    "\<And>ids. \<forall>d \<in> set ids. d < length perm \<Longrightarrow>
       sc_values_u32 um (mem_read um (mem_new pbs)) sc 0 ids = Ok (map ((!) perm) ids)"
proof -
  let ?cols = "[\<lparr>so_name = primary_name, so_values = CU32 perm\<rparr>]"
  have w': "write_sortcols ?cols = Ok pbs" using w by (simp add: write_perm_def)
  have rows: "rows_of ?cols = length perm" by (simp add: rows_of_def cv_len_def)
  have name: "list_all scalar primary_name" by (simp add: primary_name_def scalar_def)
  obtain sc where sc: "sc_open um (mem_read um (mem_new pbs)) = Ok sc" "sc_rows sc = length perm"
    "map ci_name (sc_columns sc) = [primary_name]" "map ci_type (sc_columns sc) = [U32T]" "length (sc_columns sc) = 1"
    "holds_column pbs (sc_columns sc ! 0) (CU32 perm)"
    using written_columns [OF w' _ _ um] rows len name by (force simp: cv_type_def)
  obtain col where col: "sc_columns sc = [col]" "ci_name col = primary_name" "ci_type col = U32T" using sc(3-5) by auto
  show thesis
  proof (rule that [OF sc(1)])
    fix ids :: "nat list" assume ids: "\<forall>d \<in> set ids. d < length perm"
    have "sc_values um (mem_read um (mem_new pbs)) sc 0 ids = Ok (map (cv_nth (CU32 perm)) ids)"
      by (rule held_values [OF sc(6)]) (use sc(2,5) um ids in \<open>simp_all add: cv_len_def\<close>)
    moreover have "mapM_o (\<lambda>v. case v of VU32 x \<Rightarrow> Ok x | _ \<Rightarrow> Panic) (map (cv_nth (CU32 perm)) ids) = Ok (map ((!) perm) ids)"
      by (induction ids) (auto simp: cv_nth_def)
    ultimately show "sc_values_u32 um (mem_read um (mem_new pbs)) sc 0 ids = Ok (map ((!) perm) ids)"
      using col by (simp add: sc_values_u32_def sc_column_def)
  qed (use sc(2) col in \<open>simp_all add: column_index_def\<close>)
qed

text \<open>A permutation store whose reads fail.\<close>

lemma sc_values_broken:
  assumes "ids \<noteq> []" "\<forall>d \<in> set ids. d < sc_rows sc" "col < length (sc_columns sc)" "\<And>off n. g off n = Err e"
  shows "sc_values um g sc col ids = Err (Fetch e)"
proof -
  let ?w = "type_width (ci_type (sc_columns sc ! col))" and ?order = "sort_key (\<lambda>i. ids ! i) [0..<length ids]"
  have ne: "?order \<noteq> []" using assms(1) by (metis length_0_conv length_sort length_upt diff_zero)
  have step: "fst (sc_span_step ids ?w st i) \<noteq> []" for st i
    by (cases st) (simp add: sc_span_step_def Let_def)
  have "fst (foldl (sc_span_step ids ?w) st xs) \<noteq> []" if "xs \<noteq> []" for st xs
    using that by (induction xs rule: rev_induct) (simp_all add: step)
  then obtain s spans so where sp: "foldl (sc_span_step ids ?w) ([], replicate (length ids) 0) ?order = (s # spans, so)"
    using ne by (metis list.exhaust prod.collapse)
  have "last ?order \<in> set ?order" using ne by (rule last_in_set)
  then have "last ?order < length ids" by simp
  then have "ids ! last ?order < sc_rows sc" using assms(2) by simp
  moreover have "wave (\<lambda>(s, e). rd g (sat_add U64 (ci_data_off (sc_columns sc ! col)) s) ((e - s) mod um)) (s # spans) = Err (Fetch e)"
    using assms(4) by (cases s) (auto simp: wave_def rd_def list_ex_iff)
  ultimately show ?thesis
    using assms(1,3) sp by (simp add: sc_values_def sc_column_def Let_def not_le)
qed

section \<open>A small secondary index\<close>

text \<open>The witnesses: the query \<open>ab\<close> finds the secondary documents 0 and 2 of three.\<close>

lemma demo_secondary:
  "length (format_encode {0, 2}) = 20" "map unat (ngram_keys_with ascii_gc ascii_lower [0x61, 0x62] 2 True) = [unat (rune_ngram_key [0x61, 0x62])]"
proof -
  show "length (format_encode {0, 2}) = 20"
    by (simp add: format_encode_def length_assemble data_start_def encode_piece_def encode_body_def Let_def)
  have "split_whitespace [0x61, 0x62] = [[0x61, 0x62]]" by (simp add: split_whitespace.simps is_whitespace_def)
  moreover have "normalize ascii_gc ascii_lower [0x61, 0x62] True = [0x61, 0x62]"
    by (simp add: normalize_def is_letter_or_digit_def ascii_gc_def ascii_lower_def to_lower_rune_def)
  ultimately show "map unat (ngram_keys_with ascii_gc ascii_lower [0x61, 0x62] 2 True) = [unat (rune_ngram_key [0x61, 0x62])]"
    by (simp add: ngram_keys_with_def windows_def cut_def Let_def)
qed

definition demo_sec_postings :: "(nat \<times> nat set) list" where
  "demo_sec_postings = [(unat (rune_ngram_key [0x61, 0x62]), {0, 2})]"

lemma demo_sec_indexable: "indexable format_encode U32 2 0 demo_sec_postings"
proof -
  have "unat (rune_ngram_key [0x61, 0x62]) < U64"
    using unsigned_less [of "rune_ngram_key [0x61, 0x62]", where 'a = nat] by simp
  then show ?thesis
    using demo_secondary(1) by (simp add: indexable_def demo_sec_postings_def span_gap_def tail_key_batch_def)
qed

lemma demo_sec_described:
  "described demo_sec_postings demo_facet_map [unat (rune_ngram_key [0x61, 0x62])] 0 (map (\<lambda>(f, c). sel_include f c) []) = {0, 2}"
  by (auto simp: described_def found_docs_def demo_sec_postings_def)

lemma demo_perm_written:
  obtains pbs where "write_perm [10, 20, 30] = Ok pbs" "length pbs < U32"
  by (simp add: write_perm_def primary_name_def write_sortcols_def cv_len_def Let_def blob_step_def utf8_bytes_def utf8_char_def u32_len_def
      sc_header_def sc_entry_def cv_width_def sc_magic_def cv_bytes_def mul_p_def add_p_def try_from_def ok_or_def)

lemma demo_sec_sizes:
  "facet_names_len demo_facet_map < U32" "length fbs = 131 \<Longrightarrow> length fbs + span_gap < U32" "length [10, 20, 30 :: 32 word] < U32"
  "card {0, 2 :: nat} + 1 < U32" "{0, 2 :: nat} \<subseteq> {..<length [10, 20, 30 :: 32 word]}" "{d \<in> {0, 2 :: nat}. d < 65536} = {0, 2}"
  using demo_facet_map_ok(2) by (auto simp: span_gap_def)

section \<open>Properties\<close>

text \<open>A secondary index opened over its written files, and the cursor a query begins with.\<close>

lemma secondary_cursor:
  fixes gc lower query cn max_missing pairs
  assumes "roaring deser ser" "indexable ser um gram stride postings" "facet_map_ok facets" "facet_names_len facets < U32"
    and "write_facets_with flower (facet_fields ser facets 65536) fcn = Ok fbs" "length fbs + span_gap < um"
    and "write_perm perm = Ok pbs" "length perm < U32" "length pbs < um"
  defines "M \<equiv> described postings facets (map unat (ngram_keys_with gc lower query gram cn)) max_missing (map (\<lambda>(f, c). sel_include f c) pairs)"
  assumes "card M + 1 < um" "M \<subseteq> {..<length perm}"
  shows "\<exists>ibs s0 s cu0. write_index_with gram stride (posting_entries ser postings) cn = Ok ibs
    \<and> secondary_open um (mem_read um (mem_new ibs)) (mem_read um (mem_new pbs)) = Ok s0
    \<and> secondary_load_facets um deser (mem_read um (mem_new fbs)) s0 = Ok s
    \<and> secondary_search_filtered um deser gc lower s query max_missing pairs = Ok cu0 \<and> cu_pos cu0 = 0
    \<and> card {d \<in> M. d < 65536} \<le> secondary_loaded cu0
    \<and> (\<forall>ids. (\<forall>d \<in> set ids. d < length perm) \<longrightarrow>
         sc_values_u32 um (mem_read um (mem_new pbs)) (sx_perm s) (sx_perm_col s) ids = Ok (map ((!) perm) ids))
    \<and> sc_rows (sx_perm s) = length perm \<and> sx_perm_col s < length (sc_columns (sx_perm s))
    \<and> ci_type (sc_columns (sx_perm s) ! sx_perm_col s) = U32T
    \<and> (\<forall>cu. cursor_reach um deser (sx_fetch s) (filter_fetch (sx_fetch s) (sx_facets s)) cu0 cu \<longrightarrow>
         slices um deser (sx_fetch s) (filter_fetch (sx_fetch s) (sx_facets s)) M cu)"
proof -
  let ?ff = "mem_read um (mem_new fbs)" and ?pf = "mem_read um (mem_new pbs)"
  let ?sels = "map (\<lambda>(f, c). sel_include f c) pairs"
  have um: "um \<le> U64" using assms(2) by (simp add: indexable_def)
  have fu: "length fbs < um" using assms(6) by simp
  obtain fds where fds: "facet_open um deser ?ff = Ok fds" "open_facets flower fcn ser fbs facets fds"
    using roaring.facets_opened [OF assms(1,5,3,4) fu um] unfolding facet_open_def by blast
  obtain ibs ix where w: "write_index_with gram stride (posting_entries ser postings) cn = Ok ibs"
    "index_open um (mem_read um (mem_new ibs)) = Ok ix" "ix_gram ix = gram" "ix_fold ix = cn"
    "serves_search um deser (mem_read um (mem_new ibs)) ?ff ix (map unat (ngram_keys_with gc lower query gram cn)) max_missing
       (if ?sels = [] then None else Some (resolve_sels fds ?sels)) M"
    unfolding M_def using selected_search_served [OF assms(1,2,3) fds(2) assms(6), of cn] by metis
  obtain sc where sc: "sc_open um ?pf = Ok sc" "column_index sc primary_name = Some 0" "sc_rows sc = length perm"
    "0 < length (sc_columns sc)" "ci_type (sc_columns sc ! 0) = U32T"
    "\<And>ids. \<forall>d \<in> set ids. d < length perm \<Longrightarrow> sc_values_u32 um ?pf sc 0 ids = Ok (map ((!) perm) ids)"
    using write_perm_opens [OF assms(7,8,9) um] by blast
  define s0 where "s0 = \<lparr>sx_fetch = mem_read um (mem_new ibs), sx_index = ix, sx_perm_fetch = ?pf, sx_perm = sc, sx_perm_col = 0, sx_facets = None\<rparr>"
  define s where "s = s0\<lparr>sx_facets := Some (?ff, fds)\<rparr>"
  have flt: "secondary_filter s pairs = (if ?sels = [] then None else Some (resolve_sels fds ?sels))"
    by (simp add: secondary_filter_def s_def facet_resolve_sels)
  obtain cu0 where cu0: "search_cursor_filtered um deser (mem_read um (mem_new ibs)) ?ff ix (map unat (ngram_keys_with gc lower query gram cn)) max_missing
       (secondary_filter s pairs) = Ok cu0" "cu_pos cu0 = 0" "card {d \<in> M. d < 65536} \<le> secondary_loaded cu0"
    "\<forall>cu. cursor_reach um deser (mem_read um (mem_new ibs)) ?ff cu0 cu \<longrightarrow> slices um deser (mem_read um (mem_new ibs)) ?ff M cu"
    using w(5) assms(11) unfolding serves_search_def flt [symmetric] secondary_loaded_def by blast
  have keys: "query_keys gc lower ix query = map unat (ngram_keys_with gc lower query gram cn)" by (simp add: query_keys_def w(3,4))
  have fetch: "sx_fetch s = mem_read um (mem_new ibs)" "filter_fetch f (sx_facets s) = ?ff" "sx_index s = ix"
    "sx_perm s = sc" "sx_perm_col s = 0" for f
    by (simp_all add: s_def s0_def filter_fetch_def)
  have "secondary_open um (mem_read um (mem_new ibs)) ?pf = Ok s0" by (simp add: secondary_open_def w(2) sc(1,2) s0_def)
  moreover have "secondary_load_facets um deser ?ff s0 = Ok s" by (simp add: secondary_load_facets_def fds(1) s_def)
  moreover have "secondary_search_filtered um deser gc lower s query max_missing pairs = Ok cu0"
    unfolding secondary_search_filtered_def search_cursor_query_def fetch keys by (rule cu0(1))
  ultimately show ?thesis
    using w(1) cu0(2-4) sc(3-6) fetch by (intro exI [of _ ibs] exI [of _ s0] exI [of _ s] exI [of _ cu0]) simp
qed

text \<open>
  C34: Pages in the secondary order: over written files, whatever calls a client made before, \<open>next\<close>
  and \<open>page\<close> of a secondary cursor return the primary documents, in secondary rank order, of the
  slices of the documents that the query and the \<open>(field, category)\<close> pairs describe.
\<close>

theorem secondary_pages_exact:
  fixes gc lower query cn max_missing pairs
  assumes "roaring deser ser" "indexable ser um gram stride postings" "facet_map_ok facets" "facet_names_len facets < U32"
    and "write_facets_with flower (facet_fields ser facets 65536) fcn = Ok fbs" "length fbs + span_gap < um"
    and "write_perm perm = Ok pbs" "length perm < U32" "length pbs < um"
  defines "M \<equiv> described postings facets (map unat (ngram_keys_with gc lower query gram cn)) max_missing (map (\<lambda>(f, c). sel_include f c) pairs)"
  assumes "card M + 1 < um" "M \<subseteq> {..<length perm}"
  shows "\<exists>ibs s0 s cu0. write_index_with gram stride (posting_entries ser postings) cn = Ok ibs
    \<and> secondary_open um (mem_read um (mem_new ibs)) (mem_read um (mem_new pbs)) = Ok s0
    \<and> secondary_load_facets um deser (mem_read um (mem_new fbs)) s0 = Ok s
    \<and> secondary_search_filtered um deser gc lower s query max_missing pairs = Ok cu0 \<and> cu_pos cu0 = 0
    \<and> card {d \<in> M. d < 65536} \<le> secondary_loaded cu0
    \<and> (\<forall>cu. cursor_reach um deser (sx_fetch s) (filter_fetch (sx_fetch s) (sx_facets s)) cu0 cu \<longrightarrow>
         secondary_head_bitmap cu = {d \<in> M. d < 65536}
         \<and> (\<not> secondary_pending_tail cu \<longrightarrow> secondary_loaded cu = card M)
         \<and> (\<forall>n. \<exists>cu'. secondary_next um deser (mem_read um (mem_new pbs)) s n cu
              = (Ok (map ((!) perm) (cut (sorted_list_of_set M) (cu_pos cu) (cu_pos cu'))), cu')
              \<and> cu_pos cu' = min (sat_add um (cu_pos cu) n) (secondary_loaded cu'))
         \<and> (\<forall>offset limit. offset < um \<longrightarrow> (\<exists>cu'. secondary_page um deser (mem_read um (mem_new pbs)) s offset limit cu
              = (Ok (map ((!) perm) (cut (sorted_list_of_set M) (min offset (secondary_loaded cu'))
                   (min (sat_add um offset limit) (secondary_loaded cu')))), cu'))))"
proof -
  let ?L = "sorted_list_of_set M"
  obtain ibs s0 s cu0 where w: "write_index_with gram stride (posting_entries ser postings) cn = Ok ibs"
    "secondary_open um (mem_read um (mem_new ibs)) (mem_read um (mem_new pbs)) = Ok s0"
    "secondary_load_facets um deser (mem_read um (mem_new fbs)) s0 = Ok s"
    "secondary_search_filtered um deser gc lower s query max_missing pairs = Ok cu0" "cu_pos cu0 = 0"
    "card {d \<in> M. d < 65536} \<le> secondary_loaded cu0"
    and gather: "\<forall>ids. (\<forall>d \<in> set ids. d < length perm) \<longrightarrow>
         sc_values_u32 um (mem_read um (mem_new pbs)) (sx_perm s) (sx_perm_col s) ids = Ok (map ((!) perm) ids)"
    and perm: "sc_rows (sx_perm s) = length perm" "sx_perm_col s < length (sc_columns (sx_perm s))"
      "ci_type (sc_columns (sx_perm s) ! sx_perm_col s) = U32T"
    and sl: "\<forall>cu. cursor_reach um deser (sx_fetch s) (filter_fetch (sx_fetch s) (sx_facets s)) cu0 cu \<longrightarrow>
         slices um deser (sx_fetch s) (filter_fetch (sx_fetch s) (sx_facets s)) M cu"
    using secondary_cursor [where gc = gc and lower = lower and query = query and cn = cn and max_missing = max_missing and pairs = pairs,
        OF assms(1-9), folded M_def, OF assms(11,12)]
    by (elim exE conjE) (rule that)
  have fin: "finite M" using assms(12) by (rule finite_subset) simp
  have "d < length perm" if "d \<in> set (cut ?L a b)" for d a b
    using that assms(12) fin by (auto simp: cut_def dest!: in_set_takeD in_set_dropD)
  then have prim: "to_primary um (mem_read um (mem_new pbs)) s (cut ?L a b) cu = (Ok (map ((!) perm) (cut ?L a b)), cu)" for a b cu
    using gather by (simp add: to_primary_def step_lift_def)
  have nxt: "\<exists>cu'. secondary_next um deser (mem_read um (mem_new pbs)) s n cu
      = (Ok (map ((!) perm) (cut ?L (cu_pos cu) (cu_pos cu'))), cu') \<and> cu_pos cu' = min (sat_add um (cu_pos cu) n) (secondary_loaded cu')"
    if slc: "slices um deser (sx_fetch s) (filter_fetch (sx_fetch s) (sx_facets s)) M cu" for cu n
  proof -
    obtain cu' where "cursor_next um deser (sx_fetch s) (filter_fetch (sx_fetch s) (sx_facets s)) n cu
        = (Ok (cut ?L (cu_pos cu) (cu_pos cu')), cu')" "cu_pos cu' = min (sat_add um (cu_pos cu) n) (loaded cu')"
      using slc unfolding slices_def by blast
    then show ?thesis by (intro exI [of _ cu']) (simp add: secondary_next_def step_bind_def prim secondary_loaded_def)
  qed
  have page: "\<exists>cu'. secondary_page um deser (mem_read um (mem_new pbs)) s offset limit cu
      = (Ok (map ((!) perm) (cut ?L (min offset (secondary_loaded cu')) (min (sat_add um offset limit) (secondary_loaded cu')))), cu')"
    if slc: "slices um deser (sx_fetch s) (filter_fetch (sx_fetch s) (sx_facets s)) M cu" "offset < um" for cu offset limit
  proof -
    obtain cu' where "cursor_page um deser (sx_fetch s) (filter_fetch (sx_fetch s) (sx_facets s)) offset limit cu
        = (Ok (cut ?L (min offset (loaded cu')) (min (sat_add um offset limit) (loaded cu'))), cu')"
      using slc unfolding slices_def by blast
    then show ?thesis by (intro exI [of _ cu']) (simp add: secondary_page_def step_bind_def prim secondary_loaded_def)
  qed
  have head: "secondary_head_bitmap cu = {d \<in> M. d < 65536}" "\<not> secondary_pending_tail cu \<Longrightarrow> secondary_loaded cu = card M"
    if "slices um deser (sx_fetch s) (filter_fetch (sx_fetch s) (sx_facets s)) M cu" for cu
    using that by (simp_all add: slices_def secondary_head_bitmap_def secondary_pending_tail_def secondary_loaded_def loaded_def)
  show ?thesis
  proof (rule exI [of _ ibs], rule exI [of _ s0], rule exI [of _ s], rule exI [of _ cu0], intro conjI allI impI)
    fix cu assume "cursor_reach um deser (sx_fetch s) (filter_fetch (sx_fetch s) (sx_facets s)) cu0 cu"
    then have slc: "slices um deser (sx_fetch s) (filter_fetch (sx_fetch s) (sx_facets s)) M cu" using sl by blast
    show "secondary_head_bitmap cu = {d \<in> M. d < 65536}" by (rule head(1) [OF slc])
    show "secondary_loaded cu = card M" if "\<not> secondary_pending_tail cu" by (rule head(2) [OF slc that])
    show "\<exists>cu'. secondary_next um deser (mem_read um (mem_new pbs)) s n cu
        = (Ok (map ((!) perm) (cut ?L (cu_pos cu) (cu_pos cu'))), cu') \<and> cu_pos cu' = min (sat_add um (cu_pos cu) n) (secondary_loaded cu')" for n
      by (rule nxt [OF slc])
    show "\<exists>cu'. secondary_page um deser (mem_read um (mem_new pbs)) s offset limit cu
        = (Ok (map ((!) perm) (cut ?L (min offset (secondary_loaded cu')) (min (sat_add um offset limit) (secondary_loaded cu')))), cu')"
      if "offset < um" for offset limit
      by (rule page [OF slc that])
  qed (rule w)+
qed

lemma secondary_pages_exact_witness:
  "\<exists>ibs pbs fbs s0 s cu0 cu'. write_index_with 2 0 (posting_entries format_encode demo_sec_postings) True = Ok ibs
    \<and> write_perm [10, 20, 30] = Ok pbs
    \<and> secondary_open U32 (mem_read U32 (mem_new ibs)) (mem_read U32 (mem_new pbs)) = Ok s0
    \<and> secondary_load_facets U32 format_decode (mem_read U32 (mem_new fbs)) s0 = Ok s
    \<and> secondary_search_filtered U32 format_decode ascii_gc ascii_lower s [0x61, 0x62] 0 [] = Ok cu0
    \<and> secondary_next U32 format_decode (mem_read U32 (mem_new pbs)) s 2 cu0
        = (Ok (map ((!) [10, 20, 30]) (cut (sorted_list_of_set {0, 2}) (cu_pos cu0) (cu_pos cu'))), cu')"
proof -
  obtain fbs where fbs: "write_facets_with (\<lambda>s. s) (facet_fields format_encode demo_facet_map 65536) True = Ok fbs" "length fbs = 131"
    using demo_facet_written by blast
  obtain pbs where pbs: "write_perm [10, 20, 30] = Ok pbs" "length pbs < U32" by (rule demo_perm_written)
  note ex = secondary_pages_exact [where gc = ascii_gc and lower = ascii_lower and query = "[0x61, 0x62]" and cn = True and max_missing = 0 and pairs = "[]",
      OF format.roaring_axioms demo_sec_indexable demo_facet_map_ok(1) demo_sec_sizes(1) fbs(1) demo_sec_sizes(2) [OF fbs(2)] pbs(1) demo_sec_sizes(3) pbs(2),
      unfolded demo_secondary demo_sec_described, OF demo_sec_sizes(4,5)]
  show ?thesis
  proof -
    obtain ibs s0 s cu0 where w: "write_index_with 2 0 (posting_entries format_encode demo_sec_postings) True = Ok ibs"
      "secondary_open U32 (mem_read U32 (mem_new ibs)) (mem_read U32 (mem_new pbs)) = Ok s0"
      "secondary_load_facets U32 format_decode (mem_read U32 (mem_new fbs)) s0 = Ok s"
      "secondary_search_filtered U32 format_decode ascii_gc ascii_lower s [0x61, 0x62] 0 [] = Ok cu0"
      and pages: "\<forall>n. \<exists>cu'. secondary_next U32 format_decode (mem_read U32 (mem_new pbs)) s n cu0
        = (Ok (map ((!) [10, 20, 30]) (cut (sorted_list_of_set {0, 2}) (cu_pos cu0) (cu_pos cu'))), cu')
          \<and> cu_pos cu' = min (sat_add U32 (cu_pos cu0) n) (secondary_loaded cu')"
      using ex by (elim exE conjE, elim allE impE) (rule cursor_reach.fresh, elim conjE, rule that)
    from pages obtain cu' where "secondary_next U32 format_decode (mem_read U32 (mem_new pbs)) s 2 cu0
        = (Ok (map ((!) [10, 20, 30]) (cut (sorted_list_of_set {0, 2}) (cu_pos cu0) (cu_pos cu'))), cu')" by blast
    then show ?thesis using w pbs(1) by (intro exI conjI)
  qed
qed

text \<open>
  C35: A failed gather loses a page: \<open>next\<close> moves the inner cursor before it reads the permutation,
  so when that read fails the documents of the page are behind the position, and calling \<open>next\<close>
  again, over a store that works, returns what comes after them.
\<close>

theorem failed_gather_skips_page:
  fixes gc lower query cn max_missing pairs
  assumes "roaring deser ser" "indexable ser um gram stride postings" "facet_map_ok facets" "facet_names_len facets < U32"
    and "write_facets_with flower (facet_fields ser facets 65536) fcn = Ok fbs" "length fbs + span_gap < um"
    and "write_perm perm = Ok pbs" "length perm < U32" "length pbs < um"
  defines "M \<equiv> described postings facets (map unat (ngram_keys_with gc lower query gram cn)) max_missing (map (\<lambda>(f, c). sel_include f c) pairs)"
  assumes "card M + 1 < um" "M \<subseteq> {..<length perm}" "\<forall>off len. g off len = Err e" "0 < n"
  shows "\<exists>ibs s0 s cu0. write_index_with gram stride (posting_entries ser postings) cn = Ok ibs
    \<and> secondary_open um (mem_read um (mem_new ibs)) (mem_read um (mem_new pbs)) = Ok s0
    \<and> secondary_load_facets um deser (mem_read um (mem_new fbs)) s0 = Ok s
    \<and> secondary_search_filtered um deser gc lower s query max_missing pairs = Ok cu0 \<and> cu_pos cu0 = 0
    \<and> card {d \<in> M. d < 65536} \<le> secondary_loaded cu0
    \<and> (\<forall>cu. cursor_reach um deser (sx_fetch s) (filter_fetch (sx_fetch s) (sx_facets s)) cu0 cu \<and> cu_pos cu < secondary_loaded cu \<longrightarrow>
         (\<exists>cu1. secondary_next um deser g s n cu = (Err (Fetch e), cu1) \<and> cu_pos cu < cu_pos cu1
          \<and> (\<forall>m. \<exists>cu2. secondary_next um deser (mem_read um (mem_new pbs)) s m cu1
               = (Ok (map ((!) perm) (cut (sorted_list_of_set M) (cu_pos cu1) (cu_pos cu2))), cu2))))"
proof -
  let ?L = "sorted_list_of_set M"
  obtain ibs s0 s cu0 where w: "write_index_with gram stride (posting_entries ser postings) cn = Ok ibs"
    "secondary_open um (mem_read um (mem_new ibs)) (mem_read um (mem_new pbs)) = Ok s0"
    "secondary_load_facets um deser (mem_read um (mem_new fbs)) s0 = Ok s"
    "secondary_search_filtered um deser gc lower s query max_missing pairs = Ok cu0" "cu_pos cu0 = 0"
    "card {d \<in> M. d < 65536} \<le> secondary_loaded cu0"
    and gather: "\<forall>ids. (\<forall>d \<in> set ids. d < length perm) \<longrightarrow>
         sc_values_u32 um (mem_read um (mem_new pbs)) (sx_perm s) (sx_perm_col s) ids = Ok (map ((!) perm) ids)"
    and perm: "sc_rows (sx_perm s) = length perm" "sx_perm_col s < length (sc_columns (sx_perm s))"
      "ci_type (sc_columns (sx_perm s) ! sx_perm_col s) = U32T"
    and sl: "\<forall>cu. cursor_reach um deser (sx_fetch s) (filter_fetch (sx_fetch s) (sx_facets s)) cu0 cu \<longrightarrow>
         slices um deser (sx_fetch s) (filter_fetch (sx_fetch s) (sx_facets s)) M cu"
    using secondary_cursor [where gc = gc and lower = lower and query = query and cn = cn and max_missing = max_missing and pairs = pairs,
        OF assms(1-9), folded M_def, OF assms(11,12)]
    by (elim exE conjE) (rule that)
  let ?reach = "cursor_reach um deser (sx_fetch s) (filter_fetch (sx_fetch s) (sx_facets s)) cu0"
  have fin: "finite M" using assms(12) by (rule finite_subset) simp
  have inb: "\<forall>d \<in> set (cut ?L a b). d < length perm" for a b
    using assms(12) fin by (auto simp: cut_def dest!: in_set_takeD in_set_dropD)
  have step: "\<exists>cu1. cursor_next um deser (sx_fetch s) (filter_fetch (sx_fetch s) (sx_facets s)) k cu = (Ok (cut ?L (cu_pos cu) (cu_pos cu1)), cu1)
      \<and> cu_pos cu1 = min (sat_add um (cu_pos cu) k) (loaded cu1) \<and> ?reach cu1" if "?reach cu" for cu k
    using sl that cursor_reach.after_next [OF that] unfolding slices_def by metis
  have again: "\<exists>cu2. secondary_next um deser (mem_read um (mem_new pbs)) s m cu1
      = (Ok (map ((!) perm) (cut ?L (cu_pos cu1) (cu_pos cu2))), cu2)" if r1: "?reach cu1" for cu1 m
  proof -
    obtain cu2 where "cursor_next um deser (sx_fetch s) (filter_fetch (sx_fetch s) (sx_facets s)) m cu1 = (Ok (cut ?L (cu_pos cu1) (cu_pos cu2)), cu2)"
      using step [OF r1] by blast
    then show ?thesis
      using gather inb by (intro exI [of _ cu2]) (simp add: secondary_next_def step_bind_def to_primary_def step_lift_def)
  qed
  have fails: "\<exists>cu1. secondary_next um deser g s n cu = (Err (Fetch e), cu1) \<and> cu_pos cu < cu_pos cu1 \<and> ?reach cu1"
    if r: "?reach cu" and lt: "cu_pos cu < secondary_loaded cu" for cu
  proof -
    obtain cu1 where n: "cursor_next um deser (sx_fetch s) (filter_fetch (sx_fetch s) (sx_facets s)) n cu = (Ok (cut ?L (cu_pos cu) (cu_pos cu1)), cu1)"
      "cu_pos cu1 = min (sat_add um (cu_pos cu) n) (loaded cu1)" "?reach cu1" using step [OF r] by blast
    have "grows (cursor_next um deser (sx_fetch s) (filter_fetch (sx_fetch s) (sx_facets s)) n)"
      unfolding cursor_next_def Let_def by (intro grow_intros grows_ensure grows_modify) simp
    then have "prefix (cu_results cu) (cu_results cu1)" using n(1) unfolding grows_def by (metis snd_conv)
    then have ge: "loaded cu \<le> loaded cu1" by (simp add: loaded_def prefix_length_le)
    have small: "loaded cu1 \<le> card M"
    proof -
      have "cu_results cu1 = take (loaded cu1) ?L" using sl n(3) unfolding slices_def by blast
      then have "length (cu_results cu1) \<le> length ?L" by (metis length_take min.cobounded1)
      then show ?thesis by (simp add: loaded_def)
    qed
    have pos: "cu_pos cu < cu_pos cu1"
      using n(2) lt ge small assms(11,14) by (simp add: sat_add_def secondary_loaded_def)
    then have "cut ?L (cu_pos cu) (cu_pos cu1) \<noteq> []"
      using n(2) small by (auto simp: cut_def)
    then have "sc_values um g (sx_perm s) (sx_perm_col s) (cut ?L (cu_pos cu) (cu_pos cu1)) = Err (Fetch e)"
      using inb perm(1,2) assms(13) by (intro sc_values_broken) simp_all
    then have "secondary_next um deser g s n cu = (Err (Fetch e), cu1)"
      using n(1) perm(2,3) by (simp add: secondary_next_def step_bind_def to_primary_def step_lift_def sc_values_u32_def sc_column_def)
    then show ?thesis using pos n(3) by blast
  qed
  show ?thesis
  proof (rule exI [of _ ibs], rule exI [of _ s0], rule exI [of _ s], rule exI [of _ cu0], intro conjI allI impI)
    fix cu assume "?reach cu \<and> cu_pos cu < secondary_loaded cu"
    then obtain cu1 where "secondary_next um deser g s n cu = (Err (Fetch e), cu1)" "cu_pos cu < cu_pos cu1" "?reach cu1"
      using fails by blast
    then show "\<exists>cu1. secondary_next um deser g s n cu = (Err (Fetch e), cu1) \<and> cu_pos cu < cu_pos cu1
        \<and> (\<forall>m. \<exists>cu2. secondary_next um deser (mem_read um (mem_new pbs)) s m cu1
             = (Ok (map ((!) perm) (cut ?L (cu_pos cu1) (cu_pos cu2))), cu2))"
      using again by blast
  qed (rule w)+
qed

lemma failed_gather_skips_page_witness:
  "\<exists>ibs pbs fbs s0 s cu0 cu1 cu2. write_index_with 2 0 (posting_entries format_encode demo_sec_postings) True = Ok ibs
    \<and> write_perm [10, 20, 30] = Ok pbs
    \<and> secondary_open U32 (mem_read U32 (mem_new ibs)) (mem_read U32 (mem_new pbs)) = Ok s0
    \<and> secondary_load_facets U32 format_decode (mem_read U32 (mem_new fbs)) s0 = Ok s
    \<and> secondary_search_filtered U32 format_decode ascii_gc ascii_lower s [0x61, 0x62] 0 [] = Ok cu0
    \<and> secondary_next U32 format_decode broken_fetch s 1 cu0 = (Err (Fetch (Transport ''connection reset'')), cu1)
    \<and> cu_pos cu0 < cu_pos cu1
    \<and> secondary_next U32 format_decode (mem_read U32 (mem_new pbs)) s 1 cu1
        = (Ok (map ((!) [10, 20, 30]) (cut (sorted_list_of_set {0, 2}) (cu_pos cu1) (cu_pos cu2))), cu2)"
proof -
  obtain fbs where fbs: "write_facets_with (\<lambda>s. s) (facet_fields format_encode demo_facet_map 65536) True = Ok fbs" "length fbs = 131"
    using demo_facet_written by blast
  obtain pbs where pbs: "write_perm [10, 20, 30] = Ok pbs" "length pbs < U32" by (rule demo_perm_written)
  have g: "\<forall>off len. broken_fetch off len = Err (Transport ''connection reset'')" by (simp add: broken_fetch_def)
  note ex = failed_gather_skips_page [where gc = ascii_gc and lower = ascii_lower and query = "[0x61, 0x62]" and cn = True and max_missing = 0 and pairs = "[]",
      OF format.roaring_axioms demo_sec_indexable demo_facet_map_ok(1) demo_sec_sizes(1) fbs(1) demo_sec_sizes(2) [OF fbs(2)] pbs(1) demo_sec_sizes(3) pbs(2),
      unfolded demo_secondary demo_sec_described, OF demo_sec_sizes(4,5) g zero_less_one]
  show ?thesis
  proof -
    obtain ibs s0 s cu0 where w: "write_index_with 2 0 (posting_entries format_encode demo_sec_postings) True = Ok ibs"
      "secondary_open U32 (mem_read U32 (mem_new ibs)) (mem_read U32 (mem_new pbs)) = Ok s0"
      "secondary_load_facets U32 format_decode (mem_read U32 (mem_new fbs)) s0 = Ok s"
      "secondary_search_filtered U32 format_decode ascii_gc ascii_lower s [0x61, 0x62] 0 [] = Ok cu0"
      and start: "cu_pos cu0 = 0" "card {d \<in> {0, 2 :: nat}. d < 65536} \<le> secondary_loaded cu0"
      and pages: "\<forall>cu. cursor_reach U32 format_decode (sx_fetch s) (filter_fetch (sx_fetch s) (sx_facets s)) cu0 cu \<and> cu_pos cu < secondary_loaded cu
        \<longrightarrow> (\<exists>cu1. secondary_next U32 format_decode broken_fetch s 1 cu = (Err (Fetch (Transport ''connection reset'')), cu1) \<and> cu_pos cu < cu_pos cu1
          \<and> (\<forall>m. \<exists>cu2. secondary_next U32 format_decode (mem_read U32 (mem_new pbs)) s m cu1
               = (Ok (map ((!) [10, 20, 30]) (cut (sorted_list_of_set {0, 2}) (cu_pos cu1) (cu_pos cu2))), cu2)))"
      using ex by (elim exE conjE) (rule that)
    have "cu_pos cu0 < secondary_loaded cu0" using start unfolding demo_sec_sizes(6) by simp
    then obtain cu1 where c1: "secondary_next U32 format_decode broken_fetch s 1 cu0 = (Err (Fetch (Transport ''connection reset'')), cu1)" "cu_pos cu0 < cu_pos cu1"
      and m: "\<forall>m. \<exists>cu2. secondary_next U32 format_decode (mem_read U32 (mem_new pbs)) s m cu1
               = (Ok (map ((!) [10, 20, 30]) (cut (sorted_list_of_set {0, 2}) (cu_pos cu1) (cu_pos cu2))), cu2)"
      using pages cursor_reach.fresh by blast
    from m obtain cu2 where "secondary_next U32 format_decode (mem_read U32 (mem_new pbs)) s 1 cu1
        = (Ok (map ((!) [10, 20, 30]) (cut (sorted_list_of_set {0, 2}) (cu_pos cu1) (cu_pos cu2))), cu2)" by blast
    then show ?thesis using w pbs(1) c1 by (intro exI conjI)
  qed
qed

end
