(* ===== verification/RR_Hotcache.thy ===== *)
theory RR_Hotcache imports RR_Fetch RR_Utf8 begin

text \<open>
  The boot bundle RRHC: reader \<open>rust/src/hotcache.rs\<close> and writer \<open>rust/src/hotcache_build.rs\<close>.  A
  bundle names the members of a composition and carries the boot regions of the small ones.

  Shown: a written bundle opens with the members it was written from and hands out the boot bytes of
  exactly the members within the threshold, by member and by name; no bytes make the reader panic;
  an inlined boot need not have the length its member states.
\<close>

section \<open>Members\<close>

datatype member_tag = Rrs | Rrti | Rrsf | Rrvi | RrsrIdx | RrsrBin | RrsrDict | Rril | Rrm2 | Rrss

fun tag_to_u16 :: "member_tag \<Rightarrow> nat" where
  "tag_to_u16 Rrs = 1"
| "tag_to_u16 Rrti = 2"
| "tag_to_u16 Rrsf = 3"
| "tag_to_u16 Rrvi = 4"
| "tag_to_u16 RrsrIdx = 5"
| "tag_to_u16 RrsrBin = 6"
| "tag_to_u16 RrsrDict = 7"
| "tag_to_u16 Rril = 8"
| "tag_to_u16 Rrm2 = 9"
| "tag_to_u16 Rrss = 10"

definition tag_try_from :: "nat \<Rightarrow> member_tag ires" where
  "tag_try_from t = (if t = 1 then Ok Rrs else if t = 2 then Ok Rrti else if t = 3 then Ok Rrsf
     else if t = 4 then Ok Rrvi else if t = 5 then Ok RrsrIdx else if t = 6 then Ok RrsrBin
     else if t = 7 then Ok RrsrDict else if t = 8 then Ok Rril else if t = 9 then Ok Rrm2
     else if t = 10 then Ok Rrss else Err (Malformed ''RRHC unknown member tag''))"

record hc_member =
  mb_tag :: member_tag
  mb_data_file :: rstring
  mb_boot_off :: nat
  mb_boot_len :: nat
  mb_inlined :: bool
  mb_inline_off :: nat
  mb_inline_len :: nat

record hotcache =
  hc_members :: "hc_member list"
  hc_blob :: bytes

definition hc_magic :: bytes where "hc_magic = ascii ''RRHC''"
definition hc_header_size :: nat where "hc_header_size = 32"
definition hc_entry_size :: nat where "hc_entry_size = 40"
definition flag_inlined :: nat where "flag_inlined = 1"

unbundle bit_operations_syntax

section \<open>The reader\<close>

text \<open>One turn of the loop of \<open>open\<close> over the manifest entries.\<close>

definition hc_entry :: "nat \<Rightarrow> bytes \<Rightarrow> bytes \<Rightarrow> bytes \<Rightarrow> nat \<Rightarrow> hc_member ires" where
  "hc_entry um body strings blob i =
     bind_o (mul_p um i hc_entry_size) (\<lambda>base.
     bind_o (bind_o (read_u16 body base) tag_try_from) (\<lambda>tag.
     bind_o (read_u16 body (base + 2)) (\<lambda>flags.
     bind_o (read_u32 body (base + 4)) (\<lambda>name_off.
     bind_o (read_u16 body (base + 8)) (\<lambda>name_len.
     bind_o (read_u64 body (base + 12)) (\<lambda>boot_off.
     bind_o (read_u32 body (base + 20)) (\<lambda>boot_len.
     bind_o (read_u64 body (base + 24)) (\<lambda>inline_off.
     bind_o (read_u32 body (base + 32)) (\<lambda>inline_len.
     bind_o (ok_or (checked_add um name_off name_len) (Malformed ''RRHC name range overflow'')) (\<lambda>name_end.
     if name_end > length strings then Err (Malformed ''RRHC name out of string blob'') else
     bind_o (cut_p strings name_off name_end) (\<lambda>name.
     bind_o (ok_or (utf8_strict name) (Malformed ''RRHC non-UTF-8 data-file name'')) (\<lambda>data_file.
     let inlined = flags AND flag_inlined \<noteq> 0 in
     bind_o (if inlined then
               bind_o (ok_or (checked_add U64 inline_off inline_len) (Malformed ''RRHC inline range overflow'')) (\<lambda>stop.
               if stop > length blob then Err (Malformed ''RRHC inline out of inlined blob'') else Ok ())
             else Ok ()) (\<lambda>_.
     Ok \<lparr>mb_tag = tag, mb_data_file = data_file, mb_boot_off = boot_off, mb_boot_len = boot_len,
        mb_inlined = inlined, mb_inline_off = inline_off, mb_inline_len = inline_len\<rparr>)))))))))))))"

definition hotcache_open :: "nat \<Rightarrow> range_read \<Rightarrow> hotcache ires" where
  "hotcache_open um f =
     bind_o (rd f 0 hc_header_size) (\<lambda>header.
     if length header < hc_header_size then Err (Malformed ''short RRHC header'')
     else if take 4 header \<noteq> hc_magic then Err (BadMagic (take 4 header))
     else bind_o (read_u16 header 4) (\<lambda>version.
     if version \<noteq> 1 then Err (BadVersion version)
     else bind_o (read_u32 header 8) (\<lambda>member_count.
     bind_o (read_u32 header 12) (\<lambda>str_bytes.
     bind_o (read_u64 header 16) (\<lambda>inline64.
     let inline_bytes = inline64 mod um in
     bind_o (ok_or (checked_mul um member_count hc_entry_size) (Malformed ''RRHC manifest size overflow'')) (\<lambda>manifest_bytes.
     bind_o (ok_or (Option.bind (checked_add um manifest_bytes str_bytes) (\<lambda>n. checked_add um n inline_bytes))
         (Malformed ''RRHC body size overflow'')) (\<lambda>body_len.
     bind_o (rd f hc_header_size body_len) (\<lambda>body.
     if length body < body_len then Err (Malformed ''short RRHC body'')
     else bind_o (add_p um manifest_bytes str_bytes) (\<lambda>inline_start.
     bind_o (cut_p body manifest_bytes inline_start) (\<lambda>strings.
     bind_o (bind_o (add_p um inline_start inline_bytes) (cut_p body inline_start)) (\<lambda>blob.
     bind_o (mapM_o (hc_entry um body strings blob) [0..<member_count]) (\<lambda>members.
     Ok \<lparr>hc_members = members, hc_blob = blob\<rparr>))))))))))))"

definition hc_inlined :: "nat \<Rightarrow> hotcache \<Rightarrow> hc_member \<Rightarrow> bytes option ires" where
  "hc_inlined um h m =
     (if \<not> mb_inlined m then Ok None
      else (let start = mb_inline_off m mod um in
        bind_o (add_p um start (mb_inline_len m)) (\<lambda>stop.
        map_ok Some (cut_p (hc_blob h) start stop))))"

definition hc_inlined_by_name :: "nat \<Rightarrow> hotcache \<Rightarrow> rstring \<Rightarrow> bytes option ires" where
  "hc_inlined_by_name um h name =
     (case find (\<lambda>m. mb_data_file m = name) (hc_members h) of
        None \<Rightarrow> Ok None
      | Some m \<Rightarrow> hc_inlined um h m)"

section \<open>The writer\<close>

record member_spec =
  ms_tag :: member_tag
  ms_data_file :: rstring
  ms_boot_off :: nat
  ms_boot_len :: nat
  ms_boot_bytes :: bytes

text \<open>Where a member's name and boot bytes go: \<open>(name_off, name_len, inlined, inline_off)\<close>.\<close>

type_synonym placement = "nat \<times> nat \<times> bool \<times> nat"

definition place_member ::
  "nat \<Rightarrow> bytes \<times> bytes \<times> placement list \<Rightarrow> member_spec \<Rightarrow> (bytes \<times> bytes \<times> placement list) io" where
  "place_member threshold = (\<lambda>(strings, blob, places) m.
     if length (ms_boot_bytes m) \<noteq> ms_boot_len m then Err ''boot_len disagrees with boot_bytes.len()''
     else (let name = utf8_bytes (ms_data_file m) in
       bind_o (ok_or (try_from U32 (length strings)) ''RRHC string blob exceeds the 32-bit limit'') (\<lambda>name_off.
       bind_o (ok_or (try_from U16 (length name)) ''data-file name exceeds the 16-bit length limit'') (\<lambda>name_len.
       let inlined = ms_boot_len m \<le> threshold in
       Ok (strings @ name, if inlined then blob @ ms_boot_bytes m else blob,
           places @ [(name_off, name_len, inlined, length blob)])))))"

definition hc_entry_bytes :: "member_spec \<times> placement \<Rightarrow> bytes" where
  "hc_entry_bytes = (\<lambda>(m, name_off, name_len, inlined, inline_off).
     to_le 2 (tag_to_u16 (ms_tag m)) @ to_le 2 (if inlined then flag_inlined else 0) @ to_le 4 name_off @ to_le 2 name_len
     @ to_le 2 0 @ to_le 8 (ms_boot_off m) @ to_le 4 (ms_boot_len m) @ to_le 8 (if inlined then inline_off else 0)
     @ to_le 4 (if inlined then ms_boot_len m else 0) @ to_le 4 0)"

definition write_hotcache :: "member_spec list \<Rightarrow> nat \<Rightarrow> bytes io" where
  "write_hotcache members threshold =
     bind_o (foldM_o (place_member threshold) ([], [], []) members) (\<lambda>(strings, blob, places).
     bind_o (ok_or (try_from U32 (length members)) ''member count exceeds the 32-bit limit'') (\<lambda>member_count.
     bind_o (ok_or (try_from U32 (length strings)) ''RRHC string blob exceeds the 32-bit limit'') (\<lambda>str_bytes.
     Ok (hc_magic @ to_le 2 1 @ to_le 2 0 @ to_le 4 member_count @ to_le 4 str_bytes @ to_le 8 (length blob) @ to_le 8 0
         @ concat (map hc_entry_bytes (zip members places)) @ strings @ blob))))"

section \<open>The parts of a written bundle\<close>

lemma cut_piece:
  assumes "i < length xs"
  shows "cut (concat xs) (length (concat (take i xs))) (length (concat (take i xs)) + length (xs ! i)) = xs ! i"
    and "length (concat (take i xs)) + length (xs ! i) \<le> length (concat xs)"
proof -
  have split: "concat xs = concat (take i xs) @ xs ! i @ concat (drop (Suc i) xs)"
    using assms by (metis concat.simps(2) concat_append id_take_nth_drop)
  show "cut (concat xs) (length (concat (take i xs))) (length (concat (take i xs)) + length (xs ! i)) = xs ! i"
    by (subst split) (rule cut_mid, rule refl, rule refl)
  show "length (concat (take i xs)) + length (xs ! i) \<le> length (concat xs)"
    using arg_cong [OF split, of length] by simp
qed

definition hc_name :: "member_spec \<Rightarrow> bytes" where
  "hc_name m = utf8_bytes (ms_data_file m)"

definition hc_kept :: "nat \<Rightarrow> member_spec \<Rightarrow> bytes" where
  "hc_kept threshold m = (if ms_boot_len m \<le> threshold then ms_boot_bytes m else [])"

definition hc_place :: "nat \<Rightarrow> member_spec list \<Rightarrow> nat \<Rightarrow> placement" where
  "hc_place threshold ms i = (length (concat (take i (map hc_name ms))), length (hc_name (ms ! i)),
     ms_boot_len (ms ! i) \<le> threshold, length (concat (take i (map (hc_kept threshold) ms))))"

lemma placed:
  "foldM_o (place_member threshold) ([], [], []) ms = Ok r \<Longrightarrow>
     r = (concat (map hc_name ms), concat (map (hc_kept threshold) ms), map (hc_place threshold ms) [0..<length ms])
     \<and> (\<forall>m \<in> set ms. length (ms_boot_bytes m) = ms_boot_len m \<and> length (hc_name m) < U16)"
proof (induction ms arbitrary: r rule: rev_induct)
  case Nil
  then show ?case by simp
next
  case (snoc m ms)
  obtain q where q: "foldM_o (place_member threshold) ([], [], []) ms = Ok q" "place_member threshold q m = Ok r"
    using snoc.prems by (auto simp: foldM_o_append bind_o_Ok_iff)
  note ih = snoc.IH [OF q(1)]
  have same: "map (hc_place threshold (ms @ [m])) [0..<length ms] = map (hc_place threshold ms) [0..<length ms]"
    by (rule map_cong) (auto simp: hc_place_def nth_append)
  show ?case
    using q(2) ih same
    by (auto simp: place_member_def Let_def bind_o_Ok_iff hc_name_def [of m] hc_kept_def [of _ m] hc_place_def [of _ "ms @ [m]" "length ms"] split: if_splits)
qed

definition spec_ok :: "member_spec \<Rightarrow> bool" where
  "spec_ok m \<longleftrightarrow> list_all scalar (ms_data_file m) \<and> ms_boot_off m < U64 \<and> ms_boot_len m < U32"

lemma tag_round: "tag_try_from (tag_to_u16 t) = Ok t" "tag_to_u16 t < U16"
  by (cases t; simp add: tag_try_from_def)+

lemmas field_alone = u16_at_0 [of _ "[]", unfolded append_Nil2] u32_at_0 [of _ "[]", unfolded append_Nil2] u64_at_0 [of _ "[]", unfolded append_Nil2]

lemma length_hc_entry_bytes [simp]: "length (hc_entry_bytes x) = 40"
  by (simp add: hc_entry_bytes_def split: prod.splits)

lemma hc_entry_fields:
  fixes m noff nlen inl ioff
  assumes "ms_boot_off m < U64" "ms_boot_len m < U32" "noff < U32" "nlen < U16" "ioff < U64"
  defines "r \<equiv> hc_entry_bytes (m, noff, nlen, inl, ioff)"
  shows "u16_at r 0 = tag_to_u16 (ms_tag m)" "u16_at r 2 = (if inl then 1 else 0)" "u32_at r 4 = noff" "u16_at r 8 = nlen"
    and "u64_at r 12 = ms_boot_off m" "u32_at r 20 = ms_boot_len m" "u64_at r 24 = (if inl then ioff else 0)"
    and "u32_at r 32 = (if inl then ms_boot_len m else 0)"
proof -
  have "(if inl then flag_inlined else 0) < U16" "(if inl then ioff else 0) < U64" "(if inl then ms_boot_len m else 0) < U32"
    using assms by (simp_all add: flag_inlined_def)
  note b = this assms(1-4) tag_round(2) [of "ms_tag m"]
  show "u16_at r 0 = tag_to_u16 (ms_tag m)" "u16_at r 2 = (if inl then 1 else 0)" "u32_at r 4 = noff" "u16_at r 8 = nlen"
    "u64_at r 12 = ms_boot_off m" "u32_at r 20 = ms_boot_len m" "u64_at r 24 = (if inl then ioff else 0)"
    "u32_at r 32 = (if inl then ms_boot_len m else 0)"
    unfolding r_def hc_entry_bytes_def prod.case
    using b by (simp_all only: le_append_simps length_to_le length_append flag_inlined_def)
      (simp_all add: field_alone)
qed

section \<open>Opening a written bundle\<close>

definition hc_member_of :: "nat \<Rightarrow> member_spec list \<Rightarrow> nat \<Rightarrow> hc_member" where
  "hc_member_of threshold ms i = (let m = ms ! i; inl = ms_boot_len m \<le> threshold in
     \<lparr>mb_tag = ms_tag m, mb_data_file = ms_data_file m, mb_boot_off = ms_boot_off m, mb_boot_len = ms_boot_len m,
      mb_inlined = inl, mb_inline_off = (if inl then length (concat (take i (map (hc_kept threshold) ms))) else 0),
      mb_inline_len = (if inl then ms_boot_len m else 0)\<rparr>)"

lemma entry_read:
  fixes threshold
  assumes i: "i < length ms" and ok: "\<forall>m \<in> set ms. spec_ok m"
    and lens: "\<forall>m \<in> set ms. length (ms_boot_bytes m) = ms_boot_len m \<and> length (hc_name m) < U16"
  defines "strings \<equiv> concat (map hc_name ms)" and "blob \<equiv> concat (map (hc_kept threshold) ms)"
  defines "table \<equiv> concat (map hc_entry_bytes (zip ms (map (hc_place threshold ms) [0..<length ms])))"
  assumes small: "length strings < U32" "length table + length strings < um" "length blob < U64"
  shows "hc_entry um (table @ rest) strings blob i = Ok (hc_member_of threshold ms i)"
proof -
  let ?m = "ms ! i" and ?zs = "zip ms (map (hc_place threshold ms) [0..<length ms])"
  let ?noff = "length (concat (take i (map hc_name ms)))" and ?ioff = "length (concat (take i (map (hc_kept threshold) ms)))"
  let ?inl = "ms_boot_len ?m \<le> threshold"
  let ?r = "hc_entry_bytes (?m, ?noff, length (hc_name ?m), ?inl, ?ioff)"
  have m: "spec_ok ?m" "length (ms_boot_bytes ?m) = ms_boot_len ?m" "length (hc_name ?m) < U16" using i ok lens by simp_all
  have piece: "cut strings ?noff (?noff + length (hc_name ?m)) = hc_name ?m" "?noff + length (hc_name ?m) \<le> length strings"
    using cut_piece [of i "map hc_name ms"] i unfolding strings_def by simp_all
  have kept: "?ioff + length (hc_kept threshold ?m) \<le> length blob"
    using cut_piece(2) [of i "map (hc_kept threshold) ms"] i unfolding blob_def by simp
  have T: "length table = length ms * 40" unfolding table_def by (subst concat_rows_length [of _ _ 40]) simp_all
  have "cut table (i * 40) (i * 40 + 40) = hc_entry_bytes (?zs ! i)"
    unfolding table_def using i by (intro cut_concat_row) simp_all
  then have row: "cut table (i * 40) (i * 40 + 40) = ?r" using i by (simp add: hc_place_def)
  have le: "i * 40 + 40 \<le> length table" using i T by simp
  have at: "u16_at (table @ rest) (i * 40) = u16_at ?r 0" "u16_at (table @ rest) (i * 40 + 2) = u16_at ?r 2"
    "u32_at (table @ rest) (i * 40 + 4) = u32_at ?r 4" "u16_at (table @ rest) (i * 40 + 8) = u16_at ?r 8"
    "u64_at (table @ rest) (i * 40 + 12) = u64_at ?r 12" "u32_at (table @ rest) (i * 40 + 20) = u32_at ?r 20"
    "u64_at (table @ rest) (i * 40 + 24) = u64_at ?r 24" "u32_at (table @ rest) (i * 40 + 32) = u32_at ?r 32"
    unfolding row [symmetric] using le by (simp_all add: le_cut_simps le_append_simps)
  have bounds: "ms_boot_off ?m < U64" "ms_boot_len ?m < U32" "?noff < U32" "length (hc_name ?m) < U16" "?ioff < U64"
    using m piece(2) kept small by (simp_all add: spec_ok_def)
  note fields = at [unfolded hc_entry_fields [OF bounds]]
  have name: "utf8_strict (hc_name ?m) = Some (ms_data_file ?m)"
    using m(1) by (simp add: hc_name_def spec_ok_def utf8_strict_bytes)
  have fit: "i * 40 < um" "?noff + length (hc_name ?m) < um" "i * 40 + 40 \<le> length (table @ rest)"
    using le small(2) piece(2) by simp_all
  have inl: "\<not> length blob < ?ioff + ms_boot_len ?m \<and> ?ioff + ms_boot_len ?m < U64" if ?inl
    using that kept m(2) small(3) by (simp add: hc_kept_def)
  show ?thesis
    unfolding hc_entry_def hc_entry_size_def
    using fit fields tag_round name piece inl small(3)
    by (simp add: flag_inlined_def hc_member_of_def Let_def)
qed

text \<open>The header and the two sections after the manifest.\<close>

definition hc_header :: "nat \<Rightarrow> nat \<Rightarrow> nat \<Rightarrow> bytes" where
  "hc_header n l b = hc_magic @ to_le 2 1 @ to_le 2 0 @ to_le 4 n @ to_le 4 l @ to_le 8 b @ to_le 8 0"

lemma hc_header_simps:
  "length (hc_header n l b) = 32" "take 4 (hc_header n l b) = hc_magic" "u16_at (hc_header n l b) 4 = 1"
  "n < U32 \<Longrightarrow> u32_at (hc_header n l b) 8 = n" "l < U32 \<Longrightarrow> u32_at (hc_header n l b) 12 = l"
  "b < U64 \<Longrightarrow> u64_at (hc_header n l b) 16 = b"
proof -
  have m: "length hc_magic = 4" by (simp add: hc_magic_def)
  then show "length (hc_header n l b) = 32" "take 4 (hc_header n l b) = hc_magic" by (simp_all add: hc_header_def)
  show "u16_at (hc_header n l b) 4 = 1" "n < U32 \<Longrightarrow> u32_at (hc_header n l b) 8 = n" "l < U32 \<Longrightarrow> u32_at (hc_header n l b) 12 = l"
    "b < U64 \<Longrightarrow> u64_at (hc_header n l b) 16 = b"
    unfolding hc_header_def using m by (simp_all add: le_append_simps field_alone)
qed

lemma written_opens:
  assumes w: "write_hotcache ms threshold = Ok bs" and ok: "\<forall>m \<in> set ms. spec_ok m" and um: "length bs < um" "um \<le> U64"
  shows "hotcache_open um (mem_read um (mem_new bs))
      = Ok \<lparr>hc_members = map (hc_member_of threshold ms) [0..<length ms], hc_blob = concat (map (hc_kept threshold) ms)\<rparr>"
    and "\<forall>m \<in> set ms. length (ms_boot_bytes m) = ms_boot_len m" "length (concat (map (hc_kept threshold) ms)) < um"
proof -
  let ?n = "length ms" and ?S = "concat (map hc_name ms)" and ?B = "concat (map (hc_kept threshold) ms)"
  let ?T = "concat (map hc_entry_bytes (zip ms (map (hc_place threshold ms) [0..<?n])))"
  obtain r where r: "foldM_o (place_member threshold) ([], [], []) ms = Ok r"
    using w by (auto simp: write_hotcache_def bind_o_Ok_iff)
  note pl = placed [OF r]
  have parts: "bs = hc_header ?n (length ?S) (length ?B) @ ?T @ ?S @ ?B" "?n < U32" "length ?S < U32"
    using w r pl by (auto simp: write_hotcache_def bind_o_Ok_iff hc_header_def)
  show lens: "\<forall>m \<in> set ms. length (ms_boot_bytes m) = ms_boot_len m" using pl by blast
  have T: "length ?T = ?n * 40" by (subst concat_rows_length [of _ _ 40]) simp_all
  let ?L = "?n * 40 + length ?S + length ?B"
  have len: "length bs = 32 + ?L" unfolding parts(1) using T by (simp add: hc_header_simps)
  then show blob: "length ?B < um" using um by simp
  have reads: "rd (mem_read um (mem_new bs)) 0 32 = Ok (cut bs 0 32)" "rd (mem_read um (mem_new bs)) 32 ?L = Ok (cut bs 32 (32 + ?L))"
    using memf.rd_ok [of 0 32 bs um] memf.rd_ok [of 32 ?L bs um] len um(1) by simp_all
  have cuts: "cut bs 0 32 = hc_header ?n (length ?S) (length ?B)" "cut bs 32 (32 + ?L) = ?T @ ?S @ ?B"
  proof -
    show "cut bs 0 32 = hc_header ?n (length ?S) (length ?B)"
      unfolding parts(1) by (simp add: cut_def hc_header_simps)
    have "length (?T @ ?S @ ?B) = ?L" using T by simp
    then show "cut bs 32 (32 + ?L) = ?T @ ?S @ ?B"
      using cut_mid [OF hc_header_simps(1), of "?T @ ?S @ ?B" ?L ?n "length ?S" "length ?B" "[]"] parts(1) by simp
  qed
  have sections: "cut (?T @ ?S @ ?B) (?n * 40) (?n * 40 + length ?S) = ?S"
    "cut (?T @ ?S @ ?B) (?n * 40 + length ?S) (?n * 40 + length ?S + length ?B) = ?B"
  proof -
    show "cut (?T @ ?S @ ?B) (?n * 40) (?n * 40 + length ?S) = ?S" using T by (rule cut_mid) simp
    have "length (?T @ ?S) = ?n * 40 + length ?S" using T by simp
    then show "cut (?T @ ?S @ ?B) (?n * 40 + length ?S) (?n * 40 + length ?S + length ?B) = ?B"
      using cut_mid [of "?T @ ?S" _ ?B "length ?B" "[]"] by simp
  qed
  have entries: "mapM_o (hc_entry um (?T @ ?S @ ?B) ?S ?B) [0..<?n] = Ok (map (hc_member_of threshold ms) [0..<?n])"
    using pl parts(3) T len um ok by (intro mapM_o_map entry_read) simp_all
  have fits: "?n * 40 < um" "?n * 40 + length ?S < um" "?L < um" "length ?B mod um = length ?B" "length ?B < U64"
    using len um by simp_all
  have body: "length (?T @ ?S @ ?B) = ?L" using T by simp
  note hs = hc_header_simps(1-3) hc_header_simps(4) [OF parts(2)] hc_header_simps(5) [OF parts(3)] hc_header_simps(6) [OF fits(5)]
  show "hotcache_open um (mem_read um (mem_new bs)) = Ok \<lparr>hc_members = map (hc_member_of threshold ms) [0..<?n], hc_blob = ?B\<rparr>"
    unfolding hotcache_open_def hc_header_size_def hc_entry_size_def reads(1) cuts(1) bind_o.simps
    using hs fits body reads(2) cuts(2) sections entries
    by (simp del: rd_Ok_iff upt_Suc length_append append_assoc)
qed

text \<open>Which boots are handed out.\<close>

lemma inlined_written:
  assumes i: "i < length ms" and lens: "\<forall>m \<in> set ms. length (ms_boot_bytes m) = ms_boot_len m"
    and um: "length (concat (map (hc_kept threshold) ms)) < um"
    and h: "hc_blob h = concat (map (hc_kept threshold) ms)"
  shows "hc_inlined um h (hc_member_of threshold ms i)
    = Ok (if ms_boot_len (ms ! i) \<le> threshold then Some (ms_boot_bytes (ms ! i)) else None)"
proof (cases "ms_boot_len (ms ! i) \<le> threshold")
  case False
  then show ?thesis by (simp add: hc_inlined_def hc_member_of_def Let_def)
next
  case True
  let ?off = "length (concat (take i (map (hc_kept threshold) ms)))"
  have k: "hc_kept threshold (ms ! i) = ms_boot_bytes (ms ! i)" "length (ms_boot_bytes (ms ! i)) = ms_boot_len (ms ! i)"
    using True lens i by (simp_all add: hc_kept_def)
  have "cut (hc_blob h) ?off (?off + ms_boot_len (ms ! i)) = ms_boot_bytes (ms ! i)" "?off + ms_boot_len (ms ! i) \<le> length (hc_blob h)"
    using cut_piece [of i "map (hc_kept threshold) ms"] i k unfolding h by simp_all
  then show ?thesis using True um h by (simp add: hc_inlined_def hc_member_of_def Let_def)
qed

section \<open>Properties\<close>

text \<open>
  C36: A written bundle opens with two reads to the members it was written from, and gives the boot
  bytes of exactly those whose boot is within the threshold; by name it gives those of the first
  member of that name.
\<close>

theorem hotcache_roundtrip:
  assumes "write_hotcache ms threshold = Ok bs" "\<forall>m \<in> set ms. spec_ok m" "length bs < um" "um \<le> U64"
  shows "\<exists>h. hotcache_open um (mem_read um (mem_new bs)) = Ok h
    \<and> map (\<lambda>m. (mb_tag m, mb_data_file m, mb_boot_off m, mb_boot_len m, mb_inlined m)) (hc_members h)
        = map (\<lambda>m. (ms_tag m, ms_data_file m, ms_boot_off m, ms_boot_len m, ms_boot_len m \<le> threshold)) ms
    \<and> (\<forall>i < length ms. hc_inlined um h (hc_members h ! i)
        = Ok (if ms_boot_len (ms ! i) \<le> threshold then Some (ms_boot_bytes (ms ! i)) else None))
    \<and> (\<forall>name. hc_inlined_by_name um h name
        = (case find (\<lambda>m. ms_data_file m = name) ms of None \<Rightarrow> Ok None
           | Some m \<Rightarrow> Ok (if ms_boot_len m \<le> threshold then Some (ms_boot_bytes m) else None)))"
proof -
  let ?h = "\<lparr>hc_members = map (hc_member_of threshold ms) [0..<length ms], hc_blob = concat (map (hc_kept threshold) ms)\<rparr>"
  note opens = written_opens [OF assms]
  have nth: "hc_inlined um ?h (hc_member_of threshold ms i)
      = Ok (if ms_boot_len (ms ! i) \<le> threshold then Some (ms_boot_bytes (ms ! i)) else None)" if "i < length ms" for i
    by (rule inlined_written [OF that opens(2,3)]) simp
  have files: "mb_data_file (hc_member_of threshold ms i) = ms_data_file (ms ! i)" for i
    by (simp add: hc_member_of_def Let_def)
  have "hc_inlined_by_name um ?h name = (case find (\<lambda>m. ms_data_file m = name) ms of None \<Rightarrow> Ok None
      | Some m \<Rightarrow> Ok (if ms_boot_len m \<le> threshold then Some (ms_boot_bytes m) else None))" for name
  proof (cases "find (\<lambda>m. ms_data_file m = name) ms")
    case None
    then have "find (\<lambda>m. mb_data_file m = name) (hc_members ?h) = None"
      using files by (auto simp: find_None_iff all_set_conv_all_nth)
    then show ?thesis using None by (simp add: hc_inlined_by_name_def)
  next
    case (Some m)
    then obtain i where i: "i < length ms" "ms_data_file (ms ! i) = name" "m = ms ! i" "\<forall>j < i. ms_data_file (ms ! j) \<noteq> name"
      by (auto simp: find_Some_iff)
    then have "find (\<lambda>m. mb_data_file m = name) (hc_members ?h) = Some (hc_member_of threshold ms i)"
      using files by (auto simp: find_Some_iff intro!: exI [of _ i])
    then show ?thesis using Some i nth by (simp add: hc_inlined_by_name_def)
  qed
  then show ?thesis
    using opens(1) nth
    by (intro exI [of _ ?h]) (auto simp: hc_member_of_def Let_def intro!: nth_equalityI)
qed

definition demo_bundle :: "member_spec list" where
  "demo_bundle = [\<lparr>ms_tag = Rril, ms_data_file = [0x61], ms_boot_off = 3, ms_boot_len = 2, ms_boot_bytes = [7, 8]\<rparr>,
     \<lparr>ms_tag = Rrvi, ms_data_file = [0x62], ms_boot_off = 0, ms_boot_len = 3, ms_boot_bytes = [1, 2, 3]\<rparr>]"

lemma demo_bundle_written: obtains bs where "write_hotcache demo_bundle 2 = Ok bs" "length bs < U32"
  by (simp add: write_hotcache_def demo_bundle_def place_member_def Let_def utf8_bytes_def utf8_char_def try_from_def hc_magic_def)

lemma hotcache_roundtrip_witness:
  "\<exists>bs h. write_hotcache demo_bundle 2 = Ok bs \<and> hotcache_open U32 (mem_read U32 (mem_new bs)) = Ok h
    \<and> hc_inlined_by_name U32 h [0x61] = Ok (Some [7, 8]) \<and> hc_inlined_by_name U32 h [0x62] = Ok None"
proof -
  obtain bs where bs: "write_hotcache demo_bundle 2 = Ok bs" "length bs < U32" by (rule demo_bundle_written)
  have ok: "\<forall>m \<in> set demo_bundle. spec_ok m" by (simp add: demo_bundle_def spec_ok_def scalar_def)
  obtain h where h: "hotcache_open U32 (mem_read U32 (mem_new bs)) = Ok h"
    "\<forall>name. hc_inlined_by_name U32 h name
        = (case find (\<lambda>m. ms_data_file m = name) demo_bundle of None \<Rightarrow> Ok None
           | Some m \<Rightarrow> Ok (if ms_boot_len m \<le> 2 then Some (ms_boot_bytes m) else None))"
    using hotcache_roundtrip [OF bs(1) ok bs(2)] by auto
  show ?thesis using bs(1) h by (intro exI [of _ bs] exI [of _ h]) (simp add: demo_bundle_def)
qed




text \<open>A bundle of one member whose inlined boot is one byte, although its entry states a boot of five.\<close>

definition short_boot :: bytes where
  "short_boot = [0x52, 0x52, 0x48, 0x43, 1, 0, 0, 0, 1, 0, 0, 0, 0, 0, 0, 0, 1, 0, 0, 0, 0, 0, 0, 0] @ [0, 0, 0, 0, 0, 0, 0, 0]
     @ [1, 0, 1, 0] @ [0, 0, 0, 0, 0, 0, 0, 0, 0, 0, 0, 0, 0, 0, 0, 0] @ [5, 0, 0, 0] @ [0, 0, 0, 0, 0, 0, 0, 0] @ [1, 0, 0, 0] @ [0, 0, 0, 0] @ [7]"

lemma short_boot_opens:
  "\<exists>h. hotcache_open U64 (mem_read U64 (mem_new short_boot)) = Ok h
    \<and> mb_boot_len (hc_members h ! 0) = 5 \<and> hc_inlined U64 h (hc_members h ! 0) = Ok (Some [7])"
proof -
  let ?f = "mem_read U64 (mem_new short_boot)"
  have len: "length short_boot = 73" by (simp add: short_boot_def)
  have reads: "rd ?f 0 32 = Ok (cut short_boot 0 32)" "rd ?f 32 41 = Ok (cut short_boot 32 73)"
    using memf.rd_ok [of 0 32 short_boot U64] memf.rd_ok [of 32 41 short_boot U64] len by simp_all
  have cuts: "cut short_boot 0 32 = [0x52, 0x52, 0x48, 0x43, 1, 0, 0, 0, 1, 0, 0, 0, 0, 0, 0, 0, 1, 0, 0, 0, 0, 0, 0, 0] @ [0, 0, 0, 0, 0, 0, 0, 0]"
    "cut short_boot 32 73 = [1, 0, 1, 0] @ [0, 0, 0, 0, 0, 0, 0, 0, 0, 0, 0, 0, 0, 0, 0, 0] @ [5, 0, 0, 0] @ [0, 0, 0, 0, 0, 0, 0, 0] @ [1, 0, 0, 0] @ [0, 0, 0, 0] @ [7]"
    unfolding short_boot_def by (simp_all add: cut_def)
  have header: "length (cut short_boot 0 32) = 32" "take 4 (cut short_boot 0 32) = hc_magic" "u16_at (cut short_boot 0 32) 4 = 1"
    "u32_at (cut short_boot 0 32) 8 = 1" "u32_at (cut short_boot 0 32) 12 = 0" "u64_at (cut short_boot 0 32) 16 = 1"
    unfolding cuts by (simp_all add: u16_at_def u32_at_def u64_at_def cut_def hc_magic_def ascii_def)
  have body: "length (cut short_boot 32 73) = 41" "cut (cut short_boot 32 73) 40 40 = []" "cut (cut short_boot 32 73) 40 41 = [7]"
    unfolding cuts by (simp_all add: cut_def)
  have entry: "hc_entry U64 (cut short_boot 32 73) [] [7] 0
      = Ok \<lparr>mb_tag = Rrs, mb_data_file = [], mb_boot_off = 0, mb_boot_len = 5, mb_inlined = True, mb_inline_off = 0, mb_inline_len = 1\<rparr>"
    unfolding cuts by (simp add: hc_entry_def hc_entry_size_def u16_at_def u32_at_def u64_at_def cut_def tag_try_from_def
        utf8_strict.simps flag_inlined_def)
  have "hotcache_open U64 ?f = Ok \<lparr>hc_members = [\<lparr>mb_tag = Rrs, mb_data_file = [], mb_boot_off = 0, mb_boot_len = 5,
      mb_inlined = True, mb_inline_off = 0, mb_inline_len = 1\<rparr>], hc_blob = [7]\<rparr>"
    using reads header body entry by (simp add: hotcache_open_def hc_header_size_def hc_entry_size_def Let_def del: rd_Ok_iff)
  then show ?thesis by (simp add: hc_inlined_def cut_def)
qed


text \<open>Where \<open>usize\<close> has 32 bits the header's inline size is cut to it: a size of \<open>2 ^ 32\<close> is read as none.\<close>

lemma inline_size_truncated:
  "hotcache_open U32 (mem_read U32 (mem_new (hc_header 0 0 U32))) = Ok \<lparr>hc_members = [], hc_blob = []\<rparr>"
proof -
  have "rd (mem_read U32 (mem_new (hc_header 0 0 U32))) 0 32 = Ok (hc_header 0 0 U32)"
    "rd (mem_read U32 (mem_new (hc_header 0 0 U32))) 32 0 = Ok []"
    using memf.rd_ok [of 0 32 "hc_header 0 0 U32" U32] memf.rd_ok [of 32 0 "hc_header 0 0 U32" U32]
      cut_full [of "hc_header 0 0 U32", unfolded hc_header_simps(1)] by (simp_all add: hc_header_simps(1) del: rd_Ok_iff)
  then show ?thesis
    using hc_header_simps [of 0 0 U32] hc_header_simps(6) [of U32 0 0]
    by (simp add: hotcache_open_def hc_header_size_def hc_entry_size_def Let_def del: rd_Ok_iff)
qed

end
