(* ===== verification/RR_Float.thy ===== *)
theory RR_Float imports Main "HOL-Library.Word" "HOL-Library.Log_Nat" begin

text \<open>
  The floating-point arithmetic of the language: IEEE 754 binary32 and binary64 with rounding to
  nearest, ties to even.  A finite value is a sign and a multiple of the format's smallest positive
  number, so every operation is exact integer arithmetic followed by one rounding.

  Shown: a finite \<open>f32\<close> survives its bit pattern; sums, products and quotients of numbers that are not
  negative are not negative and no NaN.
\<close>

datatype fl = NaN | Infinity bool | Fin bool nat

text \<open>Significant bits, the exponent of the smallest positive number, and where overflow begins.\<close>

record fl_format =
  ff_prec :: nat
  ff_unit :: nat
  ff_limit :: nat

definition F32 :: fl_format where "F32 = \<lparr>ff_prec = 24, ff_unit = 149, ff_limit = 2 ^ 277\<rparr>"
definition F64 :: fl_format where "F64 = \<lparr>ff_prec = 53, ff_unit = 1074, ff_limit = 2 ^ 2098\<rparr>"

section \<open>Rounding\<close>

text \<open>The integer nearest to \<open>n / d\<close>, the even one of two.\<close>

definition nearest :: "nat \<Rightarrow> nat \<Rightarrow> nat" where
  "nearest n d = (let q = n div d; r = n mod d in
     if 2 * r < d then q else if 2 * r > d then q + 1 else if even q then q else q + 1)"

text \<open>\<open>n / d\<close> units with as many significant bits as the format has.\<close>

definition fl_round :: "fl_format \<Rightarrow> bool \<Rightarrow> nat \<Rightarrow> nat \<Rightarrow> fl" where
  "fl_round f neg n d =
     (let e = floorlog 2 (n div d) - ff_prec f; k = nearest n (d * 2 ^ e) * 2 ^ e in
      if k \<ge> ff_limit f then Infinity neg else Fin neg k)"

section \<open>Operations\<close>

fun fl_neg :: "fl \<Rightarrow> fl" where
  "fl_neg NaN = NaN"
| "fl_neg (Infinity s) = Infinity (\<not> s)"
| "fl_neg (Fin s k) = Fin (\<not> s) k"

definition fl_int :: "bool \<Rightarrow> nat \<Rightarrow> int" where
  "fl_int s k = (if s then - int k else int k)"

fun fl_add :: "fl_format \<Rightarrow> fl \<Rightarrow> fl \<Rightarrow> fl" where
  "fl_add f (Fin s j) (Fin t k) =
     (let v = fl_int s j + fl_int t k in
      if v = 0 then Fin (s \<and> t) 0 else fl_round f (v < 0) (nat \<bar>v\<bar>) 1)"
| "fl_add f (Infinity s) (Infinity t) = (if s = t then Infinity s else NaN)"
| "fl_add f (Infinity s) (Fin t k) = Infinity s"
| "fl_add f (Fin s j) (Infinity t) = Infinity t"
| "fl_add f NaN y = NaN"
| "fl_add f x NaN = NaN"

definition fl_sub :: "fl_format \<Rightarrow> fl \<Rightarrow> fl \<Rightarrow> fl" where
  "fl_sub f x y = fl_add f x (fl_neg y)"

fun fl_mul :: "fl_format \<Rightarrow> fl \<Rightarrow> fl \<Rightarrow> fl" where
  "fl_mul f (Fin s j) (Fin t k) = fl_round f (s \<noteq> t) (j * k) (2 ^ ff_unit f)"
| "fl_mul f (Infinity s) (Infinity t) = Infinity (s \<noteq> t)"
| "fl_mul f (Infinity s) (Fin t k) = (if k = 0 then NaN else Infinity (s \<noteq> t))"
| "fl_mul f (Fin s j) (Infinity t) = (if j = 0 then NaN else Infinity (s \<noteq> t))"
| "fl_mul f NaN y = NaN"
| "fl_mul f x NaN = NaN"

fun fl_div :: "fl_format \<Rightarrow> fl \<Rightarrow> fl \<Rightarrow> fl" where
  "fl_div f (Fin s j) (Fin t k) =
     (if k = 0 then if j = 0 then NaN else Infinity (s \<noteq> t)
      else fl_round f (s \<noteq> t) (j * 2 ^ ff_unit f) k)"
| "fl_div f (Infinity s) (Infinity t) = NaN"
| "fl_div f (Infinity s) (Fin t k) = Infinity (s \<noteq> t)"
| "fl_div f (Fin s j) (Infinity t) = Fin (s \<noteq> t) 0"
| "fl_div f NaN y = NaN"
| "fl_div f x NaN = NaN"

text \<open>\<open>as f32\<close> and \<open>as f64\<close> of an unsigned integer, and of a double.\<close>

definition fl_of_nat :: "fl_format \<Rightarrow> nat \<Rightarrow> fl" where
  "fl_of_nat f n = fl_round f False (n * 2 ^ ff_unit f) 1"

fun f64_as_f32 :: "fl \<Rightarrow> fl" where
  "f64_as_f32 NaN = NaN"
| "f64_as_f32 (Infinity s) = Infinity s"
| "f64_as_f32 (Fin s k) = fl_round F32 s k (2 ^ (ff_unit F64 - ff_unit F32))"

text \<open>\<open>x.round() as i64\<close>: ties away from zero, saturating, zero for a NaN.\<close>

fun fl_round_i64 :: "fl_format \<Rightarrow> fl \<Rightarrow> int" where
  "fl_round_i64 f NaN = 0"
| "fl_round_i64 f (Infinity s) = (if s then - (2 ^ 63) else 2 ^ 63 - 1)"
| "fl_round_i64 f (Fin s k) =
     max (- (2 ^ 63)) (min (2 ^ 63 - 1) (fl_int s ((2 * k + 2 ^ ff_unit f) div 2 ^ (ff_unit f + 1))))"

text \<open>The order of the values that are no NaN; \<open>partial_cmp\<close> is \<open>None\<close> when one of them is.\<close>

fun fl_rank :: "fl \<Rightarrow> int \<times> int" where
  "fl_rank NaN = (0, 0)"
| "fl_rank (Infinity s) = (if s then - 1 else 1, 0)"
| "fl_rank (Fin s k) = (0, fl_int s k)"

definition fl_is_finite :: "fl \<Rightarrow> bool" where
  "fl_is_finite x = (case x of Fin _ _ \<Rightarrow> True | _ \<Rightarrow> False)"

definition fl_nonpos :: "fl \<Rightarrow> bool" where
  "fl_nonpos x = (case x of NaN \<Rightarrow> False | Infinity s \<Rightarrow> s | Fin s k \<Rightarrow> s \<or> k = 0)"

section \<open>Bit patterns of single precision\<close>

definition f32_of_bits :: "nat \<Rightarrow> fl" where
  "f32_of_bits w =
     (let s = w div 2 ^ 31 mod 2 = 1; e = w div 2 ^ 23 mod 256; m = w mod 2 ^ 23 in
      if e = 255 then if m = 0 then Infinity s else NaN
      else Fin s (if e = 0 then m else (2 ^ 23 + m) * 2 ^ (e - 1)))"

text \<open>The pattern of a NaN is the quiet one; the standard library leaves it open.\<close>

fun f32_bits :: "fl \<Rightarrow> nat" where
  "f32_bits NaN = 255 * 2 ^ 23 + 2 ^ 22"
| "f32_bits (Infinity s) = (if s then 2 ^ 31 else 0) + 255 * 2 ^ 23"
| "f32_bits (Fin s k) = (let e = floorlog 2 k - 24 in (if s then 2 ^ 31 else 0) + e * 2 ^ 23 + k div 2 ^ e)"

definition f32_representable :: "nat \<Rightarrow> bool" where
  "f32_representable k \<longleftrightarrow> k < 2 ^ 277 \<and> 2 ^ (floorlog 2 k - 24) dvd k"

section \<open>Facts\<close>

lemma nearest_le: "n div d < m \<Longrightarrow> nearest n d \<le> m"
  by (auto simp: nearest_def Let_def)

lemma pow_dvd_floorlog:
  assumes "k \<le> 2 ^ p" "0 < p"
  shows "2 ^ (floorlog 2 (k * 2 ^ e) - p) dvd k * (2 :: nat) ^ e"
proof (cases "k = 2 ^ p")
  case True
  then have "k * 2 ^ e = 2 ^ (p + e)" by (simp add: power_add)
  moreover have "floorlog 2 (2 ^ (p + e)) = p + e + 1"
    using floorlog_power [of 2 1 "p + e"] by (simp add: floorlog_def)
  moreover have "(2 :: nat) ^ (e + 1) dvd 2 ^ (p + e)" using assms(2) by (intro le_imp_power_dvd) simp
  ultimately show ?thesis by simp
next
  case False
  then have "k * 2 ^ e < 2 ^ (p + e)" using assms by (simp add: power_add)
  then have "floorlog 2 (k * 2 ^ e) \<le> p + e" by (intro floorlog_leI) simp_all
  then have "2 ^ (floorlog 2 (k * 2 ^ e) - p) dvd (2 :: nat) ^ e" by (intro le_imp_power_dvd) simp
  then show ?thesis by (rule dvd_mult)
qed

lemma fl_round_cases: "fl_round f s n d = Infinity s \<or> (\<exists>k. fl_round f s n d = Fin s k)"
  by (simp add: fl_round_def Let_def)

lemma fl_round_representable:
  assumes "fl_round F32 s n d = Fin t k"
  shows "f32_representable k"
proof -
  let ?e = "floorlog 2 (n div d) - 24"
  have "n div d < 2 ^ (24 + ?e)"
  proof (cases "n div d = 0")
    case False
    then have "n div d < 2 ^ floorlog 2 (n div d)" using floorlog_bounds [of "n div d" 2] by simp
    then show ?thesis by (rule less_le_trans) (intro power_increasing; simp)
  qed simp
  then have "n div (d * 2 ^ ?e) < 2 ^ 24"
    by (simp only: div_mult2_eq) (simp add: less_mult_imp_div_less power_add)
  then have "nearest n (d * 2 ^ ?e) \<le> 2 ^ 24" by (rule nearest_le)
  then have "2 ^ (floorlog 2 k - 24) dvd k"
    using assms pow_dvd_floorlog [of "nearest n (d * 2 ^ ?e)" 24 ?e] by (auto simp: fl_round_def F32_def Let_def split: if_splits)
  then show ?thesis using assms by (auto simp: f32_representable_def fl_round_def F32_def Let_def split: if_splits)
qed

lemma f32_bits_round:
  assumes "f32_representable k"
  shows "f32_of_bits (f32_bits (Fin s k)) = Fin s k" "f32_bits (Fin s k) < 2 ^ 32"
proof -
  define e n where "e = floorlog 2 k - 24" and "n = k div 2 ^ e"
  have k: "k = n * 2 ^ e" "k < 2 ^ 277" using assms by (simp_all add: f32_representable_def e_def n_def)
  have "floorlog 2 k \<le> 277" using k(2) by (intro floorlog_leI) simp_all
  then have e: "e \<le> 253" by (simp add: e_def)
  have "k < 2 ^ (24 + e)"
  proof (cases "k = 0")
    case False
    then have "k < 2 ^ floorlog 2 k" using floorlog_bounds [of k 2] by simp
    then show ?thesis by (rule less_le_trans) (intro power_increasing; simp add: e_def)
  qed simp
  then have n: "n < 2 ^ 24" by (simp add: n_def less_mult_imp_div_less power_add)
  have lo: "2 ^ 23 \<le> n" if "0 < e"
  proof -
    have "2 ^ (floorlog 2 k - 1) \<le> k" using that floorlog_bounds [of k 2] by (cases "k = 0") (simp_all add: e_def floorlog_def)
    moreover have "floorlog 2 k - 1 = 23 + e" using that by (simp add: e_def)
    ultimately have "2 ^ 23 * 2 ^ e \<le> k" by (simp add: power_add)
    then have "2 ^ 23 * 2 ^ e div 2 ^ e \<le> n" unfolding n_def by (rule div_le_mono)
    then show ?thesis by simp
  qed
  then have low: "n < 2 ^ 23 \<Longrightarrow> e = 0" by (meson gr0I leD)
  define w where "w = e * 2 ^ 23 + n"
  have bits: "f32_bits (Fin s k) = (if s then 2 ^ 31 else 0) + w" by (simp add: w_def n_def e_def Let_def)
  define E m where "E = (if n < 2 ^ 23 then 0 else e + 1)" and "m = (if n < 2 ^ 23 then n else n - 2 ^ 23)"
  have w: "w = E * 2 ^ 23 + m" "m < 2 ^ 23" "E \<le> 254"
    using low n e by (auto simp: w_def E_def m_def)
  have kE: "k = (if E = 0 then m else (2 ^ 23 + m) * 2 ^ (E - 1))"
    using k(1) low by (auto simp: E_def m_def)
  have small: "w < 2 ^ 31" using w by simp
  then show "f32_bits (Fin s k) < 2 ^ 32" unfolding bits by simp
  have parts: "((if s then 2 ^ 31 else 0) + w) div 2 ^ 31 mod 2 = (if s then 1 else 0)"
    "((if s then 2 ^ 31 else 0) + w) div 2 ^ 23 mod 256 = E" "((if s then 2 ^ 31 else 0) + w) mod 2 ^ 23 = m"
  proof -
    show "((if s then 2 ^ 31 else 0) + w) div 2 ^ 31 mod 2 = (if s then 1 else 0)" using small by (cases s) simp_all
    define S :: nat where "S = (if s then 256 else 0)"
    have split: "(if s then 2 ^ 31 else 0) + w = (S + E) * 2 ^ 23 + m" using w(1) by (simp add: S_def)
    define x where "x = S + E"
    have "x mod 256 = E" using w(3) by (simp add: S_def x_def)
    then show "((if s then 2 ^ 31 else 0) + w) div 2 ^ 23 mod 256 = E"
      unfolding split x_def [symmetric] using w(2) by simp
    show "((if s then 2 ^ 31 else 0) + w) mod 2 ^ 23 = m"
      unfolding split x_def [symmetric] using w(2) by simp
  qed
  have "E \<noteq> 255" using w(3) by simp
  then show "f32_of_bits (f32_bits (Fin s k)) = Fin s k"
    unfolding bits f32_of_bits_def Let_def parts using kE by simp
qed

text \<open>Numbers that are neither negative nor a NaN.\<close>

definition fl_nonneg :: "fl \<Rightarrow> bool" where
  "fl_nonneg x = (case x of NaN \<Rightarrow> False | Infinity s \<Rightarrow> \<not> s | Fin s k \<Rightarrow> \<not> s)"

lemma fl_nonneg_simps [simp]: "\<not> fl_nonneg NaN" "fl_nonneg (Infinity s) \<longleftrightarrow> \<not> s" "fl_nonneg (Fin s k) \<longleftrightarrow> \<not> s"
  by (simp_all add: fl_nonneg_def)

lemma fl_nonneg_round [simp]: "fl_nonneg (fl_round f False n d)"
  using fl_round_cases [of f False n d] by auto

lemma fl_nonneg_of_nat [simp]: "fl_nonneg (fl_of_nat f n)"
  by (simp add: fl_of_nat_def)

lemma fl_nonneg_add: "fl_nonneg x \<Longrightarrow> fl_nonneg y \<Longrightarrow> fl_nonneg (fl_add f x y)"
  by (cases x; cases y) (auto simp: fl_int_def Let_def not_less)

lemma fl_nonneg_mul: "fl_nonneg x \<Longrightarrow> 0 < k \<Longrightarrow> fl_nonneg (fl_mul f x (Fin False k))"
  by (cases x) auto

lemma fl_nonneg_div: "fl_nonneg x \<Longrightarrow> 0 < k \<Longrightarrow> fl_nonneg (fl_div f x (Fin False k))"
  by (cases x) auto

lemma fl_nonneg_as_f32: "fl_nonneg x \<Longrightarrow> fl_nonneg (f64_as_f32 x)"
  by (cases x) auto

lemma fl_nonneg_not_NaN: "fl_nonneg x \<Longrightarrow> x \<noteq> NaN"
  by (auto simp: fl_nonneg_def)

text \<open>Integers of few enough bits are represented exactly.\<close>

lemma fl_round_exact:
  assumes "2 ^ (floorlog 2 n - ff_prec f) dvd n" "n < ff_limit f"
  shows "fl_round f s n 1 = Fin s n"
proof -
  let ?e = "floorlog 2 n - ff_prec f"
  have "n mod 2 ^ ?e = 0" using assms(1) by (simp add: dvd_eq_mod_eq_0)
  then have "nearest n (2 ^ ?e) = n div 2 ^ ?e" by (simp add: nearest_def Let_def)
  moreover have "n div 2 ^ ?e * 2 ^ ?e = n" using assms(1) by simp
  ultimately show ?thesis using assms(2) by (simp add: fl_round_def Let_def)
qed

lemma fl_round_scaled:
  assumes "m \<le> 2 ^ ff_prec f" "0 < ff_prec f" "m * 2 ^ j < ff_limit f"
  shows "fl_round f s (m * 2 ^ j) 1 = Fin s (m * 2 ^ j)"
  using assms pow_dvd_floorlog [of m "ff_prec f" j] by (intro fl_round_exact) simp_all

lemma format_simps [simp]:
  "ff_prec F32 = 24" "ff_unit F32 = 149" "ff_limit F32 = 2 ^ 277" "ff_prec F64 = 53" "ff_unit F64 = 1074" "ff_limit F64 = 2 ^ 2098"
  by (simp_all add: F32_def F64_def)

text \<open>Rounding stays above a power of two.\<close>

lemma fl_round_ge:
  assumes "2 ^ u \<le> n" "0 < ff_prec f" "fl_round f s n 1 = Fin t k"
  shows "2 ^ u \<le> k"
proof -
  define e where "e = floorlog 2 n - ff_prec f"
  have k: "k = nearest n (2 ^ e) * 2 ^ e" using assms(3) by (auto simp: fl_round_def Let_def e_def split: if_splits)
  have "n div 2 ^ e \<le> nearest n (2 ^ e)" by (simp add: nearest_def Let_def)
  then have ge: "n div 2 ^ e * 2 ^ e \<le> k" unfolding k by (rule mult_right_mono) simp
  show ?thesis
  proof (cases "e \<le> u")
    case True
    then have split: "(2 :: nat) ^ u = 2 ^ (u - e) * 2 ^ e" by (simp flip: power_add)
    then have "2 ^ (u - e) * 2 ^ e div 2 ^ e \<le> n div 2 ^ e" using assms(1) by (intro div_le_mono) simp
    then have "2 ^ (u - e) * 2 ^ e \<le> n div 2 ^ e * 2 ^ e" by (intro mult_right_mono) simp_all
    from le_trans [OF this ge] show ?thesis unfolding split .
  next
    case False
    have n: "0 < n" using assms(1) by (metis gr0I le_zero_eq power_not_zero zero_neq_numeral)
    have low: "2 ^ (floorlog 2 n - 1) \<le> n" using floorlog_bounds [of n 2] n by simp
    have "(2 :: nat) ^ e \<le> 2 ^ (floorlog 2 n - 1)" using assms(2) by (intro power_increasing) (simp_all add: e_def)
    from le_trans [OF this low] have "1 \<le> n div 2 ^ e" by (simp add: less_eq_div_iff_mult_less_eq)
    then have "1 * 2 ^ e \<le> n div 2 ^ e * 2 ^ e" by (rule mult_right_mono) simp
    from le_trans [OF this ge] have "2 ^ e \<le> k" by simp
    moreover have "(2 :: nat) ^ u \<le> 2 ^ e" using False by (intro power_increasing) simp_all
    ultimately show ?thesis by (rule le_trans [rotated])
  qed
qed

end
