(* ===== verification/RR_Bm25.thy ===== *)
theory RR_Bm25 imports RR_Terms_Search RR_Sortcols RR_Float "HOL-Library.Product_Lexorder" begin

text \<open>
  Term impacts RRSB, \<open>rust/src/bm25.rs\<close>: a sidecar of the term index with one quantised BM25 impact per
  term and document, and the searches that rank by them.  Arithmetic is that of \<open>RR_Float\<close>; the
  natural logarithm of the platform's mathematics library is the parameter \<open>ln64\<close>.
\<close>

section \<open>Impacts\<close>

definition rrsb_magic :: bytes where "rrsb_magic = ascii ''RRSB''"
definition rrsb_header :: nat where "rrsb_header = 64"
definition rrsb_entry :: nat where "rrsb_entry = 20"
definition sparse_stride :: nat where "sparse_stride = 512"

definition quantize_impact :: "nat \<Rightarrow> fl \<Rightarrow> fl \<Rightarrow> fl \<Rightarrow> fl \<Rightarrow> nat" where
  "quantize_impact tf dl avgdl k1 b =
     (let tf = fl_of_nat F32 tf; one = fl_of_nat F32 1; scale = fl_add F32 k1 one;
          norm = fl_add F32 (fl_sub F32 one b) (fl_div F32 (fl_mul F32 b dl) avgdl);
          s = fl_div F32 (fl_mul F32 tf scale) (fl_add F32 tf (fl_mul F32 k1 norm)) in
      nat (min 255 (max 1 (fl_round_i64 F32 (fl_div F32 (fl_mul F32 s (fl_of_nat F32 255)) scale)))))"

section \<open>The reader\<close>

record impact_index =
  ii_scale :: fl
  ii_doc_count :: nat
  ii_term_count :: nat
  ii_stride :: nat
  ii_entries_off :: nat
  ii_impacts_off :: nat
  ii_sparse :: "nat list"

definition impact_open :: "nat \<Rightarrow> range_read \<Rightarrow> impact_index ires" where
  "impact_open um f =
     bind_o (rd f 0 rrsb_header) (\<lambda>header.
     if length header < rrsb_header then Err (Malformed ''short RRSB header'')
     else if take 4 header \<noteq> rrsb_magic then Err (BadMagic (take 4 header))
     else
       bind_o (read_u16 header 4) (\<lambda>version.
       if version \<noteq> 1 then Err (BadVersion version)
       else
         bind_o (map_ok f32_of_bits (read_u32 header 8)) (\<lambda>scale.
         bind_o (read_u32 header 24) (\<lambda>term_count.
         bind_o (read_u32 header 28) (\<lambda>stride.
         bind_o (read_u64 header 32) (\<lambda>entries_off.
         bind_o (read_u64 header 40) (\<lambda>impacts_off.
         bind_o (read_u64 header 48) (\<lambda>doc_count.
         if stride = 0 \<or> \<not> fl_is_finite scale \<or> fl_nonpos scale then Err (Malformed ''bad RRSB stride/scale'')
         else
           let sparse_count = (term_count + stride - 1) div stride in
           bind_o (mul_p um sparse_count 8) (\<lambda>sparse_len.
           bind_o (rd f rrsb_header sparse_len) (\<lambda>sparse_bytes.
           if length sparse_bytes < sparse_len then Err (Malformed ''short RRSB sparse index'')
           else
             bind_o (mapM_o (\<lambda>i. read_u64 sparse_bytes (i * 8)) [0..<sparse_count]) (\<lambda>sparse.
             Ok \<lparr>ii_scale = scale, ii_doc_count = doc_count, ii_term_count = term_count, ii_stride = stride,
                ii_entries_off = entries_off, ii_impacts_off = impacts_off, ii_sparse = sparse\<rparr>)))))))))))"

definition impact_doc_count :: "impact_index \<Rightarrow> nat" where
  "impact_doc_count ix = ii_doc_count ix mod U32"

definition entry_stripe :: "nat \<Rightarrow> impact_index \<Rightarrow> nat \<Rightarrow> (nat \<times> nat \<times> nat) ires" where
  "entry_stripe um ix h =
     (let slot = (case bsearch (ii_sparse ix) h of Inl i \<Rightarrow> i | Inr i \<Rightarrow> i - 1) in
      bind_o (mul_p um slot (ii_stride ix)) (\<lambda>first.
      bind_o (sub_p (ii_term_count ix) first) (\<lambda>left.
      let count = min left (ii_stride ix) in
      bind_o (mul_p um first rrsb_entry) (\<lambda>before.
      bind_o (add_p U64 (ii_entries_off ix) before) (\<lambda>off.
      bind_o (mul_p um count rrsb_entry) (\<lambda>len. Ok (off, len, first)))))))"

function entry_find :: "bytes \<Rightarrow> nat \<Rightarrow> nat \<Rightarrow> nat \<Rightarrow> (nat \<times> nat) ires" where
  "entry_find block h lo hi =
     (if lo < hi then
        (let mid = (lo + hi) div 2 in
         bind_o (read_u64 block (mid * rrsb_entry)) (\<lambda>key.
         if key < h then entry_find block h (mid + 1) hi
         else if key > h then entry_find block h lo mid
         else
           bind_o (read_u64 block (mid * rrsb_entry + 8)) (\<lambda>rel.
           bind_o (read_u32 block (mid * rrsb_entry + 16)) (\<lambda>card. Ok (rel, card)))))
      else Err (Malformed ''term head_off missing from RRSB''))"
  by pat_completeness auto
termination
  by (relation "measure (\<lambda>(block, h, lo, hi). hi - lo)") auto

declare entry_find.simps [simp del]

definition impact_entries :: "nat \<Rightarrow> range_read \<Rightarrow> impact_index \<Rightarrow> nat list \<Rightarrow> (nat \<times> nat) list ires" where
  "impact_entries um f ix head_offs =
     bind_o (mapM_o (\<lambda>h. map_ok (\<lambda>(off, len, _). (off, len)) (entry_stripe um ix h)) head_offs) (\<lambda>stripes.
     bind_o (map_err Fetch (read_coalesced um f stripes coalesce_gap)) (\<lambda>blocks.
     mapM_o (\<lambda>(h, block). entry_find block h 0 (length block div rrsb_entry)) (zip head_offs blocks)))"

text \<open>\<open>RoaringBitmap::rank\<close>: how many members are at most \<open>d\<close>.\<close>

definition rank_of :: "nat set \<Rightarrow> nat \<Rightarrow> nat" where
  "rank_of bm d = card {x \<in> bm. x \<le> d}"

text \<open>The one-byte reads of a rerank, each with the index of its term and of its candidate.\<close>

definition impact_range ::
  "impact_index \<Rightarrow> nat \<times> (nat \<times> nat set) \<times> nat \<times> nat \<Rightarrow> nat \<times> nat \<Rightarrow> ((nat \<times> nat) \<times> nat \<times> nat) list ires" where
  "impact_range ix = (\<lambda>(ti, (_, bm), rel, _) (ci, doc).
     if doc \<in> bm then
       bind_o (ok_or (Option.bind (checked_add U64 (ii_impacts_off ix) rel) (\<lambda>p. checked_add U64 p (rank_of bm doc - 1)))
           (Malformed ''RRSB impact offset overflow'')) (\<lambda>pos.
       Ok [((pos, 1), ti, ci)])
     else Ok [])"

definition impact_ranges ::
  "impact_index \<Rightarrow> (nat \<times> nat set) list \<Rightarrow> (nat \<times> nat) list \<Rightarrow> nat list \<Rightarrow> ((nat \<times> nat) \<times> nat \<times> nat) list ires" where
  "impact_ranges ix postings entries candidates =
     map_ok concat (mapM_o (\<lambda>t. map_ok concat (mapM_o (impact_range ix t) (enumerate 0 candidates)))
       (enumerate 0 (zip postings entries)))"

definition idf :: "(fl \<Rightarrow> fl) \<Rightarrow> nat \<Rightarrow> nat \<Rightarrow> fl" where
  "idf ln64 doc_count cardinality =
     (let df = fl_of_nat F64 cardinality; n = fl_of_nat F64 doc_count;
          half = fl_div F64 (fl_of_nat F64 1) (fl_of_nat F64 2) in
      f64_as_f32 (ln64 (fl_add F64 (fl_of_nat F64 1)
        (fl_div F64 (fl_add F64 (fl_sub F64 n df) half) (fl_add F64 df half)))))"

definition add_score :: "fl \<Rightarrow> fl \<Rightarrow> fl \<Rightarrow> nat \<Rightarrow> fl" where
  "add_score scale score weight byte =
     fl_add F32 score (fl_div F32 (fl_mul F32 (fl_mul F32 weight (fl_of_nat F32 byte)) scale) (fl_of_nat F32 255))"

definition add_impact :: "fl \<Rightarrow> fl list \<Rightarrow> fl list \<Rightarrow> (nat \<times> nat) \<times> bytes \<Rightarrow> fl list ires" where
  "add_impact scale idfs scores = (\<lambda>((ti, ci), b).
     bind_o (ok_or (case b of [] \<Rightarrow> None | byte # _ \<Rightarrow> Some byte) (Malformed ''short RRSB impact read'')) (\<lambda>byte.
     bind_o (nth_p idfs ti) (\<lambda>weight.
     bind_o (nth_p scores ci) (\<lambda>score.
     Ok (scores[ci := add_score scale score weight (unat byte)])))))"

definition fl_partial_cmp :: "fl \<Rightarrow> fl \<Rightarrow> ordering option" where
  "fl_partial_cmp x y = (if x = NaN \<or> y = NaN then None else Some (compare (fl_rank x) (fl_rank y)))"

definition score_cmp :: "fl list \<Rightarrow> nat list \<Rightarrow> nat \<Rightarrow> nat \<Rightarrow> ordering" where
  "score_cmp scores candidates a b =
     then_cmp (case fl_partial_cmp (scores ! b) (scores ! a) of Some r \<Rightarrow> r | None \<Rightarrow> Equal)
       (compare (candidates ! a) (candidates ! b))"

type_synonym scored_doc = "nat \<times> fl"

definition rerank ::
  "nat \<Rightarrow> (fl \<Rightarrow> fl) \<Rightarrow> range_read \<Rightarrow> impact_index \<Rightarrow> (nat \<times> nat set) list \<Rightarrow> nat list \<Rightarrow> nat \<Rightarrow> scored_doc list ires" where
  "rerank um ln64 f ix postings candidates k =
     (if candidates = [] \<or> postings = [] \<or> k = 0 then Ok []
      else
        bind_o (impact_entries um f ix (map fst postings)) (\<lambda>entries.
        bind_o (impact_ranges ix postings entries candidates) (\<lambda>ranges.
        bind_o (map_err Fetch (read_coalesced um f (map fst ranges) coalesce_gap)) (\<lambda>bytes.
        let idfs = map (\<lambda>(_, card). idf ln64 (ii_doc_count ix) card) entries in
        bind_o (foldM_o (add_impact (ii_scale ix) idfs) (replicate (length candidates) (Fin False 0)) (zip (map snd ranges) bytes)) (\<lambda>scores.
        bind_o (sort_by (score_cmp scores candidates) [0..<length candidates]) (\<lambda>order.
        Ok (map (\<lambda>i. (candidates ! i, scores ! i)) (take k order))))))))"

section \<open>The searches\<close>

text \<open>The intersection of the heads, begun with the first of the smallest.\<close>

definition and_heads :: "nat set list \<Rightarrow> nat set" where
  "and_heads heads = (if heads = [] then {} else inter_loop (arg_min_list card heads) heads)"

text \<open>The second wave: every term's tail joined to its head.\<close>

definition full_postings :: "deserializer \<Rightarrow> range_read \<Rightarrow> (nat \<times> head_block) list \<Rightarrow> (nat \<times> nat set) list ires" where
  "full_postings deser f heads =
     bind_o (wave (\<lambda>(_, b). read_tail deser f b) heads) (\<lambda>tails.
     Ok (map (\<lambda>((off, b), tail). (off, hb_head b \<union> tail)) (zip heads tails)))"

definition search_bm25 ::
  "nat \<Rightarrow> text_env \<Rightarrow> deserializer \<Rightarrow> (fl \<Rightarrow> fl) \<Rightarrow> range_read \<Rightarrow> term_index \<Rightarrow> range_read \<Rightarrow> impact_index
     \<Rightarrow> rstring \<Rightarrow> nat \<Rightarrow> nat \<Rightarrow> scored_doc list ires" where
  "search_bm25 um env deser ln64 f ti g ix query m k =
     bind_o (query_head_postings um env deser f ti query) (\<lambda>heads.
     case heads of
       None \<Rightarrow> Ok []
     | Some heads \<Rightarrow>
         let acc = and_heads (map (hb_head \<circ> snd) heads); has_tail = list_ex (\<lambda>(_, b). hb_tail_size b > 0) heads in
         if card acc mod um \<ge> m \<or> \<not> has_tail then
           let candidates = first_docs m acc in
           if candidates = [] then Ok []
           else rerank um ln64 g ix (map (\<lambda>(off, b). (off, hb_head b)) heads) candidates k
         else
           bind_o (full_postings deser f heads) (\<lambda>postings.
           bind_o (and_sets (map snd postings)) (\<lambda>acc.
           if acc = {} then Ok [] else rerank um ln64 g ix postings (first_docs m acc) k)))"

lemma min_list_in: "(xs :: nat list) \<noteq> [] \<Longrightarrow> min_list xs \<in> set xs"
  using Min_in [of "set xs"] by (simp add: min_list_Min)

lemma sum_list_less:
  fixes f g :: "'a \<Rightarrow> nat"
  shows "(\<forall>x \<in> set xs. f x \<le> g x) \<Longrightarrow> (\<exists>x \<in> set xs. f x < g x) \<Longrightarrow> sum_list (map f xs) < sum_list (map g xs)"
proof (induction xs)
  case (Cons x xs)
  have "sum_list (map f xs) \<le> sum_list (map g xs)" using Cons.prems(1) by (intro sum_list_mono) simp
  then show ?case using Cons by (auto intro: add_less_le_mono add_le_less_mono)
qed simp

lemma advance_shrinks:
  fixes its :: "nat list list"
  assumes "concat (map (take 1) its) \<noteq> []"
  defines "v \<equiv> min_list (concat (map (take 1) its))"
  shows "sum_list (map (length \<circ> (\<lambda>l. if take 1 l = [v] then tl l else l)) its) < sum_list (map length its)"
proof -
  have "v \<in> set (concat (map (take 1) its))" unfolding v_def by (rule min_list_in [OF assms(1)])
  then obtain l where l: "l \<in> set its" "v \<in> set (take 1 l)" by auto
  have "take 1 l = [v]" using l(2) by (cases l rule: list.exhaust) auto
  then have "length (if take 1 l = [v] then tl l else l) < length l" by (cases l) auto
  moreover have "length (if take 1 m = [v] then tl m else m) \<le> length m" for m by (cases m) auto
  ultimately show ?thesis using l(1) unfolding comp_def by (intro sum_list_less) blast+
qed

text \<open>The merge of ascending lists: what is left of each iterator, its next value first.\<close>

function merge_matches :: "nat \<Rightarrow> nat \<Rightarrow> nat list list \<Rightarrow> nat list \<Rightarrow> nat list" where
  "merge_matches need limit its out =
     (let heads = concat (map (take 1) its) in
      if heads = [] then out
      else
        let v = min_list heads; run = length (filter (\<lambda>l. take 1 l = [v]) its);
            its = map (\<lambda>l. if take 1 l = [v] then tl l else l) its;
            out = (if run \<ge> need then out @ [v] else out) in
        if run \<ge> need \<and> length out \<ge> limit then out else merge_matches need limit its out)"
  by pat_completeness auto
termination
  by (relation "measure (\<lambda>(need, limit, its, out). sum_list (map length its))") (use advance_shrinks in \<open>auto simp: Let_def\<close>)

declare merge_matches.simps [simp del]

definition min_match_candidates :: "nat set list \<Rightarrow> nat \<Rightarrow> nat \<Rightarrow> nat list" where
  "min_match_candidates bitmaps min_match limit =
     (if limit = 0 \<or> min_match = 0 then [] else merge_matches min_match limit (map sorted_list_of_set bitmaps) [])"

definition search_bm25_min_match ::
  "nat \<Rightarrow> text_env \<Rightarrow> deserializer \<Rightarrow> (fl \<Rightarrow> fl) \<Rightarrow> range_read \<Rightarrow> term_index \<Rightarrow> range_read \<Rightarrow> impact_index
     \<Rightarrow> rstring \<Rightarrow> nat \<Rightarrow> nat \<Rightarrow> nat \<Rightarrow> scored_doc list ires" where
  "search_bm25_min_match um env deser ln64 f ti g ix query m k min_match =
     bind_o (query_head_postings_present um env deser f ti query) (\<lambda>heads.
     if heads = [] then Ok []
     else
       let need = min (length heads) (max 1 min_match);
           acc = min_match_candidates (map (hb_head \<circ> snd) heads) need m;
           has_tail = list_ex (\<lambda>(_, b). hb_tail_size b > 0) heads in
       if length acc \<ge> m \<or> \<not> has_tail then
         if acc = [] then Ok []
         else rerank um ln64 g ix (map (\<lambda>(off, b). (off, hb_head b)) heads) acc k
       else
         bind_o (full_postings deser f heads) (\<lambda>postings.
         let candidates = min_match_candidates (map snd postings) need m in
         if candidates = [] then Ok [] else rerank um ln64 g ix postings candidates k))"

section \<open>The writer\<close>

text \<open>\<open>terms\<close> is read only through \<open>get\<close>, so the ordered map is a function.\<close>

record impacts_acc =
  ia_tokenizer :: tokenizer
  ia_terms :: "rstring \<Rightarrow> (nat \<times> nat) list option"
  ia_doc_lens :: "nat list"
  ia_next :: nat

definition acc_new :: "tokenizer \<Rightarrow> impacts_acc" where
  "acc_new tk = \<lparr>ia_tokenizer = tk, ia_terms = Map.empty, ia_doc_lens = [], ia_next = 0\<rparr>"

definition count_token :: "(rstring \<Rightarrow> nat option) \<Rightarrow> rstring \<Rightarrow> (rstring \<Rightarrow> nat option) io" where
  "count_token tf t = bind_o (add_p U32 (case tf t of None \<Rightarrow> 0 | Some n \<Rightarrow> n) 1) (\<lambda>n. Ok (tf(t \<mapsto> n)))"

definition push_doc :: "nat \<Rightarrow> (rstring \<Rightarrow> (nat \<times> nat) list option) \<Rightarrow> rstring \<times> nat \<Rightarrow> (rstring \<Rightarrow> (nat \<times> nat) list option)" where
  "push_doc doc = (\<lambda>terms (t, n). terms(t \<mapsto> (case terms t of None \<Rightarrow> [] | Some l \<Rightarrow> l) @ [(doc, n)]))"

definition add_doc :: "text_env \<Rightarrow> impacts_acc \<Rightarrow> rstring \<Rightarrow> (nat \<times> impacts_acc) io" where
  "add_doc env acc body =
     (let doc = ia_next acc in
      bind_o (add_p U32 doc 1) (\<lambda>after.
      let toks = tokenize env (ia_tokenizer acc) body in
      bind_o (foldM_o count_token Map.empty toks) (\<lambda>tf.
      let counted = map (\<lambda>t. (t, the (tf t))) (sort_key utf8_bytes (remdups toks)) in
      Ok (doc, acc\<lparr>ia_terms := foldl (push_doc doc) (ia_terms acc) counted,
               ia_doc_lens := ia_doc_lens acc @ [length toks], ia_next := after\<rparr>))))"

definition acc_doc_count :: "impacts_acc \<Rightarrow> nat" where
  "acc_doc_count acc = length (ia_doc_lens acc) mod U32"

definition average_length :: "impacts_acc \<Rightarrow> fl" where
  "average_length acc = fl_div F32 (fl_of_nat F32 (sum_list (ia_doc_lens acc))) (fl_of_nat F32 (length (ia_doc_lens acc)))"

text \<open>One turn of the loop over the dictionary: the entries and impacts so far, and the last offset.\<close>

definition impact_step ::
  "impacts_acc \<Rightarrow> fl \<Rightarrow> fl \<Rightarrow> ((nat \<times> nat \<times> nat) list \<times> nat list \<times> nat option) \<Rightarrow> rstring \<times> nat
     \<Rightarrow> ((nat \<times> nat \<times> nat) list \<times> nat list \<times> nat option) io" where
  "impact_step acc k1 b = (\<lambda>(entries, impacts, prev) (term, head_off).
     if (case prev of None \<Rightarrow> False | Some p \<Rightarrow> head_off \<le> p) then Err ''RRSB dict head_offs not ascending''
     else
       bind_o (ok_or (ia_terms acc term) ''dictionary term has no accumulated stats: tokenizer mismatch?'') (\<lambda>tfs.
       bind_o (mapM_o (\<lambda>(doc, tf). bind_o (nth_p (ia_doc_lens acc) doc) (\<lambda>dl.
         Ok (quantize_impact tf (fl_of_nat F32 dl) (average_length acc) k1 b))) tfs) (\<lambda>pushed.
       Ok (entries @ [(head_off, length impacts, length tfs mod U32)], impacts @ pushed, Some head_off))))"

definition impact_entry_bytes :: "nat \<times> nat \<times> nat \<Rightarrow> bytes" where
  "impact_entry_bytes = (\<lambda>(head_off, rel, cd). to_le 8 head_off @ to_le 8 rel @ to_le 4 cd)"

definition write_impacts :: "(rstring \<times> nat) list \<Rightarrow> impacts_acc \<Rightarrow> fl \<Rightarrow> fl \<Rightarrow> bytes io" where
  "write_impacts dict acc k1 b =
     (if ia_doc_lens acc = [] then Err ''RRSB build over zero documents''
      else
        bind_o (foldM_o (impact_step acc k1 b) ([], [], None) dict) (\<lambda>(entries, impacts, _).
        let term_count = length entries mod U32;
            sparse_count = (term_count + sparse_stride - 1) div sparse_stride;
            entries_off = rrsb_header + sparse_count * 8;
            impacts_off = entries_off + length entries * rrsb_entry in
        bind_o (mapM_o (\<lambda>i. map_ok (to_le 8 \<circ> fst) (nth_p entries (i * sparse_stride))) [0..<sparse_count]) (\<lambda>sparse.
        Ok (rrsb_magic @ to_le 2 1 @ to_le 2 0 @ to_le 4 (f32_bits (fl_add F32 k1 (fl_of_nat F32 1)))
            @ to_le 4 (f32_bits k1) @ to_le 4 (f32_bits b) @ to_le 4 (f32_bits (average_length acc))
            @ to_le 4 term_count @ to_le 4 sparse_stride @ to_le 8 entries_off @ to_le 8 impacts_off
            @ to_le 8 (length (ia_doc_lens acc)) @ to_le 8 0
            @ concat sparse @ concat (map impact_entry_bytes entries) @ map of_nat impacts))))"

section \<open>The merge\<close>

definition holding :: "nat list list \<Rightarrow> nat \<Rightarrow> nat" where
  "holding its d = length (filter (\<lambda>l. d \<in> set l) its)"

lemma head_is_member: "sorted_wrt (<) (l :: nat list) \<Longrightarrow> v \<in> set l \<Longrightarrow> (\<forall>x \<in> set l. v \<le> x) \<Longrightarrow> take 1 l = [v]"
proof (cases l rule: list.exhaust)
  case (Cons x xs)
  assume "sorted_wrt (<) l" "v \<in> set l" "\<forall>x \<in> set l. v \<le> x"
  then have "v = x" unfolding Cons by (metis leD list.set_intros(1) set_ConsD sorted_wrt.simps(2))
  then show ?thesis using Cons by simp
qed simp

lemma merge_matches_spec:
  assumes "\<forall>l \<in> set its. sorted_wrt (<) l" "length out < limit"
  shows "merge_matches need limit its out
    = out @ take (limit - length out) (filter (\<lambda>d. need \<le> holding its d) (sorted_list_of_set (\<Union>(set ` set its))))"
  using assms
proof (induction need limit its out rule: merge_matches.induct)
  case (1 need limit its out)
  let ?heads = "concat (map (take 1) its)" and ?U = "\<Union>(set ` set its)"
  show ?case
  proof (cases "?heads = []")
    case True
    then have "\<forall>l \<in> set its. l = []" by auto
    then have U: "?U = {}" by auto
    show ?thesis unfolding U using True by (simp add: merge_matches.simps)
  next
    case False
    define v where "v = min_list ?heads"
    define its' where "its' = map (\<lambda>l. if take 1 l = [v] then tl l else l) its"
    have vin: "v \<in> set ?heads" unfolding v_def by (rule min_list_in [OF False])
    have least: "v \<le> x" if lx: "l \<in> set its" "x \<in> set l" for l x
    proof -
      obtain y ys where l: "l = y # ys" using lx(2) by (cases l rule: list.exhaust) auto
      then have "y \<le> x" using "1.prems"(1) lx by fastforce
      moreover have "y \<in> set ?heads" using l lx(1) by force
      then have "v \<le> y" unfolding v_def min_list_Min [OF False] by (intro Min_le) simp_all
      ultimately show ?thesis by simp
    qed
    have starts: "take 1 l = [v] \<longleftrightarrow> v \<in> set l" if "l \<in> set its" for l
      using that "1.prems"(1) least head_is_member [of l v] by (cases l rule: list.exhaust) auto
    have rest: "set (if take 1 l = [v] then tl l else l) = set l - {v}" if "l \<in> set its" for l
    proof -
      have "sorted_wrt (<) l" using that "1.prems"(1) by blast
      then show ?thesis using starts [OF that] by (cases l rule: list.exhaust) auto
    qed
    have sorted': "\<forall>l \<in> set its'. sorted_wrt (<) l"
      using "1.prems"(1) by (auto simp: its'_def) (metis list.set_sel(2) list.exhaust_sel sorted_wrt.simps(2) tl_Nil)
    have fin: "finite ?U" by blast
    have vU: "v \<in> ?U" using vin by (auto dest: in_set_takeD)
    have U': "\<Union>(set ` set its') = ?U - {v}"
    proof -
      have "set ` set its' = (\<lambda>l. set l - {v}) ` set its"
        unfolding its'_def set_map image_image using rest by (rule image_cong [OF refl])
      then show ?thesis by auto
    qed
    have "Min ?U = v" using fin vU least by (intro Min_eqI) auto
    then have U: "sorted_list_of_set ?U = v # sorted_list_of_set (?U - {v})"
      using fin vU by (metis empty_iff sorted_list_of_set_nonempty)
    have hold: "holding its' d = holding its d" if "d \<noteq> v" for d
    proof -
      have "filter (\<lambda>l. d \<in> set (if take 1 l = [v] then tl l else l)) its = filter (\<lambda>l. d \<in> set l) its"
        using rest that by (intro filter_cong) auto
      then show ?thesis by (simp add: holding_def its'_def filter_map comp_def)
    qed
    have run: "length (filter (\<lambda>l. take 1 l = [v]) its) = holding its v"
      unfolding holding_def using starts by (metis (mono_tags, lifting) filter_cong)
    have filt: "filter (\<lambda>d. need \<le> holding its' d) (sorted_list_of_set (?U - {v})) = filter (\<lambda>d. need \<le> holding its d) (sorted_list_of_set (?U - {v}))"
      using fin hold by (intro filter_cong) auto
    define out' where "out' = (if holding its v \<ge> need then out @ [v] else out)"
    have step: "merge_matches need limit its out
        = (if holding its v \<ge> need \<and> length out' \<ge> limit then out' else merge_matches need limit its' out')"
      using False by (subst merge_matches.simps) (simp only: Let_def if_False v_def [symmetric] its'_def [symmetric] run out'_def [symmetric])
    show ?thesis
    proof (cases "holding its v \<ge> need \<and> length out' \<ge> limit")
      case True
      then have "limit \<le> Suc (length out)" by (auto simp: out'_def)
      then have "limit - length out = 1" using "1.prems"(2) by simp
      moreover have n: "need \<le> holding its v" using True by blast
      moreover have "merge_matches need limit its out = out @ [v]"
        using step [unfolded if_P [OF True]] unfolding out'_def if_P [OF n] .
      ultimately show ?thesis unfolding U by simp
    next
      case more: False
      then have l': "length out' < limit" using "1.prems"(2) by (auto simp: out'_def split: if_splits)
      have "merge_matches need limit its' out' = out' @ take (limit - length out') (filter (\<lambda>d. need \<le> holding its' d) (sorted_list_of_set (\<Union>(set ` set its'))))"
        using "1.IH" [OF refl False v_def refl] more sorted' l' unfolding run its'_def out'_def by blast
      also have "\<dots> = out' @ take (limit - length out') (filter (\<lambda>d. need \<le> holding its d) (sorted_list_of_set (?U - {v})))"
        unfolding U' filt ..
      finally have rec: "merge_matches need limit its' out' = \<dots>" .
      have "limit - length out = Suc (limit - Suc (length out))" using "1.prems"(2) by simp
      then show ?thesis
        using step [unfolded if_not_P [OF more] rec] unfolding U by (simp add: out'_def)
    qed
  qed
qed

text \<open>The merge is the plain count over the union.\<close>

lemma min_match_candidates_exact:
  assumes "\<forall>b \<in> set bitmaps. finite b"
  shows "min_match_candidates bitmaps min_match limit
    = (if min_match = 0 then []
       else take limit (filter (\<lambda>d. min_match \<le> length (filter (\<lambda>b. d \<in> b) bitmaps)) (sorted_list_of_set (\<Union>(set bitmaps)))))"
proof -
  let ?its = "map sorted_list_of_set bitmaps"
  have "set ` set ?its = set bitmaps" using assms by (force simp: image_iff)
  moreover have "holding ?its d = length (filter (\<lambda>b. d \<in> b) bitmaps)" for d
  proof -
    have "filter (\<lambda>b. d \<in> set (sorted_list_of_set b)) bitmaps = filter (\<lambda>b. d \<in> b) bitmaps"
      using assms by (intro filter_cong) auto
    then show ?thesis by (simp add: holding_def filter_map comp_def)
  qed
  moreover have "\<forall>l \<in> set ?its. sorted_wrt (<) l" using strict_sorted_list_of_set by auto
  ultimately show ?thesis using merge_matches_spec [of ?its "[]" limit min_match] by (auto simp: min_match_candidates_def)
qed

end
