(* ===== verification/RR_Bm25_Store.thy ===== *)
theory RR_Bm25_Store imports RR_Bm25 begin

text \<open>
  Reranking over a stored impact sidecar: the entry of a posting is found through the sparse index, a
  candidate's impact is addressed by its rank in the posting, and the scores order the candidates.
\<close>

section \<open>What a sidecar holds\<close>

type_synonym impact_row = "nat \<times> nat \<times> nat"

definition impact_file :: "nat \<Rightarrow> bytes \<Rightarrow> impact_index \<Rightarrow> impact_row list \<Rightarrow> bool" where
  "impact_file um content ix rows \<longleftrightarrow>
     ii_term_count ix = length rows \<and> 0 < ii_stride ix
     \<and> ii_sparse ix = map (\<lambda>i. fst (rows ! (i * ii_stride ix))) [0..<(length rows + ii_stride ix - 1) div ii_stride ix]
     \<and> ii_entries_off ix + length rows * 20 \<le> length content
     \<and> cut content (ii_entries_off ix) (ii_entries_off ix + length rows * 20) = concat (map impact_entry_bytes rows)
     \<and> sorted_wrt (<) (map fst rows) \<and> (\<forall>(h, rel, cd) \<in> set rows. h < U64 \<and> rel < U64 \<and> cd < U32)
     \<and> length content < um \<and> um \<le> U64"

lemma length_impact_entry_bytes [simp]: "length (impact_entry_bytes r) = 20"
  by (simp add: impact_entry_bytes_def split: prod.splits)

section \<open>Looking up an entry\<close>

lemma stride_slot:
  fixes j n s :: nat
  assumes "0 < s" "j < n"
  shows "j div s < (n + s - 1) div s"
proof -
  have "(j + s) div s \<le> (n + s - 1) div s" using assms by (intro div_le_mono) simp
  then show ?thesis using assms(1) by simp
qed

lemma slot_start:
  fixes n s i :: nat
  assumes "0 < s" "i < (n + s - 1) div s"
  shows "i * s < n"
proof -
  have "(i + 1) * s \<le> (n + s - 1) div s * s" using assms(2) by (intro mult_right_mono) simp_all
  also have "\<dots> \<le> n + s - 1" by simp
  finally show ?thesis using assms(1) by simp
qed

text \<open>The slot the bisection of the sparse index chooses is the one of the row.\<close>

lemma sparse_slot:
  assumes f: "impact_file um content ix rows" and j: "j < length rows"
  shows "(case bsearch (ii_sparse ix) (fst (rows ! j)) of Inl i \<Rightarrow> i | Inr i \<Rightarrow> i - 1) = j div ii_stride ix"
proof -
  let ?s = "ii_stride ix" and ?n = "length rows" and ?h = "fst (rows ! j)"
  let ?c = "(?n + ?s - 1) div ?s"
  have s: "0 < ?s" and sp: "ii_sparse ix = map (\<lambda>i. fst (rows ! (i * ?s))) [0..<?c]" and asc: "sorted_wrt (<) (map fst rows)"
    using f by (simp_all add: impact_file_def)
  have lt: "fst (rows ! a) < fst (rows ! b)" if "a < b" "b < ?n" for a b
    using sorted_wrt_nth_less [OF asc, of a b] that by simp
  have le_iff: "fst (rows ! a) \<le> ?h \<longleftrightarrow> a \<le> j" if "a < ?n" for a
    using lt [of a j] lt [of j a] that j by (metis leD leI le_neq_implies_less less_imp_le order_refl)
  have start: "i * ?s < ?n" if "i < ?c" for i using slot_start [OF s that] .
  have jc: "j div ?s < ?c" by (rule stride_slot [OF s j])
  have slot: "i = j div ?s" if "i < ?c" "i * ?s \<le> j" "i + 1 < ?c \<longrightarrow> j < (i + 1) * ?s" for i
  proof -
    have "j < (i + 1) * ?s"
    proof (cases "i + 1 < ?c")
      case False
      then have "?c = i + 1" using that(1) by simp
      then have "?n + ?s - 1 < ?s + (i + 1) * ?s" using dividend_less_div_times [OF s, of "?n + ?s - 1"] by simp
      then show ?thesis using j s by linarith
    qed (use that(3) in blast)
    then show ?thesis using that(2) by (intro div_nat_eqI [symmetric]) (simp_all add: mult.commute)
  qed
  have sorted: "sorted (ii_sparse ix)"
    unfolding sp sorted_iff_nth_mono_less
  proof (intro allI impI)
    fix a b assume ab: "a < b" "b < length (map (\<lambda>i. fst (rows ! (i * ?s))) [0..<?c])"
    then have "b * ?s < ?n" by (intro start) simp
    moreover have "a * ?s < b * ?s" using ab(1) s by simp
    ultimately show "map (\<lambda>i. fst (rows ! (i * ?s))) [0..<?c] ! a \<le> map (\<lambda>i. fst (rows ! (i * ?s))) [0..<?c] ! b"
      using lt [of "a * ?s" "b * ?s"] ab by simp
  qed
  show ?thesis
  proof (cases "bsearch (ii_sparse ix) ?h")
    case (Inl i)
    have i: "i < ?c" "fst (rows ! (i * ?s)) = ?h" using bsearch_by_Inl [OF Inl] by (auto simp: sp)
    then have "i * ?s = j" using lt start j by (metis less_irrefl linorder_neqE_nat)
    then show ?thesis using Inl s by auto
  next
    case (Inr i)
    have b: "i \<le> ?c" "a < i \<Longrightarrow> fst (rows ! (a * ?s)) < ?h" "i \<le> a \<Longrightarrow> a < ?c \<Longrightarrow> ?h < fst (rows ! (a * ?s))" for a
      using bsearch_by_Inr [where key = "\<lambda>x. x", simplified, OF sorted Inr] by (auto simp: sp)
    have pos: "0 < i"
    proof (rule ccontr)
      assume "\<not> 0 < i"
      moreover have "0 < ?c" using jc by simp
      ultimately have "?h < fst (rows ! (0 * ?s))" by (intro b(3)) simp_all
      moreover have "fst (rows ! 0) \<le> ?h" using le_iff [of 0] j by (cases rows) auto
      ultimately show False by simp
    qed
    have c: "i - 1 < ?c" using b(1) pos by linarith
    have "fst (rows ! ((i - 1) * ?s)) < ?h" using pos by (intro b(2)) simp
    then have "(i - 1) * ?s \<le> j" using le_iff [OF start [OF c]] by simp
    moreover have "i - 1 + 1 < ?c \<longrightarrow> j < (i - 1 + 1) * ?s"
    proof
      assume "i - 1 + 1 < ?c"
      then have ic: "i < ?c" using pos by simp
      then have "?h < fst (rows ! (i * ?s))" by (intro b(3)) simp_all
      then have "j < i * ?s" using le_iff [OF start [OF ic]] by simp
      then show "j < (i - 1 + 1) * ?s" using pos by simp
    qed
    ultimately have "i - 1 = j div ?s" using c by (intro slot)
    then show ?thesis using Inr by simp
  qed
qed

lemma entry_stripe_ok:
  assumes f: "impact_file um content ix rows" and j: "j < length rows"
  defines "first \<equiv> j div ii_stride ix * ii_stride ix"
  defines "cnt \<equiv> min (length rows - first) (ii_stride ix)"
  shows "entry_stripe um ix (fst (rows ! j)) = Ok (ii_entries_off ix + first * 20, cnt * 20, first)"
    and "first \<le> j" "j < first + cnt" "first + cnt \<le> length rows"
proof -
  let ?s = "ii_stride ix" and ?n = "length rows"
  have s: "0 < ?s" and n: "ii_term_count ix = ?n" "ii_entries_off ix + ?n * 20 < um" "um \<le> U64"
    using f by (simp_all add: impact_file_def)
  show fj: "first \<le> j" unfolding first_def by simp
  have "j < first + ?s" unfolding first_def using s by (metis add.commute div_mod_decomp mod_less_divisor nat_add_left_cancel_less)
  then show "j < first + cnt" using j by (auto simp: cnt_def)
  show fc: "first + cnt \<le> ?n" using fj j by (simp add: cnt_def)
  have "first * 20 \<le> ?n * 20" "cnt * 20 \<le> ?n * 20" using fc by (simp_all add: mult_right_mono)
  then show "entry_stripe um ix (fst (rows ! j)) = Ok (ii_entries_off ix + first * 20, cnt * 20, first)"
    using sparse_slot [OF f j] n fj j fc
    by (simp add: entry_stripe_def Let_def rrsb_entry_def first_def [symmetric] cnt_def)
qed

lemma impact_row_fields:
  assumes "i < length rs" "rs ! i = (h, rel, cd)" "h < U64" "rel < U64" "cd < U32"
  defines "block \<equiv> concat (map impact_entry_bytes rs)"
  shows "read_u64 block (i * 20) = Ok h" "read_u64 block (i * 20 + 8) = Ok rel" "read_u32 block (i * 20 + 16) = Ok cd"
proof -
  let ?r = "impact_entry_bytes (h, rel, cd)"
  have len: "length block = length rs * 20" unfolding block_def by (subst concat_rows_length [of _ _ 20]) simp_all
  have "(i + 1) * 20 \<le> length rs * 20" using assms(1) by (intro mult_right_mono) simp_all
  then have le: "i * 20 + 20 \<le> length block" using len by simp
  have row: "cut block (i * 20) (i * 20 + 20) = ?r"
    unfolding block_def using assms(1,2) cut_concat_row [of rs impact_entry_bytes 20 i] by simp
  have r: "u64_at ?r 0 = h" "u64_at ?r 8 = rel" "u32_at ?r 16 = cd"
  proof -
    show "u64_at ?r 0 = h" unfolding impact_entry_bytes_def prod.case using assms(3) by (rule u64_at_0)
    show "u64_at ?r 8 = rel" unfolding impact_entry_bytes_def prod.case using assms(4) by (intro u64_at_mid) simp_all
    show "u32_at ?r 16 = cd"
      unfolding impact_entry_bytes_def prod.case
      using u32_at_mid [of "to_le 8 h @ to_le 8 rel" 16 cd "[]"] assms(5) by simp
  qed
  have "u64_at block (i * 20) = h" "u64_at block (i * 20 + 8) = rel" "u32_at block (i * 20 + 16) = cd"
    using r le unfolding row [symmetric] by (simp_all add: le_cut_simps)
  then show "read_u64 block (i * 20) = Ok h" "read_u64 block (i * 20 + 8) = Ok rel" "read_u32 block (i * 20 + 16) = Ok cd"
    using le by simp_all
qed

lemma entry_find_ok:
  assumes asc: "sorted_wrt (<) (map fst rs)" and fits: "\<forall>(h, rel, cd) \<in> set rs. h < U64 \<and> rel < U64 \<and> cd < U32"
    and j: "j < length rs" "rs ! j = (h, rel, cd)" "lo \<le> j" "j < hi" "hi \<le> length rs"
  shows "entry_find (concat (map impact_entry_bytes rs)) h lo hi = Ok (rel, cd)"
  using j(3-5)
proof (induction "hi - lo" arbitrary: lo hi rule: less_induct)
  case less
  let ?mid = "(lo + hi) div 2"
  have mid: "lo \<le> ?mid" "?mid < hi" "?mid < length rs" using less.prems by auto
  obtain k r c where row: "rs ! ?mid = (k, r, c)" by (metis prod_cases3)
  have "(k, r, c) \<in> set rs" using row mid(3) by (metis nth_mem)
  then have "k < U64" "r < U64" "c < U32" using fits by auto
  note rd = impact_row_fields [OF mid(3) row this]
  have lt: "fst (rs ! a) < fst (rs ! b)" if "a < b" "b < length rs" for a b
    using sorted_wrt_nth_less [OF asc, of a b] that by simp
  have unfold: "entry_find (concat (map impact_entry_bytes rs)) h lo hi
      = (if k < h then entry_find (concat (map impact_entry_bytes rs)) h (?mid + 1) hi
         else if k > h then entry_find (concat (map impact_entry_bytes rs)) h lo ?mid else Ok (r, c))"
    using less.prems rd by (subst entry_find.simps) (simp add: rrsb_entry_def Let_def)
  consider "?mid < j" | "j < ?mid" | "?mid = j" by linarith
  then show ?case
  proof cases
    case 1
    then have "k < h" using lt [OF 1 j(1)] row j(2) by simp
    then show ?thesis using unfold less.hyps [of hi "?mid + 1"] less.prems 1 mid by simp
  next
    case 2
    then have "h < k" using lt [OF 2 mid(3)] row j(2) by simp
    then show ?thesis using unfold less.hyps [of ?mid lo] less.prems 2 mid by simp
  next
    case 3
    then show ?thesis using unfold row j(2) by simp
  qed
qed

context full_fetch
begin

lemma impact_entries_ok:
  assumes f: "impact_file um content ix rows" and lim: "length content < lim" "lim \<le> um"
    and hs: "\<forall>h \<in> set hs. h \<in> fst ` set rows"
  shows "impact_entries um fetch ix hs = Ok (map (\<lambda>h. the (map_of rows h)) hs)"
proof -
  let ?s = "ii_stride ix" and ?n = "length rows" and ?off = "ii_entries_off ix"
  have asc: "sorted_wrt (<) (map fst rows)" and fits: "\<forall>(h, rel, cd) \<in> set rows. h < U64 \<and> rel < U64 \<and> cd < U32"
    and at: "?off + ?n * 20 \<le> length content" "cut content ?off (?off + ?n * 20) = concat (map impact_entry_bytes rows)"
    and um: "length content < um" "um \<le> U64" using f by (simp_all add: impact_file_def)
  define place where "place h = (SOME j. j < ?n \<and> fst (rows ! j) = h)" for h
  have place: "place h < ?n" "fst (rows ! place h) = h" if "h \<in> set hs" for h
  proof -
    have "\<exists>j. j < ?n \<and> fst (rows ! j) = h" using hs that by (force simp: in_set_conv_nth)
    then show "place h < ?n" "fst (rows ! place h) = h" unfolding place_def by (metis (mono_tags, lifting) someI_ex)+
  qed
  define first cnt where "first h = place h div ?s * ?s" and "cnt h = min (?n - first h) ?s" for h
  have stripe: "entry_stripe um ix h = Ok (?off + first h * 20, cnt h * 20, first h)"
    "first h \<le> place h" "place h < first h + cnt h" "first h + cnt h \<le> ?n" if "h \<in> set hs" for h
    using entry_stripe_ok [OF f place(1) [OF that]] place(2) [OF that] by (simp_all add: first_def cnt_def)
  have stripes: "mapM_o (\<lambda>h. map_ok (\<lambda>(off, len, _). (off, len)) (entry_stripe um ix h)) hs
      = Ok (map (\<lambda>h. (?off + first h * 20, cnt h * 20)) hs)"
    using stripe(1) by (intro mapM_o_map) simp
  have inside: "?off + first h * 20 + cnt h * 20 \<le> ?off + ?n * 20" if "h \<in> set hs" for h
    using mult_right_mono [OF stripe(4) [OF that], of 20] by (simp add: add_mult_distrib)
  have blocks: "read_coalesced um fetch (map (\<lambda>h. (?off + first h * 20, cnt h * 20)) hs) coalesce_gap
      = Ok (map (\<lambda>(off, len). cut content off (off + len)) (map (\<lambda>h. (?off + first h * 20, cnt h * 20)) hs))"
    using inside at(1) lim um by (intro coalesced_ok) (fastforce, simp_all)
  have block: "cut content (?off + first h * 20) (?off + first h * 20 + cnt h * 20)
      = concat (map impact_entry_bytes (cut rows (first h) (first h + cnt h)))" if "h \<in> set hs" for h
  proof -
    have "cut (concat (map impact_entry_bytes rows)) (first h * 20) ((first h + cnt h) * 20)
        = concat (map impact_entry_bytes (cut rows (first h) (first h + cnt h)))"
      using stripe(4) [OF that] by (intro cut_concat_rows) simp_all
    moreover have "cut (cut content ?off (?off + ?n * 20)) (first h * 20) ((first h + cnt h) * 20)
        = cut content (?off + first h * 20) (?off + (first h + cnt h) * 20)"
      using inside [OF that] at(1) by (intro cut_cut) (simp_all add: add_mult_distrib)
    ultimately show ?thesis unfolding at(2) by (simp add: add_mult_distrib add.assoc)
  qed
  have find: "entry_find (concat (map impact_entry_bytes (cut rows (first h) (first h + cnt h)))) h 0 (cnt h) = Ok (the (map_of rows h))"
    if hh: "h \<in> set hs" for h
  proof -
    note that = hh
    let ?rs = "cut rows (first h) (first h + cnt h)"
    have len: "length ?rs = cnt h" using stripe(4) [OF that] by simp
    have nth: "?rs ! (place h - first h) = rows ! place h"
      using stripe(2-4) [OF that] by (subst nth_cut) simp_all
    obtain rel cd where row: "rows ! place h = (h, rel, cd)" using place(2) [OF hh] by (metis prod.collapse)
    have "distinct (map fst rows)" using asc strict_sorted_iff by blast
    moreover have "(h, rel, cd) \<in> set rows" using row place(1) [OF that] by (metis nth_mem)
    ultimately have m: "map_of rows h = Some (rel, cd)" by simp
    have sub: "set ?rs \<subseteq> set rows" by (auto simp: cut_def dest: in_set_takeD in_set_dropD)
    have "sorted_wrt (<) (map fst ?rs)" using asc by (simp add: cut_def take_map [symmetric] drop_map [symmetric] sorted_wrt_take sorted_wrt_drop)
    then have "entry_find (concat (map impact_entry_bytes ?rs)) h 0 (cnt h) = Ok (rel, cd)"
      using fits sub nth row stripe(2,3) [OF that] len by (intro entry_find_ok [where j = "place h - first h"]) auto
    then show ?thesis using m by simp
  qed
  have blen: "length (concat (map impact_entry_bytes (cut rows (first h) (first h + cnt h)))) div 20 = cnt h" if "h \<in> set hs" for h
    using stripe(4) [OF that] by (subst concat_rows_length [of _ _ 20]) simp_all
  have zip: "zip hs (map (\<lambda>(off, len). cut content off (off + len)) (map (\<lambda>h. (?off + first h * 20, cnt h * 20)) hs))
      = map (\<lambda>h. (h, cut content (?off + first h * 20) (?off + first h * 20 + cnt h * 20))) hs"
    by (simp add: zip_map2 zip_same_conv_map comp_def)
  have "mapM_o (\<lambda>(h, block). entry_find block h 0 (length block div rrsb_entry))
      (map (\<lambda>h. (h, cut content (?off + first h * 20) (?off + first h * 20 + cnt h * 20))) hs) = Ok (map (\<lambda>h. the (map_of rows h)) hs)"
    unfolding mapM_o_map_list using find block blen by (intro mapM_o_map) (simp add: rrsb_entry_def)
  then show ?thesis
    using stripes blocks zip by (simp add: impact_entries_def)
qed

end

section \<open>Scores\<close>

text \<open>The natural logarithm of a number that is at least one is not negative.\<close>

definition ln_ok :: "(fl \<Rightarrow> fl) \<Rightarrow> bool" where
  "ln_ok ln64 \<longleftrightarrow> (\<forall>x. x \<noteq> NaN \<and> fl_rank (fl_of_nat F64 1) \<le> fl_rank x \<longrightarrow> fl_nonneg (ln64 x))"

lemma fl_of_nat_exact:
  assumes "n \<le> 2 ^ ff_prec f" "0 < ff_prec f" "n * 2 ^ ff_unit f < ff_limit f"
  shows "fl_of_nat f n = Fin False (n * 2 ^ ff_unit f)"
  unfolding fl_of_nat_def by (rule fl_round_scaled [OF assms])

lemma fl_round_cancel:
  assumes "0 < d"
  shows "fl_round f s (q * d) d = fl_round f s q 1"
proof -
  have "nearest (q * d) (d * 2 ^ e) = nearest q (2 ^ e)" for e
  proof -
    have "q * d div (d * 2 ^ e) = q div 2 ^ e" "q * d mod (d * 2 ^ e) = d * (q mod 2 ^ e)"
      using assms by (simp_all add: mult.commute [of q])
    moreover have "2 * (d * (q mod 2 ^ e)) < d * 2 ^ e \<longleftrightarrow> 2 * (q mod 2 ^ e) < 2 ^ e" "d * 2 ^ e < 2 * (d * (q mod 2 ^ e)) \<longleftrightarrow> 2 ^ e < 2 * (q mod 2 ^ e)"
      using assms by (metis mult.left_commute mult_less_cancel1)+
    ultimately show ?thesis by (simp only: nearest_def Let_def)
  qed
  then show ?thesis using assms by (simp add: fl_round_def)
qed

lemma idf_nonneg:
  assumes ln: "ln_ok ln64" and c: "c \<le> n" "n < U32"
  shows "fl_nonneg (idf ln64 n c)"
proof -
  define u where "u = (2 :: nat) ^ 1074"
  define h where "h = (2 :: nat) ^ 1073"
  have u: "u = 2 * h" "0 < h" and unit: "2 ^ ff_unit F64 = u" by (simp_all add: u_def h_def)
  have big: "(2 ^ 34) * u < 2 ^ 2098" unfolding u_def power_add [symmetric] by (intro power_strict_increasing) simp_all
  have nat: "fl_of_nat F64 m = Fin False (m * u)" if "m \<le> 2 ^ 34" for m
  proof -
    have "m * u < 2 ^ 2098" using that big by (meson le_less_trans mult_le_mono1)
    moreover have "m \<le> 2 ^ 53" using that by (rule le_trans) simp
    ultimately show ?thesis unfolding u_def by (intro fl_of_nat_exact [of m F64, simplified format_simps]) simp_all
  qed
  have half: "fl_div F64 (fl_of_nat F64 1) (fl_of_nat F64 2) = Fin False h"
  proof -
    have "fl_div F64 (fl_of_nat F64 1) (fl_of_nat F64 2) = fl_round F64 False (h * (2 * u)) (2 * u)"
      using u nat [of 1] nat [of 2] by (simp add: unit mult.left_commute del: format_simps)
    also have "\<dots> = fl_round F64 False h 1" using u by (intro fl_round_cancel) simp
    also have "\<dots> = fl_round F64 False (1 * 2 ^ 1073) 1" unfolding h_def by simp
    also have "\<dots> = Fin False (1 * 2 ^ 1073)"
      by (intro fl_round_scaled) (simp_all only: format_simps mult_1, simp_all)
    finally show ?thesis unfolding h_def by simp
  qed
  have le: "c \<le> 2 ^ 34" "n \<le> 2 ^ 34" using c by simp_all
  have diff: "fl_nonneg (fl_sub F64 (fl_of_nat F64 n) (fl_of_nat F64 c))"
    using mult_le_mono1 [OF c(1), of u] nat [OF le(1)] nat [OF le(2)] leD [OF c(1)] by (simp add: fl_sub_def fl_int_def Let_def)
  have den: "fl_add F64 (fl_of_nat F64 c) (Fin False h) = Fin False ((2 * c + 1) * h)"
  proof -
    have "fl_add F64 (fl_of_nat F64 c) (Fin False h) = fl_round F64 False ((2 * c + 1) * h) 1"
      using nat [OF le(1)] u by (simp add: fl_int_def Let_def nat_add_distrib nat_mult_distrib algebra_simps flip: of_nat_add of_nat_mult)
    also have "\<dots> = fl_round F64 False ((2 * c + 1) * 2 ^ 1073) 1" by (simp only: h_def)
    also have "\<dots> = Fin False ((2 * c + 1) * 2 ^ 1073)"
    proof (rule fl_round_scaled)
      have "2 * c + 1 \<le> 2 ^ 34" using c by simp
      then have "(2 * c + 1) * h \<le> 2 ^ 34 * u" using u by (intro mult_le_mono) simp_all
      then show "(2 * c + 1) * 2 ^ 1073 < ff_limit F64" using big unfolding format_simps h_def by (rule le_less_trans)
      show "2 * c + 1 \<le> 2 ^ ff_prec F64" using c by simp
    qed simp
    finally show ?thesis by (simp only: h_def)
  qed
  define y where "y = fl_div F64 (fl_add F64 (fl_sub F64 (fl_of_nat F64 n) (fl_of_nat F64 c)) (Fin False h)) (Fin False ((2 * c + 1) * h))"
  have y: "fl_nonneg y"
    unfolding y_def using u diff by (intro fl_nonneg_div fl_nonneg_add) simp_all
  have one: "fl_of_nat F64 1 = Fin False u" using nat [of 1] by simp
  have "fl_add F64 (fl_of_nat F64 1) y \<noteq> NaN \<and> fl_rank (fl_of_nat F64 1) \<le> fl_rank (fl_add F64 (fl_of_nat F64 1) y)"
  proof (cases y)
    case (Fin s k)
    then have y: "y = Fin False k" using y by simp
    have add: "fl_add F64 (Fin False u) y = fl_round F64 False (u + k) 1"
      unfolding y using u by (simp add: fl_int_def Let_def nat_add_distrib nat_mult_distrib)
    show ?thesis
    proof (cases "fl_round F64 False (u + k) 1")
      case (Fin t m)
      have "u \<le> m" by (rule fl_round_ge [of 1074 "u + k" F64 False t m, folded u_def, OF _ _ Fin]) simp_all
      moreover have "t = False" using Fin fl_nonneg_round [of F64 "u + k" 1] by simp
      ultimately show ?thesis unfolding one add Fin by (simp add: fl_int_def)
    next
      case (Infinity t)
      then have "t = False" using fl_nonneg_round [of F64 "u + k" 1] by simp
      then show ?thesis unfolding one add Infinity by simp
    next
      case NaN
      then show ?thesis using fl_nonneg_round [of F64 "u + k" 1] by simp
    qed
  next
    case (Infinity s)
    then show ?thesis using y one by simp
  qed (use y in simp)
  then have "fl_nonneg (ln64 (fl_add F64 (fl_of_nat F64 1) y))" using ln unfolding ln_ok_def by blast
  then show ?thesis unfolding idf_def Let_def half den y_def by (rule fl_nonneg_as_f32)
qed

section \<open>Reranking\<close>

text \<open>What a posting of the query adds to the score of a document, and the score.\<close>

definition posting_adds ::
  "(fl \<Rightarrow> fl) \<Rightarrow> bytes \<Rightarrow> impact_index \<Rightarrow> impact_row list \<Rightarrow> nat \<Rightarrow> fl \<Rightarrow> nat \<times> nat set \<Rightarrow> fl" where
  "posting_adds ln64 content ix rows d score = (\<lambda>(h, bm).
     if d \<in> bm then
       (case map_of rows h of
          None \<Rightarrow> score
        | Some (rel, cd) \<Rightarrow> add_score (ii_scale ix) score (idf ln64 (ii_doc_count ix) cd)
            (unat (content ! (ii_impacts_off ix + rel + (rank_of bm d - 1)))))
     else score)"

definition stored_score :: "(fl \<Rightarrow> fl) \<Rightarrow> bytes \<Rightarrow> impact_index \<Rightarrow> impact_row list \<Rightarrow> (nat \<times> nat set) list \<Rightarrow> nat \<Rightarrow> fl" where
  "stored_score ln64 content ix rows postings d = foldl (posting_adds ln64 content ix rows d) (Fin False 0) postings"

text \<open>The \<open>k\<close> best documents: by descending score, equal scores by ascending number.\<close>

definition best_docs :: "nat \<Rightarrow> (nat \<Rightarrow> fl) \<Rightarrow> nat list \<Rightarrow> scored_doc list" where
  "best_docs k score ids =
     map (\<lambda>d. (d, score d)) (take k (sort_key (\<lambda>d. ((- fst (fl_rank (score d)), - snd (fl_rank (score d))), d)) ids))"

text \<open>Every impact a rerank reads lies inside the file.\<close>

definition impacts_inside :: "bytes \<Rightarrow> impact_index \<Rightarrow> impact_row list \<Rightarrow> (nat \<times> nat set) list \<Rightarrow> nat list \<Rightarrow> bool" where
  "impacts_inside content ix rows postings ids \<longleftrightarrow>
     (\<forall>(h, bm) \<in> set postings. \<forall>d \<in> set ids. d \<in> bm \<longrightarrow>
        (\<exists>rel cd. map_of rows h = Some (rel, cd) \<and> ii_impacts_off ix + rel + (rank_of bm d - 1) < length content))"

lemma sort_scores:
  assumes "\<forall>i < length ids. scores ! i = score (ids ! i) \<and> score (ids ! i) \<noteq> NaN" "length scores = length ids"
  shows "map_ok (\<lambda>order. map (\<lambda>i. (ids ! i, scores ! i)) (take k order)) (sort_by (score_cmp scores ids) [0..<length ids])
    = (Ok (best_docs k score ids) :: scored_doc list ires)"
proof -
  let ?key = "\<lambda>d. ((- fst (fl_rank (score d)), - snd (fl_rank (score d))), d)"
  have "score_cmp scores ids a b = compare (?key (ids ! a)) (?key (ids ! b))" if "a \<in> set [0..<length ids]" "b \<in> set [0..<length ids]" for a b
  proof -
    have s: "scores ! a = score (ids ! a)" "scores ! b = score (ids ! b)" "score (ids ! a) \<noteq> NaN" "score (ids ! b) \<noteq> NaN"
      using that assms by simp_all
    obtain x1 x2 where x: "fl_rank (score (ids ! a)) = (x1, x2)" by fastforce
    obtain y1 y2 where y: "fl_rank (score (ids ! b)) = (y1, y2)" by fastforce
    show ?thesis
      using s x y by (auto simp: score_cmp_def fl_partial_cmp_def then_cmp_def compare_def less_prod_def)
  qed
  then have "sort_by (score_cmp scores ids) [0..<length ids] = (Ok (sort_key (\<lambda>i. ?key (ids ! i)) [0..<length ids]) :: nat list ires)"
    by (rule sort_by_key)
  moreover have "map ((!) ids) (sort_key (\<lambda>i. ?key (ids ! i)) [0..<length ids]) = sort_key ?key ids"
    using map_sort_key [of "(!) ids" ?key "[0..<length ids]"] by (simp add: comp_def map_nth)
  then have "take k (sort_key ?key ids) = map ((!) ids) (take k (sort_key (\<lambda>i. ?key (ids ! i)) [0..<length ids]))"
    by (metis take_map)
  then have "best_docs k score ids = map (\<lambda>i. (ids ! i, score (ids ! i))) (take k (sort_key (\<lambda>i. ?key (ids ! i)) [0..<length ids]))"
    by (simp add: best_docs_def comp_def)
  moreover have "map (\<lambda>i. (ids ! i, scores ! i)) (take k (sort_key (\<lambda>i. ?key (ids ! i)) [0..<length ids]))
      = map (\<lambda>i. (ids ! i, score (ids ! i))) (take k (sort_key (\<lambda>i. ?key (ids ! i)) [0..<length ids]))"
    using assms(1) by (auto dest: in_set_takeD)
  ultimately show ?thesis by simp
qed

text \<open>The reads of one posting, and what they add to the scores.\<close>

definition posting_items :: "(nat \<Rightarrow> nat) \<Rightarrow> nat \<Rightarrow> nat set \<Rightarrow> nat list \<Rightarrow> ((nat \<times> nat) \<times> nat \<times> nat) list" where
  "posting_items pos ti bm ids = concat (map (\<lambda>(ci, d). if d \<in> bm then [((pos d, 1), ti, ci)] else []) (enumerate 0 ids))"

definition with_bytes :: "bytes \<Rightarrow> ((nat \<times> nat) \<times> nat \<times> nat) list \<Rightarrow> ((nat \<times> nat) \<times> bytes) list" where
  "with_bytes content items = map (\<lambda>((off, len), owner). (owner, cut content off (off + len))) items"

lemma add_impact_byte:
  "ti < length idfs \<Longrightarrow> ci < length scores \<Longrightarrow>
     add_impact scale idfs scores ((ti, ci), [b]) = Ok (scores[ci := add_score scale (scores ! ci) (idfs ! ti) (unat b)])"
  by (simp add: add_impact_def)

lemma add_posting:
  assumes "ti < length idfs" "\<forall>d \<in> set ids. d \<in> bm \<longrightarrow> pos d < length content"
  shows "foldM_o (add_impact scale idfs) (map g ids @ rest) (with_bytes content (posting_items pos ti bm ids))
    = Ok (map (\<lambda>d. if d \<in> bm then add_score scale (g d) (idfs ! ti) (unat (content ! pos d)) else g d) ids @ rest)"
  using assms(2)
proof (induction ids arbitrary: rest rule: rev_induct)
  case (snoc d ids)
  have items: "posting_items pos ti bm (ids @ [d]) = posting_items pos ti bm ids @ (if d \<in> bm then [((pos d, 1), ti, length ids)] else [])"
    by (simp add: posting_items_def enumerate_append_eq)
  have byte: "d \<in> bm \<Longrightarrow> cut content (pos d) (pos d + 1) = [content ! pos d]"
    using snoc.prems by (simp add: cut_def take_Suc_conv_app_nth Cons_nth_drop_Suc [symmetric])
  have ih: "foldM_o (add_impact scale idfs) (map g ids @ g d # rest) (with_bytes content (posting_items pos ti bm ids))
      = Ok (map (\<lambda>d. if d \<in> bm then add_score scale (g d) (idfs ! ti) (unat (content ! pos d)) else g d) ids @ g d # rest)"
    using snoc.prems by (intro snoc.IH) simp
  show ?case
    using ih byte assms(1)
    by (simp add: items with_bytes_def foldM_o_append add_impact_byte nth_append list_update_append)
qed (simp add: posting_items_def with_bytes_def)

lemma add_postings:
  assumes "length idfs = length ps" "\<forall>i < length ps. \<forall>d \<in> set ids. d \<in> snd (ps ! i) \<longrightarrow> pos i d < length content" "n \<le> length ps"
  shows "foldM_o (add_impact scale idfs) (map g ids) (with_bytes content (concat (map (\<lambda>i. posting_items (pos i) i (snd (ps ! i)) ids) [0..<n])))
    = Ok (map (\<lambda>d. foldl (\<lambda>s i. if d \<in> snd (ps ! i) then add_score scale s (idfs ! i) (unat (content ! pos i d)) else s) (g d) [0..<n]) ids)"
  using assms(3)
proof (induction n)
  case (Suc n)
  then have ih: "foldM_o (add_impact scale idfs) (map g ids) (with_bytes content (concat (map (\<lambda>i. posting_items (pos i) i (snd (ps ! i)) ids) [0..<n])))
    = Ok (map (\<lambda>d. foldl (\<lambda>s i. if d \<in> snd (ps ! i) then add_score scale s (idfs ! i) (unat (content ! pos i d)) else s) (g d) [0..<n]) ids)" by simp
  have "with_bytes content (xs @ ys) = with_bytes content xs @ with_bytes content ys" for xs ys by (simp add: with_bytes_def)
  moreover have "foldM_o (add_impact scale idfs) (map h ids) (with_bytes content (posting_items (pos n) n (snd (ps ! n)) ids))
      = Ok (map (\<lambda>d. if d \<in> snd (ps ! n) then add_score scale (h d) (idfs ! n) (unat (content ! pos n d)) else h d) ids)" for h
    using add_posting [of n idfs ids "snd (ps ! n)" "pos n" content scale h "[]"] assms(1,2) Suc.prems by simp
  ultimately show ?case using ih by (simp add: foldM_o_append)
qed (simp add: with_bytes_def)

context full_fetch
begin

lemma rerank_ok:
  assumes f: "impact_file um content ix rows" and lim: "length content < lim" "lim \<le> um"
    and ne: "postings \<noteq> []" and known: "\<forall>p \<in> set postings. fst p \<in> fst ` set rows"
    and inside: "impacts_inside content ix rows postings ids"
    and num: "\<forall>d \<in> set ids. stored_score ln64 content ix rows postings d \<noteq> NaN"
  shows "rerank um ln64 fetch ix postings ids k = Ok (best_docs k (stored_score ln64 content ix rows postings) ids)"
proof (cases "ids = [] \<or> k = 0")
  case True
  then show ?thesis by (auto simp: rerank_def best_docs_def)
next
  case False
  let ?n = "length postings" and ?es = "map (\<lambda>h. the (map_of rows h)) (map fst postings)"
  have um: "length content < um" "um \<le> U64" using f by (simp_all add: impact_file_def)
  define pos where "pos i d = ii_impacts_off ix + fst (?es ! i) + (rank_of (snd (postings ! i)) d - 1)" for i d
  define ranges where "ranges = concat (map (\<lambda>i. posting_items (pos i) i (snd (postings ! i)) ids) [0..<?n])"
  have at: "map_of rows (fst (postings ! i)) = Some (?es ! i) \<and> pos i d < length content"
    if inn: "i < ?n" "d \<in> set ids" "d \<in> snd (postings ! i)" for i d
  proof -
    obtain h bm where p: "postings ! i = (h, bm)" by fastforce
    then have "(h, bm) \<in> set postings" using inn(1) by (metis nth_mem)
    then have "\<forall>d \<in> set ids. d \<in> bm \<longrightarrow> (\<exists>rel cd. map_of rows h = Some (rel, cd) \<and> ii_impacts_off ix + rel + (rank_of bm d - 1) < length content)"
      using inside unfolding impacts_inside_def by fast
    then obtain rel cd where "map_of rows h = Some (rel, cd)" "ii_impacts_off ix + rel + (rank_of bm d - 1) < length content"
      using inn(2,3) p by auto
    then show ?thesis using inn(1) p by (simp add: pos_def)
  qed
  have entries: "impact_entries um fetch ix (map fst postings) = Ok ?es"
    using impact_entries_ok [OF f lim, of "map fst postings"] known by simp
  have "impact_range ix (i, postings ! i, ?es ! i) (ci, d) = Ok (if d \<in> snd (postings ! i) then [((pos i d, 1), i, ci)] else [])"
    if "i < ?n" "d \<in> set ids" for i ci d
    using at [OF that] um by (auto simp: impact_range_def pos_def ok_or_def checked_add_def case_prod_beta)
  then have "mapM_o (impact_range ix (i, postings ! i, ?es ! i)) (enumerate 0 ids)
      = Ok (map (\<lambda>(ci, d). if d \<in> snd (postings ! i) then [((pos i d, 1), i, ci)] else []) (enumerate 0 ids))" if "i < ?n" for i
    using that by (intro mapM_o_map) (auto simp: in_set_enumerate_eq)
  then have inner: "map_ok concat (mapM_o (impact_range ix (i, postings ! i, ?es ! i)) (enumerate 0 ids))
      = Ok (posting_items (pos i) i (snd (postings ! i)) ids)" if "i < ?n" for i
    unfolding posting_items_def using that by (simp only: map_ok.simps)
  have enum: "enumerate 0 (zip postings ?es) = map (\<lambda>i. (i, postings ! i, ?es ! i)) [0..<?n]"
    by (rule nth_equalityI) (simp_all add: nth_enumerate_eq)
  have "mapM_o (\<lambda>t. map_ok concat (mapM_o (impact_range ix t) (enumerate 0 ids))) (map (\<lambda>i. (i, postings ! i, ?es ! i)) [0..<?n])
      = Ok (map (\<lambda>i. posting_items (pos i) i (snd (postings ! i)) ids) [0..<?n])"
    unfolding mapM_o_map_list comp_def using inner by (intro mapM_o_map) (simp only: set_upt atLeastLessThan_iff)
  then have plan: "impact_ranges ix postings ?es ids = Ok ranges"
    unfolding impact_ranges_def enum ranges_def by (simp only: map_ok.simps)
  have inb: "off + len \<le> length content" if mem: "(off, len) \<in> set (map fst ranges)" for off len
  proof -
    obtain i j where "i < ?n" "j < length ids" "ids ! j \<in> snd (postings ! i)" "off = pos i (ids ! j)" "len = 1"
      using mem by (auto simp: ranges_def posting_items_def in_set_enumerate_eq split: if_splits)
    then show ?thesis using at [of i "ids ! j"] by simp
  qed
  have bytes: "read_coalesced um fetch (map fst ranges) coalesce_gap = Ok (map (\<lambda>(off, len). cut content off (off + len)) (map fst ranges))"
    using inb lim um by (intro coalesced_ok) simp_all
  have zip: "zip (map snd ranges) (map (\<lambda>(off, len). cut content off (off + len)) (map fst ranges)) = with_bytes content ranges"
    by (simp add: with_bytes_def zip_map1 zip_map2 zip_same_conv_map case_prod_beta comp_def)
  let ?idfs = "map (\<lambda>(_, cd). idf ln64 (ii_doc_count ix) cd) ?es"
  have init: "replicate (length ids) (Fin False 0) = map (\<lambda>_. Fin False 0) ids" by (simp add: map_replicate_const)
  let ?fold = "\<lambda>d. foldl (\<lambda>s i. if d \<in> snd (postings ! i) then add_score (ii_scale ix) s (?idfs ! i) (unat (content ! pos i d)) else s) (Fin False 0) [0..<?n]"
  have scores: "foldM_o (add_impact (ii_scale ix) ?idfs) (replicate (length ids) (Fin False 0)) (with_bytes content ranges) = Ok (map ?fold ids)"
    unfolding init ranges_def using at by (intro add_postings) simp_all
  have same: "?fold d = stored_score ln64 content ix rows postings d" if "d \<in> set ids" for d
  proof -
    have "stored_score ln64 content ix rows postings d
        = foldl (\<lambda>s i. posting_adds ln64 content ix rows d s (postings ! i)) (Fin False 0) [0..<?n]"
      unfolding stored_score_def by (subst (1) map_nth [of postings, symmetric]) (simp only: foldl_map)
    also have "\<dots> = ?fold d"
    proof (rule foldl_cong [OF refl refl])
      fix s i assume "i \<in> set [0..<?n]"
      then have i: "i < ?n" by simp
      show "posting_adds ln64 content ix rows d s (postings ! i)
          = (if d \<in> snd (postings ! i) then add_score (ii_scale ix) s (?idfs ! i) (unat (content ! pos i d)) else s)"
      proof (cases "d \<in> snd (postings ! i)")
        case mem: True
        obtain r c where e: "?es ! i = (r, c)" by fastforce
        have m: "map_of rows (fst (postings ! i)) = Some (r, c)" using at [OF i that mem] e by (simp only:)
        have "?idfs ! i = (case ?es ! i of (_, cd) \<Rightarrow> idf ln64 (ii_doc_count ix) cd)" using i by (subst nth_map) simp_all
        then have "?idfs ! i = idf ln64 (ii_doc_count ix) c" using e by (simp only: prod.case)
        moreover have "pos i d = ii_impacts_off ix + r + (rank_of (snd (postings ! i)) d - 1)" unfolding pos_def e by simp
        ultimately show ?thesis using mem m by (simp add: posting_adds_def case_prod_beta)
      qed (simp add: posting_adds_def case_prod_beta)
    qed
    finally show ?thesis ..
  qed
  have "map_ok (\<lambda>order. map (\<lambda>i. (ids ! i, map ?fold ids ! i)) (take k order)) (sort_by (score_cmp (map ?fold ids) ids) [0..<length ids])
      = (Ok (best_docs k (stored_score ln64 content ix rows postings) ids) :: scored_doc list ires)"
    using same num by (intro sort_scores) simp_all
  then have "bind_o (sort_by (score_cmp (map ?fold ids) ids) [0..<length ids]) (\<lambda>order. Ok (map (\<lambda>i. (ids ! i, map ?fold ids ! i)) (take k order)))
      = (Ok (best_docs k (stored_score ln64 content ix rows postings) ids) :: scored_doc list ires)"
    by (cases "sort_by (score_cmp (map ?fold ids) ids) [0..<length ids] :: nat list ires") simp_all
  then show ?thesis
    using False ne entries plan bytes zip scores unfolding rerank_def
    by (simp only: Let_def simp_thms if_False bind_o.simps map_err.simps)
qed

end

end
