(* ===== verification/RR_Bm25_Written.thy ===== *)
theory RR_Bm25_Written imports RR_Bm25_Store begin

text \<open>
  What \<open>write_impacts\<close> writes: the occurrences the accumulator collects, the entries and impacts of the
  dictionary's terms, and the sidecar opened again.
\<close>

section \<open>The accumulator\<close>

definition accumulate :: "text_env \<Rightarrow> tokenizer \<Rightarrow> rstring list \<Rightarrow> impacts_acc io" where
  "accumulate env tk bodies = foldM_o (\<lambda>acc body. map_ok snd (add_doc env acc body)) (acc_new tk) bodies"

text \<open>The documents a term occurs in, ascending, each with how often.\<close>

definition occurrences :: "text_env \<Rightarrow> tokenizer \<Rightarrow> rstring list \<Rightarrow> rstring \<Rightarrow> (nat \<times> nat) list" where
  "occurrences env tk bodies t =
     map (\<lambda>d. (d, count_list (tokenize env tk (bodies ! d)) t))
       (filter (\<lambda>d. t \<in> set (tokenize env tk (bodies ! d))) [0..<length bodies])"

lemma count_tokens:
  "foldM_o count_token Map.empty toks = Ok tf \<Longrightarrow> tf = (\<lambda>t. if t \<in> set toks then Some (count_list toks t) else None)"
proof (induction toks arbitrary: tf rule: rev_induct)
  case (snoc u toks)
  obtain tf0 where tf0: "foldM_o count_token Map.empty toks = Ok tf0" "count_token tf0 u = Ok tf"
    using snoc.prems by (auto simp: foldM_o_append bind_o_Ok_iff)
  have "tf = tf0(u \<mapsto> (case tf0 u of None \<Rightarrow> 0 | Some n \<Rightarrow> n) + 1)"
    using tf0(2) by (auto simp: count_token_def bind_o_Ok_iff)
  then show ?case using snoc.IH [OF tf0(1)] by (auto simp: fun_eq_iff count_list_0_iff)
qed auto

lemma push_docs:
  "distinct ks \<Longrightarrow> foldl (push_doc doc) terms (map (\<lambda>t. (t, f t)) ks)
    = (\<lambda>t. if t \<in> set ks then Some ((case terms t of None \<Rightarrow> [] | Some l \<Rightarrow> l) @ [(doc, f t)]) else terms t)"
proof (induction ks arbitrary: terms)
  case (Cons k ks)
  then show ?case by (auto simp: push_doc_def fun_eq_iff)
qed simp

lemma occurrences_snoc:
  "occurrences env tk (bodies @ [body]) t = occurrences env tk bodies t
    @ (if t \<in> set (tokenize env tk body) then [(length bodies, count_list (tokenize env tk body) t)] else [])"
proof -
  have "filter (\<lambda>d. t \<in> set (tokenize env tk ((bodies @ [body]) ! d))) [0..<length bodies]
      = filter (\<lambda>d. t \<in> set (tokenize env tk (bodies ! d))) [0..<length bodies]"
    by (intro filter_cong) (simp_all add: nth_append)
  then show ?thesis by (auto simp: occurrences_def nth_append)
qed

lemma accumulated:
  assumes "accumulate env tk bodies = Ok acc"
  shows "ia_tokenizer acc = tk \<and> ia_next acc = length bodies \<and> ia_doc_lens acc = map (length \<circ> tokenize env tk) bodies
    \<and> length bodies < U32
    \<and> ia_terms acc = (\<lambda>t. if occurrences env tk bodies t = [] then None else Some (occurrences env tk bodies t))"
  using assms
proof (induction bodies arbitrary: acc rule: rev_induct)
  case Nil
  then show ?case by (auto simp: accumulate_def acc_new_def occurrences_def)
next
  case (snoc body bodies)
  obtain a0 where a0: "accumulate env tk bodies = Ok a0" "map_ok snd (add_doc env a0 body) = Ok acc"
    using snoc.prems by (auto simp: accumulate_def foldM_o_append bind_o_Ok_iff)
  note ih = snoc.IH [OF a0(1)]
  let ?toks = "tokenize env tk body"
  obtain tf where tf: "foldM_o count_token Map.empty ?toks = Ok tf" "length bodies + 1 < U32"
    and acc: "acc = a0\<lparr>ia_terms := foldl (push_doc (length bodies)) (ia_terms a0) (map (\<lambda>t. (t, the (tf t))) (sort_key utf8_bytes (remdups ?toks))),
      ia_doc_lens := ia_doc_lens a0 @ [length ?toks], ia_next := length bodies + 1\<rparr>"
    using a0(2) ih by (auto simp: add_doc_def map_ok_Ok_iff bind_o_Ok_iff Let_def)
  have push: "foldl (push_doc (length bodies)) (ia_terms a0) (map (\<lambda>t. (t, the (tf t))) (sort_key utf8_bytes (remdups ?toks)))
      = (\<lambda>t. if t \<in> set ?toks then Some ((case ia_terms a0 t of None \<Rightarrow> [] | Some l \<Rightarrow> l) @ [(length bodies, the (tf t))]) else ia_terms a0 t)"
    by (subst push_docs) simp_all
  have "ia_terms acc = (\<lambda>t. if occurrences env tk (bodies @ [body]) t = [] then None else Some (occurrences env tk (bodies @ [body]) t))"
    using ih count_tokens [OF tf(1)] push by (auto simp: acc occurrences_snoc fun_eq_iff)
  moreover have "ia_tokenizer acc = tk" "ia_next acc = length (bodies @ [body])" "ia_doc_lens acc = map (length \<circ> tokenize env tk) (bodies @ [body])"
    using ih by (simp_all add: acc)
  ultimately show ?case using tf(2) by simp
qed

text \<open>The place of a document among the documents of a posting.\<close>

lemma rank_in_filter:
  assumes "d < n" "P d"
  shows "map f (filter P [0..<n]) ! (rank_of {x. x < n \<and> P x} d - 1) = f d"
    and "rank_of {x. x < n \<and> P x} d - 1 < length (filter P [0..<n])"
proof -
  have "{x. (x < n \<and> P x) \<and> x \<le> d} = insert d (set (filter P [0..<d]))" using assms by auto
  moreover have "card (set (filter P [0..<d])) = length (filter P [0..<d])" by (rule distinct_card) simp
  moreover have "d \<notin> set (filter P [0..<d])" by simp
  ultimately have "card {x. (x < n \<and> P x) \<and> x \<le> d} = Suc (length (filter P [0..<d]))" by (metis List.finite_set card_insert_disjoint)
  then have r: "rank_of {x. x < n \<and> P x} d - 1 = length (filter P [0..<d])" by (simp add: rank_of_def)
  have "[0..<n] = [0..<d] @ d # [Suc d..<n]" using assms(1) upt_add_eq_append [of 0 d "n - d"] by (simp add: upt_conv_Cons)
  then have split: "filter P [0..<n] = filter P [0..<d] @ d # filter P [Suc d..<n]" using assms(2) by simp
  show "map f (filter P [0..<n]) ! (rank_of {x. x < n \<and> P x} d - 1) = f d"
    unfolding r split by (simp add: nth_append)
  show "rank_of {x. x < n \<and> P x} d - 1 < length (filter P [0..<n])" unfolding r split by simp
qed

section \<open>The entries and impacts\<close>

definition term_impacts :: "impacts_acc \<Rightarrow> fl \<Rightarrow> fl \<Rightarrow> rstring \<Rightarrow> nat list" where
  "term_impacts acc k1 b t =
     map (\<lambda>(doc, tf). quantize_impact tf (fl_of_nat F32 (ia_doc_lens acc ! doc)) (average_length acc) k1 b) (the (ia_terms acc t))"

definition impact_rows :: "impacts_acc \<Rightarrow> fl \<Rightarrow> fl \<Rightarrow> (rstring \<times> nat) list \<Rightarrow> impact_row list" where
  "impact_rows acc k1 b dict = map (\<lambda>j. (snd (dict ! j), length (concat (take j (map (term_impacts acc k1 b \<circ> fst) dict))),
     length (the (ia_terms acc (fst (dict ! j)))) mod U32)) [0..<length dict]"

lemma impact_steps:
  assumes "foldM_o (impact_step acc k1 b) ([], [], None) dict = Ok r"
  shows "fst r = impact_rows acc k1 b dict \<and> fst (snd r) = concat (map (term_impacts acc k1 b \<circ> fst) dict)
    \<and> snd (snd r) = (if dict = [] then None else Some (snd (last dict)))
    \<and> sorted_wrt (<) (map snd dict) \<and> (\<forall>(t, h) \<in> set dict. ia_terms acc t \<noteq> None)"
  using assms
proof (induction dict arbitrary: r rule: rev_induct)
  case Nil
  then show ?case by (auto simp: impact_rows_def)
next
  case (snoc p dict)
  obtain t h where p: "p = (t, h)" by fastforce
  obtain q where q: "foldM_o (impact_step acc k1 b) ([], [], None) dict = Ok q" "impact_step acc k1 b q p = Ok r"
    using snoc.prems by (auto simp: foldM_o_append bind_o_Ok_iff)
  note ih = snoc.IH [OF q(1)]
  obtain es bs prev where qe: "q = (es, bs, prev)" by (metis prod_cases3)
  obtain tfs pushed where tfs: "ia_terms acc t = Some tfs"
    and pushed: "mapM_o (\<lambda>(doc, tf). bind_o (nth_p (ia_doc_lens acc) doc) (\<lambda>dl.
         Ok (quantize_impact tf (fl_of_nat F32 dl) (average_length acc) k1 b))) tfs = (Ok pushed :: nat list io)"
    and r: "r = (es @ [(h, length bs, length tfs mod U32)], bs @ pushed, Some h)"
    and asc: "\<not> (case prev of None \<Rightarrow> False | Some p \<Rightarrow> h \<le> p)"
    using q(2) unfolding qe p impact_step_def by (auto simp: bind_o_Ok_iff split: if_split_asm)
  have "pushed = term_impacts acc k1 b t"
    using pushed unfolding mapM_o_Ok_iff term_impacts_def tfs
    by (auto simp: list_all2_conv_all_nth bind_o_Ok_iff intro!: nth_equalityI split: prod.splits) 
  moreover have "impact_rows acc k1 b (dict @ [p]) = impact_rows acc k1 b dict @ [(h, length (concat (map (term_impacts acc k1 b \<circ> fst) dict)), length tfs mod U32)]"
    using tfs by (simp add: impact_rows_def p nth_append)
  moreover have "sorted_wrt (<) (map snd (dict @ [p]))"
  proof -
    have "x < h" if xin: "x \<in> set (map snd dict)" for x
    proof -
      have ne: "dict \<noteq> []" using xin by auto
      then have lt: "snd (last dict) < h" using asc ih qe by simp
      obtain i where i: "i < length dict" "snd (dict ! i) = x" using xin by (auto simp: in_set_conv_nth)
      have "x \<le> snd (last dict)"
      proof (cases "i = length dict - 1")
        case False
        then have "x < snd (dict ! (length dict - 1))"
          using ih i sorted_wrt_nth_less [of "(<)" "map snd dict" i "length dict - 1"] by auto
        then show ?thesis using ne by (simp add: last_conv_nth)
      qed (use i ne in \<open>simp add: last_conv_nth\<close>)
      then show ?thesis using lt by simp
    qed
    then show ?thesis using ih by (simp add: sorted_wrt_append p)
  qed
  ultimately show ?case using ih tfs by (simp add: r qe p comp_def)
qed

section \<open>The written sidecar\<close>

text \<open>The header that \<open>write_impacts\<close> writes.\<close>

definition rrsb_header_bytes :: "nat \<Rightarrow> nat \<Rightarrow> nat \<Rightarrow> nat \<Rightarrow> nat \<Rightarrow> nat \<Rightarrow> nat \<Rightarrow> nat \<Rightarrow> bytes" where
  "rrsb_header_bytes scale k1 b avg n eo io dc =
     rrsb_magic @ to_le 2 1 @ to_le 2 0 @ to_le 4 scale @ to_le 4 k1 @ to_le 4 b @ to_le 4 avg
       @ to_le 4 n @ to_le 4 sparse_stride @ to_le 8 eo @ to_le 8 io @ to_le 8 dc @ to_le 8 0"

lemma field_alone:
  "v < U16 \<Longrightarrow> u16_at (to_le 2 v) 0 = v" "v < U32 \<Longrightarrow> u32_at (to_le 4 v) 0 = v" "v < U64 \<Longrightarrow> u64_at (to_le 8 v) 0 = v"
  using u16_at_0 [of v "[]"] u32_at_0 [of v "[]"] u64_at_0 [of v "[]"] by simp_all

lemma rrsb_header_fields:
  fixes scale k1 b avg n eo io dc
  defines "h \<equiv> rrsb_header_bytes scale k1 b avg n eo io dc"
  shows "length h = 64" "take 4 h = rrsb_magic" "u16_at h 4 = 1" "u32_at h 28 = 512"
    and "scale < U32 \<Longrightarrow> u32_at h 8 = scale" "n < U32 \<Longrightarrow> u32_at h 24 = n"
    and "eo < U64 \<Longrightarrow> u64_at h 32 = eo" "io < U64 \<Longrightarrow> u64_at h 40 = io" "dc < U64 \<Longrightarrow> u64_at h 48 = dc"
proof -
  have m: "length rrsb_magic = 4" by (simp add: rrsb_magic_def)
  then show "length h = 64" "take 4 h = rrsb_magic" by (simp_all add: h_def rrsb_header_bytes_def)
  show "u16_at h 4 = 1" "u32_at h 28 = 512" "scale < U32 \<Longrightarrow> u32_at h 8 = scale" "n < U32 \<Longrightarrow> u32_at h 24 = n"
    "eo < U64 \<Longrightarrow> u64_at h 32 = eo" "io < U64 \<Longrightarrow> u64_at h 40 = io" "dc < U64 \<Longrightarrow> u64_at h 48 = dc"
    unfolding h_def rrsb_header_bytes_def using m by (simp_all add: le_append_simps field_alone sparse_stride_def)
qed

lemma quantize_impact_byte: "1 \<le> quantize_impact tf dl avgdl k1 b" "quantize_impact tf dl avgdl k1 b \<le> 255"
  by (simp_all add: quantize_impact_def Let_def)

text \<open>A scale the reader accepts.\<close>

definition scale_ok :: "fl \<Rightarrow> bool" where
  "scale_ok k1 \<longleftrightarrow> fl_is_finite (fl_add F32 k1 (fl_of_nat F32 1)) \<and> \<not> fl_nonpos (fl_add F32 k1 (fl_of_nat F32 1))"

lemma scale_ok_bits:
  assumes "scale_ok k1"
  obtains k where "fl_add F32 k1 (fl_of_nat F32 1) = Fin False k" "0 < k"
    "f32_of_bits (f32_bits (Fin False k)) = Fin False k" "f32_bits (Fin False k) < U32"
proof -
  let ?s = "fl_add F32 k1 (fl_of_nat F32 1)"
  obtain k where k: "?s = Fin False k" "0 < k"
    using assms by (cases ?s) (auto simp: scale_ok_def fl_is_finite_def fl_nonpos_def)
  have one: "\<exists>j. fl_of_nat F32 1 = Fin False j" using fl_of_nat_exact [of 1 F32] by simp
  have "f32_representable k"
  proof (cases k1)
    case (Fin s j)
    obtain i where i: "fl_of_nat F32 1 = Fin False i" using one by blast
    then show ?thesis using k(1) fl_round_representable unfolding Fin i by (auto simp: Let_def f32_representable_def split: if_splits)
  qed (use k(1) one in auto)
  then show thesis using that k f32_bits_round [of k False] by simp
qed

lemma impact_rows_simps:
  "length (impact_rows acc k1 b dict) = length dict" "map fst (impact_rows acc k1 b dict) = map snd dict"
proof -
  show "length (impact_rows acc k1 b dict) = length dict" by (simp add: impact_rows_def)
  show "map fst (impact_rows acc k1 b dict) = map snd dict"
    by (rule nth_equalityI) (simp_all add: impact_rows_def)
qed

lemma cut_piece_le: "j < length xs \<Longrightarrow> length (concat (take j xs)) \<le> length (concat xs)"
  by (metis append_take_drop_id concat_append le_add1 length_append)

text \<open>The file in its parts.\<close>

lemma written_impact_parts:
  assumes w: "write_impacts dict acc k1 b = Ok ib" and n: "length dict < U32"
  defines "rows \<equiv> impact_rows acc k1 b dict" and "c \<equiv> (length dict + 511) div 512"
  shows "ib = rrsb_header_bytes (f32_bits (fl_add F32 k1 (fl_of_nat F32 1))) (f32_bits k1) (f32_bits b) (f32_bits (average_length acc))
        (length dict) (64 + c * 8) (64 + c * 8 + length dict * 20) (length (ia_doc_lens acc))
      @ concat (map (\<lambda>i. to_le 8 (fst (rows ! (i * 512)))) [0..<c]) @ concat (map impact_entry_bytes rows)
      @ map of_nat (concat (map (term_impacts acc k1 b \<circ> fst) dict))"
    and "sorted_wrt (<) (map snd dict)" "\<forall>(t, h) \<in> set dict. ia_terms acc t \<noteq> None"
proof -
  obtain r where r: "foldM_o (impact_step acc k1 b) ([], [], None) dict = Ok r"
    using w by (auto simp: write_impacts_def bind_o_Ok_iff split: if_splits)
  note st = impact_steps [OF r]
  show "sorted_wrt (<) (map snd dict)" "\<forall>(t, h) \<in> set dict. ia_terms acc t \<noteq> None" using st by blast+
  have len: "length rows = length dict" by (simp add: rows_def impact_rows_simps)
  have "i * 512 < length rows" if "i < c" for i using slot_start [of 512 i "length dict"] that len by (simp add: c_def)
  then have sparse: "mapM_o (\<lambda>i. map_ok (to_le 8 \<circ> fst) (nth_p rows (i * 512))) [0..<c]
      = (Ok (map (\<lambda>i. to_le 8 (fst (rows ! (i * 512)))) [0..<c]) :: bytes list io)"
    by (intro mapM_o_map) simp
  have cc: "(511 + length dict) div 512 = c" by (simp add: c_def add.commute)
  obtain last where rr: "r = (rows, concat (map (term_impacts acc k1 b \<circ> fst) dict), last)"
    using st unfolding rows_def by (metis prod.collapse)
  show "ib = rrsb_header_bytes (f32_bits (fl_add F32 k1 (fl_of_nat F32 1))) (f32_bits k1) (f32_bits b) (f32_bits (average_length acc))
        (length dict) (64 + c * 8) (64 + c * 8 + length dict * 20) (length (ia_doc_lens acc))
      @ concat (map (\<lambda>i. to_le 8 (fst (rows ! (i * 512)))) [0..<c]) @ concat (map impact_entry_bytes rows)
      @ map of_nat (concat (map (term_impacts acc k1 b \<circ> fst) dict))"
    using w n sparse len cc
    by (simp add: write_impacts_def r rr Let_def sparse_stride_def rrsb_header_def rrsb_entry_def rrsb_header_bytes_def split: if_split_asm)
qed

lemma written_impacts:
  assumes w: "write_impacts dict acc k1 b = Ok ib" and n: "length dict < U32" and um: "length ib < um" "um \<le> U64"
    and heads: "\<forall>(t, h) \<in> set dict. h < U64" and few: "\<forall>t l. ia_terms acc t = Some l \<longrightarrow> length l < U32"
    and lens: "length (ia_doc_lens acc) < U32" and k1: "scale_ok k1"
  obtains ix where "impact_open um (mem_read um (mem_new ib)) = Ok ix" "impact_file um ib ix (impact_rows acc k1 b dict)"
    "ii_scale ix = fl_add F32 k1 (fl_of_nat F32 1)" "ii_doc_count ix = length (ia_doc_lens acc)"
    "\<And>j i. j < length dict \<Longrightarrow> i < length (term_impacts acc k1 b (fst (dict ! j))) \<Longrightarrow>
       ii_impacts_off ix + fst (snd (impact_rows acc k1 b dict ! j)) + i < length ib
       \<and> unat (ib ! (ii_impacts_off ix + fst (snd (impact_rows acc k1 b dict ! j)) + i)) = term_impacts acc k1 b (fst (dict ! j)) ! i"
proof -
  define c where "c = (length dict + 511) div 512"
  let ?rows = "impact_rows acc k1 b dict" and ?n = "length dict" and ?f = "mem_read um (mem_new ib)"
  let ?scale = "fl_add F32 k1 (fl_of_nat F32 1)" and ?I = "concat (map (term_impacts acc k1 b \<circ> fst) dict)"
  let ?eo = "64 + c * 8" let ?io = "?eo + ?n * 20"
  let ?H = "rrsb_header_bytes (f32_bits ?scale) (f32_bits k1) (f32_bits b) (f32_bits (average_length acc)) ?n ?eo ?io (length (ia_doc_lens acc))"
  let ?S = "concat (map (\<lambda>i. to_le 8 (fst (?rows ! (i * 512)))) [0..<c])" and ?E = "concat (map impact_entry_bytes ?rows)"
  note parts = written_impact_parts [OF w n, folded c_def]
  have rl: "length ?rows = ?n" and fst: "map fst ?rows = map snd dict" by (simp_all add: impact_rows_simps)
  have H: "length ?H = 64" by (rule rrsb_header_fields)
  have S: "length ?S = c * 8" by (subst concat_rows_length [of _ _ 8]) simp_all
  have E: "length ?E = ?n * 20" using rl by (subst concat_rows_length [of _ _ 20]) simp_all
  have len: "length ib = ?io + length ?I" unfolding parts(1) using H S E by simp
  obtain k where k: "?scale = Fin False k" "0 < k" "f32_of_bits (f32_bits (Fin False k)) = Fin False k" "f32_bits (Fin False k) < U32"
    by (rule scale_ok_bits [OF k1])
  have lt: "i * 512 < ?n" if "i < c" for i using slot_start [of 512 i ?n] that by (simp add: c_def)
  have reads: "rd ?f 0 64 = Ok ?H" "rd ?f 64 (c * 8) = Ok ?S"
  proof -
    have "cut ib 0 64 = ?H" unfolding parts(1) using H by (simp add: cut_def)
    then show "rd ?f 0 64 = Ok ?H" using memf.rd_ok [of 0 64 ib um] len um(1) by (simp del: rd_Ok_iff)
    have "cut ib 64 (64 + c * 8) = ?S" unfolding parts(1) by (rule cut_mid [OF H S])
    then show "rd ?f 64 (c * 8) = Ok ?S" using memf.rd_ok [of 64 "c * 8" ib um] len um(1) by (simp del: rd_Ok_iff)
  qed
  have h64: "fst (?rows ! j) < U64" if "j < ?n" for j
    using heads that nth_mem [OF that] by (simp add: impact_rows_def case_prod_beta)
  have sparse: "mapM_o (\<lambda>i. read_u64 ?S (i * 8)) [0..<c] = (Ok (map (\<lambda>i. fst (?rows ! (i * 512))) [0..<c]) :: nat list ires)"
  proof (intro mapM_o_map)
    fix i assume "i \<in> set [0..<c]"
    then have i: "i < c" by simp
    have "(i + 1) * 8 \<le> c * 8" using i by (intro mult_right_mono) simp_all
    then have le: "i * 8 + 8 \<le> length ?S" using S by simp
    have row: "cut ?S (i * 8) (i * 8 + 8) = to_le 8 (fst (?rows ! (i * 512)))"
      using i cut_concat_row [of "[0..<c]" "\<lambda>i. to_le 8 (fst (?rows ! (i * 512)))" 8 i] by simp
    have "u64_at ?S (i * 8) = u64_at (cut ?S (i * 8) (i * 8 + 8)) 0" using le by (simp add: u64_at_cut)
    then have "u64_at ?S (i * 8) = fst (?rows ! (i * 512))" using field_alone(3) [OF h64 [OF lt [OF i]]] unfolding row by simp
    then show "read_u64 ?S (i * 8) = (Ok (fst (?rows ! (i * 512))) :: nat ires)" using le by simp
  qed
  have small: "?eo < U64" "?io < U64" "length (ia_doc_lens acc) < U64" "c * 8 < um" using len um lens by simp_all
  note hf = rrsb_header_fields(1-4) [of "f32_bits ?scale" "f32_bits k1" "f32_bits b" "f32_bits (average_length acc)" ?n ?eo ?io "length (ia_doc_lens acc)"]
    rrsb_header_fields(5) [of "f32_bits ?scale" "f32_bits k1" "f32_bits b" "f32_bits (average_length acc)" ?n ?eo ?io "length (ia_doc_lens acc)", unfolded k(1), OF k(4), folded k(1)]
    rrsb_header_fields(6) [OF n] rrsb_header_fields(7) [OF small(1)] rrsb_header_fields(8) [OF small(2)] rrsb_header_fields(9) [OF small(3)]
  let ?ix = "\<lparr>ii_scale = ?scale, ii_doc_count = length (ia_doc_lens acc), ii_term_count = ?n, ii_stride = 512, ii_entries_off = ?eo,
      ii_impacts_off = ?io, ii_sparse = map (\<lambda>i. fst (?rows ! (i * 512))) [0..<c]\<rparr>"
  have sc: "f32_of_bits (f32_bits ?scale) = ?scale" "fl_is_finite ?scale" "\<not> fl_nonpos ?scale"
    using k k1 by (simp_all add: scale_ok_def)
  have c: "(?n + 512 - 1) div 512 = c" by (simp add: c_def)
  have opens: "impact_open um ?f = Ok ?ix"
    using reads hf sc sparse small(4) S c
    by (simp add: impact_open_def rrsb_header_def Let_def del: rd_Ok_iff upt_Suc)
  have "impact_file um ib ?ix ?rows"
  proof -
    have "length (?H @ ?S) = ?eo" using H S by simp
    then have cutE: "cut ib ?eo (?eo + ?n * 20) = ?E"
      using cut_mid [of "?H @ ?S" ?eo ?E "?n * 20"] E unfolding parts(1) by (simp only: append_assoc)
    have fits: "h < U64 \<and> rel < U64 \<and> cd < U32" if mem: "(h, rel, cd) \<in> set ?rows" for h rel cd
    proof -
      obtain j where j: "j < ?n" "?rows ! j = (h, rel, cd)" using mem rl unfolding in_set_conv_nth by auto
      have "rel \<le> length ?I"
        using j cut_piece_le [of j "map (term_impacts acc k1 b \<circ> fst) dict"] by (simp add: impact_rows_def)
      then have "rel < U64" using len um by simp
      moreover have "cd < U32" using j by (auto simp: impact_rows_def)
      ultimately show ?thesis using h64 [OF j(1)] j(2) by simp
    qed
    have "ii_entries_off ?ix + length ?rows * 20 \<le> length ib" using rl len by simp
    moreover have "cut ib (ii_entries_off ?ix) (ii_entries_off ?ix + length ?rows * 20) = ?E" using cutE rl by simp
    moreover have "ii_sparse ?ix = map (\<lambda>i. fst (?rows ! (i * ii_stride ?ix))) [0..<(length ?rows + ii_stride ?ix - 1) div ii_stride ?ix]"
      using rl c by simp
    moreover have "sorted_wrt (<) (map fst ?rows)" unfolding fst by (rule parts(2))
    ultimately show ?thesis
      unfolding impact_file_def using rl um fits by (intro conjI) (assumption | simp | fast)+
  qed
  moreover have "ii_impacts_off ?ix + fst (snd (?rows ! j)) + i < length ib
       \<and> unat (ib ! (ii_impacts_off ?ix + fst (snd (?rows ! j)) + i)) = term_impacts acc k1 b (fst (dict ! j)) ! i"
    if j: "j < ?n" and i: "i < length (term_impacts acc k1 b (fst (dict ! j)))" for j i
  proof -
    have rel: "fst (snd (?rows ! j)) = length (concat (take j (map (term_impacts acc k1 b \<circ> fst) dict)))" using j by (simp add: impact_rows_def)
    have split: "?I = concat (take j (map (term_impacts acc k1 b \<circ> fst) dict)) @ term_impacts acc k1 b (fst (dict ! j))
        @ concat (drop (Suc j) (map (term_impacts acc k1 b \<circ> fst) dict))"
      using j id_take_nth_drop [of j "map (term_impacts acc k1 b \<circ> fst) dict"] by (metis concat.simps(2) concat_append length_map nth_map comp_apply)
    have at: "?I ! (fst (snd (?rows ! j)) + i) = term_impacts acc k1 b (fst (dict ! j)) ! i" "fst (snd (?rows ! j)) + i < length ?I"
      unfolding rel by (subst split, simp add: nth_append i) (use i in \<open>simp add: arg_cong [OF split, of length]\<close>)
    have front: "length (?H @ ?S @ ?E) = ?io" using H S E by simp
    have "ib ! (?io + (fst (snd (?rows ! j)) + i)) = map of_nat ?I ! (fst (snd (?rows ! j)) + i)"
      unfolding parts(1) using nth_append_length_plus [of "?H @ ?S @ ?E"] front by (simp only: append_assoc)
    then have "ib ! (?io + fst (snd (?rows ! j)) + i) = of_nat (term_impacts acc k1 b (fst (dict ! j)) ! i)"
      using at by (simp add: add.assoc)
    moreover have "term_impacts acc k1 b (fst (dict ! j)) ! i \<le> 255"
      using i quantize_impact_byte(2) by (auto simp: term_impacts_def split: prod.splits)
    ultimately show ?thesis using at(2) len by (simp add: unat_of_nat)
  qed
  ultimately show thesis using that [OF opens] by simp
qed

end
