(* ===== verification/RR_Bm25_Search.thy ===== *)
theory RR_Bm25_Search imports RR_Bm25_Written begin

text \<open>
  BM25 search from documents to answers: the term index and its impact sidecar are written from the same
  documents, opened, and searched; strictly, or with some of the query's terms missing.
\<close>

section \<open>The dictionary, walked\<close>

context full_fetch
begin

lemma dict_terms_ok:
  assumes tf: "term_file um content ser ti gs sets" and lim: "length content < lim"
    and dec: "\<forall>e \<in> set (concat gs). utf8_strict (fst e) \<noteq> None"
  shows "dict_terms um fetch ti = Ok (map (\<lambda>(k, off, _). (the (utf8_strict k), off)) (concat gs))"
proof -
  have f: "ti_router ti = fst_of (router_of gs)" "dict_at um content (ti_dict_start ti) gs" "length content < um" "um \<le> U64"
    using tf by (simp_all add: term_file_def)
  have locs: "dict_block_locs um ti = Ok (map (block_at_loc (ti_dict_start ti) gs) [0..<length gs])"
    unfolding dict_block_locs_def f(1) fst_of_def fst_map.simps router_of_alt mapM_o_map_list comp_def router_loc_def option.case prod.case
    using block_loc_ok [OF f(2) _ f(3,4)] by (intro mapM_o_map) simp
  have terms: "block_terms um (enc_block g) = Ok (map (\<lambda>(k, off, _). (the (utf8_strict k), off)) g)" if g: "g \<in> set gs" for g
  proof -
    have "iter_block um (enc_block g) = g" using f(2) g by (simp add: dict_at_def)
    moreover have "utf8_strict (fst e) \<noteq> None" if "e \<in> set g" for e using dec g that by auto
    then have "mapM_o (\<lambda>(term, head_off, _). bind_o (ok_or (utf8_strict term) (Malformed ''RRTI non-UTF-8 dictionary term'')) (\<lambda>t. Ok (t, head_off))) g
        = Ok (map (\<lambda>(k, off, _). (the (utf8_strict k), off)) g)"
      by (intro mapM_o_map) (force simp: ok_or_def split: option.splits prod.splits)
    ultimately show ?thesis by (simp add: block_terms_def)
  qed
  have "mapM_o (\<lambda>(off, len). bind_o (rd fetch off len) (block_terms um)) (map (block_at_loc (ti_dict_start ti) gs) [0..<length gs])
      = Ok (map (\<lambda>i. map (\<lambda>(k, off, _). (the (utf8_strict k), off)) (gs ! i)) [0..<length gs])"
    unfolding mapM_o_map_list comp_def
  proof (intro mapM_o_map)
    fix i assume "i \<in> set [0..<length gs]"
    then have i: "i < length gs" by simp
    show "(case block_at_loc (ti_dict_start ti) gs i of (off, len) \<Rightarrow> bind_o (rd fetch off len) (block_terms um))
        = Ok (map (\<lambda>(k, off, _). (the (utf8_strict k), off)) (gs ! i))"
      using read_block_ok [OF f(2) i lim] terms [OF nth_mem [OF i]] by (simp add: case_prod_beta del: rd_Ok_iff)
  qed
  moreover have "map (\<lambda>i. map (\<lambda>(k, off, _). (the (utf8_strict k), off)) (gs ! i)) [0..<length gs]
      = map (map (\<lambda>(k, off, _). (the (utf8_strict k), off))) gs"
    by (rule nth_equalityI) simp_all
  ultimately show ?thesis by (simp add: dict_terms_def locs map_concat)
qed

end

section \<open>Scores of documents\<close>

text \<open>The score of a document over a list of terms, each with its documents and its impacts.\<close>

definition term_score :: "(fl \<Rightarrow> fl) \<Rightarrow> fl \<Rightarrow> nat \<Rightarrow> (rstring \<Rightarrow> nat set) \<Rightarrow> (rstring \<Rightarrow> nat \<Rightarrow> nat) \<Rightarrow> rstring list \<Rightarrow> nat \<Rightarrow> fl" where
  "term_score ln64 scale n H impact ts d =
     foldl (\<lambda>s t. if d \<in> H t then add_score scale s (idf ln64 n (card (H t))) (impact t d) else s) (Fin False 0) ts"

lemma add_score_nonneg:
  assumes "fl_nonneg s" "fl_nonneg w" "0 < k" "1 \<le> byte" "byte \<le> 255"
  shows "fl_nonneg (add_score (Fin False k) s w byte)"
proof -
  have exact: "fl_of_nat F32 n = Fin False (n * 2 ^ 149)" if "n \<le> 255" for n
  proof -
    have "n * 2 ^ 149 \<le> 2 ^ 8 * 2 ^ 149" using that by (intro mult_le_mono1) simp
    then show ?thesis using fl_of_nat_exact [of n F32] that by simp
  qed
  show ?thesis
    unfolding add_score_def exact [OF assms(5)] exact [OF order_refl]
    by (intro fl_nonneg_add fl_nonneg_div fl_nonneg_mul assms) (use assms(4) in simp_all)
qed

lemma term_score_nonneg:
  assumes "ln_ok ln64" "0 < k" "\<forall>t \<in> set ts. card (H t) \<le> n" "n < U32" "\<forall>t d. 1 \<le> impact t d \<and> impact t d \<le> 255"
  shows "fl_nonneg (term_score ln64 (Fin False k) n H impact ts d)"
proof -
  have "fl_nonneg (foldl (\<lambda>s t. if d \<in> H t then add_score (Fin False k) s (idf ln64 n (card (H t))) (impact t d) else s) s ts)"
    if "fl_nonneg s" for s
    using that assms(3)
  proof (induction ts arbitrary: s)
    case (Cons t ts)
    have "fl_nonneg (idf ln64 n (card (H t)))" using Cons.prems(2) by (intro idf_nonneg [OF assms(1)] assms(4)) simp
    then have "fl_nonneg (add_score (Fin False k) s (idf ln64 n (card (H t))) (impact t d))"
      using Cons.prems(1) assms(2,5) by (intro add_score_nonneg) simp_all
    then show ?case using Cons by simp
  qed simp
  then show ?thesis by (simp add: term_score_def)
qed

text \<open>The impacts of a term, found under the offset of its posting.\<close>

definition impact_at ::
  "bytes \<Rightarrow> impact_index \<Rightarrow> impact_row list \<Rightarrow> (rstring \<Rightarrow> nat set) \<Rightarrow> (rstring \<Rightarrow> nat \<Rightarrow> nat) \<Rightarrow> rstring \<Rightarrow> nat \<Rightarrow> bool" where
  "impact_at content ix rows H impact t off \<longleftrightarrow>
     (\<exists>rel. map_of rows off = Some (rel, card (H t))
        \<and> (\<forall>d \<in> H t. ii_impacts_off ix + rel + (rank_of (H t) d - 1) < length content
             \<and> unat (content ! (ii_impacts_off ix + rel + (rank_of (H t) d - 1))) = impact t d))"

lemma best_docs_cong: "(\<And>d. d \<in> set ids \<Longrightarrow> f d = g d) \<Longrightarrow> best_docs k f ids = best_docs k g ids"
proof -
  assume eq: "\<And>d. d \<in> set ids \<Longrightarrow> f d = g d"
  have "sort_key (\<lambda>d. ((- fst (fl_rank (f d)), - snd (fl_rank (f d))), d)) ids = sort_key (\<lambda>d. ((- fst (fl_rank (g d)), - snd (fl_rank (g d))), d)) ids"
    using eq by (intro sort_key_same) simp
  then show ?thesis using eq by (auto simp: best_docs_def dest: in_set_takeD)
qed

text \<open>The part of a posting that a rerank may be given: it holds its candidates at the same ranks.\<close>

definition ranks_alike :: "nat list \<Rightarrow> nat set \<Rightarrow> nat set \<Rightarrow> bool" where
  "ranks_alike ids s g \<longleftrightarrow> (\<forall>d \<in> set ids. (d \<in> g \<longleftrightarrow> d \<in> s) \<and> rank_of g d = rank_of s d)"

lemma ranks_alike_refl: "ranks_alike ids s s" by (simp add: ranks_alike_def)

lemma ranks_alike_head: "set ids \<subseteq> {0..<hb} \<Longrightarrow> ranks_alike ids s (s \<inter> {0..<hb})"
proof -
  assume sub: "set ids \<subseteq> {0..<hb}"
  have "{x \<in> s \<inter> {0..<hb}. x \<le> d} = {x \<in> s. x \<le> d}" if "d \<in> set ids" for d using sub that by force
  then show ?thesis using sub by (auto simp: ranks_alike_def rank_of_def)
qed

context full_fetch
begin

lemma rerank_terms:
  assumes f: "impact_file um content ix rows" and lim: "length content < lim" "lim \<le> um" and ne: "ts \<noteq> []"
    and at: "list_all2 (impact_at content ix rows H impact) ts offs"
    and alike: "list_all2 (\<lambda>t g. ranks_alike ids (H t) g) ts gs"
    and num: "\<forall>d \<in> set ids. term_score ln64 (ii_scale ix) (ii_doc_count ix) H impact ts d \<noteq> NaN"
  shows "rerank um ln64 fetch ix (zip offs gs) ids k
    = Ok (best_docs k (term_score ln64 (ii_scale ix) (ii_doc_count ix) H impact ts) ids)"
proof -
  have lens: "length offs = length ts" "length gs = length ts" using at alike by (auto dest: list_all2_lengthD)
  have score: "stored_score ln64 content ix rows (zip offs gs) d = term_score ln64 (ii_scale ix) (ii_doc_count ix) H impact ts d"
    if d: "d \<in> set ids" for d
  proof -
    have "foldl (posting_adds ln64 content ix rows d) s (zip offs gs)
        = foldl (\<lambda>s t. if d \<in> H t then add_score (ii_scale ix) s (idf ln64 (ii_doc_count ix) (card (H t))) (impact t d) else s) s ts" for s
      using at alike
    proof (induction ts arbitrary: offs gs s)
      case (Cons t ts)
      then obtain off offs' g gs' where c: "offs = off # offs'" "gs = g # gs'" "impact_at content ix rows H impact t off" "ranks_alike ids (H t) g"
        by (auto simp: list_all2_Cons1)
      have "posting_adds ln64 content ix rows d s (off, g)
          = (if d \<in> H t then add_score (ii_scale ix) s (idf ln64 (ii_doc_count ix) (card (H t))) (impact t d) else s)"
        using c(3,4) d by (auto simp: posting_adds_def impact_at_def ranks_alike_def)
      then show ?case using Cons c(1,2) by simp
    qed simp
    then show ?thesis by (simp add: stored_score_def term_score_def)
  qed
  have at_i: "impact_at content ix rows H impact (ts ! i) (offs ! i)" if "i < length ts" for i using at that by (rule list_all2_nthD)
  have alike_i: "ranks_alike ids (H (ts ! i)) (gs ! i)" if "i < length ts" for i using alike that by (rule list_all2_nthD)
  have "rerank um ln64 fetch ix (zip offs gs) ids k = Ok (best_docs k (stored_score ln64 content ix rows (zip offs gs)) ids)"
  proof (rule rerank_ok [OF f lim])
    show "zip offs gs \<noteq> []" using ne lens by (cases ts; cases offs; cases gs) simp_all
    show "\<forall>p \<in> set (zip offs gs). fst p \<in> fst ` set rows"
    proof
      fix p assume "p \<in> set (zip offs gs)"
      then obtain i where "i < length ts" "fst p = offs ! i" using lens by (auto simp: set_zip)
      then show "fst p \<in> fst ` set rows" using at_i [of i] map_of_SomeD by (force simp: impact_at_def)
    qed
    show "impacts_inside content ix rows (zip offs gs) ids"
      unfolding impacts_inside_def
    proof (clarify)
      fix off g d assume p: "(off, g) \<in> set (zip offs gs)" "d \<in> set ids" "d \<in> g"
      then obtain i where "i < length ts" "off = offs ! i" "g = gs ! i" using lens by (auto simp: set_zip)
      then show "\<exists>rel cd. map_of rows off = Some (rel, cd) \<and> ii_impacts_off ix + rel + (rank_of g d - 1) < length content"
        using at_i [of i] alike_i [of i] p(2,3) by (auto simp: impact_at_def ranks_alike_def)
    qed
    show "\<forall>d \<in> set ids. stored_score ln64 content ix rows (zip offs gs) d \<noteq> NaN" using num score by simp
  qed
  also have "best_docs k (stored_score ln64 content ix rows (zip offs gs)) ids = best_docs k (term_score ln64 (ii_scale ix) (ii_doc_count ix) H impact ts) ids"
    by (rule best_docs_cong) (rule score)
  finally show ?thesis .
qed

end

section \<open>The searches over a stored index\<close>

lemma and_heads_eq: "heads \<noteq> [] \<Longrightarrow> and_heads heads = \<Inter>(set heads)"
  using arg_min_list_in [of heads card] by (auto simp: and_heads_def inter_loop_eq)

text \<open>The documents that at least \<open>need\<close> of the terms have.\<close>

definition at_least :: "nat \<Rightarrow> (rstring \<Rightarrow> nat set) \<Rightarrow> rstring list \<Rightarrow> nat set" where
  "at_least need H ts = {d. need \<le> length (filter (\<lambda>t. d \<in> H t) ts)}"

lemma at_least_subset: "1 \<le> need \<Longrightarrow> at_least need H ts \<subseteq> \<Union>(H ` set ts)"
proof
  fix d assume "1 \<le> need" "d \<in> at_least need H ts"
  then have "filter (\<lambda>t. d \<in> H t) ts \<noteq> []" by (auto simp: at_least_def)
  then show "d \<in> \<Union>(H ` set ts)" by (auto simp: filter_empty_conv)
qed

lemma at_least_inter: "1 \<le> need \<Longrightarrow> at_least need (\<lambda>t. H t \<inter> A) ts = at_least need H ts \<inter> A"
proof (intro set_eqI)
  fix d assume "1 \<le> need"
  then show "d \<in> at_least need (\<lambda>t. H t \<inter> A) ts \<longleftrightarrow> d \<in> at_least need H ts \<inter> A"
    by (cases "d \<in> A") (auto simp: at_least_def)
qed

lemma min_match_at_least:
  assumes "1 \<le> need" "\<forall>t \<in> set ts. finite (H t)"
  shows "min_match_candidates (map H ts) need m = first_docs m (at_least need H ts)"
proof -
  let ?U = "\<Union>(set (map H ts))" and ?P = "\<lambda>d. need \<le> length (filter (\<lambda>b. d \<in> b) (map H ts))"
  have fin: "finite ?U" using assms(2) by auto
  have "?P d \<longleftrightarrow> d \<in> at_least need H ts" for d by (simp add: at_least_def filter_map comp_def)
  then have "set (filter ?P (sorted_list_of_set ?U)) = at_least need H ts"
    using at_least_subset [OF assms(1), of H ts] fin by auto
  moreover have "sorted_wrt (<) (filter ?P (sorted_list_of_set ?U))" by (intro sorted_wrt_filter strict_sorted_list_of_set)
  ultimately have "filter ?P (sorted_list_of_set ?U) = sorted_list_of_set (at_least need H ts)"
    by (metis sorted_list_of_set.idem_if_sorted_distinct strict_sorted_iff)
  then show ?thesis
    using min_match_candidates_exact [of "map H ts" need m] assms by (simp add: first_docs_def)
qed

text \<open>The offsets under which a query's terms are known.\<close>

abbreviation term_offs :: "dict_entry list list \<Rightarrow> rstring list \<Rightarrow> nat list" where
  "term_offs gs ts \<equiv> map (\<lambda>t. fst (the (term_loc gs t))) ts"

lemma best_docs_Nil [simp]: "best_docs k score [] = []"
  by (simp add: best_docs_def)

lemma first_docs_Nil: "finite A \<Longrightarrow> first_docs m A = [] \<longleftrightarrow> m = 0 \<or> A = {}"
  by (simp add: first_docs_def)

lemma set_first_docs: "finite A \<Longrightarrow> set (first_docs m A) \<subseteq> A"
  by (auto simp: first_docs_def dest: in_set_takeD)

context posting_store
begin

lemma query_heads_ok:
  assumes tf: "term_file um content ser ti gs (map snd ps)" and keys: "map fst (concat gs) = map (utf8_bytes \<circ> fst) ps"
    and col: "collects ps H" and sc: "\<forall>t \<in> set ts. list_all scalar t" and lim: "length content < lim"
  shows "\<forall>t \<in> set ts. term_loc gs t \<noteq> None \<longleftrightarrow> H t \<noteq> {}"
    and "\<forall>t \<in> set ts. H t \<noteq> {} \<Longrightarrow> \<exists>bs. wave (read_head_block um deser fetch ti) (map (\<lambda>t. the (term_loc gs t)) ts) = Ok bs
      \<and> list_all2 (head_of deser fetch (ti_head_boundary ti)) (map H ts) bs"
proof -
  let ?P = "posting_at content ser (ti_postings_offset ti) (ti_head_boundary ti)"
  have f: "list_all2 ?P (concat gs) (map snd ps)" "length content < um" "um \<le> U64" using tf by (simp_all add: term_file_def)
  have col': "scalar_keys ps" "\<And>t. map_of ps t = (if H t = {} then None else Some (H t))" using col by (simp_all add: collects_def)
  have look: "case term_loc gs t of None \<Rightarrow> H t = {} | Some loc \<Rightarrow> H t \<noteq> {} \<and> ?P (utf8_bytes t, loc) (H t)"
    if "t \<in> set ts" for t
    using rows_lookup [OF f(1) keys col'(1), of t] sc that col'(2) [of t] by (auto split: option.splits if_splits)
  show present: "\<forall>t \<in> set ts. term_loc gs t \<noteq> None \<longleftrightarrow> H t \<noteq> {}" using look by (force split: option.splits)
  assume "\<forall>t \<in> set ts. H t \<noteq> {}"
  then have "list_all2 (\<lambda>loc s. \<exists>k. ?P (k, loc) s) (map (\<lambda>t. the (term_loc gs t)) ts) (map H ts)"
    using look by (fastforce simp: list_all2_map1 list_all2_map2 list_all2_same split: option.splits)
  then show "\<exists>bs. wave (read_head_block um deser fetch ti) (map (\<lambda>t. the (term_loc gs t)) ts) = Ok bs
      \<and> list_all2 (head_of deser fetch (ti_head_boundary ti)) (map H ts) bs"
    using f(2,3) lim by (intro read_head_blocks_ok)
qed

lemma heads_facts:
  assumes h: "list_all2 (head_of deser fetch hb) (map H ts) bs" and len: "length offs = length ts"
  shows "map (hb_head \<circ> snd) (zip offs bs) = map (\<lambda>t. H t \<inter> {0..<hb}) ts"
    and "map (\<lambda>(off, b). (off, hb_head b)) (zip offs bs) = zip offs (map (\<lambda>t. H t \<inter> {0..<hb}) ts)"
    and "ts \<noteq> [] \<Longrightarrow> list_ex (\<lambda>(_, b). hb_tail_size b > 0) (zip offs bs)"
    and "full_postings deser fetch (zip offs bs) = Ok (zip offs (map H ts))"
    and "\<forall>t \<in> set ts. finite (H t)"
proof -
  have lb: "length bs = length ts" using h by (auto dest: list_all2_lengthD)
  have at: "head_of deser fetch hb (H (ts ! i)) (bs ! i)" if "i < length ts" for i
    using h that by (auto simp: list_all2_conv_all_nth)
  then have hd: "H (ts ! i) \<subseteq> {..<U32}" "hb_head (bs ! i) = H (ts ! i) \<inter> {0..<hb}" "0 < hb_tail_size (bs ! i)"
    "read_tail deser fetch (bs ! i) = Ok (H (ts ! i) - {0..<hb})" if "i < length ts" for i
    using that by (auto simp: head_of_def)
  show "map (hb_head \<circ> snd) (zip offs bs) = map (\<lambda>t. H t \<inter> {0..<hb}) ts"
    using lb len hd(2) by (intro nth_equalityI) simp_all
  show "map (\<lambda>(off, b). (off, hb_head b)) (zip offs bs) = zip offs (map (\<lambda>t. H t \<inter> {0..<hb}) ts)"
    using lb len hd(2) by (intro nth_equalityI) simp_all
  show "list_ex (\<lambda>(_, b). hb_tail_size b > 0) (zip offs bs)" if "ts \<noteq> []"
  proof -
    have "(offs ! 0, bs ! 0) \<in> set (zip offs bs)" using that lb len by (auto simp: in_set_conv_nth set_zip)
    then show ?thesis using hd(3) [of 0] that by (force simp: list_ex_iff)
  qed
  show "\<forall>t \<in> set ts. finite (H t)" using hd(1) by (metis finite_lessThan finite_subset in_set_conv_nth)
  have "wave (\<lambda>(_, b). read_tail deser fetch b) (zip offs bs) = Ok (map (tail_of deser fetch \<circ> snd) (zip offs bs))"
  proof (rule wave_map)
    fix x assume "x \<in> set (zip offs bs)"
    then obtain i where "i < length ts" "x = (offs ! i, bs ! i)" using lb len by (auto simp: set_zip)
    then show "(\<lambda>(_, b). read_tail deser fetch b) x = Ok ((tail_of deser fetch \<circ> snd) x)" using hd(4) by (simp add: tail_of_def)
  qed
  moreover have "map (\<lambda>((off, b), tail). (off, hb_head b \<union> tail)) (zip (zip offs bs) (map (tail_of deser fetch \<circ> snd) (zip offs bs)))
      = zip offs (map H ts)"
    using lb len head_of_full [OF at] by (intro nth_equalityI) simp_all
  ultimately show "full_postings deser fetch (zip offs bs) = Ok (zip offs (map H ts))" by (simp add: full_postings_def)
qed

lemma search_bm25_ok:
  assumes tf: "term_file um content ser ti gs (map snd ps)" and keys: "map fst (concat gs) = map (utf8_bytes \<circ> fst) ps"
    and col: "collects ps H" and sc: "\<forall>t \<in> set (tokenize env (ti_tokenizer ti) q). list_all scalar t" and lim: "length content < lim"
  defines "ts \<equiv> query_terms env ti q"
  assumes rr: "\<And>gs' ids. \<forall>t \<in> set ts. term_loc gs t \<noteq> None \<Longrightarrow> ts \<noteq> [] \<Longrightarrow> list_all2 (\<lambda>t g. ranks_alike ids (H t) g) ts gs'
      \<Longrightarrow> rerank um ln64 g ix (zip (term_offs gs ts) gs') ids k = Ok (best_docs k score ids)"
  shows "search_bm25 um env deser ln64 fetch ti g ix q m k = Ok (best_docs k score (search_spec H ts m))"
proof -
  have sc': "\<forall>t \<in> set ts. list_all scalar t" using sc by (simp add: ts_def)
  note present = query_heads_ok(1) [OF tf keys col sc' lim]
  note resolve = resolve_locs_ok [OF tf lim, of ts False]
  let ?A = "\<Inter>(H ` set ts)" and ?hb = "ti_head_boundary ti"
  consider (none) "ts = []" | (absent) "ts \<noteq> []" "\<not> (\<forall>t \<in> set ts. term_loc gs t \<noteq> None)"
    | (all) "ts \<noteq> []" "\<forall>t \<in> set ts. term_loc gs t \<noteq> None" by blast
  then show ?thesis
  proof cases
    case none
    then show ?thesis by (simp add: search_bm25_def query_head_postings_def ts_def [symmetric] search_spec_def)
  next
    case absent
    have "resolve_locs um fetch ti ts False = Ok None" using resolve unfolding simp_thms if_not_P [OF absent(2)] .
    then have "query_head_postings um env deser fetch ti q = Ok None"
      using absent(1) by (simp add: query_head_postings_def ts_def [symmetric])
    moreover have "?A = {}"
    proof -
      obtain t where "t \<in> set ts" "H t = {}" using absent(2) present by blast
      then show ?thesis by blast
    qed
    ultimately show ?thesis by (simp add: search_bm25_def search_spec_def first_docs_def)
  next
    case all
    let ?offs = "term_offs gs ts"
    have locs: "List.map_filter (term_loc gs) ts = map (\<lambda>t. the (term_loc gs t)) ts" using map_filter_all [OF all(2)] by (simp add: comp_def)
    obtain bs where w: "wave (read_head_block um deser fetch ti) (map (\<lambda>t. the (term_loc gs t)) ts) = Ok bs"
      "list_all2 (head_of deser fetch ?hb) (map H ts) bs"
      using query_heads_ok(2) [OF tf keys col sc' lim] all present by blast
    have heads: "query_head_postings um env deser fetch ti q = Ok (Some (zip ?offs bs))"
      using all resolve locs w(1) by (simp add: query_head_postings_def ts_def [symmetric] comp_def)
    note hf = heads_facts [OF w(2), of ?offs, simplified]
    have fin: "finite ?A" using hf(5) all(1) by (meson finite_INT last_in_set)
    have acc: "and_heads (map (\<lambda>t. H t \<inter> {0..<?hb}) ts) = ?A \<inter> {0..<?hb}"
      using all(1) by (subst and_heads_eq) auto
    note go = rr [OF all(2,1)]
    show ?thesis
    proof (cases "m \<le> card (?A \<inter> {0..<?hb}) mod um")
      case True
      then have "m \<le> card (?A \<inter> {0..<?hb})" by (metis le_trans mod_less_eq_dividend)
      note cands = first_docs_head [OF fin this]
      have "set (first_docs m ?A) \<subseteq> {0..<?hb}"
        using set_first_docs [of "?A \<inter> {0..<?hb}" m] fin cands by (metis finite_Int le_infE)
      then have "rerank um ln64 g ix (zip ?offs (map (\<lambda>t. H t \<inter> {0..<?hb}) ts)) (first_docs m ?A) k = Ok (best_docs k score (first_docs m ?A))"
        by (intro go) (simp add: list_all2_map2 list_all2_same ranks_alike_head)
      then show ?thesis
        unfolding search_bm25_def heads
        using True all(1) hf acc cands by (simp add: search_spec_def)
    next
      case False
      have "rerank um ln64 g ix (zip ?offs (map H ts)) (first_docs m ?A) k = Ok (best_docs k score (first_docs m ?A))"
        by (intro go) (simp add: list_all2_map2 list_all2_same ranks_alike_refl)
      moreover have "and_sets (map snd (zip ?offs (map H ts))) = Ok ?A" using all(1) by (simp add: and_sets_eq)
      ultimately show ?thesis
        unfolding search_bm25_def heads
        using False all(1) hf acc by (simp add: search_spec_def first_docs_def)
    qed
  qed
qed

lemma search_bm25_min_match_ok:
  fixes mm :: nat
  assumes tf: "term_file um content ser ti gs (map snd ps)" and keys: "map fst (concat gs) = map (utf8_bytes \<circ> fst) ps"
    and col: "collects ps H" and sc: "\<forall>t \<in> set (tokenize env (ti_tokenizer ti) q). list_all scalar t" and lim: "length content < lim"
  defines "us \<equiv> filter (\<lambda>t. H t \<noteq> {}) (query_terms env ti q)"
  defines "need \<equiv> min (length us) (max 1 mm)"
  assumes rr: "\<And>gs' ids. \<forall>t \<in> set us. term_loc gs t \<noteq> None \<Longrightarrow> us \<noteq> [] \<Longrightarrow> list_all2 (\<lambda>t g. ranks_alike ids (H t) g) us gs'
      \<Longrightarrow> rerank um ln64 g ix (zip (term_offs gs us) gs') ids k = Ok (best_docs k score ids)"
  shows "search_bm25_min_match um env deser ln64 fetch ti g ix q m k mm
    = Ok (best_docs k score (if us = [] then [] else first_docs m (at_least need H us)))"
proof -
  let ?ts = "query_terms env ti q" and ?hb = "ti_head_boundary ti"
  have sc': "\<forall>t \<in> set ?ts. list_all scalar t" "\<forall>t \<in> set us. list_all scalar t" using sc by (simp_all add: us_def)
  note present = query_heads_ok(1) [OF tf keys col sc'(1) lim]
  have us: "us = filter (\<lambda>t. term_loc gs t \<noteq> None) ?ts" unfolding us_def using present by (intro filter_cong) simp_all
  have locs: "List.map_filter (term_loc gs) ?ts = map (\<lambda>t. the (term_loc gs t)) us" by (simp add: List.map_filter_def us comp_def)
  have resolve: "resolve_locs um fetch ti ?ts True = Ok (Some (map (\<lambda>t. the (term_loc gs t)) us))"
    using resolve_locs_ok [OF tf lim, of ?ts True] locs by simp
  have known: "\<forall>t \<in> set us. term_loc gs t \<noteq> None" by (simp add: us)
  have nonempty: "\<forall>t \<in> set us. H t \<noteq> {}" by (simp add: us_def)
  let ?offs = "term_offs gs us"
  obtain bs where w: "wave (read_head_block um deser fetch ti) (map (\<lambda>t. the (term_loc gs t)) us) = Ok bs"
    "list_all2 (head_of deser fetch ?hb) (map H us) bs"
    using query_heads_ok(2) [OF tf keys col sc'(2) lim nonempty] by blast
  have heads: "query_head_postings_present um env deser fetch ti q = Ok (zip ?offs bs)"
  proof (cases "?ts = []")
    case True
    then show ?thesis by (simp add: query_head_postings_present_def us)
  next
    case False
    then show ?thesis using resolve w(1) by (simp add: query_head_postings_present_def comp_def)
  qed
  note hf = heads_facts [OF w(2), of ?offs, simplified]
  have lb: "length bs = length us" using w(2) by (auto dest: list_all2_lengthD)
  show ?thesis
  proof (cases "us = []")
    case True
    then show ?thesis using heads by (simp add: search_bm25_min_match_def)
  next
    case False
    then have ne: "zip ?offs bs \<noteq> []" "length (zip ?offs bs) = length us" using lb by (cases us; cases bs; simp)+
    have n1: "1 \<le> need" using False by (simp add: need_def Suc_le_eq)
    let ?A = "at_least need H us"
    have fin: "finite ?A" using at_least_subset [OF n1, of H us] hf(5) by (meson finite_UN_I finite_set finite_subset)
    have hc: "min_match_candidates (map (\<lambda>t. H t \<inter> {0..<?hb}) us) need m = first_docs m (?A \<inter> {0..<?hb})"
      using min_match_at_least [OF n1, of us "\<lambda>t. H t \<inter> {0..<?hb}" m] hf(5) at_least_inter [OF n1, of H "{0..<?hb}" us] by simp
    have fc: "min_match_candidates (map snd (zip ?offs (map H us))) need m = first_docs m ?A"
      using min_match_at_least [OF n1, of us H m] hf(5) by simp
    note go = rr [OF known False]
    have needs: "min (length (zip ?offs bs)) (max 1 mm) = need" unfolding ne(2) need_def ..
    have len: "m \<le> length (first_docs m (?A \<inter> {0..<?hb})) \<longleftrightarrow> m \<le> card (?A \<inter> {0..<?hb})" using fin by (simp add: first_docs_def)
    show ?thesis
    proof (cases "m \<le> card (?A \<inter> {0..<?hb})")
      case True
      note cands = first_docs_head [OF fin True]
      have "set (first_docs m ?A) \<subseteq> {0..<?hb}"
        using set_first_docs [of "?A \<inter> {0..<?hb}" m] fin cands by (metis finite_Int le_infE)
      then have "rerank um ln64 g ix (zip ?offs (map (\<lambda>t. H t \<inter> {0..<?hb}) us)) (first_docs m ?A) k = Ok (best_docs k score (first_docs m ?A))"
        by (intro go) (simp add: list_all2_map2 list_all2_same ranks_alike_head)
      then show ?thesis
        unfolding search_bm25_min_match_def heads bind_o.simps if_not_P [OF ne(1)] Let_def needs hf(1,2) hc
        using True False cands len by simp
    next
      case more: False
      have "rerank um ln64 g ix (zip ?offs (map H us)) (first_docs m ?A) k = Ok (best_docs k score (first_docs m ?A))"
        by (intro go) (simp add: list_all2_map2 list_all2_same ranks_alike_refl)
      then show ?thesis
        unfolding search_bm25_min_match_def heads bind_o.simps if_not_P [OF ne(1)] Let_def needs hf(1,2) hc
        using more False len hf(3,4) fc by simp
    qed
  qed
qed

end

section \<open>From documents to ranked answers\<close>

text \<open>The impact of a term in a document, as the writer quantises it.\<close>

definition doc_impact :: "text_env \<Rightarrow> tokenizer \<Rightarrow> rstring list \<Rightarrow> fl \<Rightarrow> fl \<Rightarrow> rstring \<Rightarrow> nat \<Rightarrow> nat" where
  "doc_impact env tk bodies k1 b t d =
     (let lens = map (\<lambda>body. length (tokenize env tk body)) bodies in
      quantize_impact (count_list (tokenize env tk (bodies ! d)) t) (fl_of_nat F32 (lens ! d))
        (fl_div F32 (fl_of_nat F32 (sum_list lens)) (fl_of_nat F32 (length bodies))) k1 b)"

text \<open>
  The BM25 score of a document over a list of terms: each term the document holds adds its inverse
  document frequency times its impact, brought back from the byte's scale, in the order of the terms.
\<close>

definition bm25_score :: "(fl \<Rightarrow> fl) \<Rightarrow> text_env \<Rightarrow> tokenizer \<Rightarrow> rstring list \<Rightarrow> fl \<Rightarrow> fl \<Rightarrow> rstring list \<Rightarrow> nat \<Rightarrow> fl" where
  "bm25_score ln64 env tk bodies k1 b =
     term_score ln64 (fl_add F32 k1 (fl_of_nat F32 1)) (length bodies) (holders env tk (enumerate 0 bodies)) (doc_impact env tk bodies k1 b)"

text \<open>The distinct tokens of a query, in the order of their bytes.\<close>

definition distinct_terms :: "rstring list \<Rightarrow> rstring list" where
  "distinct_terms ts = remdups_adj (sort_key utf8_bytes ts)"

lemma distinct_terms_query:
  "\<forall>s. tokenize env (ti_tokenizer ti) s = tokenize env tk s \<Longrightarrow> query_terms env ti q = distinct_terms (tokenize env tk q)"
  by (simp add: query_terms_def distinct_terms_def)

text \<open>The rows of the dictionary, walked, beside the postings they were written from.\<close>

lemma dict_rows:
  assumes tf: "term_file um content ser ti gs (map snd ps)" and keys: "map fst (concat gs) = map (utf8_bytes \<circ> fst) ps"
    and col: "collects ps H"
  defines "dict \<equiv> map (\<lambda>(k, off, _). (the (utf8_strict k), off)) (concat gs)"
  shows "\<forall>e \<in> set (concat gs). utf8_strict (fst e) \<noteq> None" "length dict = length ps"
    and "\<And>j. j < length ps \<Longrightarrow> fst (dict ! j) = fst (ps ! j) \<and> snd (dict ! j) < U64"
    and "\<And>t off sz. list_all scalar t \<Longrightarrow> term_loc gs t = Some (off, sz) \<Longrightarrow> \<exists>j < length ps. dict ! j = (t, off)"
proof -
  have len: "length (concat gs) = length ps" using keys by (metis length_map)
  have sck: "list_all scalar (fst p)" if "p \<in> set ps" for p using col that by (simp add: collects_def scalar_keys_def)
  have key: "fst (concat gs ! j) = utf8_bytes (fst (ps ! j))" if "j < length ps" for j
    using keys len that by (metis comp_apply nth_map)
  have strict: "utf8_strict (fst (concat gs ! j)) = Some (fst (ps ! j))" if "j < length ps" for j
    using key that sck by (simp add: utf8_strict_bytes)
  show "\<forall>e \<in> set (concat gs). utf8_strict (fst e) \<noteq> None"
    using strict len by (metis in_set_conv_nth option.distinct(1))
  show "length dict = length ps" by (simp add: dict_def len)
  have row: "dict ! j = (fst (ps ! j), fst (snd (concat gs ! j)))" if "j < length ps" for j
    using strict [OF that] that len by (simp add: dict_def case_prod_beta)
  show "fst (dict ! j) = fst (ps ! j) \<and> snd (dict ! j) < U64" if "j < length ps" for j
  proof -
    have "list_all2 (posting_at content ser (ti_postings_offset ti) (ti_head_boundary ti)) (concat gs) (map snd ps)"
      "length content < U64" using tf by (simp_all add: term_file_def)
    then have "posting_at content ser (ti_postings_offset ti) (ti_head_boundary ti) (concat gs ! j) (snd (ps ! j))"
      using that len by (simp add: list_all2_conv_all_nth)
    then have "fst (snd (concat gs ! j)) < U64"
      using \<open>length content < U64\<close> by (cases "concat gs ! j") (auto simp: posting_at_def Let_def split: prod.splits)
    then show ?thesis using row [OF that] by simp
  qed
  show "\<exists>j < length ps. dict ! j = (t, off)" if t: "list_all scalar t" "term_loc gs t = Some (off, sz)" for t off sz
  proof -
    have "(utf8_bytes t, off, sz) \<in> set (concat gs)" using t(2) by (rule map_of_SomeD)
    then obtain j where j: "j < length ps" "concat gs ! j = (utf8_bytes t, off, sz)" using len by (metis in_set_conv_nth)
    then have "fst (ps ! j) = t" using key [OF j(1)] sck [OF nth_mem [OF j(1)]] utf8_bytes_inj t(1) by simp
    then show ?thesis using row [OF j(1)] j by auto
  qed
qed

lemma holders_enumerate:
  "holders env tk (enumerate 0 bodies) t = {d. d < length bodies \<and> t \<in> set (tokenize env tk (bodies ! d))}"
  by (auto simp: holders_def in_set_enumerate_eq)

text \<open>The impacts of a dictionary's term, read back under its offset.\<close>

lemma impacts_at:
  assumes acc: "accumulate env tk bodies = Ok acc" and w: "write_impacts dict acc k1 b = Ok ib"
    and n: "length dict < U32" and heads: "\<forall>(t, h) \<in> set dict. h < U64"
    and um: "length ib < um" "um \<le> U64" and k1: "scale_ok k1"
  obtains ix where "impact_open um (mem_read um (mem_new ib)) = Ok ix" "impact_file um ib ix (impact_rows acc k1 b dict)"
    "ii_scale ix = fl_add F32 k1 (fl_of_nat F32 1)" "ii_doc_count ix = length bodies"
    "\<And>t off. (t, off) \<in> set dict \<Longrightarrow>
       impact_at ib ix (impact_rows acc k1 b dict) (holders env tk (enumerate 0 bodies)) (doc_impact env tk bodies k1 b) t off"
proof -
  let ?H = "holders env tk (enumerate 0 bodies)" and ?n = "length bodies" and ?rows = "impact_rows acc k1 b dict"
  note a = accumulated [OF acc]
  have lens: "ia_doc_lens acc = map (\<lambda>body. length (tokenize env tk body)) bodies" using a by (simp add: comp_def)
  have occ: "length (occurrences env tk bodies t) \<le> ?n" for t
    using length_filter_le [of _ "[0..<?n]"] by (simp add: occurrences_def)
  have few: "\<forall>t l. ia_terms acc t = Some l \<longrightarrow> length l < U32"
    using a occ by (auto split: if_splits intro: le_less_trans)
  have ll: "length (ia_doc_lens acc) = ?n" by (simp add: lens)
  then have l32: "length (ia_doc_lens acc) < U32" using a by simp
  obtain ix where ix: "impact_open um (mem_read um (mem_new ib)) = Ok ix" "impact_file um ib ix ?rows"
    "ii_scale ix = fl_add F32 k1 (fl_of_nat F32 1)" "ii_doc_count ix = length (ia_doc_lens acc)"
    "\<And>j i. j < length dict \<Longrightarrow> i < length (term_impacts acc k1 b (fst (dict ! j))) \<Longrightarrow>
       ii_impacts_off ix + fst (snd (?rows ! j)) + i < length ib
       \<and> unat (ib ! (ii_impacts_off ix + fst (snd (?rows ! j)) + i)) = term_impacts acc k1 b (fst (dict ! j)) ! i"
    by (rule written_impacts [OF w n um heads few l32 k1]) (rule that; (assumption | blast))
  have known: "ia_terms acc t \<noteq> None" if "(t, h) \<in> set dict" for t h
    using written_impact_parts(3) [OF w n] that by blast
  have at: "impact_at ib ix ?rows ?H (doc_impact env tk bodies k1 b) t off" if mem: "(t, off) \<in> set dict" for t off
  proof -
    obtain j where j: "j < length dict" "dict ! j = (t, off)" using mem by (metis in_set_conv_nth)
    have terms: "ia_terms acc t = Some (occurrences env tk bodies t)" using a known [OF mem] by (auto split: if_splits)
    have Ht: "?H t = {x. x < ?n \<and> t \<in> set (tokenize env tk (bodies ! x))}" by (rule holders_enumerate)
    have "?H t = set (filter (\<lambda>d. t \<in> set (tokenize env tk (bodies ! d))) [0..<?n])" unfolding Ht by auto
    then have "card (?H t) = length (occurrences env tk bodies t)"
      by (simp only: occurrences_def length_map) (rule distinct_card, simp)
    moreover have "length (occurrences env tk bodies t) < U32" using occ a by (meson le_less_trans)
    ultimately have row: "?rows ! j = (off, fst (snd (?rows ! j)), card (?H t))"
      using j terms by (simp add: impact_rows_def)
    have "sorted_wrt (<) (map fst ?rows)" using ix(2) by (simp add: impact_file_def)
    then have "distinct (map fst ?rows)" by (simp add: strict_sorted_iff)
    moreover have "?rows ! j \<in> set ?rows" using j(1) by (intro nth_mem) (simp add: impact_rows_simps)
    ultimately have m: "map_of ?rows off = Some (fst (snd (?rows ! j)), card (?H t))"
      using row by (metis map_of_eq_Some_iff)
    have "ii_impacts_off ix + fst (snd (?rows ! j)) + (rank_of (?H t) d - 1) < length ib
        \<and> unat (ib ! (ii_impacts_off ix + fst (snd (?rows ! j)) + (rank_of (?H t) d - 1))) = doc_impact env tk bodies k1 b t d"
      if d: "d \<in> ?H t" for d
    proof -
      define g where "g x = quantize_impact (count_list (tokenize env tk (bodies ! x)) t) (fl_of_nat F32 (ia_doc_lens acc ! x)) (average_length acc) k1 b" for x
      have dn: "d < ?n" "t \<in> set (tokenize env tk (bodies ! d))" using d Ht by simp_all
      have ti: "term_impacts acc k1 b t = map g (filter (\<lambda>d. t \<in> set (tokenize env tk (bodies ! d))) [0..<?n])"
        by (simp add: term_impacts_def terms occurrences_def g_def comp_def)
      note r = rank_in_filter [where P = "\<lambda>x. t \<in> set (tokenize env tk (bodies ! x))", OF dn]
      have i: "rank_of (?H t) d - 1 < length (term_impacts acc k1 b t)" using r(2) unfolding ti Ht by simp
      have v: "term_impacts acc k1 b t ! (rank_of (?H t) d - 1) = g d" unfolding ti Ht by (rule r(1))
      have gd: "g d = doc_impact env tk bodies k1 b t d"
        using dn by (simp add: g_def doc_impact_def Let_def average_length_def lens)
      show ?thesis using ix(5) [OF j(1), of "rank_of (?H t) d - 1"] i v unfolding j(2) fst_conv gd by simp
    qed
    then show ?thesis using m unfolding impact_at_def by blast
  qed
  show thesis by (rule that [OF ix(1-3)]) (use ix(4) ll at in simp_all)
qed

end
