(* ===== verification/RR_Bm25_Exact.thy ===== *)
theory RR_Bm25_Exact imports RR_Bm25_Search begin

text \<open>
  BM25 search is exact from documents to ranked answers: the index and its impact sidecar are written
  from the same documents, opened and searched, strictly or with some of the terms missing.
\<close>

section \<open>The sidecar can be written\<close>

lemma impact_steps_Ok:
  assumes "sorted_wrt (<) (map snd dict)" "\<forall>(t, h) \<in> set dict. \<exists>l. ia_terms acc t = Some l \<and> (\<forall>(d, n) \<in> set l. d < length (ia_doc_lens acc))"
  shows "\<exists>r. foldM_o (impact_step acc k1 b) ([], [], None) dict = Ok r"
  using assms
proof (induction dict rule: rev_induct)
  case (snoc p dict)
  obtain t h where p: "p = (t, h)" by fastforce
  obtain q where q: "foldM_o (impact_step acc k1 b) ([], [], None) dict = Ok q"
    using snoc.IH snoc.prems by (auto simp: sorted_wrt_append)
  obtain es bs prev where qe: "q = (es, bs, prev)" by (metis prod_cases3)
  have prev: "prev = (if dict = [] then None else Some (snd (last dict)))" using impact_steps [OF q] by (simp add: qe)
  have asc: "\<not> (case prev of None \<Rightarrow> False | Some p \<Rightarrow> h \<le> p)"
  proof (cases "dict = []")
    case False
    then have "snd (last dict) \<in> set (map snd dict)" using last_in_set [of dict] by force
    moreover have "\<forall>x \<in> set (map snd dict). x < h" using snoc.prems(1) by (simp add: p sorted_wrt_append)
    ultimately have "snd (last dict) < h" by blast
    then show ?thesis using False by (simp add: prev)
  qed (simp add: prev)
  obtain l where l: "ia_terms acc t = Some l" "\<forall>(d, n) \<in> set l. d < length (ia_doc_lens acc)" using snoc.prems(2) by (auto simp: p)
  have "mapM_o (\<lambda>(doc, tf). bind_o (nth_p (ia_doc_lens acc) doc) (\<lambda>dl.
         Ok (quantize_impact tf (fl_of_nat F32 dl) (average_length acc) k1 b))) l
      = (Ok (map (\<lambda>(doc, tf). quantize_impact tf (fl_of_nat F32 (ia_doc_lens acc ! doc)) (average_length acc) k1 b) l) :: nat list io)"
    using l(2) by (intro mapM_o_map) auto
  then obtain r where "impact_step acc k1 b q p = Ok r" unfolding qe p impact_step_def using asc l(1) by simp
  then have "foldM_o (impact_step acc k1 b) ([], [], None) (dict @ [p]) = Ok r" using q by (simp add: foldM_o_append)
  then show ?case by (rule exI)
qed simp

lemma write_impacts_Ok:
  assumes "sorted_wrt (<) (map snd dict)" "\<forall>(t, h) \<in> set dict. \<exists>l. ia_terms acc t = Some l \<and> (\<forall>(d, n) \<in> set l. d < length (ia_doc_lens acc))"
    and "ia_doc_lens acc \<noteq> []"
  shows "\<exists>ib. write_impacts dict acc k1 b = Ok ib"
proof -
  obtain r where r: "foldM_o (impact_step acc k1 b) ([], [], None) dict = Ok r" using impact_steps_Ok [OF assms(1,2)] by blast
  obtain entries impacts last where re: "r = (entries, impacts, last)" by (metis prod_cases3)
  let ?n = "length entries mod U32"
  have "i * 512 < length entries" if "i < (?n + 512 - 1) div 512" for i
  proof -
    have "i * 512 < ?n" using slot_start [of 512 i ?n] that by simp
    also have "\<dots> \<le> length entries" by (rule mod_less_eq_dividend)
    finally show ?thesis .
  qed
  then have sparse: "mapM_o (\<lambda>i. map_ok (to_le 8 \<circ> fst) (nth_p entries (i * 512))) [0..<(?n + 512 - 1) div 512]
      = (Ok (map (\<lambda>i. to_le 8 (fst (entries ! (i * 512)))) [0..<(?n + 512 - 1) div 512]) :: bytes list io)"
    by (intro mapM_o_map) simp
  then show ?thesis
    unfolding write_impacts_def if_not_P [OF assms(3)] r re bind_o.simps prod.case Let_def sparse_stride_def sparse by blast
qed

text \<open>How long the sidecar of a corpus is.\<close>

definition sidecar_size :: "text_env \<Rightarrow> tokenizer \<Rightarrow> rstring list \<Rightarrow> nat" where
  "sidecar_size env tk bodies =
     (let V = vocabulary env tk (enumerate 0 bodies); v = card V in
      64 + (v + 511) div 512 * 8 + v * 20 + (\<Sum>t \<in> V. card (holders env tk (enumerate 0 bodies) t)))"

lemma card_holders: "card (holders env tk (enumerate 0 bodies) t) = length (occurrences env tk bodies t)"
proof -
  have "holders env tk (enumerate 0 bodies) t = set (filter (\<lambda>d. t \<in> set (tokenize env tk (bodies ! d))) [0..<length bodies])"
    by (auto simp: holders_enumerate)
  then show ?thesis by (simp only: occurrences_def length_map) (rule distinct_card, simp)
qed

lemma written_size:
  assumes acc: "accumulate env tk bodies = Ok acc" and w: "write_impacts dict acc k1 b = Ok ib" and n: "length dict < U32"
    and d: "distinct (map fst dict)" "set (map fst dict) = vocabulary env tk (enumerate 0 bodies)"
  shows "length ib = sidecar_size env tk bodies"
proof -
  let ?V = "vocabulary env tk (enumerate 0 bodies)" and ?H = "holders env tk (enumerate 0 bodies)"
  have v: "card ?V = length dict" using distinct_card [OF d(1)] d(2) by simp
  have imp: "length (term_impacts acc k1 b t) = card (?H t)" if mem: "t \<in> fst ` set dict" for t
  proof -
    have "ia_terms acc t \<noteq> None" using written_impact_parts(3) [OF w n] mem by force
    then have "ia_terms acc t = Some (occurrences env tk bodies t)" using accumulated [OF acc] by (auto split: if_splits)
    then show ?thesis by (simp add: term_impacts_def card_holders)
  qed
  have "length (concat (map (term_impacts acc k1 b \<circ> fst) dict)) = sum_list (map (\<lambda>t. card (?H t)) (map fst dict))"
    using imp by (simp add: length_concat comp_def cong: map_cong)
  also have "\<dots> = (\<Sum>t \<in> ?V. card (?H t))" using sum_list_distinct_conv_sum_set [OF d(1)] d(2) by metis
  finally have i: "length (concat (map (term_impacts acc k1 b \<circ> fst) dict)) = (\<Sum>t \<in> ?V. card (?H t))" .
  let ?rows = "impact_rows acc k1 b dict" and ?c = "(length dict + 511) div 512"
  have e: "length (concat (map impact_entry_bytes ?rows)) = length dict * 20"
    by (subst concat_rows_length [of _ _ 20]) (simp_all add: impact_rows_simps)
  have sp: "length (concat (map (\<lambda>i. to_le 8 (fst (?rows ! (i * 512)))) [0..<?c])) = ?c * 8"
    by (subst concat_rows_length [of _ _ 8]) simp_all
  show ?thesis
    unfolding written_impact_parts(1) [OF w n] sidecar_size_def Let_def v
    using i e sp rrsb_header_fields(1) by (simp only: length_append length_map)
qed

section \<open>The index and its sidecar together\<close>

lemma ranked_index:
  assumes "fst_maps api" "roaring deser ser" "term_input um env cfg (enumerate 0 bodies)"
    and "write_term_index_with env api ser (enumerate 0 bodies) cfg = Ok bs" "bootable um bs"
    and ac: "accumulate env (cfg_tokenizer cfg) bodies = Ok acc" and ne: "bodies \<noteq> []"
    and size: "sidecar_size env (cfg_tokenizer cfg) bodies < um" and k1: "scale_ok k1" and ln: "ln_ok ln64"
  defines "H \<equiv> holders env (cfg_tokenizer cfg) (enumerate 0 bodies)"
  obtains ti dict ib ix gs ps where "ti_open um api (mem_read um (mem_new bs)) = Ok ti"
    "dict_terms um (mem_read um (mem_new bs)) ti = Ok dict" "write_impacts dict acc k1 b = Ok ib"
    "impact_open um (mem_read um (mem_new ib)) = Ok ix" "term_file um bs ser ti gs (map snd ps)"
    "map fst (concat gs) = map (utf8_bytes \<circ> fst) ps" "collects ps H"
    "\<forall>s. tokenize env (ti_tokenizer ti) s = tokenize env (cfg_tokenizer cfg) s"
    "\<And>ts gs' ids k. \<forall>t \<in> set ts. list_all scalar t \<and> term_loc gs t \<noteq> None \<Longrightarrow> ts \<noteq> []
       \<Longrightarrow> list_all2 (\<lambda>t g. ranks_alike ids (H t) g) ts gs'
       \<Longrightarrow> rerank um ln64 (mem_read um (mem_new ib)) ix (zip (term_offs gs ts) gs') ids k
         = Ok (best_docs k (bm25_score ln64 env (cfg_tokenizer cfg) bodies k1 b ts) ids)"
proof -
  let ?f = "mem_read um (mem_new bs)" and ?tk = "cfg_tokenizer cfg"
  have um: "um \<le> U64" "length bs < um" using assms(3,5) by (simp_all add: term_input_def bootable_def)
  obtain ti gs ps where t: "ti_open um api ?f = Ok ti" "term_file um bs ser ti gs (map snd ps)"
    "map fst (concat gs) = map (utf8_bytes \<circ> fst) ps" "collects ps H"
    "\<forall>s. tokenize env (ti_tokenizer ti) s = tokenize env ?tk s"
    "tk_case_fold (ti_tokenizer ti) \<longleftrightarrow> \<not> tc_case_sensitive cfg" "length ps < U32"
    "sorted_wrt (<) (map (\<lambda>e. fst (snd e)) (concat gs))"
    unfolding H_def by (rule written_index [OF assms(1-5)])
  note rows = dict_rows [OF t(2-4)]
  define dict where "dict = map (\<lambda>(k, off, _). (the (utf8_strict k), off)) (concat gs)"
  have di: "dict_terms um ?f ti = Ok dict"
    unfolding dict_def using full_fetch.dict_terms_ok [OF memf.full_fetch_axioms t(2) _ rows(1)] um(2) by blast
  note rows' = rows(2-4) [folded dict_def]
  have n: "length dict < U32" using rows'(1) t(7) by simp
  have heads: "\<forall>(t, h) \<in> set dict. h < U64"
    using rows'(1,2) by (metis (mono_tags, lifting) case_prodI2 in_set_conv_nth snd_conv)
  have fsts: "map fst dict = map fst ps" using rows'(1,2) by (intro nth_equalityI) simp_all
  have snds: "map snd dict = map (\<lambda>e. fst (snd e)) (concat gs)" by (simp add: dict_def comp_def case_prod_beta)
  have "key_sorted ps" using t(4) by (simp add: collects_def)
  then have d: "distinct (map fst dict)" unfolding fsts by (rule key_sorted_distinct)
  have vocab: "set (map fst dict) = vocabulary env ?tk (enumerate 0 bodies)"
  proof -
    have "u \<in> fst ` set ps \<longleftrightarrow> H u \<noteq> {}" for u by (simp add: image_iff Bex_def split_paired_Ex collected [OF t(4)])
    then show ?thesis unfolding fsts by (auto simp: H_def holders_empty)
  qed
  have stats: "\<forall>(u, h) \<in> set dict. \<exists>l. ia_terms acc u = Some l \<and> (\<forall>(d, n) \<in> set l. d < length (ia_doc_lens acc))"
  proof (clarify)
    fix u h assume "(u, h) \<in> set dict"
    then have "u \<in> vocabulary env ?tk (enumerate 0 bodies)" using vocab by force
    then have "holders env ?tk (enumerate 0 bodies) u \<noteq> {}" by (simp add: holders_empty)
    then have "occurrences env ?tk bodies u \<noteq> []" by (auto simp: holders_enumerate occurrences_def filter_empty_conv)
    then show "\<exists>l. ia_terms acc u = Some l \<and> (\<forall>(d, n) \<in> set l. d < length (ia_doc_lens acc))"
      using accumulated [OF ac] by (auto simp: occurrences_def)
  qed
  have lens: "ia_doc_lens acc \<noteq> []" using accumulated [OF ac] ne by simp
  obtain ib where w: "write_impacts dict acc k1 b = Ok ib" using write_impacts_Ok [OF _ stats lens] snds t(8) by auto
  have ib: "length ib < um" using written_size [OF ac w n d vocab] size by simp
  let ?g = "mem_read um (mem_new ib)"
  obtain ix where ix: "impact_open um ?g = Ok ix" "impact_file um ib ix (impact_rows acc k1 b dict)"
    "ii_scale ix = fl_add F32 k1 (fl_of_nat F32 1)" "ii_doc_count ix = length bodies"
    "\<And>t off. (t, off) \<in> set dict \<Longrightarrow>
       impact_at ib ix (impact_rows acc k1 b dict) (holders env ?tk (enumerate 0 bodies)) (doc_impact env ?tk bodies k1 b) t off"
    by (rule impacts_at [OF ac w n heads ib um(1) k1]) (rule that; (assumption | blast))
  have card: "card (H t) \<le> length bodies" for t
    unfolding H_def card_holders using length_filter_le [of _ "[0..<length bodies]"] by (simp add: occurrences_def)
  have few: "length bodies < U32" using accumulated [OF ac] by simp
  obtain sc where sc: "fl_add F32 k1 (fl_of_nat F32 1) = Fin False sc" "0 < sc" by (rule scale_ok_bits [OF k1])
  show thesis
  proof (rule that [OF t(1) di w ix(1) t(2-5)])
    fix ts gs' ids k
    assume ts: "\<forall>t \<in> set ts. list_all scalar t \<and> term_loc gs t \<noteq> None" "ts \<noteq> []"
      and alike: "list_all2 (\<lambda>t g. ranks_alike ids (H t) g) ts gs'"
    have "impact_at ib ix (impact_rows acc k1 b dict) H (doc_impact env ?tk bodies k1 b) t (fst (the (term_loc gs t)))" if mem: "t \<in> set ts" for t
    proof -
      obtain off sz where l: "term_loc gs t = Some (off, sz)" using ts(1) mem by fastforce
      have "(t, off) \<in> set dict" using rows'(3) [OF _ l] ts(1) mem rows'(1) by (metis nth_mem)
      then show ?thesis using ix(5) l by (simp add: H_def)
    qed
    then have at: "list_all2 (impact_at ib ix (impact_rows acc k1 b dict) H (doc_impact env ?tk bodies k1 b)) ts (term_offs gs ts)"
      by (simp add: list_all2_map2 list_all2_same)
    have "fl_nonneg (term_score ln64 (ii_scale ix) (ii_doc_count ix) H (doc_impact env ?tk bodies k1 b) ts d)" for d
      unfolding ix(3,4) sc(1) using ln sc(2) card few quantize_impact_byte
      by (intro term_score_nonneg) (simp_all add: doc_impact_def Let_def)
    then have num: "\<forall>d \<in> set ids. term_score ln64 (ii_scale ix) (ii_doc_count ix) H (doc_impact env ?tk bodies k1 b) ts d \<noteq> NaN"
      by (metis fl_nonneg_simps(1))
    show "rerank um ln64 ?g ix (zip (term_offs gs ts) gs') ids k = Ok (best_docs k (bm25_score ln64 env ?tk bodies k1 b ts) ids)"
      using full_fetch.rerank_terms [OF memf.full_fetch_axioms ix(2) ib _ ts(2) at alike num]
      unfolding bm25_score_def ix(3,4) H_def by simp
  qed
qed

section \<open>Properties\<close>

definition demo_bodies :: "rstring list" where "demo_bodies = [[97, 32, 98], [98]]"

definition split_config :: term_config where
  "split_config = demo_config\<lparr>tc_head_boundary := 1\<rparr>"

lemma split_cfg_tokenizer: "cfg_tokenizer split_config = tokenizer_with None False False True"
  by (simp add: cfg_tokenizer_def split_config_def demo_config_def)

lemma demo_bodies_built: "foldl (tb_add demo_env) (tb_new split_config) (enumerate 0 demo_bodies)
  = \<lparr>tb_postings = [([97], {0}), ([98], {1, 0})], tb_tokenizer = tokenizer_with None False False True, tb_config = split_config\<rparr>"
  by (simp add: demo_bodies_def tb_new_def tb_add_def split_config_def demo_config_def demo_tokens utf8_bytes_def utf8_char_def)

lemma split_encodings: "length (format_encode {0}) = 18" "length (format_encode {Suc 0}) = 18"
  by (simp_all add: format_encode_def length_assemble data_start_def encode_piece_def encode_body_def Let_def)

lemma demo_bodies_boot:
  obtains bs where "write_term_index_with demo_env list_codec format_encode (enumerate 0 demo_bodies) split_config = Ok bs" "bootable U64 bs"
proof -
  let ?rb = "enc_block [([98], 0, pack_loc 0 10)]"
  let ?P = "ascii ''RRTI'' @ to_le 2 rrti_version @ to_le 2 0 @ to_le 4 2 @ to_le 4 1"
  let ?R = "to_le 8 10 @ to_le 4 4096 @ [0, 0, 0, 0] @ ?rb @ [0, 1, 97, 0, 18, 0, 1, 98, 30, 18]
      @ to_le 4 8 @ format_encode {0} @ format_encode {} @ to_le 4 18 @ format_encode {0} @ format_encode {1}"
  let ?bs = "?P @ to_le 8 (length ?rb) @ ?R"
  have cut: "{0} - {0..<1} = ({} :: nat set)" "{0..<1} \<inter> {0} = {0 :: nat}" "{1, 0} - {0..<1} = {1 :: nat}" "{0..<1} \<inter> {1, 0} = {0 :: nat}" "{Suc 0, 0} - {0} = {Suc 0}" by auto
  have ten: "Suc (Suc (Suc (Suc (Suc (Suc (Suc (Suc (Suc (Suc 0))))))))) = 10" "Suc (Suc 0) = 2" by simp_all
  have w: "write_term_index_with demo_env list_codec format_encode (enumerate 0 demo_bodies) split_config = Ok ?bs"
    unfolding write_term_index_with_def demo_bodies_built tb_finish_def
    by (simp add: write_term_index_from_postings_def split_posting_def Let_def tw_push_def tw_new_def bw_new_def split_config_def demo_config_def
      demo_encodings split_encodings bw_push_def bw_seal_full_def bw_flush_def utf8_bytes_def utf8_char_def size_bits_def entry_len_def demo_varints demo_varint_lengths default_block_cap_def
      tw_finish_meta_def bw_finish_def router_step_def list_codec_def header_flags_def header_language_def rrti_magic_def map_ok_Ok_iff cut ten)
  have rb: "length ?rb \<le> 65"
    using codec_length [of "[([98], pack_loc 0 10)]"] by (simp add: pack_loc_def)
  have "u64_at ?bs 16 = length ?rb" by (rule u64_at_mid) (use rb in simp_all)
  then have "bootable U64 ?bs" using rb demo_encodings split_encodings by (simp add: bootable_def max_resident_router_def)
  then show thesis by (rule that [OF w])
qed

lemma demo_bodies_tokens:
  "holders demo_env (tokenizer_with None False False True) (enumerate 0 demo_bodies) [97] = {0}"
  "holders demo_env (tokenizer_with None False False True) (enumerate 0 demo_bodies) [98] = {0, 1}"
  "holders demo_env (tokenizer_with None False False True) (enumerate 0 demo_bodies) [99] = {}"
  "vocabulary demo_env (tokenizer_with None False False True) (enumerate 0 demo_bodies) = {[97], [98]}"
  "tokenize demo_env (tokenizer_with None False False True) [97, 32, 98, 32, 99] = [[97], [98], [99]]"
proof -
  show "tokenize demo_env (tokenizer_with None False False True) [97, 32, 98, 32, 99] = [[97], [98], [99]]"
    by (simp add: demo_env_def tokenize_def tokenizer_with_def tokenize_with_def token_step_def)
qed (auto simp: holders_def vocabulary_def demo_bodies_def demo_tokens)

lemma demo_bodies_input: "term_input U64 demo_env split_config (enumerate 0 demo_bodies)"
  unfolding term_input_def split_cfg_tokenizer demo_bodies_tokens
  by (simp add: valid_text_def demo_env_def scalar_def demo_bodies_def split_config_def demo_config_def utf8_bytes_def utf8_char_def)

lemma demo_bodies_accumulate: "\<exists>acc. accumulate demo_env (tokenizer_with None False False True) demo_bodies = Ok acc"
  by (simp add: accumulate_def demo_bodies_def add_doc_def acc_new_def demo_tokens count_token_def Let_def utf8_bytes_def utf8_char_def)

lemma demo_bodies_sidecar: "sidecar_size demo_env (tokenizer_with None False False True) demo_bodies < U64"
  by (simp add: sidecar_size_def Let_def demo_bodies_tokens)

text \<open>A scale of two, and a stand-in for the logarithm.\<close>

lemma demo_scale: "scale_ok (fl_of_nat F32 1)"
proof -
  have one: "fl_of_nat F32 1 = Fin False (2 ^ 149)" using fl_of_nat_exact [of 1 F32] by simp
  have "fl_round F32 False (2 * 2 ^ 149) 1 = Fin False (2 * 2 ^ 149)" by (rule fl_round_scaled) simp_all
  then have "fl_add F32 (fl_of_nat F32 1) (fl_of_nat F32 1) = Fin False (2 * 2 ^ 149)" unfolding one by (simp add: fl_int_def)
  then show ?thesis by (simp add: scale_ok_def fl_is_finite_def fl_nonpos_def)
qed

lemma demo_ln: "ln_ok (\<lambda>x. x)"
proof -
  have one: "fl_of_nat F64 1 = Fin False (2 ^ 1074)" using fl_of_nat_exact [of 1 F64] by simp
  define u where "u = (2 :: nat) ^ 1074"
  have "fl_nonneg x" if "x \<noteq> NaN" "fl_rank (Fin False u) \<le> fl_rank x" for x
  proof -
    have "0 < u" by (simp add: u_def)
    then show ?thesis using that by (cases x) (auto simp: fl_int_def split: if_splits)
  qed
  then show ?thesis by (simp add: ln_ok_def one [simplified] u_def)
qed

definition min_match_spec :: "(rstring \<Rightarrow> nat set) \<Rightarrow> rstring list \<Rightarrow> nat \<Rightarrow> nat \<Rightarrow> nat list" where
  "min_match_spec H ts m min_match =
     (let present = filter (\<lambda>t. H t \<noteq> {}) ts in
      if present = [] then [] else first_docs m (at_least (min (length present) (max 1 min_match)) H present))"

text \<open>
  C38: BM25 search over an index and sidecar written from the same documents is exact: the sidecar opens,
  and a query is answered by the \<open>k\<close> best, by descending BM25 score and ascending number, of the first
  \<open>m\<close> documents that hold every token of the query, each with its score: the sum, over the distinct
  tokens in byte order, of the inverse document frequency times the impact the document's term
  frequency and length give.  No comparison meets a NaN.
\<close>

theorem bm25_search_exact:
  assumes "fst_maps api" "roaring deser ser" "term_input um env cfg (enumerate 0 bodies)"
    and "write_term_index_with env api ser (enumerate 0 bodies) cfg = Ok bs" "bootable um bs"
    and "accumulate env (cfg_tokenizer cfg) bodies = Ok acc" "bodies \<noteq> []"
    and "sidecar_size env (cfg_tokenizer cfg) bodies < um" "scale_ok k1" "ln_ok ln64"
  shows "\<exists>ti dict ib ix. ti_open um api (mem_read um (mem_new bs)) = Ok ti
     \<and> dict_terms um (mem_read um (mem_new bs)) ti = Ok dict \<and> write_impacts dict acc k1 b = Ok ib
     \<and> impact_open um (mem_read um (mem_new ib)) = Ok ix
     \<and> (\<forall>query m k. list_all scalar query \<longrightarrow>
          (let ts = distinct_terms (tokenize env (cfg_tokenizer cfg) query) in
           search_bm25 um env deser ln64 (mem_read um (mem_new bs)) ti (mem_read um (mem_new ib)) ix query m k
             = Ok (best_docs k (bm25_score ln64 env (cfg_tokenizer cfg) bodies k1 b ts)
                 (search_spec (holders env (cfg_tokenizer cfg) (enumerate 0 bodies)) ts m))))"
proof -
  let ?tk = "cfg_tokenizer cfg" and ?f = "mem_read um (mem_new bs)"
  let ?H = "holders env ?tk (enumerate 0 bodies)"
  obtain ti dict ib ix gs ps where w: "ti_open um api ?f = Ok ti" "dict_terms um ?f ti = Ok dict" "write_impacts dict acc k1 b = Ok ib"
    and r: "impact_open um (mem_read um (mem_new ib)) = Ok ix" "term_file um bs ser ti gs (map snd ps)"
    "map fst (concat gs) = map (utf8_bytes \<circ> fst) ps" "collects ps ?H" "\<forall>s. tokenize env (ti_tokenizer ti) s = tokenize env ?tk s"
    "\<And>ts gs' ids k. \<forall>t \<in> set ts. list_all scalar t \<and> term_loc gs t \<noteq> None \<Longrightarrow> ts \<noteq> []
       \<Longrightarrow> list_all2 (\<lambda>t g. ranks_alike ids (?H t) g) ts gs'
       \<Longrightarrow> rerank um ln64 (mem_read um (mem_new ib)) ix (zip (term_offs gs ts) gs') ids k = Ok (best_docs k (bm25_score ln64 env ?tk bodies k1 b ts) ids)"
    by (rule ranked_index [OF assms]) (rule that; (assumption | blast))
  have st: "posting_store ?f bs um deser ser" by (intro posting_store.intro memf.full_fetch_axioms assms(2))
  have v: "valid_text env" "length bs < um" using assms(3,5) by (simp_all add: term_input_def bootable_def)
  have "search_bm25 um env deser ln64 ?f ti (mem_read um (mem_new ib)) ix query m k
      = Ok (best_docs k (bm25_score ln64 env ?tk bodies k1 b (distinct_terms (tokenize env ?tk query)))
          (search_spec ?H (distinct_terms (tokenize env ?tk query)) m))" if q: "list_all scalar query" for query m k
  proof -
    have sc: "\<forall>t \<in> set (tokenize env (ti_tokenizer ti) query). list_all scalar t" using tokenize_scalar [OF v(1) q] r(5) by simp
    note qt = distinct_terms_query [OF r(5)]
    show ?thesis
      unfolding qt [symmetric]
      by (rule posting_store.search_bm25_ok [OF st r(2-4) sc v(2)], rule r(6)) (use sc in simp_all)
  qed
  then show ?thesis using w r(1) by (auto simp: Let_def)
qed

lemma bm25_search_exact_witness:
  "\<exists>bs ti dict acc ib ix. write_term_index_with demo_env list_codec format_encode (enumerate 0 demo_bodies) split_config = Ok bs
     \<and> ti_open U64 list_codec (mem_read U64 (mem_new bs)) = Ok ti
     \<and> write_impacts dict acc (fl_of_nat F32 1) (fl_of_nat F32 1) = Ok ib \<and> impact_open U64 (mem_read U64 (mem_new ib)) = Ok ix
     \<and> search_bm25 U64 demo_env format_decode (\<lambda>x. x) (mem_read U64 (mem_new bs)) ti (mem_read U64 (mem_new ib)) ix [97, 32, 98] 10 10
       = Ok [(0, bm25_score (\<lambda>x. x) demo_env (tokenizer_with None False False True) demo_bodies (fl_of_nat F32 1) (fl_of_nat F32 1) [[97], [98]] 0)]"
proof -
  obtain bs where bs: "write_term_index_with demo_env list_codec format_encode (enumerate 0 demo_bodies) split_config = Ok bs" "bootable U64 bs"
    by (rule demo_bodies_boot)
  obtain acc where acc: "accumulate demo_env (cfg_tokenizer split_config) demo_bodies = Ok acc"
    using demo_bodies_accumulate unfolding split_cfg_tokenizer by blast
  have ne: "demo_bodies \<noteq> []" and sc: "list_all scalar [97, 32, 98]" by (simp_all add: demo_bodies_def scalar_def)
  note exact = bm25_search_exact [OF listfst.fst_maps_axioms format.roaring_axioms demo_bodies_input bs acc ne
      demo_bodies_sidecar [folded split_cfg_tokenizer] demo_scale demo_ln, where b = "fl_of_nat F32 1", unfolded split_cfg_tokenizer Let_def]
  have spec: "search_spec (holders demo_env (tokenizer_with None False False True) (enumerate 0 demo_bodies)) [[97], [98]] 10 = [0]"
    by (simp add: search_spec_def demo_bodies_tokens first_docs_def)
  have terms: "distinct_terms [[97], [98]] = [[97], [98]]" by (simp add: distinct_terms_def utf8_bytes_def utf8_char_def)
  obtain ti dict ib ix where x: "ti_open U64 list_codec (mem_read U64 (mem_new bs)) = Ok ti"
    "write_impacts dict acc (fl_of_nat F32 1) (fl_of_nat F32 1) = Ok ib" "impact_open U64 (mem_read U64 (mem_new ib)) = Ok ix"
    "\<forall>query m k. list_all scalar query \<longrightarrow>
       search_bm25 U64 demo_env format_decode (\<lambda>x. x) (mem_read U64 (mem_new bs)) ti (mem_read U64 (mem_new ib)) ix query m k
         = Ok (best_docs k (bm25_score (\<lambda>x. x) demo_env (tokenizer_with None False False True) demo_bodies (fl_of_nat F32 1) (fl_of_nat F32 1)
              (distinct_terms (tokenize demo_env (tokenizer_with None False False True) query)))
             (search_spec (holders demo_env (tokenizer_with None False False True) (enumerate 0 demo_bodies))
               (distinct_terms (tokenize demo_env (tokenizer_with None False False True) query)) m))"
    using exact by (elim exE conjE) (rule that; assumption)
  have "best_docs 10 f [0] = [(0, f 0)]" for f by (simp add: best_docs_def)
  then show ?thesis using bs(1) x(1-3) x(4) [rule_format, OF sc, of 10 10] unfolding demo_tokens terms spec by metis
qed

text \<open>
  C39: BM25 search with a minimum of matches is exact: of the query's distinct tokens those that occur in
  no document are dropped; the answer is the \<open>k\<close> best of the first \<open>m\<close> documents that hold at least
  the asked number of the rest, the number brought between one and how many they are.
\<close>

theorem bm25_min_match_exact:
  assumes "fst_maps api" "roaring deser ser" "term_input um env cfg (enumerate 0 bodies)"
    and "write_term_index_with env api ser (enumerate 0 bodies) cfg = Ok bs" "bootable um bs"
    and "accumulate env (cfg_tokenizer cfg) bodies = Ok acc" "bodies \<noteq> []"
    and "sidecar_size env (cfg_tokenizer cfg) bodies < um" "scale_ok k1" "ln_ok ln64"
  shows "\<exists>ti dict ib ix. ti_open um api (mem_read um (mem_new bs)) = Ok ti
     \<and> dict_terms um (mem_read um (mem_new bs)) ti = Ok dict \<and> write_impacts dict acc k1 b = Ok ib
     \<and> impact_open um (mem_read um (mem_new ib)) = Ok ix
     \<and> (\<forall>query m k min_match. list_all scalar query \<longrightarrow>
          (let ts = distinct_terms (tokenize env (cfg_tokenizer cfg) query); H = holders env (cfg_tokenizer cfg) (enumerate 0 bodies) in
           search_bm25_min_match um env deser ln64 (mem_read um (mem_new bs)) ti (mem_read um (mem_new ib)) ix query m k min_match
             = Ok (best_docs k (bm25_score ln64 env (cfg_tokenizer cfg) bodies k1 b (filter (\<lambda>t. H t \<noteq> {}) ts))
                 (min_match_spec H ts m min_match))))"
proof -
  let ?tk = "cfg_tokenizer cfg" and ?f = "mem_read um (mem_new bs)"
  let ?H = "holders env ?tk (enumerate 0 bodies)"
  obtain ti dict ib ix gs ps where w: "ti_open um api ?f = Ok ti" "dict_terms um ?f ti = Ok dict" "write_impacts dict acc k1 b = Ok ib"
    and r: "impact_open um (mem_read um (mem_new ib)) = Ok ix" "term_file um bs ser ti gs (map snd ps)"
    "map fst (concat gs) = map (utf8_bytes \<circ> fst) ps" "collects ps ?H" "\<forall>s. tokenize env (ti_tokenizer ti) s = tokenize env ?tk s"
    "\<And>ts gs' ids k. \<forall>t \<in> set ts. list_all scalar t \<and> term_loc gs t \<noteq> None \<Longrightarrow> ts \<noteq> []
       \<Longrightarrow> list_all2 (\<lambda>t g. ranks_alike ids (?H t) g) ts gs'
       \<Longrightarrow> rerank um ln64 (mem_read um (mem_new ib)) ix (zip (term_offs gs ts) gs') ids k = Ok (best_docs k (bm25_score ln64 env ?tk bodies k1 b ts) ids)"
    by (rule ranked_index [OF assms]) (rule that; (assumption | blast))
  have st: "posting_store ?f bs um deser ser" by (intro posting_store.intro memf.full_fetch_axioms assms(2))
  have v: "valid_text env" "length bs < um" using assms(3,5) by (simp_all add: term_input_def bootable_def)
  have "search_bm25_min_match um env deser ln64 ?f ti (mem_read um (mem_new ib)) ix query m k min_match
      = Ok (best_docs k (bm25_score ln64 env ?tk bodies k1 b (filter (\<lambda>t. ?H t \<noteq> {}) (distinct_terms (tokenize env ?tk query))))
          (min_match_spec ?H (distinct_terms (tokenize env ?tk query)) m min_match))" if q: "list_all scalar query" for query m k min_match
  proof -
    have sc: "\<forall>t \<in> set (tokenize env (ti_tokenizer ti) query). list_all scalar t" using tokenize_scalar [OF v(1) q] r(5) by simp
    note qt = distinct_terms_query [OF r(5)]
    show ?thesis
      unfolding qt [symmetric] min_match_spec_def Let_def
      by (rule posting_store.search_bm25_min_match_ok [OF st r(2-4) sc v(2)], rule r(6)) (use sc in simp_all)
  qed
  then show ?thesis using w r(1) by (auto simp: Let_def)
qed

lemma bm25_min_match_exact_witness:
  "\<exists>bs ti dict acc ib ix. write_term_index_with demo_env list_codec format_encode (enumerate 0 demo_bodies) split_config = Ok bs
     \<and> ti_open U64 list_codec (mem_read U64 (mem_new bs)) = Ok ti
     \<and> write_impacts dict acc (fl_of_nat F32 1) (fl_of_nat F32 1) = Ok ib \<and> impact_open U64 (mem_read U64 (mem_new ib)) = Ok ix
     \<and> search_bm25_min_match U64 demo_env format_decode (\<lambda>x. x) (mem_read U64 (mem_new bs)) ti (mem_read U64 (mem_new ib)) ix [97, 32, 98, 32, 99] 10 10 2
       = Ok [(0, bm25_score (\<lambda>x. x) demo_env (tokenizer_with None False False True) demo_bodies (fl_of_nat F32 1) (fl_of_nat F32 1) [[97], [98]] 0)]"
proof -
  obtain bs where bs: "write_term_index_with demo_env list_codec format_encode (enumerate 0 demo_bodies) split_config = Ok bs" "bootable U64 bs"
    by (rule demo_bodies_boot)
  obtain acc where acc: "accumulate demo_env (cfg_tokenizer split_config) demo_bodies = Ok acc"
    using demo_bodies_accumulate unfolding split_cfg_tokenizer by blast
  have ne: "demo_bodies \<noteq> []" and sc: "list_all scalar [97, 32, 98, 32, 99]" by (simp_all add: demo_bodies_def scalar_def)
  note exact = bm25_min_match_exact [OF listfst.fst_maps_axioms format.roaring_axioms demo_bodies_input bs acc ne
      demo_bodies_sidecar [folded split_cfg_tokenizer] demo_scale demo_ln, where b = "fl_of_nat F32 1", unfolded split_cfg_tokenizer Let_def]
  let ?H = "holders demo_env (tokenizer_with None False False True) (enumerate 0 demo_bodies)"
  have present: "filter (\<lambda>t. ?H t \<noteq> {}) [[97], [98], [99]] = [[97], [98]]" by (simp add: demo_bodies_tokens)
  have both: "at_least (min (length [[97], [98 :: nat]]) (max 1 2)) ?H [[97], [98]] = {0}"
    by (auto simp: at_least_def demo_bodies_tokens split: if_splits)
  have spec: "min_match_spec ?H [[97], [98], [99]] 10 2 = [0]"
    unfolding min_match_spec_def present Let_def both by (simp add: first_docs_def)
  have terms: "distinct_terms [[97], [98], [99]] = [[97], [98], [99]]" by (simp add: distinct_terms_def utf8_bytes_def utf8_char_def)
  obtain ti dict ib ix where x: "ti_open U64 list_codec (mem_read U64 (mem_new bs)) = Ok ti"
    "write_impacts dict acc (fl_of_nat F32 1) (fl_of_nat F32 1) = Ok ib" "impact_open U64 (mem_read U64 (mem_new ib)) = Ok ix"
    "\<forall>query m k min_match. list_all scalar query \<longrightarrow>
       search_bm25_min_match U64 demo_env format_decode (\<lambda>x. x) (mem_read U64 (mem_new bs)) ti (mem_read U64 (mem_new ib)) ix query m k min_match
         = Ok (best_docs k (bm25_score (\<lambda>x. x) demo_env (tokenizer_with None False False True) demo_bodies (fl_of_nat F32 1) (fl_of_nat F32 1)
              (filter (\<lambda>t. holders demo_env (tokenizer_with None False False True) (enumerate 0 demo_bodies) t \<noteq> {})
                (distinct_terms (tokenize demo_env (tokenizer_with None False False True) query))))
             (min_match_spec (holders demo_env (tokenizer_with None False False True) (enumerate 0 demo_bodies))
               (distinct_terms (tokenize demo_env (tokenizer_with None False False True) query)) m min_match))"
    using exact by (elim exE conjE) (rule that; assumption)
  have "best_docs 10 f [0] = [(0, f 0)]" for f by (simp add: best_docs_def)
  then show ?thesis using bs(1) x(1-3) x(4) [rule_format, OF sc, of 10 10 2] unfolding demo_bodies_tokens(5) terms present spec by metis
qed

section \<open>The offset of a stripe\<close>

text \<open>
  An opened sidecar, whatever its fetcher returned: what the look-ups may rely on is its stride, the
  number of its sparse keys and the widths of its fields. Nothing bounds where its entries begin.
\<close>

lemma impact_open_sound:
  assumes "impact_open um g = Ok ix"
  shows "0 < ii_stride ix" "ii_stride ix < U32" "ii_term_count ix < U32" "ii_entries_off ix < U64"
    "length (ii_sparse ix) = (ii_term_count ix + ii_stride ix - 1) div ii_stride ix"
proof -
  obtain header where h: "0 < u32_at header 28" "ii_stride ix = u32_at header 28" "ii_term_count ix = u32_at header 24"
      "ii_entries_off ix = u64_at header 32"
      "length (ii_sparse ix) = (u32_at header 24 + u32_at header 28 - 1) div u32_at header 28"
    using assms
    by (auto simp: impact_open_def Let_def read_u32_def read_u64_def bind_o_Ok_iff map_ok_Ok_iff mapM_o_Ok_iff dest!: list_all2_lengthD split: if_splits)
  show "0 < ii_stride ix" "ii_stride ix < U32" "ii_term_count ix < U32" "ii_entries_off ix < U64"
    "length (ii_sparse ix) = (ii_term_count ix + ii_stride ix - 1) div ii_stride ix"
    using h u32_at_less [of header] u64_at_less [of header] by simp_all
qed

definition stripe_slot :: "nat list \<Rightarrow> nat \<Rightarrow> nat" where
  "stripe_slot sparse h = length (takeWhile (\<lambda>x. x \<le> h) sparse) - 1"

lemma stripe_slot_bsearch:
  assumes "sorted_wrt (<) sparse"
  shows "(case bsearch sparse h of Inl i \<Rightarrow> i | Inr i \<Rightarrow> i - 1) = stripe_slot sparse h"
proof -
  have less: "i < j \<Longrightarrow> j < length sparse \<Longrightarrow> sparse ! i < sparse ! j" for i j using assms sorted_wrt_nth_less by blast
  have sorted: "sorted sparse" using assms by (simp add: strict_sorted_imp_sorted)
  show ?thesis
  proof (cases "bsearch sparse h")
    case (Inl i)
    then have i: "i < length sparse" "sparse ! i = h" using bsearch_by_Inl [of "\<lambda>x. x"] by auto
    have "takeWhile (\<lambda>x. x \<le> h) sparse = take (Suc i) sparse"
    proof (rule takeWhile_eq_take_P_nth)
      show "sparse ! j \<le> h" if "j < Suc i" "j < length sparse" for j using less [of j i] i that by (cases "j = i") auto
      show "\<not> sparse ! Suc i \<le> h" if "Suc i < length sparse" using less [of i "Suc i"] i that by simp
    qed
    then show ?thesis using i(1) by (simp add: stripe_slot_def Inl)
  next
    case (Inr i)
    then have i: "i \<le> length sparse" "\<And>j. j < i \<Longrightarrow> sparse ! j < h" "\<And>j. i \<le> j \<Longrightarrow> j < length sparse \<Longrightarrow> h < sparse ! j"
      using bsearch_by_Inr [of "\<lambda>x. x" sparse h i] sorted Inr by auto
    have "takeWhile (\<lambda>x. x \<le> h) sparse = take i sparse"
    proof (rule takeWhile_eq_take_P_nth)
      show "sparse ! j \<le> h" if "j < i" "j < length sparse" for j using i(2) [OF that(1)] by simp
      show "\<not> sparse ! i \<le> h" if "i < length sparse" using i(3) [of i] that by simp
    qed
    then show ?thesis using i(1) by (simp add: stripe_slot_def Inr)
  qed
qed

lemma entry_stripe_opened:
  fixes h :: nat
  assumes ix: "impact_open um g = Ok ix" and um: "um = U64" and asc: "sorted_wrt (<) (ii_sparse ix)"
  defines "first \<equiv> stripe_slot (ii_sparse ix) h * ii_stride ix"
  shows "entry_stripe um ix h =
    (if ii_entries_off ix + first * 20 < U64
     then Ok (ii_entries_off ix + first * 20, min (ii_term_count ix - first) (ii_stride ix) * 20, first)
     else Panic)"
proof -
  let ?s = "ii_stride ix" and ?n = "ii_term_count ix" and ?slot = "stripe_slot (ii_sparse ix) h"
  note sound = impact_open_sound [OF ix]
  have slot: "?slot \<le> length (ii_sparse ix) - 1"
    unfolding stripe_slot_def by (intro diff_le_mono length_takeWhile_le)
  have first: "first \<le> ?n"
  proof (cases "?n = 0")
    case True
    then show ?thesis using slot sound(1,5) by (simp add: first_def)
  next
    case False
    then have "length (ii_sparse ix) - 1 = (?n - 1) div ?s" 
      using sound(1,5) div_add_self2 [of ?s "?n - 1"] by (simp add: add.commute)
    then have "first \<le> (?n - 1) div ?s * ?s" unfolding first_def using slot by (intro mult_right_mono) simp_all
    also have "\<dots> \<le> ?n - 1" by (rule div_times_less_eq_dividend)
    finally show ?thesis by simp
  qed
  have "first < U64" "first * 20 < U64" "min (?n - first) ?s * 20 < U64"
    using first sound(2,3) by (simp_all add: min_def)
  then show ?thesis
    using first by (simp add: entry_stripe_def stripe_slot_bsearch [OF asc] first_def [symmetric] Let_def rrsb_entry_def um add_p_def)
qed

lemma mapM_o_Panic:
  assumes "x \<in> set xs" "f x = Panic" "\<And>y e. y \<in> set xs \<Longrightarrow> f y \<noteq> Err e"
  shows "mapM_o f xs = Panic"
  using assms
proof (induction xs)
  case (Cons y ys)
  then show ?case by (cases "f y") auto
qed simp

text \<open>A sidecar whose entries lie past any file.\<close>

definition hostile_impacts :: bytes where
  "hostile_impacts = rrsb_header_bytes 1065353216 0 0 0 513 (U64 - 1) 0 1 @ to_le 8 0 @ to_le 8 10"

lemma hostile_impacts_open:
  obtains ix where "impact_open U64 (mem_read U64 (mem_new hostile_impacts)) = Ok ix"
    "ii_entries_off ix = U64 - 1" "ii_stride ix = 512" "ii_term_count ix = 513" "ii_sparse ix = [0, 10]"
proof -
  let ?h = "rrsb_header_bytes 1065353216 0 0 0 513 (U64 - 1) 0 1" and ?s = "to_le 8 0 @ to_le 8 10"
  let ?f = "mem_read U64 (mem_new hostile_impacts)"
  let ?scale = "f32_of_bits 1065353216"
  let ?ix = "\<lparr>ii_scale = ?scale, ii_doc_count = 1, ii_term_count = 513, ii_stride = 512,
    ii_entries_off = U64 - 1, ii_impacts_off = 0, ii_sparse = [0, 10]\<rparr>"
  have sc: "fl_is_finite ?scale" "\<not> fl_nonpos ?scale"
    by (simp_all add: f32_of_bits_def Let_def fl_is_finite_def fl_nonpos_def)
  define h where "h = ?h"
  have hf: "length h = 64" "take 4 h = rrsb_magic" "u16_at h 4 = 1" "u32_at h 8 = 1065353216" "u32_at h 24 = 513" "u32_at h 28 = 512"
    "u64_at h 32 = U64 - 1" "u64_at h 40 = 0" "u64_at h 48 = 1"
    unfolding h_def by (intro rrsb_header_fields; simp)+
  have parts: "hostile_impacts = h @ ?s" by (simp add: hostile_impacts_def h_def)
  have "cut hostile_impacts 0 64 = h" using hf(1) by (simp add: cut_def parts)
  then have r1: "rd ?f 0 64 = Ok h"
    using memf.rd_ok [of 0 64 hostile_impacts U64] hf(1) by (simp add: parts del: rd_Ok_iff)
  have "cut hostile_impacts 64 80 = ?s" using cut_mid [OF hf(1) refl, of ?s "[]"] by (simp add: parts)
  then have r2: "rd ?f 64 16 = Ok ?s"
    using memf.rd_ok [of 64 16 hostile_impacts U64] hf(1) by (simp add: parts del: rd_Ok_iff)
  have s: "u64_at ?s 0 = 0" "u64_at ?s 8 = 10" using u64_at_0 [of 0 "to_le 8 10"] u64_at_mid [of "to_le 8 0" 8 10 "[]"] by simp_all
  have opens: "impact_open U64 ?f = Ok ?ix"
    using r1 r2 hf s sc by (simp add: impact_open_def rrsb_header_def Let_def upt_rec del: rd_Ok_iff)
  show ?thesis by (rule that [OF opens]) simp_all
qed

text \<open>
  C40: Whatever the file says, a look-up in an opened sidecar whose sparse keys ascend reads the stripe of
  the last sparse key at most the one looked up: \<open>stride\<close> entries of 20 bytes, or what is left of them,
  from where the file says its entries begin. That sum is added without a check, so the look-up
  panics exactly when it leaves the \<open>u64\<close> range, and a rerank of any candidates panics as soon as one of
  its terms is such a look-up, before a byte is read.
\<close>

theorem impact_lookup_overflows:
  assumes "impact_open U64 g = Ok ix" "sorted_wrt (<) (ii_sparse ix)"
  shows "(\<forall>h. entry_stripe U64 ix h =
       (let first = stripe_slot (ii_sparse ix) h * ii_stride ix in
        if ii_entries_off ix + first * 20 < U64
        then Ok (ii_entries_off ix + first * 20, min (ii_term_count ix - first) (ii_stride ix) * 20, first)
        else Panic))
    \<and> (\<forall>h bm postings candidates k.
        (h, bm) \<in> set postings \<and> candidates \<noteq> [] \<and> 0 < k
          \<and> U64 \<le> ii_entries_off ix + stripe_slot (ii_sparse ix) h * ii_stride ix * 20
        \<longrightarrow> rerank U64 ln64 f ix postings candidates k = Panic)"
proof (intro conjI allI impI)
  note stripe = entry_stripe_opened [OF assms(1) refl assms(2)]
  show "entry_stripe U64 ix h =
       (let first = stripe_slot (ii_sparse ix) h * ii_stride ix in
        if ii_entries_off ix + first * 20 < U64
        then Ok (ii_entries_off ix + first * 20, min (ii_term_count ix - first) (ii_stride ix) * 20, first)
        else Panic)" for h
    unfolding Let_def by (rule stripe)
  fix h k :: nat and bm :: "nat set" and postings and candidates :: "nat list"
  assume hyp: "(h, bm) \<in> set postings \<and> candidates \<noteq> [] \<and> 0 < k
      \<and> U64 \<le> ii_entries_off ix + stripe_slot (ii_sparse ix) h * ii_stride ix * 20"
  have "mapM_o (\<lambda>h. map_ok (\<lambda>(off, len, _). (off, len)) (entry_stripe U64 ix h)) (map fst postings) = Panic"
  proof (rule mapM_o_Panic)
    show "h \<in> set (map fst postings)" using hyp by force
    show "map_ok (\<lambda>(off, len, _). (off, len)) (entry_stripe U64 ix h) = Panic" unfolding stripe using hyp by simp
    show "map_ok (\<lambda>(off, len, _). (off, len)) (entry_stripe U64 ix y) \<noteq> Err e" for y e unfolding stripe by simp
  qed
  then show "rerank U64 ln64 f ix postings candidates k = Panic"
    using hyp by (auto simp: rerank_def impact_entries_def)
qed

theorem impact_lookup_overflows_witness:
  "\<exists>ix. impact_open U64 (mem_read U64 (mem_new hostile_impacts)) = Ok ix
     \<and> entry_stripe U64 ix 9 = Ok (U64 - 1, 10240, 0)
     \<and> entry_stripe U64 ix 10 = Panic
     \<and> rerank U64 (\<lambda>x. x) (mem_read U64 (mem_new hostile_impacts)) ix [(3, {0}), (10, {0})] [0] 1 = Panic"
proof -
  obtain ix where ix: "impact_open U64 (mem_read U64 (mem_new hostile_impacts)) = Ok ix"
    "ii_entries_off ix = U64 - 1" "ii_stride ix = 512" "ii_term_count ix = 513" "ii_sparse ix = [0, 10]"
    by (rule hostile_impacts_open)
  have "sorted_wrt (<) (ii_sparse ix)" by (simp add: ix(5))
  note lookup = impact_lookup_overflows [OF ix(1) this]
  have slots: "stripe_slot [0, 10] 9 = 0" "stripe_slot [0, 10] 10 = 1" by (simp_all add: stripe_slot_def)
  have "entry_stripe U64 ix 9 = Ok (U64 - 1, 10240, 0)" "entry_stripe U64 ix 10 = Panic"
    using lookup [THEN conjunct1, rule_format, of 9] lookup [THEN conjunct1, rule_format, of 10]
    by (simp_all add: ix slots Let_def)
  moreover have "rerank U64 (\<lambda>x. x) (mem_read U64 (mem_new hostile_impacts)) ix [(3, {0}), (10, {0})] [0] 1 = Panic"
    by (rule lookup [THEN conjunct2, rule_format, of 10 "{0}"]) (simp add: ix slots)
  ultimately show ?thesis using ix(1) by blast
qed

end
