(* ===== verification/Spec2Isabelle.thy ===== *)
theory Spec2Isabelle
  imports RR_Range_Cache RR_Fetch_Window RR_Lookup RR_Index_Safe RR_Cursor RR_Sortcols RR_Terms_Safe RR_Facet_Limits RR_Records_Zstd RR_Secondary RR_Hotcache RR_Bm25_Exact
begin

text \<open>
  roaringrange serves search indexes from static files by HTTP range requests: a reader boots from
  a small region of a file, and each query reads the few further ranges it needs.  This library
  models the Rust crate \<open>rust/src\<close>, file formats and readers together with their native writers.

  \<^bold>\<open>How the parts fit.\<close> Every reader is given a \<open>RangeFetch\<close> (\<open>fetch.rs\<close>): a function from an
  offset and a length to bytes or an error.  The text index (\<open>index.rs\<close>, format RRS) keeps a sparse
  dictionary of n-gram keys (\<open>ngram.rs\<close>) resident; a query looks its keys up in dictionary blocks,
  then intersects or counts postings, which are portable Roaring bitmaps read container by container
  (\<open>posting.rs\<close>).  Documents below 65536 are the head, resolved eagerly; the tail is scanned in
  windows (\<open>TailScan\<close>).  A cursor pages through both sides, filtered by facet categories.  Beside it
  stand the facet sidecar (\<open>facet.rs\<close>, format RRSF: fields, their categories and the postings a filter
  reads, written by \<open>build.rs\<close> from what \<open>splitset_build.rs\<close> collects), the identifier lookup
  (\<open>lookup.rs\<close>), the sort columns (\<open>sortcols.rs\<close>) and the term index
  (\<open>terms.rs\<close>, format RRTI): a router FST kept resident, front-coded dictionary blocks
  (\<open>terms_dict.rs\<close>) and postings split at the head boundary, written by \<open>terms_build.rs\<close>.  The record
  store (\<open>records.rs\<close>, format RRSR) maps a result's document to its stored bytes.  A catalog
  (\<open>catalog.rs\<close>) answers one search from a text index, a facet sidecar and a record store; a secondary
  index (\<open>secondary.rs\<close>) pages in another rank order through a permutation column.  A hot cache (\<open>hotcache.rs\<close>, format RRHC)
  bundles the boot regions of a whole composition into one file.  An impact sidecar (\<open>bm25.rs\<close>, format
  RRSB) ranks the answers of a term index by BM25.  In the browser
  reads go through a byte cache (\<open>range_cache.rs\<close>) and an admission gate (\<open>fetch_window.rs\<close>).

  \<^bold>\<open>Theories.\<close>
  \<^item> \<open>RR_Prelude\<close>: outcomes (\<open>Ok\<close>, \<open>Err\<close>, \<open>Panic\<close>), sequencing, \<open>join_all\<close> waves, bounded arithmetic
    (an overflow that the code does not check is a \<open>Panic\<close>), slices, binary search, sorting lemmas.
  \<^item> \<open>RR_Bytes\<close>: errors of \<open>fetch.rs\<close> and \<open>index.rs\<close>, little-endian fields, fixed-width rows.
  \<^item> \<open>RR_Fetch\<close>: the locales \<open>bounded_fetch\<close> (an answer is the requested bytes, and a read of fewer than
    \<open>2 ^ 40\<close> bytes does not panic), \<open>range_fetch\<close> (no read panics) and \<open>full_fetch\<close> (every range inside
    the object is answered), interpreted for \<open>MemoryFetch\<close>; \<open>FileFetch\<close> over a positioned read, a
    \<open>bounded_fetch\<close> on a 64-bit target: it allocates its buffer before it reads, and an allocation
    beyond \<open>isize::MAX\<close> panics; \<open>read_coalesced\<close>.
  \<^item> \<open>RR_Range_Cache\<close>: the byte-budgeted cache, refined to a list in recency order; the cached browser read.
  \<^item> \<open>RR_Fetch_Window\<close>: the gate as an inductive step relation with its invariants.
  \<^item> \<open>RR_Ngram\<close>: words, normalisation and n-gram keys; Unicode tables are parameters.
  \<^item> \<open>RR_Lookup\<close>: reader and writer of the identifier table, by interpolating bisection.
  \<^item> \<open>RR_Roaring\<close>, \<open>RR_Posting\<close>: the container directory of a serialised bitmap and the reads that use
    it; the crate \<open>roaring\<close> is the locale \<open>roaring\<close> (serialise and deserialise are inverse).
  \<^item> \<open>RR_Tail_Scan\<close>: the windowed scan of the tail.
  \<^item> \<open>RR_Index\<close>, \<open>RR_Build\<close>, \<open>RR_Index_Safe\<close>: boot, dictionary and queries of the text index, its writer,
    and what holds for arbitrary bytes.
  \<^item> \<open>RR_Filter\<close>, \<open>RR_Cursor\<close>: the counting threshold, facet filters, and the pagination cursor as
    state-and-error steps.
  \<^item> \<open>RR_Utf8\<close>, \<open>RR_Sortcols\<close>: UTF-8 as the standard library decodes it; the sort-column store.
  \<^item> \<open>RR_Terms_Dict\<close>: varints and the front-coded blocks of the term dictionary.
  \<^item> \<open>RR_Tokenizer\<close>: languages and the token filters; Unicode, stemmers and stop-word files are parameters.
  \<^item> \<open>RR_Terms\<close>: writer and reader of the term index; the crate \<open>fst\<close> is the locale \<open>fst_maps\<close>:
    what its builder made streams back and verifies, while a map it merely accepts may panic when it
    is streamed; \<open>checksum_guards\<close> says that a verified one does not.
    \<open>RR_Terms_Exact\<close>: what a query returns over a file that holds the right parts; \<open>RR_Terms_Written\<close>:
    the written file is one; \<open>RR_Terms_Search\<close>: from documents to answers; \<open>RR_Terms_Safe\<close>: arbitrary bytes.
  \<^item> \<open>RR_Facet\<close>: reader, counting waves, digests and writer of the facet sidecar.  \<open>RR_Facet_Written\<close>,
    \<open>RR_Facet_Open\<close>, \<open>RR_Facet_Load\<close>: the written file boots and loads its heads; \<open>RR_Facet_Store\<close>,
    \<open>RR_Facet_Filter\<close>, \<open>RR_Facet_Counts\<close>: what an opened sidecar holds, resolves to and counts;
    \<open>RR_Facet_Exact\<close>: the properties from documents to answers; \<open>RR_Facet_Digest\<close>: the digests, over
    the locale \<open>cursor\<close> that both parsers' cursors interpret; \<open>RR_Facet_Limits\<close>: where code and format
    part (a custom head boundary, unbounded digest offsets).
  \<^item> \<open>RR_Records\<close>, \<open>RR_Records_Zstd\<close>: reader and writers of the record store, what a \<open>get_many\<close> sees of
    preloads that overlap it, and compressed stores; the zstd libraries are parameters.
  \<^item> \<open>RR_Catalog\<close>, \<open>RR_Secondary\<close>: the two compositions, shown exact from written files to pages.
  \<^item> \<open>RR_Hotcache\<close>: writer and reader of the boot bundle, for written and for arbitrary files.
  \<^item> \<open>RR_Float\<close>: IEEE 754 arithmetic, every operation exact on integers and then rounded.  \<open>RR_Bm25\<close>:
    accumulator, writer, reader and searches of the impact sidecar, the logarithm a parameter;
    \<open>RR_Bm25_Store\<close>: reranking over a stored sidecar; \<open>RR_Bm25_Written\<close>: the written one is such;
    \<open>RR_Bm25_Search\<close>, \<open>RR_Bm25_Exact\<close>: from documents to ranked answers.

  \<^bold>\<open>State and data.\<close> A Rust struct is a record with the struct's fields, an enum a datatype, an async
  method a function of the fetcher (concurrent waves make all their reads, then look at the results
  in order).  A \<open>u32\<close> or \<open>u64\<close> that is only compared and added is a \<open>nat\<close> with its limit written in
  (\<open>U16\<close> to \<open>U128\<close>); hashes, packed keys and column values are words.  \<open>um\<close> is \<open>usize::MAX + 1\<close>, a
  parameter, so that 32-bit (wasm32) behaviour is covered.  A Roaring bitmap is the set of its
  documents.

  \<^bold>\<open>Lemma groups.\<close> For each format: the written file reads back (round trip), queries over it return
  exactly what the written data implies (functional), and hostile bytes do not make the reader panic
  (safety), within the limits each theorem states: for the text index and the sort columns the
  fetcher may panic on huge reads and the bounds of the formats exclude those on a 64-bit target
  (opening: on every width); for the term index, where nothing bounds the length of a head posting
  (\<open>head_buffer_overflows\<close>), and for the lookup, the filters, the record store and the hot cache the
  fetcher is one that does not panic; \<open>topk\<close> is excepted on NaN.  For the stateful parts: invariants over all sequences of calls, refinement of the cache
  by its abstract list, liveness of the gate.  Every locale is interpreted on the model's own
  definitions.

  \<^bold>\<open>Bounds and termination.\<close> Loops recurse on a shrinking window, position or list and are proved total;
  only \<open>load_tail\<close>, which calls back into the cursor, is a partial function, and it is proved to
  return from every reachable state.  No fuel is used to define the code's loops, except the number
  of windows per call, which is the code's own bound, and \<open>scan_drain\<close>, which stands for a caller.

  \<^bold>\<open>Not modelled.\<close> Vector search (quantised distances and embeddings), split sets and their bundles, the Python
  and JavaScript bindings, the command-line tools and examples, the trace of pricing waves.  Apart from the capacity check of
  \<open>FileFetch\<close> memory never runs out.
\<close>

end
